(* ===== verification/Prelude.thy ===== *)
theory Prelude
  imports Main "HOL-Library.Word" "HOL-Library.AList" "HOL-Library.Multiset"
begin

text \<open>
  What every component theory shares: the machine types of \<open>core/types.hpp\<close>, the outcome of a
  computation that may hit undefined behaviour or exhaust memory, the loops of the source as
  combinators, raw array access, hash maps with an explicit iteration order, and the generic
  lemmas about them.
\<close>

section \<open>Collections of facts\<close>

named_theorems fault_simps \<open>rewriting of computations that may fault\<close>
named_theorems unat_simps \<open>reading word arithmetic in the natural numbers\<close>

section \<open>Machine types\<close>

text \<open>
  \<open>size_t\<close> is an unsigned 64-bit integer whose arithmetic wraps. The signed \<open>index_t\<close>
  (\<open>int64_t\<close>) has undefined overflow, so it is an \<open>int\<close> and each arithmetic operation on it
  goes through the range check \<open>s64\<close>. A pointer is an address, \<open>0\<close> the null pointer.
\<close>

type_synonym size_t = "64 word"
type_synonym index_t = int
type_synonym ptr = nat

abbreviation (input) nullptr :: ptr where "nullptr \<equiv> 0"

section \<open>Computations that may fault\<close>

text \<open>
  The C++ code relies on the absence of undefined behaviour; the model makes each instance of it
  a value. \<open>Process_Exit\<close> is a call of \<open>exit\<close>. \<open>Out_Of_Fuel\<close> never comes from a primitive: it
  marks fuel that ran out.
\<close>

datatype fault =
    Null_Deref
  | Out_Of_Bounds
  | Div_By_Zero
  | Signed_Overflow
  | Bad_Alloc
  | Empty_Container
  | Invalid_Free
  | Uninit_Read
  | Assertion_Failed
  | Overlapping_Copy
  | Process_Exit
  | Out_Of_Fuel

type_synonym 'a comp = "fault + 'a"

fun rbind :: "'e + 'a \<Rightarrow> ('a \<Rightarrow> 'e + 'b) \<Rightarrow> 'e + 'b" where
  "rbind (Inl e) f = Inl e"
| "rbind (Inr a) f = f a"

lemma rbind_eq_Inr [fault_simps]:
  "rbind m f = Inr b \<longleftrightarrow> (\<exists>a. m = Inr a \<and> f a = Inr b)"
  by (cases m) auto

lemma rbind_eq_Inl [fault_simps]:
  "rbind m f = Inl e \<longleftrightarrow> m = Inl e \<or> (\<exists>a. m = Inr a \<and> f a = Inl e)"
  by (cases m) auto

lemma rbind_assoc: "rbind (rbind m f) g = rbind m (\<lambda>a. rbind (f a) g)"
  by (cases m) auto

lemma rbind_Inr_right [simp]: "rbind m Inr = m"
  by (cases m) auto

lemma rbind_cong: "m = m' \<Longrightarrow> (\<And>a. f a = g a) \<Longrightarrow> rbind m f = rbind m' g"
  by (cases m') auto

definition guard :: "'e \<Rightarrow> bool \<Rightarrow> 'e + unit" where
  "guard e b = (if b then Inr () else Inl e)"

lemma guard_eq [fault_simps]:
  "guard e b = Inr u \<longleftrightarrow> b"
  "guard e b = Inl e' \<longleftrightarrow> \<not> b \<and> e' = e"
  by (auto simp: guard_def)

definition s64 :: "int \<Rightarrow> int comp" where
  "s64 x = (if - (2 ^ 63) \<le> x \<and> x < 2 ^ 63 then Inr x else Inl Signed_Overflow)"

lemma s64_eq_Inr [fault_simps]:
  "s64 x = Inr y \<longleftrightarrow> y = x \<and> - (2 ^ 63) \<le> x \<and> x < 2 ^ 63"
  by (auto simp: s64_def)

text \<open>Unsigned remainder, and access through a pointer that may be null.\<close>

definition umod :: "size_t \<Rightarrow> size_t \<Rightarrow> size_t comp" where
  "umod a b = (if b = 0 then Inl Div_By_Zero else Inr (a mod b))"

definition deref :: "'a option \<Rightarrow> 'a comp" where
  "deref p = (case p of None \<Rightarrow> Inl Null_Deref | Some x \<Rightarrow> Inr x)"

lemma umod_nonzero [simp]: "b \<noteq> 0 \<Longrightarrow> umod a b = Inr (a mod b)"
  by (simp add: umod_def)

lemma deref_Some [simp]: "deref (Some x) = Inr x"
  by (simp add: deref_def)

section \<open>Arrays\<close>

text \<open>
  A raw buffer is a list; a read or a write outside it is undefined behaviour.
\<close>

definition aget :: "'a list \<Rightarrow> nat \<Rightarrow> 'a comp" where
  "aget xs i = (if i < length xs then Inr (xs ! i) else Inl Out_Of_Bounds)"

definition aset :: "'a list \<Rightarrow> nat \<Rightarrow> 'a \<Rightarrow> 'a list comp" where
  "aset xs i x = (if i < length xs then Inr (xs[i := x]) else Inl Out_Of_Bounds)"

definition igets :: "'a list \<Rightarrow> int \<Rightarrow> 'a comp" where
  "igets xs i = (if 0 \<le> i then aget xs (nat i) else Inl Out_Of_Bounds)"

definition isets :: "'a list \<Rightarrow> int \<Rightarrow> 'a \<Rightarrow> 'a list comp" where
  "isets xs i x = (if 0 \<le> i then aset xs (nat i) x else Inl Out_Of_Bounds)"

lemma aget_eq_Inr [fault_simps]: "aget xs i = Inr x \<longleftrightarrow> i < length xs \<and> x = xs ! i"
  by (auto simp: aget_def)

lemma aset_eq_Inr [fault_simps]: "aset xs i x = Inr ys \<longleftrightarrow> i < length xs \<and> ys = xs[i := x]"
  by (auto simp: aset_def)

lemma aget_in [simp]: "i < length xs \<Longrightarrow> aget xs i = Inr (xs ! i)"
  by (simp add: aget_def)

lemma aset_in [simp]: "i < length xs \<Longrightarrow> aset xs i x = Inr (xs[i := x])"
  by (simp add: aset_def)

lemma igets_nat [simp]: "igets xs (int i) = aget xs i"
  by (simp add: igets_def)

lemma isets_nat [simp]: "isets xs (int i) x = aset xs i x"
  by (simp add: isets_def)

section \<open>Loops\<close>

text \<open>
  \<open>for_each f is s\<close> runs the body \<open>f\<close> for each index of \<open>is\<close> in turn, threading the state;
  a fault leaves the loop.
\<close>

fun for_each :: "('i \<Rightarrow> 's \<Rightarrow> 'e + 's) \<Rightarrow> 'i list \<Rightarrow> 's \<Rightarrow> 'e + 's" where
  "for_each f [] s = Inr s"
| "for_each f (i # is) s = rbind (f i s) (for_each f is)"

lemma for_each_append: "for_each f (is @ js) s = rbind (for_each f is s) (for_each f js)"
  by (induction "is" arbitrary: s) (simp_all add: rbind_assoc cong: rbind_cong)

lemma for_each_snoc: "for_each f (is @ [i]) s = rbind (for_each f is s) (f i)"
  by (simp add: for_each_append cong: rbind_cong)

lemma for_each_cong:
  "(\<And>i s. i \<in> set is \<Longrightarrow> f i s = g i s) \<Longrightarrow> for_each f is s = for_each g is s"
proof (induction "is" arbitrary: s)
  case (Cons i "is")
  then show ?case by (cases "g i s") simp_all
qed simp

lemma for_each_map: "for_each f (map g is) s = for_each (\<lambda>i. f (g i)) is s"
proof (induction "is" arbitrary: s)
  case (Cons i "is")
  then show ?case by (cases "f (g i) s") simp_all
qed simp

text \<open>The total-correctness rule of a counting loop: the invariant is indexed by the counter.\<close>

lemma for_each_upt:
  assumes "P m s" and "m \<le> n"
    and step: "\<And>i t. m \<le> i \<Longrightarrow> i < n \<Longrightarrow> P i t \<Longrightarrow> \<exists>t'. f i t = Inr t' \<and> P (Suc i) t'"
  shows "\<exists>t. for_each f [m..<n] s = Inr t \<and> P n t"
  using assms(2) step
proof (induction n rule: dec_induct)
  case base
  show ?case using assms(1) by simp
next
  case (step n)
  then obtain t where t: "for_each f [m..<n] s = Inr t" "P n t"
    using less_Suc_eq by force
  then obtain t' where "f n t = Inr t'" "P (Suc n) t'"
    using step.prems step.hyps by blast
  with t step.hyps show ?case by (simp add: for_each_snoc)
qed

text \<open>The same rule for a loop that counts down to 0.\<close>

lemma for_each_down:
  assumes "P n s"
    and step: "\<And>i t. i < n \<Longrightarrow> P (Suc i) t \<Longrightarrow> \<exists>t'. f i t = Inr t' \<and> P i t'"
  shows "\<exists>t. for_each f (rev [0..<n]) s = Inr t \<and> P 0 t"
  using assms
proof (induction n arbitrary: s)
  case (Suc n)
  obtain t where "f n s = Inr t" "P n t" using Suc.prems by blast
  moreover have "\<exists>u. for_each f (rev [0..<n]) t = Inr u \<and> P 0 u"
    using Suc.IH [OF \<open>P n t\<close>] Suc.prems(2) by simp
  ultimately show ?case by simp
qed simp

text \<open>A body that never faults makes the loop a fold.\<close>

lemma for_each_total:
  "(\<And>i s. i \<in> set is \<Longrightarrow> f i s = Inr (g i s)) \<Longrightarrow> for_each f is s = Inr (fold g is s)"
  by (induction "is" arbitrary: s) simp_all

section \<open>Words\<close>

lemma unat_less_mult: "unat (a :: size_t) < 18446744073709551616"
  using unsigned_less [of a] by simp

lemma unat_Suc_less [unat_simps]:
  "unat (a :: size_t) < n \<Longrightarrow> n < 18446744073709551616 \<Longrightarrow> unat (a + 1) = Suc (unat a)"
  by (simp add: unat_word_ariths)

lemma unat_Suc_bounded: "(a :: size_t) < b \<Longrightarrow> unat (a + 1) = Suc (unat a)"
  using unat_less_mult [of b] by (simp add: word_less_nat_alt unat_word_ariths)

lemma unat_plus_simple_size [unat_simps]:
  "unat (a :: size_t) + unat b < 18446744073709551616 \<Longrightarrow> unat (a + b) = unat a + unat b"
  by (simp add: unat_word_ariths)

lemma unat_minus_size [unat_simps]:
  "unat (b :: size_t) \<le> unat a \<Longrightarrow> unat (a - b) = unat a - unat b"
  by (simp add: unat_sub word_le_nat_alt)

lemma unat_mod_size [unat_simps]: "unat ((a :: size_t) mod b) = unat a mod unat b"
  by (rule unat_mod_distrib)

lemma sint_small:
  assumes "unat (w :: size_t) < 2 ^ 63"
  shows "sint w = int (unat w)"
proof -
  have u: "uint w = int (unat w)" by (rule uint_nat)
  have "int (unat w) < int (2 ^ 63)" using assms by (simp only: of_nat_less_iff)
  then have "uint w < 2 ^ 63" by (simp only: u of_nat_power of_nat_numeral)
  then have "sint w = uint w" unfolding sint_uint
    by (intro signed_take_bit_int_eq_self) (simp_all add: order_trans [of _ 0])
  from this u show ?thesis by (rule trans)
qed

lemma unat_of_nat_size [unat_simps]:
  "n < 18446744073709551616 \<Longrightarrow> unat (of_nat n :: size_t) = n"
  by (simp add: unat_of_nat)

section \<open>Hash maps\<close>

text \<open>
  A \<open>std::unordered_map\<close> is an association list with distinct keys: its order is the order in
  which iteration visits the entries, which the standard leaves open. Every theorem about a
  function that iterates is stated for an arbitrary such list, so it holds for every order.
  \<open>AList.update\<close> and \<open>AList.delete\<close> are \<open>operator[]\<close> assignment and \<open>erase\<close>.
\<close>

type_synonym ('k, 'v) umap = "('k \<times> 'v) list"

abbreviation umap_ok :: "('k, 'v) umap \<Rightarrow> bool" where
  "umap_ok m \<equiv> distinct (map fst m)"

definition umap_has :: "('k, 'v) umap \<Rightarrow> 'k \<Rightarrow> bool" where
  "umap_has m k = (map_of m k \<noteq> None)"

lemma umap_has_iff: "umap_has m k \<longleftrightarrow> k \<in> fst ` set m"
  by (simp add: umap_has_def map_of_eq_None_iff)

lemma update_same: "map_of m k = Some v \<Longrightarrow> AList.update k v m = m"
  by (induction m) auto

lemma umap_ok_update: "umap_ok m \<Longrightarrow> umap_ok (AList.update k v m)"
  by (rule distinct_update)

lemma umap_ok_delete: "umap_ok m \<Longrightarrow> umap_ok (AList.delete k m)"
  by (rule distinct_delete)

lemma length_update_umap:
  "length (AList.update k v m) = (if k \<in> fst ` set m then length m else Suc (length m))"
  by (induction m) auto

lemma map_of_map_snd: "map_of (map (\<lambda>(k, v). (k, f k v)) m) k = map_option (f k) (map_of m k)"
  by (induction m) auto

section \<open>Windows of a ring\<close>

text \<open>Positions less than \<open>c\<close> apart fall on distinct slots of a ring of \<open>c\<close> slots.\<close>

lemma mod_window_inj:
  assumes "(p :: nat) mod c = p' mod c" and "p \<le> p'" and "p' < p + c"
  shows "p = p'"
proof -
  have "c dvd p' - p" using assms(1) mod_eq_dvd_iff_nat [OF assms(2), of c] by simp
  moreover have "p' - p < c" using assms(2,3) by simp
  ultimately have "p' - p = 0" using nat_dvd_not_less by blast
  with assms(2) show ?thesis by simp
qed

lemma mod_window_eq_iff:
  "r \<le> (p :: nat) \<Longrightarrow> p < r + c \<Longrightarrow> r \<le> p' \<Longrightarrow> p' < r + c \<Longrightarrow> p mod c = p' mod c \<longleftrightarrow> p = p'"
  using mod_window_inj [of p c p'] mod_window_inj [of p' c p] by (cases "p \<le> p'") auto

lemma window_representative:
  assumes "0 < (c :: nat)"
  obtains p where "l \<le> p" "p < l + c" "p mod c = pos mod c"
proof (rule that)
  let ?p = "l + (pos + (c * l - l)) mod c"
  show "l \<le> ?p" "?p < l + c" using assms by simp_all
  have "l \<le> c * l" using assms by (cases c) simp_all
  then have "l + (pos + (c * l - l)) = pos + c * l"
    using le_add_diff_inverse [of l "c * l"] by linarith
  then show "?p mod c = pos mod c" by (metis mod_add_right_eq mod_mult_self2)
qed

section \<open>Lists\<close>

lemma sum_list_update_umap:
  assumes "umap_ok m" and "map_of m k = None"
  shows "sum_list (map snd (AList.update k v m)) = sum_list (map snd m) + (v :: nat)"
  using assms(2) by (induction m) (auto split: if_splits)

lemma sum_list_delete_umap:
  assumes "umap_ok m" and "map_of m k = Some (v :: nat)"
  shows "sum_list (map snd m) = sum_list (map snd (AList.delete k m)) + v"
  using assms
proof (induction m)
  case (Cons p m)
  show ?case
  proof (cases "fst p = k")
    case True
    with Cons.prems have "k \<notin> fst ` set m" and "snd p = v" by auto
    then have "AList.delete k m = m"
      by simp
    with True \<open>snd p = v\<close> show ?thesis by (cases p) simp
  next
    case False
    with Cons show ?thesis by (cases p) auto
  qed
qed simp

lemma upto_upt: "0 \<le> n \<Longrightarrow> [0..n - 1] = map int [0..<nat n]"
proof (induction n rule: int_ge_induct)
  case (step n)
  then have "[0..n] = [0..n - 1] @ [n]" by (simp add: upto_rec2)
  with step show ?case by (simp add: nat_add_distrib)
qed simp

lemma take_Suc_list_update: "i < length xs \<Longrightarrow> take (Suc i) (xs[i := x]) = take i xs @ [x]"
  by (simp add: take_Suc_conv_app_nth)

lemma prod_list_pos: "(\<forall>d \<in> set ds. (0::int) < d) \<Longrightarrow> 0 < prod_list ds"
  by (induction ds) simp_all

lemma prod_list_take_le:
  assumes "\<forall>d \<in> set ds. (0::int) < d"
  shows "prod_list (take i ds) \<le> prod_list ds" and "prod_list (drop i ds) \<le> prod_list ds"
proof -
  have split: "prod_list ds = prod_list (take i ds) * prod_list (drop i ds)"
    by (metis append_take_drop_id prod_list.append)
  have "0 < prod_list (take i ds)" and "0 < prod_list (drop i ds)"
    using assms by (meson in_set_takeD in_set_dropD prod_list_pos)+
  then show "prod_list (take i ds) \<le> prod_list ds" and "prod_list (drop i ds) \<le> prod_list ds"
    unfolding split by (simp_all add: mult_le_cancel_left1 mult_le_cancel_right1)
qed

lemma prod_list_take_Suc:
  "i < length ds \<Longrightarrow> prod_list (take (Suc i) ds) = prod_list (take i ds) * (ds ! i :: int)"
  by (simp add: take_Suc_conv_app_nth)

lemma prod_list_drop_nth:
  "i < length ds \<Longrightarrow> prod_list (drop i ds) = (ds ! i :: int) * prod_list (drop (Suc i) ds)"
  by (simp add: Cons_nth_drop_Suc [symmetric])

lemma nth_upt_eq_map: "map (\<lambda>i. xs ! i) [0..<length xs] = xs"
  by (rule map_nth)

text \<open>A sum over a list when one entry changes.\<close>

lemma sum_list_map_update:
  "i < length xs \<Longrightarrow> sum_list (map f (xs[i := x])) + f (xs ! i) = sum_list (map f xs) + (f x :: 'a :: comm_monoid_add)"
  by (induction xs arbitrary: i) (auto simp: nth_Cons' ac_simps split: nat.split)

lemma sum_list_map_update_group:
  "i < length xs \<Longrightarrow> sum_list (map f (xs[i := x])) = sum_list (map f xs) - f (xs ! i) + (f x :: 'a :: ab_group_add)"
  using sum_list_map_update [of i xs f x] by (simp add: algebra_simps)

end
