(* ===== verification/Core_Types.thy ===== *)
theory Core_Types
  imports Prelude
begin

text \<open>
  \<open>include/core/types.hpp\<close>: the element types, layouts and device types, and the class
  \<open>TensorShape\<close>, a fixed array of \<open>kMaxDim\<close> dimensions with a separate dimension count that its
  constructors do not bound.
\<close>

section \<open>Element types, layouts, devices\<close>

datatype DType = kFloat32 | kFloat16 | kBFloat16 | kInt8 | kInt32 | kInt64 | kBool | kFloat64 | kUInt8

fun kDTypeSize :: "DType \<Rightarrow> size_t" where
  "kDTypeSize kFloat32 = 4"
| "kDTypeSize kFloat16 = 2"
| "kDTypeSize kBFloat16 = 2"
| "kDTypeSize kInt8 = 1"
| "kDTypeSize kInt32 = 4"
| "kDTypeSize kInt64 = 8"
| "kDTypeSize kBool = 1"
| "kDTypeSize kFloat64 = 8"
| "kDTypeSize kUInt8 = 1"

fun kDTypeName :: "DType \<Rightarrow> string" where
  "kDTypeName kFloat32 = ''float32''"
| "kDTypeName kFloat16 = ''float16''"
| "kDTypeName kBFloat16 = ''bfloat16''"
| "kDTypeName kInt8 = ''int8''"
| "kDTypeName kInt32 = ''int32''"
| "kDTypeName kInt64 = ''int64''"
| "kDTypeName kBool = ''bool''"
| "kDTypeName kFloat64 = ''float64''"
| "kDTypeName kUInt8 = ''uint8''"

datatype Layout = kContiguous | kColumnMajor | kStrided

fun kLayoutName :: "Layout \<Rightarrow> string" where
  "kLayoutName kContiguous = ''contiguous''"
| "kLayoutName kColumnMajor = ''column_major''"
| "kLayoutName kStrided = ''strided''"

datatype DeviceType = kCPU | kCUDA | kCPUPinned

fun kDeviceTypeName :: "DeviceType \<Rightarrow> string" where
  "kDeviceTypeName kCPU = ''cpu''"
| "kDeviceTypeName kCUDA = ''cuda''"
| "kDeviceTypeName kCPUPinned = ''cpu_pinned''"

lemma kDTypeName_inj: "kDTypeName a = kDTypeName b \<longleftrightarrow> a = b"
  by (cases a; cases b) simp_all

lemma kDTypeSize_pos: "0 < unat (kDTypeSize d) \<and> unat (kDTypeSize d) \<le> 8"
  by (cases d) simp_all

definition kDefaultAlignment :: size_t where "kDefaultAlignment = 64"
definition kMaxDim :: nat where "kMaxDim = 8"

record MemoryDesc =
  md_device :: DeviceType
  md_dtype :: DType
  md_layout :: Layout
  md_alignment :: size_t

definition MemoryDesc_default :: MemoryDesc where
  "MemoryDesc_default = \<lparr>md_device = kCPU, md_dtype = kFloat32, md_layout = kContiguous,
     md_alignment = kDefaultAlignment\<rparr>"

definition bytes_per_element :: "MemoryDesc \<Rightarrow> size_t" where
  "bytes_per_element m = kDTypeSize (md_dtype m)"

section \<open>Tensor shapes\<close>

record TensorShape =
  shp_dims :: "index_t list"
  shp_ndims :: index_t

definition TensorShape_default :: TensorShape where
  "TensorShape_default = \<lparr>shp_dims = replicate kMaxDim 0, shp_ndims = 0\<rparr>"

text \<open>
  The three constructors. The one from an initializer list stores at most \<open>kMaxDim\<close> dimensions
  but counts them all; the other two store every dimension, wherever that lands.
\<close>

fun store_capped :: "index_t list \<Rightarrow> nat \<Rightarrow> index_t list \<Rightarrow> index_t list" where
  "store_capped ds i [] = ds"
| "store_capped ds i (d # rest) =
     (if i < kMaxDim then store_capped (ds[i := d]) (Suc i) rest else store_capped ds i rest)"

definition TensorShape_init :: "index_t list \<Rightarrow> TensorShape" where
  "TensorShape_init ds =
     \<lparr>shp_dims = store_capped (shp_dims TensorShape_default) 0 ds, shp_ndims = int (length ds)\<rparr>"

definition TensorShape_vector :: "index_t list \<Rightarrow> TensorShape comp" where
  "TensorShape_vector ds =
     rbind (for_each (\<lambda>i out. rbind (aget ds i) (aset out i)) [0..<length ds]
              (shp_dims TensorShape_default))
       (\<lambda>out. Inr \<lparr>shp_dims = out, shp_ndims = int (length ds)\<rparr>)"

definition TensorShape_array :: "index_t list \<Rightarrow> index_t \<Rightarrow> TensorShape comp" where
  "TensorShape_array ds n =
     rbind (for_each (\<lambda>i out. rbind (aget ds i) (aset out i)) [0..<nat n]
              (shp_dims TensorShape_default))
       (\<lambda>out. Inr \<lparr>shp_dims = out, shp_ndims = n\<rparr>)"

definition shape_dim :: "TensorShape \<Rightarrow> size_t \<Rightarrow> index_t comp" where
  "shape_dim sh i = aget (shp_dims sh) (unat i)"

definition shape_set_dim :: "TensorShape \<Rightarrow> size_t \<Rightarrow> index_t \<Rightarrow> TensorShape comp" where
  "shape_set_dim sh i d = rbind (aset (shp_dims sh) (unat i) d) (\<lambda>ds. Inr (sh\<lparr>shp_dims := ds\<rparr>))"

definition shape_empty :: "TensorShape \<Rightarrow> bool" where
  "shape_empty sh = (shp_ndims sh = 0)"

definition num_elements :: "TensorShape \<Rightarrow> index_t comp" where
  "num_elements sh =
     (if shp_ndims sh = 0 then Inr 0
      else for_each (\<lambda>i n. rbind (aget (shp_dims sh) i) (\<lambda>d. s64 (n * d)))
             [0..<nat (shp_ndims sh)] 1)"

definition shape_count :: "TensorShape \<Rightarrow> index_t \<Rightarrow> index_t \<Rightarrow> index_t comp" where
  "shape_count sh start0 end0 =
     (let start = (if start0 < 0 then shp_ndims sh + start0 else start0);
          fin = (if end0 < 0 then shp_ndims sh + end0 else end0)
      in for_each (\<lambda>i n. rbind (igets (shp_dims sh) i) (\<lambda>d. s64 (n * d))) [start..fin - 1] 1)"

definition strides :: "TensorShape \<Rightarrow> index_t list comp" where
  "strides sh =
     (if shp_ndims sh < 0 then Inl Bad_Alloc
      else for_each (\<lambda>i s. rbind (aget s (Suc i)) (\<lambda>x. rbind (aget (shp_dims sh) (Suc i))
               (\<lambda>d. rbind (s64 (x * d)) (aset s i))))
             (rev [0..<nat (shp_ndims sh - 1)]) (replicate (nat (shp_ndims sh)) 1))"

definition set_ndims :: "index_t \<Rightarrow> TensorShape \<Rightarrow> TensorShape" where
  "set_ndims n sh = sh\<lparr>shp_ndims := n\<rparr>"

definition shape_dims :: "TensorShape \<Rightarrow> index_t list comp" where
  "shape_dims sh =
     (if 0 \<le> shp_ndims sh \<and> nat (shp_ndims sh) \<le> length (shp_dims sh)
      then Inr (take (nat (shp_ndims sh)) (shp_dims sh)) else Inl Out_Of_Bounds)"

fun dims_equal :: "index_t list \<Rightarrow> index_t list \<Rightarrow> nat list \<Rightarrow> bool comp" where
  "dims_equal xs ys [] = Inr True"
| "dims_equal xs ys (i # is) =
     rbind (aget xs i) (\<lambda>x. rbind (aget ys i) (\<lambda>y.
       if x \<noteq> y then Inr False else dims_equal xs ys is))"

definition shape_eq :: "TensorShape \<Rightarrow> TensorShape \<Rightarrow> bool comp" where
  "shape_eq a b =
     (if shp_ndims a \<noteq> shp_ndims b then Inr False
      else dims_equal (shp_dims a) (shp_dims b) [0..<nat (shp_ndims a)])"

section \<open>Well-formed shapes\<close>

text \<open>
  A shape is well formed when its count lies within the array; \<open>sdims\<close> is the list of dimensions
  it denotes.
\<close>

definition shape_ok :: "TensorShape \<Rightarrow> bool" where
  "shape_ok sh \<longleftrightarrow> length (shp_dims sh) = kMaxDim \<and> 0 \<le> shp_ndims sh \<and> shp_ndims sh \<le> int kMaxDim"

definition sdims :: "TensorShape \<Rightarrow> index_t list" where
  "sdims sh = take (nat (shp_ndims sh)) (shp_dims sh)"

lemma length_sdims: "shape_ok sh \<Longrightarrow> length (sdims sh) = nat (shp_ndims sh)"
  by (auto simp: shape_ok_def sdims_def)

lemma sdims_nth: "shape_ok sh \<Longrightarrow> i < nat (shp_ndims sh) \<Longrightarrow> shp_dims sh ! i = sdims sh ! i"
  by (simp add: sdims_def)

lemma shape_dims_ok: "shape_ok sh \<Longrightarrow> shape_dims sh = Inr (sdims sh)"
  by (auto simp: shape_dims_def shape_ok_def sdims_def)

lemma store_capped_eq:
  assumes "i \<le> kMaxDim" and "length ds = kMaxDim"
  shows "store_capped ds i xs =
    take i ds @ take (kMaxDim - i) xs @ drop (i + length (take (kMaxDim - i) xs)) ds"
  using assms
proof (induction xs arbitrary: ds i)
  case (Cons x xs)
  show ?case
  proof (cases "i < kMaxDim")
    case True
    then have "kMaxDim - i = Suc (kMaxDim - Suc i)" by simp
    with True Cons show ?thesis
      by (simp add: take_Suc_list_update)
  next
    case False
    with Cons show ?thesis by simp
  qed
qed simp

lemma TensorShape_init_ok:
  assumes "length ds \<le> kMaxDim"
  shows "shape_ok (TensorShape_init ds)" and "sdims (TensorShape_init ds) = ds"
  using assms store_capped_eq [of 0 "shp_dims TensorShape_default" ds]
  by (auto simp: shape_ok_def sdims_def TensorShape_init_def TensorShape_default_def)

lemma copy_loop:
  assumes "n \<le> length ds" and "n \<le> length out"
  shows "for_each (\<lambda>i out. rbind (aget ds i) (aset out i)) [0..<n] out
    = Inr (take n ds @ drop n out)"
proof -
  have "\<exists>t. for_each (\<lambda>i out. rbind (aget ds i) (aset out i)) [0..<n] out = Inr t \<and>
      t = take n ds @ drop n out"
  proof (rule for_each_upt)
    fix i t
    assume "i < n" and t: "t = take i ds @ drop i out"
    have "(take i ds @ drop i out)[i := ds ! i] = take (Suc i) ds @ drop (Suc i) out"
      using \<open>i < n\<close> assms by (simp add: list_update_append take_Suc_conv_app_nth upd_conv_take_nth_drop)
    with \<open>i < n\<close> assms t
    show "\<exists>t'. rbind (aget ds i) (aset t i) = Inr t' \<and> t' = take (Suc i) ds @ drop (Suc i) out"
      by simp
  qed simp_all
  then show ?thesis by blast
qed

lemma TensorShape_vector_ok:
  assumes "length ds \<le> kMaxDim"
  shows "\<exists>sh. TensorShape_vector ds = Inr sh \<and> shape_ok sh \<and> sdims sh = ds"
  using assms
  by (simp add: TensorShape_vector_def TensorShape_default_def copy_loop shape_ok_def sdims_def)

text \<open>Nine dimensions do not fit, whichever constructor receives them.\<close>

lemma TensorShape_vector_overflow:
  assumes "kMaxDim < length ds"
  shows "TensorShape_vector ds = Inl Out_Of_Bounds"
proof -
  let ?f = "\<lambda>i out. rbind (aget ds i) (aset out i)"
  have split: "[0..<length ds] = [0..<kMaxDim] @ kMaxDim # [Suc kMaxDim..<length ds]"
    using assms upt_add_eq_append [of 0 kMaxDim "length ds - kMaxDim"]
    by (simp add: upt_conv_Cons)
  have "for_each ?f [0..<kMaxDim] (replicate kMaxDim 0) = Inr (take kMaxDim ds)"
    using assms copy_loop [of kMaxDim ds "replicate kMaxDim 0"] by simp
  with assms show ?thesis
    by (simp add: TensorShape_vector_def TensorShape_default_def split for_each_append aset_def)
qed

lemma TensorShape_array_ok:
  assumes "length ds = kMaxDim" and "0 \<le> n" and "n \<le> int kMaxDim"
  shows "\<exists>sh. TensorShape_array ds n = Inr sh \<and> shape_ok sh \<and> sdims sh = take (nat n) ds"
  using assms
  by (simp add: TensorShape_array_def TensorShape_default_def copy_loop shape_ok_def sdims_def)

section \<open>Sizes and strides of a well-formed shape\<close>

definition dims_fit :: "index_t list \<Rightarrow> bool" where
  "dims_fit ds \<longleftrightarrow> (\<forall>d \<in> set ds. 0 < d) \<and> prod_list ds < 2 ^ 63"

lemma dims_fit_partial:
  assumes "dims_fit ds"
  shows "0 < prod_list (take i ds)" and "prod_list (take i ds) < 2 ^ 63"
    and "0 < prod_list (drop i ds)" and "prod_list (drop i ds) < 2 ^ 63"
proof -
  have pos: "\<forall>d \<in> set ds. 0 < d" and fit: "prod_list ds < 2 ^ 63"
    using assms by (auto simp: dims_fit_def)
  show "0 < prod_list (take i ds)" "0 < prod_list (drop i ds)"
    using pos by (meson in_set_takeD in_set_dropD prod_list_pos)+
  show "prod_list (take i ds) < 2 ^ 63" "prod_list (drop i ds) < 2 ^ 63"
    using prod_list_take_le [OF pos, of i] fit by linarith+
qed

lemma prod_loop:
  assumes "dims_fit ds" and "length ds \<le> length xs" and "take (length ds) xs = ds"
  shows "for_each (\<lambda>i n. rbind (aget xs i) (\<lambda>d. s64 (n * d))) [0..<length ds] 1 = Inr (prod_list ds)"
proof -
  have "\<exists>t. for_each (\<lambda>i n. rbind (aget xs i) (\<lambda>d. s64 (n * d))) [0..<length ds] 1 = Inr t \<and>
      t = prod_list (take (length ds) ds)"
  proof (rule for_each_upt)
    fix i t
    assume i: "i < length ds" and t: "t = prod_list (take i ds)"
    have "xs ! i = ds ! i" using i assms(3) by (metis nth_take)
    moreover have "t * ds ! i = prod_list (take (Suc i) ds)"
      using i t by (simp add: prod_list_take_Suc)
    ultimately show "\<exists>t'. rbind (aget xs i) (\<lambda>d. s64 (t * d)) = Inr t' \<and>
        t' = prod_list (take (Suc i) ds)"
      using i assms(2) dims_fit_partial [OF assms(1), of "Suc i"] by (simp add: s64_def)
  qed simp_all
  then show ?thesis by simp
qed

lemma num_elements_ok:
  assumes "shape_ok sh" and "dims_fit (sdims sh)"
  shows "num_elements sh = Inr (if shp_ndims sh = 0 then 0 else prod_list (sdims sh))"
  using assms length_sdims [OF assms(1)] prod_loop [OF assms(2), of "shp_dims sh"]
  by (auto simp: num_elements_def sdims_def shape_ok_def)

lemma shape_count_all:
  assumes "shape_ok sh" and "dims_fit (sdims sh)" and "shp_ndims sh \<noteq> 0"
  shows "shape_count sh 0 (shp_ndims sh) = num_elements sh"
proof -
  have "[0..shp_ndims sh - 1] = map int [0..<nat (shp_ndims sh)]"
    using assms by (simp add: shape_ok_def upto_upt)
  with assms show ?thesis
    by (simp add: shape_count_def num_elements_def for_each_map shape_ok_def)
qed

text \<open>Row-major strides: the stride of a dimension is the product of those to its right.\<close>

definition row_major :: "index_t list \<Rightarrow> index_t list" where
  "row_major ds = map (\<lambda>i. prod_list (drop (Suc i) ds)) [0..<length ds]"

lemma strides_ok:
  assumes "shape_ok sh" and "dims_fit (sdims sh)"
  shows "strides sh = Inr (row_major (sdims sh))"
proof (cases "shp_ndims sh = 0")
  case True
  then show ?thesis by (simp add: strides_def row_major_def sdims_def)
next
  case False
  define ds n where "ds = sdims sh" and "n = length ds"
  have n: "n = nat (shp_ndims sh)" "0 < n" "n \<le> length (shp_dims sh)"
    using assms(1) False by (auto simp: n_def ds_def length_sdims shape_ok_def)
  have dim: "shp_dims sh ! i = ds ! i" if "i < n" for i
    using that assms(1) n by (simp add: ds_def sdims_nth)
  define body where "body = (\<lambda>i s. rbind (aget s (Suc i)) (\<lambda>x. rbind (aget (shp_dims sh) (Suc i))
               (\<lambda>d. rbind (s64 (x * d)) (aset s i))))"
  define P where "P = (\<lambda>k s. s = replicate k 1 @ map (\<lambda>j. prod_list (drop (Suc j) ds)) [k..<n])"
  have "\<exists>t. for_each body (rev [0..<n - 1]) (replicate n 1) = Inr t \<and> P 0 t"
  proof (rule for_each_down)
    show "P (n - 1) (replicate n 1)"
    proof -
      have "[n - 1..<n] = [n - 1]" using n by (simp add: upt_rec)
      moreover have "replicate n (1::int) = replicate (n - 1) 1 @ [1]"
        using n by (metis Suc_pred' replicate_append_same replicate_Suc)
      ultimately show ?thesis using n by (simp add: P_def n_def)
    qed
    fix i s
    assume i: "i < n - 1" and s: "P (Suc i) s"
    have next_s: "s ! Suc i = prod_list (drop (Suc (Suc i)) ds)" and len: "length s = n"
      using i s nth_upt [of "Suc i" 0 n] by (simp_all add: P_def nth_append)
    have mult: "s ! Suc i * ds ! Suc i = prod_list (drop (Suc i) ds)"
      using i by (simp add: next_s n_def prod_list_drop_nth [of "Suc i" ds])
    have rep: "replicate (Suc i) (1::int) = replicate i 1 @ [1]"
      by (simp add: replicate_append_same)
    have "s[i := prod_list (drop (Suc i) ds)] =
        replicate i 1 @ map (\<lambda>j. prod_list (drop (Suc j) ds)) [i..<n]"
      using i s rep by (simp add: P_def list_update_append upt_conv_Cons [of i n] del: replicate.simps)
    then have "P i (s[i := prod_list (drop (Suc i) ds)])" by (simp add: P_def)
    then show "\<exists>t'. body i s = Inr t' \<and> P i t'"
      using i len n dim [of "Suc i"] mult dims_fit_partial [OF assms(2), of "Suc i"]
      by (simp add: body_def s64_def ds_def)
  qed
  then show ?thesis
    using n False assms(1)
    by (auto simp: strides_def P_def row_major_def body_def ds_def n_def shape_ok_def nat_diff_distrib)
qed

lemma dims_equal_ok:
  assumes "\<forall>i \<in> set is. i < length xs \<and> i < length ys"
  shows "dims_equal xs ys is = Inr (\<forall>i \<in> set is. xs ! i = ys ! i)"
  using assms by (induction "is") auto

lemma shape_eq_ok:
  assumes "shape_ok a" and "shape_ok b"
  shows "shape_eq a b = Inr (sdims a = sdims b)"
proof (cases "shp_ndims a = shp_ndims b")
  case True
  have "dims_equal (shp_dims a) (shp_dims b) [0..<nat (shp_ndims a)]
      = Inr (\<forall>i \<in> set [0..<nat (shp_ndims a)]. shp_dims a ! i = shp_dims b ! i)"
    using assms True by (intro dims_equal_ok) (auto simp: shape_ok_def)
  with assms True show ?thesis
    by (auto simp: shape_eq_def shape_ok_def sdims_def list_eq_iff_nth_eq)
next
  case False
  with assms have "length (sdims a) \<noteq> length (sdims b)"
    by (simp add: length_sdims shape_ok_def eq_nat_nat_iff)
  with False show ?thesis by (auto simp: shape_eq_def)
qed

section \<open>Properties\<close>

text \<open>
  A shape built from at most eight positive dimensions whose product fits in \<open>int64_t\<close> gives
  them back; its element count is their product (0 for no dimension), which \<open>count\<close> over all
  dimensions confirms, and its strides are the row-major ones; no step of the loops overflows or
  leaves an array.
\<close>

theorem shape_of_dims:
  assumes "length ds \<le> kMaxDim" and "dims_fit ds"
  shows "shape_dims (TensorShape_init ds) = Inr ds \<and>
    num_elements (TensorShape_init ds) = Inr (if ds = [] then 0 else prod_list ds) \<and>
    strides (TensorShape_init ds) = Inr (row_major ds) \<and>
    (ds \<noteq> [] \<longrightarrow> shape_count (TensorShape_init ds) 0 (int (length ds)) = Inr (prod_list ds)) \<and>
    (\<exists>sh. TensorShape_vector ds = Inr sh \<and> shape_eq (TensorShape_init ds) sh = Inr True)"
proof -
  note ok = TensorShape_init_ok [OF assms(1)]
  have n: "shp_ndims (TensorShape_init ds) = int (length ds)" by (simp add: TensorShape_init_def)
  have elems: "num_elements (TensorShape_init ds) = Inr (if ds = [] then 0 else prod_list ds)"
    using num_elements_ok [OF ok(1)] assms(2) by (simp add: ok n)
  moreover have "ds \<noteq> [] \<longrightarrow> shape_count (TensorShape_init ds) 0 (int (length ds)) = Inr (prod_list ds)"
    using shape_count_all [OF ok(1)] assms(2) elems by (simp add: ok n)
  moreover have "\<exists>sh. TensorShape_vector ds = Inr sh \<and> shape_eq (TensorShape_init ds) sh = Inr True"
    using TensorShape_vector_ok [OF assms(1)] shape_eq_ok [OF ok(1)] ok(2) by auto
  ultimately show ?thesis
    using shape_dims_ok [OF ok(1)] strides_ok [OF ok(1)] assms(2) by (simp add: ok)
qed

lemma shape_of_dims_witness:
  "shape_dims (TensorShape_init [2, 3, 4]) = Inr [2, 3, 4] \<and>
   num_elements (TensorShape_init [2, 3, 4]) = Inr 24 \<and>
   strides (TensorShape_init [2, 3, 4]) = Inr [12, 4, 1]"
  using shape_of_dims [of "[2, 3, 4]"]
  by (simp add: kMaxDim_def dims_fit_def row_major_def upt_rec)

text \<open>An operation that may overflow but does nothing else wrong, and a loop of them.\<close>

abbreviation at_most_overflow :: "('a \<Rightarrow> bool) \<Rightarrow> 'a comp \<Rightarrow> bool" where
  "at_most_overflow Q r \<equiv> (case r of Inr x \<Rightarrow> Q x | Inl e \<Rightarrow> e = Signed_Overflow)"

lemma for_each_at_most_overflow:
  assumes "\<And>i x. i \<in> set is \<Longrightarrow> Q x \<Longrightarrow> at_most_overflow Q (f i x)" and "Q x"
  shows "at_most_overflow Q (for_each f is x)"
  using assms
proof (induction "is" arbitrary: x)
  case (Cons i js)
  then have "at_most_overflow Q (f i x)" by simp
  with Cons show ?case by (cases "f i x") simp_all
qed simp



text \<open>
  More than eight dimensions are not refused: the constructor from a vector writes outside the
  array, and the shape the constructor from an initializer list builds counts them all, so that
  reading its dimensions or comparing it with itself leaves the array.
\<close>

theorem shape_too_many_dims:
  assumes "kMaxDim < length ds"
  shows "TensorShape_vector ds = Inl Out_Of_Bounds \<and>
    shp_ndims (TensorShape_init ds) = int (length ds) \<and>
    shape_dims (TensorShape_init ds) = Inl Out_Of_Bounds \<and>
    shape_eq (TensorShape_init ds) (TensorShape_init ds) = Inl Out_Of_Bounds"
proof -
  have len: "length (shp_dims (TensorShape_init ds)) = kMaxDim"
    using store_capped_eq [of 0 "shp_dims TensorShape_default" ds] assms
    by (simp add: TensorShape_init_def TensorShape_default_def)
  have "dims_equal xs xs [k..<n] = Inl Out_Of_Bounds"
    if "k \<le> length xs" "length xs < n" for xs k n
    using that
  proof (induction "length xs - k" arbitrary: k)
    case 0
    then show ?case by (simp add: upt_conv_Cons aget_def)
  next
    case (Suc m)
    then show ?case by (simp add: upt_conv_Cons aget_def)
  qed
  with assms len TensorShape_vector_overflow [OF assms] show ?thesis
    by (simp add: shape_dims_def shape_eq_def) (simp add: TensorShape_init_def)
qed

lemma shape_too_many_dims_witness:
  "TensorShape_vector (replicate 9 1) = Inl Out_Of_Bounds \<and>
   shape_dims (TensorShape_init (replicate 9 1)) = Inl Out_Of_Bounds"
  using shape_too_many_dims [of "replicate 9 1"] by (simp add: kMaxDim_def)

end
