(* ===== verification/Core_Status.thy ===== *)
theory Core_Status
  imports Prelude
begin

text \<open>
  \<open>include/core/status.hpp\<close>: status codes, the class \<open>Status\<close>, and \<open>Expected<T>\<close>, a tagged union
  over raw storage. The storage is explicit, with a constructor for bytes nothing was built in, so
  that reading the wrong member of the union is a fault of the model.
\<close>

section \<open>Status codes\<close>

datatype StatusCode =
    kOk | kError | kNotFound | kAlreadyExists | kInvalidArgument
  | kNotImplemented | kOutOfMemory | kResourceExhausted | kUnavAILABLE | kPermissionDenied
  | kInvalidOperation | kDeadlineExceeded | kInternal | kCancelled | kCudaError
  | kCudaNotAvailable | kCudaOutOfMemory | kCudaInvalidDevice | kCudaKernelNotFound | kCudaLaunchFailure
  | kCudaIllegalAddress | kIpcError | kIpcSegmentNotFound | kIpcSegmentExists | kIpcPermissionDenied
  | kIpcQueueFull | kIpcQueueEmpty | kIpcTimeout | kPoolError | kPoolOutOfSlots
  | kPoolInvalidBlock | kPoolDoubleFree | kTensorError | kTensorInvalidShape | kTensorInvalidDtype
  | kTensorDeviceMismatch | kTensorBroadcastFailed | kDeviceError | kDeviceNotFound | kDeviceUnavailable
  | kDeviceInvalidId | kSchedulerError | kSchedulerFull | kSchedulerClosed | kSchedulerTimeout

primrec status_value :: "StatusCode \<Rightarrow> int" where
  "status_value kOk = 0"
| "status_value kError = 1"
| "status_value kNotFound = 2"
| "status_value kAlreadyExists = 3"
| "status_value kInvalidArgument = 4"
| "status_value kNotImplemented = 5"
| "status_value kOutOfMemory = 6"
| "status_value kResourceExhausted = 7"
| "status_value kUnavAILABLE = 8"
| "status_value kPermissionDenied = 9"
| "status_value kInvalidOperation = 10"
| "status_value kDeadlineExceeded = 11"
| "status_value kInternal = 12"
| "status_value kCancelled = 13"
| "status_value kCudaError = 100"
| "status_value kCudaNotAvailable = 101"
| "status_value kCudaOutOfMemory = 102"
| "status_value kCudaInvalidDevice = 103"
| "status_value kCudaKernelNotFound = 104"
| "status_value kCudaLaunchFailure = 105"
| "status_value kCudaIllegalAddress = 106"
| "status_value kIpcError = 200"
| "status_value kIpcSegmentNotFound = 201"
| "status_value kIpcSegmentExists = 202"
| "status_value kIpcPermissionDenied = 203"
| "status_value kIpcQueueFull = 204"
| "status_value kIpcQueueEmpty = 205"
| "status_value kIpcTimeout = 206"
| "status_value kPoolError = 300"
| "status_value kPoolOutOfSlots = 301"
| "status_value kPoolInvalidBlock = 302"
| "status_value kPoolDoubleFree = 303"
| "status_value kTensorError = 400"
| "status_value kTensorInvalidShape = 401"
| "status_value kTensorInvalidDtype = 402"
| "status_value kTensorDeviceMismatch = 403"
| "status_value kTensorBroadcastFailed = 404"
| "status_value kDeviceError = 500"
| "status_value kDeviceNotFound = 501"
| "status_value kDeviceUnavailable = 502"
| "status_value kDeviceInvalidId = 503"
| "status_value kSchedulerError = 600"
| "status_value kSchedulerFull = 601"
| "status_value kSchedulerClosed = 602"
| "status_value kSchedulerTimeout = 603"

primrec StatusCodeToString :: "StatusCode \<Rightarrow> string" where
  "StatusCodeToString kOk = ''OK''"
| "StatusCodeToString kError = ''Error''"
| "StatusCodeToString kNotFound = ''Not Found''"
| "StatusCodeToString kAlreadyExists = ''Already Exists''"
| "StatusCodeToString kInvalidArgument = ''Invalid Argument''"
| "StatusCodeToString kNotImplemented = ''Not Implemented''"
| "StatusCodeToString kOutOfMemory = ''Out of Memory''"
| "StatusCodeToString kResourceExhausted = ''Resource Exhausted''"
| "StatusCodeToString kUnavAILABLE = ''Unavailable''"
| "StatusCodeToString kPermissionDenied = ''Permission Denied''"
| "StatusCodeToString kInvalidOperation = ''Invalid Operation''"
| "StatusCodeToString kDeadlineExceeded = ''Deadline Exceeded''"
| "StatusCodeToString kInternal = ''Internal Error''"
| "StatusCodeToString kCancelled = ''Cancelled''"
| "StatusCodeToString kCudaError = ''CUDA Error''"
| "StatusCodeToString kCudaNotAvailable = ''CUDA Not Available''"
| "StatusCodeToString kCudaOutOfMemory = ''CUDA Out of Memory''"
| "StatusCodeToString kCudaInvalidDevice = ''CUDA Invalid Device''"
| "StatusCodeToString kCudaKernelNotFound = ''CUDA Kernel Not Found''"
| "StatusCodeToString kCudaLaunchFailure = ''CUDA Launch Failure''"
| "StatusCodeToString kCudaIllegalAddress = ''CUDA Illegal Address''"
| "StatusCodeToString kIpcError = ''IPC Error''"
| "StatusCodeToString kIpcSegmentNotFound = ''IPC Segment Not Found''"
| "StatusCodeToString kIpcSegmentExists = ''IPC Segment Exists''"
| "StatusCodeToString kIpcPermissionDenied = ''IPC Permission Denied''"
| "StatusCodeToString kIpcQueueFull = ''IPC Queue Full''"
| "StatusCodeToString kIpcQueueEmpty = ''IPC Queue Empty''"
| "StatusCodeToString kIpcTimeout = ''IPC Timeout''"
| "StatusCodeToString kPoolError = ''Pool Error''"
| "StatusCodeToString kPoolOutOfSlots = ''Pool Out of Slots''"
| "StatusCodeToString kPoolInvalidBlock = ''Pool Invalid Block''"
| "StatusCodeToString kPoolDoubleFree = ''Pool Double Free''"
| "StatusCodeToString kTensorError = ''Tensor Error''"
| "StatusCodeToString kTensorInvalidShape = ''Tensor Invalid Shape''"
| "StatusCodeToString kTensorInvalidDtype = ''Tensor Invalid Dtype''"
| "StatusCodeToString kTensorDeviceMismatch = ''Tensor Device Mismatch''"
| "StatusCodeToString kTensorBroadcastFailed = ''Tensor Broadcast Failed''"
| "StatusCodeToString kDeviceError = ''Device Error''"
| "StatusCodeToString kDeviceNotFound = ''Device Not Found''"
| "StatusCodeToString kDeviceUnavailable = ''Device Unavailable''"
| "StatusCodeToString kDeviceInvalidId = ''Device Invalid ID''"
| "StatusCodeToString kSchedulerError = ''Scheduler Error''"
| "StatusCodeToString kSchedulerFull = ''Scheduler Queue Full''"
| "StatusCodeToString kSchedulerClosed = ''Scheduler Closed''"
| "StatusCodeToString kSchedulerTimeout = ''Scheduler Timeout''"

definition IsOk :: "StatusCode \<Rightarrow> bool" where
  "IsOk c = (c = kOk)"

section \<open>Status\<close>

record Status =
  st_code :: StatusCode
  st_message :: string

definition Status_make :: "StatusCode \<Rightarrow> string \<Rightarrow> Status" where
  "Status_make c msg = \<lparr>st_code = c, st_message = msg\<rparr>"

definition Status_Ok :: Status where
  "Status_Ok = \<lparr>st_code = kOk, st_message = []\<rparr>"

definition Status_Error :: "string \<Rightarrow> Status" where "Status_Error msg = Status_make kError msg"
definition Status_NotFound :: "string \<Rightarrow> Status" where "Status_NotFound msg = Status_make kNotFound msg"
definition Status_InvalidArgument :: "string \<Rightarrow> Status" where "Status_InvalidArgument msg = Status_make kInvalidArgument msg"
definition Status_NotImplemented :: "string \<Rightarrow> Status" where "Status_NotImplemented msg = Status_make kNotImplemented msg"
definition Status_OutOfMemory :: "string \<Rightarrow> Status" where "Status_OutOfMemory msg = Status_make kOutOfMemory msg"
definition Status_InternalError :: "string \<Rightarrow> Status" where "Status_InternalError msg = Status_make kInternal msg"
definition Status_CudaError :: "string \<Rightarrow> Status" where "Status_CudaError msg = Status_make kCudaError msg"
definition Status_CudaNotAvailable :: "string \<Rightarrow> Status" where "Status_CudaNotAvailable msg = Status_make kCudaNotAvailable msg"
definition Status_CudaOutOfMemory :: "string \<Rightarrow> Status" where "Status_CudaOutOfMemory msg = Status_make kCudaOutOfMemory msg"
definition Status_IpcError :: "string \<Rightarrow> Status" where "Status_IpcError msg = Status_make kIpcError msg"
definition Status_IpcSegmentNotFound :: "string \<Rightarrow> Status" where "Status_IpcSegmentNotFound msg = Status_make kIpcSegmentNotFound msg"
definition Status_IpcQueueFull :: "string \<Rightarrow> Status" where "Status_IpcQueueFull msg = Status_make kIpcQueueFull msg"
definition Status_IpcQueueEmpty :: "string \<Rightarrow> Status" where "Status_IpcQueueEmpty msg = Status_make kIpcQueueEmpty msg"
definition Status_IpcTimeout :: "string \<Rightarrow> Status" where "Status_IpcTimeout msg = Status_make kIpcTimeout msg"
definition Status_PoolError :: "string \<Rightarrow> Status" where "Status_PoolError msg = Status_make kPoolError msg"
definition Status_PoolOutOfSlots :: "string \<Rightarrow> Status" where "Status_PoolOutOfSlots msg = Status_make kPoolOutOfSlots msg"
definition Status_PoolDoubleFree :: "string \<Rightarrow> Status" where "Status_PoolDoubleFree msg = Status_make kPoolDoubleFree msg"
definition Status_TensorError :: "string \<Rightarrow> Status" where "Status_TensorError msg = Status_make kTensorError msg"
definition Status_TensorInvalidShape :: "string \<Rightarrow> Status" where "Status_TensorInvalidShape msg = Status_make kTensorInvalidShape msg"
definition Status_TensorDeviceMismatch :: "string \<Rightarrow> Status" where "Status_TensorDeviceMismatch msg = Status_make kTensorDeviceMismatch msg"
definition Status_DeviceError :: "string \<Rightarrow> Status" where "Status_DeviceError msg = Status_make kDeviceError msg"
definition Status_DeviceNotFound :: "string \<Rightarrow> Status" where "Status_DeviceNotFound msg = Status_make kDeviceNotFound msg"
definition Status_SchedulerError :: "string \<Rightarrow> Status" where "Status_SchedulerError msg = Status_make kSchedulerError msg"
definition Status_SchedulerFull :: "string \<Rightarrow> Status" where "Status_SchedulerFull msg = Status_make kSchedulerFull msg"
definition Status_SchedulerClosed :: "string \<Rightarrow> Status" where "Status_SchedulerClosed msg = Status_make kSchedulerClosed msg"

lemmas Status_factories = Status_Error_def Status_NotFound_def Status_InvalidArgument_def Status_NotImplemented_def Status_OutOfMemory_def Status_InternalError_def Status_CudaError_def Status_CudaNotAvailable_def Status_CudaOutOfMemory_def Status_IpcError_def Status_IpcSegmentNotFound_def Status_IpcQueueFull_def Status_IpcQueueEmpty_def Status_IpcTimeout_def Status_PoolError_def Status_PoolOutOfSlots_def Status_PoolDoubleFree_def Status_TensorError_def Status_TensorInvalidShape_def Status_TensorDeviceMismatch_def Status_DeviceError_def Status_DeviceNotFound_def Status_SchedulerError_def Status_SchedulerFull_def Status_SchedulerClosed_def

definition status_ok :: "Status \<Rightarrow> bool" where
  "status_ok s = (st_code s = kOk)"

definition status_eq :: "Status \<Rightarrow> Status \<Rightarrow> bool" where
  "status_eq a b = (st_code a = st_code b)"

definition status_ToString :: "Status \<Rightarrow> string" where
  "status_ToString s =
     (if status_ok s then ''OK'' else StatusCodeToString (st_code s) @ '': '' @ st_message s)"

section \<open>Expected\<close>

datatype 'a storage = Raw | Built_Value 'a | Built_Error Status

record 'a Expected =
  has_value :: bool
  storage :: "'a storage"

definition Expected_default :: "'a Expected" where
  "Expected_default = \<lparr>has_value = True, storage = Raw\<rparr>"

definition Expected_value :: "'a \<Rightarrow> 'a Expected" where
  "Expected_value v = \<lparr>has_value = True, storage = Built_Value v\<rparr>"

definition Expected_unexpected :: "Status \<Rightarrow> 'a Expected" where
  "Expected_unexpected s = \<lparr>has_value = False, storage = Built_Error s\<rparr>"

definition MakeUnexpected :: "Status \<Rightarrow> 'a Expected" where
  "MakeUnexpected s = Expected_unexpected s"

definition Ok :: "'a \<Rightarrow> 'a Expected" where
  "Ok v = Expected_value v"

text \<open>The two accessors of the storage read the member their caller names.\<close>

fun get_ptr :: "'a storage \<Rightarrow> 'a comp" where
  "get_ptr (Built_Value v) = Inr v"
| "get_ptr _ = Inl Uninit_Read"

fun get_err :: "'a storage \<Rightarrow> Status comp" where
  "get_err (Built_Error s) = Inr s"
| "get_err _ = Inl Uninit_Read"

definition Expected_copy :: "'a Expected \<Rightarrow> 'a Expected comp" where
  "Expected_copy e =
     (if has_value e
      then rbind (get_ptr (storage e)) (\<lambda>v. Inr \<lparr>has_value = True, storage = Built_Value v\<rparr>)
      else rbind (get_err (storage e)) (\<lambda>s. Inr \<lparr>has_value = False, storage = Built_Error s\<rparr>))"

text \<open>
  Assignment: destroy and rebuild when the two tags differ, assign the member otherwise. Every
  branch first needs the old member to be there. \<open>self\<close>: both are the same object, the test
  \<open>this != &o\<close> of the code.
\<close>

definition Expected_assign :: "bool \<Rightarrow> 'a Expected \<Rightarrow> 'a Expected \<Rightarrow> 'a Expected comp" where
  "Expected_assign self this other =
     (if self then Inr this else rbind
       (if has_value this
        then rbind (get_ptr (storage this)) (\<lambda>_.
               if \<not> has_value other
               then rbind (get_err (storage other)) (\<lambda>s. Inr (Built_Error s))
               else rbind (get_ptr (storage other)) (\<lambda>v. Inr (Built_Value v)))
        else rbind (get_err (storage this)) (\<lambda>_.
               if has_value other
               then rbind (get_ptr (storage other)) (\<lambda>v. Inr (Built_Value v))
               else rbind (get_err (storage other)) (\<lambda>s. Inr (Built_Error s))))
       (\<lambda>st. Inr \<lparr>has_value = has_value other, storage = st\<rparr>))"

definition Expected_destroy :: "'a Expected \<Rightarrow> unit comp" where
  "Expected_destroy e =
     (if has_value e then rbind (get_ptr (storage e)) (\<lambda>_. Inr ())
      else rbind (get_err (storage e)) (\<lambda>_. Inr ()))"

definition expected_message :: "'a Expected \<Rightarrow> string comp" where
  "expected_message e =
     (if has_value e then Inr [] else rbind (get_err (storage e)) (\<lambda>s. Inr (st_message s)))"

text \<open>\<open>value()\<close> throws a runtime error carrying the message when there is no value.\<close>

datatype 'a outcome = Thrown string | Returned 'a

definition expected_get :: "'a Expected \<Rightarrow> 'a outcome comp" where
  "expected_get e =
     (if \<not> has_value e then rbind (expected_message e) (\<lambda>m. Inr (Thrown m))
      else rbind (get_ptr (storage e)) (\<lambda>v. Inr (Returned v)))"

definition expected_error :: "'a Expected \<Rightarrow> Status comp" where
  "expected_error e = (if has_value e then Inr Status_Ok else get_err (storage e))"

section \<open>The tag agrees with the storage\<close>

definition expected_ok :: "'a Expected \<Rightarrow> bool" where
  "expected_ok e \<longleftrightarrow>
     (if has_value e then \<exists>v. storage e = Built_Value v else \<exists>s. storage e = Built_Error s)"

lemma expected_ok_cases:
  assumes "expected_ok e"
  obtains v where "e = Expected_value v" | s where "e = Expected_unexpected s"
  using assms
  by (cases e) (auto simp: expected_ok_def Expected_value_def Expected_unexpected_def split: if_splits)

lemmas expected_defs = Expected_value_def Expected_unexpected_def MakeUnexpected_def Ok_def
  Expected_copy_def Expected_assign_def Expected_destroy_def expected_get_def expected_error_def
  expected_message_def expected_ok_def

lemma expected_constructors_ok [simp]:
  "expected_ok (Expected_value v)" "expected_ok (Expected_unexpected s)"
  "expected_ok (Ok v)" "expected_ok (MakeUnexpected s)"
  by (simp_all add: expected_defs)

text \<open>
  On values whose tag agrees with the storage nothing faults, assignment and copy construction
  reproduce the right-hand side, and the accessors return what was put in.
\<close>

lemma expected_assign_ok:
  assumes "expected_ok this" and "expected_ok other"
  shows "Expected_assign False this other = Inr other"
  using assms by (elim expected_ok_cases) (simp_all add: expected_defs)

lemma expected_copy_ok: "expected_ok e \<Longrightarrow> Expected_copy e = Inr e"
  by (elim expected_ok_cases) (simp_all add: expected_defs)

lemma expected_destroy_ok: "expected_ok e \<Longrightarrow> Expected_destroy e = Inr ()"
  by (elim expected_ok_cases) (simp_all add: expected_defs)

lemma expected_get_cases:
  "expected_get (Ok v) = Inr (Returned v)"
  "expected_get (MakeUnexpected s) = Inr (Thrown (st_message s))"
  "expected_error (Ok v) = Inr Status_Ok"
  "expected_error (MakeUnexpected s) = Inr s"
  by (simp_all add: expected_defs)

text \<open>The default constructor claims a value it never builds.\<close>

lemma expected_default_faults:
  "has_value Expected_default"
  "expected_get Expected_default = Inl Uninit_Read"
  "Expected_destroy Expected_default = Inl Uninit_Read"
  "Expected_copy Expected_default = Inl Uninit_Read"
  by (simp_all add: Expected_default_def expected_defs)

section \<open>Properties\<close>

text \<open>
  Whatever sequence of assignments a result goes through, as long as it and the values assigned
  were built by \<open>Ok\<close> or \<open>MakeUnexpected\<close> it ends equal to the last one assigned, can be copied and
  destroyed, and no member is read that was not built; a value is returned exactly when there is no
  error.
\<close>

theorem expected_assignments:
  assumes "expected_ok e" and "\<forall>f \<in> set fs. expected_ok f"
  shows "for_each (\<lambda>f this. Expected_assign False this f) fs e = Inr (last (e # fs)) \<and>
    Expected_copy (last (e # fs)) = Inr (last (e # fs)) \<and>
    Expected_destroy (last (e # fs)) = Inr () \<and>
    (\<exists>r s. expected_get (last (e # fs)) = Inr r \<and> expected_error (last (e # fs)) = Inr s \<and>
       (has_value (last (e # fs)) \<longleftrightarrow> (\<exists>v. r = Returned v)) \<and>
       (has_value (last (e # fs)) \<longrightarrow> s = Status_Ok) \<and>
       (\<not> has_value (last (e # fs)) \<longrightarrow> r = Thrown (st_message s)))"
proof -
  have "for_each (\<lambda>f this. Expected_assign False this f) fs e = Inr (last (e # fs)) \<and>
      expected_ok (last (e # fs))"
    using assms
  proof (induction fs arbitrary: e)
    case (Cons f fs)
    then show ?case by (simp add: expected_assign_ok)
  qed simp
  then show ?thesis
    using expected_copy_ok [of "last (e # fs)"] expected_destroy_ok [of "last (e # fs)"]
    by (auto elim!: expected_ok_cases simp: expected_defs)
qed

lemma expected_assignments_witness:
  "for_each (\<lambda>f this. Expected_assign False this f) [MakeUnexpected Status_Ok, Ok (3 :: nat)] (Ok 1) = Inr (Ok 3)"
  using expected_assignments [of "Ok 1" "[MakeUnexpected Status_Ok, Ok (3 :: nat)]"] by simp

end
