(* ===== verification/Queue_Contract.thy ===== *)
theory Queue_Contract
  imports Prelude
begin

text \<open>
  What the two queues of \<open>bridges/impl/ipc_queue_impl.hpp\<close> promise to their clients, as a locale:
  a bounded FIFO whose \<open>Push\<close> refuses exactly when the queue holds \<open>room\<close> items and whose
  \<open>Pop\<close> refuses exactly when it holds none. The invariant carries the number of pushes the
  position counters still allow, since one of the two queues counts its positions without reducing
  them. Clients are driven by lists of operations; every answer they get is shown here, once, to be
  that of the abstract bounded queue \<open>fifo_run\<close>.
\<close>

section \<open>Clients\<close>

datatype 'a qop = Do_Push 'a | Do_Pop

datatype 'a answer = Pushed bool | Popped "'a option"

text \<open>
  Running a client collects the answer of every call: what \<open>Push\<close> returned, what \<open>Pop\<close> delivered.
\<close>

fun drive :: "('a \<Rightarrow> 's \<Rightarrow> (bool \<times> 's) comp) \<Rightarrow> ('s \<Rightarrow> ('a option \<times> 's) comp) \<Rightarrow>
    'a qop list \<Rightarrow> 's \<Rightarrow> ('a answer list \<times> 's) comp" where
  "drive push pop [] s = Inr ([], s)"
| "drive push pop (Do_Push x # ops) s =
     rbind (push x s) (\<lambda>(ok, s'). rbind (drive push pop ops s') (\<lambda>(as, t). Inr (Pushed ok # as, t)))"
| "drive push pop (Do_Pop # ops) s =
     rbind (pop s) (\<lambda>(r, s'). rbind (drive push pop ops s') (\<lambda>(as, t). Inr (Popped r # as, t)))"

text \<open>
  The abstract bounded queue: a list that accepts an item exactly while it holds fewer than
  \<open>room\<close> items and delivers its first item exactly while it holds one. It fixes the answer of every
  call and the content that is left.
\<close>

fun fifo_run :: "nat \<Rightarrow> 'a qop list \<Rightarrow> 'a list \<Rightarrow> 'a answer list \<times> 'a list" where
  "fifo_run room [] xs = ([], xs)"
| "fifo_run room (Do_Push x # ops) xs =
     (if length xs < room
      then (let (as, ys) = fifo_run room ops (xs @ [x]) in (Pushed True # as, ys))
      else (let (as, ys) = fifo_run room ops xs in (Pushed False # as, ys)))"
| "fifo_run room (Do_Pop # ops) [] = (let (as, ys) = fifo_run room ops [] in (Popped None # as, ys))"
| "fifo_run room (Do_Pop # ops) (x # xs) =
     (let (as, ys) = fifo_run room ops xs in (Popped (Some x) # as, ys))"

text \<open>The items a client got into the queue, and those it got out of it, in call order.\<close>

fun accepted :: "'a qop list \<Rightarrow> 'a answer list \<Rightarrow> 'a list" where
  "accepted (Do_Push x # ops) (Pushed True # as) = x # accepted ops as"
| "accepted (p # ops) (a # as) = accepted ops as"
| "accepted ops as = []"

fun delivered :: "'a answer list \<Rightarrow> 'a list" where
  "delivered (Popped (Some x) # as) = x # delivered as"
| "delivered (a # as) = delivered as"
| "delivered [] = []"

lemma fifo_run_fifo:
  "fifo_run room ops xs = (as, ys) \<Longrightarrow> xs @ accepted ops as = delivered as @ ys"
  by (induction room ops xs arbitrary: as ys rule: fifo_run.induct)
    (fastforce split: if_splits prod.splits)+

lemma fifo_run_bounded:
  "fifo_run room ops xs = (as, ys) \<Longrightarrow> length xs \<le> room \<Longrightarrow> length ys \<le> room"
  by (induction room ops xs arbitrary: as ys rule: fifo_run.induct)
    (fastforce split: if_splits prod.splits)+

lemma fifo_run_all_accepted:
  "length xs + length zs \<le> room \<Longrightarrow>
     fifo_run room (map Do_Push zs) xs = (replicate (length zs) (Pushed True), xs @ zs)"
  by (induction zs arbitrary: xs) simp_all

section \<open>The contract\<close>

locale bounded_fifo =
  fixes inv :: "nat \<Rightarrow> 's \<Rightarrow> bool"
    and content :: "'s \<Rightarrow> 'a list"
    and room :: "'s \<Rightarrow> nat"
    and push :: "'a \<Rightarrow> 's \<Rightarrow> (bool \<times> 's) comp"
    and pop :: "'s \<Rightarrow> ('a option \<times> 's) comp"
  assumes inv_less: "inv n s \<Longrightarrow> m \<le> n \<Longrightarrow> inv m s"
    and bounded: "inv n s \<Longrightarrow> length (content s) \<le> room s"
    and push_accepts: "inv (Suc n) s \<Longrightarrow> length (content s) < room s \<Longrightarrow>
      \<exists>s'. push x s = Inr (True, s') \<and> inv n s' \<and> content s' = content s @ [x] \<and> room s' = room s"
    and push_refuses: "inv n s \<Longrightarrow> length (content s) = room s \<Longrightarrow> push x s = Inr (False, s)"
    and pop_delivers: "inv n s \<Longrightarrow> content s = x # xs \<Longrightarrow>
      \<exists>s'. pop s = Inr (Some x, s') \<and> inv n s' \<and> content s' = xs \<and> room s' = room s"
    and pop_refuses: "inv n s \<Longrightarrow> content s = [] \<Longrightarrow> pop s = Inr (None, s)"
begin

lemma push_total:
  assumes "inv (Suc n) s"
  shows "\<exists>ok s'. push x s = Inr (ok, s') \<and> inv n s' \<and> room s' = room s \<and>
    ok = (length (content s) < room s) \<and> content s' = content s @ (if ok then [x] else [])"
proof (cases "length (content s) < room s")
  case True
  with assms show ?thesis using push_accepts by fastforce
next
  case False
  with assms bounded have "length (content s) = room s" by (meson le_neq_implies_less)
  with assms show ?thesis using push_refuses inv_less [of "Suc n" s n] by auto
qed

lemma pop_total:
  assumes "inv n s"
  shows "\<exists>r s'. pop s = Inr (r, s') \<and> inv n s' \<and> room s' = room s \<and>
    content s = (case r of None \<Rightarrow> [] | Some x \<Rightarrow> [x]) @ content s' \<and> (r = None \<longleftrightarrow> content s = [])"
proof (cases "content s")
  case Nil
  with assms show ?thesis using pop_refuses by auto
next
  case (Cons x xs)
  with assms show ?thesis using pop_delivers [OF assms Cons] by auto
qed

text \<open>
  No client makes the queue fault, and every call is answered as the abstract bounded queue answers
  it: this is the functional refinement the contract gives, one call at a time.
\<close>

lemma drive_refines:
  assumes "inv (length ops) s"
  shows "\<exists>as t. drive push pop ops s = Inr (as, t) \<and> inv 0 t \<and> room t = room s \<and>
    fifo_run (room s) ops (content s) = (as, content t)"
  using assms
proof (induction ops arbitrary: s)
  case Nil
  then show ?case by simp
next
  case (Cons p ops)
  show ?case
  proof (cases p)
    case (Do_Push x)
    obtain ok s' where q: "push x s = Inr (ok, s')" "inv (length ops) s'" "room s' = room s"
      "ok = (length (content s) < room s)" "content s' = content s @ (if ok then [x] else [])"
      using push_total [of "length ops" s x] Cons.prems by auto
    obtain as t where "drive push pop ops s' = Inr (as, t)" "inv 0 t" "room t = room s'"
      "fifo_run (room s') ops (content s') = (as, content t)"
      using Cons.IH [OF q(2)] by blast
    with q Do_Push show ?thesis by (cases ok) auto
  next
    case Do_Pop
    obtain r s' where q: "pop s = Inr (r, s')" "inv (length ops) s'" "room s' = room s"
      "content s = (case r of None \<Rightarrow> [] | Some x \<Rightarrow> [x]) @ content s'" "r = None \<longleftrightarrow> content s = []"
      using pop_total [of "length ops" s] Cons.prems inv_less [of _ s "length ops"] by fastforce
    obtain as t where "drive push pop ops s' = Inr (as, t)" "inv 0 t" "room t = room s'"
      "fifo_run (room s') ops (content s') = (as, content t)"
      using Cons.IH [OF q(2)] by blast
    with q Do_Pop show ?thesis by (cases r) auto
  qed
qed

text \<open>So what it delivers is what it accepted, in order, up to what is still inside.\<close>

lemma drive_fifo:
  assumes "inv (length ops) s" and "drive push pop ops s = Inr (as, t)"
  shows "content s @ accepted ops as = delivered as @ content t"
  using drive_refines [OF assms(1)] assms(2) fifo_run_fifo by fastforce

text \<open>From an empty queue, the delivered items are a prefix of the accepted ones.\<close>

lemma drive_prefix:
  assumes "inv (length ops) s" and "content s = []" and "drive push pop ops s = Inr (as, t)"
  shows "delivered as = take (length (delivered as)) (accepted ops as) \<and>
    length (accepted ops as) \<le> length (delivered as) + room s"
proof -
  from drive_refines [OF assms(1)] assms(3) have "inv 0 t" and "room t = room s" by auto
  with drive_fifo [OF assms(1,3)] assms(2) bounded [of 0 t] show ?thesis by simp
qed

end

end
