(* ===== verification/Spsc_Queue.thy ===== *)
theory Spsc_Queue
  imports Queue_Contract
begin

text \<open>
  \<open>SPSCQueue\<close> of \<open>bridges/impl/ipc_queue_impl.hpp\<close>: a ring buffer with one slot kept free. The
  buffer pointer is an option, so that a call on a destroyed queue shows what it does. First the
  operations run to completion, then the same operations cut at their atomic accesses, so that one
  producer and one consumer may interleave (sequentially consistent: the acquire and release
  pairs of the code order exactly these accesses).
\<close>

section \<open>State and operations\<close>

record 'a SPSCQueue =
  sp_buffer :: "'a list option"
  sp_capacity :: size_t
  sp_read :: size_t
  sp_write :: size_t

definition spsc_new :: "'a SPSCQueue" where
  "spsc_new = \<lparr>sp_buffer = None, sp_capacity = 0, sp_read = 0, sp_write = 0\<rparr>"

definition spsc_Destroy :: "'a SPSCQueue \<Rightarrow> 'a SPSCQueue" where
  "spsc_Destroy q = q\<lparr>sp_buffer := None, sp_capacity := 0\<rparr>"

text \<open>\<open>fresh\<close> is the content of the new array, which \<open>new T[capacity]\<close> leaves to the type.\<close>

definition spsc_Init :: "'a \<Rightarrow> size_t \<Rightarrow> 'a SPSCQueue \<Rightarrow> bool \<times> 'a SPSCQueue" where
  "spsc_Init fresh capacity q0 =
     (let q = spsc_Destroy q0
      in if capacity = 0 then (False, q)
         else (True, q\<lparr>sp_capacity := capacity, sp_buffer := Some (replicate (unat capacity) fresh),
                       sp_read := 0, sp_write := 0\<rparr>))"

definition spsc_Push :: "'a \<Rightarrow> 'a SPSCQueue \<Rightarrow> (bool \<times> 'a SPSCQueue) comp" where
  "spsc_Push item q =
     (let write = sp_write q
      in rbind (umod (write + 1) (sp_capacity q)) (\<lambda>next.
           if next = sp_read q then Inr (False, q)
           else rbind (deref (sp_buffer q)) (\<lambda>b. rbind (aset b (unat write) item) (\<lambda>b'.
                  Inr (True, q\<lparr>sp_buffer := Some b', sp_write := next\<rparr>)))))"

definition spsc_Pop :: "'a SPSCQueue \<Rightarrow> ('a option \<times> 'a SPSCQueue) comp" where
  "spsc_Pop q =
     (let read = sp_read q
      in if read = sp_write q then Inr (None, q)
         else rbind (deref (sp_buffer q)) (\<lambda>b. rbind (aget b (unat read)) (\<lambda>item.
                rbind (umod (read + 1) (sp_capacity q)) (\<lambda>next.
                  Inr (Some item, q\<lparr>sp_read := next\<rparr>)))))"

definition spsc_Empty :: "'a SPSCQueue \<Rightarrow> bool" where
  "spsc_Empty q = (sp_read q = sp_write q)"

definition spsc_Full :: "'a SPSCQueue \<Rightarrow> bool comp" where
  "spsc_Full q = rbind (umod (sp_write q + 1) (sp_capacity q)) (\<lambda>next. Inr (next = sp_read q))"

definition spsc_SizeApprox :: "'a SPSCQueue \<Rightarrow> size_t" where
  "spsc_SizeApprox q =
     (let read = sp_read q; write = sp_write q
      in if read \<le> write then write - read else sp_capacity q - (read - write))"

section \<open>The ring as a list\<close>

definition ring_size :: "nat \<Rightarrow> nat \<Rightarrow> nat \<Rightarrow> nat" where
  "ring_size c r w = (if r \<le> w then w - r else c - (r - w))"

definition ring_list :: "'a list \<Rightarrow> nat \<Rightarrow> nat \<Rightarrow> nat \<Rightarrow> 'a list" where
  "ring_list b c r w = map (\<lambda>i. b ! ((r + i) mod c)) [0..<ring_size c r w]"

definition spsc_inv :: "'a SPSCQueue \<Rightarrow> bool" where
  "spsc_inv q \<longleftrightarrow> (\<exists>b. sp_buffer q = Some b \<and> length b = unat (sp_capacity q)) \<and>
     sp_read q < sp_capacity q \<and> sp_write q < sp_capacity q"

definition spsc_list :: "'a SPSCQueue \<Rightarrow> 'a list" where
  "spsc_list q = ring_list (the (sp_buffer q)) (unat (sp_capacity q)) (unat (sp_read q)) (unat (sp_write q))"

definition spsc_room :: "'a SPSCQueue \<Rightarrow> nat" where
  "spsc_room q = unat (sp_capacity q) - 1"

lemma ring_next: "(w :: nat) < c \<Longrightarrow> Suc w mod c = (if Suc w = c then 0 else Suc w)"
  by auto

lemma ring_size_less: "r < c \<Longrightarrow> w < c \<Longrightarrow> ring_size c r w < c"
  by (auto simp: ring_size_def)

lemma ring_full_iff:
  "r < c \<Longrightarrow> w < c \<Longrightarrow> Suc w mod c = r \<longleftrightarrow> ring_size c r w = c - 1"
  by (auto simp: ring_size_def ring_next)

lemma ring_empty_iff: "r < c \<Longrightarrow> w < c \<Longrightarrow> ring_size c r w = 0 \<longleftrightarrow> r = w"
  by (auto simp: ring_size_def)

lemma ring_size_push:
  "r < c \<Longrightarrow> w < c \<Longrightarrow> Suc w mod c \<noteq> r \<Longrightarrow> ring_size c r (Suc w mod c) = Suc (ring_size c r w)"
  by (auto simp: ring_size_def ring_next)

lemma ring_size_pop:
  "r < c \<Longrightarrow> w < c \<Longrightarrow> r \<noteq> w \<Longrightarrow> ring_size c r w = Suc (ring_size c (Suc r mod c) w)"
  by (auto simp: ring_size_def ring_next)

lemma ring_index: "(r :: nat) < c \<Longrightarrow> i < c \<Longrightarrow> (r + i) mod c = (if r + i < c then r + i else r + i - c)"
  by (auto simp: le_mod_geq not_less)

lemma ring_slot_free:
  "r < c \<Longrightarrow> w < c \<Longrightarrow> i < ring_size c r w \<Longrightarrow> (r + i) mod c \<noteq> w"
  using ring_index [of r c i] ring_size_less [of r c w] by (auto simp: ring_size_def split: if_splits)

lemma ring_slot_end: "r < c \<Longrightarrow> w < c \<Longrightarrow> (r + ring_size c r w) mod c = w"
  using ring_index [of r c "ring_size c r w"] by (auto simp: ring_size_def)

lemma length_ring_list [simp]: "length (ring_list b c r w) = ring_size c r w"
  by (simp add: ring_list_def)

lemma ring_list_push:
  assumes "r < c" "w < c" "length b = c" "Suc w mod c \<noteq> r"
  shows "ring_list (b[w := x]) c r (Suc w mod c) = ring_list b c r w @ [x]"
proof -
  have "map (\<lambda>i. b[w := x] ! ((r + i) mod c)) [0..<ring_size c r w]
      = map (\<lambda>i. b ! ((r + i) mod c)) [0..<ring_size c r w]"
    using ring_slot_free [OF assms(1,2)] by (intro map_cong) (auto simp: nth_list_update_neq [OF not_sym])
  with assms show ?thesis
    by (simp add: ring_list_def ring_size_push ring_slot_end)
qed

lemma ring_list_pop:
  assumes "r < c" "w < c" "r \<noteq> w"
  shows "ring_list b c r w = b ! r # ring_list b c (Suc r mod c) w"
proof -
  have "map (\<lambda>i. b ! ((r + i) mod c)) [Suc 0..<Suc n] = map (\<lambda>i. b ! ((Suc r mod c + i) mod c)) [0..<n]" for n
    by (simp add: map_Suc_upt [symmetric] mod_add_left_eq del: upt_Suc)
  with assms show ?thesis
    by (simp add: ring_list_def ring_size_pop upt_conv_Cons del: upt_Suc)
qed

section \<open>The operations implement a bounded FIFO\<close>

lemma unat_next:
  assumes "(w :: size_t) < c"
  shows "unat ((w + 1) mod c) = Suc (unat w) mod unat c"
  using assms by (simp add: unat_mod_size unat_Suc_bounded)

lemma spsc_next_less: "(w :: size_t) < c \<Longrightarrow> (w + 1) mod c < c"
  by (auto simp: word_less_nat_alt unat_mod_size)

lemma spsc_invD:
  assumes "spsc_inv q"
  obtains b where "sp_buffer q = Some b" "length b = unat (sp_capacity q)" "sp_capacity q \<noteq> 0"
    "unat (sp_read q) < unat (sp_capacity q)" "unat (sp_write q) < unat (sp_capacity q)"
    "sp_read q < sp_capacity q" "sp_write q < sp_capacity q"
proof -
  have "sp_capacity q \<noteq> 0" using assms by (auto simp: spsc_inv_def)
  with assms that show thesis by (auto simp: spsc_inv_def word_less_nat_alt)
qed

lemma word_next_eq_iff:
  assumes "(w :: size_t) < c"
  shows "(w + 1) mod c = r \<longleftrightarrow> Suc (unat w) mod unat c = unat r"
  using unat_next [OF assms] by (metis word_unat_eq_iff)

lemma spsc_push_full:
  assumes "spsc_inv q" and "length (spsc_list q) = spsc_room q"
  shows "spsc_Push x q = Inr (False, q)"
  using assms(1)
proof (rule spsc_invD)
  fix b
  assume q: "sp_capacity q \<noteq> 0" "unat (sp_read q) < unat (sp_capacity q)"
    "unat (sp_write q) < unat (sp_capacity q)" "sp_write q < sp_capacity q"
  have "(sp_write q + 1) mod sp_capacity q = sp_read q"
    using assms(2) q ring_full_iff [OF q(2,3)]
    by (simp add: word_next_eq_iff spsc_list_def spsc_room_def)
  with q show ?thesis by (simp add: spsc_Push_def umod_def)
qed

lemma spsc_push_room:
  assumes "spsc_inv q" and "length (spsc_list q) < spsc_room q"
  shows "\<exists>q'. spsc_Push x q = Inr (True, q') \<and> spsc_inv q' \<and> spsc_list q' = spsc_list q @ [x] \<and>
    spsc_room q' = spsc_room q"
  using assms(1)
proof (rule spsc_invD)
  fix b
  assume b: "sp_buffer q = Some b" "length b = unat (sp_capacity q)"
    and q: "sp_capacity q \<noteq> 0" "unat (sp_read q) < unat (sp_capacity q)"
    "unat (sp_write q) < unat (sp_capacity q)" "sp_read q < sp_capacity q" "sp_write q < sp_capacity q"
  have free: "Suc (unat (sp_write q)) mod unat (sp_capacity q) \<noteq> unat (sp_read q)"
    using assms(2) ring_full_iff [OF q(2,3)] by (auto simp: spsc_list_def spsc_room_def)
  then have ne: "(sp_write q + 1) mod sp_capacity q \<noteq> sp_read q"
    using word_next_eq_iff [OF q(5)] by metis
  with b q free show ?thesis
    by (simp add: spsc_Push_def umod_def deref_def Let_def spsc_inv_def spsc_list_def spsc_room_def
        unat_next ring_list_push spsc_next_less)
qed

lemma spsc_pop_item:
  assumes "spsc_inv q" and "spsc_list q = x # xs"
  shows "\<exists>q'. spsc_Pop q = Inr (Some x, q') \<and> spsc_inv q' \<and> spsc_list q' = xs \<and>
    spsc_room q' = spsc_room q"
  using assms(1)
proof (rule spsc_invD)
  fix b
  assume b: "sp_buffer q = Some b" "length b = unat (sp_capacity q)"
    and q: "sp_capacity q \<noteq> 0" "unat (sp_read q) < unat (sp_capacity q)"
    "unat (sp_write q) < unat (sp_capacity q)" "sp_read q < sp_capacity q" "sp_write q < sp_capacity q"
  have "ring_size (unat (sp_capacity q)) (unat (sp_read q)) (unat (sp_write q)) \<noteq> 0"
    using assms(2) b by (metis spsc_list_def length_ring_list list.size(3) length_0_conv list.distinct(1))
  then have ne: "unat (sp_read q) \<noteq> unat (sp_write q)" using ring_empty_iff [OF q(2,3)] by auto
  with assms(2) b q have "x = b ! unat (sp_read q)"
    "xs = ring_list b (unat (sp_capacity q)) (Suc (unat (sp_read q)) mod unat (sp_capacity q)) (unat (sp_write q))"
    by (simp_all add: spsc_list_def ring_list_pop)
  with ne b q show ?thesis
    by (auto simp: spsc_Pop_def umod_def deref_def Let_def spsc_inv_def spsc_list_def spsc_room_def
        unat_next spsc_next_less)
qed

lemma spsc_pop_empty:
  assumes "spsc_inv q" and "spsc_list q = []"
  shows "spsc_Pop q = Inr (None, q)"
  using assms(1)
proof (rule spsc_invD)
  assume q: "unat (sp_read q) < unat (sp_capacity q)" "unat (sp_write q) < unat (sp_capacity q)"
  have "ring_size (unat (sp_capacity q)) (unat (sp_read q)) (unat (sp_write q)) = 0"
    using assms(2) by (metis spsc_list_def length_ring_list list.size(3))
  then show ?thesis
    using ring_empty_iff [OF q] by (simp add: spsc_Pop_def word_unat_eq_iff)
qed

lemma spsc_list_bounded: "spsc_inv q \<Longrightarrow> length (spsc_list q) \<le> spsc_room q"
  using ring_size_less [of "unat (sp_read q)" "unat (sp_capacity q)" "unat (sp_write q)"]
  by (auto simp: spsc_inv_def spsc_list_def spsc_room_def word_less_nat_alt)

lemma spsc_init_ok:
  assumes "c \<noteq> 0"
  shows "\<exists>q'. spsc_Init fresh c q = (True, q') \<and> spsc_inv q' \<and> spsc_list q' = [] \<and>
    spsc_room q' = unat c - 1"
  using assms
  by (simp add: spsc_Init_def spsc_inv_def spsc_list_def spsc_room_def ring_list_def ring_size_def
      word_gt_0)

interpretation spsc: bounded_fifo "\<lambda>n. spsc_inv" spsc_list spsc_room spsc_Push spsc_Pop
  by unfold_locales
    (simp_all add: spsc_list_bounded spsc_push_full spsc_push_room spsc_pop_item spsc_pop_empty)

section \<open>What the queries return\<close>

lemma spsc_Empty_iff: "spsc_inv q \<Longrightarrow> spsc_Empty q \<longleftrightarrow> spsc_list q = []"
  using ring_empty_iff [of "unat (sp_read q)" "unat (sp_capacity q)" "unat (sp_write q)"]
  by (auto simp: spsc_inv_def spsc_Empty_def spsc_list_def word_less_nat_alt word_unat_eq_iff
      simp flip: length_0_conv)

lemma spsc_Full_iff: "spsc_inv q \<Longrightarrow> spsc_Full q = Inr (length (spsc_list q) = spsc_room q)"
  using ring_full_iff [of "unat (sp_read q)" "unat (sp_capacity q)" "unat (sp_write q)"]
  by (auto simp: spsc_Full_def umod_def spsc_inv_def spsc_list_def spsc_room_def word_less_nat_alt
      word_next_eq_iff)

lemma spsc_SizeApprox_eq: "spsc_inv q \<Longrightarrow> unat (spsc_SizeApprox q) = length (spsc_list q)"
  by (auto simp: spsc_inv_def spsc_SizeApprox_def spsc_list_def ring_size_def Let_def
      word_less_nat_alt word_le_nat_alt unat_minus_size)

text \<open>Calls on a queue that was never initialised, or was destroyed.\<close>

lemma spsc_uninit:
  "spsc_Push x (spsc_Destroy q) = Inl Div_By_Zero"
  "sp_read q \<noteq> sp_write q \<Longrightarrow> spsc_Pop (spsc_Destroy q) = Inl Null_Deref"
  by (simp_all add: spsc_Push_def spsc_Pop_def spsc_Destroy_def umod_def deref_def)

section \<open>One producer and one consumer, interleaved\<close>

text \<open>
  A thread stands between two of its atomic accesses. The producer loads \<open>write_idx_\<close>, loads
  \<open>read_idx_\<close> and compares, writes the slot, stores \<open>write_idx_\<close>; the consumer does the same with
  the roles exchanged. \<open>sys_in\<close> and \<open>sys_out\<close> record the items whose call has returned true.
\<close>

datatype 'a spsc_producer =
    P_Idle
  | P_Loaded 'a size_t size_t
  | P_Write 'a size_t size_t
  | P_Publish 'a size_t

datatype 'a spsc_consumer =
    C_Idle
  | C_Loaded size_t
  | C_Read size_t
  | C_Publish 'a size_t

record 'a spsc_sys =
  sys_q :: "'a SPSCQueue"
  sys_p :: "'a spsc_producer"
  sys_c :: "'a spsc_consumer"
  sys_in :: "'a list"
  sys_out :: "'a list"

definition spsc_start :: "'a SPSCQueue \<Rightarrow> 'a spsc_sys" where
  "spsc_start q = \<lparr>sys_q = q, sys_p = P_Idle, sys_c = C_Idle, sys_in = [], sys_out = []\<rparr>"

text \<open>The argument is the item of the call that begins when the producer is idle.\<close>

definition spsc_producer_step :: "'a \<Rightarrow> 'a spsc_sys \<Rightarrow> 'a spsc_sys comp" where
  "spsc_producer_step item s =
     (let q = sys_q s in
      case sys_p s of
        P_Idle \<Rightarrow>
          rbind (umod (sp_write q + 1) (sp_capacity q)) (\<lambda>next.
            Inr (s\<lparr>sys_p := P_Loaded item (sp_write q) next\<rparr>))
      | P_Loaded x write next \<Rightarrow>
          if next = sp_read q then Inr (s\<lparr>sys_p := P_Idle\<rparr>)
          else Inr (s\<lparr>sys_p := P_Write x write next\<rparr>)
      | P_Write x write next \<Rightarrow>
          rbind (deref (sp_buffer q)) (\<lambda>b. rbind (aset b (unat write) x) (\<lambda>b'.
            Inr (s\<lparr>sys_q := q\<lparr>sp_buffer := Some b'\<rparr>, sys_p := P_Publish x next\<rparr>)))
      | P_Publish x next \<Rightarrow>
          Inr (s\<lparr>sys_q := q\<lparr>sp_write := next\<rparr>, sys_p := P_Idle, sys_in := sys_in s @ [x]\<rparr>))"

definition spsc_consumer_step :: "'a spsc_sys \<Rightarrow> 'a spsc_sys comp" where
  "spsc_consumer_step s =
     (let q = sys_q s in
      case sys_c s of
        C_Idle \<Rightarrow> Inr (s\<lparr>sys_c := C_Loaded (sp_read q)\<rparr>)
      | C_Loaded read \<Rightarrow>
          if read = sp_write q then Inr (s\<lparr>sys_c := C_Idle\<rparr>)
          else Inr (s\<lparr>sys_c := C_Read read\<rparr>)
      | C_Read read \<Rightarrow>
          rbind (deref (sp_buffer q)) (\<lambda>b. rbind (aget b (unat read)) (\<lambda>item.
            rbind (umod (read + 1) (sp_capacity q)) (\<lambda>next.
              Inr (s\<lparr>sys_c := C_Publish item next\<rparr>))))
      | C_Publish item next \<Rightarrow>
          Inr (s\<lparr>sys_q := q\<lparr>sp_read := next\<rparr>, sys_c := C_Idle, sys_out := sys_out s @ [item]\<rparr>))"

datatype 'a spsc_event = Producer_Runs 'a | Consumer_Runs

definition spsc_event_step :: "'a spsc_event \<Rightarrow> 'a spsc_sys \<Rightarrow> 'a spsc_sys comp" where
  "spsc_event_step e s =
     (case e of Producer_Runs x \<Rightarrow> spsc_producer_step x s | Consumer_Runs \<Rightarrow> spsc_consumer_step s)"

text \<open>The two threads touch one slot at the same time.\<close>

definition spsc_race :: "'a spsc_sys \<Rightarrow> bool" where
  "spsc_race s = (case (sys_p s, sys_c s) of (P_Write x w n, C_Read r) \<Rightarrow> w = r | _ \<Rightarrow> False)"

definition producer_inv :: "'a SPSCQueue \<Rightarrow> 'a spsc_producer \<Rightarrow> bool" where
  "producer_inv q p =
     (case p of
        P_Idle \<Rightarrow> True
      | P_Loaded x w n \<Rightarrow> w = sp_write q \<and> n = (sp_write q + 1) mod sp_capacity q
      | P_Write x w n \<Rightarrow> w = sp_write q \<and> n = (sp_write q + 1) mod sp_capacity q \<and> n \<noteq> sp_read q
      | P_Publish x n \<Rightarrow> n = (sp_write q + 1) mod sp_capacity q \<and> n \<noteq> sp_read q \<and>
          the (sp_buffer q) ! unat (sp_write q) = x)"

definition consumer_inv :: "'a SPSCQueue \<Rightarrow> 'a spsc_consumer \<Rightarrow> bool" where
  "consumer_inv q c =
     (case c of
        C_Idle \<Rightarrow> True
      | C_Loaded r \<Rightarrow> r = sp_read q
      | C_Read r \<Rightarrow> r = sp_read q \<and> r \<noteq> sp_write q
      | C_Publish x n \<Rightarrow> n = (sp_read q + 1) mod sp_capacity q \<and> sp_read q \<noteq> sp_write q \<and>
          the (sp_buffer q) ! unat (sp_read q) = x)"

definition spsc_sys_inv :: "'a spsc_sys \<Rightarrow> bool" where
  "spsc_sys_inv s \<longleftrightarrow> spsc_inv (sys_q s) \<and> producer_inv (sys_q s) (sys_p s) \<and>
     consumer_inv (sys_q s) (sys_c s) \<and> sys_in s = sys_out s @ spsc_list (sys_q s)"

text \<open>The free slot may change without changing the content, and one index at a time moves.\<close>

lemma ring_list_free_slot:
  "r < c \<Longrightarrow> w < c \<Longrightarrow> ring_list (b[w := x]) c r w = ring_list b c r w"
  using ring_slot_free [of r c w] by (auto simp: ring_list_def nth_list_update_neq [OF not_sym])

lemma spsc_write_slot:
  assumes "spsc_inv q" and "sp_buffer q = Some b"
  shows "spsc_inv (q\<lparr>sp_buffer := Some (b[unat (sp_write q) := x])\<rparr>)"
    and "spsc_list (q\<lparr>sp_buffer := Some (b[unat (sp_write q) := x])\<rparr>) = spsc_list q"
  using assms by (auto simp: spsc_inv_def spsc_list_def word_less_nat_alt ring_list_free_slot)

lemma spsc_publish_write:
  assumes "spsc_inv q" and n: "(sp_write q + 1) mod sp_capacity q \<noteq> sp_read q"
    and x: "the (sp_buffer q) ! unat (sp_write q) = x"
  shows "spsc_inv (q\<lparr>sp_write := (sp_write q + 1) mod sp_capacity q\<rparr>)"
    and "spsc_list (q\<lparr>sp_write := (sp_write q + 1) mod sp_capacity q\<rparr>) = spsc_list q @ [x]"
proof -
  from assms(1) obtain b where b: "sp_buffer q = Some b" "length b = unat (sp_capacity q)"
    "unat (sp_read q) < unat (sp_capacity q)" "unat (sp_write q) < unat (sp_capacity q)"
    "sp_write q < sp_capacity q"
    by (rule spsc_invD)
  show "spsc_inv (q\<lparr>sp_write := (sp_write q + 1) mod sp_capacity q\<rparr>)"
    using assms(1) by (auto simp: spsc_inv_def spsc_next_less)
  have "Suc (unat (sp_write q)) mod unat (sp_capacity q) \<noteq> unat (sp_read q)"
    using n word_next_eq_iff [OF b(5)] by metis
  from ring_list_push [OF b(3,4,2) this, of x] b x
  show "spsc_list (q\<lparr>sp_write := (sp_write q + 1) mod sp_capacity q\<rparr>) = spsc_list q @ [x]"
    by (simp add: spsc_list_def unat_next) (metis list_update_id)
qed

lemma spsc_publish_read:
  assumes "spsc_inv q" and n: "sp_read q \<noteq> sp_write q"
  shows "spsc_inv (q\<lparr>sp_read := (sp_read q + 1) mod sp_capacity q\<rparr>)"
    and "spsc_list q = the (sp_buffer q) ! unat (sp_read q) #
      spsc_list (q\<lparr>sp_read := (sp_read q + 1) mod sp_capacity q\<rparr>)"
  using assms
  by (auto simp: spsc_inv_def spsc_next_less spsc_list_def unat_next word_less_nat_alt
      word_unat_eq_iff intro!: ring_list_pop)

text \<open>Each thread keeps what the other relies on.\<close>

lemma producer_read_moves:
  assumes "producer_inv q p" and "sp_read q < sp_capacity q" and "sp_write q < sp_capacity q"
    and "sp_read q \<noteq> sp_write q"
  shows "producer_inv (q\<lparr>sp_read := (sp_read q + 1) mod sp_capacity q\<rparr>) p"
proof -
  have "(sp_write q + 1) mod sp_capacity q \<noteq> (sp_read q + 1) mod sp_capacity q"
    using assms(2-4) by (simp add: word_unat_eq_iff unat_next word_less_nat_alt ring_next)
  with assms(1) show ?thesis by (auto simp: producer_inv_def split: spsc_producer.splits)
qed

lemma consumer_write_moves:
  assumes "consumer_inv q c" and "(sp_write q + 1) mod sp_capacity q \<noteq> sp_read q"
  shows "consumer_inv (q\<lparr>sp_write := (sp_write q + 1) mod sp_capacity q\<rparr>) c"
  using assms by (auto simp: consumer_inv_def split: spsc_consumer.splits)

lemma consumer_slot_written:
  assumes "consumer_inv q c" and "sp_buffer q = Some b"
  shows "consumer_inv (q\<lparr>sp_buffer := Some (b[unat (sp_write q) := x])\<rparr>) c"
  using assms by (auto simp: consumer_inv_def nth_list_update word_unat_eq_iff split: spsc_consumer.splits)

lemma spsc_producer_step_ok:
  assumes "spsc_sys_inv s"
  shows "\<exists>s'. spsc_producer_step x s = Inr s' \<and> spsc_sys_inv s'"
proof -
  from assms have inv: "spsc_inv (sys_q s)" by (simp add: spsc_sys_inv_def)
  then obtain b where b: "sp_buffer (sys_q s) = Some b" "length b = unat (sp_capacity (sys_q s))"
    "sp_capacity (sys_q s) \<noteq> 0" "unat (sp_write (sys_q s)) < unat (sp_capacity (sys_q s))"
    by (rule spsc_invD)
  show ?thesis
  proof (cases "sys_p s")
    case P_Idle
    with assms b show ?thesis
      by (simp add: spsc_producer_step_def Let_def umod_def spsc_sys_inv_def producer_inv_def)
  next
    case (P_Loaded y w n)
    with assms show ?thesis
      by (simp add: spsc_producer_step_def Let_def spsc_sys_inv_def producer_inv_def)
  next
    case (P_Write y w n)
    with assms b inv show ?thesis
      by (auto simp: spsc_producer_step_def Let_def deref_def spsc_sys_inv_def producer_inv_def
          spsc_write_slot consumer_slot_written)
  next
    case (P_Publish y n)
    with assms inv show ?thesis
      by (auto simp: spsc_producer_step_def Let_def spsc_sys_inv_def producer_inv_def
          spsc_publish_write consumer_write_moves)
  qed
qed

lemma spsc_consumer_step_ok:
  assumes "spsc_sys_inv s"
  shows "\<exists>s'. spsc_consumer_step s = Inr s' \<and> spsc_sys_inv s'"
proof -
  from assms have inv: "spsc_inv (sys_q s)" by (simp add: spsc_sys_inv_def)
  then obtain b where b: "sp_buffer (sys_q s) = Some b" "length b = unat (sp_capacity (sys_q s))"
    "sp_capacity (sys_q s) \<noteq> 0" "unat (sp_read (sys_q s)) < unat (sp_capacity (sys_q s))"
    "sp_read (sys_q s) < sp_capacity (sys_q s)" "sp_write (sys_q s) < sp_capacity (sys_q s)"
    by (rule spsc_invD)
  show ?thesis
  proof (cases "sys_c s")
    case (C_Publish y n)
    with assms inv b spsc_publish_read [OF inv] show ?thesis
      by (auto simp: spsc_consumer_step_def Let_def spsc_sys_inv_def consumer_inv_def producer_read_moves)
  qed (use assms b in \<open>simp_all add: spsc_consumer_step_def Let_def umod_def deref_def spsc_sys_inv_def
      consumer_inv_def\<close>)
qed

lemma spsc_schedule_ok:
  assumes "spsc_sys_inv s"
  shows "\<exists>s'. for_each spsc_event_step sched s = Inr s' \<and> spsc_sys_inv s'"
  using assms
proof (induction sched arbitrary: s)
  case (Cons e sched)
  have "\<exists>s'. spsc_event_step e s = Inr s' \<and> spsc_sys_inv s'"
    using Cons.prems by (cases e)
      (simp_all add: spsc_event_step_def spsc_producer_step_ok spsc_consumer_step_ok)
  with Cons.IH show ?case by auto
qed simp

lemma spsc_start_inv: "spsc_inv q \<Longrightarrow> spsc_list q = [] \<Longrightarrow> spsc_sys_inv (spsc_start q)"
  by (simp add: spsc_sys_inv_def spsc_start_def producer_inv_def consumer_inv_def)

lemma spsc_no_race: "spsc_sys_inv s \<Longrightarrow> \<not> spsc_race s"
  by (auto simp: spsc_race_def spsc_sys_inv_def producer_inv_def consumer_inv_def
      split: spsc_producer.splits spsc_consumer.splits)

section \<open>Properties\<close>

text \<open>
  C2: for every capacity and every interleaving of the atomic accesses of one producer and one
  consumer, no step faults, the producer never writes the slot the consumer reads, the items
  delivered are a prefix of the items accepted, in order, and at most \<open>capacity - 1\<close> are inside.
\<close>

theorem spsc_concurrent_fifo:
  assumes "capacity \<noteq> 0"
  shows "\<exists>q s. spsc_Init fresh capacity q0 = (True, q) \<and>
    for_each spsc_event_step sched (spsc_start q) = Inr s \<and> \<not> spsc_race s \<and>
    sys_in s = sys_out s @ spsc_list (sys_q s) \<and> length (spsc_list (sys_q s)) < unat (sp_capacity (sys_q s))"
proof -
  from spsc_init_ok [OF assms, of fresh q0] obtain q
    where q: "spsc_Init fresh capacity q0 = (True, q)" "spsc_inv q" "spsc_list q = []" by blast
  from spsc_schedule_ok [OF spsc_start_inv [OF q(2,3)], of sched] obtain s
    where s: "for_each spsc_event_step sched (spsc_start q) = Inr s" "spsc_sys_inv s" by blast
  then have "length (spsc_list (sys_q s)) < unat (sp_capacity (sys_q s))"
    using ring_size_less by (auto simp: spsc_sys_inv_def spsc_inv_def spsc_list_def word_less_nat_alt)
  with q(1) s spsc_no_race show ?thesis by (auto simp: spsc_sys_inv_def)
qed

lemma spsc_concurrent_fifo_witness:
  "\<exists>q s. spsc_Init (0 :: nat) 2 spsc_new = (True, q) \<and>
     for_each spsc_event_step [Producer_Runs 7, Producer_Runs 7, Consumer_Runs, Producer_Runs 7,
       Producer_Runs 7, Consumer_Runs, Consumer_Runs, Consumer_Runs] (spsc_start q) = Inr s \<and>
     \<not> spsc_race s \<and> sys_in s = sys_out s @ spsc_list (sys_q s) \<and>
     length (spsc_list (sys_q s)) < unat (sp_capacity (sys_q s))"
  by (rule spsc_concurrent_fifo) simp

text \<open>
  C39: a client that runs its calls one after the other never makes an initialised queue fault, and
  gets from every call the answer of an abstract queue with room for exactly \<open>capacity - 1\<close> items:
  \<open>Push\<close> accepts an item exactly while fewer are inside, \<open>Pop\<close> delivers the oldest item exactly
  while there is one. So what it pops is, in order, what \<open>Push\<close> accepted, up to what is still inside;
  and \<open>Empty\<close>, \<open>Full\<close> and \<open>SizeApprox\<close> answer for exactly that content.
\<close>

theorem spsc_sequential_fifo:
  assumes "capacity \<noteq> 0"
  shows "\<exists>q as t. spsc_Init fresh capacity q0 = (True, q) \<and>
    drive spsc_Push spsc_Pop ops q = Inr (as, t) \<and>
    fifo_run (unat capacity - 1) ops [] = (as, spsc_list t) \<and>
    accepted ops as = delivered as @ spsc_list t \<and>
    spsc_Empty t = (spsc_list t = []) \<and>
    spsc_Full t = Inr (length (spsc_list t) = unat capacity - 1) \<and>
    unat (spsc_SizeApprox t) = length (spsc_list t)"
proof -
  from spsc_init_ok [OF assms, of fresh q0] obtain q
    where q: "spsc_Init fresh capacity q0 = (True, q)" "spsc_inv q" "spsc_list q = []"
      "spsc_room q = unat capacity - 1" by blast
  from spsc.drive_refines [of q ops] q obtain as t where
    t: "drive spsc_Push spsc_Pop ops q = Inr (as, t)" "spsc_inv t" "spsc_room t = unat capacity - 1"
      "fifo_run (unat capacity - 1) ops [] = (as, spsc_list t)" by auto
  with q(1) fifo_run_fifo [OF t(4)] show ?thesis
    by (auto simp: spsc_Empty_iff spsc_Full_iff spsc_SizeApprox_eq)
qed

lemma spsc_sequential_fifo_witness:
  "\<exists>q as t. spsc_Init (0 :: nat) 3 spsc_new = (True, q) \<and>
    drive spsc_Push spsc_Pop [Do_Push (4 :: nat), Do_Push 5, Do_Push 6, Do_Pop] q = Inr (as, t) \<and>
    as = [Pushed True, Pushed True, Pushed False, Popped (Some 4)] \<and> spsc_list t = [5] \<and>
    \<not> spsc_Empty t \<and> spsc_Full t = Inr False \<and> unat (spsc_SizeApprox t) = 1"
proof -
  let ?ops = "[Do_Push 4, Do_Push 5, Do_Push 6, Do_Pop] :: nat qop list"
  obtain q as t where
    q: "spsc_Init (0 :: nat) 3 spsc_new = (True, q)" "drive spsc_Push spsc_Pop ?ops q = Inr (as, t)"
      "fifo_run 2 ?ops [] = (as, spsc_list t)" "spsc_Empty t = (spsc_list t = [])"
      "spsc_Full t = Inr (length (spsc_list t) = 2)" "unat (spsc_SizeApprox t) = length (spsc_list t)"
    using spsc_sequential_fifo [of 3 0 spsc_new ?ops] by auto
  from q(3) have a: "as = [Pushed True, Pushed True, Pushed False, Popped (Some 4)]" "spsc_list t = [5]"
    by auto
  show ?thesis
    by (rule exI [of _ q], rule exI [of _ as], rule exI [of _ t]) (use q a in \<open>simp del: drive.simps\<close>)
qed

end
