(* ===== verification/Mpsc_Queue.thy ===== *)
theory Mpsc_Queue
  imports Queue_Contract
begin

text \<open>
  \<open>MPSCQueue\<close> of \<open>bridges/impl/ipc_queue_impl.hpp\<close>: a bounded ring whose slots carry sequence
  numbers. Position counters grow without being reduced, as 64-bit words compared through a signed
  difference, so every result carries a bound on the number of pushes still to come. First the
  operations run to completion, then many producers and the consumer interleaved at their atomic
  accesses.
\<close>

section \<open>State and operations\<close>

record 'a Node =
  node_sequence :: size_t
  node_data :: 'a

record 'a MPSCQueue =
  mp_pool :: "'a Node list option"
  mp_capacity :: size_t
  mp_enq :: size_t
  mp_deq :: size_t

definition mpsc_new :: "'a MPSCQueue" where
  "mpsc_new = \<lparr>mp_pool = None, mp_capacity = 0, mp_enq = 0, mp_deq = 0\<rparr>"

definition mpsc_Destroy :: "'a MPSCQueue \<Rightarrow> 'a MPSCQueue" where
  "mpsc_Destroy q = q\<lparr>mp_pool := None, mp_capacity := 0, mp_enq := 0, mp_deq := 0\<rparr>"

text \<open>\<open>fresh\<close> is the content of \<open>T data\<close> in a new node; the loop numbers the slots.\<close>

definition numbered_pool :: "'a \<Rightarrow> nat \<Rightarrow> 'a Node list comp" where
  "numbered_pool fresh n =
     for_each (\<lambda>i p. rbind (aget p i) (\<lambda>node. aset p i (node\<lparr>node_sequence := of_nat i\<rparr>)))
       [0..<n] (replicate n \<lparr>node_sequence = 0, node_data = fresh\<rparr>)"

definition mpsc_Init :: "'a \<Rightarrow> size_t \<Rightarrow> 'a MPSCQueue \<Rightarrow> (bool \<times> 'a MPSCQueue) comp" where
  "mpsc_Init fresh capacity q0 =
     (let q = mpsc_Destroy q0
      in if capacity < 2 then Inr (False, q)
         else rbind (numbered_pool fresh (unat capacity)) (\<lambda>p.
           Inr (True, q\<lparr>mp_capacity := capacity, mp_pool := Some p, mp_enq := 0, mp_deq := 0\<rparr>)))"

definition mpsc_Reserve :: "'a \<Rightarrow> size_t \<Rightarrow> 'a MPSCQueue \<Rightarrow> (bool \<times> 'a MPSCQueue) comp" where
  "mpsc_Reserve fresh new_capacity q =
     (if new_capacity \<le> mp_capacity q then Inr (True, q)
      else if mp_enq q \<noteq> mp_deq q then Inr (False, q)
      else rbind (numbered_pool fresh (unat new_capacity)) (\<lambda>p.
        Inr (True, q\<lparr>mp_pool := Some p, mp_capacity := new_capacity, mp_enq := 0, mp_deq := 0\<rparr>)))"

text \<open>The slot \<open>pool_[pos % pool_capacity_]\<close> and its two fields.\<close>

definition mpsc_node :: "size_t \<Rightarrow> 'a MPSCQueue \<Rightarrow> 'a Node comp" where
  "mpsc_node pos q =
     rbind (umod pos (mp_capacity q)) (\<lambda>i. rbind (deref (mp_pool q)) (\<lambda>p. aget p (unat i)))"

definition mpsc_store :: "size_t \<Rightarrow> ('a Node \<Rightarrow> 'a Node) \<Rightarrow> 'a MPSCQueue \<Rightarrow> 'a MPSCQueue comp" where
  "mpsc_store pos f q =
     rbind (umod pos (mp_capacity q)) (\<lambda>i. rbind (deref (mp_pool q)) (\<lambda>p.
       rbind (aget p (unat i)) (\<lambda>node. rbind (aset p (unat i) (f node)) (\<lambda>p'.
         Inr (q\<lparr>mp_pool := Some p'\<rparr>)))))"

definition difference :: "size_t \<Rightarrow> size_t \<Rightarrow> index_t comp" where
  "difference sequence pos = s64 (sint sequence - sint pos)"

text \<open>
  The retry loop of \<open>Push\<close>: the position it claims, or None when the queue is full. The fuel bounds
  the number of rounds; without other threads the first round decides.
\<close>

fun mpsc_claim :: "nat \<Rightarrow> size_t \<Rightarrow> 'a MPSCQueue \<Rightarrow> (size_t option \<times> 'a MPSCQueue) comp" where
  "mpsc_claim 0 pos q = Inl Out_Of_Fuel"
| "mpsc_claim (Suc fuel) pos q =
     rbind (mpsc_node pos q) (\<lambda>node. rbind (difference (node_sequence node) pos) (\<lambda>diff.
       if diff = 0 then
         (if mp_enq q = pos then Inr (Some pos, q\<lparr>mp_enq := pos + 1\<rparr>)
          else mpsc_claim fuel (mp_enq q) q)
       else if diff < 0 then Inr (None, q)
       else mpsc_claim fuel (mp_enq q) q))"

definition mpsc_Push :: "nat \<Rightarrow> 'a \<Rightarrow> 'a MPSCQueue \<Rightarrow> (bool \<times> 'a MPSCQueue) comp" where
  "mpsc_Push fuel item q =
     (if mp_pool q = None then Inr (False, q)
      else rbind (mpsc_claim fuel (mp_enq q) q) (\<lambda>(claimed, q1).
        case claimed of
          None \<Rightarrow> Inr (False, q1)
        | Some pos \<Rightarrow>
            rbind (mpsc_store pos (\<lambda>n. n\<lparr>node_data := item\<rparr>) q1) (\<lambda>q2.
              rbind (mpsc_store pos (\<lambda>n. n\<lparr>node_sequence := pos + 1\<rparr>) q2) (\<lambda>q3. Inr (True, q3)))))"

definition mpsc_Pop :: "'a MPSCQueue \<Rightarrow> ('a option \<times> 'a MPSCQueue) comp" where
  "mpsc_Pop q =
     (if mp_pool q = None then Inr (None, q)
      else let pos = mp_deq q in
        rbind (mpsc_node pos q) (\<lambda>node. rbind (difference (node_sequence node) (pos + 1)) (\<lambda>diff.
          if diff \<noteq> 0 then Inr (None, q)
          else rbind (mpsc_store pos (\<lambda>n. n\<lparr>node_sequence := pos + mp_capacity q\<rparr>) (q\<lparr>mp_deq := pos + 1\<rparr>))
            (\<lambda>q'. Inr (Some (node_data node), q')))))"

definition mpsc_Empty :: "'a MPSCQueue \<Rightarrow> bool comp" where
  "mpsc_Empty q =
     (if mp_pool q = None then Inr True
      else let pos = mp_deq q in
        rbind (mpsc_node pos q) (\<lambda>node. Inr (node_sequence node \<noteq> pos + 1)))"

definition mpsc_SizeApprox :: "'a MPSCQueue \<Rightarrow> size_t" where
  "mpsc_SizeApprox q = mp_enq q - mp_deq q"

text \<open>The batches stop at the first refusal; \<open>pushed\<close> and \<open>popped\<close> count the successes.\<close>

fun mpsc_push_batch :: "nat \<Rightarrow> 'a list \<Rightarrow> nat list \<Rightarrow> size_t \<Rightarrow> 'a MPSCQueue \<Rightarrow>
    (size_t \<times> 'a MPSCQueue) comp" where
  "mpsc_push_batch fuel items [] pushed q = Inr (pushed, q)"
| "mpsc_push_batch fuel items (i # is) pushed q =
     rbind (aget items i) (\<lambda>x. rbind (mpsc_Push fuel x q) (\<lambda>(ok, q').
       if ok then mpsc_push_batch fuel items is (pushed + 1) q' else Inr (pushed, q')))"

definition mpsc_PushBatch :: "nat \<Rightarrow> 'a list \<Rightarrow> size_t \<Rightarrow> 'a MPSCQueue \<Rightarrow> (size_t \<times> 'a MPSCQueue) comp" where
  "mpsc_PushBatch fuel items cnt q = mpsc_push_batch fuel items [0..<unat cnt] 0 q"

fun mpsc_pop_batch :: "'a list \<Rightarrow> nat list \<Rightarrow> size_t \<Rightarrow> 'a MPSCQueue \<Rightarrow>
    (size_t \<times> 'a list \<times> 'a MPSCQueue) comp" where
  "mpsc_pop_batch items [] popped q = Inr (popped, items, q)"
| "mpsc_pop_batch items (i # is) popped q =
     rbind (mpsc_Pop q) (\<lambda>(r, q').
       case r of
         None \<Rightarrow> Inr (popped, items, q')
       | Some x \<Rightarrow> rbind (aset items i x) (\<lambda>items'. mpsc_pop_batch items' is (popped + 1) q'))"

definition mpsc_PopBatch :: "'a list \<Rightarrow> size_t \<Rightarrow> 'a MPSCQueue \<Rightarrow>
    (size_t \<times> 'a list \<times> 'a MPSCQueue) comp" where
  "mpsc_PopBatch items cnt q = mpsc_pop_batch items [0..<unat cnt] 0 q"

section \<open>The invariant\<close>

text \<open>
  With \<open>d\<close> and \<open>e\<close> the two positions, the slots of \<open>[d, e)\<close> hold the content and carry their
  position plus one, the slots of \<open>[e, d + capacity)\<close> are free and carry their position. \<open>n\<close> more
  pushes keep every position below \<open>2 ^ 63\<close>.
\<close>

definition mpsc_seq :: "'a MPSCQueue \<Rightarrow> nat \<Rightarrow> nat" where
  "mpsc_seq q p = unat (node_sequence (the (mp_pool q) ! (p mod unat (mp_capacity q))))"

definition mpsc_data :: "'a MPSCQueue \<Rightarrow> nat \<Rightarrow> 'a" where
  "mpsc_data q p = node_data (the (mp_pool q) ! (p mod unat (mp_capacity q)))"

definition mpsc_pool_ok :: "'a MPSCQueue \<Rightarrow> bool" where
  "mpsc_pool_ok q \<longleftrightarrow> (\<exists>p. mp_pool q = Some p \<and> length p = unat (mp_capacity q)) \<and> 2 \<le> unat (mp_capacity q)"

definition mpsc_inv :: "nat \<Rightarrow> 'a MPSCQueue \<Rightarrow> bool" where
  "mpsc_inv n q \<longleftrightarrow> mpsc_pool_ok q \<and> unat (mp_deq q) \<le> unat (mp_enq q) \<and>
     unat (mp_enq q) \<le> unat (mp_deq q) + unat (mp_capacity q) \<and>
     unat (mp_enq q) + n + unat (mp_capacity q) < 2 ^ 63 \<and>
     (\<forall>p. unat (mp_deq q) \<le> p \<and> p < unat (mp_enq q) \<longrightarrow> mpsc_seq q p = Suc p) \<and>
     (\<forall>p. unat (mp_enq q) \<le> p \<and> p < unat (mp_deq q) + unat (mp_capacity q) \<longrightarrow> mpsc_seq q p = p)"

definition mpsc_list :: "'a MPSCQueue \<Rightarrow> 'a list" where
  "mpsc_list q = map (mpsc_data q) [unat (mp_deq q)..<unat (mp_enq q)]"

definition mpsc_room :: "'a MPSCQueue \<Rightarrow> nat" where
  "mpsc_room q = unat (mp_capacity q)"


lemma mpsc_poolD:
  assumes "mpsc_pool_ok q"
  obtains p where "mp_pool q = Some p" "length p = unat (mp_capacity q)" "mp_capacity q \<noteq> 0"
    "0 < unat (mp_capacity q)" "2 \<le> unat (mp_capacity q)"
proof -
  have "mp_capacity q \<noteq> 0" using assms by (auto simp: mpsc_pool_ok_def)
  with assms that show thesis by (auto simp: mpsc_pool_ok_def)
qed

text \<open>What one slot access does, read through \<open>mpsc_seq\<close> and \<open>mpsc_data\<close>.\<close>

definition mpsc_upd :: "size_t \<Rightarrow> ('a Node \<Rightarrow> 'a Node) \<Rightarrow> 'a MPSCQueue \<Rightarrow> 'a MPSCQueue" where
  "mpsc_upd pos f q =
     (let i = unat pos mod unat (mp_capacity q); p = the (mp_pool q)
      in q\<lparr>mp_pool := Some (p[i := f (p ! i)])\<rparr>)"

lemma mpsc_upd_fields [simp]:
  "mp_capacity (mpsc_upd pos f q) = mp_capacity q" "mp_enq (mpsc_upd pos f q) = mp_enq q"
  "mp_deq (mpsc_upd pos f q) = mp_deq q"
  by (simp_all add: mpsc_upd_def Let_def)

lemma mpsc_node_ok:
  assumes "mpsc_pool_ok q"
  shows "\<exists>node. mpsc_node pos q = Inr node \<and> unat (node_sequence node) = mpsc_seq q (unat pos) \<and>
    node_data node = mpsc_data q (unat pos)"
  using assms
  by (rule mpsc_poolD) (simp add: mpsc_node_def mpsc_seq_def mpsc_data_def unat_mod_size)

lemma mpsc_store_ok: "mpsc_pool_ok q \<Longrightarrow> mpsc_store pos f q = Inr (mpsc_upd pos f q)"
  by (erule mpsc_poolD) (simp add: mpsc_store_def mpsc_upd_def Let_def unat_mod_size)

lemma mpsc_pool_ok_upd [simp]: "mpsc_pool_ok q \<Longrightarrow> mpsc_pool_ok (mpsc_upd pos f q)"
  by (auto simp: mpsc_pool_ok_def mpsc_upd_def Let_def)

lemma mpsc_slot_same:
  assumes "mpsc_pool_ok q" and "p mod unat (mp_capacity q) = unat pos mod unat (mp_capacity q)"
  shows "mpsc_seq (mpsc_upd pos (\<lambda>n. n\<lparr>node_sequence := v\<rparr>) q) p = unat v"
    and "mpsc_data (mpsc_upd pos (\<lambda>n. n\<lparr>node_data := x\<rparr>) q) p = x"
  using assms
  by (auto elim!: mpsc_poolD simp: mpsc_seq_def mpsc_data_def mpsc_upd_def Let_def)

lemma mpsc_slot_other:
  assumes "p mod unat (mp_capacity q) \<noteq> unat pos mod unat (mp_capacity q)"
  shows "mpsc_seq (mpsc_upd pos f q) p = mpsc_seq q p"
    and "mpsc_data (mpsc_upd pos f q) p = mpsc_data q p"
  using assms by (auto simp: mpsc_seq_def mpsc_data_def mpsc_upd_def Let_def)

lemma mpsc_slot_field:
  assumes "mpsc_pool_ok q"
  shows "mpsc_seq (mpsc_upd pos (\<lambda>n. n\<lparr>node_data := x\<rparr>) q) p = mpsc_seq q p"
    and "mpsc_data (mpsc_upd pos (\<lambda>n. n\<lparr>node_sequence := v\<rparr>) q) p = mpsc_data q p"
  using assms
  by (auto elim!: mpsc_poolD simp: mpsc_seq_def mpsc_data_def mpsc_upd_def Let_def nth_list_update)

lemma mpsc_slot_position [simp]:
  "mpsc_seq (q\<lparr>mp_enq := v\<rparr>) = mpsc_seq q" "mpsc_seq (q\<lparr>mp_deq := v\<rparr>) = mpsc_seq q"
  "mpsc_data (q\<lparr>mp_enq := v\<rparr>) = mpsc_data q" "mpsc_data (q\<lparr>mp_deq := v\<rparr>) = mpsc_data q"
  "mpsc_pool_ok (q\<lparr>mp_enq := v\<rparr>) = mpsc_pool_ok q" "mpsc_pool_ok (q\<lparr>mp_deq := v\<rparr>) = mpsc_pool_ok q"
  by (simp_all add: mpsc_seq_def mpsc_data_def mpsc_pool_ok_def fun_eq_iff)

text \<open>Below \<open>2 ^ 63\<close> the signed difference is the difference of the positions.\<close>

lemma s64_nat_diff: "m < 2 ^ 63 \<Longrightarrow> n < 2 ^ 63 \<Longrightarrow> s64 (int m - int n) = Inr (int m - int n)"
  by (simp add: s64_def)

lemma difference_ok:
  assumes "unat a < 2 ^ 63" and "unat b < 2 ^ 63"
  shows "\<exists>z. difference a b = Inr z \<and> (z = 0 \<longleftrightarrow> unat a = unat b) \<and> (z < 0 \<longleftrightarrow> unat a < unat b)"
proof -
  have "difference a b = Inr (int (unat a) - int (unat b))"
    unfolding difference_def sint_small [OF assms(1)] sint_small [OF assms(2)]
    by (rule s64_nat_diff [OF assms])
  moreover have "int m - int n = 0 \<longleftrightarrow> m = n" "int m - int n < 0 \<longleftrightarrow> m < n" for m n by auto
  ultimately show ?thesis by blast
qed

lemma difference_zero: "unat a = unat b \<Longrightarrow> unat b < 2 ^ 63 \<Longrightarrow> difference a b = Inr 0"
  using difference_ok [of a b] by auto

lemma difference_neg:
  assumes "unat a < unat b" "unat b < 2 ^ 63"
  obtains z where "difference a b = Inr z" "z < 0" "z \<noteq> 0"
  using assms difference_ok [of a b] by fastforce

section \<open>The operations implement a bounded FIFO\<close>

lemma mpsc_invD:
  assumes "mpsc_inv n q"
  shows "mpsc_pool_ok q" "unat (mp_deq q) \<le> unat (mp_enq q)"
    "unat (mp_enq q) \<le> unat (mp_deq q) + unat (mp_capacity q)"
    "unat (mp_enq q) + n + unat (mp_capacity q) < 2 ^ 63" "2 \<le> unat (mp_capacity q)"
    "\<And>p. unat (mp_deq q) \<le> p \<Longrightarrow> p < unat (mp_enq q) \<Longrightarrow> mpsc_seq q p = Suc p"
    "\<And>p. unat (mp_enq q) \<le> p \<Longrightarrow> p < unat (mp_deq q) + unat (mp_capacity q) \<Longrightarrow> mpsc_seq q p = p"
  using assms by (auto simp: mpsc_inv_def mpsc_pool_ok_def)

lemma length_mpsc_list: "length (mpsc_list q) = unat (mp_enq q) - unat (mp_deq q)"
  by (simp add: mpsc_list_def)

lemma mpsc_push_full:
  assumes inv: "mpsc_inv n q" and full: "length (mpsc_list q) = mpsc_room q"
  shows "mpsc_Push (Suc fuel) x q = Inr (False, q)"
proof -
  note I = mpsc_invD [OF inv]
  have e: "unat (mp_enq q) = unat (mp_deq q) + unat (mp_capacity q)"
    using full I(2) by (simp add: length_mpsc_list mpsc_room_def)
  have "mpsc_seq q (unat (mp_enq q)) = mpsc_seq q (unat (mp_deq q))"
    by (simp add: mpsc_seq_def e)
  also have "\<dots> = Suc (unat (mp_deq q))" using I(5,6) e by simp
  finally have seq: "mpsc_seq q (unat (mp_enq q)) = Suc (unat (mp_deq q))" .
  obtain node where node: "mpsc_node (mp_enq q) q = Inr node"
    "unat (node_sequence node) = mpsc_seq q (unat (mp_enq q))"
    using mpsc_node_ok [OF I(1)] by blast
  have "unat (node_sequence node) < unat (mp_enq q)" using node seq e I(5) by simp
  then obtain z where z: "difference (node_sequence node) (mp_enq q) = Inr z" "z < 0" "z \<noteq> 0"
    using I(4) by (elim difference_neg) simp_all
  have "mp_pool q \<noteq> None" using I(1) by (auto simp: mpsc_pool_ok_def)
  with node z show ?thesis by (simp add: mpsc_Push_def)
qed

lemma mpsc_claim_room:
  assumes inv: "mpsc_inv n q" and room: "length (mpsc_list q) < mpsc_room q"
  shows "mpsc_claim (Suc fuel) (mp_enq q) q = Inr (Some (mp_enq q), q\<lparr>mp_enq := mp_enq q + 1\<rparr>)"
proof -
  note I = mpsc_invD [OF inv]
  obtain node where node: "mpsc_node (mp_enq q) q = Inr node"
    "unat (node_sequence node) = mpsc_seq q (unat (mp_enq q))"
    using mpsc_node_ok [OF I(1)] by blast
  have "mpsc_seq q (unat (mp_enq q)) = unat (mp_enq q)"
    using I(2,7) room by (simp add: length_mpsc_list mpsc_room_def)
  with node I(4) show ?thesis by (simp add: difference_zero)
qed

lemma mpsc_push_room:
  assumes inv: "mpsc_inv (Suc n) q" and room: "length (mpsc_list q) < mpsc_room q"
  shows "\<exists>q'. mpsc_Push (Suc fuel) x q = Inr (True, q') \<and> mpsc_inv n q' \<and>
    mpsc_list q' = mpsc_list q @ [x] \<and> mpsc_room q' = mpsc_room q"
proof -
  note I = mpsc_invD [OF inv]
  let ?e = "mp_enq q" and ?c = "unat (mp_capacity q)" and ?d = "unat (mp_deq q)"
  let ?q1 = "q\<lparr>mp_enq := ?e + 1\<rparr>"
  let ?q2 = "mpsc_upd ?e (\<lambda>n. n\<lparr>node_data := x\<rparr>) ?q1"
  let ?q3 = "mpsc_upd ?e (\<lambda>n. n\<lparr>node_sequence := ?e + 1\<rparr>) ?q2"
  have pool: "mp_pool q \<noteq> None" using I(1) by (auto simp: mpsc_pool_ok_def)
  have run: "mpsc_Push (Suc fuel) x q = Inr (True, ?q3)"
    using I(1) pool by (simp add: mpsc_Push_def mpsc_claim_room [OF inv room] mpsc_store_ok del: mpsc_claim.simps)
  have e1: "unat (?e + 1) = Suc (unat ?e)"
    using I(4) by (intro unat_Suc_less [of _ "2 ^ 63"]) simp_all
  have win: "p mod ?c = unat ?e mod ?c \<longleftrightarrow> p = unat ?e" if "?d \<le> p" "p < ?d + ?c" for p
    using that I(2) room by (intro mod_window_eq_iff [of ?d]) (simp_all add: length_mpsc_list mpsc_room_def)
  have seq: "mpsc_seq ?q3 p = (if p = unat ?e then Suc p else mpsc_seq q p)" if "?d \<le> p" "p < ?d + ?c" for p
    using that win [OF that] I(1) e1 by (simp add: mpsc_slot_same mpsc_slot_other)
  have data: "mpsc_data ?q3 p = (if p = unat ?e then x else mpsc_data q p)" if "?d \<le> p" "p < ?d + ?c" for p
    using that win [OF that] I(1) by (simp add: mpsc_slot_field mpsc_slot_same mpsc_slot_other)
  have "mpsc_inv n ?q3"
    using I room e1 by (auto simp: mpsc_inv_def seq length_mpsc_list mpsc_room_def)
  moreover have "mpsc_list ?q3 = mpsc_list q @ [x]"
    using I(2,3) room e1 by (auto simp: mpsc_list_def data mpsc_room_def)
  ultimately show ?thesis using run by (simp add: mpsc_room_def)
qed

lemma mpsc_pop_item:
  assumes inv: "mpsc_inv n q" and list: "mpsc_list q = x # xs"
  shows "\<exists>q'. mpsc_Pop q = Inr (Some x, q') \<and> mpsc_inv n q' \<and> mpsc_list q' = xs \<and>
    mpsc_room q' = mpsc_room q"
proof -
  note I = mpsc_invD [OF inv]
  let ?d = "mp_deq q" and ?c = "unat (mp_capacity q)" and ?e = "unat (mp_enq q)"
  let ?q1 = "q\<lparr>mp_deq := ?d + 1\<rparr>"
  let ?q2 = "mpsc_upd ?d (\<lambda>n. n\<lparr>node_sequence := ?d + mp_capacity q\<rparr>) ?q1"
  have pool: "mp_pool q \<noteq> None" using I(1) by (auto simp: mpsc_pool_ok_def)
  have de: "unat ?d < ?e" using list length_mpsc_list [of q] by simp
  have d1: "unat (?d + 1) = Suc (unat ?d)"
    using I(4) de by (intro unat_Suc_less [of _ "2 ^ 63"]) simp_all
  have dc: "unat (?d + mp_capacity q) = unat ?d + ?c"
    using I(4) de by (intro unat_plus_simple_size) simp
  have split: "x = mpsc_data q (unat ?d)" "xs = map (mpsc_data q) [Suc (unat ?d)..<?e]"
    using list de by (simp_all add: mpsc_list_def upt_conv_Cons)
  obtain node where node: "mpsc_node ?d q = Inr node"
    "unat (node_sequence node) = mpsc_seq q (unat ?d)" "node_data node = mpsc_data q (unat ?d)"
    using mpsc_node_ok [OF I(1)] by blast
  then have "difference (node_sequence node) (?d + 1) = Inr 0"
    using I(4) I(6) [of "unat ?d"] de d1 by (intro difference_zero) simp_all
  then have run: "mpsc_Pop q = Inr (Some x, ?q2)"
    using pool node I(1) split(1) by (simp add: mpsc_Pop_def mpsc_store_ok Let_def)
  have win: "p mod ?c = unat ?d mod ?c \<longleftrightarrow> p = unat ?d" if "unat ?d \<le> p" "p < unat ?d + ?c" for p
    using that I(5) by (intro mod_window_eq_iff [of "unat ?d"]) simp_all
  have seq: "mpsc_seq ?q2 p = mpsc_seq q p" if "unat ?d < p" "p < unat ?d + ?c" for p
    using that win [of p] by (simp add: mpsc_slot_other)
  have last: "mpsc_seq ?q2 (unat ?d + ?c) = unat ?d + ?c"
    using I(1) dc by (simp add: mpsc_slot_same)
  have "mpsc_inv n ?q2"
    unfolding mpsc_inv_def
  proof (intro conjI allI impI)
    fix p
    assume "unat (mp_deq ?q2) \<le> p \<and> p < unat (mp_enq ?q2)"
    then show "mpsc_seq ?q2 p = Suc p"
      using I(3,6) d1 seq [of p] last by (cases "p < unat ?d + ?c") auto
  next
    fix p
    assume "unat (mp_enq ?q2) \<le> p \<and> p < unat (mp_deq ?q2) + unat (mp_capacity ?q2)"
    then show "mpsc_seq ?q2 p = p"
      using I(7) d1 de seq [of p] last by (cases "p < unat ?d + ?c") (auto simp: less_Suc_eq)
  qed (use I d1 de in auto)
  moreover have "mpsc_list ?q2 = xs"
    using I(1) d1 split by (simp add: mpsc_list_def mpsc_slot_field)
  ultimately show ?thesis using run by (simp add: mpsc_room_def)
qed

lemma mpsc_node_empty:
  assumes inv: "mpsc_inv n q" and list: "mpsc_list q = []"
  shows "\<exists>node. mpsc_node (mp_deq q) q = Inr node \<and> unat (node_sequence node) = unat (mp_deq q) \<and>
    mp_enq q = mp_deq q"
proof -
  note I = mpsc_invD [OF inv]
  have de: "unat (mp_enq q) = unat (mp_deq q)" using list length_mpsc_list [of q] I(2) by simp
  then have "mpsc_seq q (unat (mp_deq q)) = unat (mp_deq q)" using I(5,7) by simp
  with mpsc_node_ok [OF I(1), of "mp_deq q"] de show ?thesis by (auto simp: word_unat_eq_iff)
qed

lemma mpsc_deq_Suc: "mpsc_inv n q \<Longrightarrow> unat (mp_deq q + 1) = Suc (unat (mp_deq q))"
  using mpsc_invD(2,4) [of n q] by (intro unat_Suc_less [of _ "2 ^ 63"]) simp_all

lemma mpsc_pop_empty:
  assumes inv: "mpsc_inv n q" and list: "mpsc_list q = []"
  shows "mpsc_Pop q = Inr (None, q)"
proof -
  note I = mpsc_invD [OF inv]
  obtain node where node: "mpsc_node (mp_deq q) q = Inr node"
    "unat (node_sequence node) = unat (mp_deq q)" using mpsc_node_empty [OF inv list] by blast
  have "unat (node_sequence node) < unat (mp_deq q + 1)" "unat (mp_deq q + 1) < 2 ^ 63"
    using node I(2,4,5) mpsc_deq_Suc [OF inv] by simp_all
  then obtain z where z: "difference (node_sequence node) (mp_deq q + 1) = Inr z" "z \<noteq> 0"
    by (elim difference_neg)
  have "mp_pool q \<noteq> None" using I(1) by (auto simp: mpsc_pool_ok_def)
  with node z show ?thesis by (simp add: mpsc_Pop_def Let_def)
qed

lemma mpsc_list_bounded: "mpsc_inv n q \<Longrightarrow> length (mpsc_list q) \<le> mpsc_room q"
  using mpsc_invD(3) [of n q] by (simp add: length_mpsc_list mpsc_room_def)

lemma mpsc_inv_less: "mpsc_inv n q \<Longrightarrow> m \<le> n \<Longrightarrow> mpsc_inv m q"
  by (auto simp: mpsc_inv_def)

interpretation mpsc: bounded_fifo mpsc_inv mpsc_list mpsc_room "mpsc_Push (Suc fuel)" mpsc_Pop
  by unfold_locales
    (simp_all add: mpsc_list_bounded mpsc_inv_less mpsc_push_full mpsc_push_room mpsc_pop_item
      mpsc_pop_empty del: One_nat_def)

section \<open>Construction, queries and batches\<close>

lemma numbered_pool_ok:
  assumes "n < 2 ^ 64"
  shows "numbered_pool fresh n = Inr (map (\<lambda>i. \<lparr>node_sequence = of_nat i, node_data = fresh\<rparr>) [0..<n])"
proof -
  let ?node = "\<lambda>i. \<lparr>node_sequence = of_nat i, node_data = fresh\<rparr>"
  let ?blank = "\<lparr>node_sequence = 0, node_data = fresh\<rparr>"
  have "\<exists>t. numbered_pool fresh n = Inr t \<and> t = map ?node [0..<n] @ replicate (n - n) ?blank"
    unfolding numbered_pool_def
  proof (rule for_each_upt [where P = "\<lambda>i t. t = map ?node [0..<i] @ replicate (n - i) ?blank"])
    fix i t
    assume i: "i < n" and t: "t = map ?node [0..<i] @ replicate (n - i) ?blank"
    then have "n - i = Suc (n - Suc i)" by simp
    with i t show "\<exists>t'. rbind (aget t i) (\<lambda>node. aset t i (node\<lparr>node_sequence := of_nat i\<rparr>)) = Inr t' \<and>
        t' = map ?node [0..<Suc i] @ replicate (n - Suc i) ?blank"
      by (simp add: aget_def aset_def nth_append list_update_append)
  qed simp_all
  then show ?thesis by simp
qed

lemma mpsc_inv_numbered:
  assumes "2 \<le> unat (mp_capacity q)" and "unat (mp_capacity q) + n < 2 ^ 63"
    and "mp_pool q = Some (map (\<lambda>i. \<lparr>node_sequence = of_nat i, node_data = fresh\<rparr>) [0..<unat (mp_capacity q)])"
    and "mp_enq q = 0" and "mp_deq q = 0"
  shows "mpsc_inv n q"
  using assms by (auto simp: mpsc_inv_def mpsc_pool_ok_def mpsc_seq_def unat_of_nat_size)

lemma mpsc_init_ok:
  assumes "2 \<le> unat capacity" and "unat capacity + n < 2 ^ 63"
  shows "\<exists>q. mpsc_Init fresh capacity q0 = Inr (True, q) \<and> mpsc_inv n q \<and> mpsc_list q = [] \<and>
    mpsc_room q = unat capacity"
proof -
  have "\<not> capacity < 2" using assms(1) by (simp add: word_less_nat_alt)
  with assms unat_less_mult [of capacity] show ?thesis
    by (simp add: mpsc_Init_def mpsc_Destroy_def numbered_pool_ok mpsc_list_def mpsc_room_def
        mpsc_inv_numbered [where fresh = fresh])
qed

lemma mpsc_Reserve_ok:
  assumes "mpsc_inv m q" and "unat new_capacity + n < 2 ^ 63" and "n \<le> m"
  shows "\<exists>ok q'. mpsc_Reserve fresh new_capacity q = Inr (ok, q') \<and> mpsc_inv n q' \<and>
    mpsc_list q' = mpsc_list q \<and> ok = (unat new_capacity \<le> mpsc_room q \<or> mpsc_list q = []) \<and>
    mpsc_room q' = (if ok then max (mpsc_room q) (unat new_capacity) else mpsc_room q)"
proof -
  note I = mpsc_invD [OF assms(1)]
  have empty: "mpsc_list q = [] \<longleftrightarrow> mp_enq q = mp_deq q"
    using I(2) length_mpsc_list [of q] by (auto simp: word_unat_eq_iff simp flip: length_0_conv)
  show ?thesis
  proof (cases "new_capacity \<le> mp_capacity q")
    case True
    with assms show ?thesis
      by (auto simp: mpsc_Reserve_def mpsc_room_def word_le_nat_alt intro: mpsc_inv_less)
  next
    case grow: False
    then have c: "unat (mp_capacity q) < unat new_capacity" by (simp add: word_le_nat_alt)
    show ?thesis
    proof (cases "mp_enq q = mp_deq q")
      case True
      have "mpsc_inv n (q\<lparr>mp_pool := Some (map (\<lambda>i. \<lparr>node_sequence = of_nat i, node_data = fresh\<rparr>)
          [0..<unat new_capacity]), mp_capacity := new_capacity, mp_enq := 0, mp_deq := 0\<rparr>)"
        using assms(2) c I(5) by (intro mpsc_inv_numbered [where fresh = fresh]) simp_all
      with True grow c empty show ?thesis
        using unat_less_mult [of new_capacity]
        by (auto simp: mpsc_Reserve_def numbered_pool_ok mpsc_list_def mpsc_room_def)
    next
      case False
      with assms grow c empty show ?thesis
        by (auto simp: mpsc_Reserve_def mpsc_room_def intro: mpsc_inv_less)
    qed
  qed
qed

lemma mpsc_Empty_iff:
  assumes "mpsc_inv n q"
  shows "mpsc_Empty q = Inr (mpsc_list q = [])"
proof -
  note I = mpsc_invD [OF assms]
  obtain node where node: "mpsc_node (mp_deq q) q = Inr node"
    "unat (node_sequence node) = mpsc_seq q (unat (mp_deq q))"
    using mpsc_node_ok [OF I(1)] by blast
  have "mp_pool q \<noteq> None" using I(1) by (auto simp: mpsc_pool_ok_def)
  moreover have "node_sequence node = mp_deq q + 1 \<longleftrightarrow> mpsc_list q \<noteq> []"
  proof (cases "unat (mp_deq q) < unat (mp_enq q)")
    case True
    with node I(6) mpsc_deq_Suc [OF assms] show ?thesis
      by (simp add: word_unat_eq_iff mpsc_list_def)
  next
    case False
    with node I(2,5,7) mpsc_deq_Suc [OF assms] show ?thesis
      by (simp add: word_unat_eq_iff mpsc_list_def)
  qed
  ultimately show ?thesis using node by (auto simp: mpsc_Empty_def Let_def)
qed

lemma mpsc_SizeApprox_eq: "mpsc_inv n q \<Longrightarrow> unat (mpsc_SizeApprox q) = length (mpsc_list q)"
  using mpsc_invD(2) [of n q] by (simp add: mpsc_SizeApprox_def length_mpsc_list unat_minus_size)

lemma mpsc_push_batch_ok:
  assumes "mpsc_inv (n - i + m) q" and "n \<le> length items"
  shows "\<exists>q' k. mpsc_push_batch (Suc fuel) items [i..<n] pushed q = Inr (pushed + of_nat k, q') \<and>
    k = min (n - i) (mpsc_room q - length (mpsc_list q)) \<and> mpsc_inv m q' \<and>
    mpsc_list q' = mpsc_list q @ take k (drop i items) \<and> mpsc_room q' = mpsc_room q"
  using assms
proof (induction "n - i" arbitrary: i pushed q)
  case 0
  then show ?case by (auto intro: mpsc_inv_less)
next
  case (Suc d)
  then have i: "i < n" "n - i = Suc (n - Suc i)" and d: "d = n - Suc i" by simp_all
  obtain ok q1 where push: "mpsc_Push (Suc fuel) (items ! i) q = Inr (ok, q1)"
    "mpsc_inv (n - Suc i + m) q1" "mpsc_room q1 = mpsc_room q" "ok = (length (mpsc_list q) < mpsc_room q)"
    "mpsc_list q1 = mpsc_list q @ (if ok then [items ! i] else [])"
    using mpsc.push_total [of "n - Suc i + m" q fuel "items ! i"] Suc.prems(1) i(2) by auto
  show ?case
  proof (cases ok)
    case False
    with push i Suc.prems(2) show ?thesis
      by (auto simp: upt_conv_Cons intro: mpsc_inv_less)
  next
    case True
    obtain q' k where rest:
      "mpsc_push_batch (Suc fuel) items [Suc i..<n] (pushed + 1) q1 = Inr (pushed + 1 + of_nat k, q')"
      "k = min (n - Suc i) (mpsc_room q1 - length (mpsc_list q1))" "mpsc_inv m q'"
      "mpsc_list q' = mpsc_list q1 @ take k (drop (Suc i) items)" "mpsc_room q' = mpsc_room q1"
      using Suc.hyps(1) [OF d push(2) Suc.prems(2), of "pushed + 1"] by blast
    have k: "Suc k = min (n - i) (mpsc_room q - length (mpsc_list q))"
      using rest(2) push True i by (simp split: split_min) linarith
    have "take (Suc k) (drop i items) = items ! i # take k (drop (Suc i) items)"
      using i Suc.prems(2) by (simp add: Cons_nth_drop_Suc [symmetric])
    with True push rest(1,3-5) i(1) Suc.prems(2) k [symmetric] show ?thesis
      by (intro exI [of _ q'] exI [of _ "Suc k"]) (simp add: upt_conv_Cons algebra_simps)
  qed
qed

lemma mpsc_pop_batch_ok:
  assumes "mpsc_inv m q" and "n \<le> length items" and "i \<le> n"
  shows "\<exists>q' k. mpsc_pop_batch items [i..<n] popped q =
      Inr (popped + of_nat k, take i items @ take k (mpsc_list q) @ drop (i + k) items, q') \<and>
    k = min (n - i) (length (mpsc_list q)) \<and> mpsc_inv m q' \<and>
    mpsc_list q' = drop k (mpsc_list q) \<and> mpsc_room q' = mpsc_room q"
  using assms
proof (induction "n - i" arbitrary: i popped q items)
  case 0
  then show ?case by auto
next
  case (Suc d)
  then have i: "i < n" "n - i = Suc (n - Suc i)" and d: "d = n - Suc i" by simp_all
  show ?case
  proof (cases "mpsc_list q")
    case Nil
    with Suc.prems i mpsc_pop_empty [OF Suc.prems(1)] show ?thesis
      by (simp add: upt_conv_Cons)
  next
    case (Cons x xs)
    from mpsc_pop_item [OF Suc.prems(1) Cons] obtain q1 where pop: "mpsc_Pop q = Inr (Some x, q1)"
      "mpsc_inv m q1" "mpsc_list q1 = xs" "mpsc_room q1 = mpsc_room q" by blast
    have len: "n \<le> length (items[i := x])" "Suc i \<le> n" using Suc.prems(2) i by simp_all
    obtain q' k where rest: "mpsc_pop_batch (items[i := x]) [Suc i..<n] (popped + 1) q1 =
        Inr (popped + 1 + of_nat k, take (Suc i) (items[i := x]) @ take k xs @
          drop (Suc i + k) (items[i := x]), q')"
      "k = min (n - Suc i) (length xs)" "mpsc_inv m q'" "mpsc_list q' = drop k xs"
      "mpsc_room q' = mpsc_room q"
      using Suc.hyps(1) [OF d pop(2) len, of "popped + 1"] unfolding pop(3) pop(4) by blast
    with pop Cons i Suc.prems(2) show ?thesis
      by (intro exI [of _ q'] exI [of _ "Suc k"])
        (auto simp: upt_conv_Cons algebra_simps take_Suc_list_update)
  qed
qed

section \<open>Properties\<close>

text \<open>
  C40: a client that runs its calls one after the other never makes an initialised queue fault or
  \<open>Push\<close> loop, and gets from every call the answer of an abstract queue with room for exactly
  \<open>capacity\<close> items: \<open>Push\<close> accepts an item exactly while fewer are inside, \<open>Pop\<close> delivers the oldest
  item exactly while there is one. So what it pops is, in order, what \<open>Push\<close> accepted, up to what is
  still inside; and \<open>Empty\<close> and \<open>SizeApprox\<close> answer for exactly that content.
\<close>

theorem mpsc_sequential_fifo:
  assumes "2 \<le> unat capacity" and "unat capacity + length ops < 2 ^ 63"
  shows "\<exists>q as t. mpsc_Init fresh capacity q0 = Inr (True, q) \<and>
    drive (mpsc_Push (Suc fuel)) mpsc_Pop ops q = Inr (as, t) \<and>
    fifo_run (unat capacity) ops [] = (as, mpsc_list t) \<and>
    accepted ops as = delivered as @ mpsc_list t \<and> mpsc_Empty t = Inr (mpsc_list t = []) \<and>
    unat (mpsc_SizeApprox t) = length (mpsc_list t)"
proof -
  from mpsc_init_ok [OF assms, of fresh q0] obtain q where
    q: "mpsc_Init fresh capacity q0 = Inr (True, q)" "mpsc_inv (length ops) q" "mpsc_list q = []"
      "mpsc_room q = unat capacity" by blast
  from mpsc.drive_refines [OF q(2), of fuel] obtain as t where
    t: "drive (mpsc_Push (Suc fuel)) mpsc_Pop ops q = Inr (as, t)" "mpsc_inv 0 t"
      "fifo_run (unat capacity) ops [] = (as, mpsc_list t)" unfolding q(3) q(4) by blast
  with q(1) fifo_run_fifo [OF t(3)] mpsc_Empty_iff [OF t(2)] mpsc_SizeApprox_eq [OF t(2)]
  show ?thesis by auto
qed

lemma mpsc_sequential_fifo_witness:
  "\<exists>q as t. mpsc_Init (0 :: nat) 2 mpsc_new = Inr (True, q) \<and>
    drive (mpsc_Push (Suc 0)) mpsc_Pop [Do_Push (4 :: nat), Do_Push 5, Do_Push 6, Do_Pop] q = Inr (as, t) \<and>
    as = [Pushed True, Pushed True, Pushed False, Popped (Some 4)] \<and> mpsc_list t = [5] \<and>
    mpsc_Empty t = Inr False \<and> unat (mpsc_SizeApprox t) = 1"
proof -
  let ?ops = "[Do_Push 4, Do_Push 5, Do_Push 6, Do_Pop] :: nat qop list"
  obtain q as t where
    q: "mpsc_Init (0 :: nat) 2 mpsc_new = Inr (True, q)"
      "drive (mpsc_Push (Suc 0)) mpsc_Pop ?ops q = Inr (as, t)"
      "fifo_run 2 ?ops [] = (as, mpsc_list t)" "mpsc_Empty t = Inr (mpsc_list t = [])"
      "unat (mpsc_SizeApprox t) = length (mpsc_list t)"
    using mpsc_sequential_fifo [of 2 ?ops 0 mpsc_new 0] by auto
  from q(3) have a: "as = [Pushed True, Pushed True, Pushed False, Popped (Some 4)]" "mpsc_list t = [5]"
    by auto
  show ?thesis
    by (rule exI [of _ q], rule exI [of _ as], rule exI [of _ t]) (use q a in \<open>simp del: drive.simps\<close>)
qed

text \<open>
  \<open>PushBatch\<close> accepts the items that fit, in order, and reports how many; \<open>PopBatch\<close> then
  returns the oldest ones into the caller's buffer, leaves the rest of the buffer alone, and keeps
  inside what it did not return. \<open>Reserve\<close> to a larger capacity is refused in between unless the
  queue is empty.
\<close>

theorem mpsc_batch_roundtrip:
  assumes "2 \<le> unat capacity" and "unat capacity + unat n < 2 ^ 63" and "unat larger < 2 ^ 63"
    and "unat n \<le> length items" and "unat m \<le> length buf" and "capacity < larger"
  shows "\<exists>q q1 q2 k j ok q3. mpsc_Init fresh capacity q0 = Inr (True, q) \<and>
    mpsc_PushBatch (Suc fuel) items n q = Inr (of_nat k, q1) \<and> k = min (unat n) (unat capacity) \<and>
    mpsc_PopBatch buf m q1 = Inr (of_nat j, take j items @ drop j buf, q2) \<and> j = min (unat m) k \<and>
    mpsc_list q2 = drop j (take k items) \<and>
    mpsc_Reserve fresh larger q2 = Inr (ok, q3) \<and> ok = (j = k) \<and> mpsc_list q3 = mpsc_list q2"
proof -
  from mpsc_init_ok [OF assms(1,2), of fresh q0] obtain q where
    q: "mpsc_Init fresh capacity q0 = Inr (True, q)" "mpsc_inv (unat n) q" "mpsc_list q = []"
      "mpsc_room q = unat capacity" by blast
  from mpsc_push_batch_ok [of "unat n" 0 0 q items fuel 0] q assms(4) obtain q1 k where
    k: "mpsc_PushBatch (Suc fuel) items n q = Inr (of_nat k, q1)" "k = min (unat n) (unat capacity)"
      "mpsc_inv 0 q1" "mpsc_list q1 = take k items" "mpsc_room q1 = unat capacity"
    by (auto simp: mpsc_PushBatch_def)
  have len: "length (mpsc_list q1) = k" using k(2,4) assms(4) by simp
  from mpsc_pop_batch_ok [OF k(3) assms(5), of 0 0] obtain q2 j where
    j: "mpsc_PopBatch buf m q1 = Inr (of_nat j, take j (mpsc_list q1) @ drop j buf, q2)"
      "j = min (unat m) k" "mpsc_inv 0 q2" "mpsc_list q2 = drop j (take k items)"
      "mpsc_room q2 = unat capacity"
    using len k(4,5) by (auto simp: mpsc_PopBatch_def)
  have "take j (mpsc_list q1) = take j items" using j(2) k(4) by (simp add: min_def)
  with j(1) have pop: "mpsc_PopBatch buf m q1 = Inr (of_nat j, take j items @ drop j buf, q2)"
    by (simp only:)
  from mpsc_Reserve_ok [OF j(3), of larger 0 fresh] assms(3) obtain ok q3 where
    res: "mpsc_Reserve fresh larger q2 = Inr (ok, q3)" "mpsc_list q3 = mpsc_list q2"
    "ok = (unat larger \<le> unat capacity \<or> mpsc_list q2 = [])" using j(5) by auto
  have "mpsc_list q2 = [] \<longleftrightarrow> j = k" using j(2,4) k(2) assms(4) by auto
  moreover have "\<not> unat larger \<le> unat capacity" using assms(6) by (simp add: word_less_nat_alt)
  ultimately have "ok = (j = k)" using res(3) by simp
  with q(1) k(1,2) pop j(2,4) res(1,2) show ?thesis by blast
qed

lemma mpsc_batch_roundtrip_witness:
  "\<exists>q q1 q2 k j ok q3. mpsc_Init (0 :: nat) 2 mpsc_new = Inr (True, q) \<and>
    mpsc_PushBatch (Suc 0) [7, 8, 9] 3 q = Inr (of_nat k, q1) \<and>
    k = min (unat (3 :: size_t)) (unat (2 :: size_t)) \<and>
    mpsc_PopBatch [0, 0] 1 q1 = Inr (of_nat j, take j [7, 8, 9] @ drop j [0, 0], q2) \<and>
    j = min (unat (1 :: size_t)) k \<and> mpsc_list q2 = drop j (take k [7, 8, 9]) \<and>
    mpsc_Reserve 0 4 q2 = Inr (ok, q3) \<and> ok = (j = k) \<and> mpsc_list q3 = mpsc_list q2"
  by (rule mpsc_batch_roundtrip) simp_all

text \<open>
  \<open>Init\<close> refuses a capacity below 2, but \<open>Reserve(1)\<close> on a queue that was never initialised
  builds a ring of one slot. There the second \<open>Push\<close> succeeds on top of the first, after which \<open>Pop\<close>
  finds nothing, while \<open>SizeApprox\<close> counts two items: both are lost.
\<close>

theorem mpsc_reserve_one_loses_items:
  "mpsc_Init fresh 1 mpsc_new = Inr (False, mpsc_new) \<and>
   (\<exists>q q1 q2. mpsc_Reserve fresh 1 mpsc_new = Inr (True, q) \<and>
      mpsc_Push (Suc fuel) x q = Inr (True, q1) \<and> mpsc_Push (Suc fuel) y q1 = Inr (True, q2) \<and>
      mpsc_Pop q2 = Inr (None, q2) \<and> mpsc_Empty q2 = Inr True \<and> mpsc_SizeApprox q2 = 2)"
proof -
  let ?ring = "\<lambda>sequence data enq deq. \<lparr>mp_pool = Some [\<lparr>node_sequence = sequence, node_data = data\<rparr>],
    mp_capacity = 1, mp_enq = enq, mp_deq = deq\<rparr>"
  have node: "mpsc_node pos (?ring a d e f) = Inr \<lparr>node_sequence = a, node_data = d\<rparr>" for pos a d e f
    by (simp add: mpsc_node_def aget_def)
  have store: "mpsc_store pos g (?ring a d e f) = Inr (\<lparr>mp_pool = Some [g \<lparr>node_sequence = a, node_data = d\<rparr>],
    mp_capacity = 1, mp_enq = e, mp_deq = f\<rparr>)" for pos g a d e f
    by (simp add: mpsc_store_def aget_def aset_def)
  have diff: "difference 0 0 = Inr 0" "difference 1 1 = Inr 0" "difference 2 1 = Inr 1"
    by (simp_all add: difference_def s64_def)
  have "mpsc_Init fresh 1 mpsc_new = Inr (False, mpsc_new)"
    by (simp add: mpsc_Init_def mpsc_Destroy_def mpsc_new_def)
  moreover have "mpsc_Reserve fresh 1 mpsc_new = Inr (True, ?ring 0 fresh 0 0)"
    by (simp add: mpsc_Reserve_def mpsc_new_def numbered_pool_ok)
  moreover have "mpsc_Push (Suc fuel) x (?ring 0 fresh 0 0) = Inr (True, ?ring 1 x 1 0)"
    by (simp add: mpsc_Push_def node store diff)
  moreover have "mpsc_Push (Suc fuel) y (?ring 1 x 1 0) = Inr (True, ?ring 2 y 2 0)"
    by (simp add: mpsc_Push_def node store diff)
  moreover have "mpsc_Pop (?ring 2 y 2 0) = Inr (None, ?ring 2 y 2 0)"
    by (simp add: mpsc_Pop_def Let_def node diff)
  moreover have "mpsc_Empty (?ring 2 y 2 0) = Inr True" by (simp add: mpsc_Empty_def Let_def node)
  moreover have "mpsc_SizeApprox (?ring 2 y 2 0) = 2" by (simp add: mpsc_SizeApprox_def)
  ultimately show ?thesis by blast
qed

end
