(* ===== verification/Mpsc_Concurrent.thy ===== *)
theory Mpsc_Concurrent
  imports Mpsc_Queue
begin

text \<open>
  \<open>MPSCQueue::Push\<close> from any number of threads against \<open>MPSCQueue::Pop\<close> from one, interleaved at
  their atomic accesses (sequentially consistent). A thread between two accesses stands at a
  program point that carries its local variables; the compare-and-exchange may fail spuriously, as
  the weak form is allowed to. The history \<open>ms_claimed\<close> records the items in the order their
  positions were claimed, \<open>ms_out\<close> those the consumer took.
\<close>

section \<open>Threads\<close>

datatype 'a mpsc_producer =
    M_Idle
  | M_Loop 'a size_t
  | M_Cas 'a size_t
  | M_Reload 'a
  | M_Write 'a size_t
  | M_Publish size_t

datatype 'a mpsc_consumer =
    K_Idle
  | K_Loaded size_t
  | K_Read size_t
  | K_Advance 'a size_t
  | K_Release size_t

record 'a mpsc_sys =
  ms_q :: "'a MPSCQueue"
  ms_prod :: "nat \<Rightarrow> 'a mpsc_producer"
  ms_cons :: "'a mpsc_consumer"
  ms_claimed :: "'a list"
  ms_out :: "'a list"

definition mpsc_start :: "'a MPSCQueue \<Rightarrow> 'a mpsc_sys" where
  "mpsc_start q = \<lparr>ms_q = q, ms_prod = (\<lambda>_. M_Idle), ms_cons = K_Idle, ms_claimed = [], ms_out = []\<rparr>"

definition goto_p :: "nat \<Rightarrow> 'a mpsc_producer \<Rightarrow> 'a mpsc_sys \<Rightarrow> 'a mpsc_sys" where
  "goto_p t pc s = s\<lparr>ms_prod := (ms_prod s)(t := pc)\<rparr>"

text \<open>
  One step of producer \<open>t\<close>: \<open>item\<close> is the argument of the call that begins when it is idle,
  \<open>spurious\<close> whether a compare-and-exchange fails without cause.
\<close>

definition mpsc_producer_step :: "nat \<Rightarrow> 'a \<Rightarrow> bool \<Rightarrow> 'a mpsc_sys \<Rightarrow> 'a mpsc_sys comp" where
  "mpsc_producer_step t item spurious s =
     (let q = ms_q s in
      case ms_prod s t of
        M_Idle \<Rightarrow>
          if mp_pool q = None then Inr s else Inr (goto_p t (M_Loop item (mp_enq q)) s)
      | M_Loop x pos \<Rightarrow>
          rbind (mpsc_node pos q) (\<lambda>node. rbind (difference (node_sequence node) pos) (\<lambda>diff.
            if diff = 0 then Inr (goto_p t (M_Cas x pos) s)
            else if diff < 0 then Inr (goto_p t M_Idle s)
            else Inr (goto_p t (M_Reload x) s)))
      | M_Cas x pos \<Rightarrow>
          if mp_enq q = pos \<and> \<not> spurious
          then Inr (goto_p t (M_Write x pos)
                 (s\<lparr>ms_q := q\<lparr>mp_enq := pos + 1\<rparr>, ms_claimed := ms_claimed s @ [x]\<rparr>))
          else Inr (goto_p t (M_Loop x (mp_enq q)) s)
      | M_Reload x \<Rightarrow> Inr (goto_p t (M_Loop x (mp_enq q)) s)
      | M_Write x pos \<Rightarrow>
          rbind (mpsc_store pos (\<lambda>n. n\<lparr>node_data := x\<rparr>) q) (\<lambda>q'.
            Inr (goto_p t (M_Publish pos) (s\<lparr>ms_q := q'\<rparr>)))
      | M_Publish pos \<Rightarrow>
          rbind (mpsc_store pos (\<lambda>n. n\<lparr>node_sequence := pos + 1\<rparr>) q) (\<lambda>q'.
            Inr (goto_p t M_Idle (s\<lparr>ms_q := q'\<rparr>))))"

definition mpsc_consumer_step :: "'a mpsc_sys \<Rightarrow> 'a mpsc_sys comp" where
  "mpsc_consumer_step s =
     (let q = ms_q s in
      case ms_cons s of
        K_Idle \<Rightarrow> if mp_pool q = None then Inr s else Inr (s\<lparr>ms_cons := K_Loaded (mp_deq q)\<rparr>)
      | K_Loaded pos \<Rightarrow>
          rbind (mpsc_node pos q) (\<lambda>node. rbind (difference (node_sequence node) (pos + 1)) (\<lambda>diff.
            if diff \<noteq> 0 then Inr (s\<lparr>ms_cons := K_Idle\<rparr>) else Inr (s\<lparr>ms_cons := K_Read pos\<rparr>)))
      | K_Read pos \<Rightarrow>
          rbind (mpsc_node pos q) (\<lambda>node. Inr (s\<lparr>ms_cons := K_Advance (node_data node) pos\<rparr>))
      | K_Advance item pos \<Rightarrow>
          Inr (s\<lparr>ms_q := q\<lparr>mp_deq := pos + 1\<rparr>, ms_cons := K_Release pos, ms_out := ms_out s @ [item]\<rparr>)
      | K_Release pos \<Rightarrow>
          rbind (mpsc_store pos (\<lambda>n. n\<lparr>node_sequence := pos + mp_capacity q\<rparr>) q) (\<lambda>q'.
            Inr (s\<lparr>ms_q := q', ms_cons := K_Idle\<rparr>)))"

inductive mpsc_step :: "'a mpsc_sys \<Rightarrow> 'a mpsc_sys \<Rightarrow> bool" where
  producer: "mpsc_producer_step t item spurious s = Inr s' \<Longrightarrow> mpsc_step s s'"
| consumer: "mpsc_consumer_step s = Inr s' \<Longrightarrow> mpsc_step s s'"

inductive mpsc_reach :: "'a MPSCQueue \<Rightarrow> 'a mpsc_sys \<Rightarrow> bool" for q where
  start: "mpsc_reach q (mpsc_start q)"
| step: "mpsc_reach q s \<Longrightarrow> mpsc_step s s' \<Longrightarrow> mpsc_reach q s'"

section \<open>The invariant\<close>

text \<open>
  \<open>owns\<close>: a producer has claimed the position and not published it. \<open>ms_low\<close> is the lowest
  position whose slot has not been handed back: one below \<open>dequeue_pos_\<close> while the consumer is
  between its two stores. Within the window of \<open>capacity\<close> positions from there, a slot carries its
  position, or the position plus one once it is published.
\<close>

definition owns_pc :: "'a mpsc_producer \<Rightarrow> nat \<Rightarrow> bool" where
  "owns_pc pc p = (case pc of M_Write x pos \<Rightarrow> unat pos = p | M_Publish pos \<Rightarrow> unat pos = p | _ \<Rightarrow> False)"

definition owns :: "'a mpsc_sys \<Rightarrow> nat \<Rightarrow> nat \<Rightarrow> bool" where
  "owns s t p = owns_pc (ms_prod s t) p"

definition ms_low :: "'a mpsc_sys \<Rightarrow> nat" where
  "ms_low s = (case ms_cons s of K_Release pos \<Rightarrow> unat pos | _ \<Rightarrow> unat (mp_deq (ms_q s)))"

definition published :: "'a mpsc_sys \<Rightarrow> nat \<Rightarrow> bool" where
  "published s p \<longleftrightarrow> p < length (ms_claimed s) \<and> (\<forall>t. \<not> owns s t p)"

definition slots_inv :: "'a mpsc_sys \<Rightarrow> bool" where
  "slots_inv s \<longleftrightarrow> (\<forall>p. ms_low s \<le> p \<and> p < ms_low s + unat (mp_capacity (ms_q s)) \<longrightarrow>
     mpsc_seq (ms_q s) p = (if published s p then Suc p else p) \<and>
     (published s p \<longrightarrow> mpsc_data (ms_q s) p = ms_claimed s ! p))"

definition position_inv :: "'a mpsc_sys \<Rightarrow> bool" where
  "position_inv s \<longleftrightarrow> mpsc_pool_ok (ms_q s) \<and> unat (mp_enq (ms_q s)) = length (ms_claimed s) \<and>
     ms_low s \<le> unat (mp_deq (ms_q s)) \<and> unat (mp_deq (ms_q s)) \<le> length (ms_claimed s) \<and>
     length (ms_claimed s) \<le> ms_low s + unat (mp_capacity (ms_q s)) \<and>
     length (ms_claimed s) + unat (mp_capacity (ms_q s)) < 2 ^ 63 \<and>
     ms_out s = take (unat (mp_deq (ms_q s))) (ms_claimed s)"

definition pc_inv :: "'a mpsc_sys \<Rightarrow> 'a mpsc_producer \<Rightarrow> bool" where
  "pc_inv s pc =
     (case pc of
        M_Loop x pos \<Rightarrow> unat pos \<le> length (ms_claimed s)
      | M_Cas x pos \<Rightarrow> unat pos < ms_low s + unat (mp_capacity (ms_q s))
      | M_Write x pos \<Rightarrow> unat (mp_deq (ms_q s)) \<le> unat pos \<and> unat pos < length (ms_claimed s) \<and>
          ms_claimed s ! unat pos = x
      | M_Publish pos \<Rightarrow> unat (mp_deq (ms_q s)) \<le> unat pos \<and> unat pos < length (ms_claimed s) \<and>
          mpsc_data (ms_q s) (unat pos) = ms_claimed s ! unat pos
      | _ \<Rightarrow> True)"

definition producers_inv :: "'a mpsc_sys \<Rightarrow> bool" where
  "producers_inv s \<longleftrightarrow> (\<forall>t. pc_inv s (ms_prod s t)) \<and>
     (\<forall>t t' p. owns s t p \<and> owns s t' p \<longrightarrow> t = t')"

definition cons_inv :: "'a mpsc_sys \<Rightarrow> bool" where
  "cons_inv s =
     (case ms_cons s of
        K_Idle \<Rightarrow> True
      | K_Loaded pos \<Rightarrow> pos = mp_deq (ms_q s)
      | K_Read pos \<Rightarrow> pos = mp_deq (ms_q s) \<and> published s (unat pos)
      | K_Advance x pos \<Rightarrow> pos = mp_deq (ms_q s) \<and> published s (unat pos) \<and> x = ms_claimed s ! unat pos
      | K_Release pos \<Rightarrow> unat (mp_deq (ms_q s)) = Suc (unat pos) \<and> published s (unat pos))"

definition mpsc_sys_inv :: "'a mpsc_sys \<Rightarrow> bool" where
  "mpsc_sys_inv s \<longleftrightarrow> position_inv s \<and> slots_inv s \<and> producers_inv s \<and> cons_inv s"


lemma owns_pc_simps [simp]:
  "owns_pc M_Idle p = False" "owns_pc (M_Loop x pos) p = False" "owns_pc (M_Cas x pos) p = False"
  "owns_pc (M_Reload x) p = False" "owns_pc (M_Write x pos) p = (unat pos = p)"
  "owns_pc (M_Publish pos) p = (unat pos = p)"
  by (simp_all add: owns_pc_def)

lemma pc_inv_simps [simp]:
  "pc_inv s M_Idle" "pc_inv s (M_Reload x)"
  "pc_inv s (M_Loop x pos) = (unat pos \<le> length (ms_claimed s))"
  "pc_inv s (M_Cas x pos) = (unat pos < ms_low s + unat (mp_capacity (ms_q s)))"
  "pc_inv s (M_Write x pos) = (unat (mp_deq (ms_q s)) \<le> unat pos \<and> unat pos < length (ms_claimed s) \<and>
     ms_claimed s ! unat pos = x)"
  "pc_inv s (M_Publish pos) = (unat (mp_deq (ms_q s)) \<le> unat pos \<and> unat pos < length (ms_claimed s) \<and>
     mpsc_data (ms_q s) (unat pos) = ms_claimed s ! unat pos)"
  by (simp_all add: pc_inv_def)

lemma goto_p_fields [simp]:
  "ms_q (goto_p t pc s) = ms_q s" "ms_cons (goto_p t pc s) = ms_cons s"
  "ms_claimed (goto_p t pc s) = ms_claimed s" "ms_out (goto_p t pc s) = ms_out s"
  "ms_prod (goto_p t pc s) = (ms_prod s)(t := pc)" "ms_low (goto_p t pc s) = ms_low s"
  "pc_inv (goto_p t pc s) = pc_inv s"
proof -
  show low: "ms_low (goto_p t pc s) = ms_low s"
    by (simp add: goto_p_def ms_low_def split: mpsc_consumer.split)
  show "pc_inv (goto_p t pc s) = pc_inv s"
    by (rule ext) (simp add: pc_inv_def low split: mpsc_producer.split, simp add: goto_p_def)
qed (simp_all add: goto_p_def)

text \<open>\<open>published\<close> and the consumer's invariant only look at what the step changes.\<close>

lemma cons_inv_cong:
  assumes "ms_cons s' = ms_cons s" and "mp_deq (ms_q s') = mp_deq (ms_q s)"
    and "\<And>p. published s p \<Longrightarrow> published s' p \<and> ms_claimed s' ! p = ms_claimed s ! p"
    and "cons_inv s"
  shows "cons_inv s'"
  using assms by (auto simp: cons_inv_def split: mpsc_consumer.splits)

lemma sys_invD:
  assumes "mpsc_sys_inv s"
  shows "mpsc_pool_ok (ms_q s)" "unat (mp_enq (ms_q s)) = length (ms_claimed s)"
    "ms_low s \<le> unat (mp_deq (ms_q s))" "unat (mp_deq (ms_q s)) \<le> length (ms_claimed s)"
    "length (ms_claimed s) \<le> ms_low s + unat (mp_capacity (ms_q s))"
    "length (ms_claimed s) + unat (mp_capacity (ms_q s)) < 2 ^ 63"
    "2 \<le> unat (mp_capacity (ms_q s))"
    "\<And>t. pc_inv s (ms_prod s t)" "\<And>t t' p. owns s t p \<Longrightarrow> owns s t' p \<Longrightarrow> t = t'"
    "cons_inv s" "slots_inv s" "mp_pool (ms_q s) \<noteq> None"
  using assms
  by (auto simp: mpsc_sys_inv_def position_inv_def mpsc_pool_ok_def producers_inv_def)

lemma owns_range:
  assumes "mpsc_sys_inv s" and "owns s t p"
  shows "unat (mp_deq (ms_q s)) \<le> p" "p < length (ms_claimed s)"
  using sys_invD(8) [OF assms(1), of t] assms(2)
  by (auto simp: owns_def owns_pc_def split: mpsc_producer.splits)

text \<open>A producer that owns nothing moves within the loop.\<close>

lemma goto_quiet:
  assumes inv: "mpsc_sys_inv s" and "\<And>p. \<not> owns s t p" and "\<And>p. \<not> owns_pc pc p" and "pc_inv s pc"
  shows "mpsc_sys_inv (goto_p t pc s)"
proof -
  have owns: "owns (goto_p t pc s) = owns s" using assms(2,3) by (auto simp: owns_def fun_eq_iff)
  then have pub: "published (goto_p t pc s) = published s" by (simp add: published_def fun_eq_iff)
  have "cons_inv (goto_p t pc s)"
    by (rule cons_inv_cong [OF _ _ _ sys_invD(10) [OF inv]]) (simp_all add: pub)
  with inv owns pub assms(4) show ?thesis
    by (simp add: mpsc_sys_inv_def position_inv_def slots_inv_def producers_inv_def)
qed

text \<open>The slot of a position, seen from a producer whose position may be stale.\<close>

lemma slot_of_position:
  assumes inv: "mpsc_sys_inv s" and pos: "pos \<le> length (ms_claimed s)"
  obtains p where "ms_low s \<le> p" "p < ms_low s + unat (mp_capacity (ms_q s))"
    "mpsc_seq (ms_q s) pos = (if published s p then Suc p else p)"
    "p mod unat (mp_capacity (ms_q s)) = pos mod unat (mp_capacity (ms_q s))"
proof -
  let ?c = "unat (mp_capacity (ms_q s))" and ?l = "ms_low s"
  note I = sys_invD [OF inv]
  have "0 < ?c" using I(7) by simp
  then obtain p where p: "?l \<le> p" "p < ?l + ?c" "p mod ?c = pos mod ?c"
    by (rule window_representative)
  moreover have "mpsc_seq (ms_q s) pos = mpsc_seq (ms_q s) p" by (simp add: mpsc_seq_def p(3))
  then have "mpsc_seq (ms_q s) pos = (if published s p then Suc p else p)"
    using p I(11) by (simp add: slots_inv_def)
  ultimately show thesis by (intro that)
qed

section \<open>Steps of a producer\<close>

lemma producer_loop_ok:
  assumes inv: "mpsc_sys_inv s" and pc: "ms_prod s t = M_Loop x pos"
  shows "\<exists>s'. mpsc_producer_step t item b s = Inr s' \<and> mpsc_sys_inv s' \<and>
    (ms_prod s' t = M_Idle \<longrightarrow> length (ms_claimed s) = ms_low s + unat (mp_capacity (ms_q s)))"
proof -
  note I = sys_invD [OF inv]
  let ?c = "unat (mp_capacity (ms_q s))"
  have pos: "unat pos \<le> length (ms_claimed s)" using I(8) [of t] pc by simp
  obtain p where p: "ms_low s \<le> p" "p < ms_low s + ?c"
    "mpsc_seq (ms_q s) (unat pos) = (if published s p then Suc p else p)" "p mod ?c = unat pos mod ?c"
    using slot_of_position [OF inv pos] .
  obtain node where node: "mpsc_node pos (ms_q s) = Inr node"
    "unat (node_sequence node) = mpsc_seq (ms_q s) (unat pos)"
    using mpsc_node_ok [OF I(1)] by blast
  have "unat (node_sequence node) < 2 ^ 63" "unat pos < 2 ^ 63"
    using node(2) p(2,3) pos I(3,4,6) by (auto split: if_splits)
  from difference_ok [OF this] obtain z where z: "difference (node_sequence node) pos = Inr z"
    "z = 0 \<longleftrightarrow> unat (node_sequence node) = unat pos" "z < 0 \<longleftrightarrow> unat (node_sequence node) < unat pos"
    by blast
  have quiet: "\<not> owns s t p" for p using pc by (simp add: owns_def)
  consider "z = 0" | "z < 0" | "\<not> z \<le> 0" by linarith
  then show ?thesis
  proof cases
    case 1
    have "unat pos < ms_low s + ?c"
    proof (cases "published s p")
      case True
      then have "unat pos = Suc p" using 1 z(2) node(2) p(3) by simp
      with mod_window_inj [OF p(4)] I(7) show ?thesis by simp
    next
      case False
      then show ?thesis using 1 z(2) node(2) p(2,3) by simp
    qed
    with goto_quiet [OF inv quiet, of "M_Cas x pos"] pc node(1) z(1) 1 show ?thesis
      by (simp add: mpsc_producer_step_def Let_def)
  next
    case 2
    then have "p < unat pos" using z(3) node(2) p(3) by (simp split: if_splits)
    moreover have "\<not> unat pos < ms_low s + ?c"
      using \<open>p < unat pos\<close> p mod_window_eq_iff [of "ms_low s" p ?c "unat pos"] by auto
    ultimately have "length (ms_claimed s) = ms_low s + ?c" using pos I(5) by simp
    with goto_quiet [OF inv quiet, of "M_Idle"] pc node(1) z(1) 2 show ?thesis
      by (simp add: mpsc_producer_step_def Let_def)
  next
    case 3
    with goto_quiet [OF inv quiet, of "M_Reload x"] pc node(1) z(1) show ?thesis
      by (simp add: mpsc_producer_step_def Let_def)
  qed
qed

text \<open>A successful compare-and-exchange claims the position \<open>enqueue_pos_\<close>.\<close>

definition claim :: "nat \<Rightarrow> 'a \<Rightarrow> 'a mpsc_sys \<Rightarrow> 'a mpsc_sys" where
  "claim t x s = goto_p t (M_Write x (mp_enq (ms_q s)))
     (s\<lparr>ms_q := (ms_q s)\<lparr>mp_enq := mp_enq (ms_q s) + 1\<rparr>, ms_claimed := ms_claimed s @ [x]\<rparr>)"

lemma claim_ok:
  assumes inv: "mpsc_sys_inv s" and pc: "ms_prod s t = M_Cas x (mp_enq (ms_q s))"
    and bound: "Suc (length (ms_claimed s)) + unat (mp_capacity (ms_q s)) < 2 ^ 63"
  shows "mpsc_sys_inv (claim t x s)"
proof -
  note I = sys_invD [OF inv]
  let ?n = "length (ms_claimed s)"
  have n: "?n < ms_low s + unat (mp_capacity (ms_q s))" using I(8) [of t] pc I(2) by simp
  have enq: "unat (mp_enq (ms_q s) + 1) = Suc ?n"
    using I(2) bound by (subst unat_Suc_less [of _ "2 ^ 63"]) simp_all
  have low: "ms_low (claim t x s) = ms_low s"
    by (simp add: claim_def) (simp add: ms_low_def split: mpsc_consumer.split)
  have fields: "ms_claimed (claim t x s) = ms_claimed s @ [x]" "ms_out (claim t x s) = ms_out s"
    "ms_cons (claim t x s) = ms_cons s" "mp_deq (ms_q (claim t x s)) = mp_deq (ms_q s)"
    "mp_capacity (ms_q (claim t x s)) = mp_capacity (ms_q s)"
    "mpsc_seq (ms_q (claim t x s)) = mpsc_seq (ms_q s)" "mpsc_data (ms_q (claim t x s)) = mpsc_data (ms_q s)"
    "unat (mp_enq (ms_q (claim t x s))) = Suc ?n" "mpsc_pool_ok (ms_q (claim t x s))"
    "ms_prod (claim t x s) = (ms_prod s)(t := M_Write x (mp_enq (ms_q s)))"
    using enq I(1) by (simp_all add: claim_def)
  have owns: "owns (claim t x s) t' p = (if t' = t then p = ?n else owns s t' p)" for t' p
    using I(2) by (auto simp: owns_def fields)
  have quiet: "\<not> owns s t p" for p using pc by (simp add: owns_def)
  have pub: "published (claim t x s) = published s"
    using quiet by (auto simp: published_def fun_eq_iff owns fields less_Suc_eq)
  have "cons_inv (claim t x s)"
    by (rule cons_inv_cong [OF _ _ _ I(10)]) (simp_all add: pub fields published_def nth_append)
  moreover have "position_inv (claim t x s)"
    using I n bound inv by (simp add: position_inv_def fields low mpsc_sys_inv_def)
  moreover have "slots_inv (claim t x s)"
    using I(11) by (auto simp: slots_inv_def fields low pub published_def nth_append)
  moreover have "pc_inv (claim t x s) (ms_prod (claim t x s) t')" for t'
    using I(8) [of t'] I(2,4) by (auto simp: pc_inv_def fields low nth_append split: mpsc_producer.splits)
  moreover have "t1 = t2" if "owns (claim t x s) t1 p" "owns (claim t x s) t2 p" for t1 t2 p
    using that I(9) owns_range [OF inv, of _ ?n] by (auto simp: owns split: if_splits)
  ultimately show ?thesis unfolding mpsc_sys_inv_def producers_inv_def by blast
qed

text \<open>A store into the slot of an owned position leaves the other slots of the window alone.\<close>

lemma owned_slot:
  assumes inv: "mpsc_sys_inv s" and "owns s t k"
    and "ms_low s \<le> p" and "p < ms_low s + unat (mp_capacity (ms_q s))"
  shows "p mod unat (mp_capacity (ms_q s)) = k mod unat (mp_capacity (ms_q s)) \<longleftrightarrow> p = k"
  using owns_range [OF inv assms(2)] sys_invD(3,5) [OF inv] assms(3,4)
  by (intro mod_window_eq_iff [of "ms_low s"]) simp_all

definition write_slot :: "nat \<Rightarrow> 'a \<Rightarrow> size_t \<Rightarrow> 'a mpsc_sys \<Rightarrow> 'a mpsc_sys" where
  "write_slot t x pos s = goto_p t (M_Publish pos)
     (s\<lparr>ms_q := mpsc_upd pos (\<lambda>n. n\<lparr>node_data := x\<rparr>) (ms_q s)\<rparr>)"

lemma write_slot_ok:
  assumes inv: "mpsc_sys_inv s" and pc: "ms_prod s t = M_Write x pos"
  shows "mpsc_sys_inv (write_slot t x pos s)"
proof -
  note I = sys_invD [OF inv]
  let ?s = "write_slot t x pos s"
  have x: "unat (mp_deq (ms_q s)) \<le> unat pos" "unat pos < length (ms_claimed s)" "ms_claimed s ! unat pos = x"
    using I(8) [of t] pc by simp_all
  have own: "owns s t (unat pos)" using pc by (simp add: owns_def)
  have low: "ms_low ?s = ms_low s"
    by (simp add: write_slot_def) (simp add: ms_low_def split: mpsc_consumer.split)
  have fields: "ms_claimed ?s = ms_claimed s" "ms_out ?s = ms_out s" "ms_cons ?s = ms_cons s"
    "mp_deq (ms_q ?s) = mp_deq (ms_q s)" "mp_enq (ms_q ?s) = mp_enq (ms_q s)"
    "mp_capacity (ms_q ?s) = mp_capacity (ms_q s)" "mpsc_pool_ok (ms_q ?s)"
    "mpsc_seq (ms_q ?s) = mpsc_seq (ms_q s)" "ms_prod ?s = (ms_prod s)(t := M_Publish pos)"
    using I(1) by (simp_all add: write_slot_def mpsc_slot_field fun_eq_iff)
  have owns: "owns ?s = owns s" using pc by (auto simp: owns_def fields fun_eq_iff)
  have pub: "published ?s = published s" by (simp add: published_def fun_eq_iff owns fields)
  have data: "mpsc_data (ms_q ?s) p = (if p = unat pos then x else mpsc_data (ms_q s) p)"
    if "ms_low s \<le> p" "p < ms_low s + unat (mp_capacity (ms_q s))" for p
    using owned_slot [OF inv own that] I(1)
    by (simp add: write_slot_def mpsc_slot_same mpsc_slot_other)
  have "cons_inv ?s"
    by (rule cons_inv_cong [OF _ _ _ I(10)]) (simp_all add: pub fields)
  moreover have "position_inv ?s" using inv fields(7) by (simp add: position_inv_def fields low mpsc_sys_inv_def)
  moreover have "slots_inv ?s"
    using I(11) own by (auto simp: slots_inv_def fields low pub data published_def)
  moreover have "pc_inv ?s (ms_prod ?s t')" for t'
  proof (cases "t' = t")
    case True
    with x I(3,5) show ?thesis by (simp add: fields data)
  next
    case False
    show ?thesis
    proof (cases "ms_prod s t'")
      case (M_Publish pos')
      then have "owns s t' (unat pos')" by (simp add: owns_def)
      then have "unat pos' \<noteq> unat pos" using I(9) own False by metis
      with False M_Publish I(3,5) I(8) [of t'] show ?thesis by (simp add: fields data)
    qed (use False I(8) [of t'] in \<open>simp_all add: fields low\<close>)
  qed
  ultimately show ?thesis
    using I(9) unfolding mpsc_sys_inv_def producers_inv_def owns by blast
qed

definition publish_slot :: "nat \<Rightarrow> size_t \<Rightarrow> 'a mpsc_sys \<Rightarrow> 'a mpsc_sys" where
  "publish_slot t pos s = goto_p t M_Idle
     (s\<lparr>ms_q := mpsc_upd pos (\<lambda>n. n\<lparr>node_sequence := pos + 1\<rparr>) (ms_q s)\<rparr>)"

lemma publish_slot_ok:
  assumes inv: "mpsc_sys_inv s" and pc: "ms_prod s t = M_Publish pos"
  shows "mpsc_sys_inv (publish_slot t pos s)"
proof -
  note I = sys_invD [OF inv]
  let ?s = "publish_slot t pos s"
  have x: "unat (mp_deq (ms_q s)) \<le> unat pos" "unat pos < length (ms_claimed s)"
    "mpsc_data (ms_q s) (unat pos) = ms_claimed s ! unat pos"
    using I(8) [of t] pc by simp_all
  have own: "owns s t (unat pos)" using pc by (simp add: owns_def)
  have pos1: "unat (pos + 1) = Suc (unat pos)"
    using x(2) I(6) by (intro unat_Suc_less [of _ "2 ^ 63"]) simp_all
  have low: "ms_low ?s = ms_low s"
    by (simp add: publish_slot_def) (simp add: ms_low_def split: mpsc_consumer.split)
  have fields: "ms_claimed ?s = ms_claimed s" "ms_out ?s = ms_out s" "ms_cons ?s = ms_cons s"
    "mp_deq (ms_q ?s) = mp_deq (ms_q s)" "mp_enq (ms_q ?s) = mp_enq (ms_q s)"
    "mp_capacity (ms_q ?s) = mp_capacity (ms_q s)" "mpsc_pool_ok (ms_q ?s)"
    "mpsc_data (ms_q ?s) = mpsc_data (ms_q s)" "ms_prod ?s = (ms_prod s)(t := M_Idle)"
    using I(1) by (simp_all add: publish_slot_def mpsc_slot_field fun_eq_iff)
  have owns: "owns ?s t' p = (t' \<noteq> t \<and> owns s t' p)" for t' p by (auto simp: owns_def fields)
  have pub: "published ?s p = (published s p \<or> p = unat pos)" for p
  proof -
    have "owns s t p \<longleftrightarrow> p = unat pos" using pc by (auto simp: owns_def)
    then show ?thesis using I(9) own x(2) by (simp add: published_def owns fields) metis
  qed
  have seq: "mpsc_seq (ms_q ?s) p = (if p = unat pos then Suc p else mpsc_seq (ms_q s) p)"
    if "ms_low s \<le> p" "p < ms_low s + unat (mp_capacity (ms_q s))" for p
    using owned_slot [OF inv own that] I(1) pos1
    by (simp add: publish_slot_def mpsc_slot_same mpsc_slot_other)
  have "cons_inv ?s"
    by (rule cons_inv_cong [OF _ _ _ I(10)]) (simp_all add: pub fields)
  moreover have "position_inv ?s" using inv fields(7) by (simp add: position_inv_def fields low mpsc_sys_inv_def)
  moreover have "slots_inv ?s"
    using I(11) x(3) by (auto simp: slots_inv_def fields low pub seq)
  moreover have "pc_inv ?s (ms_prod ?s t')" for t'
    using I(8) [of t'] by (auto simp: pc_inv_def fields low split: mpsc_producer.splits)
  ultimately show ?thesis
    using I(9) unfolding mpsc_sys_inv_def producers_inv_def owns by blast
qed

lemma mpsc_producer_step_ok:
  assumes inv: "mpsc_sys_inv s"
  shows "\<exists>s'. mpsc_producer_step t item b s = Inr s' \<and>
    mp_capacity (ms_q s') = mp_capacity (ms_q s) \<and> length (ms_claimed s) \<le> length (ms_claimed s') \<and>
    (length (ms_claimed s') + unat (mp_capacity (ms_q s')) < 2 ^ 63 \<longrightarrow> mpsc_sys_inv s')"
proof (cases "ms_prod s t")
  case M_Idle
  then have "\<not> owns s t p" for p by (simp add: owns_def)
  with goto_quiet [OF inv, of t "M_Loop item (mp_enq (ms_q s))"] sys_invD(2,12) [OF inv] M_Idle
  show ?thesis by (auto simp: mpsc_producer_step_def Let_def)
next
  case (M_Loop x pos)
  obtain s' where s': "mpsc_producer_step t item b s = Inr s'" "mpsc_sys_inv s'"
    using producer_loop_ok [OF inv M_Loop] by blast
  then have "mp_capacity (ms_q s') = mp_capacity (ms_q s) \<and> ms_claimed s' = ms_claimed s"
    using M_Loop by (auto simp: mpsc_producer_step_def Let_def fault_simps split: if_splits)
  with s' show ?thesis by simp
next
  case (M_Cas x pos)
  then have quiet: "\<not> owns s t p" for p by (simp add: owns_def)
  show ?thesis
  proof (cases "mp_enq (ms_q s) = pos \<and> \<not> b")
    case True
    with M_Cas claim_ok [OF inv, of t x] show ?thesis
      by (simp add: mpsc_producer_step_def Let_def claim_def)
  next
    case False
    with M_Cas goto_quiet [OF inv quiet, of "M_Loop x (mp_enq (ms_q s))"] sys_invD(2) [OF inv]
    show ?thesis by (auto simp: mpsc_producer_step_def Let_def)
  qed
next
  case (M_Reload x)
  then have "\<not> owns s t p" for p by (simp add: owns_def)
  with goto_quiet [OF inv, of t "M_Loop x (mp_enq (ms_q s))"] sys_invD(2) [OF inv] M_Reload
  show ?thesis by (simp add: mpsc_producer_step_def Let_def)
next
  case (M_Write x pos)
  with write_slot_ok [OF inv M_Write] sys_invD(1) [OF inv] show ?thesis
    by (simp add: mpsc_producer_step_def Let_def mpsc_store_ok write_slot_def)
next
  case (M_Publish pos)
  with publish_slot_ok [OF inv M_Publish] sys_invD(1) [OF inv] show ?thesis
    by (simp add: mpsc_producer_step_def Let_def mpsc_store_ok publish_slot_def)
qed

section \<open>Steps of the consumer\<close>


lemma ms_update_inv:
  "owns (s\<lparr>ms_cons := c\<rparr>) = owns s" "published (s\<lparr>ms_cons := c\<rparr>) = published s"
  by (simp_all add: owns_def published_def fun_eq_iff)

text \<open>The consumer moves between accesses without storing.\<close>

lemma consumer_moves:
  assumes inv: "mpsc_sys_inv s" and "\<And>pos. ms_cons s \<noteq> K_Release pos" and "\<And>pos. c \<noteq> K_Release pos"
    and "cons_inv (s\<lparr>ms_cons := c\<rparr>)"
  shows "mpsc_sys_inv (s\<lparr>ms_cons := c\<rparr>)"
proof -
  have low: "ms_low (s\<lparr>ms_cons := c\<rparr>) = ms_low s"
    using assms(2,3) by (simp add: ms_low_def split: mpsc_consumer.splits)
  have "pc_inv (s\<lparr>ms_cons := c\<rparr>) = pc_inv s"
    by (rule ext) (simp add: pc_inv_def low split: mpsc_producer.split)
  with inv assms(4) low show ?thesis
    by (simp add: mpsc_sys_inv_def position_inv_def slots_inv_def producers_inv_def ms_update_inv)
qed

definition advance :: "'a \<Rightarrow> size_t \<Rightarrow> 'a mpsc_sys \<Rightarrow> 'a mpsc_sys" where
  "advance x pos s = s\<lparr>ms_q := (ms_q s)\<lparr>mp_deq := pos + 1\<rparr>, ms_cons := K_Release pos, ms_out := ms_out s @ [x]\<rparr>"

lemma advance_ok:
  assumes inv: "mpsc_sys_inv s" and pc: "ms_cons s = K_Advance x pos"
  shows "mpsc_sys_inv (advance x pos s)"
proof -
  note I = sys_invD [OF inv]
  let ?s = "advance x pos s"
  have c: "mp_deq (ms_q s) = pos" "published s (unat pos)" "ms_claimed s ! unat pos = x"
    using I(10) pc by (auto simp: cons_inv_def)
  have d: "unat pos < length (ms_claimed s)" using c(2) by (simp add: published_def)
  have d1: "unat (pos + 1) = Suc (unat pos)"
    using d I(6) by (intro unat_Suc_less [of _ "2 ^ 63"]) simp_all
  have low: "ms_low ?s = ms_low s" using pc c(1) by (simp add: advance_def ms_low_def)
  have fields: "ms_claimed ?s = ms_claimed s" "ms_out ?s = ms_out s @ [x]" "ms_cons ?s = K_Release pos"
    "unat (mp_deq (ms_q ?s)) = Suc (unat pos)" "mp_enq (ms_q ?s) = mp_enq (ms_q s)"
    "mp_capacity (ms_q ?s) = mp_capacity (ms_q s)" "mpsc_pool_ok (ms_q ?s)"
    "mpsc_seq (ms_q ?s) = mpsc_seq (ms_q s)" "mpsc_data (ms_q ?s) = mpsc_data (ms_q s)"
    "ms_prod ?s = ms_prod s"
    using I(1) d1 by (simp_all add: advance_def)
  have owns: "owns ?s = owns s" and pub: "published ?s = published s"
    by (simp_all add: owns_def published_def fields fun_eq_iff)
  have "position_inv ?s"
    using inv d c(1,3) I(3)
    by (simp add: mpsc_sys_inv_def position_inv_def fields low take_Suc_conv_app_nth)
  moreover have "slots_inv ?s" using I(11) by (simp add: slots_inv_def fields low pub)
  moreover have "pc_inv ?s (ms_prod ?s t)" for t
  proof -
    have "\<not> owns s t (unat pos)" using c(2) by (simp add: published_def)
    with I(8) [of t] c(1) show ?thesis
      by (auto simp: fields low pc_inv_def owns_def split: mpsc_producer.splits)
  qed
  moreover have "cons_inv ?s" using c(2) by (simp add: cons_inv_def fields pub)
  ultimately show ?thesis
    using I(9) unfolding mpsc_sys_inv_def producers_inv_def owns by blast
qed

definition release :: "size_t \<Rightarrow> 'a mpsc_sys \<Rightarrow> 'a mpsc_sys" where
  "release pos s = s\<lparr>ms_q := mpsc_upd pos (\<lambda>n. n\<lparr>node_sequence := pos + mp_capacity (ms_q s)\<rparr>) (ms_q s),
     ms_cons := K_Idle\<rparr>"

lemma release_ok:
  assumes inv: "mpsc_sys_inv s" and pc: "ms_cons s = K_Release pos"
  shows "mpsc_sys_inv (release pos s)"
proof -
  note I = sys_invD [OF inv]
  let ?s = "release pos s" and ?c = "unat (mp_capacity (ms_q s))"
  have c: "unat (mp_deq (ms_q s)) = Suc (unat pos)" "published s (unat pos)"
    using I(10) pc by (simp_all add: cons_inv_def)
  have low: "ms_low s = unat pos" "ms_low ?s = Suc (unat pos)"
    using pc c(1) by (simp_all add: release_def ms_low_def)
  have posc: "unat (pos + mp_capacity (ms_q s)) = unat pos + ?c"
    using I(4,6) c(1) by (intro unat_plus_simple_size) simp
  have fields: "ms_claimed ?s = ms_claimed s" "ms_out ?s = ms_out s" "ms_cons ?s = K_Idle"
    "mp_deq (ms_q ?s) = mp_deq (ms_q s)" "mp_enq (ms_q ?s) = mp_enq (ms_q s)"
    "mp_capacity (ms_q ?s) = mp_capacity (ms_q s)" "mpsc_pool_ok (ms_q ?s)"
    "mpsc_data (ms_q ?s) = mpsc_data (ms_q s)" "ms_prod ?s = ms_prod s"
    using I(1) by (simp_all add: release_def mpsc_slot_field fun_eq_iff)
  have owns: "owns ?s = owns s" and pub: "published ?s = published s"
    by (simp_all add: owns_def published_def fields fun_eq_iff)
  have seq: "mpsc_seq (ms_q ?s) p = (if p = unat pos + ?c then p else mpsc_seq (ms_q s) p)"
    if "Suc (unat pos) \<le> p" "p < Suc (unat pos) + ?c" for p
  proof (cases "p = unat pos + ?c")
    case True
    with I(1) posc show ?thesis by (simp add: release_def mpsc_slot_same)
  next
    case False
    then have "p mod ?c \<noteq> unat pos mod ?c"
      using that mod_window_eq_iff [of "unat pos" p ?c "unat pos"] I(7) by auto
    with False show ?thesis by (simp add: release_def mpsc_slot_other)
  qed
  have "\<not> published s (unat pos + ?c)" using I(5) low(1) by (simp add: published_def)
  then have "slots_inv ?s"
    using I(11) low(1) by (auto simp: slots_inv_def fields low(2) pub seq)
  moreover have "position_inv ?s"
    using inv c(1) low(1) fields(7) by (simp add: mpsc_sys_inv_def position_inv_def fields low(2))
  moreover have "pc_inv ?s (ms_prod ?s t)" for t
    using I(8) [of t] low(1) by (auto simp: fields low(2) pc_inv_def split: mpsc_producer.splits)
  moreover have "cons_inv ?s" by (simp add: cons_inv_def fields)
  ultimately show ?thesis
    using I(9) unfolding mpsc_sys_inv_def producers_inv_def owns by blast
qed

lemma consumer_slot:
  assumes inv: "mpsc_sys_inv s" and "\<And>pos. ms_cons s \<noteq> K_Release pos"
  shows "mpsc_seq (ms_q s) (unat (mp_deq (ms_q s))) =
      (if published s (unat (mp_deq (ms_q s))) then Suc (unat (mp_deq (ms_q s))) else unat (mp_deq (ms_q s)))"
    and "published s (unat (mp_deq (ms_q s))) \<Longrightarrow>
      mpsc_data (ms_q s) (unat (mp_deq (ms_q s))) = ms_claimed s ! unat (mp_deq (ms_q s))"
proof -
  have "ms_low s = unat (mp_deq (ms_q s))"
    using assms(2) by (simp add: ms_low_def split: mpsc_consumer.splits)
  then show "mpsc_seq (ms_q s) (unat (mp_deq (ms_q s))) =
      (if published s (unat (mp_deq (ms_q s))) then Suc (unat (mp_deq (ms_q s))) else unat (mp_deq (ms_q s)))"
    "published s (unat (mp_deq (ms_q s))) \<Longrightarrow>
      mpsc_data (ms_q s) (unat (mp_deq (ms_q s))) = ms_claimed s ! unat (mp_deq (ms_q s))"
    using sys_invD(7,11) [OF inv] by (simp_all add: slots_inv_def)
qed

lemma mpsc_consumer_step_ok:
  assumes inv: "mpsc_sys_inv s"
  shows "\<exists>s'. mpsc_consumer_step s = Inr s' \<and> mpsc_sys_inv s' \<and>
    mp_capacity (ms_q s') = mp_capacity (ms_q s) \<and> ms_claimed s' = ms_claimed s"
proof (cases "ms_cons s")
  case K_Idle
  then have "mpsc_sys_inv (s\<lparr>ms_cons := K_Loaded (mp_deq (ms_q s))\<rparr>)"
    by (intro consumer_moves [OF inv]) (simp_all add: cons_inv_def)
  with K_Idle sys_invD(12) [OF inv] show ?thesis by (auto simp: mpsc_consumer_step_def Let_def)
next
  case (K_Loaded pos)
  note I = sys_invD [OF inv]
  have pos: "pos = mp_deq (ms_q s)" using I(10) K_Loaded by (simp add: cons_inv_def)
  obtain node where node: "mpsc_node pos (ms_q s) = Inr node"
    "unat (node_sequence node) = mpsc_seq (ms_q s) (unat pos)"
    using mpsc_node_ok [OF I(1)] by blast
  have d1: "unat (pos + 1) = Suc (unat pos)"
    using I(4,6) pos by (intro unat_Suc_less [of _ "2 ^ 63"]) simp_all
  have slot: "mpsc_seq (ms_q s) (unat pos) = (if published s (unat pos) then Suc (unat pos) else unat pos)"
    using consumer_slot(1) [OF inv] K_Loaded pos by simp
  have "unat (node_sequence node) < 2 ^ 63" "unat (pos + 1) < 2 ^ 63"
    using node(2) slot d1 I(4,6,7) pos by auto
  from difference_ok [OF this] obtain z where z: "difference (node_sequence node) (pos + 1) = Inr z"
    "z = 0 \<longleftrightarrow> unat (node_sequence node) = unat (pos + 1)" by blast
  have pub: "z = 0 \<longleftrightarrow> published s (unat pos)" using z(2) node(2) slot d1 by (simp split: if_splits)
  have "mpsc_sys_inv (s\<lparr>ms_cons := K_Idle\<rparr>)"
    using K_Loaded by (intro consumer_moves [OF inv]) (simp_all add: cons_inv_def)
  moreover have "mpsc_sys_inv (s\<lparr>ms_cons := K_Read pos\<rparr>)" if "published s (unat pos)"
    using that K_Loaded pos by (intro consumer_moves [OF inv]) (simp_all add: cons_inv_def ms_update_inv)
  ultimately show ?thesis
    using K_Loaded node(1) z(1) pub by (auto simp: mpsc_consumer_step_def Let_def)
next
  case (K_Read pos)
  have pos: "pos = mp_deq (ms_q s)" "published s (unat pos)"
    using sys_invD(10) [OF inv] K_Read by (auto simp: cons_inv_def)
  obtain node where node: "mpsc_node pos (ms_q s) = Inr node"
    "node_data node = mpsc_data (ms_q s) (unat pos)"
    using mpsc_node_ok [OF sys_invD(1) [OF inv]] by blast
  have "mpsc_sys_inv (s\<lparr>ms_cons := K_Advance (node_data node) pos\<rparr>)"
    using K_Read pos node(2) consumer_slot(2) [OF inv]
    by (intro consumer_moves [OF inv]) (simp_all add: cons_inv_def ms_update_inv)
  with K_Read node(1) show ?thesis by (simp add: mpsc_consumer_step_def Let_def)
next
  case (K_Advance x pos)
  with advance_ok [OF inv K_Advance] show ?thesis
    by (simp add: mpsc_consumer_step_def Let_def advance_def)
next
  case (K_Release pos)
  with release_ok [OF inv K_Release] sys_invD(1) [OF inv] show ?thesis
    by (simp add: mpsc_consumer_step_def Let_def mpsc_store_ok release_def)
qed

section \<open>Reachable states\<close>

lemma mpsc_start_inv:
  assumes "mpsc_inv n q" and "unat (mp_enq q) = 0"
  shows "mpsc_sys_inv (mpsc_start q)"
  using mpsc_invD [OF assms(1)] assms(2)
  by (auto simp: mpsc_sys_inv_def position_inv_def slots_inv_def producers_inv_def cons_inv_def
      mpsc_start_def ms_low_def published_def owns_def)

lemma mpsc_reach_inv:
  assumes "mpsc_reach q s" and "mpsc_sys_inv (mpsc_start q)"
    and "length (ms_claimed s) + unat (mp_capacity q) < 2 ^ 63"
  shows "mpsc_sys_inv s \<and> mp_capacity (ms_q s) = mp_capacity q"
  using assms(1,3)
proof (induction rule: mpsc_reach.induct)
  case start
  then show ?case using assms(2) by (simp add: mpsc_start_def)
next
  case (step s s')
  have mono: "length (ms_claimed s) \<le> length (ms_claimed s')"
    using step.hyps(2)
    by cases (auto simp: mpsc_producer_step_def mpsc_consumer_step_def Let_def fault_simps
        split: mpsc_producer.splits mpsc_consumer.splits if_splits)
  with step have "mpsc_sys_inv s" "mp_capacity (ms_q s) = mp_capacity q" by simp_all
  note s = this
  show ?case
    using step.hyps(2)
  proof cases
    case (producer t item spurious)
    with mpsc_producer_step_ok [OF s(1), of t item spurious] s(2) step.prems show ?thesis by auto
  next
    case consumer
    with mpsc_consumer_step_ok [OF s(1)] s(2) show ?thesis by auto
  qed
qed

section \<open>Properties\<close>

text \<open>Two threads touch the data of one slot at the same time, one of them writing.\<close>

definition mpsc_race :: "'a mpsc_sys \<Rightarrow> bool" where
  "mpsc_race s \<longleftrightarrow> (\<exists>t x pos. ms_prod s t = M_Write x pos \<and>
     ((\<exists>t' x' pos'. t' \<noteq> t \<and> ms_prod s t' = M_Write x' pos' \<and>
         unat pos' mod unat (mp_capacity (ms_q s)) = unat pos mod unat (mp_capacity (ms_q s))) \<or>
      (\<exists>pos'. ms_cons s = K_Read pos' \<and>
         unat pos' mod unat (mp_capacity (ms_q s)) = unat pos mod unat (mp_capacity (ms_q s)))))"

lemma mpsc_no_race:
  assumes inv: "mpsc_sys_inv s"
  shows "\<not> mpsc_race s"
proof
  note I = sys_invD [OF inv]
  assume "mpsc_race s"
  then obtain t x pos where w: "ms_prod s t = M_Write x pos" and other:
    "(\<exists>t' x' pos'. t' \<noteq> t \<and> ms_prod s t' = M_Write x' pos' \<and>
         unat pos' mod unat (mp_capacity (ms_q s)) = unat pos mod unat (mp_capacity (ms_q s))) \<or>
     (\<exists>pos'. ms_cons s = K_Read pos' \<and>
         unat pos' mod unat (mp_capacity (ms_q s)) = unat pos mod unat (mp_capacity (ms_q s)))"
    unfolding mpsc_race_def by blast
  have own: "owns s t (unat pos)" using w by (simp add: owns_def)
  have slot: "p = unat pos" if "ms_low s \<le> p" "p < length (ms_claimed s)"
    "p mod unat (mp_capacity (ms_q s)) = unat pos mod unat (mp_capacity (ms_q s))" for p
    using owned_slot [OF inv own that(1)] that(2,3) I(5) by simp
  from other show False
  proof
    assume "\<exists>t' x' pos'. t' \<noteq> t \<and> ms_prod s t' = M_Write x' pos' \<and>
         unat pos' mod unat (mp_capacity (ms_q s)) = unat pos mod unat (mp_capacity (ms_q s))"
    then obtain t' x' pos' where t': "t' \<noteq> t" "ms_prod s t' = M_Write x' pos'"
      "unat pos' mod unat (mp_capacity (ms_q s)) = unat pos mod unat (mp_capacity (ms_q s))"
      by blast
    have own': "owns s t' (unat pos')" using t'(2) by (simp add: owns_def)
    have "unat pos' = unat pos" using slot [OF _ _ t'(3)] owns_range [OF inv own'] I(3) by simp
    with t'(1) own' own I(9) show False by metis
  next
    assume "\<exists>pos'. ms_cons s = K_Read pos' \<and>
         unat pos' mod unat (mp_capacity (ms_q s)) = unat pos mod unat (mp_capacity (ms_q s))"
    then obtain pos' where c: "pos' = mp_deq (ms_q s)" "published s (unat pos')"
      "unat pos' mod unat (mp_capacity (ms_q s)) = unat pos mod unat (mp_capacity (ms_q s))"
      using I(10) by (auto simp: cons_inv_def)
    then have "unat pos' = unat pos" using slot I(3) by (simp add: published_def)
    with c(2) own show False by (simp add: published_def)
  qed
qed

text \<open>A schedule gives each step: a producer with its argument, or the consumer.\<close>

datatype 'a mpsc_turn = Producer nat 'a | Spurious nat 'a | Consumer

fun mpsc_play :: "'a mpsc_turn list \<Rightarrow> 'a mpsc_sys \<Rightarrow> 'a mpsc_sys comp" where
  "mpsc_play [] s = Inr s"
| "mpsc_play (Producer t x # ts) s = rbind (mpsc_producer_step t x False s) (mpsc_play ts)"
| "mpsc_play (Spurious t x # ts) s = rbind (mpsc_producer_step t x True s) (mpsc_play ts)"
| "mpsc_play (Consumer # ts) s = rbind (mpsc_consumer_step s) (mpsc_play ts)"

lemma mpsc_play_reach: "mpsc_reach q s \<Longrightarrow> mpsc_play ts s = Inr s' \<Longrightarrow> mpsc_reach q s'"
proof (induction ts s rule: mpsc_play.induct)
  case (2 t x ts s)
  then obtain u where "mpsc_producer_step t x False s = Inr u" "mpsc_play ts u = Inr s'" by (auto simp: rbind_eq_Inr)
  with 2 show ?case by (blast intro: mpsc_reach.step mpsc_step.producer)
next
  case (3 t x ts s)
  then obtain u where "mpsc_producer_step t x True s = Inr u" "mpsc_play ts u = Inr s'" by (auto simp: rbind_eq_Inr)
  with 3 show ?case by (blast intro: mpsc_reach.step mpsc_step.producer)
next
  case (4 ts s)
  then obtain u where "mpsc_consumer_step s = Inr u" "mpsc_play ts u = Inr s'" by (auto simp: rbind_eq_Inr)
  with 4 show ?case by (blast intro: mpsc_reach.step mpsc_step.consumer)
qed simp

text \<open>
  Two producers contend for the first position: the second one wins it, the first one, whose exchange then
  fails, takes the next, and fails once more without cause; the consumer takes the item of the first position
  while that of the next one is being written.
\<close>

definition contention :: "nat mpsc_turn list" where
  "contention = [Producer 1 5, Producer 2 7, Producer 1 5, Producer 2 7, Producer 2 7, Producer 1 5, Producer 1 5,
     Spurious 1 5, Producer 1 5, Producer 1 5, Producer 2 7, Producer 2 7, Consumer, Consumer, Consumer, Consumer]"

definition contended :: "nat mpsc_sys comp" where
  "contended = rbind (mpsc_Init 0 2 mpsc_new) (\<lambda>(_, q). mpsc_play contention (mpsc_start q))"

lemma contended_result:
  "case contended of Inr s \<Rightarrow> ms_claimed s = [7, 5] \<and> ms_out s = [7] \<and> ms_prod s 1 = M_Write 5 1 | _ \<Rightarrow> False"
  by code_simp

text \<open>
  C1: in every state that any number of producers and one consumer reach from an initialised queue,
  before \<open>2 ^ 63\<close> positions have been claimed, no thread's next step faults, no two threads touch
  the data of one slot, and the consumer has taken a prefix of the items in the order their
  positions were claimed, nothing lost, duplicated or reordered, at most \<open>capacity\<close> items behind.
\<close>

theorem mpsc_concurrent_fifo:
  assumes "2 \<le> unat capacity" and "mpsc_Init fresh capacity q0 = Inr (True, q)" and "mpsc_reach q s"
    and "length (ms_claimed s) + unat capacity < 2 ^ 63"
  shows "(\<forall>t item b. \<exists>s'. mpsc_producer_step t item b s = Inr s') \<and>
    (\<exists>s'. mpsc_consumer_step s = Inr s') \<and> \<not> mpsc_race s \<and>
    ms_out s = take (length (ms_out s)) (ms_claimed s) \<and>
    length (ms_claimed s) \<le> length (ms_out s) + unat capacity"
proof -
  have "unat capacity + 0 < 2 ^ 63" using assms(4) by simp
  from mpsc_init_ok [OF assms(1) this, of fresh q0] assms(2)
  have q: "mpsc_inv 0 q" "mpsc_list q = []" "mpsc_room q = unat capacity" by auto
  have "unat (mp_enq q) = 0"
    using assms(2) by (auto simp: mpsc_Init_def Let_def fault_simps split: if_splits)
  then have inv: "mpsc_sys_inv s" "mp_capacity (ms_q s) = mp_capacity q"
    using mpsc_reach_inv [OF assms(3) mpsc_start_inv [OF q(1)]] assms(4) q(3)
    by (simp_all add: mpsc_room_def)
  note I = sys_invD [OF inv(1)]
  have out: "ms_out s = take (unat (mp_deq (ms_q s))) (ms_claimed s)"
    using inv(1) by (simp add: mpsc_sys_inv_def position_inv_def)
  with I(3,4,5) q(3) inv(2) have "length (ms_claimed s) \<le> length (ms_out s) + unat capacity"
    by (simp add: mpsc_room_def)
  with mpsc_producer_step_ok [OF inv(1)] mpsc_consumer_step_ok [OF inv(1)] mpsc_no_race [OF inv(1)]
    out I(4)
  show ?thesis by (metis length_take min.absorb2)
qed

lemma mpsc_concurrent_fifo_witness:
  "\<exists>q s. mpsc_Init 0 2 mpsc_new = Inr (True, q) \<and> mpsc_play contention (mpsc_start q) = Inr s \<and>
     ms_claimed s = [7, 5] \<and> ms_prod s 1 = M_Write 5 1 \<and> ms_out s = take (length (ms_out s)) [7, 5] \<and>
     \<not> mpsc_race s \<and> (\<exists>s'. mpsc_producer_step 2 (9 :: nat) False s = Inr s') \<and> (\<exists>s'. mpsc_consumer_step s = Inr s')"
proof -
  obtain q where q: "mpsc_Init (0 :: nat) 2 mpsc_new = Inr (True, q)"
    using mpsc_init_ok [of 2 0 0 mpsc_new] by auto
  obtain s where s: "mpsc_play contention (mpsc_start q) = Inr s" "ms_claimed s = [7, 5]" "ms_prod s 1 = M_Write 5 1"
    using contended_result by (auto simp: contended_def q split: sum.splits)
  from mpsc_concurrent_fifo [OF _ q mpsc_play_reach [OF mpsc_reach.start s(1)]] s(2)
  have "(\<forall>t item b. \<exists>s'. mpsc_producer_step t item b s = Inr s') \<and> (\<exists>s'. mpsc_consumer_step s = Inr s') \<and>
      \<not> mpsc_race s \<and> ms_out s = take (length (ms_out s)) [7, 5]" by simp
  with q s show ?thesis by blast
qed

text \<open>
  \<open>Push\<close> gives up only on a full queue: whenever a producer in its loop leaves it with \<open>false\<close>, as
  many positions are claimed and not handed back by the consumer as the ring has slots.
\<close>

theorem mpsc_push_fails_only_when_full:
  assumes "2 \<le> unat capacity" and "mpsc_Init fresh capacity q0 = Inr (True, q)" and "mpsc_reach q s"
    and "length (ms_claimed s) + unat capacity < 2 ^ 63"
    and "ms_prod s t = M_Loop x pos" and "mpsc_producer_step t item b s = Inr s'"
    and "ms_prod s' t = M_Idle"
  shows "length (ms_claimed s) = ms_low s + unat capacity \<and> ms_low s \<le> length (ms_out s)"
proof -
  have "unat capacity + 0 < 2 ^ 63" using assms(4) by simp
  from mpsc_init_ok [OF assms(1) this, of fresh q0] assms(2)
  have q: "mpsc_inv 0 q" "mpsc_room q = unat capacity" by auto
  have "unat (mp_enq q) = 0"
    using assms(2) by (auto simp: mpsc_Init_def Let_def fault_simps split: if_splits)
  then have inv: "mpsc_sys_inv s" "mp_capacity (ms_q s) = mp_capacity q"
    using mpsc_reach_inv [OF assms(3) mpsc_start_inv [OF q(1)]] assms(4) q(2)
    by (simp_all add: mpsc_room_def)
  have out: "ms_out s = take (unat (mp_deq (ms_q s))) (ms_claimed s)"
    using inv(1) by (simp add: mpsc_sys_inv_def position_inv_def)
  from producer_loop_ok [OF inv(1) assms(5), of item b] assms(6,7) inv(2) q(2) out
    sys_invD(3,4) [OF inv(1)]
  show ?thesis by (auto simp: mpsc_room_def)
qed

text \<open>Two pushes fill a ring of two slots; the third call of thread 0 finds it full.\<close>

lemma mpsc_run_reach:
  assumes "mpsc_reach q s"
    and "for_each (\<lambda>(t, x). mpsc_producer_step t x False) calls s = Inr s'"
  shows "mpsc_reach q s'"
  using assms
proof (induction calls arbitrary: s)
  case (Cons c calls)
  obtain t x where c: "c = (t, x)" by (cases c)
  with Cons.prems(2) obtain s1 where s1: "mpsc_producer_step t x False s = Inr s1"
    "for_each (\<lambda>(t, x). mpsc_producer_step t x False) calls s1 = Inr s'"
    by (auto simp: fault_simps)
  have "mpsc_reach q s1" by (rule mpsc_reach.step [OF Cons.prems(1) mpsc_step.producer [OF s1(1)]])
  then show ?case using s1(2) by (rule Cons.IH)
qed simp

lemma mpsc_push_fails_only_when_full_witness:
  "\<exists>q s s'. mpsc_Init (0 :: nat) 2 mpsc_new = Inr (True, q) \<and> mpsc_reach q s \<and>
     mpsc_producer_step 0 0 False s = Inr s' \<and> ms_prod s' 0 = M_Idle \<and>
     length (ms_claimed s) = ms_low s + unat (2 :: size_t) \<and> ms_low s \<le> length (ms_out s)"
proof -
  let ?node = "\<lambda>a d. \<lparr>node_sequence = a, node_data = d\<rparr>"
  let ?q = "\<lparr>mp_pool = Some [?node 0 0, ?node 1 0], mp_capacity = 2, mp_enq = 0, mp_deq = 0\<rparr>"
  let ?calls = "[(0 :: nat, 7 :: nat), (0, 7), (0, 7), (0, 7), (0, 7), (0, 8), (0, 8), (0, 8), (0, 8), (0, 8), (0, 9)]"
  have init: "mpsc_Init (0 :: nat) 2 mpsc_new = Inr (True, ?q)"
    by (simp add: mpsc_Init_def mpsc_Destroy_def mpsc_new_def numbered_pool_ok upt_rec)
  have run: "\<exists>s. for_each (\<lambda>(t, x). mpsc_producer_step t x False) ?calls (mpsc_start ?q) = Inr s \<and>
    ms_prod s 0 = M_Loop 9 2 \<and> length (ms_claimed s) = 2 \<and>
    (\<exists>s'. mpsc_producer_step 0 0 False s = Inr s' \<and> ms_prod s' 0 = M_Idle)"
    by (simp add: mpsc_start_def mpsc_producer_step_def goto_p_def mpsc_node_def mpsc_store_def umod_def
        deref_def aget_def aset_def difference_def s64_def Let_def)
  then obtain s s' where s: "for_each (\<lambda>(t, x). mpsc_producer_step t x False) ?calls (mpsc_start ?q) = Inr s"
    "ms_prod s 0 = M_Loop 9 2" "length (ms_claimed s) = 2"
    "mpsc_producer_step 0 0 False s = Inr s'" "ms_prod s' 0 = M_Idle" by blast
  have "mpsc_reach ?q s" by (rule mpsc_run_reach [OF mpsc_reach.start s(1)])
  moreover from mpsc_push_fails_only_when_full [OF _ init this _ s(2,4,5)] s(3)
  have "length (ms_claimed s) = ms_low s + unat (2 :: size_t) \<and> ms_low s \<le> length (ms_out s)" by simp
  ultimately show ?thesis using init s(4,5) by blast
qed

end
