(* ===== verification/Sched_Task.thy ===== *)
theory Sched_Task
  imports Prelude
begin

text \<open>
  \<open>scheduler/task.hpp\<close> and \<open>task.cpp\<close>: task objects, their identifiers and what running one does to
  its status. The closure of a \<open>FunctionalTask\<close> is code of the caller: it appears as the outcome of
  the call, a status or a thrown exception.
\<close>

section \<open>Task objects\<close>

type_synonym task_id = "64 word"

datatype Priority = kLow | kNormal | kHigh

datatype TaskStatus = kPending | kReady | kRunning | kCompleted | kFailed | kCancelled

record Task =
  tk_id :: task_id
  tk_name :: string
  tk_priority :: Priority
  tk_status :: TaskStatus
  tk_dependencies :: "task_id list"
  tk_has_callback :: bool
  tk_has_error_handler :: bool

text \<open>The constructors draw the identifier from the shared counter \<open>next_task_id_\<close>.\<close>

definition Task_new :: "string \<Rightarrow> task_id \<Rightarrow> Task \<times> task_id" where
  "Task_new name counter =
     (\<lparr>tk_id = counter, tk_name = name, tk_priority = kNormal, tk_status = kPending,
       tk_dependencies = [], tk_has_callback = False, tk_has_error_handler = False\<rparr>, counter + 1)"

definition task_next_id :: "task_id \<Rightarrow> task_id \<times> task_id" where
  "task_next_id counter = (counter, counter + 1)"

definition add_dependency :: "task_id \<Rightarrow> Task \<Rightarrow> Task" where
  "add_dependency dep t = t\<lparr>tk_dependencies := tk_dependencies t @ [dep]\<rparr>"

definition add_dependencies :: "task_id list \<Rightarrow> Task \<Rightarrow> Task" where
  "add_dependencies deps t = t\<lparr>tk_dependencies := tk_dependencies t @ deps\<rparr>"

definition num_dependencies :: "Task \<Rightarrow> size_t" where
  "num_dependencies t = of_nat (length (tk_dependencies t))"

definition task_set_name :: "string \<Rightarrow> Task \<Rightarrow> Task" where
  "task_set_name n t = t\<lparr>tk_name := n\<rparr>"

text \<open>What is stored is a \<open>std::function\<close>, which may be empty.\<close>

definition set_callback :: "bool \<Rightarrow> Task \<Rightarrow> Task" where
  "set_callback cb t = t\<lparr>tk_has_callback := cb\<rparr>"

definition set_error_handler :: "bool \<Rightarrow> Task \<Rightarrow> Task" where
  "set_error_handler handler t = t\<lparr>tk_has_error_handler := handler\<rparr>"

definition set_priority :: "Priority \<Rightarrow> Task \<Rightarrow> Task" where
  "set_priority p t = t\<lparr>tk_priority := p\<rparr>"

definition set_status :: "TaskStatus \<Rightarrow> Task \<Rightarrow> Task" where
  "set_status s t = t\<lparr>tk_status := s\<rparr>"

definition is_completed :: "Task \<Rightarrow> bool" where
  "is_completed t = (tk_status t = kCompleted)"

definition is_failed :: "Task \<Rightarrow> bool" where
  "is_failed t = (tk_status t = kFailed)"

text \<open>The second result is the status the callback is called with, if there is one.\<close>

definition notify_complete :: "Task \<Rightarrow> Task \<times> TaskStatus option" where
  "notify_complete t =
     (set_status kCompleted t, if tk_has_callback t then Some kCompleted else None)"

text \<open>What the closure did: it returned a status, or threw a \<open>std::exception\<close>.\<close>

datatype closure_outcome = Closure_Returned TaskStatus | Closure_Threw

definition FunctionalTask_execute :: "closure_outcome \<Rightarrow> Task \<Rightarrow> TaskStatus \<times> Task" where
  "FunctionalTask_execute r t =
     (case r of
        Closure_Returned result \<Rightarrow>
          (let t' = (if result = kCompleted then set_status kCompleted t else set_status kFailed t)
           in (tk_status t', t'))
      | Closure_Threw \<Rightarrow> (kFailed, set_status kFailed t))"

lemma FunctionalTask_execute_status:
  "FunctionalTask_execute r t = (s, t') \<Longrightarrow>
     s = (if r = Closure_Returned kCompleted then kCompleted else kFailed) \<and> t' = set_status s t"
  by (auto simp: FunctionalTask_execute_def Let_def set_status_def split: closure_outcome.splits if_splits)

lemma set_status_simps [simp]:
  "tk_status (set_status s t) = s" "tk_id (set_status s t) = tk_id t"
  by (simp_all add: set_status_def)

text \<open>Tasks created one after the other have distinct identifiers until the counter wraps.\<close>

fun create_tasks :: "string list \<Rightarrow> task_id \<Rightarrow> Task list \<times> task_id" where
  "create_tasks [] counter = ([], counter)"
| "create_tasks (n # ns) counter =
     (let (t, c) = Task_new n counter; (ts, c') = create_tasks ns c in (t # ts, c'))"

lemma create_tasks_ids:
  "create_tasks ns c = (ts, c') \<Longrightarrow>
     map tk_id ts = map (\<lambda>i. c + of_nat i) [0..<length ns] \<and> c' = c + of_nat (length ns)"
proof (induction ns arbitrary: c ts c')
  case (Cons n ns)
  have "map (\<lambda>i. c + of_nat i) [0..<Suc (length ns)] =
      c # map (\<lambda>i. c + 1 + of_nat i) [0..<length ns]"
    by (simp add: upt_conv_Cons map_Suc_upt [symmetric] algebra_simps del: upt_Suc)
  moreover obtain ts' where rest: "create_tasks ns (c + 1) = (ts', c')" "map tk_id ts = c # map tk_id ts'"
    using Cons.prems by (auto simp: Task_new_def Let_def split: prod.splits)
  ultimately show ?case
    using Cons.IH [OF rest(1)] by (simp add: algebra_simps del: upt_Suc)
qed simp

lemma create_tasks_distinct:
  assumes "create_tasks ns c = (ts, c')" and "length ns \<le> 2 ^ 64"
  shows "distinct (map tk_id ts)"
proof -
  have "inj_on (\<lambda>i. c + (of_nat i :: 64 word)) {0..<length ns}"
    using assms(2) by (auto simp: inj_on_def word_of_nat_eq_iff take_bit_nat_eq_self)
  with create_tasks_ids [OF assms(1)] show ?thesis by (simp add: distinct_map)
qed

section \<open>Futures\<close>

text \<open>
  \<open>TaskFuture\<close> around a \<open>std::future\<close>: without a shared state, with one that has no value yet, or with a value.
  \<open>get\<close> and \<open>wait\<close> without a shared state are undefined; where they block there is no result yet.
\<close>

datatype 'a TaskFuture = No_State | Not_Ready | Has_Value 'a

definition future_valid :: "'a TaskFuture \<Rightarrow> bool" where "future_valid f = (f \<noteq> No_State)"

definition future_get :: "'a TaskFuture \<Rightarrow> ('a \<times> 'a TaskFuture) option comp" where
  "future_get f = (case f of No_State \<Rightarrow> Inl Null_Deref | Not_Ready \<Rightarrow> Inr None | Has_Value x \<Rightarrow> Inr (Some (x, No_State)))"

definition future_wait :: "'a TaskFuture \<Rightarrow> unit option comp" where
  "future_wait f = (case f of No_State \<Rightarrow> Inl Null_Deref | Not_Ready \<Rightarrow> Inr None | Has_Value x \<Rightarrow> Inr (Some ()))"

definition future_is_ready :: "'a TaskFuture \<Rightarrow> bool comp" where
  "future_is_ready f = (case f of No_State \<Rightarrow> Inl Null_Deref | Not_Ready \<Rightarrow> Inr False | Has_Value x \<Rightarrow> Inr True)"

text \<open>A value can be taken once: the future has no state afterwards, and asking it again is undefined.\<close>

lemma future_get_once: "future_get f = Inr (Some (x, f')) \<Longrightarrow> \<not> future_valid f' \<and> future_get f' = Inl Null_Deref \<and> future_is_ready f' = Inl Null_Deref"
  by (cases f) (auto simp: future_get_def future_valid_def future_is_ready_def)

end
