(* ===== verification/Task_Graph.thy ===== *)
theory Task_Graph
  imports Sched_Task
begin

text \<open>
  \<open>TaskGraph\<close> of \<open>scheduler/task_graph.cpp\<close>: tasks, and edges kept twice, forwards and backwards, in
  hash maps of vectors. An edge from \<open>u\<close> to \<open>v\<close> says that \<open>u\<close> runs before \<open>v\<close>. The order in which a
  hash map is traversed is the order of its association list, which is arbitrary.
\<close>

section \<open>State and operations\<close>

record TaskGraph =
  tg_tasks :: "(task_id, Task) umap"
  tg_edges :: "(task_id, task_id list) umap"
  tg_rev :: "(task_id, task_id list) umap"

definition graph_empty :: TaskGraph where
  "graph_empty = \<lparr>tg_tasks = [], tg_edges = [], tg_rev = []\<rparr>"

definition graph_add_task :: "Task \<Rightarrow> TaskGraph \<Rightarrow> task_id \<times> TaskGraph" where
  "graph_add_task t g = (tk_id t, g\<lparr>tg_tasks := AList.update (tk_id t) t (tg_tasks g)\<rparr>)"

definition get_task :: "TaskGraph \<Rightarrow> task_id \<Rightarrow> Task option" where
  "get_task g k = map_of (tg_tasks g) k"

definition has_task :: "TaskGraph \<Rightarrow> task_id \<Rightarrow> bool" where
  "has_task g k = umap_has (tg_tasks g) k"

definition graph_remove_task :: "task_id \<Rightarrow> TaskGraph \<Rightarrow> TaskGraph" where
  "graph_remove_task k g =
     (let edges = AList.delete k (tg_edges g); rev_edges = AList.delete k (tg_rev g)
      in \<lparr>tg_tasks = AList.delete k (tg_tasks g),
          tg_edges = map (\<lambda>(from, tos). (from, removeAll k tos)) edges,
          tg_rev = map (\<lambda>(to, froms). (to, removeAll k froms)) rev_edges\<rparr>)"

text \<open>\<open>operator[]\<close> creates an empty vector for a key it does not find.\<close>

definition adjacent :: "(task_id, task_id list) umap \<Rightarrow> task_id \<Rightarrow> task_id list" where
  "adjacent m k = (case map_of m k of None \<Rightarrow> [] | Some ids \<Rightarrow> ids)"

definition push_adjacent :: "task_id \<Rightarrow> task_id \<Rightarrow> (task_id, task_id list) umap \<Rightarrow>
    (task_id, task_id list) umap" where
  "push_adjacent k x m = AList.update k (adjacent m k @ [x]) m"

text \<open>The two assertions are compiled in only when \<open>SCI_DEBUG\<close> is defined.\<close>

definition graph_add_edge :: "bool \<Rightarrow> task_id \<Rightarrow> task_id \<Rightarrow> TaskGraph \<Rightarrow> TaskGraph comp" where
  "graph_add_edge debug from to g =
     (if debug \<and> \<not> has_task g from then Inl Assertion_Failed
      else if debug \<and> \<not> has_task g to then Inl Assertion_Failed
      else Inr (g\<lparr>tg_edges := push_adjacent from to (tg_edges g),
                  tg_rev := push_adjacent to from (tg_rev g)\<rparr>))"

definition graph_add_edges :: "bool \<Rightarrow> task_id \<Rightarrow> task_id list \<Rightarrow> TaskGraph \<Rightarrow> TaskGraph comp" where
  "graph_add_edges debug from tos g = for_each (graph_add_edge debug from) tos g"

definition get_dependencies :: "TaskGraph \<Rightarrow> task_id \<Rightarrow> task_id list" where
  "get_dependencies g k = adjacent (tg_rev g) k"

definition get_dependents :: "TaskGraph \<Rightarrow> task_id \<Rightarrow> task_id list" where
  "get_dependents g k = adjacent (tg_edges g) k"

definition graph_clear :: "TaskGraph \<Rightarrow> TaskGraph" where
  "graph_clear g = g\<lparr>tg_tasks := [], tg_edges := [], tg_rev := []\<rparr>"

definition num_tasks :: "TaskGraph \<Rightarrow> nat" where
  "num_tasks g = length (tg_tasks g)"

definition num_edges :: "TaskGraph \<Rightarrow> nat" where
  "num_edges g = length (tg_edges g)"

definition graph_is_empty :: "TaskGraph \<Rightarrow> bool" where
  "graph_is_empty g = (tg_tasks g = [])"

section \<open>Breadth-first search for a dependency\<close>

text \<open>The \<open>while\<close> loop of \<open>depends_on\<close>; it ends because a task is expanded at most once.\<close>

function depends_bfs :: "TaskGraph \<Rightarrow> task_id \<Rightarrow> task_id list \<Rightarrow> task_id set \<Rightarrow> bool" where
  "depends_bfs g b [] visited = False"
| "depends_bfs g b (current # queue) visited =
     (if current = b then True
      else if current \<in> visited then depends_bfs g b queue visited
      else depends_bfs g b (queue @ adjacent (tg_rev g) current) (insert current visited))"
  by pat_completeness auto

lemma card_unvisited: "(x :: 'a :: finite) \<notin> V \<Longrightarrow> card (- insert x V) < card (- V)"
  by (rule psubset_card_mono) auto

termination depends_bfs
  by (relation "measures [\<lambda>(g, b, queue, visited). card (- visited), \<lambda>(g, b, queue, visited). length queue]")
    (auto intro: card_unvisited)

definition depends_on :: "TaskGraph \<Rightarrow> task_id \<Rightarrow> task_id \<Rightarrow> bool" where
  "depends_on g a b =
     (case map_of (tg_rev g) a of None \<Rightarrow> False | Some deps \<Rightarrow> depends_bfs g b deps {})"

section \<open>Depth-first search\<close>

text \<open>
  The recursive lambda of \<open>topological_sort\<close>, and of \<open>is_dag\<close>, which is the same without \<open>result\<close>.
  \<open>dfs g ids\<close> is its loop over the successors \<open>ids\<close>, with the call on each of them unfolded.
\<close>

record dfs_state =
  ds_visited :: "task_id set"
  ds_stack :: "task_id set"
  ds_result :: "task_id list"

definition dfs_enter :: "task_id \<Rightarrow> dfs_state \<Rightarrow> dfs_state" where
  "dfs_enter k s = s\<lparr>ds_visited := insert k (ds_visited s), ds_stack := insert k (ds_stack s)\<rparr>"

definition dfs_leave :: "task_id \<Rightarrow> dfs_state \<Rightarrow> dfs_state" where
  "dfs_leave k s = s\<lparr>ds_stack := ds_stack s - {k}, ds_result := ds_result s @ [k]\<rparr>"

function dfs :: "TaskGraph \<Rightarrow> task_id list \<Rightarrow> dfs_state \<Rightarrow> bool \<times> dfs_state" where
  "dfs g [] s = (True, s)"
| "dfs g (k # ids) s =
     (if k \<in> ds_stack s then (False, s)
      else if k \<in> ds_visited s then dfs g ids s
      else let r = dfs g (adjacent (tg_edges g) k) (dfs_enter k s)
           in if fst r then dfs g ids (dfs_leave k (snd r)) else r)"
  by pat_completeness auto

lemma dfs_visits_more: "dfs_dom (g, ids, s) \<Longrightarrow> ds_visited s \<subseteq> ds_visited (snd (dfs g ids s))"
proof (induction rule: dfs.pinduct)
  case (1 g s)
  then show ?case by (simp add: dfs.psimps)
next
  case (2 g k ids s)
  show ?case
  proof (cases "k \<in> ds_stack s \<or> k \<in> ds_visited s")
    case True
    with 2 show ?thesis by (auto simp: dfs.psimps)
  next
    case False
    with 2 show ?thesis by (auto simp: dfs.psimps Let_def dfs_enter_def dfs_leave_def)
  qed
qed

termination dfs
proof (relation "measures [\<lambda>(g, ids, s). card (- ds_visited s), \<lambda>(g, ids, s). length ids]")
  fix g k ids s r
  assume "k \<notin> ds_visited s" and r: "r = dfs g (adjacent (tg_edges g) k) (dfs_enter k s)"
    and dom: "dfs_dom (g, adjacent (tg_edges g) k, dfs_enter k s)"
  have "insert k (ds_visited s) \<subseteq> ds_visited (dfs_leave k (snd r))"
    using dfs_visits_more [OF dom] by (simp add: r dfs_enter_def dfs_leave_def)
  then have "card (- ds_visited (dfs_leave k (snd r))) \<le> card (- insert k (ds_visited s))"
    by (intro card_mono) auto
  also have "\<dots> < card (- ds_visited s)" using \<open>k \<notin> ds_visited s\<close> by (rule card_unvisited)
  finally show "((g, ids, dfs_leave k (snd r)), g, k # ids, s)
    \<in> measures [\<lambda>(g, ids, s). card (- ds_visited s), \<lambda>(g, ids, s). length ids]" by simp
qed (auto simp: dfs_enter_def intro: card_unvisited)

text \<open>The loop over all tasks, which enters the lambda for those not visited yet.\<close>

fun dfs_all :: "TaskGraph \<Rightarrow> task_id list \<Rightarrow> dfs_state \<Rightarrow> bool \<times> dfs_state" where
  "dfs_all g [] s = (True, s)"
| "dfs_all g (k # ids) s =
     (if k \<in> ds_visited s then dfs_all g ids s
      else let r = dfs g [k] s in if fst r then dfs_all g ids (snd r) else r)"

definition dfs_start :: dfs_state where
  "dfs_start = \<lparr>ds_visited = {}, ds_stack = {}, ds_result = []\<rparr>"

definition topological_sort :: "TaskGraph \<Rightarrow> task_id list" where
  "topological_sort g =
     (let r = dfs_all g (map fst (tg_tasks g)) dfs_start
      in if fst r then rev (ds_result (snd r)) else [])"

definition is_dag :: "TaskGraph \<Rightarrow> bool" where
  "is_dag g = fst (dfs_all g (map fst (tg_tasks g)) dfs_start)"

definition is_valid :: "TaskGraph \<Rightarrow> bool" where
  "is_valid g = (is_dag g \<and>
     list_all (\<lambda>(from, tos). has_task g from \<and> list_all (has_task g) tos) (tg_edges g))"

section \<open>Ready tasks\<close>

definition deps_complete :: "TaskGraph \<Rightarrow> task_id list \<Rightarrow> bool" where
  "deps_complete g deps =
     list_all (\<lambda>d. case get_task g d of None \<Rightarrow> False | Some t \<Rightarrow> tk_status t = kCompleted) deps"

definition get_ready_tasks :: "TaskGraph \<Rightarrow> task_id list" where
  "get_ready_tasks g =
     map fst (filter (\<lambda>(k, t). tk_status t = kPending \<and> deps_complete g (get_dependencies g k))
       (tg_tasks g))"

section \<open>The two edge maps agree\<close>

definition edge_rel :: "TaskGraph \<Rightarrow> (task_id \<times> task_id) set" where
  "edge_rel g = {(u, v). v \<in> set (adjacent (tg_edges g) u)}"

definition graph_ok :: "TaskGraph \<Rightarrow> bool" where
  "graph_ok g \<longleftrightarrow> umap_ok (tg_tasks g) \<and> umap_ok (tg_edges g) \<and> umap_ok (tg_rev g) \<and>
     (\<forall>(k, t) \<in> set (tg_tasks g). tk_id t = k) \<and>
     (\<forall>u v. count_list (adjacent (tg_edges g) u) v = count_list (adjacent (tg_rev g) v) u)"

lemma adjacent_push:
  "adjacent (push_adjacent k x m) u = (if u = k then adjacent m u @ [x] else adjacent m u)"
  by (simp add: adjacent_def push_adjacent_def update_conv')

lemma adjacent_delete: "adjacent (AList.delete k m) u = (if u = k then [] else adjacent m u)"
  by (simp add: adjacent_def delete_conv')

lemma adjacent_map: "f [] = [] \<Longrightarrow> adjacent (map (\<lambda>(k, xs). (k, f xs)) m) u = f (adjacent m u)"
  by (simp add: adjacent_def map_of_map_snd split: option.split)

lemma count_list_removeAll: "count_list (removeAll k xs) x = (if x = k then 0 else count_list xs x)"
  by (induction xs) auto

lemma in_adjacent_iff: "v \<in> set (adjacent m u) \<longleftrightarrow> count_list (adjacent m u) v \<noteq> 0"
  by (simp add: count_list_0_iff)

lemma graph_empty_ok: "graph_ok graph_empty"
  by (simp add: graph_ok_def graph_empty_def adjacent_def)

lemma graph_clear_ok: "graph_ok (graph_clear g)"
  by (simp add: graph_ok_def graph_clear_def adjacent_def)


lemma set_AList_update: "set (AList.update k v m) \<subseteq> insert (k, v) (set m)"
  by (induction m) auto

lemma graph_add_task_ok: "graph_ok g \<Longrightarrow> graph_ok (snd (graph_add_task t g))"
  using set_AList_update [of "tk_id t" t "tg_tasks g"]
  by (auto simp: graph_ok_def graph_add_task_def distinct_update)

lemma graph_add_edge_ok:
  assumes "graph_ok g" and "graph_add_edge debug u v g = Inr g'"
  shows "graph_ok g'" and "edge_rel g' = insert (u, v) (edge_rel g)" and "tg_tasks g' = tg_tasks g"
proof -
  have g': "g' = g\<lparr>tg_edges := push_adjacent u v (tg_edges g), tg_rev := push_adjacent v u (tg_rev g)\<rparr>"
    using assms(2) by (simp add: graph_add_edge_def split: if_splits)
  show "graph_ok g'"
    using assms(1) by (simp add: graph_ok_def g' adjacent_push) (simp add: push_adjacent_def distinct_update)
  show "edge_rel g' = insert (u, v) (edge_rel g)"
    by (auto simp: edge_rel_def g' adjacent_push split: if_splits)
  show "tg_tasks g' = tg_tasks g" by (simp add: g')
qed

lemma graph_remove_task_ok:
  assumes "graph_ok g"
  shows "graph_ok (graph_remove_task k g)"
    and "edge_rel (graph_remove_task k g) = {(u, v) \<in> edge_rel g. u \<noteq> k \<and> v \<noteq> k}"
proof -
  have fst_map: "fst \<circ> (\<lambda>(a, xs). (a, f xs)) = fst" for f :: "'c \<Rightarrow> 'd"
    by auto
  have tasks: "set (AList.delete k (tg_tasks g)) \<subseteq> set (tg_tasks g)"
    by (auto simp: AList.delete_eq)
  show "graph_ok (graph_remove_task k g)"
    using assms tasks
    by (auto simp: graph_ok_def graph_remove_task_def Let_def adjacent_map adjacent_delete
        count_list_removeAll distinct_delete fst_map)
  show "edge_rel (graph_remove_task k g) = {(u, v) \<in> edge_rel g. u \<noteq> k \<and> v \<noteq> k}"
    by (auto simp: edge_rel_def graph_remove_task_def Let_def adjacent_map adjacent_delete split: if_splits)
qed

lemma graph_rev_edge: "graph_ok g \<Longrightarrow> u \<in> set (adjacent (tg_rev g) v) \<longleftrightarrow> (u, v) \<in> edge_rel g"
  by (simp add: edge_rel_def in_adjacent_iff graph_ok_def)

text \<open>Clients that build a graph call these.\<close>

datatype graph_op = Add_Task Task | Remove_Task task_id | Add_Edge task_id task_id
  | Add_Edges task_id "task_id list" | Clear

fun graph_op_step :: "bool \<Rightarrow> graph_op \<Rightarrow> TaskGraph \<Rightarrow> TaskGraph comp" where
  "graph_op_step debug (Add_Task t) g = Inr (snd (graph_add_task t g))"
| "graph_op_step debug (Remove_Task k) g = Inr (graph_remove_task k g)"
| "graph_op_step debug (Add_Edge u v) g = graph_add_edge debug u v g"
| "graph_op_step debug (Add_Edges u vs) g = graph_add_edges debug u vs g"
| "graph_op_step debug Clear g = Inr (graph_clear g)"

lemma graph_add_edges_ok:
  "graph_ok g \<Longrightarrow> graph_add_edges debug u vs g = Inr g' \<Longrightarrow>
     graph_ok g' \<and> edge_rel g' = edge_rel g \<union> {u} \<times> set vs \<and> tg_tasks g' = tg_tasks g"
proof (induction vs arbitrary: g)
  case (Cons v vs)
  then obtain g1 where g1: "graph_add_edge debug u v g = Inr g1" "graph_add_edges debug u vs g1 = Inr g'"
    by (auto simp: graph_add_edges_def fault_simps)
  with Cons.IH [of g1] Cons.prems(1) graph_add_edge_ok [OF Cons.prems(1) g1(1)] show ?case by auto
qed (simp add: graph_add_edges_def)

lemma graph_op_ok: "graph_ok g \<Longrightarrow> graph_op_step debug op g = Inr g' \<Longrightarrow> graph_ok g'"
  by (cases op) (auto simp: graph_add_task_ok graph_remove_task_ok graph_clear_ok
      dest: graph_add_edge_ok(1) graph_add_edges_ok)

lemma graph_ops_ok: "graph_ok g \<Longrightarrow> for_each (graph_op_step debug) ops g = Inr g' \<Longrightarrow> graph_ok g'"
  by (induction ops arbitrary: g) (auto simp: fault_simps dest: graph_op_ok)

section \<open>Breadth-first search finds exactly the dependencies\<close>

definition rev_rel :: "TaskGraph \<Rightarrow> (task_id \<times> task_id) set" where
  "rev_rel g = {(u, v). v \<in> set (adjacent (tg_rev g) u)}"

lemma rev_rel_converse: "graph_ok g \<Longrightarrow> rev_rel g = (edge_rel g)\<inverse>"
  by (auto simp: rev_rel_def graph_rev_edge)

text \<open>A path out of the visited set leaves it through the queue.\<close>

lemma leaves_visited:
  assumes "(x, b) \<in> R\<^sup>*" and "x \<in> V" and "b \<notin> V" and "R `` V \<subseteq> V \<union> Q"
  shows "\<exists>d \<in> Q - V. (d, b) \<in> R\<^sup>*"
  using assms
proof (induction rule: converse_rtrancl_induct)
  case (step x y)
  then show ?case by (cases "y \<in> V") auto
qed simp

lemma depends_bfs_correct:
  assumes "b \<notin> visited" and "rev_rel g `` visited \<subseteq> visited \<union> set queue"
  shows "depends_bfs g b queue visited \<longleftrightarrow> (\<exists>d \<in> set queue. (d, b) \<in> (rev_rel g)\<^sup>*)"
  using assms
proof (induction g b queue visited rule: depends_bfs.induct)
  case (2 g b current queue visited)
  consider "current = b" | "current \<noteq> b" "current \<in> visited" | "current \<noteq> b" "current \<notin> visited" by blast
  then show ?case
  proof cases
    case 2
    with "2.prems" have closed: "rev_rel g `` visited \<subseteq> visited \<union> set queue" by auto
    have "\<exists>d \<in> set queue. (d, b) \<in> (rev_rel g)\<^sup>*" if "(current, b) \<in> (rev_rel g)\<^sup>*"
      using leaves_visited [OF that 2(2) "2.prems"(1) closed] by auto
    with 2 "2.IH"(1) [OF 2 "2.prems"(1) closed] show ?thesis by auto
  next
    case 3
    have succs: "set (adjacent (tg_rev g) current) = rev_rel g `` {current}" by (auto simp: rev_rel_def)
    have "rev_rel g `` insert current visited \<subseteq>
        insert current visited \<union> set (queue @ adjacent (tg_rev g) current)"
      using "2.prems"(2) by (auto simp: succs)
    moreover have "(current, b) \<in> (rev_rel g)\<^sup>* \<longleftrightarrow>
        (\<exists>d \<in> set (adjacent (tg_rev g) current). (d, b) \<in> (rev_rel g)\<^sup>*)"
      unfolding succs using 3(1) by (auto elim: converse_rtranclE intro: converse_rtrancl_into_rtrancl)
    ultimately show ?thesis
      using 3 "2.IH"(2) [OF 3] "2.prems"(1) by auto
  qed auto
qed simp

lemma depends_on_correct:
  assumes "graph_ok g"
  shows "depends_on g a b \<longleftrightarrow> (b, a) \<in> (edge_rel g)\<^sup>+"
proof -
  have "depends_on g a b \<longleftrightarrow> depends_bfs g b (adjacent (tg_rev g) a) {}"
    by (simp add: depends_on_def adjacent_def split: option.split)
  also have "\<dots> \<longleftrightarrow> (\<exists>d. (a, d) \<in> rev_rel g \<and> (d, b) \<in> (rev_rel g)\<^sup>*)"
    by (subst depends_bfs_correct) (auto simp: rev_rel_def)
  also have "\<dots> \<longleftrightarrow> (a, b) \<in> (rev_rel g)\<^sup>+"
    by (auto simp: tranclD intro: rtrancl_into_trancl2 dest: tranclD)
  finally show ?thesis by (simp add: rev_rel_converse [OF assms] trancl_converse)
qed

section \<open>Depth-first search orders the graph or finds a cycle\<close>

text \<open>\<open>result\<close> lists every task after all its successors.\<close>

definition after_succs :: "TaskGraph \<Rightarrow> task_id list \<Rightarrow> bool" where
  "after_succs g xs \<longleftrightarrow> (\<forall>i < length xs. edge_rel g `` {xs ! i} \<subseteq> set (take i xs))"

definition dfs_inv :: "TaskGraph \<Rightarrow> dfs_state \<Rightarrow> bool" where
  "dfs_inv g s \<longleftrightarrow> ds_stack s \<subseteq> ds_visited s \<and> set (ds_result s) = ds_visited s - ds_stack s \<and>
     distinct (ds_result s) \<and> after_succs g (ds_result s)"

lemma Image_insert_left: "R `` insert a B = R `` {a} \<union> R `` B"
  by auto

lemma after_succs_snoc: "after_succs g (xs @ [x]) \<longleftrightarrow> after_succs g xs \<and> edge_rel g `` {x} \<subseteq> set xs"
  by (auto simp: after_succs_def nth_append less_Suc_eq)

lemma after_succs_descends:
  assumes "after_succs g xs" and "(u, v) \<in> (edge_rel g)\<^sup>+" and "i < length xs" and "xs ! i = u"
  shows "\<exists>j < i. xs ! j = v"
  using assms(2-4)
proof (induction arbitrary: i rule: converse_trancl_induct)
  case (base u)
  then have "v \<in> set (take i xs)" using assms(1) by (auto simp: after_succs_def)
  then show ?case using base.prems(1) by (auto simp: in_set_conv_nth)
next
  case (step u w)
  then have "w \<in> set (take i xs)" using assms(1) by (auto simp: after_succs_def)
  then obtain j where "j < i" "xs ! j = w" using step.prems(1) by (auto simp: in_set_conv_nth)
  with step.IH [of j] step.prems(1) obtain l where "l < j" "xs ! l = v" by auto
  then show ?case using \<open>j < i\<close> by (intro exI [of _ l]) simp
qed

lemma after_succs_acyclic:
  assumes "after_succs g xs" and "distinct xs" and "x \<in> set xs"
  shows "(x, x) \<notin> (edge_rel g)\<^sup>+"
proof
  assume cycle: "(x, x) \<in> (edge_rel g)\<^sup>+"
  obtain i where i: "i < length xs" "xs ! i = x" using assms(3) by (auto simp: in_set_conv_nth)
  from after_succs_descends [OF assms(1) cycle i] i assms(2) show False
    by (auto simp: nth_eq_iff_index_eq)
qed

lemma after_succs_closed: "after_succs g xs \<Longrightarrow> edge_rel g `` set xs \<subseteq> set xs"
  by (fastforce simp: after_succs_def in_set_conv_nth dest: in_set_takeD)

lemma dfs_enter_inv: "dfs_inv g s \<Longrightarrow> k \<notin> ds_visited s \<Longrightarrow> dfs_inv g (dfs_enter k s)"
  by (auto simp: dfs_inv_def dfs_enter_def)

lemma dfs_leave_inv:
  "dfs_inv g s \<Longrightarrow> k \<in> ds_stack s \<Longrightarrow> edge_rel g `` {k} \<subseteq> set (ds_result s) \<Longrightarrow> dfs_inv g (dfs_leave k s)"
  by (auto simp: dfs_inv_def dfs_leave_def after_succs_snoc)

lemma dfs_correct:
  assumes "dfs_inv g s" and "\<forall>u \<in> ds_stack s. \<forall>d \<in> set ids. (u, d) \<in> (edge_rel g)\<^sup>+"
  shows "(if fst (dfs g ids s)
     then dfs_inv g (snd (dfs g ids s)) \<and> ds_stack (snd (dfs g ids s)) = ds_stack s \<and>
       set ids \<union> set (ds_result s) \<subseteq> set (ds_result (snd (dfs g ids s))) \<and>
       ds_visited (snd (dfs g ids s)) \<subseteq> ds_visited s \<union> (edge_rel g)\<^sup>* `` set ids
     else \<exists>x \<in> (edge_rel g)\<^sup>* `` set ids. (x, x) \<in> (edge_rel g)\<^sup>+)"
  using assms
proof (induction g ids s rule: dfs.induct)
  case (2 g k ids s)
  let ?E = "edge_rel g" and ?succs = "adjacent (tg_edges g) k"
  consider "k \<in> ds_stack s" | "k \<notin> ds_stack s" "k \<in> ds_visited s" | "k \<notin> ds_stack s" "k \<notin> ds_visited s"
    by blast
  then show ?case
  proof cases
    case 1
    then have "(k, k) \<in> ?E\<^sup>+" using "2.prems"(2) by simp
    with 1 show ?thesis by auto
  next
    case 2
    have "k \<in> set (ds_result s)" using 2 "2.prems"(1) by (simp add: dfs_inv_def)
    with 2 "2.IH"(1) [OF 2 "2.prems"(1)] "2.prems"(2) show ?thesis by (auto split: if_splits)
  next
    case 3
    define r where "r = dfs g ?succs (dfs_enter k s)"
    have succs: "set ?succs = ?E `` {k}" by (auto simp: edge_rel_def)
    have stack: "\<forall>u \<in> ds_stack (dfs_enter k s). \<forall>d \<in> set ?succs. (u, d) \<in> ?E\<^sup>+"
      using "2.prems"(2) by (auto simp: dfs_enter_def succs intro: trancl_into_trancl)
    note IH1 = "2.IH"(2) [OF 3 dfs_enter_inv [OF "2.prems"(1) 3(2)] stack, folded r_def]
    show ?thesis
    proof (cases "fst r")
      case False
      with IH1 obtain x where "x \<in> ?E\<^sup>* `` set ?succs" "(x, x) \<in> ?E\<^sup>+" by auto
      moreover from this(1) have "x \<in> ?E\<^sup>* `` set (k # ids)"
        by (auto simp: succs intro: converse_rtrancl_into_rtrancl)
      ultimately show ?thesis using 3 False by (auto simp: r_def [symmetric] Let_def)
    next
      case True
      let ?s1 = "dfs_leave k (snd r)"
      have r: "dfs_inv g (snd r)" "ds_stack (snd r) = insert k (ds_stack s)"
        "?E `` {k} \<union> set (ds_result s) \<subseteq> set (ds_result (snd r))"
        "ds_visited (snd r) \<subseteq> insert k (ds_visited s) \<union> ?E\<^sup>* `` set ?succs"
        using IH1 True by (auto simp: dfs_enter_def succs)
      have s1: "dfs_inv g ?s1" "ds_stack ?s1 = ds_stack s"
        using dfs_leave_inv [OF r(1), of k] r(2,3) 3(1) by (auto simp: dfs_leave_def)
      have res: "insert k (set (ds_result s)) \<subseteq> set (ds_result ?s1)"
        using r(3) by (auto simp: dfs_leave_def)
      have vis: "ds_visited ?s1 \<subseteq> ds_visited s \<union> ?E\<^sup>* `` {k}"
        using r(4) by (auto simp: dfs_leave_def succs intro: converse_rtrancl_into_rtrancl)
      have "\<forall>u \<in> ds_stack ?s1. \<forall>d \<in> set ids. (u, d) \<in> ?E\<^sup>+" using "2.prems"(2) s1(2) by simp
      note IH2 = "2.IH"(3) [OF 3 r_def True s1(1) this]
      have run: "dfs g (k # ids) s = dfs g ids ?s1" using 3 True by (simp add: r_def Let_def)
      show ?thesis
        unfolding run using IH2 s1(2) res vis
        by (auto simp: Image_insert_left [of _ k "set ids"] split: if_splits)
    qed
  qed
qed simp

lemma dfs_all_correct:
  assumes "dfs_inv g s" and "ds_stack s = {}"
  shows "(if fst (dfs_all g ids s)
     then dfs_inv g (snd (dfs_all g ids s)) \<and> ds_stack (snd (dfs_all g ids s)) = {} \<and>
       set ids \<union> set (ds_result s) \<subseteq> set (ds_result (snd (dfs_all g ids s))) \<and>
       ds_visited (snd (dfs_all g ids s)) \<subseteq> ds_visited s \<union> (edge_rel g)\<^sup>* `` set ids
     else \<exists>x \<in> (edge_rel g)\<^sup>* `` set ids. (x, x) \<in> (edge_rel g)\<^sup>+)"
  using assms
proof (induction ids arbitrary: s)
  case (Cons k ids)
  show ?case
  proof (cases "k \<in> ds_visited s")
    case True
    then have "k \<in> set (ds_result s)" using Cons.prems by (simp add: dfs_inv_def)
    with True Cons.IH [OF Cons.prems] show ?thesis by (auto split: if_splits)
  next
    case False
    note D = dfs_correct [OF Cons.prems(1), of "[k]"]
    show ?thesis
    proof (cases "fst (dfs g [k] s)")
      case True
      with D Cons.prems(2) have d: "dfs_inv g (snd (dfs g [k] s))" "ds_stack (snd (dfs g [k] s)) = {}"
        "insert k (set (ds_result s)) \<subseteq> set (ds_result (snd (dfs g [k] s)))"
        "ds_visited (snd (dfs g [k] s)) \<subseteq> ds_visited s \<union> (edge_rel g)\<^sup>* `` {k}"
        by (auto simp del: dfs.simps)
      have run: "dfs_all g (k # ids) s = dfs_all g ids (snd (dfs g [k] s))"
        using False True by (simp add: Let_def del: dfs.simps)
      show ?thesis unfolding run using Cons.IH [OF d(1,2)] d(3,4)
        by (auto simp: Image_insert_left [of _ k "set ids"] simp del: dfs.simps split: if_splits)
    next
      case fails: False
      with D Cons.prems(2) False show ?thesis
        by (auto simp: Let_def Image_insert_left [of _ k "set ids"] simp del: dfs.simps)
    qed
  qed
qed simp

lemma dfs_start_inv: "dfs_inv g dfs_start" "ds_stack dfs_start = {}"
  by (simp_all add: dfs_inv_def dfs_start_def after_succs_def)

abbreviation task_ids :: "TaskGraph \<Rightarrow> task_id set" where
  "task_ids g \<equiv> fst ` set (tg_tasks g)"

lemma dfs_graph:
  "if is_dag g
   then distinct (topological_sort g) \<and> after_succs g (rev (topological_sort g)) \<and>
     task_ids g \<subseteq> set (topological_sort g) \<and> set (topological_sort g) \<subseteq> (edge_rel g)\<^sup>* `` task_ids g
   else topological_sort g = [] \<and> (\<exists>x \<in> (edge_rel g)\<^sup>* `` task_ids g. (x, x) \<in> (edge_rel g)\<^sup>+)"
  using dfs_all_correct [OF dfs_start_inv, of g "map fst (tg_tasks g)"]
  by (auto simp: is_dag_def topological_sort_def Let_def dfs_inv_def dfs_start_def split: if_splits)

lemma is_dag_iff:
  "is_dag g \<longleftrightarrow> (\<forall>x \<in> (edge_rel g)\<^sup>* `` task_ids g. (x, x) \<notin> (edge_rel g)\<^sup>+)"
proof (cases "is_dag g")
  case True
  with dfs_graph [of g] have order: "distinct (rev (topological_sort g))"
    "after_succs g (rev (topological_sort g))" "task_ids g \<subseteq> set (rev (topological_sort g))"
    by auto
  have "(edge_rel g)\<^sup>* `` task_ids g \<subseteq> set (rev (topological_sort g))"
    using Image_mono [OF subset_refl order(3), of "(edge_rel g)\<^sup>*"]
    by (simp only: Image_closed_trancl [OF after_succs_closed [OF order(2)]])
  with True order after_succs_acyclic show ?thesis by blast
next
  case False
  with dfs_graph [of g] show ?thesis by auto
qed

lemma topological_order:
  assumes "after_succs g (rev xs)" and "distinct xs" and "i < length xs" and "j < length xs"
    and "(xs ! i, xs ! j) \<in> edge_rel g"
  shows "i < j"
proof -
  let ?n = "length xs"
  have i: "rev xs ! (?n - Suc i) = xs ! i" "?n - Suc i < length (rev xs)"
    using assms(3) by (simp_all add: rev_nth)
  then have "edge_rel g `` {xs ! i} \<subseteq> set (take (?n - Suc i) (rev xs))"
    using assms(1) by (metis after_succs_def)
  with assms(5) have "xs ! j \<in> set (take (?n - Suc i) (rev xs))" by auto
  then obtain l where l: "l < ?n - Suc i" "rev xs ! l = xs ! j" by (auto simp: in_set_conv_nth)
  then have "xs ! (?n - Suc l) = xs ! j" by (simp add: rev_nth)
  then have "?n - Suc l = j" using assms(2,4) l(1) by (simp add: nth_eq_iff_index_eq)
  with l(1) show ?thesis by linarith
qed

lemma map_of_umap: "umap_ok m \<Longrightarrow> map_of m k = Some v \<longleftrightarrow> (k, v) \<in> set m"
  by (rule map_of_eq_Some_iff)

lemma has_task_iff: "has_task g k \<longleftrightarrow> k \<in> task_ids g"
  by (simp add: has_task_def umap_has_iff)

lemma adjacent_member: "v \<in> set (adjacent m u) \<Longrightarrow> \<exists>vs. (u, vs) \<in> set m \<and> v \<in> set vs"
  by (cases "map_of m u") (auto simp: adjacent_def dest: map_of_SomeD)

lemma is_valid_edges:
  assumes "is_valid g"
  shows "edge_rel g \<subseteq> task_ids g \<times> task_ids g"
  using assms
  by (fastforce simp: is_valid_def list_all_iff has_task_iff edge_rel_def dest: adjacent_member)

lemma closed_image: "R \<subseteq> T \<times> T \<Longrightarrow> R\<^sup>* `` T = T"
  by (rule Image_closed_trancl) auto

lemma valid_graph_order:
  assumes "is_valid g"
  shows "distinct (topological_sort g)" "set (topological_sort g) = task_ids g"
    "after_succs g (rev (topological_sort g))"
  using dfs_graph [of g] assms closed_image [OF is_valid_edges [OF assms]]
  by (auto simp: is_valid_def)

section \<open>Properties\<close>

text \<open>
  C11: on a valid graph \<open>topological_sort\<close> lists every task exactly once, each before all the tasks
  that depend on it, whatever order the hash maps are traversed in; on a graph with a cycle that a
  task reaches it returns the empty vector.
\<close>

theorem topological_sort_correct:
  "(is_valid g \<longrightarrow> distinct (topological_sort g) \<and> set (topological_sort g) = task_ids g \<and>
     (\<forall>i j. i < length (topological_sort g) \<and> j < length (topological_sort g) \<and>
        (topological_sort g ! i, topological_sort g ! j) \<in> edge_rel g \<longrightarrow> i < j)) \<and>
   (\<not> is_dag g \<longrightarrow> topological_sort g = [])"
  using valid_graph_order [of g] topological_order [of g "topological_sort g"] dfs_graph [of g] by auto

text \<open>Three tasks, the first before the other two, and the second before the third.\<close>

definition sample_graph :: "TaskStatus \<Rightarrow> TaskGraph" where
  "sample_graph st =
     (let t = (\<lambda>i. (i, set_status st (fst (Task_new ''task'' i))))
      in \<lparr>tg_tasks = [t 2, t 0, t 1], tg_edges = [(1, [2]), (0, [1, 2])],
          tg_rev = [(1, [0]), (2, [1, 0])]\<rparr>)"

lemma sample_graph_valid: "is_valid (sample_graph st)"
  by (simp add: sample_graph_def Let_def is_valid_def is_dag_def dfs_start_def dfs_enter_def
      dfs_leave_def adjacent_def has_task_def umap_has_def)

lemma topological_sort_correct_witness:
  "set (topological_sort (sample_graph kPending)) = {0, 1, 2}"
  using topological_sort_correct [of "sample_graph kPending"] sample_graph_valid [of kPending]
  by (auto simp: sample_graph_def)

text \<open>
  C18: \<open>is_valid\<close> accepts exactly the acyclic graphs whose edge map mentions only tasks of the graph,
  and \<open>is_dag\<close> those in which no task reaches a cycle.
\<close>

theorem is_valid_iff:
  "(is_dag g \<longleftrightarrow> (\<forall>x \<in> (edge_rel g)\<^sup>* `` task_ids g. (x, x) \<notin> (edge_rel g)\<^sup>+)) \<and>
   (is_valid g \<longleftrightarrow> acyclic (edge_rel g) \<and>
      (\<forall>(u, vs) \<in> set (tg_edges g). u \<in> task_ids g \<and> set vs \<subseteq> task_ids g))"
proof -
  let ?listed = "\<forall>(u, vs) \<in> set (tg_edges g). u \<in> task_ids g \<and> set vs \<subseteq> task_ids g"
  have valid: "is_valid g \<longleftrightarrow> is_dag g \<and> ?listed"
    by (auto simp: is_valid_def list_all_iff has_task_iff)
  have "is_dag g \<longleftrightarrow> acyclic (edge_rel g)" if ?listed
  proof -
    have closed: "edge_rel g \<subseteq> task_ids g \<times> task_ids g"
      using that by (fastforce simp: edge_rel_def dest: adjacent_member)
    then have "x \<in> task_ids g" if "(x, x) \<in> (edge_rel g)\<^sup>+" for x
      using that by (blast dest: tranclD)
    then show ?thesis unfolding is_dag_iff closed_image [OF closed] acyclic_def by blast
  qed
  then have "is_valid g \<longleftrightarrow> acyclic (edge_rel g) \<and> ?listed" unfolding valid by argo
  with is_dag_iff [of g] show ?thesis by (rule conjI)
qed

lemma is_valid_iff_witness: "acyclic (edge_rel (sample_graph kPending))"
  using is_valid_iff [of "sample_graph kPending"] sample_graph_valid by blast

text \<open>
  C19: whatever sequence of operations built a graph, with or without debug assertions, its two edge
  maps agree: \<open>get_dependencies\<close> and \<open>get_dependents\<close> are the two sides of one relation, and
  \<open>depends_on\<close> terminates and answers whether there is a path of edges.
\<close>

theorem built_graph_dependencies:
  assumes "for_each (graph_op_step debug) ops graph_empty = Inr g"
  shows "graph_ok g \<and> (depends_on g a b \<longleftrightarrow> (b, a) \<in> (edge_rel g)\<^sup>+) \<and>
    set (get_dependencies g a) = {u. (u, a) \<in> edge_rel g} \<and>
    set (get_dependents g a) = {v. (a, v) \<in> edge_rel g} \<and>
    (is_valid g \<longrightarrow> \<not> depends_on g a a)"
proof -
  have ok: "graph_ok g" by (rule graph_ops_ok [OF graph_empty_ok assms])
  moreover have "set (get_dependencies g a) = {u. (u, a) \<in> edge_rel g}"
    by (auto simp: get_dependencies_def graph_rev_edge [OF ok])
  moreover have "\<not> depends_on g a a" if "is_valid g"
  proof -
    have "acyclic (edge_rel g)"
      unfolding acyclic_def
    proof (intro allI notI)
      fix x assume c: "(x, x) \<in> (edge_rel g)\<^sup>+"
      then have "x \<in> task_ids g" using is_valid_edges [OF that] by (blast dest: tranclD)
      with c after_succs_acyclic [OF valid_graph_order(3) [OF that], of x] valid_graph_order(1,2) [OF that]
      show False by simp
    qed
    then show ?thesis by (simp add: depends_on_correct [OF ok] acyclic_def)
  qed
  ultimately show ?thesis
    by (auto simp: depends_on_correct get_dependents_def edge_rel_def)
qed

lemma built_graph_dependencies_witness:
  "\<exists>g. for_each (graph_op_step False) [Add_Edge 0 1, Add_Edge 1 2, Remove_Task 5] graph_empty = Inr g \<and>
     depends_on g 2 0 \<and> graph_ok g"
proof -
  obtain g where g: "for_each (graph_op_step False) [Add_Edge 0 1, Add_Edge 1 2, Remove_Task 5] graph_empty = Inr g"
    by (simp add: graph_add_edge_def)
  have "tg_edges g = [(0, [1]), (1, [2])]"
    using g by (auto simp: graph_add_edge_def graph_remove_task_def push_adjacent_def adjacent_def
        graph_empty_def Let_def)
  then have "(0, 1) \<in> edge_rel g" "(1, 2) \<in> edge_rel g" by (simp_all add: edge_rel_def adjacent_def)
  then have "(0, 2) \<in> (edge_rel g)\<^sup>+" by (meson r_into_trancl trancl_into_trancl)
  with g built_graph_dependencies [OF g, of 2 0] show ?thesis by blast
qed

end
