(* ===== verification/Graph_Executor.thy ===== *)
theory Graph_Executor
  imports Task_Graph Core_Status
begin

text \<open>
  \<open>GraphExecutor\<close> of \<open>scheduler/task_graph.cpp\<close>. Without a thread pool \<open>execute\<close> runs the ready tasks
  one after the other on the calling thread; with one, it enqueues them and workers run them while
  the calling thread scans the graph again. \<open>outcome\<close> is what the closure of each task does. The
  counters never exceed the number of tasks, so they are natural numbers; the sleep of the loop is
  left out.
\<close>

section \<open>State and operations\<close>

record Executor =
  ex_running :: "task_id set"
  ex_completed :: "task_id set"
  ex_nrunning :: nat
  ex_ncompleted :: nat
  ex_cancelled :: bool

definition executor_new :: Executor where
  "executor_new = \<lparr>ex_running = {}, ex_completed = {}, ex_nrunning = 0, ex_ncompleted = 0,
     ex_cancelled = False\<rparr>"

definition executor_cancel :: "Executor \<Rightarrow> Executor" where
  "executor_cancel ex = ex\<lparr>ex_cancelled := True\<rparr>"

definition executor_reset :: "Executor \<Rightarrow> Executor" where
  "executor_reset ex = ex\<lparr>ex_cancelled := False, ex_ncompleted := 0, ex_running := {}, ex_completed := {}\<rparr>"

definition claim_task :: "task_id \<Rightarrow> Executor \<Rightarrow> Executor" where
  "claim_task k ex = ex\<lparr>ex_running := insert k (ex_running ex), ex_nrunning := ex_nrunning ex + 1\<rparr>"

definition mark_completed :: "task_id \<Rightarrow> Executor \<Rightarrow> Executor" where
  "mark_completed k ex =
     ex\<lparr>ex_running := ex_running ex - {k}, ex_completed := insert k (ex_completed ex),
        ex_nrunning := ex_nrunning ex - 1, ex_ncompleted := ex_ncompleted ex + 1\<rparr>"

definition all_complete :: "Executor \<Rightarrow> TaskGraph \<Rightarrow> bool" where
  "all_complete ex g = (ex_ncompleted ex = num_tasks g)"

text \<open>Running a task changes the status of the shared task object.\<close>

definition run_task :: "closure_outcome \<Rightarrow> task_id \<Rightarrow> TaskGraph \<Rightarrow> TaskGraph" where
  "run_task r k g =
     (case get_task g k of
        None \<Rightarrow> g
      | Some t \<Rightarrow> g\<lparr>tg_tasks := AList.update k (snd (FunctionalTask_execute r t)) (tg_tasks g)\<rparr>)"

record exec_state =
  xs_ex :: Executor
  xs_graph :: TaskGraph
  xs_trace :: "task_id list"

text \<open>The loop of \<open>process_ready_tasks\<close>, on the calling thread; the trace records what ran.\<close>

fun process_loop :: "(task_id \<Rightarrow> closure_outcome) \<Rightarrow> task_id list \<Rightarrow> exec_state \<Rightarrow> exec_state" where
  "process_loop outcome [] s = s"
| "process_loop outcome (k # ks) s =
     (if ex_cancelled (xs_ex s) then s
      else if get_task (xs_graph s) k = None then process_loop outcome ks s
      else if k \<in> ex_running (xs_ex s) \<or> k \<in> ex_completed (xs_ex s) then process_loop outcome ks s
      else process_loop outcome ks
        \<lparr>xs_ex = mark_completed k (claim_task k (xs_ex s)),
         xs_graph = run_task (outcome k) k (xs_graph s), xs_trace = xs_trace s @ [k]\<rparr>)"

definition process_ready_tasks :: "(task_id \<Rightarrow> closure_outcome) \<Rightarrow> exec_state \<Rightarrow> exec_state" where
  "process_ready_tasks outcome s = process_loop outcome (get_ready_tasks (xs_graph s)) s"

fun execute_loop :: "nat \<Rightarrow> (task_id \<Rightarrow> closure_outcome) \<Rightarrow> exec_state \<Rightarrow> exec_state comp" where
  "execute_loop fuel outcome s =
     (if all_complete (xs_ex s) (xs_graph s) \<or> ex_cancelled (xs_ex s) then Inr s
      else case fuel of
             0 \<Rightarrow> Inl Out_Of_Fuel
           | Suc fuel' \<Rightarrow> execute_loop fuel' outcome (process_ready_tasks outcome s))"

definition execute_from :: "Executor \<Rightarrow> TaskGraph \<Rightarrow> exec_state" where
  "execute_from ex g = \<lparr>xs_ex = executor_reset ex, xs_graph = g, xs_trace = []\<rparr>"

definition execute :: "nat \<Rightarrow> (task_id \<Rightarrow> closure_outcome) \<Rightarrow> Executor \<Rightarrow> TaskGraph \<Rightarrow>
    (Status \<times> exec_state) comp" where
  "execute fuel outcome ex g =
     (let s = execute_from ex g
      in if \<not> is_valid g then Inr (Status_InvalidArgument ''Invalid task graph'', s)
         else rbind (execute_loop fuel outcome s) (\<lambda>s'.
           Inr (if ex_cancelled (xs_ex s') then Status_Error ''Cancelled'' else Status_Ok, s')))"

text \<open>The overload with a progress callback reports once, at the end; the last result is that call.\<close>

definition execute_progress :: "nat \<Rightarrow> (task_id \<Rightarrow> closure_outcome) \<Rightarrow> bool \<Rightarrow> Executor \<Rightarrow> TaskGraph \<Rightarrow>
    (Status \<times> exec_state \<times> (nat \<times> nat) option) comp" where
  "execute_progress fuel outcome has_callback ex g =
     rbind (execute fuel outcome ex g) (\<lambda>(result, s).
       Inr (result, s,
         if has_callback \<and> 0 < num_tasks (xs_graph s)
         then Some (ex_ncompleted (xs_ex s), num_tasks (xs_graph s)) else None))"

text \<open>The overload for a list of targets does not look at them.\<close>

definition execute_targets :: "nat \<Rightarrow> (task_id \<Rightarrow> closure_outcome) \<Rightarrow> task_id list \<Rightarrow> Executor \<Rightarrow> TaskGraph \<Rightarrow>
    (Status \<times> exec_state) comp" where
  "execute_targets fuel outcome targets ex g = execute fuel outcome ex g"

declare execute_loop.simps [simp del]

section \<open>What a run on the calling thread preserves\<close>

definition status_of :: "TaskGraph \<Rightarrow> task_id \<Rightarrow> TaskStatus option" where
  "status_of g k = map_option tk_status (get_task g k)"

definition succeeds :: "(task_id \<Rightarrow> closure_outcome) \<Rightarrow> task_id \<Rightarrow> bool" where
  "succeeds outcome k \<longleftrightarrow> outcome k = Closure_Returned kCompleted"

definition final_status :: "(task_id \<Rightarrow> closure_outcome) \<Rightarrow> task_id \<Rightarrow> TaskStatus" where
  "final_status outcome k = (if succeeds outcome k then kCompleted else kFailed)"

definition preds :: "TaskGraph \<Rightarrow> task_id \<Rightarrow> task_id set" where
  "preds g k = set (get_dependencies g k)"

text \<open>\<open>g0\<close> is the graph the run began with: valid, every task pending.\<close>

definition fresh_graph :: "TaskGraph \<Rightarrow> bool" where
  "fresh_graph g \<longleftrightarrow> graph_ok g \<and> is_valid g \<and> (\<forall>k \<in> task_ids g. status_of g k = Some kPending)"

definition exec_inv :: "TaskGraph \<Rightarrow> (task_id \<Rightarrow> closure_outcome) \<Rightarrow> exec_state \<Rightarrow> bool" where
  "exec_inv g0 outcome s \<longleftrightarrow>
     tg_edges (xs_graph s) = tg_edges g0 \<and> tg_rev (xs_graph s) = tg_rev g0 \<and>
     map fst (tg_tasks (xs_graph s)) = map fst (tg_tasks g0) \<and>
     (\<forall>k \<in> task_ids g0. status_of (xs_graph s) k =
        Some (if k \<in> set (xs_trace s) then final_status outcome k else kPending)) \<and>
     distinct (xs_trace s) \<and> set (xs_trace s) \<subseteq> task_ids g0 \<and>
     (\<forall>i < length (xs_trace s). preds g0 (xs_trace s ! i) \<subseteq> set (take i (xs_trace s)) \<inter> {k. succeeds outcome k}) \<and>
     \<not> ex_cancelled (xs_ex s) \<and> ex_running (xs_ex s) = {} \<and> ex_completed (xs_ex s) = set (xs_trace s) \<and>
     ex_ncompleted (xs_ex s) = length (xs_trace s)"

lemma status_run_task:
  "status_of (run_task r k g) j =
     (if j = k \<and> get_task g k \<noteq> None
      then Some (if r = Closure_Returned kCompleted then kCompleted else kFailed) else status_of g j)"
proof (cases "get_task g k")
  case (Some t)
  obtain st t' where "FunctionalTask_execute r t = (st, t')" by fastforce
  with Some FunctionalTask_execute_status [OF this] show ?thesis
    by (auto simp: run_task_def status_of_def get_task_def update_conv')
qed (auto simp: run_task_def)

lemma run_task_graph [simp]:
  "tg_edges (run_task r k g) = tg_edges g" "tg_rev (run_task r k g) = tg_rev g"
  by (simp_all add: run_task_def split: option.split)

lemma run_task_keys: "map fst (tg_tasks (run_task r k g)) = map fst (tg_tasks g)"
proof (cases "get_task g k")
  case (Some t)
  then have "k \<in> fst ` set (tg_tasks g)" by (force simp: get_task_def dest: map_of_SomeD)
  with Some show ?thesis by (simp add: run_task_def update_keys)
qed (simp add: run_task_def)

lemma get_task_None: "get_task g k = None \<longleftrightarrow> k \<notin> task_ids g"
  by (simp add: get_task_def map_of_eq_None_iff)

lemma task_ids_eq: "map fst (tg_tasks g) = map fst (tg_tasks g') \<Longrightarrow> task_ids g = task_ids g'"
  by (metis set_map)

lemma exec_start_inv: "fresh_graph g \<Longrightarrow> exec_inv g outcome (execute_from ex g)"
  by (simp add: exec_inv_def execute_from_def executor_reset_def fresh_graph_def)

text \<open>A task that has not run and whose dependencies have all succeeded may run next.\<close>

definition may_run :: "TaskGraph \<Rightarrow> (task_id \<Rightarrow> closure_outcome) \<Rightarrow> exec_state \<Rightarrow> task_id \<Rightarrow> bool" where
  "may_run g0 outcome s k \<longleftrightarrow> k \<in> task_ids g0 \<and> k \<notin> set (xs_trace s) \<and>
     preds g0 k \<subseteq> set (xs_trace s) \<inter> {k. succeeds outcome k}"

lemma process_loop_ok:
  assumes "exec_inv g0 outcome s" and "distinct ks" and "\<forall>k \<in> set ks. may_run g0 outcome s k"
  shows "exec_inv g0 outcome (process_loop outcome ks s) \<and>
    xs_trace (process_loop outcome ks s) = xs_trace s @ ks"
  using assms
proof (induction ks arbitrary: s)
  case (Cons k ks)
  note inv = Cons.prems(1)
  have k: "k \<in> task_ids g0" "k \<notin> set (xs_trace s)"
    "preds g0 k \<subseteq> set (xs_trace s) \<inter> {k. succeeds outcome k}"
    using Cons.prems(3) by (simp_all add: may_run_def)
  have keys: "task_ids (xs_graph s) = task_ids g0"
    using inv by (intro task_ids_eq) (simp add: exec_inv_def)
  let ?s = "\<lparr>xs_ex = mark_completed k (claim_task k (xs_ex s)),
         xs_graph = run_task (outcome k) k (xs_graph s), xs_trace = xs_trace s @ [k]\<rparr>"
  have run: "process_loop outcome (k # ks) s = process_loop outcome ks ?s"
    using inv k keys by (simp add: exec_inv_def get_task_None)
  have order: "preds g0 ((xs_trace s @ [k]) ! i) \<subseteq> set (take i (xs_trace s @ [k])) \<inter> {k. succeeds outcome k}"
    if "i < Suc (length (xs_trace s))" for i
    using that inv k(3) by (auto simp: exec_inv_def nth_append less_Suc_eq)
  have "exec_inv g0 outcome ?s"
    using inv k keys order
    by (simp add: exec_inv_def run_task_keys status_run_task get_task_None final_status_def
        succeeds_def mark_completed_def claim_task_def)
  moreover have "\<forall>j \<in> set ks. may_run g0 outcome ?s j"
    using Cons.prems(2,3) by (auto simp: may_run_def)
  ultimately show ?case
    using Cons.IH [of ?s] Cons.prems(2) by (simp only: run) simp
qed simp

lemma umap_status: "umap_ok (tg_tasks g) \<Longrightarrow> (k, t) \<in> set (tg_tasks g) \<Longrightarrow> status_of g k = Some (tk_status t)"
  by (simp add: status_of_def get_task_def map_of_umap)

lemma deps_complete_iff: "deps_complete g deps \<longleftrightarrow> (\<forall>d \<in> set deps. status_of g d = Some kCompleted)"
  by (auto simp: deps_complete_def list_all_iff status_of_def split: option.splits)

lemma get_ready_tasks_set:
  assumes "umap_ok (tg_tasks g)"
  shows "set (get_ready_tasks g) =
    {k \<in> task_ids g. status_of g k = Some kPending \<and> (\<forall>d \<in> preds g k. status_of g d = Some kCompleted)}"
proof (intro set_eqI iffI)
  fix k assume "k \<in> set (get_ready_tasks g)"
  then obtain t where t: "(k, t) \<in> set (tg_tasks g)" "tk_status t = kPending"
    "\<forall>d \<in> preds g k. status_of g d = Some kCompleted"
    by (auto simp: get_ready_tasks_def deps_complete_iff preds_def)
  moreover from t(1) have "k \<in> task_ids g" by force
  ultimately show "k \<in> {k \<in> task_ids g. status_of g k = Some kPending \<and>
      (\<forall>d \<in> preds g k. status_of g d = Some kCompleted)}"
    using umap_status [OF assms t(1)] by simp
next
  fix k assume k: "k \<in> {k \<in> task_ids g. status_of g k = Some kPending \<and>
      (\<forall>d \<in> preds g k. status_of g d = Some kCompleted)}"
  then obtain t where t: "(k, t) \<in> set (tg_tasks g)" by auto
  with k umap_status [OF assms t] have "(k, t) \<in> set (filter (\<lambda>(k, t). tk_status t = kPending \<and>
      deps_complete g (get_dependencies g k)) (tg_tasks g))"
    by (simp add: deps_complete_iff preds_def)
  then show "k \<in> set (get_ready_tasks g)" unfolding get_ready_tasks_def by force
qed

lemma distinct_ready: "umap_ok (tg_tasks g) \<Longrightarrow> distinct (get_ready_tasks g)"
  unfolding get_ready_tasks_def by (rule distinct_map_filter [unfolded comp_def])

lemma exec_inv_ready:
  assumes fresh: "fresh_graph g0" and inv: "exec_inv g0 outcome s"
  shows "distinct (get_ready_tasks (xs_graph s))"
    and "set (get_ready_tasks (xs_graph s)) = {k. may_run g0 outcome s k}"
proof -
  have ok: "umap_ok (tg_tasks (xs_graph s))"
    using fresh inv by (simp add: fresh_graph_def graph_ok_def exec_inv_def)
  then show "distinct (get_ready_tasks (xs_graph s))" by (rule distinct_ready)
  have keys: "task_ids (xs_graph s) = task_ids g0"
    using inv by (intro task_ids_eq) (simp add: exec_inv_def)
  have preds: "preds (xs_graph s) k = preds g0 k" for k
    using inv by (simp add: preds_def get_dependencies_def exec_inv_def)
  have known: "preds g0 k \<subseteq> task_ids g0" for k
    using fresh is_valid_edges [of g0]
    by (auto simp: preds_def get_dependencies_def graph_rev_edge fresh_graph_def)
  have status: "status_of (xs_graph s) k =
      Some (if k \<in> set (xs_trace s) then final_status outcome k else kPending)" if "k \<in> task_ids g0" for k
    using that inv unfolding exec_inv_def by blast
  have pend: "status_of (xs_graph s) k = Some kPending \<longleftrightarrow> k \<notin> set (xs_trace s)" if "k \<in> task_ids g0" for k
    using status [OF that] by (simp add: final_status_def)
  have compl: "status_of (xs_graph s) k = Some kCompleted \<longleftrightarrow> k \<in> set (xs_trace s) \<and> succeeds outcome k"
    if "k \<in> task_ids g0" for k
    using status [OF that] by (simp add: final_status_def)
  show "set (get_ready_tasks (xs_graph s)) = {k. may_run g0 outcome s k}"
  proof (intro set_eqI iffI)
    fix k assume "k \<in> set (get_ready_tasks (xs_graph s))"
    then have k: "k \<in> task_ids g0" "status_of (xs_graph s) k = Some kPending"
      "\<forall>d \<in> preds g0 k. status_of (xs_graph s) d = Some kCompleted"
      unfolding get_ready_tasks_set [OF ok] keys preds by simp_all
    have "d \<in> set (xs_trace s) \<inter> {k. succeeds outcome k}" if "d \<in> preds g0 k" for d
      using compl [of d] k(3) known that by blast
    with k pend [OF k(1)] show "k \<in> {k. may_run g0 outcome s k}" by (auto simp: may_run_def)
  next
    fix k assume "k \<in> {k. may_run g0 outcome s k}"
    then have k: "k \<in> task_ids g0" "k \<notin> set (xs_trace s)"
      "preds g0 k \<subseteq> set (xs_trace s) \<inter> {k. succeeds outcome k}" by (simp_all add: may_run_def)
    have "status_of (xs_graph s) d = Some kCompleted" if "d \<in> preds g0 k" for d
      using compl [of d] k(3) known that by blast
    with k pend [OF k(1)] show "k \<in> set (get_ready_tasks (xs_graph s))"
      unfolding get_ready_tasks_set [OF ok] keys preds by simp
  qed
qed

lemma process_ready_ok:
  assumes "fresh_graph g0" and "exec_inv g0 outcome s"
  shows "exec_inv g0 outcome (process_ready_tasks outcome s)"
    and "xs_trace (process_ready_tasks outcome s) = xs_trace s @ get_ready_tasks (xs_graph s)"
  using process_loop_ok [OF assms(2) exec_inv_ready(1) [OF assms]] exec_inv_ready(2) [OF assms]
  by (simp_all add: process_ready_tasks_def)

lemma exec_inv_length:
  assumes "fresh_graph g0" and "exec_inv g0 outcome s"
  shows "length (xs_trace s) \<le> num_tasks g0"
    and "length (xs_trace s) = num_tasks g0 \<longleftrightarrow> set (xs_trace s) = task_ids g0"
    and "all_complete (xs_ex s) (xs_graph s) \<longleftrightarrow> length (xs_trace s) = num_tasks g0"
proof -
  have card: "card (task_ids g0) = num_tasks g0"
    using assms(1) distinct_card [of "map fst (tg_tasks g0)"]
    by (simp add: fresh_graph_def graph_ok_def num_tasks_def)
  have t: "card (set (xs_trace s)) = length (xs_trace s)" "set (xs_trace s) \<subseteq> task_ids g0"
    using assms(2) by (simp_all add: exec_inv_def distinct_card)
  show "length (xs_trace s) \<le> num_tasks g0" using card_mono [OF _ t(2)] t(1) card by simp
  show "length (xs_trace s) = num_tasks g0 \<longleftrightarrow> set (xs_trace s) = task_ids g0"
    using card_subset_eq [OF _ t(2)] t(1) card by auto
  have "length (map fst (tg_tasks (xs_graph s))) = length (map fst (tg_tasks g0))"
    using assms(2) by (simp only: exec_inv_def)
  then show "all_complete (xs_ex s) (xs_graph s) \<longleftrightarrow> length (xs_trace s) = num_tasks g0"
    using assms(2) by (simp add: all_complete_def num_tasks_def exec_inv_def)
qed

text \<open>As long as every task that others wait for succeeds, a round runs something.\<close>

lemma acyclic_edges: "is_valid g \<Longrightarrow> acyclic (edge_rel g)"
  using is_valid_edges [of g] valid_graph_order [of g] after_succs_acyclic [of g "rev (topological_sort g)"]
  unfolding acyclic_def by (metis (no_types, lifting) SigmaD1 distinct_rev set_rev subsetD tranclD)

lemma round_progress:
  assumes fresh: "fresh_graph g0" and inv: "exec_inv g0 outcome s"
    and succ: "\<forall>(u, v) \<in> edge_rel g0. succeeds outcome u" and "set (xs_trace s) \<noteq> task_ids g0"
  shows "get_ready_tasks (xs_graph s) \<noteq> []"
proof -
  have valid: "is_valid g0" and ok: "graph_ok g0" using fresh by (simp_all add: fresh_graph_def)
  have "finite (edge_rel g0)" by (rule finite_subset [OF subset_UNIV]) simp
  then have "wf (edge_rel g0)" using finite_acyclic_wf acyclic_edges [OF valid] by blast
  moreover obtain k where "k \<in> task_ids g0 - set (xs_trace s)"
    using assms(4) inv by (auto simp: exec_inv_def)
  ultimately obtain m where m: "m \<in> task_ids g0 - set (xs_trace s)"
    "\<And>u. (u, m) \<in> edge_rel g0 \<Longrightarrow> u \<notin> task_ids g0 - set (xs_trace s)"
    by (metis wfE_min)
  have "preds g0 m \<subseteq> set (xs_trace s) \<inter> {k. succeeds outcome k}"
  proof
    fix u assume "u \<in> preds g0 m"
    then have u: "(u, m) \<in> edge_rel g0" by (simp add: preds_def get_dependencies_def graph_rev_edge [OF ok])
    then have "u \<in> task_ids g0" using is_valid_edges [OF valid] by blast
    with u m(2) [OF u] succ show "u \<in> set (xs_trace s) \<inter> {k. succeeds outcome k}" by auto
  qed
  with m(1) have "may_run g0 outcome s m" by (simp add: may_run_def)
  with exec_inv_ready(2) [OF fresh inv] show ?thesis by auto
qed

lemma execute_loop_done:
  assumes "fresh_graph g0" and "exec_inv g0 outcome s" and "set (xs_trace s) = task_ids g0"
  shows "execute_loop fuel outcome s = Inr s"
  using exec_inv_length [OF assms(1,2)] assms(3) by (simp add: execute_loop.simps [of fuel])

lemma execute_loop_step:
  assumes "fresh_graph g0" and "exec_inv g0 outcome s" and "set (xs_trace s) \<noteq> task_ids g0"
  shows "execute_loop 0 outcome s = Inl Out_Of_Fuel"
    and "execute_loop (Suc fuel) outcome s = execute_loop fuel outcome (process_ready_tasks outcome s)"
proof -
  have "\<not> all_complete (xs_ex s) (xs_graph s) \<and> \<not> ex_cancelled (xs_ex s)"
    using exec_inv_length [OF assms(1,2)] assms(2,3) by (simp add: exec_inv_def)
  then show "execute_loop 0 outcome s = Inl Out_Of_Fuel"
    and "execute_loop (Suc fuel) outcome s = execute_loop fuel outcome (process_ready_tasks outcome s)"
    by (simp_all add: execute_loop.simps [of 0] execute_loop.simps [of "Suc fuel"])
qed

lemma execute_loop_returns:
  assumes "fresh_graph g0" and "exec_inv g0 outcome s"
    and "\<forall>(u, v) \<in> edge_rel g0. succeeds outcome u" and "num_tasks g0 \<le> length (xs_trace s) + fuel"
  shows "\<exists>s'. execute_loop fuel outcome s = Inr s'"
  using assms(2,4)
proof (induction fuel arbitrary: s)
  case 0
  then have "set (xs_trace s) = task_ids g0" using exec_inv_length [OF assms(1) 0(1)] by simp
  with execute_loop_done [OF assms(1) 0(1)] show ?case by blast
next
  case (Suc fuel)
  show ?case
  proof (cases "set (xs_trace s) = task_ids g0")
    case True
    with execute_loop_done [OF assms(1) Suc.prems(1)] show ?thesis by blast
  next
    case False
    note R = process_ready_ok [OF assms(1) Suc.prems(1)]
    have "get_ready_tasks (xs_graph s) \<noteq> []" by (rule round_progress [OF assms(1) Suc.prems(1) assms(3) False])
    then have "num_tasks g0 \<le> length (xs_trace (process_ready_tasks outcome s)) + fuel"
      using Suc.prems(2) R(2) by (cases "get_ready_tasks (xs_graph s)") simp_all
    from Suc.IH [OF R(1) this] execute_loop_step(2) [OF assms(1) Suc.prems(1) False]
    show ?thesis by simp
  qed
qed

text \<open>Whatever the fuel, a loop that returns has run every task.\<close>

lemma execute_loop_result:
  assumes "fresh_graph g0" and "exec_inv g0 outcome s" and "execute_loop fuel outcome s = Inr s'"
  shows "exec_inv g0 outcome s' \<and> set (xs_trace s') = task_ids g0"
  using assms(2,3)
proof (induction fuel arbitrary: s)
  case 0
  with execute_loop_done [OF assms(1) 0(1), of 0] execute_loop_step(1) [OF assms(1) 0(1)]
  show ?case by (cases "set (xs_trace s) = task_ids g0") auto
next
  case (Suc fuel)
  show ?case
  proof (cases "set (xs_trace s) = task_ids g0")
    case True
    with execute_loop_done [OF assms(1) Suc.prems(1)] Suc.prems show ?thesis by auto
  next
    case False
    with execute_loop_step(2) [OF assms(1) Suc.prems(1)] Suc.prems(2)
      Suc.IH [OF process_ready_ok(1) [OF assms(1) Suc.prems(1)]] show ?thesis by simp
  qed
qed

section \<open>Properties of a run on the calling thread\<close>

text \<open>
  C14: on a valid graph of pending tasks, \<open>execute\<close> without a thread pool returns if and only if every
  task that another one waits for succeeds; as many rounds as there are tasks are enough. When it
  returns, it has run every task exactly once, each after everything it depends on, the tasks carry
  their final status, and the status returned is Ok - also when a task that nobody waits for failed.
\<close>

theorem execute_returns_iff:
  assumes "fresh_graph g"
  shows "((\<exists>fuel r. execute fuel outcome ex g = Inr r) \<longleftrightarrow> (\<forall>(u, v) \<in> edge_rel g. succeeds outcome u)) \<and>
    ((\<forall>(u, v) \<in> edge_rel g. succeeds outcome u) \<longrightarrow> (\<exists>r. execute (num_tasks g) outcome ex g = Inr r)) \<and>
    (\<forall>fuel st s. execute fuel outcome ex g = Inr (st, s) \<longrightarrow>
       st = Status_Ok \<and> distinct (xs_trace s) \<and> set (xs_trace s) = task_ids g \<and>
       (\<forall>i < length (xs_trace s). preds g (xs_trace s ! i) \<subseteq> set (take i (xs_trace s))) \<and>
       (\<forall>k \<in> task_ids g. status_of (xs_graph s) k = Some (final_status outcome k)) \<and>
       ex_ncompleted (xs_ex s) = num_tasks g)"
proof -
  let ?s0 = "execute_from ex g" and ?fine = "\<forall>(u, v) \<in> edge_rel g. succeeds outcome u"
  have valid: "is_valid g" "graph_ok g" using assms by (simp_all add: fresh_graph_def)
  note inv0 = exec_start_inv [OF assms, of outcome ex]
  have run: "execute fuel outcome ex g = Inr (st, s) \<longleftrightarrow>
      execute_loop fuel outcome ?s0 = Inr s \<and> st = Status_Ok" for fuel st s
    using valid(1) execute_loop_result [OF assms inv0, of fuel s]
    by (auto simp: execute_def Let_def fault_simps exec_inv_def)
  have final: "st = Status_Ok \<and> exec_inv g outcome s \<and> set (xs_trace s) = task_ids g \<and>
      length (xs_trace s) = num_tasks g" if "execute fuel outcome ex g = Inr (st, s)" for fuel st s
    using that execute_loop_result [OF assms inv0, of fuel s] exec_inv_length(2) [OF assms] by (auto simp: run)
  have needed: "?fine" if r: "execute fuel outcome ex g = Inr r" for fuel r
  proof -
    obtain st s where s: "exec_inv g outcome s" "set (xs_trace s) = task_ids g"
      using final [of fuel "fst r" "snd r"] r by auto
    have "succeeds outcome u" if "(u, v) \<in> edge_rel g" for u v
    proof -
      have "v \<in> set (xs_trace s)" using that is_valid_edges [OF valid(1)] s(2) by auto
      then obtain i where "i < length (xs_trace s)" "xs_trace s ! i = v" by (auto simp: in_set_conv_nth)
      with s(1) have "preds g v \<subseteq> {k. succeeds outcome k}" by (auto simp: exec_inv_def)
      with that show ?thesis by (auto simp: preds_def get_dependencies_def graph_rev_edge [OF valid(2)])
    qed
    then show ?thesis by blast
  qed
  have forth: "\<exists>r. execute (num_tasks g) outcome ex g = Inr r" if fine: "?fine"
  proof -
    obtain s where "execute_loop (num_tasks g) outcome ?s0 = Inr s"
      using execute_loop_returns [OF assms inv0 fine, of "num_tasks g"] by auto
    then show ?thesis using run [of "num_tasks g" Status_Ok s] by blast
  qed
  have result: "st = Status_Ok \<and> distinct (xs_trace s) \<and> set (xs_trace s) = task_ids g \<and>
       (\<forall>i < length (xs_trace s). preds g (xs_trace s ! i) \<subseteq> set (take i (xs_trace s))) \<and>
       (\<forall>k \<in> task_ids g. status_of (xs_graph s) k = Some (final_status outcome k)) \<and>
       ex_ncompleted (xs_ex s) = num_tasks g" if "execute fuel outcome ex g = Inr (st, s)" for fuel st s
    using final [OF that] unfolding exec_inv_def by auto
  from needed forth result show ?thesis by blast
qed

lemma sample_graph_fresh: "fresh_graph (sample_graph kPending)"
proof -
  have "graph_ok (sample_graph kPending)"
    by (auto simp: sample_graph_def Let_def graph_ok_def adjacent_def Task_new_def)
  then show ?thesis
    using sample_graph_valid [of kPending]
    by (auto simp: fresh_graph_def sample_graph_def Let_def status_of_def get_task_def)
qed

lemma execute_returns_iff_witness:
  "(\<nexists>fuel r. execute fuel (\<lambda>k. if k = 0 then Closure_Threw else Closure_Returned kCompleted) executor_new
      (sample_graph kPending) = Inr r) \<and>
   (\<exists>fuel s. execute fuel (\<lambda>k. if k = 2 then Closure_Threw else Closure_Returned kCompleted) executor_new
      (sample_graph kPending) = Inr (Status_Ok, s) \<and> status_of (xs_graph s) 2 = Some kFailed)"
proof -
  let ?g = "sample_graph kPending"
  have edges: "edge_rel ?g = {(0, 1), (0, 2), (1, 2)}" "task_ids ?g = {0, 1, 2}"
    by (auto simp: sample_graph_def edge_rel_def adjacent_def Let_def split: if_splits)
  note E = execute_returns_iff [OF sample_graph_fresh, of _ executor_new]
  have "\<nexists>fuel r. execute fuel (\<lambda>k. if k = 0 then Closure_Threw else Closure_Returned kCompleted) executor_new ?g = Inr r"
    using E [of "\<lambda>k. if k = 0 then Closure_Threw else Closure_Returned kCompleted"]
    by (simp add: edges succeeds_def)
  moreover have "\<exists>fuel s. execute fuel (\<lambda>k. if k = 2 then Closure_Threw else Closure_Returned kCompleted)
      executor_new ?g = Inr (Status_Ok, s) \<and> status_of (xs_graph s) 2 = Some kFailed"
    using E [of "\<lambda>k. if k = 2 then Closure_Threw else Closure_Returned kCompleted"]
    by (fastforce simp: edges succeeds_def final_status_def)
  ultimately show ?thesis by blast
qed

text \<open>
  Executing a graph again does not return: once every task of a non-empty valid graph has left
  the pending state no round runs anything, while the counter of completed tasks starts over.
\<close>

theorem execute_again_never_returns:
  assumes "is_valid g" and "umap_ok (tg_tasks g)" and "tg_tasks g \<noteq> []"
    and "\<forall>k \<in> task_ids g. status_of g k \<noteq> Some kPending"
  shows "execute fuel outcome ex g = Inl Out_Of_Fuel"
proof -
  have "set (get_ready_tasks g) = {}" unfolding get_ready_tasks_set [OF assms(2)] using assms(4) by blast
  then have "get_ready_tasks g = []" by simp
  then have round: "process_ready_tasks outcome (execute_from ex g) = execute_from ex g"
    by (simp add: process_ready_tasks_def execute_from_def)
  have "execute_loop fuel outcome (execute_from ex g) = Inl Out_Of_Fuel"
  proof (induction fuel)
    case 0
    show ?case using assms(3)
      by (simp add: execute_loop.simps [of 0] execute_from_def all_complete_def executor_reset_def num_tasks_def)
  next
    case (Suc fuel)
    have "\<not> (all_complete (xs_ex (execute_from ex g)) (xs_graph (execute_from ex g)) \<or>
        ex_cancelled (xs_ex (execute_from ex g)))"
      using assms(3) by (simp add: execute_from_def all_complete_def executor_reset_def num_tasks_def)
    with Suc round show ?case by (subst execute_loop.simps) simp
  qed
  with assms(1) show ?thesis by (simp add: execute_def Let_def)
qed

lemma execute_again_never_returns_witness:
  "execute 7 (\<lambda>_. Closure_Returned kCompleted) executor_new (sample_graph kCompleted) = Inl Out_Of_Fuel"
  by (rule execute_again_never_returns [OF sample_graph_valid])
    (auto simp: sample_graph_def Let_def status_of_def get_task_def)

end
