(* ===== verification/Graph_Parallel.thy ===== *)
theory Graph_Parallel
  imports Graph_Executor
begin

text \<open>
  \<open>GraphExecutor::execute\<close> with a thread pool: the calling thread scans the map of tasks for ready
  ones, task by task, and enqueues those it has not enqueued before, while workers take closures
  from the pool's queue, run them, and report under the mutex. Tasks change status at any moment
  between two steps of the scan. The scan of one task reads its status and those of its
  dependencies in one step: none of the statuses it waits for is ever taken back.
\<close>

section \<open>Threads\<close>

datatype phase =
    Check
  | Scan "task_id list" "task_id list"
  | Launch "task_id list"
  | Done

record par_state =
  ps_ex :: Executor
  ps_graph :: TaskGraph
  ps_phase :: phase
  ps_queue :: "task_id list"
  ps_busy :: "task_id list"
  ps_ran :: "task_id list"
  ps_started :: "task_id list"

text \<open>\<open>ps_busy\<close>: inside \<open>task->execute()\<close>; \<open>ps_ran\<close>: status stored, \<open>mark_completed\<close> still to come.\<close>

definition par_start :: "Executor \<Rightarrow> TaskGraph \<Rightarrow> par_state" where
  "par_start ex g = \<lparr>ps_ex = executor_reset ex, ps_graph = g, ps_phase = Check, ps_queue = [],
     ps_busy = [], ps_ran = [], ps_started = []\<rparr>"

definition is_ready :: "TaskGraph \<Rightarrow> task_id \<Rightarrow> bool" where
  "is_ready g k \<longleftrightarrow> status_of g k = Some kPending \<and> deps_complete g (get_dependencies g k)"

definition caller_step :: "par_state \<Rightarrow> par_state" where
  "caller_step s =
     (case ps_phase s of
        Check \<Rightarrow>
          if all_complete (ps_ex s) (ps_graph s) \<or> ex_cancelled (ps_ex s)
          then s\<lparr>ps_phase := Done\<rparr>
          else s\<lparr>ps_phase := Scan (map fst (tg_tasks (ps_graph s))) []\<rparr>
      | Scan [] ready \<Rightarrow> s\<lparr>ps_phase := Launch ready\<rparr>
      | Scan (k # ks) ready \<Rightarrow>
          s\<lparr>ps_phase := Scan ks (if is_ready (ps_graph s) k then ready @ [k] else ready)\<rparr>
      | Launch [] \<Rightarrow> s\<lparr>ps_phase := Check\<rparr>
      | Launch (k # ks) \<Rightarrow>
          if ex_cancelled (ps_ex s) then s\<lparr>ps_phase := Check\<rparr>
          else if get_task (ps_graph s) k = None \<or> k \<in> ex_running (ps_ex s) \<or> k \<in> ex_completed (ps_ex s)
          then s\<lparr>ps_phase := Launch ks\<rparr>
          else s\<lparr>ps_phase := Launch ks, ps_ex := claim_task k (ps_ex s), ps_queue := ps_queue s @ [k]\<rparr>
      | Done \<Rightarrow> s)"

inductive par_step :: "par_state \<Rightarrow> par_state \<Rightarrow> bool" where
  caller: "par_step s (caller_step s)"
| worker_takes: "ps_queue s = k # ks \<Longrightarrow>
    par_step s (s\<lparr>ps_queue := ks, ps_busy := k # ps_busy s, ps_started := ps_started s @ [k]\<rparr>)"
| worker_runs: "k \<in> set (ps_busy s) \<Longrightarrow>
    par_step s (s\<lparr>ps_graph := run_task r k (ps_graph s), ps_busy := remove1 k (ps_busy s),
      ps_ran := k # ps_ran s\<rparr>)"
| worker_reports: "k \<in> set (ps_ran s) \<Longrightarrow>
    par_step s (s\<lparr>ps_ex := mark_completed k (ps_ex s), ps_ran := remove1 k (ps_ran s)\<rparr>)"
| cancelled: "par_step s (s\<lparr>ps_ex := executor_cancel (ps_ex s)\<rparr>)"

inductive par_reach :: "Executor \<Rightarrow> TaskGraph \<Rightarrow> par_state \<Rightarrow> bool" for ex g where
  start: "par_reach ex g (par_start ex g)"
| step: "par_reach ex g s \<Longrightarrow> par_step s s' \<Longrightarrow> par_reach ex g s'"

section \<open>The invariant\<close>

text \<open>The tasks the caller is about to launch or collect; every task it knows of is ready or taken.\<close>

definition candidates :: "phase \<Rightarrow> task_id list" where
  "candidates p = (case p of Scan ks ready \<Rightarrow> ready | Launch ks \<Rightarrow> ks | _ \<Rightarrow> [])"

definition deps_done :: "TaskGraph \<Rightarrow> TaskGraph \<Rightarrow> task_id \<Rightarrow> bool" where
  "deps_done g0 g k \<longleftrightarrow> k \<in> task_ids g0 \<and> (\<forall>d \<in> preds g0 k. status_of g d = Some kCompleted)"

definition taken :: "par_state \<Rightarrow> task_id list" where
  "taken s = ps_queue s @ ps_busy s @ ps_ran s"

definition stored_status :: "par_state \<Rightarrow> task_id \<Rightarrow> bool" where
  "stored_status s k \<longleftrightarrow>
     (if k \<in> set (ps_ran s) \<union> ex_completed (ps_ex s)
      then status_of (ps_graph s) k = Some kCompleted \<or> status_of (ps_graph s) k = Some kFailed
      else status_of (ps_graph s) k = Some kPending)"

definition graph_part :: "TaskGraph \<Rightarrow> par_state \<Rightarrow> bool" where
  "graph_part g0 s \<longleftrightarrow>
     tg_rev (ps_graph s) = tg_rev g0 \<and> map fst (tg_tasks (ps_graph s)) = map fst (tg_tasks g0) \<and>
     (\<forall>k. k \<in> task_ids g0 \<longrightarrow> stored_status s k)"

definition pool_part :: "TaskGraph \<Rightarrow> par_state \<Rightarrow> bool" where
  "pool_part g0 s \<longleftrightarrow> distinct (taken s) \<and> set (taken s) = ex_running (ps_ex s) \<and>
     ex_running (ps_ex s) \<inter> ex_completed (ps_ex s) = {} \<and>
     ex_running (ps_ex s) \<union> ex_completed (ps_ex s) \<subseteq> task_ids g0 \<and>
     finite (ex_completed (ps_ex s)) \<and> ex_ncompleted (ps_ex s) = card (ex_completed (ps_ex s)) \<and>
     distinct (ps_started s) \<and>
     set (ps_started s) = set (ps_busy s) \<union> set (ps_ran s) \<union> ex_completed (ps_ex s)"

definition order_part :: "TaskGraph \<Rightarrow> par_state \<Rightarrow> bool" where
  "order_part g0 s \<longleftrightarrow>
     (\<forall>k \<in> set (candidates (ps_phase s)) \<union> ex_running (ps_ex s) \<union> ex_completed (ps_ex s).
        deps_done g0 (ps_graph s) k) \<and>
     (\<forall>i < length (ps_started s). preds g0 (ps_started s ! i) \<subseteq> set (take i (ps_started s)))"

definition exit_part :: "TaskGraph \<Rightarrow> par_state \<Rightarrow> bool" where
  "exit_part g0 s \<longleftrightarrow> (ps_phase s = Done \<and> \<not> ex_cancelled (ps_ex s) \<longrightarrow>
     ex_completed (ps_ex s) = task_ids g0)"

definition par_inv :: "TaskGraph \<Rightarrow> par_state \<Rightarrow> bool" where
  "par_inv g0 s \<longleftrightarrow> graph_part g0 s \<and> pool_part g0 s \<and> order_part g0 s \<and> exit_part g0 s"

lemma par_start_inv: "fresh_graph g0 \<Longrightarrow> par_inv g0 (par_start ex g0)"
  by (auto simp: par_inv_def graph_part_def pool_part_def order_part_def exit_part_def par_start_def
      taken_def candidates_def executor_reset_def fresh_graph_def stored_status_def)

lemma par_known_preds:
  "fresh_graph g0 \<Longrightarrow> preds g0 k \<subseteq> task_ids g0"
  using is_valid_edges [of g0]
  by (auto simp: preds_def get_dependencies_def graph_rev_edge fresh_graph_def)

lemma graph_part_keys: "graph_part g0 s \<Longrightarrow> task_ids (ps_graph s) = task_ids g0"
  by (intro task_ids_eq) (simp add: graph_part_def)

text \<open>Completed dependencies have been started.\<close>

lemma completed_started:
  assumes "par_inv g0 s" and "k \<in> task_ids g0" and "status_of (ps_graph s) k = Some kCompleted"
  shows "k \<in> set (ps_started s)"
proof (cases "k \<in> set (ps_ran s) \<union> ex_completed (ps_ex s)")
  case True
  with assms(1) show ?thesis by (auto simp: par_inv_def pool_part_def)
next
  case False
  moreover have "stored_status s k" using assms(1,2) unfolding par_inv_def graph_part_def by blast
  ultimately have "status_of (ps_graph s) k = Some kPending" by (simp add: stored_status_def)
  with assms(3) show ?thesis by simp
qed

lemma phase_parts [simp]:
  "graph_part g0 (s\<lparr>ps_phase := p\<rparr>) = graph_part g0 s"
  "pool_part g0 (s\<lparr>ps_phase := p\<rparr>) = pool_part g0 s"
  by (simp_all add: graph_part_def pool_part_def taken_def stored_status_def)

text \<open>A step of the caller that changes its phase only.\<close>

lemma phase_step:
  assumes inv: "par_inv g0 s"
    and "\<forall>k \<in> set (candidates p). k \<in> set (candidates (ps_phase s)) \<or> deps_done g0 (ps_graph s) k"
    and "p = Done \<Longrightarrow> \<not> ex_cancelled (ps_ex s) \<Longrightarrow> ex_completed (ps_ex s) = task_ids g0"
  shows "par_inv g0 (s\<lparr>ps_phase := p\<rparr>)"
proof -
  have "order_part g0 (s\<lparr>ps_phase := p\<rparr>)"
    using inv assms(2) by (auto simp: par_inv_def order_part_def)
  moreover have "exit_part g0 (s\<lparr>ps_phase := p\<rparr>)" using assms(3) by (simp add: exit_part_def)
  ultimately show ?thesis using inv by (simp add: par_inv_def)
qed

lemma candidates_simps [simp]:
  "candidates Check = []" "candidates Done = []" "candidates (Scan ks ready) = ready"
  "candidates (Launch ks) = ks"
  by (simp_all add: candidates_def)

lemma ready_deps_done:
  assumes "par_inv g0 s" and "is_ready (ps_graph s) k"
  shows "deps_done g0 (ps_graph s) k"
proof -
  have "k \<in> task_ids (ps_graph s)"
    using assms(2) get_task_None [of "ps_graph s" k] by (auto simp: is_ready_def status_of_def)
  moreover have "task_ids (ps_graph s) = task_ids g0"
    using assms(1) by (intro graph_part_keys) (simp add: par_inv_def)
  moreover have "preds (ps_graph s) k = preds g0 k"
    using assms(1) by (simp add: preds_def get_dependencies_def par_inv_def graph_part_def)
  ultimately show ?thesis
    using assms(2) unfolding deps_done_def is_ready_def deps_complete_iff preds_def by simp
qed

lemma all_complete_ids:
  assumes fresh: "fresh_graph g0" and inv: "par_inv g0 s" and "all_complete (ps_ex s) (ps_graph s)"
  shows "ex_completed (ps_ex s) = task_ids g0"
proof -
  have "length (map fst (tg_tasks (ps_graph s))) = length (map fst (tg_tasks g0))"
    using inv by (simp only: par_inv_def graph_part_def)
  then have "card (ex_completed (ps_ex s)) = card (task_ids g0)"
    using assms(3) inv fresh distinct_card [of "map fst (tg_tasks g0)"]
    by (simp add: all_complete_def num_tasks_def par_inv_def pool_part_def fresh_graph_def graph_ok_def)
  then show ?thesis
    using inv by (intro card_subset_eq) (auto simp: par_inv_def pool_part_def)
qed

lemma launch_ok:
  assumes inv: "par_inv g0 s" and phase: "ps_phase s = Launch (k # ks)"
    and new: "k \<notin> ex_running (ps_ex s)" "k \<notin> ex_completed (ps_ex s)"
  shows "par_inv g0 (s\<lparr>ps_phase := Launch ks, ps_ex := claim_task k (ps_ex s), ps_queue := ps_queue s @ [k]\<rparr>)"
    (is "par_inv g0 ?s")
proof -
  have k: "deps_done g0 (ps_graph s) k"
    using inv phase by (simp add: par_inv_def order_part_def)
  then have "pool_part g0 ?s"
    using inv new unfolding par_inv_def pool_part_def taken_def deps_done_def
    by (auto simp: claim_task_def)
  moreover have "graph_part g0 ?s" using inv by (simp add: par_inv_def graph_part_def stored_status_def claim_task_def)
  moreover have "order_part g0 ?s"
    using inv phase k by (auto simp: par_inv_def order_part_def claim_task_def)
  moreover have "exit_part g0 ?s" by (simp add: exit_part_def)
  ultimately show ?thesis by (simp add: par_inv_def)
qed

lemma caller_step_ok:
  assumes fresh: "fresh_graph g0" and inv: "par_inv g0 s"
  shows "par_inv g0 (caller_step s)"
proof (cases "ps_phase s")
  case Check
  with phase_step [OF inv, of Done] phase_step [OF inv, of "Scan (map fst (tg_tasks (ps_graph s))) []"]
    all_complete_ids [OF fresh inv]
  show ?thesis by (auto simp: caller_step_def)
next
  case (Scan ks ready)
  show ?thesis
  proof (cases ks)
    case Nil
    with Scan phase_step [OF inv, of "Launch ready"] show ?thesis by (simp add: caller_step_def)
  next
    case (Cons k ks')
    with Scan phase_step [OF inv, of "Scan ks' ready"] phase_step [OF inv, of "Scan ks' (ready @ [k])"]
      ready_deps_done [OF inv, of k]
    show ?thesis by (auto simp: caller_step_def)
  qed
next
  case (Launch ks)
  show ?thesis
  proof (cases ks)
    case Nil
    with Launch phase_step [OF inv, of Check] show ?thesis by (simp add: caller_step_def)
  next
    case (Cons k ks')
    with Launch phase_step [OF inv, of Check] phase_step [OF inv, of "Launch ks'"]
      launch_ok [OF inv, of k ks']
    show ?thesis by (auto simp: caller_step_def)
  qed
next
  case Done
  with inv show ?thesis by (simp add: caller_step_def)
qed

section \<open>Steps of the workers\<close>

lemma deps_done_mono:
  assumes "deps_done g0 g k" and "\<And>d. status_of g d = Some kCompleted \<Longrightarrow> status_of g' d = Some kCompleted"
  shows "deps_done g0 g' k"
  using assms by (simp add: deps_done_def)

lemma worker_takes_ok:
  assumes fresh: "fresh_graph g0" and inv: "par_inv g0 s" and q: "ps_queue s = k # ks"
  shows "par_inv g0 (s\<lparr>ps_queue := ks, ps_busy := k # ps_busy s, ps_started := ps_started s @ [k]\<rparr>)"
    (is "par_inv g0 ?s")
proof -
  have run: "k \<in> ex_running (ps_ex s)" "k \<notin> ex_completed (ps_ex s)" "k \<notin> set (ps_started s)"
    using inv q by (auto simp: par_inv_def pool_part_def taken_def)
  then have k: "deps_done g0 (ps_graph s) k" using inv by (simp add: par_inv_def order_part_def)
  have "preds g0 k \<subseteq> set (ps_started s)"
  proof
    fix d assume d: "d \<in> preds g0 k"
    with par_known_preds [OF fresh] have "d \<in> task_ids g0" by blast
    with completed_started [OF inv] k d show "d \<in> set (ps_started s)" by (simp add: deps_done_def)
  qed
  then have "order_part g0 ?s"
    using inv by (auto simp: par_inv_def order_part_def nth_append less_Suc_eq)
  moreover have "pool_part g0 ?s"
    using inv q run unfolding par_inv_def pool_part_def taken_def by auto
  moreover have "graph_part g0 ?s" "exit_part g0 ?s"
    using inv by (simp_all add: par_inv_def graph_part_def stored_status_def exit_part_def)
  ultimately show ?thesis by (simp add: par_inv_def)
qed

lemma worker_runs_ok:
  assumes inv: "par_inv g0 s" and k: "k \<in> set (ps_busy s)"
  shows "par_inv g0 (s\<lparr>ps_graph := run_task r k (ps_graph s), ps_busy := remove1 k (ps_busy s),
      ps_ran := k # ps_ran s\<rparr>)" (is "par_inv g0 ?s")
proof -
  have pool: "k \<notin> set (ps_ran s)" "k \<in> ex_running (ps_ex s)" "k \<notin> ex_completed (ps_ex s)"
    "distinct (ps_busy s)" "k \<in> task_ids g0"
    using inv k unfolding par_inv_def pool_part_def taken_def by auto
  have keys: "task_ids (ps_graph s) = task_ids g0"
    using inv by (intro graph_part_keys) (simp add: par_inv_def)
  have status: "status_of (run_task r k (ps_graph s)) j =
      (if j = k then Some (if r = Closure_Returned kCompleted then kCompleted else kFailed)
       else status_of (ps_graph s) j)" for j
    using pool(5) keys by (simp add: status_run_task get_task_None)
  have stored: "stored_status s j" if "j \<in> task_ids g0" for j
    using inv that unfolding par_inv_def graph_part_def by blast
  then have old: "status_of (ps_graph s) k = Some kPending"
    using pool(1,3,5) by (simp add: stored_status_def)
  have mono: "deps_done g0 (run_task r k (ps_graph s)) j" if "deps_done g0 (ps_graph s) j" for j
    by (rule deps_done_mono [OF that]) (auto simp: status old)
  have "stored_status ?s j" if "j \<in> task_ids g0" for j
    using stored [OF that] pool(1,3) by (auto simp: stored_status_def status)
  then have "graph_part g0 ?s"
    using inv unfolding par_inv_def graph_part_def by (simp add: run_task_keys)
  moreover have "pool_part g0 ?s"
    using inv k pool unfolding par_inv_def pool_part_def taken_def by auto
  moreover have "order_part g0 ?s"
    using inv mono by (auto simp: par_inv_def order_part_def)
  moreover have "exit_part g0 ?s" using inv by (simp add: par_inv_def exit_part_def)
  ultimately show ?thesis by (simp add: par_inv_def)
qed

lemma worker_reports_ok:
  assumes inv: "par_inv g0 s" and k: "k \<in> set (ps_ran s)"
  shows "par_inv g0 (s\<lparr>ps_ex := mark_completed k (ps_ex s), ps_ran := remove1 k (ps_ran s)\<rparr>)"
    (is "par_inv g0 ?s")
proof -
  have pool: "k \<in> ex_running (ps_ex s)" "k \<notin> ex_completed (ps_ex s)" "distinct (ps_ran s)"
    "k \<notin> set (ps_queue s)" "k \<notin> set (ps_busy s)" "k \<in> task_ids g0"
    using inv k unfolding par_inv_def pool_part_def taken_def by auto
  have "graph_part g0 ?s"
    using inv k pool(3) unfolding par_inv_def graph_part_def
    by (auto simp: mark_completed_def stored_status_def)
  moreover have "pool_part g0 ?s"
    using inv k pool unfolding par_inv_def pool_part_def taken_def
    by (auto simp: mark_completed_def)
  moreover have "order_part g0 ?s"
    using inv pool(1) by (auto simp: par_inv_def order_part_def mark_completed_def)
  moreover have "exit_part g0 ?s"
    using inv pool(2,6) by (auto simp: par_inv_def exit_part_def mark_completed_def)
  ultimately show ?thesis by (simp add: par_inv_def)
qed

lemma cancelled_ok:
  assumes inv: "par_inv g0 s"
  shows "par_inv g0 (s\<lparr>ps_ex := executor_cancel (ps_ex s)\<rparr>)"
  using inv by (simp add: par_inv_def graph_part_def pool_part_def order_part_def exit_part_def
      executor_cancel_def taken_def stored_status_def)

lemma par_step_ok: "fresh_graph g0 \<Longrightarrow> par_inv g0 s \<Longrightarrow> par_step s s' \<Longrightarrow> par_inv g0 s'"
  by (erule par_step.cases)
    (simp_all add: caller_step_ok worker_takes_ok worker_runs_ok worker_reports_ok cancelled_ok)

lemma par_reach_inv: "par_reach ex g s \<Longrightarrow> fresh_graph g \<Longrightarrow> par_inv g s"
  by (induction rule: par_reach.induct) (auto intro: par_start_inv par_step_ok)

text \<open>A schedule gives each step: the caller, or a worker that takes a closure, runs one to its outcome, or reports.\<close>

datatype par_turn = Caller | Takes | Runs closure_outcome task_id | Reports task_id

fun par_turn_step :: "par_turn \<Rightarrow> par_state \<Rightarrow> par_state option" where
  "par_turn_step Caller s = Some (caller_step s)"
| "par_turn_step Takes s = (case ps_queue s of [] \<Rightarrow> None
     | k # ks \<Rightarrow> Some (s\<lparr>ps_queue := ks, ps_busy := k # ps_busy s, ps_started := ps_started s @ [k]\<rparr>))"
| "par_turn_step (Runs r k) s = (if k \<in> set (ps_busy s)
     then Some (s\<lparr>ps_graph := run_task r k (ps_graph s), ps_busy := remove1 k (ps_busy s), ps_ran := k # ps_ran s\<rparr>) else None)"
| "par_turn_step (Reports k) s = (if k \<in> set (ps_ran s)
     then Some (s\<lparr>ps_ex := mark_completed k (ps_ex s), ps_ran := remove1 k (ps_ran s)\<rparr>) else None)"

fun par_play :: "par_turn list \<Rightarrow> par_state \<Rightarrow> par_state option" where
  "par_play [] s = Some s"
| "par_play (t # ts) s = (case par_turn_step t s of None \<Rightarrow> None | Some s' \<Rightarrow> par_play ts s')"

lemma par_turn_is_step: "par_turn_step t s = Some s' \<Longrightarrow> par_step s s'"
  by (cases t) (auto intro: par_step.intros split: list.splits if_splits)

lemma par_play_reach: "par_reach ex g s \<Longrightarrow> par_play ts s = Some s' \<Longrightarrow> par_reach ex g s'"
  by (induction ts arbitrary: s) (auto split: option.splits dest: par_turn_is_step intro: par_reach.step)

text \<open>
  The three tasks of the sample graph in a run to the end: a round of the caller is seven steps, and the second
  one comes between the end of the first task and its report.
\<close>

definition sample_run :: "par_turn list" where
  "sample_run = replicate 7 Caller @ [Takes, Runs (Closure_Returned kCompleted) 0] @ replicate 7 Caller @
     [Reports 0, Takes, Runs (Closure_Returned kCompleted) 1, Reports 1] @ replicate 7 Caller @
     [Takes, Runs (Closure_Returned kCompleted) 2, Reports 2, Caller]"

lemma sample_run_result:
  "case par_play sample_run (par_start executor_new (sample_graph kPending)) of
     Some s \<Rightarrow> ps_phase s = Done \<and> \<not> ex_cancelled (ps_ex s) | None \<Rightarrow> False"
  by code_simp

text \<open>
  C17: with a thread pool, however the caller, any number of workers and a cancellation interleave,
  no task is started twice, a task is started only after all its dependencies were started and have
  completed successfully, the executor's counter is the number of distinct tasks reported, and if
  \<open>execute\<close> leaves its loop without being cancelled, then every task of the graph has run to its end
  and none is queued or running.
\<close>

theorem parallel_execution_safe:
  assumes "fresh_graph g" and "par_reach ex g s"
  shows "distinct (ps_started s) \<and> set (ps_started s) \<subseteq> task_ids g \<and>
    (\<forall>i < length (ps_started s). preds g (ps_started s ! i) \<subseteq> set (take i (ps_started s)) \<and>
       (\<forall>d \<in> preds g (ps_started s ! i). status_of (ps_graph s) d = Some kCompleted)) \<and>
    ex_ncompleted (ps_ex s) = card (ex_completed (ps_ex s)) \<and>
    (ps_phase s = Done \<and> \<not> ex_cancelled (ps_ex s) \<longrightarrow>
       set (ps_started s) = task_ids g \<and> ps_queue s = [] \<and> ps_busy s = [] \<and> ps_ran s = [])"
proof -
  note inv = par_reach_inv [OF assms(2,1)]
  have known: "set (ps_started s) \<subseteq> ex_running (ps_ex s) \<union> ex_completed (ps_ex s)"
    "ex_running (ps_ex s) \<union> ex_completed (ps_ex s) \<subseteq> task_ids g"
    using inv unfolding par_inv_def pool_part_def taken_def by auto
  have completed: "\<forall>d \<in> preds g (ps_started s ! i). status_of (ps_graph s) d = Some kCompleted"
    if "i < length (ps_started s)" for i
  proof -
    have "ps_started s ! i \<in> ex_running (ps_ex s) \<union> ex_completed (ps_ex s)"
      using known(1) nth_mem [OF that] by blast
    then have "deps_done g (ps_graph s) (ps_started s ! i)"
      using inv by (auto simp: par_inv_def order_part_def)
    then show ?thesis by (simp add: deps_done_def)
  qed
  have all: "set (ps_started s) = task_ids g \<and> ps_queue s = [] \<and> ps_busy s = [] \<and> ps_ran s = []"
    if "ps_phase s = Done \<and> \<not> ex_cancelled (ps_ex s)"
  proof -
    have "ex_completed (ps_ex s) = task_ids g" using inv that by (simp add: par_inv_def exit_part_def)
    moreover from this have "ex_running (ps_ex s) = {}"
      using inv known(2) unfolding par_inv_def pool_part_def by blast
    ultimately show ?thesis using inv by (simp add: par_inv_def pool_part_def taken_def)
  qed
  have rest: "distinct (ps_started s)" "ex_ncompleted (ps_ex s) = card (ex_completed (ps_ex s))"
    "\<forall>i < length (ps_started s). preds g (ps_started s ! i) \<subseteq> set (take i (ps_started s))"
    using inv unfolding par_inv_def pool_part_def order_part_def by blast+
  have deps: "\<forall>i < length (ps_started s). preds g (ps_started s ! i) \<subseteq> set (take i (ps_started s)) \<and>
      (\<forall>d \<in> preds g (ps_started s ! i). status_of (ps_graph s) d = Some kCompleted)"
    using rest(3) completed by blast
  have sub: "set (ps_started s) \<subseteq> task_ids g" using known by blast
  show ?thesis by (rule conjI [OF rest(1) conjI [OF sub conjI [OF deps conjI [OF rest(2) impI [OF all]]]]])
qed

lemma parallel_execution_safe_witness:
  "\<exists>s. par_play sample_run (par_start executor_new (sample_graph kPending)) = Some s \<and> ps_phase s = Done \<and>
     distinct (ps_started s) \<and> set (ps_started s) = task_ids (sample_graph kPending) \<and> ps_queue s = [] \<and> ps_busy s = []"
proof -
  let ?g = "sample_graph kPending"
  obtain s where s: "par_play sample_run (par_start executor_new ?g) = Some s" "ps_phase s = Done" "\<not> ex_cancelled (ps_ex s)"
    using sample_run_result by (auto split: option.splits)
  from parallel_execution_safe [OF sample_graph_fresh par_play_reach [OF par_reach.start s(1)]] s show ?thesis by blast
qed

end
