(* ===== verification/Block_Heap.thy ===== *)
theory Block_Heap
  imports Prelude
begin

text \<open>
  What the memory pools of \<open>memory/memory_pool.hpp\<close> and \<open>bridges/pool_bridge.cpp\<close> stand on: the
  C++ heap, the intrusive free list \<open>LockFreeStack\<close> run without interference, and the contract of a
  block allocator, as a locale, with what any client may rely on. The heap records the regions
  handed out by \<open>operator new[]\<close> and the pointer stored at the beginning of each block; an access
  outside the regions is undefined behaviour. \<open>operator new[]\<close> itself is a parameter.
\<close>

section \<open>Heap\<close>

record heap =
  h_next :: "ptr \<Rightarrow> ptr"
  h_regions :: "(ptr \<times> nat) list"

type_synonym new_oracle = "(ptr \<times> nat) list \<Rightarrow> nat \<Rightarrow> ptr option"

text \<open>What the standard says of \<open>operator new[]\<close>: a new region never overlaps one in use.\<close>

definition fresh_new :: "new_oracle \<Rightarrow> bool" where
  "fresh_new new \<longleftrightarrow> (\<forall>regions n a. new regions n = Some a \<longrightarrow>
     0 < a \<and> a \<notin> fst ` set regions \<and> (\<forall>(b, m) \<in> set regions. a + n \<le> b \<or> b + m \<le> a))"

definition operator_new :: "new_oracle \<Rightarrow> size_t \<Rightarrow> heap \<Rightarrow> (ptr \<times> heap) comp" where
  "operator_new new bytes h =
     (case new (h_regions h) (unat bytes) of
        None \<Rightarrow> Inl Bad_Alloc
      | Some a \<Rightarrow> Inr (a, h\<lparr>h_regions := (a, unat bytes) # h_regions h\<rparr>))"

definition pointer_size :: nat where "pointer_size = 8"

definition accessible :: "heap \<Rightarrow> ptr \<Rightarrow> bool" where
  "accessible h p = list_ex (\<lambda>(a, n). a \<le> p \<and> p + pointer_size \<le> a + n) (h_regions h)"

definition load_next :: "ptr \<Rightarrow> heap \<Rightarrow> ptr comp" where
  "load_next p h =
     (if p = nullptr then Inl Null_Deref else if accessible h p then Inr (h_next h p) else Inl Out_Of_Bounds)"

definition store_next :: "ptr \<Rightarrow> ptr \<Rightarrow> heap \<Rightarrow> heap comp" where
  "store_next p v h =
     (if p = nullptr then Inl Null_Deref
      else if accessible h p then Inr (h\<lparr>h_next := (h_next h)(p := v)\<rparr>) else Inl Out_Of_Bounds)"

text \<open>An allocator that never reuses an address, for concrete runs.\<close>

definition bump_new :: new_oracle where
  "bump_new regions n = Some (sum_list (map (\<lambda>(a, m). a + m + 16) regions) + 16)"

lemma bump_new_fresh: "fresh_new bump_new"
proof -
  have le: "a + m + 16 \<le> sum_list (map (\<lambda>(a, m). a + m + 16) rs)" if "(a, m) \<in> set rs" for a m :: nat and rs
    using that member_le_sum_list [of "a + m + 16" "map (\<lambda>(a, m). a + m + 16) rs"] by force
  show ?thesis
    unfolding fresh_new_def bump_new_def by (force dest!: le)
qed

section \<open>The free list\<close>

text \<open>\<open>Push\<close> and \<open>Pop\<close> without interference; the first result is the new \<open>head_\<close>.\<close>

definition lf_Push :: "ptr \<Rightarrow> ptr \<times> heap \<Rightarrow> (ptr \<times> heap) comp" where
  "lf_Push p = (\<lambda>(head, h). rbind (store_next p head h) (\<lambda>h'. Inr (p, h')))"

definition lf_Pop :: "ptr \<times> heap \<Rightarrow> (ptr \<times> ptr \<times> heap) comp" where
  "lf_Pop = (\<lambda>(head, h).
     if head = nullptr then Inr (nullptr, head, h)
     else rbind (load_next head h) (\<lambda>next. Inr (head, next, h)))"

definition lf_Empty :: "ptr \<Rightarrow> bool" where
  "lf_Empty head = (head = nullptr)"

fun chain :: "(ptr \<Rightarrow> ptr) \<Rightarrow> ptr \<Rightarrow> ptr list \<Rightarrow> bool" where
  "chain nx p [] \<longleftrightarrow> p = nullptr"
| "chain nx p (x # xs) \<longleftrightarrow> p = x \<and> x \<noteq> nullptr \<and> chain nx (nx x) xs"

lemma chain_unique: "chain nx p xs \<Longrightarrow> chain nx p ys \<Longrightarrow> xs = ys"
proof (induction xs arbitrary: p ys)
  case Nil
  then show ?case by (cases ys) auto
next
  case (Cons x xs)
  then show ?case by (cases ys) auto
qed

lemma chain_upd: "b \<notin> set xs \<Longrightarrow> chain (nx(b := v)) p xs \<longleftrightarrow> chain nx p xs"
  by (induction xs arbitrary: p) auto

lemma chain_nonnull: "chain nx p xs \<Longrightarrow> nullptr \<notin> set xs"
  by (induction xs arbitrary: p) auto

text \<open>The list is read off the heap by following at most \<open>n\<close> pointers.\<close>

fun walk :: "nat \<Rightarrow> (ptr \<Rightarrow> ptr) \<Rightarrow> ptr \<Rightarrow> ptr list" where
  "walk 0 nx p = []"
| "walk (Suc n) nx p = (if p = nullptr then [] else p # walk n nx (nx p))"

lemma walk_chain: "chain nx p xs \<Longrightarrow> length xs \<le> n \<Longrightarrow> walk n nx p = xs"
proof (induction n arbitrary: p xs)
  case (Suc n)
  then show ?case by (cases xs) auto
qed simp

section \<open>The contract of a block allocator\<close>

text \<open>
  \<open>live\<close>: the blocks handed out and not given back. A client may write into those and into nothing
  else. The argument of \<open>alloc\<close> is the request, a size or
  nothing; it may return the null pointer, or end with the exception of \<open>operator new\<close>.
\<close>

locale block_allocator =
  fixes inv :: "'s \<Rightarrow> bool"
    and live :: "'s \<Rightarrow> ptr set"
    and alloc :: "'r \<Rightarrow> 's \<Rightarrow> (ptr \<times> 's) comp"
    and free :: "ptr \<Rightarrow> 's \<Rightarrow> 's comp"
    and scribble :: "ptr \<Rightarrow> ptr \<Rightarrow> 's \<Rightarrow> 's comp"
  assumes live_nonnull: "inv s \<Longrightarrow> nullptr \<notin> live s"
    and alloc_ok: "inv s \<Longrightarrow> alloc r s = Inl Bad_Alloc \<or> (\<exists>p s'. alloc r s = Inr (p, s') \<and> inv s' \<and>
      (if p = nullptr then live s' = live s else p \<notin> live s \<and> live s' = insert p (live s)))"
    and free_ok: "inv s \<Longrightarrow> p \<in> live s \<Longrightarrow> \<exists>s'. free p s = Inr s' \<and> inv s' \<and> live s' = live s - {p}"
    and scribble_ok: "inv s \<Longrightarrow> p \<in> live s \<Longrightarrow> \<exists>s'. scribble p v s = Inr s' \<and> inv s' \<and> live s' = live s"

text \<open>An allocator that does not return the null pointer.\<close>

locale total_allocator = block_allocator +
  assumes alloc_nonnull: "inv s \<Longrightarrow> alloc r s = Inr (p, s') \<Longrightarrow> p \<noteq> nullptr"

text \<open>Clients: they allocate, give back a block they hold, write into a block they hold.\<close>

datatype 'r client_op = Get 'r | Give_Back nat | Write nat ptr

definition drop_nth :: "nat \<Rightarrow> 'a list \<Rightarrow> 'a list" where
  "drop_nth i xs = take i xs @ drop (Suc i) xs"

fun run_client :: "('r \<Rightarrow> 's \<Rightarrow> (ptr \<times> 's) comp) \<Rightarrow> (ptr \<Rightarrow> 's \<Rightarrow> 's comp) \<Rightarrow> (ptr \<Rightarrow> ptr \<Rightarrow> 's \<Rightarrow> 's comp) \<Rightarrow>
    'r client_op list \<Rightarrow> ptr list \<times> 's \<Rightarrow> (ptr list \<times> 's) comp" where
  "run_client alloc free scribble [] (held, s) = Inr (held, s)"
| "run_client alloc free scribble (Get r # ops) (held, s) =
     rbind (alloc r s) (\<lambda>(p, s'). run_client alloc free scribble ops
       (if p = nullptr then held else p # held, s'))"
| "run_client alloc free scribble (Give_Back i # ops) (held, s) =
     (if i < length held
      then rbind (free (held ! i) s) (\<lambda>s'. run_client alloc free scribble ops (drop_nth i held, s'))
      else run_client alloc free scribble ops (held, s))"
| "run_client alloc free scribble (Write i v # ops) (held, s) =
     (if i < length held
      then rbind (scribble (held ! i) v s) (\<lambda>s'. run_client alloc free scribble ops (held, s'))
      else run_client alloc free scribble ops (held, s))"

lemma set_drop_nth:
  assumes "distinct xs" and "i < length xs"
  shows "set (drop_nth i xs) = set xs - {xs ! i}" and "distinct (drop_nth i xs)"
proof -
  have split: "xs = take i xs @ xs ! i # drop (Suc i) xs" using assms(2) by (rule id_take_nth_drop)
  then have dist: "distinct (take i xs @ xs ! i # drop (Suc i) xs)" using assms(1) by metis
  have "set xs = insert (xs ! i) (set (drop_nth i xs))"
    using arg_cong [OF split, of set] unfolding drop_nth_def by simp
  moreover have "xs ! i \<notin> set (drop_nth i xs)" using dist unfolding drop_nth_def by simp
  ultimately show "set (drop_nth i xs) = set xs - {xs ! i}" by simp
  show "distinct (drop_nth i xs)" using dist unfolding drop_nth_def by simp
qed

context block_allocator
begin

text \<open>
  Whatever a client does, no block is handed out while it is held, the null pointer is never held,
  and the blocks held are exactly the live ones; the only fault is memory exhaustion.
\<close>

lemma run_client_safe:
  assumes "inv s" and "distinct held" and "set held = live s"
  shows "run_client alloc free scribble ops (held, s) = Inl Bad_Alloc \<or>
    (\<exists>held' s'. run_client alloc free scribble ops (held, s) = Inr (held', s') \<and> inv s' \<and>
       distinct held' \<and> set held' = live s' \<and> nullptr \<notin> set held')"
  using assms
proof (induction ops arbitrary: held s)
  case Nil
  then show ?case using live_nonnull by auto
next
  case (Cons op ops)
  show ?case
  proof (cases op)
    case (Get r)
    show ?thesis
    proof (cases "alloc r s = Inl Bad_Alloc")
      case False
      with alloc_ok [OF Cons.prems(1), of r] obtain p s' where p: "alloc r s = Inr (p, s')" "inv s'"
        "if p = nullptr then live s' = live s else p \<notin> live s \<and> live s' = insert p (live s)"
        by blast
      with Cons.IH [of s' "if p = nullptr then held else p # held"] Cons.prems Get
      show ?thesis by (auto split: if_splits)
    qed (simp add: Get)
  next
    case (Give_Back i)
    show ?thesis
    proof (cases "i < length held")
      case True
      then have "held ! i \<in> live s" using Cons.prems(3) nth_mem by blast
      from free_ok [OF Cons.prems(1) this] obtain s' where s': "free (held ! i) s = Inr s'" "inv s'"
        "live s' = live s - {held ! i}" by blast
      with Cons.IH [of s' "drop_nth i held"] set_drop_nth [OF Cons.prems(2) True] Cons.prems(3) True Give_Back
      show ?thesis by simp
    qed (use Cons Give_Back in simp)
  next
    case (Write i v)
    show ?thesis
    proof (cases "i < length held")
      case True
      then have "held ! i \<in> live s" using Cons.prems(3) nth_mem by blast
      from scribble_ok [OF Cons.prems(1) this] obtain s' where "scribble (held ! i) v s = Inr s'" "inv s'"
        "live s' = live s" by blast
      with Cons.IH [of s' held] Cons.prems True Write show ?thesis by simp
    qed (use Cons Write in simp)
  qed
qed

end

text \<open>A property of the run that needs no contract, only that each operation keeps it.\<close>

lemma run_client_preserves:
  assumes "run_client alloc free scribble ops (held, s) = Inr (held', s')" and "J held s"
    and alloc: "\<And>held s r q s'. J held s \<Longrightarrow> alloc r s = Inr (q, s') \<Longrightarrow>
      J (if q = nullptr then held else q # held) s'"
    and free: "\<And>held s i s'. J held s \<Longrightarrow> i < length held \<Longrightarrow> free (held ! i) s = Inr s' \<Longrightarrow> J (drop_nth i held) s'"
    and scrib: "\<And>held s i v s'. J held s \<Longrightarrow> i < length held \<Longrightarrow> scribble (held ! i) v s = Inr s' \<Longrightarrow> J held s'"
  shows "J held' s'"
  using assms(1,2)
proof (induction ops arbitrary: held s)
  case (Cons op ops)
  show ?case
  proof (cases op)
    case (Get r)
    then obtain q s1 where "alloc r s = Inr (q, s1)"
      "run_client alloc free scribble ops (if q = nullptr then held else q # held, s1) = Inr (held', s')"
      using Cons.prems(1) by (auto simp: rbind_eq_Inr)
    with alloc Cons show ?thesis by blast
  next
    case (Give_Back i)
    show ?thesis
    proof (cases "i < length held")
      case True
      then obtain s1 where "free (held ! i) s = Inr s1"
        "run_client alloc free scribble ops (drop_nth i held, s1) = Inr (held', s')"
        using Cons.prems(1) Give_Back by (auto simp: rbind_eq_Inr)
      with free True Cons show ?thesis by blast
    qed (use Cons Give_Back in simp)
  next
    case (Write i v)
    show ?thesis
    proof (cases "i < length held")
      case True
      then obtain s1 where "scribble (held ! i) v s = Inr s1"
        "run_client alloc free scribble ops (held, s1) = Inr (held', s')"
        using Cons.prems(1) Write by (auto simp: rbind_eq_Inr)
      with scrib True Cons show ?thesis by blast
    qed (use Cons Write in simp)
  qed
qed simp

lemma run_client_no_fault:
  assumes "\<And>r s. alloc r s \<noteq> Inl e" and "\<And>p s. free p s \<noteq> Inl e" and "\<And>p v s. scribble p v s \<noteq> Inl e"
  shows "run_client alloc free scribble ops s \<noteq> Inl e"
proof (induction ops arbitrary: s)
  case Nil
  then show ?case by (cases s) simp
next
  case (Cons op ops)
  then show ?case using assms by (cases s; cases op) (auto simp: rbind_eq_Inl)
qed

lemma store_next_fault: "store_next p v h \<noteq> Inl Bad_Alloc" "load_next p h \<noteq> Inl Bad_Alloc"
  by (simp_all add: store_next_def load_next_def)

lemma length_drop_nth: "i < length xs \<Longrightarrow> length (drop_nth i xs) = length xs - 1"
  by (simp add: drop_nth_def)

lemma set_drop_nth_subset: "set (drop_nth i xs) \<subseteq> set xs"
  using set_take_subset [of i xs] set_drop_subset [of "Suc i" xs] by (simp add: drop_nth_def)

end
