(* ===== verification/Block_Pool.thy ===== *)
theory Block_Pool
  imports Block_Heap
begin

text \<open>
  The parts the pools and slabs have in common - block size, blocks per chunk, chunks, free list -
  and \<open>memory::FixedSizeMemoryPool\<close>. A chunk is carved into blocks by pushing them one by one.
\<close>

section \<open>State\<close>

record BlockPool =
  bp_head :: ptr
  bp_chunks :: "ptr list"
  bp_block :: size_t
  bp_per_chunk :: size_t

text \<open>The loop \<open>for (i < n) free_list.Push(page + i * block_size)\<close>.\<close>

definition carve :: "size_t \<Rightarrow> nat \<Rightarrow> ptr \<Rightarrow> ptr \<times> heap \<Rightarrow> (ptr \<times> heap) comp" where
  "carve bs n page = for_each (\<lambda>i. lf_Push (page + unat (of_nat i * bs))) [0..<n]"

definition grow_by :: "new_oracle \<Rightarrow> size_t \<Rightarrow> 'z BlockPool_scheme \<times> heap \<Rightarrow> ('z BlockPool_scheme \<times> heap) comp" where
  "grow_by new n = (\<lambda>(p, h).
     rbind (operator_new new (bp_block p * n) h) (\<lambda>(page, h1).
     rbind (carve (bp_block p) (unat n) page (bp_head p, h1)) (\<lambda>(head, h2).
       Inr (p\<lparr>bp_chunks := bp_chunks p @ [page], bp_head := head\<rparr>, h2))))"

definition pool_Pop :: "'z BlockPool_scheme \<times> heap \<Rightarrow> (ptr \<times> 'z BlockPool_scheme \<times> heap) comp" where
  "pool_Pop = (\<lambda>(p, h). rbind (lf_Pop (bp_head p, h)) (\<lambda>(ptr, head, h'). Inr (ptr, p\<lparr>bp_head := head\<rparr>, h')))"

definition pool_Push :: "ptr \<Rightarrow> 'z BlockPool_scheme \<times> heap \<Rightarrow> ('z BlockPool_scheme \<times> heap) comp" where
  "pool_Push ptr = (\<lambda>(p, h). rbind (lf_Push ptr (bp_head p, h)) (\<lambda>(head, h'). Inr (p\<lparr>bp_head := head\<rparr>, h')))"

definition pool_write :: "ptr \<Rightarrow> ptr \<Rightarrow> 'z BlockPool_scheme \<times> heap \<Rightarrow> ('z BlockPool_scheme \<times> heap) comp" where
  "pool_write b v = (\<lambda>(p, h). rbind (store_next b v h) (\<lambda>h'. Inr (p, h')))"

section \<open>memory::FixedSizeMemoryPool\<close>

definition FixedSizeMemoryPool_new :: "size_t \<Rightarrow> size_t \<Rightarrow> BlockPool" where
  "FixedSizeMemoryPool_new block_size blocks_per_chunk =
     \<lparr>bp_head = nullptr, bp_chunks = [], bp_block = max block_size 8, bp_per_chunk = blocks_per_chunk\<rparr>"

definition fixed_Expand :: "new_oracle \<Rightarrow> 'z BlockPool_scheme \<times> heap \<Rightarrow> ('z BlockPool_scheme \<times> heap) comp" where
  "fixed_Expand new s = grow_by new (bp_per_chunk (fst s)) s"

definition fixed_Allocate :: "new_oracle \<Rightarrow> 'z BlockPool_scheme \<times> heap \<Rightarrow> (ptr \<times> 'z BlockPool_scheme \<times> heap) comp" where
  "fixed_Allocate new s =
     rbind (pool_Pop s) (\<lambda>(ptr, s1).
       if ptr = nullptr then rbind (fixed_Expand new s1) pool_Pop else Inr (ptr, s1))"

definition fixed_Deallocate :: "ptr \<Rightarrow> 'z BlockPool_scheme \<times> heap \<Rightarrow> ('z BlockPool_scheme \<times> heap) comp" where
  "fixed_Deallocate ptr s = (if ptr \<noteq> nullptr then pool_Push ptr s else Inr s)"

definition fixed_ChunkCount :: "'z BlockPool_scheme \<Rightarrow> size_t" where
  "fixed_ChunkCount p = of_nat (length (bp_chunks p))"

definition fixed_TotalAllocated :: "'z BlockPool_scheme \<Rightarrow> size_t" where
  "fixed_TotalAllocated p = fixed_ChunkCount p * bp_block p * bp_per_chunk p"

section \<open>Blocks\<close>

definition heap_ok :: "heap \<Rightarrow> bool" where
  "heap_ok h \<longleftrightarrow> umap_ok (h_regions h) \<and> (\<forall>(a, n) \<in> set (h_regions h). 0 < a) \<and>
     (\<forall>(a, n) \<in> set (h_regions h). \<forall>(b, m) \<in> set (h_regions h). a \<noteq> b \<longrightarrow> a + n \<le> b \<or> b + m \<le> a)"

definition region_size :: "heap \<Rightarrow> ptr \<Rightarrow> nat" where
  "region_size h c = (case map_of (h_regions h) c of None \<Rightarrow> 0 | Some n \<Rightarrow> n)"

definition chunk_blocks :: "heap \<Rightarrow> nat \<Rightarrow> ptr \<Rightarrow> ptr list" where
  "chunk_blocks h bs c = map (\<lambda>i. c + i * bs) [0..<region_size h c div bs]"

definition pool_blocks :: "'z BlockPool_scheme \<times> heap \<Rightarrow> ptr list" where
  "pool_blocks = (\<lambda>(p, h). concat (map (chunk_blocks h (unat (bp_block p))) (bp_chunks p)))"

definition pool_free :: "'z BlockPool_scheme \<times> heap \<Rightarrow> ptr list" where
  "pool_free = (\<lambda>(p, h). walk (length (pool_blocks (p, h))) (h_next h) (bp_head p))"

definition pool_live :: "'z BlockPool_scheme \<times> heap \<Rightarrow> ptr set" where
  "pool_live s = set (pool_blocks s) - set (pool_free s)"

definition free_list :: "'z BlockPool_scheme \<times> heap \<Rightarrow> ptr list \<Rightarrow> bool" where
  "free_list = (\<lambda>(p, h) xs. chain (h_next h) (bp_head p) xs \<and> distinct xs \<and> set xs \<subseteq> set (pool_blocks (p, h)))"

definition chunks_ok :: "'z BlockPool_scheme \<times> heap \<Rightarrow> bool" where
  "chunks_ok = (\<lambda>(p, h). heap_ok h \<and> distinct (bp_chunks p) \<and> set (bp_chunks p) \<subseteq> fst ` set (h_regions h) \<and>
     pointer_size \<le> unat (bp_block p))"

definition pool_inv :: "'z BlockPool_scheme \<times> heap \<Rightarrow> bool" where
  "pool_inv s \<longleftrightarrow> chunks_ok s \<and> (\<exists>xs. free_list s xs)"

lemma region_size_in: "heap_ok h \<Longrightarrow> (c, n) \<in> set (h_regions h) \<Longrightarrow> region_size h c = n"
  by (simp add: region_size_def heap_ok_def)

lemma in_chunk_blocks: "b \<in> set (chunk_blocks h bs c) \<longleftrightarrow> (\<exists>i < region_size h c div bs. b = c + i * bs)"
  by (auto simp: chunk_blocks_def)

lemma chunk_block_range:
  assumes "b \<in> set (chunk_blocks h bs c)"
  shows "c \<le> b" and "b + bs \<le> c + region_size h c"
proof -
  obtain i where i: "b = c + i * bs" "i < region_size h c div bs"
    using assms in_chunk_blocks by blast
  then show "c \<le> b" by simp
  have "Suc i * bs \<le> region_size h c div bs * bs" using i(2) by (intro mult_le_mono1) simp
  also have "\<dots> \<le> region_size h c" by (rule div_times_less_eq_dividend)
  finally show "b + bs \<le> c + region_size h c" using i(1) by simp
qed

lemma chunk_in_regions:
  assumes "heap_ok h" and "c \<in> fst ` set (h_regions h)"
  shows "(c, region_size h c) \<in> set (h_regions h)" and "0 < c"
  using assms region_size_in by (fastforce simp: heap_ok_def)+

text \<open>Blocks of different chunks lie in disjoint regions.\<close>

lemma blocks_apart:
  assumes "heap_ok h" and "{c, c'} \<subseteq> fst ` set (h_regions h)" and "c \<noteq> c'"
    and "b \<in> set (chunk_blocks h bs c)" and "b' \<in> set (chunk_blocks h bs' c')"
  shows "b + bs \<le> b' \<or> b' + bs' \<le> b"
proof -
  have "c + region_size h c \<le> c' \<or> c' + region_size h c' \<le> c"
  proof -
    have "\<forall>x \<in> set (h_regions h). \<forall>y \<in> set (h_regions h).
        fst x \<noteq> fst y \<longrightarrow> fst x + snd x \<le> fst y \<or> fst y + snd y \<le> fst x"
      using assms(1) by (simp add: heap_ok_def case_prod_beta)
    moreover have "(c, region_size h c) \<in> set (h_regions h)" "(c', region_size h c') \<in> set (h_regions h)"
      using chunk_in_regions(1) [OF assms(1)] assms(2) by simp_all
    ultimately show ?thesis using assms(3) by fastforce
  qed
  with chunk_block_range [OF assms(4)] chunk_block_range [OF assms(5)] show ?thesis by linarith
qed

lemma same_chunk_apart:
  assumes "b \<in> set (chunk_blocks h bs c)" and "b' \<in> set (chunk_blocks h bs c)" and "b \<noteq> b'"
  shows "b + bs \<le> b' \<or> b' + bs \<le> b"
proof -
  obtain i j where ij: "b = c + i * bs" "b' = c + j * bs"
    using assms(1,2) in_chunk_blocks by blast
  with assms(3) have "Suc i \<le> j \<or> Suc j \<le> i" by (metis Suc_leI linorder_neqE_nat)
  with mult_le_mono1 [of "Suc i" j bs] mult_le_mono1 [of "Suc j" i bs] ij show ?thesis by auto
qed

lemma block_accessible:
  assumes "heap_ok h" and "c \<in> fst ` set (h_regions h)" and "b \<in> set (chunk_blocks h bs c)"
    and "pointer_size \<le> bs"
  shows "accessible h b" and "0 < b"
  using chunk_in_regions [OF assms(1,2)] chunk_block_range [OF assms(3)] assms(4)
  by (force simp: accessible_def list_ex_iff)+

lemma in_pool_blocks:
  "b \<in> set (pool_blocks (p, h)) \<longleftrightarrow> (\<exists>c \<in> set (bp_chunks p). b \<in> set (chunk_blocks h (unat (bp_block p)) c))"
  by (auto simp: pool_blocks_def)

text \<open>No two blocks of a pool overlap.\<close>

lemma pool_blocks_apart:
  assumes "chunks_ok (p, h)" and "b \<in> set (pool_blocks (p, h))" and "b' \<in> set (pool_blocks (p, h))" and "b \<noteq> b'"
  shows "b + unat (bp_block p) \<le> b' \<or> b' + unat (bp_block p) \<le> b"
proof -
  obtain c c' where c: "c \<in> set (bp_chunks p)" "b \<in> set (chunk_blocks h (unat (bp_block p)) c)"
    "c' \<in> set (bp_chunks p)" "b' \<in> set (chunk_blocks h (unat (bp_block p)) c')"
    using assms(2,3) by (auto simp: in_pool_blocks)
  show ?thesis
  proof (cases "c = c'")
    case True
    with c(2,4) same_chunk_apart assms(4) show ?thesis by blast
  next
    case False
    with c assms(1) show ?thesis by (intro blocks_apart [of h c c']) (auto simp: chunks_ok_def)
  qed
qed

lemma pool_block_accessible:
  "chunks_ok (p, h) \<Longrightarrow> b \<in> set (pool_blocks (p, h)) \<Longrightarrow> accessible h b \<and> 0 < b"
  using block_accessible by (fastforce simp: in_pool_blocks chunks_ok_def)

lemma pool_free_eq:
  assumes "free_list s xs"
  shows "pool_free s = xs"
proof -
  obtain p h where s: "s = (p, h)" by (cases s)
  have "length xs = card (set xs)" using assms s by (simp add: free_list_def distinct_card)
  also have "\<dots> \<le> card (set (pool_blocks s))" using assms s by (intro card_mono) (auto simp: free_list_def)
  also have "\<dots> \<le> length (pool_blocks s)" by (rule card_length)
  finally show ?thesis using assms s walk_chain by (auto simp: free_list_def pool_free_def)
qed

lemma pool_inv_free: "pool_inv s \<longleftrightarrow> chunks_ok s \<and> free_list s (pool_free s)"
  using pool_free_eq [of s] by (auto simp: pool_inv_def)

section \<open>What one operation does\<close>

text \<open>A step of the heap that writes into the blocks \<open>S\<close> only and keeps the regions in use.\<close>

definition heap_step :: "heap \<Rightarrow> heap \<Rightarrow> ptr set \<Rightarrow> bool" where
  "heap_step h h' S \<longleftrightarrow> heap_ok h' \<and> (\<exists>rs. h_regions h' = rs @ h_regions h) \<and>
     (\<forall>b. b \<notin> S \<longrightarrow> h_next h' b = h_next h b)"

lemma heap_step_refl: "heap_ok h \<Longrightarrow> heap_step h h S"
  by (auto simp: heap_step_def)

lemma heap_step_trans: "heap_step h h1 S \<Longrightarrow> heap_step h1 h2 S \<Longrightarrow> heap_step h h2 S"
  by (auto simp: heap_step_def)

lemma heap_step_mono: "heap_step h h' S \<Longrightarrow> S \<subseteq> S' \<Longrightarrow> heap_step h h' S'"
  by (auto simp: heap_step_def)

lemma heap_step_region:
  assumes "heap_step h h' S" and "c \<in> fst ` set (h_regions h)"
  shows "region_size h' c = region_size h c"
proof -
  obtain rs where rs: "h_regions h' = rs @ h_regions h" "umap_ok (rs @ h_regions h)"
    using assms(1) by (auto simp: heap_step_def heap_ok_def)
  then have "c \<notin> fst ` set rs" using assms(2) by auto
  then have "map_of rs c = None" by (simp add: map_of_eq_None_iff)
  then show ?thesis by (simp add: region_size_def rs(1) map_add_def)
qed

lemma chain_cong: "\<forall>b \<in> set xs. nx' b = nx b \<Longrightarrow> chain nx' p xs \<longleftrightarrow> chain nx p xs"
  by (induction xs arbitrary: p) auto

text \<open>A pool whose blocks the step does not write keeps its blocks and its free list.\<close>

lemma pool_frame:
  assumes "heap_step h h' S" and inv: "pool_inv (p, h)" and "set (pool_blocks (p, h)) \<inter> S = {}"
  shows "pool_inv (p, h')" and "pool_blocks (p, h') = pool_blocks (p, h)"
    and "pool_free (p, h') = pool_free (p, h)" and "chunks_ok (p, h')"
proof -
  note I = inv [unfolded pool_inv_free]
  have sizes: "\<forall>c \<in> set (bp_chunks p). chunk_blocks h' (unat (bp_block p)) c = chunk_blocks h (unat (bp_block p)) c"
  proof
    fix c assume "c \<in> set (bp_chunks p)"
    then have "c \<in> fst ` set (h_regions h)" using I unfolding chunks_ok_def by auto
    from heap_step_region [OF assms(1) this]
    show "chunk_blocks h' (unat (bp_block p)) c = chunk_blocks h (unat (bp_block p)) c"
      by (simp add: chunk_blocks_def)
  qed
  show blocks: "pool_blocks (p, h') = pool_blocks (p, h)"
    using sizes by (simp add: pool_blocks_def cong: map_cong)
  have "fst ` set (h_regions h) \<subseteq> fst ` set (h_regions h')" "heap_ok h'"
    using assms(1) by (auto simp: heap_step_def)
  with I show ok: "chunks_ok (p, h')" unfolding chunks_ok_def by blast
  have "\<forall>b \<in> set (pool_free (p, h)). h_next h' b = h_next h b"
    using assms(1,3) I by (auto simp: heap_step_def free_list_def)
  then have fl: "free_list (p, h') (pool_free (p, h))"
    using I chain_cong [of "pool_free (p, h)" "h_next h'" "h_next h" "bp_head p"]
    by (simp add: free_list_def blocks)
  then show "pool_free (p, h') = pool_free (p, h)" by (rule pool_free_eq)
  show "pool_inv (p, h')" using ok fl by (auto simp: pool_inv_def)
qed

text \<open>The statement every operation below satisfies.\<close>

definition pool_effect :: "'z BlockPool_scheme \<times> heap \<Rightarrow> 'z BlockPool_scheme \<times> heap \<Rightarrow> ptr list \<Rightarrow> ptr list \<Rightarrow> bool" where
  "pool_effect s s' new free \<longleftrightarrow> pool_inv s' \<and> pool_blocks s' = pool_blocks s @ new \<and>
     pool_free s' = free \<and> heap_step (snd s) (snd s') (set (pool_blocks s')) \<and>
     (\<exists>head chunks. fst s' = fst s\<lparr>bp_head := head, bp_chunks := bp_chunks (fst s) @ chunks\<rparr> \<and>
        set chunks \<inter> fst ` set (h_regions (snd s)) = {})"

lemma pool_effectI:
  assumes "free_list (p', h') free" and "chunks_ok (p', h')" and "pool_blocks (p', h') = pool_blocks (p, h) @ new"
    and "heap_step h h' (set (pool_blocks (p', h')))" and "p' = p\<lparr>bp_head := head, bp_chunks := bp_chunks p @ chunks\<rparr>"
    and "set chunks \<inter> fst ` set (h_regions h) = {}"
  shows "pool_effect (p, h) (p', h') new free"
  unfolding pool_effect_def pool_inv_def fst_conv snd_conv using assms pool_free_eq [OF assms(1)] by blast

lemma pool_effect_trans:
  assumes e1: "pool_effect s s1 new1 free1" and e2: "pool_effect s1 s2 new2 free2"
  shows "pool_effect s s2 (new1 @ new2) free2"
proof -
  obtain head1 chunks1 where c1: "fst s1 = fst s\<lparr>bp_head := head1, bp_chunks := bp_chunks (fst s) @ chunks1\<rparr>"
    "set chunks1 \<inter> fst ` set (h_regions (snd s)) = {}"
    using e1 unfolding pool_effect_def by blast
  obtain head2 chunks2 where c2: "fst s2 = fst s1\<lparr>bp_head := head2, bp_chunks := bp_chunks (fst s1) @ chunks2\<rparr>"
    "set chunks2 \<inter> fst ` set (h_regions (snd s1)) = {}"
    using e2 unfolding pool_effect_def by blast
  have blocks: "pool_blocks s2 = (pool_blocks s @ new1) @ new2" and sub: "set (pool_blocks s1) \<subseteq> set (pool_blocks s2)"
    using e1 e2 unfolding pool_effect_def by auto
  have s1: "heap_step (snd s) (snd s1) (set (pool_blocks s2))"
    using e1 sub heap_step_mono unfolding pool_effect_def by blast
  have s2: "heap_step (snd s1) (snd s2) (set (pool_blocks s2))" using e2 unfolding pool_effect_def by blast
  have "fst ` set (h_regions (snd s)) \<subseteq> fst ` set (h_regions (snd s1))" using s1 unfolding heap_step_def by auto
  then have "set (chunks1 @ chunks2) \<inter> fst ` set (h_regions (snd s)) = {}" using c1(2) c2(2) by auto
  moreover have "fst s2 = fst s\<lparr>bp_head := head2, bp_chunks := bp_chunks (fst s) @ (chunks1 @ chunks2)\<rparr>"
    using c1(1) c2(1) by simp
  moreover have "pool_inv s2" "pool_free s2 = free2" using e2 unfolding pool_effect_def by blast+
  ultimately show ?thesis
    using heap_step_trans [OF s1 s2] blocks unfolding pool_effect_def append_assoc by blast
qed

lemma pool_Pop_ok:
  assumes inv: "pool_inv s"
  shows "case pool_free s of [] \<Rightarrow> pool_Pop s = Inr (nullptr, s)
    | x # xs \<Rightarrow> \<exists>s'. pool_Pop s = Inr (x, s') \<and> x \<noteq> nullptr \<and> x \<in> set (pool_blocks s) \<and> pool_effect s s' [] xs"
proof (cases s)
  case (Pair p h)
  note I = inv [unfolded pool_inv_free Pair]
  show ?thesis
  proof (cases "pool_free (p, h)")
    case Nil
    with I Pair show ?thesis by (simp add: pool_Pop_def lf_Pop_def free_list_def)
  next
    case (Cons x xs)
    then have fl: "chain (h_next h) (bp_head p) (x # xs)" "distinct (x # xs)"
      "set (x # xs) \<subseteq> set (pool_blocks (p, h))"
      using I by (simp_all add: free_list_def)
    let ?s' = "(p\<lparr>bp_head := h_next h x\<rparr>, h)"
    have blocks: "pool_blocks ?s' = pool_blocks (p, h)" by (simp add: pool_blocks_def)
    have free: "free_list ?s' xs" using fl by (simp add: free_list_def blocks)
    have ok: "chunks_ok ?s'" using I by (simp add: chunks_ok_def)
    have acc: "accessible h x" using pool_block_accessible [of p h x] I fl(3) by simp
    have "pool_effect (p, h) ?s' [] xs"
      using I by (intro pool_effectI [OF free ok, where head = "h_next h x" and chunks = "[]"])
        (simp_all add: blocks chunks_ok_def heap_step_refl)
    with Cons Pair fl acc show ?thesis by (simp add: pool_Pop_def lf_Pop_def load_next_def)
  qed
qed

lemma heap_ok_next: "heap_ok (h\<lparr>h_next := f\<rparr>) = heap_ok h" "region_size (h\<lparr>h_next := f\<rparr>) = region_size h"
  by (simp_all add: heap_ok_def region_size_def fun_eq_iff)

lemma pool_blocks_next [simp]:
  "pool_blocks (p, h\<lparr>h_next := f\<rparr>) = pool_blocks (p, h)" "pool_blocks (p\<lparr>bp_head := a\<rparr>, h) = pool_blocks (p, h)"
  "chunks_ok (p, h\<lparr>h_next := f\<rparr>) = chunks_ok (p, h)" "chunks_ok (p\<lparr>bp_head := a\<rparr>, h) = chunks_ok (p, h)"
  by (simp_all add: pool_blocks_def chunk_blocks_def chunks_ok_def heap_ok_next cong: map_cong)

lemma pool_Push_ok:
  assumes inv: "pool_inv s" and b: "b \<in> pool_live s"
  shows "\<exists>s'. pool_Push b s = Inr s' \<and> pool_effect s s' [] (b # pool_free s)"
proof (cases s)
  case (Pair p h)
  note I = inv [unfolded pool_inv_free Pair]
  have b': "b \<in> set (pool_blocks (p, h))" "b \<notin> set (pool_free (p, h))" using b Pair by (simp_all add: pool_live_def)
  let ?s' = "(p\<lparr>bp_head := b\<rparr>, h\<lparr>h_next := (h_next h)(b := bp_head p)\<rparr>)"
  have acc: "accessible h b" "b \<noteq> nullptr" using pool_block_accessible [of p h b] I b' by simp_all
  have free: "free_list ?s' (b # pool_free (p, h))"
    using I b' acc(2) by (simp add: free_list_def chain_upd)
  have "pool_effect (p, h) ?s' [] (b # pool_free (p, h))"
    using I b' by (intro pool_effectI [OF free, where head = b and chunks = "[]"])
      (auto simp: chunks_ok_def heap_step_def heap_ok_next)
  with Pair acc show ?thesis by (simp add: pool_Push_def lf_Push_def store_next_def)
qed

lemma pool_write_ok:
  assumes inv: "pool_inv s" and b: "b \<in> pool_live s"
  shows "\<exists>s'. pool_write b v s = Inr s' \<and> pool_effect s s' [] (pool_free s)"
proof (cases s)
  case (Pair p h)
  note I = inv [unfolded pool_inv_free Pair]
  have b': "b \<in> set (pool_blocks (p, h))" "b \<notin> set (pool_free (p, h))" using b Pair by (simp_all add: pool_live_def)
  let ?s' = "(p, h\<lparr>h_next := (h_next h)(b := v)\<rparr>)"
  have acc: "accessible h b" "b \<noteq> nullptr" using pool_block_accessible [of p h b] I b' by simp_all
  have free: "free_list ?s' (pool_free (p, h))" using I b' by (simp add: free_list_def chain_upd)
  have "pool_effect (p, h) ?s' [] (pool_free (p, h))"
    using I b' by (intro pool_effectI [OF free, where head = "bp_head p" and chunks = "[]"])
      (auto simp: chunks_ok_def heap_step_def heap_ok_next)
  with Pair acc show ?thesis by (simp add: pool_write_def store_next_def)
qed

text \<open>A new region keeps the heap well formed.\<close>

lemma operator_new_ok:
  assumes "heap_ok h" and "fresh_new new" and "operator_new new bytes h = Inr (a, h')"
  shows "heap_ok h'" and "h' = h\<lparr>h_regions := (a, unat bytes) # h_regions h\<rparr>" and "0 < a"
    and "a \<notin> fst ` set (h_regions h)"
proof -
  have new: "new (h_regions h) (unat bytes) = Some a"
    and h': "h' = h\<lparr>h_regions := (a, unat bytes) # h_regions h\<rparr>"
    using assms(3) by (simp_all add: operator_new_def split: option.splits)
  then have a: "0 < a" "a \<notin> fst ` set (h_regions h)"
    "\<forall>(b, m) \<in> set (h_regions h). a + unat bytes \<le> b \<or> b + m \<le> a"
    using assms(2) unfolding fresh_new_def by blast+
  show "heap_ok h'" using assms(1) a unfolding heap_ok_def h' by fastforce
qed (use assms in \<open>auto simp: operator_new_def fresh_new_def split: option.splits\<close>)

lemma carve_ok:
  assumes region: "(page, n * unat bs) \<in> set (h_regions h)" and "0 < page" and "pointer_size \<le> unat bs"
    and size: "n * unat bs < 2 ^ 64"
    and list: "chain (h_next h) head xs" and "set xs \<inter> set (map (\<lambda>i. page + i * unat bs) [0..<n]) = {}"
  shows "\<exists>head' f. carve bs n page (head, h) = Inr (head', h\<lparr>h_next := f\<rparr>) \<and>
    chain f head' (rev (map (\<lambda>i. page + i * unat bs) [0..<n]) @ xs) \<and>
    (\<forall>b. b \<notin> set (map (\<lambda>i. page + i * unat bs) [0..<n]) \<longrightarrow> f b = h_next h b)"
proof -
  let ?blk = "\<lambda>i. page + i * unat bs"
  define P where "P = (\<lambda>k (s :: ptr \<times> heap). \<exists>head' f. s = (head', h\<lparr>h_next := f\<rparr>) \<and>
    chain f head' (rev (map ?blk [0..<k]) @ xs) \<and> (\<forall>b. b \<notin> set (map ?blk [0..<k]) \<longrightarrow> f b = h_next h b))"
  have bs: "0 < unat bs" using assms(3) by (simp add: pointer_size_def)
  have "\<exists>t. carve bs n page (head, h) = Inr t \<and> P n t"
    unfolding carve_def
  proof (rule for_each_upt)
    show "P 0 (head, h)" using list by (auto simp: P_def intro!: exI [of _ "h_next h"])
    fix i t
    assume i: "i < n" and "P i t"
    then obtain head' f where t: "t = (head', h\<lparr>h_next := f\<rparr>)"
      "chain f head' (rev (map ?blk [0..<i]) @ xs)" "\<forall>b. b \<notin> set (map ?blk [0..<i]) \<longrightarrow> f b = h_next h b"
      by (auto simp: P_def)
    have le: "i * unat bs + unat bs \<le> n * unat bs"
      using mult_le_mono1 [of "Suc i" n "unat bs"] i by simp
    have "i * 1 \<le> i * unat bs" using bs by (intro mult_le_mono2) simp
    then have "i < 2 ^ 64" using le size by linarith
    then have addr: "unat (of_nat i * bs) = i * unat bs"
      using le size by (simp add: unat_word_ariths unat_of_nat)
    have "accessible h (?blk i)"
      using region le assms(3) by (auto simp: accessible_def list_ex_iff intro!: bexI [OF _ region])
    then have acc: "accessible (h\<lparr>h_next := f\<rparr>) (?blk i)" by (simp add: accessible_def)
    have "?blk i \<notin> set (rev (map ?blk [0..<i]) @ xs)"
      using assms(6) i bs by auto
    then have "P (Suc i) (?blk i, h\<lparr>h_next := f(?blk i := head')\<rparr>)"
      unfolding P_def using t(2,3) assms(2)
      by (intro exI [of _ "?blk i"] exI [of _ "f(?blk i := head')"])
        (simp add: chain_upd atLeast0_lessThan_Suc)
    with acc assms(2) show "\<exists>t'. lf_Push (page + unat (of_nat i * bs)) t = Inr t' \<and> P (Suc i) t'"
      by (simp add: t(1) addr lf_Push_def store_next_def)
  qed simp
  then show ?thesis unfolding P_def by auto
qed

lemma chunk_blocks_cons:
  assumes "c \<noteq> a"
  shows "chunk_blocks (h\<lparr>h_regions := (a, n) # h_regions h\<rparr>) bs c = chunk_blocks h bs c"
  using assms by (simp add: chunk_blocks_def region_size_def)

lemma grow_by_ok:
  assumes inv: "pool_inv (p, h)" and new: "fresh_new new" and size: "unat (bp_block p) * unat n < 2 ^ 64"
  shows "grow_by new n (p, h) = Inl Bad_Alloc \<or>
    (\<exists>s' blocks. grow_by new n (p, h) = Inr s' \<and> length blocks = unat n \<and>
       set (pool_blocks (p, h)) \<inter> set blocks = {} \<and> pool_effect (p, h) s' blocks (rev blocks @ pool_free (p, h)))"
proof (cases "operator_new new (bp_block p * n) h")
  case (Inl e)
  then have "e = Bad_Alloc" by (simp add: operator_new_def split: option.splits)
  with Inl show ?thesis by (simp add: grow_by_def)
next
  case (Inr r)
  then obtain page h1 where r: "operator_new new (bp_block p * n) h = Inr (page, h1)" by (cases r) auto
  note I = inv [unfolded pool_inv_free]
  let ?bs = "unat (bp_block p)"
  have bytes: "unat (bp_block p * n) = unat n * ?bs"
    using size by (simp add: unat_word_ariths mult.commute)
  have ok: "heap_ok h" using I by (simp add: chunks_ok_def)
  note N = operator_new_ok [OF ok new r, unfolded bytes]
  define blocks where "blocks = map (\<lambda>i. page + i * ?bs) [0..<unat n]"
  have bs: "pointer_size \<le> ?bs" "0 < ?bs" using I by (auto simp: chunks_ok_def pointer_size_def)
  have page: "page \<notin> set (bp_chunks p)" using N(4) I by (auto simp: chunks_ok_def)
  have "region_size h1 page = unat n * ?bs" by (simp add: region_size_def N(2))
  then have new_blocks: "chunk_blocks h1 ?bs page = blocks"
    using bs by (simp add: chunk_blocks_def blocks_def)
  have old_blocks: "chunk_blocks h1 ?bs c = chunk_blocks h ?bs c" if "c \<in> set (bp_chunks p)" for c
    unfolding N(2) using that page by (intro chunk_blocks_cons) auto
  have in1: "page \<in> fst ` set (h_regions h1)" "set (bp_chunks p) \<subseteq> fst ` set (h_regions h1)"
    using I by (auto simp: N(2) chunks_ok_def)
  have apart: "set (pool_blocks (p, h)) \<inter> set blocks = {}"
  proof (intro equals0I)
    fix b assume "b \<in> set (pool_blocks (p, h)) \<inter> set blocks"
    then obtain c where c: "c \<in> set (bp_chunks p)" "b \<in> set (chunk_blocks h ?bs c)" "b \<in> set blocks"
      by (auto simp: in_pool_blocks)
    then have b: "b \<in> set (chunk_blocks h1 ?bs c)" "b \<in> set (chunk_blocks h1 ?bs page)"
      by (simp_all add: old_blocks new_blocks)
    have "{c, page} \<subseteq> fst ` set (h_regions h1)" "c \<noteq> page" using c(1) in1 page by auto
    from blocks_apart [OF N(1) this b] bs(2) show False by simp
  qed
  have "set (pool_free (p, h)) \<inter> set blocks = {}" using apart I by (auto simp: free_list_def)
  moreover have "chain (h_next h1) (bp_head p) (pool_free (p, h))" using I by (simp add: N(2) free_list_def)
  ultimately obtain head f where carve: "carve (bp_block p) (unat n) page (bp_head p, h1) = Inr (head, h1\<lparr>h_next := f\<rparr>)"
    "chain f head (rev blocks @ pool_free (p, h))" "\<forall>b. b \<notin> set blocks \<longrightarrow> f b = h_next h1 b"
    using carve_ok [of page "unat n" "bp_block p" h1 "bp_head p" "pool_free (p, h)"] N(2,3) bs(1) size
    by (auto simp: blocks_def mult.commute)
  let ?p' = "p\<lparr>bp_head := head, bp_chunks := bp_chunks p @ [page]\<rparr>" and ?h' = "h1\<lparr>h_next := f\<rparr>"
  have all: "pool_blocks (?p', ?h') = pool_blocks (p, h) @ blocks"
  proof -
    have "chunk_blocks ?h' = chunk_blocks h1" by (simp add: chunk_blocks_def heap_ok_next fun_eq_iff)
    then show ?thesis using old_blocks new_blocks by (simp add: pool_blocks_def cong: map_cong)
  qed
  note all' = all [unfolded pool_blocks_next]
  have dist: "distinct blocks" using bs by (simp add: blocks_def distinct_map inj_on_def)
  have free: "free_list (?p', ?h') (rev blocks @ pool_free (p, h))"
    using carve(2) I apart dist by (auto simp: free_list_def all')
  have chunks: "chunks_ok (?p', ?h')"
    using I in1 page N(1) by (auto simp: chunks_ok_def heap_ok_next)
  have step: "heap_step h ?h' (set (pool_blocks (?p', ?h')))"
    unfolding heap_step_def all
  proof (intro conjI allI impI)
    show "\<exists>rs. h_regions ?h' = rs @ h_regions h" by (simp add: N(2))
    show "h_next ?h' b = h_next h b" if "b \<notin> set (pool_blocks (p, h) @ blocks)" for b
      using that carve(3) by (simp add: N(2))
  qed (use N(1) in \<open>simp add: heap_ok_next\<close>)
  have "pool_effect (p, h) (?p', ?h') blocks (rev blocks @ pool_free (p, h))"
    by (rule pool_effectI [OF free chunks all step, where head = head and chunks = "[page]"])
      (use N(4) in simp_all)
  moreover have "grow_by new n (p, h) = Inr (?p', ?h')"
    using r carve(1) by (simp add: grow_by_def)
  moreover have "length blocks = unat n" by (simp add: blocks_def)
  ultimately show ?thesis using apart by blast
qed

section \<open>The pool is a block allocator\<close>

lemma pool_effect_live:
  assumes "pool_inv s" and "pool_effect s s' new free" and "set (pool_blocks s) \<inter> set new = {}"
    and "set free = set new \<union> F" and "F \<subseteq> set (pool_blocks s)"
  shows "pool_live s' = set (pool_blocks s) - F"
  using assms by (auto simp: pool_live_def pool_effect_def)

lemma pool_free_blocks: "pool_inv s \<Longrightarrow> set (pool_free s) \<subseteq> set (pool_blocks s) \<and> distinct (pool_free s)"
  by (cases s) (simp add: pool_inv_free free_list_def)

lemma pool_Pop_live:
  assumes "pool_inv s" and "pool_free s = x # xs" and "pool_effect s s' [] xs"
  shows "x \<notin> pool_live s" and "pool_live s' = insert x (pool_live s)"
  using assms pool_free_blocks [OF assms(1)] by (auto simp: pool_live_def pool_effect_def)

lemma pool_effect_fields:
  assumes "pool_effect s s' new free"
  shows "bp_block (fst s') = bp_block (fst s)" and "bp_per_chunk (fst s') = bp_per_chunk (fst s)"
    and "pool_inv s'" and "BlockPool.more (fst s') = BlockPool.more (fst s)"
  using assms by (auto simp: pool_effect_def)

definition fixed_inv :: "new_oracle \<Rightarrow> BlockPool \<times> heap \<Rightarrow> bool" where
  "fixed_inv new s \<longleftrightarrow> fresh_new new \<and> pool_inv s \<and> 0 < bp_per_chunk (fst s) \<and>
     unat (bp_block (fst s)) * unat (bp_per_chunk (fst s)) < 2 ^ 64"

lemma pool_live_nonnull: "pool_inv s \<Longrightarrow> nullptr \<notin> pool_live s"
  using pool_block_accessible by (cases s) (force simp: pool_live_def pool_inv_def)

lemma fixed_Allocate_ok:
  assumes inv: "fixed_inv new s"
  shows "fixed_Allocate new s = Inl Bad_Alloc \<or>
    (\<exists>p s'. fixed_Allocate new s = Inr (p, s') \<and> fixed_inv new s' \<and> p \<noteq> nullptr \<and>
       p \<notin> pool_live s \<and> pool_live s' = insert p (pool_live s))"
proof (cases "pool_free s")
  case (Cons x xs)
  have p: "pool_inv s" using inv by (simp add: fixed_inv_def)
  from pool_Pop_ok [OF p] Cons obtain s' where s': "pool_Pop s = Inr (x, s')" "x \<noteq> nullptr"
    "pool_effect s s' [] xs" by auto
  have "fixed_inv new s'" using inv pool_effect_fields [OF s'(3)] by (simp add: fixed_inv_def)
  with s' pool_Pop_live [OF p Cons s'(3)] show ?thesis by (simp add: fixed_Allocate_def)
next
  case Nil
  have p: "pool_inv s" "fresh_new new" using inv by (simp_all add: fixed_inv_def)
  have pop: "pool_Pop s = Inr (nullptr, s)" using pool_Pop_ok [OF p(1)] Nil by simp
  have exp: "fixed_Expand new s = grow_by new (bp_per_chunk (fst s)) s" by (simp add: fixed_Expand_def)
  obtain q h where s: "s = (q, h)" by (cases s)
  have size: "unat (bp_block q) * unat (bp_per_chunk q) < 2 ^ 64" "0 < bp_per_chunk q"
    using inv s by (simp_all add: fixed_inv_def)
  from grow_by_ok [OF p(1) [unfolded s] p(2) size(1)] show ?thesis
  proof
    assume "grow_by new (bp_per_chunk q) (q, h) = Inl Bad_Alloc"
    with pop exp s show ?thesis by (simp add: fixed_Allocate_def)
  next
    assume "\<exists>s' blocks. grow_by new (bp_per_chunk q) (q, h) = Inr s' \<and> length blocks = unat (bp_per_chunk q) \<and>
       set (pool_blocks (q, h)) \<inter> set blocks = {} \<and> pool_effect (q, h) s' blocks (rev blocks @ pool_free (q, h))"
    then obtain s1 blocks where g: "grow_by new (bp_per_chunk q) s = Inr s1"
      "length blocks = unat (bp_per_chunk q)" "set (pool_blocks s) \<inter> set blocks = {}"
      "pool_effect s s1 blocks (rev blocks)" using Nil s by auto
    have p1: "pool_inv s1" "pool_free s1 = rev blocks" using g(4) by (simp_all add: pool_effect_def)
    have live1: "pool_live s1 = pool_live s"
      using pool_effect_live [OF p(1) g(4) g(3), of "{}"] Nil by (simp add: pool_live_def)
    have "rev blocks \<noteq> []" using g(2) size(2) by (auto simp: word_less_nat_alt)
    then obtain x xs where xs: "rev blocks = x # xs" by (cases "rev blocks") auto
    from pool_Pop_ok [OF p1(1)] p1(2) xs obtain s2 where s2: "pool_Pop s1 = Inr (x, s2)" "x \<noteq> nullptr"
      "pool_effect s1 s2 [] xs" by auto
    have "fixed_inv new s2"
      using inv pool_effect_fields [OF g(4)] pool_effect_fields [OF s2(3)] by (simp add: fixed_inv_def)
    with s2 pop exp g(1) s live1 pool_Pop_live [OF p1(1) _ s2(3), of x] p1(2) xs show ?thesis
      by (simp add: fixed_Allocate_def)
  qed
qed

lemma fixed_Deallocate_ok:
  assumes inv: "fixed_inv new s" and b: "b \<in> pool_live s"
  shows "\<exists>s'. fixed_Deallocate b s = Inr s' \<and> fixed_inv new s' \<and> pool_live s' = pool_live s - {b}"
proof -
  have p: "pool_inv s" using inv by (simp add: fixed_inv_def)
  from pool_Push_ok [OF p b] obtain s' where s': "pool_Push b s = Inr s'"
    "pool_effect s s' [] (b # pool_free s)" by blast
  have "pool_live s' = pool_live s - {b}" using s'(2) by (auto simp: pool_effect_def pool_live_def)
  moreover have "b \<noteq> nullptr" using pool_live_nonnull [OF p] b by metis
  ultimately show ?thesis
    using s'(1) inv pool_effect_fields [OF s'(2)] by (simp add: fixed_Deallocate_def fixed_inv_def)
qed

lemma fixed_write_ok:
  assumes inv: "fixed_inv new s" and b: "b \<in> pool_live s"
  shows "\<exists>s'. pool_write b v s = Inr s' \<and> fixed_inv new s' \<and> pool_live s' = pool_live s"
proof -
  have p: "pool_inv s" using inv by (simp add: fixed_inv_def)
  from pool_write_ok [OF p b] obtain s' where s': "pool_write b v s = Inr s'"
    "pool_effect s s' [] (pool_free s)" by blast
  have "pool_live s' = pool_live s" using s'(2) by (auto simp: pool_effect_def pool_live_def)
  then show ?thesis
    using s'(1) inv pool_effect_fields [OF s'(2)] by (simp add: fixed_inv_def)
qed

interpretation fixed_pool: total_allocator "fixed_inv new" pool_live "\<lambda>_ :: unit. fixed_Allocate new" fixed_Deallocate pool_write
proof unfold_locales
  fix s assume inv: "fixed_inv new s"
  then show "nullptr \<notin> pool_live s" by (simp add: pool_live_nonnull fixed_inv_def)
  from fixed_Allocate_ok [OF inv]
  show "fixed_Allocate new s = Inl Bad_Alloc \<or> (\<exists>p s'. fixed_Allocate new s = Inr (p, s') \<and> fixed_inv new s' \<and>
      (if p = nullptr then pool_live s' = pool_live s else p \<notin> pool_live s \<and> pool_live s' = insert p (pool_live s)))"
    by auto
  fix p s' assume "fixed_Allocate new s = Inr (p, s')"
  with fixed_Allocate_ok [OF inv] show "p \<noteq> nullptr" by auto
qed (erule (1) fixed_Deallocate_ok fixed_write_ok)+

text \<open>Memory runs out only when \<open>operator new\<close> says so.\<close>

lemma pool_ops_fault:
  "lf_Push q t \<noteq> Inl Bad_Alloc" "pool_Pop s \<noteq> Inl Bad_Alloc" "pool_Push q s \<noteq> Inl Bad_Alloc"
  by (cases s; cases t; auto simp: pool_Pop_def pool_Push_def lf_Pop_def lf_Push_def rbind_eq_Inl store_next_fault)+

lemma grow_by_fault:
  assumes "\<And>rs k. new rs k \<noteq> None"
  shows "grow_by new n s \<noteq> Inl Bad_Alloc"
proof -
  have "for_each f is t \<noteq> Inl Bad_Alloc" if "\<And>i u. f i u \<noteq> Inl Bad_Alloc"
    for f :: "nat \<Rightarrow> ptr \<times> heap \<Rightarrow> (ptr \<times> heap) comp" and "is" t
    by (induction "is" arbitrary: t) (auto simp: rbind_eq_Inl that)
  then have "carve bs k page t \<noteq> Inl Bad_Alloc" for bs k page t
    using pool_ops_fault(1) by (simp add: carve_def)
  moreover have "operator_new new b h \<noteq> Inl Bad_Alloc" for b h
    using assms by (auto simp: operator_new_def split: option.splits)
  ultimately show ?thesis by (cases s) (auto simp: grow_by_def rbind_eq_Inl)
qed

section \<open>Properties\<close>

lemma fixed_new_inv:
  assumes "fresh_new new" and "heap_ok h" and "0 < blocks_per_chunk"
    and "unat (max block_size 8) * unat blocks_per_chunk < 2 ^ 64"
  shows "fixed_inv new (FixedSizeMemoryPool_new block_size blocks_per_chunk, h)"
    and "pool_live (FixedSizeMemoryPool_new block_size blocks_per_chunk, h) = {}"
proof -
  let ?s = "(FixedSizeMemoryPool_new block_size blocks_per_chunk, h)"
  have "8 \<le> max block_size 8" by simp
  then have "pointer_size \<le> unat (max block_size 8)"
    unfolding word_le_nat_alt by (simp add: pointer_size_def)
  moreover have "free_list ?s []"
    by (simp add: free_list_def FixedSizeMemoryPool_new_def)
  ultimately show "fixed_inv new ?s"
    using assms by (auto simp: fixed_inv_def pool_inv_def chunks_ok_def FixedSizeMemoryPool_new_def)
  show "pool_live ?s = {}" by (simp add: pool_live_def pool_blocks_def FixedSizeMemoryPool_new_def)
qed

text \<open>
  C15: a fixed-size pool whose chunk size does not overflow, used by any client in any way, either
  ends with the exception of \<open>operator new\<close> or hands out blocks such that those held at one time
  are distinct, do not overlap, are not null and lie in memory the pool owns; every block of the
  pool is either held or on the free list, even though the client overwrote the links stored in
  the blocks it held.
\<close>

theorem fixed_pool_client_safe:
  assumes "fresh_new new" and "heap_ok h" and "0 < blocks_per_chunk"
    and "unat (max block_size 8) * unat blocks_per_chunk < 2 ^ 64"
  shows "run_client (\<lambda>_ :: unit. fixed_Allocate new) fixed_Deallocate pool_write ops
       ([], FixedSizeMemoryPool_new block_size blocks_per_chunk, h) = Inl Bad_Alloc \<or>
    (\<exists>held p h'. run_client (\<lambda>_ :: unit. fixed_Allocate new) fixed_Deallocate pool_write ops
       ([], FixedSizeMemoryPool_new block_size blocks_per_chunk, h) = Inr (held, p, h') \<and>
     distinct held \<and> nullptr \<notin> set held \<and>
     set held \<inter> set (pool_free (p, h')) = {} \<and> set held \<union> set (pool_free (p, h')) = set (pool_blocks (p, h')) \<and>
     (\<forall>b \<in> set held. accessible h' b) \<and>
     (\<forall>b \<in> set held. \<forall>b' \<in> set held. b \<noteq> b' \<longrightarrow>
        b + unat (bp_block p) \<le> b' \<or> b' + unat (bp_block p) \<le> b))"
proof -
  let ?run = "run_client (\<lambda>_ :: unit. fixed_Allocate new) fixed_Deallocate pool_write ops
     ([], FixedSizeMemoryPool_new block_size blocks_per_chunk, h)"
  note new = fixed_new_inv [OF assms]
  have "set [] = pool_live (FixedSizeMemoryPool_new block_size blocks_per_chunk, h)" using new(2) by simp
  from fixed_pool.run_client_safe [OF new(1) distinct.simps(1) [THEN iffD2, OF TrueI] this, of ops]
  show ?thesis
  proof
    assume "\<exists>held' s'. ?run = Inr (held', s') \<and> fixed_inv new s' \<and>
       distinct held' \<and> set held' = pool_live s' \<and> nullptr \<notin> set held'"
    then obtain held p h' where r: "?run = Inr (held, p, h')" "fixed_inv new (p, h')" "distinct held"
      "set held = pool_live (p, h')" "nullptr \<notin> set held" by auto
    have ok: "chunks_ok (p, h')" "pool_inv (p, h')" using r(2) by (simp_all add: fixed_inv_def pool_inv_def)
    have held: "set held = set (pool_blocks (p, h')) - set (pool_free (p, h'))" using r(4) by (simp add: pool_live_def)
    have parts: "set held \<inter> set (pool_free (p, h')) = {}"
      "set held \<union> set (pool_free (p, h')) = set (pool_blocks (p, h'))"
      using held pool_free_blocks [OF ok(2)] by auto
    have "accessible h' b" if "b \<in> set held" for b
      using pool_block_accessible [OF ok(1)] that held by simp
    moreover have "b + unat (bp_block p) \<le> b' \<or> b' + unat (bp_block p) \<le> b"
      if "b \<in> set held" "b' \<in> set held" "b \<noteq> b'" for b b'
      using pool_blocks_apart [OF ok(1)] that held by simp
    ultimately show ?thesis using r parts by blast
  qed simp
qed

lemma fixed_pool_client_safe_witness:
  "\<exists>held s. run_client (\<lambda>_ :: unit. fixed_Allocate bump_new) fixed_Deallocate pool_write [Get (), Write 0 5, Get (), Give_Back 1, Get ()]
     ([], FixedSizeMemoryPool_new 24 2, \<lparr>h_next = (\<lambda>_. 0), h_regions = []\<rparr>) = Inr (held, s) \<and> length held = 2 \<and>
     distinct held"
proof -
  let ?run = "run_client (\<lambda>_ :: unit. fixed_Allocate bump_new) fixed_Deallocate pool_write [Get (), Write 0 5, Get (), Give_Back 1, Get ()]
     ([], FixedSizeMemoryPool_new 24 2, \<lparr>h_next = (\<lambda>_. 0), h_regions = []\<rparr>)"
  have "\<exists>held s. ?run = Inr (held, s) \<and> length held = 2"
    by (simp add: FixedSizeMemoryPool_new_def fixed_Allocate_def fixed_Deallocate_def pool_write_def
        pool_Pop_def pool_Push_def lf_Pop_def lf_Push_def fixed_Expand_def grow_by_def operator_new_def
        bump_new_def carve_def store_next_def load_next_def accessible_def pointer_size_def drop_nth_def
        upt_rec max_def)
  then obtain held s where r: "?run = Inr (held, s)" "length held = 2" by blast
  have "heap_ok \<lparr>h_next = (\<lambda>_. 0), h_regions = []\<rparr>" by (simp add: heap_ok_def)
  from fixed_pool_client_safe [OF bump_new_fresh this, of 2 24 "[Get (), Write 0 5, Get (), Give_Back 1, Get ()]"] r(1)
  have "distinct held" by (auto simp: max_def simp del: run_client.simps)
  with r show ?thesis by blast
qed

text \<open>
  The size of a chunk is computed without an overflow check: if \<open>block_size * blocks_per_chunk\<close>
  wraps to 0, the first \<open>Allocate\<close> that gets its memory writes outside it.
\<close>

theorem fixed_pool_size_overflow:
  assumes "fresh_new new" and "heap_ok h" and "0 < blocks_per_chunk"
    and "max block_size 8 * blocks_per_chunk = 0"
  shows "fixed_Allocate new (FixedSizeMemoryPool_new block_size blocks_per_chunk, h) = Inl Out_Of_Bounds \<or>
    fixed_Allocate new (FixedSizeMemoryPool_new block_size blocks_per_chunk, h) = Inl Bad_Alloc"
proof (cases "operator_new new 0 h")
  case (Inl e)
  then have "e = Bad_Alloc" by (simp add: operator_new_def split: option.splits)
  with Inl assms(4) show ?thesis
    by (simp add: fixed_Allocate_def pool_Pop_def lf_Pop_def FixedSizeMemoryPool_new_def fixed_Expand_def
        grow_by_def)
next
  case (Inr r)
  then obtain page h1 where r: "operator_new new 0 h = Inr (page, h1)" by (cases r) auto
  note N = operator_new_ok [OF assms(2,1) r]
  have "\<not> accessible h1 page"
  proof
    assume "accessible h1 page"
    then obtain a n where a: "(a, n) \<in> set (h_regions h1)" "a \<le> page" "page + pointer_size \<le> a + n"
      by (auto simp: accessible_def list_ex_iff)
    have "a \<noteq> page"
    proof
      assume "a = page"
      then have "n = 0 \<or> page \<in> fst ` set (h_regions h)" using a(1) N(2) by force
      with a(3) \<open>a = page\<close> N(4) show False by (simp add: pointer_size_def)
    qed
    moreover have "(page, 0) \<in> set (h_regions h1)" by (simp add: N(2))
    ultimately have "a + n \<le> page \<or> page + 0 \<le> a" using N(1) a(1) unfolding heap_ok_def by fast
    with a \<open>a \<noteq> page\<close> show False by (simp add: pointer_size_def)
  qed
  moreover have "[0..<unat blocks_per_chunk] = 0 # [1..<unat blocks_per_chunk]"
    using assms(3) by (simp add: upt_conv_Cons word_less_nat_alt)
  ultimately show ?thesis
    using assms(4) r N(3)
    by (simp add: fixed_Allocate_def pool_Pop_def lf_Pop_def FixedSizeMemoryPool_new_def fixed_Expand_def
        grow_by_def carve_def lf_Push_def store_next_def)
qed

lemma fixed_pool_size_overflow_witness:
  "fixed_Allocate bump_new (FixedSizeMemoryPool_new (2 ^ 60) 256, \<lparr>h_next = (\<lambda>_. 0), h_regions = []\<rparr>)
     = Inl Out_Of_Bounds"
proof -
  let ?h = "\<lparr>h_next = (\<lambda>_. 0), h_regions = []\<rparr> :: heap"
  have "heap_ok ?h" by (simp add: heap_ok_def)
  moreover have "max (2 ^ 60) 8 = (2 ^ 60 :: size_t)" by (simp add: max_def)
  ultimately have "fixed_Allocate bump_new (FixedSizeMemoryPool_new (2 ^ 60) 256, ?h) = Inl Out_Of_Bounds \<or>
    fixed_Allocate bump_new (FixedSizeMemoryPool_new (2 ^ 60) 256, ?h) = Inl Bad_Alloc"
    by (intro fixed_pool_size_overflow [OF bump_new_fresh]) simp_all
  moreover have "fixed_Allocate bump_new (FixedSizeMemoryPool_new (2 ^ 60) 256, ?h) \<noteq> Inl Bad_Alloc"
  proof
    let ?f = "\<lambda>i. lf_Push (16 + unat (of_nat i * (2 ^ 60 :: size_t)))"
    assume "fixed_Allocate bump_new (FixedSizeMemoryPool_new (2 ^ 60) 256, ?h) = Inl Bad_Alloc"
    then show False
      by (simp add: fixed_Allocate_def pool_Pop_def lf_Pop_def FixedSizeMemoryPool_new_def fixed_Expand_def
        grow_by_def operator_new_def bump_new_def carve_def lf_Push_def store_next_def accessible_def
        pointer_size_def max_def upt_conv_Cons)
  qed
  ultimately show ?thesis by blast
qed

end
