(* ===== verification/Legacy_Pool.thy ===== *)
theory Legacy_Pool
  imports Block_Pool Complex_Main
begin

unbundle bit_operations_syntax

text \<open>
  \<open>legacy_pool::FixedSizeMemoryPool\<close> of \<open>bridges/pool_bridge.cpp\<close>: the fixed-size pool with a limit on
  its chunks, a growth factor and byte counters, and its adapter \<open>FixedSizePoolBridge\<close>. The growth
  factor, a \<open>double\<close>, is a rational, and the product with it is not rounded.
\<close>

section \<open>Alignment\<close>

definition align_up :: "size_t \<Rightarrow> size_t \<Rightarrow> size_t" where
  "align_up sz alignment = (sz + alignment - 1) AND NOT (alignment - 1)"

lemma and_not_mask: "(x :: size_t) AND NOT (mask n) = x - take_bit n x"
proof -
  have "x = (x AND mask n) OR (x AND NOT (mask n))"
    by (rule bit_eqI) (simp add: bit_simps, blast)
  also have "\<dots> = (x AND mask n) + (x AND NOT (mask n))"
    by (rule disjunctive_add [symmetric]) (simp add: bit_simps)
  finally show ?thesis by (simp add: take_bit_eq_mask algebra_simps)
qed

lemma align_up_value:
  assumes "n < 64" and "unat sz + 2 ^ n \<le> 2 ^ 64"
  shows "unat (align_up sz (2 ^ n)) = (unat sz + 2 ^ n - 1) div 2 ^ n * 2 ^ n"
proof -
  let ?x = "sz + 2 ^ n - 1"
  have pow: "unat (2 ^ n :: size_t) = 2 ^ n"
    using power_strict_increasing [OF assms(1), of "2 :: nat"] unat_of_nat_size [of "2 ^ n"] by simp
  have "unat (sz + (2 ^ n - 1)) = unat sz + (2 ^ n - 1)"
  proof -
    have "unat (2 ^ n - 1 :: size_t) = 2 ^ n - 1" using assms(1) by (simp add: unat_sub pow word_le_nat_alt)
    with assms(2) show ?thesis by (subst unat_plus_simple_size) auto
  qed
  then have x: "unat ?x = unat sz + 2 ^ n - 1" by (simp add: algebra_simps)
  have "align_up sz (2 ^ n) = ?x - take_bit n ?x"
    unfolding align_up_def using and_not_mask [of ?x n] by (simp add: mask_eq_exp_minus_1)
  also have "unat \<dots> = unat ?x - unat ?x mod 2 ^ n"
  proof -
    have "unat (take_bit n ?x) = unat ?x mod 2 ^ n" unfolding unsigned_take_bit_eq by (rule take_bit_eq_mod)
    then show ?thesis by (subst unat_minus_size) (simp_all only: mod_less_eq_dividend)
  qed
  also have "\<dots> = unat ?x div 2 ^ n * 2 ^ n" by (simp add: minus_mod_eq_div_mult)
  finally show ?thesis by (simp add: x)
qed

section \<open>State and operations\<close>

record LegacyPool = BlockPool +
  lp_max_chunks :: size_t
  lp_grow_factor :: rat
  lp_is_expanding :: bool
  lp_total_allocated :: size_t
  lp_total_freed :: size_t

text \<open>The blocks of the next chunk; converting a \<open>double\<close> out of range is undefined.\<close>

definition legacy_blocks :: "LegacyPool \<Rightarrow> size_t comp" where
  "legacy_blocks p =
     (if 1 < lp_grow_factor p \<and> bp_chunks p \<noteq> []
      then let scaled = nat \<lfloor>of_nat (unat (bp_per_chunk p)) * lp_grow_factor p\<rfloor>
           in if scaled < 2 ^ 64 then Inr (of_nat scaled) else Inl Signed_Overflow
      else Inr (bp_per_chunk p))"

definition legacy_Expand :: "new_oracle \<Rightarrow> LegacyPool \<times> heap \<Rightarrow> (LegacyPool \<times> heap) comp" where
  "legacy_Expand new = (\<lambda>(p, h).
     if 0 < lp_max_chunks p \<and> lp_max_chunks p \<le> of_nat (length (bp_chunks p)) then Inr (p, h)
     else rbind (legacy_blocks p) (\<lambda>blocks. rbind (grow_by new blocks (p, h)) (\<lambda>(p', h').
       Inr (p'\<lparr>lp_total_allocated := lp_total_allocated p' + blocks * bp_block p'\<rparr>, h'))))"

definition legacy_new :: "new_oracle \<Rightarrow> size_t \<Rightarrow> size_t \<Rightarrow> heap \<Rightarrow> (LegacyPool \<times> heap) comp" where
  "legacy_new new block_size blocks_per_chunk h =
     legacy_Expand new (\<lparr>bp_head = nullptr, bp_chunks = [], bp_block = align_up block_size 16,
       bp_per_chunk = blocks_per_chunk, lp_max_chunks = 0, lp_grow_factor = 1, lp_is_expanding = False,
       lp_total_allocated = 0, lp_total_freed = 0\<rparr>, h)"

definition set_expanding :: "bool \<Rightarrow> LegacyPool \<times> heap \<Rightarrow> LegacyPool \<times> heap" where
  "set_expanding b = (\<lambda>(p, h). (p\<lparr>lp_is_expanding := b\<rparr>, h))"

definition add_freed :: "size_t \<Rightarrow> LegacyPool \<times> heap \<Rightarrow> LegacyPool \<times> heap" where
  "add_freed d = (\<lambda>(p, h). (p\<lparr>lp_total_freed := lp_total_freed p + d\<rparr>, h))"

definition legacy_Allocate :: "new_oracle \<Rightarrow> LegacyPool \<times> heap \<Rightarrow> (ptr \<times> LegacyPool \<times> heap) comp" where
  "legacy_Allocate new s =
     rbind (pool_Pop s) (\<lambda>(ptr, s1).
     rbind (if ptr \<noteq> nullptr then Inr (ptr, s1)
            else if lp_is_expanding (fst s1) then pool_Pop s1
            else rbind (legacy_Expand new (set_expanding True s1)) (\<lambda>s2. pool_Pop (set_expanding False s2)))
       (\<lambda>(ptr', s2).
         Inr (ptr', if ptr' \<noteq> nullptr then add_freed (- bp_block (fst s2)) s2 else s2)))"

definition legacy_Deallocate :: "ptr \<Rightarrow> LegacyPool \<times> heap \<Rightarrow> (LegacyPool \<times> heap) comp" where
  "legacy_Deallocate ptr s =
     (if ptr \<noteq> nullptr then rbind (pool_Push ptr s) (\<lambda>s'. Inr (add_freed (bp_block (fst s')) s')) else Inr s)"

definition legacy_SetMaxChunks :: "size_t \<Rightarrow> LegacyPool \<Rightarrow> LegacyPool" where
  "legacy_SetMaxChunks n p = p\<lparr>lp_max_chunks := n\<rparr>"

definition legacy_SetGrowFactor :: "rat \<Rightarrow> LegacyPool \<Rightarrow> LegacyPool" where
  "legacy_SetGrowFactor f p = p\<lparr>lp_grow_factor := f\<rparr>"

text \<open>\<open>FixedSizePoolBridge\<close>: the pool behind the \<open>Allocator\<close> interface.\<close>

definition fixed_bridge_allocate :: "new_oracle \<Rightarrow> size_t \<Rightarrow> LegacyPool \<times> heap \<Rightarrow> (ptr \<times> LegacyPool \<times> heap) comp" where
  "fixed_bridge_allocate new bytes s =
     (if bytes \<noteq> bp_block (fst s) then Inr (nullptr, s) else legacy_Allocate new s)"

definition fixed_bridge_deallocate :: "ptr \<Rightarrow> LegacyPool \<times> heap \<Rightarrow> (LegacyPool \<times> heap) comp" where
  "fixed_bridge_deallocate ptr s = legacy_Deallocate ptr s"

definition fixed_bridge_allocated_bytes :: "LegacyPool \<Rightarrow> size_t" where
  "fixed_bridge_allocated_bytes p = lp_total_allocated p"

section \<open>The bridge is a block allocator\<close>

definition legacy_sizes_ok :: "LegacyPool \<Rightarrow> bool" where
  "legacy_sizes_ok p \<longleftrightarrow> unat (bp_block p) * unat (bp_per_chunk p) < 2 ^ 64 \<and>
     (1 < lp_grow_factor p \<longrightarrow>
        unat (bp_block p) * nat \<lfloor>of_nat (unat (bp_per_chunk p)) * lp_grow_factor p\<rfloor> < 2 ^ 64)"

definition legacy_inv :: "new_oracle \<Rightarrow> LegacyPool \<times> heap \<Rightarrow> bool" where
  "legacy_inv new s \<longleftrightarrow> fresh_new new \<and> pool_inv s \<and> \<not> lp_is_expanding (fst s) \<and> legacy_sizes_ok (fst s) \<and>
     lp_total_allocated (fst s) = of_nat (length (pool_blocks s)) * bp_block (fst s)"

text \<open>The invariant of the pool does not look at the fields the extension adds.\<close>

lemma legacy_fields [simp]:
  "pool_inv (p\<lparr>lp_is_expanding := b\<rparr>, h) = pool_inv (p, h)" "pool_live (p\<lparr>lp_is_expanding := b\<rparr>, h) = pool_live (p, h)"
  "pool_inv (p\<lparr>lp_total_freed := x\<rparr>, h) = pool_inv (p, h)" "pool_live (p\<lparr>lp_total_freed := x\<rparr>, h) = pool_live (p, h)"
  "pool_inv (p\<lparr>lp_total_allocated := x\<rparr>, h) = pool_inv (p, h)"
  "pool_live (p\<lparr>lp_total_allocated := x\<rparr>, h) = pool_live (p, h)"
  "pool_blocks (p\<lparr>lp_is_expanding := b\<rparr>, h) = pool_blocks (p, h)"
  "pool_blocks (p\<lparr>lp_total_freed := x\<rparr>, h) = pool_blocks (p, h)"
  "pool_blocks (p\<lparr>lp_total_allocated := x\<rparr>, h) = pool_blocks (p, h)"
  by (simp_all add: pool_inv_def pool_live_def pool_free_def pool_blocks_def free_list_def chunks_ok_def)

lemma legacy_blocks_ok:
  assumes "legacy_sizes_ok p" and "0 < unat (bp_block p)"
  shows "\<exists>n. legacy_blocks p = Inr n \<and> unat (bp_block p) * unat n < 2 ^ 64"
proof (cases "1 < lp_grow_factor p \<and> bp_chunks p \<noteq> []")
  case True
  define scaled where "scaled = nat \<lfloor>of_nat (unat (bp_per_chunk p)) * lp_grow_factor p\<rfloor>"
  have fit: "unat (bp_block p) * scaled < 2 ^ 64" using assms(1) True unfolding legacy_sizes_ok_def scaled_def by blast
  have "1 * scaled \<le> unat (bp_block p) * scaled" using assms(2) by (intro mult_le_mono1) simp
  with fit have less: "scaled < 2 ^ 64" by linarith
  have n: "unat (of_nat scaled :: size_t) = scaled" using less by (simp add: unat_of_nat_size)
  have "legacy_blocks p = Inr (of_nat scaled)"
    unfolding legacy_blocks_def Let_def scaled_def [symmetric] using True less by simp
  with fit n show ?thesis by metis
next
  case False
  with assms(1) show ?thesis by (auto simp: legacy_blocks_def legacy_sizes_ok_def)
qed

lemma pool_inv_block_size: "pool_inv s \<Longrightarrow> 8 \<le> unat (bp_block (fst s))"
  by (cases s) (simp add: pool_inv_def chunks_ok_def pointer_size_def)

definition legacy_more :: "LegacyPool \<Rightarrow> size_t \<times> rat \<times> bool \<times> size_t \<times> size_t" where
  "legacy_more p = (lp_max_chunks p, lp_grow_factor p, lp_is_expanding p, lp_total_allocated p, lp_total_freed p)"

lemma pool_effect_legacy:
  fixes s s' :: "LegacyPool \<times> heap"
  assumes "pool_effect s s' new free"
  shows "legacy_more (fst s') = legacy_more (fst s)"
  using assms by (auto simp: pool_effect_def legacy_more_def)

lemma legacy_Expand_ok:
  assumes "fresh_new new" and inv: "pool_inv (p, h)" and "legacy_sizes_ok p"
    and "lp_total_allocated p = of_nat (length (pool_blocks (p, h))) * bp_block p"
  shows "legacy_Expand new (p, h) = Inl Bad_Alloc \<or>
    (\<exists>p' h'. legacy_Expand new (p, h) = Inr (p', h') \<and> pool_inv (p', h') \<and>
       pool_live (p', h') = pool_live (p, h) \<and> bp_block p' = bp_block p \<and>
       bp_per_chunk p' = bp_per_chunk p \<and> lp_max_chunks p' = lp_max_chunks p \<and>
       lp_grow_factor p' = lp_grow_factor p \<and> lp_is_expanding p' = lp_is_expanding p \<and>
       lp_total_allocated p' = of_nat (length (pool_blocks (p', h'))) * bp_block p')"
proof (cases "0 < lp_max_chunks p \<and> lp_max_chunks p \<le> of_nat (length (bp_chunks p))")
  case True
  with assms show ?thesis by (simp add: legacy_Expand_def)
next
  case False
  have "0 < unat (bp_block p)" using pool_inv_block_size [OF inv] by simp
  then obtain n where n: "legacy_blocks p = Inr n" "unat (bp_block p) * unat n < 2 ^ 64"
    using legacy_blocks_ok assms(3) by blast
  from grow_by_ok [OF inv assms(1) n(2)] show ?thesis
  proof
    assume "grow_by new n (p, h) = Inl Bad_Alloc"
    then have "legacy_Expand new (p, h) = Inl Bad_Alloc" unfolding legacy_Expand_def using False n(1) by auto
    then show ?thesis ..
  next
    assume "\<exists>s' blocks. grow_by new n (p, h) = Inr s' \<and> length blocks = unat n \<and>
       set (pool_blocks (p, h)) \<inter> set blocks = {} \<and>
       pool_effect (p, h) s' blocks (rev blocks @ pool_free (p, h))"
    then obtain p1 h1 blocks where g: "grow_by new n (p, h) = Inr (p1, h1)" "length blocks = unat n"
      "set (pool_blocks (p, h)) \<inter> set blocks = {}"
      "pool_effect (p, h) (p1, h1) blocks (rev blocks @ pool_free (p, h))" by auto
    have live: "pool_live (p1, h1) = pool_live (p, h)"
      using pool_effect_live [OF inv g(4) g(3), of "set (pool_free (p, h))"] pool_free_blocks [OF inv]
      by (simp add: pool_live_def)
    have total: "(of_nat (length (pool_blocks (p1, h1))) :: size_t) = of_nat (length (pool_blocks (p, h))) + n"
      using g(2,4) by (simp add: pool_effect_def)
    note f = pool_effect_fields [OF g(4)] pool_effect_legacy [OF g(4), unfolded legacy_more_def]
    have "legacy_Expand new (p, h) = Inr (p1\<lparr>lp_total_allocated := lp_total_allocated p1 + n * bp_block p1\<rparr>, h1)"
      unfolding legacy_Expand_def using False n(1) g(1) by auto
    with live total f assms(4) show ?thesis by (simp add: algebra_simps)
  qed
qed

lemma set_expanding_state [simp]:
  "legacy_sizes_ok (p\<lparr>lp_is_expanding := b\<rparr>) = legacy_sizes_ok p"
  "legacy_sizes_ok (p\<lparr>lp_total_freed := x\<rparr>) = legacy_sizes_ok p"
  by (simp_all add: legacy_sizes_ok_def)

definition alloc_result :: "new_oracle \<Rightarrow> LegacyPool \<times> heap \<Rightarrow> ptr \<Rightarrow> LegacyPool \<times> heap \<Rightarrow> bool" where
  "alloc_result new s q s' \<longleftrightarrow> legacy_inv new s' \<and>
     (if q = nullptr then pool_live s' = pool_live s else q \<notin> pool_live s \<and> pool_live s' = insert q (pool_live s))"

lemma legacy_effect_inv:
  assumes "legacy_inv new s" and "pool_effect s s' [] free"
  shows "legacy_inv new s'"
  using assms(1) pool_effect_fields [OF assms(2)] pool_effect_legacy [OF assms(2)] assms(2)
  by (simp add: legacy_inv_def legacy_more_def legacy_sizes_ok_def pool_effect_def)

lemma legacy_Pop_ok:
  assumes "legacy_inv new s"
  shows "\<exists>q s'. pool_Pop s = Inr (q, s') \<and> alloc_result new s q s' \<and> (q = nullptr \<longrightarrow> s' = s)"
proof -
  have p: "pool_inv s" using assms by (simp add: legacy_inv_def)
  show ?thesis
  proof (cases "pool_free s")
    case Nil
    with pool_Pop_ok [OF p] assms show ?thesis by (simp add: alloc_result_def)
  next
    case (Cons x xs)
    with pool_Pop_ok [OF p] obtain s' where s': "pool_Pop s = Inr (x, s')" "x \<noteq> nullptr" "pool_effect s s' [] xs"
      by auto
    with legacy_effect_inv [OF assms s'(3)] pool_Pop_live [OF p Cons s'(3)] show ?thesis
      by (simp add: alloc_result_def)
  qed
qed

lemma add_freed_result:
  "alloc_result new s q s' \<Longrightarrow> alloc_result new s q (if q \<noteq> nullptr then add_freed d s' else s')"
  by (cases s') (auto simp: alloc_result_def add_freed_def legacy_inv_def legacy_sizes_ok_def)

lemma legacy_Allocate_ok:
  assumes inv: "legacy_inv new s"
  shows "legacy_Allocate new s = Inl Bad_Alloc \<or>
    (\<exists>q s'. legacy_Allocate new s = Inr (q, s') \<and> alloc_result new s q s')"
proof -
  obtain q s1 where q: "pool_Pop s = Inr (q, s1)" "alloc_result new s q s1" "q = nullptr \<longrightarrow> s1 = s"
    using legacy_Pop_ok [OF inv] by blast
  show ?thesis
  proof (cases "q = nullptr")
    case False
    with q add_freed_result [OF q(2)] show ?thesis by (simp add: legacy_Allocate_def)
  next
    case True
    obtain p h where s: "s = (p, h)" by (cases s)
    have I: "fresh_new new" "pool_inv (p, h)" "legacy_sizes_ok p" "\<not> lp_is_expanding p"
      "lp_total_allocated p = of_nat (length (pool_blocks (p, h))) * bp_block p"
      using inv by (simp_all add: legacy_inv_def s)
    have E: "legacy_Expand new (set_expanding True s) = Inl Bad_Alloc \<or>
      (\<exists>s2. legacy_Expand new (set_expanding True s) = Inr s2 \<and> legacy_inv new (set_expanding False s2) \<and>
         pool_live (set_expanding False s2) = pool_live s)"
      using legacy_Expand_ok [of new "p\<lparr>lp_is_expanding := True\<rparr>" h] I
      by (auto simp: s set_expanding_def legacy_inv_def legacy_sizes_ok_def)
    show ?thesis
    proof (cases "legacy_Expand new (set_expanding True s) = Inl Bad_Alloc")
      case True
      with q \<open>q = nullptr\<close> I(4) show ?thesis by (simp add: legacy_Allocate_def s)
    next
      case False
      with E obtain s2 where s2: "legacy_Expand new (set_expanding True s) = Inr s2"
        "legacy_inv new (set_expanding False s2)" "pool_live (set_expanding False s2) = pool_live s" by blast
      obtain q' s3 where p3: "pool_Pop (set_expanding False s2) = Inr (q', s3)"
        "alloc_result new (set_expanding False s2) q' s3"
        using legacy_Pop_ok [OF s2(2)] by blast
      have "alloc_result new s q' s3" using p3(2) s2(3) unfolding alloc_result_def by metis
      from add_freed_result [OF this] q True I(4) s2(1) p3(1) show ?thesis
        by (simp add: legacy_Allocate_def s)
    qed
  qed
qed

lemma legacy_Deallocate_ok:
  assumes inv: "legacy_inv new s" and b: "b \<in> pool_live s"
  shows "\<exists>s'. legacy_Deallocate b s = Inr s' \<and> legacy_inv new s' \<and> pool_live s' = pool_live s - {b}"
proof -
  have p: "pool_inv s" using inv by (simp add: legacy_inv_def)
  from pool_Push_ok [OF p b] obtain s' where s': "pool_Push b s = Inr s'"
    "pool_effect s s' [] (b # pool_free s)" by blast
  have "pool_live s' = pool_live s - {b}" using s'(2) by (auto simp: pool_effect_def pool_live_def)
  moreover have "b \<noteq> nullptr" using pool_live_nonnull [OF p] b by metis
  moreover have "legacy_inv new (add_freed d s')" for d
    using legacy_effect_inv [OF inv s'(2)] by (cases s') (simp add: add_freed_def legacy_inv_def)
  moreover have "pool_live (add_freed d s') = pool_live s'" for d by (cases s') (simp add: add_freed_def)
  ultimately show ?thesis using s'(1) by (simp add: legacy_Deallocate_def)
qed

lemma legacy_write_ok:
  assumes inv: "legacy_inv new s" and b: "b \<in> pool_live s"
  shows "\<exists>s'. pool_write b v s = Inr s' \<and> legacy_inv new s' \<and> pool_live s' = pool_live s"
proof -
  have p: "pool_inv s" using inv by (simp add: legacy_inv_def)
  from pool_write_ok [OF p b] obtain s' where s': "pool_write b v s = Inr s'"
    "pool_effect s s' [] (pool_free s)" by blast
  have "pool_live s' = pool_live s" using s'(2) by (auto simp: pool_effect_def pool_live_def)
  with s' legacy_effect_inv [OF inv s'(2)] show ?thesis by blast
qed

interpretation fixed_bridge: block_allocator "legacy_inv new" pool_live "fixed_bridge_allocate new"
  fixed_bridge_deallocate pool_write
proof unfold_locales
  fix s r assume inv: "legacy_inv new s"
  then show "nullptr \<notin> pool_live s" by (simp add: pool_live_nonnull legacy_inv_def)
  show "fixed_bridge_allocate new r s = Inl Bad_Alloc \<or> (\<exists>p s'. fixed_bridge_allocate new r s = Inr (p, s') \<and>
      legacy_inv new s' \<and>
      (if p = nullptr then pool_live s' = pool_live s else p \<notin> pool_live s \<and> pool_live s' = insert p (pool_live s)))"
    using legacy_Allocate_ok [OF inv] inv unfolding fixed_bridge_allocate_def alloc_result_def
    by (cases "r = bp_block (fst s)") auto
  show "\<exists>s'. fixed_bridge_deallocate p s = Inr s' \<and> legacy_inv new s' \<and> pool_live s' = pool_live s - {p}"
    if "p \<in> pool_live s" for p
    using legacy_Deallocate_ok [OF inv that] by (simp add: fixed_bridge_deallocate_def)
qed (erule (1) legacy_write_ok)

section \<open>Limits and counters\<close>

definition chunk_limit :: "LegacyPool \<Rightarrow> bool" where
  "chunk_limit p \<longleftrightarrow> 0 < lp_max_chunks p \<longrightarrow> length (bp_chunks p) \<le> unat (lp_max_chunks p)"

text \<open>The limit on the chunks, and what \<open>total_freed_\<close> really counts: minus the bytes handed out.\<close>

definition legacy_account :: "size_t \<Rightarrow> size_t \<Rightarrow> nat \<Rightarrow> LegacyPool \<times> heap \<Rightarrow> bool" where
  "legacy_account m bs n s \<longleftrightarrow> chunk_limit (fst s) \<and> lp_max_chunks (fst s) = m \<and> bp_block (fst s) = bs \<and>
     lp_total_freed (fst s) = - (of_nat n * bs)"

lemma pool_ops_account:
  "pool_Pop s = Inr (q, s') \<Longrightarrow> legacy_account m bs n s' = legacy_account m bs n s"
  "pool_Push b s = Inr s' \<Longrightarrow> legacy_account m bs n s' = legacy_account m bs n s"
  "pool_write b v s = Inr s' \<Longrightarrow> legacy_account m bs n s' = legacy_account m bs n s"
  by (cases s; auto simp: pool_Pop_def pool_Push_def pool_write_def rbind_eq_Inr legacy_account_def
      chunk_limit_def split: prod.splits)+

lemma set_expanding_account [simp]: "legacy_account m bs n (set_expanding b s) = legacy_account m bs n s"
  by (cases s) (simp add: set_expanding_def legacy_account_def chunk_limit_def)

lemma grow_by_account:
  assumes "grow_by new k (p, h) = Inr (p', h')" and "legacy_account m bs n (p, h)"
    and "lp_max_chunks p \<le> of_nat (length (bp_chunks p)) \<longrightarrow> lp_max_chunks p = 0"
  shows "legacy_account m bs n (p', h')"
proof -
  obtain page head where p': "p' = p\<lparr>bp_chunks := bp_chunks p @ [page], bp_head := head\<rparr>"
    using assms(1) by (auto simp: grow_by_def rbind_eq_Inr split: prod.splits)
  have "length (bp_chunks p) < unat (lp_max_chunks p)" if "0 < lp_max_chunks p"
  proof -
    have le: "length (bp_chunks p) \<le> unat (lp_max_chunks p)"
      using assms(2) that by (auto simp: legacy_account_def chunk_limit_def)
    have "of_nat (length (bp_chunks p)) < lp_max_chunks p" using assms(3) that by auto
    then have "unat (of_nat (length (bp_chunks p)) :: size_t) < unat (lp_max_chunks p)" by (simp only: word_less_nat_alt)
    moreover have "unat (of_nat (length (bp_chunks p)) :: size_t) = length (bp_chunks p)"
      using le unat_less_mult [of "lp_max_chunks p"] by (intro unat_of_nat_size) linarith
    ultimately show ?thesis by (simp only:)
  qed
  with assms(2) show ?thesis by (auto simp: p' legacy_account_def chunk_limit_def)
qed

lemma legacy_Expand_account:
  assumes "legacy_Expand new s = Inr s'" and "legacy_account m bs n s"
  shows "legacy_account m bs n s'"
proof (cases s)
  case (Pair p h)
  show ?thesis
  proof (cases "0 < lp_max_chunks p \<and> lp_max_chunks p \<le> of_nat (length (bp_chunks p))")
    case True
    with assms Pair show ?thesis by (simp add: legacy_Expand_def)
  next
    case False
    with assms(1) Pair obtain blocks p1 h1 where g: "grow_by new blocks (p, h) = Inr (p1, h1)"
      "s' = (p1\<lparr>lp_total_allocated := lp_total_allocated p1 + blocks * bp_block p1\<rparr>, h1)"
      by (auto simp: legacy_Expand_def rbind_eq_Inr)
    have "lp_max_chunks p \<le> of_nat (length (bp_chunks p)) \<longrightarrow> lp_max_chunks p = 0"
      using False by (cases "lp_max_chunks p = 0") (simp_all add: word_gt_0)
    from grow_by_account [OF g(1) assms(2) [unfolded Pair] this] g(2) show ?thesis
      by (auto simp: legacy_account_def chunk_limit_def)
  qed
qed

lemma legacy_Allocate_account:
  assumes "legacy_Allocate new s = Inr (q, s')" and acc: "legacy_account m bs n s"
  shows "legacy_account m bs (if q = nullptr then n else Suc n) s'"
proof -
  obtain q1 s1 where q1: "pool_Pop s = Inr (q1, s1)"
    using assms(1) by (auto simp: legacy_Allocate_def rbind_eq_Inr)
  have a1: "legacy_account m bs n s1" using pool_ops_account(1) [OF q1] acc by simp
  obtain s2 where s2: "s' = (if q \<noteq> nullptr then add_freed (- bp_block (fst s2)) s2 else s2)"
    "(if q1 \<noteq> nullptr then Inr (q1, s1) else if lp_is_expanding (fst s1) then pool_Pop s1
      else rbind (legacy_Expand new (set_expanding True s1)) (\<lambda>s2. pool_Pop (set_expanding False s2))) = Inr (q, s2)"
    using assms(1) q1 by (auto simp: legacy_Allocate_def rbind_eq_Inr)
  have "legacy_account m bs n s2"
  proof (cases "q1 \<noteq> nullptr \<or> lp_is_expanding (fst s1)")
    case True
    with s2(2) a1 show ?thesis by (auto split: if_splits dest: pool_ops_account(1))
  next
    case False
    then obtain t where t: "legacy_Expand new (set_expanding True s1) = Inr t" "pool_Pop (set_expanding False t) = Inr (q, s2)"
      using s2(2) by (auto simp: rbind_eq_Inr)
    have "legacy_account m bs n t" using legacy_Expand_account [OF t(1)] a1 by simp
    with pool_ops_account(1) [OF t(2)] show ?thesis by simp
  qed
  then show ?thesis
    unfolding s2(1) by (cases s2) (auto simp: legacy_account_def add_freed_def chunk_limit_def algebra_simps)
qed

lemma legacy_Deallocate_account:
  assumes "legacy_Deallocate b s = Inr s'" and "legacy_account m bs (Suc n) s" and "b \<noteq> nullptr"
  shows "legacy_account m bs n s'"
proof -
  obtain s1 where s1: "pool_Push b s = Inr s1" "s' = add_freed (bp_block (fst s1)) s1"
    using assms(1,3) by (auto simp: legacy_Deallocate_def rbind_eq_Inr)
  have a: "legacy_account m bs (Suc n) s1" using pool_ops_account(2) [OF s1(1)] assms(2) by blast
  have "bs + - (of_nat (Suc n) * bs) = - (of_nat n * bs)" by (simp add: algebra_simps)
  with a show ?thesis unfolding s1(2)
    by (cases s1) (auto simp: legacy_account_def add_freed_def chunk_limit_def add.commute simp del: of_nat_Suc)
qed

section \<open>Properties\<close>

text \<open>
  For an alignment that is a power of two, \<open>align_up\<close> gives the least multiple of it that is not
  below the size, as long as that multiple is representable.
\<close>

theorem align_up_least:
  assumes "n < 64" and "unat sz + 2 ^ n \<le> 2 ^ 64"
  shows "2 ^ n dvd unat (align_up sz (2 ^ n)) \<and> unat sz \<le> unat (align_up sz (2 ^ n)) \<and>
    (\<forall>m. 2 ^ n dvd m \<and> unat sz \<le> m \<longrightarrow> unat (align_up sz (2 ^ n)) \<le> m)"
proof -
  let ?a = "2 ^ n :: nat" and ?s = "unat sz"
  have v: "unat (align_up sz (2 ^ n)) = (?s + ?a - 1) div ?a * ?a" using align_up_value [OF assms] .
  have a: "0 < ?a" by simp
  have "?s \<le> (?s + ?a - 1) div ?a * ?a"
    using div_mult_mod_eq [of "?s + ?a - 1" ?a] mod_less_divisor [OF a, of "?s + ?a - 1"] by linarith
  moreover have "(?s + ?a - 1) div ?a * ?a \<le> m" if mult: "?a dvd m" "?s \<le> m" for m
  proof -
    obtain k where "m = ?a * k" using mult(1) unfolding dvd_def by blast
    then have k: "m = k * ?a" by (simp only: mult.commute)
    have "Suc k * ?a = k * ?a + ?a" by (simp only: mult_Suc add.commute)
    then have "?s + ?a - 1 < Suc k * ?a" using mult(2) k a by linarith
    then have "(?s + ?a - 1) div ?a < Suc k" using div_less_iff_less_mult [OF a] by blast
    then have "(?s + ?a - 1) div ?a \<le> k" by (simp only: less_Suc_eq_le)
    then show ?thesis unfolding k by (rule mult_le_mono1)
  qed
  ultimately show ?thesis unfolding v by (meson dvd_triv_right)
qed

lemma align_up_least_witness:
  "unat (align_up 100 16) = 112 \<and> 16 dvd unat (align_up 100 16) \<and> 100 \<le> unat (align_up 100 16)"
  using align_up_least [of 4 100] align_up_value [of 4 100] by simp

lemma align_up_16:
  assumes "0 < block_size" and "unat block_size + 16 \<le> 2 ^ 64"
  shows "16 \<le> unat (align_up block_size 16)"
proof -
  have "16 dvd unat (align_up block_size 16)" "unat block_size \<le> unat (align_up block_size 16)"
    using align_up_value [of 4 block_size] assms(2) by auto
  moreover have "0 < unat block_size" using assms(1) by (simp add: word_less_nat_alt)
  ultimately show ?thesis by (auto dest: dvd_imp_le)
qed

lemma legacy_new_ok:
  assumes "fresh_new new" and "heap_ok h" and "0 < block_size" and "unat block_size + 16 \<le> 2 ^ 64"
    and "unat (align_up block_size 16) * unat blocks_per_chunk < 2 ^ 64"
    and run: "legacy_new new block_size blocks_per_chunk h = Inr s"
  shows "legacy_inv new s" and "pool_live s = {}"
    and "legacy_account 0 (align_up block_size 16) 0 s" and "length (bp_chunks (fst s)) = 1"
proof -
  let ?p = "\<lparr>bp_head = nullptr, bp_chunks = [], bp_block = align_up block_size 16,
       bp_per_chunk = blocks_per_chunk, lp_max_chunks = 0, lp_grow_factor = 1, lp_is_expanding = False,
       lp_total_allocated = 0, lp_total_freed = 0\<rparr>"
  have blocks: "pool_blocks (?p, h) = []" by (simp add: pool_blocks_def)
  have "free_list (?p, h) []" by (simp add: free_list_def)
  then have inv: "pool_inv (?p, h)"
    using assms(2) align_up_16 [OF assms(3,4)] by (auto simp: pool_inv_def chunks_ok_def pointer_size_def)
  have sizes: "legacy_sizes_ok ?p" using assms(5) by (simp add: legacy_sizes_ok_def)
  have run': "legacy_Expand new (?p, h) = Inr s" using run unfolding legacy_new_def .
  obtain p' h' where s: "s = (p', h')" by (cases s)
  have "lp_total_allocated ?p = of_nat (length (pool_blocks (?p, h))) * bp_block ?p" by (simp add: blocks)
  from legacy_Expand_ok [OF assms(1) inv sizes this] run' s
  have E: "pool_inv (p', h')" "pool_live (p', h') = pool_live (?p, h)" "bp_block p' = bp_block ?p"
    "bp_per_chunk p' = bp_per_chunk ?p" "lp_grow_factor p' = lp_grow_factor ?p" "lp_is_expanding p' = lp_is_expanding ?p"
    "lp_total_allocated p' = of_nat (length (pool_blocks (p', h'))) * bp_block p'" by auto
  show "pool_live s = {}" using E(2) blocks by (simp add: s pool_live_def)
  show "legacy_inv new s" using E assms(1,5) by (simp add: s legacy_inv_def legacy_sizes_ok_def)
  show "legacy_account 0 (align_up block_size 16) 0 s"
    by (rule legacy_Expand_account [OF run']) (simp add: legacy_account_def chunk_limit_def)
  show "length (bp_chunks (fst s)) = 1"
    using run' by (auto simp: legacy_Expand_def grow_by_def rbind_eq_Inr split: prod.splits)
qed

text \<open>
  Any client of the pool behind the \<open>Allocator\<close> interface, with any limit on the chunks, holds
  distinct blocks that do not overlap and lie in memory of the pool; the pool never exceeds its
  limit; \<open>allocated_bytes\<close> is the capacity of the pool, and \<open>TotalFreedBytes\<close> is minus the number of
  bytes the client holds, modulo 2^64.
\<close>

theorem fixed_bridge_client_safe:
  assumes "fresh_new new" and "heap_ok h" and "0 < block_size" and "unat block_size + 16 \<le> 2 ^ 64"
    and "unat (align_up block_size 16) * unat blocks_per_chunk < 2 ^ 64"
    and "legacy_new new block_size blocks_per_chunk h = Inr (p0, h0)"
  shows "run_client (fixed_bridge_allocate new) fixed_bridge_deallocate pool_write ops
       ([], legacy_SetMaxChunks limit p0, h0) = Inl Bad_Alloc \<or>
    (\<exists>held p h'. run_client (fixed_bridge_allocate new) fixed_bridge_deallocate pool_write ops
       ([], legacy_SetMaxChunks limit p0, h0) = Inr (held, p, h') \<and>
     distinct held \<and> nullptr \<notin> set held \<and> set held = set (pool_blocks (p, h')) - set (pool_free (p, h')) \<and>
     (\<forall>b \<in> set held. \<forall>b' \<in> set held. b \<noteq> b' \<longrightarrow>
        b + unat (bp_block p) \<le> b' \<or> b' + unat (bp_block p) \<le> b) \<and>
     (0 < limit \<longrightarrow> length (bp_chunks p) \<le> unat limit) \<and>
     fixed_bridge_allocated_bytes p = of_nat (length (pool_blocks (p, h'))) * align_up block_size 16 \<and>
     lp_total_freed p = - (of_nat (length held) * align_up block_size 16))"
proof -
  let ?s = "(legacy_SetMaxChunks limit p0, h0)" and ?bs = "align_up block_size 16"
  let ?run = "run_client (fixed_bridge_allocate new) fixed_bridge_deallocate pool_write ops ([], ?s)"
  note N = legacy_new_ok [OF assms]
  have inv: "legacy_inv new ?s" "pool_live ?s = {}"
    using N(1,2) by (simp_all add: legacy_inv_def legacy_SetMaxChunks_def legacy_sizes_ok_def pool_inv_def
        pool_live_def pool_free_def pool_blocks_def free_list_def chunks_ok_def)
  have "0 < limit \<Longrightarrow> 1 \<le> unat limit" by (simp add: word_less_nat_alt)
  then have acc: "legacy_account limit ?bs 0 ?s"
    using N(3,4) by (simp add: legacy_account_def chunk_limit_def legacy_SetMaxChunks_def)
  have "set [] = pool_live ?s" using inv(2) by simp
  from fixed_bridge.run_client_safe [OF inv(1) distinct.simps(1) [THEN iffD2, OF TrueI] this, of ops]
  show ?thesis
  proof
    assume "\<exists>held' s'. ?run = Inr (held', s') \<and> legacy_inv new s' \<and>
       distinct held' \<and> set held' = pool_live s' \<and> nullptr \<notin> set held'"
    then obtain held p h' where r: "?run = Inr (held, p, h')" "legacy_inv new (p, h')" "distinct held"
      "set held = pool_live (p, h')" "nullptr \<notin> set held" by auto
    define J where "J = (\<lambda>held s. nullptr \<notin> set held \<and> legacy_account limit ?bs (length held) s)"
    have "J held (p, h')"
      using r(1)
    proof (rule run_client_preserves)
      show "J [] ?s" using acc by (simp add: J_def)
      show "J (if q = nullptr then held else q # held) s'"
        if "J held s" "fixed_bridge_allocate new r s = Inr (q, s')" for held s r q s'
        using that legacy_Allocate_account [of new s q s' limit ?bs "length held"]
        by (auto simp: J_def fixed_bridge_allocate_def split: if_splits)
      show "J (drop_nth i held) s'"
        if "J held s" "i < length held" "fixed_bridge_deallocate (held ! i) s = Inr s'" for held s i s'
      proof -
        have "held ! i \<noteq> nullptr" using that(1,2) nth_mem unfolding J_def by metis
        moreover have "length held = Suc (length held - 1)" using that(2) by simp
        ultimately have "legacy_account limit ?bs (length held - 1) s'"
          using legacy_Deallocate_account [of "held ! i" s s' limit ?bs "length held - 1"] that(1,3)
          by (simp add: J_def fixed_bridge_deallocate_def)
        with that(1,2) set_drop_nth_subset [of i held] show ?thesis by (auto simp: J_def length_drop_nth)
      qed
      show "J held s'" if "J held s" "pool_write (held ! i) v s = Inr s'" for held s i v s'
        using that pool_ops_account(3) [OF that(2)] by (simp add: J_def)
    qed
    then have final: "legacy_account limit ?bs (length held) (p, h')" by (simp add: J_def)
    have ok: "chunks_ok (p, h')" using r(2) by (simp add: legacy_inv_def pool_inv_def)
    have held: "set held = set (pool_blocks (p, h')) - set (pool_free (p, h'))" using r(4) by (simp add: pool_live_def)
    have "b + unat (bp_block p) \<le> b' \<or> b' + unat (bp_block p) \<le> b"
      if "b \<in> set held" "b' \<in> set held" "b \<noteq> b'" for b b'
      using pool_blocks_apart [OF ok] that held by simp
    moreover have "fixed_bridge_allocated_bytes p = of_nat (length (pool_blocks (p, h'))) * ?bs"
      "lp_total_freed p = - (of_nat (length held) * ?bs)" "0 < limit \<longrightarrow> length (bp_chunks p) \<le> unat limit"
      using final r(2) by (auto simp: fixed_bridge_allocated_bytes_def legacy_account_def legacy_inv_def chunk_limit_def)
    ultimately show ?thesis using r(1,3,5) held by blast
  qed simp
qed

lemma fixed_bridge_client_safe_witness:
  "\<exists>p0 h0 held p h'. legacy_new bump_new 20 2 \<lparr>h_next = (\<lambda>_. 0), h_regions = []\<rparr> = Inr (p0, h0) \<and>
     run_client (fixed_bridge_allocate bump_new) fixed_bridge_deallocate pool_write
       [Get 32, Write 0 7, Get 32, Get 32, Give_Back 1, Get 20, Get 32] ([], legacy_SetMaxChunks 1 p0, h0)
       = Inr (held, p, h') \<and> length held = 2 \<and> distinct held \<and> lp_total_freed p = - 64"
proof -
  let ?h = "\<lparr>h_next = (\<lambda>_. 0), h_regions = []\<rparr> :: heap"
  let ?ops = "[Get 32, Write 0 7, Get 32, Get 32, Give_Back 1, Get 20, Get 32]"
  have al: "align_up 20 16 = 32" by (simp add: align_up_def)
  have "\<exists>p0 h0 held p h'. legacy_new bump_new 20 2 ?h = Inr (p0, h0) \<and>
     run_client (fixed_bridge_allocate bump_new) fixed_bridge_deallocate pool_write ?ops
       ([], legacy_SetMaxChunks 1 p0, h0) = Inr (held, p, h') \<and> length held = 2"
    by (simp add: legacy_new_def al legacy_Expand_def legacy_blocks_def legacy_SetMaxChunks_def fixed_bridge_allocate_def
        fixed_bridge_deallocate_def legacy_Allocate_def legacy_Deallocate_def set_expanding_def add_freed_def
        pool_write_def pool_Pop_def pool_Push_def lf_Pop_def lf_Push_def grow_by_def operator_new_def bump_new_def
        carve_def store_next_def load_next_def accessible_def pointer_size_def drop_nth_def upt_rec)
  then obtain p0 h0 held p h' where r: "legacy_new bump_new 20 2 ?h = Inr (p0, h0)"
    "run_client (fixed_bridge_allocate bump_new) fixed_bridge_deallocate pool_write ?ops
       ([], legacy_SetMaxChunks 1 p0, h0) = Inr (held, p, h')" "length held = 2" by blast
  have "heap_ok ?h" by (simp add: heap_ok_def)
  from fixed_bridge_client_safe [OF bump_new_fresh this _ _ _ r(1), of ?ops 1] r(2,3)
  have "distinct held" "lp_total_freed p = - 64" by (auto simp: al simp del: run_client.simps)
  with r show ?thesis by blast
qed

text \<open>A flag left set by an exception of \<open>operator new\<close> keeps the pool from growing ever again.\<close>

lemma stuck_flag_no_growth:
  "bp_head p = nullptr \<Longrightarrow> lp_is_expanding p \<Longrightarrow> legacy_Allocate new (p, h) = Inr (nullptr, p, h)"
  by (simp add: legacy_Allocate_def pool_Pop_def lf_Pop_def)

end
