(* ===== verification/Slab_Pool.thy ===== *)
theory Slab_Pool
  imports Block_Pool
begin

text \<open>
  The two slab allocators, \<open>memory::SlabAllocator\<close> and \<open>legacy_pool::SlabAllocator\<close>: eight block
  pools on one heap, one per size class, and \<open>SlabPoolBridge\<close>, which remembers the class of each
  block it handed out. \<open>Allocate\<close> is \<open>noexcept\<close>: where the model has \<open>Bad_Alloc\<close> the program
  terminates.
\<close>

section \<open>Size classes\<close>

definition kSizes :: "size_t list" where
  "kSizes = [16, 32, 64, 128, 256, 512, 1024, 4096]"

definition kSlabCount :: nat where "kSlabCount = 8"

definition kMaxSlabSize :: size_t where "kMaxSlabSize = 4096"

definition IndexFor :: "size_t \<Rightarrow> nat option" where
  "IndexFor sz = List.find (\<lambda>i. sz \<le> kSizes ! i) [0..<kSlabCount]"

definition CanAllocate :: "size_t \<Rightarrow> bool" where
  "CanAllocate sz = (IndexFor sz \<noteq> None)"

definition GetSlabSize :: "size_t \<Rightarrow> size_t" where
  "GetSlabSize sz = (case IndexFor sz of Some i \<Rightarrow> kSizes ! i | None \<Rightarrow> sz)"

text \<open>The legacy version sends every size above the largest class to the last class.\<close>

definition legacy_IndexFor :: "size_t \<Rightarrow> nat" where
  "legacy_IndexFor sz =
     (if sz > kSizes ! (kSlabCount - 1) then kSlabCount - 1
      else case List.find (\<lambda>i. sz \<le> kSizes ! i) [0..<kSlabCount] of Some i \<Rightarrow> i | None \<Rightarrow> kSlabCount - 1)"

definition legacy_GetSlabSize :: "size_t \<Rightarrow> size_t" where
  "legacy_GetSlabSize sz = kSizes ! legacy_IndexFor sz"

definition legacy_CanAllocate :: "size_t \<Rightarrow> bool" where
  "legacy_CanAllocate sz = (0 < sz \<and> sz \<le> kMaxSlabSize)"

lemma IndexFor_cases: "IndexFor sz =
  (if sz \<le> 16 then Some 0 else if sz \<le> 32 then Some 1 else if sz \<le> 64 then Some 2 else if sz \<le> 128 then Some 3
   else if sz \<le> 256 then Some 4 else if sz \<le> 512 then Some 5 else if sz \<le> 1024 then Some 6
   else if sz \<le> 4096 then Some 7 else None)"
  by (simp add: IndexFor_def kSizes_def kSlabCount_def upt_rec)

lemma IndexFor_None: "IndexFor sz = None \<longleftrightarrow> 4096 < sz"
  unfolding IndexFor_cases by (auto simp: word_less_nat_alt word_le_nat_alt)

lemma IndexFor_Some:
  assumes "IndexFor sz = Some i"
  shows "i < 8" and "sz \<le> kSizes ! i" and "\<forall>j < i. kSizes ! j < sz"
  using assms unfolding IndexFor_def
  by (auto simp: find_Some_iff kSlabCount_def not_le)

lemma legacy_IndexFor_eq: "legacy_IndexFor sz = (case IndexFor sz of Some i \<Rightarrow> i | None \<Rightarrow> 7)"
proof (cases "IndexFor sz")
  case None
  then have "4096 < sz" by (simp add: IndexFor_None)
  with None show ?thesis by (simp add: legacy_IndexFor_def kSlabCount_def kSizes_def)
next
  case (Some i)
  then have "\<not> 4096 < sz" using IndexFor_None by (metis option.distinct(1))
  with Some show ?thesis by (simp add: legacy_IndexFor_def kSlabCount_def IndexFor_def kSizes_def)
qed

lemma legacy_IndexFor_less: "legacy_IndexFor sz < 8"
  using IndexFor_Some(1) by (simp add: legacy_IndexFor_eq split: option.splits)

section \<open>Operations\<close>

type_synonym slabs = "BlockPool list"

definition SlabAllocator_new :: slabs where
  "SlabAllocator_new = map (\<lambda>sz. \<lparr>bp_head = nullptr, bp_chunks = [], bp_block = sz,
     bp_per_chunk = max 1 (kMaxSlabSize div sz)\<rparr>) kSizes"

definition legacy_SlabAllocator_new :: slabs where
  "legacy_SlabAllocator_new = map (\<lambda>sz. \<lparr>bp_head = nullptr, bp_chunks = [], bp_block = sz,
     bp_per_chunk = 256\<rparr>) kSizes"

text \<open>The part of \<open>Allocate\<close> after the class is known: the second \<open>Pop\<close> is made under the lock.\<close>

definition slab_take :: "new_oracle \<Rightarrow> BlockPool \<times> heap \<Rightarrow> (ptr \<times> BlockPool \<times> heap) comp" where
  "slab_take new s =
     rbind (pool_Pop s) (\<lambda>(ptr, s1).
       if ptr = nullptr
       then rbind (pool_Pop s1) (\<lambda>(ptr', s2).
         if ptr' = nullptr then rbind (grow_by new (bp_per_chunk (fst s2)) s2) pool_Pop else Inr (ptr', s2))
       else Inr (ptr, s1))"

definition slab_Allocate :: "new_oracle \<Rightarrow> size_t \<Rightarrow> slabs \<times> heap \<Rightarrow> (ptr \<times> slabs \<times> heap) comp" where
  "slab_Allocate new sz = (\<lambda>(ps, h).
     case IndexFor sz of
       None \<Rightarrow> Inr (nullptr, ps, h)
     | Some i \<Rightarrow> rbind (slab_take new (ps ! i, h)) (\<lambda>(ptr, p, h'). Inr (ptr, ps[i := p], h')))"

definition slab_Deallocate :: "ptr \<Rightarrow> size_t \<Rightarrow> slabs \<times> heap \<Rightarrow> (slabs \<times> heap) comp" where
  "slab_Deallocate ptr sz = (\<lambda>(ps, h).
     if ptr = nullptr then Inr (ps, h)
     else case IndexFor sz of
       None \<Rightarrow> Inr (ps, h)
     | Some i \<Rightarrow> rbind (pool_Push ptr (ps ! i, h)) (\<lambda>(p, h'). Inr (ps[i := p], h')))"

definition legacy_slab_Allocate :: "new_oracle \<Rightarrow> size_t \<Rightarrow> slabs \<times> heap \<Rightarrow> (ptr \<times> slabs \<times> heap) comp" where
  "legacy_slab_Allocate new sz = (\<lambda>(ps, h).
     if \<not> legacy_CanAllocate sz then Inr (nullptr, ps, h)
     else let i = legacy_IndexFor sz in
       rbind (slab_take new (ps ! i, h)) (\<lambda>(ptr, p, h'). Inr (ptr, ps[i := p], h')))"

definition legacy_slab_Deallocate :: "ptr \<Rightarrow> size_t \<Rightarrow> slabs \<times> heap \<Rightarrow> (slabs \<times> heap) comp" where
  "legacy_slab_Deallocate ptr sz = (\<lambda>(ps, h).
     if ptr = nullptr then Inr (ps, h)
     else let i = legacy_IndexFor sz in
       rbind (pool_Push ptr (ps ! i, h)) (\<lambda>(p, h'). Inr (ps[i := p], h')))"

subsection \<open>SlabPoolBridge\<close>

record SlabBridge =
  sb_slabs :: slabs
  sb_sizes :: "(ptr, size_t) umap"

definition SlabPoolBridge_new :: SlabBridge where
  "SlabPoolBridge_new = \<lparr>sb_slabs = legacy_SlabAllocator_new, sb_sizes = []\<rparr>"

definition slab_bridge_allocate :: "new_oracle \<Rightarrow> size_t \<Rightarrow> SlabBridge \<times> heap \<Rightarrow> (ptr \<times> SlabBridge \<times> heap) comp" where
  "slab_bridge_allocate new bytes = (\<lambda>(b, h).
     if bytes = 0 \<or> bytes > kMaxSlabSize then Inr (nullptr, b, h)
     else let rounded = legacy_GetSlabSize bytes in
       rbind (legacy_slab_Allocate new rounded (sb_slabs b, h)) (\<lambda>(p, ps, h').
         Inr (p, b\<lparr>sb_slabs := ps, sb_sizes := (if p \<noteq> nullptr then AList.update p rounded (sb_sizes b) else sb_sizes b)\<rparr>, h')))"

definition slab_bridge_deallocate :: "ptr \<Rightarrow> SlabBridge \<times> heap \<Rightarrow> (SlabBridge \<times> heap) comp" where
  "slab_bridge_deallocate ptr = (\<lambda>(b, h).
     if ptr = nullptr then Inr (b, h)
     else case map_of (sb_sizes b) ptr of
       None \<Rightarrow> Inr (b, h)
     | Some sz \<Rightarrow>
         rbind (legacy_slab_Deallocate ptr sz (sb_slabs b, h)) (\<lambda>(ps, h').
           Inr (b\<lparr>sb_slabs := ps, sb_sizes := AList.delete ptr (sb_sizes b)\<rparr>, h')))"

definition slab_bridge_write :: "ptr \<Rightarrow> ptr \<Rightarrow> SlabBridge \<times> heap \<Rightarrow> (SlabBridge \<times> heap) comp" where
  "slab_bridge_write p v = (\<lambda>(b, h). rbind (store_next p v h) (\<lambda>h'. Inr (b, h')))"

definition slab_bridge_can_allocate :: "size_t \<Rightarrow> bool" where
  "slab_bridge_can_allocate bytes = legacy_CanAllocate bytes"

section \<open>Eight pools on one heap\<close>

definition slab_ok :: "size_t \<Rightarrow> BlockPool \<times> heap \<Rightarrow> bool" where
  "slab_ok sz s \<longleftrightarrow> pool_inv s \<and> bp_block (fst s) = sz \<and> 0 < bp_per_chunk (fst s) \<and>
     unat sz * unat (bp_per_chunk (fst s)) < 2 ^ 64"

definition slabs_inv :: "slabs \<times> heap \<Rightarrow> bool" where
  "slabs_inv = (\<lambda>(ps, h). length ps = 8 \<and> (\<forall>i < 8. slab_ok (kSizes ! i) (ps ! i, h)) \<and>
     (\<forall>i < 8. \<forall>j < 8. i \<noteq> j \<longrightarrow> set (bp_chunks (ps ! i)) \<inter> set (bp_chunks (ps ! j)) = {}))"

definition slab_live :: "slabs \<times> heap \<Rightarrow> nat \<Rightarrow> ptr set" where
  "slab_live = (\<lambda>(ps, h) i. pool_live (ps ! i, h))"

lemma pools_disjoint:
  assumes "chunks_ok (p, h)" and "chunks_ok (q, h)" and "set (bp_chunks p) \<inter> set (bp_chunks q) = {}"
    and "b \<in> set (pool_blocks (p, h))" and "b' \<in> set (pool_blocks (q, h))"
  shows "b + unat (bp_block p) \<le> b' \<or> b' + unat (bp_block q) \<le> b" and "b \<noteq> b'"
proof -
  obtain c c' where c: "c \<in> set (bp_chunks p)" "b \<in> set (chunk_blocks h (unat (bp_block p)) c)"
    "c' \<in> set (bp_chunks q)" "b' \<in> set (chunk_blocks h (unat (bp_block q)) c')"
    using assms(4,5) by (auto simp: in_pool_blocks)
  moreover have "{c, c'} \<subseteq> fst ` set (h_regions h)" "c \<noteq> c'" "heap_ok h"
    using assms(1-3) c(1,3) by (auto simp: chunks_ok_def)
  ultimately show ap: "b + unat (bp_block p) \<le> b' \<or> b' + unat (bp_block q) \<le> b" by (intro blocks_apart)
  have "0 < unat (bp_block p)" "0 < unat (bp_block q)" using assms(1,2) by (auto simp: chunks_ok_def pointer_size_def)
  with ap show "b \<noteq> b'" by linarith
qed

lemma slabs_apart:
  assumes "slabs_inv (ps, h)" and "i < 8" and "j < 8" and "i \<noteq> j"
    and "b \<in> set (pool_blocks (ps ! i, h))" and "b' \<in> set (pool_blocks (ps ! j, h))"
  shows "b + unat (kSizes ! i) \<le> b' \<or> b' + unat (kSizes ! j) \<le> b" and "b \<noteq> b'"
proof -
  have "chunks_ok (ps ! i, h)" "chunks_ok (ps ! j, h)" "bp_block (ps ! i) = kSizes ! i" "bp_block (ps ! j) = kSizes ! j"
    "set (bp_chunks (ps ! i)) \<inter> set (bp_chunks (ps ! j)) = {}"
    using assms(1-4) by (simp_all add: slabs_inv_def slab_ok_def pool_inv_def)
  with pools_disjoint [of "ps ! i" h "ps ! j" b b'] assms(5,6)
  show "b + unat (kSizes ! i) \<le> b' \<or> b' + unat (kSizes ! j) \<le> b" and "b \<noteq> b'" by auto
qed

text \<open>An operation on one slab leaves the others as they are.\<close>

lemma other_slab_apart:
  assumes eff: "pool_effect (p, h) (p', h') new free" and q: "pool_inv (q, h)" and p: "chunks_ok (p, h)"
    and "set (bp_chunks p) \<inter> set (bp_chunks q) = {}"
  shows "set (pool_blocks (q, h)) \<inter> set (pool_blocks (p', h')) = {}"
    and "set (bp_chunks p') \<inter> set (bp_chunks q) = {}"
proof -
  obtain chunks where chunks: "bp_chunks p' = bp_chunks p @ chunks" "set chunks \<inter> fst ` set (h_regions h) = {}"
    using eff by (auto simp: pool_effect_def)
  have step: "heap_step h h' (set (pool_blocks (p', h')))" and ok': "chunks_ok (p', h')"
    using eff unfolding pool_effect_def pool_inv_def fst_conv snd_conv by blast+
  have q': "chunks_ok (q, h)" using q by (simp add: pool_inv_def)
  show disj: "set (bp_chunks p') \<inter> set (bp_chunks q) = {}"
    using chunks assms(4) q' unfolding chunks_ok_def by auto
  show "set (pool_blocks (q, h)) \<inter> set (pool_blocks (p', h')) = {}"
  proof (intro equals0I)
    fix b assume b: "b \<in> set (pool_blocks (q, h)) \<inter> set (pool_blocks (p', h'))"
    then obtain c c' where c: "c \<in> set (bp_chunks q)" "b \<in> set (chunk_blocks h (unat (bp_block q)) c)"
      "c' \<in> set (bp_chunks p')" "b \<in> set (chunk_blocks h' (unat (bp_block p')) c')"
      by (auto simp: in_pool_blocks)
    have creg: "c \<in> fst ` set (h_regions h)" using c(1) q' by (auto simp: chunks_ok_def)
    then have b1: "b \<in> set (chunk_blocks h' (unat (bp_block q)) c)"
      using c(2) heap_step_region [OF step creg] by (simp add: chunk_blocks_def)
    have "fst ` set (h_regions h) \<subseteq> fst ` set (h_regions h')" using step by (auto simp: heap_step_def)
    then have reg: "{c, c'} \<subseteq> fst ` set (h_regions h')" using creg c(3) ok' unfolding chunks_ok_def by blast
    have "c \<noteq> c'" using disj c(1,3) by auto
    moreover have "heap_ok h'" using ok' by (simp add: chunks_ok_def)
    ultimately have "b + unat (bp_block q) \<le> b \<or> b + unat (bp_block p') \<le> b"
      using blocks_apart [OF _ reg _ b1 c(4)] by blast
    moreover have "0 < unat (bp_block q)" "0 < unat (bp_block p')"
      using q' ok' by (auto simp: chunks_ok_def pointer_size_def)
    ultimately show False by linarith
  qed
qed

lemma slabs_update:
  assumes inv: "slabs_inv (ps, h)" and i: "i < 8" and eff: "pool_effect (ps ! i, h) (p', h') new free"
  shows "slabs_inv (ps[i := p'], h')"
    and "\<And>j. j < 8 \<Longrightarrow> slab_live (ps[i := p'], h') j = (if j = i then pool_live (p', h') else slab_live (ps, h) j)"
proof -
  have len: "length ps = 8" using inv by (simp add: slabs_inv_def)
  have ok: "slab_ok (kSizes ! j) (ps ! j, h)" if "j < 8" for j using inv that by (simp add: slabs_inv_def)
  then have pinv: "pool_inv (ps ! j, h)" if "j < 8" for j using that by (simp add: slab_ok_def)
  have disj: "set (bp_chunks (ps ! j)) \<inter> set (bp_chunks (ps ! k)) = {}" if "j < 8" "k < 8" "j \<noteq> k" for j k
    using inv that by (simp add: slabs_inv_def)
  have step: "heap_step h h' (set (pool_blocks (p', h')))"
    using eff unfolding pool_effect_def fst_conv snd_conv by blast
  have cok: "chunks_ok (ps ! i, h)" using pinv [OF i] by (simp add: pool_inv_def)
  have other: "set (pool_blocks (ps ! j, h)) \<inter> set (pool_blocks (p', h')) = {}"
    "set (bp_chunks p') \<inter> set (bp_chunks (ps ! j)) = {}" if "j < 8" "j \<noteq> i" for j
    using other_slab_apart [OF eff pinv [OF that(1)] cok disj [OF i that(1)]] that(2) by auto
  have frame: "pool_inv (ps ! j, h')" "pool_live (ps ! j, h') = pool_live (ps ! j, h)" if "j < 8" "j \<noteq> i" for j
    using pool_frame [OF step pinv [OF that(1)] other(1) [OF that]] by (simp_all add: pool_live_def)
  have this_ok: "slab_ok (kSizes ! i) (p', h')"
    using ok [OF i] pool_effect_fields [OF eff] by (simp add: slab_ok_def)
  have "slab_ok (kSizes ! j) (ps[i := p'] ! j, h')" if "j < 8" for j
    using this_ok frame(1) [OF that] ok [OF that] len that i by (cases "j = i") (simp_all add: slab_ok_def)
  moreover have "set (bp_chunks (ps[i := p'] ! j)) \<inter> set (bp_chunks (ps[i := p'] ! k)) = {}"
    if "j < 8" "k < 8" "j \<noteq> k" for j k
    using disj [OF that] other(2) [OF that(1)] other(2) [OF that(2)] that i len by (cases "j = i"; cases "k = i") auto
  ultimately show "slabs_inv (ps[i := p'], h')" using len by (simp add: slabs_inv_def)
  show "slab_live (ps[i := p'], h') j = (if j = i then pool_live (p', h') else slab_live (ps, h) j)" if "j < 8" for j
    using frame(2) [OF that] that len i by (auto simp: slab_live_def)
qed

lemma slab_take_ok:
  assumes "fresh_new new" and ok: "slab_ok sz s"
  shows "slab_take new s = Inl Bad_Alloc \<or>
    (\<exists>q p' h' nw fr. slab_take new s = Inr (q, p', h') \<and> q \<noteq> nullptr \<and> q \<notin> pool_live s \<and>
       pool_live (p', h') = insert q (pool_live s) \<and> pool_effect s (p', h') nw fr)"
proof (cases "pool_free s")
  case (Cons x xs)
  have p: "pool_inv s" using ok by (simp add: slab_ok_def)
  from pool_Pop_ok [OF p] Cons obtain p' h' where s': "pool_Pop s = Inr (x, p', h')" "x \<noteq> nullptr"
    "pool_effect s (p', h') [] xs" by auto
  with pool_Pop_live [OF p Cons s'(3)] show ?thesis by (auto simp: slab_take_def)
next
  case Nil
  have p: "pool_inv s" using ok by (simp add: slab_ok_def)
  have pop: "pool_Pop s = Inr (nullptr, s)" using pool_Pop_ok [OF p] Nil by simp
  obtain q h where s: "s = (q, h)" by (cases s)
  have size: "unat (bp_block q) * unat (bp_per_chunk q) < 2 ^ 64" "0 < bp_per_chunk q"
    using ok s by (simp_all add: slab_ok_def)
  have take: "slab_take new s = rbind (grow_by new (bp_per_chunk q) s) pool_Pop"
    using pop s by (simp add: slab_take_def)
  from grow_by_ok [OF p [unfolded s] assms(1) size(1)] show ?thesis
  proof
    assume "grow_by new (bp_per_chunk q) (q, h) = Inl Bad_Alloc"
    with take s show ?thesis by simp
  next
    assume "\<exists>s' blocks. grow_by new (bp_per_chunk q) (q, h) = Inr s' \<and> length blocks = unat (bp_per_chunk q) \<and>
       set (pool_blocks (q, h)) \<inter> set blocks = {} \<and> pool_effect (q, h) s' blocks (rev blocks @ pool_free (q, h))"
    then obtain s1 blocks where g: "grow_by new (bp_per_chunk q) s = Inr s1"
      "length blocks = unat (bp_per_chunk q)" "set (pool_blocks s) \<inter> set blocks = {}"
      "pool_effect s s1 blocks (rev blocks)" using Nil s by auto
    have p1: "pool_inv s1" "pool_free s1 = rev blocks" using g(4) by (simp_all add: pool_effect_def)
    have live1: "pool_live s1 = pool_live s"
      using pool_effect_live [OF p g(4) g(3), of "{}"] Nil by (simp add: pool_live_def)
    have "rev blocks \<noteq> []" using g(2) size(2) by (auto simp: word_less_nat_alt)
    then obtain x xs where xs: "rev blocks = x # xs" by (cases "rev blocks") auto
    from pool_Pop_ok [OF p1(1)] p1(2) xs obtain p2 h2 where s2: "pool_Pop s1 = Inr (x, p2, h2)" "x \<noteq> nullptr"
      "pool_effect s1 (p2, h2) [] xs" by auto
    have "pool_live (p2, h2) = insert x (pool_live s)" "x \<notin> pool_live s"
      using pool_Pop_live [OF p1(1) _ s2(3), of x] p1(2) xs live1 by auto
    with take g(1) s2 pool_effect_trans [OF g(4) s2(3)] show ?thesis by auto
  qed
qed

text \<open>What \<open>Allocate\<close> and \<open>Deallocate\<close> do on slab \<open>i\<close>, in both versions.\<close>

lemma slab_take_at:
  assumes "fresh_new new" and inv: "slabs_inv (ps, h)" and i: "i < 8"
  shows "slab_take new (ps ! i, h) = Inl Bad_Alloc \<or>
    (\<exists>q p' h'. slab_take new (ps ! i, h) = Inr (q, p', h') \<and> q \<noteq> nullptr \<and> slabs_inv (ps[i := p'], h') \<and>
       q \<notin> slab_live (ps, h) i \<and>
       (\<forall>j < 8. slab_live (ps[i := p'], h') j = (if j = i then insert q (slab_live (ps, h) i) else slab_live (ps, h) j)))"
proof -
  have "slab_ok (kSizes ! i) (ps ! i, h)" using inv i by (simp add: slabs_inv_def)
  from slab_take_ok [OF assms(1) this] show ?thesis
  proof
    assume "\<exists>q p' h' nw fr. slab_take new (ps ! i, h) = Inr (q, p', h') \<and> q \<noteq> nullptr \<and> q \<notin> pool_live (ps ! i, h) \<and>
       pool_live (p', h') = insert q (pool_live (ps ! i, h)) \<and> pool_effect (ps ! i, h) (p', h') nw fr"
    then obtain q p' h' nw fr where q: "slab_take new (ps ! i, h) = Inr (q, p', h')" "q \<noteq> nullptr"
      "q \<notin> pool_live (ps ! i, h)" "pool_live (p', h') = insert q (pool_live (ps ! i, h))"
      "pool_effect (ps ! i, h) (p', h') nw fr" by blast
    have "slab_live (ps, h) i = pool_live (ps ! i, h)" by (simp add: slab_live_def)
    with q slabs_update [OF inv i q(5)] show ?thesis by auto
  qed simp
qed

lemma slab_push_at:
  assumes inv: "slabs_inv (ps, h)" and i: "i < 8" and q: "q \<in> slab_live (ps, h) i"
  shows "\<exists>p' h'. pool_Push q (ps ! i, h) = Inr (p', h') \<and> slabs_inv (ps[i := p'], h') \<and>
    (\<forall>j < 8. slab_live (ps[i := p'], h') j = (if j = i then slab_live (ps, h) i - {q} else slab_live (ps, h) j))"
proof -
  have p: "pool_inv (ps ! i, h)" using inv i by (simp add: slabs_inv_def slab_ok_def)
  have q': "q \<in> pool_live (ps ! i, h)" using q by (simp add: slab_live_def)
  from pool_Push_ok [OF p q'] obtain p' h' where s': "pool_Push q (ps ! i, h) = Inr (p', h')"
    "pool_effect (ps ! i, h) (p', h') [] (q # pool_free (ps ! i, h))" by auto
  have "pool_live (p', h') = slab_live (ps, h) i - {q}"
    using s'(2) by (auto simp: pool_effect_def pool_live_def slab_live_def)
  with s'(1) slabs_update [OF inv i s'(2)] show ?thesis by auto
qed

lemma slab_write_at:
  assumes inv: "slabs_inv (ps, h)" and i: "i < 8" and q: "q \<in> slab_live (ps, h) i"
  shows "\<exists>h'. store_next q v h = Inr h' \<and> slabs_inv (ps, h') \<and> (\<forall>j < 8. slab_live (ps, h') j = slab_live (ps, h) j)"
proof -
  have p: "pool_inv (ps ! i, h)" using inv i by (simp add: slabs_inv_def slab_ok_def)
  have q': "q \<in> pool_live (ps ! i, h)" using q by (simp add: slab_live_def)
  from pool_write_ok [OF p q', of v] obtain p' h' where s': "pool_write q v (ps ! i, h) = Inr (p', h')"
    "pool_effect (ps ! i, h) (p', h') [] (pool_free (ps ! i, h))" by auto
  have h': "store_next q v h = Inr h'" "p' = ps ! i"
    using s'(1) by (auto simp: pool_write_def rbind_eq_Inr)
  have same: "ps[i := p'] = ps" using h'(2) by simp
  have "pool_live (p', h') = slab_live (ps, h) i"
    using s'(2) by (auto simp: pool_effect_def pool_live_def slab_live_def)
  with h'(1) slabs_update [OF inv i s'(2), unfolded same] show ?thesis by auto
qed

lemma slab_live_disjoint:
  assumes "slabs_inv (ps, h)" and "i < 8" and "j < 8" and "q \<in> slab_live (ps, h) i" and "q \<in> slab_live (ps, h) j"
  shows "i = j"
  using slabs_apart(2) [OF assms(1-3), of q q] assms(4,5) by (auto simp: slab_live_def pool_live_def)

lemma slab_live_nonnull:
  assumes "slabs_inv (ps, h)" and "i < 8"
  shows "nullptr \<notin> slab_live (ps, h) i"
  using assms pool_live_nonnull [of "(ps ! i, h)"] by (simp add: slabs_inv_def slab_ok_def slab_live_def)

lemma less_8_cases: "i < 8 \<longleftrightarrow> i = 0 \<or> i = 1 \<or> i = 2 \<or> i = 3 \<or> i = 4 \<or> i = 5 \<or> i = 6 \<or> i = (7::nat)"
  by auto

lemma IndexFor_size: "i < 8 \<Longrightarrow> IndexFor (kSizes ! i) = Some i"
  unfolding less_8_cases by (elim disjE) (simp_all add: IndexFor_cases kSizes_def)

lemma legacy_IndexFor_size: "i < 8 \<Longrightarrow> legacy_IndexFor (kSizes ! i) = i"
  by (simp add: legacy_IndexFor_eq IndexFor_size)

lemma kSizes_range: "i < 8 \<Longrightarrow> 0 < kSizes ! i \<and> kSizes ! i \<le> 4096 \<and> pointer_size \<le> unat (kSizes ! i)"
  unfolding less_8_cases by (elim disjE) (simp_all add: kSizes_def pointer_size_def)

lemma slabs_empty_inv:
  assumes "heap_ok h" and "\<And>i. i < 8 \<Longrightarrow> 0 < per i \<and> unat (kSizes ! i) * unat (per i) < 2 ^ 64"
    and "ps = map (\<lambda>i. \<lparr>bp_head = nullptr, bp_chunks = [], bp_block = kSizes ! i, bp_per_chunk = per i\<rparr>) [0..<8]"
  shows "slabs_inv (ps, h)" and "i < 8 \<Longrightarrow> slab_live (ps, h) i = {}"
proof -
  have nth: "ps ! i = \<lparr>bp_head = nullptr, bp_chunks = [], bp_block = kSizes ! i, bp_per_chunk = per i\<rparr>" if "i < 8" for i
    using that by (simp add: assms(3))
  have fl: "free_list (ps ! i, h) []" "chunks_ok (ps ! i, h)" if "i < 8" for i
    using that assms(1) kSizes_range [OF that] by (simp_all add: nth free_list_def chunks_ok_def)
  then have "pool_inv (ps ! i, h)" if "i < 8" for i using that unfolding pool_inv_def by blast
  then show "slabs_inv (ps, h)" using assms(2) by (simp add: slabs_inv_def slab_ok_def nth assms(3))
  show "slab_live (ps, h) i = {}" if "i < 8" using that by (simp add: slab_live_def pool_live_def pool_blocks_def nth)
qed

lemma SlabAllocator_new_inv:
  assumes "heap_ok h"
  shows "slabs_inv (SlabAllocator_new, h)" and "i < 8 \<Longrightarrow> slab_live (SlabAllocator_new, h) i = {}"
proof -
  have per: "0 < max 1 (kMaxSlabSize div (kSizes ! i)) \<and>
      unat (kSizes ! i) * unat (max 1 (kMaxSlabSize div (kSizes ! i))) < 2 ^ 64" if "i < 8" for i
    using that unfolding less_8_cases by (elim disjE) (simp_all add: kSizes_def kMaxSlabSize_def max_def)
  have eq: "SlabAllocator_new = map (\<lambda>i. \<lparr>bp_head = nullptr, bp_chunks = [], bp_block = kSizes ! i,
      bp_per_chunk = max 1 (kMaxSlabSize div (kSizes ! i))\<rparr>) [0..<8]"
    by (simp add: SlabAllocator_new_def kSizes_def upt_rec)
  show "slabs_inv (SlabAllocator_new, h)" and "i < 8 \<Longrightarrow> slab_live (SlabAllocator_new, h) i = {}"
    using slabs_empty_inv [OF assms per eq] by blast+
qed

lemma legacy_SlabAllocator_new_inv:
  assumes "heap_ok h"
  shows "slabs_inv (legacy_SlabAllocator_new, h)" and "i < 8 \<Longrightarrow> slab_live (legacy_SlabAllocator_new, h) i = {}"
proof -
  have per: "0 < (256 :: size_t) \<and> unat (kSizes ! i) * unat (256 :: size_t) < 2 ^ 64" if "i < 8" for i
    using that unfolding less_8_cases by (elim disjE) (simp_all add: kSizes_def)
  have eq: "legacy_SlabAllocator_new = map (\<lambda>i. \<lparr>bp_head = nullptr, bp_chunks = [], bp_block = kSizes ! i,
      bp_per_chunk = 256\<rparr>) [0..<8]"
    by (simp add: legacy_SlabAllocator_new_def kSizes_def upt_rec)
  show "slabs_inv (legacy_SlabAllocator_new, h)" and "i < 8 \<Longrightarrow> slab_live (legacy_SlabAllocator_new, h) i = {}"
    using slabs_empty_inv [OF assms per eq] by blast+
qed

section \<open>The bridge is a block allocator\<close>

definition slab_bridge_inv :: "new_oracle \<Rightarrow> SlabBridge \<times> heap \<Rightarrow> bool" where
  "slab_bridge_inv new = (\<lambda>(b, h). fresh_new new \<and> slabs_inv (sb_slabs b, h) \<and> umap_ok (sb_sizes b) \<and>
     (\<forall>p sz. map_of (sb_sizes b) p = Some sz \<longleftrightarrow> (\<exists>i < 8. sz = kSizes ! i \<and> p \<in> slab_live (sb_slabs b, h) i)))"

definition slab_bridge_live :: "SlabBridge \<times> heap \<Rightarrow> ptr set" where
  "slab_bridge_live s = dom (map_of (sb_sizes (fst s)))"

lemma slab_bridge_allocate_ok:
  assumes inv: "slab_bridge_inv new s"
  shows "slab_bridge_allocate new r s = Inl Bad_Alloc \<or>
    (\<exists>p s'. slab_bridge_allocate new r s = Inr (p, s') \<and> slab_bridge_inv new s' \<and>
      (if p = nullptr then slab_bridge_live s' = slab_bridge_live s
       else p \<notin> slab_bridge_live s \<and> slab_bridge_live s' = insert p (slab_bridge_live s)))"
proof -
  obtain b h where s: "s = (b, h)" by (cases s)
  have I: "fresh_new new" "slabs_inv (sb_slabs b, h)" "umap_ok (sb_sizes b)"
    "\<And>p sz. map_of (sb_sizes b) p = Some sz \<longleftrightarrow> (\<exists>i < 8. sz = kSizes ! i \<and> p \<in> slab_live (sb_slabs b, h) i)"
    using inv by (auto simp: slab_bridge_inv_def s)
  show ?thesis
  proof (cases "r = 0 \<or> r > kMaxSlabSize")
    case True
    with inv show ?thesis by (auto simp: slab_bridge_allocate_def s)
  next
    case False
    define i where "i = legacy_IndexFor r"
    have i: "i < 8" by (simp add: i_def legacy_IndexFor_less)
    have cls: "legacy_IndexFor (legacy_GetSlabSize r) = i" "legacy_CanAllocate (legacy_GetSlabSize r)"
      using legacy_IndexFor_size [OF i] kSizes_range [OF i]
      by (simp_all add: legacy_GetSlabSize_def i_def [symmetric] legacy_CanAllocate_def kMaxSlabSize_def)
    have size: "legacy_GetSlabSize r = kSizes ! i" by (simp add: legacy_GetSlabSize_def i_def)
    from slab_take_at [OF I(1,2) i] show ?thesis
    proof
      assume "slab_take new (sb_slabs b ! i, h) = Inl Bad_Alloc"
      with False cls show ?thesis by (simp add: slab_bridge_allocate_def s legacy_slab_Allocate_def)
    next
      assume "\<exists>q p' h'. slab_take new (sb_slabs b ! i, h) = Inr (q, p', h') \<and> q \<noteq> nullptr \<and>
         slabs_inv ((sb_slabs b)[i := p'], h') \<and> q \<notin> slab_live (sb_slabs b, h) i \<and>
         (\<forall>j < 8. slab_live ((sb_slabs b)[i := p'], h') j =
            (if j = i then insert q (slab_live (sb_slabs b, h) i) else slab_live (sb_slabs b, h) j))"
      then obtain q p' h' where q: "slab_take new (sb_slabs b ! i, h) = Inr (q, p', h')" "q \<noteq> nullptr"
        "slabs_inv ((sb_slabs b)[i := p'], h')" "q \<notin> slab_live (sb_slabs b, h) i"
        "\<And>j. j < 8 \<Longrightarrow> slab_live ((sb_slabs b)[i := p'], h') j =
            (if j = i then insert q (slab_live (sb_slabs b, h) i) else slab_live (sb_slabs b, h) j)" by blast
      let ?b' = "b\<lparr>sb_slabs := (sb_slabs b)[i := p'], sb_sizes := AList.update q (kSizes ! i) (sb_sizes b)\<rparr>"
      have run: "slab_bridge_allocate new r s = Inr (q, ?b', h')"
        using False cls q(1,2) size by (simp add: slab_bridge_allocate_def s legacy_slab_Allocate_def)
      have in_i: "q \<in> slab_live ((sb_slabs b)[i := p'], h') i" using q(5) [OF i] by simp
      have new_q: "q \<notin> slab_live (sb_slabs b, h) j" if "j < 8" for j
      proof
        assume a: "q \<in> slab_live (sb_slabs b, h) j"
        then have "j \<noteq> i" using q(4) by auto
        with a q(5) [OF that] have "q \<in> slab_live ((sb_slabs b)[i := p'], h') j" by simp
        from slab_live_disjoint [OF q(3) that i this in_i] \<open>j \<noteq> i\<close> show False by simp
      qed
      then have fresh: "map_of (sb_sizes b) q = None" using I(4) [of q] by (cases "map_of (sb_sizes b) q") auto
      have "map_of (sb_sizes ?b') p = Some sz \<longleftrightarrow> (\<exists>j < 8. sz = kSizes ! j \<and> p \<in> slab_live (sb_slabs ?b', h') j)" for p sz
      proof (cases "p = q")
        case True
        have "j = i" if "j < 8" "q \<in> slab_live (sb_slabs ?b', h') j" for j
          using slab_live_disjoint [OF q(3) that(1) i _ in_i] that(2) by simp
        with True in_i i show ?thesis by (auto simp: update_conv)
      next
        case False
        then have "p \<in> slab_live (sb_slabs ?b', h') j \<longleftrightarrow> p \<in> slab_live (sb_slabs b, h) j" if "j < 8" for j
          using q(5) [OF that] by simp
        then have "(\<exists>j < 8. sz = kSizes ! j \<and> p \<in> slab_live (sb_slabs ?b', h') j) \<longleftrightarrow>
          (\<exists>j < 8. sz = kSizes ! j \<and> p \<in> slab_live (sb_slabs b, h) j)" by blast
        with False show ?thesis by (simp add: update_conv I(4))
      qed
      then have "slab_bridge_inv new (?b', h')"
        using I(1,3) q(3) by (simp add: slab_bridge_inv_def distinct_update)
      moreover have "slab_bridge_live (?b', h') = insert q (slab_bridge_live s)"
        by (simp add: slab_bridge_live_def s update_conv')
      ultimately show ?thesis using run q(2) fresh by (auto simp: slab_bridge_live_def s)
    qed
  qed
qed

lemma slab_bridge_deallocate_ok:
  assumes inv: "slab_bridge_inv new s" and q: "q \<in> slab_bridge_live s"
  shows "\<exists>s'. slab_bridge_deallocate q s = Inr s' \<and> slab_bridge_inv new s' \<and>
    slab_bridge_live s' = slab_bridge_live s - {q}"
proof -
  obtain b h where s: "s = (b, h)" by (cases s)
  have I: "fresh_new new" "slabs_inv (sb_slabs b, h)" "umap_ok (sb_sizes b)"
    "\<And>p sz. map_of (sb_sizes b) p = Some sz \<longleftrightarrow> (\<exists>i < 8. sz = kSizes ! i \<and> p \<in> slab_live (sb_slabs b, h) i)"
    using inv by (auto simp: slab_bridge_inv_def s)
  obtain sz where sz: "map_of (sb_sizes b) q = Some sz" using q by (auto simp: slab_bridge_live_def s)
  then obtain i where i: "i < 8" "sz = kSizes ! i" "q \<in> slab_live (sb_slabs b, h) i" using I(4) by blast
  have nn: "q \<noteq> nullptr" using slab_live_nonnull [OF I(2) i(1)] i(3) by metis
  obtain p' h' where p': "pool_Push q (sb_slabs b ! i, h) = Inr (p', h')" "slabs_inv ((sb_slabs b)[i := p'], h')"
    "\<And>j. j < 8 \<Longrightarrow> slab_live ((sb_slabs b)[i := p'], h') j =
       (if j = i then slab_live (sb_slabs b, h) i - {q} else slab_live (sb_slabs b, h) j)"
    using slab_push_at [OF I(2) i(1,3)] by blast
  let ?b' = "b\<lparr>sb_slabs := (sb_slabs b)[i := p'], sb_sizes := AList.delete q (sb_sizes b)\<rparr>"
  have run: "slab_bridge_deallocate q s = Inr (?b', h')"
    using p'(1) nn sz by (simp add: slab_bridge_deallocate_def s legacy_slab_Deallocate_def i(2) legacy_IndexFor_size [OF i(1)])
  have only: "q \<notin> slab_live ((sb_slabs b)[i := p'], h') j" if "j < 8" for j
    using p'(3) [OF that] slab_live_disjoint [OF I(2) that i(1) _ i(3)] by auto
  have "map_of (sb_sizes ?b') p = Some sz \<longleftrightarrow> (\<exists>j < 8. sz = kSizes ! j \<and> p \<in> slab_live (sb_slabs ?b', h') j)" for p sz
  proof (cases "p = q")
    case True
    with only show ?thesis by (simp add: delete_conv)
  next
    case False
    then have "p \<in> slab_live (sb_slabs ?b', h') j \<longleftrightarrow> p \<in> slab_live (sb_slabs b, h) j" if "j < 8" for j
      using p'(3) [OF that] by auto
    then have "(\<exists>j < 8. sz = kSizes ! j \<and> p \<in> slab_live (sb_slabs ?b', h') j) \<longleftrightarrow>
      (\<exists>j < 8. sz = kSizes ! j \<and> p \<in> slab_live (sb_slabs b, h) j)" by blast
    with False show ?thesis by (simp add: delete_conv I(4))
  qed
  then have "slab_bridge_inv new (?b', h')"
    using I(1,3) p'(2) by (simp add: slab_bridge_inv_def distinct_delete)
  moreover have "slab_bridge_live (?b', h') = slab_bridge_live s - {q}"
    by (auto simp: slab_bridge_live_def s delete_conv' split: if_splits)
  ultimately show ?thesis using run by blast
qed

lemma slab_bridge_write_ok:
  assumes inv: "slab_bridge_inv new s" and q: "q \<in> slab_bridge_live s"
  shows "\<exists>s'. slab_bridge_write q v s = Inr s' \<and> slab_bridge_inv new s' \<and> slab_bridge_live s' = slab_bridge_live s"
proof -
  obtain b h where s: "s = (b, h)" by (cases s)
  have I: "slabs_inv (sb_slabs b, h)"
    "\<And>p sz. map_of (sb_sizes b) p = Some sz \<longleftrightarrow> (\<exists>i < 8. sz = kSizes ! i \<and> p \<in> slab_live (sb_slabs b, h) i)"
    using inv by (auto simp: slab_bridge_inv_def s)
  obtain sz where "map_of (sb_sizes b) q = Some sz" using q by (auto simp: slab_bridge_live_def s)
  then obtain i where i: "i < 8" "q \<in> slab_live (sb_slabs b, h) i" using I(2) by blast
  from slab_write_at [OF I(1) i] obtain h' where h': "store_next q v h = Inr h'" "slabs_inv (sb_slabs b, h')"
    "\<And>j. j < 8 \<Longrightarrow> slab_live (sb_slabs b, h') j = slab_live (sb_slabs b, h) j" by blast
  have "(\<exists>j < 8. sz = kSizes ! j \<and> p \<in> slab_live (sb_slabs b, h') j) \<longleftrightarrow>
      (\<exists>j < 8. sz = kSizes ! j \<and> p \<in> slab_live (sb_slabs b, h) j)" for p sz using h'(3) by blast
  then have "slab_bridge_inv new (b, h')" using inv h'(2) by (simp add: slab_bridge_inv_def s)
  then show ?thesis using h'(1) by (simp add: slab_bridge_write_def s slab_bridge_live_def)
qed

interpretation slab_bridge: block_allocator "slab_bridge_inv new" slab_bridge_live "slab_bridge_allocate new"
  slab_bridge_deallocate slab_bridge_write
proof unfold_locales
  fix s assume inv: "slab_bridge_inv new s"
  obtain b h where s: "s = (b, h)" by (cases s)
  have sl: "slabs_inv (sb_slabs b, h)" using inv by (simp add: slab_bridge_inv_def s)
  have m: "map_of (sb_sizes b) nullptr = Some sz \<longleftrightarrow>
    (\<exists>i < 8. sz = kSizes ! i \<and> nullptr \<in> slab_live (sb_slabs b, h) i)" for sz
    using inv unfolding slab_bridge_inv_def s by blast
  show "nullptr \<notin> slab_bridge_live s"
  proof
    assume "nullptr \<in> slab_bridge_live s"
    then obtain sz where "map_of (sb_sizes b) nullptr = Some sz" by (auto simp: slab_bridge_live_def s)
    with m slab_live_nonnull [OF sl] show False by blast
  qed
qed (erule slab_bridge_allocate_ok, erule (1) slab_bridge_deallocate_ok, erule (1) slab_bridge_write_ok)

section \<open>Properties\<close>

text \<open>Blocks in use, of one slab or of two, do not overlap.\<close>

lemma live_apart:
  assumes inv: "slabs_inv (ps, h)" and ij: "i < 8" "j < 8"
    and b: "b \<in> slab_live (ps, h) i" "b' \<in> slab_live (ps, h) j" "b \<noteq> b'"
  shows "b + unat (kSizes ! i) \<le> b' \<or> b' + unat (kSizes ! j) \<le> b"
proof -
  have blocks: "b \<in> set (pool_blocks (ps ! i, h))" "b' \<in> set (pool_blocks (ps ! j, h))"
    using b(1,2) by (auto simp: slab_live_def pool_live_def)
  have ok: "chunks_ok (ps ! i, h)" "bp_block (ps ! i) = kSizes ! i"
    using inv ij(1) by (simp_all add: slabs_inv_def slab_ok_def pool_inv_def)
  show ?thesis
  proof (cases "i = j")
    case True
    with pool_blocks_apart [OF ok(1) blocks(1)] blocks(2) b(3) ok(2) show ?thesis by auto
  next
    case False
    with slabs_apart(1) [OF inv ij _ blocks] show ?thesis by blast
  qed
qed

text \<open>
  \<open>SlabAllocator::Allocate\<close> returns the null pointer for a size above 4096 and changes nothing;
  otherwise, unless \<open>operator new\<close> throws, it returns a block of at least that size that overlaps
  no block in use of any class, and giving the block back with the same size restores every class.
\<close>

theorem slab_allocate_fits:
  assumes "fresh_new new" and "slabs_inv (ps, h)"
  shows "if 4096 < sz then slab_Allocate new sz (ps, h) = Inr (nullptr, ps, h)
    else slab_Allocate new sz (ps, h) = Inl Bad_Alloc \<or>
      (\<exists>q ps' h' i. slab_Allocate new sz (ps, h) = Inr (q, ps', h') \<and> q \<noteq> nullptr \<and> slabs_inv (ps', h') \<and>
        i < 8 \<and> GetSlabSize sz = kSizes ! i \<and> sz \<le> GetSlabSize sz \<and>
        (\<forall>j < 8. slab_live (ps', h') j = (if j = i then insert q (slab_live (ps, h) i) else slab_live (ps, h) j)) \<and>
        (\<forall>j < 8. \<forall>b \<in> slab_live (ps, h) j. q + unat (GetSlabSize sz) \<le> b \<or> b + unat (kSizes ! j) \<le> q) \<and>
        (\<exists>ps2 h2. slab_Deallocate q sz (ps', h') = Inr (ps2, h2) \<and> slabs_inv (ps2, h2) \<and>
          (\<forall>j < 8. slab_live (ps2, h2) j = slab_live (ps, h) j)))"
proof (cases "4096 < sz")
  case True
  then have "IndexFor sz = None" by (simp add: IndexFor_None)
  with True show ?thesis by (simp add: slab_Allocate_def)
next
  case False
  then obtain i where ix: "IndexFor sz = Some i" using IndexFor_None by (cases "IndexFor sz") auto
  note i = IndexFor_Some [OF ix]
  have size: "GetSlabSize sz = kSizes ! i" by (simp add: GetSlabSize_def ix)
  from slab_take_at [OF assms i(1)] show ?thesis
  proof
    assume "slab_take new (ps ! i, h) = Inl Bad_Alloc"
    with False ix show ?thesis by (simp add: slab_Allocate_def)
  next
    assume "\<exists>q p' h'. slab_take new (ps ! i, h) = Inr (q, p', h') \<and> q \<noteq> nullptr \<and> slabs_inv (ps[i := p'], h') \<and>
       q \<notin> slab_live (ps, h) i \<and>
       (\<forall>j < 8. slab_live (ps[i := p'], h') j = (if j = i then insert q (slab_live (ps, h) i) else slab_live (ps, h) j))"
    then obtain q p' h' where q: "slab_take new (ps ! i, h) = Inr (q, p', h')" "q \<noteq> nullptr"
      "slabs_inv (ps[i := p'], h')" "q \<notin> slab_live (ps, h) i"
      "\<And>j. j < 8 \<Longrightarrow> slab_live (ps[i := p'], h') j =
         (if j = i then insert q (slab_live (ps, h) i) else slab_live (ps, h) j)" by blast
    have in_i: "q \<in> slab_live (ps[i := p'], h') i" using q(5) [OF i(1)] by simp
    have apart: "q + unat (kSizes ! i) \<le> b \<or> b + unat (kSizes ! j) \<le> q" if "j < 8" "b \<in> slab_live (ps, h) j" for j b
    proof -
      have b: "b \<in> slab_live (ps[i := p'], h') j" using q(5) [OF that(1)] that(2) by auto
      have "q \<noteq> b"
      proof
        assume "q = b"
        with slab_live_disjoint [OF q(3) that(1) i(1) b] in_i q(4) that(2) show False by simp
      qed
      with live_apart [OF q(3) i(1) that(1) in_i b] show ?thesis by blast
    qed
    obtain p2 h2 where p2: "pool_Push q (ps[i := p'] ! i, h') = Inr (p2, h2)" "slabs_inv (ps[i := p', i := p2], h2)"
      "\<And>j. j < 8 \<Longrightarrow> slab_live (ps[i := p', i := p2], h2) j =
         (if j = i then slab_live (ps[i := p'], h') i - {q} else slab_live (ps[i := p'], h') j)"
      using slab_push_at [OF q(3) i(1) in_i] by blast
    have undo: "slab_live (ps[i := p', i := p2], h2) j = slab_live (ps, h) j" if "j < 8" for j
      using p2(3) [OF that] q(4) q(5) [OF that] by auto
    have "slab_Deallocate q sz (ps[i := p'], h') = Inr (ps[i := p', i := p2], h2)"
      using p2(1) q(2) ix by (simp add: slab_Deallocate_def)
    moreover have "slab_Allocate new sz (ps, h) = Inr (q, ps[i := p'], h')"
      using q(1) ix by (simp add: slab_Allocate_def)
    ultimately show ?thesis
      unfolding size using False i(1,2) q(2,3,5) apart p2(2) undo by (simp only: if_False) blast
  qed
qed

lemma slab_allocate_fits_witness:
  "\<exists>q ps' h'. slab_Allocate bump_new 100 (SlabAllocator_new, \<lparr>h_next = (\<lambda>_. 0), h_regions = []\<rparr>) = Inr (q, ps', h') \<and>
     q \<noteq> nullptr \<and> slab_live (ps', h') 3 = {q}"
proof -
  let ?h = "\<lparr>h_next = (\<lambda>_. 0), h_regions = []\<rparr> :: heap"
  have "heap_ok ?h" by (simp add: heap_ok_def)
  note new = SlabAllocator_new_inv [OF this]
  have idx: "j = 3" if "j < 8" "GetSlabSize 100 = kSizes ! j" for j
    using that unfolding less_8_cases by (elim disjE) (simp_all add: GetSlabSize_def IndexFor_cases kSizes_def)
  have "slab_Allocate bump_new 100 (SlabAllocator_new, ?h) \<noteq> Inl Bad_Alloc"
    by (simp add: slab_Allocate_def IndexFor_cases slab_take_def SlabAllocator_new_def kSizes_def kMaxSlabSize_def
        pool_Pop_def lf_Pop_def lf_Push_def grow_by_def operator_new_def bump_new_def carve_def
        store_next_def load_next_def accessible_def pointer_size_def upt_rec max_def)
  then obtain q ps' h' i where "slab_Allocate bump_new 100 (SlabAllocator_new, ?h) = Inr (q, ps', h')" "q \<noteq> nullptr"
    "i < 8" "GetSlabSize 100 = kSizes ! i"
    "\<forall>j < 8. slab_live (ps', h') j = (if j = i then insert q (slab_live (SlabAllocator_new, ?h) i)
       else slab_live (SlabAllocator_new, ?h) j)"
    using slab_allocate_fits [OF bump_new_fresh new(1), of 100] by auto
  with idx new(2) [of 3] show ?thesis by auto
qed

text \<open>
  C20: any client of \<open>SlabPoolBridge\<close>, whatever sizes it asks for, holds distinct blocks, none null,
  none overlapping another over the size recorded for it; and giving back a pointer that is not
  held, such as one given back before, changes nothing.
\<close>

theorem slab_bridge_client_safe:
  assumes "fresh_new new" and "heap_ok h"
  shows "run_client (slab_bridge_allocate new) slab_bridge_deallocate slab_bridge_write ops
       ([], SlabPoolBridge_new, h) = Inl Bad_Alloc \<or>
    (\<exists>held b h'. run_client (slab_bridge_allocate new) slab_bridge_deallocate slab_bridge_write ops
       ([], SlabPoolBridge_new, h) = Inr (held, b, h') \<and>
     distinct held \<and> nullptr \<notin> set held \<and> set held = dom (map_of (sb_sizes b)) \<and>
     (\<forall>p n p' n'. map_of (sb_sizes b) p = Some n \<and> map_of (sb_sizes b) p' = Some n' \<and> p \<noteq> p' \<longrightarrow>
        p + unat n \<le> p' \<or> p' + unat n' \<le> p) \<and>
     (\<forall>p. p \<notin> set held \<longrightarrow> slab_bridge_deallocate p (b, h') = Inr (b, h')))"
proof -
  let ?run = "run_client (slab_bridge_allocate new) slab_bridge_deallocate slab_bridge_write ops
       ([], SlabPoolBridge_new, h)"
  note new = legacy_SlabAllocator_new_inv [OF assms(2)]
  have inv: "slab_bridge_inv new (SlabPoolBridge_new, h)"
    using assms(1) new by (simp add: slab_bridge_inv_def SlabPoolBridge_new_def)
  have "set [] = slab_bridge_live (SlabPoolBridge_new, h)" by (simp add: slab_bridge_live_def SlabPoolBridge_new_def)
  from slab_bridge.run_client_safe [OF inv distinct.simps(1) [THEN iffD2, OF TrueI] this, of ops]
  show ?thesis
  proof
    assume "\<exists>held' s'. ?run = Inr (held', s') \<and> slab_bridge_inv new s' \<and>
       distinct held' \<and> set held' = slab_bridge_live s' \<and> nullptr \<notin> set held'"
    then obtain held b h' where r: "?run = Inr (held, b, h')" "slab_bridge_inv new (b, h')" "distinct held"
      "set held = dom (map_of (sb_sizes b))" "nullptr \<notin> set held" by (auto simp: slab_bridge_live_def)
    have inv': "slabs_inv (sb_slabs b, h')" using r(2) by (simp add: slab_bridge_inv_def)
    have sizes: "map_of (sb_sizes b) p = Some n \<longleftrightarrow> (\<exists>i < 8. n = kSizes ! i \<and> p \<in> slab_live (sb_slabs b, h') i)" for p n
      using r(2) unfolding slab_bridge_inv_def by blast
    have "p + unat n \<le> p' \<or> p' + unat n' \<le> p"
      if "map_of (sb_sizes b) p = Some n" "map_of (sb_sizes b) p' = Some n'" "p \<noteq> p'" for p n p' n'
      using that sizes live_apart [OF inv'] by metis
    moreover have "slab_bridge_deallocate p (b, h') = Inr (b, h')" if "p \<notin> set held" for p
    proof -
      have "map_of (sb_sizes b) p = None" using that r(4) by auto
      then show ?thesis by (simp add: slab_bridge_deallocate_def)
    qed
    ultimately show ?thesis using r(1,3,4,5) by blast
  qed simp
qed

lemma slab_bridge_client_safe_witness:
  "\<exists>held b h'. run_client (slab_bridge_allocate bump_new) slab_bridge_deallocate slab_bridge_write
     [Get 100, Write 0 5, Get 20, Give_Back 1, Get 5000, Get 90]
     ([], SlabPoolBridge_new, \<lparr>h_next = (\<lambda>_. 0), h_regions = []\<rparr>) = Inr (held, b, h') \<and> distinct held \<and>
     slab_bridge_deallocate nullptr (b, h') = Inr (b, h')"
proof -
  let ?h = "\<lparr>h_next = (\<lambda>_. 0), h_regions = []\<rparr> :: heap"
  let ?run = "run_client (slab_bridge_allocate bump_new) slab_bridge_deallocate slab_bridge_write
     [Get 100, Write 0 5, Get 20, Give_Back 1, Get 5000, Get 90] ([], SlabPoolBridge_new, ?h)"
  have new: "grow_by bump_new n t \<noteq> Inl Bad_Alloc" for n and t :: "BlockPool \<times> heap"
    by (rule grow_by_fault) (simp add: bump_new_def)
  have ok: "?run \<noteq> Inl Bad_Alloc"
  proof (rule run_client_no_fault)
    show "slab_bridge_allocate bump_new r s \<noteq> Inl Bad_Alloc" for r s
      using new by (cases s) (auto simp: pool_ops_fault slab_bridge_allocate_def legacy_slab_Allocate_def slab_take_def rbind_eq_Inl Let_def split: if_splits)
    show "slab_bridge_deallocate p s \<noteq> Inl Bad_Alloc" for p s
      by (cases s) (auto simp: pool_ops_fault slab_bridge_deallocate_def legacy_slab_Deallocate_def rbind_eq_Inl Let_def
          split: option.splits if_splits)
    show "slab_bridge_write p v s \<noteq> Inl Bad_Alloc" for p v s
      by (cases s) (simp add: slab_bridge_write_def rbind_eq_Inl store_next_fault)
  qed
  have "heap_ok ?h" by (simp add: heap_ok_def)
  note safe = slab_bridge_client_safe [OF bump_new_fresh this, of "[Get 100, Write 0 5, Get 20, Give_Back 1, Get 5000, Get 90]"]
  from disjE [OF safe] ok obtain held b h' where "?run = Inr (held, b, h')" "distinct held" "nullptr \<notin> set held"
    "\<forall>p. p \<notin> set held \<longrightarrow> slab_bridge_deallocate p (b, h') = Inr (b, h')" by metis
  then show ?thesis by blast
qed

text \<open>
  The two versions disagree on a size above 4096: \<open>memory::SlabAllocator\<close> ignores the block,
  \<open>legacy_pool::SlabAllocator\<close> puts it on the free list of the last class.
\<close>

lemma oversize_Deallocate:
  assumes "4096 < sz" and "ptr \<noteq> nullptr"
  shows "slab_Deallocate ptr sz (ps, h) = Inr (ps, h)"
    and "legacy_slab_Deallocate ptr sz (ps, h) = rbind (pool_Push ptr (ps ! 7, h)) (\<lambda>(p, h'). Inr (ps[7 := p], h'))"
  using assms IndexFor_None [of sz]
  by (simp_all add: slab_Deallocate_def legacy_slab_Deallocate_def legacy_IndexFor_eq)

end
