(* ===== verification/Tls_Cache.thy ===== *)
theory Tls_Cache
  imports Legacy_Pool
begin

text \<open>
  The two thread-local caches in front of an allocator, \<open>memory::TlsCache\<close> and
  \<open>legacy_pool::TlsCache\<close>. Each takes the functions \<open>alloc\<close> and \<open>free\<close> as arguments, so the
  model does too; that the cache is again a block allocator is proved inside the locale of the
  allocators, once for every allocator it may sit on.
\<close>

section \<open>Operations\<close>

text \<open>The state: the vector \<open>cache_\<close>, its back last, and the state of the allocator behind it.\<close>

type_synonym 's tls = "ptr list \<times> 's"

definition kBatchSize :: nat where "kBatchSize = 16"

fun refill_loop :: "('s \<Rightarrow> (ptr \<times> 's) comp) \<Rightarrow> nat \<Rightarrow> 's tls \<Rightarrow> 's tls comp" where
  "refill_loop alloc 0 st = Inr st"
| "refill_loop alloc (Suc n) (c, s) =
     rbind (alloc s) (\<lambda>(p, s'). if p = nullptr then Inr (c, s') else refill_loop alloc n (c @ [p], s'))"

definition tls_Refill :: "('s \<Rightarrow> (ptr \<times> 's) comp) \<Rightarrow> 's tls \<Rightarrow> 's tls comp" where
  "tls_Refill alloc st = refill_loop alloc kBatchSize st"

definition tls_Flush :: "(ptr \<Rightarrow> 's \<Rightarrow> 's comp) \<Rightarrow> 's tls \<Rightarrow> 's tls comp" where
  "tls_Flush free = (\<lambda>(c, s). rbind (for_each free c s) (\<lambda>s'. Inr ([], s')))"

text \<open>\<open>back()\<close> of an empty vector is undefined: \<open>Get\<close> relies on \<open>Refill\<close> finding a block.\<close>

definition tls_Get :: "('s \<Rightarrow> (ptr \<times> 's) comp) \<Rightarrow> 's tls \<Rightarrow> (ptr \<times> 's tls) comp" where
  "tls_Get alloc st =
     rbind (if fst st = [] then tls_Refill alloc st else Inr st) (\<lambda>(c, s).
       if c = [] then Inl Empty_Container else Inr (last c, butlast c, s))"

definition tls_Put :: "(ptr \<Rightarrow> 's \<Rightarrow> 's comp) \<Rightarrow> ptr \<Rightarrow> 's tls \<Rightarrow> 's tls comp" where
  "tls_Put free p st =
     rbind (if kBatchSize \<le> length (fst st) then tls_Flush free st else Inr st) (\<lambda>(c, s). Inr (c @ [p], s))"

definition tls_destroy :: "(ptr \<Rightarrow> 's \<Rightarrow> 's comp) \<Rightarrow> 's tls \<Rightarrow> 's tls comp" where
  "tls_destroy free st = tls_Flush free st"

definition legacy_tls_new :: "('s \<Rightarrow> (ptr \<times> 's) comp) \<Rightarrow> 's \<Rightarrow> 's tls comp" where
  "legacy_tls_new alloc s = tls_Refill alloc ([], s)"

definition legacy_tls_Get :: "('s \<Rightarrow> (ptr \<times> 's) comp) \<Rightarrow> 's tls \<Rightarrow> (ptr \<times> 's tls) comp" where
  "legacy_tls_Get alloc st =
     rbind (if fst st = [] then tls_Refill alloc st else Inr st) (\<lambda>(c, s).
       if c \<noteq> [] then Inr (last c, butlast c, s) else rbind (alloc s) (\<lambda>(p, s'). Inr (p, c, s')))"

definition legacy_tls_Put :: "(ptr \<Rightarrow> 's \<Rightarrow> 's comp) \<Rightarrow> ptr \<Rightarrow> 's tls \<Rightarrow> 's tls comp" where
  "legacy_tls_Put free p = (\<lambda>(c, s).
     if kBatchSize * 2 \<le> length (c @ [p]) then tls_Flush free (c @ [p], s) else Inr (c @ [p], s))"

definition tls_write :: "(ptr \<Rightarrow> ptr \<Rightarrow> 's \<Rightarrow> 's comp) \<Rightarrow> ptr \<Rightarrow> ptr \<Rightarrow> 's tls \<Rightarrow> 's tls comp" where
  "tls_write scribble p v = (\<lambda>(c, s). rbind (scribble p v s) (\<lambda>s'. Inr (c, s')))"

section \<open>A cache in front of an allocator is an allocator\<close>

text \<open>The blocks of the cache are in use for the allocator and free for the client.\<close>

definition cache_inv :: "('s \<Rightarrow> bool) \<Rightarrow> ('s \<Rightarrow> ptr set) \<Rightarrow> 's tls \<Rightarrow> bool" where
  "cache_inv ok live = (\<lambda>(c, s). ok s \<and> distinct c \<and> set c \<subseteq> live s)"

definition cache_live :: "('s \<Rightarrow> ptr set) \<Rightarrow> 's tls \<Rightarrow> ptr set" where
  "cache_live live = (\<lambda>(c, s). live s - set c)"

locale cached_allocator = block_allocator inv live alloc free scribble
  for inv :: "'s \<Rightarrow> bool" and live and alloc :: "'r \<Rightarrow> 's \<Rightarrow> (ptr \<times> 's) comp" and free and scribble +
  fixes request :: 'r
begin

lemma refill_loop_ok:
  assumes "cache_inv inv live st"
  shows "refill_loop (alloc request) n st = Inl Bad_Alloc \<or>
    (\<exists>st'. refill_loop (alloc request) n st = Inr st' \<and> cache_inv inv live st' \<and> cache_live live st' = cache_live live st \<and>
       length (fst st') \<le> length (fst st) + n)"
  using assms
proof (induction n arbitrary: st)
  case (Suc n)
  obtain c s where st: "st = (c, s)" by (cases st)
  have I: "inv s" "distinct c" "set c \<subseteq> live s" using Suc.prems by (simp_all add: st cache_inv_def)
  from alloc_ok [OF I(1), of request] show ?case
  proof
    assume "\<exists>p s'. alloc request s = Inr (p, s') \<and> inv s' \<and>
      (if p = nullptr then live s' = live s else p \<notin> live s \<and> live s' = insert p (live s))"
    then obtain p s' where p: "alloc request s = Inr (p, s')" "inv s'"
      "if p = nullptr then live s' = live s else p \<notin> live s \<and> live s' = insert p (live s)" by blast
    show ?thesis
    proof (cases "p = nullptr")
      case True
      with p I show ?thesis by (auto simp: st cache_inv_def cache_live_def)
    next
      case False
      then have "cache_inv inv live (c @ [p], s')" "cache_live live (c @ [p], s') = cache_live live st"
        using p I by (auto simp: st cache_inv_def cache_live_def)
      with Suc.IH [of "(c @ [p], s')"] p(1) False show ?thesis by (auto simp: st)
    qed
  qed (simp add: st)
qed simp

lemma Flush_ok:
  assumes "cache_inv inv live st"
  shows "\<exists>s'. tls_Flush free st = Inr ([], s') \<and> inv s' \<and> live s' = cache_live live st"
proof -
  obtain c s where st: "st = (c, s)" by (cases st)
  have "\<exists>s'. for_each free c s = Inr s' \<and> inv s' \<and> live s' = live s - set c"
    if "inv s" "distinct c" "set c \<subseteq> live s" for s
    using that
  proof (induction c arbitrary: s)
    case (Cons p c)
    then obtain s1 where s1: "free p s = Inr s1" "inv s1" "live s1 = live s - {p}" using free_ok [of s p] by auto
    have "set c \<subseteq> live s1" "live s1 - set c = live s - set (p # c)" using Cons.prems s1(3) by auto
    with Cons.IH [of s1] Cons.prems(2) s1(1,2) show ?case by simp
  qed simp
  moreover have "inv s" "distinct c" "set c \<subseteq> live s" using assms by (simp_all add: st cache_inv_def)
  ultimately obtain s' where "for_each free c s = Inr s'" "inv s'" "live s' = live s - set c" by blast
  then show ?thesis by (simp add: st tls_Flush_def cache_live_def)
qed

lemma take_last:
  assumes "cache_inv inv live (c, s)" and "c \<noteq> []"
  shows "cache_inv inv live (butlast c, s)" and "last c \<noteq> nullptr" and "last c \<notin> cache_live live (c, s)"
    and "cache_live live (butlast c, s) = insert (last c) (cache_live live (c, s))"
proof -
  obtain d p where c: "c = d @ [p]" using assms(2) by (cases c rule: rev_cases) auto
  have p: "p \<in> live s" "p \<notin> set d" "inv s" using assms(1) by (auto simp: c cache_inv_def)
  have "p \<noteq> nullptr" using live_nonnull [OF p(3)] p(1) by metis
  with p assms(1)
  show "cache_inv inv live (butlast c, s)" and "last c \<noteq> nullptr" and "last c \<notin> cache_live live (c, s)"
    and "cache_live live (butlast c, s) = insert (last c) (cache_live live (c, s))"
    by (auto simp: c cache_inv_def cache_live_def)
qed

lemma legacy_Get_ok:
  assumes "cache_inv inv live st"
  shows "legacy_tls_Get (alloc request) st = Inl Bad_Alloc \<or>
    (\<exists>p st'. legacy_tls_Get (alloc request) st = Inr (p, st') \<and> cache_inv inv live st' \<and>
      (if p = nullptr then cache_live live st' = cache_live live st
       else p \<notin> cache_live live st \<and> cache_live live st' = insert p (cache_live live st)))"
proof -
  have R: "tls_Refill (alloc request) st = Inl Bad_Alloc \<or> (\<exists>c s. tls_Refill (alloc request) st = Inr (c, s) \<and>
      cache_inv inv live (c, s) \<and> cache_live live (c, s) = cache_live live st)"
    using refill_loop_ok [OF assms, of kBatchSize] by (auto simp: tls_Refill_def)
  consider (refill_fails) "fst st = []" "tls_Refill (alloc request) st = Inl Bad_Alloc"
    | (ready) c s where "(if fst st = [] then tls_Refill (alloc request) st else Inr st) = Inr (c, s)"
        "cache_inv inv live (c, s)" "cache_live live (c, s) = cache_live live st"
    using R assms by (cases st; cases "fst st = []") auto
  then show ?thesis
  proof cases
    case refill_fails
    then show ?thesis by (simp add: legacy_tls_Get_def)
  next
    case ready
    show ?thesis
    proof (cases "c = []")
      case False
      with ready take_last [OF ready(2)] show ?thesis by (auto simp: legacy_tls_Get_def)
    next
      case True
      then have s: "inv s" "cache_live live st = live s" using ready(2,3) by (auto simp: cache_inv_def cache_live_def)
      have "legacy_tls_Get (alloc request) st = rbind (alloc request s) (\<lambda>(p, s'). Inr (p, [], s'))"
        using ready(1) True by (simp add: legacy_tls_Get_def)
      moreover have "cache_inv inv live ([], s')" "cache_live live ([], s') = live s'" if "inv s'" for s'
        using that by (simp_all add: cache_inv_def cache_live_def)
      ultimately show ?thesis using alloc_ok [OF s(1), of request] s(2) by fastforce
    qed
  qed
qed

lemma Put_flushes:
  assumes "cache_inv inv live (c, s)" and "p \<in> cache_live live (c, s)"
  shows "cache_inv inv live (c @ [p], s)" and "cache_live live (c @ [p], s) = cache_live live (c, s) - {p}"
  using assms by (auto simp: cache_inv_def cache_live_def)

lemma flushed:
  assumes "cache_inv inv live st"
  obtains s' where "tls_Flush free st = Inr ([], s')" "cache_inv inv live ([], s')" "cache_live live ([], s') = cache_live live st"
  using Flush_ok [OF assms] by (auto simp: cache_inv_def cache_live_def)

lemma Put_ok:
  assumes inv: "cache_inv inv live st" and p: "p \<in> cache_live live st"
  shows "\<exists>st'. tls_Put free p st = Inr st' \<and> cache_inv inv live st' \<and> cache_live live st' = cache_live live st - {p}"
proof (cases "kBatchSize \<le> length (fst st)")
  case True
  obtain s' where s': "tls_Flush free st = Inr ([], s')" "cache_inv inv live ([], s')" "cache_live live ([], s') = cache_live live st"
    using flushed [OF inv] .
  with Put_flushes [OF s'(2)] p True show ?thesis by (simp add: tls_Put_def)
next
  case False
  with Put_flushes [of "fst st" "snd st" p] assms show ?thesis by (cases st) (simp add: tls_Put_def)
qed

lemma legacy_Put_ok:
  assumes inv: "cache_inv inv live st" and p: "p \<in> cache_live live st"
  shows "\<exists>st'. legacy_tls_Put free p st = Inr st' \<and> cache_inv inv live st' \<and> cache_live live st' = cache_live live st - {p}"
proof -
  obtain c s where st: "st = (c, s)" by (cases st)
  note P = Put_flushes [of c s p, folded st, OF inv p]
  obtain s' where s': "tls_Flush free (c @ [p], s) = Inr ([], s')" "cache_inv inv live ([], s')"
    "cache_live live ([], s') = cache_live live (c @ [p], s)"
    using flushed [OF P(1)] .
  show ?thesis using P s' by (simp add: legacy_tls_Put_def st)
qed

lemma write_ok:
  assumes inv: "cache_inv inv live st" and p: "p \<in> cache_live live st"
  shows "\<exists>st'. tls_write scribble p v st = Inr st' \<and> cache_inv inv live st' \<and> cache_live live st' = cache_live live st"
proof -
  obtain c s where st: "st = (c, s)" by (cases st)
  have "inv s" "p \<in> live s" using inv p by (simp_all add: st cache_inv_def cache_live_def)
  from scribble_ok [OF this, of v] obtain s' where "scribble p v s = Inr s'" "inv s'" "live s' = live s" by blast
  with inv show ?thesis by (auto simp: st tls_write_def cache_inv_def cache_live_def)
qed

lemma cache_live_nonnull: "cache_inv inv live st \<Longrightarrow> nullptr \<notin> cache_live live st"
  using live_nonnull by (cases st) (auto simp: cache_inv_def cache_live_def)

end

sublocale cached_allocator \<subseteq> legacy_cache: block_allocator "cache_inv inv live" "cache_live live"
  "\<lambda>_ :: unit. legacy_tls_Get (alloc request)" "legacy_tls_Put free" "tls_write scribble"
  by unfold_locales (erule cache_live_nonnull legacy_Get_ok legacy_Put_ok write_ok; assumption?)+

text \<open>In front of an allocator that never returns the null pointer, \<open>back()\<close> finds a block.\<close>

lemma refill_loop_length:
  "refill_loop f n st = Inr st' \<Longrightarrow> length (fst st') \<le> length (fst st) + n"
proof (induction n arbitrary: st)
  case (Suc n)
  obtain c s where st: "st = (c, s)" by (cases st)
  from Suc.prems obtain p s1 where p: "f s = Inr (p, s1)"
    "(if p = nullptr then Inr (c, s1) else refill_loop f n (c @ [p], s1)) = Inr st'"
    by (auto simp: st rbind_eq_Inr)
  with Suc.IH [of "(c @ [p], s1)"] show ?case by (cases "p = nullptr") (auto simp: st)
qed simp

locale total_cached_allocator = cached_allocator + total_allocator inv live alloc free scribble
begin

lemma Refill_nonempty:
  assumes "cache_inv inv live ([], s)" and "tls_Refill (alloc request) ([], s) = Inr st'"
  shows "fst st' \<noteq> []"
proof -
  have grows: "fst t' \<noteq> []" if "refill_loop (alloc request) n t = Inr t'" "fst t \<noteq> []" for n t t'
    using that
  proof (induction n arbitrary: t)
    case (Suc n)
    obtain c u where t: "t = (c, u)" by (cases t)
    from Suc.prems obtain p u1 where "(if p = nullptr then Inr (c, u1) else refill_loop (alloc request) n (c @ [p], u1)) = Inr t'"
      by (auto simp: t rbind_eq_Inr)
    with Suc.IH [of "(c @ [p], u1)"] Suc.prems(2) show ?case by (auto simp: t split: if_splits)
  qed simp
  have "inv s" using assms(1) by (simp add: cache_inv_def)
  have loop: "refill_loop (alloc request) (Suc 15) ([], s) = Inr st'"
    using assms(2) by (simp add: tls_Refill_def kBatchSize_def)
  then obtain p s1 where p: "alloc request s = Inr (p, s1)"
    "(if p = nullptr then Inr ([], s1) else refill_loop (alloc request) 15 ([] @ [p], s1)) = Inr st'"
    unfolding refill_loop.simps rbind_eq_Inr by (auto simp del: append_Nil)
  have "p \<noteq> nullptr" using alloc_nonnull [OF \<open>inv s\<close> p(1)] .
  with p(2) grows [of 15 "([p], s1)"] show ?thesis by simp
qed

lemma Get_ok:
  assumes inv: "cache_inv inv live st"
  shows "tls_Get (alloc request) st = Inl Bad_Alloc \<or>
    (\<exists>p st'. tls_Get (alloc request) st = Inr (p, st') \<and> cache_inv inv live st' \<and> p \<noteq> nullptr \<and>
       p \<notin> cache_live live st \<and> cache_live live st' = insert p (cache_live live st))"
proof (cases "fst st = []")
  case False
  then obtain c s where st: "st = (c, s)" "c \<noteq> []" by (cases st) auto
  with take_last [of c s] inv show ?thesis by (simp add: tls_Get_def)
next
  case True
  then obtain s where st: "st = ([], s)" by (cases st) auto
  from refill_loop_ok [OF inv, of kBatchSize] show ?thesis
  proof
    assume "refill_loop (alloc request) kBatchSize st = Inl Bad_Alloc"
    then show ?thesis by (simp add: tls_Get_def st tls_Refill_def)
  next
    assume "\<exists>st'. refill_loop (alloc request) kBatchSize st = Inr st' \<and> cache_inv inv live st' \<and>
      cache_live live st' = cache_live live st \<and> length (fst st') \<le> length (fst st) + kBatchSize"
    then obtain c t where r: "tls_Refill (alloc request) st = Inr (c, t)" "cache_inv inv live (c, t)"
      "cache_live live (c, t) = cache_live live st" by (auto simp: tls_Refill_def)
    have "c \<noteq> []" using Refill_nonempty [of s "(c, t)"] inv r(1) by (simp add: st)
    with r take_last [OF r(2)] show ?thesis by (simp add: tls_Get_def st)
  qed
qed

end

sublocale total_cached_allocator \<subseteq> cache: total_allocator "cache_inv inv live" "cache_live live"
  "\<lambda>_ :: unit. tls_Get (alloc request)" "tls_Put free" "tls_write scribble"
proof unfold_locales
  fix st assume inv: "cache_inv inv live st"
  show "nullptr \<notin> cache_live live st" using inv by (rule cache_live_nonnull)
  from Get_ok [OF inv] show "tls_Get (alloc request) st = Inl Bad_Alloc \<or>
      (\<exists>p s'. tls_Get (alloc request) st = Inr (p, s') \<and> cache_inv inv live s' \<and>
        (if p = nullptr then cache_live live s' = cache_live live st
         else p \<notin> cache_live live st \<and> cache_live live s' = insert p (cache_live live st)))"
    by auto
  show "p \<noteq> nullptr" if "tls_Get (alloc request) st = Inr (p, s')" for p s'
    using Get_ok [OF inv] that by auto
qed (erule (1) Put_ok write_ok)+

interpretation fixed_cached: total_cached_allocator "fixed_inv new" pool_live "\<lambda>_ :: unit. fixed_Allocate new"
  fixed_Deallocate pool_write "()"
  for new
  by unfold_locales

interpretation bridge_cached: cached_allocator "legacy_inv new" pool_live "fixed_bridge_allocate new"
  fixed_bridge_deallocate pool_write req
  for new req
  by unfold_locales

section \<open>Properties\<close>

lemma tls_Get_length:
  assumes "tls_Get f st = Inr (p, st')" and "length (fst st) \<le> kBatchSize"
  shows "length (fst st') \<le> kBatchSize"
proof -
  obtain c s where r: "(if fst st = [] then tls_Refill f st else Inr st) = Inr (c, s)" "fst st' = butlast c"
    using assms(1) by (auto simp: tls_Get_def rbind_eq_Inr split: if_splits)
  have "length c \<le> kBatchSize"
    using r(1) assms(2) refill_loop_length [of f kBatchSize st "(c, s)"] by (auto simp: tls_Refill_def split: if_splits)
  with r(2) show ?thesis by simp
qed

lemma tls_Put_length:
  assumes "tls_Put f p st = Inr st'" and "length (fst st) \<le> kBatchSize"
  shows "length (fst st') \<le> kBatchSize"
  using assms by (auto simp: tls_Put_def tls_Flush_def rbind_eq_Inr kBatchSize_def split: if_splits prod.splits)

text \<open>
  C21: a client of a \<open>TlsCache\<close> in front of a fixed-size pool holds distinct blocks, none of them in
  the cache; the cache has at most 16 blocks; and when it is destroyed all of them go back to the
  pool, so that the blocks in use are those the client holds.
\<close>

theorem tls_cache_client_safe:
  assumes "fresh_new new" and "heap_ok h" and "0 < blocks_per_chunk"
    and "unat (max block_size 8) * unat blocks_per_chunk < 2 ^ 64"
  shows "run_client (\<lambda>_ :: unit. tls_Get (fixed_Allocate new)) (tls_Put fixed_Deallocate) (tls_write pool_write) ops
       ([], [], FixedSizeMemoryPool_new block_size blocks_per_chunk, h) = Inl Bad_Alloc \<or>
    (\<exists>held c s. run_client (\<lambda>_ :: unit. tls_Get (fixed_Allocate new)) (tls_Put fixed_Deallocate) (tls_write pool_write) ops
       ([], [], FixedSizeMemoryPool_new block_size blocks_per_chunk, h) = Inr (held, c, s) \<and>
     distinct (held @ c) \<and> nullptr \<notin> set held \<and> set held \<union> set c = pool_live s \<and> length c \<le> 16 \<and>
     (\<exists>s'. tls_destroy fixed_Deallocate (c, s) = Inr ([], s') \<and> pool_inv s' \<and> pool_live s' = set held))"
proof -
  let ?s = "([], FixedSizeMemoryPool_new block_size blocks_per_chunk, h)"
  let ?run = "run_client (\<lambda>_ :: unit. tls_Get (fixed_Allocate new)) (tls_Put fixed_Deallocate) (tls_write pool_write) ops ([], ?s)"
  note new = fixed_new_inv [OF assms]
  have inv: "cache_inv (fixed_inv new) pool_live ?s" using new(1) by (simp add: cache_inv_def)
  have "set [] = cache_live pool_live ?s" using new(2) by (simp add: cache_live_def)
  from fixed_cached.cache.run_client_safe [OF inv distinct.simps(1) [THEN iffD2, OF TrueI] this, of ops]
  show ?thesis
  proof
    assume "\<exists>held' s'. ?run = Inr (held', s') \<and> cache_inv (fixed_inv new) pool_live s' \<and>
       distinct held' \<and> set held' = cache_live pool_live s' \<and> nullptr \<notin> set held'"
    then obtain held c s where r: "?run = Inr (held, c, s)" "cache_inv (fixed_inv new) pool_live (c, s)"
      "distinct held" "set held = pool_live s - set c" "nullptr \<notin> set held" by (auto simp: cache_live_def)
    have "length (fst (c, s)) \<le> kBatchSize"
      using r(1) by (rule run_client_preserves [where J = "\<lambda>_ st. length (fst st) \<le> kBatchSize"])
        (auto simp: tls_write_def rbind_eq_Inr dest: tls_Get_length tls_Put_length)
    moreover have "distinct c" "set c \<subseteq> pool_live s" using r(2) by (simp_all add: cache_inv_def)
    moreover obtain s' where "tls_Flush fixed_Deallocate (c, s) = Inr ([], s')" "fixed_inv new s'"
      "pool_live s' = cache_live pool_live (c, s)" using fixed_cached.Flush_ok [OF r(2)] by blast
    ultimately show ?thesis
      using r(1,3,4,5) by (cases s') (auto simp: tls_destroy_def cache_live_def fixed_inv_def kBatchSize_def)
  qed simp
qed

lemma tls_cache_client_safe_witness:
  "\<exists>held c s. run_client (\<lambda>_ :: unit. tls_Get (fixed_Allocate bump_new)) (tls_Put fixed_Deallocate) (tls_write pool_write)
       [Get (), Write 0 3, Get (), Give_Back 1] ([], [], FixedSizeMemoryPool_new 24 4, \<lparr>h_next = (\<lambda>_. 0), h_regions = []\<rparr>) =
     Inr (held, c, s) \<and> distinct (held @ c) \<and> length c \<le> 16"
proof -
  let ?h = "\<lparr>h_next = (\<lambda>_. 0), h_regions = []\<rparr> :: heap" and ?ops = "[Get (), Write 0 3, Get (), Give_Back 1]"
  let ?run = "run_client (\<lambda>_ :: unit. tls_Get (fixed_Allocate bump_new)) (tls_Put fixed_Deallocate) (tls_write pool_write)
       ?ops ([], [], FixedSizeMemoryPool_new 24 4, ?h)"
  have new: "grow_by bump_new n t \<noteq> Inl Bad_Alloc" for n and t :: "BlockPool \<times> heap"
    by (rule grow_by_fault) (simp add: bump_new_def)
  have alloc: "fixed_Allocate bump_new s \<noteq> Inl Bad_Alloc" for s :: "BlockPool \<times> heap"
    using new by (cases s) (auto simp: fixed_Allocate_def fixed_Expand_def rbind_eq_Inl pool_ops_fault split: if_splits)
  have refill: "refill_loop (fixed_Allocate bump_new) n st \<noteq> Inl Bad_Alloc" for n and st :: "(BlockPool \<times> heap) tls"
  proof (induction n arbitrary: st)
    case (Suc n)
    then show ?case using alloc by (cases st) (auto simp: rbind_eq_Inl split: if_splits)
  qed simp
  have free: "fixed_Deallocate p s \<noteq> Inl Bad_Alloc" for p and s :: "BlockPool \<times> heap"
    by (simp add: fixed_Deallocate_def pool_ops_fault)
  have flush: "for_each fixed_Deallocate c s \<noteq> Inl Bad_Alloc" for c and s :: "BlockPool \<times> heap"
    by (induction c arbitrary: s) (auto simp: rbind_eq_Inl free)
  have run: "?run \<noteq> Inl Bad_Alloc"
    by (rule run_client_no_fault)
      (auto simp: tls_Get_def tls_Refill_def tls_Put_def tls_Flush_def tls_write_def pool_write_def rbind_eq_Inl refill
        flush store_next_fault split: if_splits prod.splits)
  have "heap_ok ?h" by (simp add: heap_ok_def)
  note safe = tls_cache_client_safe [OF bump_new_fresh this, of 4 24 ?ops]
  have "unat (max 24 8 :: size_t) * unat (4 :: size_t) < 2 ^ 64" by (simp add: max_def)
  from disjE [OF safe [OF _ this]] run show ?thesis by fastforce
qed

text \<open>
  A client of the legacy cache in front of the legacy pool holds distinct blocks, none of them
  in the cache. The cache has no destructor that flushes: the blocks still in it stay in use for
  the pool when it goes.
\<close>

theorem legacy_tls_client_safe:
  assumes "legacy_inv new s" and "pool_live s = {}" and "legacy_tls_new (fixed_bridge_allocate new bytes) s = Inr st"
  shows "run_client (\<lambda>_ :: unit. legacy_tls_Get (fixed_bridge_allocate new bytes)) (legacy_tls_Put fixed_bridge_deallocate)
       (tls_write pool_write) ops ([], st) = Inl Bad_Alloc \<or>
    (\<exists>held c s'. run_client (\<lambda>_ :: unit. legacy_tls_Get (fixed_bridge_allocate new bytes)) (legacy_tls_Put fixed_bridge_deallocate)
       (tls_write pool_write) ops ([], st) = Inr (held, c, s') \<and> legacy_inv new s' \<and>
     distinct (held @ c) \<and> nullptr \<notin> set held \<and> pool_live s' = set held \<union> set c)"
proof -
  let ?run = "run_client (\<lambda>_ :: unit. legacy_tls_Get (fixed_bridge_allocate new bytes)) (legacy_tls_Put fixed_bridge_deallocate)
       (tls_write pool_write) ops ([], st)"
  have "cache_inv (legacy_inv new) pool_live ([], s)" using assms(1) by (simp add: cache_inv_def)
  from bridge_cached.refill_loop_ok [OF this, of bytes kBatchSize] assms(2,3)
  have inv: "cache_inv (legacy_inv new) pool_live st" "set [] = cache_live pool_live st"
    by (auto simp: legacy_tls_new_def tls_Refill_def cache_live_def)
  from bridge_cached.legacy_cache.run_client_safe [OF inv(1) distinct.simps(1) [THEN iffD2, OF TrueI] inv(2), of bytes ops]
  show ?thesis
  proof
    assume "\<exists>held' s'. ?run = Inr (held', s') \<and> cache_inv (legacy_inv new) pool_live s' \<and>
       distinct held' \<and> set held' = cache_live pool_live s' \<and> nullptr \<notin> set held'"
    then obtain held c s where "?run = Inr (held, c, s)" "cache_inv (legacy_inv new) pool_live (c, s)"
      "distinct held" "set held = pool_live s - set c" "nullptr \<notin> set held" by (auto simp: cache_live_def)
    then show ?thesis by (auto simp: cache_inv_def)
  qed simp
qed

lemma legacy_tls_client_safe_witness:
  "\<exists>s st held c s'. legacy_new bump_new 20 2 \<lparr>h_next = (\<lambda>_. 0), h_regions = []\<rparr> = Inr s \<and>
     legacy_tls_new (fixed_bridge_allocate bump_new 32) s = Inr st \<and>
     run_client (\<lambda>_ :: unit. legacy_tls_Get (fixed_bridge_allocate bump_new 32)) (legacy_tls_Put fixed_bridge_deallocate)
       (tls_write pool_write) [Get (), Get (), Give_Back 0] ([], st) = Inr (held, c, s') \<and>
     pool_live s' = set held \<union> set c"
proof -
  let ?h = "\<lparr>h_next = (\<lambda>_. 0), h_regions = []\<rparr> :: heap" and ?ops = "[Get (), Get (), Give_Back 0]"
  have al: "align_up 20 16 = 32" by (simp add: align_up_def)
  obtain s where s: "legacy_new bump_new 20 2 ?h = Inr s"
  proof -
    have "\<exists>s. legacy_new bump_new 20 2 ?h = Inr s"
      by (simp add: legacy_new_def al legacy_Expand_def legacy_blocks_def lf_Push_def grow_by_def operator_new_def
          bump_new_def carve_def store_next_def accessible_def pointer_size_def upt_rec)
    then show ?thesis using that by blast
  qed
  have ok: "heap_ok ?h" by (simp add: heap_ok_def)
  have inv: "legacy_inv bump_new s" "pool_live s = {}"
    using legacy_new_ok [OF bump_new_fresh ok _ _ _ s] by (simp_all add: al)
  have new: "grow_by bump_new n t \<noteq> Inl Bad_Alloc" for n and t :: "LegacyPool \<times> heap"
    by (rule grow_by_fault) (simp add: bump_new_def)
  have blocks: "legacy_blocks p \<noteq> Inl Bad_Alloc" for p by (simp add: legacy_blocks_def Let_def)
  have alloc: "fixed_bridge_allocate bump_new b t \<noteq> Inl Bad_Alloc" for b and t :: "LegacyPool \<times> heap"
    using new blocks
    by (cases t) (auto simp: fixed_bridge_allocate_def legacy_Allocate_def legacy_Expand_def set_expanding_def rbind_eq_Inl
        pool_ops_fault split: if_splits)
  have refill: "refill_loop (fixed_bridge_allocate bump_new b) n t \<noteq> Inl Bad_Alloc" for b n and t :: "(LegacyPool \<times> heap) tls"
  proof (induction n arbitrary: t)
    case (Suc n)
    then show ?case using alloc by (cases t) (auto simp: rbind_eq_Inl split: if_splits)
  qed simp
  have free: "fixed_bridge_deallocate p t \<noteq> Inl Bad_Alloc" for p and t :: "LegacyPool \<times> heap"
    by (auto simp: fixed_bridge_deallocate_def legacy_Deallocate_def rbind_eq_Inl pool_ops_fault)
  have flush: "for_each fixed_bridge_deallocate c t \<noteq> Inl Bad_Alloc" for c and t :: "LegacyPool \<times> heap"
    by (induction c arbitrary: t) (auto simp: rbind_eq_Inl free)
  have "cache_inv (legacy_inv bump_new) pool_live ([], s)" using inv by (simp add: cache_inv_def)
  from bridge_cached.refill_loop_ok [OF this, of 32 kBatchSize] refill
  obtain st where st: "legacy_tls_new (fixed_bridge_allocate bump_new 32) s = Inr st"
    by (auto simp: legacy_tls_new_def tls_Refill_def)
  have run: "run_client (\<lambda>_ :: unit. legacy_tls_Get (fixed_bridge_allocate bump_new 32)) (legacy_tls_Put fixed_bridge_deallocate)
       (tls_write pool_write) ?ops t \<noteq> Inl Bad_Alloc" for t
    by (rule run_client_no_fault)
      (auto simp: legacy_tls_Get_def tls_Refill_def legacy_tls_Put_def tls_Flush_def tls_write_def pool_write_def
        rbind_eq_Inl refill flush alloc store_next_fault split: if_splits prod.splits)
  from legacy_tls_client_safe [OF inv st, of ?ops] show ?thesis
  proof (rule disjE)
    assume "run_client (\<lambda>_ :: unit. legacy_tls_Get (fixed_bridge_allocate bump_new 32)) (legacy_tls_Put fixed_bridge_deallocate)
       (tls_write pool_write) ?ops ([], st) = Inl Bad_Alloc"
    with run show ?thesis by (rule notE)
  qed (use s st in \<open>elim exE conjE, intro exI conjI\<close>)
qed

text \<open>\<open>Get\<close> takes \<open>back()\<close> of an empty vector when the allocator has no block.\<close>

lemma tls_Get_empty: "alloc s = Inr (nullptr, s') \<Longrightarrow> tls_Get alloc ([], s) = Inl Empty_Container"
  by (simp add: tls_Get_def tls_Refill_def kBatchSize_def numeral_eq_Suc)

end
