(* ===== verification/Treiber_Stack.thy ===== *)
theory Treiber_Stack
  imports Block_Heap
begin

text \<open>
  \<open>LockFreeStack\<close>, the free list of all pools, run by several threads at once. One step is one
  access to shared memory: a load of \<open>head_\<close>, the load or store of a \<open>next\<close> pointer, one
  \<open>compare_exchange_weak\<close>, which may fail without a reason. Steps interleave; the memory orders
  of the source are read as sequential consistency. The legacy version makes the same accesses.
\<close>

section \<open>Steps\<close>

datatype pc =
    Idle
  | Push_store ptr ptr
  | Push_cas ptr ptr
  | Pop_read ptr
  | Pop_cas ptr ptr

type_synonym tid = nat

record treiber =
  ts_head :: ptr
  ts_next :: "ptr \<Rightarrow> ptr"
  ts_pc :: "tid \<Rightarrow> pc"
  ts_owned :: "tid \<Rightarrow> ptr list"

definition set_pc :: "tid \<Rightarrow> pc \<Rightarrow> treiber \<Rightarrow> treiber" where
  "set_pc t c s = s\<lparr>ts_pc := (ts_pc s)(t := c)\<rparr>"

text \<open>The loop head of \<open>Pop\<close>: a null head ends it, and the caller gets the null pointer.\<close>

definition pop_from :: "tid \<Rightarrow> ptr \<Rightarrow> treiber \<Rightarrow> treiber" where
  "pop_from t h s = set_pc t (if h = nullptr then Idle else Pop_read h) s"

text \<open>
  The threads that \<open>pops\<close> names may pop. A thread also writes into the blocks it owns.
\<close>

inductive treiber_step :: "(tid \<Rightarrow> bool) \<Rightarrow> treiber \<Rightarrow> treiber \<Rightarrow> bool" for pops where
  push_load: "ts_pc s t = Idle \<Longrightarrow> p \<in> set (ts_owned s t) \<Longrightarrow>
    treiber_step pops s (set_pc t (Push_store p (ts_head s))
      (s\<lparr>ts_owned := (ts_owned s)(t := removeAll p (ts_owned s t))\<rparr>))"
| push_store: "ts_pc s t = Push_store p h \<Longrightarrow>
    treiber_step pops s (set_pc t (Push_cas p h) (s\<lparr>ts_next := (ts_next s)(p := h)\<rparr>))"
| push_cas: "ts_pc s t = Push_cas p h \<Longrightarrow> ts_head s = h \<Longrightarrow>
    treiber_step pops s (set_pc t Idle (s\<lparr>ts_head := p\<rparr>))"
| push_cas_fails: "ts_pc s t = Push_cas p h \<Longrightarrow>
    treiber_step pops s (set_pc t (Push_store p (ts_head s)) s)"
| pop_load: "ts_pc s t = Idle \<Longrightarrow> pops t \<Longrightarrow> treiber_step pops s (pop_from t (ts_head s) s)"
| pop_read: "ts_pc s t = Pop_read h \<Longrightarrow> treiber_step pops s (set_pc t (Pop_cas h (ts_next s h)) s)"
| pop_cas: "ts_pc s t = Pop_cas h n \<Longrightarrow> ts_head s = h \<Longrightarrow>
    treiber_step pops s (set_pc t Idle (s\<lparr>ts_head := n, ts_owned := (ts_owned s)(t := h # ts_owned s t)\<rparr>))"
| pop_cas_fails: "ts_pc s t = Pop_cas h n \<Longrightarrow> treiber_step pops s (pop_from t (ts_head s) s)"
| owner_write: "ts_pc s t = Idle \<Longrightarrow> p \<in> set (ts_owned s t) \<Longrightarrow>
    treiber_step pops s (s\<lparr>ts_next := (ts_next s)(p := v)\<rparr>)"

inductive_cases treiber_stepE: "treiber_step pops s s'"

section \<open>One popping thread\<close>

fun pushing :: "pc \<Rightarrow> ptr list" where
  "pushing (Push_store p h) = [p]"
| "pushing (Push_cas p h) = [p]"
| "pushing _ = []"

definition held :: "treiber \<Rightarrow> tid \<Rightarrow> ptr list" where
  "held s t = pushing (ts_pc s t) @ ts_owned s t"

fun pc_ok :: "(tid \<Rightarrow> bool) \<Rightarrow> (ptr \<Rightarrow> ptr) \<Rightarrow> ptr list \<Rightarrow> tid \<Rightarrow> pc \<Rightarrow> bool" where
  "pc_ok pops nx xs t (Push_cas p h) \<longleftrightarrow> nx p = h"
| "pc_ok pops nx xs t (Pop_read h) \<longleftrightarrow> pops t \<and> h \<in> set xs"
| "pc_ok pops nx xs t (Pop_cas h n) \<longleftrightarrow> pops t \<and> h \<in> set xs \<and> nx h = n"
| "pc_ok pops nx xs t _ \<longleftrightarrow> True"

definition stack_inv :: "(tid \<Rightarrow> bool) \<Rightarrow> ptr set \<Rightarrow> ptr list \<Rightarrow> treiber \<Rightarrow> bool" where
  "stack_inv pops blocks xs s \<longleftrightarrow>
     chain (ts_next s) (ts_head s) xs \<and> distinct xs \<and>
     (\<forall>t. distinct (held s t) \<and> nullptr \<notin> set (held s t) \<and> set (held s t) \<inter> set xs = {}) \<and>
     (\<forall>t u. t \<noteq> u \<longrightarrow> set (held s t) \<inter> set (held s u) = {}) \<and>
     (\<forall>t. pc_ok pops (ts_next s) xs t (ts_pc s t)) \<and>
     set xs \<union> (\<Union>t. set (held s t)) = blocks"

lemma stack_invE:
  assumes "stack_inv pops blocks xs s"
  shows "chain (ts_next s) (ts_head s) xs" and "distinct xs" and "distinct (held s t)" and "nullptr \<notin> set (held s t)"
    and "set (held s t) \<inter> set xs = {}" and "t \<noteq> u \<Longrightarrow> set (held s t) \<inter> set (held s u) = {}"
    and "pc_ok pops (ts_next s) xs t (ts_pc s t)" and "set xs \<union> (\<Union>t. set (held s t)) = blocks"
  using assms unfolding stack_inv_def by blast+

lemma pc_ok_write:
  assumes "pc_ok pops nx xs u c" and "p \<notin> set xs" and "p \<notin> set (pushing c)"
  shows "pc_ok pops (nx(p := v)) xs u c"
  using assms by (cases c) auto

lemma pc_ok_push: "pc_ok pops nx xs u c \<Longrightarrow> pc_ok pops nx (p # xs) u c"
  by (cases c) auto

lemma pc_ok_pop:
  assumes "pc_ok pops nx (p # xs) u c" and "\<not> pops u"
  shows "pc_ok pops nx xs u c"
  using assms by (cases c) auto

text \<open>The steps that only move a thread keep the blocks each thread holds.\<close>

lemma held_set_pc: "held (set_pc t c s) u = (if u = t then pushing c @ ts_owned s t else held s u)"
  by (simp add: held_def set_pc_def)

lemma move_inv:
  assumes "stack_inv pops blocks xs s" and "pushing c = pushing (ts_pc s t)" and "pc_ok pops (ts_next s) xs t c"
  shows "stack_inv pops blocks xs (set_pc t c s)"
proof -
  have "held (set_pc t c s) = held s" by (rule ext) (simp add: held_def set_pc_def assms(2))
  with assms(1,3) show ?thesis by (simp add: stack_inv_def set_pc_def)
qed

text \<open>Writing into a block that one thread holds keeps everything.\<close>

lemma write_inv:
  assumes inv: "stack_inv pops blocks xs s" and p: "p \<in> set (held s t)"
    and "\<forall>c h. ts_pc s t \<noteq> Push_cas p h"
  shows "stack_inv pops blocks xs (s\<lparr>ts_next := (ts_next s)(p := v)\<rparr>)"
proof -
  note I = stack_invE [OF inv]
  have notin: "p \<notin> set xs" using I(5) p by blast
  have "pc_ok pops ((ts_next s)(p := v)) xs u (ts_pc s u)" for u
  proof (cases "u = t")
    case True
    have "p \<notin> set (pushing (ts_pc s t)) \<or> (\<exists>h. ts_pc s t = Push_store p h)"
      using assms(3) by (cases "ts_pc s t") auto
    with True pc_ok_write [OF I(7) notin] show ?thesis by auto
  next
    case False
    then have "p \<notin> set (held s u)" using I(6) p by blast
    then show ?thesis using pc_ok_write [OF I(7) notin] by (simp add: held_def)
  qed
  then show ?thesis using inv notin by (simp add: stack_inv_def held_def chain_upd)
qed

lemma union_split: "(\<Union>u. set (f u)) = set (f t) \<union> (\<Union>u \<in> - {t}. set (f u))" for f :: "tid \<Rightarrow> ptr list"
  by auto

lemma push_inv:
  assumes inv: "stack_inv pops blocks xs s" and pc: "ts_pc s t = Push_cas p (ts_head s)"
  shows "stack_inv pops blocks (p # xs) (set_pc t Idle (s\<lparr>ts_head := p\<rparr>))"
proof -
  note I = stack_invE [OF inv]
  let ?s' = "set_pc t Idle (s\<lparr>ts_head := p\<rparr>)"
  have t: "held s t = p # ts_owned s t" by (simp add: held_def pc)
  have h: "held ?s' u = (if u = t then ts_owned s t else held s u)" for u
    by (simp add: held_def set_pc_def)
  have p: "p \<noteq> nullptr" "p \<notin> set xs" "p \<notin> set (ts_owned s t)" "distinct (ts_owned s t)"
    "set (ts_owned s t) \<inter> set xs = {}" "nullptr \<notin> set (ts_owned s t)"
    using I(3) [of t] I(4) [of t] I(5) [of t] by (auto simp: t)
  have "ts_next s p = ts_head s" using I(7) [of t] by (simp add: pc)
  then have "chain (ts_next s) p (p # xs)" using I(1) p(1) by simp
  moreover have "set (held ?s' u) \<inter> set (p # xs) = {}" "distinct (held ?s' u)" "nullptr \<notin> set (held ?s' u)" for u
    using p I(3) [of u] I(4) [of u] I(5) [of u] I(6) [of u t] by (auto simp: h t)
  moreover have "set (held ?s' u) \<inter> set (held ?s' v) = {}" if "u \<noteq> v" for u v
    using I(6) [of u v] that by (auto simp: h t)
  moreover have "pc_ok pops (ts_next ?s') (p # xs) u (ts_pc ?s' u)" for u
    using pc_ok_push [OF I(7)] by (simp add: set_pc_def)
  moreover have "set (p # xs) \<union> (\<Union>u. set (held ?s' u)) = blocks"
    using I(8) unfolding union_split [of "held s" t] union_split [of "held ?s'" t] by (simp add: h t)
  ultimately show ?thesis using I(2) p(2) by (simp add: stack_inv_def set_pc_def)
qed

lemma pop_inv:
  assumes inv: "stack_inv pops blocks xs s" and pc: "ts_pc s t = Pop_cas (ts_head s) n"
    and one: "\<forall>u. pops u \<longrightarrow> u = t"
  shows "\<exists>ys. xs = ts_head s # ys \<and>
    stack_inv pops blocks ys (set_pc t Idle (s\<lparr>ts_head := n, ts_owned := (ts_owned s)(t := ts_head s # ts_owned s t)\<rparr>))"
proof -
  note I = stack_invE [OF inv]
  let ?s' = "set_pc t Idle (s\<lparr>ts_head := n, ts_owned := (ts_owned s)(t := ts_head s # ts_owned s t)\<rparr>)"
  let ?h = "ts_head s"
  have top: "?h \<in> set xs" "ts_next s ?h = n" using I(7) [of t] by (simp_all add: pc)
  then obtain ys where ys: "xs = ?h # ys" using I(1) by (cases xs) auto
  have h: "held ?s' u = (if u = t then ?h # ts_owned s t else held s u)" for u
    by (simp add: held_def set_pc_def)
  have t: "held s t = ts_owned s t" by (simp add: held_def pc)
  have nn: "?h \<noteq> nullptr" "?h \<notin> set ys" "distinct ys" "chain (ts_next s) n ys" using I(1,2) top(2) by (simp_all add: ys)
  have "set (held ?s' u) \<inter> set ys = {}" "distinct (held ?s' u)" "nullptr \<notin> set (held ?s' u)" for u
    using nn(1,2) I(3) [of u] I(4) [of u] I(5) [of u] by (auto simp: h t ys)
  moreover have "set (held ?s' u) \<inter> set (held ?s' v) = {}" if "u \<noteq> v" for u v
    using I(6) [of u v] I(5) [of u] I(5) [of v] that by (auto simp: h t ys)
  moreover have "pc_ok pops (ts_next ?s') ys u (ts_pc ?s' u)" for u
    using pc_ok_pop [OF I(7) [of u, unfolded ys]] one by (cases "u = t") (auto simp: set_pc_def)
  moreover have "set ys \<union> (\<Union>u. set (held ?s' u)) = blocks"
    using I(8) unfolding union_split [of "held s" t] union_split [of "held ?s'" t] by (simp add: h t ys)
  ultimately have "stack_inv pops blocks ys ?s'" using nn by (simp add: stack_inv_def set_pc_def)
  with ys show ?thesis by blast
qed

lemma pop_from_inv:
  assumes inv: "stack_inv pops blocks xs s" and "pops t" and "pushing (ts_pc s t) = []"
  shows "stack_inv pops blocks xs (pop_from t (ts_head s) s)"
  unfolding pop_from_def
proof (rule move_inv [OF inv])
  show "pc_ok pops (ts_next s) xs t (if ts_head s = nullptr then Idle else Pop_read (ts_head s))"
    using stack_invE(1) [OF inv] assms(2) by (cases xs) auto
qed (simp add: assms(3))

text \<open>Every step keeps the invariant, as long as only one thread pops.\<close>

lemma step_inv:
  assumes "treiber_step pops s s'" and "stack_inv pops blocks xs s" and one: "\<forall>t u. pops t \<and> pops u \<longrightarrow> t = u"
  shows "\<exists>ys. stack_inv pops blocks ys s'"
  using assms(1)
proof cases
  case (push_load t p)
  let ?s' = "set_pc t (Push_store p (ts_head s)) (s\<lparr>ts_owned := (ts_owned s)(t := removeAll p (ts_owned s t))\<rparr>)"
  note I = stack_invE [OF assms(2)]
  have h: "held ?s' u = (if u = t then p # removeAll p (ts_owned s t) else held s u)" for u
    by (simp add: held_def set_pc_def)
  have t: "held s t = ts_owned s t" using push_load(2) by (simp add: held_def)
  have same: "set (held ?s' u) = set (held s u)" for u using push_load(3) by (auto simp: h t)
  have "distinct (held ?s' u)" for u
    using I(3) [of u] by (auto simp: h t distinct_removeAll)
  then have "stack_inv pops blocks xs ?s'"
    using assms(2) by (simp add: stack_inv_def same) (simp add: set_pc_def)
  with push_load(1) show ?thesis by blast
next
  case (push_store t p h)
  have "p \<in> set (held s t)" by (simp add: held_def push_store(2))
  from write_inv [OF assms(2) this, of h] push_store(2)
  have w: "stack_inv pops blocks xs (s\<lparr>ts_next := (ts_next s)(p := h)\<rparr>)" by simp
  have "stack_inv pops blocks xs (set_pc t (Push_cas p h) (s\<lparr>ts_next := (ts_next s)(p := h)\<rparr>))"
    by (rule move_inv [OF w]) (simp_all add: push_store(2))
  with push_store(1) show ?thesis by blast
next
  case (push_cas t p h)
  with push_inv [OF assms(2), of t p] show ?thesis by auto
next
  case (push_cas_fails t p h)
  have "stack_inv pops blocks xs (set_pc t (Push_store p (ts_head s)) s)"
    by (rule move_inv [OF assms(2)]) (simp_all add: push_cas_fails(2))
  with push_cas_fails(1) show ?thesis by blast
next
  case (pop_load t)
  have "stack_inv pops blocks xs (pop_from t (ts_head s) s)"
    using pop_load(2,3) by (intro pop_from_inv [OF assms(2)]) simp_all
  with pop_load(1) show ?thesis by blast
next
  case (pop_read t h)
  have "stack_inv pops blocks xs (set_pc t (Pop_cas h (ts_next s h)) s)"
    using stack_invE(7) [OF assms(2), of t] by (intro move_inv [OF assms(2)]) (simp_all add: pop_read(2))
  with pop_read(1) show ?thesis by blast
next
  case (pop_cas t h n)
  have "pops t" using stack_invE(7) [OF assms(2), of t] by (simp add: pop_cas(2))
  with one have "\<forall>u. pops u \<longrightarrow> u = t" by blast
  with pop_inv [OF assms(2), of t n] pop_cas show ?thesis by auto
next
  case (pop_cas_fails t h n)
  have "pops t" using stack_invE(7) [OF assms(2), of t] by (simp add: pop_cas_fails(2))
  then have "stack_inv pops blocks xs (pop_from t (ts_head s) s)"
    by (intro pop_from_inv [OF assms(2)]) (simp_all add: pop_cas_fails(2))
  with pop_cas_fails(1) show ?thesis by blast
next
  case (owner_write t p v)
  have "p \<in> set (held s t)" using owner_write(3) by (simp add: held_def)
  from write_inv [OF assms(2) this, of v] owner_write(1,2) show ?thesis by auto
qed

section \<open>Properties\<close>

definition treiber_start :: "ptr \<Rightarrow> (ptr \<Rightarrow> ptr) \<Rightarrow> treiber" where
  "treiber_start h nx = \<lparr>ts_head = h, ts_next = nx, ts_pc = (\<lambda>_. Idle), ts_owned = (\<lambda>_. [])\<rparr>"

lemma start_inv:
  "chain nx h xs \<Longrightarrow> distinct xs \<Longrightarrow> stack_inv pops (set xs) xs (treiber_start h nx)"
  by (simp add: stack_inv_def treiber_start_def held_def)

lemma reachable_inv:
  assumes "(treiber_step pops)\<^sup>*\<^sup>* s0 s" and "stack_inv pops blocks xs s0" and "\<forall>t u. pops t \<and> pops u \<longrightarrow> t = u"
  shows "\<exists>ys. stack_inv pops blocks ys s"
  using assms(1)
proof (induction rule: rtranclp_induct)
  case base
  then show ?case using assms(2) by blast
next
  case (step s s')
  then show ?case using step_inv assms(3) by blast
qed

text \<open>
  C16: however the steps of any number of threads interleave, if at most one of them pops, the stack
  stays a list without repetition, no block is owned by two threads or owned and on the stack, and
  every block is on the stack or held by the thread that popped it.
\<close>

theorem treiber_single_popper_safe:
  assumes "chain nx h xs" and "distinct xs" and "(treiber_step pops)\<^sup>*\<^sup>* (treiber_start h nx) s"
    and "\<forall>t u. pops t \<and> pops u \<longrightarrow> t = u"
  shows "\<exists>ys. chain (ts_next s) (ts_head s) ys \<and> distinct ys \<and>
    (\<forall>t. distinct (ts_owned s t) \<and> set (ts_owned s t) \<inter> set ys = {}) \<and>
    (\<forall>t u. t \<noteq> u \<longrightarrow> set (ts_owned s t) \<inter> set (ts_owned s u) = {}) \<and>
    set ys \<union> (\<Union>t. set (pushing (ts_pc s t) @ ts_owned s t)) = set xs"
proof -
  obtain ys where inv: "stack_inv pops (set xs) ys s"
    using reachable_inv [OF assms(3) start_inv [OF assms(1,2)] assms(4)] by blast
  note I = stack_invE [OF inv]
  have "distinct (ts_owned s t)" "set (ts_owned s t) \<inter> set ys = {}" for t
    using I(3) [of t] I(5) [of t] by (auto simp: held_def)
  moreover have "set (ts_owned s t) \<inter> set (ts_owned s u) = {}" if "t \<noteq> u" for t u
    using I(6) [OF that] by (auto simp: held_def)
  moreover have "set ys \<union> (\<Union>t. set (pushing (ts_pc s t) @ ts_owned s t)) = set xs"
    using I(8) unfolding held_def .
  ultimately show ?thesis using I(1,2) by blast
qed

lemmas act = pop_from_def set_pc_def fun_upd_apply treiber.simps if_True if_False

lemma treiber_single_popper_safe_witness:
  "\<exists>s. (treiber_step (\<lambda>t. t = 0))\<^sup>*\<^sup>* (treiber_start 1 ((\<lambda>_. 0)(1 := 2))) s \<and> ts_owned s 0 = [1] \<and>
     (\<exists>ys. chain (ts_next s) (ts_head s) ys \<and> distinct ys \<and> 1 \<notin> set ys)"
proof -
  have "\<exists>s. (treiber_step (\<lambda>t. t = 0))\<^sup>*\<^sup>* (treiber_start 1 ((\<lambda>_. 0)(1 := 2))) s \<and> ts_owned s 0 = [1]"
    unfolding treiber_start_def
    apply (intro exI conjI)
     apply (rule converse_rtranclp_into_rtranclp, rule treiber_step.pop_load [where t = 0], simp, simp)
     apply (simp only: act)
     apply (rule converse_rtranclp_into_rtranclp, rule treiber_step.pop_read [where t = 0], simp)
     apply (simp only: act)
     apply (rule converse_rtranclp_into_rtranclp, rule treiber_step.pop_cas [where t = 0], simp, simp)
     apply (simp only: act)
     apply (rule rtranclp.rtrancl_refl)
    apply simp
    done
  then obtain s where s: "(treiber_step (\<lambda>t. t = 0))\<^sup>*\<^sup>* (treiber_start 1 ((\<lambda>_. 0)(1 := 2))) s" "ts_owned s 0 = [1]"
    by blast
  have "chain ((\<lambda>_. 0)(1 := 2)) 1 [1, 2]" by simp
  from treiber_single_popper_safe [OF this _ s(1)] obtain ys where "chain (ts_next s) (ts_head s) ys" "distinct ys"
    "set (ts_owned s 0) \<inter> set ys = {}" by auto
  with s show ?thesis by auto
qed

text \<open>
  With two popping threads the same block can end up owned by both: a thread that is suspended
  between reading the \<open>next\<close> pointer of the head and its \<open>compare_exchange\<close> does not notice that the
  head was popped and pushed back (ABA). Two clients of a pool then write into one block.
\<close>

theorem treiber_two_poppers_aba:
  "\<exists>s. (treiber_step (\<lambda>_. True))\<^sup>*\<^sup>* (treiber_start 1 ((\<lambda>_. 0)(1 := 2))) s \<and>
     2 \<in> set (ts_owned s 0) \<and> 2 \<in> set (ts_owned s 1)"
    unfolding treiber_start_def
    apply (intro exI conjI)
     apply (rule converse_rtranclp_into_rtranclp, rule treiber_step.pop_load [where t = 0], simp, simp)
     apply (simp add: act)
     apply (rule converse_rtranclp_into_rtranclp, rule treiber_step.pop_read [where t = 0], simp)
     apply (simp add: act)
     apply (rule converse_rtranclp_into_rtranclp, rule treiber_step.pop_load [where t = 1], simp, simp)
     apply (simp add: act)
     apply (rule converse_rtranclp_into_rtranclp, rule treiber_step.pop_read [where t = 1], simp)
     apply (simp add: act)
     apply (rule converse_rtranclp_into_rtranclp, rule treiber_step.pop_cas [where t = 1], simp, simp)
     apply (simp add: act)
     apply (rule converse_rtranclp_into_rtranclp, rule treiber_step.pop_load [where t = 1], simp, simp)
     apply (simp add: act)
     apply (rule converse_rtranclp_into_rtranclp, rule treiber_step.pop_read [where t = 1], simp)
     apply (simp add: act)
     apply (rule converse_rtranclp_into_rtranclp, rule treiber_step.pop_cas [where t = 1], simp, simp)
     apply (simp add: act)
     apply (rule converse_rtranclp_into_rtranclp, rule treiber_step.push_load [where t = 1 and p = 1], simp, simp)
     apply (simp add: act)
     apply (rule converse_rtranclp_into_rtranclp, rule treiber_step.push_store [where t = 1], simp)
     apply (simp add: act)
     apply (rule converse_rtranclp_into_rtranclp, rule treiber_step.push_cas [where t = 1], simp, simp)
     apply (simp add: act)
     apply (rule converse_rtranclp_into_rtranclp, rule treiber_step.pop_cas [where t = 0], simp, simp)
     apply (simp add: act)
     apply (rule converse_rtranclp_into_rtranclp, rule treiber_step.pop_load [where t = 0], simp, simp)
     apply (simp add: act)
     apply (rule converse_rtranclp_into_rtranclp, rule treiber_step.pop_read [where t = 0], simp)
     apply (simp add: act)
     apply (rule converse_rtranclp_into_rtranclp, rule treiber_step.pop_cas [where t = 0], simp, simp)
     apply (simp add: act)
     apply (rule rtranclp.rtrancl_refl)
    apply simp_all
    done

end
