(* ===== verification/Pool_Manager.thy ===== *)
theory Pool_Manager
  imports Slab_Pool
begin

text \<open>
  \<open>MemoryPoolManager\<close>: the fixed-size pools by block size and the slab allocator. A pointer to a
  pool is its key in the map, which keeps every pool it ever created.
\<close>

record PoolManager =
  pm_pools :: "(size_t \<times> BlockPool) list"
  pm_slabs :: slabs

definition pool_manager_new :: PoolManager where
  "pool_manager_new = \<lparr>pm_pools = [], pm_slabs = SlabAllocator_new\<rparr>"

text \<open>Insertion into the \<open>std::map\<close>, whose iteration is in the order of the keys.\<close>

fun map_insert :: "size_t \<Rightarrow> 'v \<Rightarrow> (size_t \<times> 'v) list \<Rightarrow> (size_t \<times> 'v) list" where
  "map_insert k v [] = [(k, v)]"
| "map_insert k v ((k', v') # m) =
     (if k < k' then (k, v) # (k', v') # m else if k = k' then (k, v) # m else (k', v') # map_insert k v m)"

definition GetFixedPool :: "size_t \<Rightarrow> PoolManager \<Rightarrow> size_t \<times> PoolManager" where
  "GetFixedPool block_size m =
     (case map_of (pm_pools m) block_size of
        Some _ \<Rightarrow> (block_size, m)
      | None \<Rightarrow> (block_size, m\<lparr>pm_pools := map_insert block_size (FixedSizeMemoryPool_new block_size 256) (pm_pools m)\<rparr>))"

definition GetSlabAllocator :: "PoolManager \<Rightarrow> slabs" where
  "GetSlabAllocator m = pm_slabs m"

definition TotalMemoryUsage :: "PoolManager \<Rightarrow> size_t" where
  "TotalMemoryUsage m = fold (\<lambda>(k, p) total. total + fixed_TotalAllocated p) (pm_pools m) 0"

definition manager_ok :: "PoolManager \<Rightarrow> bool" where
  "manager_ok m \<longleftrightarrow> sorted_wrt (<) (map fst (pm_pools m)) \<and>
     (\<forall>(k, p) \<in> set (pm_pools m). bp_block p = max k 8 \<and> bp_per_chunk p = 256)"

lemma map_of_map_insert: "sorted_wrt (<) (map fst m) \<Longrightarrow> map_of (map_insert k v m) = (map_of m)(k \<mapsto> v)"
  by (induction m) (auto simp: fun_eq_iff)

lemma set_map_insert_subset: "set (map_insert k v m) \<subseteq> insert (k, v) (set m)"
proof (induction m)
  case (Cons q m)
  then show ?case by (cases q) (auto split: if_splits)
qed simp

lemma sorted_map_insert: "sorted_wrt (<) (map fst m) \<Longrightarrow> sorted_wrt (<) (map fst (map_insert k v m))"
proof (induction m)
  case (Cons q m)
  obtain k' v' where q: "q = (k', v')" by (cases q)
  have above: "\<forall>x \<in> set m. k' < fst x" "sorted_wrt (<) (map fst m)" using Cons.prems by (simp_all add: q)
  have "k' < fst x" if "k' < k" "x \<in> set (map_insert k v m)" for x
    using that above(1) set_map_insert_subset [of k v m] by auto
  with Cons.IH above show ?case by (auto simp: q not_less order_le_less intro: less_trans)
qed simp

lemma GetFixedPool_ok:
  assumes "manager_ok m"
  shows "manager_ok (snd (GetFixedPool k m))"
    and "map_of (pm_pools (snd (GetFixedPool k m))) k \<noteq> None"
    and "GetFixedPool k (snd (GetFixedPool k m)) = GetFixedPool k m"
  using assms sorted_map_insert [of "pm_pools m" k] set_map_insert_subset [of k _ "pm_pools m"]
  by (fastforce simp: GetFixedPool_def manager_ok_def map_of_map_insert FixedSizeMemoryPool_new_def split: option.splits)+

end
