(* ===== verification/Byte_Memory.thy ===== *)
theory Byte_Memory
  imports Block_Heap
begin

unbundle bit_operations_syntax

text \<open>
  Memory as the tensors see it: bytes at addresses, in regions that belong to the host, to a GPU, or to
  the memory the CUDA runtime manages for both.
  An access outside the live regions, a host access to device memory, a copy between overlapping
  ranges and a \<open>free\<close> of anything but the start of a live region are undefined behaviour.
\<close>

section \<open>Regions and bytes\<close>

type_synonym byte = "8 word"

datatype space = Host | Gpu int | Managed

record mem =
  m_val :: "ptr \<Rightarrow> byte"
  m_regions :: "(ptr, nat \<times> space) umap"

definition extents :: "mem \<Rightarrow> (ptr \<times> nat) list" where
  "extents m = map (\<lambda>(a, n, s). (a, n)) (m_regions m)"

definition mem_ok :: "mem \<Rightarrow> bool" where
  "mem_ok m \<longleftrightarrow> umap_ok (m_regions m) \<and>
     (\<forall>a n s. map_of (m_regions m) a = Some (n, s) \<longrightarrow> 0 < a) \<and>
     (\<forall>a n s b k t. map_of (m_regions m) a = Some (n, s) \<and> map_of (m_regions m) b = Some (k, t) \<and> a \<noteq> b \<longrightarrow>
        a + n \<le> b \<or> b + k \<le> a)"

definition within :: "space \<Rightarrow> ptr \<Rightarrow> nat \<Rightarrow> mem \<Rightarrow> bool" where
  "within sp p n m = list_ex (\<lambda>(a, k, s). s = sp \<and> a \<le> p \<and> p + n \<le> a + k) (m_regions m)"

text \<open>An access of length 0 touches nothing.\<close>

definition mload :: "space \<Rightarrow> ptr \<Rightarrow> nat \<Rightarrow> mem \<Rightarrow> byte list comp" where
  "mload sp p n m =
     (if n = 0 then Inr [] else if within sp p n m then Inr (map (m_val m) [p..<p + n]) else Inl Out_Of_Bounds)"

definition put_bytes :: "ptr \<Rightarrow> byte list \<Rightarrow> mem \<Rightarrow> mem" where
  "put_bytes p bs m = m\<lparr>m_val := (\<lambda>a. if p \<le> a \<and> a < p + length bs then bs ! (a - p) else m_val m a)\<rparr>"

definition mstore :: "space \<Rightarrow> ptr \<Rightarrow> byte list \<Rightarrow> mem \<Rightarrow> mem comp" where
  "mstore sp p bs m =
     (if bs = [] then Inr m else if within sp p (length bs) m then Inr (put_bytes p bs m) else Inl Out_Of_Bounds)"

definition mcopy :: "space \<Rightarrow> ptr \<Rightarrow> space \<Rightarrow> ptr \<Rightarrow> nat \<Rightarrow> mem \<Rightarrow> mem comp" where
  "mcopy dsp dst ssp src n m =
     rbind (mload ssp src n m) (\<lambda>bs.
       if n \<noteq> 0 \<and> dst < src + n \<and> src < dst + n then Inl Overlapping_Copy else mstore dsp dst bs m)"

text \<open>The functions of the C library.\<close>

definition memcpy :: "ptr \<Rightarrow> ptr \<Rightarrow> size_t \<Rightarrow> mem \<Rightarrow> mem comp" where
  "memcpy dst src n m = mcopy Host dst Host src (unat n) m"

definition memset :: "ptr \<Rightarrow> int \<Rightarrow> size_t \<Rightarrow> mem \<Rightarrow> mem comp" where
  "memset p v n m = mstore Host p (replicate (unat n) (word_of_int v)) m"

definition new_region :: "new_oracle \<Rightarrow> space \<Rightarrow> nat \<Rightarrow> mem \<Rightarrow> (ptr \<times> mem) option" where
  "new_region new sp n m =
     (case new (extents m) n of None \<Rightarrow> None | Some a \<Rightarrow> Some (a, m\<lparr>m_regions := (a, n, sp) # m_regions m\<rparr>))"

text \<open>
  \<open>posix_memalign\<close>: POSIX rejects an alignment that is not a power of two or not a multiple of the
  size of a pointer. The allocator behind it is a parameter that depends on the alignment.
\<close>

type_synonym memalign_oracle = "size_t \<Rightarrow> new_oracle"

definition valid_alignment :: "size_t \<Rightarrow> bool" where
  "valid_alignment al \<longleftrightarrow> al \<noteq> 0 \<and> al AND (al - 1) = 0 \<and> 8 dvd unat al"

definition posix_memalign :: "memalign_oracle \<Rightarrow> size_t \<Rightarrow> size_t \<Rightarrow> mem \<Rightarrow> (ptr \<times> mem) option" where
  "posix_memalign new al n m = (if valid_alignment al then new_region (new al) Host (unat n) m else None)"

definition free_region :: "space \<Rightarrow> ptr \<Rightarrow> mem \<Rightarrow> mem comp" where
  "free_region sp p m =
     (case map_of (m_regions m) p of
        Some (n, s) \<Rightarrow> if s = sp then Inr (m\<lparr>m_regions := AList.delete p (m_regions m)\<rparr>) else Inl Invalid_Free
      | None \<Rightarrow> Inl Invalid_Free)"

definition std_free :: "ptr \<Rightarrow> mem \<Rightarrow> mem comp" where
  "std_free p m = (if p = nullptr then Inr m else free_region Host p m)"

section \<open>Lemmas\<close>

lemma within_region:
  assumes "umap_ok (m_regions m)"
  shows "within sp p n m \<longleftrightarrow> (\<exists>a k. map_of (m_regions m) a = Some (k, sp) \<and> a \<le> p \<and> p + n \<le> a + k)"
  using assms by (force simp: within_def list_ex_iff)

lemma within_sub: "within sp p n m \<Longrightarrow> p \<le> q \<Longrightarrow> q + k \<le> p + n \<Longrightarrow> within sp q k m"
proof -
  assume "within sp p n m" and le: "p \<le> q" "q + k \<le> p + n"
  then obtain a l where "(a, l, sp) \<in> set (m_regions m)" "a \<le> p" "p + n \<le> a + l"
    by (auto simp: within_def list_ex_iff)
  with le show "within sp q k m" unfolding within_def list_ex_iff by (intro bexI [of _ "(a, l, sp)"]) auto
qed

lemma put_bytes_simps [simp]:
  "m_regions (put_bytes p bs m) = m_regions m" "within sp q n (put_bytes p bs m) = within sp q n m"
  "mem_ok (put_bytes p bs m) = mem_ok m" "extents (put_bytes p bs m) = extents m"
  by (simp_all add: put_bytes_def within_def mem_ok_def extents_def)

lemma put_bytes_nil [simp]: "put_bytes p [] m = m"
proof -
  have "(\<lambda>a. if p \<le> a \<and> a < p then [] ! (a - p) else m_val m a) = m_val m" by (rule ext) auto
  then show ?thesis by (simp add: put_bytes_def)
qed

lemma mstore_eq: "mstore sp p bs m = Inr m' \<longleftrightarrow> (bs = [] \<or> within sp p (length bs) m) \<and> m' = put_bytes p bs m"
  by (auto simp: mstore_def)

lemma mload_eq: "mload sp p n m = Inr bs \<longleftrightarrow> (n = 0 \<or> within sp p n m) \<and> bs = map (m_val m) [p..<p + n]"
  by (auto simp: mload_def)

lemma length_mload: "mload sp p n m = Inr bs \<Longrightarrow> length bs = n"
  by (auto simp: mload_eq)

lemma mload_put_same:
  assumes "within sp p (length bs) m"
  shows "mload sp p (length bs) (put_bytes p bs m) = Inr bs"
proof -
  have "map (m_val (put_bytes p bs m)) [p..<p + length bs] = bs"
    by (rule nth_equalityI) (simp_all add: put_bytes_def)
  with assms show ?thesis by (simp add: mload_def)
qed

lemma mload_put_other:
  assumes "q + n \<le> p \<or> p + length bs \<le> q"
  shows "mload sp q n (put_bytes p bs m) = mload sp q n m"
proof -
  have "map (m_val (put_bytes p bs m)) [q..<q + n] = map (m_val m) [q..<q + n]"
    using assms by (auto simp: put_bytes_def)
  then show ?thesis by (simp add: mload_def)
qed

lemma mload_split:
  assumes "within sp p (n + k) m"
  shows "mload sp p (n + k) m = Inr (map (m_val m) [p..<p + n] @ map (m_val m) [p + n..<p + n + k])"
proof -
  have "map (m_val m) [p..<p + (n + k)] = map (m_val m) [p..<p + n] @ map (m_val m) [p + n..<p + n + k]"
    by (simp add: upt_add_eq_append [of p "p + n" k] flip: add.assoc map_append)
  with assms show ?thesis by (simp add: mload_def)
qed

lemma mload_prefix:
  assumes "mload sp p n m = Inr bs" and "k \<le> n"
  shows "mload sp p k m = Inr (take k bs)"
proof -
  have "bs = map (m_val m) [p..<p + n]" "n = 0 \<or> within sp p n m" using assms(1) by (simp_all add: mload_eq)
  moreover have "take k [p..<p + n] = [p..<p + k]" using assms(2) by simp
  ultimately show ?thesis using assms(2) within_sub [of sp p n m p k] by (auto simp: mload_eq take_map)
qed

lemma mload_append:
  assumes "mload sp p n m = Inr as" and "mload sp (p + n) k m = Inr bs" and "within sp p (n + k) m"
  shows "mload sp p (n + k) m = Inr (as @ bs)"
  using assms mload_split [OF assms(3)] by (simp add: mload_eq add.assoc)

lemma within_zero_prefix: "within sp p n m \<Longrightarrow> k \<le> n \<Longrightarrow> within sp p k m"
  using within_sub [of sp p n m p k] by simp

text \<open>New regions are apart from the old ones and leave their bytes alone.\<close>

lemma new_region_ok:
  assumes "mem_ok m" and "fresh_new new" and "new_region new sp n m = Some (a, m')"
  shows "mem_ok m'" and "m' = m\<lparr>m_regions := (a, n, sp) # m_regions m\<rparr>" and "0 < a"
    and "map_of (m_regions m) a = None" and "within sp a n m'"
    and "\<And>b k t. map_of (m_regions m) b = Some (k, t) \<Longrightarrow> a + n \<le> b \<or> b + k \<le> a"
proof -
  have new: "new (extents m) n = Some a" and m': "m' = m\<lparr>m_regions := (a, n, sp) # m_regions m\<rparr>"
    using assms(3) by (auto simp: new_region_def split: option.splits)
  have fresh: "0 < a" "a \<notin> fst ` set (extents m)" "\<forall>(b, k) \<in> set (extents m). a + n \<le> b \<or> b + k \<le> a"
    using assms(2) new unfolding fresh_new_def by blast+
  have "fst ` set (extents m) = fst ` set (m_regions m)" by (force simp: extents_def)
  with fresh(2) show none: "map_of (m_regions m) a = None" by (simp add: map_of_eq_None_iff)
  show apart: "a + n \<le> b \<or> b + k \<le> a" if "map_of (m_regions m) b = Some (k, t)" for b k t
  proof -
    have "(b, k) \<in> set (extents m)" using map_of_SomeD [OF that] by (force simp: extents_def)
    with fresh(3) show ?thesis by blast
  qed
  show "mem_ok m'" using assms(1) fresh(1) none apart
    unfolding mem_ok_def m' by (auto simp: map_of_eq_None_iff split: if_splits) blast+
  show "within sp a n m'" by (simp add: within_def m')
qed (use assms in \<open>auto simp: new_region_def fresh_new_def split: option.splits\<close>)

lemma within_new_region:
  "m' = m\<lparr>m_regions := (a, n, s) # m_regions m\<rparr> \<Longrightarrow> within sp p k m \<Longrightarrow> within sp p k m'"
  by (simp add: within_def)

lemma mload_new_region:
  "m' = m\<lparr>m_regions := (a, n, s) # m_regions m\<rparr> \<Longrightarrow> mload sp p k m = Inr bs \<Longrightarrow> mload sp p k m' = Inr bs"
  by (auto simp: mload_eq within_new_region)

lemma mem_ok_delete: "mem_ok m \<Longrightarrow> mem_ok (m\<lparr>m_regions := AList.delete p (m_regions m)\<rparr>)"
proof -
  assume ok: "mem_ok m"
  have sub: "map_of (AList.delete p (m_regions m)) b = Some v \<Longrightarrow> map_of (m_regions m) b = Some v" for b v
    by (simp add: delete_conv' split: if_splits)
  have uniq: "umap_ok (AList.delete p (m_regions m))" using ok by (simp add: mem_ok_def distinct_delete)
  have pos: "0 < a" if "map_of (AList.delete p (m_regions m)) a = Some (n, s)" for a n s
    using ok sub [OF that] unfolding mem_ok_def by blast
  have apart: "a + n \<le> b \<or> b + k \<le> a" if "map_of (AList.delete p (m_regions m)) a = Some (n, s)"
    "map_of (AList.delete p (m_regions m)) b = Some (k, t)" "a \<noteq> b" for a n s b k t
    using ok sub [OF that(1)] sub [OF that(2)] that(3) unfolding mem_ok_def by blast
  from uniq pos apart show ?thesis unfolding mem_ok_def by simp blast
qed

section \<open>Values of four and eight bytes\<close>

text \<open>The machine is little-endian; a \<open>float\<close> is its bit pattern.\<close>

type_synonym f32 = "32 word"

definition bytes_of_f32 :: "f32 \<Rightarrow> byte list" where
  "bytes_of_f32 w = map (\<lambda>i. ucast (drop_bit (8 * i) w)) [0..<4]"

definition f32_of_bytes :: "byte list \<Rightarrow> f32" where
  "f32_of_bytes bs = foldr (\<lambda>b w. ucast b OR push_bit 8 w) bs 0"

definition bytes_of_i64 :: "size_t \<Rightarrow> byte list" where
  "bytes_of_i64 w = map (\<lambda>i. ucast (drop_bit (8 * i) w)) [0..<8]"

definition i64_of_bytes :: "byte list \<Rightarrow> size_t" where
  "i64_of_bytes bs = foldr (\<lambda>b w. ucast b OR push_bit 8 w) bs 0"

lemma length_bytes [simp]: "length (bytes_of_f32 w) = 4" "length (bytes_of_i64 v) = 8"
  by (simp_all add: bytes_of_f32_def bytes_of_i64_def)

lemma bytes_of_f32_nonempty [simp]: "bytes_of_f32 w \<noteq> []" "bytes_of_i64 v \<noteq> []"
  by (metis length_bytes list.size(3) zero_neq_numeral)+

text \<open>A word is its lowest byte and the rest.\<close>

lemma low_byte_rest: "ucast (ucast w :: byte) OR push_bit 8 (drop_bit 8 w) = (w :: 'a :: len word)"
proof (rule bit_word_eqI)
  fix n assume "n < LENGTH('a)"
  moreover have "8 \<le> n \<Longrightarrow> 8 + (n - 8) = n" by simp
  ultimately show "bit (ucast (ucast w :: byte) OR push_bit 8 (drop_bit 8 w)) n = bit w n"
    by (cases "8 \<le> n") (auto simp: bit_simps)
qed

lemma join_bytes:
  "foldr (\<lambda>b w. ucast b OR push_bit 8 w) (map (\<lambda>i. ucast (drop_bit (8 * i) w) :: byte) [k..<k + n])
     (drop_bit (8 * (k + n)) w) = drop_bit (8 * k) (w :: 'a :: len word)"
proof (induction n arbitrary: k)
  case (Suc n)
  have "[k..<k + Suc n] = k # [Suc k..<Suc k + n]" by (simp add: upt_conv_Cons)
  with Suc.IH [of "Suc k"] low_byte_rest [of "drop_bit (8 * k) w"] show ?case
    by (simp add: add.commute)
qed simp

lemma f32_roundtrip [simp]: "f32_of_bytes (bytes_of_f32 w) = w"
proof -
  have "drop_bit 32 w = 0" by (rule bit_word_eqI) (simp add: bit_simps)
  with join_bytes [of w 0 4] show ?thesis by (simp add: f32_of_bytes_def bytes_of_f32_def)
qed

lemma i64_roundtrip [simp]: "i64_of_bytes (bytes_of_i64 w) = w"
proof -
  have "drop_bit 64 w = 0" by (rule bit_word_eqI) (simp add: bit_simps)
  with join_bytes [of w 0 8] show ?thesis by (simp add: i64_of_bytes_def bytes_of_i64_def)
qed

end
