(* ===== verification/Host_Alloc.thy ===== *)
theory Host_Alloc
  imports Byte_Memory Core_Types
begin

text \<open>
  \<open>memory/allocator.cpp\<close>: the three allocators that record their allocations and keep statistics,
  in the branch for Linux. They share their code up to the alignment, and so does the model.
\<close>

section \<open>State and operations\<close>

record alloc_stats =
  num_allocations :: size_t
  num_deallocations :: size_t
  current_bytes :: size_t
  peak_bytes :: size_t
  total_bytes :: size_t

definition stats_zero :: alloc_stats where
  "stats_zero = \<lparr>num_allocations = 0, num_deallocations = 0, current_bytes = 0, peak_bytes = 0, total_bytes = 0\<rparr>"

record TrackedAllocator =
  ta_map :: "(ptr, size_t) umap"
  ta_stats :: alloc_stats

definition tracked_new :: TrackedAllocator where
  "tracked_new = \<lparr>ta_map = [], ta_stats = stats_zero\<rparr>"

definition record_alloc :: "ptr \<Rightarrow> size_t \<Rightarrow> 'z TrackedAllocator_scheme \<Rightarrow> 'z TrackedAllocator_scheme" where
  "record_alloc p n a =
     (let s = ta_stats a; cur = current_bytes s + n
      in a\<lparr>ta_map := AList.update p n (ta_map a),
           ta_stats := s\<lparr>num_allocations := num_allocations s + 1, current_bytes := cur,
             total_bytes := total_bytes s + n, peak_bytes := max (peak_bytes s) cur\<rparr>\<rparr>)"

definition record_free :: "ptr \<Rightarrow> 'z TrackedAllocator_scheme \<Rightarrow> 'z TrackedAllocator_scheme" where
  "record_free p a =
     (case map_of (ta_map a) p of
        None \<Rightarrow> a
      | Some n \<Rightarrow>
          let s = ta_stats a
          in a\<lparr>ta_map := AList.delete p (ta_map a),
               ta_stats := s\<lparr>current_bytes := current_bytes s - n, num_deallocations := num_deallocations s + 1\<rparr>\<rparr>)"

definition tracked_allocate :: "memalign_oracle \<Rightarrow> size_t \<Rightarrow> size_t \<Rightarrow> 'z TrackedAllocator_scheme \<times> mem \<Rightarrow>
    (ptr \<times> 'z TrackedAllocator_scheme \<times> mem) comp" where
  "tracked_allocate new al bytes = (\<lambda>(a, m).
     if bytes = 0 then Inr (nullptr, a, m)
     else case posix_memalign new al bytes m of
       None \<Rightarrow> Inr (nullptr, a, m)
     | Some (ptr, m1) \<Rightarrow> rbind (memset ptr 0 bytes m1) (\<lambda>m2. Inr (ptr, record_alloc ptr bytes a, m2)))"

definition tracked_deallocate :: "ptr \<Rightarrow> 'z TrackedAllocator_scheme \<times> mem \<Rightarrow> ('z TrackedAllocator_scheme \<times> mem) comp" where
  "tracked_deallocate ptr = (\<lambda>(a, m).
     if ptr = nullptr then Inr (a, m)
     else rbind (std_free ptr m) (\<lambda>m'. Inr (record_free ptr a, m')))"

definition tracked_clear :: "'z TrackedAllocator_scheme \<Rightarrow> 'z TrackedAllocator_scheme" where
  "tracked_clear a = a\<lparr>ta_map := []\<rparr>"

definition HostAllocator_allocate :: "memalign_oracle \<Rightarrow> size_t \<Rightarrow> TrackedAllocator \<times> mem \<Rightarrow> (ptr \<times> TrackedAllocator \<times> mem) comp" where
  "HostAllocator_allocate new bytes s = tracked_allocate new kDefaultAlignment bytes s"

definition HostAllocator_deallocate :: "ptr \<Rightarrow> TrackedAllocator \<times> mem \<Rightarrow> (TrackedAllocator \<times> mem) comp" where
  "HostAllocator_deallocate ptr s = tracked_deallocate ptr s"

definition HostAllocator_clear :: "TrackedAllocator \<Rightarrow> TrackedAllocator" where
  "HostAllocator_clear a = tracked_clear a"

definition HostAllocator_stats :: "TrackedAllocator \<Rightarrow> alloc_stats" where
  "HostAllocator_stats a = ta_stats a"

definition allocated_bytes :: "TrackedAllocator \<Rightarrow> size_t" where
  "allocated_bytes a = current_bytes (ta_stats a)"

definition allocator_total_bytes :: "TrackedAllocator \<Rightarrow> size_t" where
  "allocator_total_bytes a = total_bytes (ta_stats a)"

record AlignedAllocator = TrackedAllocator +
  aa_alignment :: size_t

definition AlignedAllocator_new :: "size_t \<Rightarrow> AlignedAllocator" where
  "AlignedAllocator_new al = \<lparr>ta_map = [], ta_stats = stats_zero, aa_alignment = al\<rparr>"

definition AlignedAllocator_allocate :: "memalign_oracle \<Rightarrow> size_t \<Rightarrow> AlignedAllocator \<times> mem \<Rightarrow> (ptr \<times> AlignedAllocator \<times> mem) comp" where
  "AlignedAllocator_allocate new bytes s = tracked_allocate new (aa_alignment (fst s)) bytes s"

definition AlignedAllocator_deallocate :: "ptr \<Rightarrow> AlignedAllocator \<times> mem \<Rightarrow> (AlignedAllocator \<times> mem) comp" where
  "AlignedAllocator_deallocate ptr s = tracked_deallocate ptr s"

definition AlignedAllocator_clear :: "AlignedAllocator \<Rightarrow> AlignedAllocator" where
  "AlignedAllocator_clear a = a\<lparr>ta_map := []\<rparr>"

definition PinnedAllocator_allocate :: "memalign_oracle \<Rightarrow> size_t \<Rightarrow> TrackedAllocator \<times> mem \<Rightarrow> (ptr \<times> TrackedAllocator \<times> mem) comp" where
  "PinnedAllocator_allocate new bytes s = tracked_allocate new kDefaultAlignment bytes s"

definition PinnedAllocator_deallocate :: "ptr \<Rightarrow> TrackedAllocator \<times> mem \<Rightarrow> (TrackedAllocator \<times> mem) comp" where
  "PinnedAllocator_deallocate ptr s = tracked_deallocate ptr s"

definition PinnedAllocator_clear :: "TrackedAllocator \<Rightarrow> TrackedAllocator" where
  "PinnedAllocator_clear a = tracked_clear a"

definition PinnedAllocator_stats :: "TrackedAllocator \<Rightarrow> alloc_stats" where
  "PinnedAllocator_stats a = ta_stats a"

section \<open>The statistics are exact\<close>

text \<open>The allocator behind \<open>posix_memalign\<close> hands out addresses of 64 bits.\<close>

definition memalign_ok :: "memalign_oracle \<Rightarrow> bool" where
  "memalign_ok new \<longleftrightarrow> (\<forall>al. fresh_new (new al)) \<and>
     (\<forall>al rs n a. new al rs n = Some a \<longrightarrow> a + n \<le> 2 ^ 64)"

definition tracked_regions :: "'z TrackedAllocator_scheme \<times> mem \<Rightarrow> bool" where
  "tracked_regions = (\<lambda>(a, m). mem_ok m \<and> umap_ok (ta_map a) \<and>
     (\<forall>p n. map_of (ta_map a) p = Some n \<longrightarrow>
        map_of (m_regions m) p = Some (unat n, Host) \<and> n \<noteq> 0 \<and> p + unat n \<le> 2 ^ 64))"

definition live_bytes :: "'z TrackedAllocator_scheme \<Rightarrow> nat" where
  "live_bytes a = (\<Sum>(p, n) \<leftarrow> ta_map a. unat n)"

definition stats_ok :: "'z TrackedAllocator_scheme \<Rightarrow> bool" where
  "stats_ok a \<longleftrightarrow> unat (current_bytes (ta_stats a)) = live_bytes a \<and>
     current_bytes (ta_stats a) \<le> peak_bytes (ta_stats a) \<and>
     num_allocations (ta_stats a) - num_deallocations (ta_stats a) = of_nat (length (ta_map a))"

definition tracked_inv :: "memalign_oracle \<Rightarrow> 'z TrackedAllocator_scheme \<times> mem \<Rightarrow> bool" where
  "tracked_inv new s \<longleftrightarrow> memalign_ok new \<and> tracked_regions s \<and> stats_ok (fst s)"

definition tracked_live :: "'z TrackedAllocator_scheme \<times> mem \<Rightarrow> ptr set" where
  "tracked_live s = dom (map_of (ta_map (fst s)))"

text \<open>Disjoint regions below 2^64 have a total size below 2^64: the byte counters do not wrap.\<close>

lemma disjoint_sizes_fit:
  assumes "umap_ok rs" and "\<forall>(a, n) \<in> set rs. 0 < a \<and> a + n \<le> 2 ^ 64"
    and "\<forall>(a, n) \<in> set rs. \<forall>(b, k) \<in> set rs. a \<noteq> b \<longrightarrow> a + n \<le> b \<or> b + k \<le> a"
  shows "(\<Sum>(a, n) \<leftarrow> rs. n) < (2 :: nat) ^ 64"
proof -
  have "(\<Sum>(a, n) \<leftarrow> rs. n) = card (\<Union>(a, n) \<in> set rs. {a..<a + n})"
    using assms(1,3)
  proof (induction rs)
    case (Cons r rs)
    obtain a n where r: "r = (a, n)" by (cases r)
    have "b \<noteq> a" if "(b, k) \<in> set rs" for b k using Cons.prems(1) that by (force simp: r)
    then have "{a..<a + n} \<inter> {b..<b + k} = {}" if "(b, k) \<in> set rs" for b k
      using Cons.prems(2) that by (fastforce simp: r)
    then have disj: "{a..<a + n} \<inter> (\<Union>(a, n) \<in> set rs. {a..<a + n}) = {}" by blast
    have "card (\<Union>(a, n) \<in> set (r # rs). {a..<a + n}) = n + card (\<Union>(a, n) \<in> set rs. {a..<a + n})"
      using disj by (simp add: r card_Un_disjoint case_prod_beta)
    moreover have "(\<Sum>(a, n) \<leftarrow> rs. n) = card (\<Union>(a, n) \<in> set rs. {a..<a + n})"
      using Cons.prems by (intro Cons.IH) auto
    ultimately show ?case by (simp add: r)
  qed simp
  also have "\<dots> \<le> card {1..<(2 :: nat) ^ 64}"
    using assms(2) by (intro card_mono) fastforce+
  finally show ?thesis by simp
qed

lemma live_sizes_fit:
  assumes inv: "tracked_regions (a, m)"
  shows "live_bytes a < 2 ^ 64"
proof -
  let ?rs = "map (\<lambda>(p, n). (p, unat n)) (ta_map a)"
  have I: "mem_ok m" "umap_ok (ta_map a)" "\<And>p n. map_of (ta_map a) p = Some n \<Longrightarrow>
        map_of (m_regions m) p = Some (unat n, Host) \<and> n \<noteq> 0 \<and> p + unat n \<le> 2 ^ 64"
    using inv unfolding tracked_regions_def by auto
  have entry: "map_of (m_regions m) p = Some (k, Host)" "p + k \<le> 2 ^ 64"
    if pk: "(p, k) \<in> set ?rs" for p k
  proof -
    obtain w where "(p, w) \<in> set (ta_map a)" "k = unat w" using pk by auto
    with I(2) I(3) [of p w] show "map_of (m_regions m) p = Some (k, Host)" "p + k \<le> 2 ^ 64" by auto
  qed
  have keys: "map fst ?rs = map fst (ta_map a)" by (simp add: case_prod_beta)
  have "umap_ok ?rs" unfolding keys using I(2) .
  moreover have "0 < p \<and> p + k \<le> 2 ^ 64" if "(p, k) \<in> set ?rs" for p k
    using entry [OF that] I(1) unfolding mem_ok_def by blast
  then have "\<forall>(p, k) \<in> set ?rs. 0 < p \<and> p + k \<le> 2 ^ 64" by (intro ballI) (simp only: split_paired_all prod.case)
  moreover have "p + k \<le> q \<or> q + l \<le> p" if "(p, k) \<in> set ?rs" "(q, l) \<in> set ?rs" "p \<noteq> q" for p k q l
    using entry(1) [OF that(1)] entry(1) [OF that(2)] that(3) I(1) unfolding mem_ok_def by blast
  then have "\<forall>(p, k) \<in> set ?rs. \<forall>(q, l) \<in> set ?rs. p \<noteq> q \<longrightarrow> p + k \<le> q \<or> q + l \<le> p"
    by (intro ballI) (simp only: split_paired_all prod.case, blast)
  ultimately have "(\<Sum>(p, n) \<leftarrow> ?rs. n) < 2 ^ 64" by (rule disjoint_sizes_fit)
  then show ?thesis by (simp add: live_bytes_def comp_def case_prod_unfold)
qed

section \<open>The operations keep it\<close>

lemma sum_update_new:
  "map_of xs p = None \<Longrightarrow> (\<Sum>(p, n) \<leftarrow> AList.update p k xs. f n) = (\<Sum>(p, n) \<leftarrow> xs. f n) + (f k :: nat)"
  by (induction xs) (auto split: if_splits)

lemma sum_delete_old:
  assumes "umap_ok xs" and "map_of xs p = Some k"
  shows "(\<Sum>(p, n) \<leftarrow> xs. f n) = (\<Sum>(p, n) \<leftarrow> AList.delete p xs. f n) + (f k :: nat)"
    and "length xs = Suc (length (AList.delete p xs))"
proof -
  have "(\<Sum>(p, n) \<leftarrow> xs. f n) = (\<Sum>(p, n) \<leftarrow> AList.delete p xs. f n) + f k \<and>
    length xs = Suc (length (AList.delete p xs))"
    using assms
  proof (induction xs)
    case (Cons q xs)
    obtain b v where q: "q = (b, v)" by (cases q)
    show ?case
    proof (cases "b = p")
      case True
      with Cons.prems have "p \<notin> fst ` set xs" by (auto simp: q)
      then have "AList.delete p xs = xs" by simp
      with True Cons.prems q show ?thesis by simp
    next
      case False
      with Cons q show ?thesis by simp
    qed
  qed simp
  then show "(\<Sum>(p, n) \<leftarrow> xs. f n) = (\<Sum>(p, n) \<leftarrow> AList.delete p xs. f n) + f k"
    and "length xs = Suc (length (AList.delete p xs))" by simp_all
qed

lemma length_update_new: "map_of xs p = None \<Longrightarrow> length (AList.update p k xs) = Suc (length xs)"
  by (induction xs) (auto split: if_splits)

lemma record_alloc_stats:
  assumes ok: "stats_ok a" and none: "map_of (ta_map a) p = None" and reg: "tracked_regions (record_alloc p n a, m)"
  shows "stats_ok (record_alloc p n a)"
proof -
  have map': "ta_map (record_alloc p n a) = AList.update p n (ta_map a)" by (simp add: record_alloc_def Let_def)
  have live: "live_bytes (record_alloc p n a) = live_bytes a + unat n"
    using sum_update_new [OF none, of unat n] by (simp add: live_bytes_def map')
  have cur: "unat (current_bytes (ta_stats a) + n) = live_bytes a + unat n"
    using ok live_sizes_fit [OF reg] by (simp add: live stats_ok_def unat_plus_simple_size)
  have "num_allocations (ta_stats a) + 1 - num_deallocations (ta_stats a) =
      (num_allocations (ta_stats a) - num_deallocations (ta_stats a)) + 1" by simp
  also have "\<dots> = of_nat (Suc (length (ta_map a)))" using ok by (simp add: stats_ok_def)
  also have "Suc (length (ta_map a)) = length (ta_map (record_alloc p n a))"
    by (simp add: map' length_update_new [OF none])
  finally show ?thesis
    using cur live by (simp add: stats_ok_def) (simp add: record_alloc_def Let_def)
qed

lemma tracked_allocate_ok:
  assumes inv: "tracked_inv new (a, m)"
  shows "tracked_allocate new al bytes (a, m) = Inr (nullptr, a, m) \<or>
    (\<exists>p m'. tracked_allocate new al bytes (a, m) = Inr (p, record_alloc p bytes a, m') \<and> p \<noteq> nullptr \<and>
       map_of (ta_map a) p = None \<and> tracked_inv new (record_alloc p bytes a, m') \<and>
       mload Host p (unat bytes) m' = Inr (replicate (unat bytes) 0))"
proof (cases "bytes = 0 \<or> posix_memalign new al bytes m = None")
  case True
  then show ?thesis by (auto simp: tracked_allocate_def)
next
  case False
  then obtain p m1 where al: "posix_memalign new al bytes m = Some (p, m1)" by auto
  then have nr: "new_region (new al) Host (unat bytes) m = Some (p, m1)"
    by (simp add: posix_memalign_def split: if_splits)
  have ok: "memalign_ok new" "mem_ok m" "umap_ok (ta_map a)" "stats_ok a" "\<And>q n. map_of (ta_map a) q = Some n \<Longrightarrow>
        map_of (m_regions m) q = Some (unat n, Host) \<and> n \<noteq> 0 \<and> q + unat n \<le> 2 ^ 64"
    using inv unfolding tracked_inv_def tracked_regions_def by auto
  have fresh: "fresh_new (new al)" using ok(1) by (simp add: memalign_ok_def)
  note R = new_region_ok [OF ok(2) fresh nr]
  have "new al (extents m) (unat bytes) = Some p" using nr by (simp add: new_region_def split: option.splits)
  then have top: "p + unat bytes \<le> 2 ^ 64" using ok(1) unfolding memalign_ok_def by blast
  have none: "map_of (ta_map a) p = None" using R(4) ok(5) [of p] by (cases "map_of (ta_map a) p") auto
  let ?m' = "put_bytes p (replicate (unat bytes) 0) m1"
  have set: "memset p 0 bytes m1 = Inr ?m'" using R(5) by (simp add: memset_def mstore_eq)
  have map': "ta_map (record_alloc p bytes a) = AList.update p bytes (ta_map a)" by (simp add: record_alloc_def Let_def)
  have reg: "tracked_regions (record_alloc p bytes a, ?m')"
    unfolding tracked_regions_def using R(1) ok(3,5) top False
    by (auto simp: map' distinct_update update_conv' R(2) split: if_splits)
  have "tracked_inv new (record_alloc p bytes a, ?m')"
    using reg ok(1) record_alloc_stats [OF ok(4) none reg] by (simp add: tracked_inv_def)
  moreover have "mload Host p (unat bytes) ?m' = Inr (replicate (unat bytes) 0)"
    using mload_put_same [of Host p "replicate (unat bytes) 0" m1] R(5) by simp
  moreover have "tracked_allocate new al bytes (a, m) = Inr (p, record_alloc p bytes a, ?m')"
    using False al set by (simp add: tracked_allocate_def)
  ultimately show ?thesis using R(3) none by blast
qed

lemma tracked_deallocate_ok:
  assumes inv: "tracked_inv new (a, m)" and n: "map_of (ta_map a) p = Some n"
  shows "\<exists>m'. tracked_deallocate p (a, m) = Inr (record_free p a, m') \<and> tracked_inv new (record_free p a, m') \<and>
    m_val m' = m_val m \<and> m_regions m' = AList.delete p (m_regions m)"
proof -
  have ok: "memalign_ok new" "mem_ok m" "umap_ok (ta_map a)" "stats_ok a" "\<And>q n. map_of (ta_map a) q = Some n \<Longrightarrow>
        map_of (m_regions m) q = Some (unat n, Host) \<and> n \<noteq> 0 \<and> q + unat n \<le> 2 ^ 64"
    using inv unfolding tracked_inv_def tracked_regions_def by auto
  have p: "map_of (m_regions m) p = Some (unat n, Host)" using ok(5) [OF n] by blast
  then have "0 < p" using ok(2) unfolding mem_ok_def by blast
  let ?m' = "m\<lparr>m_regions := AList.delete p (m_regions m)\<rparr>"
  have run: "tracked_deallocate p (a, m) = Inr (record_free p a, ?m')"
    using p \<open>0 < p\<close> by (simp add: tracked_deallocate_def std_free_def free_region_def)
  have map': "ta_map (record_free p a) = AList.delete p (ta_map a)" by (simp add: record_free_def n Let_def)
  have reg: "tracked_regions (record_free p a, ?m')"
    using mem_ok_delete [OF ok(2)] ok(3,5)
    by (auto simp: tracked_regions_def map' distinct_delete delete_conv' split: if_splits)
  note old = sum_delete_old(1) [OF ok(3) n, of unat] sum_delete_old(2) [OF ok(3) n]
  have cur: "unat (current_bytes (ta_stats a)) = live_bytes (record_free p a) + unat n"
    using ok(4) old(1) by (simp add: stats_ok_def live_bytes_def map')
  then have cur': "unat (current_bytes (ta_stats a) - n) = live_bytes (record_free p a)"
    by (simp add: unat_minus_size)
  have "current_bytes (ta_stats a) - n \<le> current_bytes (ta_stats a)"
    using cur cur' by (simp add: word_le_nat_alt)
  then have peak: "current_bytes (ta_stats a) - n \<le> peak_bytes (ta_stats a)"
    using ok(4) unfolding stats_ok_def by (meson order_trans)
  have "num_allocations (ta_stats a) - (num_deallocations (ta_stats a) + 1) =
      (num_allocations (ta_stats a) - num_deallocations (ta_stats a)) - 1" by simp
  also have "\<dots> = of_nat (length (ta_map (record_free p a)))"
    using ok(4) old(2) by (simp add: stats_ok_def map')
  finally have "stats_ok (record_free p a)"
    using cur' peak by (simp add: stats_ok_def) (simp add: record_free_def n Let_def)
  with run reg ok(1) show ?thesis by (auto simp: tracked_inv_def)
qed

text \<open>A client writes one byte of a block it holds.\<close>

definition client_write :: "ptr \<Rightarrow> ptr \<Rightarrow> 'z TrackedAllocator_scheme \<times> mem \<Rightarrow> ('z TrackedAllocator_scheme \<times> mem) comp" where
  "client_write p v = (\<lambda>(a, m). rbind (mstore Host p [of_nat v] m) (\<lambda>m'. Inr (a, m')))"

lemma client_write_ok:
  assumes inv: "tracked_inv new (a, m)" and n: "map_of (ta_map a) p = Some n"
  shows "\<exists>m'. client_write p v (a, m) = Inr (a, m') \<and> tracked_inv new (a, m')"
proof -
  have ok: "mem_ok m" "map_of (m_regions m) p = Some (unat n, Host)" "n \<noteq> 0"
    using inv n unfolding tracked_inv_def tracked_regions_def by auto
  have "0 < unat n" using ok(3) by (simp add: unat_gt_0)
  then have "within Host p 1 m" unfolding within_def list_ex_iff
    using map_of_SomeD [OF ok(2)] by (intro bexI [of _ "(p, unat n, Host)"]) auto
  then have "client_write p v (a, m) = Inr (a, put_bytes p [of_nat v] m)" by (simp add: client_write_def mstore_def)
  moreover have "tracked_inv new (a, put_bytes p [of_nat v] m)" using inv by (simp add: tracked_inv_def tracked_regions_def)
  ultimately show ?thesis by blast
qed

interpretation tracked: block_allocator "tracked_inv new" tracked_live "tracked_allocate new al" tracked_deallocate client_write
  for new al
proof unfold_locales
  fix s :: "'z TrackedAllocator_scheme \<times> mem" and r p v
  obtain a m where s: "s = (a, m)" by (cases s)
  assume inv: "tracked_inv new s"
  show "nullptr \<notin> tracked_live s"
    using inv unfolding tracked_inv_def tracked_regions_def mem_ok_def s by (fastforce simp: tracked_live_def)
  show "tracked_allocate new al r s = Inl Bad_Alloc \<or> (\<exists>p s'. tracked_allocate new al r s = Inr (p, s') \<and>
      tracked_inv new s' \<and> (if p = nullptr then tracked_live s' = tracked_live s
        else p \<notin> tracked_live s \<and> tracked_live s' = insert p (tracked_live s)))"
    using tracked_allocate_ok [OF inv [unfolded s], of al r] inv
    by (auto simp: s tracked_live_def record_alloc_def Let_def update_conv')
  show "\<exists>s'. tracked_deallocate p s = Inr s' \<and> tracked_inv new s' \<and> tracked_live s' = tracked_live s - {p}"
    if "p \<in> tracked_live s"
  proof -
    obtain n where n: "map_of (ta_map a) p = Some n" using \<open>p \<in> tracked_live s\<close> by (auto simp: tracked_live_def s)
    from tracked_deallocate_ok [OF inv [unfolded s] n] n show ?thesis
      by (auto simp: s tracked_live_def record_free_def Let_def delete_conv' split: if_splits)
  qed
  show "\<exists>s'. client_write p v s = Inr s' \<and> tracked_inv new s' \<and> tracked_live s' = tracked_live s"
    if "p \<in> tracked_live s"
  proof -
    obtain n where n: "map_of (ta_map a) p = Some n" using \<open>p \<in> tracked_live s\<close> by (auto simp: tracked_live_def s)
    from client_write_ok [OF inv [unfolded s] n, of v] obtain m' where "client_write p v (a, m) = Inr (a, m')"
      "tracked_inv new (a, m')" by blast
    then show ?thesis by (auto simp: s tracked_live_def)
  qed
qed

section \<open>Properties\<close>

lemma tracked_new_inv:
  assumes "memalign_ok new" and "mem_ok m"
  shows "tracked_inv new (tracked_new, m)" and "tracked_inv new (AlignedAllocator_new al, m)"
  using assms by (simp_all add: tracked_inv_def tracked_regions_def stats_ok_def live_bytes_def tracked_new_def
      AlignedAllocator_new_def stats_zero_def)

text \<open>
  C38: any client of \<open>HostAllocator\<close> (and so of \<open>PinnedAllocator\<close>, the same code) holds distinct blocks
  in memory of its own; the statistics count them exactly: the current bytes are the sum of the
  sizes of the blocks in use, never above the peak, and allocations less deallocations are their
  number.
\<close>

theorem host_allocator_stats_exact:
  assumes "memalign_ok new" and "mem_ok m"
  shows "\<exists>held a m'. run_client (HostAllocator_allocate new) HostAllocator_deallocate client_write ops
       ([], tracked_new, m) = Inr (held, a, m') \<and>
     distinct held \<and> nullptr \<notin> set held \<and> set held = dom (map_of (ta_map a)) \<and>
     (\<forall>p n. map_of (ta_map a) p = Some n \<longrightarrow> map_of (m_regions m') p = Some (unat n, Host)) \<and>
     unat (allocated_bytes a) = (\<Sum>(p, n) \<leftarrow> ta_map a. unat n) \<and>
     allocated_bytes a \<le> peak_bytes (HostAllocator_stats a) \<and>
     num_allocations (HostAllocator_stats a) - num_deallocations (HostAllocator_stats a) = of_nat (length held)"
proof -
  have fns: "HostAllocator_allocate new = tracked_allocate new kDefaultAlignment"
    "HostAllocator_deallocate = tracked_deallocate"
    by (simp_all add: fun_eq_iff HostAllocator_allocate_def HostAllocator_deallocate_def)
  let ?run = "run_client (tracked_allocate new kDefaultAlignment) tracked_deallocate client_write ops
       ([], tracked_new, m)"
  have inv: "tracked_inv new (tracked_new, m)" using tracked_new_inv(1) [OF assms] .
  have "set [] = tracked_live (tracked_new, m)" by (simp add: tracked_live_def tracked_new_def)
  note safe = tracked.run_client_safe [OF inv distinct.simps(1) [THEN iffD2, OF TrueI] this, of kDefaultAlignment ops]
  have "?run \<noteq> Inl Bad_Alloc"
  proof (rule run_client_no_fault)
    show "tracked_allocate new kDefaultAlignment r s \<noteq> Inl Bad_Alloc" for r and s :: "TrackedAllocator \<times> mem"
      by (cases s) (auto simp: tracked_allocate_def rbind_eq_Inl memset_def mstore_def split: option.splits)
    show "tracked_deallocate p s \<noteq> Inl Bad_Alloc" for p and s :: "TrackedAllocator \<times> mem"
      by (cases s) (auto simp: tracked_deallocate_def std_free_def free_region_def rbind_eq_Inl split: option.splits)
    show "client_write p v s \<noteq> Inl Bad_Alloc" for p v and s :: "TrackedAllocator \<times> mem"
      by (cases s) (simp add: client_write_def mstore_def)
  qed
  with safe obtain held a m' where r: "?run = Inr (held, a, m')" "tracked_inv new (a, m')" "distinct held"
    "set held = dom (map_of (ta_map a))" "nullptr \<notin> set held" by (auto simp: tracked_live_def)
  have u: "umap_ok (ta_map a)" using r(2) by (simp add: tracked_inv_def tracked_regions_def)
  have "length held = card (fst ` set (ta_map a))"
    using distinct_card [OF r(3)] r(4) by (simp add: dom_map_of_conv_image_fst)
  also have "\<dots> = length (ta_map a)" using distinct_card [OF u] by simp
  finally have len: "length held = length (ta_map a)" .
  have "unat (allocated_bytes a) = (\<Sum>(p, n) \<leftarrow> ta_map a. unat n) \<and>
     allocated_bytes a \<le> peak_bytes (HostAllocator_stats a) \<and>
     num_allocations (HostAllocator_stats a) - num_deallocations (HostAllocator_stats a) = of_nat (length held)"
    using r(2) len by (simp add: tracked_inv_def stats_ok_def live_bytes_def allocated_bytes_def HostAllocator_stats_def)
  moreover have "\<forall>p n. map_of (ta_map a) p = Some n \<longrightarrow> map_of (m_regions m') p = Some (unat n, Host)"
    using r(2) by (simp add: tracked_inv_def tracked_regions_def)
  ultimately show ?thesis unfolding fns using r(1,3,4,5) by blast
qed

definition mem_empty :: mem where "mem_empty = \<lparr>m_val = (\<lambda>_. 0), m_regions = []\<rparr>"

text \<open>An allocator for concrete runs that stays below 2^64.\<close>

definition bump_memalign :: memalign_oracle where
  "bump_memalign al rs n = (case bump_new rs n of None \<Rightarrow> None | Some a \<Rightarrow> if a + n \<le> 2 ^ 64 then Some a else None)"

lemma bump_memalign_ok: "memalign_ok bump_memalign"
proof -
  have sub: "bump_new rs n = Some a \<and> a + n \<le> 2 ^ 64" if "bump_memalign al rs n = Some a" for al rs n a
    using that unfolding bump_memalign_def by (cases "bump_new rs n") (simp_all only: option.case option.inject option.distinct split: if_splits)
  then have "fresh_new (bump_memalign al)" for al
    using bump_new_fresh unfolding fresh_new_def by blast
  with sub show ?thesis unfolding memalign_ok_def by blast
qed

lemma mem_empty_ok: "mem_ok mem_empty"
  by (simp add: mem_ok_def mem_empty_def)

lemma host_allocator_stats_exact_witness:
  "\<exists>held a m'. run_client (HostAllocator_allocate bump_memalign) HostAllocator_deallocate client_write
     [Get 40, Get 0, Write 0 7, Get 8, Give_Back 1] ([], tracked_new, mem_empty) = Inr (held, a, m') \<and>
     allocated_bytes a \<le> peak_bytes (HostAllocator_stats a)"
  using host_allocator_stats_exact [OF bump_memalign_ok mem_empty_ok, of "[Get 40, Get 0, Write 0 7, Get 8, Give_Back 1]"]
  by blast

text \<open>
  \<open>deallocate\<close> calls \<open>std::free\<close> whether or not the pointer is in the map: giving a block back
  twice frees it twice, and giving one back after \<open>clear\<close> frees it without updating the statistics.
\<close>

theorem host_allocator_untracked_free:
  assumes "tracked_inv new (a, m)" and "map_of (ta_map a) p = Some n"
  shows "(\<exists>a' m'. HostAllocator_deallocate p (a, m) = Inr (a', m') \<and>
       HostAllocator_deallocate p (a', m') = Inl Invalid_Free) \<and>
    (\<exists>m'. HostAllocator_deallocate p (HostAllocator_clear a, m) = Inr (HostAllocator_clear a, m')) \<and>
    allocated_bytes (HostAllocator_clear a) \<noteq> 0"
proof -
  have ok: "mem_ok m" "umap_ok (ta_map a)" "map_of (m_regions m) p = Some (unat n, Host)" "n \<noteq> 0"
    using assms unfolding tracked_inv_def tracked_regions_def by auto
  then have p: "p \<noteq> nullptr" unfolding mem_ok_def by blast
  from tracked_deallocate_ok [OF assms] obtain m' where m': "tracked_deallocate p (a, m) = Inr (record_free p a, m')"
    "m_regions m' = AList.delete p (m_regions m)" by blast
  have "map_of (m_regions m') p = None" by (simp add: m'(2) delete_conv')
  with p have twice: "tracked_deallocate p (record_free p a, m') = Inl Invalid_Free"
    by (simp add: tracked_deallocate_def std_free_def free_region_def)
  have "(p, n) \<in> set (ta_map a)" using assms(2) by (rule map_of_SomeD)
  then have "unat n \<in> set (map (\<lambda>(p, n). unat n) (ta_map a))" by force
  then have "unat n \<le> live_bytes a" unfolding live_bytes_def by (rule member_le_sum_list) simp
  moreover have "0 < unat n" using ok(4) by (simp add: unat_gt_0)
  ultimately have "0 < unat (allocated_bytes a)"
    using assms(1) by (simp add: tracked_inv_def stats_ok_def allocated_bytes_def)
  then have "allocated_bytes (HostAllocator_clear a) \<noteq> 0"
    by (auto simp: HostAllocator_clear_def tracked_clear_def allocated_bytes_def)
  moreover have "\<exists>m'. tracked_deallocate p (HostAllocator_clear a, m) = Inr (HostAllocator_clear a, m')"
    using p ok(3) by (simp add: tracked_deallocate_def std_free_def free_region_def HostAllocator_clear_def
        tracked_clear_def record_free_def)
  ultimately show ?thesis using m'(1) twice by (auto simp: HostAllocator_deallocate_def)
qed

lemma host_allocator_untracked_free_witness:
  "\<exists>p a m. HostAllocator_allocate bump_memalign 40 (tracked_new, mem_empty) = Inr (p, a, m) \<and>
     (\<exists>a' m'. HostAllocator_deallocate p (a, m) = Inr (a', m') \<and> HostAllocator_deallocate p (a', m') = Inl Invalid_Free)"
proof -
  have inv: "tracked_inv bump_memalign (tracked_new, mem_empty)"
    by (rule tracked_new_inv(1) [OF bump_memalign_ok mem_empty_ok])
  have "HostAllocator_allocate bump_memalign 40 (tracked_new, mem_empty) \<noteq> Inr (nullptr, tracked_new, mem_empty)"
    by (simp add: HostAllocator_allocate_def tracked_allocate_def posix_memalign_def valid_alignment_def
        kDefaultAlignment_def new_region_def bump_memalign_def bump_new_def extents_def mem_empty_def memset_def
        mstore_def within_def)
  with tracked_allocate_ok [OF inv, of kDefaultAlignment 40] obtain p m where
    r: "HostAllocator_allocate bump_memalign 40 (tracked_new, mem_empty) = Inr (p, record_alloc p 40 tracked_new, m)"
    "tracked_inv bump_memalign (record_alloc p 40 tracked_new, m)"
    unfolding HostAllocator_allocate_def by blast
  have "map_of (ta_map (record_alloc p 40 tracked_new)) p = Some 40"
    by (simp add: record_alloc_def Let_def tracked_new_def)
  from host_allocator_untracked_free [OF r(2) this] r(1) show ?thesis by blast
qed

end
