(* ===== verification/Devices.thy ===== *)
theory Devices
  imports Host_Alloc
begin

text \<open>
  \<open>device/device.cpp\<close> and \<open>device/cuda_device.cpp\<close>: the virtual methods of \<open>Device\<close> as a record of
  functions on memory, the CPU device, the CUDA device over a parameter for the CUDA runtime, and
  what the tensors rely on, as a locale that both devices are shown to satisfy.
\<close>

section \<open>The interface\<close>

record Device =
  dev_type :: DeviceType
  dev_id :: int
  dev_allocate :: "size_t \<Rightarrow> mem \<Rightarrow> (ptr \<times> mem) comp"
  dev_deallocate :: "ptr \<Rightarrow> mem \<Rightarrow> mem comp"
  dev_copy_to_device :: "ptr \<Rightarrow> ptr \<Rightarrow> size_t \<Rightarrow> mem \<Rightarrow> mem comp"
  dev_copy_to_host :: "ptr \<Rightarrow> ptr \<Rightarrow> size_t \<Rightarrow> mem \<Rightarrow> mem comp"
  dev_copy_within :: "ptr \<Rightarrow> ptr \<Rightarrow> size_t \<Rightarrow> mem \<Rightarrow> mem comp"
  dev_memset :: "ptr \<Rightarrow> int \<Rightarrow> size_t \<Rightarrow> mem \<Rightarrow> mem comp"

section \<open>CPUDevice\<close>

definition CPUDevice_allocate :: "memalign_oracle \<Rightarrow> size_t \<Rightarrow> mem \<Rightarrow> (ptr \<times> mem) comp" where
  "CPUDevice_allocate new bytes m =
     (if bytes = 0 then Inr (nullptr, m)
      else case posix_memalign new kDefaultAlignment bytes m of
        None \<Rightarrow> Inr (nullptr, m)
      | Some (p, m1) \<Rightarrow> rbind (memset p 0 bytes m1) (\<lambda>m2. Inr (p, m2)))"

definition CPUDevice_deallocate :: "ptr \<Rightarrow> mem \<Rightarrow> mem comp" where
  "CPUDevice_deallocate p m = (if p \<noteq> nullptr then std_free p m else Inr m)"

definition CPUDevice_copy_to_device :: "ptr \<Rightarrow> ptr \<Rightarrow> size_t \<Rightarrow> mem \<Rightarrow> mem comp" where
  "CPUDevice_copy_to_device dst src n m = memcpy dst src n m"

definition CPUDevice_copy_to_host :: "ptr \<Rightarrow> ptr \<Rightarrow> size_t \<Rightarrow> mem \<Rightarrow> mem comp" where
  "CPUDevice_copy_to_host dst src n m = memcpy dst src n m"

definition CPUDevice_memset :: "ptr \<Rightarrow> int \<Rightarrow> size_t \<Rightarrow> mem \<Rightarrow> mem comp" where
  "CPUDevice_memset p v n m = memset p v n m"

text \<open>The default of the base class, and the asynchronous defaults, which do not wait.\<close>

definition Device_copy_within :: "ptr \<Rightarrow> ptr \<Rightarrow> size_t \<Rightarrow> mem \<Rightarrow> mem comp" where
  "Device_copy_within dst src n m = memcpy dst src n m"

definition Device_copy_async :: "ptr \<Rightarrow> ptr \<Rightarrow> size_t \<Rightarrow> mem \<Rightarrow> mem comp" where
  "Device_copy_async dst src n m = memcpy dst src n m"

definition Device_memset_async :: "ptr \<Rightarrow> int \<Rightarrow> size_t \<Rightarrow> mem \<Rightarrow> mem comp" where
  "Device_memset_async p v n m = memset p v n m"

definition CPUDevice :: "memalign_oracle \<Rightarrow> Device" where
  "CPUDevice new = \<lparr>dev_type = kCPU, dev_id = -1, dev_allocate = CPUDevice_allocate new,
     dev_deallocate = CPUDevice_deallocate, dev_copy_to_device = CPUDevice_copy_to_device,
     dev_copy_to_host = CPUDevice_copy_to_host, dev_copy_within = Device_copy_within,
     dev_memset = CPUDevice_memset\<rparr>"

section \<open>CudaDevice\<close>

text \<open>
  The CUDA runtime is not part of the repository. A call that allocates gives no result when it
  fails; the code ignores the status of the copies, so their result is the memory after them.
  \<open>cudaMalloc\<close> has no device argument: it allocates on the current device of the thread, which no
  method of \<open>CudaDevice\<close> sets.
\<close>

datatype copy_kind = HostToDevice | DeviceToHost | DeviceToDevice

record cuda_api =
  cu_device_count :: "int option"
  cu_properties :: "int \<Rightarrow> bool"
  cu_current :: int
  cu_malloc :: "nat \<Rightarrow> mem \<Rightarrow> (ptr \<times> mem) option"
  cu_free :: "ptr \<Rightarrow> mem \<Rightarrow> mem comp"
  cu_malloc_host :: "nat \<Rightarrow> mem \<Rightarrow> (ptr \<times> mem) option"
  cu_free_host :: "ptr \<Rightarrow> mem \<Rightarrow> mem comp"
  cu_memcpy :: "copy_kind \<Rightarrow> ptr \<Rightarrow> ptr \<Rightarrow> nat \<Rightarrow> mem \<Rightarrow> mem comp"
  cu_memset :: "ptr \<Rightarrow> int \<Rightarrow> nat \<Rightarrow> mem \<Rightarrow> mem comp"

definition cuda_available :: "cuda_api \<Rightarrow> int \<Rightarrow> bool" where
  "cuda_available api device_id =
     (case cu_device_count api of
        None \<Rightarrow> False
      | Some found \<Rightarrow> if found \<le> device_id then False else cu_properties api device_id)"

definition CudaDevice_allocate :: "cuda_api \<Rightarrow> int \<Rightarrow> size_t \<Rightarrow> mem \<Rightarrow> (ptr \<times> mem) comp" where
  "CudaDevice_allocate api device_id bytes m =
     (if \<not> cuda_available api device_id \<or> bytes = 0 then Inr (nullptr, m)
      else case cu_malloc api (unat bytes) m of None \<Rightarrow> Inr (nullptr, m) | Some (p, m') \<Rightarrow> Inr (p, m'))"

definition CudaDevice_deallocate :: "cuda_api \<Rightarrow> ptr \<Rightarrow> mem \<Rightarrow> mem comp" where
  "CudaDevice_deallocate api p m = (if p = nullptr then Inr m else cu_free api p m)"

definition CudaDevice_allocate_host :: "cuda_api \<Rightarrow> int \<Rightarrow> size_t \<Rightarrow> mem \<Rightarrow> (ptr \<times> mem) comp" where
  "CudaDevice_allocate_host api device_id bytes m =
     (if \<not> cuda_available api device_id \<or> bytes = 0 then Inr (nullptr, m)
      else case cu_malloc_host api (unat bytes) m of None \<Rightarrow> Inr (nullptr, m) | Some (p, m') \<Rightarrow> Inr (p, m'))"

definition CudaDevice_deallocate_host :: "cuda_api \<Rightarrow> ptr \<Rightarrow> mem \<Rightarrow> mem comp" where
  "CudaDevice_deallocate_host api p m = (if p = nullptr then Inr m else cu_free_host api p m)"

definition cuda_copy :: "cuda_api \<Rightarrow> int \<Rightarrow> copy_kind \<Rightarrow> ptr \<Rightarrow> ptr \<Rightarrow> size_t \<Rightarrow> mem \<Rightarrow> mem comp" where
  "cuda_copy api device_id kind dst src n m =
     (if \<not> cuda_available api device_id \<or> dst = nullptr \<or> src = nullptr then Inr m
      else cu_memcpy api kind dst src (unat n) m)"

definition CudaDevice_copy_to_device :: "cuda_api \<Rightarrow> int \<Rightarrow> ptr \<Rightarrow> ptr \<Rightarrow> size_t \<Rightarrow> mem \<Rightarrow> mem comp" where
  "CudaDevice_copy_to_device api i dst src n m = cuda_copy api i HostToDevice dst src n m"

definition CudaDevice_copy_to_host :: "cuda_api \<Rightarrow> int \<Rightarrow> ptr \<Rightarrow> ptr \<Rightarrow> size_t \<Rightarrow> mem \<Rightarrow> mem comp" where
  "CudaDevice_copy_to_host api i dst src n m = cuda_copy api i DeviceToHost dst src n m"

definition CudaDevice_copy_from_device :: "cuda_api \<Rightarrow> int \<Rightarrow> ptr \<Rightarrow> ptr \<Rightarrow> size_t \<Rightarrow> mem \<Rightarrow> mem comp" where
  "CudaDevice_copy_from_device api i dst src n m = CudaDevice_copy_to_device api i dst src n m"

definition CudaDevice_copy_within :: "cuda_api \<Rightarrow> int \<Rightarrow> ptr \<Rightarrow> ptr \<Rightarrow> size_t \<Rightarrow> mem \<Rightarrow> mem comp" where
  "CudaDevice_copy_within api i dst src n m = cuda_copy api i DeviceToDevice dst src n m"

text \<open>Streams of the runtime run in order, so a copy on one is done when the model returns.\<close>

definition CudaDevice_copy_async :: "cuda_api \<Rightarrow> int \<Rightarrow> ptr \<Rightarrow> ptr \<Rightarrow> size_t \<Rightarrow> mem \<Rightarrow> mem comp" where
  "CudaDevice_copy_async api i dst src n m = cuda_copy api i HostToDevice dst src n m"

definition CudaDevice_memset :: "cuda_api \<Rightarrow> int \<Rightarrow> ptr \<Rightarrow> int \<Rightarrow> size_t \<Rightarrow> mem \<Rightarrow> mem comp" where
  "CudaDevice_memset api i p v n m =
     (if \<not> cuda_available api i \<or> p = nullptr then Inr m else cu_memset api p v (unat n) m)"

definition CudaDevice_memset_async :: "cuda_api \<Rightarrow> int \<Rightarrow> ptr \<Rightarrow> int \<Rightarrow> size_t \<Rightarrow> mem \<Rightarrow> mem comp" where
  "CudaDevice_memset_async api i p v n m =
     (if \<not> cuda_available api i \<or> p = nullptr then Inr m else cu_memset api p v (unat n) m)"

definition CudaDevice :: "cuda_api \<Rightarrow> int \<Rightarrow> Device" where
  "CudaDevice api i = \<lparr>dev_type = kCUDA, dev_id = i, dev_allocate = CudaDevice_allocate api i,
     dev_deallocate = CudaDevice_deallocate api, dev_copy_to_device = CudaDevice_copy_to_device api i,
     dev_copy_to_host = CudaDevice_copy_to_host api i, dev_copy_within = CudaDevice_copy_within api i,
     dev_memset = CudaDevice_memset api i\<rparr>"

definition CudaDevice_Create :: "cuda_api \<Rightarrow> int \<Rightarrow> Device option" where
  "CudaDevice_Create api i = (if \<not> cuda_available api i then None else Some (CudaDevice api i))"

section \<open>What the tensors rely on\<close>

text \<open>
  \<open>allocate\<close> returns the null pointer or a new region of the device's own space; \<open>deallocate\<close> ends
  it; the copies move the bytes between the spaces they are meant for; \<open>memset\<close> fills.
\<close>

locale device_contract =
  fixes dev :: Device and sp :: space and good :: bool
  assumes allocate_ok: "good \<Longrightarrow> mem_ok m \<Longrightarrow> dev_allocate dev n m = Inr (nullptr, m) \<or>
      (\<exists>p m' v. dev_allocate dev n m = Inr (p, m') \<and> n \<noteq> 0 \<and> p \<noteq> nullptr \<and> mem_ok m' \<and>
         map_of (m_regions m) p = None \<and> m_regions m' = (p, unat n, sp) # m_regions m \<and>
         m' = put_bytes p v (m\<lparr>m_regions := (p, unat n, sp) # m_regions m\<rparr>) \<and> length v = unat n)"
    and deallocate_null: "good \<Longrightarrow> dev_deallocate dev nullptr m = Inr m"
    and deallocate_ok: "good \<Longrightarrow> mem_ok m \<Longrightarrow> map_of (m_regions m) p = Some (len, sp) \<Longrightarrow>
      dev_deallocate dev p m = Inr (m\<lparr>m_regions := AList.delete p (m_regions m)\<rparr>)"
    and copy_in_ok: "good \<Longrightarrow> mem_ok m \<Longrightarrow> dst \<noteq> nullptr \<Longrightarrow> src \<noteq> nullptr \<Longrightarrow> mload Host src (unat n) m = Inr bs \<Longrightarrow>
      within sp dst (unat n) m \<Longrightarrow> dst + unat n \<le> src \<or> src + unat n \<le> dst \<Longrightarrow>
      dev_copy_to_device dev dst src n m = Inr (put_bytes dst bs m)"
    and copy_out_ok: "good \<Longrightarrow> mem_ok m \<Longrightarrow> dst \<noteq> nullptr \<Longrightarrow> src \<noteq> nullptr \<Longrightarrow> mload sp src (unat n) m = Inr bs \<Longrightarrow>
      within Host dst (unat n) m \<Longrightarrow> dst + unat n \<le> src \<or> src + unat n \<le> dst \<Longrightarrow>
      dev_copy_to_host dev dst src n m = Inr (put_bytes dst bs m)"
    and copy_within_ok: "good \<Longrightarrow> mem_ok m \<Longrightarrow> dst \<noteq> nullptr \<Longrightarrow> src \<noteq> nullptr \<Longrightarrow> mload sp src (unat n) m = Inr bs \<Longrightarrow>
      within sp dst (unat n) m \<Longrightarrow> dst + unat n \<le> src \<or> src + unat n \<le> dst \<Longrightarrow>
      dev_copy_within dev dst src n m = Inr (put_bytes dst bs m)"
    and copy_in_regions: "good \<Longrightarrow> dev_copy_to_device dev dst src n m = Inr m' \<Longrightarrow> m_regions m' = m_regions m"
    and memset_ok: "good \<Longrightarrow> mem_ok m \<Longrightarrow> p \<noteq> nullptr \<Longrightarrow> within sp p (unat n) m \<Longrightarrow>
      dev_memset dev p v n m = Inr (put_bytes p (replicate (unat n) (word_of_int v)) m)"

lemma mcopy_ok:
  assumes "mload ssp src n m = Inr bs" and "within dsp dst n m" and "dst + n \<le> src \<or> src + n \<le> dst"
  shows "mcopy dsp dst ssp src n m = Inr (put_bytes dst bs m)"
  using assms length_mload [OF assms(1)] by (auto simp: mcopy_def mstore_def)

lemma memset_mem_ok:
  assumes "within Host p (unat n) m"
  shows "memset p v n m = Inr (put_bytes p (replicate (unat n) (word_of_int v)) m)"
  using assms by (simp add: memset_def mstore_def)

lemma CPUDevice_allocate_ok:
  assumes "memalign_ok new" and "mem_ok m"
  shows "CPUDevice_allocate new n m = Inr (nullptr, m) \<or>
    (\<exists>p m'. CPUDevice_allocate new n m = Inr (p, m') \<and> n \<noteq> 0 \<and> p \<noteq> nullptr \<and> mem_ok m' \<and>
       map_of (m_regions m) p = None \<and> m_regions m' = (p, unat n, Host) # m_regions m \<and>
       m' = put_bytes p (replicate (unat n) 0) (m\<lparr>m_regions := (p, unat n, Host) # m_regions m\<rparr>))"
proof (cases "n = 0 \<or> posix_memalign new kDefaultAlignment n m = None")
  case True
  then show ?thesis by (auto simp: CPUDevice_allocate_def)
next
  case False
  then obtain p m1 where al: "posix_memalign new kDefaultAlignment n m = Some (p, m1)" by auto
  then have nr: "new_region (new kDefaultAlignment) Host (unat n) m = Some (p, m1)"
    by (simp add: posix_memalign_def split: if_splits)
  have "fresh_new (new kDefaultAlignment)" using assms(1) by (simp add: memalign_ok_def)
  note R = new_region_ok [OF assms(2) this nr]
  have "memset p 0 n m1 = Inr (put_bytes p (replicate (unat n) 0) m1)" using memset_mem_ok [OF R(5), of 0] by simp
  with False al R show ?thesis by (simp add: CPUDevice_allocate_def)
qed

interpretation cpu: device_contract "CPUDevice new" Host "memalign_ok new" for new
proof
  fix n m assume "memalign_ok new" "mem_ok m"
  from CPUDevice_allocate_ok [OF this, of n]
  show "dev_allocate (CPUDevice new) n m = Inr (nullptr, m) \<or>
      (\<exists>p m' v. dev_allocate (CPUDevice new) n m = Inr (p, m') \<and> n \<noteq> 0 \<and> p \<noteq> nullptr \<and> mem_ok m' \<and>
         map_of (m_regions m) p = None \<and> m_regions m' = (p, unat n, Host) # m_regions m \<and>
         m' = put_bytes p v (m\<lparr>m_regions := (p, unat n, Host) # m_regions m\<rparr>) \<and> length v = unat n)"
  proof
    assume "\<exists>p m'. CPUDevice_allocate new n m = Inr (p, m') \<and> n \<noteq> 0 \<and> p \<noteq> nullptr \<and> mem_ok m' \<and>
       map_of (m_regions m) p = None \<and> m_regions m' = (p, unat n, Host) # m_regions m \<and>
       m' = put_bytes p (replicate (unat n) 0) (m\<lparr>m_regions := (p, unat n, Host) # m_regions m\<rparr>)"
    then obtain p m' where "CPUDevice_allocate new n m = Inr (p, m')" "n \<noteq> 0" "p \<noteq> nullptr" "mem_ok m'"
      "map_of (m_regions m) p = None" "m_regions m' = (p, unat n, Host) # m_regions m"
      "m' = put_bytes p (replicate (unat n) 0) (m\<lparr>m_regions := (p, unat n, Host) # m_regions m\<rparr>)" by blast
    then show ?thesis
      by (intro disjI2 exI [of _ p] exI [of _ m'] exI [of _ "replicate (unat n) 0"]) (simp add: CPUDevice_def)
  qed (simp add: CPUDevice_def)
next
  fix m p n assume r: "mem_ok m" "map_of (m_regions m) p = Some (n, Host)"
  then have "0 < p" unfolding mem_ok_def by blast
  with r show "dev_deallocate (CPUDevice new) p m = Inr (m\<lparr>m_regions := AList.delete p (m_regions m)\<rparr>)"
    by (simp add: CPUDevice_def CPUDevice_deallocate_def std_free_def free_region_def)
next
  fix dst src n m m' assume "dev_copy_to_device (CPUDevice new) dst src n m = Inr m'"
  then show "m_regions m' = m_regions m"
    by (auto simp: CPUDevice_def CPUDevice_copy_to_device_def memcpy_def mcopy_def rbind_eq_Inr mstore_eq split: if_splits)
qed (simp_all add: CPUDevice_def CPUDevice_deallocate_def CPUDevice_copy_to_device_def CPUDevice_copy_to_host_def
      Device_copy_within_def CPUDevice_memset_def memcpy_def mcopy_ok memset_mem_ok)

text \<open>
  What the documentation of the CUDA runtime says of the calls the device makes: \<open>cudaMalloc\<close> gives
  a new region of the device, \<open>cudaFree\<close> ends it, and the copies and \<open>cudaMemset\<close> act on the bytes of
  live regions of the spaces their kind names.
\<close>

fun copy_spaces :: "int \<Rightarrow> copy_kind \<Rightarrow> space \<times> space" where
  "copy_spaces i HostToDevice = (Gpu i, Host)"
| "copy_spaces i DeviceToHost = (Host, Gpu i)"
| "copy_spaces i DeviceToDevice = (Gpu i, Gpu i)"

definition cuda_ok :: "cuda_api \<Rightarrow> int \<Rightarrow> bool" where
  "cuda_ok api i \<longleftrightarrow> cuda_available api i \<and>
     (\<forall>n m p m'. mem_ok m \<longrightarrow> cu_malloc api n m = Some (p, m') \<longrightarrow> p \<noteq> nullptr \<and> mem_ok m' \<and>
        map_of (m_regions m) p = None \<and> m' = m\<lparr>m_regions := (p, n, Gpu (cu_current api)) # m_regions m\<rparr>) \<and>
     (\<forall>m p n. mem_ok m \<longrightarrow> map_of (m_regions m) p = Some (n, Gpu (cu_current api)) \<longrightarrow>
        cu_free api p m = Inr (m\<lparr>m_regions := AList.delete p (m_regions m)\<rparr>)) \<and>
     (\<forall>k dst src n m bs. mem_ok m \<longrightarrow> mload (snd (copy_spaces (cu_current api) k)) src n m = Inr bs \<longrightarrow>
        within (fst (copy_spaces (cu_current api) k)) dst n m \<longrightarrow> dst + n \<le> src \<or> src + n \<le> dst \<longrightarrow>
        cu_memcpy api k dst src n m = Inr (put_bytes dst bs m)) \<and>
     (\<forall>k dst src n m m'. cu_memcpy api k dst src n m = Inr m' \<longrightarrow> m_regions m' = m_regions m) \<and>
     (\<forall>p v n m. mem_ok m \<longrightarrow> within (Gpu (cu_current api)) p n m \<longrightarrow>
        cu_memset api p v n m = Inr (put_bytes p (replicate n (word_of_int v)) m))"

lemma cuda_okD:
  assumes "cuda_ok api i"
  shows cuda_ok_available: "cuda_available api i"
    and cuda_ok_malloc: "\<forall>n m p m'. mem_ok m \<longrightarrow> cu_malloc api n m = Some (p, m') \<longrightarrow> p \<noteq> nullptr \<and> mem_ok m' \<and>
        map_of (m_regions m) p = None \<and> m' = m\<lparr>m_regions := (p, n, Gpu (cu_current api)) # m_regions m\<rparr>"
    and cuda_ok_free: "\<forall>m p n. mem_ok m \<longrightarrow> map_of (m_regions m) p = Some (n, Gpu (cu_current api)) \<longrightarrow>
        cu_free api p m = Inr (m\<lparr>m_regions := AList.delete p (m_regions m)\<rparr>)"
    and cuda_ok_memcpy: "\<forall>k dst src n m bs. mem_ok m \<longrightarrow> mload (snd (copy_spaces (cu_current api) k)) src n m = Inr bs \<longrightarrow>
        within (fst (copy_spaces (cu_current api) k)) dst n m \<longrightarrow> dst + n \<le> src \<or> src + n \<le> dst \<longrightarrow>
        cu_memcpy api k dst src n m = Inr (put_bytes dst bs m)"
    and cuda_ok_regions: "\<forall>k dst src n m m'. cu_memcpy api k dst src n m = Inr m' \<longrightarrow> m_regions m' = m_regions m"
    and cuda_ok_memset: "\<forall>p v n m. mem_ok m \<longrightarrow> within (Gpu (cu_current api)) p n m \<longrightarrow>
        cu_memset api p v n m = Inr (put_bytes p (replicate n (word_of_int v)) m)"
  using assms unfolding cuda_ok_def by - (elim conjE, assumption)+

text \<open>A runtime with these properties exists.\<close>

definition model_cuda :: "new_oracle \<Rightarrow> int \<Rightarrow> cuda_api" where
  "model_cuda new devices = \<lparr>cu_device_count = Some devices, cu_properties = (\<lambda>_. True),
     cu_current = 0, cu_malloc = (\<lambda>n m. new_region new (Gpu 0) n m), cu_free = free_region (Gpu 0),
     cu_malloc_host = (\<lambda>n m. new_region new Host n m), cu_free_host = std_free,
     cu_memcpy = (\<lambda>k dst src n m. mcopy (fst (copy_spaces 0 k)) dst (snd (copy_spaces 0 k)) src n m),
     cu_memset = (\<lambda>p v n m. mstore (Gpu 0) p (replicate n (word_of_int v)) m)\<rparr>"

lemma model_cuda_ok:
  assumes "fresh_new new" and "i < devices"
  shows "cuda_ok (model_cuda new devices) i"
proof -
  have "p \<noteq> nullptr \<and> mem_ok m' \<and> map_of (m_regions m) p = None \<and> m' = m\<lparr>m_regions := (p, n, Gpu 0) # m_regions m\<rparr>"
    if "mem_ok m" "new_region new (Gpu 0) n m = Some (p, m')" for n m p m'
    using new_region_ok [OF that(1) assms(1) that(2)] by simp
  moreover have "m_regions m' = m_regions m" if "mcopy dsp dst ssp src n m = Inr m'" for dsp dst ssp src n m m'
    using that by (auto simp: mcopy_def rbind_eq_Inr mstore_eq split: if_splits)
  ultimately show ?thesis
    using assms(2) unfolding cuda_ok_def
    by (simp add: model_cuda_def cuda_available_def mcopy_ok mstore_def free_region_def)
qed

interpretation cuda: device_contract "CudaDevice api i" "Gpu (cu_current api)" "cuda_ok api i" for api i
proof
  fix n m assume ok: "cuda_ok api i" "mem_ok m"
  show "dev_allocate (CudaDevice api i) n m = Inr (nullptr, m) \<or>
      (\<exists>p m' v. dev_allocate (CudaDevice api i) n m = Inr (p, m') \<and> n \<noteq> 0 \<and> p \<noteq> nullptr \<and> mem_ok m' \<and>
         map_of (m_regions m) p = None \<and> m_regions m' = (p, unat n, Gpu (cu_current api)) # m_regions m \<and>
         m' = put_bytes p v (m\<lparr>m_regions := (p, unat n, Gpu (cu_current api)) # m_regions m\<rparr>) \<and> length v = unat n)"
  proof (cases "n = 0 \<or> cu_malloc api (unat n) m = None")
    case True
    then show ?thesis by (auto simp: CudaDevice_def CudaDevice_allocate_def)
  next
    case False
    then obtain p m' where c: "cu_malloc api (unat n) m = Some (p, m')" by auto
    then have p: "p \<noteq> nullptr" "mem_ok m'" "map_of (m_regions m) p = None"
      "m' = m\<lparr>m_regions := (p, unat n, Gpu (cu_current api)) # m_regions m\<rparr>"
      using cuda_ok_malloc [OF ok(1), rule_format, OF ok(2) c] by blast+
    have same: "put_bytes p (map (m_val m') [p..<p + unat n]) m' = m'"
    proof -
      have "m_val (put_bytes p (map (m_val m') [p..<p + unat n]) m') = m_val m'"
        by (rule ext) (auto simp: put_bytes_def)
      then show ?thesis by (cases m') (simp add: put_bytes_def)
    qed
    from c False ok(1) have "dev_allocate (CudaDevice api i) n m = Inr (p, m')"
      by (simp add: CudaDevice_def CudaDevice_allocate_def cuda_ok_def)
    with False p same show ?thesis
      by (intro disjI2 exI [of _ p] exI [of _ m'] exI [of _ "map (m_val m') [p..<p + unat n]"]) simp
  qed
next
  fix m p n assume r: "cuda_ok api i" "mem_ok m" "map_of (m_regions m) p = Some (n, Gpu (cu_current api))"
  then have "0 < p" unfolding mem_ok_def by blast
  moreover have "cu_free api p m = Inr (m\<lparr>m_regions := AList.delete p (m_regions m)\<rparr>)"
    by (rule cuda_ok_free [OF r(1), rule_format, OF r(2,3)])
  ultimately show "dev_deallocate (CudaDevice api i) p m = Inr (m\<lparr>m_regions := AList.delete p (m_regions m)\<rparr>)"
    by (simp add: CudaDevice_def CudaDevice_deallocate_def)
next
  fix m dst src bs and n :: size_t
  assume ok: "cuda_ok api i" "mem_ok m" "dst \<noteq> nullptr" "src \<noteq> nullptr" "dst + unat n \<le> src \<or> src + unat n \<le> dst"
  have copy: "cuda_copy api i k dst src n m = Inr (put_bytes dst bs m)"
    if "mload (snd (copy_spaces (cu_current api) k)) src (unat n) m = Inr bs" "within (fst (copy_spaces (cu_current api) k)) dst (unat n) m" for k
  proof -
    have "cu_memcpy api k dst src (unat n) m = Inr (put_bytes dst bs m)" "cuda_available api i"
      using cuda_ok_memcpy [OF ok(1), rule_format, OF ok(2) that ok(5)] cuda_ok_available [OF ok(1)] by blast+
    with ok(3,4) show ?thesis by (simp add: cuda_copy_def)
  qed
  show "dev_copy_to_device (CudaDevice api i) dst src n m = Inr (put_bytes dst bs m)"
    if "mload Host src (unat n) m = Inr bs" "within (Gpu (cu_current api)) dst (unat n) m"
    using copy [of HostToDevice] that by (simp add: CudaDevice_def CudaDevice_copy_to_device_def)
  show "dev_copy_to_host (CudaDevice api i) dst src n m = Inr (put_bytes dst bs m)"
    if "mload (Gpu (cu_current api)) src (unat n) m = Inr bs" "within Host dst (unat n) m"
    using copy [of DeviceToHost] that by (simp add: CudaDevice_def CudaDevice_copy_to_host_def)
  show "dev_copy_within (CudaDevice api i) dst src n m = Inr (put_bytes dst bs m)"
    if "mload (Gpu (cu_current api)) src (unat n) m = Inr bs" "within (Gpu (cu_current api)) dst (unat n) m"
    using copy [of DeviceToDevice] that by (simp add: CudaDevice_def CudaDevice_copy_within_def)
next
  fix dst src n m m' assume r: "cuda_ok api i" "dev_copy_to_device (CudaDevice api i) dst src n m = Inr m'"
  then show "m_regions m' = m_regions m"
    using cuda_ok_regions [OF r(1), rule_format]
    by (auto simp: CudaDevice_def CudaDevice_copy_to_device_def cuda_copy_def split: if_splits)
qed (auto simp: CudaDevice_def CudaDevice_deallocate_def CudaDevice_memset_def cuda_ok_available cuda_ok_memset)

end
