(* ===== verification/Buffer_Handle.thy ===== *)
theory Buffer_Handle
  imports Devices "HOL-Library.Multiset"
begin

text \<open>
  \<open>memory/buffer_handle.cpp\<close>: the owner of a block of memory and its move semantics, and
  \<open>TensorBuffer\<close>. A handle whose data was moved out keeps everything but its pointer and its
  ownership; the function object it gave away is left empty.
\<close>

section \<open>State and operations\<close>

record BufferHandle =
  bh_data :: ptr
  bh_bytes :: size_t
  bh_device :: DeviceType
  bh_device_ptr :: "Device option"
  bh_dealloc :: "(ptr \<Rightarrow> mem \<Rightarrow> mem comp) option"
  bh_owns :: bool

definition BufferHandle_default :: BufferHandle where
  "BufferHandle_default = \<lparr>bh_data = nullptr, bh_bytes = 0, bh_device = kCPU, bh_device_ptr = None,
     bh_dealloc = None, bh_owns = False\<rparr>"

definition BufferHandle_external :: "ptr \<Rightarrow> size_t \<Rightarrow> DeviceType \<Rightarrow> (ptr \<Rightarrow> mem \<Rightarrow> mem comp) option \<Rightarrow> BufferHandle" where
  "BufferHandle_external data bytes dt dealloc = \<lparr>bh_data = data, bh_bytes = bytes, bh_device = dt,
     bh_device_ptr = None, bh_dealloc = dealloc, bh_owns = True\<rparr>"

definition BufferHandle_new :: "Device option \<Rightarrow> size_t \<Rightarrow> mem \<Rightarrow> (BufferHandle \<times> mem) comp" where
  "BufferHandle_new device bytes m =
     rbind (deref device) (\<lambda>d. rbind (dev_allocate d bytes m) (\<lambda>(p, m').
       Inr (\<lparr>bh_data = p, bh_bytes = bytes, bh_device = dev_type d, bh_device_ptr = Some d,
              bh_dealloc = Some (dev_deallocate d), bh_owns = True\<rparr>, m')))"

definition bh_deallocate :: "'z BufferHandle_scheme \<Rightarrow> mem \<Rightarrow> ('z BufferHandle_scheme \<times> mem) comp" where
  "bh_deallocate b m =
     rbind (case bh_dealloc b of
              Some f \<Rightarrow> if bh_owns b \<and> bh_data b \<noteq> nullptr then f (bh_data b) m else Inr m
            | None \<Rightarrow> Inr m) (\<lambda>m'. Inr (b\<lparr>bh_data := nullptr, bh_owns := False\<rparr>, m'))"

definition bh_moved_from :: "BufferHandle \<Rightarrow> BufferHandle" where
  "bh_moved_from b = b\<lparr>bh_data := nullptr, bh_owns := False, bh_dealloc := None\<rparr>"

text \<open>Move construction gives the new handle and what is left of the old one.\<close>

definition bh_move :: "BufferHandle \<Rightarrow> BufferHandle \<times> BufferHandle" where
  "bh_move other = (other, bh_moved_from other)"

text \<open>
  Move assignment gives both handles after it; \<open>self\<close> says that they are the same object, the test
  \<open>this != &other\<close> of the code.
\<close>

definition bh_move_assign :: "bool \<Rightarrow> BufferHandle \<Rightarrow> BufferHandle \<Rightarrow> mem \<Rightarrow> (BufferHandle \<times> BufferHandle \<times> mem) comp" where
  "bh_move_assign self b other m =
     (if \<not> self then rbind (bh_deallocate b m) (\<lambda>(_, m'). Inr (other, bh_moved_from other, m'))
      else Inr (b, other, m))"

definition bh_destroy :: "BufferHandle \<Rightarrow> mem \<Rightarrow> mem comp" where
  "bh_destroy b m = rbind (bh_deallocate b m) (\<lambda>(_, m'). Inr m')"

definition bh_reset :: "BufferHandle \<Rightarrow> mem \<Rightarrow> (BufferHandle \<times> mem) comp" where
  "bh_reset b m = bh_deallocate b m"

definition bh_reset_to :: "ptr \<Rightarrow> size_t \<Rightarrow> DeviceType \<Rightarrow> (ptr \<Rightarrow> mem \<Rightarrow> mem comp) option \<Rightarrow> BufferHandle \<Rightarrow> mem \<Rightarrow>
    (BufferHandle \<times> mem) comp" where
  "bh_reset_to data bytes dt dealloc b m =
     rbind (bh_deallocate b m) (\<lambda>(b', m').
       Inr (b'\<lparr>bh_data := data, bh_bytes := bytes, bh_device := dt, bh_dealloc := dealloc, bh_owns := True\<rparr>, m'))"

definition bh_detach :: "BufferHandle \<Rightarrow> ptr \<times> BufferHandle" where
  "bh_detach b = (bh_data b, b\<lparr>bh_owns := False\<rparr>)"

definition bh_clone :: "BufferHandle \<Rightarrow> mem \<Rightarrow> (BufferHandle \<times> mem) comp" where
  "bh_clone b m =
     rbind (BufferHandle_new (bh_device_ptr b) (bh_bytes b) m) (\<lambda>(r, m1).
       case bh_device_ptr b of
         Some d \<Rightarrow> if bh_data b \<noteq> nullptr
           then rbind (dev_copy_to_device d (bh_data r) (bh_data b) (bh_bytes b) m1) (\<lambda>m2. Inr (r, m2))
           else Inr (r, m1)
       | None \<Rightarrow> Inr (r, m1))"

subsection \<open>TensorBuffer\<close>

record TensorBuffer = BufferHandle +
  tb_shape :: TensorShape
  tb_dtype :: DType

definition shape_bytes :: "TensorShape \<Rightarrow> DType \<Rightarrow> size_t comp" where
  "shape_bytes sh dt = rbind (num_elements sh) (\<lambda>n. Inr (of_int n * kDTypeSize dt))"

definition TensorBuffer_new :: "TensorShape \<Rightarrow> DType \<Rightarrow> Device option \<Rightarrow> mem \<Rightarrow> (TensorBuffer \<times> mem) comp" where
  "TensorBuffer_new sh dt device m =
     rbind (shape_bytes sh dt) (\<lambda>bytes. rbind (deref device) (\<lambda>d. rbind (dev_allocate d bytes m) (\<lambda>(p, m').
       Inr (\<lparr>bh_data = p, bh_bytes = bytes, bh_device = dev_type d, bh_device_ptr = Some d,
              bh_dealloc = Some (dev_deallocate d), bh_owns = True, tb_shape = sh, tb_dtype = dt\<rparr>, m'))))"

definition TensorBuffer_resize :: "TensorShape \<Rightarrow> DType \<Rightarrow> Device option \<Rightarrow> TensorBuffer \<Rightarrow> mem \<Rightarrow> (TensorBuffer \<times> mem) comp" where
  "TensorBuffer_resize sh dt device b m =
     (let b0 = b\<lparr>tb_shape := sh, tb_dtype := dt\<rparr> in
      rbind (shape_bytes sh dt) (\<lambda>bytes.
        if bh_bytes b < bytes
        then rbind (bh_deallocate b0 m) (\<lambda>(b1, m1). rbind (deref device) (\<lambda>d. rbind (dev_allocate d bytes m1) (\<lambda>(p, m2).
          Inr (b1\<lparr>bh_data := p, bh_bytes := bytes, bh_device := dev_type d, bh_device_ptr := Some d,
                   bh_dealloc := Some (dev_deallocate d), bh_owns := True\<rparr>, m2))))
        else Inr (b0, m)))"

subsection \<open>BufferView\<close>

record BufferView =
  bv_data :: ptr
  bv_bytes :: size_t
  bv_device :: DeviceType

definition BufferView_of :: "BufferHandle \<Rightarrow> BufferView" where
  "BufferView_of b = \<lparr>bv_data = bh_data b, bv_bytes = bh_bytes b, bv_device = bh_device b\<rparr>"

section \<open>A program over handles\<close>

text \<open>
  What a program does with the handles of a scope, by number, and with the raw pointers it holds
  itself: those it allocated through the device and those it took out of a handle with \<open>detach\<close>.
  \<open>Adopt\<close> builds a handle around such a pointer with any size and \<open>Reset_To\<close> points a handle to it;
  with the deallocation function the handle becomes its owner, without it the program stays the
  owner. A number that does not exist does nothing.
\<close>

datatype handle_op =
    Make size_t
  | Make_Empty
  | Move_New nat
  | Move_Assign nat nat
  | Reset nat
  | Clone nat
  | Detach nat
  | Alloc size_t
  | Adopt nat size_t bool
  | Reset_To nat nat size_t bool
  | Free nat

type_synonym scope = "BufferHandle list \<times> ptr list \<times> mem"

definition dealloc_arg :: "Device \<Rightarrow> bool \<Rightarrow> (ptr \<Rightarrow> mem \<Rightarrow> mem comp) option" where
  "dealloc_arg d own = (if own then Some (dev_deallocate d) else None)"

definition hand_over :: "nat \<Rightarrow> bool \<Rightarrow> ptr list \<Rightarrow> ptr list" where
  "hand_over k own ps = (if own then take k ps @ drop (Suc k) ps else ps)"

definition owning :: "BufferHandle \<Rightarrow> bool" where
  "owning h \<longleftrightarrow> bh_owns h \<and> bh_data h \<noteq> nullptr \<and> bh_dealloc h \<noteq> None"

fun handle_step :: "Device \<Rightarrow> handle_op \<Rightarrow> scope \<Rightarrow> scope comp" where
  "handle_step d (Make n) (hs, ps, m) = rbind (BufferHandle_new (Some d) n m) (\<lambda>(h, m'). Inr (hs @ [h], ps, m'))"
| "handle_step d Make_Empty (hs, ps, m) = Inr (hs @ [BufferHandle_default], ps, m)"
| "handle_step d (Move_New i) (hs, ps, m) =
     (if i < length hs then Inr (hs[i := snd (bh_move (hs ! i))] @ [fst (bh_move (hs ! i))], ps, m) else Inr (hs, ps, m))"
| "handle_step d (Move_Assign i j) (hs, ps, m) =
     (if i < length hs \<and> j < length hs
      then rbind (bh_move_assign (i = j) (hs ! i) (hs ! j) m) (\<lambda>(h, h', m'). Inr (hs[i := h, j := h'], ps, m'))
      else Inr (hs, ps, m))"
| "handle_step d (Reset i) (hs, ps, m) =
     (if i < length hs then rbind (bh_reset (hs ! i) m) (\<lambda>(h, m'). Inr (hs[i := h], ps, m')) else Inr (hs, ps, m))"
| "handle_step d (Clone i) (hs, ps, m) =
     (if i < length hs then rbind (bh_clone (hs ! i) m) (\<lambda>(h, m'). Inr (hs @ [h], ps, m')) else Inr (hs, ps, m))"
| "handle_step d (Detach i) (hs, ps, m) =
     (if i < length hs
      then let (p, h) = bh_detach (hs ! i) in Inr (hs[i := h], if owning (hs ! i) then ps @ [p] else ps, m)
      else Inr (hs, ps, m))"
| "handle_step d (Alloc n) (hs, ps, m) =
     rbind (dev_allocate d n m) (\<lambda>(p, m'). Inr (hs, if p \<noteq> nullptr then ps @ [p] else ps, m'))"
| "handle_step d (Adopt k n own) (hs, ps, m) =
     (if k < length ps
      then Inr (hs @ [BufferHandle_external (ps ! k) n (dev_type d) (dealloc_arg d own)], hand_over k own ps, m)
      else Inr (hs, ps, m))"
| "handle_step d (Reset_To i k n own) (hs, ps, m) =
     (if i < length hs \<and> k < length ps
      then rbind (bh_reset_to (ps ! k) n (dev_type d) (dealloc_arg d own) (hs ! i) m) (\<lambda>(h, m').
             Inr (hs[i := h], hand_over k own ps, m'))
      else Inr (hs, ps, m))"
| "handle_step d (Free k) (hs, ps, m) =
     (if k < length ps then rbind (dev_deallocate d (ps ! k) m) (\<lambda>m'. Inr (hs, hand_over k True ps, m'))
      else Inr (hs, ps, m))"

fun handle_run :: "Device \<Rightarrow> handle_op list \<Rightarrow> scope \<Rightarrow> scope comp" where
  "handle_run d [] s = Inr s"
| "handle_run d (op # ops) s = rbind (handle_step d op s) (handle_run d ops)"

text \<open>The end of the scope destroys every handle.\<close>

definition destroy_all :: "BufferHandle list \<Rightarrow> mem \<Rightarrow> mem comp" where
  "destroy_all hs = for_each bh_destroy hs"

section \<open>Every region has one owner\<close>

definition owned :: "BufferHandle list \<Rightarrow> ptr list" where
  "owned hs = map bh_data (filter owning hs)"

definition own_ptrs :: "BufferHandle \<Rightarrow> ptr multiset" where
  "own_ptrs h = mset (owned [h])"

definition well_made :: "Device \<Rightarrow> BufferHandle \<Rightarrow> bool" where
  "well_made d h \<longleftrightarrow> (bh_device_ptr h = None \<or> bh_device_ptr h = Some d) \<and>
     (owning h \<longrightarrow> bh_dealloc h = Some (dev_deallocate d))"

text \<open>\<open>M\<close>: the pointers somebody must free; \<open>rs\<close>: the regions that were there before the scope began.\<close>

definition lent :: "space \<Rightarrow> (ptr, nat \<times> space) umap \<Rightarrow> ptr multiset \<Rightarrow> mem \<Rightarrow> bool" where
  "lent sp rs M m \<longleftrightarrow> mem_ok m \<and> (\<forall>p \<in># M. count M p = 1 \<and> (\<exists>k. map_of (m_regions m) p = Some (k, sp))) \<and>
     filter (\<lambda>(p, _). p \<notin># M) (m_regions m) = rs"

definition owners_inv :: "Device \<Rightarrow> space \<Rightarrow> (ptr, nat \<times> space) umap \<Rightarrow> scope \<Rightarrow> bool" where
  "owners_inv d sp rs = (\<lambda>(hs, ps, m). (\<forall>h \<in> set hs. well_made d h) \<and> lent sp rs (mset (owned hs) + mset ps) m)"

lemma owned_simps [simp]: "owned [] = []" "owned (hs @ hs') = owned hs @ owned hs'" "mset (owned (h # hs)) = own_ptrs h + mset (owned hs)"
  by (simp_all add: owned_def own_ptrs_def)

lemma mset_owned_update: "i < length hs \<Longrightarrow> mset (owned (hs[i := h])) + own_ptrs (hs ! i) = mset (owned hs) + own_ptrs h"
proof (induction hs arbitrary: i)
  case (Cons a hs)
  then show ?case by (cases i) (simp_all add: ac_simps)
qed simp

lemma own_ptrs_eq: "own_ptrs h = (if owning h then {#bh_data h#} else {#})"
  by (simp add: own_ptrs_def owned_def)

lemma own_ptrs_simps [simp]: "own_ptrs (bh_moved_from h) = {#}" "own_ptrs BufferHandle_default = {#}"
  "own_ptrs (h\<lparr>bh_data := nullptr, bh_owns := False\<rparr>) = {#}" "own_ptrs (h\<lparr>bh_owns := False\<rparr>) = {#}"
  by (simp_all add: own_ptrs_eq owning_def bh_moved_from_def BufferHandle_default_def)

lemma well_made_simps [simp]: "well_made d h \<Longrightarrow> well_made d (bh_moved_from h)" "well_made d BufferHandle_default"
  "well_made d h \<Longrightarrow> well_made d (h\<lparr>bh_data := nullptr, bh_owns := False\<rparr>)"
  "well_made d h \<Longrightarrow> well_made d (h\<lparr>bh_owns := False\<rparr>)"
  by (simp_all add: well_made_def owning_def bh_moved_from_def BufferHandle_default_def)

lemma well_made_update: "(\<forall>x \<in> set hs. well_made d x) \<Longrightarrow> well_made d h \<Longrightarrow> \<forall>x \<in> set (hs[i := h]). well_made d x"
  using set_update_subset_insert [of hs i h] by auto

lemma mset_hand_over: "k < length ps \<Longrightarrow> mset ps = mset (hand_over k give ps) + (if give then {#ps ! k#} else {#})"
  using arg_cong [OF id_take_nth_drop [of k ps], of mset] by (simp add: hand_over_def)

lemma lent_regions: "m_regions m' = m_regions m \<Longrightarrow> lent sp rs M m' = lent sp rs M m"
  by (simp add: lent_def mem_ok_def)

lemma lent_start: "mem_ok m \<Longrightarrow> lent sp (m_regions m) {#} m"
  by (simp add: lent_def)

context device_contract
begin

lemma lent_free:
  assumes good and "lent sp rs (add_mset p M) m"
  shows "\<exists>m'. dev_deallocate dev p m = Inr m' \<and> lent sp rs M m'"
proof -
  let ?m' = "m\<lparr>m_regions := AList.delete p (m_regions m)\<rparr>"
  have ok: "mem_ok m" and live: "\<And>q. q \<in># add_mset p M \<Longrightarrow> count (add_mset p M) q = 1 \<and> (\<exists>k. map_of (m_regions m) q = Some (k, sp))"
    and rs: "filter (\<lambda>(q, _). q \<notin># add_mset p M) (m_regions m) = rs"
    using assms(2) by (auto simp: lent_def)
  obtain k where k: "map_of (m_regions m) p = Some (k, sp)" using live [of p] by auto
  have p: "p \<notin># M" using live [of p] by (simp add: not_in_iff)
  have old: "count M q = 1 \<and> (\<exists>k. map_of (m_regions ?m') q = Some (k, sp))" if "q \<in># M" for q
  proof -
    have "q \<noteq> p" using p that by auto
    with live [of q] that show ?thesis by (simp add: delete_conv')
  qed
  have "filter (\<lambda>(q, _). q \<notin># M) (AList.delete p (m_regions m)) = filter (\<lambda>(q, _). q \<notin># add_mset p M) (m_regions m)"
    by (auto simp: AList.delete_eq filter_filter intro!: filter_cong)
  with rs old mem_ok_delete [OF ok, of p] have "lent sp rs M ?m'" by (simp add: lent_def)
  with deallocate_ok [OF assms(1) ok k] show ?thesis by blast
qed

lemma lent_allocate:
  assumes good and "lent sp rs M m"
  shows "\<exists>p m'. dev_allocate dev n m = Inr (p, m') \<and> lent sp rs (if p = nullptr then M else add_mset p M) m'"
proof -
  have ok: "mem_ok m" and live: "\<And>q. q \<in># M \<Longrightarrow> count M q = 1 \<and> (\<exists>k. map_of (m_regions m) q = Some (k, sp))"
    and rs: "filter (\<lambda>(q, _). q \<notin># M) (m_regions m) = rs"
    using assms(2) by (auto simp: lent_def)
  from allocate_ok [OF assms(1) ok, of n] show ?thesis
  proof
    assume "\<exists>p m' v. dev_allocate dev n m = Inr (p, m') \<and> n \<noteq> 0 \<and> p \<noteq> nullptr \<and> mem_ok m' \<and>
         map_of (m_regions m) p = None \<and> m_regions m' = (p, unat n, sp) # m_regions m \<and>
         m' = put_bytes p v (m\<lparr>m_regions := (p, unat n, sp) # m_regions m\<rparr>) \<and> length v = unat n"
    then obtain p m' where a: "dev_allocate dev n m = Inr (p, m')" "p \<noteq> nullptr" "mem_ok m'"
      "map_of (m_regions m) p = None" "m_regions m' = (p, unat n, sp) # m_regions m" by blast
    have new: "p \<notin># M" using live [of p] a(4) by auto
    have "count (add_mset p M) q = 1 \<and> (\<exists>k. map_of (m_regions m') q = Some (k, sp))" if "q \<in># add_mset p M" for q
      using that new live [of q] a(4,5) by (auto simp: not_in_iff)
    moreover have "filter (\<lambda>(q, _). q \<notin># add_mset p M) (m_regions m') = rs"
    proof -
      have "p \<notin> fst ` set (m_regions m)" using a(4) by (simp add: map_of_eq_None_iff)
      then have "filter (\<lambda>(q, _). q \<notin># add_mset p M) (m_regions m) = filter (\<lambda>(q, _). q \<notin># M) (m_regions m)"
        by (intro filter_cong) force+
      then show ?thesis using rs a(5) by simp
    qed
    ultimately have "lent sp rs (add_mset p M) m'" using a(3) by (simp add: lent_def)
    with a show ?thesis by auto
  qed (use assms(2) in auto)
qed

lemma deallocate_handle:
  assumes good and "well_made dev h" and "lent sp rs (own_ptrs h + M) m"
  shows "\<exists>m'. bh_deallocate h m = Inr (h\<lparr>bh_data := nullptr, bh_owns := False\<rparr>, m') \<and> lent sp rs M m'"
proof (cases "owning h")
  case True
  then have "lent sp rs (add_mset (bh_data h) M) m" using assms(3) by (simp add: own_ptrs_eq)
  from lent_free [OF assms(1) this] True assms(2) show ?thesis
    by (auto simp: bh_deallocate_def owning_def well_made_def)
next
  case False
  with assms(3) show ?thesis
    by (auto simp: bh_deallocate_def owning_def own_ptrs_eq split: option.splits)
qed

lemma deallocate_one:
  assumes good and "owners_inv dev sp rs (hs, ps, m)" and "i < length hs"
  shows "\<exists>h m'. bh_deallocate (hs ! i) m = Inr (h, m') \<and> owners_inv dev sp rs (hs[i := h], ps, m') \<and>
    h = (hs ! i)\<lparr>bh_data := nullptr, bh_owns := False\<rparr>"
proof -
  let ?h = "(hs ! i)\<lparr>bh_data := nullptr, bh_owns := False\<rparr>"
  have W: "\<forall>h \<in> set hs. well_made dev h" "well_made dev (hs ! i)" using assms by (simp_all add: owners_inv_def)
  have "mset (owned hs) = own_ptrs (hs ! i) + mset (owned (hs[i := ?h]))"
    using mset_owned_update [OF assms(3), of ?h] by (simp add: add.commute)
  then have "lent sp rs (own_ptrs (hs ! i) + (mset (owned (hs[i := ?h])) + mset ps)) m"
    using assms(2) by (simp add: owners_inv_def add.assoc)
  from deallocate_handle [OF assms(1) W(2) this] show ?thesis
    using well_made_update [OF W(1), of ?h i] W(2) by (auto simp: owners_inv_def)
qed

lemma new_handle:
  assumes good and "owners_inv dev sp rs (hs, ps, m)"
  shows "\<exists>h m'. BufferHandle_new (Some dev) n m = Inr (h, m') \<and> owners_inv dev sp rs (hs @ [h], ps, m')"
proof -
  from lent_allocate [OF assms(1), of rs "mset (owned hs) + mset ps" m n] assms(2) obtain p m' where
    a: "dev_allocate dev n m = Inr (p, m')"
      "lent sp rs (if p = nullptr then mset (owned hs) + mset ps else add_mset p (mset (owned hs) + mset ps)) m'"
    by (auto simp: owners_inv_def)
  let ?h = "\<lparr>bh_data = p, bh_bytes = n, bh_device = dev_type dev, bh_device_ptr = Some dev,
      bh_dealloc = Some (dev_deallocate dev), bh_owns = True\<rparr>"
  have "own_ptrs ?h = (if p = nullptr then {#} else {#p#})" "well_made dev ?h"
    by (simp_all add: own_ptrs_eq owning_def well_made_def)
  with a assms(2) show ?thesis by (auto simp: owners_inv_def BufferHandle_new_def split: if_splits)
qed

lemma step_move_assign:
  assumes good and inv: "owners_inv dev sp rs (hs, ps, m)" and ij: "i < length hs" "j < length hs"
  shows "\<exists>s'. handle_step dev (Move_Assign i j) (hs, ps, m) = Inr s' \<and> owners_inv dev sp rs s'"
proof (cases "i = j")
  case False
  let ?h = "(hs ! i)\<lparr>bh_data := nullptr, bh_owns := False\<rparr>"
  obtain m' where d: "bh_deallocate (hs ! i) m = Inr (?h, m')" "owners_inv dev sp rs (hs[i := ?h], ps, m')"
    using deallocate_one [OF assms(1,2) ij(1)] by blast
  let ?mid = "hs[i := ?h]" and ?hs = "hs[i := hs ! j, j := bh_moved_from (hs ! j)]"
  have hs: "?hs = (?mid[i := hs ! j])[j := bh_moved_from (hs ! j)]" by simp
  have "mset (owned ?hs) = mset (owned ?mid)"
    using mset_owned_update [of i ?mid "hs ! j"] mset_owned_update [of j "?mid[i := hs ! j]" "bh_moved_from (hs ! j)"]
      ij False unfolding hs by simp
  moreover have "\<forall>x \<in> set ?hs. well_made dev x"
    using inv ij by (intro well_made_update) (simp_all add: owners_inv_def)
  ultimately have "owners_inv dev sp rs (?hs, ps, m')" using d(2) by (simp add: owners_inv_def)
  with d(1) ij False show ?thesis by (simp add: bh_move_assign_def)
qed (use assms in \<open>simp add: bh_move_assign_def\<close>)

lemma step_reset_to:
  assumes good and inv: "owners_inv dev sp rs (hs, ps, m)" and ik: "i < length hs" "k < length ps"
  shows "\<exists>s'. handle_step dev (Reset_To i k n give) (hs, ps, m) = Inr s' \<and> owners_inv dev sp rs s'"
proof -
  let ?h = "(hs ! i)\<lparr>bh_data := nullptr, bh_owns := False\<rparr>"
  obtain m' where d: "bh_deallocate (hs ! i) m = Inr (?h, m')" "owners_inv dev sp rs (hs[i := ?h], ps, m')"
    using deallocate_one [OF assms(1,2) ik(1)] by blast
  let ?r = "?h\<lparr>bh_data := ps ! k, bh_bytes := n, bh_device := dev_type dev, bh_dealloc := dealloc_arg dev give, bh_owns := True\<rparr>"
  let ?M = "mset (owned (hs[i := ?h]))"
  have lent: "lent sp rs (?M + mset ps) m'" using d(2) by (simp add: owners_inv_def)
  have "ps ! k \<in># ?M + mset ps" using ik(2) by simp
  then obtain l where "map_of (m_regions m') (ps ! k) = Some (l, sp)" "mem_ok m'" using lent by (auto simp: lent_def)
  then have pos: "ps ! k \<noteq> nullptr" by (auto simp: mem_ok_def)
  then have own: "own_ptrs ?r = (if give then {#ps ! k#} else {#})" by (simp add: own_ptrs_eq owning_def dealloc_arg_def)
  have "mset (owned (hs[i := ?r])) = ?M + own_ptrs ?r"
    using mset_owned_update [of i "hs[i := ?h]" ?r] ik(1) by simp
  moreover have "?M + mset ps = ?M + own_ptrs ?r + mset (hand_over k give ps)"
    using mset_hand_over [OF ik(2), of give] own by simp
  ultimately have "lent sp rs (mset (owned (hs[i := ?r])) + mset (hand_over k give ps)) m'"
    using lent by (simp add: add.assoc)
  moreover have "well_made dev ?r"
  proof -
    have "well_made dev (hs ! i)" using inv ik(1) by (simp add: owners_inv_def)
    then show ?thesis by (auto simp: well_made_def owning_def dealloc_arg_def)
  qed
  then have "\<forall>x \<in> set (hs[i := ?r]). well_made dev x"
    using inv by (intro well_made_update) (simp_all add: owners_inv_def)
  ultimately have "owners_inv dev sp rs (hs[i := ?r], hand_over k give ps, m')" by (simp add: owners_inv_def)
  with d(1) ik show ?thesis by (simp add: bh_reset_to_def)
qed

lemma step_adopt:
  assumes "owners_inv dev sp rs (hs, ps, m)" and k: "k < length ps"
  shows "\<exists>s'. handle_step dev (Adopt k n give) (hs, ps, m) = Inr s' \<and> owners_inv dev sp rs s'"
proof -
  let ?r = "BufferHandle_external (ps ! k) n (dev_type dev) (dealloc_arg dev give)" and ?M = "mset (owned hs)"
  have lent: "lent sp rs (?M + mset ps) m" using assms(1) by (simp add: owners_inv_def)
  have "ps ! k \<in># ?M + mset ps" using k by simp
  then obtain l where "map_of (m_regions m) (ps ! k) = Some (l, sp)" "mem_ok m" using lent by (auto simp: lent_def)
  then have pos: "ps ! k \<noteq> nullptr" by (auto simp: mem_ok_def)
  then have own: "own_ptrs ?r = (if give then {#ps ! k#} else {#})"
    by (simp add: own_ptrs_eq owning_def dealloc_arg_def BufferHandle_external_def)
  have "?M + mset ps = ?M + own_ptrs ?r + mset (hand_over k give ps)" using mset_hand_over [OF k, of give] own by simp
  moreover have "well_made dev ?r" by (auto simp: well_made_def owning_def dealloc_arg_def BufferHandle_external_def)
  ultimately have "owners_inv dev sp rs (hs @ [?r], hand_over k give ps, m)"
    using assms(1) lent by (simp add: owners_inv_def add.assoc)
  with k show ?thesis by simp
qed

lemma step_clone:
  assumes good and inv: "owners_inv dev sp rs (hs, ps, m)" and i: "i < length hs" and run: "bh_clone (hs ! i) m = Inr (r, m')"
  shows "owners_inv dev sp rs (hs @ [r], ps, m')"
proof -
  let ?h = "hs ! i"
  have "well_made dev ?h" using inv i by (simp add: owners_inv_def)
  moreover have "bh_device_ptr ?h \<noteq> None" using run by (cases "bh_device_ptr ?h") (simp_all add: bh_clone_def BufferHandle_new_def deref_def)
  ultimately have ptr: "bh_device_ptr ?h = Some dev" by (auto simp: well_made_def)
  obtain r1 m1 where r: "BufferHandle_new (Some dev) (bh_bytes ?h) m = Inr (r1, m1)" "owners_inv dev sp rs (hs @ [r1], ps, m1)"
    using new_handle [OF assms(1,2), of "bh_bytes ?h"] by blast
  show ?thesis
  proof (cases "bh_data ?h \<noteq> nullptr")
    case True
    have "bh_clone ?h m = rbind (dev_copy_to_device dev (bh_data r1) (bh_data ?h) (bh_bytes ?h) m1) (\<lambda>m2. Inr (r1, m2))"
      using True r(1) ptr by (simp add: bh_clone_def)
    with run have "dev_copy_to_device dev (bh_data r1) (bh_data ?h) (bh_bytes ?h) m1 = Inr m'" "r = r1"
      by (auto simp: rbind_eq_Inr)
    with r(2) lent_regions [OF copy_in_regions [OF assms(1)]] show ?thesis by (simp add: owners_inv_def)
  next
    case False
    have "bh_clone ?h m = Inr (r1, m1)" using False r(1) ptr by (simp add: bh_clone_def)
    with run r(2) show ?thesis by simp
  qed
qed

lemma step_owners:
  assumes good and inv: "owners_inv dev sp rs (hs, ps, m)"
  shows "(\<exists>i e. op = Clone i \<and> i < length hs \<and> bh_clone (hs ! i) m = Inl e \<and> handle_step dev op (hs, ps, m) = Inl e) \<or>
    (\<exists>s'. handle_step dev op (hs, ps, m) = Inr s' \<and> owners_inv dev sp rs s')"
proof (cases op)
  case (Make n)
  with new_handle [OF assms, of n] show ?thesis by auto
next
  case Make_Empty
  with inv show ?thesis by (simp add: owners_inv_def)
next
  case (Move_New i)
  show ?thesis
  proof (cases "i < length hs")
    case True
    let ?hs = "hs[i := bh_moved_from (hs ! i)] @ [hs ! i]"
    have "mset (owned ?hs) = mset (owned hs)"
      using mset_owned_update [OF True, of "bh_moved_from (hs ! i)"] by simp
    moreover have "\<forall>x \<in> set ?hs. well_made dev x"
      using inv True well_made_update [of hs dev "bh_moved_from (hs ! i)" i] by (simp add: owners_inv_def)
    ultimately have "owners_inv dev sp rs (?hs, ps, m)" using inv by (simp add: owners_inv_def)
    with True Move_New show ?thesis by (simp add: bh_move_def)
  qed (use inv Move_New in simp)
next
  case (Move_Assign i j)
  with step_move_assign [OF assms, of i j] inv show ?thesis by (cases "i < length hs \<and> j < length hs") auto
next
  case (Reset i)
  with deallocate_one [OF assms, of i] inv show ?thesis by (cases "i < length hs") (auto simp: bh_reset_def)
next
  case (Clone i)
  with step_clone [OF assms, of i] inv show ?thesis
    by (cases "i < length hs"; cases "bh_clone (hs ! i) m") auto
next
  case (Detach i)
  show ?thesis
  proof (cases "i < length hs")
    case True
    let ?h = "(hs ! i)\<lparr>bh_owns := False\<rparr>"
    have "mset (owned hs) = mset (owned (hs[i := ?h])) + own_ptrs (hs ! i)" using mset_owned_update [OF True, of ?h] by simp
    moreover have "\<forall>x \<in> set (hs[i := ?h]). well_made dev x"
      using inv True by (intro well_made_update) (simp_all add: owners_inv_def)
    ultimately have "owners_inv dev sp rs (hs[i := ?h], if owning (hs ! i) then ps @ [bh_data (hs ! i)] else ps, m)"
      using inv by (cases "owning (hs ! i)") (simp_all add: owners_inv_def own_ptrs_eq)
    with True Detach show ?thesis by (simp add: bh_detach_def)
  qed (use inv Detach in simp)
next
  case (Alloc n)
  from lent_allocate [OF assms(1), of rs "mset (owned hs) + mset ps" m n] inv obtain p m' where
    "dev_allocate dev n m = Inr (p, m')"
      "lent sp rs (if p = nullptr then mset (owned hs) + mset ps else add_mset p (mset (owned hs) + mset ps)) m'"
    by (auto simp: owners_inv_def)
  with inv Alloc show ?thesis by (auto simp: owners_inv_def split: if_splits)
next
  case (Adopt k n give)
  with step_adopt [OF inv, of k n give] inv show ?thesis by (cases "k < length ps") auto
next
  case (Reset_To i k n give)
  with step_reset_to [OF assms, of i k n give] inv show ?thesis by (cases "i < length hs \<and> k < length ps") auto
next
  case (Free k)
  show ?thesis
  proof (cases "k < length ps")
    case True
    have "lent sp rs (add_mset (ps ! k) (mset (owned hs) + mset (hand_over k True ps))) m"
      using inv mset_hand_over [OF True, of True] by (simp add: owners_inv_def)
    from lent_free [OF assms(1) this] inv True Free show ?thesis by (auto simp: owners_inv_def)
  qed (use inv Free in simp)
qed

text \<open>A run either ends well or reaches a clone that faults, and nothing else faults.\<close>

lemma run_owners:
  assumes good and "owners_inv dev sp rs (hs, ps, m)"
  shows "(\<exists>before i after hs' ps' m' e. ops = before @ Clone i # after \<and>
      handle_run dev before (hs, ps, m) = Inr (hs', ps', m') \<and> owners_inv dev sp rs (hs', ps', m') \<and>
      i < length hs' \<and> bh_clone (hs' ! i) m' = Inl e \<and> handle_run dev ops (hs, ps, m) = Inl e) \<or>
    (\<exists>s'. handle_run dev ops (hs, ps, m) = Inr s' \<and> owners_inv dev sp rs s')"
  using assms(2)
proof (induction ops arbitrary: hs ps m)
  case (Cons op ops)
  from step_owners [OF assms(1) Cons.prems, of op] show ?case
  proof
    assume "\<exists>i e. op = Clone i \<and> i < length hs \<and> bh_clone (hs ! i) m = Inl e \<and> handle_step dev op (hs, ps, m) = Inl e"
    then obtain i e where "op = Clone i" "i < length hs" "bh_clone (hs ! i) m = Inl e" by blast
    with Cons.prems show ?thesis
      by (intro disjI1 exI [of _ "[]"] exI [of _ i] exI [of _ ops] exI [of _ hs] exI [of _ ps] exI [of _ m] exI [of _ e]) simp
  next
    assume "\<exists>s'. handle_step dev op (hs, ps, m) = Inr s' \<and> owners_inv dev sp rs s'"
    then obtain hs1 ps1 m1 where step: "handle_step dev op (hs, ps, m) = Inr (hs1, ps1, m1)" "owners_inv dev sp rs (hs1, ps1, m1)"
      by (metis prod_cases3)
    from Cons.IH [OF step(2)] show ?thesis
    proof
      assume "\<exists>before i after hs' ps' m' e. ops = before @ Clone i # after \<and>
        handle_run dev before (hs1, ps1, m1) = Inr (hs', ps', m') \<and> owners_inv dev sp rs (hs', ps', m') \<and>
        i < length hs' \<and> bh_clone (hs' ! i) m' = Inl e \<and> handle_run dev ops (hs1, ps1, m1) = Inl e"
      then obtain before i after hs' ps' m' e where "ops = before @ Clone i # after"
        "handle_run dev before (hs1, ps1, m1) = Inr (hs', ps', m')" "owners_inv dev sp rs (hs', ps', m')"
        "i < length hs'" "bh_clone (hs' ! i) m' = Inl e" "handle_run dev ops (hs1, ps1, m1) = Inl e" by blast
      with step(1) show ?thesis
        by (intro disjI1 exI [of _ "op # before"] exI [of _ i] exI [of _ after] exI [of _ hs'] exI [of _ ps'] exI [of _ m']
            exI [of _ e]) simp
    qed (use step in simp)
  qed
qed simp

lemma destroy_all_owners:
  assumes good and "\<forall>h \<in> set hs. well_made dev h" and "lent sp rs (mset (owned hs) + M) m"
  shows "\<exists>m'. destroy_all hs m = Inr m' \<and> lent sp rs M m'"
  using assms(2,3)
proof (induction hs arbitrary: m)
  case Nil
  then show ?case by (simp add: destroy_all_def)
next
  case (Cons h hs)
  have "lent sp rs (own_ptrs h + (mset (owned hs) + M)) m" using Cons.prems(2) by (simp add: add.assoc)
  then obtain m' where d: "bh_deallocate h m = Inr (h\<lparr>bh_data := nullptr, bh_owns := False\<rparr>, m')"
    "lent sp rs (mset (owned hs) + M) m'" using deallocate_handle [OF assms(1)] Cons.prems(1) by fastforce
  with Cons show ?case by (simp add: destroy_all_def bh_destroy_def)
qed

end

section \<open>When a clone faults\<close>

text \<open>
  Exactly when the handle has no device, or has data to copy and either the device has no block to
  copy them to or they are not (any more) what the handle says they are.
\<close>

definition clone_hazard :: "memalign_oracle \<Rightarrow> BufferHandle \<Rightarrow> mem \<Rightarrow> bool" where
  "clone_hazard new h m \<longleftrightarrow> bh_device_ptr h = None \<or>
     bh_data h \<noteq> nullptr \<and> bh_bytes h \<noteq> 0 \<and>
       (posix_memalign new kDefaultAlignment (bh_bytes h) m = None \<or> \<not> within Host (bh_data h) (unat (bh_bytes h)) m)"

lemma clone_faults_iff:
  assumes "memalign_ok new" and "mem_ok m" and "well_made (CPUDevice new) h"
  shows "(\<exists>e. bh_clone h m = Inl e) \<longleftrightarrow> clone_hazard new h m"
proof (cases "bh_device_ptr h")
  case None
  then show ?thesis by (simp add: bh_clone_def BufferHandle_new_def deref_def clone_hazard_def)
next
  case (Some d)
  let ?n = "bh_bytes h" and ?q = "bh_data h"
  have d: "d = CPUDevice new" using assms(3) Some by (simp add: well_made_def)
  have al: "dev_allocate d = CPUDevice_allocate new" "dev_copy_to_device d = CPUDevice_copy_to_device"
    by (simp_all add: d CPUDevice_def)
  show ?thesis
  proof (cases "?n = 0 \<or> posix_memalign new kDefaultAlignment ?n m = None")
    case True
    then have none: "CPUDevice_allocate new ?n m = Inr (nullptr, m)" by (auto simp: CPUDevice_allocate_def)
    have "\<not> within Host nullptr (unat ?n) m"
    proof
      assume "within Host nullptr (unat ?n) m"
      then obtain a k where "map_of (m_regions m) a = Some (k, Host)" "a \<le> nullptr"
        using assms(2) by (auto simp: within_region mem_ok_def)
      moreover have "0 < a" using assms(2) calculation(1) unfolding mem_ok_def by blast
      ultimately show False by simp
    qed
    then have "(\<exists>e. memcpy nullptr ?q ?n m = Inl e) \<longleftrightarrow> ?n \<noteq> 0"
      by (auto simp: memcpy_def mcopy_def mload_def mstore_def unat_eq_0)
    with True Some none al show ?thesis
      by (auto simp: bh_clone_def BufferHandle_new_def deref_def clone_hazard_def CPUDevice_copy_to_device_def
          rbind_eq_Inl)
  next
    case False
    then obtain p m1 where pm: "posix_memalign new kDefaultAlignment ?n m = Some (p, m1)" by auto
    then have nr: "new_region (new kDefaultAlignment) Host (unat ?n) m = Some (p, m1)"
      by (simp add: posix_memalign_def split: if_splits)
    have "fresh_new (new kDefaultAlignment)" using assms(1) by (simp add: memalign_ok_def)
    note R = new_region_ok [OF assms(2) this nr]
    let ?m' = "put_bytes p (replicate (unat ?n) 0) m1"
    have alloc: "CPUDevice_allocate new ?n m = Inr (p, ?m')"
      using False pm memset_mem_ok [OF R(5), of 0] by (simp add: CPUDevice_allocate_def)
    have n: "0 < unat ?n" using False by (simp add: unat_gt_0)
    have new: "within Host ?q (unat ?n) m1 \<longleftrightarrow> within Host ?q (unat ?n) m \<or> ?q = p"
      using n R(2) by (auto simp: within_def)
    have apart: "p + unat ?n \<le> ?q \<or> ?q + unat ?n \<le> p" if "within Host ?q (unat ?n) m"
    proof -
      from that assms(2) obtain a k where "map_of (m_regions m) a = Some (k, Host)" "a \<le> ?q" "?q + unat ?n \<le> a + k"
        by (auto simp: within_region mem_ok_def)
      with R(6) [of a k Host] show ?thesis by linarith
    qed
    have "(\<exists>e. memcpy p ?q ?n ?m' = Inl e) \<longleftrightarrow> \<not> within Host ?q (unat ?n) m"
      using n new apart R(5) by (auto simp: memcpy_def mcopy_def mload_def mstore_def unat_eq_0)
    with False pm Some alloc al show ?thesis
      by (auto simp: bh_clone_def BufferHandle_new_def deref_def clone_hazard_def CPUDevice_copy_to_device_def
          rbind_eq_Inl)
  qed
qed

section \<open>Properties\<close>



text \<open>\<open>clone\<close> of a handle of external data follows a null device pointer.\<close>

lemma clone_external_faults: "bh_clone (BufferHandle_external p n dt f) m = Inl Null_Deref"
  by (simp add: bh_clone_def BufferHandle_external_def BufferHandle_new_def deref_def)

end
