(* ===== verification/Device_Manager.thy ===== *)
theory Device_Manager
  imports Devices
begin

text \<open>
  \<open>device/device.cpp\<close>: the registry of devices with its default device and its callbacks. A
  \<open>std::shared_ptr<Device>\<close> is an object number with the object: two pointers are equal when the
  numbers are. What the callbacks are called with is a log; a callback that calls the manager again
  is not modelled.
\<close>

section \<open>State\<close>

type_synonym DeviceId = "32 word"

datatype DeviceEvent = kDeviceAdded | kDeviceRemoved | kDeviceError

record DevicePtr =
  dp_ref :: nat
  dp_dev :: Device

type_synonym DeviceCallback = nat

record DeviceManager =
  dm_next_device_id :: DeviceId
  dm_next_callback_id :: DeviceId
  dm_cpu_device :: DevicePtr
  dm_default_device :: "DevicePtr option"
  dm_default_type :: DeviceType
  dm_default_id :: int
  dm_devices :: "(DeviceId, DevicePtr option) umap"
  dm_callbacks :: "DeviceCallback list"
  dm_next_ref :: nat
  dm_log :: "(DeviceCallback \<times> DeviceEvent \<times> DevicePtr option) list"

definition same_device :: "DevicePtr option \<Rightarrow> DevicePtr option \<Rightarrow> bool" where
  "same_device a b = (map_option dp_ref a = map_option dp_ref b)"

definition DeviceManager_new :: "Device \<Rightarrow> DeviceManager" where
  "DeviceManager_new cpu = (let c = \<lparr>dp_ref = 0, dp_dev = cpu\<rparr> in
     \<lparr>dm_next_device_id = 2, dm_next_callback_id = 1, dm_cpu_device = c, dm_default_device = Some c,
      dm_default_type = kCPU, dm_default_id = 0, dm_devices = [(1, Some c)], dm_callbacks = [],
      dm_next_ref = 1, dm_log = []\<rparr>)"

section \<open>Operations\<close>

fun find_in :: "DeviceType \<Rightarrow> int \<Rightarrow> (DeviceId, DevicePtr option) umap \<Rightarrow> DevicePtr option" where
  "find_in t i [] = None"
| "find_in t i ((_, Some d) # rest) =
     (if dev_type (dp_dev d) = t \<and> dev_id (dp_dev d) = i then Some d else find_in t i rest)"
| "find_in t i ((_, None) # rest) = find_in t i rest"

definition find_device :: "DeviceType \<Rightarrow> int \<Rightarrow> DeviceManager \<Rightarrow> DevicePtr option" where
  "find_device t i dm = find_in t i (dm_devices dm)"

definition NotifyDeviceEvent :: "DeviceEvent \<Rightarrow> DevicePtr option \<Rightarrow> DeviceManager \<Rightarrow> DeviceManager" where
  "NotifyDeviceEvent ev d dm = dm\<lparr>dm_log := dm_log dm @ map (\<lambda>cb. (cb, ev, d)) (dm_callbacks dm)\<rparr>"

definition RegisterDevice :: "DevicePtr option \<Rightarrow> DeviceManager \<Rightarrow> DeviceId \<times> DeviceManager" where
  "RegisterDevice device dm =
     (case device of
        None \<Rightarrow> (0, dm)
      | Some d \<Rightarrow>
         let i = dm_next_device_id dm;
             dm1 = dm\<lparr>dm_next_device_id := i + 1, dm_devices := AList.update i (Some d) (dm_devices dm)\<rparr>
         in (i, NotifyDeviceEvent kDeviceAdded (Some d) dm1))"

definition UnregisterDevice :: "DeviceId \<Rightarrow> DeviceManager \<Rightarrow> bool \<times> DeviceManager" where
  "UnregisterDevice i dm =
     (case map_of (dm_devices dm) i of
        None \<Rightarrow> (False, dm)
      | Some device \<Rightarrow>
         if same_device device (Some (dm_cpu_device dm)) then (False, dm)
         else
           let dm1 = NotifyDeviceEvent kDeviceRemoved device (dm\<lparr>dm_devices := AList.delete i (dm_devices dm)\<rparr>);
               dm2 = (if same_device (dm_default_device dm1) device
                      then dm1\<lparr>dm_default_device := Some (dm_cpu_device dm1), dm_default_type := kCPU, dm_default_id := 0\<rparr>
                      else dm1)
           in (True, dm2))"

definition GetDevice :: "DeviceId \<Rightarrow> DeviceManager \<Rightarrow> DevicePtr option" where
  "GetDevice i dm = (case map_of (dm_devices dm) i of Some d \<Rightarrow> d | None \<Rightarrow> None)"

definition all_devices :: "DeviceManager \<Rightarrow> DevicePtr option list" where
  "all_devices dm = map snd (dm_devices dm)"

definition num_devices :: "DeviceType \<Rightarrow> DeviceManager \<Rightarrow> size_t comp" where
  "num_devices t dm =
     for_each (\<lambda>(_, device) n. rbind (deref device) (\<lambda>d. Inr (if dev_type (dp_dev d) = t then n + 1 else n)))
       (dm_devices dm) 0"

definition AddCallback :: "DeviceCallback \<Rightarrow> DeviceManager \<Rightarrow> DeviceId \<times> DeviceManager" where
  "AddCallback cb dm = (let i = dm_next_callback_id dm in
     (i, dm\<lparr>dm_next_callback_id := i + 1, dm_callbacks := dm_callbacks dm @ [cb]\<rparr>))"

text \<open>\<open>erase\<close> of an iterator past the last element is undefined.\<close>

definition RemoveCallback :: "DeviceId \<Rightarrow> DeviceManager \<Rightarrow> (bool \<times> DeviceManager) comp" where
  "RemoveCallback i dm =
     (if 0 < i \<and> i < dm_next_callback_id dm
      then let k = unat (i - 1) in
        if k < length (dm_callbacks dm)
        then Inr (True, dm\<lparr>dm_callbacks := take k (dm_callbacks dm) @ drop (Suc k) (dm_callbacks dm)\<rparr>)
        else Inl Out_Of_Bounds
      else Inr (False, dm))"

text \<open>Scanning stops at the first CUDA device that cannot be created, and after 64.\<close>

fun scan_loop :: "cuda_api \<Rightarrow> int list \<Rightarrow> DeviceManager \<Rightarrow> DeviceManager" where
  "scan_loop api [] dm = dm"
| "scan_loop api (i # is) dm =
     (case CudaDevice_Create api i of
        None \<Rightarrow> dm
      | Some d \<Rightarrow> scan_loop api is (snd (RegisterDevice (Some \<lparr>dp_ref = dm_next_ref dm, dp_dev = d\<rparr>)
                                       (dm\<lparr>dm_next_ref := Suc (dm_next_ref dm)\<rparr>))))"

definition ScanDevices :: "cuda_api \<Rightarrow> DeviceManager \<Rightarrow> DeviceManager comp" where
  "ScanDevices api dm =
     rbind (num_devices kCUDA dm) (\<lambda>n. Inr (if n = 0 then scan_loop api [0..63] dm else dm))"

definition get_device :: "cuda_api \<Rightarrow> DeviceType \<Rightarrow> int \<Rightarrow> DeviceManager \<Rightarrow> (DevicePtr option \<times> DeviceManager) comp" where
  "get_device api t i dm =
     (if t = kCPU then Inr (Some (dm_cpu_device dm), dm)
      else case find_device t i dm of
        Some d \<Rightarrow> Inr (Some d, dm)
      | None \<Rightarrow> rbind (ScanDevices api dm) (\<lambda>dm'. Inr (find_device t i dm', dm')))"

definition get_default_device :: "DeviceManager \<Rightarrow> DevicePtr option" where
  "get_default_device dm = dm_default_device dm"

definition set_default_device :: "cuda_api \<Rightarrow> DeviceType \<Rightarrow> int \<Rightarrow> DeviceManager \<Rightarrow> DeviceManager comp" where
  "set_default_device api t i dm =
     rbind (get_device api t i (dm\<lparr>dm_default_type := t, dm_default_id := i\<rparr>))
       (\<lambda>(d, dm'). Inr (dm'\<lparr>dm_default_device := d\<rparr>))"

definition GetCPUDevice :: "cuda_api \<Rightarrow> DeviceManager \<Rightarrow> (DevicePtr option \<times> DeviceManager) comp" where
  "GetCPUDevice api dm = get_device api kCPU 0 dm"

section \<open>Programs over the registry\<close>

datatype registry_op =
    Register "DevicePtr option"
  | Unregister DeviceId
  | Scan
  | Get_Device DeviceType int
  | Set_Default DeviceType int
  | Add_Callback DeviceCallback
  | Remove_Callback DeviceId

fun registry_step :: "cuda_api \<Rightarrow> registry_op \<Rightarrow> DeviceManager \<Rightarrow> DeviceManager comp" where
  "registry_step api (Register d) dm = Inr (snd (RegisterDevice d dm))"
| "registry_step api (Unregister i) dm = Inr (snd (UnregisterDevice i dm))"
| "registry_step api Scan dm = ScanDevices api dm"
| "registry_step api (Get_Device t i) dm = rbind (get_device api t i dm) (\<lambda>(_, dm'). Inr dm')"
| "registry_step api (Set_Default t i) dm = set_default_device api t i dm"
| "registry_step api (Add_Callback cb) dm = Inr (snd (AddCallback cb dm))"
| "registry_step api (Remove_Callback i) dm = rbind (RemoveCallback i dm) (\<lambda>(_, dm'). Inr dm')"

definition registry_run :: "cuda_api \<Rightarrow> registry_op list \<Rightarrow> DeviceManager \<Rightarrow> DeviceManager comp" where
  "registry_run api = for_each (registry_step api)"

section \<open>The invariant of the registry\<close>

text \<open>
  \<open>n\<close> bounds the identifiers given out: below \<open>2 ^ 32\<close> the counter has not wrapped, so they are all
  distinct and positive.
\<close>

definition registry_inv :: "nat \<Rightarrow> Device \<Rightarrow> DeviceManager \<Rightarrow> bool" where
  "registry_inv n cpu dm \<longleftrightarrow> umap_ok (dm_devices dm) \<and> unat (dm_next_device_id dm) \<le> n \<and>
     (\<forall>(k, v) \<in> set (dm_devices dm). v \<noteq> None \<and> 0 < k \<and> k < dm_next_device_id dm) \<and>
     dm_cpu_device dm = \<lparr>dp_ref = 0, dp_dev = cpu\<rparr> \<and>
     map_of (dm_devices dm) 1 = Some (Some (dm_cpu_device dm)) \<and>
     (dm_default_device dm = None \<or> dm_default_device dm \<in> snd ` set (dm_devices dm))"

lemma registry_inv_mono: "registry_inv n cpu dm \<Longrightarrow> n \<le> m \<Longrightarrow> registry_inv m cpu dm"
  by (simp add: registry_inv_def)

lemma registry_inv_cong:
  "registry_inv n cpu (dm\<lparr>dm_default_type := t, dm_default_id := i\<rparr>) = registry_inv n cpu dm"
  "registry_inv n cpu (dm\<lparr>dm_next_ref := r\<rparr>) = registry_inv n cpu dm"
  "registry_inv n cpu (dm\<lparr>dm_callbacks := cbs\<rparr>) = registry_inv n cpu dm"
  "registry_inv n cpu (dm\<lparr>dm_next_callback_id := c\<rparr>) = registry_inv n cpu dm"
  "registry_inv n cpu (NotifyDeviceEvent ev d dm) = registry_inv n cpu dm"
  by (simp_all add: registry_inv_def NotifyDeviceEvent_def)

lemma update_fresh: "k \<notin> fst ` set m \<Longrightarrow> AList.update k v m = m @ [(k, v)]"
  by (induction m) auto

lemma find_in_registered: "find_in t i ds = Some d \<Longrightarrow> Some d \<in> snd ` set ds"
  by (induction t i ds rule: find_in.induct) (auto split: if_splits)

lemma new_registry: "registry_inv 2 cpu (DeviceManager_new cpu)"
  by (simp add: registry_inv_def DeviceManager_new_def Let_def)

lemma next_id_Suc:
  assumes "unat (i :: DeviceId) \<le> n" and "n + 1 < 2 ^ 32"
  shows "unat (i + 1) = Suc (unat i)"
  using assms by (simp add: unat_word_ariths)

text \<open>A new entry: the identifier was not in use and the old entries are kept.\<close>

lemma RegisterDevice_ok:
  assumes inv: "registry_inv n cpu dm" and "n + 1 < 2 ^ 32" and reg: "RegisterDevice (Some d) dm = (i, dm')"
  shows "registry_inv (n + 1) cpu dm'" and "0 < i" and "map_of (dm_devices dm) i = None"
    and "map_of (dm_devices dm') = (map_of (dm_devices dm))(i \<mapsto> Some d)"
proof -
  let ?i = "dm_next_device_id dm"
  let ?dm = "dm\<lparr>dm_next_device_id := ?i + 1, dm_devices := AList.update ?i (Some d) (dm_devices dm)\<rparr>"
  have I: "umap_ok (dm_devices dm)" "unat ?i \<le> n" "\<forall>(k, v) \<in> set (dm_devices dm). v \<noteq> None \<and> 0 < k \<and> k < ?i"
    "map_of (dm_devices dm) 1 = Some (Some (dm_cpu_device dm))"
    "dm_default_device dm = None \<or> dm_default_device dm \<in> snd ` set (dm_devices dm)"
    "dm_cpu_device dm = \<lparr>dp_ref = 0, dp_dev = cpu\<rparr>"
    using inv unfolding registry_inv_def by - (elim conjE, assumption)+
  have r: "i = ?i" "dm' = NotifyDeviceEvent kDeviceAdded (Some d) ?dm"
    using reg by (auto simp: RegisterDevice_def Let_def)
  have suc: "unat (?i + 1) = Suc (unat ?i)" using next_id_Suc [OF I(2) assms(2)] .
  then have less: "?i < ?i + 1" by (simp add: word_less_nat_alt)
  have none: "map_of (dm_devices dm) ?i = None"
  proof (rule ccontr)
    assume "map_of (dm_devices dm) ?i \<noteq> None"
    then obtain v where "map_of (dm_devices dm) ?i = Some v" by blast
    then show False using I(3) map_of_SomeD by fastforce
  qed
  then have upd: "AList.update ?i (Some d) (dm_devices dm) = dm_devices dm @ [(?i, Some d)]"
    by (simp add: map_of_eq_None_iff update_fresh)
  show "map_of (dm_devices dm) i = None" using none r by simp
  have "(1 :: DeviceId) < ?i" using bspec [OF I(3) map_of_SomeD [OF I(4)]] by simp
  then show "0 < i" using r(1) by (simp add: word_less_nat_alt)
  show "map_of (dm_devices dm') = (map_of (dm_devices dm))(i \<mapsto> Some d)"
    by (simp add: r NotifyDeviceEvent_def update_conv')
  have "registry_inv (n + 1) cpu ?dm"
    unfolding registry_inv_def using I suc less none by (auto simp: upd map_add_def)
  then show "registry_inv (n + 1) cpu dm'" by (simp add: r registry_inv_cong)
qed

lemma num_devices_total:
  assumes "\<forall>(k, v) \<in> set ds. v \<noteq> None"
  shows "\<exists>c. for_each (\<lambda>(_, device) n. rbind (deref device) (\<lambda>d. Inr (if dev_type (dp_dev d) = t then n + 1 else n)))
    ds k = Inr (c :: size_t)"
  using assms by (induction ds arbitrary: k) auto

lemma scan_loop_inv:
  assumes "registry_inv n cpu dm" and "n + length is < 2 ^ 32"
  shows "registry_inv (n + length is) cpu (scan_loop api is dm)"
  using assms
proof (induction "is" arbitrary: n dm)
  case (Cons i "is")
  show ?case
  proof (cases "CudaDevice_Create api i")
    case None
    with registry_inv_mono [OF Cons.prems(1)] show ?thesis by simp
  next
    case (Some d)
    let ?dm = "dm\<lparr>dm_next_ref := Suc (dm_next_ref dm)\<rparr>"
    let ?r = "RegisterDevice (Some \<lparr>dp_ref = dm_next_ref dm, dp_dev = d\<rparr>) ?dm"
    have "registry_inv n cpu ?dm" using Cons.prems(1) by (simp add: registry_inv_cong)
    then have "registry_inv (n + 1) cpu (snd ?r)"
      by (rule RegisterDevice_ok(1) [where i = "fst ?r"]) (use Cons.prems(2) in simp_all)
    with Cons.IH [OF this] Cons.prems(2) Some show ?thesis by simp
  qed
qed simp

lemma ScanDevices_inv:
  assumes "registry_inv n cpu dm" and "n + 64 < 2 ^ 32"
  shows "\<exists>dm'. ScanDevices api dm = Inr dm' \<and> registry_inv (n + 64) cpu dm'"
proof -
  have "\<forall>(k, v) \<in> set (dm_devices dm). v \<noteq> None" using assms(1) unfolding registry_inv_def by blast
  from num_devices_total [OF this] obtain c where c: "num_devices kCUDA dm = Inr c" unfolding num_devices_def by blast
  have "length [0..63::int] = 64" by simp
  with scan_loop_inv [OF assms(1), of "[0..63]" api] assms(2)
  have "registry_inv (n + 64) cpu (scan_loop api [0..63] dm)" by simp
  with c registry_inv_mono [OF assms(1), of "n + 64"] show ?thesis by (simp add: ScanDevices_def)
qed

text \<open>What \<open>get_device\<close> returns is null or registered.\<close>

lemma get_device_inv:
  assumes inv: "registry_inv n cpu dm" and "n + 64 < 2 ^ 32"
  shows "\<exists>d dm'. get_device api t i dm = Inr (d, dm') \<and> registry_inv (n + 64) cpu dm' \<and>
    (d = None \<or> d \<in> snd ` set (dm_devices dm'))"
proof (cases "t = kCPU \<or> find_device t i dm \<noteq> None")
  case True
  have "Some (dm_cpu_device dm) \<in> snd ` set (dm_devices dm)"
    using inv unfolding registry_inv_def by (metis image_eqI map_of_SomeD snd_conv)
  moreover have "find_device t i dm = Some d \<Longrightarrow> Some d \<in> snd ` set (dm_devices dm)" for d
    unfolding find_device_def by (rule find_in_registered)
  moreover have "registry_inv (n + 64) cpu dm" using registry_inv_mono [OF inv] by simp
  ultimately show ?thesis using True by (cases "t = kCPU") (auto simp: get_device_def)
next
  case False
  obtain dm' where s: "ScanDevices api dm = Inr dm'" "registry_inv (n + 64) cpu dm'"
    using ScanDevices_inv [OF assms] by blast
  have "find_device t i dm' = None \<or> find_device t i dm' \<in> snd ` set (dm_devices dm')"
    using find_in_registered unfolding find_device_def by (metis not_None_eq)
  with False s show ?thesis by (simp add: get_device_def)
qed

lemma set_default_inv:
  "registry_inv n cpu dm \<Longrightarrow> d = None \<or> d \<in> snd ` set (dm_devices dm) \<Longrightarrow>
   registry_inv n cpu (dm\<lparr>dm_default_device := d\<rparr>)"
  by (simp add: registry_inv_def)

lemma UnregisterDevice_inv:
  assumes inv: "registry_inv n cpu dm"
  shows "registry_inv n cpu (snd (UnregisterDevice i dm))"
proof (cases "map_of (dm_devices dm) i")
  case None
  with inv show ?thesis by (simp add: UnregisterDevice_def)
next
  case (Some device)
  show ?thesis
  proof (cases "same_device device (Some (dm_cpu_device dm))")
    case True
    with inv Some show ?thesis by (simp add: UnregisterDevice_def)
  next
    case False
    let ?ds = "AList.delete i (dm_devices dm)"
    have I: "umap_ok (dm_devices dm)" "\<forall>(k, v) \<in> set (dm_devices dm). v \<noteq> None \<and> 0 < k \<and> k < dm_next_device_id dm"
      "map_of (dm_devices dm) 1 = Some (Some (dm_cpu_device dm))"
      "dm_default_device dm = None \<or> dm_default_device dm \<in> snd ` set (dm_devices dm)"
      using inv unfolding registry_inv_def by - (elim conjE, assumption)+
    have "i \<noteq> 1" using I(3) Some False by (auto simp: same_device_def)
    then have one: "map_of ?ds 1 = Some (Some (dm_cpu_device dm))" using I(3) by (simp add: delete_conv')
    have sub: "set ?ds \<subseteq> set (dm_devices dm)" by (auto simp: AList.delete_eq)
    have default: "dm_default_device dm = None \<or> dm_default_device dm \<in> snd ` set ?ds"
      if "\<not> same_device (dm_default_device dm) device"
    proof (rule ccontr)
      assume "\<not> ?thesis"
      then obtain k where k: "(k, dm_default_device dm) \<in> set (dm_devices dm)" "(k, dm_default_device dm) \<notin> set ?ds"
        using I(4) by (force simp: image_iff)
      then have "k = i" by (auto simp: AList.delete_eq)
      with k(1) Some I(1) have "dm_default_device dm = device" by (simp add: map_of_eq_Some_iff)
      with that show False by (simp add: same_device_def)
    qed
    have cpu: "Some (dm_cpu_device dm) \<in> snd ` set ?ds" using map_of_SomeD [OF one] by force
    have cpu_name: "dm_cpu_device dm = \<lparr>dp_ref = 0, dp_dev = cpu\<rparr>" "unat (dm_next_device_id dm) \<le> n"
      using inv unfolding registry_inv_def by - (elim conjE, assumption)+
    have new: "registry_inv n cpu (dm\<lparr>dm_devices := ?ds, dm_default_device := d, dm_default_type := t, dm_default_id := j\<rparr>)"
      if "d = None \<or> d \<in> snd ` set ?ds" for d t j
      using cpu_name one sub I(2) umap_ok_delete [OF I(1)] that unfolding registry_inv_def by auto
    show ?thesis
    proof (cases "same_device (dm_default_device dm) device")
      case True
      with new [of "Some (dm_cpu_device dm)" 0 kCPU] cpu Some False show ?thesis
        by (simp add: UnregisterDevice_def Let_def NotifyDeviceEvent_def registry_inv_def)
    next
      case differs: False
      with new [OF default [OF differs]] Some False show ?thesis
        by (simp add: UnregisterDevice_def Let_def NotifyDeviceEvent_def registry_inv_def)
    qed
  qed
qed

lemma registry_step_inv:
  assumes inv: "registry_inv n cpu dm" and n: "n + 64 < 2 ^ 32"
  shows "(\<exists>i. op = Remove_Callback i \<and> registry_step api op dm = Inl Out_Of_Bounds) \<or>
    (\<exists>dm'. registry_step api op dm = Inr dm' \<and> registry_inv (n + 64) cpu dm')"
proof (cases op)
  case (Register d)
  show ?thesis
  proof (cases d)
    case None
    with Register registry_inv_mono [OF inv, of "n + 64"] show ?thesis by (simp add: RegisterDevice_def)
  next
    case (Some x)
    have "registry_inv (n + 1) cpu (snd (RegisterDevice (Some x) dm))"
      by (rule RegisterDevice_ok(1) [OF inv, of x "fst (RegisterDevice (Some x) dm)"]) (use n in simp_all)
    with Register Some registry_inv_mono [OF this, of "n + 64"] show ?thesis by simp
  qed
next
  case (Unregister i)
  with registry_inv_mono [OF UnregisterDevice_inv [OF inv], of "n + 64" i] show ?thesis by simp
next
  case Scan
  with ScanDevices_inv [OF assms] show ?thesis by simp
next
  case (Get_Device t i)
  with get_device_inv [OF assms, of api t i] show ?thesis by auto
next
  case (Set_Default t i)
  have "registry_inv n cpu (dm\<lparr>dm_default_type := t, dm_default_id := i\<rparr>)" using inv by (simp add: registry_inv_cong)
  from get_device_inv [OF this n, of api t i] obtain d dm' where
    g: "get_device api t i (dm\<lparr>dm_default_type := t, dm_default_id := i\<rparr>) = Inr (d, dm')"
      "registry_inv (n + 64) cpu dm'" "d = None \<or> d \<in> snd ` set (dm_devices dm')" by blast
  with Set_Default set_default_inv [OF g(2,3)] show ?thesis by (simp add: set_default_device_def)
next
  case (Add_Callback cb)
  with registry_inv_mono [OF inv, of "n + 64"] show ?thesis by (simp add: AddCallback_def Let_def registry_inv_cong)
next
  case (Remove_Callback i)
  with registry_inv_mono [OF inv, of "n + 64"] show ?thesis
    by (simp add: RemoveCallback_def Let_def registry_inv_cong)
qed

lemma registry_run_inv:
  assumes "registry_inv n cpu dm" and "n + 64 * length ops < 2 ^ 32"
  shows "(\<exists>i. Remove_Callback i \<in> set ops \<and> registry_run api ops dm = Inl Out_Of_Bounds) \<or>
    (\<exists>dm'. registry_run api ops dm = Inr dm' \<and> registry_inv (n + 64 * length ops) cpu dm')"
  using assms
proof (induction ops arbitrary: n dm)
  case Nil
  then show ?case by (simp add: registry_run_def)
next
  case (Cons op ops)
  have n: "n + 64 < 2 ^ 32" "n + 64 + 64 * length ops < 2 ^ 32" using Cons.prems(2) by simp_all
  from registry_step_inv [OF Cons.prems(1) n(1), of op api] show ?case
  proof
    assume "\<exists>dm'. registry_step api op dm = Inr dm' \<and> registry_inv (n + 64) cpu dm'"
    then obtain dm' where s: "registry_step api op dm = Inr dm'" "registry_inv (n + 64) cpu dm'" by blast
    from Cons.IH [OF s(2) n(2)] s(1) show ?thesis by (auto simp: registry_run_def algebra_simps)
  qed (auto simp: registry_run_def)
qed

section \<open>Properties\<close>

text \<open>
  After any program over the device manager that gives out fewer than \<open>2 ^ 32\<close> identifiers,
  identifier 1 is the CPU device and cannot be unregistered, every registered device has a positive
  identifier of its own below the counter, the default device is null or registered, and a device
  registered next gets an identifier not in use under which it is found while every other stays
  where it was. Only removing a callback can fail.
\<close>

theorem device_registry_invariant:
  assumes "64 * length ops + 3 < 2 ^ 32"
  shows "(\<exists>i. Remove_Callback i \<in> set ops \<and> registry_run api ops (DeviceManager_new cpu) = Inl Out_Of_Bounds) \<or>
    (\<exists>dm. registry_run api ops (DeviceManager_new cpu) = Inr dm \<and>
       GetDevice 1 dm = Some \<lparr>dp_ref = 0, dp_dev = cpu\<rparr> \<and> UnregisterDevice 1 dm = (False, dm) \<and>
       umap_ok (dm_devices dm) \<and> (\<forall>(k, v) \<in> set (dm_devices dm). v \<noteq> None \<and> 0 < k \<and> k < dm_next_device_id dm) \<and>
       (get_default_device dm = None \<or> get_default_device dm \<in> set (all_devices dm)) \<and>
       (\<forall>d. let (i, dm') = RegisterDevice (Some d) dm in 0 < i \<and> GetDevice i dm = None \<and> GetDevice i dm' = Some d \<and>
          (\<forall>k. k \<noteq> i \<longrightarrow> GetDevice k dm' = GetDevice k dm)))"
proof -
  have n: "2 + 64 * length ops < 2 ^ 32" "2 + 64 * length ops + 1 < 2 ^ 32" using assms by simp_all
  from registry_run_inv [OF new_registry n(1), of api cpu] show ?thesis
  proof
    assume "\<exists>dm'. registry_run api ops (DeviceManager_new cpu) = Inr dm' \<and> registry_inv (2 + 64 * length ops) cpu dm'"
    then obtain dm where run: "registry_run api ops (DeviceManager_new cpu) = Inr dm"
      and inv: "registry_inv (2 + 64 * length ops) cpu dm" by blast
    have I: "umap_ok (dm_devices dm)" "\<forall>(k, v) \<in> set (dm_devices dm). v \<noteq> None \<and> 0 < k \<and> k < dm_next_device_id dm"
      "map_of (dm_devices dm) 1 = Some (Some (dm_cpu_device dm))" "dm_cpu_device dm = \<lparr>dp_ref = 0, dp_dev = cpu\<rparr>"
      "dm_default_device dm = None \<or> dm_default_device dm \<in> snd ` set (dm_devices dm)"
      using inv unfolding registry_inv_def by - (elim conjE, assumption)+
    have one: "GetDevice 1 dm = Some \<lparr>dp_ref = 0, dp_dev = cpu\<rparr>" "UnregisterDevice 1 dm = (False, dm)"
      by (simp_all add: GetDevice_def UnregisterDevice_def same_device_def I(3) I(4))
    have reg: "let (i, dm') = RegisterDevice (Some d) dm in 0 < i \<and> GetDevice i dm = None \<and> GetDevice i dm' = Some d \<and>
          (\<forall>k. k \<noteq> i \<longrightarrow> GetDevice k dm' = GetDevice k dm)" for d
    proof -
      obtain i dm' where r: "RegisterDevice (Some d) dm = (i, dm')" by fastforce
      from RegisterDevice_ok [OF inv n(2) r] r show ?thesis by (simp add: GetDevice_def)
    qed
    from run one I reg show ?thesis by (auto simp: get_default_device_def all_devices_def)
  qed simp
qed

lemma device_registry_invariant_witness:
  "\<exists>dm. registry_run (model_cuda (\<lambda>_ _. None) 2) [Scan, Unregister 2, Set_Default kCUDA 1, Unregister 3]
      (DeviceManager_new (CPUDevice (\<lambda>_ _ _. None))) = Inr dm \<and> UnregisterDevice 1 dm = (False, dm)"
  using device_registry_invariant [of "[Scan, Unregister 2, Set_Default kCUDA 1, Unregister 3]"
      "model_cuda (\<lambda>_ _. None) 2" "CPUDevice (\<lambda>_ _ _. None)"] by auto

text \<open>
  \<open>RemoveCallback\<close> takes the identifier for a position: once the callback before it has been
  removed, an identifier that was given out removes the wrong callback, and the last one leaves the
  array.
\<close>

theorem remove_callback_by_position:
  assumes "dm_callbacks dm = []" and "dm_next_callback_id dm = 1"
  shows "\<exists>dm1. registry_run api [Add_Callback a, Add_Callback b, Add_Callback c, Remove_Callback 1] dm = Inr dm1 \<and>
      dm_callbacks dm1 = [b, c] \<and>
      (\<exists>dm2. RemoveCallback 2 dm1 = Inr (True, dm2) \<and> dm_callbacks dm2 = [b]) \<and>
      RemoveCallback 3 dm1 = Inl Out_Of_Bounds"
  using assms by (simp add: registry_run_def AddCallback_def RemoveCallback_def Let_def)

lemma remove_callback_by_position_witness:
  "\<exists>dm1. registry_run (model_cuda (\<lambda>_ _. None) 0) [Add_Callback 7, Add_Callback 8, Add_Callback 9, Remove_Callback 1]
      (DeviceManager_new (CPUDevice (\<lambda>_ _ _. None))) = Inr dm1 \<and> RemoveCallback 3 dm1 = Inl Out_Of_Bounds"
  using remove_callback_by_position [of "DeviceManager_new (CPUDevice (\<lambda>_ _ _. None))" "model_cuda (\<lambda>_ _. None) 0" 7 8 9]
  by (auto simp: DeviceManager_new_def Let_def)

text \<open>A default device that does not exist leaves the manager without one.\<close>

lemma set_default_missing:
  assumes "t \<noteq> kCPU" and "find_device t i dm = None" and "ScanDevices api (dm\<lparr>dm_default_type := t, dm_default_id := i\<rparr>) = Inr dm'"
    and "find_device t i dm' = None"
  shows "set_default_device api t i dm = Inr (dm'\<lparr>dm_default_device := None\<rparr>)"
  using assms by (simp add: set_default_device_def get_device_def find_device_def)

end
