(* ===== verification/Streams.thy ===== *)
theory Streams
  imports Core_Types
begin

text \<open>
  \<open>device/stream.cpp\<close>: streams, events and the pool of streams. The source's streams carry a handle
  and do nothing: waiting and synchronising return at once.
\<close>

section \<open>Stream and Event\<close>

datatype StreamPriority = kHigh | kNormal | kLow

record Stream =
  st_handle :: ptr
  st_device_type :: DeviceType

record Event =
  ev_handle :: ptr
  ev_device_type :: DeviceType

definition Stream_default :: Stream where
  "Stream_default = \<lparr>st_handle = nullptr, st_device_type = kCPU\<rparr>"

definition Stream_new :: "ptr \<Rightarrow> DeviceType \<Rightarrow> Stream" where
  "Stream_new handle t = \<lparr>st_handle = handle, st_device_type = t\<rparr>"

text \<open>Move construction: the new stream and what is left of the old one.\<close>

definition Stream_move :: "Stream \<Rightarrow> Stream \<times> Stream" where
  "Stream_move other = (other, other\<lparr>st_handle := nullptr\<rparr>)"

text \<open>Move assignment, of a stream to another or (\<open>self\<close>) to itself.\<close>

definition Stream_move_assign :: "bool \<Rightarrow> Stream \<Rightarrow> Stream \<Rightarrow> Stream \<times> Stream" where
  "Stream_move_assign self s other = (if \<not> self then (other, other\<lparr>st_handle := nullptr\<rparr>) else (s, s))"

definition Stream_Create :: "DeviceType \<Rightarrow> StreamPriority \<Rightarrow> Stream" where
  "Stream_Create t priority = Stream_new nullptr t"

definition Stream_is_query_complete :: "Stream \<Rightarrow> bool" where
  "Stream_is_query_complete s = True"

definition Stream_bool :: "Stream \<Rightarrow> bool" where
  "Stream_bool s = (st_handle s \<noteq> nullptr)"

text \<open>\<open>SetCurrent\<close> moves out of the stream it is given: the new current stream and the argument after.\<close>

definition Stream_SetCurrent :: "Stream \<Rightarrow> Stream \<Rightarrow> Stream \<times> Stream" where
  "Stream_SetCurrent current stream = Stream_move_assign False current stream"

definition Event_default :: Event where
  "Event_default = \<lparr>ev_handle = nullptr, ev_device_type = kCPU\<rparr>"

definition Event_new :: "ptr \<Rightarrow> Event" where
  "Event_new handle = \<lparr>ev_handle = handle, ev_device_type = kCPU\<rparr>"

definition Event_move :: "Event \<Rightarrow> Event \<times> Event" where
  "Event_move other = (other, other\<lparr>ev_handle := nullptr\<rparr>)"

definition Event_move_assign :: "bool \<Rightarrow> Event \<Rightarrow> Event \<Rightarrow> Event \<times> Event" where
  "Event_move_assign self e other = (if \<not> self then (other, other\<lparr>ev_handle := nullptr\<rparr>) else (e, e))"

definition Event_query :: "Event \<Rightarrow> bool" where
  "Event_query e = True"

text \<open>The result is the bit pattern of \<open>0.0f\<close>.\<close>

definition Event_elapsed_ms :: "Event \<Rightarrow> Event \<Rightarrow> 32 word" where
  "Event_elapsed_ms e other = 0"

definition Event_Create :: "DeviceType \<Rightarrow> Event" where
  "Event_Create t = Event_new nullptr"

section \<open>The pool\<close>

record StreamPool =
  sp_device_type :: DeviceType
  sp_pool_size :: size_t
  sp_available :: "Stream list"

definition StreamPool_new :: "DeviceType \<Rightarrow> size_t \<Rightarrow> StreamPool" where
  "StreamPool_new t max_streams =
     \<lparr>sp_device_type = t, sp_pool_size = max_streams,
      sp_available = fold (\<lambda>_ ss. ss @ [Stream_Create t kNormal]) [0..<unat max_streams] []\<rparr>"

definition get_stream :: "StreamPool \<Rightarrow> Stream \<times> StreamPool" where
  "get_stream pool =
     (if sp_available pool \<noteq> []
      then (fst (Stream_move (last (sp_available pool))), pool\<lparr>sp_available := butlast (sp_available pool)\<rparr>)
      else (Stream_Create (sp_device_type pool) kNormal, pool))"

definition return_stream :: "Stream \<Rightarrow> StreamPool \<Rightarrow> StreamPool" where
  "return_stream s pool =
     (if length (sp_available pool) < unat (sp_pool_size pool)
      then pool\<lparr>sp_available := sp_available pool @ [fst (Stream_move s)]\<rparr> else pool)"

text \<open>Users of a pool: \<open>None\<close> gets a stream, \<open>Some s\<close> gives one back.\<close>

fun stream_run :: "Stream option list \<Rightarrow> StreamPool \<Rightarrow> StreamPool" where
  "stream_run [] pool = pool"
| "stream_run (None # ops) pool = stream_run ops (snd (get_stream pool))"
| "stream_run (Some s # ops) pool = stream_run ops (return_stream s pool)"

definition pool_inv :: "DeviceType \<Rightarrow> size_t \<Rightarrow> StreamPool \<Rightarrow> bool" where
  "pool_inv t n pool \<longleftrightarrow> sp_device_type pool = t \<and> sp_pool_size pool = n \<and>
     length (sp_available pool) \<le> unat n \<and> (\<forall>s \<in> set (sp_available pool). st_device_type s = t)"

lemma fold_snoc_const: "fold (\<lambda>_ ss. ss @ [x]) xs ys = ys @ replicate (length xs) x"
  by (induction xs arbitrary: ys) (simp_all add: replicate_append_same [symmetric])

lemma StreamPool_new_inv: "pool_inv t n (StreamPool_new t n)"
  by (simp add: pool_inv_def StreamPool_new_def fold_snoc_const Stream_Create_def Stream_new_def)

lemma get_stream_inv: "pool_inv t n pool \<Longrightarrow> pool_inv t n (snd (get_stream pool)) \<and> st_device_type (fst (get_stream pool)) = t"
  by (auto simp: pool_inv_def get_stream_def Stream_move_def Stream_Create_def Stream_new_def dest: in_set_butlastD)

lemma return_stream_inv: "pool_inv t n pool \<Longrightarrow> st_device_type s = t \<Longrightarrow> pool_inv t n (return_stream s pool)"
  by (auto simp: pool_inv_def return_stream_def Stream_move_def)

section \<open>Properties\<close>

text \<open>
  However it is used with streams of its device, a pool never holds more streams than it was
  made with, every stream it hands out is of its device, and the stream given back last is the one
  handed out next when there was room for it.
\<close>

theorem stream_pool_bounded:
  assumes "\<forall>op \<in> set ops. op = None \<or> st_device_type (the op) = t"
  shows "let pool = stream_run ops (StreamPool_new t n) in
    length (sp_available pool) \<le> unat n \<and> st_device_type (fst (get_stream pool)) = t \<and>
    (\<forall>s. length (sp_available pool) < unat n \<longrightarrow> get_stream (return_stream s pool) = (s, pool))"
proof -
  have "pool_inv t n (stream_run ops pool)" if "pool_inv t n pool" for pool
    using assms that
  proof (induction ops arbitrary: pool)
    case (Cons op ops)
    show ?case
    proof (cases op)
      case None
      with Cons.IH [OF _ conjunct1 [OF get_stream_inv [OF Cons.prems(2)]]] Cons.prems(1) show ?thesis by simp
    next
      case (Some s)
      have "st_device_type s = t" using Cons.prems(1) Some by auto
      with Cons.IH [OF _ return_stream_inv [OF Cons.prems(2)]] Cons.prems(1) Some show ?thesis by simp
    qed
  qed simp
  from this [OF StreamPool_new_inv] have inv: "pool_inv t n (stream_run ops (StreamPool_new t n))" .
  let ?pool = "stream_run ops (StreamPool_new t n)"
  have "length (sp_available ?pool) \<le> unat n" "sp_pool_size ?pool = n" using inv unfolding pool_inv_def by blast+
  moreover have "get_stream (return_stream s ?pool) = (s, ?pool)" if "length (sp_available ?pool) < unat n" for s
    using that calculation(2) by (simp add: return_stream_def get_stream_def Stream_move_def)
  ultimately show ?thesis using get_stream_inv [OF inv] unfolding Let_def by blast
qed

lemma stream_pool_bounded_witness:
  "length (sp_available (stream_run [None, Some (Stream_new 9 kCUDA), Some (Stream_new 8 kCUDA)] (StreamPool_new kCUDA 1))) \<le> 1"
  using stream_pool_bounded [of "[None, Some (Stream_new 9 kCUDA), Some (Stream_new 8 kCUDA)]" kCUDA 1]
  by (auto simp: Let_def Stream_new_def)

text \<open>The stream passed to \<open>SetCurrent\<close>, a constant reference, loses its handle.\<close>

lemma SetCurrent_empties_argument: "st_handle (snd (Stream_SetCurrent current s)) = nullptr"
  by (simp add: Stream_SetCurrent_def Stream_move_assign_def)

end
