(* ===== verification/Tensor_Ops.thy ===== *)
theory Tensor_Ops
  imports Buffer_Handle Device_Manager Core_Status
begin

text \<open>
  \<open>tensor/tensor.cpp\<close>, class \<open>Tensor\<close>: construction, copies between devices, moves and fills. The
  assertions of the source expand to nothing in a release build, which is the build modelled.
\<close>

section \<open>State\<close>

record Tensor =
  t_shape :: TensorShape
  t_dtype :: DType
  t_layout :: Layout
  t_device :: "Device option"
  t_buffer :: BufferHandle

definition Tensor_default :: Tensor where
  "Tensor_default = \<lparr>t_shape = TensorShape_default, t_dtype = kFloat32, t_layout = kContiguous,
     t_device = None, t_buffer = BufferHandle_default\<rparr>"

definition t_data :: "Tensor \<Rightarrow> ptr" where "t_data t = bh_data (t_buffer t)"

definition t_num_bytes :: "Tensor \<Rightarrow> size_t" where "t_num_bytes t = bh_bytes (t_buffer t)"

definition t_num_elements :: "Tensor \<Rightarrow> index_t comp" where "t_num_elements t = num_elements (t_shape t)"

definition t_is_contiguous :: "Tensor \<Rightarrow> bool" where "t_is_contiguous t = (t_layout t = kContiguous)"

definition t_bool :: "Tensor \<Rightarrow> bool" where "t_bool t = (t_data t \<noteq> nullptr)"

section \<open>Construction, moves and destruction\<close>

text \<open>\<open>buffer_ = BufferHandle(...)\<close>: move assignment from a temporary that is then destroyed.\<close>

definition assign_temp :: "BufferHandle \<Rightarrow> BufferHandle \<Rightarrow> mem \<Rightarrow> (BufferHandle \<times> mem) comp" where
  "assign_temp b tmp m = rbind (bh_move_assign False b tmp m) (\<lambda>(b', tmp', m1).
     rbind (bh_destroy tmp' m1) (\<lambda>m2. Inr (b', m2)))"

definition Tensor_new :: "TensorShape \<Rightarrow> DType \<Rightarrow> Device \<Rightarrow> mem \<Rightarrow> (Tensor \<times> mem) comp" where
  "Tensor_new sh dt d m =
     rbind (shape_bytes sh dt) (\<lambda>bytes. rbind (BufferHandle_new (Some d) bytes m) (\<lambda>(tmp, m1).
       rbind (assign_temp BufferHandle_default tmp m1) (\<lambda>(b, m2).
         Inr (\<lparr>t_shape = sh, t_dtype = dt, t_layout = kContiguous, t_device = Some d, t_buffer = b\<rparr>, m2))))"

definition Tensor_external :: "TensorShape \<Rightarrow> DType \<Rightarrow> Device \<Rightarrow> ptr \<Rightarrow> bool \<Rightarrow> mem \<Rightarrow> (Tensor \<times> mem) comp" where
  "Tensor_external sh dt d data owns m =
     rbind (shape_bytes sh dt) (\<lambda>bytes.
       rbind (assign_temp BufferHandle_default
                (if owns then BufferHandle_external data bytes (dev_type d) (Some (dev_deallocate d))
                 else BufferHandle_external data bytes (dev_type d) None) m) (\<lambda>(b, m').
         Inr (\<lparr>t_shape = sh, t_dtype = dt, t_layout = kContiguous, t_device = Some d, t_buffer = b\<rparr>, m')))"

definition Tensor_dims :: "index_t list \<Rightarrow> DType \<Rightarrow> Device \<Rightarrow> mem \<Rightarrow> (Tensor \<times> mem) comp" where
  "Tensor_dims ds dt d m = Tensor_new (TensorShape_init ds) dt d m"

definition Tensor_destroy :: "Tensor \<Rightarrow> mem \<Rightarrow> mem comp" where
  "Tensor_destroy t m = bh_destroy (t_buffer t) m"

definition Tensor_move :: "Tensor \<Rightarrow> Tensor \<times> Tensor" where
  "Tensor_move other =
     (other\<lparr>t_buffer := fst (bh_move (t_buffer other))\<rparr>, other\<lparr>t_buffer := snd (bh_move (t_buffer other))\<rparr>)"

text \<open>\<open>self\<close>: the two tensors are the same object, the test \<open>this != &other\<close> of the code.\<close>

definition Tensor_move_assign :: "bool \<Rightarrow> Tensor \<Rightarrow> Tensor \<Rightarrow> mem \<Rightarrow> (Tensor \<times> Tensor \<times> mem) comp" where
  "Tensor_move_assign self t other m =
     (if \<not> self
      then rbind (bh_move_assign False (t_buffer t) (t_buffer other) m) (\<lambda>(b, b', m').
             Inr (other\<lparr>t_buffer := b\<rparr>, other\<lparr>t_buffer := b'\<rparr>, m'))
      else Inr (t, other, m))"

definition Tensor_copy :: "Tensor \<Rightarrow> mem \<Rightarrow> (Tensor \<times> mem) comp" where
  "Tensor_copy other m =
     (if t_data other \<noteq> nullptr then
        let bytes = t_num_bytes other in
        rbind (BufferHandle_new (t_device other) bytes m) (\<lambda>(tmp, m1).
        rbind (assign_temp BufferHandle_default tmp m1) (\<lambda>(b, m2).
        rbind (deref (t_device other)) (\<lambda>d.
        rbind (dev_copy_to_device d (bh_data b) (t_data other) bytes m2) (\<lambda>m3.
          Inr (other\<lparr>t_buffer := b\<rparr>, m3)))))
      else Inr (other\<lparr>t_buffer := BufferHandle_default\<rparr>, m))"

definition Tensor_copy_assign :: "bool \<Rightarrow> Tensor \<Rightarrow> Tensor \<Rightarrow> mem \<Rightarrow> (Tensor \<times> mem) comp" where
  "Tensor_copy_assign self t other m =
     (if \<not> self
      then rbind (Tensor_copy other m) (\<lambda>(tmp, m1). rbind (Tensor_move_assign False t tmp m1) (\<lambda>(t', tmp', m2).
             rbind (Tensor_destroy tmp' m2) (\<lambda>m3. Inr (t', m3))))
      else Inr (t, m))"

section \<open>Filling\<close>

text \<open>
  The value is an object of the caller, given as its bytes; \<open>memcpy\<close> reads as many as an element has.
  The loop doubles the filled prefix. The step wraps to 0 for more than \<open>2 ^ 63\<close> elements and then
  never reaches the end, so the loop has fuel.
\<close>

definition read_object :: "byte list \<Rightarrow> nat \<Rightarrow> byte list comp" where
  "read_object vs n = (if n \<le> length vs then Inr (take n vs) else Inl Out_Of_Bounds)"

fun fill_loop :: "nat \<Rightarrow> ptr \<Rightarrow> size_t \<Rightarrow> size_t \<Rightarrow> size_t \<Rightarrow> mem \<Rightarrow> mem comp" where
  "fill_loop 0 data elem_size n step m = Inl Out_Of_Fuel"
| "fill_loop (Suc fuel) data elem_size n step m =
     (if step < n then
        let copy = min step (n - step) in
        rbind (memcpy (data + unat (step * elem_size)) data (copy * elem_size) m)
          (fill_loop fuel data elem_size n (step * 2))
      else Inr m)"

definition t_fill :: "byte list \<Rightarrow> Tensor \<Rightarrow> mem \<Rightarrow> mem comp" where
  "t_fill value t m =
     (let elem_size = kDTypeSize (t_dtype t) in
      rbind (t_num_elements t) (\<lambda>ne. let n = of_int ne in
        if n = 0 then Inr m
        else rbind (read_object value (unat elem_size)) (\<lambda>bs. rbind (mstore Host (t_data t) bs m)
               (fill_loop 65 (t_data t) elem_size n 1))))"

definition t_fill_zero :: "Tensor \<Rightarrow> mem \<Rightarrow> mem comp" where
  "t_fill_zero t m = rbind (deref (t_device t)) (\<lambda>d. dev_memset d (t_data t) 0 (t_num_bytes t) m)"

definition float_one :: f32 where "float_one = 0x3F800000"

definition t_fill_ones :: "Tensor \<Rightarrow> mem \<Rightarrow> mem comp" where
  "t_fill_ones t m =
     (if t_dtype t = kFloat32 then t_fill (bytes_of_f32 float_one) t m
      else if t_dtype t = kInt32 then t_fill (bytes_of_f32 1) t m
      else Inr m)"

definition Tensor_Empty :: "TensorShape \<Rightarrow> DType \<Rightarrow> Device \<Rightarrow> mem \<Rightarrow> (Tensor \<times> mem) comp" where
  "Tensor_Empty sh dt d m = Tensor_new sh dt d m"

definition Tensor_Zeros :: "TensorShape \<Rightarrow> DType \<Rightarrow> Device \<Rightarrow> mem \<Rightarrow> (Tensor \<times> mem) comp" where
  "Tensor_Zeros sh dt d m = rbind (Tensor_new sh dt d m) (\<lambda>(t, m1). rbind (t_fill_zero t m1) (\<lambda>m2. Inr (t, m2)))"

definition Tensor_Ones :: "TensorShape \<Rightarrow> DType \<Rightarrow> Device \<Rightarrow> mem \<Rightarrow> (Tensor \<times> mem) comp" where
  "Tensor_Ones sh dt d m = rbind (Tensor_new sh dt d m) (\<lambda>(t, m1). rbind (t_fill_ones t m1) (\<lambda>m2. Inr (t, m2)))"

definition Tensor_Full :: "TensorShape \<Rightarrow> DType \<Rightarrow> Device \<Rightarrow> byte list \<Rightarrow> mem \<Rightarrow> (Tensor \<times> mem) comp" where
  "Tensor_Full sh dt d value m = rbind (Tensor_new sh dt d m) (\<lambda>(t, m1). rbind (t_fill value t m1) (\<lambda>m2. Inr (t, m2)))"

text \<open>The overloads for scalars pass the address of their argument, whatever the element type.\<close>

definition Tensor_Full_float :: "index_t list \<Rightarrow> DType \<Rightarrow> Device \<Rightarrow> f32 \<Rightarrow> mem \<Rightarrow> (Tensor \<times> mem) comp" where
  "Tensor_Full_float ds dt d value m = Tensor_Full (TensorShape_init ds) dt d (bytes_of_f32 value) m"

definition Tensor_Full_double :: "index_t list \<Rightarrow> DType \<Rightarrow> Device \<Rightarrow> size_t \<Rightarrow> mem \<Rightarrow> (Tensor \<times> mem) comp" where
  "Tensor_Full_double ds dt d value m = Tensor_Full (TensorShape_init ds) dt d (bytes_of_i64 value) m"

definition Tensor_Full_int32 :: "index_t list \<Rightarrow> DType \<Rightarrow> Device \<Rightarrow> 32 word \<Rightarrow> mem \<Rightarrow> (Tensor \<times> mem) comp" where
  "Tensor_Full_int32 ds dt d value m = Tensor_Full (TensorShape_init ds) dt d (bytes_of_f32 value) m"

definition Tensor_Full_int64 :: "index_t list \<Rightarrow> DType \<Rightarrow> Device \<Rightarrow> size_t \<Rightarrow> mem \<Rightarrow> (Tensor \<times> mem) comp" where
  "Tensor_Full_int64 ds dt d value m = Tensor_Full (TensorShape_init ds) dt d (bytes_of_i64 value) m"

section \<open>Copies\<close>

text \<open>Between two devices that are not the host the bytes go through a vector, which may be empty.\<close>

definition CopyAcrossDevices :: "new_oracle \<Rightarrow> Device \<Rightarrow> ptr \<Rightarrow> Device \<Rightarrow> ptr \<Rightarrow> size_t \<Rightarrow> mem \<Rightarrow> mem comp" where
  "CopyAcrossDevices new src_device src dst_device dst bytes m =
     (if dev_type src_device = kCPU then dev_copy_to_device dst_device dst src bytes m
      else if dev_type dst_device = kCPU then dev_copy_to_host src_device dst src bytes m
      else if bytes = 0 then
        rbind (dev_copy_to_host src_device nullptr src 0 m) (dev_copy_to_device dst_device dst nullptr 0)
      else case new_region new Host (unat bytes) m of
        None \<Rightarrow> Inl Bad_Alloc
      | Some (staging, m1) \<Rightarrow>
          rbind (mstore Host staging (replicate (unat bytes) 0) m1) (\<lambda>m2.
          rbind (dev_copy_to_host src_device staging src bytes m2) (\<lambda>m3.
          rbind (dev_copy_to_device dst_device dst staging bytes m3) (\<lambda>m4. free_region Host staging m4))))"

definition t_copy_from :: "new_oracle \<Rightarrow> Tensor \<Rightarrow> Tensor \<Rightarrow> mem \<Rightarrow> mem comp" where
  "t_copy_from new t other m =
     (let bytes = t_num_bytes t in
      rbind (deref (t_device t)) (\<lambda>d. rbind (deref (t_device other)) (\<lambda>od.
        if dev_type d = dev_type od \<and> dev_id d = dev_id od
        then dev_copy_within d (t_data t) (t_data other) bytes m
        else CopyAcrossDevices new od (t_data other) d (t_data t) bytes m)))"

definition t_copy_from_data :: "Tensor \<Rightarrow> ptr \<Rightarrow> size_t \<Rightarrow> mem \<Rightarrow> mem comp" where
  "t_copy_from_data t data bytes m = rbind (deref (t_device t)) (\<lambda>d. dev_copy_to_device d (t_data t) data bytes m)"

definition t_clone :: "new_oracle \<Rightarrow> Tensor \<Rightarrow> mem \<Rightarrow> (Tensor \<times> mem) comp" where
  "t_clone new t m =
     rbind (deref (t_device t)) (\<lambda>d. rbind (Tensor_new (t_shape t) (t_dtype t) d m) (\<lambda>(t', m1).
       rbind (t_copy_from new t' t m1) (\<lambda>m2. Inr (t', m2))))"

definition t_to :: "new_oracle \<Rightarrow> Device \<Rightarrow> Tensor \<Rightarrow> mem \<Rightarrow> (Tensor \<times> mem) comp" where
  "t_to new target t m =
     rbind (Tensor_new (t_shape t) (t_dtype t) target m) (\<lambda>(t', m1). rbind (deref (t_device t)) (\<lambda>d.
       if dev_type d = dev_type target \<and> dev_id d = dev_id target
       then rbind (t_copy_from new t' t m1) (\<lambda>m2. Inr (t', m2))
       else rbind (CopyAcrossDevices new d (t_data t) target (t_data t') (t_num_bytes t) m1) (\<lambda>m2. Inr (t', m2))))"

definition t_to_type :: "new_oracle \<Rightarrow> cuda_api \<Rightarrow> DeviceType \<Rightarrow> int \<Rightarrow> Tensor \<Rightarrow> DeviceManager \<times> mem \<Rightarrow>
    (Tensor Expected \<times> DeviceManager \<times> mem) comp" where
  "t_to_type new api dt i t = (\<lambda>(dm, m).
     rbind (get_device api dt i dm) (\<lambda>(device, dm').
       case device of
         None \<Rightarrow> Inr (MakeUnexpected (Status_InvalidArgument ''Invalid device type''), dm', m)
       | Some d \<Rightarrow> rbind (t_to new (dp_dev d) t m) (\<lambda>(t', m'). Inr (Ok t', dm', m'))))"

definition t_is_same_shape :: "Tensor \<Rightarrow> Tensor \<Rightarrow> bool comp" where
  "t_is_same_shape t other = shape_eq (t_shape t) (t_shape other)"

definition t_to_dtype :: "new_oracle \<Rightarrow> DType \<Rightarrow> Tensor \<Rightarrow> mem \<Rightarrow> (Tensor Expected \<times> mem) comp" where
  "t_to_dtype new dt t m =
     (if t_dtype t = dt then rbind (t_clone new t m) (\<lambda>(t', m'). Inr (Ok t', m'))
      else Inr (MakeUnexpected (Status_NotImplemented ''Dtype conversion not yet implemented''), m))"

section \<open>TensorOptions\<close>

record TensorOptions =
  opt_dtype :: DType
  opt_device :: "Device option"
  opt_layout :: Layout
  opt_requires_grad :: bool

definition TensorOptions_default :: TensorOptions where
  "TensorOptions_default = \<lparr>opt_dtype = kFloat32, opt_device = None, opt_layout = kContiguous, opt_requires_grad = False\<rparr>"

definition set_dtype :: "DType \<Rightarrow> TensorOptions \<Rightarrow> TensorOptions" where "set_dtype dt opt = opt\<lparr>opt_dtype := dt\<rparr>"

definition set_device :: "Device \<Rightarrow> TensorOptions \<Rightarrow> TensorOptions" where "set_device d opt = opt\<lparr>opt_device := Some d\<rparr>"

definition set_device_type :: "cuda_api \<Rightarrow> DeviceType \<Rightarrow> int \<Rightarrow> TensorOptions \<Rightarrow> DeviceManager \<Rightarrow> (TensorOptions \<times> DeviceManager) comp" where
  "set_device_type api t i opt dm = rbind (get_device api t i dm) (\<lambda>(d, dm'). Inr (opt\<lparr>opt_device := map_option dp_dev d\<rparr>, dm'))"

definition set_layout :: "Layout \<Rightarrow> TensorOptions \<Rightarrow> TensorOptions" where "set_layout l opt = opt\<lparr>opt_layout := l\<rparr>"

definition set_requires_grad :: "bool \<Rightarrow> TensorOptions \<Rightarrow> TensorOptions" where
  "set_requires_grad b opt = opt\<lparr>opt_requires_grad := b\<rparr>"

definition TensorOptions_create :: "TensorShape \<Rightarrow> TensorOptions \<Rightarrow> mem \<Rightarrow> (Tensor \<times> mem) comp" where
  "TensorOptions_create sh opt m = rbind (deref (opt_device opt)) (\<lambda>d. Tensor_new sh (opt_dtype opt) d m)"

section \<open>Allocation through a device\<close>

lemma assign_temp_default [simp]: "assign_temp BufferHandle_default tmp m = Inr (tmp, m)"
  by (simp add: assign_temp_def bh_move_assign_def bh_deallocate_def bh_destroy_def BufferHandle_default_def
      bh_moved_from_def)

lemma shape_bytes_ok:
  assumes "shape_ok sh" and "dims_fit (sdims sh)" and "sdims sh \<noteq> []"
    and "nat (prod_list (sdims sh)) * unat (kDTypeSize dt) < 2 ^ 64"
  shows "shape_bytes sh dt = Inr (of_int (prod_list (sdims sh)) * kDTypeSize dt)"
    and "unat (of_int (prod_list (sdims sh)) * kDTypeSize dt) = nat (prod_list (sdims sh)) * unat (kDTypeSize dt)"
    and "unat (of_int (prod_list (sdims sh)) :: size_t) = nat (prod_list (sdims sh))"
proof -
  have pos: "0 < prod_list (sdims sh)" "prod_list (sdims sh) < 2 ^ 63"
    using dims_fit_partial(3,4) [OF assms(2), of 0] by simp_all
  have "shp_ndims sh \<noteq> 0" using assms(3) by (auto simp: sdims_def)
  with num_elements_ok [OF assms(1,2)] show "shape_bytes sh dt = Inr (of_int (prod_list (sdims sh)) * kDTypeSize dt)"
    by (simp add: shape_bytes_def)
  have w: "of_int (prod_list (sdims sh)) = (of_nat (nat (prod_list (sdims sh))) :: size_t)"
    using pos by (metis less_imp_le nat_0_le of_int_of_nat_eq)
  have "nat (prod_list (sdims sh)) < 18446744073709551616" using pos by simp
  then show n: "unat (of_int (prod_list (sdims sh)) :: size_t) = nat (prod_list (sdims sh))"
    unfolding w by (rule unat_of_nat_size)
  show "unat (of_int (prod_list (sdims sh)) * kDTypeSize dt) = nat (prod_list (sdims sh)) * unat (kDTypeSize dt)"
    using assms(4) n by (simp add: unat_word_ariths)
qed

section \<open>Filling terminates and fills\<close>

lemma take_copies:
  assumes "c \<le> s" and "length bs = k"
  shows "take (c * k) (concat (replicate s bs)) = concat (replicate c bs)"
proof -
  have "replicate s bs = replicate c bs @ replicate (s - c) bs"
    using assms(1) by (simp add: replicate_add [symmetric])
  moreover have "length (concat (replicate c bs)) = c * k" using assms(2) by (simp add: length_concat sum_list_replicate)
  ultimately show ?thesis by simp
qed

lemma length_copies: "length (concat (replicate n bs)) = n * length bs"
  by (simp add: length_concat sum_list_replicate)

text \<open>One round of the loop: the filled prefix of \<open>s\<close> elements grows by \<open>c\<close>.\<close>

lemma fill_round:
  assumes region: "within Host data (n * k) m" and k: "k = length bs" "0 < k" and c: "0 < c" "c \<le> s" "s + c \<le> n"
    and filled: "mload Host data (s * k) m = Inr (concat (replicate s bs))"
  defines "m' \<equiv> put_bytes (data + s * k) (concat (replicate c bs)) m"
  shows "mcopy Host (data + s * k) Host data (c * k) m = Inr m'"
    and "mload Host data ((s + c) * k) m' = Inr (concat (replicate (s + c) bs))"
proof -
  have le: "c * k \<le> s * k" "s * k + c * k \<le> n * k" using c mult_le_mono1 [of "s + c" n k] by (simp_all add: algebra_simps)
  have src: "mload Host data (c * k) m = Inr (concat (replicate c bs))"
    using mload_prefix [OF filled le(1)] take_copies [of c s bs k] c k by simp
  have dst: "within Host (data + s * k) (c * k) m" by (rule within_sub [OF region]) (use le in simp_all)
  show "mcopy Host (data + s * k) Host data (c * k) m = Inr m'"
    unfolding m'_def by (rule mcopy_ok [OF src dst]) (use le in simp)
  have "mload Host (data + s * k) (c * k) m' = Inr (concat (replicate c bs))"
    using mload_put_same [of Host "data + s * k" "concat (replicate c bs)" m] dst
    by (simp add: length_copies k(1) m'_def)
  moreover have "mload Host data (s * k) m' = Inr (concat (replicate s bs))"
    using filled unfolding m'_def by (subst mload_put_other) simp_all
  moreover have "within Host data (s * k + c * k) m'"
    unfolding m'_def by (simp add: within_zero_prefix [OF region] le)
  ultimately have "mload Host data (s * k + c * k) m' = Inr (concat (replicate s bs) @ concat (replicate c bs))"
    by (metis mload_append)
  then show "mload Host data ((s + c) * k) m' = Inr (concat (replicate (s + c) bs))"
    by (simp only: add_mult_distrib replicate_add concat_append)
qed

lemma unat_mult_bound:
  "unat (a :: size_t) * unat b < 2 ^ 64 \<Longrightarrow> unat (a * b) = unat a * unat b"
  by (simp add: unat_word_ariths)

lemma fill_loop_ok:
  assumes region: "within Host data (unat n * unat k) m" and k: "unat k = length bs" "k \<noteq> 0"
    and bound: "unat n * unat k < 2 ^ 64" "unat n \<le> 2 ^ 63"
    and filled: "mload Host data (min (unat step) (unat n) * unat k) m = Inr (concat (replicate (min (unat step) (unat n)) bs))"
    and "0 < step" and "unat n \<le> unat step * 2 ^ fuel"
  shows "\<exists>m'. fill_loop (Suc fuel) data k n step m = Inr m' \<and> m_regions m' = m_regions m \<and>
    mload Host data (unat n * unat k) m' = Inr (concat (replicate (unat n) bs)) \<and>
    (\<forall>a. a < data \<or> data + unat n * unat k \<le> a \<longrightarrow> m_val m' a = m_val m a)"
  using region filled assms(7,8)
proof (induction fuel arbitrary: step m)
  case 0
  then have "\<not> step < n" by (simp add: word_less_nat_alt)
  with 0 show ?case by (simp add: word_less_nat_alt min_def split: if_splits)
next
  case (Suc fuel)
  let ?s = "unat step" and ?n = "unat n" and ?k = "unat k"
  show ?case
  proof (cases "step < n")
    case False
    with Suc.prems show ?thesis by (simp add: word_less_nat_alt min_def split: if_splits)
  next
    case True
    then have s: "?s < ?n" by (simp add: word_less_nat_alt)
    let ?cw = "min step (n - step)" and ?c = "min ?s (?n - ?s)"
    have c: "unat ?cw = ?c" using s by (simp add: min_def word_le_nat_alt unat_minus_size)
    have pos: "0 < ?s" using Suc.prems(3) by (simp add: word_less_nat_alt)
    have "?s * ?k \<le> ?n * ?k" "?c * ?k \<le> ?n * ?k" using s by (intro mult_le_mono1, simp add: min_def)+
    with bound(1) have le: "?s * ?k < 2 ^ 64" "?c * ?k < 2 ^ 64" by linarith+
    have "unat (step * k) = ?s * ?k" "unat (?cw * k) = ?c * ?k"
      using unat_mult_bound [of step k] unat_mult_bound [of ?cw k] le c by simp_all
    moreover have dbl: "unat (step * 2) = ?s * 2"
      using unat_mult_bound [of step 2] s bound(2) by simp
    define m1 where "m1 = put_bytes (data + ?s * ?k) (concat (replicate ?c bs)) m"
    have old: "mload Host data (?s * ?k) m = Inr (concat (replicate ?s bs))"
      using Suc.prems(2) s by (simp add: min_def)
    have kpos: "0 < ?k" using k(2) by (simp add: unat_gt_0)
    have cc: "0 < ?c" "?c \<le> ?s" "?s + ?c \<le> ?n" using s pos by simp_all
    note round = fill_round [OF Suc.prems(1) k(1) kpos cc old, folded m1_def]
    have run: "fill_loop (Suc (Suc fuel)) data k n step m = fill_loop (Suc fuel) data k n (step * 2) m1"
      using True round(1) calculation by (subst fill_loop.simps(2)) (simp add: memcpy_def Let_def del: fill_loop.simps(2))
    have new: "min (unat (step * 2)) ?n = ?s + ?c" unfolding dbl using s by linarith
    have "\<exists>m'. fill_loop (Suc fuel) data k n (step * 2) m1 = Inr m' \<and> m_regions m' = m_regions m1 \<and>
        mload Host data (?n * ?k) m' = Inr (concat (replicate ?n bs)) \<and>
        (\<forall>a. a < data \<or> data + ?n * ?k \<le> a \<longrightarrow> m_val m' a = m_val m1 a)"
    proof (rule Suc.IH)
      show "within Host data (?n * ?k) m1" using Suc.prems(1) by (simp add: m1_def)
      show "mload Host data (min (unat (step * 2)) ?n * ?k) m1 = Inr (concat (replicate (min (unat (step * 2)) ?n) bs))"
        unfolding new by (rule round(2))
      show "0 < step * 2" using dbl pos by (simp add: word_less_nat_alt)
      show "?n \<le> unat (step * 2) * 2 ^ fuel" using Suc.prems(4) dbl by (simp add: ac_simps)
    qed
    moreover have "m_val m1 a = m_val m a" if "a < data \<or> data + ?n * ?k \<le> a" for a
    proof -
      have "(?s + ?c) * ?k \<le> ?n * ?k" using cc(3) by (rule mult_le_mono1)
      with that show ?thesis by (auto simp: m1_def put_bytes_def length_copies k(1) algebra_simps)
    qed
    moreover have "m_regions m1 = m_regions m" by (simp add: m1_def)
    ultimately show ?thesis unfolding run by auto
  qed
qed

end
