(* ===== verification/Tensor_Copies.thy ===== *)
theory Tensor_Copies
  imports Tensor_Ops
begin

text \<open>
  What the constructors, fills and copies of \<open>Tensor_Ops\<close> do to memory: proved once over the device
  contract, then for the CPU device and the CUDA device.
\<close>

section \<open>A tensor that holds bytes\<close>

definition holds_bytes :: "Device \<Rightarrow> space \<Rightarrow> Tensor \<Rightarrow> byte list \<Rightarrow> mem \<Rightarrow> bool" where
  "holds_bytes d sp t bs m \<longleftrightarrow> t_device t = Some d \<and> t_data t \<noteq> nullptr \<and>
     shape_bytes (t_shape t) (t_dtype t) = Inr (t_num_bytes t) \<and>
     map_of (m_regions m) (t_data t) = Some (unat (t_num_bytes t), sp) \<and>
     mload sp (t_data t) (unat (t_num_bytes t)) m = Inr bs"

text \<open>A tensor allocated over memory \<open>m0\<close>: what was there can still be read, and is apart.\<close>

definition fresh_tensor :: "space \<Rightarrow> Tensor \<Rightarrow> mem \<Rightarrow> mem \<Rightarrow> bool" where
  "fresh_tensor sp t m0 m \<longleftrightarrow> mem_ok m \<and> map_of (m_regions m0) (t_data t) = None \<and>
     map_of (m_regions m) (t_data t) = Some (unat (t_num_bytes t), sp) \<and>
     (\<forall>q v. map_of (m_regions m0) q = Some v \<longrightarrow> map_of (m_regions m) q = Some v) \<and>
     (\<forall>s q k bs. mload s q k m0 = Inr bs \<longrightarrow> mload s q k m = Inr bs)"

lemma within_of_region: "umap_ok (m_regions m) \<Longrightarrow> map_of (m_regions m) p = Some (n, sp) \<Longrightarrow> within sp p n m"
  using map_of_SomeD by (force simp: within_def list_ex_iff)

lemma mem_ok_umap: "mem_ok m \<Longrightarrow> umap_ok (m_regions m)"
  by (simp add: mem_ok_def)

lemma regions_apart:
  "mem_ok m \<Longrightarrow> map_of (m_regions m) a = Some (n, s) \<Longrightarrow> map_of (m_regions m) b = Some (k, t) \<Longrightarrow> a \<noteq> b \<Longrightarrow>
   a + n \<le> b \<or> b + k \<le> a"
  unfolding mem_ok_def by blast

lemma new_bytes_keep:
  assumes ok: "mem_ok m'" and m': "m' = put_bytes p v (m\<lparr>m_regions := (p, length v, sp) # m_regions m\<rparr>)"
    and fresh: "map_of (m_regions m) p = None" and load: "mload s q k m = Inr bs"
  shows "mload s q k m' = Inr bs"
proof (cases "k = 0")
  case True
  with load show ?thesis by (simp add: mload_def)
next
  case False
  have umap: "umap_ok (m_regions m)" using mem_ok_umap [OF ok] m' by simp
  from load False have "within s q k m" by (simp add: mload_eq)
  then obtain a l where a: "map_of (m_regions m) a = Some (l, s)" "a \<le> q" "q + k \<le> a + l"
    using within_region [OF umap] by blast
  have "a \<noteq> p" using a(1) fresh by auto
  moreover have "map_of (m_regions m') p = Some (length v, sp)" "map_of (m_regions m') a = Some (l, s)"
    using a(1) fresh by (simp_all add: m') auto
  ultimately have "p + length v \<le> a \<or> a + l \<le> p" using regions_apart [OF ok, of p] by metis
  with a have "q + k \<le> p \<or> p + length v \<le> q" by linarith
  then have "mload s q k m' = mload s q k (m\<lparr>m_regions := (p, length v, sp) # m_regions m\<rparr>)"
    unfolding m' by (rule mload_put_other)
  then show ?thesis using mload_new_region [OF refl load] by simp
qed

text \<open>Bytes written to one region leave what another region holds.\<close>

lemma holds_put_other:
  assumes "mem_ok m" and "holds_bytes d sp t bs m" and "map_of (m_regions m) p = Some (length v, s)" and "p \<noteq> t_data t"
  shows "holds_bytes d sp t bs (put_bytes p v m)"
proof -
  have "t_data t + unat (t_num_bytes t) \<le> p \<or> p + length v \<le> t_data t"
    using assms(2) regions_apart [OF assms(1) _ assms(3)] assms(4) unfolding holds_bytes_def by metis
  then have "mload sp (t_data t) (unat (t_num_bytes t)) (put_bytes p v m) = mload sp (t_data t) (unat (t_num_bytes t)) m"
    by (rule mload_put_other)
  with assms(2) show ?thesis by (simp add: holds_bytes_def)
qed

lemma holds_fresh: "holds_bytes d sp t bs m0 \<Longrightarrow> fresh_tensor s c m0 m \<Longrightarrow> holds_bytes d sp t bs m \<and> t_data c \<noteq> t_data t"
  by (auto simp: holds_bytes_def fresh_tensor_def)

context device_contract
begin

lemma new_tensor:
  assumes good and ok: "mem_ok m" and bytes: "shape_bytes sh dt = Inr bytes"
  shows "\<exists>t m'. Tensor_new sh dt dev m = Inr (t, m') \<and> t_shape t = sh \<and> t_dtype t = dt \<and> t_layout t = kContiguous \<and>
    t_device t = Some dev \<and> t_num_bytes t = bytes \<and>
    (t_data t = nullptr \<and> m' = m \<and> dev_allocate dev bytes m = Inr (nullptr, m) \<or>
     t_data t \<noteq> nullptr \<and> bytes \<noteq> 0 \<and> fresh_tensor sp t m m')"
  using allocate_ok [OF assms(1) ok, of bytes]
proof
  assume "dev_allocate dev bytes m = Inr (nullptr, m)"
  with bytes show ?thesis by (simp add: Tensor_new_def BufferHandle_new_def t_num_bytes_def t_data_def)
next
  assume "\<exists>p m' v. dev_allocate dev bytes m = Inr (p, m') \<and> bytes \<noteq> 0 \<and> p \<noteq> nullptr \<and> mem_ok m' \<and>
         map_of (m_regions m) p = None \<and> m_regions m' = (p, unat bytes, sp) # m_regions m \<and>
         m' = put_bytes p v (m\<lparr>m_regions := (p, unat bytes, sp) # m_regions m\<rparr>) \<and> length v = unat bytes"
  then obtain p m' v where a: "dev_allocate dev bytes m = Inr (p, m')" "bytes \<noteq> 0" "p \<noteq> nullptr" "mem_ok m'"
    "map_of (m_regions m) p = None" "m_regions m' = (p, unat bytes, sp) # m_regions m"
    "m' = put_bytes p v (m\<lparr>m_regions := (p, length v, sp) # m_regions m\<rparr>)" "length v = unat bytes" by metis
  have keep: "mload s q k m = Inr bs \<Longrightarrow> mload s q k m' = Inr bs" for s q k bs
    by (rule new_bytes_keep [OF a(4,7,5)])
  have old: "map_of (m_regions m) q = Some w \<Longrightarrow> map_of (m_regions m') q = Some w" for q w
    using a(5,6) by auto
  show ?thesis using bytes a(1-6) keep old
    by (simp add: Tensor_new_def BufferHandle_new_def t_num_bytes_def t_data_def fresh_tensor_def)
qed

text \<open>The three directions of a copy into a fresh tensor of as many bytes.\<close>

lemma copy_into:
  assumes "mem_ok m" and src: "holds_bytes d s t bs m" and dst: "map_of (m_regions m) (t_data c) = Some (unat (t_num_bytes t), s')"
    and "t_data c \<noteq> t_data t" and "t_device c = Some d'" and "shape_bytes (t_shape c) (t_dtype c) = Inr (t_num_bytes c)"
    and "t_num_bytes c = t_num_bytes t"
  shows "within s' (t_data c) (unat (t_num_bytes t)) m" and "t_data c \<noteq> nullptr"
    and "t_data c + unat (t_num_bytes t) \<le> t_data t \<or> t_data t + unat (t_num_bytes t) \<le> t_data c"
    and "holds_bytes d' s' c bs (put_bytes (t_data c) bs m)" and "holds_bytes d s t bs (put_bytes (t_data c) bs m)"
    and "mload s (t_data t) (unat (t_num_bytes t)) m = Inr bs" and "t_data t \<noteq> nullptr"
proof -
  have len: "length bs = unat (t_num_bytes t)" using src length_mload unfolding holds_bytes_def by blast
  show w: "within s' (t_data c) (unat (t_num_bytes t)) m" using within_of_region [OF mem_ok_umap [OF assms(1)] dst] .
  show null: "t_data c \<noteq> nullptr" using assms(1) dst unfolding mem_ok_def by (metis less_not_refl)
  have region: "map_of (m_regions m) (t_data t) = Some (unat (t_num_bytes t), s)"
    using src unfolding holds_bytes_def by blast
  show "t_data c + unat (t_num_bytes t) \<le> t_data t \<or> t_data t + unat (t_num_bytes t) \<le> t_data c"
    using regions_apart [OF assms(1) dst region assms(4)] .
  show "holds_bytes d' s' c bs (put_bytes (t_data c) bs m)"
    unfolding holds_bytes_def using assms(5-7) dst null mload_put_same [of s' "t_data c" bs m] w len by simp
  show "holds_bytes d s t bs (put_bytes (t_data c) bs m)"
    by (rule holds_put_other [OF assms(1) src, where s = s']) (use dst len assms(4) in simp_all)
  show "mload s (t_data t) (unat (t_num_bytes t)) m = Inr bs" "t_data t \<noteq> nullptr"
    using src unfolding holds_bytes_def by blast+
qed

lemma clone_copies:
  assumes good and ok: "mem_ok m" and src: "holds_bytes dev sp t bs m"
    and new: "Tensor_new (t_shape t) (t_dtype t) dev m = Inr (c, m0)" "t_data c \<noteq> nullptr"
  shows "\<exists>m'. t_clone std t m = Inr (c, m') \<and> t_to std dev t m = Inr (c, m') \<and> mem_ok m' \<and>
    holds_bytes dev sp c bs m' \<and> holds_bytes dev sp t bs m' \<and> t_data c \<noteq> t_data t"
proof -
  have dev: "t_device t = Some dev" and bytes: "shape_bytes (t_shape t) (t_dtype t) = Inr (t_num_bytes t)"
    using src unfolding holds_bytes_def by blast+
  from new_tensor [OF assms(1) ok bytes] new have c: "t_shape c = t_shape t" "t_dtype c = t_dtype t"
    "t_device c = Some dev" "t_num_bytes c = t_num_bytes t" "fresh_tensor sp c m m0" by auto
  have ok0: "mem_ok m0" and region: "map_of (m_regions m0) (t_data c) = Some (unat (t_num_bytes t), sp)"
    using c(4,5) by (simp_all add: fresh_tensor_def)
  have "holds_bytes dev sp t bs m0" "t_data c \<noteq> t_data t" using holds_fresh [OF src c(5)] by simp_all
  note I = copy_into [OF ok0 this(1) region this(2) c(3) _ c(4)] this(2)
  have b: "shape_bytes (t_shape c) (t_dtype c) = Inr (t_num_bytes c)" using bytes c by simp
  have "dev_copy_within dev (t_data c) (t_data t) (t_num_bytes t) m0 = Inr (put_bytes (t_data c) bs m0)"
    by (rule copy_within_ok [OF assms(1) ok0]) (use I b in auto)
  then have copy: "t_copy_from std c t m0 = Inr (put_bytes (t_data c) bs m0)"
    using dev c by (simp add: t_copy_from_def Let_def)
  then have "t_clone std t m = Inr (c, put_bytes (t_data c) bs m0)" using new dev by (simp add: t_clone_def)
  moreover have "t_to std dev t m = Inr (c, put_bytes (t_data c) bs m0)" using new dev copy by (simp add: t_to_def)
  moreover have "mem_ok (put_bytes (t_data c) bs m0)" using ok0 by simp
  ultimately show ?thesis using I(4,5) [OF b] I(8) by blast
qed

lemma upload_copies:
  assumes good and ok: "mem_ok m" and src: "holds_bytes host Host t bs m" and type: "dev_type host = kCPU" "dev_type dev \<noteq> kCPU"
    and new: "Tensor_new (t_shape t) (t_dtype t) dev m = Inr (c, m0)" "t_data c \<noteq> nullptr"
  shows "\<exists>m'. t_to std dev t m = Inr (c, m') \<and> mem_ok m' \<and> holds_bytes dev sp c bs m' \<and> holds_bytes host Host t bs m' \<and>
    t_num_bytes c = t_num_bytes t \<and> t_shape c = t_shape t \<and> t_dtype c = t_dtype t"
proof -
  have dev: "t_device t = Some host" and bytes: "shape_bytes (t_shape t) (t_dtype t) = Inr (t_num_bytes t)"
    using src unfolding holds_bytes_def by blast+
  from new_tensor [OF assms(1) ok bytes] new have c: "t_shape c = t_shape t" "t_dtype c = t_dtype t"
    "t_device c = Some dev" "t_num_bytes c = t_num_bytes t" "fresh_tensor sp c m m0" by auto
  have ok0: "mem_ok m0" and region: "map_of (m_regions m0) (t_data c) = Some (unat (t_num_bytes t), sp)"
    using c(4,5) by (simp_all add: fresh_tensor_def)
  have "holds_bytes host Host t bs m0" "t_data c \<noteq> t_data t" using holds_fresh [OF src c(5)] by simp_all
  note I = copy_into [OF ok0 this(1) region this(2) c(3) _ c(4)]
  have b: "shape_bytes (t_shape c) (t_dtype c) = Inr (t_num_bytes c)" using bytes c by simp
  have "dev_copy_to_device dev (t_data c) (t_data t) (t_num_bytes t) m0 = Inr (put_bytes (t_data c) bs m0)"
    by (rule copy_in_ok [OF assms(1) ok0]) (use I b in auto)
  then have "t_to std dev t m = Inr (c, put_bytes (t_data c) bs m0)"
    using new dev type by (simp add: t_to_def CopyAcrossDevices_def)
  moreover have "mem_ok (put_bytes (t_data c) bs m0)" using ok0 by simp
  ultimately show ?thesis using I(4,5) [OF b] c by blast
qed

lemma download_copies:
  assumes good and src: "holds_bytes dev sp t bs m" and type: "dev_type host = kCPU" "dev_type dev \<noteq> kCPU"
    and new: "Tensor_new (t_shape t) (t_dtype t) host m = Inr (c, m0)"
    and c: "t_shape c = t_shape t" "t_dtype c = t_dtype t" "t_device c = Some host" "t_num_bytes c = t_num_bytes t"
      "fresh_tensor Host c m m0"
  shows "\<exists>m'. t_to std host t m = Inr (c, m') \<and> mem_ok m' \<and> holds_bytes host Host c bs m'"
proof -
  have dev: "t_device t = Some dev" and bytes: "shape_bytes (t_shape t) (t_dtype t) = Inr (t_num_bytes t)"
    using src unfolding holds_bytes_def by blast+
  have ok0: "mem_ok m0" and region: "map_of (m_regions m0) (t_data c) = Some (unat (t_num_bytes t), Host)"
    using c(4,5) by (simp_all add: fresh_tensor_def)
  have "holds_bytes dev sp t bs m0" "t_data c \<noteq> t_data t" using holds_fresh [OF src c(5)] by simp_all
  note I = copy_into [OF ok0 this(1) region this(2) c(3) _ c(4)]
  have b: "shape_bytes (t_shape c) (t_dtype c) = Inr (t_num_bytes c)" using bytes c by simp
  have "dev_copy_to_host dev (t_data c) (t_data t) (t_num_bytes t) m0 = Inr (put_bytes (t_data c) bs m0)"
    by (rule copy_out_ok [OF assms(1) ok0]) (use I b in auto)
  then have "t_to std host t m = Inr (c, put_bytes (t_data c) bs m0)"
    using new dev type by (simp add: t_to_def CopyAcrossDevices_def)
  moreover have "mem_ok (put_bytes (t_data c) bs m0)" using ok0 by simp
  ultimately show ?thesis using I(4) [OF b] by blast
qed

end

section \<open>Fills of a fresh tensor\<close>

lemma fresh_keep_outside:
  assumes ok: "mem_ok m" and fresh: "fresh_tensor sp t m m0" and regions: "m_regions m1 = m_regions m0"
    and outside: "\<forall>a. a < t_data t \<or> t_data t + unat (t_num_bytes t) \<le> a \<longrightarrow> m_val m1 a = m_val m0 a"
  shows "fresh_tensor sp t m m1"
proof -
  have "mload s q k m1 = Inr bs" if load: "mload s q k m = Inr bs" for s q k bs
  proof (cases "k = 0")
    case True
    with load show ?thesis by (simp add: mload_def)
  next
    case False
    with load have "within s q k m" by (simp add: mload_eq)
    then obtain a l where a: "map_of (m_regions m) a = Some (l, s)" "a \<le> q" "q + k \<le> a + l"
      using within_region [OF mem_ok_umap [OF ok]] by blast
    have "a \<noteq> t_data t" "map_of (m_regions m0) a = Some (l, s)" "mem_ok m0"
      "map_of (m_regions m0) (t_data t) = Some (unat (t_num_bytes t), sp)"
      using fresh a(1) unfolding fresh_tensor_def by auto
    then have "t_data t + unat (t_num_bytes t) \<le> a \<or> a + l \<le> t_data t" using regions_apart by metis
    with a have far: "q + k \<le> t_data t \<or> t_data t + unat (t_num_bytes t) \<le> q" by linarith
    have "mload s q k m0 = Inr bs" using fresh load unfolding fresh_tensor_def by blast
    moreover have "map (m_val m1) [q..<q + k] = map (m_val m0) [q..<q + k]" using outside far by auto
    ultimately show ?thesis by (simp add: mload_eq within_def regions)
  qed
  moreover have "mem_ok m1 = mem_ok m0" by (simp only: mem_ok_def regions)
  ultimately show ?thesis using fresh unfolding fresh_tensor_def regions by blast
qed

lemma fill_fresh:
  assumes ok: "mem_ok m" and fresh: "fresh_tensor Host t m m0"
    and elems: "num_elements (t_shape t) = Inr ne" "0 < ne" "ne < 2 ^ 63"
    and bytes: "unat (t_num_bytes t) = nat ne * unat (kDTypeSize (t_dtype t))"
    and val: "unat (kDTypeSize (t_dtype t)) \<le> length value"
  shows "\<exists>m'. t_fill value t m0 = Inr m' \<and> fresh_tensor Host t m m' \<and>
    mload Host (t_data t) (unat (t_num_bytes t)) m' = Inr (concat (replicate (nat ne) (take (unat (kDTypeSize (t_dtype t))) value)))"
proof -
  let ?k = "kDTypeSize (t_dtype t)" and ?bs = "take (unat (kDTypeSize (t_dtype t))) value" and ?n = "of_int ne :: size_t"
  have w: "?n = of_nat (nat ne)" using elems(2) by (metis less_imp_le nat_0_le of_int_of_nat_eq)
  have "nat ne < 18446744073709551616" using elems(3) by simp
  then have n: "unat ?n = nat ne" unfolding w by (rule unat_of_nat_size)
  have k: "0 < unat ?k" "length ?bs = unat ?k" using kDTypeSize_pos val by simp_all
  have ok0: "mem_ok m0" and region: "map_of (m_regions m0) (t_data t) = Some (unat (t_num_bytes t), Host)"
    using fresh by (simp_all add: fresh_tensor_def)
  have w0: "within Host (t_data t) (unat ?n * unat ?k) m0"
    using within_of_region [OF mem_ok_umap [OF ok0] region] bytes n by simp
  define m1 where "m1 = put_bytes (t_data t) ?bs m0"
  have pos: "1 \<le> unat ?n" using n elems(2) by simp
  have "1 * unat ?k \<le> unat ?n * unat ?k" using pos by (rule mult_le_mono1)
  then have first: "within Host (t_data t) (length ?bs) m0" using within_zero_prefix [OF w0] k(2) by simp
  have store: "mstore Host (t_data t) ?bs m0 = Inr m1" unfolding m1_def mstore_def using first k by auto
  have one: "min (unat (1 :: size_t)) (unat ?n) = 1" using pos by simp
  have "\<exists>m'. fill_loop (Suc 64) (t_data t) ?k ?n 1 m1 = Inr m' \<and> m_regions m' = m_regions m1 \<and>
    mload Host (t_data t) (unat ?n * unat ?k) m' = Inr (concat (replicate (unat ?n) ?bs)) \<and>
    (\<forall>a. a < t_data t \<or> t_data t + unat ?n * unat ?k \<le> a \<longrightarrow> m_val m' a = m_val m1 a)"
  proof (rule fill_loop_ok)
    show "within Host (t_data t) (unat ?n * unat ?k) m1" using w0 by (simp add: m1_def)
    show "unat ?k = length ?bs" "?k \<noteq> 0" using k by (simp_all add: unat_gt_0)
    show "unat ?n * unat ?k < 2 ^ 64" using bytes n unat_less_mult [of "t_num_bytes t"] by simp
    show "unat ?n \<le> 2 ^ 63" using n elems(3) by simp
    show "mload Host (t_data t) (min (unat (1 :: size_t)) (unat ?n) * unat ?k) m1 =
        Inr (concat (replicate (min (unat (1 :: size_t)) (unat ?n)) ?bs))"
      unfolding one using mload_put_same [OF first] k by (simp add: m1_def)
    show "(0 :: size_t) < 1" by simp
    show "unat ?n \<le> unat (1 :: size_t) * 2 ^ 64" using unat_less_mult [of ?n] by simp
  qed
  then obtain m' where loop: "fill_loop (Suc 64) (t_data t) ?k ?n 1 m1 = Inr m'" "m_regions m' = m_regions m0"
    "mload Host (t_data t) (unat ?n * unat ?k) m' = Inr (concat (replicate (unat ?n) ?bs))"
    "\<forall>a. a < t_data t \<or> t_data t + unat ?n * unat ?k \<le> a \<longrightarrow> m_val m' a = m_val m1 a"
    unfolding m1_def by auto
  have "?n \<noteq> 0" using pos by auto
  with loop(1) store val elems(1) have run: "t_fill value t m0 = Inr m'"
    by (simp add: t_fill_def t_num_elements_def read_object_def Let_def del: fill_loop.simps(2))
  have "m_val m1 a = m_val m0 a" if "a < t_data t \<or> t_data t + unat ?n * unat ?k \<le> a" for a
  proof -
    have "length ?bs \<le> unat ?n * unat ?k" using k(2) \<open>1 * unat ?k \<le> unat ?n * unat ?k\<close> by simp
    with that show ?thesis by (auto simp: m1_def put_bytes_def)
  qed
  then have "fresh_tensor Host t m m'"
    using fresh_keep_outside [OF ok fresh loop(2)] loop(4) bytes n by simp
  with run loop(3) bytes n show ?thesis by simp
qed

section \<open>Properties\<close>

text \<open>
  C6: \<open>Tensor::Full\<close> on the CPU device returns, when the allocation succeeds, a tensor in new memory
  in which every element is the value it was given, and leaves all other memory as it was: the
  doubling loop ends and stays inside the buffer. When the allocation fails it writes through a null
  pointer.
\<close>

theorem tensor_full_fills:
  assumes "memalign_ok new" and "mem_ok m" and "length ds \<le> kMaxDim" and "dims_fit ds" and "ds \<noteq> []"
    and "nat (prod_list ds) * unat (kDTypeSize dt) < 2 ^ 64" and "unat (kDTypeSize dt) \<le> length value"
  defines "bytes \<equiv> of_int (prod_list ds) * kDTypeSize dt"
  shows "dev_allocate (CPUDevice new) bytes m = Inr (nullptr, m) \<and>
      Tensor_Full (TensorShape_init ds) dt (CPUDevice new) value m = Inl Out_Of_Bounds \<or>
    (\<exists>t m'. Tensor_Full (TensorShape_init ds) dt (CPUDevice new) value m = Inr (t, m') \<and> t_dtype t = dt \<and>
      holds_bytes (CPUDevice new) Host t (concat (replicate (nat (prod_list ds)) (take (unat (kDTypeSize dt)) value))) m' \<and>
      fresh_tensor Host t m m')"
proof -
  note sh = TensorShape_init_ok [OF assms(3)]
  note B = shape_bytes_ok [OF sh(1), unfolded sh(2), OF assms(4,5,6), folded bytes_def]
  have elems: "num_elements (TensorShape_init ds) = Inr (prod_list ds)" "0 < prod_list ds" "prod_list ds < 2 ^ 63"
    using num_elements_ok [OF sh(1)] assms(4,5) dims_fit_partial(3,4) [OF assms(4), of 0]
    by (simp_all add: sh(2)) (simp add: TensorShape_init_def)
  from cpu.new_tensor [OF assms(1,2) B(1)] obtain t m0 where t:
    "Tensor_new (TensorShape_init ds) dt (CPUDevice new) m = Inr (t, m0)" "t_shape t = TensorShape_init ds" "t_dtype t = dt"
    "t_device t = Some (CPUDevice new)" "t_num_bytes t = bytes"
    and cases: "t_data t = nullptr \<and> m0 = m \<and> dev_allocate (CPUDevice new) bytes m = Inr (nullptr, m) \<or>
      t_data t \<noteq> nullptr \<and> bytes \<noteq> 0 \<and> fresh_tensor Host t m m0" by blast
  from cases show ?thesis
  proof
    assume null: "t_data t = nullptr \<and> m0 = m \<and> dev_allocate (CPUDevice new) bytes m = Inr (nullptr, m)"
    have "\<not> within Host nullptr k m" for k
      using assms(2) within_region [OF mem_ok_umap [OF assms(2)], of Host 0 k] unfolding mem_ok_def by fastforce
    moreover have "(of_int (prod_list ds) :: size_t) \<noteq> 0" using B(3) elems(2) by auto
    moreover have "take (unat (kDTypeSize dt)) value \<noteq> []" using kDTypeSize_pos [of dt] assms(7) by (cases "value") auto
    ultimately have "t_fill value t m = Inl Out_Of_Bounds"
      using null t elems(1) assms(7) by (simp add: t_fill_def t_num_elements_def read_object_def mstore_def Let_def)
    with t(1) null show ?thesis by (simp add: Tensor_Full_def)
  next
    assume ok: "t_data t \<noteq> nullptr \<and> bytes \<noteq> 0 \<and> fresh_tensor Host t m m0"
    obtain m' where m': "t_fill value t m0 = Inr m'" "fresh_tensor Host t m m'"
      "mload Host (t_data t) (unat (t_num_bytes t)) m' = Inr (concat (replicate (nat (prod_list ds)) (take (unat (kDTypeSize dt)) value)))"
      using fill_fresh [OF assms(2) conjunct2 [OF conjunct2 [OF ok]], of "prod_list ds" "value"] elems t B(2) assms(7) by auto
    have "holds_bytes (CPUDevice new) Host t (concat (replicate (nat (prod_list ds)) (take (unat (kDTypeSize dt)) value))) m'"
      using ok t m'(2,3) B(1) by (simp add: holds_bytes_def fresh_tensor_def)
    with t(1,3) m'(1,2) show ?thesis by (simp add: Tensor_Full_def)
  qed
qed

text \<open>
  The overloads of \<open>Full\<close> for a \<open>float\<close> and an \<open>int32_t\<close> read past their argument when the
  element type has eight bytes.
\<close>

theorem full_scalar_reads_past_value:
  assumes "memalign_ok new" and "mem_ok m" and "length ds \<le> kMaxDim" and "dims_fit ds" and "ds \<noteq> []"
    and "nat (prod_list ds) * 8 < 2 ^ 64" and "kDTypeSize dt = 8"
  shows "Tensor_Full_float ds dt (CPUDevice new) x m = Inl Out_Of_Bounds \<and>
    Tensor_Full_int32 ds dt (CPUDevice new) x m = Inl Out_Of_Bounds"
proof -
  note sh = TensorShape_init_ok [OF assms(3)]
  have fit: "nat (prod_list ds) * unat (kDTypeSize dt) < 2 ^ 64" using assms(6,7) by simp
  note B = shape_bytes_ok [OF sh(1), unfolded sh(2), OF assms(4,5) fit]
  have elems: "num_elements (TensorShape_init ds) = Inr (prod_list ds)" "0 < prod_list ds"
    using num_elements_ok [OF sh(1)] assms(4,5) dims_fit_partial(3) [OF assms(4), of 0]
    by (simp_all add: sh(2)) (simp add: TensorShape_init_def)
  have n: "(of_int (prod_list ds) :: size_t) \<noteq> 0" using B(3) elems(2) by auto
  obtain t m0 where "Tensor_new (TensorShape_init ds) dt (CPUDevice new) m = Inr (t, m0)"
    "t_shape t = TensorShape_init ds" "t_dtype t = dt" using cpu.new_tensor [OF assms(1,2) B(1)] by blast
  with n elems(1) assms(7) show ?thesis
    by (simp add: Tensor_Full_float_def Tensor_Full_int32_def Tensor_Full_def t_fill_def t_num_elements_def read_object_def Let_def)
qed

text \<open>
  C7: a tensor copied from the CPU to a CUDA device and back holds the bytes it held, in memory of
  its own, as long as the two allocations succeed; the original is kept. Cloning it gives such a copy
  too.
\<close>

theorem tensor_device_roundtrip:
  assumes "memalign_ok new" and "cuda_ok api i" and "mem_ok m" and "holds_bytes (CPUDevice new) Host t bs m"
  shows "(\<exists>g m1. t_to std (CudaDevice api i) t m = Inr (g, m1) \<and>
      (t_bool g \<longrightarrow> holds_bytes (CPUDevice new) Host t bs m1 \<and> holds_bytes (CudaDevice api i) (Gpu (cu_current api)) g bs m1 \<and>
        (\<exists>c m2. t_to std (CPUDevice new) g m1 = Inr (c, m2) \<and> (t_bool c \<longrightarrow> holds_bytes (CPUDevice new) Host c bs m2)))) \<and>
    (dev_allocate (CPUDevice new) (t_num_bytes t) m \<noteq> Inr (nullptr, m) \<longrightarrow>
      (\<exists>c m'. t_clone std t m = Inr (c, m') \<and> t_data c \<noteq> t_data t \<and> holds_bytes (CPUDevice new) Host c bs m' \<and>
         holds_bytes (CPUDevice new) Host t bs m'))"
proof (rule conjI)
  let ?cpu = "CPUDevice new" and ?gpu = "CudaDevice api i"
  have type: "dev_type ?cpu = kCPU" "dev_type ?gpu \<noteq> kCPU" by (simp_all add: CPUDevice_def CudaDevice_def)
  have bytes: "shape_bytes (t_shape t) (t_dtype t) = Inr (t_num_bytes t)" "t_device t = Some ?cpu"
    using assms(4) unfolding holds_bytes_def by blast+
  show "\<exists>g m1. t_to std ?gpu t m = Inr (g, m1) \<and>
      (t_bool g \<longrightarrow> holds_bytes ?cpu Host t bs m1 \<and> holds_bytes ?gpu (Gpu (cu_current api)) g bs m1 \<and>
        (\<exists>c m2. t_to std ?cpu g m1 = Inr (c, m2) \<and> (t_bool c \<longrightarrow> holds_bytes ?cpu Host c bs m2)))"
  proof -
    obtain g m0 where g: "Tensor_new (t_shape t) (t_dtype t) ?gpu m = Inr (g, m0)"
      using cuda.new_tensor [OF assms(2,3) bytes(1)] by blast
    show ?thesis
    proof (cases "t_data g = nullptr")
      case True
      with g bytes(2) type have "t_to std ?gpu t m = Inr (g, m0)"
        by (simp add: t_to_def CopyAcrossDevices_def)
          (simp add: CudaDevice_def CudaDevice_copy_to_device_def cuda_copy_def)
      with True show ?thesis by (simp add: t_bool_def)
    next
      case False
      obtain m1 where up: "t_to std ?gpu t m = Inr (g, m1)" "mem_ok m1" "holds_bytes ?gpu (Gpu (cu_current api)) g bs m1"
        "holds_bytes ?cpu Host t bs m1" "t_num_bytes g = t_num_bytes t" "t_shape g = t_shape t" "t_dtype g = t_dtype t"
        using cuda.upload_copies [OF assms(2,3,4) type g False] by blast
      have gb: "shape_bytes (t_shape g) (t_dtype g) = Inr (t_num_bytes g)" "t_device g = Some ?gpu"
        using up(3) unfolding holds_bytes_def by blast+
      obtain c m0' where c: "Tensor_new (t_shape g) (t_dtype g) ?cpu m1 = Inr (c, m0')" "t_shape c = t_shape g"
        "t_dtype c = t_dtype g" "t_device c = Some ?cpu" "t_num_bytes c = t_num_bytes g"
        "t_data c = nullptr \<or> t_data c \<noteq> nullptr \<and> fresh_tensor Host c m1 m0'"
        using cpu.new_tensor [OF assms(1) up(2) gb(1)] by blast
      have "\<exists>m2. t_to std ?cpu g m1 = Inr (c, m2) \<and> (t_bool c \<longrightarrow> holds_bytes ?cpu Host c bs m2)"
      proof (cases "t_data c = nullptr")
        case True
        with c(1) gb(2) type have "t_to std ?cpu g m1 = Inr (c, m0')"
          by (simp add: t_to_def CopyAcrossDevices_def)
            (simp add: CudaDevice_def CudaDevice_copy_to_host_def cuda_copy_def)
        with True show ?thesis by (simp add: t_bool_def)
      next
        case fresh: False
        with c(6) have "fresh_tensor Host c m1 m0'" by blast
        from cuda.download_copies [OF assms(2) up(3) type c(1-5) this] show ?thesis by blast
      qed
      with up(1,3,4) show ?thesis by blast
    qed
  qed
  show "dev_allocate ?cpu (t_num_bytes t) m \<noteq> Inr (nullptr, m) \<longrightarrow>
      (\<exists>c m'. t_clone std t m = Inr (c, m') \<and> t_data c \<noteq> t_data t \<and> holds_bytes ?cpu Host c bs m' \<and>
         holds_bytes ?cpu Host t bs m')"
  proof
    assume "dev_allocate ?cpu (t_num_bytes t) m \<noteq> Inr (nullptr, m)"
    then obtain c m0 where "Tensor_new (t_shape t) (t_dtype t) ?cpu m = Inr (c, m0)" "t_data c \<noteq> nullptr"
      using cpu.new_tensor [OF assms(1,3) bytes(1)] by blast
    from cpu.clone_copies [OF assms(1,3,4) this] show "\<exists>c m'. t_clone std t m = Inr (c, m') \<and> t_data c \<noteq> t_data t \<and>
        holds_bytes ?cpu Host c bs m' \<and> holds_bytes ?cpu Host t bs m'" by blast
  qed
qed

lemma tensor_full_fills_witness:
  "\<exists>t m'. Tensor_Full (TensorShape_init [2, 3]) kInt8 (CPUDevice bump_memalign) [7, 9] mem_empty = Inr (t, m') \<and>
     holds_bytes (CPUDevice bump_memalign) Host t [7, 7, 7, 7, 7, 7] m'"
proof -
  have "dev_allocate (CPUDevice bump_memalign) (of_int (prod_list [2, 3]) * kDTypeSize kInt8) mem_empty \<noteq> Inr (nullptr, mem_empty)"
    by (simp add: CPUDevice_def CPUDevice_allocate_def posix_memalign_def valid_alignment_def kDefaultAlignment_def
        new_region_def bump_memalign_def mem_empty_def extents_def rbind_eq_Inr bump_new_def)
  moreover have "replicate 6 x = [x, x, x, x, x, x]" for x :: byte by (simp add: numeral_eq_Suc)
  ultimately show ?thesis
    using tensor_full_fills [OF bump_memalign_ok mem_empty_ok, of "[2, 3]" kInt8 "[7, 9]"]
    by (auto simp: kMaxDim_def dims_fit_def)
qed

lemma full_scalar_reads_past_value_witness:
  "Tensor_Full_float [2] kFloat64 (CPUDevice bump_memalign) 5 mem_empty = Inl Out_Of_Bounds"
  using full_scalar_reads_past_value [OF bump_memalign_ok mem_empty_ok, of "[2]" kFloat64 5]
  by (simp add: kMaxDim_def dims_fit_def)

definition sample_tensor :: Tensor where
  "sample_tensor = \<lparr>t_shape = TensorShape_init [4], t_dtype = kInt8, t_layout = kContiguous,
     t_device = Some (CPUDevice bump_memalign),
     t_buffer = \<lparr>bh_data = 64, bh_bytes = 4, bh_device = kCPU, bh_device_ptr = Some (CPUDevice bump_memalign),
       bh_dealloc = Some (dev_deallocate (CPUDevice bump_memalign)), bh_owns = True\<rparr>\<rparr>"

definition sample_mem :: mem where "sample_mem = \<lparr>m_val = (\<lambda>_. 5), m_regions = [(64, 4, Host)]\<rparr>"

lemma sample_holds: "mem_ok sample_mem" "holds_bytes (CPUDevice bump_memalign) Host sample_tensor [5, 5, 5, 5] sample_mem"
  "t_num_bytes sample_tensor = 4" "t_dtype sample_tensor = kInt8" "t_shape sample_tensor = TensorShape_init [4]"
  "t_device sample_tensor = Some (CPUDevice bump_memalign)"
proof -
  show "mem_ok sample_mem" by (simp add: mem_ok_def sample_mem_def)
  have "shape_bytes (TensorShape_init [4]) kInt8 = Inr 4"
    using shape_bytes_ok(1) [of "TensorShape_init [4]" kInt8] TensorShape_init_ok [of "[4]"]
    by (simp add: kMaxDim_def dims_fit_def)
  then show "holds_bytes (CPUDevice bump_memalign) Host sample_tensor [5, 5, 5, 5] sample_mem"
    by (simp add: holds_bytes_def sample_tensor_def sample_mem_def t_data_def t_num_bytes_def mload_def within_def upt_rec)
qed (simp_all add: t_num_bytes_def sample_tensor_def)

lemma tensor_device_roundtrip_witness:
  "\<exists>g m1 c m2. t_to bump_new (CudaDevice (model_cuda bump_new 1) 0) sample_tensor sample_mem = Inr (g, m1) \<and> t_bool g \<and>
     t_to bump_new (CPUDevice bump_memalign) g m1 = Inr (c, m2) \<and>
     (t_bool c \<longrightarrow> holds_bytes (CPUDevice bump_memalign) Host c [5, 5, 5, 5] m2)"
proof -
  have ok: "cuda_ok (model_cuda bump_new 1) 0" by (rule model_cuda_ok [OF bump_new_fresh]) simp
  have bytes: "shape_bytes (TensorShape_init [4]) kInt8 = Inr 4"
    using sample_holds(2-5) by (simp add: holds_bytes_def)
  have "t_bool g" if "t_to bump_new (CudaDevice (model_cuda bump_new 1) 0) sample_tensor sample_mem = Inr (g, m1)" for g m1
    using that bytes
    by (simp add: t_to_def sample_holds Tensor_new_def BufferHandle_new_def rbind_eq_Inr CudaDevice_def CudaDevice_allocate_def
        cuda_available_def model_cuda_def new_region_def bump_new_def sample_mem_def extents_def t_bool_def t_data_def
        split: if_splits prod.splits) auto
  with tensor_device_roundtrip [OF bump_memalign_ok ok sample_holds(1,2), of bump_new] show ?thesis by blast
qed

end
