(* ===== verification/Tensor_Views.thy ===== *)
theory Tensor_Views
  imports Tensor_Ops
begin

text \<open>
  \<open>tensor/tensor.cpp\<close>, class \<open>TensorView\<close> and the operations of \<open>Tensor\<close> that return one: addresses of
  elements, reshape, slice and transpose. Indices are the 32-bit \<open>int\<close>s of the one instantiation the file
  has, \<open>at<int>\<close> and \<open>offset<int>\<close>, so they stay below \<open>2 ^ 31\<close> while a dimension need not.
\<close>

section \<open>Views\<close>

record TensorView =
  v_data :: ptr
  v_shape :: TensorShape
  v_dtype :: DType
  v_device :: DeviceType
  v_layout :: Layout
  v_strides :: "index_t list"

definition TensorView_default :: TensorView where
  "TensorView_default = \<lparr>v_data = nullptr, v_shape = TensorShape_default, v_dtype = kFloat32, v_device = kCPU,
     v_layout = kContiguous, v_strides = []\<rparr>"

definition TensorView_of :: "Tensor \<Rightarrow> TensorView comp" where
  "TensorView_of t = rbind (deref (t_device t)) (\<lambda>d. rbind (strides (t_shape t)) (\<lambda>st.
     Inr \<lparr>v_data = t_data t, v_shape = t_shape t, v_dtype = t_dtype t, v_device = dev_type d,
          v_layout = t_layout t, v_strides = st\<rparr>))"

definition TensorView_data :: "ptr \<Rightarrow> TensorShape \<Rightarrow> DType \<Rightarrow> DeviceType \<Rightarrow> Layout \<Rightarrow> TensorView comp" where
  "TensorView_data data sh dt dev l = rbind (strides sh) (\<lambda>st.
     Inr \<lparr>v_data = data, v_shape = sh, v_dtype = dt, v_device = dev, v_layout = l, v_strides = st\<rparr>)"

definition TensorView_strided :: "TensorShape \<Rightarrow> DType \<Rightarrow> DeviceType \<Rightarrow> Layout \<Rightarrow> index_t list \<Rightarrow> ptr \<Rightarrow> TensorView" where
  "TensorView_strided sh dt dev l st data =
     \<lparr>v_data = data, v_shape = sh, v_dtype = dt, v_device = dev, v_layout = l, v_strides = st\<rparr>"

definition v_num_bytes :: "TensorView \<Rightarrow> size_t comp" where
  "v_num_bytes v = shape_bytes (v_shape v) (v_dtype v)"

definition v_stride :: "TensorView \<Rightarrow> size_t \<Rightarrow> index_t comp" where
  "v_stride v i = aget (v_strides v) (unat i)"

text \<open>An index is a vector of \<open>int\<close>, promoted to the type of the strides before it is multiplied.\<close>

type_synonym cint = "32 word"

definition v_offset :: "TensorView \<Rightarrow> cint list \<Rightarrow> size_t comp" where
  "v_offset v indices =
     for_each (\<lambda>i offset. rbind (aget indices i) (\<lambda>x. rbind (aget (v_strides v) i) (\<lambda>s.
         rbind (s64 (sint x * s)) (\<lambda>p. Inr (offset + of_int p)))))
       [0..<min (length indices) (length (v_strides v))] 0"

definition v_at :: "TensorView \<Rightarrow> cint list \<Rightarrow> ptr comp" where
  "v_at v indices = rbind (v_offset v indices) (\<lambda>offset. Inr (v_data v + unat (offset * kDTypeSize (v_dtype v))))"

fun contiguous_loop :: "TensorView \<Rightarrow> nat list \<Rightarrow> index_t \<Rightarrow> bool comp" where
  "contiguous_loop v [] expected = Inr True"
| "contiguous_loop v (i # is) expected =
     rbind (aget (v_strides v) i) (\<lambda>s.
       if s \<noteq> expected then Inr False
       else rbind (aget (shp_dims (v_shape v)) i) (\<lambda>d. rbind (s64 (expected * d)) (contiguous_loop v is)))"

definition v_is_contiguous :: "TensorView \<Rightarrow> bool comp" where
  "v_is_contiguous v =
     (if v_layout v \<noteq> kContiguous then Inr False
      else contiguous_loop v (rev [0..<nat (shp_ndims (v_shape v))]) 1)"

definition v_clone :: "cuda_api \<Rightarrow> TensorView \<Rightarrow> DeviceManager \<times> mem \<Rightarrow> (Tensor \<times> DeviceManager \<times> mem) comp" where
  "v_clone api v = (\<lambda>(dm, m).
     rbind (get_device api (v_device v) 0 dm) (\<lambda>(device, dm'). rbind (deref device) (\<lambda>dp.
       let d = dp_dev dp in
       rbind (Tensor_new (v_shape v) (v_dtype v) d m) (\<lambda>(t, m1). rbind (v_num_bytes v) (\<lambda>bytes.
         rbind (dev_copy_to_device d (t_data t) (v_data v) bytes m1) (\<lambda>m2. Inr (t, dm', m2)))))))"

section \<open>Views of a tensor\<close>

definition t_view :: "Tensor \<Rightarrow> TensorView comp" where
  "t_view t = TensorView_of t"

definition t_stride :: "Tensor \<Rightarrow> size_t \<Rightarrow> index_t comp" where
  "t_stride t i = rbind (strides (t_shape t)) (\<lambda>st. aget st (unat i))"

definition t_reshape :: "TensorShape \<Rightarrow> Tensor \<Rightarrow> TensorView comp" where
  "t_reshape new_shape t = rbind (deref (t_device t)) (\<lambda>d.
     TensorView_data (t_data t) new_shape (t_dtype t) (dev_type d) (t_layout t))"

definition t_slice :: "size_t \<Rightarrow> index_t \<Rightarrow> index_t \<Rightarrow> Tensor \<Rightarrow> TensorView comp" where
  "t_slice dim start fin t =
     rbind (s64 (fin - start)) (\<lambda>w. rbind (shape_set_dim (t_shape t) dim w) (\<lambda>new_shape.
     rbind (t_stride t dim) (\<lambda>s. rbind (s64 (start * s)) (\<lambda>p.
       let offset = of_int p; data_ptr = t_data t + unat (offset * kDTypeSize (t_dtype t)) in
       rbind (deref (t_device t)) (\<lambda>d. TensorView_data data_ptr new_shape (t_dtype t) (dev_type d) (t_layout t))))))"

definition t_transpose :: "size_t \<Rightarrow> size_t \<Rightarrow> Tensor \<Rightarrow> TensorView comp" where
  "t_transpose dim0 dim1 t =
     (let sh = t_shape t in
      rbind (shape_dim sh dim0) (\<lambda>a. rbind (shape_dim sh dim1) (\<lambda>b.
      rbind (shape_set_dim sh dim0 b) (\<lambda>sh1. rbind (shape_set_dim sh1 dim1 a) (\<lambda>new_shape.
      rbind (strides sh) (\<lambda>st. rbind (aget st (unat dim0)) (\<lambda>x. rbind (aget st (unat dim1)) (\<lambda>y.
      rbind (aset st (unat dim0) y) (\<lambda>st1. rbind (aset st1 (unat dim1) x) (\<lambda>new_strides.
      rbind (deref (t_device t)) (\<lambda>d.
        Inr (TensorView_strided new_shape (t_dtype t) (dev_type d) kStrided new_strides (t_data t)))))))))))))"

section \<open>Row-major positions\<close>

text \<open>The position of an element among the elements in row-major order.\<close>

fun rank :: "index_t list \<Rightarrow> int list \<Rightarrow> int" where
  "rank (d # ds) (i # is) = i * prod_list ds + rank ds is"
| "rank _ _ = 0"

definition in_range :: "index_t list \<Rightarrow> int list \<Rightarrow> bool" where
  "in_range ds is \<longleftrightarrow> list_all2 (\<lambda>i d. 0 \<le> i \<and> i < d) is ds"

lemma in_range_Cons [simp]:
  "in_range (d # ds) (i # is) \<longleftrightarrow> 0 \<le> i \<and> i < d \<and> in_range ds is" "in_range [] is \<longleftrightarrow> is = []" "in_range (d # ds) [] = False"
  by (auto simp: in_range_def)

lemma length_in_range: "in_range ds is \<Longrightarrow> length is = length ds"
  by (simp add: in_range_def list_all2_lengthD)

lemma in_range_nth: "in_range ds is \<Longrightarrow> k < length ds \<Longrightarrow> 0 \<le> is ! k \<and> is ! k < ds ! k"
  by (simp add: in_range_def list_all2_conv_all_nth)

lemma rank_bounds: "in_range ds ks \<Longrightarrow> 0 \<le> rank ds ks \<and> rank ds ks < prod_list ds"
proof (induction ds arbitrary: ks)
  case Nil
  then show ?case by (cases ks) auto
next
  case (Cons d ds)
  then obtain i js where ks: "ks = i # js" by (cases ks) auto
  with Cons have r: "0 \<le> rank ds js" "rank ds js < prod_list ds" "0 \<le> i" "i + 1 \<le> d" by auto
  have "(i + 1) * prod_list ds \<le> d * prod_list ds" using r by (intro mult_right_mono) auto
  with r ks show ?case by (simp add: distrib_right)
qed

lemma rank_inj: "in_range ds is \<Longrightarrow> in_range ds js \<Longrightarrow> rank ds is = rank ds js \<Longrightarrow> is = js"
proof (induction ds arbitrary: "is" js)
  case (Cons d ds)
  obtain i is' j js' where ij: "is = i # is'" "js = j # js'"
    using Cons.prems(1,2) by (cases "is"; cases js) auto
  have r: "in_range ds is'" "in_range ds js'" using Cons.prems ij by simp_all
  let ?P = "prod_list ds"
  have b: "0 \<le> rank ds is'" "rank ds is' < ?P" "0 \<le> rank ds js'" "rank ds js' < ?P"
    using rank_bounds [OF r(1)] rank_bounds [OF r(2)] by auto
  have eq: "i * ?P + rank ds is' = j * ?P + rank ds js'" using Cons.prems(3) ij by simp
  have "i = (i * ?P + rank ds is') div ?P" "j = (j * ?P + rank ds js') div ?P" using b by simp_all
  with eq have "i = j" by simp
  with eq Cons.IH [OF r] ij show ?case by simp
qed simp

lemma row_major_Cons: "row_major (d # ds) = prod_list ds # row_major ds"
  by (simp add: row_major_def upt_conv_Cons map_Suc_upt [symmetric] comp_def del: upt_Suc)

lemma length_row_major [simp]: "length (row_major ds) = length ds"
  by (simp add: row_major_def)

lemma rank_sum: "length is = length ds \<Longrightarrow> rank ds is = (\<Sum>k < length ds. is ! k * row_major ds ! k)"
proof (induction ds "is" rule: rank.induct)
  case (1 d ds i "is")
  then show ?case by (simp add: row_major_Cons sum.lessThan_Suc_shift del: sum.lessThan_Suc)
qed auto

lemma row_major_pos: "dims_fit ds \<Longrightarrow> k < length ds \<Longrightarrow> 0 < row_major ds ! k"
  using dims_fit_partial(3) by (simp add: row_major_def)

lemma term_bounds:
  assumes "dims_fit ds" and "in_range ds is" and "k < length ds"
  shows "0 \<le> is ! k * row_major ds ! k" and "is ! k * row_major ds ! k < 2 ^ 63"
proof -
  have nonneg: "0 \<le> is ! j * row_major ds ! j" if "j < length ds" for j
    using in_range_nth [OF assms(2) that] row_major_pos [OF assms(1) that] by simp
  then show "0 \<le> is ! k * row_major ds ! k" using assms(3) .
  have "is ! k * row_major ds ! k \<le> (\<Sum>j < length ds. is ! j * row_major ds ! j)"
    using nonneg assms(3) by (intro member_le_sum) auto
  also have "\<dots> = rank ds is" using rank_sum length_in_range [OF assms(2)] by simp
  finally show "is ! k * row_major ds ! k < 2 ^ 63"
    using rank_bounds [OF assms(2)] assms(1) by (simp add: dims_fit_def)
qed

text \<open>The loop of \<open>offset\<close> adds the products of indices and strides.\<close>

lemma v_offset_sum:
  assumes "length indices = length (v_strides v)"
    and "\<forall>k < length indices. - (2 ^ 63) \<le> sint (indices ! k) * v_strides v ! k \<and> sint (indices ! k) * v_strides v ! k < 2 ^ 63"
  shows "v_offset v indices = Inr (of_int (\<Sum>k < length indices. map sint indices ! k * v_strides v ! k))"
proof -
  let ?n = "min (length indices) (length (v_strides v))"
  have "\<exists>t. v_offset v indices = Inr t \<and> t = of_int (\<Sum>k < ?n. sint (indices ! k) * v_strides v ! k)"
    unfolding v_offset_def by (rule for_each_upt) (use assms in \<open>auto simp: s64_def\<close>)
  with assms(1) show ?thesis by simp
qed

lemma contiguous_loop_ok:
  assumes fit: "dims_fit ds" and dims: "\<forall>i < length ds. i < length (shp_dims (v_shape v)) \<and> shp_dims (v_shape v) ! i = ds ! i"
    and len: "length (v_strides v) = length ds" and "k \<le> length ds"
  shows "contiguous_loop v (rev [0..<k]) (prod_list (drop k ds)) = Inr (\<forall>i < k. v_strides v ! i = row_major ds ! i)"
  using assms(4)
proof (induction k)
  case (Suc k)
  have stride: "row_major ds ! k = prod_list (drop (Suc k) ds)" using Suc.prems by (simp add: row_major_def)
  show ?case
  proof (cases "v_strides v ! k = prod_list (drop (Suc k) ds)")
    case True
    have next_p: "prod_list (drop (Suc k) ds) * ds ! k = prod_list (drop k ds)"
      using prod_list_drop_nth [of k ds] Suc.prems by (simp add: mult.commute)
    have "s64 (prod_list (drop k ds)) = Inr (prod_list (drop k ds))"
      using dims_fit_partial(3,4) [OF fit, of k] by (simp add: s64_def)
    with True Suc dims len next_p have "contiguous_loop v (rev [0..<Suc k]) (prod_list (drop (Suc k) ds)) =
        Inr (\<forall>i < k. v_strides v ! i = row_major ds ! i)" by simp
    with True stride show ?thesis by (simp add: less_Suc_eq)
  next
    case False
    with Suc.prems len stride show ?thesis by (auto simp: less_Suc_eq)
  qed
qed simp

lemma view_of_dims:
  assumes "t_shape t = TensorShape_init ds" and "length ds \<le> kMaxDim" and "dims_fit ds" and "t_device t = Some d"
  shows "t_view t = Inr \<lparr>v_data = t_data t, v_shape = TensorShape_init ds, v_dtype = t_dtype t, v_device = dev_type d,
     v_layout = t_layout t, v_strides = row_major ds\<rparr>"
proof -
  note sh = TensorShape_init_ok [OF assms(2)]
  have "strides (t_shape t) = Inr (row_major ds)" using strides_ok [OF sh(1)] assms(1,3) by (simp add: sh(2))
  with assms(1,4) show ?thesis by (simp add: t_view_def TensorView_of_def)
qed

text \<open>The address of an element, over any strides that are the row-major ones.\<close>

lemma v_at_rank:
  assumes "dims_fit ds" and "in_range ds (map sint is)" and "v_strides v = row_major ds"
    and "nat (prod_list ds) * unat (kDTypeSize (v_dtype v)) < 2 ^ 64"
  shows "v_offset v is = Inr (of_int (rank ds (map sint is)))"
    and "v_at v is = Inr (v_data v + nat (rank ds (map sint is)) * unat (kDTypeSize (v_dtype v)))"
proof -
  let ?r = "rank ds (map sint is)"
  have len: "length (map sint is) = length ds" using length_in_range [OF assms(2)] .
  note r = rank_bounds [OF assms(2)]
  have terms: "0 \<le> sint (is ! k) * row_major ds ! k" "sint (is ! k) * row_major ds ! k < 2 ^ 63" if "k < length ds" for k
    using term_bounds [OF assms(1,2) that] that len by simp_all
  show off: "v_offset v is = Inr (of_int ?r)"
    unfolding rank_sum [OF len] using v_offset_sum [of "is" v] terms len assms(3)
    by (simp add: order_trans [of _ 0])
  have w: "of_int ?r = (of_nat (nat ?r) :: size_t)" using r by (metis nat_0_le of_int_of_nat_eq)
  have "nat ?r * unat (kDTypeSize (v_dtype v)) \<le> nat (prod_list ds) * unat (kDTypeSize (v_dtype v))"
    using r by (intro mult_le_mono1 nat_mono) simp
  then have le: "nat ?r * unat (kDTypeSize (v_dtype v)) < 2 ^ 64" using assms(4) by linarith
  have "?r < 2 ^ 63" using r assms(1) by (simp add: dims_fit_def)
  then have n: "unat (of_int ?r :: size_t) = nat ?r"
    unfolding w by (intro unat_of_nat_size) simp
  show "v_at v is = Inr (v_data v + nat ?r * unat (kDTypeSize (v_dtype v)))"
    using unat_mult_bound [of "of_int ?r" "kDTypeSize (v_dtype v)"] le n off by (simp add: v_at_def)
qed

lemma rank_surj:
  "\<forall>d \<in> set ds. 0 < d \<Longrightarrow> 0 \<le> r \<Longrightarrow> r < prod_list ds \<Longrightarrow> \<exists>is. in_range ds is \<and> rank ds is = r"
proof (induction ds arbitrary: r)
  case (Cons d ds)
  let ?P = "prod_list ds"
  have P: "0 < ?P" using Cons.prems(1) by (simp add: prod_list_pos)
  have d: "r < ?P * d" using Cons.prems(3) by (simp add: mult.commute)
  have m: "0 \<le> r mod ?P" "r mod ?P < ?P" using P by simp_all
  have i: "0 \<le> r div ?P" "r div ?P < d"
  proof -
    show "0 \<le> r div ?P" using Cons.prems(2) P by (simp add: pos_imp_zdiv_nonneg_iff)
    show "r div ?P < d"
    proof (rule ccontr)
      assume "\<not> r div ?P < d"
      then have "?P * d \<le> ?P * (r div ?P)" using P by simp
      with d m mult_div_mod_eq [of ?P r] show False by linarith
    qed
  qed
  have "\<exists>is. in_range ds is \<and> rank ds is = r mod ?P" by (rule Cons.IH) (use Cons.prems(1) m in auto)
  then obtain is' where "in_range ds is'" "rank ds is' = r mod ?P" by blast
  with i have "in_range (d # ds) (r div ?P # is')" "rank (d # ds) (r div ?P # is') = r" by simp_all
  then show ?case by blast
qed simp

text \<open>
  Which positions an \<open>int\<close> index reaches: all of them exactly when no dimension exceeds \<open>2 ^ 31\<close>.
\<close>

lemma inj_sint: "inj (sint :: cint \<Rightarrow> int)"
  by (rule injI) (rule signed_word_eqI)

lemma sint_of_index: "0 \<le> i \<Longrightarrow> i < 2 ^ 31 \<Longrightarrow> sint (word_of_int i :: cint) = i"
  by (simp add: signed_of_int signed_take_bit_int_eq_self)

lemma ints_reach:
  assumes "\<forall>d \<in> set ds. d \<le> 2 ^ 31" and "in_range ds js"
  shows "map sint (map word_of_int js :: cint list) = js"
proof (rule nth_equalityI)
  fix k assume k: "k < length (map sint (map word_of_int js :: cint list))"
  then have "0 \<le> js ! k" "js ! k < ds ! k" using in_range_nth [OF assms(2), of k] length_in_range [OF assms(2)] by auto
  moreover have "ds ! k \<le> 2 ^ 31" using assms(1) k length_in_range [OF assms(2)] by simp
  ultimately show "map sint (map word_of_int js :: cint list) ! k = js ! k" using k by (simp add: sint_of_index)
qed simp

lemma far_index:
  assumes "\<forall>d \<in> set ds. 0 < d" and "k < length ds" and "2 ^ 31 < ds ! k"
  shows "in_range ds ((replicate (length ds) 0)[k := 2 ^ 31])"
  using assms by (auto simp: in_range_def list_all2_conv_all_nth nth_list_update)

lemma ranks_of_ints:
  assumes "\<forall>d \<in> set ds. 0 < d"
  shows "(\<forall>r < nat (prod_list ds). \<exists>is. in_range ds (map sint (is :: cint list)) \<and> nat (rank ds (map sint is)) = r) \<longleftrightarrow>
    (\<forall>d \<in> set ds. d \<le> 2 ^ 31)" (is "?reach \<longleftrightarrow> ?small")
proof
  assume small: ?small
  show ?reach
  proof (intro allI impI)
    fix r assume "r < nat (prod_list ds)"
    then have "\<exists>js. in_range ds js \<and> rank ds js = int r" by (intro rank_surj [OF assms]) simp_all
    then obtain js where js: "in_range ds js" "rank ds js = int r" by blast
    with ints_reach [OF small js(1)]
    show "\<exists>is. in_range ds (map sint (is :: cint list)) \<and> nat (rank ds (map sint is)) = r"
      by (intro exI [of _ "map word_of_int js"]) (simp only: nat_int)
  qed
next
  assume reach: ?reach
  show ?small
  proof (rule ccontr)
    assume "\<not> ?small"
    then obtain k where k: "k < length ds" "2 ^ 31 < ds ! k" by (auto simp: in_set_conv_nth not_le)
    let ?js = "(replicate (length ds) 0)[k := 2 ^ 31 :: int]"
    note far = far_index [OF assms k] and rk = rank_bounds [OF far_index [OF assms k]]
    from reach rk obtain "is" :: "cint list" where at: "in_range ds (map sint is)" "nat (rank ds (map sint is)) = nat (rank ds ?js)"
      by (metis nat_less_eq_zless)
    then have "rank ds (map sint is) = rank ds ?js" using at(2) rank_bounds [OF at(1)] rk by (simp add: eq_nat_nat_iff)
    then have eq: "map sint is = ?js" by (rule rank_inj [OF at(1) far])
    then have "map sint is ! k = 2 ^ 31" using k(1) by simp
    moreover have "k < length is" using arg_cong [OF eq, of length] k(1) by simp
    ultimately have "sint (is ! k) = 2 ^ 31" by simp
    with sint_less [of "is ! k"] show False by simp
  qed
qed

section \<open>Properties\<close>

text \<open>
  C12: the view of a tensor addresses its elements in row-major order: every index in range has an
  address whose element lies in the buffer, two different indices have elements that do not overlap,
  and \<open>is_contiguous\<close> holds exactly when the layout is the contiguous one. The indices are \<open>int\<close>s:
  every element of the buffer is some index's exactly when no dimension exceeds \<open>2 ^ 31\<close>.
\<close>

theorem view_addresses_elements:
  assumes "t_shape t = TensorShape_init ds" and "length ds \<le> kMaxDim" and "dims_fit ds" and "t_device t = Some d"
    and "nat (prod_list ds) * unat (kDTypeSize (t_dtype t)) < 2 ^ 64"
  defines "width \<equiv> unat (kDTypeSize (t_dtype t))"
  shows "\<exists>v. t_view t = Inr v \<and> v_is_contiguous v = Inr (t_layout t = kContiguous) \<and>
    (\<forall>is. in_range ds (map sint is) \<longrightarrow>
      (\<exists>p. v_at v is = Inr p \<and> t_data t \<le> p \<and> p + width \<le> t_data t + nat (prod_list ds) * width \<and>
       (\<forall>js. in_range ds (map sint js) \<longrightarrow> js \<noteq> is \<longrightarrow> (\<exists>q. v_at v js = Inr q \<and> (p + width \<le> q \<or> q + width \<le> p))))) \<and>
    ((\<forall>r < nat (prod_list ds). \<exists>is. in_range ds (map sint is) \<and> v_at v is = Inr (t_data t + r * width)) \<longleftrightarrow>
      (\<forall>d \<in> set ds. d \<le> 2 ^ 31))"
proof -
  let ?v = "\<lparr>v_data = t_data t, v_shape = TensorShape_init ds, v_dtype = t_dtype t, v_device = dev_type d,
     v_layout = t_layout t, v_strides = row_major ds\<rparr>" and ?r = "\<lambda>is :: cint list. rank ds (map sint is)"
  note view = view_of_dims [OF assms(1-4)] and sh = TensorShape_init_ok [OF assms(2)]
  have at: "v_at ?v is = Inr (t_data t + nat (?r is) * width)" if "in_range ds (map sint is)" for "is"
    using v_at_rank(2) [OF assms(3) that, of ?v] assms(5) by (simp add: width_def)
  have step: "m * width + width \<le> n * width" if "m < n" for m n
    using mult_le_mono1 [of "Suc m" n width] that by simp
  have contiguous: "v_is_contiguous ?v = Inr (t_layout t = kContiguous)"
  proof (cases "t_layout t = kContiguous")
    case True
    have n: "shp_ndims (TensorShape_init ds) = int (length ds)" by (simp add: TensorShape_init_def)
    have dims: "\<forall>i < length ds. i < length (shp_dims (TensorShape_init ds)) \<and> shp_dims (TensorShape_init ds) ! i = ds ! i"
      using sh sdims_nth [OF sh(1)] n assms(2) by (simp add: shape_ok_def)
    have "contiguous_loop ?v (rev [0..<length ds]) (prod_list (drop (length ds) ds)) =
        Inr (\<forall>i < length ds. v_strides ?v ! i = row_major ds ! i)"
      by (rule contiguous_loop_ok [OF assms(3)]) (use dims in simp_all)
    with True n show ?thesis by (simp add: v_is_contiguous_def)
  qed (simp add: v_is_contiguous_def)
  have inside: "t_data t + nat (?r is) * width + width \<le> t_data t + nat (prod_list ds) * width"
    if "in_range ds (map sint is)" for "is"
    using step [of "nat (?r is)" "nat (prod_list ds)"] rank_bounds [OF that] by simp
  have apart: "nat (?r is) * width + width \<le> nat (?r js) * width \<or> nat (?r js) * width + width \<le> nat (?r is) * width"
    if "in_range ds (map sint is)" "in_range ds (map sint js)" "js \<noteq> is" for "is" js
  proof -
    have "map sint is \<noteq> map sint js" using that(3) by (auto dest: map_injective [OF _ inj_sint])
    then have "nat (?r is) \<noteq> nat (?r js)"
      using rank_inj [OF that(1,2)] rank_bounds [OF that(1)] rank_bounds [OF that(2)] by (auto simp: eq_nat_nat_iff)
    then show ?thesis using step [of "nat (?r is)" "nat (?r js)"] step [of "nat (?r js)" "nat (?r is)"]
      by linarith
  qed
  have "0 < width" by (simp add: width_def kDTypeSize_pos)
  then have eq: "v_at ?v is = Inr (t_data t + r * width) \<longleftrightarrow> nat (?r is) = r" if "in_range ds (map sint is)" for "is" r
    using at [OF that] by simp
  then have onto: "(\<forall>r < nat (prod_list ds). \<exists>is. in_range ds (map sint is) \<and> v_at ?v is = Inr (t_data t + r * width)) \<longleftrightarrow>
      (\<forall>d \<in> set ds. d \<le> 2 ^ 31)"
  proof -
    have "\<forall>d \<in> set ds. 0 < d" using assms(3) by (simp add: dims_fit_def)
    from ranks_of_ints [OF this] show ?thesis by (simp only: eq cong: conj_cong)
  qed
  show ?thesis
  proof (intro exI [of _ ?v] conjI allI impI)
    fix "is" :: "cint list" assume r: "in_range ds (map sint is)"
    show "\<exists>p. v_at ?v is = Inr p \<and> t_data t \<le> p \<and> p + width \<le> t_data t + nat (prod_list ds) * width \<and>
       (\<forall>js. in_range ds (map sint js) \<longrightarrow> js \<noteq> is \<longrightarrow> (\<exists>q. v_at ?v js = Inr q \<and> (p + width \<le> q \<or> q + width \<le> p)))"
      using at [OF r] inside [OF r] at apart [OF r] by (intro exI [of _ "t_data t + nat (?r is) * width"]) auto
  qed (use view contiguous onto in simp_all)
qed

definition swap_at :: "nat \<Rightarrow> nat \<Rightarrow> 'a list \<Rightarrow> 'a list" where
  "swap_at a b xs = xs[a := xs ! b, b := xs ! a]"

lemma swap_at_nth: "a < length xs \<Longrightarrow> b < length xs \<Longrightarrow> k < length xs \<Longrightarrow>
    swap_at a b xs ! k = xs ! (if k = a then b else if k = b then a else k)"
  by (auto simp: swap_at_def nth_list_update)

lemma length_swap_at [simp]: "length (swap_at a b xs) = length xs"
  by (simp add: swap_at_def)

lemma swap_at_twice: "a < length xs \<Longrightarrow> b < length xs \<Longrightarrow> swap_at a b (swap_at a b xs) = xs"
  by (rule nth_equalityI) (simp_all add: swap_at_nth)

lemma sum_swap_at:
  fixes xs ys :: "int list"
  assumes "length ys = length xs" and "a < length xs" and "b < length xs"
  shows "(\<Sum>k < length xs. xs ! k * swap_at a b ys ! k) = (\<Sum>k < length xs. swap_at a b xs ! k * ys ! k)"
proof (rule sum.reindex_bij_witness [of _ "\<lambda>k. if k = a then b else if k = b then a else k" "\<lambda>k. if k = a then b else if k = b then a else k"])
qed (use assms in \<open>auto simp: swap_at_nth split: if_splits\<close>)

lemma transpose_of_dims:
  assumes "t_shape t = TensorShape_init ds" and "length ds \<le> kMaxDim" and "dims_fit ds" and "t_device t = Some d"
    and "unat a < length ds" and "unat b < length ds"
  shows "\<exists>v. t_transpose a b t = Inr v \<and> v_data v = t_data t \<and> v_dtype v = t_dtype t \<and>
    shape_dims (v_shape v) = Inr (swap_at (unat a) (unat b) ds) \<and> v_strides v = swap_at (unat a) (unat b) (row_major ds) \<and>
    v_is_contiguous v = Inr False"
proof -
  note sh = TensorShape_init_ok [OF assms(2)]
  let ?ds = "shp_dims (TensorShape_init ds)" and ?a = "unat a" and ?b = "unat b"
  have n: "shp_ndims (TensorShape_init ds) = int (length ds)" by (simp add: TensorShape_init_def)
  have len: "length ?ds = kMaxDim" "?a < length ?ds" "?b < length ?ds" using sh(1) assms(2,5,6) by (auto simp: shape_ok_def)
  have tk: "take (length ds) ?ds = ds" using sh(2) n by (simp add: sdims_def)
  have nth: "?ds ! k = ds ! k" if "k < length ds" for k using tk that by (metis nth_take)
  have "take (length ds) (?ds[?a := ?ds ! ?b, ?b := ?ds ! ?a]) = swap_at ?a ?b ds"
  proof (rule nth_equalityI)
    show "length (take (length ds) (?ds[?a := ?ds ! ?b, ?b := ?ds ! ?a])) = length (swap_at ?a ?b ds)"
      using len(1) assms(2) by simp
    fix k assume "k < length (take (length ds) (?ds[?a := ?ds ! ?b, ?b := ?ds ! ?a]))"
    then have "k < length ds" by simp
    with nth assms(2,5,6) len show "take (length ds) (?ds[?a := ?ds ! ?b, ?b := ?ds ! ?a]) ! k = swap_at ?a ?b ds ! k"
      by (simp add: swap_at_nth nth_list_update)
  qed
  moreover have "strides (t_shape t) = Inr (row_major ds)" using strides_ok [OF sh(1)] assms(1,3) by (simp add: sh(2))
  ultimately show ?thesis using assms len n sh(1)
    by (simp add: t_transpose_def Let_def shape_dim_def shape_set_dim_def shape_dims_def TensorView_strided_def swap_at_def
        v_is_contiguous_def shape_ok_def)
qed

lemma in_range_swap:
  assumes "in_range (swap_at a b ds) is" and "a < length ds" and "b < length ds"
  shows "in_range ds (swap_at a b is)"
proof -
  have len: "length is = length ds" using length_in_range [OF assms(1)] by simp
  have "0 \<le> swap_at a b is ! k \<and> swap_at a b is ! k < ds ! k" if "k < length ds" for k
  proof -
    let ?k = "if k = a then b else if k = b then a else k"
    have k: "?k < length ds" using that assms(2,3) by simp
    have "swap_at a b ds ! ?k = ds ! k" "swap_at a b is ! k = is ! ?k"
      using that k assms(2,3) len swap_at_nth [of a ds b ?k] by (auto simp: swap_at_nth)
    with in_range_nth [OF assms(1), of ?k] k show ?thesis by simp
  qed
  with len show ?thesis by (simp add: in_range_def list_all2_conv_all_nth)
qed

text \<open>
  The transposed view exchanges two dimensions: the element at an index is the element of the
  tensor at the index with the two entries exchanged, and the view does not claim to be contiguous.
\<close>

theorem transpose_swaps_indices:
  assumes "t_shape t = TensorShape_init ds" and "length ds \<le> kMaxDim" and "dims_fit ds" and "t_device t = Some d"
    and "nat (prod_list ds) * unat (kDTypeSize (t_dtype t)) < 2 ^ 64" and "unat a < length ds" and "unat b < length ds"
  shows "\<exists>v w. t_view t = Inr v \<and> t_transpose a b t = Inr w \<and>
    shape_dims (v_shape w) = Inr (swap_at (unat a) (unat b) ds) \<and> v_is_contiguous w = Inr False \<and>
    (\<forall>is. in_range (swap_at (unat a) (unat b) ds) (map sint is) \<longrightarrow>
       v_at w is = v_at v (swap_at (unat a) (unat b) is) \<and> (\<exists>p. v_at w is = Inr p))"
proof -
  note view = view_of_dims [OF assms(1-4)]
  obtain w where w: "t_transpose a b t = Inr w" "v_data w = t_data t" "v_dtype w = t_dtype t"
    "shape_dims (v_shape w) = Inr (swap_at (unat a) (unat b) ds)" "v_strides w = swap_at (unat a) (unat b) (row_major ds)"
    "v_is_contiguous w = Inr False" using transpose_of_dims [OF assms(1-4,6,7)] by blast
  let ?v = "\<lparr>v_data = t_data t, v_shape = TensorShape_init ds, v_dtype = t_dtype t, v_device = dev_type d,
     v_layout = t_layout t, v_strides = row_major ds\<rparr>" and ?sw = "swap_at (unat a) (unat b)"
  have "v_at w is = v_at ?v (?sw is) \<and> (\<exists>p. v_at w is = Inr p)" if r: "in_range (?sw ds) (map sint is)" for "is"
  proof -
    have len: "length is = length ds" using length_in_range [OF r] by simp
    have sw: "?sw (map sint is) = map sint (?sw is)" using len assms(6,7) by (simp add: swap_at_def map_update)
    note rs = in_range_swap [OF r assms(6,7), unfolded sw]
    have "- (2 ^ 63) \<le> sint (is ! k) * ?sw (row_major ds) ! k \<and> sint (is ! k) * ?sw (row_major ds) ! k < 2 ^ 63" if "k < length is" for k
    proof -
      let ?k = "if k = unat a then unat b else if k = unat b then unat a else k"
      have k: "?k < length ds" using that assms(6,7) len by simp
      have "?sw (row_major ds) ! k = row_major ds ! ?k" using that assms(6,7) len by (simp add: swap_at_nth)
      moreover have "is ! k = ?sw is ! ?k" using that k assms(6,7) len by (simp add: swap_at_nth)
      ultimately show ?thesis using term_bounds [OF assms(3) rs k] k len by simp
    qed
    then have "v_offset w is = Inr (of_int (\<Sum>k < length is. map sint is ! k * ?sw (row_major ds) ! k))"
      using v_offset_sum [of "is" w] w(5) len by simp
    also have "(\<Sum>k < length is. map sint is ! k * ?sw (row_major ds) ! k) = rank ds (map sint (?sw is))"
      using sum_swap_at [of "row_major ds" "map sint is" "unat a" "unat b"] rank_sum [of "map sint (?sw is)" ds] len assms(6,7) sw
      by simp
    finally have "v_offset w is = v_offset ?v (?sw is)" using v_at_rank(1) [OF assms(3) rs, of ?v] assms(5) by simp
    then have "v_at w is = v_at ?v (?sw is)" using w(2,3) by (simp add: v_at_def)
    with v_at_rank(2) [OF assms(3) rs, of ?v] assms(5) show ?thesis by simp
  qed
  then have "\<forall>is. in_range (?sw ds) (map sint is) \<longrightarrow> v_at w is = v_at ?v (?sw is) \<and> (\<exists>p. v_at w is = Inr p)" by blast
  with view w(1,4,6) show ?thesis by (intro exI [of _ ?v] exI [of _ w] conjI) assumption+
qed

lemma slice_of_dims:
  assumes "t_shape t = TensorShape_init (d # ds)" and "length (d # ds) \<le> kMaxDim" and "dims_fit (d # ds)" and "t_device t = Some dev"
    and "0 \<le> s" and "s < e" and "e \<le> d"
  shows "\<exists>v. t_slice 0 s e t = Inr v \<and> v_dtype v = t_dtype t \<and> shape_dims (v_shape v) = Inr ((e - s) # ds) \<and>
    v_strides v = row_major (d # ds) \<and> v_data v = t_data t + unat (of_int (s * prod_list ds) * kDTypeSize (t_dtype t))"
proof -
  note sh = TensorShape_init_ok [OF assms(2)]
  have P: "0 < prod_list ds" "d * prod_list ds < 2 ^ 63" "\<forall>x \<in> set ds. 0 < x" "0 < d"
    using assms(3) by (auto simp: dims_fit_def prod_list_pos)
  have le: "s * prod_list ds \<le> d * prod_list ds" "(e - s) * prod_list ds \<le> d * prod_list ds"
    using P(1) assms(5-7) by (auto intro: mult_right_mono)
  have "(e - s) * prod_list ds < 2 ^ 63" using le(2) P(2) by linarith
  then have fit: "dims_fit ((e - s) # ds)" using P(3) assms(5,6) by (simp add: dims_fit_def)
  have sP: "0 \<le> s * prod_list ds" "s * prod_list ds < 2 ^ 63" using le(1) P(1,2) assms(5) by (simp, linarith)
  have "1 * d \<le> prod_list ds * d" using P(1,4) by (intro mult_right_mono) auto
  then have small: "e - s < 2 ^ 63" using P(2) assms(5,7) by (simp add: mult.commute)
  let ?sh = "TensorShape_init (d # ds)\<lparr>shp_dims := (shp_dims (TensorShape_init (d # ds)))[0 := e - s]\<rparr>"
  have n: "shp_ndims (TensorShape_init (d # ds)) = 1 + int (length ds)" by (simp add: TensorShape_init_def)
  have ok: "shape_ok ?sh" using sh(1) by (simp add: shape_ok_def)
  have "take (Suc (length ds)) (shp_dims (TensorShape_init (d # ds))) = d # ds"
    using sh(2) n by (simp add: sdims_def nat_add_distrib)
  then have sd: "sdims ?sh = (e - s) # ds"
    using n by (cases "shp_dims (TensorShape_init (d # ds))") (auto simp: sdims_def nat_add_distrib)
  have "strides ?sh = Inr (row_major ((e - s) # ds))" using strides_ok [OF ok] fit sd by simp
  moreover have "row_major ((e - s) # ds) = row_major (d # ds)" by (simp add: row_major_Cons)
  moreover have "strides (t_shape t) = Inr (row_major (d # ds))" using strides_ok [OF sh(1)] assms(1,3) by (simp add: sh(2))
  moreover have "shape_dims ?sh = Inr ((e - s) # ds)" using shape_dims_ok [OF ok] sd by simp
  moreover have "s64 (s * prod_list ds) = Inr (s * prod_list ds)" "s64 (e - s) = Inr (e - s)"
    using sP assms(5,6) small by (simp_all add: s64_def)
  moreover have "0 < length (shp_dims (TensorShape_init (d # ds)))" using sh(1) by (simp add: shape_ok_def kMaxDim_def)
  ultimately show ?thesis using assms(1,4)
    by (simp add: t_slice_def t_stride_def shape_set_dim_def TensorView_data_def row_major_Cons Let_def)
qed

text \<open>
  A slice of the first dimension is the part of the tensor it names: the element at an index of
  the slice is the element of the tensor with the start of the range added to its first entry.
\<close>

theorem slice_first_dimension:
  assumes "t_shape t = TensorShape_init (d # ds)" and "length (d # ds) \<le> kMaxDim" and "dims_fit (d # ds)" and "t_device t = Some dev"
    and "nat (prod_list (d # ds)) * unat (kDTypeSize (t_dtype t)) < 2 ^ 64" and "0 \<le> s" and "s < e" and "e \<le> d"
  shows "\<exists>v w. t_view t = Inr v \<and> t_slice 0 s e t = Inr w \<and> shape_dims (v_shape w) = Inr ((e - s) # ds) \<and>
    (\<forall>i j is. in_range ((e - s) # ds) (map sint (i # is)) \<longrightarrow> sint j = s + sint i \<longrightarrow>
       v_at w (i # is) = v_at v (j # is) \<and> (\<exists>p. v_at w (i # is) = Inr p))"
proof -
  note view = view_of_dims [OF assms(1-4)]
  let ?v = "\<lparr>v_data = t_data t, v_shape = TensorShape_init (d # ds), v_dtype = t_dtype t, v_device = dev_type dev,
     v_layout = t_layout t, v_strides = row_major (d # ds)\<rparr>" and ?k = "unat (kDTypeSize (t_dtype t))"
  obtain w where w: "t_slice 0 s e t = Inr w" "v_dtype w = t_dtype t" "shape_dims (v_shape w) = Inr ((e - s) # ds)"
    "v_strides w = row_major (d # ds)" "v_data w = t_data t + unat (of_int (s * prod_list ds) * kDTypeSize (t_dtype t))"
    using slice_of_dims [OF assms(1-4,6-8)] by blast
  have P: "0 < prod_list ds" "d * prod_list ds < 2 ^ 63" using assms(3) by (auto simp: dims_fit_def prod_list_pos)
  have le: "0 \<le> s * prod_list ds" "s * prod_list ds \<le> d * prod_list ds"
    using P(1) assms(6-8) by (auto intro: mult_right_mono)
  have small: "s * prod_list ds < 2 ^ 63" using le(2) P(2) by linarith
  have base: "v_data w = t_data t + nat (s * prod_list ds) * ?k"
  proof -
    have w64: "of_int (s * prod_list ds) = (of_nat (nat (s * prod_list ds)) :: size_t)"
      using le(1) by (metis nat_0_le of_int_of_nat_eq)
    have n: "unat (of_int (s * prod_list ds) :: size_t) = nat (s * prod_list ds)"
      unfolding w64 by (intro unat_of_nat_size) (use le(1) small in simp)
    have "nat (s * prod_list ds) * ?k \<le> nat (prod_list (d # ds)) * ?k" using le by (intro mult_le_mono1 nat_mono) simp
    with assms(5) have "nat (s * prod_list ds) * ?k < 2 ^ 64" by linarith
    with n unat_mult_bound [of "of_int (s * prod_list ds)" "kDTypeSize (t_dtype t)"] w(5) show ?thesis by simp
  qed
  have "v_at w (i # is) = v_at ?v (j # is) \<and> (\<exists>p. v_at w (i # is) = Inr p)"
    if i: "in_range ((e - s) # ds) (map sint (i # is))" and j: "sint j = s + sint i" for i j "is"
  proof -
    have r: "in_range (d # ds) (map sint (i # is))" "in_range (d # ds) (map sint (j # is))"
      using i j assms(6-8) by simp_all
    have "rank (d # ds) (map sint (j # is)) = s * prod_list ds + rank (d # ds) (map sint (i # is))"
      using j by (simp add: distrib_right)
    then have "nat (rank (d # ds) (map sint (j # is))) = nat (s * prod_list ds) + nat (rank (d # ds) (map sint (i # is)))"
      using le(1) rank_bounds [OF r(1)] by (simp only: nat_add_distrib)
    then show ?thesis
      using v_at_rank(2) [OF assms(3) r(1) w(4)] v_at_rank(2) [OF assms(3) r(2), of ?v] assms(5) w(2) base
      by (simp add: distrib_right)
  qed
  then have "\<forall>i j is. in_range ((e - s) # ds) (map sint (i # is)) \<longrightarrow> sint j = s + sint i \<longrightarrow>
      v_at w (i # is) = v_at ?v (j # is) \<and> (\<exists>p. v_at w (i # is) = Inr p)" by blast
  with view w(1,3) show ?thesis by (intro exI [of _ ?v] exI [of _ w] conjI) assumption+
qed

text \<open>
  A slice of any other dimension is not: its strides are those of the narrowed shape, so in a
  matrix with \<open>n\<close> columns the second row of the columns \<open>[s, e)\<close> starts at column \<open>e\<close> of the first row
  and not at column \<open>s\<close> of the second.
\<close>

theorem slice_inner_dimension:
  assumes "t_shape t = TensorShape_init [m, n]" and "dims_fit [m, n]" and "t_device t = Some dev"
    and "nat (m * n) * unat (kDTypeSize (t_dtype t)) < 2 ^ 64" and "2 \<le> m" and "0 \<le> s" and "s < e" and "e \<le> n" and "e - s < n"
    and "s < 2 ^ 31"
  shows "\<exists>v w. t_view t = Inr v \<and> t_slice 1 s e t = Inr w \<and> shape_dims (v_shape w) = Inr [m, e - s] \<and>
    v_at v [1, word_of_int s] = Inr (t_data t + nat (n + s) * unat (kDTypeSize (t_dtype t))) \<and>
    v_at w [1, 0] = Inr (t_data t + nat e * unat (kDTypeSize (t_dtype t))) \<and> e < n + s"
proof -
  let ?k = "unat (kDTypeSize (t_dtype t))" and ?sh = "TensorShape_init [m, n]"
  have len: "length [m, n] \<le> kMaxDim" by (simp add: kMaxDim_def)
  note sh = TensorShape_init_ok [OF len] and view = view_of_dims [OF assms(1) len assms(2,3)]
  have rm: "row_major [x, y] = [y, 1]" for x y by (simp add: row_major_Cons row_major_def)
  have mn: "m * n < 2 ^ 63" using assms(2) by (simp add: dims_fit_def)
  have le: "2 * n \<le> m * n" using assms(5-8) by (intro mult_right_mono) auto
  moreover have "(2 :: int) ^ 63 = 2 * 2 ^ 62" by simp
  ultimately have n: "n < 2 ^ 62" using mn by linarith
  let ?new = "?sh\<lparr>shp_dims := (shp_dims ?sh)[1 := e - s]\<rparr>"
  have ok: "shape_ok ?new" using sh(1) by (simp add: shape_ok_def)
  have nd: "shp_ndims ?sh = 2" by (simp add: TensorShape_init_def)
  have "take 2 (shp_dims ?sh) = [m, n]" using sh(2) nd by (simp add: sdims_def)
  then have "take 2 ((shp_dims ?sh)[1 := e - s]) = [m, e - s]"
    by (cases "shp_dims ?sh"; cases "tl (shp_dims ?sh)") auto
  then have sd: "sdims ?new = [m, e - s]" using nd by (simp add: sdims_def)
  have "m * (e - s) \<le> m * n" using assms(5,9) by (intro mult_left_mono) auto
  then have "m * (e - s) < 2 ^ 63" using mn by linarith
  then have fit: "dims_fit (sdims ?new)" unfolding sd using assms(5,7) by (simp add: dims_fit_def)
  have st: "strides ?new = Inr [e - s, 1]" using strides_ok [OF ok fit] unfolding sd rm .
  have "strides (t_shape t) = Inr [n, 1]" using strides_ok [OF sh(1)] assms(1,2) by (simp add: sh(2) rm)
  moreover have "s64 (s * 1) = Inr s" "s64 (e - s) = Inr (e - s)" using assms(6-8) n by (simp_all add: s64_def)
  moreover have "1 < length (shp_dims ?sh)" using sh(1) by (simp add: shape_ok_def kMaxDim_def)
  ultimately have w: "t_slice 1 s e t = Inr \<lparr>v_data = t_data t + unat (of_int s * kDTypeSize (t_dtype t)), v_shape = ?new,
      v_dtype = t_dtype t, v_device = dev_type dev, v_layout = t_layout t, v_strides = [e - s, 1]\<rparr>"
    using assms(1,3) st by (simp add: t_slice_def t_stride_def shape_set_dim_def TensorView_data_def Let_def)
  have small: "unat (of_int x * kDTypeSize (t_dtype t) :: size_t) = nat x * ?k" if "0 \<le> x" "x \<le> n" for x
  proof -
    have w64: "of_int x = (of_nat (nat x) :: size_t)" using that(1) by (metis nat_0_le of_int_of_nat_eq)
    have u: "unat (of_int x :: size_t) = nat x" unfolding w64 by (intro unat_of_nat_size) (use that n in simp)
    have "nat x * ?k \<le> nat (m * n) * ?k" using that le by (intro mult_le_mono1 nat_mono) linarith
    with assms(4) have "nat x * ?k < 2 ^ 64" by linarith
    with u unat_mult_bound [of "of_int x" "kDTypeSize (t_dtype t)"] show ?thesis by simp
  qed
  let ?v = "\<lparr>v_data = t_data t, v_shape = ?sh, v_dtype = t_dtype t, v_device = dev_type dev, v_layout = t_layout t,
     v_strides = row_major [m, n]\<rparr>"
  have "v_at ?v [1, word_of_int s] = Inr (t_data t + nat (n + s) * ?k)"
    using v_at_rank(2) [OF assms(2), of "[1, word_of_int s]" ?v] assms(4-8) sint_of_index [OF assms(6,10)] by simp
  moreover have "v_at \<lparr>v_data = t_data t + unat (of_int s * kDTypeSize (t_dtype t)), v_shape = ?new, v_dtype = t_dtype t,
      v_device = dev_type dev, v_layout = t_layout t, v_strides = [e - s, 1]\<rparr> [1, 0] = Inr (t_data t + nat e * ?k)"
  proof -
    have "s64 (1 * (e - s)) = Inr (e - s)" "s64 (0 * 1) = Inr 0" using assms(6-8) n by (simp_all add: s64_def)
    moreover have "nat s * ?k + nat (e - s) * ?k = nat e * ?k"
      using assms(6,7) by (simp flip: add_mult_distrib add: nat_diff_distrib)
    ultimately show ?thesis using small [of s] small [of "e - s"] assms(6-8)
      by (simp add: v_at_def v_offset_def upt_rec)
  qed
  moreover have "shape_dims ?new = Inr [m, e - s]" using shape_dims_ok [OF ok] sd by simp
  ultimately show ?thesis using view w assms(9) by simp
qed

section \<open>Witnesses\<close>

definition matrix :: Tensor where
  "matrix = Tensor_default\<lparr>t_shape := TensorShape_init [2, 3], t_dtype := kFloat32,
     t_device := Some (CPUDevice bump_memalign), t_buffer := BufferHandle_default\<lparr>bh_data := 64\<rparr>\<rparr>"

lemma matrix_fields [simp]:
  "t_shape matrix = TensorShape_init [2, 3]" "t_dtype matrix = kFloat32" "t_layout matrix = kContiguous"
  "t_device matrix = Some (CPUDevice bump_memalign)" "t_data matrix = 64"
  by (simp_all add: matrix_def Tensor_default_def t_data_def)

lemma matrix_fits: "length [2, 3 :: int] \<le> kMaxDim" "dims_fit [2, 3]"
  by (simp_all add: kMaxDim_def dims_fit_def)

lemma view_addresses_elements_witness:
  "\<exists>v p is. t_view matrix = Inr v \<and> v_at v [1, 2] = Inr p \<and> p + 4 \<le> 88 \<and> v_is_contiguous v = Inr True \<and>
    v_at v is = Inr 76"
proof -
  have "nat (prod_list [2, 3]) * unat (kDTypeSize (t_dtype matrix)) < 2 ^ 64" by simp
  note all = view_addresses_elements [OF matrix_fields(1) matrix_fits matrix_fields(4) this]
  then obtain v where v: "t_view matrix = Inr v" "v_is_contiguous v = Inr True"
    and at: "\<forall>is. in_range [2, 3] (map sint is) \<longrightarrow> (\<exists>p. v_at v is = Inr p \<and> 64 \<le> p \<and> p + 4 \<le> 88 \<and>
      (\<forall>js. in_range [2, 3] (map sint js) \<longrightarrow> js \<noteq> is \<longrightarrow> (\<exists>q. v_at v js = Inr q \<and> (p + 4 \<le> q \<or> q + 4 \<le> p))))"
    and onto: "\<forall>r < 6. \<exists>is. in_range [2, 3] (map sint is) \<and> v_at v is = Inr (64 + r * 4)"
    by (elim exE conjE) simp
  obtain p where "v_at v [1, 2] = Inr p" "p + 4 \<le> 88" using spec [OF at, of "[1, 2]"] by auto
  moreover obtain "is" where "v_at v is = Inr 76" using spec [OF onto, of 3] by auto
  ultimately show ?thesis using v by blast
qed

lemma transpose_swaps_indices_witness:
  "\<exists>v w. t_view matrix = Inr v \<and> t_transpose 0 1 matrix = Inr w \<and> v_at w [2, 1] = v_at v [1, 2]"
proof -
  have "in_range (swap_at (unat (0 :: size_t)) (unat (1 :: size_t)) [2, 3]) (map sint [2, 1 :: cint])"
    by (simp add: swap_at_def)
  moreover have "swap_at (unat (0 :: size_t)) (unat (1 :: size_t)) [2, 1 :: cint] = [1, 2]" by (simp add: swap_at_def)
  ultimately show ?thesis
    using transpose_swaps_indices [of matrix, OF matrix_fields(1) matrix_fits matrix_fields(4), of 0 1] by fastforce
qed

lemma slice_first_dimension_witness:
  "\<exists>v w. t_view matrix = Inr v \<and> t_slice 0 1 2 matrix = Inr w \<and> v_at w [0, 2] = v_at v [1, 2]"
proof -
  have "in_range [2 - 1, 3] (map sint [0, 2 :: cint])" "sint (1 :: cint) = 1 + sint (0 :: cint)" by simp_all
  then show ?thesis
    using slice_first_dimension [of matrix, OF matrix_fields(1) matrix_fits matrix_fields(4), of 1 2] by fastforce
qed

lemma slice_inner_dimension_witness:
  "\<exists>v w. t_view matrix = Inr v \<and> t_slice 1 1 3 matrix = Inr w \<and> v_at v [1, 1] = Inr 80 \<and> v_at w [1, 0] = Inr 76"
  using slice_inner_dimension [of matrix, OF matrix_fields(1) matrix_fits(2) matrix_fields(4), of 1 3] by auto

end
