(* ===== verification/Float_Arrays.thy ===== *)
theory Float_Arrays
  imports Tensor_Copies
begin

text \<open>
  Arrays of \<open>float\<close> in memory, the loops of the math kernels over them, and the tensors that hold
  them. A \<open>float\<close> is its bit pattern; what the arithmetic of the implementation makes of two bit
  patterns, rounding included, is a parameter, so that the theorems hold for every floating-point
  unit and every mathematical library.
\<close>

section \<open>Floating-point arithmetic\<close>

record float_ops =
  f_add :: "f32 \<Rightarrow> f32 \<Rightarrow> f32"
  f_sub :: "f32 \<Rightarrow> f32 \<Rightarrow> f32"
  f_mul :: "f32 \<Rightarrow> f32 \<Rightarrow> f32"
  f_div :: "f32 \<Rightarrow> f32 \<Rightarrow> f32"
  f_neg :: "f32 \<Rightarrow> f32"
  f_abs :: "f32 \<Rightarrow> f32"
  f_sqrt :: "f32 \<Rightarrow> f32"
  f_exp :: "f32 \<Rightarrow> f32"
  f_log :: "f32 \<Rightarrow> f32"
  f_pow :: "f32 \<Rightarrow> f32 \<Rightarrow> f32"
  f_lt :: "f32 \<Rightarrow> f32 \<Rightarrow> bool"
  f_of_int :: "int \<Rightarrow> f32"

text \<open>\<open>std::max\<close> and \<open>std::min\<close> return their first argument unless the comparison holds.\<close>

definition f_max :: "float_ops \<Rightarrow> f32 \<Rightarrow> f32 \<Rightarrow> f32" where
  "f_max fo a b = (if f_lt fo a b then b else a)"

definition f_min :: "float_ops \<Rightarrow> f32 \<Rightarrow> f32 \<Rightarrow> f32" where
  "f_min fo a b = (if f_lt fo b a then b else a)"

section \<open>Loads and stores\<close>

definition load_f32 :: "ptr \<Rightarrow> nat \<Rightarrow> mem \<Rightarrow> f32 comp" where
  "load_f32 p i m = rbind (mload Host (p + 4 * i) 4 m) (\<lambda>bs. Inr (f32_of_bytes bs))"

definition store_f32 :: "ptr \<Rightarrow> nat \<Rightarrow> f32 \<Rightarrow> mem \<Rightarrow> mem comp" where
  "store_f32 p i w m = mstore Host (p + 4 * i) (bytes_of_f32 w) m"

text \<open>The array at \<open>p\<close> reads as \<open>xs\<close>; two memories agree but for the \<open>n\<close> bytes at \<open>p\<close>.\<close>

definition floats :: "ptr \<Rightarrow> f32 list \<Rightarrow> mem \<Rightarrow> bool" where
  "floats p xs m \<longleftrightarrow> (\<forall>i < length xs. load_f32 p i m = Inr (xs ! i))"

definition agrees :: "ptr \<Rightarrow> nat \<Rightarrow> mem \<Rightarrow> mem \<Rightarrow> bool" where
  "agrees p n m m' \<longleftrightarrow> m_regions m' = m_regions m \<and> (\<forall>a. a < p \<or> p + n \<le> a \<longrightarrow> m_val m' a = m_val m a)"

lemma agrees_refl [simp]: "agrees p n m m"
  by (simp add: agrees_def)

lemma agrees_trans: "agrees p n m m' \<Longrightarrow> agrees p n m' m'' \<Longrightarrow> agrees p n m m''"
  by (simp add: agrees_def)

lemma agrees_wider: "agrees q k m m' \<Longrightarrow> p \<le> q \<Longrightarrow> q + k \<le> p + n \<Longrightarrow> agrees p n m m'"
  by (simp add: agrees_def)

lemma agrees_within: "agrees p n m m' \<Longrightarrow> within sp q k m' = within sp q k m"
  by (simp add: agrees_def within_def)

lemma agrees_mload: "agrees p n m m' \<Longrightarrow> q + k \<le> p \<or> p + n \<le> q \<Longrightarrow> mload sp q k m' = mload sp q k m"
proof -
  assume "agrees p n m m'" and "q + k \<le> p \<or> p + n \<le> q"
  then have "map (m_val m') [q..<q + k] = map (m_val m) [q..<q + k]" by (auto simp: agrees_def)
  with agrees_within [OF \<open>agrees p n m m'\<close>] show ?thesis by (simp add: mload_def)
qed

lemma agrees_load: "agrees p n m m' \<Longrightarrow> q + 4 * i + 4 \<le> p \<or> p + n \<le> q + 4 * i \<Longrightarrow> load_f32 q i m' = load_f32 q i m"
  by (simp add: load_f32_def agrees_mload)

lemma agrees_floats:
  "agrees p n m m' \<Longrightarrow> floats q xs m \<Longrightarrow> q + 4 * length xs \<le> p \<or> p + n \<le> q \<Longrightarrow> floats q xs m'"
  unfolding floats_def by (auto simp: agrees_load)

lemma load_shift: "load_f32 (p + 4 * k) i m = load_f32 p (k + i) m"
  by (simp add: load_f32_def algebra_simps)

lemma store_shift: "store_f32 (p + 4 * k) i w m = store_f32 p (k + i) w m"
  by (simp add: store_f32_def algebra_simps)

lemma store_ok:
  assumes "within Host p (4 * n) m" and "i < n"
  shows "\<exists>m'. store_f32 p i w m = Inr m' \<and> agrees (p + 4 * i) 4 m m' \<and> load_f32 p i m' = Inr w \<and>
    (\<forall>j. j \<noteq> i \<longrightarrow> load_f32 p j m' = load_f32 p j m)"
proof -
  have w: "within Host (p + 4 * i) 4 m" by (rule within_sub [OF assms(1)]) (use assms(2) in simp_all)
  let ?m = "put_bytes (p + 4 * i) (bytes_of_f32 w) m"
  have a: "agrees (p + 4 * i) 4 m ?m" by (simp add: agrees_def put_bytes_def)
  have "load_f32 p j ?m = load_f32 p j m" if "j \<noteq> i" for j
    using agrees_load [OF a, of p j] that by (cases "j < i") simp_all
  moreover have "load_f32 p i ?m = Inr w"
    using mload_put_same [of Host "p + 4 * i" "bytes_of_f32 w" m] w by (simp add: load_f32_def)
  moreover have "store_f32 p i w m = Inr ?m" using w by (simp add: store_f32_def mstore_def)
  ultimately show ?thesis using a by blast
qed

section \<open>Loops\<close>

text \<open>
  A loop that writes one element per round: the value may depend on what it has written before and
  on the elements it has not reached yet, which makes the rule serve in-place updates.
\<close>

lemma write_loop:
  assumes region: "within Host out (4 * n) m"
    and g: "\<And>i m'. i < n \<Longrightarrow> agrees out (4 * n) m m' \<Longrightarrow> \<forall>j < i. load_f32 out j m' = Inr (r j) \<Longrightarrow>
      \<forall>j. i \<le> j \<longrightarrow> j < n \<longrightarrow> load_f32 out j m' = load_f32 out j m \<Longrightarrow> g i m' = Inr (r i)"
  shows "\<exists>m'. for_each (\<lambda>i m. rbind (g i m) (\<lambda>w. store_f32 out i w m)) [0..<n] m = Inr m' \<and> agrees out (4 * n) m m' \<and>
    (\<forall>i < n. load_f32 out i m' = Inr (r i))"
proof -
  define P where "P = (\<lambda>i m'. agrees out (4 * n) m m' \<and> (\<forall>j < i. load_f32 out j m' = Inr (r j)) \<and>
      (\<forall>j. i \<le> j \<longrightarrow> j < n \<longrightarrow> load_f32 out j m' = load_f32 out j m))"
  have "\<exists>t. for_each (\<lambda>i m. rbind (g i m) (\<lambda>w. store_f32 out i w m)) [0..<n] m = Inr t \<and> P n t"
  proof (rule for_each_upt)
    show "P 0 m" by (simp add: P_def)
    fix i t assume i: "i < n" and P: "P i t"
    then have w: "within Host out (4 * n) t" using region agrees_within unfolding P_def by blast
    have gi: "g i t = Inr (r i)" using g [OF i] P unfolding P_def by blast
    obtain t' where t': "store_f32 out i (r i) t = Inr t'" "agrees (out + 4 * i) 4 t t'" "load_f32 out i t' = Inr (r i)"
      "\<forall>j. j \<noteq> i \<longrightarrow> load_f32 out j t' = load_f32 out j t" using store_ok [OF w i] by blast
    have "agrees out (4 * n) t t'" by (rule agrees_wider [OF t'(2)]) (use i in simp_all)
    then have "P (Suc i) t'" using P t'(3,4) unfolding P_def by (auto simp: less_Suc_eq intro: agrees_trans)
    with gi t'(1) show "\<exists>t'. rbind (g i t) (\<lambda>w. store_f32 out i w t) = Inr t' \<and> P (Suc i) t'" by simp
  qed simp
  then show ?thesis unfolding P_def by blast
qed

text \<open>A loop that only reads: a fold.\<close>

lemma read_loop:
  assumes "\<And>i acc. k \<le> i \<Longrightarrow> i < n \<Longrightarrow> body i acc = Inr (f acc (xs ! i))" and "n = length xs" and "k \<le> n"
  shows "for_each body [k..<n] acc = Inr (foldl f acc (drop k xs))"
proof -
  have "\<exists>t. for_each body [k..<n] acc = Inr t \<and> t = foldl f acc (take (n - k) (drop k xs))"
  proof -
    have "\<exists>t. for_each body [k..<n] acc = Inr t \<and> t = foldl f acc (drop k (take n xs))"
      by (rule for_each_upt) (use assms in \<open>auto simp: take_Suc_conv_app_nth\<close>)
    then show ?thesis by (simp add: drop_take)
  qed
  with assms(2) show ?thesis by simp
qed

section \<open>Tensors of floats\<close>

definition holds_floats :: "Device \<Rightarrow> Tensor \<Rightarrow> f32 list \<Rightarrow> mem \<Rightarrow> bool" where
  "holds_floats d t xs m \<longleftrightarrow> t_device t = Some d \<and> t_dtype t = kFloat32 \<and> num_elements (t_shape t) = Inr (int (length xs)) \<and>
     xs \<noteq> [] \<and> 4 * length xs < 2 ^ 64 \<and> unat (t_num_bytes t) = 4 * length xs \<and>
     map_of (m_regions m) (t_data t) = Some (4 * length xs, Host) \<and> floats (t_data t) xs m"

lemma holds_floats_words:
  assumes "holds_floats d t xs m"
  shows "unat (of_int (int (length xs)) :: size_t) = length xs" and "shape_bytes (t_shape t) (t_dtype t) = Inr (4 * of_nat (length xs))"
    and "unat (4 * of_nat (length xs) :: size_t) = 4 * length xs"
proof -
  have n: "length xs < 18446744073709551616" using assms by (simp add: holds_floats_def)
  then show u: "unat (of_int (int (length xs)) :: size_t) = length xs"
    by (simp add: unat_of_nat_size)
  show "shape_bytes (t_shape t) (t_dtype t) = Inr (4 * of_nat (length xs))"
    using assms by (simp add: holds_floats_def shape_bytes_def mult.commute)
  have "unat (4 :: size_t) * unat (of_nat (length xs) :: size_t) < 2 ^ 64" using assms u by (simp add: holds_floats_def)
  from unat_mult_bound [OF this] u show "unat (4 * of_nat (length xs) :: size_t) = 4 * length xs" by simp
qed

text \<open>Two different tensors are apart.\<close>

lemma holds_floats_apart:
  assumes "mem_ok m" and "holds_floats d a xs m" and "map_of (m_regions m) p = Some (k, s)" and "p \<noteq> t_data a"
  shows "t_data a + 4 * length xs \<le> p \<or> p + k \<le> t_data a"
proof -
  have "map_of (m_regions m) (t_data a) = Some (4 * length xs, Host)" using assms(2) by (simp add: holds_floats_def)
  from regions_apart [OF assms(1) this assms(3)] assms(4) show ?thesis by metis
qed

lemma fresh_floats: "fresh_tensor sp out m m' \<Longrightarrow> floats p xs m \<Longrightarrow> floats p xs m'"
  unfolding floats_def load_f32_def fresh_tensor_def by (auto simp: rbind_eq_Inr)

text \<open>What the operations return: a new tensor in new memory, all else as it was.\<close>

definition returns_floats :: "Device \<Rightarrow> mem \<Rightarrow> (Tensor Expected \<times> mem) comp \<Rightarrow> f32 list \<Rightarrow> bool" where
  "returns_floats d m r zs \<longleftrightarrow> (\<exists>out m'. r = Inr (Ok out, m') \<and> holds_floats d out zs m' \<and> fresh_tensor Host out m m')"

text \<open>The output of an operation over a tensor on the CPU: allocated, or the null pointer.\<close>

definition out_of_memory :: "Device \<Rightarrow> size_t \<Rightarrow> mem \<Rightarrow> bool" where
  "out_of_memory d bytes m \<longleftrightarrow> dev_allocate d bytes m = Inr (nullptr, m)"

lemma fresh_output:
  assumes "memalign_ok new" and "mem_ok m" and bytes: "shape_bytes sh dt = Inr b" and "\<not> out_of_memory (CPUDevice new) b m"
  obtains out m0 where "Tensor_new sh dt (CPUDevice new) m = Inr (out, m0)" "t_shape out = sh" "t_dtype out = dt"
    "t_device out = Some (CPUDevice new)" "t_num_bytes out = b" "fresh_tensor Host out m m0" "mem_ok m0"
    "within Host (t_data out) (unat b) m0"
proof -
  obtain out m0 where o: "Tensor_new sh dt (CPUDevice new) m = Inr (out, m0)" "t_shape out = sh" "t_dtype out = dt"
    "t_device out = Some (CPUDevice new)" "t_num_bytes out = b" "fresh_tensor Host out m m0"
    using cpu.new_tensor [OF assms(1-3)] assms(4) unfolding out_of_memory_def by blast
  then have "mem_ok m0" "within Host (t_data out) (unat b) m0"
    using within_of_region mem_ok_umap unfolding fresh_tensor_def by blast+
  with o that show thesis by blast
qed

text \<open>Writing the output array makes the result.\<close>

lemma fresh_agrees:
  assumes "mem_ok m" and "fresh_tensor Host out m m0" and "agrees (t_data out) (unat (t_num_bytes out)) m0 m1"
  shows "fresh_tensor Host out m m1"
  using fresh_keep_outside [OF assms(1,2)] assms(3) unfolding agrees_def by blast

lemma returns_floats_intro:
  assumes "mem_ok m" and src: "holds_floats d a xs m" and out: "t_shape out = t_shape a" "t_dtype out = kFloat32" "t_device out = Some d'"
    "unat (t_num_bytes out) = 4 * length xs" "fresh_tensor Host out m m0"
    and w: "agrees (t_data out) (4 * length xs) m0 m1" "\<forall>i < length xs. load_f32 (t_data out) i m1 = Inr (r i)"
  shows "returns_floats d' m (Inr (Ok out, m1)) (map r [0..<length xs])"
proof -
  have fresh: "fresh_tensor Host out m m1" by (rule fresh_agrees [OF assms(1) out(5)]) (simp add: out(4) w(1))
  moreover have "holds_floats d' out (map r [0..<length xs]) m1"
    using src out(1-4) w(2) fresh unfolding holds_floats_def fresh_tensor_def floats_def by auto
  ultimately show ?thesis unfolding returns_floats_def by blast
qed

section \<open>Concrete tensors\<close>

text \<open>Arithmetic of the bit patterns as unsigned integers, and two matrices of two rows.\<close>

definition word_floats :: float_ops where
  "word_floats = \<lparr>f_add = (+), f_sub = (-), f_mul = (*), f_div = (div), f_neg = uminus, f_abs = (\<lambda>x. x),
     f_sqrt = (\<lambda>x. x), f_exp = (\<lambda>x. x), f_log = (\<lambda>x. x), f_pow = (\<lambda>x y. x * y), f_lt = (<), f_of_int = of_int\<rparr>"

definition float_matrix :: "ptr \<Rightarrow> Tensor" where
  "float_matrix p = \<lparr>t_shape = TensorShape_init [2, 2], t_dtype = kFloat32, t_layout = kContiguous,
     t_device = Some (CPUDevice bump_memalign),
     t_buffer = BufferHandle_default\<lparr>bh_data := p, bh_bytes := 16\<rparr>\<rparr>"

definition float_mem :: mem where
  "float_mem = \<lparr>m_val = (\<lambda>a. if a = 64 then 1 else if a = 76 then 3 else if a = 132 then 2 else 0),
     m_regions = [(64, 16, Host), (128, 16, Host)]\<rparr>"

lemma float_mem_ok: "mem_ok float_mem"
  by (auto simp: mem_ok_def float_mem_def split: if_splits)

lemma float_matrix_shape: "t_shape (float_matrix p) = TensorShape_init [2, 2]" "t_data (float_matrix p) = p"
  by (simp_all add: float_matrix_def t_data_def)

lemma float_matrix_holds:
  "holds_floats (CPUDevice bump_memalign) (float_matrix 64) [1, 0, 0, 3] float_mem"
  "holds_floats (CPUDevice bump_memalign) (float_matrix 128) [0, 2, 0, 0] float_mem"
proof -
  have n: "num_elements (TensorShape_init [2, 2]) = Inr 4"
    using num_elements_ok [of "TensorShape_init [2, 2]"] TensorShape_init_ok [of "[2, 2]"]
    by (simp add: kMaxDim_def dims_fit_def) (simp add: TensorShape_init_def)
  have load: "load_f32 64 i float_mem = Inr ([1, 0, 0, 3] ! i)" "load_f32 128 i float_mem = Inr ([0, 2, 0, 0] ! i)" if "i < 4" for i
  proof -
    from that consider "i = 0" | "i = 1" | "i = 2" | "i = 3" by linarith
    then show "load_f32 64 i float_mem = Inr ([1, 0, 0, 3] ! i)" "load_f32 128 i float_mem = Inr ([0, 2, 0, 0] ! i)"
      by (cases; simp add: load_f32_def mload_def within_def float_mem_def upt_rec f32_of_bytes_def)+
  qed
  then show "holds_floats (CPUDevice bump_memalign) (float_matrix 64) [1, 0, 0, 3] float_mem"
    "holds_floats (CPUDevice bump_memalign) (float_matrix 128) [0, 2, 0, 0] float_mem"
    using n by (simp_all add: holds_floats_def floats_def float_matrix_def t_data_def t_num_bytes_def)
      (simp_all add: float_mem_def)
qed

lemma float_mem_memory: "\<not> out_of_memory (CPUDevice bump_memalign) 16 float_mem"
  by (simp add: out_of_memory_def CPUDevice_def CPUDevice_allocate_def posix_memalign_def valid_alignment_def kDefaultAlignment_def
      new_region_def bump_memalign_def float_mem_def extents_def rbind_eq_Inr bump_new_def)

end
