(* ===== verification/Math_Elementwise.thy ===== *)
theory Math_Elementwise
  imports Float_Arrays
begin

text \<open>
  \<open>math/elementwise.cpp\<close>: the elementwise operations on the CPU. None looks at the element type: every
  tensor is read as an array of \<open>float\<close>.
\<close>

section \<open>Reference loops\<close>

definition zip_f32 :: "(f32 \<Rightarrow> f32 \<Rightarrow> f32) \<Rightarrow> ptr \<Rightarrow> ptr \<Rightarrow> ptr \<Rightarrow> size_t \<Rightarrow> mem \<Rightarrow> mem comp" where
  "zip_f32 f a b out n =
     for_each (\<lambda>i m. rbind (rbind (load_f32 a i m) (\<lambda>x. rbind (load_f32 b i m) (\<lambda>y. Inr (f x y))))
                       (\<lambda>w. store_f32 out i w m)) [0..<unat n]"

definition add_f32 :: "float_ops \<Rightarrow> ptr \<Rightarrow> ptr \<Rightarrow> ptr \<Rightarrow> size_t \<Rightarrow> mem \<Rightarrow> mem comp" where
  "add_f32 fo = zip_f32 (f_add fo)"

definition mul_f32 :: "float_ops \<Rightarrow> ptr \<Rightarrow> ptr \<Rightarrow> ptr \<Rightarrow> size_t \<Rightarrow> mem \<Rightarrow> mem comp" where
  "mul_f32 fo = zip_f32 (f_mul fo)"

definition sub_f32 :: "float_ops \<Rightarrow> ptr \<Rightarrow> ptr \<Rightarrow> ptr \<Rightarrow> size_t \<Rightarrow> mem \<Rightarrow> mem comp" where
  "sub_f32 fo = zip_f32 (f_sub fo)"

definition div_f32 :: "float_ops \<Rightarrow> ptr \<Rightarrow> ptr \<Rightarrow> ptr \<Rightarrow> size_t \<Rightarrow> mem \<Rightarrow> mem comp" where
  "div_f32 fo = zip_f32 (f_div fo)"

text \<open>The loop of the operations on one tensor, whose body may fault.\<close>

definition map_f32 :: "(f32 \<Rightarrow> f32 comp) \<Rightarrow> ptr \<Rightarrow> ptr \<Rightarrow> size_t \<Rightarrow> mem \<Rightarrow> mem comp" where
  "map_f32 f a out n =
     for_each (\<lambda>i m. rbind (rbind (load_f32 a i m) f) (\<lambda>w. store_f32 out i w m)) [0..<unat n]"

section \<open>Operations\<close>

text \<open>The frame they share: an output like the first argument, the loop, the output moved out.\<close>

definition binary_op :: "(ptr \<Rightarrow> ptr \<Rightarrow> ptr \<Rightarrow> size_t \<Rightarrow> mem \<Rightarrow> mem comp) \<Rightarrow> Tensor \<Rightarrow> Tensor \<Rightarrow> mem \<Rightarrow> (Tensor Expected \<times> mem) comp" where
  "binary_op loop a b m =
     rbind (deref (t_device a)) (\<lambda>d. rbind (Tensor_new (t_shape a) (t_dtype a) d m) (\<lambda>(out, m1).
     rbind (t_num_elements a) (\<lambda>n. rbind (loop (t_data a) (t_data b) (t_data out) (of_int n) m1) (\<lambda>m2.
       Inr (Ok (fst (Tensor_move out)), m2)))))"

definition unary_op :: "(f32 \<Rightarrow> f32 comp) \<Rightarrow> Tensor \<Rightarrow> mem \<Rightarrow> (Tensor Expected \<times> mem) comp" where
  "unary_op f a m =
     rbind (deref (t_device a)) (\<lambda>d. rbind (Tensor_new (t_shape a) (t_dtype a) d m) (\<lambda>(out, m1).
     rbind (t_num_elements a) (\<lambda>n. rbind (map_f32 f (t_data a) (t_data out) (of_int n) m1) (\<lambda>m2.
       Inr (Ok (fst (Tensor_move out)), m2)))))"

definition math_add :: "float_ops \<Rightarrow> Tensor \<Rightarrow> Tensor \<Rightarrow> mem \<Rightarrow> (Tensor Expected \<times> mem) comp" where
  "math_add fo a b m = binary_op (add_f32 fo) a b m"

definition math_add_out :: "float_ops \<Rightarrow> Tensor \<Rightarrow> Tensor \<Rightarrow> Tensor \<Rightarrow> mem \<Rightarrow> (Tensor Expected \<times> mem) comp" where
  "math_add_out fo a b out m =
     rbind (t_num_elements a) (\<lambda>n. rbind (add_f32 fo (t_data a) (t_data b) (t_data out) (of_int n) m) (\<lambda>m'.
       Inr (Ok Tensor_default, m')))"

definition math_add_inplace :: "float_ops \<Rightarrow> Tensor \<Rightarrow> Tensor \<Rightarrow> mem \<Rightarrow> mem comp" where
  "math_add_inplace fo a b m =
     rbind (t_num_elements a) (\<lambda>n. zip_f32 (f_add fo) (t_data a) (t_data b) (t_data a) (of_int n) m)"

definition math_add_scalar :: "float_ops \<Rightarrow> Tensor \<Rightarrow> f32 \<Rightarrow> mem \<Rightarrow> (Tensor Expected \<times> mem) comp" where
  "math_add_scalar fo a scalar m = unary_op (\<lambda>x. Inr (f_add fo x scalar)) a m"

definition math_sub :: "float_ops \<Rightarrow> Tensor \<Rightarrow> Tensor \<Rightarrow> mem \<Rightarrow> (Tensor Expected \<times> mem) comp" where
  "math_sub fo a b m = binary_op (sub_f32 fo) a b m"

definition math_mul :: "float_ops \<Rightarrow> Tensor \<Rightarrow> Tensor \<Rightarrow> mem \<Rightarrow> (Tensor Expected \<times> mem) comp" where
  "math_mul fo a b m = binary_op (mul_f32 fo) a b m"

definition math_mul_scalar_inplace :: "float_ops \<Rightarrow> Tensor \<Rightarrow> f32 \<Rightarrow> mem \<Rightarrow> mem comp" where
  "math_mul_scalar_inplace fo a scalar m =
     rbind (t_num_elements a) (\<lambda>n. map_f32 (\<lambda>x. Inr (f_mul fo x scalar)) (t_data a) (t_data a) (of_int n) m)"

definition math_div :: "float_ops \<Rightarrow> Tensor \<Rightarrow> Tensor \<Rightarrow> mem \<Rightarrow> (Tensor Expected \<times> mem) comp" where
  "math_div fo a b m = binary_op (div_f32 fo) a b m"

definition math_negate :: "float_ops \<Rightarrow> Tensor \<Rightarrow> mem \<Rightarrow> (Tensor Expected \<times> mem) comp" where
  "math_negate fo a m = unary_op (\<lambda>x. Inr (f_neg fo x)) a m"

definition math_abs :: "float_ops \<Rightarrow> Tensor \<Rightarrow> mem \<Rightarrow> (Tensor Expected \<times> mem) comp" where
  "math_abs fo a m = unary_op (\<lambda>x. Inr (f_abs fo x)) a m"

definition math_sqrt :: "float_ops \<Rightarrow> Tensor \<Rightarrow> mem \<Rightarrow> (Tensor Expected \<times> mem) comp" where
  "math_sqrt fo a m = unary_op (\<lambda>x. Inr (f_sqrt fo x)) a m"

definition math_rsqrt :: "float_ops \<Rightarrow> Tensor \<Rightarrow> mem \<Rightarrow> (Tensor Expected \<times> mem) comp" where
  "math_rsqrt fo a m = unary_op (\<lambda>x. Inr (f_div fo float_one (f_sqrt fo x))) a m"

definition math_pow :: "float_ops \<Rightarrow> Tensor \<Rightarrow> f32 \<Rightarrow> mem \<Rightarrow> (Tensor Expected \<times> mem) comp" where
  "math_pow fo a exponent m = unary_op (\<lambda>x. Inr (f_pow fo x exponent)) a m"

text \<open>\<open>std::clamp\<close> has undefined behaviour when the bounds are the wrong way round.\<close>

definition std_clamp :: "float_ops \<Rightarrow> f32 \<Rightarrow> f32 \<Rightarrow> f32 \<Rightarrow> f32 comp" where
  "std_clamp fo v lo hi =
     (if f_lt fo hi lo then Inl Assertion_Failed
      else if f_lt fo v lo then Inr lo else if f_lt fo hi v then Inr hi else Inr v)"

definition math_clamp :: "float_ops \<Rightarrow> Tensor \<Rightarrow> f32 \<Rightarrow> f32 \<Rightarrow> mem \<Rightarrow> (Tensor Expected \<times> mem) comp" where
  "math_clamp fo a min_val max_val m = unary_op (\<lambda>x. std_clamp fo x min_val max_val) a m"

section \<open>Every element is computed\<close>

text \<open>The loops, into an array apart from the inputs or equal to one of them.\<close>

lemma zip_f32_ok:
  assumes "within Host out (4 * unat n) m" and "floats a xs m" and "floats b ys m" and "length xs = unat n" and "length ys = unat n"
    and "a = out \<or> a + 4 * unat n \<le> out \<or> out + 4 * unat n \<le> a" and "b = out \<or> b + 4 * unat n \<le> out \<or> out + 4 * unat n \<le> b"
  shows "\<exists>m'. zip_f32 f a b out n m = Inr m' \<and> agrees out (4 * unat n) m m' \<and>
    (\<forall>i < unat n. load_f32 out i m' = Inr (f (xs ! i) (ys ! i)))"
  unfolding zip_f32_def
proof (rule write_loop [OF assms(1)])
  fix i m'
  assume i: "i < unat n" and ag: "agrees out (4 * unat n) m m'"
    and rest: "\<forall>j. i \<le> j \<longrightarrow> j < unat n \<longrightarrow> load_f32 out j m' = load_f32 out j m"
  have same: "load_f32 p i m' = Inr (zs ! i)"
    if "floats p zs m" "length zs = unat n" "p = out \<or> p + 4 * unat n \<le> out \<or> out + 4 * unat n \<le> p" for p zs
  proof (cases "p = out")
    case True
    with rest i that(1,2) show ?thesis by (simp add: floats_def)
  next
    case False
    with that(3) i have "load_f32 p i m' = load_f32 p i m" by (intro agrees_load [OF ag]) auto
    with that(1,2) i show ?thesis by (simp add: floats_def)
  qed
  show "rbind (load_f32 a i m') (\<lambda>x. rbind (load_f32 b i m') (\<lambda>y. Inr (f x y))) = Inr (f (xs ! i) (ys ! i))"
    using same [OF assms(2,4,6)] same [OF assms(3,5,7)] by simp
qed

lemma map_f32_ok:
  assumes "within Host out (4 * unat n) m" and "floats a xs m" and "length xs = unat n"
    and "a = out \<or> a + 4 * unat n \<le> out \<or> out + 4 * unat n \<le> a" and "\<And>i. i < unat n \<Longrightarrow> f (xs ! i) = Inr (g (xs ! i))"
  shows "\<exists>m'. map_f32 f a out n m = Inr m' \<and> agrees out (4 * unat n) m m' \<and> (\<forall>i < unat n. load_f32 out i m' = Inr (g (xs ! i)))"
  unfolding map_f32_def
proof (rule write_loop [OF assms(1)])
  fix i m'
  assume i: "i < unat n" and ag: "agrees out (4 * unat n) m m'"
    and rest: "\<forall>j. i \<le> j \<longrightarrow> j < unat n \<longrightarrow> load_f32 out j m' = load_f32 out j m"
  have "load_f32 a i m' = load_f32 a i m"
  proof (cases "a = out")
    case True
    with rest i show ?thesis by simp
  next
    case False
    with assms(4) i show ?thesis by (intro agrees_load [OF ag]) auto
  qed
  with assms(2,3,5) i show "rbind (load_f32 a i m') f = Inr (g (xs ! i))" by (simp add: floats_def)
qed

lemma map_zip_nth: "length xs = length ys \<Longrightarrow> map (\<lambda>i. f (xs ! i) (ys ! i)) [0..<length xs] = map2 f xs ys"
  by (rule nth_equalityI) simp_all

lemma holds_floats_region: "holds_floats d t xs m \<Longrightarrow> map_of (m_regions m) (t_data t) = Some (4 * length xs, Host)"
  by (simp add: holds_floats_def)

text \<open>An input is apart from a fresh output.\<close>

lemma fresh_apart:
  assumes "mem_ok m0" and fresh: "fresh_tensor Host out m m0" and "holds_floats d a xs m" and "unat (t_num_bytes out) = 4 * k"
  shows "t_data a + 4 * length xs \<le> t_data out \<or> t_data out + 4 * k \<le> t_data a"
proof -
  have "map_of (m_regions m0) (t_data a) = Some (4 * length xs, Host)" "t_data a \<noteq> t_data out"
    "map_of (m_regions m0) (t_data out) = Some (4 * k, Host)"
    using fresh assms(3,4) unfolding fresh_tensor_def holds_floats_def by auto
  from regions_apart [OF assms(1) this(1,3,2)] show ?thesis .
qed

lemma binary_op_ok:
  assumes "memalign_ok new" and ok: "mem_ok m" and a: "holds_floats (CPUDevice new) a xs m" and b: "holds_floats (CPUDevice new) b ys m"
    and len: "length ys = length xs" and oom: "\<not> out_of_memory (CPUDevice new) (4 * of_nat (length xs)) m"
  shows "returns_floats (CPUDevice new) m (binary_op (zip_f32 f) a b m) (map2 f xs ys)"
proof -
  note W = holds_floats_words [OF a]
  obtain out m0 where o: "Tensor_new (t_shape a) (t_dtype a) (CPUDevice new) m = Inr (out, m0)" "t_shape out = t_shape a"
    "t_dtype out = t_dtype a" "t_device out = Some (CPUDevice new)" "t_num_bytes out = 4 * of_nat (length xs)"
    "fresh_tensor Host out m m0" "mem_ok m0" "within Host (t_data out) (unat (4 * of_nat (length xs) :: size_t)) m0"
    using fresh_output [OF assms(1) ok W(2) oom] .
  have nb: "unat (t_num_bytes out) = 4 * length xs" using o(5) W(3) by simp
  have fa: "floats (t_data a) xs m0" "floats (t_data b) ys m0"
    using a b fresh_floats [OF o(6)] unfolding holds_floats_def by blast+
  have ap: "t_data a + 4 * length xs \<le> t_data out \<or> t_data out + 4 * length xs \<le> t_data a"
    "t_data b + 4 * length xs \<le> t_data out \<or> t_data out + 4 * length xs \<le> t_data b"
    using fresh_apart [OF o(7,6) a nb] fresh_apart [OF o(7,6) b nb] len by simp_all
  obtain m1 where m1: "zip_f32 f (t_data a) (t_data b) (t_data out) (of_int (int (length xs))) m0 = Inr m1"
    "agrees (t_data out) (4 * length xs) m0 m1" "\<forall>i < length xs. load_f32 (t_data out) i m1 = Inr (f (xs ! i) (ys ! i))"
    using zip_f32_ok [of "t_data out" "of_int (int (length xs))" m0 "t_data a" xs "t_data b" ys f] o(8) W(1,3) fa ap len
    by (auto simp del: of_int_of_nat_eq)
  have "t_device a = Some (CPUDevice new)" "t_num_elements a = Inr (int (length xs))" "t_dtype a = kFloat32"
    using a by (simp_all add: holds_floats_def t_num_elements_def)
  with o(1) m1(1) have "binary_op (zip_f32 f) a b m = Inr (Ok out, m1)"
    by (simp add: binary_op_def Tensor_move_def bh_move_def del: of_int_of_nat_eq)
  with returns_floats_intro [OF ok a o(2) _ o(4) nb o(6) m1(2,3)] o(3) \<open>t_dtype a = kFloat32\<close> len
  show ?thesis by (simp add: map_zip_nth)
qed

lemma unary_op_ok:
  assumes "memalign_ok new" and ok: "mem_ok m" and a: "holds_floats (CPUDevice new) a xs m"
    and oom: "\<not> out_of_memory (CPUDevice new) (4 * of_nat (length xs)) m" and f: "\<And>x. x \<in> set xs \<Longrightarrow> f x = Inr (g x)"
  shows "returns_floats (CPUDevice new) m (unary_op f a m) (map g xs)"
proof -
  note W = holds_floats_words [OF a]
  obtain out m0 where o: "Tensor_new (t_shape a) (t_dtype a) (CPUDevice new) m = Inr (out, m0)" "t_shape out = t_shape a"
    "t_dtype out = t_dtype a" "t_device out = Some (CPUDevice new)" "t_num_bytes out = 4 * of_nat (length xs)"
    "fresh_tensor Host out m m0" "mem_ok m0" "within Host (t_data out) (unat (4 * of_nat (length xs) :: size_t)) m0"
    using fresh_output [OF assms(1) ok W(2) oom] .
  have nb: "unat (t_num_bytes out) = 4 * length xs" using o(5) W(3) by simp
  have fa: "floats (t_data a) xs m0" using a fresh_floats [OF o(6)] unfolding holds_floats_def by blast
  have ap: "t_data a + 4 * length xs \<le> t_data out \<or> t_data out + 4 * length xs \<le> t_data a"
    using fresh_apart [OF o(7,6) a nb] .
  have "\<exists>m1. map_f32 f (t_data a) (t_data out) (of_int (int (length xs))) m0 = Inr m1 \<and>
    agrees (t_data out) (4 * unat (of_int (int (length xs)) :: size_t)) m0 m1 \<and>
    (\<forall>i < unat (of_int (int (length xs)) :: size_t). load_f32 (t_data out) i m1 = Inr (g (xs ! i)))"
    by (rule map_f32_ok) (use o(8) W(1,3) fa ap f in \<open>auto simp del: of_int_of_nat_eq\<close>)
  then obtain m1 where m1: "map_f32 f (t_data a) (t_data out) (of_int (int (length xs))) m0 = Inr m1"
    "agrees (t_data out) (4 * length xs) m0 m1" "\<forall>i < length xs. load_f32 (t_data out) i m1 = Inr (g (xs ! i))"
    unfolding W(1) by blast
  have "t_device a = Some (CPUDevice new)" "t_num_elements a = Inr (int (length xs))" "t_dtype a = kFloat32"
    using a by (simp_all add: holds_floats_def t_num_elements_def)
  with o(1) m1(1) have "unary_op f a m = Inr (Ok out, m1)"
    by (simp add: unary_op_def Tensor_move_def bh_move_def del: of_int_of_nat_eq)
  moreover have "map (\<lambda>i. g (xs ! i)) [0..<length xs] = map g xs" by (rule nth_equalityI) simp_all
  ultimately show ?thesis
    using returns_floats_intro [OF ok a o(2) _ o(4) nb o(6) m1(2,3)] o(3) \<open>t_dtype a = kFloat32\<close> by simp
qed

section \<open>Properties\<close>

text \<open>
  C13: on float tensors of one size on the CPU, each elementwise operation returns a new tensor whose
  elements are the operation applied element by element, and changes nothing else; it does so for any
  arithmetic, and for \<open>clamp\<close> when its bounds are in order. The allocation of the result must succeed.
\<close>

theorem elementwise_pointwise:
  assumes "memalign_ok new" and "mem_ok m" and "holds_floats (CPUDevice new) a xs m" and "holds_floats (CPUDevice new) b ys m"
    and "length ys = length xs" and "\<not> out_of_memory (CPUDevice new) (4 * of_nat (length xs)) m" and "\<not> f_lt fo hi lo"
  defines "gives \<equiv> returns_floats (CPUDevice new) m"
  shows "gives (math_add fo a b m) (map2 (f_add fo) xs ys) \<and> gives (math_sub fo a b m) (map2 (f_sub fo) xs ys) \<and>
    gives (math_mul fo a b m) (map2 (f_mul fo) xs ys) \<and> gives (math_div fo a b m) (map2 (f_div fo) xs ys) \<and>
    gives (math_add_scalar fo a c m) (map (\<lambda>x. f_add fo x c) xs) \<and> gives (math_negate fo a m) (map (f_neg fo) xs) \<and>
    gives (math_abs fo a m) (map (f_abs fo) xs) \<and> gives (math_sqrt fo a m) (map (f_sqrt fo) xs) \<and>
    gives (math_rsqrt fo a m) (map (\<lambda>x. f_div fo float_one (f_sqrt fo x)) xs) \<and>
    gives (math_pow fo a c m) (map (\<lambda>x. f_pow fo x c) xs) \<and>
    gives (math_clamp fo a lo hi m) (map (\<lambda>x. if f_lt fo x lo then lo else if f_lt fo hi x then hi else x) xs)"
proof -
  note binary = binary_op_ok [OF assms(1-6)] and unary = unary_op_ok [OF assms(1-3,6)]
  have "gives (math_clamp fo a lo hi m) (map (\<lambda>x. if f_lt fo x lo then lo else if f_lt fo hi x then hi else x) xs)"
    unfolding gives_def math_clamp_def by (rule unary) (simp add: std_clamp_def assms(7))
  then show ?thesis
    by (simp add: gives_def math_add_def add_f32_def math_sub_def sub_f32_def math_mul_def mul_f32_def math_div_def div_f32_def
        math_add_scalar_def math_negate_def math_abs_def math_sqrt_def math_rsqrt_def math_pow_def binary unary)
qed

text \<open>
  The in-place operations update each element of the first tensor once, with the operands it had
  before, also when both operands are the same tensor.
\<close>

theorem inplace_updates_once:
  assumes "mem_ok m" and "holds_floats d a xs m" and "holds_floats d b ys m" and "length ys = length xs"
  shows "(\<exists>m'. math_add_inplace fo a b m = Inr m' \<and> holds_floats d a (map2 (f_add fo) xs ys) m' \<and>
      agrees (t_data a) (4 * length xs) m m') \<and>
    (\<exists>m'. math_add_inplace fo a a m = Inr m' \<and> holds_floats d a (map (\<lambda>x. f_add fo x x) xs) m') \<and>
    (\<exists>m'. math_mul_scalar_inplace fo a c m = Inr m' \<and> holds_floats d a (map (\<lambda>x. f_mul fo x c) xs) m')"
proof -
  note W = holds_floats_words [OF assms(2)]
  have n: "t_num_elements a = Inr (int (length xs))" and fx: "floats (t_data a) xs m" "floats (t_data b) ys m"
    and w: "within Host (t_data a) (4 * length xs) m"
    using assms within_of_region [OF mem_ok_umap [OF assms(1)]] by (auto simp: holds_floats_def t_num_elements_def)
  have keep: "holds_floats d a zs m'" if "agrees (t_data a) (4 * length xs) m m'" "length zs = length xs"
    "\<forall>i < length xs. load_f32 (t_data a) i m' = Inr (zs ! i)" for zs m'
    using assms(2) that by (auto simp: holds_floats_def agrees_def floats_def)
  have b: "t_data b = t_data a \<or> t_data b + 4 * length xs \<le> t_data a \<or> t_data a + 4 * length xs \<le> t_data b"
    using holds_floats_apart [OF assms(1,3) holds_floats_region [OF assms(2)]] assms(4) by auto
  have zip: "\<exists>m'. zip_f32 f (t_data a) q (t_data a) (of_int (int (length xs))) m = Inr m' \<and> agrees (t_data a) (4 * length xs) m m' \<and>
      (\<forall>i < length xs. load_f32 (t_data a) i m' = Inr (f (xs ! i) (zs ! i)))"
    if "floats q zs m" "length zs = length xs" "q = t_data a \<or> q + 4 * length xs \<le> t_data a \<or> t_data a + 4 * length xs \<le> q" for f q zs
    using zip_f32_ok [of "t_data a" "of_int (int (length xs))" m "t_data a" xs q zs f] W(1) w fx(1) that
    by (simp del: of_int_of_nat_eq)
  have one: "\<exists>m'. math_add_inplace fo a b m = Inr m' \<and> holds_floats d a (map2 (f_add fo) xs ys) m' \<and>
      agrees (t_data a) (4 * length xs) m m'"
    using zip [OF fx(2) assms(4) b, of "f_add fo"] n keep [of _ "map2 (f_add fo) xs ys"] assms(4)
    by (auto simp: math_add_inplace_def simp del: of_int_of_nat_eq)
  have two: "\<exists>m'. math_add_inplace fo a a m = Inr m' \<and> holds_floats d a (map (\<lambda>x. f_add fo x x) xs) m'"
    using zip [OF fx(1), of "f_add fo"] n keep [of _ "map (\<lambda>x. f_add fo x x) xs"]
    by (auto simp: math_add_inplace_def simp del: of_int_of_nat_eq)
  have "\<exists>m'. map_f32 (\<lambda>x. Inr (f_mul fo x c)) (t_data a) (t_data a) (of_int (int (length xs))) m = Inr m' \<and>
      agrees (t_data a) (4 * unat (of_int (int (length xs)) :: size_t)) m m' \<and>
      (\<forall>i < unat (of_int (int (length xs)) :: size_t). load_f32 (t_data a) i m' = Inr (f_mul fo (xs ! i) c))"
    by (rule map_f32_ok) (use W(1) w fx in \<open>auto simp del: of_int_of_nat_eq\<close>)
  then obtain m' where "map_f32 (\<lambda>x. Inr (f_mul fo x c)) (t_data a) (t_data a) (of_int (int (length xs))) m = Inr m'"
    "agrees (t_data a) (4 * length xs) m m'" "\<forall>i < length xs. load_f32 (t_data a) i m' = Inr (f_mul fo (xs ! i) c)"
    unfolding W(1) by blast
  then have "\<exists>m'. math_mul_scalar_inplace fo a c m = Inr m' \<and> holds_floats d a (map (\<lambda>x. f_mul fo x c) xs) m'"
    using n keep [of m' "map (\<lambda>x. f_mul fo x c) xs"] by (simp add: math_mul_scalar_inplace_def del: of_int_of_nat_eq)
  with one two show ?thesis by blast
qed

lemma elementwise_pointwise_witness:
  "returns_floats (CPUDevice bump_memalign) float_mem (math_add word_floats (float_matrix 64) (float_matrix 128) float_mem) [1, 2, 0, 3] \<and>
   returns_floats (CPUDevice bump_memalign) float_mem (math_clamp word_floats (float_matrix 64) 1 2 float_mem) [1, 1, 1, 2]"
  using elementwise_pointwise [OF bump_memalign_ok float_mem_ok float_matrix_holds, where fo = word_floats and lo = 1 and hi = 2]
    float_mem_memory by (simp add: word_floats_def)

lemma inplace_updates_once_witness:
  "\<exists>m'. math_add_inplace word_floats (float_matrix 64) (float_matrix 64) float_mem = Inr m' \<and>
     holds_floats (CPUDevice bump_memalign) (float_matrix 64) [2, 0, 0, 6] m'"
  using inplace_updates_once [OF float_mem_ok float_matrix_holds, of word_floats] by (simp add: word_floats_def)

end
