(* ===== verification/Math_Reduction.thy ===== *)
theory Math_Reduction
  imports Math_Elementwise
begin

text \<open>
  \<open>math/reduction.cpp\<close>: reductions of a tensor to one element. The reductions along an axis are not
  implemented in the source and say so.
\<close>

section \<open>Reference loops\<close>

definition sum_f32 :: "float_ops \<Rightarrow> ptr \<Rightarrow> size_t \<Rightarrow> mem \<Rightarrow> f32 comp" where
  "sum_f32 fo data n m =
     for_each (\<lambda>i result. rbind (load_f32 data i m) (\<lambda>x. Inr (f_add fo result x))) [0..<unat n] 0"

definition max_f32 :: "float_ops \<Rightarrow> ptr \<Rightarrow> size_t \<Rightarrow> mem \<Rightarrow> f32 comp" where
  "max_f32 fo data n m =
     rbind (load_f32 data 0 m)
       (for_each (\<lambda>i result. rbind (load_f32 data i m) (\<lambda>x. Inr (f_max fo result x))) [1..<unat n])"

definition min_f32 :: "float_ops \<Rightarrow> ptr \<Rightarrow> size_t \<Rightarrow> mem \<Rightarrow> f32 comp" where
  "min_f32 fo data n m =
     rbind (load_f32 data 0 m)
       (for_each (\<lambda>i result. rbind (load_f32 data i m) (\<lambda>x. Inr (f_min fo result x))) [1..<unat n])"

definition mean_f32 :: "float_ops \<Rightarrow> ptr \<Rightarrow> size_t \<Rightarrow> mem \<Rightarrow> f32 comp" where
  "mean_f32 fo data n m = rbind (sum_f32 fo data n m) (\<lambda>s. Inr (f_div fo s (f_of_int fo (uint n))))"

definition var_f32 :: "float_ops \<Rightarrow> ptr \<Rightarrow> size_t \<Rightarrow> mem \<Rightarrow> f32 comp" where
  "var_f32 fo data n m =
     rbind (mean_f32 fo data n m) (\<lambda>mean.
     rbind (for_each (\<lambda>i var. rbind (load_f32 data i m) (\<lambda>x. let diff = f_sub fo x mean in
              Inr (f_add fo var (f_mul fo diff diff)))) [0..<unat n] 0) (\<lambda>var.
       Inr (f_div fo var (f_of_int fo (uint n)))))"

section \<open>Operations\<close>

text \<open>The frame they share: a tensor of one element, the reduction, the store of its result.\<close>

definition scalar_op :: "(ptr \<Rightarrow> size_t \<Rightarrow> mem \<Rightarrow> f32 comp) \<Rightarrow> Tensor \<Rightarrow> mem \<Rightarrow> (Tensor Expected \<times> mem) comp" where
  "scalar_op f a m =
     rbind (deref (t_device a)) (\<lambda>d. rbind (Tensor_new (TensorShape_init [1]) (t_dtype a) d m) (\<lambda>(out, m1).
     rbind (t_num_elements a) (\<lambda>n. rbind (f (t_data a) (of_int n) m1) (\<lambda>w.
     rbind (store_f32 (t_data out) 0 w m1) (\<lambda>m2. Inr (Ok (fst (Tensor_move out)), m2))))))"

definition math_sum :: "float_ops \<Rightarrow> Tensor \<Rightarrow> mem \<Rightarrow> (Tensor Expected \<times> mem) comp" where
  "math_sum fo a m = scalar_op (sum_f32 fo) a m"

definition math_sum_axis :: "Tensor \<Rightarrow> int \<Rightarrow> mem \<Rightarrow> (Tensor Expected \<times> mem) comp" where
  "math_sum_axis a axis m =
     rbind (shape_set_dim (t_shape a) (of_int axis) 1) (\<lambda>out_shape. rbind (deref (t_device a)) (\<lambda>d.
     rbind (Tensor_new out_shape (t_dtype a) d m) (\<lambda>(out, m1). rbind (Tensor_destroy out m1) (\<lambda>m2.
       Inr (MakeUnexpected (Status_NotImplemented ''Along-axis reduction not yet implemented''), m2)))))"

definition math_mean :: "float_ops \<Rightarrow> Tensor \<Rightarrow> mem \<Rightarrow> (Tensor Expected \<times> mem) comp" where
  "math_mean fo a m = scalar_op (mean_f32 fo) a m"

definition math_mean_axis :: "Tensor \<Rightarrow> int \<Rightarrow> Tensor Expected" where
  "math_mean_axis a axis = MakeUnexpected (Status_NotImplemented ''Along-axis mean not yet implemented'')"

definition math_max :: "float_ops \<Rightarrow> Tensor \<Rightarrow> mem \<Rightarrow> (Tensor Expected \<times> mem) comp" where
  "math_max fo a m = scalar_op (max_f32 fo) a m"

definition math_max_with_indices :: "Tensor \<Rightarrow> int \<Rightarrow> (Tensor \<times> Tensor) Expected" where
  "math_max_with_indices a axis = MakeUnexpected (Status_NotImplemented ''Along-axis max_with_indices not yet implemented'')"

definition math_min :: "float_ops \<Rightarrow> Tensor \<Rightarrow> mem \<Rightarrow> (Tensor Expected \<times> mem) comp" where
  "math_min fo a m = scalar_op (min_f32 fo) a m"

definition argmax_loop :: "float_ops \<Rightarrow> ptr \<Rightarrow> size_t \<Rightarrow> mem \<Rightarrow> (nat \<times> f32) comp" where
  "argmax_loop fo data n m =
     rbind (load_f32 data 0 m) (\<lambda>x0.
       for_each (\<lambda>i (max_idx, max_val). rbind (load_f32 data i m) (\<lambda>x.
           Inr (if f_lt fo max_val x then (i, x) else (max_idx, max_val)))) [1..<unat n] (0, x0))"

definition math_argmax :: "float_ops \<Rightarrow> Tensor \<Rightarrow> int \<Rightarrow> mem \<Rightarrow> (Tensor Expected \<times> mem) comp" where
  "math_argmax fo a axis m =
     (if axis = -1 then
        rbind (deref (t_device a)) (\<lambda>d. rbind (Tensor_new (TensorShape_init [1]) kInt64 d m) (\<lambda>(out, m1).
        rbind (t_num_elements a) (\<lambda>n. rbind (argmax_loop fo (t_data a) (of_int n) m1) (\<lambda>(max_idx, _).
        rbind (mstore Host (t_data out) (bytes_of_i64 (of_nat max_idx)) m1) (\<lambda>m2.
          Inr (Ok (fst (Tensor_move out)), m2))))))
      else Inr (MakeUnexpected (Status_NotImplemented ''Along-axis argmax not yet implemented''), m))"

definition math_argmin :: "Tensor \<Rightarrow> int \<Rightarrow> Tensor Expected" where
  "math_argmin a axis = MakeUnexpected (Status_NotImplemented ''argmin not yet implemented'')"

definition prod_loop_f32 :: "float_ops \<Rightarrow> ptr \<Rightarrow> size_t \<Rightarrow> mem \<Rightarrow> f32 comp" where
  "prod_loop_f32 fo data n m =
     for_each (\<lambda>i result. rbind (load_f32 data i m) (\<lambda>x. Inr (f_mul fo result x))) [0..<unat n] float_one"

definition math_prod :: "float_ops \<Rightarrow> Tensor \<Rightarrow> mem \<Rightarrow> (Tensor Expected \<times> mem) comp" where
  "math_prod fo a m = scalar_op (prod_loop_f32 fo) a m"

definition math_std :: "float_ops \<Rightarrow> Tensor \<Rightarrow> mem \<Rightarrow> (Tensor Expected \<times> mem) comp" where
  "math_std fo a m = scalar_op (\<lambda>data n m. rbind (var_f32 fo data n m) (\<lambda>v. Inr (f_sqrt fo v))) a m"

definition math_var :: "float_ops \<Rightarrow> Tensor \<Rightarrow> mem \<Rightarrow> (Tensor Expected \<times> mem) comp" where
  "math_var fo a m = scalar_op (var_f32 fo) a m"

definition norm_loop :: "float_ops \<Rightarrow> f32 \<Rightarrow> ptr \<Rightarrow> size_t \<Rightarrow> mem \<Rightarrow> f32 comp" where
  "norm_loop fo p data n m =
     rbind (for_each (\<lambda>i sum. rbind (load_f32 data i m) (\<lambda>x. Inr (f_add fo sum (f_pow fo (f_abs fo x) p)))) [0..<unat n] 0)
       (\<lambda>sum. Inr (f_pow fo sum (f_div fo float_one p)))"

definition math_norm :: "float_ops \<Rightarrow> Tensor \<Rightarrow> f32 \<Rightarrow> mem \<Rightarrow> (Tensor Expected \<times> mem) comp" where
  "math_norm fo a p m = scalar_op (norm_loop fo p) a m"

section \<open>The loops are folds\<close>

text \<open>What the reductions compute of a list.\<close>

definition fold_sum :: "float_ops \<Rightarrow> f32 list \<Rightarrow> f32" where
  "fold_sum fo xs = foldl (f_add fo) 0 xs"

definition fold_mean :: "float_ops \<Rightarrow> f32 list \<Rightarrow> f32" where
  "fold_mean fo xs = f_div fo (fold_sum fo xs) (f_of_int fo (int (length xs)))"

definition fold_var :: "float_ops \<Rightarrow> f32 list \<Rightarrow> f32" where
  "fold_var fo xs = (let mean = fold_mean fo xs in
     f_div fo (fold_sum fo (map (\<lambda>x. f_mul fo (f_sub fo x mean) (f_sub fo x mean)) xs)) (f_of_int fo (int (length xs))))"

definition fold_max :: "float_ops \<Rightarrow> f32 list \<Rightarrow> f32" where
  "fold_max fo xs = foldl (f_max fo) (hd xs) (tl xs)"

definition fold_min :: "float_ops \<Rightarrow> f32 list \<Rightarrow> f32" where
  "fold_min fo xs = foldl (f_min fo) (hd xs) (tl xs)"

lemma foldl_map: "foldl f a (map g xs) = foldl (\<lambda>a x. f a (g x)) a xs"
  by (induction xs arbitrary: a) simp_all

lemma drop_one: "xs \<noteq> [] \<Longrightarrow> drop (Suc 0) xs = tl xs"
  by (cases xs) simp_all

lemma floats_load: "floats p xs m \<Longrightarrow> i < length xs \<Longrightarrow> load_f32 p i m = Inr (xs ! i)"
  by (simp add: floats_def)

lemma reduction_folds:
  assumes "floats data xs m" and n: "unat n = length xs"
  shows "sum_f32 fo data n m = Inr (fold_sum fo xs)" and "mean_f32 fo data n m = Inr (fold_mean fo xs)"
    and "var_f32 fo data n m = Inr (fold_var fo xs)" and "prod_loop_f32 fo data n m = Inr (foldl (f_mul fo) float_one xs)"
    and "norm_loop fo p data n m = Inr (f_pow fo (fold_sum fo (map (\<lambda>x. f_pow fo (f_abs fo x) p) xs)) (f_div fo float_one p))"
proof -
  have u: "uint n = int (length xs)" using n by (metis uint_nat)
  have loop: "for_each (\<lambda>i acc. rbind (load_f32 data i m) (\<lambda>x. Inr (f acc x))) [0..<unat n] acc = Inr (foldl f acc xs)" for f acc
    using read_loop [of 0 "unat n" "\<lambda>i acc. rbind (load_f32 data i m) (\<lambda>x. Inr (f acc x))" f xs acc] floats_load [OF assms(1)] n
    by simp
  show s: "sum_f32 fo data n m = Inr (fold_sum fo xs)" by (simp add: sum_f32_def fold_sum_def loop)
  show me: "mean_f32 fo data n m = Inr (fold_mean fo xs)" by (simp add: mean_f32_def fold_mean_def s u)
  show "var_f32 fo data n m = Inr (fold_var fo xs)"
    by (simp add: var_f32_def fold_var_def fold_sum_def me loop foldl_map Let_def u)
  show "prod_loop_f32 fo data n m = Inr (foldl (f_mul fo) float_one xs)" by (simp add: prod_loop_f32_def loop)
  show "norm_loop fo p data n m = Inr (f_pow fo (fold_sum fo (map (\<lambda>x. f_pow fo (f_abs fo x) p) xs)) (f_div fo float_one p))"
    by (simp add: norm_loop_def fold_sum_def loop foldl_map)
qed

lemma max_folds:
  assumes "floats data xs m" and n: "unat n = length xs" and "xs \<noteq> []"
  shows "max_f32 fo data n m = Inr (fold_max fo xs)" and "min_f32 fo data n m = Inr (fold_min fo xs)"
proof -
  have x0: "load_f32 data 0 m = Inr (hd xs)" using floats_load [OF assms(1), of 0] assms(3) by (simp add: hd_conv_nth)
  have loop: "for_each (\<lambda>i acc. rbind (load_f32 data i m) (\<lambda>x. Inr (f acc x))) [1..<unat n] acc = Inr (foldl f acc (tl xs))" for f acc
    using read_loop [of 1 "unat n" "\<lambda>i acc. rbind (load_f32 data i m) (\<lambda>x. Inr (f acc x))" f xs acc] floats_load [OF assms(1)]
      n assms(3) by (simp add: drop_one Suc_le_eq)
  show "max_f32 fo data n m = Inr (fold_max fo xs)" "min_f32 fo data n m = Inr (fold_min fo xs)"
    using x0 loop by (simp_all add: max_f32_def min_f32_def fold_max_def fold_min_def)
qed

text \<open>
  The comparison of floats that are not NaN is a strict weak order; \<open>max_f32\<close> then returns an element
  that no element exceeds.
\<close>

definition weak_order_on :: "float_ops \<Rightarrow> f32 set \<Rightarrow> bool" where
  "weak_order_on fo S \<longleftrightarrow> (\<forall>x \<in> S. \<not> f_lt fo x x) \<and>
     (\<forall>x \<in> S. \<forall>y \<in> S. \<forall>z \<in> S. \<not> f_lt fo x y \<longrightarrow> \<not> f_lt fo y z \<longrightarrow> \<not> f_lt fo x z) \<and>
     (\<forall>x \<in> S. \<forall>y \<in> S. f_lt fo x y \<longrightarrow> \<not> f_lt fo y x)"

lemma weak_orderD:
  assumes "weak_order_on fo S"
  shows "x \<in> S \<Longrightarrow> \<not> f_lt fo x x" and "x \<in> S \<Longrightarrow> y \<in> S \<Longrightarrow> z \<in> S \<Longrightarrow> \<not> f_lt fo x y \<Longrightarrow> \<not> f_lt fo y z \<Longrightarrow> \<not> f_lt fo x z"
    and "x \<in> S \<Longrightarrow> y \<in> S \<Longrightarrow> f_lt fo x y \<Longrightarrow> \<not> f_lt fo y x"
  using assms unfolding weak_order_on_def by blast+

lemma weak_order_subset: "weak_order_on fo S \<Longrightarrow> T \<subseteq> S \<Longrightarrow> weak_order_on fo T"
  unfolding weak_order_on_def by (meson subsetD)

lemma foldl_select:
  assumes order: "weak_order_on fo S" and "a \<in> S" and "set xs \<subseteq> S"
  shows "foldl (f_max fo) a xs \<in> insert a (set xs) \<and> (\<forall>x \<in> insert a (set xs). \<not> f_lt fo (foldl (f_max fo) a xs) x)"
    and "foldl (f_min fo) a xs \<in> insert a (set xs) \<and> (\<forall>x \<in> insert a (set xs). \<not> f_lt fo x (foldl (f_min fo) a xs))"
  using assms(2,3)
proof (induction xs arbitrary: a)
  case (Cons x xs)
  {
    case 1
    let ?b = "f_max fo a x"
    have S: "?b \<in> S" "set xs \<subseteq> S" "x \<in> S" using 1 by (auto simp: f_max_def)
    note IH = Cons.IH(1) [OF S(1,2)]
    have b: "\<not> f_lt fo ?b a" "\<not> f_lt fo ?b x" 
      using weak_orderD(1) [OF order 1(1)] weak_orderD(1) [OF order S(3)] weak_orderD(3) [OF order 1(1) S(3)] by (simp_all add: f_max_def)
    have r: "foldl (f_max fo) ?b xs \<in> S" using conjunct1 [OF IH] S by auto
    have "\<not> f_lt fo (foldl (f_max fo) ?b xs) ?b" using IH by simp
    from weak_orderD(2) [OF order r S(1) 1(1) this b(1)] weak_orderD(2) [OF order r S(1,3) this b(2)]
    have "\<not> f_lt fo (foldl (f_max fo) ?b xs) a" "\<not> f_lt fo (foldl (f_max fo) ?b xs) x" .
    moreover have "?b = a \<or> ?b = x" by (simp add: f_max_def)
    ultimately show ?case using IH by auto
  next
    case 2
    let ?b = "f_min fo a x"
    have S: "?b \<in> S" "set xs \<subseteq> S" "x \<in> S" using 2 by (auto simp: f_min_def)
    note IH = Cons.IH(2) [OF S(1,2)]
    have b: "\<not> f_lt fo a ?b" "\<not> f_lt fo x ?b" 
      using weak_orderD(1) [OF order 2(1)] weak_orderD(1) [OF order S(3)] weak_orderD(3) [OF order S(3) 2(1)] by (simp_all add: f_min_def)
    have r: "foldl (f_min fo) ?b xs \<in> S" using conjunct1 [OF IH] S by auto
    have "\<not> f_lt fo ?b (foldl (f_min fo) ?b xs)" using IH by simp
    from weak_orderD(2) [OF order 2(1) S(1) r b(1) this] weak_orderD(2) [OF order S(3,1) r b(2) this]
    have "\<not> f_lt fo a (foldl (f_min fo) ?b xs)" "\<not> f_lt fo x (foldl (f_min fo) ?b xs)" .
    moreover have "?b = a \<or> ?b = x" by (simp add: f_min_def)
    ultimately show ?case using IH by auto
  }
qed (simp_all add: weak_orderD(1) [OF order])

lemma fold_max_ok:
  assumes "weak_order_on fo (set xs)" and "xs \<noteq> []"
  shows "fold_max fo xs \<in> set xs \<and> (\<forall>x \<in> set xs. \<not> f_lt fo (fold_max fo xs) x)"
    and "fold_min fo xs \<in> set xs \<and> (\<forall>x \<in> set xs. \<not> f_lt fo x (fold_min fo xs))"
proof -
  have x: "insert (hd xs) (set (tl xs)) = set xs" "hd xs \<in> set xs" "set (tl xs) \<subseteq> set xs"
    using assms(2) by (cases xs; auto)+
  show "fold_max fo xs \<in> set xs \<and> (\<forall>x \<in> set xs. \<not> f_lt fo (fold_max fo xs) x)"
    "fold_min fo xs \<in> set xs \<and> (\<forall>x \<in> set xs. \<not> f_lt fo x (fold_min fo xs))"
    using foldl_select [OF assms(1) x(2,3)] unfolding x(1) fold_max_def fold_min_def by blast+
qed

text \<open>\<open>argmax\<close>: the first position of an element no other exceeds.\<close>

definition first_max :: "float_ops \<Rightarrow> f32 list \<Rightarrow> nat \<Rightarrow> bool" where
  "first_max fo xs k \<longleftrightarrow> k < length xs \<and> (\<forall>j < length xs. \<not> f_lt fo (xs ! k) (xs ! j)) \<and> (\<forall>j < k. f_lt fo (xs ! j) (xs ! k))"

lemma argmax_loop_ok:
  assumes "floats data xs m" and n: "unat n = length xs" and "xs \<noteq> []" and order: "weak_order_on fo (set xs)"
  shows "\<exists>k. argmax_loop fo data n m = Inr (k, xs ! k) \<and> first_max fo xs k"
proof -
  define P where "P = (\<lambda>i (k, v). v = xs ! k \<and> first_max fo (take i xs) k)"
  have x0: "load_f32 data 0 m = Inr (xs ! 0)" using floats_load [OF assms(1), of 0] assms(3) by simp
  have in_S: "j < length xs \<Longrightarrow> xs ! j \<in> set xs" for j by simp
  have "\<exists>t. for_each (\<lambda>i (max_idx, max_val). rbind (load_f32 data i m) (\<lambda>x.
           Inr (if f_lt fo max_val x then (i, x) else (max_idx, max_val)))) [1..<length xs] (0, xs ! 0) = Inr t \<and> P (length xs) t"
  proof (rule for_each_upt)
    show "P 1 (0, xs ! 0)"
      using assms(3) weak_orderD(1) [OF order in_S, of 0] by (cases xs) (simp_all add: P_def first_max_def)
    show "1 \<le> length xs" using assms(3) by (simp add: Suc_le_eq)
    fix i t assume i: "1 \<le> i" "i < length xs" and P: "P i t"
    obtain k v where t: "t = (k, v)" by fastforce
    have k: "v = xs ! k" "k < i" "\<forall>j < i. \<not> f_lt fo (xs ! k) (xs ! j)" "\<forall>j < k. f_lt fo (xs ! j) (xs ! k)"
      using P i unfolding P_def t first_max_def by auto
    have load: "load_f32 data i m = Inr (xs ! i)" using floats_load [OF assms(1)] i by simp
    show "\<exists>t'. (case t of (max_idx, max_val) \<Rightarrow> rbind (load_f32 data i m) (\<lambda>x.
        Inr (if f_lt fo max_val x then (i, x) else (max_idx, max_val)))) = Inr t' \<and> P (Suc i) t'"
    proof (cases "f_lt fo (xs ! k) (xs ! i)")
      case True
      have less: "f_lt fo (xs ! j) (xs ! i)" if "j < i" for j
      proof (rule ccontr)
        assume "\<not> f_lt fo (xs ! j) (xs ! i)"
        with weak_orderD(2) [OF order in_S in_S in_S, of k j i] k i that True show False by simp
      qed
      have "\<not> f_lt fo (xs ! i) (xs ! j)" if "j < Suc i" for j
        using weak_orderD(1) [OF order in_S, of i] weak_orderD(3) [OF order in_S in_S less, of j] that i
        by (cases "j = i") auto
      with True load less k i show ?thesis by (simp add: t P_def first_max_def)
    next
      case False
      have "\<not> f_lt fo (xs ! k) (xs ! j)" if "j < Suc i" for j
        using False k(3) that by (cases "j = i") auto
      with False load k i show ?thesis by (simp add: t P_def first_max_def)
    qed
  qed
  then obtain k v where "for_each (\<lambda>i (max_idx, max_val). rbind (load_f32 data i m) (\<lambda>x.
           Inr (if f_lt fo max_val x then (i, x) else (max_idx, max_val)))) [1..<length xs] (0, xs ! 0) = Inr (k, v)"
    "P (length xs) (k, v)" by fastforce
  with x0 n show ?thesis by (simp add: argmax_loop_def P_def)
qed

section \<open>The operations\<close>

lemma one_element_shape:
  "num_elements (TensorShape_init [1]) = Inr 1" "shape_bytes (TensorShape_init [1]) dt = Inr (kDTypeSize dt)"
proof -
  show n: "num_elements (TensorShape_init [1]) = Inr 1"
    using num_elements_ok [of "TensorShape_init [1]"] TensorShape_init_ok [of "[1]"]
    by (simp add: kMaxDim_def dims_fit_def) (simp add: TensorShape_init_def)
  then show "shape_bytes (TensorShape_init [1]) dt = Inr (kDTypeSize dt)" by (simp add: shape_bytes_def)
qed

lemma scalar_op_ok:
  assumes "memalign_ok new" and ok: "mem_ok m" and a: "holds_floats (CPUDevice new) a xs m" and oom: "\<not> out_of_memory (CPUDevice new) 4 m"
    and f: "\<And>m'. floats (t_data a) xs m' \<Longrightarrow> f (t_data a) (of_int (int (length xs))) m' = Inr w"
  shows "returns_floats (CPUDevice new) m (scalar_op f a m) [w]"
proof -
  have A: "t_device a = Some (CPUDevice new)" "t_num_elements a = Inr (int (length xs))" "t_dtype a = kFloat32" "floats (t_data a) xs m"
    using a by (simp_all add: holds_floats_def t_num_elements_def)
  have b: "shape_bytes (TensorShape_init [1]) kFloat32 = Inr 4" by (simp add: one_element_shape)
  obtain out m0 where o: "Tensor_new (TensorShape_init [1]) kFloat32 (CPUDevice new) m = Inr (out, m0)" "t_shape out = TensorShape_init [1]"
    "t_dtype out = kFloat32" "t_device out = Some (CPUDevice new)" "t_num_bytes out = 4"
    "fresh_tensor Host out m m0" "mem_ok m0" "within Host (t_data out) (unat (4 :: size_t)) m0"
    using fresh_output [OF assms(1) ok b oom] .
  have fa: "floats (t_data a) xs m0" using fresh_floats [OF o(6) A(4)] .
  obtain m1 where m1: "store_f32 (t_data out) 0 w m0 = Inr m1" "agrees (t_data out) 4 m0 m1" "load_f32 (t_data out) 0 m1 = Inr w"
    using store_ok [of "t_data out" 1 m0 0 w] o(8) by auto
  have run: "scalar_op f a m = Inr (Ok out, m1)"
    using A o(1) f [OF fa] m1(1) by (simp add: scalar_op_def Tensor_move_def bh_move_def del: of_int_of_nat_eq)
  have fresh: "fresh_tensor Host out m m1" by (rule fresh_agrees [OF ok o(6)]) (simp add: o(5) m1(2))
  moreover have "holds_floats (CPUDevice new) out [w] m1"
    using o(2-5) m1(3) fresh one_element_shape(1) by (simp add: holds_floats_def floats_def fresh_tensor_def)
  ultimately show ?thesis using run unfolding returns_floats_def by blast
qed

text \<open>What the loops can fail with.\<close>

lemma loads_fault:
  "for_each (\<lambda>i acc. rbind (load_f32 data i m) (\<lambda>x. Inr (f acc x))) is acc = Inl e \<Longrightarrow> e = Out_Of_Bounds"
  by (induction "is" arbitrary: acc) (auto simp: rbind_eq_Inl load_f32_def mload_def split: if_splits)

lemma reduction_fault:
  "sum_f32 fo data n m = Inl e \<Longrightarrow> e = Out_Of_Bounds" "mean_f32 fo data n m = Inl e \<Longrightarrow> e = Out_Of_Bounds"
  "max_f32 fo data n m = Inl e \<Longrightarrow> e = Out_Of_Bounds" "min_f32 fo data n m = Inl e \<Longrightarrow> e = Out_Of_Bounds"
  "var_f32 fo data n m = Inl e \<Longrightarrow> e = Out_Of_Bounds" "prod_loop_f32 fo data n m = Inl e \<Longrightarrow> e = Out_Of_Bounds"
proof -
  have load: "load_f32 data i m = Inl e \<Longrightarrow> e = Out_Of_Bounds" for i
    by (auto simp: load_f32_def rbind_eq_Inl mload_def split: if_splits)
  show s: "sum_f32 fo data n m = Inl e \<Longrightarrow> e = Out_Of_Bounds" unfolding sum_f32_def by (rule loads_fault)
  then show me: "mean_f32 fo data n m = Inl e \<Longrightarrow> e = Out_Of_Bounds" by (auto simp: mean_f32_def rbind_eq_Inl)
  show "max_f32 fo data n m = Inl e \<Longrightarrow> e = Out_Of_Bounds" "min_f32 fo data n m = Inl e \<Longrightarrow> e = Out_Of_Bounds"
    unfolding max_f32_def min_f32_def rbind_eq_Inl using load by (auto dest: loads_fault)
  show "var_f32 fo data n m = Inl e \<Longrightarrow> e = Out_Of_Bounds"
    using me by (auto simp: var_f32_def rbind_eq_Inl Let_def dest: loads_fault)
  show "prod_loop_f32 fo data n m = Inl e \<Longrightarrow> e = Out_Of_Bounds" unfolding prod_loop_f32_def by (rule loads_fault)
qed

lemma scalar_op_small:
  assumes "memalign_ok new" and ok: "mem_ok m" and a: "t_device a = Some (CPUDevice new)" "t_num_elements a = Inr n"
    and small: "unat (kDTypeSize (t_dtype a)) < 4" and f: "\<And>p k m e. f p k m = Inl e \<Longrightarrow> e = Out_Of_Bounds"
  shows "scalar_op f a m = Inl Out_Of_Bounds"
proof -
  obtain out m0 where o: "Tensor_new (TensorShape_init [1]) (t_dtype a) (CPUDevice new) m = Inr (out, m0)" "t_num_bytes out = kDTypeSize (t_dtype a)"
    "t_data out = nullptr \<and> m0 = m \<or> t_data out \<noteq> nullptr \<and> fresh_tensor Host out m m0"
    using cpu.new_tensor [OF assms(1) ok one_element_shape(2) [of "t_dtype a"]] by blast
  have "\<not> within Host (t_data out) 4 m0"
  proof
    assume w: "within Host (t_data out) 4 m0"
    have ok0: "mem_ok m0" using o(3) ok unfolding fresh_tensor_def by blast
    then obtain p k where p: "map_of (m_regions m0) p = Some (k, Host)" "p \<le> t_data out" "t_data out + 4 \<le> p + k"
      using w within_region [OF mem_ok_umap] by blast
    have "0 < p" using ok0 p(1) unfolding mem_ok_def by blast
    with p(2) o(3) have fresh: "fresh_tensor Host out m m0" by auto
    then have region: "map_of (m_regions m0) (t_data out) = Some (unat (t_num_bytes out), Host)"
      by (simp add: fresh_tensor_def)
    show False
    proof (cases "p = t_data out")
      case True
      with region p o(2) small show False by simp
    next
      case False
      from regions_apart [OF ok0 p(1) region False] p o(2) kDTypeSize_pos [of "t_dtype a"] show False by auto
    qed
  qed
  then have "store_f32 (t_data out) 0 w m0 = Inl Out_Of_Bounds" for w by (simp add: store_f32_def mstore_def)
  with a o(1) f show ?thesis by (cases "f (t_data a) (of_int n) m0") (auto simp: scalar_op_def)
qed

section \<open>Properties\<close>

text \<open>
  C10: on a non-empty float tensor on the CPU without NaN (the comparison is a strict weak order on
  its elements) \<open>max\<close> and \<open>min\<close> return an element no other exceeds or undercuts, and \<open>argmax\<close> the
  position of the first greatest element; the input is kept.
\<close>

theorem max_min_argmax:
  assumes "memalign_ok new" and "mem_ok m" and "holds_floats (CPUDevice new) a xs m" and "weak_order_on fo (set xs)"
    and "\<not> out_of_memory (CPUDevice new) 4 m" and "\<not> out_of_memory (CPUDevice new) 8 m"
  shows "\<exists>hi lo. returns_floats (CPUDevice new) m (math_max fo a m) [hi] \<and> hi \<in> set xs \<and> (\<forall>x \<in> set xs. \<not> f_lt fo hi x) \<and>
    returns_floats (CPUDevice new) m (math_min fo a m) [lo] \<and> lo \<in> set xs \<and> (\<forall>x \<in> set xs. \<not> f_lt fo x lo) \<and>
    (\<exists>out m' k. math_argmax fo a (-1) m = Inr (Ok out, m') \<and> fresh_tensor Host out m m' \<and> t_dtype out = kInt64 \<and>
       mload Host (t_data out) 8 m' = Inr (bytes_of_i64 (of_nat k)) \<and> first_max fo xs k)"
proof -
  note W = holds_floats_words [OF assms(3)]
  have A: "t_device a = Some (CPUDevice new)" "t_num_elements a = Inr (int (length xs))" "floats (t_data a) xs m" "xs \<noteq> []"
    using assms(3) by (simp_all add: holds_floats_def t_num_elements_def)
  have "returns_floats (CPUDevice new) m (math_max fo a m) [fold_max fo xs]" "returns_floats (CPUDevice new) m (math_min fo a m) [fold_min fo xs]"
    unfolding math_max_def math_min_def using scalar_op_ok [OF assms(1-3,5)] max_folds [OF _ W(1) A(4)] by blast+
  moreover note fold_max_ok [OF assms(4) A(4)]
  moreover have "\<exists>out m' k. math_argmax fo a (-1) m = Inr (Ok out, m') \<and> fresh_tensor Host out m m' \<and> t_dtype out = kInt64 \<and>
       mload Host (t_data out) 8 m' = Inr (bytes_of_i64 (of_nat k)) \<and> first_max fo xs k"
  proof -
    have b: "shape_bytes (TensorShape_init [1]) kInt64 = Inr 8" by (simp add: one_element_shape)
    obtain out m0 where o: "Tensor_new (TensorShape_init [1]) kInt64 (CPUDevice new) m = Inr (out, m0)" "t_shape out = TensorShape_init [1]"
      "t_dtype out = kInt64" "t_device out = Some (CPUDevice new)" "t_num_bytes out = 8"
      "fresh_tensor Host out m m0" "mem_ok m0" "within Host (t_data out) (unat (8 :: size_t)) m0"
      using fresh_output [OF assms(1,2) b assms(6)] .
    obtain k where k: "argmax_loop fo (t_data a) (of_int (int (length xs))) m0 = Inr (k, xs ! k)" "first_max fo xs k"
      using argmax_loop_ok [OF fresh_floats [OF o(6) A(3)] W(1) A(4) assms(4)] by blast
    let ?bs = "bytes_of_i64 (of_nat k)" let ?m = "put_bytes (t_data out) ?bs m0"
    have w: "within Host (t_data out) (length ?bs) m0" using o(8) by simp
    then have "mstore Host (t_data out) ?bs m0 = Inr ?m" by (simp add: mstore_def)
    with A o(1) k(1) have "math_argmax fo a (-1) m = Inr (Ok out, ?m)"
      by (simp add: math_argmax_def Tensor_move_def bh_move_def del: of_int_of_nat_eq)
    moreover have "fresh_tensor Host out m ?m" by (rule fresh_agrees [OF assms(2) o(6)]) (simp add: agrees_def put_bytes_def o(5))
    moreover have "mload Host (t_data out) 8 ?m = Inr ?bs" using mload_put_same [OF w] by simp
    ultimately show ?thesis using o(3) k(2) by blast
  qed
  ultimately show ?thesis by blast
qed

text \<open>
  The other reductions fold the elements in order, as the source writes them, for any arithmetic.
\<close>

theorem reductions_fold:
  assumes "memalign_ok new" and "mem_ok m" and "holds_floats (CPUDevice new) a xs m" and "\<not> out_of_memory (CPUDevice new) 4 m"
  defines "gives \<equiv> returns_floats (CPUDevice new) m"
  shows "gives (math_sum fo a m) [fold_sum fo xs] \<and> gives (math_mean fo a m) [fold_mean fo xs] \<and>
    gives (math_var fo a m) [fold_var fo xs] \<and> gives (math_std fo a m) [f_sqrt fo (fold_var fo xs)] \<and>
    gives (math_prod fo a m) [foldl (f_mul fo) float_one xs] \<and>
    gives (math_norm fo a p m) [f_pow fo (fold_sum fo (map (\<lambda>x. f_pow fo (f_abs fo x) p) xs)) (f_div fo float_one p)]"
  using scalar_op_ok [OF assms(1-4)] reduction_folds [OF _ holds_floats_words(1) [OF assms(3)]]
  by (simp add: gives_def math_sum_def math_mean_def math_var_def math_std_def math_prod_def math_norm_def del: of_int_of_nat_eq)

text \<open>
  The reductions of a tensor whose elements have fewer than four bytes never return: they write a
  \<open>float\<close> into a result of one such element, past its end.
\<close>

theorem reductions_of_small_elements:
  assumes "memalign_ok new" and "mem_ok m" and "t_device a = Some (CPUDevice new)" and "t_num_elements a = Inr n"
    and "unat (kDTypeSize (t_dtype a)) < 4"
  shows "math_sum fo a m = Inl Out_Of_Bounds \<and> math_mean fo a m = Inl Out_Of_Bounds \<and> math_max fo a m = Inl Out_Of_Bounds \<and>
    math_min fo a m = Inl Out_Of_Bounds \<and> math_var fo a m = Inl Out_Of_Bounds \<and> math_prod fo a m = Inl Out_Of_Bounds"
  unfolding math_sum_def math_mean_def math_max_def math_min_def math_var_def math_prod_def
  by (intro conjI scalar_op_small [OF assms]) (fact reduction_fault)+

text \<open>An empty tensor has no first element to read.\<close>

lemma max_of_empty:
  assumes "mem_ok m"
  shows "max_f32 fo nullptr 0 m = Inl Out_Of_Bounds" "argmax_loop fo nullptr 0 m = Inl Out_Of_Bounds"
proof -
  have "\<not> within Host nullptr 4 m"
    using assms within_region [OF mem_ok_umap [OF assms], of Host 0 4] unfolding mem_ok_def by fastforce
  then show "max_f32 fo nullptr 0 m = Inl Out_Of_Bounds" "argmax_loop fo nullptr 0 m = Inl Out_Of_Bounds"
    by (simp_all add: max_f32_def argmax_loop_def load_f32_def mload_def)
qed

lemma word_floats_order: "weak_order_on word_floats S"
  unfolding weak_order_on_def by (auto simp: word_floats_def)

lemma float_mem_memory8: "\<not> out_of_memory (CPUDevice bump_memalign) 4 float_mem" "\<not> out_of_memory (CPUDevice bump_memalign) 8 float_mem"
  by (simp_all add: out_of_memory_def CPUDevice_def CPUDevice_allocate_def posix_memalign_def valid_alignment_def kDefaultAlignment_def
      new_region_def bump_memalign_def float_mem_def extents_def rbind_eq_Inr bump_new_def)

lemma max_min_argmax_witness:
  "\<exists>hi. returns_floats (CPUDevice bump_memalign) float_mem (math_max word_floats (float_matrix 64) float_mem) [hi] \<and>
     hi \<in> {1, 0, 3} \<and> \<not> hi < 3"
  using max_min_argmax [OF bump_memalign_ok float_mem_ok float_matrix_holds(1) word_floats_order float_mem_memory8]
  by (auto simp: word_floats_def)

lemma reductions_fold_witness:
  "returns_floats (CPUDevice bump_memalign) float_mem (math_sum word_floats (float_matrix 64) float_mem) [4]"
  using reductions_fold [OF bump_memalign_ok float_mem_ok float_matrix_holds(1) float_mem_memory8(1), of word_floats]
  by (simp add: fold_sum_def word_floats_def)

lemma reductions_of_small_elements_witness:
  "math_sum word_floats sample_tensor sample_mem = Inl Out_Of_Bounds"
proof -
  have "t_num_elements sample_tensor = Inr 4"
    using num_elements_ok [of "TensorShape_init [4]"] TensorShape_init_ok [of "[4]"]
    by (simp add: t_num_elements_def sample_holds kMaxDim_def dims_fit_def) (simp add: TensorShape_init_def)
  then show ?thesis
    using reductions_of_small_elements [OF bump_memalign_ok sample_holds(1,6)] by (simp add: sample_holds)
qed

end
