(* ===== verification/Math_Softmax.thy ===== *)
theory Math_Softmax
  imports Math_Reduction
begin

text \<open>
  \<open>math/softmax.cpp\<close>: softmax, its logarithm, softmax with a temperature and hardmax over the rows of a
  matrix. The row loops count in \<open>int\<close>: their products go through a 32-bit range check, and a dimension
  is truncated to 32 bits.
\<close>

section \<open>Indices of type int\<close>

definition s32 :: "int \<Rightarrow> int comp" where
  "s32 x = (if - (2 ^ 31) \<le> x \<and> x < 2 ^ 31 then Inr x else Inl Signed_Overflow)"

definition trunc32 :: "int \<Rightarrow> int" where
  "trunc32 x = sint (word_of_int x :: 32 word)"

text \<open>A pointer to \<open>float\<close> plus an offset.\<close>

definition f_ptr :: "ptr \<Rightarrow> int \<Rightarrow> ptr comp" where
  "f_ptr p k = (if 0 \<le> int p + 4 * k then Inr (nat (int p + 4 * k)) else Inl Out_Of_Bounds)"

section \<open>Reference loops\<close>

definition stride_index :: "nat \<Rightarrow> size_t \<Rightarrow> nat" where
  "stride_index i stride = unat (of_nat i * stride)"

definition max_loop :: "float_ops \<Rightarrow> ptr \<Rightarrow> size_t \<Rightarrow> size_t \<Rightarrow> mem \<Rightarrow> f32 comp" where
  "max_loop fo x n stride m =
     rbind (load_f32 x 0 m)
       (for_each (\<lambda>i max_val. rbind (load_f32 x (stride_index i stride) m) (\<lambda>v. Inr (f_max fo max_val v))) [1..<unat n])"

definition softmax_f32 :: "float_ops \<Rightarrow> ptr \<Rightarrow> ptr \<Rightarrow> size_t \<Rightarrow> size_t \<Rightarrow> mem \<Rightarrow> mem comp" where
  "softmax_f32 fo x out n stride m =
     rbind (max_loop fo x n stride m) (\<lambda>max_val.
     rbind (for_each (\<lambda>i (sum, m). rbind (load_f32 x (stride_index i stride) m) (\<lambda>v.
              rbind (store_f32 out (stride_index i stride) (f_exp fo (f_sub fo v max_val)) m) (\<lambda>m'.
              rbind (load_f32 out (stride_index i stride) m') (\<lambda>e. Inr (f_add fo sum e, m'))))) [0..<unat n] (0, m)) (\<lambda>(sum, m1).
     let inv_sum = f_div fo float_one sum in
     for_each (\<lambda>i m. rbind (rbind (load_f32 out (stride_index i stride) m) (\<lambda>e. Inr (f_mul fo e inv_sum)))
                       (\<lambda>w. store_f32 out (stride_index i stride) w m)) [0..<unat n] m1))"

definition row_pointers :: "(ptr \<Rightarrow> ptr \<Rightarrow> size_t \<Rightarrow> size_t \<Rightarrow> mem \<Rightarrow> mem comp) \<Rightarrow> ptr \<Rightarrow> ptr \<Rightarrow> int \<Rightarrow> int \<Rightarrow> mem \<Rightarrow> mem comp" where
  "row_pointers row x out rows cols =
     for_each (\<lambda>r m. rbind (s32 (int r * cols)) (\<lambda>k. rbind (f_ptr x k) (\<lambda>xr. rbind (f_ptr out k) (\<lambda>outr.
         row xr outr (of_int cols) 1 m)))) [0..<nat rows]"

definition softmax_axis_f32 :: "float_ops \<Rightarrow> ptr \<Rightarrow> ptr \<Rightarrow> int list \<Rightarrow> int \<Rightarrow> int \<Rightarrow> mem \<Rightarrow> mem comp" where
  "softmax_axis_f32 fo x out shape ndim axis m =
     (if ndim = 2 \<and> axis = 1
      then rbind (aget shape 0) (\<lambda>rows. rbind (aget shape 1) (\<lambda>cols. row_pointers (softmax_f32 fo) x out rows cols m))
      else Inr m)"

definition log_softmax_f32 :: "float_ops \<Rightarrow> ptr \<Rightarrow> ptr \<Rightarrow> size_t \<Rightarrow> size_t \<Rightarrow> mem \<Rightarrow> mem comp" where
  "log_softmax_f32 fo x out n stride m =
     rbind (max_loop fo x n stride m) (\<lambda>max_val.
     rbind (for_each (\<lambda>i sum. rbind (load_f32 x (stride_index i stride) m) (\<lambda>v.
              Inr (f_add fo sum (f_exp fo (f_sub fo v max_val))))) [0..<unat n] 0) (\<lambda>sum.
     let log_sum = f_add fo (f_log fo sum) max_val in
     for_each (\<lambda>i m. rbind (rbind (load_f32 x (stride_index i stride) m) (\<lambda>v. Inr (f_sub fo v log_sum)))
                       (\<lambda>w. store_f32 out (stride_index i stride) w m)) [0..<unat n] m))"

section \<open>Operations\<close>

text \<open>The frame of \<open>softmax\<close> and \<open>log_softmax\<close>: they differ in the row kernel and the message.\<close>

definition last_axis_op :: "(ptr \<Rightarrow> ptr \<Rightarrow> size_t \<Rightarrow> size_t \<Rightarrow> mem \<Rightarrow> mem comp) \<Rightarrow> string \<Rightarrow> Tensor \<Rightarrow> int \<Rightarrow> mem \<Rightarrow>
    (Tensor Expected \<times> mem) comp" where
  "last_axis_op row msg a axis m =
     rbind (deref (t_device a)) (\<lambda>d. rbind (Tensor_new (t_shape a) (t_dtype a) d m) (\<lambda>(out, m1).
       if axis = -1 \<or> axis = shp_ndims (t_shape a) - 1 then
         rbind (if shp_ndims (t_shape a) = 2 then
                  rbind (shape_dim (t_shape a) 0) (\<lambda>d0. rbind (shape_dim (t_shape a) 1) (\<lambda>d1.
                    row_pointers row (t_data a) (t_data out) (trunc32 d0) (trunc32 d1) m1))
                else rbind (t_num_elements a) (\<lambda>n. row (t_data a) (t_data out) (of_int n) 1 m1)) (\<lambda>m2.
         Inr (Ok (fst (Tensor_move out)), m2))
       else rbind (Tensor_destroy out m1) (\<lambda>m2. Inr (MakeUnexpected (Status_NotImplemented msg), m2))))"

definition math_softmax :: "float_ops \<Rightarrow> Tensor \<Rightarrow> int \<Rightarrow> mem \<Rightarrow> (Tensor Expected \<times> mem) comp" where
  "math_softmax fo a axis m = last_axis_op (softmax_f32 fo) ''Only last-axis softmax supported'' a axis m"

definition math_log_softmax :: "float_ops \<Rightarrow> Tensor \<Rightarrow> int \<Rightarrow> mem \<Rightarrow> (Tensor Expected \<times> mem) comp" where
  "math_log_softmax fo a axis m = last_axis_op (log_softmax_f32 fo) ''Only last-axis log_softmax supported'' a axis m"

definition math_softmax_with_temperature :: "float_ops \<Rightarrow> Tensor \<Rightarrow> f32 \<Rightarrow> int \<Rightarrow> mem \<Rightarrow> (Tensor Expected \<times> mem) comp" where
  "math_softmax_with_temperature fo a temperature axis m =
     rbind (deref (t_device a)) (\<lambda>d. rbind (Tensor_Empty (t_shape a) (t_dtype a) d m) (\<lambda>(scaled, m1).
     let inv_temp = f_div fo float_one temperature in
     rbind (t_num_elements a) (\<lambda>n.
     rbind (map_f32 (\<lambda>x. Inr (f_mul fo x inv_temp)) (t_data a) (t_data scaled) (of_int n) m1) (\<lambda>m2.
     rbind (math_softmax fo scaled axis m2) (\<lambda>(r, m3). rbind (Tensor_destroy scaled m3) (\<lambda>m4. Inr (r, m4)))))))"

definition hardmax_row :: "float_ops \<Rightarrow> ptr \<Rightarrow> ptr \<Rightarrow> int \<Rightarrow> nat \<Rightarrow> mem \<Rightarrow> mem comp" where
  "hardmax_row fo in_data out_data cols r m =
     rbind (s32 (int r * cols)) (\<lambda>k. rbind (f_ptr in_data k) (\<lambda>p0. rbind (load_f32 p0 0 m) (\<lambda>x0.
     rbind (for_each (\<lambda>c (max_idx, max_val). rbind (s32 (int r * cols)) (\<lambda>k. rbind (s32 (k + int c)) (\<lambda>kc.
              rbind (f_ptr in_data kc) (\<lambda>p. rbind (load_f32 p 0 m) (\<lambda>x.
                Inr (if f_lt fo max_val x then (c, x) else (max_idx, max_val)))))))
            [1..<nat cols] (0, x0)) (\<lambda>(max_idx, _).
     rbind (s32 (k + int max_idx)) (\<lambda>km. rbind (f_ptr out_data km) (\<lambda>p. store_f32 p 0 float_one m))))))"

definition math_hardmax :: "float_ops \<Rightarrow> Tensor \<Rightarrow> int \<Rightarrow> mem \<Rightarrow> (Tensor Expected \<times> mem) comp" where
  "math_hardmax fo a axis m =
     rbind (deref (t_device a)) (\<lambda>d. rbind (Tensor_new (t_shape a) kFloat32 d m) (\<lambda>(out, m1).
     rbind (t_fill_zero out m1) (\<lambda>m2.
     rbind (if (axis = -1 \<or> axis = shp_ndims (t_shape a) - 1) \<and> shp_ndims (t_shape a) = 2 then
              rbind (shape_dim (t_shape a) 0) (\<lambda>d0. rbind (shape_dim (t_shape a) 1) (\<lambda>d1.
                for_each (hardmax_row fo (t_data a) (t_data out) (trunc32 d1)) [0..<nat (trunc32 d0)] m2))
            else Inr m2) (\<lambda>m3. Inr (Ok (fst (Tensor_move out)), m3)))))"

definition math_softmax_stable :: "float_ops \<Rightarrow> Tensor \<Rightarrow> int \<Rightarrow> mem \<Rightarrow> (Tensor Expected \<times> mem) comp" where
  "math_softmax_stable fo a axis m = math_softmax fo a axis m"

section \<open>What a row becomes\<close>

definition softmax_row :: "float_ops \<Rightarrow> f32 list \<Rightarrow> f32 list" where
  "softmax_row fo xs =
     (let es = map (\<lambda>x. f_exp fo (f_sub fo x (fold_max fo xs))) xs
      in map (\<lambda>e. f_mul fo e (f_div fo float_one (fold_sum fo es))) es)"

definition log_softmax_row :: "float_ops \<Rightarrow> f32 list \<Rightarrow> f32 list" where
  "log_softmax_row fo xs =
     (let hi = fold_max fo xs; es = map (\<lambda>x. f_exp fo (f_sub fo x hi)) xs
      in map (\<lambda>x. f_sub fo x (f_add fo (f_log fo (fold_sum fo es)) hi)) xs)"

definition rows_of :: "nat \<Rightarrow> nat \<Rightarrow> 'a list \<Rightarrow> 'a list list" where
  "rows_of R C xs = map (\<lambda>r. take C (drop (r * C) xs)) [0..<R]"

lemma row_fits: "r < R \<Longrightarrow> r * C + C \<le> R * (C :: nat)"
  using mult_le_mono1 [of "Suc r" R C] by simp

lemma length_row: "length xs = R * C \<Longrightarrow> r < R \<Longrightarrow> length (take C (drop (r * C) xs)) = C"
  using row_fits [of r R C] by simp

lemma floats_append: "floats p (xs @ ys) m \<longleftrightarrow> floats p xs m \<and> floats (p + 4 * length xs) ys m"
proof
  assume a: "floats p (xs @ ys) m"
  have "load_f32 p i m = Inr (xs ! i)" if "i < length xs" for i
    using a that by (auto simp: floats_def nth_append dest: spec [of _ i])
  moreover have "load_f32 p (length xs + j) m = Inr (ys ! j)" if "j < length ys" for j
    using a that by (auto simp: floats_def nth_append dest: spec [of _ "length xs + j"])
  ultimately show "floats p xs m \<and> floats (p + 4 * length xs) ys m" by (simp add: floats_def load_shift)
next
  assume a: "floats p xs m \<and> floats (p + 4 * length xs) ys m"
  have "load_f32 p i m = Inr ((xs @ ys) ! i)" if "i < length (xs @ ys)" for i
  proof (cases "i < length xs")
    case True
    with a show ?thesis by (simp add: floats_def nth_append)
  next
    case False
    then obtain j where j: "i = length xs + j" using le_Suc_ex not_less by blast
    with a that have "load_f32 (p + 4 * length xs) j m = Inr (ys ! j)" by (simp add: floats_def)
    with j show ?thesis by (simp add: load_shift nth_append)
  qed
  then show "floats p (xs @ ys) m" by (simp add: floats_def)
qed

lemma floats_row: "floats p xs m \<Longrightarrow> k + C \<le> length xs \<Longrightarrow> floats (p + 4 * k) (take C (drop k xs)) m"
  unfolding floats_def by (simp add: load_shift)

text \<open>A loop over rows: each round fills its row of the output.\<close>

lemma rows_loop:
  assumes region: "within Host out (4 * (R * C)) m" and len: "\<And>r. r < R \<Longrightarrow> length (row r) = C"
    and step: "\<And>r m'. r < R \<Longrightarrow> agrees out (4 * (R * C)) m m' \<Longrightarrow>
      \<forall>j. r * C \<le> j \<longrightarrow> load_f32 out j m' = load_f32 out j m \<Longrightarrow>
      \<exists>m''. body r m' = Inr m'' \<and> agrees (out + 4 * (r * C)) (4 * C) m' m'' \<and> floats (out + 4 * (r * C)) (row r) m''"
  shows "\<exists>m'. for_each body [0..<R] m = Inr m' \<and> agrees out (4 * (R * C)) m m' \<and> floats out (concat (map row [0..<R])) m'"
proof -
  define P where "P = (\<lambda>r m'. agrees out (4 * (R * C)) m m' \<and> floats out (concat (map row [0..<r])) m' \<and>
      (\<forall>j. r * C \<le> j \<longrightarrow> load_f32 out j m' = load_f32 out j m))"
  have lens: "length (concat (map row [0..<r])) = r * C" if "r \<le> R" for r
    using that len by (induction r) simp_all
  have "\<exists>t. for_each body [0..<R] m = Inr t \<and> P R t"
  proof (rule for_each_upt)
    show "P 0 m" by (simp add: P_def floats_def)
    fix r t assume r: "r < R" and P: "P r t"
    then obtain t' where t': "body r t = Inr t'" "agrees (out + 4 * (r * C)) (4 * C) t t'" "floats (out + 4 * (r * C)) (row r) t'"
      using step [OF r] unfolding P_def by blast
    have "load_f32 out j t' = load_f32 out j m" if "Suc r * C \<le> j" for j
    proof -
      have "load_f32 out j t' = load_f32 out j t" by (rule agrees_load [OF t'(2)]) (use that in simp)
      with P that show ?thesis by (simp add: P_def)
    qed
    moreover have "agrees out (4 * (R * C)) t t'" by (rule agrees_wider [OF t'(2)]) (use row_fits [OF r, of C] in simp_all)
    then have "agrees out (4 * (R * C)) m t'" using P unfolding P_def by (blast intro: agrees_trans)
    moreover have "floats out (concat (map row [0..<r])) t'"
      by (rule agrees_floats [OF t'(2)]) (use P lens [of r] r in \<open>simp_all add: P_def\<close>)
    then have "floats out (concat (map row [0..<Suc r])) t'"
      using t'(3) lens [of r] r by (simp add: floats_append)
    ultimately show "\<exists>t'. body r t = Inr t' \<and> P (Suc r) t'" using t'(1) unfolding P_def by blast
  qed simp
  then show ?thesis unfolding P_def by blast
qed

section \<open>The kernels compute the rows\<close>

lemma stride_one: "i < unat (n :: size_t) \<Longrightarrow> stride_index i 1 = i"
  using unat_less_mult [of n] by (simp add: stride_index_def unat_of_nat_size)

lemma max_loop_ok:
  assumes "floats x xs m" and "unat n = length xs" and "xs \<noteq> []"
  shows "max_loop fo x n 1 m = Inr (fold_max fo xs)"
proof -
  have "for_each (\<lambda>i max_val. rbind (load_f32 x (stride_index i 1) m) (\<lambda>v. Inr (f_max fo max_val v))) [1..<unat n] acc =
      for_each (\<lambda>i max_val. rbind (load_f32 x i m) (\<lambda>v. Inr (f_max fo max_val v))) [1..<unat n] acc" for acc
    by (rule for_each_cong) (simp add: stride_one [of _ n])
  then have "max_loop fo x n 1 m = max_f32 fo x n m" by (simp add: max_loop_def max_f32_def cong: rbind_cong)
  with max_folds(1) [OF assms] show ?thesis by simp
qed

text \<open>The loop that stores the exponentials and adds them up.\<close>

lemma exp_loop_ok:
  fixes fo :: float_ops and hi :: f32 and n :: size_t
  assumes region: "within Host out (4 * unat n) m" and fx: "floats x xs m" and n: "unat n = length xs"
    and apart: "x + 4 * length xs \<le> out \<or> out + 4 * length xs \<le> x"
  defines "es \<equiv> map (\<lambda>v. f_exp fo (f_sub fo v hi)) xs"
  shows "\<exists>m'. for_each (\<lambda>i (sum, m). rbind (load_f32 x (stride_index i 1) m) (\<lambda>v.
      rbind (store_f32 out (stride_index i 1) (f_exp fo (f_sub fo v hi)) m) (\<lambda>m'.
      rbind (load_f32 out (stride_index i 1) m') (\<lambda>e. Inr (f_add fo sum e, m'))))) [0..<unat n] (0, m) = Inr (fold_sum fo es, m') \<and>
    agrees out (4 * unat n) m m' \<and> floats out es m'"
proof -
  define P where "P = (\<lambda>i (s, m'). s = fold_sum fo (take i es) \<and> agrees out (4 * unat n) m m' \<and>
      (\<forall>j < i. load_f32 out j m' = Inr (es ! j)))"
  let ?body = "\<lambda>i (sum, m). rbind (load_f32 x (stride_index i 1) m) (\<lambda>v.
      rbind (store_f32 out (stride_index i 1) (f_exp fo (f_sub fo v hi)) m) (\<lambda>m'.
      rbind (load_f32 out (stride_index i 1) m') (\<lambda>e. Inr (f_add fo sum e, m'))))"
  have "\<exists>t. for_each ?body [0..<unat n] (0, m) = Inr t \<and> P (unat n) t"
  proof (rule for_each_upt)
    show "P 0 (0, m)" by (simp add: P_def fold_sum_def)
    fix i t assume i: "i < unat n" and P: "P i t"
    obtain s m' where t: "t = (s, m')" by fastforce
    have A: "s = fold_sum fo (take i es)" "agrees out (4 * unat n) m m'" "\<forall>j < i. load_f32 out j m' = Inr (es ! j)"
      using P unfolding t P_def by simp_all
    have "within Host out (4 * unat n) m'" using region agrees_within [OF A(2)] by simp
    then obtain m'' where st: "store_f32 out i (es ! i) m' = Inr m''" "agrees (out + 4 * i) 4 m' m''" "load_f32 out i m'' = Inr (es ! i)"
      "\<forall>j. j \<noteq> i \<longrightarrow> load_f32 out j m'' = load_f32 out j m'" using store_ok [OF _ i] by blast
    have "load_f32 x i m' = load_f32 x i m" using apart i n by (intro agrees_load [OF A(2)]) auto
    then have ld: "load_f32 x i m' = Inr (xs ! i)" using floats_load [OF fx] i n by simp
    have e: "es ! i = f_exp fo (f_sub fo (xs ! i) hi)" "i < length es" using i n by (simp_all add: es_def)
    have "agrees out (4 * unat n) m' m''" by (rule agrees_wider [OF st(2)]) (use i in simp_all)
    then have "agrees out (4 * unat n) m m''" using A(2) agrees_trans by blast
    moreover have "f_add fo s (es ! i) = fold_sum fo (take (Suc i) es)"
      using A(1) e(2) by (simp add: fold_sum_def take_Suc_conv_app_nth)
    moreover have "\<forall>j < Suc i. load_f32 out j m'' = Inr (es ! j)" using A(3) st(3,4) by (auto simp: less_Suc_eq)
    ultimately have "P (Suc i) (f_add fo s (es ! i), m'')" by (simp add: P_def)
    with st(1,3) ld e(1) i show "\<exists>t'. ?body i t = Inr t' \<and> P (Suc i) t'" by (simp add: t stride_one [of _ n])
  qed simp
  then obtain s m' where "for_each ?body [0..<unat n] (0, m) = Inr (s, m')" "P (unat n) (s, m')" by fastforce
  with n show ?thesis unfolding P_def floats_def by (auto simp: es_def)
qed

lemma softmax_f32_ok:
  assumes region: "within Host out (4 * unat n) m" and fx: "floats x xs m" and n: "unat n = length xs" and "xs \<noteq> []"
    and apart: "x + 4 * length xs \<le> out \<or> out + 4 * length xs \<le> x"
  shows "\<exists>m'. softmax_f32 fo x out n 1 m = Inr m' \<and> agrees out (4 * unat n) m m' \<and> floats out (softmax_row fo xs) m'"
proof -
  let ?es = "map (\<lambda>v. f_exp fo (f_sub fo v (fold_max fo xs))) xs" let ?inv = "f_div fo float_one (fold_sum fo ?es)"
  obtain m1 where m1: "for_each (\<lambda>i (sum, m). rbind (load_f32 x (stride_index i 1) m) (\<lambda>v.
      rbind (store_f32 out (stride_index i 1) (f_exp fo (f_sub fo v (fold_max fo xs))) m) (\<lambda>m'.
      rbind (load_f32 out (stride_index i 1) m') (\<lambda>e. Inr (f_add fo sum e, m'))))) [0..<unat n] (0, m) = Inr (fold_sum fo ?es, m1)"
    "agrees out (4 * unat n) m m1" "floats out ?es m1"
    using exp_loop_ok [OF region fx n apart, of fo "fold_max fo xs"] by blast
  have "within Host out (4 * unat n) m1" using region agrees_within [OF m1(2)] by simp
  then obtain m2 where m2: "map_f32 (\<lambda>e. Inr (f_mul fo e ?inv)) out out n m1 = Inr m2" "agrees out (4 * unat n) m1 m2"
    "\<forall>i < unat n. load_f32 out i m2 = Inr (f_mul fo (?es ! i) ?inv)"
    using map_f32_ok [of out n m1 out ?es "\<lambda>e. Inr (f_mul fo e ?inv)" "\<lambda>e. f_mul fo e ?inv"] m1(3) n by auto
  have "for_each (\<lambda>i m. rbind (rbind (load_f32 out (stride_index i 1) m) (\<lambda>e. Inr (f_mul fo e ?inv)))
      (\<lambda>w. store_f32 out (stride_index i 1) w m)) [0..<unat n] m1 = map_f32 (\<lambda>e. Inr (f_mul fo e ?inv)) out out n m1"
    unfolding map_f32_def by (rule for_each_cong) (simp add: stride_one [of _ n])
  then have "softmax_f32 fo x out n 1 m = Inr m2"
    using m1(1) m2(1) max_loop_ok [OF fx n assms(4)] by (simp add: softmax_f32_def Let_def)
  moreover have "floats out (softmax_row fo xs) m2" using m2(3) n by (simp add: floats_def softmax_row_def Let_def)
  ultimately show ?thesis using agrees_trans [OF m1(2) m2(2)] by blast
qed

lemma log_softmax_f32_ok:
  assumes region: "within Host out (4 * unat n) m" and fx: "floats x xs m" and n: "unat n = length xs" and "xs \<noteq> []"
    and apart: "x + 4 * length xs \<le> out \<or> out + 4 * length xs \<le> x"
  shows "\<exists>m'. log_softmax_f32 fo x out n 1 m = Inr m' \<and> agrees out (4 * unat n) m m' \<and> floats out (log_softmax_row fo xs) m'"
proof -
  let ?hi = "fold_max fo xs" let ?es = "map (\<lambda>v. f_exp fo (f_sub fo v ?hi)) xs"
  let ?ls = "f_add fo (f_log fo (fold_sum fo ?es)) ?hi"
  have "for_each (\<lambda>i sum. rbind (load_f32 x (stride_index i 1) m) (\<lambda>v. Inr (f_add fo sum (f_exp fo (f_sub fo v ?hi))))) [0..<unat n] 0 =
      Inr (foldl (\<lambda>s v. f_add fo s (f_exp fo (f_sub fo v ?hi))) 0 (drop 0 xs))"
    by (rule read_loop) (use floats_load [OF fx] n in \<open>simp_all add: stride_one [of _ n]\<close>)
  then have sum: "for_each (\<lambda>i sum. rbind (load_f32 x (stride_index i 1) m) (\<lambda>v. Inr (f_add fo sum (f_exp fo (f_sub fo v ?hi))))) [0..<unat n] 0 =
      Inr (fold_sum fo ?es)" by (simp add: fold_sum_def foldl_map)
  obtain m1 where m1: "map_f32 (\<lambda>v. Inr (f_sub fo v ?ls)) x out n m = Inr m1" "agrees out (4 * unat n) m m1"
    "\<forall>i < unat n. load_f32 out i m1 = Inr (f_sub fo (xs ! i) ?ls)"
    using map_f32_ok [OF region fx, of "\<lambda>v. Inr (f_sub fo v ?ls)" "\<lambda>v. f_sub fo v ?ls"] n apart by auto
  have "for_each (\<lambda>i m. rbind (rbind (load_f32 x (stride_index i 1) m) (\<lambda>v. Inr (f_sub fo v ?ls)))
      (\<lambda>w. store_f32 out (stride_index i 1) w m)) [0..<unat n] m = map_f32 (\<lambda>v. Inr (f_sub fo v ?ls)) x out n m"
    unfolding map_f32_def by (rule for_each_cong) (simp add: stride_one [of _ n])
  then have "log_softmax_f32 fo x out n 1 m = Inr m1"
    using m1(1) sum max_loop_ok [OF fx n assms(4)] by (simp add: log_softmax_f32_def Let_def)
  moreover have "floats out (log_softmax_row fo xs) m1" using m1(3) n by (simp add: floats_def log_softmax_row_def Let_def)
  ultimately show ?thesis using m1(2) by blast
qed

section \<open>Matrices\<close>

lemma trunc32_id: "0 \<le> x \<Longrightarrow> x < 2 ^ 31 \<Longrightarrow> trunc32 x = x"
  unfolding trunc32_def sint_uint uint_word_of_int by (simp add: take_bit_int_eq_self signed_take_bit_int_eq_self)

lemma shape_dim_init: "length ds \<le> kMaxDim \<Longrightarrow> unat i < length ds \<Longrightarrow> shape_dim (TensorShape_init ds) i = Inr (ds ! unat i)"
  using TensorShape_init_ok [of ds] sdims_nth [of "TensorShape_init ds" "unat i"]
  by (simp add: shape_dim_def aget_def shape_ok_def) (simp add: TensorShape_init_def)

definition row_kernel :: "(ptr \<Rightarrow> ptr \<Rightarrow> size_t \<Rightarrow> size_t \<Rightarrow> mem \<Rightarrow> mem comp) \<Rightarrow> (f32 list \<Rightarrow> f32 list) \<Rightarrow> bool" where
  "row_kernel row f \<longleftrightarrow> (\<forall>x out n xs m. within Host out (4 * unat n) m \<longrightarrow> floats x xs m \<longrightarrow> unat n = length xs \<longrightarrow> xs \<noteq> [] \<longrightarrow>
     x + 4 * length xs \<le> out \<or> out + 4 * length xs \<le> x \<longrightarrow>
     (\<exists>m'. row x out n 1 m = Inr m' \<and> agrees out (4 * unat n) m m' \<and> floats out (f xs) m')) \<and> (\<forall>xs. length (f xs) = length xs)"

lemma row_kernelD:
  assumes "row_kernel row f" and "within Host out (4 * unat n) m" and "floats x xs m" and "unat n = length xs" and "xs \<noteq> []"
    and "x + 4 * length xs \<le> out \<or> out + 4 * length xs \<le> x"
  shows "\<exists>m'. row x out n 1 m = Inr m' \<and> agrees out (4 * length xs) m m' \<and> floats out (f xs) m'"
  using assms unfolding row_kernel_def by metis

lemma softmax_kernels: "row_kernel (softmax_f32 fo) (softmax_row fo)" "row_kernel (log_softmax_f32 fo) (log_softmax_row fo)"
  unfolding row_kernel_def using softmax_f32_ok log_softmax_f32_ok by (auto simp: softmax_row_def log_softmax_row_def Let_def)

lemma row_index: "r < R \<Longrightarrow> R * C < 2 ^ 31 \<Longrightarrow> s32 (int r * int C) = Inr (int (r * C))"
proof -
  assume "r < R" "R * C < 2 ^ 31"
  then have "r * C < 2 ^ 31" using row_fits [of r R C] by linarith
  then have "int (r * C) < int (2 ^ 31)" by (simp only: of_nat_less_iff)
  then show "s32 (int r * int C) = Inr (int (r * C))" by (simp add: s32_def order_trans [of _ 0])
qed

lemma f_ptr_nat [simp]: "f_ptr p (int k) = Inr (p + 4 * k)"
  by (simp add: f_ptr_def nat_add_distrib nat_mult_distrib)

lemma row_pointers_ok:
  assumes kernel: "row_kernel row f" and region: "within Host out (4 * (R * C)) m" and fx: "floats x xs m" and len: "length xs = R * C"
    and "0 < C" and small: "R * C < 2 ^ 31" and apart: "x + 4 * (R * C) \<le> out \<or> out + 4 * (R * C) \<le> x"
  shows "\<exists>m'. row_pointers row x out (int R) (int C) m = Inr m' \<and> agrees out (4 * (R * C)) m m' \<and>
    floats out (concat (map f (rows_of R C xs))) m'"
proof -
  let ?row = "\<lambda>r. take C (drop (r * C) xs)"
  have "\<exists>m'. for_each (\<lambda>r m. rbind (s32 (int r * int C)) (\<lambda>k. rbind (f_ptr x k) (\<lambda>xr. rbind (f_ptr out k) (\<lambda>outr.
         row xr outr (of_int (int C)) 1 m)))) [0..<R] m = Inr m' \<and> agrees out (4 * (R * C)) m m' \<and>
      floats out (concat (map (\<lambda>r. f (?row r)) [0..<R])) m'"
  proof (rule rows_loop [OF region])
    show "length (f (?row r)) = C" if "r < R" for r using kernel length_row [OF len that] unfolding row_kernel_def by simp
    fix r m' assume r: "r < R" and ag: "agrees out (4 * (R * C)) m m'"
    note fit = row_fits [OF r, of C]
    have C: "C < 2 ^ 31" using fit small by linarith
    have n: "unat (of_int (int C) :: size_t) = length (?row r)"
      using C length_row [OF len r] by (simp add: unat_of_nat_size)
    have W: "within Host (out + 4 * (r * C)) (4 * unat (of_int (int C) :: size_t)) m'"
      unfolding n length_row [OF len r] agrees_within [OF ag] by (rule within_sub [OF region]) (use fit in simp_all)
    have "floats x xs m'" by (rule agrees_floats [OF ag fx]) (use apart len in auto)
    then have F: "floats (x + 4 * (r * C)) (?row r) m'" by (rule floats_row) (use fit len in simp)
    have A: "x + 4 * (r * C) + 4 * length (?row r) \<le> out + 4 * (r * C) \<or> out + 4 * (r * C) + 4 * length (?row r) \<le> x + 4 * (r * C)"
      unfolding length_row [OF len r] using apart fit by linarith
    have "?row r \<noteq> []" using length_row [OF len r] assms(5) by auto
    from row_kernelD [OF kernel W F n this A]
    have "\<exists>m''. row (x + 4 * (r * C)) (out + 4 * (r * C)) (of_int (int C)) 1 m' = Inr m'' \<and>
        agrees (out + 4 * (r * C)) (4 * C) m' m'' \<and> floats (out + 4 * (r * C)) (f (?row r)) m''"
      unfolding length_row [OF len r] .
    then show "\<exists>m''. rbind (s32 (int r * int C)) (\<lambda>k. rbind (f_ptr x k) (\<lambda>xr. rbind (f_ptr out k) (\<lambda>outr.
         row xr outr (of_int (int C)) 1 m'))) = Inr m'' \<and> agrees (out + 4 * (r * C)) (4 * C) m' m'' \<and>
        floats (out + 4 * (r * C)) (f (?row r)) m''"
      using row_index [OF r small] by (simp del: of_nat_mult)
  qed
  then show ?thesis by (simp add: row_pointers_def rows_of_def comp_def)
qed

lemma output_result:
  assumes "mem_ok m" and "holds_floats d a xs m" and out: "t_shape out = t_shape a" "t_dtype out = kFloat32" "t_device out = Some d'"
    "unat (t_num_bytes out) = 4 * length xs" "fresh_tensor Host out m m0"
    and "agrees (t_data out) (4 * length xs) m0 m1" and "floats (t_data out) zs m1" and "length zs = length xs"
  shows "returns_floats d' m (Inr (Ok out, m1)) zs"
proof -
  have "\<forall>i < length xs. load_f32 (t_data out) i m1 = Inr (zs ! i)" using assms(9,10) by (simp add: floats_def)
  from returns_floats_intro [OF assms(1,2) out assms(8) this] show ?thesis
    using assms(10) map_nth [of zs] by simp
qed

lemma length_rows: "length xs = R * C \<Longrightarrow> \<forall>xs. length (f xs) = length xs \<Longrightarrow> length (concat (map f (rows_of R C xs))) = R * C"
proof -
  assume len: "length xs = R * C" and f: "\<forall>xs. length (f xs) = length xs"
  have "length (concat (map f (map (\<lambda>r. take C (drop (r * C) xs)) [0..<k]))) = k * C" if "k \<le> R" for k
    using that f length_row [OF len] by (induction k) simp_all
  then show ?thesis by (simp add: rows_of_def)
qed

lemma last_axis_op_ok:
  assumes "memalign_ok new" and ok: "mem_ok m" and a: "holds_floats (CPUDevice new) a xs m" and kernel: "row_kernel row f"
    and oom: "\<not> out_of_memory (CPUDevice new) (4 * of_nat (length xs)) m" and axis: "axis = -1 \<or> axis = shp_ndims (t_shape a) - 1"
  shows "t_shape a = TensorShape_init [int R, int C] \<Longrightarrow> 0 < C \<Longrightarrow> length xs = R * C \<Longrightarrow> R * C < 2 ^ 31 \<Longrightarrow>
      returns_floats (CPUDevice new) m (last_axis_op row msg a axis m) (concat (map f (rows_of R C xs)))"
    and "shp_ndims (t_shape a) \<noteq> 2 \<Longrightarrow> returns_floats (CPUDevice new) m (last_axis_op row msg a axis m) (f xs)"
proof -
  note W = holds_floats_words [OF a]
  obtain out m0 where o: "Tensor_new (t_shape a) (t_dtype a) (CPUDevice new) m = Inr (out, m0)" "t_shape out = t_shape a"
    "t_dtype out = t_dtype a" "t_device out = Some (CPUDevice new)" "t_num_bytes out = 4 * of_nat (length xs)"
    "fresh_tensor Host out m m0" "mem_ok m0" "within Host (t_data out) (unat (4 * of_nat (length xs) :: size_t)) m0"
    using fresh_output [OF assms(1) ok W(2) oom] .
  have nb: "unat (t_num_bytes out) = 4 * length xs" using o(5) W(3) by simp
  have A: "t_device a = Some (CPUDevice new)" "t_num_elements a = Inr (int (length xs))" "t_dtype a = kFloat32" "floats (t_data a) xs m" "xs \<noteq> []"
    using a by (simp_all add: holds_floats_def t_num_elements_def)
  have fa: "floats (t_data a) xs m0" using fresh_floats [OF o(6) A(4)] .
  have ap: "t_data a + 4 * length xs \<le> t_data out \<or> t_data out + 4 * length xs \<le> t_data a" using fresh_apart [OF o(7,6) a nb] .
  have w: "within Host (t_data out) (4 * length xs) m0" using o(8) W(3) by simp
  have dt: "t_dtype out = kFloat32" using o(3) A(3) by simp
  note result = output_result [OF ok a o(2) dt o(4) nb o(6)]
  show "returns_floats (CPUDevice new) m (last_axis_op row msg a axis m) (concat (map f (rows_of R C xs)))"
    if sh: "t_shape a = TensorShape_init [int R, int C]" and pos: "0 < C" and len: "length xs = R * C" and small: "R * C < 2 ^ 31"
  proof -
    have "0 < R" using len A(5) by (cases R) auto
    then have "R \<le> R * C" "C \<le> R * C" using pos by simp_all
    then have "int R < int (2 ^ 31)" "int C < int (2 ^ 31)" using small by (simp_all only: of_nat_less_iff)
    then have dims: "trunc32 (int R) = int R" "trunc32 (int C) = int C" by (simp_all add: trunc32_id)
    have sd: "shape_dim (t_shape a) 0 = Inr (int R)" "shape_dim (t_shape a) 1 = Inr (int C)" "shp_ndims (t_shape a) = 2"
      using shape_dim_init [of "[int R, int C]" 0] shape_dim_init [of "[int R, int C]" 1]
      by (simp_all add: sh kMaxDim_def) (simp add: TensorShape_init_def)
    obtain m1 where m1: "row_pointers row (t_data a) (t_data out) (int R) (int C) m0 = Inr m1" "agrees (t_data out) (4 * (R * C)) m0 m1"
      "floats (t_data out) (concat (map f (rows_of R C xs))) m1"
      using row_pointers_ok [OF kernel _ fa len pos small] w ap len by auto
    have "last_axis_op row msg a axis m = Inr (Ok out, m1)"
      using A o(1) axis sd dims m1(1) by (simp add: last_axis_op_def Tensor_move_def bh_move_def)
    moreover have "length (concat (map f (rows_of R C xs))) = length xs"
      using length_rows [OF len, of f] kernel len unfolding row_kernel_def by simp
    ultimately show ?thesis using result m1(2,3) len by simp
  qed
  show "returns_floats (CPUDevice new) m (last_axis_op row msg a axis m) (f xs)" if "shp_ndims (t_shape a) \<noteq> 2"
  proof -
    obtain m1 where m1: "row (t_data a) (t_data out) (of_int (int (length xs))) 1 m0 = Inr m1" "agrees (t_data out) (4 * length xs) m0 m1"
      "floats (t_data out) (f xs) m1"
      using kernel w fa W(1) A(5) ap unfolding row_kernel_def by metis
    have "last_axis_op row msg a axis m = Inr (Ok out, m1)"
      using A o(1) axis that m1(1) by (simp add: last_axis_op_def Tensor_move_def bh_move_def del: of_int_of_nat_eq)
    moreover have "length (f xs) = length xs" using kernel unfolding row_kernel_def by blast
    ultimately show ?thesis using result m1(2,3) by simp
  qed
qed

section \<open>Hardmax\<close>

text \<open>One at the first greatest element, zero elsewhere.\<close>

definition hot_row :: "float_ops \<Rightarrow> f32 list \<Rightarrow> f32 list" where
  "hot_row fo xs = map (\<lambda>i. if first_max fo xs i then float_one else 0) [0..<length xs]"

lemma first_max_unique: "first_max fo xs k \<Longrightarrow> first_max fo xs j \<Longrightarrow> j = k"
  unfolding first_max_def by (metis linorder_neqE_nat)

lemma s32_nat: "k < 2 ^ 31 \<Longrightarrow> s32 (int k) = Inr (int k)"
proof -
  assume "k < 2 ^ 31"
  then have "int k < int (2 ^ 31)" by (simp only: of_nat_less_iff)
  then show ?thesis by (simp add: s32_def order_trans [of _ 0])
qed

lemma hardmax_row_ok:
  assumes region: "within Host out (4 * (R * C)) m" and fx: "floats x xs m" and len: "length xs = R * C" and "0 < C"
    and small: "R * C < 2 ^ 31" and r: "r < R" and order: "weak_order_on fo (set xs)"
    and zero: "\<forall>j. r * C \<le> j \<longrightarrow> j < R * C \<longrightarrow> load_f32 out j m = Inr 0"
  shows "\<exists>m'. hardmax_row fo x out (int C) r m = Inr m' \<and> agrees (out + 4 * (r * C)) (4 * C) m m' \<and>
    floats (out + 4 * (r * C)) (hot_row fo (take C (drop (r * C) xs))) m'"
proof -
  let ?row = "take C (drop (r * C) xs)" and ?n = "of_nat C :: size_t"
  note fit = row_fits [OF r, of C] and lr = length_row [OF len r]
  have C: "C < 2 ^ 31" using fit small by linarith
  then have n: "unat ?n = length ?row" using lr by (simp add: unat_of_nat_size)
  have fr: "floats (x + 4 * (r * C)) ?row m" by (rule floats_row [OF fx]) (use fit len in simp)
  have sub: "set ?row \<subseteq> set xs" using set_take_subset set_drop_subset by (metis order_trans)
  then have "weak_order_on fo (set ?row)" by (rule weak_order_subset [OF order])
  moreover have "?row \<noteq> []" using lr assms(4) by auto
  ultimately obtain k where k: "argmax_loop fo (x + 4 * (r * C)) ?n m = Inr (k, ?row ! k)" "first_max fo ?row k"
    using argmax_loop_ok [OF fr n] by blast
  have kC: "k < C" using k(2) lr by (simp add: first_max_def)
  have "for_each (\<lambda>c (max_idx, max_val). rbind (s32 (int r * int C)) (\<lambda>k. rbind (s32 (k + int c)) (\<lambda>kc.
              rbind (f_ptr x kc) (\<lambda>p. rbind (load_f32 p 0 m) (\<lambda>x.
                Inr (if f_lt fo max_val x then (c, x) else (max_idx, max_val))))))) [1..<nat (int C)] acc =
      for_each (\<lambda>i (max_idx, max_val). rbind (load_f32 (x + 4 * (r * C)) i m) (\<lambda>x.
           Inr (if f_lt fo max_val x then (i, x) else (max_idx, max_val)))) [1..<unat ?n] acc" for acc
  proof -
    have eq: "nat (int C) = unat ?n" using n lr by simp
    show ?thesis unfolding eq
    proof (rule for_each_cong)
      fix c s assume "c \<in> set [1..<unat ?n]"
      then have "r * C + c < 2 ^ 31" using fit small n lr by simp
      then have "s32 (int (r * C) + int c) = Inr (int (r * C + c))" using s32_nat by (metis of_nat_add)
      moreover have "load_f32 (x + 4 * (r * C + c)) 0 m = load_f32 (x + 4 * (r * C)) c m" by (simp add: load_shift [of x] del: distrib_left_numeral)
      ultimately show "(case s of (max_idx, max_val) \<Rightarrow> rbind (s32 (int r * int C)) (\<lambda>k. rbind (s32 (k + int c)) (\<lambda>kc.
              rbind (f_ptr x kc) (\<lambda>p. rbind (load_f32 p 0 m) (\<lambda>x.
                Inr (if f_lt fo max_val x then (c, x) else (max_idx, max_val))))))) =
        (case s of (max_idx, max_val) \<Rightarrow> rbind (load_f32 (x + 4 * (r * C)) c m) (\<lambda>x.
           Inr (if f_lt fo max_val x then (c, x) else (max_idx, max_val))))"
        using row_index [OF r small] by (cases s) (simp del: of_nat_mult of_nat_add distrib_left_numeral)
    qed
  qed
  then have loop: "rbind (load_f32 (x + 4 * (r * C)) 0 m) (for_each (\<lambda>c (max_idx, max_val). rbind (s32 (int r * int C)) (\<lambda>k. rbind (s32 (k + int c)) (\<lambda>kc.
              rbind (f_ptr x kc) (\<lambda>p. rbind (load_f32 p 0 m) (\<lambda>x.
                Inr (if f_lt fo max_val x then (c, x) else (max_idx, max_val))))))) [1..<nat (int C)] \<circ> Pair 0) = Inr (k, ?row ! k)"
    using k(1) unfolding argmax_loop_def comp_def by simp
  have "r * C + k < R * C" using kC fit by linarith
  then obtain m' where m': "store_f32 out (r * C + k) float_one m = Inr m'" "agrees (out + 4 * (r * C + k)) 4 m m'"
    "load_f32 out (r * C + k) m' = Inr float_one" "\<forall>j. j \<noteq> r * C + k \<longrightarrow> load_f32 out j m' = load_f32 out j m"
    using store_ok [OF region] by blast
  have km: "s32 (int (r * C) + int k) = Inr (int (r * C + k))" using s32_nat [of "r * C + k"] \<open>r * C + k < R * C\<close> small by simp
  have st: "store_f32 (out + 4 * (r * C + k)) 0 float_one m = Inr m'" using m'(1) by (simp add: store_shift del: distrib_left_numeral)
  have "hardmax_row fo x out (int C) r m = Inr m'"
  proof -
    obtain x0 where x0: "load_f32 (x + 4 * (r * C)) 0 m = Inr x0" using floats_load [OF fr, of 0] lr assms(4) by simp
    with loop st km row_index [OF r small] show ?thesis
      by (simp add: hardmax_row_def comp_def del: of_nat_mult of_nat_add distrib_left_numeral)
  qed
  moreover have "agrees (out + 4 * (r * C)) (4 * C) m m'" by (rule agrees_wider [OF m'(2)]) (use kC in simp_all)
  moreover have "floats (out + 4 * (r * C)) (hot_row fo ?row) m'"
    unfolding floats_def
  proof (intro allI impI)
    fix i assume "i < length (hot_row fo ?row)"
    then have i: "i < C" using lr by (simp add: hot_row_def)
    have "first_max fo ?row i \<longleftrightarrow> i = k" using k(2) first_max_unique by blast
    moreover have "hot_row fo ys ! i = (if first_max fo ys i then float_one else 0)" if "length ys = C" for ys
      using that i by (simp add: hot_row_def)
    ultimately have hot: "hot_row fo ?row ! i = (if i = k then float_one else 0)" using lr by simp
    have "r * C + i < R * C" using i fit by linarith
    then show "load_f32 (out + 4 * (r * C)) i m' = Inr (hot_row fo ?row ! i)"
      using zero m'(3,4) hot by (simp add: load_shift)
  qed
  ultimately show ?thesis by blast
qed

lemma zero_floats: "within Host p (4 * n) m \<Longrightarrow> i < n \<Longrightarrow> load_f32 p i (put_bytes p (replicate (4 * n) 0) m) = Inr 0"
proof -
  assume w: "within Host p (4 * n) m" and i: "i < n"
  let ?m = "put_bytes p (replicate (4 * n) 0) m"
  have "map (m_val ?m) [p + 4 * i..<p + 4 * i + 4] = replicate 4 0"
    using i by (intro nth_equalityI) (simp_all add: put_bytes_def)
  moreover have "within Host (p + 4 * i) 4 ?m" using within_sub [OF w, of "p + 4 * i" 4] i by simp
  ultimately show ?thesis by (simp add: load_f32_def mload_def f32_of_bytes_def numeral_eq_Suc)
qed

section \<open>Properties\<close>

text \<open>
  C8: along the last axis, \<open>softmax\<close> and \<open>log_softmax\<close> of a float matrix on the CPU are the ones of its
  rows: the exponentials of the differences to the greatest element, divided by their sum; a tensor
  that is not a matrix is treated as one row. No index of the \<open>int\<close> loops overflows for fewer than
  \<open>2 ^ 31\<close> elements.
\<close>

theorem softmax_rows:
  assumes "memalign_ok new" and "mem_ok m" and "holds_floats (CPUDevice new) a xs m"
    and "\<not> out_of_memory (CPUDevice new) (4 * of_nat (length xs)) m" and "axis = -1 \<or> axis = shp_ndims (t_shape a) - 1"
  defines "gives \<equiv> returns_floats (CPUDevice new) m"
  shows "(\<forall>R C. t_shape a = TensorShape_init [int R, int C] \<longrightarrow> 0 < C \<longrightarrow> length xs = R * C \<longrightarrow> R * C < 2 ^ 31 \<longrightarrow>
      gives (math_softmax fo a axis m) (concat (map (softmax_row fo) (rows_of R C xs))) \<and>
      gives (math_log_softmax fo a axis m) (concat (map (log_softmax_row fo) (rows_of R C xs)))) \<and>
    (shp_ndims (t_shape a) \<noteq> 2 \<longrightarrow>
      gives (math_softmax fo a axis m) (softmax_row fo xs) \<and> gives (math_log_softmax fo a axis m) (log_softmax_row fo xs))"
  unfolding gives_def math_softmax_def math_log_softmax_def
  using last_axis_op_ok [OF assms(1-3) softmax_kernels(1) assms(4,5)] last_axis_op_ok [OF assms(1-3) softmax_kernels(2) assms(4,5)]
  by blast

text \<open>
  \<open>hardmax\<close> of a float matrix without NaN puts a one at the first greatest element of each row and
  zeros elsewhere.
\<close>

theorem hardmax_rows:
  assumes "memalign_ok new" and ok: "mem_ok m" and a: "holds_floats (CPUDevice new) a xs m"
    and oom: "\<not> out_of_memory (CPUDevice new) (4 * of_nat (length xs)) m" and axis: "axis = -1 \<or> axis = 1"
    and sh: "t_shape a = TensorShape_init [int R, int C]" and "0 < C" and len: "length xs = R * C" and small: "R * C < 2 ^ 31"
    and order: "weak_order_on fo (set xs)"
  shows "returns_floats (CPUDevice new) m (math_hardmax fo a axis m) (concat (map (hot_row fo) (rows_of R C xs)))"
proof -
  note W = holds_floats_words [OF a]
  have A: "t_device a = Some (CPUDevice new)" "t_num_elements a = Inr (int (length xs))" "t_dtype a = kFloat32" "floats (t_data a) xs m" "xs \<noteq> []"
    using a by (simp_all add: holds_floats_def t_num_elements_def)
  obtain out m0 where o: "Tensor_new (t_shape a) kFloat32 (CPUDevice new) m = Inr (out, m0)" "t_shape out = t_shape a"
    "t_dtype out = kFloat32" "t_device out = Some (CPUDevice new)" "t_num_bytes out = 4 * of_nat (length xs)"
    "fresh_tensor Host out m m0" "mem_ok m0" "within Host (t_data out) (unat (4 * of_nat (length xs) :: size_t)) m0"
    using fresh_output [OF assms(1) ok W(2) [unfolded A(3)] oom] .
  have nb: "unat (t_num_bytes out) = 4 * length xs" using o(5) W(3) by simp
  have ap: "t_data a + 4 * (R * C) \<le> t_data out \<or> t_data out + 4 * (R * C) \<le> t_data a"
    using fresh_apart [OF o(7,6) a nb] len by simp
  have w: "within Host (t_data out) (4 * (R * C)) m0" using o(8) W(3) len by simp
  define m1 where "m1 = put_bytes (t_data out) (replicate (4 * (R * C)) 0) m0"
  have "map_of (m_regions m0) (t_data out) \<noteq> None" using o(6) by (auto simp: fresh_tensor_def)
  then have null: "t_data out \<noteq> nullptr" using o(7) unfolding mem_ok_def by fastforce
  have "within Host (t_data out) (unat (t_num_bytes out)) m0" using w nb len by simp
  from cpu.memset_ok [OF assms(1) o(7) null this, of 0] have fill: "t_fill_zero out m0 = Inr m1"
    using o(4) nb len by (simp add: t_fill_zero_def m1_def)
  have ag1: "agrees (t_data out) (4 * (R * C)) m0 m1" by (simp add: m1_def agrees_def put_bytes_def)
  have zero: "load_f32 (t_data out) j m1 = Inr 0" if "j < R * C" for j using zero_floats [OF w that] by (simp add: m1_def)
  have fa: "floats (t_data a) xs m1"
    by (rule agrees_floats [OF ag1 fresh_floats [OF o(6) A(4)]]) (use ap len in auto)
  have w1: "within Host (t_data out) (4 * (R * C)) m1" using w agrees_within [OF ag1] by simp
  have "\<exists>m2. for_each (hardmax_row fo (t_data a) (t_data out) (int C)) [0..<R] m1 = Inr m2 \<and> agrees (t_data out) (4 * (R * C)) m1 m2 \<and>
      floats (t_data out) (concat (map (\<lambda>r. hot_row fo (take C (drop (r * C) xs))) [0..<R])) m2"
  proof (rule rows_loop [OF w1])
    show "length (hot_row fo (take C (drop (r * C) xs))) = C" if "r < R" for r
      using length_row [OF len that] by (simp add: hot_row_def)
    fix r m' assume r: "r < R" and ag: "agrees (t_data out) (4 * (R * C)) m1 m'"
      and rest: "\<forall>j. r * C \<le> j \<longrightarrow> load_f32 (t_data out) j m' = load_f32 (t_data out) j m1"
    have w': "within Host (t_data out) (4 * (R * C)) m'" using w1 agrees_within [OF ag] by simp
    have fx': "floats (t_data a) xs m'" by (rule agrees_floats [OF ag fa]) (use ap len in auto)
    have z': "\<forall>j. r * C \<le> j \<longrightarrow> j < R * C \<longrightarrow> load_f32 (t_data out) j m' = Inr 0" using rest zero by simp
    show "\<exists>m''. hardmax_row fo (t_data a) (t_data out) (int C) r m' = Inr m'' \<and> agrees (t_data out + 4 * (r * C)) (4 * C) m' m'' \<and>
        floats (t_data out + 4 * (r * C)) (hot_row fo (take C (drop (r * C) xs))) m''"
      by (rule hardmax_row_ok [OF w' fx' len assms(7) small r order z'])
  qed
  then obtain m2 where m2: "for_each (hardmax_row fo (t_data a) (t_data out) (int C)) [0..<R] m1 = Inr m2"
    "agrees (t_data out) (4 * length xs) m1 m2" "floats (t_data out) (concat (map (hot_row fo) (rows_of R C xs))) m2"
    by (auto simp: rows_of_def comp_def len)
  have "0 < R" using len A(5) by (cases R) auto
  then have "R \<le> R * C" "C \<le> R * C" using assms(7) by simp_all
  then have "int R < int (2 ^ 31)" "int C < int (2 ^ 31)" using small by (simp_all only: of_nat_less_iff)
  then have dims: "trunc32 (int R) = int R" "trunc32 (int C) = int C" by (simp_all add: trunc32_id)
  have sd: "shape_dim (t_shape a) 0 = Inr (int R)" "shape_dim (t_shape a) 1 = Inr (int C)" "shp_ndims (t_shape a) = 2"
    using shape_dim_init [of "[int R, int C]" 0] shape_dim_init [of "[int R, int C]" 1]
    by (simp_all add: sh kMaxDim_def) (simp add: TensorShape_init_def)
  have run: "math_hardmax fo a axis m = Inr (Ok out, m2)"
    using A(1) o(1) fill m2(1) sd dims axis by (simp add: math_hardmax_def Tensor_move_def bh_move_def)
  have "length (concat (map (hot_row fo) (rows_of R C xs))) = length xs"
    using length_rows [OF len, of "hot_row fo"] len by (simp add: hot_row_def)
  moreover have "agrees (t_data out) (4 * length xs) m0 m2" using agrees_trans [OF ag1, of m2] m2(2) len by simp
  ultimately show ?thesis
    using output_result [OF ok a o(2,3,4) nb o(6) _ m2(3)] run by simp
qed

lemma softmax_rows_witness:
  "returns_floats (CPUDevice bump_memalign) float_mem (math_softmax word_floats (float_matrix 64) 1 float_mem)
     (softmax_row word_floats [1, 0] @ softmax_row word_floats [0, 3])"
proof -
  have "\<not> out_of_memory (CPUDevice bump_memalign) (4 * of_nat (length [1, 0, 0, 3 :: f32])) float_mem" using float_mem_memory by simp
  from softmax_rows [OF bump_memalign_ok float_mem_ok float_matrix_holds(1) this, of 1 word_floats,
      THEN conjunct1, THEN spec, of 2, THEN spec, of 2]
  show ?thesis by (simp add: float_matrix_shape rows_of_def upt_rec) (simp add: TensorShape_init_def)
qed

lemma hardmax_rows_witness:
  "returns_floats (CPUDevice bump_memalign) float_mem (math_hardmax word_floats (float_matrix 64) (-1) float_mem)
     (hot_row word_floats [1, 0] @ hot_row word_floats [0, 3])"
proof -
  have "\<not> out_of_memory (CPUDevice bump_memalign) (4 * of_nat (length [1, 0, 0, 3 :: f32])) float_mem" using float_mem_memory by simp
  from hardmax_rows [OF bump_memalign_ok float_mem_ok float_matrix_holds(1) this, of "-1" 2 2 word_floats] word_floats_order
  show ?thesis by (simp add: float_matrix_shape rows_of_def upt_rec)
qed

end
