(* ===== verification/Math_Normalization.thy ===== *)
theory Math_Normalization
  imports Math_Softmax
begin

text \<open>
  \<open>math/normalization.cpp\<close>: layer normalisation and root-mean-square normalisation of the rows of a
  tensor, its last dimension being the row. The loops count in \<open>int\<close>.
\<close>

section \<open>Reference loops\<close>

text \<open>\<open>x[r * cols + c]\<close>, and a weight that may be absent.\<close>

definition int_index :: "nat \<Rightarrow> int \<Rightarrow> nat \<Rightarrow> int comp" where
  "int_index r cols c = rbind (s32 (int r * cols)) (\<lambda>k. s32 (k + int c))"

definition load_at :: "ptr \<Rightarrow> nat \<Rightarrow> int \<Rightarrow> nat \<Rightarrow> mem \<Rightarrow> f32 comp" where
  "load_at p r cols c m = rbind (int_index r cols c) (\<lambda>k. rbind (f_ptr p k) (\<lambda>q. load_f32 q 0 m))"

definition store_at :: "ptr \<Rightarrow> nat \<Rightarrow> int \<Rightarrow> nat \<Rightarrow> f32 \<Rightarrow> mem \<Rightarrow> mem comp" where
  "store_at p r cols c w m = rbind (int_index r cols c) (\<lambda>k. rbind (f_ptr p k) (\<lambda>q. store_f32 q 0 w m))"

definition load_or :: "f32 \<Rightarrow> ptr \<Rightarrow> nat \<Rightarrow> mem \<Rightarrow> f32 comp" where
  "load_or v p c m = (if p \<noteq> nullptr then load_f32 p c m else Inr v)"

definition layer_norm_f32 :: "float_ops \<Rightarrow> ptr \<Rightarrow> ptr \<Rightarrow> ptr \<Rightarrow> ptr \<Rightarrow> int \<Rightarrow> int \<Rightarrow> f32 \<Rightarrow> mem \<Rightarrow> mem comp" where
  "layer_norm_f32 fo x weight bias out rows cols eps =
     for_each (\<lambda>r m.
       rbind (for_each (\<lambda>c mean. rbind (load_at x r cols c m) (\<lambda>v. Inr (f_add fo mean v))) [0..<nat cols] 0) (\<lambda>sum.
       let mean = f_div fo sum (f_of_int fo cols) in
       rbind (for_each (\<lambda>c var. rbind (load_at x r cols c m) (\<lambda>v. let diff = f_sub fo v mean in
                Inr (f_add fo var (f_mul fo diff diff)))) [0..<nat cols] 0) (\<lambda>sq.
       let var = f_div fo sq (f_of_int fo cols);
           inv_std = f_div fo float_one (f_sqrt fo (f_add fo var eps)) in
       for_each (\<lambda>c m. rbind (load_at x r cols c m) (\<lambda>v. let normalized = f_mul fo (f_sub fo v mean) inv_std in
                rbind (load_or float_one weight c m) (\<lambda>w. rbind (load_or 0 bias c m) (\<lambda>b.
                  store_at out r cols c (f_add fo (f_mul fo normalized w) b) m)))) [0..<nat cols] m)))
     [0..<nat rows]"

definition rms_norm_f32 :: "float_ops \<Rightarrow> ptr \<Rightarrow> ptr \<Rightarrow> ptr \<Rightarrow> int \<Rightarrow> int \<Rightarrow> f32 \<Rightarrow> mem \<Rightarrow> mem comp" where
  "rms_norm_f32 fo x weight out rows cols eps =
     for_each (\<lambda>r m.
       rbind (for_each (\<lambda>c sum_sq. rbind (load_at x r cols c m) (\<lambda>v. Inr (f_add fo sum_sq (f_mul fo v v)))) [0..<nat cols] 0) (\<lambda>sum_sq.
       let rms = f_sqrt fo (f_add fo (f_div fo sum_sq (f_of_int fo cols)) eps);
           inv_rms = f_div fo float_one rms in
       for_each (\<lambda>c m. rbind (load_or float_one weight c m) (\<lambda>w. rbind (load_at x r cols c m) (\<lambda>v.
                  store_at out r cols c (f_mul fo (f_mul fo v inv_rms) w) m))) [0..<nat cols] m))
     [0..<nat rows]"

section \<open>Operations\<close>

definition norm_rows :: "TensorShape \<Rightarrow> int comp" where
  "norm_rows sh = for_each (\<lambda>i rows. rbind (shape_dim sh (of_nat i)) (\<lambda>d. rbind (s64 (rows * d)) (\<lambda>p. Inr (trunc32 p))))
     [0..<nat (shp_ndims sh - 1)] 1"

definition norm_cols :: "TensorShape \<Rightarrow> int comp" where
  "norm_cols sh = rbind (shape_dim sh (of_int (shp_ndims sh - 1))) (\<lambda>d. Inr (trunc32 d))"

definition math_layer_norm :: "float_ops \<Rightarrow> Tensor \<Rightarrow> Tensor \<Rightarrow> Tensor \<Rightarrow> f32 \<Rightarrow> mem \<Rightarrow> (Tensor Expected \<times> mem) comp" where
  "math_layer_norm fo x weight bias eps m =
     rbind (deref (t_device x)) (\<lambda>d. rbind (Tensor_new (t_shape x) (t_dtype x) d m) (\<lambda>(out, m1).
     rbind (norm_rows (t_shape x)) (\<lambda>rows. rbind (norm_cols (t_shape x)) (\<lambda>cols.
     rbind (layer_norm_f32 fo (t_data x) (t_data weight) (t_data bias) (t_data out) rows cols eps m1) (\<lambda>m2.
       Inr (Ok (fst (Tensor_move out)), m2))))))"

definition math_layer_norm_shape :: "float_ops \<Rightarrow> Tensor \<Rightarrow> int list \<Rightarrow> f32 \<Rightarrow> mem \<Rightarrow> (Tensor Expected \<times> mem) comp" where
  "math_layer_norm_shape fo x normalized_shape eps m =
     (if normalized_shape = [] then Inl Empty_Container
      else let norm_dim = last normalized_shape in
        rbind (deref (t_device x)) (\<lambda>d.
        rbind (Tensor_new (TensorShape_init [norm_dim]) kFloat32 d m) (\<lambda>(weight, m1).
        rbind (Tensor_new (TensorShape_init [norm_dim]) kFloat32 d m1) (\<lambda>(bias, m2).
        rbind (t_fill (bytes_of_f32 float_one) weight m2) (\<lambda>m3. rbind (t_fill (bytes_of_f32 0) bias m3) (\<lambda>m4.
        rbind (math_layer_norm fo x weight bias eps m4) (\<lambda>(r, m5).
        rbind (Tensor_destroy bias m5) (\<lambda>m6. rbind (Tensor_destroy weight m6) (\<lambda>m7. Inr (r, m7))))))))))"

definition math_rms_norm :: "float_ops \<Rightarrow> Tensor \<Rightarrow> Tensor \<Rightarrow> f32 \<Rightarrow> mem \<Rightarrow> (Tensor Expected \<times> mem) comp" where
  "math_rms_norm fo x weight eps m =
     rbind (deref (t_device x)) (\<lambda>d. rbind (Tensor_new (t_shape x) (t_dtype x) d m) (\<lambda>(out, m1).
     rbind (norm_rows (t_shape x)) (\<lambda>rows. rbind (norm_cols (t_shape x)) (\<lambda>cols.
     rbind (rms_norm_f32 fo (t_data x) (t_data weight) (t_data out) rows cols eps m1) (\<lambda>m2.
       Inr (Ok (fst (Tensor_move out)), m2))))))"

definition math_rms_norm_shape :: "float_ops \<Rightarrow> Tensor \<Rightarrow> int list \<Rightarrow> f32 \<Rightarrow> mem \<Rightarrow> (Tensor Expected \<times> mem) comp" where
  "math_rms_norm_shape fo x normalized_shape eps m =
     (if normalized_shape = [] then Inl Empty_Container
      else let norm_dim = last normalized_shape in
        rbind (deref (t_device x)) (\<lambda>d.
        rbind (Tensor_new (TensorShape_init [norm_dim]) kFloat32 d m) (\<lambda>(weight, m1).
        rbind (t_fill (bytes_of_f32 float_one) weight m1) (\<lambda>m2.
        rbind (math_rms_norm fo x weight eps m2) (\<lambda>(r, m3). rbind (Tensor_destroy weight m3) (\<lambda>m4. Inr (r, m4)))))))"

definition math_batch_norm :: "Tensor \<Rightarrow> Tensor \<Rightarrow> Tensor \<Rightarrow> Tensor \<Rightarrow> Tensor \<Rightarrow> f32 \<Rightarrow> f32 \<Rightarrow> Tensor Expected" where
  "math_batch_norm x running_mean running_var weight bias eps momentum =
     MakeUnexpected (Status_NotImplemented ''BatchNorm not yet implemented'')"

section \<open>What a row becomes\<close>

text \<open>\<open>fold_mean\<close> and \<open>fold_var\<close> are those of the reductions.\<close>

definition layer_norm_row :: "float_ops \<Rightarrow> f32 \<Rightarrow> f32 list \<Rightarrow> f32 list \<Rightarrow> f32 list \<Rightarrow> f32 list" where
  "layer_norm_row fo eps ws bs xs =
     (let inv_std = f_div fo float_one (f_sqrt fo (f_add fo (fold_var fo xs) eps)) in
      map (\<lambda>(x, w, b). f_add fo (f_mul fo (f_mul fo (f_sub fo x (fold_mean fo xs)) inv_std) w) b) (zip xs (zip ws bs)))"

definition rms_norm_row :: "float_ops \<Rightarrow> f32 \<Rightarrow> f32 list \<Rightarrow> f32 list \<Rightarrow> f32 list" where
  "rms_norm_row fo eps ws xs =
     (let sq = fold_sum fo (map (\<lambda>x. f_mul fo x x) xs);
          inv_rms = f_div fo float_one (f_sqrt fo (f_add fo (f_div fo sq (f_of_int fo (int (length xs)))) eps)) in
      map (\<lambda>(x, w). f_mul fo (f_mul fo x inv_rms) w) (zip xs ws))"

section \<open>The kernels compute the rows\<close>

lemma int_index_ok: "r < R \<Longrightarrow> R * C < 2 ^ 31 \<Longrightarrow> c < C \<Longrightarrow> int_index r (int C) c = Inr (int (r * C + c))"
proof -
  assume a: "r < R" "R * C < 2 ^ 31" "c < C"
  then have "r * C + c < 2 ^ 31" using row_fits [of r R C] by linarith
  from s32_nat [OF this] row_index [OF a(1,2)] show ?thesis by (simp add: int_index_def)
qed

lemma load_at_ok: "r < R \<Longrightarrow> R * C < 2 ^ 31 \<Longrightarrow> c < C \<Longrightarrow> load_at p r (int C) c m = load_f32 (p + 4 * (r * C)) c m"
  by (simp add: load_at_def int_index_ok load_shift del: of_nat_add of_nat_mult distrib_left_numeral)

lemma store_at_ok: "r < R \<Longrightarrow> R * C < 2 ^ 31 \<Longrightarrow> c < C \<Longrightarrow> store_at p r (int C) c w m = store_f32 (p + 4 * (r * C)) c w m"
  by (simp add: store_at_def int_index_ok store_shift del: of_nat_add of_nat_mult distrib_left_numeral)

text \<open>A row of the output written from a row of the input and arrays that are apart from the output.\<close>

lemma norm_row_write:
  assumes region: "within Host out (4 * (R * C)) m" and r: "r < R" and small: "R * C < 2 ^ 31"
    and g: "\<And>c m'. c < C \<Longrightarrow> agrees out (4 * (R * C)) m m' \<Longrightarrow> g c m' = Inr (v c)"
  shows "\<exists>m'. for_each (\<lambda>c m. rbind (g c m) (\<lambda>w. store_at out r (int C) c w m)) [0..<C] m = Inr m' \<and>
    agrees (out + 4 * (r * C)) (4 * C) m m' \<and> floats (out + 4 * (r * C)) (map v [0..<C]) m'"
proof -
  note fit = row_fits [OF r, of C]
  have w: "within Host (out + 4 * (r * C)) (4 * C) m" by (rule within_sub [OF region]) (use fit in simp_all)
  have "for_each (\<lambda>c m. rbind (g c m) (\<lambda>w. store_at out r (int C) c w m)) [0..<C] m =
      for_each (\<lambda>c m. rbind (g c m) (\<lambda>w. store_f32 (out + 4 * (r * C)) c w m)) [0..<C] m"
    by (rule for_each_cong) (simp add: store_at_ok [OF r small] cong: rbind_cong)
  moreover have "\<exists>m'. for_each (\<lambda>c m. rbind (g c m) (\<lambda>w. store_f32 (out + 4 * (r * C)) c w m)) [0..<C] m = Inr m' \<and>
    agrees (out + 4 * (r * C)) (4 * C) m m' \<and> (\<forall>i < C. load_f32 (out + 4 * (r * C)) i m' = Inr (v i))"
  proof (rule write_loop [OF w])
    fix c m' assume "c < C" and "agrees (out + 4 * (r * C)) (4 * C) m m'"
    then show "g c m' = Inr (v c)" using fit by (intro g) (auto intro: agrees_wider)
  qed
  ultimately show ?thesis by (simp add: floats_def)
qed

lemma row_sums:
  assumes fx: "floats x xs m" and len: "length xs = R * C" and r: "r < R" and small: "R * C < 2 ^ 31"
  shows "for_each (\<lambda>c acc. rbind (load_at x r (int C) c m) (\<lambda>v. Inr (f acc v))) [0..<C] acc = Inr (foldl f acc (take C (drop (r * C) xs)))"
proof -
  have fr: "floats (x + 4 * (r * C)) (take C (drop (r * C) xs)) m"
    by (rule floats_row [OF fx]) (use row_fits [OF r, of C] len in simp)
  have "for_each (\<lambda>c acc. rbind (load_at x r (int C) c m) (\<lambda>v. Inr (f acc v))) [0..<C] acc =
      Inr (foldl f acc (drop 0 (take C (drop (r * C) xs))))"
    by (rule read_loop) (use floats_load [OF fr] length_row [OF len r] load_at_ok [OF r small] in simp_all)
  then show ?thesis by simp
qed

lemma norm_input:
  assumes "floats x xs m" and "length xs = R * C" and "agrees out n m m'" and "x + 4 * (R * C) \<le> out \<or> out + n \<le> x"
    and "r < R" and "R * C < 2 ^ 31" and "c < C"
  shows "load_at x r (int C) c m' = Inr (take C (drop (r * C) xs) ! c)"
proof -
  have "floats x xs m'" by (rule agrees_floats [OF assms(3,1)]) (use assms(2,4) in auto)
  then have "floats (x + 4 * (r * C)) (take C (drop (r * C) xs)) m'"
    by (rule floats_row) (use row_fits [OF assms(5), of C] assms(2) in simp)
  from floats_load [OF this, of c] length_row [OF assms(2,5)] assms(7) show ?thesis by (simp add: load_at_ok [OF assms(5,6)])
qed

lemma norm_weight:
  assumes "floats w ws m" and "length ws = C" and "agrees out n m m'" and "w + 4 * C \<le> out \<or> out + n \<le> w" and "w \<noteq> nullptr" and "c < C"
  shows "load_or v w c m' = Inr (ws ! c)"
proof -
  have "floats w ws m'" by (rule agrees_floats [OF assms(3,1)]) (use assms(2,4) in auto)
  from floats_load [OF this, of c] assms(2,5,6) show ?thesis by (simp add: load_or_def)
qed

lemma layer_norm_f32_ok:
  assumes region: "within Host out (4 * (R * C)) m" and x: "floats x xs m" "length xs = R * C" "x + 4 * (R * C) \<le> out \<or> out + 4 * (R * C) \<le> x"
    and w: "floats w ws m" "length ws = C" "w + 4 * C \<le> out \<or> out + 4 * (R * C) \<le> w" "w \<noteq> nullptr"
    and b: "floats b bs m" "length bs = C" "b + 4 * C \<le> out \<or> out + 4 * (R * C) \<le> b" "b \<noteq> nullptr"
    and small: "R * C < 2 ^ 31"
  shows "\<exists>m'. layer_norm_f32 fo x w b out (int R) (int C) eps m = Inr m' \<and> agrees out (4 * (R * C)) m m' \<and>
    floats out (concat (map (layer_norm_row fo eps ws bs) (rows_of R C xs))) m'"
proof -
  let ?row = "\<lambda>r. take C (drop (r * C) xs)"
  let ?body = "\<lambda>r m. rbind (for_each (\<lambda>c mean. rbind (load_at x r (int C) c m) (\<lambda>v. Inr (f_add fo mean v))) [0..<nat (int C)] 0) (\<lambda>sum.
       let mean = f_div fo sum (f_of_int fo (int C)) in
       rbind (for_each (\<lambda>c var. rbind (load_at x r (int C) c m) (\<lambda>v. let diff = f_sub fo v mean in
                Inr (f_add fo var (f_mul fo diff diff)))) [0..<nat (int C)] 0) (\<lambda>sq.
       let var = f_div fo sq (f_of_int fo (int C));
           inv_std = f_div fo float_one (f_sqrt fo (f_add fo var eps)) in
       for_each (\<lambda>c m. rbind (load_at x r (int C) c m) (\<lambda>v. let normalized = f_mul fo (f_sub fo v mean) inv_std in
                rbind (load_or float_one w c m) (\<lambda>wt. rbind (load_or 0 b c m) (\<lambda>bi.
                  store_at out r (int C) c (f_add fo (f_mul fo normalized wt) bi) m)))) [0..<nat (int C)] m))"
  have "\<exists>m'. for_each ?body [0..<R] m = Inr m' \<and> agrees out (4 * (R * C)) m m' \<and>
      floats out (concat (map (\<lambda>r. layer_norm_row fo eps ws bs (?row r)) [0..<R])) m'"
  proof (rule rows_loop [OF region])
    show "length (layer_norm_row fo eps ws bs (?row r)) = C" if "r < R" for r
      using length_row [OF x(2) that] w(2) b(2) by (simp add: layer_norm_row_def Let_def)
    fix r m' assume r: "r < R" and ag: "agrees out (4 * (R * C)) m m'"
    note lr = length_row [OF x(2) r]
    have region': "within Host out (4 * (R * C)) m'" using region agrees_within [OF ag] by simp
    have fx: "floats x xs m'" by (rule agrees_floats [OF ag x(1)]) (use x(2,3) in auto)
    let ?inv = "f_div fo float_one (f_sqrt fo (f_add fo (fold_var fo (?row r)) eps))"
    let ?v = "\<lambda>c. f_add fo (f_mul fo (f_mul fo (f_sub fo (?row r ! c) (fold_mean fo (?row r))) ?inv) (ws ! c)) (bs ! c)"
    let ?g = "\<lambda>c m. rbind (load_at x r (int C) c m) (\<lambda>v. rbind (load_or float_one w c m) (\<lambda>wt. rbind (load_or 0 b c m) (\<lambda>bi.
        Inr (f_add fo (f_mul fo (f_mul fo (f_sub fo v (fold_mean fo (?row r))) ?inv) wt) bi))))"
    have "\<exists>m''. for_each (\<lambda>c m. rbind (?g c m) (\<lambda>u. store_at out r (int C) c u m)) [0..<C] m' = Inr m'' \<and>
        agrees (out + 4 * (r * C)) (4 * C) m' m'' \<and> floats (out + 4 * (r * C)) (map ?v [0..<C]) m''"
    proof (rule norm_row_write [OF region' r small])
      fix c m'' assume c: "c < C" and ag': "agrees out (4 * (R * C)) m' m''"
      note ag2 = agrees_trans [OF ag ag']
      from norm_input [OF x(1,2) ag2 x(3) r small c] norm_weight [OF w(1,2) ag2 w(3,4) c] norm_weight [OF b(1,2) ag2 b(3,4) c]
      show "?g c m'' = Inr (?v c)" by simp
    qed
    moreover have "map ?v [0..<C] = layer_norm_row fo eps ws bs (?row r)"
      using lr w(2) b(2) by (intro nth_equalityI) (simp_all add: layer_norm_row_def Let_def)
    moreover have "?body r m' = for_each (\<lambda>c m. rbind (?g c m) (\<lambda>u. store_at out r (int C) c u m)) [0..<C] m'"
      using lr by (simp add: row_sums [OF fx x(2) r small] fold_mean_def fold_var_def fold_sum_def foldl_map Let_def rbind_assoc)
    ultimately show "\<exists>m''. ?body r m' = Inr m'' \<and> agrees (out + 4 * (r * C)) (4 * C) m' m'' \<and>
        floats (out + 4 * (r * C)) (layer_norm_row fo eps ws bs (?row r)) m''" by simp
  qed
  then show ?thesis by (simp add: layer_norm_f32_def rows_of_def comp_def)
qed

lemma rms_norm_f32_ok:
  assumes region: "within Host out (4 * (R * C)) m" and x: "floats x xs m" "length xs = R * C" "x + 4 * (R * C) \<le> out \<or> out + 4 * (R * C) \<le> x"
    and w: "floats w ws m" "length ws = C" "w + 4 * C \<le> out \<or> out + 4 * (R * C) \<le> w" "w \<noteq> nullptr" and small: "R * C < 2 ^ 31"
  shows "\<exists>m'. rms_norm_f32 fo x w out (int R) (int C) eps m = Inr m' \<and> agrees out (4 * (R * C)) m m' \<and>
    floats out (concat (map (rms_norm_row fo eps ws) (rows_of R C xs))) m'"
proof -
  let ?row = "\<lambda>r. take C (drop (r * C) xs)"
  let ?body = "\<lambda>r m. rbind (for_each (\<lambda>c sum_sq. rbind (load_at x r (int C) c m) (\<lambda>v. Inr (f_add fo sum_sq (f_mul fo v v)))) [0..<nat (int C)] 0) (\<lambda>sum_sq.
       let rms = f_sqrt fo (f_add fo (f_div fo sum_sq (f_of_int fo (int C))) eps);
           inv_rms = f_div fo float_one rms in
       for_each (\<lambda>c m. rbind (load_or float_one w c m) (\<lambda>wt. rbind (load_at x r (int C) c m) (\<lambda>v.
                  store_at out r (int C) c (f_mul fo (f_mul fo v inv_rms) wt) m))) [0..<nat (int C)] m)"
  have "\<exists>m'. for_each ?body [0..<R] m = Inr m' \<and> agrees out (4 * (R * C)) m m' \<and>
      floats out (concat (map (\<lambda>r. rms_norm_row fo eps ws (?row r)) [0..<R])) m'"
  proof (rule rows_loop [OF region])
    show "length (rms_norm_row fo eps ws (?row r)) = C" if "r < R" for r
      using length_row [OF x(2) that] w(2) by (simp add: rms_norm_row_def Let_def)
    fix r m' assume r: "r < R" and ag: "agrees out (4 * (R * C)) m m'"
    note lr = length_row [OF x(2) r]
    have region': "within Host out (4 * (R * C)) m'" using region agrees_within [OF ag] by simp
    have fx: "floats x xs m'" by (rule agrees_floats [OF ag x(1)]) (use x(2,3) in auto)
    let ?inv = "f_div fo float_one (f_sqrt fo (f_add fo (f_div fo (fold_sum fo (map (\<lambda>x. f_mul fo x x) (?row r))) (f_of_int fo (int C))) eps))"
    let ?v = "\<lambda>c. f_mul fo (f_mul fo (?row r ! c) ?inv) (ws ! c)"
    let ?g = "\<lambda>c m. rbind (load_or float_one w c m) (\<lambda>wt. rbind (load_at x r (int C) c m) (\<lambda>v. Inr (f_mul fo (f_mul fo v ?inv) wt)))"
    have "\<exists>m''. for_each (\<lambda>c m. rbind (?g c m) (\<lambda>u. store_at out r (int C) c u m)) [0..<C] m' = Inr m'' \<and>
        agrees (out + 4 * (r * C)) (4 * C) m' m'' \<and> floats (out + 4 * (r * C)) (map ?v [0..<C]) m''"
    proof (rule norm_row_write [OF region' r small])
      fix c m'' assume c: "c < C" and ag': "agrees out (4 * (R * C)) m' m''"
      note ag2 = agrees_trans [OF ag ag']
      from norm_input [OF x(1,2) ag2 x(3) r small c] norm_weight [OF w(1,2) ag2 w(3,4) c] show "?g c m'' = Inr (?v c)" by simp
    qed
    moreover have "map ?v [0..<C] = rms_norm_row fo eps ws (?row r)"
      using lr w(2) by (intro nth_equalityI) (simp_all add: rms_norm_row_def Let_def)
    moreover have "?body r m' = for_each (\<lambda>c m. rbind (?g c m) (\<lambda>u. store_at out r (int C) c u m)) [0..<C] m'"
      by (simp add: row_sums [OF fx x(2) r small] fold_sum_def foldl_map Let_def rbind_assoc)
    ultimately show "\<exists>m''. ?body r m' = Inr m'' \<and> agrees (out + 4 * (r * C)) (4 * C) m' m'' \<and>
        floats (out + 4 * (r * C)) (rms_norm_row fo eps ws (?row r)) m''" by simp
  qed
  then show ?thesis by (simp add: rms_norm_f32_def rows_of_def comp_def)
qed

section \<open>Normalised matrices\<close>

lemma matrix_dims:
  assumes sh: "sh = TensorShape_init [int R, int C]" and pos: "0 < R" "0 < C" and small: "R * C < 2 ^ 31"
  shows "norm_rows sh = Inr (int R)" and "norm_cols sh = Inr (int C)"
proof -
  have "R \<le> R * C" "C \<le> R * C" using pos by simp_all
  then have b: "R < 2 ^ 31" "C < 2 ^ 31" using small by linarith+
  then have i: "int R < int (2 ^ 31)" "int C < int (2 ^ 31)" by (simp_all only: of_nat_less_iff)
  have sd: "shape_dim sh 0 = Inr (int R)" "shape_dim sh 1 = Inr (int C)"
    using shape_dim_init [of "[int R, int C]" 0] shape_dim_init [of "[int R, int C]" 1] by (simp_all add: sh kMaxDim_def)
  have "shp_ndims sh = 2" by (simp add: sh TensorShape_init_def)
  with sd i show "norm_rows sh = Inr (int R)" "norm_cols sh = Inr (int C)"
    by (simp_all add: norm_rows_def norm_cols_def trunc32_id s64_def)
qed

text \<open>Both operations: a fresh output, the kernel, the output moved out.\<close>

lemma norm_op_ok:
  assumes "memalign_ok new" and ok: "mem_ok m" and x: "holds_floats (CPUDevice new) x xs m"
    and oom: "\<not> out_of_memory (CPUDevice new) (4 * of_nat (length xs)) m"
    and len: "length zs = length xs"
    and kernel: "\<And>out m0. fresh_tensor Host out m m0 \<Longrightarrow> mem_ok m0 \<Longrightarrow> unat (t_num_bytes out) = 4 * length xs \<Longrightarrow>
      within Host (t_data out) (4 * length xs) m0 \<Longrightarrow>
      \<exists>m1. run (t_data out) m0 = Inr m1 \<and> agrees (t_data out) (4 * length xs) m0 m1 \<and> floats (t_data out) zs m1"
  shows "returns_floats (CPUDevice new) m
    (rbind (Tensor_new (t_shape x) (t_dtype x) (CPUDevice new) m) (\<lambda>(out, m1).
       rbind (run (t_data out) m1) (\<lambda>m2. Inr (Ok (fst (Tensor_move out)), m2)))) zs"
proof -
  note W = holds_floats_words [OF x]
  obtain out m0 where o: "Tensor_new (t_shape x) (t_dtype x) (CPUDevice new) m = Inr (out, m0)" "t_shape out = t_shape x"
    "t_dtype out = t_dtype x" "t_device out = Some (CPUDevice new)" "t_num_bytes out = 4 * of_nat (length xs)"
    "fresh_tensor Host out m m0" "mem_ok m0" "within Host (t_data out) (unat (4 * of_nat (length xs) :: size_t)) m0"
    using fresh_output [OF assms(1) ok W(2) oom] .
  have nb: "unat (t_num_bytes out) = 4 * length xs" using o(5) W(3) by simp
  have w: "within Host (t_data out) (4 * length xs) m0" using o(8) W(3) by simp
  obtain m1 where m1: "run (t_data out) m0 = Inr m1" "agrees (t_data out) (4 * length xs) m0 m1" "floats (t_data out) zs m1"
    using kernel [OF o(6,7) nb w] by blast
  have dt: "t_dtype out = kFloat32" using o(3) x by (simp add: holds_floats_def)
  from output_result [OF ok x o(2) dt o(4) nb o(6) m1(2,3) len] m1(1) o(1)
  show ?thesis by (simp add: Tensor_move_def bh_move_def)
qed

text \<open>A tensor given to the kernel next to the output.\<close>

lemma norm_operand:
  assumes "holds_floats d w ws m" and "fresh_tensor Host out m m0" and "mem_ok m0" and "unat (t_num_bytes out) = n"
  shows "floats (t_data w) ws m0" and "t_data w + 4 * length ws \<le> t_data out \<or> t_data out + n \<le> t_data w" and "t_data w \<noteq> nullptr"
proof -
  have f: "floats (t_data w) ws m" and r: "map_of (m_regions m) (t_data w) = Some (4 * length ws, Host)"
    using assms(1) by (simp_all add: holds_floats_def)
  show "floats (t_data w) ws m0" by (rule fresh_floats [OF assms(2) f])
  have r0: "map_of (m_regions m0) (t_data w) = Some (4 * length ws, Host)"
    and o: "map_of (m_regions m0) (t_data out) = Some (n, Host)" and ne: "t_data w \<noteq> t_data out"
    using assms(2,4) r unfolding fresh_tensor_def by auto
  from regions_apart [OF assms(3) r0 o ne] show "t_data w + 4 * length ws \<le> t_data out \<or> t_data out + n \<le> t_data w" by auto
  show "t_data w \<noteq> nullptr" using assms(3) r0 unfolding mem_ok_def by fastforce
qed

lemma length_rows_width:
  assumes "length xs = R * C" and "\<And>ys. length ys = C \<Longrightarrow> length (f ys) = C"
  shows "length (concat (map f (rows_of R C xs))) = length xs"
proof -
  have "map (\<lambda>r. length (f (take C (drop (r * C) xs)))) [0..<R] = map (\<lambda>r. C) [0..<R]"
    using assms(2) length_row [OF assms(1)] by (intro map_cong) auto
  from arg_cong [OF this, of sum_list] assms(1) show ?thesis
    by (simp only: length_concat rows_of_def map_map comp_def sum_list_triv) simp
qed

lemma norm_row_lengths:
  "length ws = C \<Longrightarrow> length bs = C \<Longrightarrow> length ys = C \<Longrightarrow> length (layer_norm_row fo eps ws bs ys) = C"
  "length ws = C \<Longrightarrow> length ys = C \<Longrightarrow> length (rms_norm_row fo eps ws ys) = C"
  by (simp_all add: layer_norm_row_def rms_norm_row_def Let_def)

text \<open>
  C9: layer normalisation of a float matrix with weights and biases for its columns centres each row on
  its mean, divides it by the square root of its variance plus \<open>eps\<close>, scales and shifts it by the column;
  root-mean-square normalisation divides by the root of the mean square plus \<open>eps\<close> and scales. The
  result is a fresh tensor and nothing else changes; no index of the \<open>int\<close> loops overflows for fewer
  than \<open>2 ^ 31\<close> elements.
\<close>

theorem normalization_rows:
  assumes "memalign_ok new" and ok: "mem_ok m" and x: "holds_floats (CPUDevice new) x xs m"
    and w: "holds_floats dw w ws m" and b: "holds_floats db b bs m" and "length ws = C" and "length bs = C"
    and oom: "\<not> out_of_memory (CPUDevice new) (4 * of_nat (length xs)) m"
    and sh: "t_shape x = TensorShape_init [int R, int C]" and len: "length xs = R * C" and small: "R * C < 2 ^ 31"
  shows "returns_floats (CPUDevice new) m (math_layer_norm fo x w b eps m) (concat (map (layer_norm_row fo eps ws bs) (rows_of R C xs))) \<and>
    returns_floats (CPUDevice new) m (math_rms_norm fo x w eps m) (concat (map (rms_norm_row fo eps ws) (rows_of R C xs)))"
proof
  have "R * C \<noteq> 0" using x unfolding holds_floats_def len [symmetric] by auto
  then have dims: "norm_rows (t_shape x) = Inr (int R)" "norm_cols (t_shape x) = Inr (int C)" using matrix_dims [OF sh _ _ small] by auto
  have dev: "t_device x = Some (CPUDevice new)" using x by (simp add: holds_floats_def)
  have "returns_floats (CPUDevice new) m
    (rbind (Tensor_new (t_shape x) (t_dtype x) (CPUDevice new) m) (\<lambda>(out, m1).
       rbind (layer_norm_f32 fo (t_data x) (t_data w) (t_data b) (t_data out) (int R) (int C) eps m1)
         (\<lambda>m2. Inr (Ok (fst (Tensor_move out)), m2)))) (concat (map (layer_norm_row fo eps ws bs) (rows_of R C xs)))"
  proof (rule norm_op_ok [OF assms(1) ok x oom])
    show "length (concat (map (layer_norm_row fo eps ws bs) (rows_of R C xs))) = length xs"
      using norm_row_lengths(1) [OF assms(6,7)] by (rule length_rows_width [OF len])
    fix out m0 assume f: "fresh_tensor Host out m m0" "mem_ok m0" "unat (t_num_bytes out) = 4 * length xs" "within Host (t_data out) (4 * length xs) m0"
    note o = norm_operand [OF x f(1-3)] norm_operand [OF w f(1-3)] norm_operand [OF b f(1-3)]
    show "\<exists>m1. layer_norm_f32 fo (t_data x) (t_data w) (t_data b) (t_data out) (int R) (int C) eps m0 = Inr m1 \<and>
        agrees (t_data out) (4 * length xs) m0 m1 \<and> floats (t_data out) (concat (map (layer_norm_row fo eps ws bs) (rows_of R C xs))) m1"
      unfolding len by (rule layer_norm_f32_ok [OF _ o(1) len _ o(4) assms(6) _ o(6) o(7) assms(7) _ o(9) small])
        (use f(4) o(2,5,8) len assms(6,7) in auto)
  qed
  then show "returns_floats (CPUDevice new) m (math_layer_norm fo x w b eps m) (concat (map (layer_norm_row fo eps ws bs) (rows_of R C xs)))"
    by (simp add: math_layer_norm_def dev dims)
  have "returns_floats (CPUDevice new) m
    (rbind (Tensor_new (t_shape x) (t_dtype x) (CPUDevice new) m) (\<lambda>(out, m1).
       rbind (rms_norm_f32 fo (t_data x) (t_data w) (t_data out) (int R) (int C) eps m1)
         (\<lambda>m2. Inr (Ok (fst (Tensor_move out)), m2)))) (concat (map (rms_norm_row fo eps ws) (rows_of R C xs)))"
  proof (rule norm_op_ok [OF assms(1) ok x oom])
    show "length (concat (map (rms_norm_row fo eps ws) (rows_of R C xs))) = length xs"
      using norm_row_lengths(2) [OF assms(6)] by (rule length_rows_width [OF len])
    fix out m0 assume f: "fresh_tensor Host out m m0" "mem_ok m0" "unat (t_num_bytes out) = 4 * length xs" "within Host (t_data out) (4 * length xs) m0"
    note o = norm_operand [OF x f(1-3)] norm_operand [OF w f(1-3)]
    show "\<exists>m1. rms_norm_f32 fo (t_data x) (t_data w) (t_data out) (int R) (int C) eps m0 = Inr m1 \<and>
        agrees (t_data out) (4 * length xs) m0 m1 \<and> floats (t_data out) (concat (map (rms_norm_row fo eps ws) (rows_of R C xs))) m1"
      unfolding len by (rule rms_norm_f32_ok [OF _ o(1) len _ o(4) assms(6) _ o(6) small]) (use f(4) o(2,5) len assms(6) in auto)
  qed
  then show "returns_floats (CPUDevice new) m (math_rms_norm fo x w eps m) (concat (map (rms_norm_row fo eps ws) (rows_of R C xs)))"
    by (simp add: math_rms_norm_def dev dims)
qed

text \<open>One row of four elements, the second matrix serving as the weights and the biases.\<close>

lemma float_row_holds:
  "holds_floats (CPUDevice bump_memalign) (float_matrix 64\<lparr>t_shape := TensorShape_init [1, 4]\<rparr>) [1, 0, 0, 3] float_mem"
proof -
  have "num_elements (TensorShape_init [1, 4]) = Inr 4"
    using num_elements_ok [of "TensorShape_init [1, 4]"] TensorShape_init_ok [of "[1, 4]"]
    by (simp add: kMaxDim_def dims_fit_def) (simp add: TensorShape_init_def)
  with float_matrix_holds(1) show ?thesis by (simp add: holds_floats_def t_data_def t_num_bytes_def)
qed

lemma normalization_rows_witness:
  "returns_floats (CPUDevice bump_memalign) float_mem
     (math_layer_norm word_floats (float_matrix 64\<lparr>t_shape := TensorShape_init [1, 4]\<rparr>) (float_matrix 128) (float_matrix 128) 1 float_mem)
     (layer_norm_row word_floats 1 [0, 2, 0, 0] [0, 2, 0, 0] [1, 0, 0, 3])"
proof -
  have "\<not> out_of_memory (CPUDevice bump_memalign) (4 * of_nat (length [1, 0, 0, 3 :: f32])) float_mem" using float_mem_memory by simp
  from normalization_rows [OF bump_memalign_ok float_mem_ok float_row_holds float_matrix_holds(2,2) _ _ this,
      where R = 1 and C = 4 and fo = word_floats and eps = 1]
  show ?thesis by (simp add: rows_of_def upt_rec)
qed

end
