(* ===== verification/Thread_Pool.thy ===== *)
theory Thread_Pool
  imports Prelude
begin

text \<open>
  \<open>ThreadPool\<close> of \<open>scheduler/thread_pool.cpp\<close>: worker threads that take tasks from a queue under a
  mutex, and the threads that call the pool. One step of a thread is one of its accesses to what the
  threads share: an operation on the mutex or a condition variable, a load or store of an atomic
  variable, an access to the queue under the mutex. A thread that waits on a condition variable tests
  its predicate, then gives up the mutex and falls asleep in one step, as the standard has it; it may
  wake at any time and then takes the mutex to test again.
\<close>

section \<open>Threads and the state they share\<close>

type_synonym job = nat

datatype wpc =
    W_Lock
  | W_Stop
  | W_Ready
  | W_Block
  | W_Asleep
  | W_Exit
  | W_Pause
  | W_Take
  | W_Run job
  | W_Active
  | W_Completed
  | W_Notify
  | W_Returned

datatype cpc =
    C_Idle
  | E_Lock job
  | E_Stop job
  | E_Push job
  | E_Notify
  | A_Lock
  | A_Test
  | A_Block
  | A_Asleep
  | R_Notify
  | Z_Lock nat
  | S_Notify
  | S_Join nat
  | S_Done

datatype thread = Worker nat | Client nat

text \<open>The last three fields are the history: the tasks accepted, taken by a worker, and run.\<close>

record ThreadPool =
  tp_mtx :: "thread option"
  tp_tasks :: "job list"
  tp_stop :: bool
  tp_pause :: bool
  tp_active :: size_t
  tp_queued :: size_t
  tp_completed :: size_t
  tp_workers :: "wpc list"
  tp_clients :: "cpc list"
  tp_accepted :: "job list"
  tp_taken :: "job list"
  tp_ran :: "job list"

definition pool_start :: "nat \<Rightarrow> ThreadPool \<Rightarrow> ThreadPool" where
  "pool_start n s = s\<lparr>tp_workers := tp_workers s @ replicate n W_Lock\<rparr>"

definition ThreadPool_new :: "nat \<Rightarrow> nat \<Rightarrow> ThreadPool" where
  "ThreadPool_new n clients = pool_start n
     \<lparr>tp_mtx = None, tp_tasks = [], tp_stop = False, tp_pause = False, tp_active = 0, tp_queued = 0, tp_completed = 0,
      tp_workers = [], tp_clients = replicate clients C_Idle, tp_accepted = [], tp_taken = [], tp_ran = []\<rparr>"

text \<open>Of a configuration only the first member is used.\<close>

record PoolConfig =
  min_threads :: nat
  max_threads :: nat
  idle_timeout_ms :: nat

definition ThreadPool_config :: "PoolConfig \<Rightarrow> nat \<Rightarrow> ThreadPool" where
  "ThreadPool_config config clients = ThreadPool_new (min_threads config) clients"

text \<open>The global pool has \<open>std::thread::hardware_concurrency()\<close> threads, which may be none.\<close>

definition GetGlobalThreadPool :: "nat \<Rightarrow> nat \<Rightarrow> ThreadPool" where
  "GetGlobalThreadPool hardware_concurrency clients = ThreadPool_new hardware_concurrency clients"

definition worker_at :: "nat \<Rightarrow> wpc \<Rightarrow> ThreadPool \<Rightarrow> ThreadPool" where
  "worker_at i pc s = s\<lparr>tp_workers := (tp_workers s)[i := pc]\<rparr>"

definition client_at :: "nat \<Rightarrow> cpc \<Rightarrow> ThreadPool \<Rightarrow> ThreadPool" where
  "client_at i pc s = s\<lparr>tp_clients := (tp_clients s)[i := pc]\<rparr>"

text \<open>\<open>notify_all\<close> of the two condition variables, \<open>cv_\<close> and \<open>done_cv_\<close>.\<close>

definition wake_workers :: "ThreadPool \<Rightarrow> ThreadPool" where
  "wake_workers s = s\<lparr>tp_workers := map (\<lambda>pc. if pc = W_Asleep then W_Lock else pc) (tp_workers s)\<rparr>"

definition wake_waiters :: "ThreadPool \<Rightarrow> ThreadPool" where
  "wake_waiters s = s\<lparr>tp_clients := map (\<lambda>pc. if pc = A_Asleep then A_Lock else pc) (tp_clients s)\<rparr>"

section \<open>Worker threads\<close>

text \<open>
  \<open>worker_loop\<close>; \<open>None\<close> where the thread cannot move. An exception of the task is caught and reported,
  so running a task always goes on to the counters.
\<close>

definition worker_step :: "nat \<Rightarrow> ThreadPool \<Rightarrow> ThreadPool comp option" where
  "worker_step i s = (case tp_workers s ! i of
       W_Lock \<Rightarrow> if tp_mtx s = None then Some (Inr (worker_at i W_Stop (s\<lparr>tp_mtx := Some (Worker i)\<rparr>))) else None
     | W_Stop \<Rightarrow> Some (Inr (worker_at i (if tp_stop s then W_Exit else W_Ready) s))
     | W_Ready \<Rightarrow> Some (Inr (worker_at i (if \<not> tp_pause s \<and> tp_tasks s \<noteq> [] then W_Exit else W_Block) s))
     | W_Block \<Rightarrow> Some (Inr (worker_at i W_Asleep (s\<lparr>tp_mtx := None\<rparr>)))
     | W_Asleep \<Rightarrow> None
     | W_Exit \<Rightarrow> Some (Inr (if tp_stop s \<and> tp_tasks s = [] then worker_at i W_Returned (s\<lparr>tp_mtx := None\<rparr>) else worker_at i W_Pause s))
     | W_Pause \<Rightarrow> Some (Inr (if tp_pause s \<and> tp_tasks s = [] then worker_at i W_Lock (s\<lparr>tp_mtx := None\<rparr>) else worker_at i W_Take s))
     | W_Take \<Rightarrow> Some (case tp_tasks s of [] \<Rightarrow> Inl Empty_Container
         | t # ts \<Rightarrow> Inr (worker_at i (W_Run t) (s\<lparr>tp_tasks := ts, tp_queued := tp_queued s - 1, tp_active := tp_active s + 1,
             tp_mtx := None, tp_taken := tp_taken s @ [t]\<rparr>)))
     | W_Run t \<Rightarrow> Some (Inr (worker_at i W_Active (s\<lparr>tp_ran := tp_ran s @ [t]\<rparr>)))
     | W_Active \<Rightarrow> Some (Inr (worker_at i W_Completed (s\<lparr>tp_active := tp_active s - 1\<rparr>)))
     | W_Completed \<Rightarrow> Some (Inr (worker_at i W_Notify (s\<lparr>tp_completed := tp_completed s + 1\<rparr>)))
     | W_Notify \<Rightarrow> Some (Inr (worker_at i W_Lock (wake_waiters s)))
     | W_Returned \<Rightarrow> None)"

section \<open>Threads that call the pool\<close>

datatype pool_call = Enqueue job | WaitAll | Pause | Resume | Resize nat | Destroy

text \<open>
  The first access of each function. A caller that destroys the pool does not resize it from another
  thread at the same time, and destroys it once.
\<close>

definition call_allowed :: "pool_call \<Rightarrow> ThreadPool \<Rightarrow> bool" where
  "call_allowed op s = (case op of
       Resize n \<Rightarrow> \<not> tp_stop s
     | Destroy \<Rightarrow> \<not> tp_stop s \<and> list_all (\<lambda>c. case c of Z_Lock n \<Rightarrow> False | _ \<Rightarrow> True) (tp_clients s)
     | _ \<Rightarrow> True)"

definition call_pool :: "nat \<Rightarrow> pool_call \<Rightarrow> ThreadPool \<Rightarrow> ThreadPool" where
  "call_pool i op s = (case op of
       Enqueue t \<Rightarrow> client_at i (E_Lock t) s
     | WaitAll \<Rightarrow> client_at i A_Lock s
     | Pause \<Rightarrow> s\<lparr>tp_pause := True\<rparr>
     | Resume \<Rightarrow> client_at i R_Notify (s\<lparr>tp_pause := False\<rparr>)
     | Resize n \<Rightarrow> client_at i (Z_Lock n) s
     | Destroy \<Rightarrow> client_at i S_Notify (s\<lparr>tp_stop := True\<rparr>))"

text \<open>
  The rest of each function. \<open>enqueue\<close> throws when the pool has stopped, giving up the mutex; its
  \<open>notify_one\<close> wakes a worker that \<open>pool_step\<close> chooses, and none when none sleeps. \<open>resize\<close> only grows.
\<close>

definition enqueue_step :: "nat \<Rightarrow> ThreadPool \<Rightarrow> ThreadPool option" where
  "enqueue_step i s = (case tp_clients s ! i of
       E_Lock t \<Rightarrow> if tp_mtx s = None then Some (client_at i (E_Stop t) (s\<lparr>tp_mtx := Some (Client i)\<rparr>)) else None
     | E_Stop t \<Rightarrow> Some (if tp_stop s then client_at i C_Idle (s\<lparr>tp_mtx := None\<rparr>) else client_at i (E_Push t) s)
     | E_Push t \<Rightarrow> Some (client_at i E_Notify (s\<lparr>tp_tasks := tp_tasks s @ [t], tp_queued := tp_queued s + 1, tp_mtx := None,
         tp_accepted := tp_accepted s @ [t]\<rparr>))
     | E_Notify \<Rightarrow> if W_Asleep \<in> set (tp_workers s) then None else Some (client_at i C_Idle s)
     | _ \<Rightarrow> None)"

definition wait_all_step :: "nat \<Rightarrow> ThreadPool \<Rightarrow> ThreadPool option" where
  "wait_all_step i s = (case tp_clients s ! i of
       A_Lock \<Rightarrow> if tp_mtx s = None then Some (client_at i A_Test (s\<lparr>tp_mtx := Some (Client i)\<rparr>)) else None
     | A_Test \<Rightarrow> Some (if tp_tasks s = [] \<and> tp_active s = 0 then client_at i C_Idle (s\<lparr>tp_mtx := None\<rparr>) else client_at i A_Block s)
     | A_Block \<Rightarrow> Some (client_at i A_Asleep (s\<lparr>tp_mtx := None\<rparr>))
     | _ \<Rightarrow> None)"

definition resume_step :: "nat \<Rightarrow> ThreadPool \<Rightarrow> ThreadPool" where
  "resume_step i s = client_at i C_Idle (wake_workers s)"

definition resize_step :: "nat \<Rightarrow> nat \<Rightarrow> ThreadPool \<Rightarrow> ThreadPool option" where
  "resize_step n i s = (if tp_mtx s = None
     then Some (client_at i C_Idle (if n \<le> length (tp_workers s) then s else pool_start (n - length (tp_workers s)) s)) else None)"

definition shutdown_step :: "nat \<Rightarrow> ThreadPool \<Rightarrow> ThreadPool option" where
  "shutdown_step i s = (case tp_clients s ! i of
       S_Notify \<Rightarrow> Some (client_at i (S_Join 0) (wake_workers s))
     | S_Join k \<Rightarrow> if k < length (tp_workers s) then (if tp_workers s ! k = W_Returned then Some (client_at i (S_Join (Suc k)) s) else None)
         else Some (client_at i S_Done s)
     | _ \<Rightarrow> None)"

definition client_step :: "nat \<Rightarrow> ThreadPool \<Rightarrow> ThreadPool option" where
  "client_step i s = (case tp_clients s ! i of
       R_Notify \<Rightarrow> Some (resume_step i s)
     | Z_Lock n \<Rightarrow> resize_step n i s
     | S_Notify \<Rightarrow> shutdown_step i s
     | S_Join k \<Rightarrow> shutdown_step i s
     | A_Lock \<Rightarrow> wait_all_step i s
     | A_Test \<Rightarrow> wait_all_step i s
     | A_Block \<Rightarrow> wait_all_step i s
     | _ \<Rightarrow> enqueue_step i s)"

lemmas client_step_defs = client_step_def enqueue_step_def wait_all_step_def resume_step_def resize_step_def shutdown_step_def

inductive pool_step :: "ThreadPool \<Rightarrow> ThreadPool comp \<Rightarrow> bool" where
  worker: "i < length (tp_workers s) \<Longrightarrow> worker_step i s = Some r \<Longrightarrow> pool_step s r"
| client: "i < length (tp_clients s) \<Longrightarrow> client_step i s = Some s' \<Longrightarrow> pool_step s (Inr s')"
| notify: "i < length (tp_clients s) \<Longrightarrow> tp_clients s ! i = E_Notify \<Longrightarrow> j < length (tp_workers s) \<Longrightarrow> tp_workers s ! j = W_Asleep \<Longrightarrow>
    pool_step s (Inr (client_at i C_Idle (worker_at j W_Lock s)))"
| call: "i < length (tp_clients s) \<Longrightarrow> tp_clients s ! i = C_Idle \<Longrightarrow> call_allowed op s \<Longrightarrow> pool_step s (Inr (call_pool i op s))"
| wake_worker: "j < length (tp_workers s) \<Longrightarrow> tp_workers s ! j = W_Asleep \<Longrightarrow> pool_step s (Inr (worker_at j W_Lock s))"
| wake_client: "i < length (tp_clients s) \<Longrightarrow> tp_clients s ! i = A_Asleep \<Longrightarrow> pool_step s (Inr (client_at i A_Lock s))"

inductive pool_reach :: "nat \<Rightarrow> nat \<Rightarrow> ThreadPool \<Rightarrow> bool" for n clients where
  start: "pool_reach n clients (ThreadPool_new n clients)"
| step: "pool_reach n clients s \<Longrightarrow> pool_step s (Inr s') \<Longrightarrow> pool_reach n clients s'"

section \<open>Invariants\<close>

definition w_holds :: "wpc \<Rightarrow> bool" where
  "w_holds pc \<longleftrightarrow> pc = W_Stop \<or> pc = W_Ready \<or> pc = W_Block \<or> pc = W_Exit \<or> pc = W_Pause \<or> pc = W_Take"

fun c_holds :: "cpc \<Rightarrow> bool" where
  "c_holds (E_Stop t) = True"
| "c_holds (E_Push t) = True"
| "c_holds A_Test = True"
| "c_holds A_Block = True"
| "c_holds _ = False"

text \<open>The mutex belongs to the thread that is between taking it and giving it up.\<close>

definition mutex_inv :: "ThreadPool \<Rightarrow> bool" where
  "mutex_inv s \<longleftrightarrow> (\<forall>i. tp_mtx s = Some (Worker i) \<longleftrightarrow> i < length (tp_workers s) \<and> w_holds (tp_workers s ! i)) \<and>
     (\<forall>i. tp_mtx s = Some (Client i) \<longleftrightarrow> i < length (tp_clients s) \<and> c_holds (tp_clients s ! i))"

text \<open>
  A worker past its wait has a task to take or a pool that stops; one that returned has seen the queue
  empty for good. The destructor has joined the workers before the one it waits for.
\<close>

fun w_ok :: "ThreadPool \<Rightarrow> wpc \<Rightarrow> bool" where
  "w_ok s W_Exit = (tp_stop s \<or> tp_tasks s \<noteq> [])"
| "w_ok s W_Pause = (tp_tasks s \<noteq> [])"
| "w_ok s W_Take = (tp_tasks s \<noteq> [])"
| "w_ok s W_Returned = (tp_stop s \<and> tp_tasks s = [])"
| "w_ok s _ = True"

fun c_ok :: "ThreadPool \<Rightarrow> cpc \<Rightarrow> bool" where
  "c_ok s (E_Push t) = (W_Returned \<notin> set (tp_workers s))"
| "c_ok s S_Notify = tp_stop s"
| "c_ok s (S_Join k) = (tp_stop s \<and> k \<le> length (tp_workers s) \<and> (\<forall>j < k. tp_workers s ! j = W_Returned))"
| "c_ok s S_Done = (tp_stop s \<and> (\<forall>pc \<in> set (tp_workers s). pc = W_Returned))"
| "c_ok s (Z_Lock n) = (\<not> tp_stop s)"
| "c_ok s _ = True"

definition local_inv :: "ThreadPool \<Rightarrow> bool" where
  "local_inv s \<longleftrightarrow> (\<forall>i < length (tp_workers s). w_ok s (tp_workers s ! i)) \<and> (\<forall>i < length (tp_clients s). c_ok s (tp_clients s ! i))"

text \<open>What a worker contributes to the counters and to the tasks under way.\<close>

fun w_active :: "wpc \<Rightarrow> size_t" where
  "w_active (W_Run t) = 1"
| "w_active W_Active = 1"
| "w_active _ = 0"

fun w_done :: "wpc \<Rightarrow> size_t" where
  "w_done W_Active = 1"
| "w_done W_Completed = 1"
| "w_done _ = 0"

fun w_job :: "wpc \<Rightarrow> job multiset" where
  "w_job (W_Run t) = {#t#}"
| "w_job _ = {#}"

definition count_inv :: "ThreadPool \<Rightarrow> bool" where
  "count_inv s \<longleftrightarrow> tp_queued s = of_nat (length (tp_tasks s)) \<and> tp_active s = sum_list (map w_active (tp_workers s)) \<and>
     tp_completed s + sum_list (map w_done (tp_workers s)) = of_nat (length (tp_ran s)) \<and>
     tp_accepted s = tp_taken s @ tp_tasks s \<and>
     mset (tp_taken s) = mset (tp_ran s) + sum_list (map w_job (tp_workers s))"

definition pool_inv :: "ThreadPool \<Rightarrow> bool" where
  "pool_inv s \<longleftrightarrow> mutex_inv s \<and> local_inv s \<and> count_inv s"

lemma sum_list_zeros [simp]: "sum_list (replicate k (0 :: 'a :: comm_monoid_add)) = 0" "sum_list (replicate k {#}) = {#}"
  by (induction k) auto

lemma wake_sums [simp]:
  "f W_Asleep = f W_Lock \<Longrightarrow> sum_list (map (f \<circ> (\<lambda>pc. if pc = W_Asleep then W_Lock else pc)) ws) = sum_list (map f ws)"
  by (induction ws) auto

lemma at_simps [simp]:
  "tp_workers (worker_at i pc s) = (tp_workers s)[i := pc]" "tp_clients (worker_at i pc s) = tp_clients s"
  "tp_mtx (worker_at i pc s) = tp_mtx s" "tp_tasks (worker_at i pc s) = tp_tasks s" "tp_stop (worker_at i pc s) = tp_stop s"
  "tp_pause (worker_at i pc s) = tp_pause s" "tp_active (worker_at i pc s) = tp_active s" "tp_queued (worker_at i pc s) = tp_queued s"
  "tp_completed (worker_at i pc s) = tp_completed s" "tp_accepted (worker_at i pc s) = tp_accepted s"
  "tp_taken (worker_at i pc s) = tp_taken s" "tp_ran (worker_at i pc s) = tp_ran s"
  "tp_workers (client_at i c s) = tp_workers s" "tp_clients (client_at i c s) = (tp_clients s)[i := c]"
  "tp_mtx (client_at i c s) = tp_mtx s" "tp_tasks (client_at i c s) = tp_tasks s" "tp_stop (client_at i c s) = tp_stop s"
  "tp_pause (client_at i c s) = tp_pause s" "tp_active (client_at i c s) = tp_active s" "tp_queued (client_at i c s) = tp_queued s"
  "tp_completed (client_at i c s) = tp_completed s" "tp_accepted (client_at i c s) = tp_accepted s"
  "tp_taken (client_at i c s) = tp_taken s" "tp_ran (client_at i c s) = tp_ran s"
  by (simp_all add: worker_at_def client_at_def)

section \<open>The invariants are kept\<close>

text \<open>A worker that moves keeps the mutex, takes it from nobody or gives it up.\<close>

lemma mutex_invD:
  assumes "mutex_inv s"
  shows "tp_mtx s = Some (Worker i) \<longleftrightarrow> i < length (tp_workers s) \<and> w_holds (tp_workers s ! i)"
    and "tp_mtx s = Some (Client i) \<longleftrightarrow> i < length (tp_clients s) \<and> c_holds (tp_clients s ! i)"
  using assms unfolding mutex_inv_def by blast+

definition mtx_after :: "thread \<Rightarrow> bool \<Rightarrow> bool \<Rightarrow> thread option \<Rightarrow> thread option" where
  "mtx_after t held holds mtx = (if holds then Some t else if held then None else mtx)"

lemma mutex_worker:
  assumes inv: "mutex_inv s" and i: "i < length (tp_workers s)"
    and upd: "tp_workers s' = (tp_workers s)[i := pc]" "tp_clients s' = tp_clients s"
    and mtx: "tp_mtx s' = mtx_after (Worker i) (w_holds (tp_workers s ! i)) (w_holds pc) (tp_mtx s)"
    and free: "w_holds pc \<Longrightarrow> \<not> w_holds (tp_workers s ! i) \<Longrightarrow> tp_mtx s = None"
  shows "mutex_inv s'"
proof -
  have held: "w_holds (tp_workers s ! i) \<longleftrightarrow> tp_mtx s = Some (Worker i)" using mutex_invD(1) [OF inv, of i] i by blast
  show ?thesis unfolding mutex_inv_def
  proof (intro conjI allI)
    fix j
    show "tp_mtx s' = Some (Worker j) \<longleftrightarrow> j < length (tp_workers s') \<and> w_holds (tp_workers s' ! j)"
      using mutex_invD(1) [OF inv, of j] held free i unfolding upd mtx mtx_after_def
      by (cases "j = i") auto
    show "tp_mtx s' = Some (Client j) \<longleftrightarrow> j < length (tp_clients s') \<and> c_holds (tp_clients s' ! j)"
      using mutex_invD(2) [OF inv, of j] held free unfolding upd mtx mtx_after_def
      by auto
  qed
qed

lemma mutex_client:
  assumes inv: "mutex_inv s" and i: "i < length (tp_clients s)"
    and upd: "tp_workers s' = tp_workers s" "tp_clients s' = (tp_clients s)[i := pc]"
    and mtx: "tp_mtx s' = mtx_after (Client i) (c_holds (tp_clients s ! i)) (c_holds pc) (tp_mtx s)"
    and free: "c_holds pc \<Longrightarrow> \<not> c_holds (tp_clients s ! i) \<Longrightarrow> tp_mtx s = None"
  shows "mutex_inv s'"
proof -
  have held: "c_holds (tp_clients s ! i) \<longleftrightarrow> tp_mtx s = Some (Client i)" using mutex_invD(2) [OF inv, of i] i by blast
  show ?thesis unfolding mutex_inv_def
  proof (intro conjI allI)
    fix j
    show "tp_mtx s' = Some (Client j) \<longleftrightarrow> j < length (tp_clients s') \<and> c_holds (tp_clients s' ! j)"
      using mutex_invD(2) [OF inv, of j] held free i unfolding upd mtx mtx_after_def
      by (cases "j = i") auto
    show "tp_mtx s' = Some (Worker j) \<longleftrightarrow> j < length (tp_workers s') \<and> w_holds (tp_workers s' ! j)"
      using mutex_invD(1) [OF inv, of j] held free unfolding upd mtx mtx_after_def
      by auto
  qed
qed

text \<open>Waking threads changes no holder and no local condition.\<close>

lemma wake_workers_simps [simp]:
  "length (tp_workers (wake_workers s)) = length (tp_workers s)" "tp_clients (wake_workers s) = tp_clients s" "tp_mtx (wake_workers s) = tp_mtx s"
  "tp_tasks (wake_workers s) = tp_tasks s" "tp_stop (wake_workers s) = tp_stop s" "tp_active (wake_workers s) = tp_active s"
  "tp_queued (wake_workers s) = tp_queued s" "tp_completed (wake_workers s) = tp_completed s" "tp_accepted (wake_workers s) = tp_accepted s"
  "tp_taken (wake_workers s) = tp_taken s" "tp_ran (wake_workers s) = tp_ran s"
  "i < length (tp_workers s) \<Longrightarrow> tp_workers (wake_workers s) ! i = (if tp_workers s ! i = W_Asleep then W_Lock else tp_workers s ! i)"
  "W_Returned \<in> set (tp_workers (wake_workers s)) \<longleftrightarrow> W_Returned \<in> set (tp_workers s)"
  by (auto simp: wake_workers_def)

lemma wake_waiters_simps [simp]:
  "tp_workers (wake_waiters s) = tp_workers s" "length (tp_clients (wake_waiters s)) = length (tp_clients s)" "tp_mtx (wake_waiters s) = tp_mtx s"
  "tp_tasks (wake_waiters s) = tp_tasks s" "tp_stop (wake_waiters s) = tp_stop s" "tp_active (wake_waiters s) = tp_active s"
  "tp_queued (wake_waiters s) = tp_queued s" "tp_completed (wake_waiters s) = tp_completed s" "tp_accepted (wake_waiters s) = tp_accepted s"
  "tp_taken (wake_waiters s) = tp_taken s" "tp_ran (wake_waiters s) = tp_ran s"
  "i < length (tp_clients s) \<Longrightarrow> tp_clients (wake_waiters s) ! i = (if tp_clients s ! i = A_Asleep then A_Lock else tp_clients s ! i)"
  by (auto simp: wake_waiters_def)

lemma c_ok_cong: "tp_workers s' = tp_workers s \<Longrightarrow> tp_stop s' = tp_stop s \<Longrightarrow> c_ok s' c = c_ok s c"
  by (cases c) simp_all

lemma w_ok_cong: "tp_tasks s' = tp_tasks s \<Longrightarrow> tp_stop s' = tp_stop s \<Longrightarrow> w_ok s' pc = w_ok s pc"
  by (cases pc) simp_all

lemma c_ok_wake: "c_ok s c \<Longrightarrow> c_ok (wake_workers s) c"
proof (cases c)
  case (S_Join k)
  assume "c_ok s c"
  with S_Join show ?thesis by simp
next
  case S_Done
  assume "c_ok s c"
  with S_Done show ?thesis by (auto simp: wake_workers_def)
qed simp_all

lemma wake_inv:
  "pool_inv s \<Longrightarrow> pool_inv (wake_workers s)" "pool_inv s \<Longrightarrow> pool_inv (wake_waiters s)"
proof -
  assume inv: "pool_inv s"
  have "w_holds (if pc = W_Asleep then W_Lock else pc) = w_holds pc" for pc by (simp add: w_holds_def)
  then have "mutex_inv (wake_workers s)" using mutex_invD [of s] inv unfolding pool_inv_def mutex_inv_def [of "wake_workers s"]
    by (simp cong: conj_cong)
  moreover have "local_inv (wake_workers s)"
    using inv w_ok_cong [of "wake_workers s" s] c_ok_wake [of s] unfolding pool_inv_def local_inv_def by auto
  moreover have "count_inv (wake_workers s)" using inv unfolding pool_inv_def count_inv_def by (simp add: wake_workers_def)
  ultimately show "pool_inv (wake_workers s)" by (simp add: pool_inv_def)
  have "c_holds (if c = A_Asleep then A_Lock else c) = c_holds c" for c by simp
  then have "mutex_inv (wake_waiters s)" using mutex_invD [of s] inv unfolding pool_inv_def mutex_inv_def [of "wake_waiters s"]
    by (simp cong: conj_cong)
  moreover have "local_inv (wake_waiters s)"
    using inv w_ok_cong [of "wake_waiters s" s] c_ok_cong [of "wake_waiters s" s] unfolding pool_inv_def local_inv_def by auto
  moreover have "count_inv (wake_waiters s)" using inv unfolding pool_inv_def count_inv_def by simp
  ultimately show "pool_inv (wake_waiters s)" by (simp add: pool_inv_def)
qed

text \<open>A worker whose program counter moves while the queue stays as it is.\<close>

lemma pool_invD:
  assumes "pool_inv s"
  shows "i < length (tp_workers s) \<Longrightarrow> w_ok s (tp_workers s ! i)" and "i < length (tp_clients s) \<Longrightarrow> c_ok s (tp_clients s ! i)"
    and "mutex_inv s" and "count_inv s"
  using assms by (simp_all add: pool_inv_def local_inv_def)

lemma c_ok_worker:
  assumes "c_ok s c" and "i < length (tp_workers s)" and "tp_workers s ! i \<noteq> W_Returned" and "tp_workers s' = (tp_workers s)[i := pc]"
    and "tp_stop s' = tp_stop s" and "pc = W_Returned \<Longrightarrow> \<not> c_holds c"
  shows "c_ok s' c"
proof (cases c)
  case (E_Push t)
  then show ?thesis using assms set_update_subset_insert [of "tp_workers s" i pc] by auto
next
  case (S_Join k)
  have "tp_workers s' ! j = W_Returned" if "j < k" for j
    using assms S_Join that by (cases "j = i") auto
  with S_Join assms show ?thesis by auto
next
  case S_Done
  with assms(1-3) show ?thesis by auto
qed (use assms in auto)

lemma worker_goto:
  assumes inv: "pool_inv s" and i: "i < length (tp_workers s)"
    and mtx: "mtx = mtx_after (Worker i) (w_holds (tp_workers s ! i)) (w_holds pc) (tp_mtx s)"
    and free: "w_holds pc \<Longrightarrow> \<not> w_holds (tp_workers s ! i) \<Longrightarrow> tp_mtx s = None"
    and ok: "w_ok s pc" and old: "tp_workers s ! i \<noteq> W_Returned"
    and push: "pc = W_Returned \<Longrightarrow> tp_mtx s = Some (Worker i)"
    and counts: "w_active pc = w_active (tp_workers s ! i)" "w_done pc = w_done (tp_workers s ! i)" "w_job pc = w_job (tp_workers s ! i)"
  shows "pool_inv (worker_at i pc (s\<lparr>tp_mtx := mtx\<rparr>))" (is "pool_inv ?s")
  unfolding pool_inv_def
proof (intro conjI)
  show "mutex_inv ?s" by (rule mutex_worker [OF pool_invD(3) [OF inv] i]) (use mtx free in simp_all)
  show "local_inv ?s" unfolding local_inv_def
  proof (intro conjI allI impI)
    fix j assume "j < length (tp_workers ?s)"
    with pool_invD(1) [OF inv, of j] ok w_ok_cong [of ?s s] show "w_ok ?s (tp_workers ?s ! j)" by (cases "j = i") auto
  next
    fix j assume j: "j < length (tp_clients ?s)"
    have "\<not> c_holds (tp_clients s ! j)" if "pc = W_Returned" using mutex_invD(2) [OF pool_invD(3) [OF inv], of j] push [OF that] j by auto
    with c_ok_worker [OF pool_invD(2) [OF inv] i old, of j ?s pc] j show "c_ok ?s (tp_clients ?s ! j)" by simp
  qed
  show "count_inv ?s"
    using pool_invD(4) [OF inv] sum_list_map_update [OF i, of w_job pc] i counts
    by (simp add: count_inv_def sum_list_map_update_group)
qed

text \<open>The steps of a worker that change the queue, the log or the counters.\<close>

lemma worker_take:
  assumes inv: "pool_inv s" and i: "i < length (tp_workers s)" and at: "tp_workers s ! i = W_Take" and tasks: "tp_tasks s = t # ts"
  shows "pool_inv (worker_at i (W_Run t) (s\<lparr>tp_tasks := ts, tp_queued := tp_queued s - 1, tp_active := tp_active s + 1,
             tp_mtx := None, tp_taken := tp_taken s @ [t]\<rparr>))" (is "pool_inv ?s")
  unfolding pool_inv_def
proof (intro conjI)
  note m = mutex_invD [OF pool_invD(3) [OF inv]]
  have mine: "tp_mtx s = Some (Worker i)" using m(1) [of i] i at by (simp add: w_holds_def)
  show "mutex_inv ?s"
    by (rule mutex_worker [OF pool_invD(3) [OF inv] i, where pc = "W_Run t"]) (use at in \<open>simp_all add: w_holds_def mtx_after_def\<close>)
  show "local_inv ?s" unfolding local_inv_def
  proof (intro conjI allI impI)
    fix j assume j: "j < length (tp_workers ?s)"
    show "w_ok ?s (tp_workers ?s ! j)"
    proof (cases "j = i")
      case False
      then have "\<not> w_holds (tp_workers s ! j)" using m(1) [of j] mine j by simp
      then show ?thesis using pool_invD(1) [OF inv, of j] tasks j False by (cases "tp_workers s ! j") (simp_all add: w_holds_def)
    qed (use j in simp)
  next
    fix j assume "j < length (tp_clients ?s)"
    with c_ok_worker [OF pool_invD(2) [OF inv] i, of j ?s "W_Run t"] at show "c_ok ?s (tp_clients ?s ! j)" by simp
  qed
  show "count_inv ?s"
    using pool_invD(4) [OF inv] sum_list_map_update [OF i, of w_job "W_Run t"] i at tasks
    by (simp add: count_inv_def sum_list_map_update_group)
qed

lemma worker_count:
  assumes inv: "pool_inv s" and i: "i < length (tp_workers s)" and at: "\<not> w_holds (tp_workers s ! i)" "tp_workers s ! i \<noteq> W_Returned"
    and pc: "\<not> w_holds pc" "pc \<noteq> W_Returned"
    and active: "active = tp_active s - w_active (tp_workers s ! i) + w_active pc"
    and completed: "completed = tp_completed s + w_done (tp_workers s ! i) - w_done pc + of_nat (length fin)"
    and fin: "mset fin + w_job pc = w_job (tp_workers s ! i)"
  shows "pool_inv (worker_at i pc (s\<lparr>tp_active := active, tp_completed := completed, tp_ran := tp_ran s @ fin\<rparr>))" (is "pool_inv ?s")
  unfolding pool_inv_def
proof (intro conjI)
  show "mutex_inv ?s"
    by (rule mutex_worker [OF pool_invD(3) [OF inv] i, where pc = pc]) (use at pc in \<open>simp_all add: mtx_after_def\<close>)
  show "local_inv ?s" unfolding local_inv_def
  proof (intro conjI allI impI)
    fix j assume "j < length (tp_workers ?s)"
    moreover have "w_ok ?s pc" using pc by (cases pc) (simp_all add: w_holds_def)
    ultimately show "w_ok ?s (tp_workers ?s ! j)" using pool_invD(1) [OF inv, of j] w_ok_cong [of ?s s] by (cases "j = i") auto
  next
    fix j assume "j < length (tp_clients ?s)"
    with c_ok_worker [OF pool_invD(2) [OF inv] i at(2), of j ?s pc] pc show "c_ok ?s (tp_clients ?s ! j)" by simp
  qed
  have "mset fin + sum_list (map w_job ((tp_workers s)[i := pc])) + w_job pc = sum_list (map w_job (tp_workers s)) + w_job pc"
    using sum_list_map_update [OF i, of w_job pc] fin by (metis add.assoc add.commute)
  then have "mset fin + sum_list (map w_job ((tp_workers s)[i := pc])) = sum_list (map w_job (tp_workers s))" by simp
  then show "count_inv ?s"
    using pool_invD(4) [OF inv] i active completed by (simp add: count_inv_def sum_list_map_update_group)
qed

lemma worker_stay:
  assumes inv: "pool_inv s" and i: "i < length (tp_workers s)" and at: "w_holds (tp_workers s ! i)" and pc: "w_holds pc" "w_ok s pc"
  shows "pool_inv (worker_at i pc s)"
proof -
  have "tp_mtx s = mtx_after (Worker i) (w_holds (tp_workers s ! i)) (w_holds pc) (tp_mtx s)"
    using mutex_invD(1) [OF pool_invD(3) [OF inv], of i] i at pc(1) by (simp add: mtx_after_def)
  from worker_goto [OF inv i this] at pc show ?thesis by (auto simp: w_holds_def)
qed

lemma worker_step_ok:
  assumes inv: "pool_inv s" and i: "i < length (tp_workers s)" and step: "worker_step i s = Some r"
  shows "\<exists>s'. r = Inr s' \<and> pool_inv s'"
proof -
  note goto = worker_goto [OF inv i] and stay = worker_stay [OF inv i]
  have mine: "tp_mtx s = Some (Worker i)" if "w_holds (tp_workers s ! i)" using mutex_invD(1) [OF pool_invD(3) [OF inv], of i] i that by blast
  have ok: "w_ok s (tp_workers s ! i)" using pool_invD(1) [OF inv i] .
  show ?thesis
  proof (cases "tp_workers s ! i")
    case W_Lock
    then show ?thesis using step goto [of "tp_mtx (s\<lparr>tp_mtx := Some (Worker i)\<rparr>)" W_Stop]
      by (auto simp: worker_step_def mtx_after_def w_holds_def split: if_splits)
  next
    case W_Stop
    then show ?thesis using step stay [of W_Exit] stay [of W_Ready] by (auto simp: worker_step_def w_holds_def split: if_splits)
  next
    case W_Ready
    then show ?thesis using step stay [of W_Exit] stay [of W_Block] by (auto simp: worker_step_def w_holds_def split: if_splits)
  next
    case W_Block
    then show ?thesis using step goto [of None W_Asleep] by (auto simp: worker_step_def mtx_after_def w_holds_def)
  next
    case W_Exit
    then show ?thesis using step mine ok goto [of None W_Returned] stay [of W_Pause]
      by (auto simp: worker_step_def mtx_after_def w_holds_def split: if_splits)
  next
    case W_Pause
    then show ?thesis using step ok stay [of W_Take] by (auto simp: worker_step_def w_holds_def)
  next
    case W_Take
    then show ?thesis using step ok worker_take [OF inv i W_Take] by (cases "tp_tasks s") (auto simp: worker_step_def)
  next
    case (W_Run t)
    then show ?thesis using step worker_count [OF inv i, of W_Active "tp_active s" "tp_completed s" "[t]"]
      by (auto simp: worker_step_def w_holds_def)
  next
    case W_Active
    then show ?thesis using step worker_count [OF inv i, of W_Completed "tp_active s - 1" "tp_completed s" "[]"]
      by (auto simp: worker_step_def w_holds_def)
  next
    case W_Completed
    then show ?thesis using step worker_count [OF inv i, of W_Notify "tp_active s" "tp_completed s + 1" "[]"]
      by (auto simp: worker_step_def w_holds_def)
  next
    case W_Notify
    then show ?thesis using step worker_goto [OF wake_inv(2) [OF inv], of i "tp_mtx s" W_Lock] i
      by (auto simp: worker_step_def mtx_after_def w_holds_def wake_waiters_def)
  qed (use step in \<open>auto simp: worker_step_def\<close>)
qed

text \<open>A caller that moves without touching the queue or the workers.\<close>

lemma client_goto:
  assumes inv: "pool_inv s" and i: "i < length (tp_clients s)"
    and mtx: "mtx = mtx_after (Client i) (c_holds (tp_clients s ! i)) (c_holds pc) (tp_mtx s)"
    and free: "c_holds pc \<Longrightarrow> \<not> c_holds (tp_clients s ! i) \<Longrightarrow> tp_mtx s = None" and ok: "c_ok s pc"
  shows "pool_inv (client_at i pc (s\<lparr>tp_mtx := mtx\<rparr>))" (is "pool_inv ?s")
  unfolding pool_inv_def
proof (intro conjI)
  show "mutex_inv ?s" by (rule mutex_client [OF pool_invD(3) [OF inv] i]) (use mtx free in simp_all)
  show "local_inv ?s" unfolding local_inv_def
  proof (intro conjI allI impI)
    fix j assume "j < length (tp_workers ?s)"
    with pool_invD(1) [OF inv, of j] w_ok_cong [of ?s s] show "w_ok ?s (tp_workers ?s ! j)" by simp
  next
    fix j assume "j < length (tp_clients ?s)"
    with pool_invD(2) [OF inv, of j] ok c_ok_cong [of ?s s] show "c_ok ?s (tp_clients ?s ! j)" by (cases "j = i") auto
  qed
  show "count_inv ?s" using pool_invD(4) [OF inv] by (simp add: count_inv_def)
qed

lemma client_push:
  assumes inv: "pool_inv s" and i: "i < length (tp_clients s)" and at: "tp_clients s ! i = E_Push t"
  shows "pool_inv (client_at i E_Notify (s\<lparr>tp_tasks := tp_tasks s @ [t], tp_queued := tp_queued s + 1, tp_mtx := None,
         tp_accepted := tp_accepted s @ [t]\<rparr>))" (is "pool_inv ?s")
  unfolding pool_inv_def
proof (intro conjI)
  have none: "W_Returned \<notin> set (tp_workers s)" using pool_invD(2) [OF inv i] at by simp
  show "mutex_inv ?s" by (rule mutex_client [OF pool_invD(3) [OF inv] i, where pc = E_Notify]) (use at in \<open>simp_all add: mtx_after_def\<close>)
  show "local_inv ?s" unfolding local_inv_def
  proof (intro conjI allI impI)
    fix j assume "j < length (tp_workers ?s)"
    then have "w_ok s (tp_workers s ! j)" "tp_workers s ! j \<in> set (tp_workers s)" using pool_invD(1) [OF inv, of j] by simp_all
    moreover from this(2) none have "tp_workers s ! j \<noteq> W_Returned" by metis
    ultimately show "w_ok ?s (tp_workers ?s ! j)" by (cases "tp_workers s ! j") auto
  next
    fix j assume "j < length (tp_clients ?s)"
    with pool_invD(2) [OF inv, of j] c_ok_cong [of ?s s] show "c_ok ?s (tp_clients ?s ! j)" by (cases "j = i") auto
  qed
  show "count_inv ?s" using pool_invD(4) [OF inv] by (simp add: count_inv_def)
qed

lemma client_resize:
  assumes inv: "pool_inv s" and i: "i < length (tp_clients s)" and at: "tp_clients s ! i = Z_Lock n" and free: "tp_mtx s = None"
  shows "pool_inv (client_at i C_Idle (s\<lparr>tp_workers := tp_workers s @ replicate k W_Lock\<rparr>))" (is "pool_inv ?s")
  unfolding pool_inv_def
proof (intro conjI)
  note m = mutex_invD [OF pool_invD(3) [OF inv]]
  have running: "\<not> tp_stop s" using pool_invD(2) [OF inv i] at by simp
  have w: "\<not> w_holds (tp_workers ?s ! j)" if "j < length (tp_workers ?s)" for j
    using m(1) [of j] free that by (cases "j < length (tp_workers s)") (auto simp: nth_append w_holds_def)
  have c: "\<not> c_holds (tp_clients ?s ! j)" if "j < length (tp_clients ?s)" for j
    using m(2) [of j] free that by (cases "j = i") auto
  show "mutex_inv ?s" unfolding mutex_inv_def using w c free by auto
  have none: "W_Returned \<notin> set (tp_workers s)" using pool_invD(1) [OF inv] running by (fastforce simp: in_set_conv_nth)
  show "local_inv ?s" unfolding local_inv_def
  proof (intro conjI allI impI)
    fix j assume "j < length (tp_workers ?s)"
    with pool_invD(1) [OF inv, of j] w_ok_cong [of ?s s] show "w_ok ?s (tp_workers ?s ! j)"
      by (cases "j < length (tp_workers s)") (auto simp: nth_append)
  next
    fix j assume "j < length (tp_clients ?s)"
    with pool_invD(2) [OF inv, of j] none running show "c_ok ?s (tp_clients ?s ! j)"
      by (cases "j = i"; cases "tp_clients s ! j") auto
  qed
  show "count_inv ?s" using pool_invD(4) [OF inv] by (induction k) (simp_all add: count_inv_def)
qed

text \<open>Changes of the flags.\<close>

lemma pause_inv: "pool_inv s \<Longrightarrow> pool_inv (s\<lparr>tp_pause := b\<rparr>)"
  using w_ok_cong [of "s\<lparr>tp_pause := b\<rparr>" s] c_ok_cong [of "s\<lparr>tp_pause := b\<rparr>" s]
  by (simp add: pool_inv_def mutex_inv_def local_inv_def count_inv_def)

lemma stop_inv:
  assumes inv: "pool_inv s" and no: "list_all (\<lambda>c. case c of Z_Lock n \<Rightarrow> False | _ \<Rightarrow> True) (tp_clients s)"
  shows "pool_inv (s\<lparr>tp_stop := True\<rparr>)" (is "pool_inv ?s")
  unfolding pool_inv_def
proof (intro conjI)
  show "mutex_inv ?s" "count_inv ?s" using inv by (simp_all add: pool_inv_def mutex_inv_def count_inv_def)
  show "local_inv ?s" unfolding local_inv_def
  proof (intro conjI allI impI)
    fix j assume "j < length (tp_workers ?s)"
    with pool_invD(1) [OF inv, of j] show "w_ok ?s (tp_workers ?s ! j)" by (cases "tp_workers s ! j") auto
  next
    fix j assume "j < length (tp_clients ?s)"
    with pool_invD(2) [OF inv, of j] no show "c_ok ?s (tp_clients ?s ! j)"
      by (cases "tp_clients s ! j") (auto simp: list_all_length split: cpc.splits)
  qed
qed

lemma client_stay:
  assumes inv: "pool_inv s" and i: "i < length (tp_clients s)" and pc: "c_holds pc = c_holds (tp_clients s ! i)" "c_ok s pc"
  shows "pool_inv (client_at i pc s)"
proof -
  have "tp_mtx s = mtx_after (Client i) (c_holds (tp_clients s ! i)) (c_holds pc) (tp_mtx s)"
    using mutex_invD(2) [OF pool_invD(3) [OF inv], of i] i pc(1) by (simp add: mtx_after_def)
  from client_goto [OF inv i this] pc show ?thesis by simp
qed

lemma client_step_ok:
  assumes inv: "pool_inv s" and i: "i < length (tp_clients s)" and step: "client_step i s = Some s'"
  shows "pool_inv s'"
proof -
  note goto = client_goto [OF inv i] and stay = client_stay [OF inv i] and ok = pool_invD(2) [OF inv i]
  show ?thesis
  proof (cases "tp_clients s ! i")
    case (E_Lock t)
    then show ?thesis using step goto [of "Some (Client i)" "E_Stop t"] by (auto simp: client_step_defs mtx_after_def split: if_splits)
  next
    case (E_Stop t)
    have "W_Returned \<notin> set (tp_workers s)" if "\<not> tp_stop s" using pool_invD(1) [OF inv] that by (fastforce simp: in_set_conv_nth)
    then show ?thesis using E_Stop step goto [of None C_Idle] stay [of "E_Push t"]
      by (auto simp: client_step_defs mtx_after_def split: if_splits)
  next
    case (E_Push t)
    then show ?thesis using step client_push [OF inv i E_Push] by (simp add: client_step_defs)
  next
    case E_Notify
    then show ?thesis using step stay [of C_Idle] by (auto simp: client_step_defs split: if_splits)
  next
    case A_Lock
    then show ?thesis using step goto [of "Some (Client i)" A_Test] by (auto simp: client_step_defs mtx_after_def split: if_splits)
  next
    case A_Test
    then show ?thesis using step goto [of None C_Idle] stay [of A_Block] by (auto simp: client_step_defs mtx_after_def split: if_splits)
  next
    case A_Block
    then show ?thesis using step goto [of None A_Asleep] by (auto simp: client_step_defs mtx_after_def)
  next
    case R_Notify
    then show ?thesis using step client_stay [OF wake_inv(1) [OF inv], of i C_Idle] i by (auto simp: client_step_defs)
  next
    case (Z_Lock n)
    then show ?thesis using step stay [of C_Idle] client_resize [OF inv i Z_Lock] by (auto simp: client_step_defs pool_start_def split: if_splits)
  next
    case S_Notify
    then show ?thesis using step ok client_stay [OF wake_inv(1) [OF inv], of i "S_Join 0"] i by (auto simp: client_step_defs)
  next
    case (S_Join k)
    have "\<forall>pc \<in> set (tp_workers s). pc = W_Returned" if "\<not> k < length (tp_workers s)"
      using ok S_Join that by (auto simp: in_set_conv_nth)
    then show ?thesis using S_Join step ok stay [of "S_Join (Suc k)"] stay [of S_Done]
      by (auto simp: client_step_defs less_Suc_eq split: if_splits)
  qed (use step in \<open>auto simp: client_step_defs\<close>)
qed

lemma pool_step_ok:
  assumes inv: "pool_inv s" and step: "pool_step s r"
  shows "\<exists>s'. r = Inr s' \<and> pool_inv s'"
  using step
proof cases
  case (notify i j)
  have "pool_inv (worker_at j W_Lock s)"
    using worker_goto [OF inv notify(4), of "tp_mtx s" W_Lock] notify(5) by (simp add: mtx_after_def w_holds_def)
  from client_stay [OF this, of i C_Idle] notify show ?thesis by auto
next
  case (call i op)
  then show ?thesis
    using client_stay [OF inv call(2)] pause_inv [OF inv] client_stay [OF pause_inv [OF inv], of i] client_stay [OF stop_inv [OF inv], of i]
    by (cases op) (auto simp: call_pool_def call_allowed_def)
next
  case (wake_worker j)
  then show ?thesis using worker_goto [OF inv wake_worker(2), of "tp_mtx s" W_Lock] by (simp add: mtx_after_def w_holds_def)
next
  case (wake_client i)
  then show ?thesis using client_stay [OF inv wake_client(2), of A_Lock] by simp
qed (use worker_step_ok [OF inv] client_step_ok [OF inv] in auto)

lemma pool_start_inv: "pool_inv (ThreadPool_new n clients)"
  by (induction n) (auto simp: ThreadPool_new_def pool_start_def pool_inv_def mutex_inv_def local_inv_def count_inv_def w_holds_def nth_Cons' nth_replicate)

lemma pool_reach_inv: "pool_reach n clients s \<Longrightarrow> pool_inv s"
proof (induction rule: pool_reach.induct)
  case (step s s')
  then show ?case using pool_step_ok by blast
qed (rule pool_start_inv)

section \<open>What the pool promises\<close>

lemma sum_list_active: "sum_list (map w_active ws) = of_nat (length (filter (\<lambda>pc. w_active pc \<noteq> 0) ws))"
proof -
  have "w_active pc \<noteq> 0 \<Longrightarrow> w_active pc = 1" for pc by (cases pc) auto
  then show ?thesis by (induction ws) (simp_all add: add_ac)
qed

lemma sum_list_none: "(\<And>x. x \<in> set xs \<Longrightarrow> f x = (0 :: 'a :: comm_monoid_add)) \<Longrightarrow> sum_list (map f xs) = 0"
  by (induction xs) auto

text \<open>
  C3: however its threads interleave and wake, the thread pool takes the tasks in the order in which it
  accepted them and runs each at most once, never reads an empty queue, and keeps its counters equal to
  what they count.
\<close>

theorem thread_pool_safe:
  assumes "pool_reach n clients s"
  shows "(\<forall>r. pool_step s r \<longrightarrow> (\<exists>s'. r = Inr s')) \<and> tp_accepted s = tp_taken s @ tp_tasks s \<and> mset (tp_ran s) \<subseteq># mset (tp_taken s) \<and>
    tp_queued s = of_nat (length (tp_tasks s)) \<and>
    tp_active s = of_nat (length (filter (\<lambda>pc. w_active pc \<noteq> 0) (tp_workers s))) \<and>
    (list_all (\<lambda>pc. w_done pc = 0) (tp_workers s) \<longrightarrow> tp_completed s = of_nat (length (tp_ran s)))"
proof (intro conjI allI impI)
  have inv: "pool_inv s" by (rule pool_reach_inv [OF assms])
  show "\<exists>s'. r = Inr s'" if "pool_step s r" for r using pool_step_ok [OF inv that] by blast
  note c = pool_invD(4) [OF inv, unfolded count_inv_def]
  show "tp_accepted s = tp_taken s @ tp_tasks s" "mset (tp_ran s) \<subseteq># mset (tp_taken s)" "tp_queued s = of_nat (length (tp_tasks s))"
    using c by simp_all
  show "tp_active s = of_nat (length (filter (\<lambda>pc. w_active pc \<noteq> 0) (tp_workers s)))" using c sum_list_active by simp
  assume "list_all (\<lambda>pc. w_done pc = 0) (tp_workers s)"
  then have "sum_list (map w_done (tp_workers s)) = 0" by (intro sum_list_none) (simp add: list_all_iff)
  then show "tp_completed s = of_nat (length (tp_ran s))" using c by simp
qed

text \<open>
  C4: when \<open>wait_all\<close> returns, every task accepted so far has been run to its end.
\<close>

theorem wait_all_waits:
  assumes "pool_reach n clients s" and i: "i < length (tp_clients s)" "tp_clients s ! i = A_Test"
    and step: "client_step i s = Some s'" "tp_clients s' ! i = C_Idle" and few: "length (tp_workers s) < 2 ^ 64"
  shows "tp_tasks s = [] \<and> mset (tp_ran s) = mset (tp_accepted s)"
proof -
  have inv: "pool_inv s" by (rule pool_reach_inv [OF assms(1)])
  note c = pool_invD(4) [OF inv, unfolded count_inv_def]
  have t: "tp_tasks s = []" "tp_active s = 0" using step i by (auto simp: client_step_defs split: if_splits)
  have "length (filter (\<lambda>pc. w_active pc \<noteq> 0) (tp_workers s)) < 2 ^ 64"
    using few length_filter_le [of "\<lambda>pc. w_active pc \<noteq> 0" "tp_workers s"] by linarith
  then have "length (filter (\<lambda>pc. w_active pc \<noteq> 0) (tp_workers s)) = 0"
    using t(2) c sum_list_active [of "tp_workers s"] unat_of_nat_size [of "length (filter (\<lambda>pc. w_active pc \<noteq> 0) (tp_workers s))"] by simp
  then have "\<forall>pc \<in> set (tp_workers s). w_active pc = 0" by (simp add: filter_empty_conv)
  moreover have "w_active pc = 0 \<Longrightarrow> w_job pc = {#}" for pc by (cases pc) auto
  ultimately have "sum_list (map w_job (tp_workers s)) = {#}" by (intro sum_list_none) simp
  then show ?thesis using c t(1) by simp
qed

text \<open>
  C5: when the destructor of a pool with a worker has joined its threads, every task it ever accepted has
  been run.
\<close>

theorem destructor_drains:
  assumes "pool_reach n clients s" and "S_Done \<in> set (tp_clients s)" and "tp_workers s \<noteq> []"
  shows "tp_tasks s = [] \<and> mset (tp_ran s) = mset (tp_accepted s) \<and> (\<forall>pc \<in> set (tp_workers s). pc = W_Returned)"
proof -
  have inv: "pool_inv s" by (rule pool_reach_inv [OF assms(1)])
  note c = pool_invD(4) [OF inv, unfolded count_inv_def]
  have all: "\<forall>pc \<in> set (tp_workers s). pc = W_Returned" using assms(2) pool_invD(2) [OF inv] by (fastforce simp: in_set_conv_nth)
  then have "tp_workers s ! 0 = W_Returned" using assms(3) by simp
  then have "tp_tasks s = []" using pool_invD(1) [OF inv, of 0] assms(3) by simp
  moreover have "sum_list (map w_job (tp_workers s)) = {#}" using all by (intro sum_list_none) fastforce
  ultimately show ?thesis using all c by simp
qed

section \<open>Schedules\<close>

datatype move = Worker_Moves nat | Client_Moves nat | Client_Calls nat pool_call

fun pool_move :: "move \<Rightarrow> ThreadPool \<Rightarrow> ThreadPool option" where
  "pool_move (Worker_Moves i) s = (if i < length (tp_workers s) then
     (case worker_step i s of Some (Inr s') \<Rightarrow> Some s' | _ \<Rightarrow> None) else None)"
| "pool_move (Client_Moves i) s = (if i < length (tp_clients s) then client_step i s else None)"
| "pool_move (Client_Calls i op) s =
     (if i < length (tp_clients s) \<and> tp_clients s ! i = C_Idle \<and> call_allowed op s then Some (call_pool i op s) else None)"

fun pool_run :: "move list \<Rightarrow> ThreadPool \<Rightarrow> ThreadPool option" where
  "pool_run [] s = Some s"
| "pool_run (mv # mvs) s = (case pool_move mv s of None \<Rightarrow> None | Some s' \<Rightarrow> pool_run mvs s')"

lemma pool_move_step: "pool_move mv s = Some s' \<Longrightarrow> pool_step s (Inr s')"
  by (cases mv) (auto intro: pool_step.intros split: if_splits option.splits sum.splits)

lemma pool_run_reach: "pool_reach n clients s \<Longrightarrow> pool_run mvs s = Some s' \<Longrightarrow> pool_reach n clients s'"
  by (induction mvs s rule: pool_run.induct) (auto split: option.splits intro: pool_reach.step pool_move_step)

text \<open>A task run while one caller waits for it, up to the end of the pool.\<close>

definition rounds :: "nat \<Rightarrow> 'a list \<Rightarrow> 'a list" where
  "rounds k xs = concat (replicate k xs)"

definition drained_run :: "move list" where
  "drained_run = Client_Calls 0 (Enqueue 7) # rounds 4 [Client_Moves 0] @ rounds 9 [Worker_Moves 0] @
     Client_Calls 0 WaitAll # [Client_Moves 0]"

definition destroyed_run :: "move list" where
  "destroyed_run = drained_run @ Client_Moves 0 # Client_Calls 0 Destroy # Client_Moves 0 # rounds 4 [Worker_Moves 0] @ rounds 2 [Client_Moves 0]"

definition lost_stop :: "move list" where
  "lost_stop = rounds 3 [Worker_Moves 0] @ [Client_Calls 0 Destroy, Client_Moves 0, Worker_Moves 0]"

definition lost_done :: "move list" where
  "lost_done = Client_Calls 0 (Enqueue 7) # rounds 4 [Client_Moves 0] @ rounds 7 [Worker_Moves 0] @
     Client_Calls 0 WaitAll # rounds 2 [Client_Moves 0] @ rounds 3 [Worker_Moves 0] @ Client_Moves 0 # rounds 4 [Worker_Moves 0]"

lemmas run_simps = rounds_def numeral_eq_Suc ThreadPool_new_def pool_start_def worker_step_def client_step_defs call_allowed_def call_pool_def
  worker_at_def client_at_def wake_workers_def wake_waiters_def

lemma drained_run_ends:
  "pool_run drained_run (ThreadPool_new 1 1) = Some \<lparr>tp_mtx = Some (Client 0), tp_tasks = [], tp_stop = False, tp_pause = False,
     tp_active = 0, tp_queued = 0, tp_completed = 1, tp_workers = [W_Notify], tp_clients = [A_Test], tp_accepted = [7], tp_taken = [7], tp_ran = [7]\<rparr>"
  by (simp add: drained_run_def run_simps)

lemma destroyed_run_ends:
  "pool_run destroyed_run (ThreadPool_new 1 1) = Some \<lparr>tp_mtx = None, tp_tasks = [], tp_stop = True, tp_pause = False,
     tp_active = 0, tp_queued = 0, tp_completed = 1, tp_workers = [W_Returned], tp_clients = [S_Done], tp_accepted = [7], tp_taken = [7], tp_ran = [7]\<rparr>"
  by (simp add: destroyed_run_def drained_run_def run_simps)

lemma thread_pool_safe_witness:
  "\<exists>s. pool_reach 1 1 s \<and> tp_ran s = [7] \<and> tp_accepted s = tp_taken s @ tp_tasks s \<and> tp_active s = 0"
proof -
  note reach = pool_run_reach [OF pool_reach.start drained_run_ends]
  from thread_pool_safe [OF reach] reach show ?thesis by (intro exI) auto
qed

lemma wait_all_waits_witness:
  "\<exists>s s'. pool_reach 1 1 s \<and> client_step 0 s = Some s' \<and> tp_clients s' ! 0 = C_Idle \<and> mset (tp_ran s) = mset [7]"
proof -
  note reach = pool_run_reach [OF pool_reach.start drained_run_ends]
  from wait_all_waits [OF reach, of 0] reach show ?thesis by (intro exI) (auto simp: client_step_defs)
qed

lemma destructor_drains_witness: "\<exists>s. pool_reach 1 1 s \<and> S_Done \<in> set (tp_clients s) \<and> mset (tp_ran s) = mset [7]"
proof -
  note reach = pool_run_reach [OF pool_reach.start destroyed_run_ends]
  from destructor_drains [OF reach] reach show ?thesis by (intro exI) auto
qed

text \<open>
  Wake-ups get lost, because the flags and counters that the waiting threads test are changed without
  the mutex. A worker that has found nothing to do but does not sleep yet misses the notification of the
  destructor, which then waits for it; a caller of \<open>wait_all\<close> misses the end of the last task. In both
  states nothing moves any more unless a sleeping thread wakes for no reason.
\<close>

theorem lost_wakeups:
  "(\<exists>s. pool_reach 1 1 s \<and> tp_stop s \<and> tp_clients s = [S_Join 0] \<and> Collect (pool_step s) = {Inr (worker_at 0 W_Lock s)}) \<and>
   (\<exists>s. pool_reach 1 1 s \<and> tp_tasks s = [] \<and> tp_active s = 0 \<and> tp_ran s = [7] \<and> tp_clients s = [A_Asleep] \<and>
     Collect (pool_step s) = {Inr (worker_at 0 W_Lock s), Inr (client_at 0 A_Lock s)})"
proof
  let ?s = "\<lparr>tp_mtx = None, tp_tasks = [], tp_stop = True, tp_pause = False, tp_active = 0, tp_queued = 0, tp_completed = 0,
    tp_workers = [W_Asleep], tp_clients = [S_Join 0], tp_accepted = [], tp_taken = [], tp_ran = []\<rparr>"
  have "pool_run lost_stop (ThreadPool_new 1 1) = Some ?s" by (simp add: lost_stop_def run_simps)
  then have reach: "pool_reach 1 1 ?s" by (rule pool_run_reach [OF pool_reach.start])
  have "r = Inr (worker_at 0 W_Lock ?s)" if "pool_step ?s r" for r
    using that by cases (auto simp: worker_step_def client_step_defs)
  moreover have "pool_step ?s (Inr (worker_at 0 W_Lock ?s))" by (rule pool_step.wake_worker) simp_all
  ultimately have "Collect (pool_step ?s) = {Inr (worker_at 0 W_Lock ?s)}" by blast
  with reach show "\<exists>s. pool_reach 1 1 s \<and> tp_stop s \<and> tp_clients s = [S_Join 0] \<and> Collect (pool_step s) = {Inr (worker_at 0 W_Lock s)}"
    by (intro exI [of _ ?s]) simp
next
  let ?s = "\<lparr>tp_mtx = None, tp_tasks = [], tp_stop = False, tp_pause = False, tp_active = 0, tp_queued = 0, tp_completed = 1,
    tp_workers = [W_Asleep], tp_clients = [A_Asleep], tp_accepted = [7], tp_taken = [7], tp_ran = [7]\<rparr>"
  have "pool_run lost_done (ThreadPool_new 1 1) = Some ?s" by (simp add: lost_done_def run_simps)
  then have reach: "pool_reach 1 1 ?s" by (rule pool_run_reach [OF pool_reach.start])
  have "r = Inr (worker_at 0 W_Lock ?s) \<or> r = Inr (client_at 0 A_Lock ?s)" if "pool_step ?s r" for r
    using that by cases (auto simp: worker_step_def client_step_defs)
  moreover have "pool_step ?s (Inr (worker_at 0 W_Lock ?s))" by (rule pool_step.wake_worker) simp_all
  moreover have "pool_step ?s (Inr (client_at 0 A_Lock ?s))" by (rule pool_step.wake_client) simp_all
  ultimately have "Collect (pool_step ?s) = {Inr (worker_at 0 W_Lock ?s), Inr (client_at 0 A_Lock ?s)}" by blast
  with reach show "\<exists>s. pool_reach 1 1 s \<and> tp_tasks s = [] \<and> tp_active s = 0 \<and> tp_ran s = [7] \<and> tp_clients s = [A_Asleep] \<and>
     Collect (pool_step s) = {Inr (worker_at 0 W_Lock s), Inr (client_at 0 A_Lock s)}"
    by (intro exI [of _ ?s]) simp
qed

end
