(* ===== verification/Legacy_Threads.thy ===== *)
theory Legacy_Threads
  imports Thread_Pool
begin

text \<open>
  \<open>bridges::LegacyThreadPool\<close> of \<open>bridges/thread_pool_bridge.cpp\<close>, with the same threads and steps as
  \<open>Thread_Pool\<close>. Its workers count a task only after they have given up the mutex, wake when the pool is
  paused, and run what they find; \<open>Enqueue\<close> accepts tasks of a pool that was shut down.
\<close>

section \<open>Threads\<close>

datatype lpc =
    L_Lock
  | L_Stop
  | L_Ready
  | L_Block
  | L_Asleep
  | L_Take
  | L_Took "job option"
  | L_Queued job
  | L_Run job
  | L_Ran
  | L_Active
  | L_Notify
  | L_Returned

datatype lcc =
    K_Idle
  | K_Enqueue job
  | K_Notify
  | K_Wait
  | K_Test
  | K_Block
  | K_Asleep
  | K_Resume
  | K_Stop
  | K_Join nat

record LegacyThreadPool =
  lt_mtx :: "thread option"
  lt_tasks :: "job list"
  lt_stop :: bool
  lt_pause :: bool
  lt_active :: size_t
  lt_queued :: size_t
  lt_completed :: size_t
  lt_workers :: "lpc list"
  lt_clients :: "lcc list"
  lt_accepted :: "job list"
  lt_taken :: "job list"
  lt_ran :: "job list"

definition legacy_Start :: "nat \<Rightarrow> LegacyThreadPool \<Rightarrow> LegacyThreadPool" where
  "legacy_Start n s = s\<lparr>lt_workers := lt_workers s @ replicate n L_Lock\<rparr>"

definition legacy_pool_init :: "nat \<Rightarrow> LegacyThreadPool" where
  "legacy_pool_init clients =
     \<lparr>lt_mtx = None, lt_tasks = [], lt_stop = False, lt_pause = False, lt_active = 0, lt_queued = 0, lt_completed = 0,
      lt_workers = [], lt_clients = replicate clients K_Idle, lt_accepted = [], lt_taken = [], lt_ran = []\<rparr>"

definition LegacyThreadPool_new :: "nat \<Rightarrow> nat \<Rightarrow> nat \<Rightarrow> LegacyThreadPool" where
  "LegacyThreadPool_new hardware_concurrency num_threads clients =
     legacy_Start (if 0 < num_threads then num_threads else hardware_concurrency) (legacy_pool_init clients)"

definition LegacyThreadPool_config :: "PoolConfig \<Rightarrow> nat \<Rightarrow> LegacyThreadPool" where
  "LegacyThreadPool_config cfg clients = legacy_Start (min_threads cfg) (legacy_pool_init clients)"

definition CreateThreadPool :: "nat \<Rightarrow> nat \<Rightarrow> nat \<Rightarrow> LegacyThreadPool" where
  "CreateThreadPool hardware_concurrency num_threads clients = LegacyThreadPool_new hardware_concurrency num_threads clients"

definition CreateThreadPool_config :: "PoolConfig \<Rightarrow> nat \<Rightarrow> LegacyThreadPool" where
  "CreateThreadPool_config config clients = LegacyThreadPool_config config clients"

definition lworker_at :: "nat \<Rightarrow> lpc \<Rightarrow> LegacyThreadPool \<Rightarrow> LegacyThreadPool" where
  "lworker_at i pc s = s\<lparr>lt_workers := (lt_workers s)[i := pc]\<rparr>"

definition lclient_at :: "nat \<Rightarrow> lcc \<Rightarrow> LegacyThreadPool \<Rightarrow> LegacyThreadPool" where
  "lclient_at i pc s = s\<lparr>lt_clients := (lt_clients s)[i := pc]\<rparr>"

definition wake_legacy_workers :: "LegacyThreadPool \<Rightarrow> LegacyThreadPool" where
  "wake_legacy_workers s = s\<lparr>lt_workers := map (\<lambda>pc. if pc = L_Asleep then L_Lock else pc) (lt_workers s)\<rparr>"

definition wake_legacy_waiters :: "LegacyThreadPool \<Rightarrow> LegacyThreadPool" where
  "wake_legacy_waiters s = s\<lparr>lt_clients := map (\<lambda>pc. if pc = K_Asleep then K_Wait else pc) (lt_clients s)\<rparr>"

section \<open>Steps\<close>

text \<open>
  \<open>WorkerLoop\<close>. A section under the mutex that reads nothing another thread may change meanwhile is
  one step.
\<close>

definition lworker_step :: "nat \<Rightarrow> LegacyThreadPool \<Rightarrow> LegacyThreadPool option" where
  "lworker_step i s = (case lt_workers s ! i of
       L_Lock \<Rightarrow> if lt_mtx s = None then Some (lworker_at i L_Stop (s\<lparr>lt_mtx := Some (Worker i)\<rparr>)) else None
     | L_Stop \<Rightarrow> Some (lworker_at i (if lt_stop s \<or> lt_tasks s \<noteq> [] then L_Take else L_Ready) s)
     | L_Ready \<Rightarrow> Some (lworker_at i (if lt_pause s then L_Take else L_Block) s)
     | L_Block \<Rightarrow> Some (lworker_at i L_Asleep (s\<lparr>lt_mtx := None\<rparr>))
     | L_Asleep \<Rightarrow> None
     | L_Take \<Rightarrow> Some (if lt_stop s \<and> lt_tasks s = [] then lworker_at i L_Returned (s\<lparr>lt_mtx := None\<rparr>)
         else (case lt_tasks s of [] \<Rightarrow> lworker_at i (L_Took None) (s\<lparr>lt_mtx := None\<rparr>)
           | t # ts \<Rightarrow> lworker_at i (L_Took (Some t)) (s\<lparr>lt_tasks := ts, lt_mtx := None, lt_taken := lt_taken s @ [t]\<rparr>)))
     | L_Took task \<Rightarrow> Some (case task of None \<Rightarrow> lworker_at i L_Lock s
         | Some t \<Rightarrow> lworker_at i (L_Queued t) (s\<lparr>lt_active := lt_active s + 1\<rparr>))
     | L_Queued t \<Rightarrow> Some (lworker_at i (L_Run t) (s\<lparr>lt_queued := lt_queued s - 1\<rparr>))
     | L_Run t \<Rightarrow> Some (lworker_at i L_Ran (s\<lparr>lt_ran := lt_ran s @ [t]\<rparr>))
     | L_Ran \<Rightarrow> Some (lworker_at i L_Active (s\<lparr>lt_completed := lt_completed s + 1\<rparr>))
     | L_Active \<Rightarrow> Some (lworker_at i L_Notify (s\<lparr>lt_active := lt_active s - 1\<rparr>))
     | L_Notify \<Rightarrow> Some (lworker_at i L_Lock (wake_legacy_waiters s))
     | L_Returned \<Rightarrow> None)"

datatype legacy_call = L_Enqueue job | L_WaitAll | L_Pause | L_Resume | L_Resize nat | L_Shutdown

definition legacy_Pause :: "LegacyThreadPool \<Rightarrow> LegacyThreadPool" where
  "legacy_Pause s = s\<lparr>lt_pause := True\<rparr>"

definition legacy_Resume :: "nat \<Rightarrow> LegacyThreadPool \<Rightarrow> LegacyThreadPool" where
  "legacy_Resume i s = (if lt_clients s ! i = K_Resume then lclient_at i K_Idle (wake_legacy_workers s)
     else lclient_at i K_Resume (s\<lparr>lt_pause := False\<rparr>))"

definition legacy_Resize :: "nat \<Rightarrow> LegacyThreadPool \<Rightarrow> LegacyThreadPool" where
  "legacy_Resize n s = legacy_Start n s"

definition legacy_Enqueue :: "nat \<Rightarrow> LegacyThreadPool \<Rightarrow> LegacyThreadPool option" where
  "legacy_Enqueue i s = (case lt_clients s ! i of
       K_Enqueue t \<Rightarrow> if lt_mtx s = None then Some (lclient_at i K_Notify
         (s\<lparr>lt_tasks := lt_tasks s @ [t], lt_queued := lt_queued s + 1, lt_accepted := lt_accepted s @ [t]\<rparr>)) else None
     | K_Notify \<Rightarrow> if L_Asleep \<in> set (lt_workers s) then None else Some (lclient_at i K_Idle s)
     | _ \<Rightarrow> None)"

definition legacy_WaitAll :: "nat \<Rightarrow> LegacyThreadPool \<Rightarrow> LegacyThreadPool option" where
  "legacy_WaitAll i s = (case lt_clients s ! i of
       K_Wait \<Rightarrow> if lt_mtx s = None then Some (lclient_at i K_Test (s\<lparr>lt_mtx := Some (Client i)\<rparr>)) else None
     | K_Test \<Rightarrow> Some (if lt_tasks s = [] \<and> lt_active s = 0 then lclient_at i K_Idle (s\<lparr>lt_mtx := None\<rparr>) else lclient_at i K_Block s)
     | K_Block \<Rightarrow> Some (lclient_at i K_Asleep (s\<lparr>lt_mtx := None\<rparr>))
     | _ \<Rightarrow> None)"

definition legacy_Shutdown :: "nat \<Rightarrow> LegacyThreadPool \<Rightarrow> LegacyThreadPool option" where
  "legacy_Shutdown i s = (case lt_clients s ! i of
       K_Stop \<Rightarrow> Some (lclient_at i (K_Join 0) (wake_legacy_workers s))
     | K_Join k \<Rightarrow> if k < length (lt_workers s)
         then (if lt_workers s ! k = L_Returned then Some (lclient_at i (K_Join (Suc k)) s) else None)
         else Some (lclient_at i K_Idle (s\<lparr>lt_workers := []\<rparr>))
     | _ \<Rightarrow> Some (lclient_at i K_Stop (s\<lparr>lt_stop := True\<rparr>)))"

definition lclient_call :: "nat \<Rightarrow> legacy_call \<Rightarrow> LegacyThreadPool \<Rightarrow> LegacyThreadPool option" where
  "lclient_call i op s = (case op of
       L_Enqueue t \<Rightarrow> Some (lclient_at i (K_Enqueue t) s)
     | L_WaitAll \<Rightarrow> Some (lclient_at i K_Wait s)
     | L_Pause \<Rightarrow> Some (legacy_Pause s)
     | L_Resume \<Rightarrow> Some (legacy_Resume i s)
     | L_Resize n \<Rightarrow> if lt_stop s then None else Some (legacy_Resize n s)
     | L_Shutdown \<Rightarrow> legacy_Shutdown i s)"

definition lclient_step :: "nat \<Rightarrow> LegacyThreadPool \<Rightarrow> LegacyThreadPool option" where
  "lclient_step i s = (case lt_clients s ! i of
       K_Idle \<Rightarrow> None
     | K_Enqueue t \<Rightarrow> legacy_Enqueue i s
     | K_Notify \<Rightarrow> legacy_Enqueue i s
     | K_Wait \<Rightarrow> legacy_WaitAll i s
     | K_Test \<Rightarrow> legacy_WaitAll i s
     | K_Block \<Rightarrow> legacy_WaitAll i s
     | K_Asleep \<Rightarrow> None
     | K_Resume \<Rightarrow> Some (legacy_Resume i s)
     | _ \<Rightarrow> legacy_Shutdown i s)"

datatype lmove = L_Moves nat | K_Moves nat | K_Calls nat legacy_call | L_Wakes nat | K_Wakes nat | K_Notifies nat nat

text \<open>
  All moves; \<open>L_Wakes\<close> and \<open>K_Wakes\<close> are threads that wake for no reason, \<open>K_Notifies\<close> is the
  \<open>notify_one\<close> of \<open>Enqueue\<close>.
\<close>

fun legacy_move :: "lmove \<Rightarrow> LegacyThreadPool \<Rightarrow> LegacyThreadPool option" where
  "legacy_move (L_Moves i) s = (if i < length (lt_workers s) then lworker_step i s else None)"
| "legacy_move (K_Moves i) s = (if i < length (lt_clients s) then lclient_step i s else None)"
| "legacy_move (K_Calls i op) s = (if i < length (lt_clients s) \<and> lt_clients s ! i = K_Idle then lclient_call i op s else None)"
| "legacy_move (L_Wakes j) s = (if j < length (lt_workers s) \<and> lt_workers s ! j = L_Asleep then Some (lworker_at j L_Lock s) else None)"
| "legacy_move (K_Wakes i) s = (if i < length (lt_clients s) \<and> lt_clients s ! i = K_Asleep then Some (lclient_at i K_Wait s) else None)"
| "legacy_move (K_Notifies i j) s = (if i < length (lt_clients s) \<and> lt_clients s ! i = K_Notify \<and>
     j < length (lt_workers s) \<and> lt_workers s ! j = L_Asleep then Some (lclient_at i K_Idle (lworker_at j L_Lock s)) else None)"

fun legacy_run :: "lmove list \<Rightarrow> LegacyThreadPool \<Rightarrow> LegacyThreadPool option" where
  "legacy_run [] s = Some s"
| "legacy_run (mv # mvs) s = (case legacy_move mv s of None \<Rightarrow> None | Some s' \<Rightarrow> legacy_run mvs s')"

inductive legacy_reach :: "LegacyThreadPool \<Rightarrow> LegacyThreadPool \<Rightarrow> bool" for s0 where
  start: "legacy_reach s0 s0"
| move: "legacy_reach s0 s \<Longrightarrow> legacy_move mv s = Some s' \<Longrightarrow> legacy_reach s0 s'"

lemma legacy_run_reach: "legacy_reach s0 s \<Longrightarrow> legacy_run mvs s = Some s' \<Longrightarrow> legacy_reach s0 s'"
  by (induction mvs s rule: legacy_run.induct) (auto split: option.splits intro: legacy_reach.move)

section \<open>Conservation\<close>

fun l_job :: "lpc \<Rightarrow> job multiset" where
  "l_job (L_Took (Some t)) = {#t#}"
| "l_job (L_Queued t) = {#t#}"
| "l_job (L_Run t) = {#t#}"
| "l_job _ = {#}"

fun l_queued :: "lpc \<Rightarrow> size_t" where
  "l_queued (L_Took (Some t)) = 1"
| "l_queued (L_Queued t) = 1"
| "l_queued _ = 0"

fun l_active :: "lpc \<Rightarrow> size_t" where
  "l_active (L_Queued t) = 1"
| "l_active (L_Run t) = 1"
| "l_active L_Ran = 1"
| "l_active L_Active = 1"
| "l_active _ = 0"

definition legacy_counts :: "LegacyThreadPool \<Rightarrow> bool" where
  "legacy_counts s \<longleftrightarrow> lt_queued s = of_nat (length (lt_tasks s)) + sum_list (map l_queued (lt_workers s)) \<and>
     lt_active s = sum_list (map l_active (lt_workers s)) \<and> lt_accepted s = lt_taken s @ lt_tasks s \<and>
     mset (lt_taken s) = mset (lt_ran s) + sum_list (map l_job (lt_workers s))"

definition legacy_joins :: "LegacyThreadPool \<Rightarrow> bool" where
  "legacy_joins s \<longleftrightarrow> (\<forall>i < length (lt_clients s). \<forall>k. lt_clients s ! i = K_Join k \<longrightarrow>
     lt_stop s \<and> (\<forall>j < length (lt_workers s). j < k \<longrightarrow> lt_workers s ! j = L_Returned)) \<and>
   (\<forall>i < length (lt_clients s). lt_clients s ! i = K_Stop \<longrightarrow> lt_stop s)"

lemma lat_simps [simp]:
  "lt_workers (lworker_at i pc s) = (lt_workers s)[i := pc]" "lt_clients (lworker_at i pc s) = lt_clients s"
  "lt_tasks (lworker_at i pc s) = lt_tasks s" "lt_stop (lworker_at i pc s) = lt_stop s" "lt_active (lworker_at i pc s) = lt_active s"
  "lt_queued (lworker_at i pc s) = lt_queued s" "lt_accepted (lworker_at i pc s) = lt_accepted s"
  "lt_taken (lworker_at i pc s) = lt_taken s" "lt_ran (lworker_at i pc s) = lt_ran s"
  "lt_workers (lclient_at i c s) = lt_workers s" "lt_clients (lclient_at i c s) = (lt_clients s)[i := c]"
  "lt_tasks (lclient_at i c s) = lt_tasks s" "lt_stop (lclient_at i c s) = lt_stop s" "lt_active (lclient_at i c s) = lt_active s"
  "lt_queued (lclient_at i c s) = lt_queued s" "lt_accepted (lclient_at i c s) = lt_accepted s"
  "lt_taken (lclient_at i c s) = lt_taken s" "lt_ran (lclient_at i c s) = lt_ran s"
  by (simp_all add: lworker_at_def lclient_at_def)

lemma legacy_wake_sums [simp]:
  "f L_Asleep = f L_Lock \<Longrightarrow> sum_list (map (f \<circ> (\<lambda>pc. if pc = L_Asleep then L_Lock else pc)) ws) = sum_list (map f ws)"
  by (induction ws) auto

lemma lworker_counts:
  assumes inv: "legacy_counts s" and i: "i < length (lt_workers s)" and step: "lworker_step i s = Some s'"
  shows "legacy_counts s'"
proof -
  note upd = sum_list_map_update_group [OF i, of l_queued] sum_list_map_update_group [OF i, of l_active]
  have job: "sum_list (map l_job ((lt_workers s)[i := pc])) + l_job (lt_workers s ! i) = sum_list (map l_job (lt_workers s)) + l_job pc" for pc
    by (rule sum_list_map_update [OF i])
  show ?thesis
  proof (cases "lt_workers s ! i")
    case L_Take
    then show ?thesis using step inv job upd
      by (auto simp: lworker_step_def legacy_counts_def split: if_splits list.splits)
  next
    case (L_Took task)
    then show ?thesis using step inv job [of L_Lock] job [of "L_Queued (the task)"] upd
      by (cases task) (auto simp: lworker_step_def legacy_counts_def)
  next
    case (L_Queued t)
    then show ?thesis using step inv job [of "L_Run t"] upd by (auto simp: lworker_step_def legacy_counts_def)
  next
    case (L_Run t)
    then show ?thesis using step inv job [of L_Ran] upd by (auto simp: lworker_step_def legacy_counts_def)
  qed (use step inv job upd in \<open>auto simp: lworker_step_def legacy_counts_def wake_legacy_waiters_def split: if_splits\<close>)
qed

lemma joined_jobs:
  assumes "legacy_joins s" and "i < length (lt_clients s)" and "lt_clients s ! i = K_Join k" and "\<not> k < length (lt_workers s)"
    and "f L_Returned = (0 :: 'a :: comm_monoid_add)"
  shows "sum_list (map f (lt_workers s)) = 0"
proof (rule sum_list_none)
  fix pc assume "pc \<in> set (lt_workers s)"
  then obtain j where "j < length (lt_workers s)" "pc = lt_workers s ! j" by (auto simp: in_set_conv_nth)
  with assms show "f pc = 0" by (auto simp: legacy_joins_def)
qed

lemma lclient_counts:
  assumes inv: "legacy_counts s" and joins: "legacy_joins s" and i: "i < length (lt_clients s)"
    and step: "lclient_step i s = Some s' \<or> lt_clients s ! i = K_Idle \<and> lclient_call i op s = Some s'"
  shows "legacy_counts s'"
proof -
  have none: "sum_list (map l_job (lt_workers s)) = {#}" "sum_list (map l_active (lt_workers s)) = 0" "sum_list (map l_queued (lt_workers s)) = 0"
    if "lt_clients s ! i = K_Join k" "\<not> k < length (lt_workers s)" for k
    by (rule joined_jobs [OF joins i that]; simp)+
  have app: "sum_list (map f (lt_workers s @ replicate k L_Lock)) = sum_list (map f (lt_workers s))"
    if "f L_Lock = (0 :: 'a :: comm_monoid_add)" for f k using that by (induction k) auto
  note defs = lclient_step_def lclient_call_def legacy_counts_def legacy_Enqueue_def legacy_WaitAll_def legacy_Shutdown_def
    legacy_Pause_def legacy_Resume_def legacy_Resize_def legacy_Start_def wake_legacy_workers_def
  show ?thesis
  proof (cases "lclient_step i s = Some s'")
    case True
    then show ?thesis using inv none by (cases "lt_clients s ! i") (auto simp: defs split: if_splits)
  next
    case False
    then show ?thesis using step inv app [of l_job] app [of l_active] app [of l_queued] by (cases op) (auto simp: defs split: if_splits)
  qed
qed

lemma joins_worker:
  assumes "legacy_joins s" and "i < length (lt_workers s)" and "lt_workers s ! i \<noteq> L_Returned"
    and "lt_workers s' = (lt_workers s)[i := pc]" and "lt_stop s' = lt_stop s"
    and "\<And>j c. j < length (lt_clients s') \<Longrightarrow> lt_clients s' ! j = c \<Longrightarrow> (\<exists>k. c = K_Join k) \<or> c = K_Stop \<Longrightarrow> j < length (lt_clients s) \<and> lt_clients s ! j = c"
  shows "legacy_joins s'"
  using assms unfolding legacy_joins_def by (metis length_list_update nth_list_update_neq)

lemma lworker_joins:
  assumes joins: "legacy_joins s" and i: "i < length (lt_workers s)" and step: "lworker_step i s = Some s'"
  shows "legacy_joins s'"
proof -
  have ret: "lt_workers s ! i \<noteq> L_Returned" using step by (auto simp: lworker_step_def)
  obtain pc where "lt_workers s' = (lt_workers s)[i := pc]" "lt_stop s' = lt_stop s"
    "length (lt_clients s') = length (lt_clients s)" "\<forall>j < length (lt_clients s). lt_clients s' ! j = lt_clients s ! j \<or> lt_clients s' ! j = K_Wait"
    using step by (cases "lt_workers s ! i") (auto simp: lworker_step_def wake_legacy_waiters_def split: if_splits list.splits option.splits)
  then show ?thesis by (intro joins_worker [OF joins i ret]) auto
qed

lemma lclient_joins:
  assumes joins: "legacy_joins s" and i: "i < length (lt_clients s)"
    and step: "lclient_step i s = Some s' \<or> lt_clients s ! i = K_Idle \<and> lclient_call i op s = Some s'"
  shows "legacy_joins s'"
proof -
  note defs = lclient_step_def lclient_call_def legacy_Enqueue_def legacy_WaitAll_def legacy_Shutdown_def
    legacy_Pause_def legacy_Resume_def legacy_Resize_def legacy_Start_def wake_legacy_workers_def
  show ?thesis
  proof (cases "lclient_step i s = Some s'")
    case True
    then show ?thesis using joins i
      by (cases "lt_clients s ! i") (auto simp: defs legacy_joins_def nth_list_update less_Suc_eq split: if_splits)
  next
    case False
    then show ?thesis using step joins i by (cases op) (auto simp: defs legacy_joins_def nth_list_update split: if_splits)
  qed
qed

lemma legacy_move_inv:
  assumes "legacy_counts s \<and> legacy_joins s" and "legacy_move mv s = Some s'"
  shows "legacy_counts s' \<and> legacy_joins s'"
proof -
  have wake: "legacy_counts (lworker_at j L_Lock s) \<and> legacy_joins (lworker_at j L_Lock s)"
    if "j < length (lt_workers s)" "lt_workers s ! j = L_Asleep" for j
    using assms(1) that sum_list_map_update [OF that(1), of l_job L_Lock] joins_worker [of s j "lworker_at j L_Lock s" L_Lock]
    by (simp add: legacy_counts_def sum_list_map_update_group)
  have client: "legacy_counts (lclient_at i c s) \<and> legacy_joins (lclient_at i c s)"
    if "legacy_counts s \<and> legacy_joins s" "i < length (lt_clients s)" "c = K_Idle \<or> c = K_Wait" for i c s
    using that by (auto simp: legacy_counts_def legacy_joins_def nth_list_update)
  show ?thesis
  proof (cases mv)
    case (L_Moves i)
    then show ?thesis using assms lworker_counts lworker_joins by (auto split: if_splits)
  next
    case (K_Moves i)
    then show ?thesis using assms lclient_counts lclient_joins by (auto split: if_splits)
  next
    case (K_Calls i op)
    then show ?thesis using assms lclient_counts [of s i s' op] lclient_joins [of s i s' op] by (auto split: if_splits)
  next
    case (L_Wakes j)
    then show ?thesis using assms wake by (auto split: if_splits)
  next
    case (K_Wakes i)
    then show ?thesis using assms client [of s i K_Wait] by (auto split: if_splits)
  next
    case (K_Notifies i j)
    then show ?thesis using assms wake client [of "lworker_at j L_Lock s" i K_Idle] by (auto split: if_splits)
  qed
qed

lemma legacy_reach_inv:
  "legacy_reach (LegacyThreadPool_new hw n clients) s \<Longrightarrow> legacy_counts s \<and> legacy_joins s"
proof (induction rule: legacy_reach.induct)
  case start
  show ?case by (simp add: LegacyThreadPool_new_def legacy_Start_def legacy_pool_init_def legacy_counts_def legacy_joins_def)
next
  case (move s mv s')
  then show ?case using legacy_move_inv by blast
qed

text \<open>
  The legacy pool takes its tasks in the order in which it accepted them and runs each at most once,
  and its counter of queued tasks counts those in the queue and those a worker has taken but not counted
  yet.
\<close>

theorem legacy_pool_conserves:
  assumes "legacy_reach (LegacyThreadPool_new hw n clients) s"
  shows "lt_accepted s = lt_taken s @ lt_tasks s \<and> mset (lt_ran s) \<subseteq># mset (lt_taken s) \<and>
    lt_queued s = of_nat (length (lt_tasks s)) + sum_list (map l_queued (lt_workers s))"
  using legacy_reach_inv [OF assms] by (simp add: legacy_counts_def)

definition early_wait :: "lmove list" where
  "early_wait = K_Calls 0 (L_Enqueue 7) # rounds 2 [K_Moves 0] @ rounds 3 [L_Moves 0] @ K_Calls 0 L_WaitAll # [K_Moves 0]"

lemma legacy_pool_conserves_witness:
  "\<exists>s. legacy_reach (LegacyThreadPool_new 0 1 1) s \<and> lt_taken s = [7] \<and> lt_accepted s = [7]"
proof -
  have "legacy_run early_wait (LegacyThreadPool_new 0 1 1) = Some
    \<lparr>lt_mtx = Some (Client 0), lt_tasks = [], lt_stop = False, lt_pause = False, lt_active = 0, lt_queued = 1, lt_completed = 0,
     lt_workers = [L_Took (Some 7)], lt_clients = [K_Test], lt_accepted = [7], lt_taken = [7], lt_ran = []\<rparr>"
    by (simp add: early_wait_def rounds_def numeral_eq_Suc LegacyThreadPool_new_def legacy_Start_def legacy_pool_init_def lworker_step_def
      lclient_step_def lclient_call_def legacy_Enqueue_def legacy_WaitAll_def lworker_at_def lclient_at_def)
  from legacy_pool_conserves [OF legacy_run_reach [OF legacy_reach.start this]] legacy_run_reach [OF legacy_reach.start this]
  show ?thesis by (intro exI) auto
qed

text \<open>
  \<open>WaitAll\<close> can return before an accepted task has run: a worker takes the task out of the queue and
  gives up the mutex before it counts itself as active.
\<close>

theorem legacy_wait_returns_early:
  "\<exists>s s'. legacy_reach (LegacyThreadPool_new 0 1 1) s \<and> lt_clients s ! 0 = K_Test \<and> legacy_WaitAll 0 s = Some s' \<and>
    lt_clients s' ! 0 = K_Idle \<and> lt_accepted s' = [7] \<and> lt_ran s' = []"
proof -
  let ?s = "\<lparr>lt_mtx = Some (Client 0), lt_tasks = [], lt_stop = False, lt_pause = False, lt_active = 0, lt_queued = 1, lt_completed = 0,
     lt_workers = [L_Took (Some 7)], lt_clients = [K_Test], lt_accepted = [7], lt_taken = [7], lt_ran = []\<rparr>"
  have "legacy_run early_wait (LegacyThreadPool_new 0 1 1) = Some ?s"
    by (simp add: early_wait_def rounds_def numeral_eq_Suc LegacyThreadPool_new_def legacy_Start_def legacy_pool_init_def lworker_step_def
      lclient_step_def lclient_call_def legacy_Enqueue_def legacy_WaitAll_def lworker_at_def lclient_at_def)
  from legacy_run_reach [OF legacy_reach.start this] show ?thesis
    by (intro exI [of _ ?s] exI [of _ "lclient_at 0 K_Idle (?s\<lparr>lt_mtx := None\<rparr>)"]) (simp add: legacy_WaitAll_def)
qed

text \<open>A paused pool still runs its tasks, and a worker that finds none goes round without sleeping.\<close>

lemma legacy_paused_runs:
  "\<exists>s. legacy_run (K_Calls 0 L_Pause # K_Calls 0 (L_Enqueue 7) # rounds 2 [K_Moves 0] @ rounds 6 [L_Moves 0]) (LegacyThreadPool_new 0 1 1) = Some s \<and>
     lt_pause s \<and> lt_ran s = [7]"
  by (simp add: rounds_def numeral_eq_Suc LegacyThreadPool_new_def legacy_Start_def legacy_pool_init_def lworker_step_def
      lclient_step_def lclient_call_def legacy_Enqueue_def legacy_Pause_def lworker_at_def lclient_at_def)

lemma legacy_paused_spins:
  "let s = legacy_Pause (LegacyThreadPool_new 0 1 1) in legacy_run (rounds 5 [L_Moves 0]) s = Some s"
  by (simp add: rounds_def numeral_eq_Suc LegacyThreadPool_new_def legacy_Start_def legacy_pool_init_def lworker_step_def
      legacy_Pause_def lworker_at_def)

end
