(* ===== verification/Gpu_Memory.thy ===== *)
theory Gpu_Memory
  imports Host_Alloc
begin

text \<open>
  \<open>gpu/gpu_memory.cpp\<close>: \<open>CudaAllocator\<close>, which hands out managed, device and pinned memory of the CUDA
  runtime, records what it handed out and frees only that. The runtime is a parameter. Every function
  that changes the records holds the mutex from beginning to end, so it is one step.
\<close>

section \<open>State\<close>

record GpuDeviceInfo =
  gi_device_id :: int
  gi_name :: string
  gi_total_global_mem :: size_t
  gi_total_const_mem :: size_t
  gi_shared_mem_per_block :: int
  gi_warp_size :: int
  gi_max_threads_per_block :: int
  gi_multiprocessor_count :: int
  gi_compute_version_major :: int
  gi_compute_version_minor :: int
  gi_clock_rate :: int

definition GpuDeviceInfo_default :: GpuDeviceInfo where
  "GpuDeviceInfo_default = \<lparr>gi_device_id = 0, gi_name = [], gi_total_global_mem = 0, gi_total_const_mem = 0,
     gi_shared_mem_per_block = 0, gi_warp_size = 0, gi_max_threads_per_block = 0, gi_multiprocessor_count = 0,
     gi_compute_version_major = 0, gi_compute_version_minor = 0, gi_clock_rate = 0\<rparr>"

text \<open>The three maps are one function of the kind of memory; the statistics have the fields of the host allocators.\<close>

datatype gpu_kind = KManaged | KDevice | KPinned

type_synonym GpuStats = alloc_stats

record CudaAllocator =
  ca_device_id :: int
  ca_info :: GpuDeviceInfo
  ca_stream :: ptr
  ca_cublas :: ptr
  ca_maps :: "gpu_kind \<Rightarrow> (ptr, size_t) umap"
  ca_stats :: GpuStats

text \<open>
  The runtime: allocations fail with no result; a copy, which the code checks, fails with no result too.
  The status of \<open>cudaMemsetAsync\<close> and of the functions that free is ignored.
\<close>

datatype memcpy_kind = CopyH2D | CopyD2H | CopyD2D | CopyDefault

record gpu_runtime =
  rt_properties :: "int \<Rightarrow> GpuDeviceInfo"
  rt_stream_create :: "ptr option"
  rt_cublas_create :: "ptr option"
  rt_cublas_set_stream :: "ptr \<Rightarrow> ptr \<Rightarrow> unit option"
  rt_alloc :: "gpu_kind \<Rightarrow> int \<Rightarrow> nat \<Rightarrow> mem \<Rightarrow> (ptr \<times> mem) option"
  rt_free :: "gpu_kind \<Rightarrow> ptr \<Rightarrow> mem \<Rightarrow> mem comp"
  rt_memcpy :: "memcpy_kind \<Rightarrow> ptr \<Rightarrow> ptr \<Rightarrow> nat \<Rightarrow> mem \<Rightarrow> mem option"
  rt_memset :: "ptr \<Rightarrow> int \<Rightarrow> nat \<Rightarrow> mem \<Rightarrow> mem comp"
  rt_sync :: "ptr \<Rightarrow> bool"

record gpu_world =
  gw_alloc :: CudaAllocator
  gw_mem :: mem
  gw_current :: int

section \<open>Operations\<close>

text \<open>\<open>CUDA_CHECK\<close> ends the process when a call of the runtime fails.\<close>

definition cuda_check :: "'a option \<Rightarrow> 'a comp" where
  "cuda_check r = (case r of None \<Rightarrow> Inl Process_Exit | Some x \<Rightarrow> Inr x)"

definition gpu_set_device :: "gpu_world \<Rightarrow> gpu_world" where
  "gpu_set_device w = (if gw_current w \<noteq> ca_device_id (gw_alloc w) then w\<lparr>gw_current := ca_device_id (gw_alloc w)\<rparr> else w)"

text \<open>The constructor copies the properties, the name up to 255 characters, and leaves the clock rate alone.\<close>

definition CudaAllocator_new :: "gpu_runtime \<Rightarrow> int \<Rightarrow> mem \<Rightarrow> gpu_world comp" where
  "CudaAllocator_new rt device_id m =
     (let prop = rt_properties rt device_id;
          info = prop\<lparr>gi_device_id := device_id, gi_name := take 255 (gi_name prop), gi_clock_rate := 0\<rparr> in
      rbind (cuda_check (rt_stream_create rt)) (\<lambda>stream. rbind (cuda_check (rt_cublas_create rt)) (\<lambda>cublas.
      rbind (cuda_check (rt_cublas_set_stream rt cublas stream)) (\<lambda>_.
        Inr \<lparr>gw_alloc = \<lparr>ca_device_id = device_id, ca_info = info, ca_stream = stream, ca_cublas = cublas,
                ca_maps = (\<lambda>_. []), ca_stats = stats_zero\<rparr>,
             gw_mem = m, gw_current = device_id\<rparr>))))"

definition update_stats :: "size_t \<Rightarrow> bool \<Rightarrow> GpuStats \<Rightarrow> GpuStats" where
  "update_stats bytes allocate s =
     (if allocate then
        let cur = current_bytes s + bytes in
        s\<lparr>num_allocations := num_allocations s + 1, current_bytes := cur, total_bytes := total_bytes s + bytes,
          peak_bytes := max (peak_bytes s) cur\<rparr>
      else s\<lparr>num_deallocations := num_deallocations s + 1, current_bytes := current_bytes s - bytes\<rparr>)"

text \<open>What the three allocations do after the call of the runtime, and the three deallocations.\<close>

definition gpu_record :: "gpu_kind \<Rightarrow> ptr \<Rightarrow> size_t \<Rightarrow> CudaAllocator \<Rightarrow> CudaAllocator" where
  "gpu_record k p bytes a = a\<lparr>ca_maps := (ca_maps a)(k := AList.update p bytes (ca_maps a k)), ca_stats := update_stats bytes True (ca_stats a)\<rparr>"

definition gpu_forget :: "gpu_kind \<Rightarrow> ptr \<Rightarrow> size_t \<Rightarrow> CudaAllocator \<Rightarrow> CudaAllocator" where
  "gpu_forget k p bytes a = a\<lparr>ca_maps := (ca_maps a)(k := AList.delete p (ca_maps a k)), ca_stats := update_stats bytes False (ca_stats a)\<rparr>"

definition gpu_allocate :: "gpu_runtime \<Rightarrow> gpu_kind \<Rightarrow> size_t \<Rightarrow> gpu_world \<Rightarrow> ptr \<times> gpu_world" where
  "gpu_allocate rt k bytes w =
     (case rt_alloc rt k (gw_current w) (unat bytes) (gw_mem w) of
        None \<Rightarrow> (nullptr, w)
      | Some (p, m') \<Rightarrow> (p, w\<lparr>gw_mem := m', gw_alloc := gpu_record k p bytes (gw_alloc w)\<rparr>))"

definition gpu_deallocate :: "gpu_runtime \<Rightarrow> gpu_kind \<Rightarrow> ptr \<Rightarrow> gpu_world \<Rightarrow> gpu_world comp" where
  "gpu_deallocate rt k p w =
     (case map_of (ca_maps (gw_alloc w) k) p of
        Some bytes \<Rightarrow> rbind (rt_free rt k p (gw_mem w)) (\<lambda>m'. Inr (w\<lparr>gw_mem := m', gw_alloc := gpu_forget k p bytes (gw_alloc w)\<rparr>))
      | None \<Rightarrow> Inr w)"

definition allocate_managed :: "gpu_runtime \<Rightarrow> size_t \<Rightarrow> gpu_world \<Rightarrow> ptr \<times> gpu_world" where
  "allocate_managed rt bytes w = gpu_allocate rt KManaged bytes (gpu_set_device w)"

definition deallocate_managed :: "gpu_runtime \<Rightarrow> ptr \<Rightarrow> gpu_world \<Rightarrow> gpu_world comp" where
  "deallocate_managed rt p w = (if p = nullptr then Inr w else gpu_deallocate rt KManaged p (gpu_set_device w))"

definition allocate_device :: "gpu_runtime \<Rightarrow> size_t \<Rightarrow> gpu_world \<Rightarrow> ptr \<times> gpu_world" where
  "allocate_device rt bytes w = gpu_allocate rt KDevice bytes (gpu_set_device w)"

definition deallocate_device :: "gpu_runtime \<Rightarrow> ptr \<Rightarrow> gpu_world \<Rightarrow> gpu_world comp" where
  "deallocate_device rt p w = (if p = nullptr then Inr w else gpu_deallocate rt KDevice p (gpu_set_device w))"

definition allocate_pinned :: "gpu_runtime \<Rightarrow> size_t \<Rightarrow> gpu_world \<Rightarrow> ptr \<times> gpu_world" where
  "allocate_pinned rt bytes w = gpu_allocate rt KPinned bytes w"

definition deallocate_pinned :: "gpu_runtime \<Rightarrow> ptr \<Rightarrow> gpu_world \<Rightarrow> gpu_world comp" where
  "deallocate_pinned rt p w = (if p = nullptr then Inr w else gpu_deallocate rt KPinned p w)"

definition gpu_copy :: "gpu_runtime \<Rightarrow> memcpy_kind \<Rightarrow> ptr \<Rightarrow> ptr \<Rightarrow> size_t \<Rightarrow> gpu_world \<Rightarrow> gpu_world comp" where
  "gpu_copy rt kind dst src bytes w =
     rbind (cuda_check (rt_memcpy rt kind dst src (unat bytes) (gw_mem w))) (\<lambda>m'. Inr (w\<lparr>gw_mem := m'\<rparr>))"

definition copy_h2d :: "gpu_runtime \<Rightarrow> ptr \<Rightarrow> ptr \<Rightarrow> size_t \<Rightarrow> gpu_world \<Rightarrow> gpu_world comp" where
  "copy_h2d rt dst src bytes w = gpu_copy rt CopyH2D dst src bytes (gpu_set_device w)"

definition copy_d2h :: "gpu_runtime \<Rightarrow> ptr \<Rightarrow> ptr \<Rightarrow> size_t \<Rightarrow> gpu_world \<Rightarrow> gpu_world comp" where
  "copy_d2h rt dst src bytes w = gpu_copy rt CopyD2H dst src bytes (gpu_set_device w)"

definition copy_d2d :: "gpu_runtime \<Rightarrow> ptr \<Rightarrow> ptr \<Rightarrow> size_t \<Rightarrow> gpu_world \<Rightarrow> gpu_world comp" where
  "copy_d2d rt dst src bytes w = gpu_copy rt CopyD2D dst src bytes (gpu_set_device w)"

definition copy_managed :: "gpu_runtime \<Rightarrow> ptr \<Rightarrow> ptr \<Rightarrow> size_t \<Rightarrow> gpu_world \<Rightarrow> gpu_world comp" where
  "copy_managed rt dst src bytes w = gpu_copy rt CopyDefault dst src bytes w"

definition gpu_synchronize :: "gpu_runtime \<Rightarrow> gpu_world \<Rightarrow> gpu_world comp" where
  "gpu_synchronize rt w = (if rt_sync rt (ca_stream (gw_alloc w)) then Inr (gpu_set_device w) else Inl Process_Exit)"

definition gpu_total_mem :: "CudaAllocator \<Rightarrow> size_t" where "gpu_total_mem a = gi_total_global_mem (ca_info a)"
definition gpu_device_id :: "CudaAllocator \<Rightarrow> int" where "gpu_device_id a = gi_device_id (ca_info a)"
definition gpu_set_stream :: "ptr \<Rightarrow> CudaAllocator \<Rightarrow> CudaAllocator" where "gpu_set_stream stream a = a\<lparr>ca_stream := stream\<rparr>"
definition gpu_reset_stats :: "CudaAllocator \<Rightarrow> CudaAllocator" where "gpu_reset_stats a = a\<lparr>ca_stats := stats_zero\<rparr>"

text \<open>The destructor; the allocator itself is gone afterwards.\<close>

definition gpu_free_all :: "gpu_runtime \<Rightarrow> gpu_kind \<Rightarrow> CudaAllocator \<Rightarrow> mem \<Rightarrow> mem comp" where
  "gpu_free_all rt k a m = for_each (\<lambda>(p, n). rt_free rt k p) (ca_maps a k) m"

definition CudaAllocator_destroy :: "gpu_runtime \<Rightarrow> gpu_world \<Rightarrow> mem comp" where
  "CudaAllocator_destroy rt w =
     rbind (gpu_free_all rt KManaged (gw_alloc w) (gw_mem w)) (\<lambda>m1.
     rbind (gpu_free_all rt KDevice (gw_alloc w) m1) (gpu_free_all rt KPinned (gw_alloc w)))"

text \<open>The instance is constructed by the first call and kept: later calls ignore their argument.\<close>

definition CudaAllocator_Instance :: "gpu_runtime \<Rightarrow> int \<Rightarrow> gpu_world option \<Rightarrow> mem \<Rightarrow> gpu_world comp" where
  "CudaAllocator_Instance rt device_id kept m =
     (case kept of Some w \<Rightarrow> Inr w | None \<Rightarrow> CudaAllocator_new rt device_id m)"

text \<open>
  The class of a build without CUDA: every allocation is the null pointer, everything else does nothing.
  A \<open>gpu_backend\<close> is the class the build chose.
\<close>

datatype gpu_backend = Cuda gpu_runtime | No_Cuda

definition backend_allocate_managed :: "gpu_backend \<Rightarrow> size_t \<Rightarrow> gpu_world \<Rightarrow> ptr \<times> gpu_world" where
  "backend_allocate_managed b n w = (case b of Cuda rt \<Rightarrow> allocate_managed rt n w | No_Cuda \<Rightarrow> (nullptr, w))"

definition backend_deallocate_managed :: "gpu_backend \<Rightarrow> ptr \<Rightarrow> gpu_world \<Rightarrow> gpu_world comp" where
  "backend_deallocate_managed b p w = (case b of Cuda rt \<Rightarrow> deallocate_managed rt p w | No_Cuda \<Rightarrow> Inr w)"

definition backend_copy_managed :: "gpu_backend \<Rightarrow> ptr \<Rightarrow> ptr \<Rightarrow> size_t \<Rightarrow> gpu_world \<Rightarrow> gpu_world comp" where
  "backend_copy_managed b dst src n w = (case b of Cuda rt \<Rightarrow> copy_managed rt dst src n w | No_Cuda \<Rightarrow> Inr w)"

definition backend_synchronize :: "gpu_backend \<Rightarrow> gpu_world \<Rightarrow> gpu_world comp" where
  "backend_synchronize b w = (case b of Cuda rt \<Rightarrow> gpu_synchronize rt w | No_Cuda \<Rightarrow> Inr w)"

definition backend_properties :: "gpu_backend \<Rightarrow> CudaAllocator \<Rightarrow> size_t \<times> int \<times> GpuDeviceInfo" where
  "backend_properties b a = (case b of Cuda rt \<Rightarrow> (gpu_total_mem a, gpu_device_id a, ca_info a)
     | No_Cuda \<Rightarrow> (0, -1, GpuDeviceInfo_default))"

section \<open>What the documentation says of the runtime\<close>

text \<open>
  On device \<open>d\<close>: an allocation gives a new region of its kind (and may give the null pointer for no
  bytes), the functions that free end the region they are given and ignore the null pointer, copies move
  the bytes of live regions whose kinds fit and fail for null pointers, \<open>cudaMemset\<close> sets bytes.
\<close>

fun kind_space :: "int \<Rightarrow> gpu_kind \<Rightarrow> space" where
  "kind_space d KManaged = Managed"
| "kind_space d KDevice = Gpu d"
| "kind_space d KPinned = Host"

definition alloc_ok :: "gpu_runtime \<Rightarrow> int \<Rightarrow> bool" where
  "alloc_ok rt d \<longleftrightarrow> (\<forall>k n m p m'. mem_ok m \<longrightarrow> rt_alloc rt k d n m = Some (p, m') \<longrightarrow>
     (if n = 0 then p = nullptr \<and> m' = m
      else p \<noteq> nullptr \<and> mem_ok m' \<and> map_of (m_regions m) p = None \<and> p + n \<le> 2 ^ 64 \<and>
        m' = m\<lparr>m_regions := (p, n, kind_space d k) # m_regions m\<rparr>))"

definition free_ok :: "gpu_runtime \<Rightarrow> int \<Rightarrow> bool" where
  "free_ok rt d \<longleftrightarrow> (\<forall>k m. rt_free rt k nullptr m = Inr m) \<and>
     (\<forall>k m p n. mem_ok m \<longrightarrow> map_of (m_regions m) p = Some (n, kind_space d k) \<longrightarrow>
        rt_free rt k p m = Inr (m\<lparr>m_regions := AList.delete p (m_regions m)\<rparr>))"

definition memcpy_ok :: "gpu_runtime \<Rightarrow> bool" where
  "memcpy_ok rt \<longleftrightarrow>
     (\<forall>dst src n m bs sd ss. mem_ok m \<longrightarrow> mload ss src n m = Inr bs \<longrightarrow> within sd dst n m \<longrightarrow> dst + n \<le> src \<or> src + n \<le> dst \<longrightarrow>
        dst \<noteq> nullptr \<longrightarrow> src \<noteq> nullptr \<longrightarrow> rt_memcpy rt CopyDefault dst src n m = Some (put_bytes dst bs m)) \<and>
     (\<forall>kind dst src n m. 0 < n \<longrightarrow> dst = nullptr \<or> src = nullptr \<longrightarrow> rt_memcpy rt kind dst src n m = None) \<and>
     (\<forall>kind dst src n m m'. rt_memcpy rt kind dst src n m = Some m' \<longrightarrow> m_regions m' = m_regions m)"

definition memset_ok :: "gpu_runtime \<Rightarrow> bool" where
  "memset_ok rt \<longleftrightarrow> (\<forall>p v n m. mem_ok m \<longrightarrow> within Managed p n m \<longrightarrow>
     rt_memset rt p v n m = Inr (put_bytes p (replicate n (word_of_int v)) m))"

definition runtime_ok :: "gpu_runtime \<Rightarrow> int \<Rightarrow> bool" where
  "runtime_ok rt d \<longleftrightarrow> alloc_ok rt d \<and> free_ok rt d \<and> memcpy_ok rt \<and> memset_ok rt \<and>
     rt_stream_create rt \<noteq> None \<and> rt_cublas_create rt \<noteq> None \<and> (\<forall>h s. rt_cublas_set_stream rt h s \<noteq> None) \<and> (\<forall>s. rt_sync rt s)"

lemma runtime_okD:
  assumes "runtime_ok rt d"
  shows "alloc_ok rt d" and "free_ok rt d" and "memcpy_ok rt" and "memset_ok rt"
  using assms by (simp_all add: runtime_ok_def)

lemma memcpy_okD:
  assumes "memcpy_ok rt"
  shows memcpy_moves: "\<forall>dst src n m bs sd ss. mem_ok m \<longrightarrow> mload ss src n m = Inr bs \<longrightarrow> within sd dst n m \<longrightarrow>
        dst + n \<le> src \<or> src + n \<le> dst \<longrightarrow> dst \<noteq> nullptr \<longrightarrow> src \<noteq> nullptr \<longrightarrow>
        rt_memcpy rt CopyDefault dst src n m = Some (put_bytes dst bs m)"
    and memcpy_null: "\<forall>kind dst src n m. 0 < n \<longrightarrow> dst = nullptr \<or> src = nullptr \<longrightarrow> rt_memcpy rt kind dst src n m = None"
    and memcpy_regions: "\<forall>kind dst src n m m'. rt_memcpy rt kind dst src n m = Some m' \<longrightarrow> m_regions m' = m_regions m"
  using assms unfolding memcpy_ok_def by - (elim conjE, assumption)+

section \<open>Records are exact\<close>

text \<open>
  Every recorded pointer is a region of its kind that was not there at the start, and every other region
  is as it was; the null pointer may be recorded with no bytes.
\<close>

definition gpu_entry :: "(ptr, nat \<times> space) umap \<Rightarrow> gpu_world \<Rightarrow> gpu_kind \<Rightarrow> ptr \<Rightarrow> size_t \<Rightarrow> bool" where
  "gpu_entry rs0 w k p n \<longleftrightarrow> (if p = nullptr then n = 0
     else n \<noteq> 0 \<and> map_of (m_regions (gw_mem w)) p = Some (unat n, kind_space (ca_device_id (gw_alloc w)) k) \<and>
       p + unat n \<le> 2 ^ 64 \<and> map_of rs0 p = None)"

definition gpu_regions :: "(ptr, nat \<times> space) umap \<Rightarrow> gpu_world \<Rightarrow> bool" where
  "gpu_regions rs0 w \<longleftrightarrow> mem_ok (gw_mem w) \<and> gw_current w = ca_device_id (gw_alloc w) \<and>
     (\<forall>k. umap_ok (ca_maps (gw_alloc w) k)) \<and>
     (\<forall>k p n. map_of (ca_maps (gw_alloc w) k) p = Some n \<longrightarrow> gpu_entry rs0 w k p n) \<and>
     (\<forall>q. (\<forall>k. map_of (ca_maps (gw_alloc w) k) q = None) \<longrightarrow> map_of (m_regions (gw_mem w)) q = map_of rs0 q)"

definition map_bytes :: "CudaAllocator \<Rightarrow> gpu_kind \<Rightarrow> nat" where
  "map_bytes a k = (\<Sum>(p, n) \<leftarrow> ca_maps a k. unat n)"

definition gpu_live_bytes :: "CudaAllocator \<Rightarrow> nat" where
  "gpu_live_bytes a = map_bytes a KManaged + map_bytes a KDevice + map_bytes a KPinned"

definition gpu_stats_ok :: "CudaAllocator \<Rightarrow> bool" where
  "gpu_stats_ok a \<longleftrightarrow> unat (current_bytes (ca_stats a)) = gpu_live_bytes a \<and> current_bytes (ca_stats a) \<le> peak_bytes (ca_stats a)"

definition gpu_inv :: "(ptr, nat \<times> space) umap \<Rightarrow> gpu_world \<Rightarrow> bool" where
  "gpu_inv rs0 w \<longleftrightarrow> gpu_regions rs0 w \<and> gpu_stats_ok (gw_alloc w)"

lemma gpu_regionsD:
  assumes "gpu_regions rs0 w"
  shows "mem_ok (gw_mem w)" and "gw_current w = ca_device_id (gw_alloc w)" and "umap_ok (ca_maps (gw_alloc w) k)"
    and "map_of (ca_maps (gw_alloc w) k) p = Some n \<Longrightarrow> gpu_entry rs0 w k p n"
    and "(\<And>k. map_of (ca_maps (gw_alloc w) k) q = None) \<Longrightarrow> map_of (m_regions (gw_mem w)) q = map_of rs0 q"
  using assms unfolding gpu_regions_def by blast+

lemma gpu_inv_mem:
  assumes "m_regions m' = m_regions (gw_mem w)"
  shows "gpu_inv rs0 (w\<lparr>gw_mem := m'\<rparr>) = gpu_inv rs0 w"
proof -
  have "gpu_entry rs0 (w\<lparr>gw_mem := m'\<rparr>) = gpu_entry rs0 w" by (intro ext) (simp add: gpu_entry_def assms)
  moreover have "mem_ok m' = mem_ok (gw_mem w)" by (simp add: mem_ok_def assms)
  ultimately show ?thesis by (simp add: gpu_inv_def gpu_regions_def assms)
qed

lemma gpu_set_device_id [simp]: "gpu_regions rs0 w \<Longrightarrow> gpu_set_device w = w"
  by (simp add: gpu_set_device_def gpu_regions_def)

text \<open>The null pointer apart, the recorded blocks are disjoint regions below \<open>2 ^ 64\<close>.\<close>

definition real_blocks :: "gpu_world \<Rightarrow> gpu_kind \<Rightarrow> (ptr \<times> nat) list" where
  "real_blocks w k = filter (\<lambda>(p, n). p \<noteq> nullptr) (map (\<lambda>(p, n). (p, unat n)) (ca_maps (gw_alloc w) k))"

lemma sum_nonnull:
  "\<forall>(p, n) \<in> set xs. p = nullptr \<longrightarrow> n = 0 \<Longrightarrow>
    (\<Sum>(p, n) \<leftarrow> filter (\<lambda>(p, n). p \<noteq> nullptr) (map (\<lambda>(p, n). (p, unat n)) xs). n) = (\<Sum>(p, n :: size_t) \<leftarrow> xs. unat n)"
  by (induction xs) auto

lemma real_blocks_sum:
  assumes "gpu_regions rs0 w"
  shows "(\<Sum>(p, n) \<leftarrow> real_blocks w k. n) = map_bytes (gw_alloc w) k"
  unfolding real_blocks_def map_bytes_def
  by (rule sum_nonnull) (use gpu_regionsD(3,4) [OF assms, of k] in \<open>force simp: gpu_entry_def\<close>)

lemma real_blocks_entry:
  assumes inv: "gpu_regions rs0 w" and "(p, n) \<in> set (real_blocks w k)"
  shows "0 < p" and "map_of (m_regions (gw_mem w)) p = Some (n, kind_space (ca_device_id (gw_alloc w)) k)" and "p + n \<le> 2 ^ 64"
proof -
  obtain b where "(p, b) \<in> set (ca_maps (gw_alloc w) k)" "n = unat b" "p \<noteq> nullptr" using assms(2) by (auto simp: real_blocks_def)
  then have "gpu_entry rs0 w k p b" "p \<noteq> nullptr" "n = unat b" using gpu_regionsD(3,4) [OF inv, of k] by auto
  then show "0 < p" "map_of (m_regions (gw_mem w)) p = Some (n, kind_space (ca_device_id (gw_alloc w)) k)" "p + n \<le> 2 ^ 64"
    by (simp_all add: gpu_entry_def)
qed

lemma kind_space_inj: "kind_space d k = kind_space d k' \<Longrightarrow> k = k'"
  by (cases k; cases k') auto

lemma real_blocks_distinct: "gpu_regions rs0 w \<Longrightarrow> umap_ok (real_blocks w k)"
proof -
  assume "gpu_regions rs0 w"
  then have u: "umap_ok (ca_maps (gw_alloc w) k)" by (rule gpu_regionsD(3))
  have "map fst (real_blocks w k) = filter (\<lambda>p. p \<noteq> nullptr) (map fst (ca_maps (gw_alloc w) k))"
    by (simp add: real_blocks_def filter_map comp_def case_prod_beta)
  with u show ?thesis by simp
qed

lemma gpu_live_fits:
  assumes inv: "gpu_regions rs0 w"
  shows "gpu_live_bytes (gw_alloc w) < 2 ^ 64"
proof -
  let ?rs = "real_blocks w KManaged @ real_blocks w KDevice @ real_blocks w KPinned"
  have cross: "fst ` set (real_blocks w k) \<inter> fst ` set (real_blocks w k') = {}" if "k \<noteq> k'" for k k'
  proof (rule ccontr)
    assume "fst ` set (real_blocks w k) \<inter> fst ` set (real_blocks w k') \<noteq> {}"
    then obtain p n n' where "(p, n) \<in> set (real_blocks w k)" "(p, n') \<in> set (real_blocks w k')" by force
    from real_blocks_entry(2) [OF inv this(1)] real_blocks_entry(2) [OF inv this(2)] that kind_space_inj show False by auto
  qed
  have "umap_ok ?rs" using real_blocks_distinct [OF inv] cross [of KManaged KDevice] cross [of KManaged KPinned] cross [of KDevice KPinned]
    by (simp add: Int_Un_distrib)
  have entry: "\<exists>k. 0 < p \<and> map_of (m_regions (gw_mem w)) p = Some (n, kind_space (ca_device_id (gw_alloc w)) k) \<and> p + n \<le> 2 ^ 64"
    if "(p, n) \<in> set ?rs" for p n
    using that real_blocks_entry [OF inv, of p n] by auto
  have "0 < p \<and> p + n \<le> 2 ^ 64" if "(p, n) \<in> set ?rs" for p n using entry [OF that] by blast
  then have low: "\<forall>(p, n) \<in> set ?rs. 0 < p \<and> p + n \<le> 2 ^ 64" by (intro ballI) (simp only: split_paired_all prod.case)
  have "p + n \<le> q \<or> q + l \<le> p" if "(p, n) \<in> set ?rs" "(q, l) \<in> set ?rs" "p \<noteq> q" for p n q l
    using entry [OF that(1)] entry [OF that(2)] that(3) gpu_regionsD(1) [OF inv] unfolding mem_ok_def by blast
  then have apart: "\<forall>(p, n) \<in> set ?rs. \<forall>(q, l) \<in> set ?rs. p \<noteq> q \<longrightarrow> p + n \<le> q \<or> q + l \<le> p"
    by (intro ballI) (simp only: split_paired_all prod.case, blast)
  from disjoint_sizes_fit [OF \<open>umap_ok ?rs\<close> low apart] real_blocks_sum [OF inv]
  show ?thesis by (simp add: gpu_live_bytes_def)
qed

section \<open>The operations keep them exact\<close>

lemma map_bytes_other: "k' \<noteq> k \<Longrightarrow> map_bytes (gpu_record k p n a) k' = map_bytes a k'" "k' \<noteq> k \<Longrightarrow> map_bytes (gpu_forget k p n a) k' = map_bytes a k'"
  by (simp_all add: map_bytes_def gpu_record_def gpu_forget_def)

lemma live_record:
  assumes "map_of (ca_maps a k) p = None"
  shows "gpu_live_bytes (gpu_record k p n a) = gpu_live_bytes a + unat n"
proof -
  have "map_bytes (gpu_record k p n a) k = map_bytes a k + unat n"
    using sum_update_new [OF assms, of unat n] by (simp add: map_bytes_def gpu_record_def)
  then show ?thesis by (cases k) (simp_all add: gpu_live_bytes_def map_bytes_other)
qed

lemma live_forget:
  assumes "umap_ok (ca_maps a k)" and "map_of (ca_maps a k) p = Some n"
  shows "gpu_live_bytes a = gpu_live_bytes (gpu_forget k p n a) + unat n"
proof -
  have "map_bytes a k = map_bytes (gpu_forget k p n a) k + unat n"
    using sum_delete_old(1) [OF assms, of unat] by (simp add: map_bytes_def gpu_forget_def)
  then show ?thesis by (cases k) (simp_all add: gpu_live_bytes_def map_bytes_other)
qed

lemma record_null: "map_of (ca_maps a k) p = Some 0 \<Longrightarrow> gpu_live_bytes (gpu_record k p 0 a) = gpu_live_bytes a"
  by (simp add: gpu_live_bytes_def map_bytes_def gpu_record_def update_same)

lemma gpu_record_fields [simp]:
  "ca_device_id (gpu_record k p n a) = ca_device_id a" "ca_device_id (gpu_forget k p n a) = ca_device_id a"
  "ca_maps (gpu_record k p n a) = (ca_maps a)(k := AList.update p n (ca_maps a k))"
  "ca_maps (gpu_forget k p n a) = (ca_maps a)(k := AList.delete p (ca_maps a k))"
  "current_bytes (ca_stats (gpu_record k p n a)) = current_bytes (ca_stats a) + n"
  "current_bytes (ca_stats (gpu_forget k p n a)) = current_bytes (ca_stats a) - n"
  "peak_bytes (ca_stats (gpu_record k p n a)) = max (peak_bytes (ca_stats a)) (current_bytes (ca_stats a) + n)"
  "peak_bytes (ca_stats (gpu_forget k p n a)) = peak_bytes (ca_stats a)"
  by (simp_all add: gpu_record_def gpu_forget_def update_stats_def Let_def)

lemma gpu_allocate_ok:
  assumes inv: "gpu_inv rs0 w" and rt: "runtime_ok rt (ca_device_id (gw_alloc w))" and run: "gpu_allocate rt k bytes w = (p, w')"
  shows "gpu_inv rs0 w'" and "ca_device_id (gw_alloc w') = ca_device_id (gw_alloc w)"
    and "p \<noteq> nullptr \<Longrightarrow> map_of (m_regions (gw_mem w)) p = None \<and> map_of (ca_maps (gw_alloc w) k) p = None \<and> bytes \<noteq> 0 \<and>
      gw_alloc w' = gpu_record k p bytes (gw_alloc w) \<and>
      gw_mem w' = (gw_mem w)\<lparr>m_regions := (p, unat bytes, kind_space (ca_device_id (gw_alloc w)) k) # m_regions (gw_mem w)\<rparr>"
    and "p = nullptr \<Longrightarrow> gw_mem w' = gw_mem w \<and> (\<forall>k q. q \<noteq> nullptr \<longrightarrow> map_of (ca_maps (gw_alloc w') k) q = map_of (ca_maps (gw_alloc w) k) q)"
proof -
  let ?a = "gw_alloc w" and ?m = "gw_mem w" and ?d = "ca_device_id (gw_alloc w)"
  have reg: "gpu_regions rs0 w" and st: "gpu_stats_ok ?a" using inv by (simp_all add: gpu_inv_def)
  note r = gpu_regionsD [OF reg]
  have "gpu_inv rs0 w' \<and> ca_device_id (gw_alloc w') = ?d \<and>
    (p \<noteq> nullptr \<longrightarrow> map_of (m_regions ?m) p = None \<and> map_of (ca_maps ?a k) p = None \<and> bytes \<noteq> 0 \<and> gw_alloc w' = gpu_record k p bytes ?a \<and>
      gw_mem w' = ?m\<lparr>m_regions := (p, unat bytes, kind_space ?d k) # m_regions ?m\<rparr>) \<and>
    (p = nullptr \<longrightarrow> gw_mem w' = ?m \<and> (\<forall>k q. q \<noteq> nullptr \<longrightarrow> map_of (ca_maps (gw_alloc w') k) q = map_of (ca_maps ?a k) q))"
  proof (cases "rt_alloc rt k ?d (unat bytes) ?m")
    case None
    then show ?thesis using run inv r(2) by (simp add: gpu_allocate_def)
  next
    case (Some x)
    then obtain m' where c: "rt_alloc rt k ?d (unat bytes) ?m = Some (p, m')" and w': "w' = w\<lparr>gw_mem := m', gw_alloc := gpu_record k p bytes ?a\<rparr>"
      using run r(2) by (cases x) (auto simp: gpu_allocate_def)
    have al: "if unat bytes = 0 then p = nullptr \<and> m' = ?m
      else p \<noteq> nullptr \<and> mem_ok m' \<and> map_of (m_regions ?m) p = None \<and> p + unat bytes \<le> 2 ^ 64 \<and>
        m' = ?m\<lparr>m_regions := (p, unat bytes, kind_space ?d k) # m_regions ?m\<rparr>"
      using runtime_okD(1) [OF rt, unfolded alloc_ok_def, rule_format, OF r(1) c] .
    have live: "gpu_live_bytes (gpu_record k p bytes ?a) = gpu_live_bytes ?a + unat bytes"
    proof (cases "map_of (ca_maps ?a k) p")
      case (Some n)
      then have "gpu_entry rs0 w k p n" by (rule r(4))
      then have "n = 0" "bytes = 0" using al by (auto simp: gpu_entry_def unat_eq_0 split: if_splits)
      with Some record_null [of ?a k p] show ?thesis by simp
    qed (rule live_record)
    have reg': "gpu_regions rs0 w'"
    proof (cases "bytes = 0")
      case True
      then have "p = nullptr" "m' = ?m" using al by simp_all
      then have null: "p = nullptr" "m' = ?m" by blast+
      show ?thesis unfolding gpu_regions_def
      proof (intro conjI allI impI)
        show "mem_ok (gw_mem w')" "gw_current w' = ca_device_id (gw_alloc w')" using r(1,2) null by (simp_all add: w')
        show "umap_ok (ca_maps (gw_alloc w') k')" for k' using r(3) by (simp add: w' distinct_update)
        fix k' q l assume "map_of (ca_maps (gw_alloc w') k') q = Some l"
        then have "map_of (ca_maps ?a k') q = Some l \<or> q = nullptr \<and> l = 0" using True null by (auto simp: w' update_conv' split: if_splits)
        with r(4) [of k' q l] null show "gpu_entry rs0 w' k' q l" by (auto simp: gpu_entry_def w' split: if_splits)
      next
        fix q assume "\<forall>k'. map_of (ca_maps (gw_alloc w') k') q = None"
        then have "map_of (ca_maps ?a k') q = None" for k' by (cases "k' = k") (auto simp: w' update_conv' dest: spec [of _ k'] split: if_splits)
        with r(5) [of q] null show "map_of (m_regions (gw_mem w')) q = map_of rs0 q" by (simp add: w')
      qed
    next
      case False
      then have n: "p \<noteq> nullptr" "mem_ok m'" "map_of (m_regions ?m) p = None" "p + unat bytes \<le> 2 ^ 64"
        "m' = ?m\<lparr>m_regions := (p, unat bytes, kind_space ?d k) # m_regions ?m\<rparr>"
        using al unfolding unat_eq_0 if_not_P [OF False] by blast+
      have old: "map_of (ca_maps ?a k') p = None" for k'
        using r(4) [of k' p] n(1,3) by (cases "map_of (ca_maps ?a k') p") (auto simp: gpu_entry_def)
      have fresh: "map_of rs0 p = None" using r(5) [of p] old n(3) by simp
      show ?thesis unfolding gpu_regions_def
      proof (intro conjI allI impI)
        show "mem_ok (gw_mem w')" using n(2) by (simp add: w')
        show "gw_current w' = ca_device_id (gw_alloc w')" using r(2) by (simp add: w')
        show "umap_ok (ca_maps (gw_alloc w') k')" for k' using r(3) by (simp add: w' distinct_update)
        fix k' q l assume e: "map_of (ca_maps (gw_alloc w') k') q = Some l"
        show "gpu_entry rs0 w' k' q l"
        proof (cases "q = p")
          case True
          then have "k' = k" "l = bytes" using e old [of k'] by (auto simp: w' update_conv' split: if_splits)
          then show ?thesis using True n(1,4) False fresh by (simp add: gpu_entry_def w' n(5))
        next
          case q: False
          then have "map_of (ca_maps ?a k') q = Some l" using e by (auto simp: w' update_conv' split: if_splits)
          from r(4) [OF this] show ?thesis using q by (simp add: gpu_entry_def w' n(5) split: if_splits)
        qed
      next
        fix q assume none: "\<forall>k'. map_of (ca_maps (gw_alloc w') k') q = None"
        then have "q \<noteq> p" by (auto simp: w' update_conv' dest: spec [of _ k])
        moreover have "map_of (ca_maps ?a k') q = None" for k'
          using none by (cases "k' = k") (auto simp: w' update_conv' dest: spec [of _ k'] split: if_splits)
        ultimately show "map_of (m_regions (gw_mem w')) q = map_of rs0 q" using r(5) [of q] by (simp add: w' n(5))
      qed
    qed
    have "unat (current_bytes (ca_stats ?a) + bytes) = gpu_live_bytes ?a + unat bytes"
      using st gpu_live_fits [OF reg'] live by (simp add: w' gpu_stats_ok_def unat_plus_simple_size)
    then have "gpu_stats_ok (gpu_record k p bytes ?a)" by (simp add: gpu_stats_ok_def live)
    moreover have "map_of (ca_maps ?a k) p = None" if "p \<noteq> nullptr"
      using r(4) [of k p] al that by (cases "map_of (ca_maps ?a k) p") (auto simp: gpu_entry_def split: if_splits)
    ultimately show ?thesis using reg' al by (auto simp: gpu_inv_def w' update_conv' unat_eq_0 split: if_splits)
  qed
  then show "gpu_inv rs0 w'" "ca_device_id (gw_alloc w') = ?d"
    "p \<noteq> nullptr \<Longrightarrow> map_of (m_regions ?m) p = None \<and> map_of (ca_maps ?a k) p = None \<and> bytes \<noteq> 0 \<and> gw_alloc w' = gpu_record k p bytes ?a \<and>
      gw_mem w' = ?m\<lparr>m_regions := (p, unat bytes, kind_space ?d k) # m_regions ?m\<rparr>"
    "p = nullptr \<Longrightarrow> gw_mem w' = ?m \<and> (\<forall>k q. q \<noteq> nullptr \<longrightarrow> map_of (ca_maps (gw_alloc w') k) q = map_of (ca_maps ?a k) q)"
    by blast+
qed

lemma gpu_deallocate_ok:
  assumes inv: "gpu_inv rs0 w" and rt: "runtime_ok rt (ca_device_id (gw_alloc w))" and p: "p \<noteq> nullptr"
  shows "map_of (ca_maps (gw_alloc w) k) p = None \<Longrightarrow> gpu_deallocate rt k p w = Inr w"
    and "map_of (ca_maps (gw_alloc w) k) p = Some n \<Longrightarrow> \<exists>w'. gpu_deallocate rt k p w = Inr w' \<and> gpu_inv rs0 w' \<and>
      gw_alloc w' = gpu_forget k p n (gw_alloc w) \<and> gw_mem w' = (gw_mem w)\<lparr>m_regions := AList.delete p (m_regions (gw_mem w))\<rparr>"
proof -
  show "map_of (ca_maps (gw_alloc w) k) p = None \<Longrightarrow> gpu_deallocate rt k p w = Inr w" by (simp add: gpu_deallocate_def)
  let ?a = "gw_alloc w" and ?m = "gw_mem w" and ?d = "ca_device_id (gw_alloc w)"
  assume e: "map_of (ca_maps ?a k) p = Some n"
  have reg: "gpu_regions rs0 w" and st: "gpu_stats_ok ?a" using inv by (simp_all add: gpu_inv_def)
  note r = gpu_regionsD [OF reg]
  have en: "n \<noteq> 0" "map_of (m_regions ?m) p = Some (unat n, kind_space ?d k)" "map_of rs0 p = None"
    using r(4) [OF e] p by (simp_all add: gpu_entry_def)
  let ?m' = "?m\<lparr>m_regions := AList.delete p (m_regions ?m)\<rparr>"
  let ?w' = "w\<lparr>gw_mem := ?m', gw_alloc := gpu_forget k p n ?a\<rparr>"
  have run: "gpu_deallocate rt k p w = Inr ?w'"
    using runtime_okD(2) [OF rt] r(1) en(2) e by (simp add: gpu_deallocate_def free_ok_def)
  have other: "map_of (ca_maps ?a k') p = None" if "k' \<noteq> k" for k'
    using r(4) [of k' p] p en(2) kind_space_inj [of ?d k k'] that by (cases "map_of (ca_maps ?a k') p") (auto simp: gpu_entry_def)
  have reg': "gpu_regions rs0 ?w'" unfolding gpu_regions_def
  proof (intro conjI allI impI)
    show "mem_ok (gw_mem ?w')" using mem_ok_delete [OF r(1)] by simp
    show "gw_current ?w' = ca_device_id (gw_alloc ?w')" using r(2) by simp
    show "umap_ok (ca_maps (gw_alloc ?w') k')" for k' using r(3) by (simp add: distinct_delete)
    fix k' q l assume "map_of (ca_maps (gw_alloc ?w') k') q = Some l"
    then have "map_of (ca_maps ?a k') q = Some l" "q \<noteq> p" using other [of k'] by (auto simp: delete_conv' split: if_splits)
    with r(4) show "gpu_entry rs0 ?w' k' q l" by (force simp: gpu_entry_def delete_conv' split: if_splits)
  next
    fix q assume none: "\<forall>k'. map_of (ca_maps (gw_alloc ?w') k') q = None"
    show "map_of (m_regions (gw_mem ?w')) q = map_of rs0 q"
    proof (cases "q = p")
      case False
      then have "map_of (ca_maps ?a k') q = None" for k' using none by (cases "k' = k") (auto simp: delete_conv' dest: spec [of _ k'])
      with r(5) [of q] False show ?thesis by (simp add: delete_conv')
    qed (use en(3) in \<open>simp add: delete_conv'\<close>)
  qed
  have cur: "unat (current_bytes (ca_stats ?a)) = gpu_live_bytes (gpu_forget k p n ?a) + unat n"
    using st live_forget [OF r(3) e] by (simp add: gpu_stats_ok_def)
  then have cur': "unat (current_bytes (ca_stats ?a) - n) = gpu_live_bytes (gpu_forget k p n ?a)" by (simp add: unat_minus_size)
  then have "current_bytes (ca_stats ?a) - n \<le> current_bytes (ca_stats ?a)" using cur by (simp add: word_le_nat_alt)
  then have "current_bytes (ca_stats ?a) - n \<le> peak_bytes (ca_stats ?a)" using st unfolding gpu_stats_ok_def by (meson order_trans)
  then have "gpu_stats_ok (gpu_forget k p n ?a)" using cur' unfolding gpu_stats_ok_def by simp
  with reg' run show "\<exists>w'. gpu_deallocate rt k p w = Inr w' \<and> gpu_inv rs0 w' \<and> gw_alloc w' = gpu_forget k p n ?a \<and> gw_mem w' = ?m'"
    by (intro exI [of _ ?w']) (simp add: gpu_inv_def)
qed

section \<open>Clients\<close>

datatype gpu_op = Gpu_Alloc gpu_kind size_t | Gpu_Free gpu_kind ptr

definition gpu_do :: "gpu_runtime \<Rightarrow> gpu_op \<Rightarrow> gpu_world \<Rightarrow> gpu_world comp" where
  "gpu_do rt op w = (case op of
       Gpu_Alloc KManaged n \<Rightarrow> Inr (snd (allocate_managed rt n w))
     | Gpu_Alloc KDevice n \<Rightarrow> Inr (snd (allocate_device rt n w))
     | Gpu_Alloc KPinned n \<Rightarrow> Inr (snd (allocate_pinned rt n w))
     | Gpu_Free KManaged p \<Rightarrow> deallocate_managed rt p w
     | Gpu_Free KDevice p \<Rightarrow> deallocate_device rt p w
     | Gpu_Free KPinned p \<Rightarrow> deallocate_pinned rt p w)"

lemma gpu_do_cases:
  assumes "gpu_inv rs0 w"
  shows "gpu_do rt op w = (case op of Gpu_Alloc k n \<Rightarrow> Inr (snd (gpu_allocate rt k n w))
     | Gpu_Free k p \<Rightarrow> if p = nullptr then Inr w else gpu_deallocate rt k p w)"
proof -
  have "gpu_set_device w = w" using assms gpu_set_device_id [of rs0 w] by (simp add: gpu_inv_def)
  then show ?thesis
    by (auto simp: gpu_do_def allocate_managed_def allocate_device_def allocate_pinned_def deallocate_managed_def
      deallocate_device_def deallocate_pinned_def split: gpu_op.splits gpu_kind.splits)
qed

lemma gpu_do_ok:
  assumes inv: "gpu_inv rs0 w" and rt: "runtime_ok rt (ca_device_id (gw_alloc w))"
  shows "\<exists>w'. gpu_do rt op w = Inr w' \<and> gpu_inv rs0 w' \<and> ca_device_id (gw_alloc w') = ca_device_id (gw_alloc w)"
proof (cases op)
  case (Gpu_Alloc k n)
  obtain p w' where w': "gpu_allocate rt k n w = (p, w')" by (cases "gpu_allocate rt k n w")
  then have "gpu_do rt op w = Inr w'" unfolding gpu_do_cases [OF inv] by (simp add: Gpu_Alloc)
  with gpu_allocate_ok(1,2) [OF inv rt w'] show ?thesis by blast
next
  case (Gpu_Free k p)
  note do = gpu_do_cases [OF inv, of rt op, unfolded Gpu_Free gpu_op.case]
  show ?thesis
  proof (cases "p = nullptr \<or> map_of (ca_maps (gw_alloc w) k) p = None")
    case True
    then have "gpu_do rt op w = Inr w" using gpu_deallocate_ok(1) [OF inv rt, of p k] do by (cases "p = nullptr") (simp_all add: Gpu_Free)
    with inv show ?thesis by (intro exI [of _ w]) simp
  next
    case False
    then obtain n where n: "p \<noteq> nullptr" "map_of (ca_maps (gw_alloc w) k) p = Some n" by auto
    from gpu_deallocate_ok(2) [OF inv rt n] obtain w' where "gpu_deallocate rt k p w = Inr w'" "gpu_inv rs0 w'"
      "gw_alloc w' = gpu_forget k p n (gw_alloc w)" by blast
    then show ?thesis using do n(1) by (intro exI [of _ w']) (simp add: Gpu_Free)
  qed
qed

lemma gpu_run_ok:
  assumes "gpu_inv rs0 w" and "runtime_ok rt (ca_device_id (gw_alloc w))"
  shows "\<exists>w'. for_each (gpu_do rt) ops w = Inr w' \<and> gpu_inv rs0 w' \<and> ca_device_id (gw_alloc w') = ca_device_id (gw_alloc w)"
  using assms
proof (induction ops arbitrary: w)
  case (Cons op ops)
  from gpu_do_ok [OF Cons.prems, of op] obtain w' where "gpu_do rt op w = Inr w'" "gpu_inv rs0 w'"
    "ca_device_id (gw_alloc w') = ca_device_id (gw_alloc w)" by blast
  with Cons.IH [of w'] Cons.prems(2) show ?case by simp
next
  case Nil
  then show ?case by (intro exI [of _ w]) simp
qed

lemma CudaAllocator_new_ok:
  assumes "runtime_ok rt d" and "mem_ok m"
  shows "\<exists>w. CudaAllocator_new rt d m = Inr w \<and> gpu_inv (m_regions m) w \<and> ca_device_id (gw_alloc w) = d \<and> gw_mem w = m"
proof -
  obtain s h where "rt_stream_create rt = Some s" "rt_cublas_create rt = Some h" "rt_cublas_set_stream rt h s = Some ()"
    using assms(1) unfolding runtime_ok_def by (metis not_None_eq unit.exhaust)
  then obtain w where w: "CudaAllocator_new rt d m = Inr w" "gw_mem w = m" "gw_current w = d" "ca_device_id (gw_alloc w) = d"
    "ca_maps (gw_alloc w) = (\<lambda>_. [])" "ca_stats (gw_alloc w) = stats_zero"
    by (simp add: CudaAllocator_new_def cuda_check_def Let_def)
  then have "gpu_inv (m_regions m) w"
    using assms(2) by (simp add: gpu_inv_def gpu_regions_def gpu_stats_ok_def gpu_live_bytes_def map_bytes_def stats_zero_def)
  with w show ?thesis by (intro exI [of _ w]) simp
qed

text \<open>What the destructor frees.\<close>

lemma free_list_ok:
  assumes "free_ok rt d" and "mem_ok m" and "umap_ok xs"
    and "\<And>p n. (p, n) \<in> set xs \<Longrightarrow> p \<noteq> nullptr \<Longrightarrow> map_of (m_regions m) p = Some (unat n, kind_space d k)"
  shows "\<exists>m'. for_each (\<lambda>(p, n :: size_t). rt_free rt k p) xs m = Inr m' \<and> mem_ok m' \<and>
    (\<forall>q. map_of (m_regions m') q = (if q \<noteq> nullptr \<and> q \<in> fst ` set xs then None else map_of (m_regions m) q))"
  using assms
proof (induction xs arbitrary: m)
  case (Cons x xs)
  obtain p n where x: "x = (p, n)" by (cases x)
  let ?m = "if p = nullptr then m else m\<lparr>m_regions := AList.delete p (m_regions m)\<rparr>"
  have free: "rt_free rt k p m = Inr ?m"
    using Cons.prems(1) Cons.prems(2) Cons.prems(4) [of p n] x unfolding free_ok_def by (cases "p = nullptr") simp_all
  have ok: "mem_ok ?m" using Cons.prems(2) mem_ok_delete [of m p] by simp
  have entries: "map_of (m_regions ?m) q = Some (unat l, kind_space d k)" if "(q, l) \<in> set xs" "q \<noteq> nullptr" for q l
  proof -
    have "q \<noteq> p" using Cons.prems(3) that(1) x by force
    then show ?thesis using Cons.prems(4) [of q l] that by (simp add: delete_conv')
  qed
  have "umap_ok xs" using Cons.prems(3) by simp
  from Cons.IH [OF Cons.prems(1) ok this entries] obtain m' where
    m': "for_each (\<lambda>(p, n). rt_free rt k p) xs ?m = Inr m'" "mem_ok m'"
      "\<And>q. map_of (m_regions m') q = (if q \<noteq> nullptr \<and> q \<in> fst ` set xs then None else map_of (m_regions ?m) q)"
    by blast
  have "map_of (m_regions m') q = (if q \<noteq> nullptr \<and> q \<in> fst ` set (x # xs) then None else map_of (m_regions m) q)" for q
    unfolding m'(3) by (simp add: x delete_conv')
  moreover have "for_each (\<lambda>(p, n). rt_free rt k p) (x # xs) m = Inr m'" using free m'(1) x by simp
  ultimately show ?case using m'(2) by blast
qed simp

lemma regions_null: "mem_ok m \<Longrightarrow> map_of (m_regions m) nullptr = None"
  by (cases "map_of (m_regions m) nullptr") (auto simp del: map_of_eq_Some_iff simp: mem_ok_def)

lemma umap_in_iff: "p \<in> fst ` set xs \<longleftrightarrow> map_of xs p \<noteq> None"
  by (simp add: map_of_eq_None_iff)

lemma entries_keep:
  assumes "gpu_regions rs0 w" and "(p, n) \<in> set (ca_maps (gw_alloc w) k)" and "p \<noteq> nullptr"
    and "\<And>q. map_of (m_regions m) q = (if q \<noteq> nullptr \<and> q \<in> S then None else map_of (m_regions (gw_mem w)) q)"
    and "\<And>k'. p \<in> S \<Longrightarrow> \<exists>k'. k' \<noteq> k \<and> map_of (ca_maps (gw_alloc w) k') p \<noteq> None"
  shows "map_of (m_regions m) p = Some (unat n, kind_space (ca_device_id (gw_alloc w)) k)"
proof -
  note r = gpu_regionsD [OF assms(1)]
  have en: "gpu_entry rs0 w k p n" using assms(2) r(3) by (intro r(4)) simp
  have "p \<notin> S"
  proof
    assume "p \<in> S"
    then obtain k' l where "k' \<noteq> k" "map_of (ca_maps (gw_alloc w) k') p = Some l" using assms(5) by blast
    with r(4) [of k' p l] en assms(3) show False by (auto simp: gpu_entry_def dest: kind_space_inj)
  qed
  then show ?thesis using assms(3) assms(4) [of p] en by (simp add: gpu_entry_def)
qed

lemma destroy_ok:
  assumes inv: "gpu_regions rs0 w" and rt: "runtime_ok rt (ca_device_id (gw_alloc w))" and null: "map_of rs0 nullptr = None"
  shows "\<exists>m'. CudaAllocator_destroy rt w = Inr m' \<and> mem_ok m' \<and> map_of (m_regions m') = map_of rs0"
proof -
  let ?a = "gw_alloc w" and ?m = "gw_mem w"
  let ?K = "\<lambda>k. fst ` set (ca_maps ?a k)"
  note r = gpu_regionsD [OF inv] and free = runtime_okD(2) [OF rt]
  have keys: "p \<in> ?K k \<longleftrightarrow> map_of (ca_maps ?a k) p \<noteq> None" for p k by (rule umap_in_iff)
  have "\<exists>m1. gpu_free_all rt KManaged ?a ?m = Inr m1 \<and> mem_ok m1 \<and>
    (\<forall>q. map_of (m_regions m1) q = (if q \<noteq> nullptr \<and> q \<in> ?K KManaged then None else map_of (m_regions ?m) q))"
    unfolding gpu_free_all_def
    by (rule free_list_ok [OF free r(1,3)], rule entries_keep [OF inv, of _ _ _ _ "{}"]) simp_all
  then obtain m1 where m1: "gpu_free_all rt KManaged ?a ?m = Inr m1" "mem_ok m1"
    "\<And>q. map_of (m_regions m1) q = (if q \<noteq> nullptr \<and> q \<in> ?K KManaged then None else map_of (m_regions ?m) q)" by blast
  have "\<exists>m2. gpu_free_all rt KDevice ?a m1 = Inr m2 \<and> mem_ok m2 \<and>
    (\<forall>q. map_of (m_regions m2) q = (if q \<noteq> nullptr \<and> q \<in> ?K KDevice then None else map_of (m_regions m1) q))"
    unfolding gpu_free_all_def
    by (rule free_list_ok [OF free m1(2) r(3)], rule entries_keep [OF inv _ _ m1(3)])
      (assumption+, intro exI [of _ KManaged], simp add: keys)
  then obtain m2 where m2: "gpu_free_all rt KDevice ?a m1 = Inr m2" "mem_ok m2"
    "\<And>q. map_of (m_regions m2) q = (if q \<noteq> nullptr \<and> q \<in> ?K KDevice then None else map_of (m_regions m1) q)" by blast
  have m2': "map_of (m_regions m2) q = (if q \<noteq> nullptr \<and> q \<in> ?K KManaged \<union> ?K KDevice then None else map_of (m_regions ?m) q)" for q
    unfolding m2(3) m1(3) by auto
  have "\<exists>m3. gpu_free_all rt KPinned ?a m2 = Inr m3 \<and> mem_ok m3 \<and>
    (\<forall>q. map_of (m_regions m3) q = (if q \<noteq> nullptr \<and> q \<in> ?K KPinned then None else map_of (m_regions m2) q))"
    unfolding gpu_free_all_def
    by (rule free_list_ok [OF free m2(2) r(3)], rule entries_keep [OF inv _ _ m2'])
      (assumption+, metis Un_iff gpu_kind.distinct(3,5) keys)
  then obtain m3 where m3: "gpu_free_all rt KPinned ?a m2 = Inr m3" "mem_ok m3"
    "\<And>q. map_of (m_regions m3) q = (if q \<noteq> nullptr \<and> q \<in> ?K KPinned then None else map_of (m_regions m2) q)" by blast
  have "map_of (m_regions m3) q = map_of rs0 q" for q
  proof (cases "q = nullptr")
    case True
    then show ?thesis using null regions_null [OF m3(2)] by simp
  next
    case q: False
    show ?thesis
    proof (cases "\<exists>k. map_of (ca_maps ?a k) q \<noteq> None")
      case True
      then obtain k n where e: "map_of (ca_maps ?a k) q = Some n" by auto
      then have "map_of (m_regions m3) q = None" using q m3(3) [of q] m2' [of q] keys [of q k] by (cases k) auto
      with r(4) [OF e] q show ?thesis by (simp add: gpu_entry_def)
    next
      case False
      then have "map_of (ca_maps ?a k) q = None" for k by simp
      with r(5) [of q] show ?thesis using m3(3) [of q] m2' [of q] keys [of q] by simp
    qed
  qed
  then show ?thesis using m1(1) m2(1) m3(1,2) by (simp add: CudaAllocator_destroy_def fun_eq_iff)
qed

section \<open>A runtime\<close>

definition model_runtime :: "new_oracle \<Rightarrow> gpu_runtime" where
  "model_runtime new = \<lparr>rt_properties = (\<lambda>d. GpuDeviceInfo_default), rt_stream_create = Some 1, rt_cublas_create = Some 2,
     rt_cublas_set_stream = (\<lambda>_ _. Some ()),
     rt_alloc = (\<lambda>k d n m. if n = 0 then Some (nullptr, m) else new_region new (kind_space d k) n m),
     rt_free = (\<lambda>k p m. Inr (if p = nullptr then m else m\<lparr>m_regions := AList.delete p (m_regions m)\<rparr>)),
     rt_memcpy = (\<lambda>kind dst src n m. if n = 0 then Some m else if dst = nullptr \<or> src = nullptr then None
        else Some (put_bytes dst (map (m_val m) [src..<src + n]) m)),
     rt_memset = (\<lambda>p v n m. Inr (put_bytes p (replicate n (word_of_int v)) m)), rt_sync = (\<lambda>_. True)\<rparr>"

lemma model_runtime_ok:
  assumes "fresh_new new" and "\<And>rs n a. new rs n = Some a \<Longrightarrow> a + n \<le> 2 ^ 64"
  shows "runtime_ok (model_runtime new) d"
proof -
  have "alloc_ok (model_runtime new) d"
    unfolding alloc_ok_def
  proof (intro allI impI)
    fix k n m p m' assume m: "mem_ok m" and run: "rt_alloc (model_runtime new) k d n m = Some (p, m')"
    show "if n = 0 then p = nullptr \<and> m' = m
      else p \<noteq> nullptr \<and> mem_ok m' \<and> map_of (m_regions m) p = None \<and> p + n \<le> 2 ^ 64 \<and>
        m' = m\<lparr>m_regions := (p, n, kind_space d k) # m_regions m\<rparr>"
    proof (cases "n = 0")
      case False
      then have new: "new_region new (kind_space d k) n m = Some (p, m')" using run by (simp add: model_runtime_def)
      then have "p + n \<le> 2 ^ 64" using assms(2) by (auto simp: new_region_def split: option.splits)
      with new_region_ok [OF m assms(1) new] False show ?thesis by simp
    qed (use run in \<open>simp add: model_runtime_def\<close>)
  qed
  moreover have "free_ok (model_runtime new) d"
    unfolding free_ok_def model_runtime_def by (auto simp: mem_ok_def simp del: map_of_eq_Some_iff)
  moreover have "memcpy_ok (model_runtime new)"
    unfolding memcpy_ok_def by (auto simp: model_runtime_def mload_eq split: if_splits)
  moreover have "memset_ok (model_runtime new)" by (simp add: memset_ok_def model_runtime_def)
  ultimately show ?thesis by (simp add: runtime_ok_def model_runtime_def)
qed

lemma bump_bound: "bump_memalign al rs n = Some a \<Longrightarrow> a + n \<le> 2 ^ 64"
  by (auto simp: bump_memalign_def split: option.splits if_splits)

abbreviation bump_runtime :: gpu_runtime where
  "bump_runtime \<equiv> model_runtime (bump_memalign 64)"

lemma bump_runtime_ok: "runtime_ok bump_runtime d"
  using bump_memalign_ok bump_bound by (intro model_runtime_ok) (auto simp: memalign_ok_def)

section \<open>The properties of the allocator\<close>

text \<open>
  C23: whatever sequence of allocations and frees a client makes - unknown pointers, pointers of another
  kind and second frees included - \<open>CudaAllocator\<close> never frees a pointer it did not hand out, its byte
  counter is exactly the sum of the live allocations and below the peak, every recorded pointer is a
  live region of its kind and size, and the destructor returns everything: the memory has the regions
  it had before the allocator was made.
\<close>

theorem gpu_allocator_exact:
  assumes "runtime_ok rt d" and "mem_ok m"
  shows "\<exists>w w' m'. CudaAllocator_new rt d m = Inr w \<and> for_each (gpu_do rt) ops w = Inr w' \<and>
    unat (current_bytes (ca_stats (gw_alloc w'))) = gpu_live_bytes (gw_alloc w') \<and>
    current_bytes (ca_stats (gw_alloc w')) \<le> peak_bytes (ca_stats (gw_alloc w')) \<and> gpu_regions (m_regions m) w' \<and>
    CudaAllocator_destroy rt w' = Inr m' \<and> map_of (m_regions m') = map_of (m_regions m)"
proof -
  from CudaAllocator_new_ok [OF assms] obtain w where w: "CudaAllocator_new rt d m = Inr w" "gpu_inv (m_regions m) w"
    "ca_device_id (gw_alloc w) = d" by blast
  from gpu_run_ok [of "m_regions m" w rt ops] w(2,3) assms(1) obtain w' where
    w': "for_each (gpu_do rt) ops w = Inr w'" "gpu_inv (m_regions m) w'" "ca_device_id (gw_alloc w') = d" by blast
  from w'(2) have reg: "gpu_regions (m_regions m) w'" "gpu_stats_ok (gw_alloc w')" by (simp_all add: gpu_inv_def)
  from destroy_ok [OF reg(1)] w'(3) assms(1) regions_null [OF assms(2)] obtain m' where
    "CudaAllocator_destroy rt w' = Inr m'" "map_of (m_regions m') = map_of (m_regions m)" by blast
  with w(1) w'(1) reg show ?thesis unfolding gpu_stats_ok_def by blast
qed

lemma gpu_allocator_exact_witness:
  "\<exists>w w' m'. CudaAllocator_new bump_runtime 0 mem_empty = Inr w \<and>
    for_each (gpu_do bump_runtime) [Gpu_Alloc KManaged 40, Gpu_Alloc KPinned 8, Gpu_Free KDevice 64, Gpu_Free KManaged 64, Gpu_Free KManaged 64] w = Inr w' \<and>
    unat (current_bytes (ca_stats (gw_alloc w'))) = gpu_live_bytes (gw_alloc w') \<and>
    current_bytes (ca_stats (gw_alloc w')) \<le> peak_bytes (ca_stats (gw_alloc w')) \<and> gpu_regions (m_regions mem_empty) w' \<and>
    CudaAllocator_destroy bump_runtime w' = Inr m' \<and> map_of (m_regions m') = map_of (m_regions mem_empty)"
  by (rule gpu_allocator_exact [OF bump_runtime_ok mem_empty_ok])

text \<open>After \<open>reset_stats\<close> the counter no longer counts what is live: freeing what was allocated before wraps it around.\<close>

lemma gpu_reset_stats_wraps:
  "current_bytes (ca_stats (gpu_forget k p n (gpu_reset_stats (gpu_record k p n a)))) = - n"
  by (simp add: gpu_reset_stats_def stats_zero_def)

text \<open>Once the instance exists, the argument of \<open>Instance\<close> has no effect: the device of the first call stays.\<close>

lemma gpu_instance_ignores_device: "CudaAllocator_Instance rt d (Some w) m = Inr w"
  by (simp add: CudaAllocator_Instance_def)

end
