(* ===== verification/Gpu_Tensor.thy ===== *)
theory Gpu_Tensor
  imports Gpu_Memory
begin

text \<open>
  \<open>gpu/gpu_tensor.hpp\<close> and \<open>gpu/gpu_tensor.cpp\<close>: \<open>GpuTensor\<close>, a shape with a pointer to managed memory it
  may own, and its factory. The objects are values; the allocator and the memory are the world of
  \<open>Gpu_Memory\<close>. Shapes have fewer than \<open>2 ^ 31\<close> dimensions, so the counters of type \<open>int\<close> hold them.
\<close>

section \<open>Tensors\<close>

datatype GpuDType = G_kFloat32 | G_kFloat16 | G_kInt32 | G_kInt64 | G_kInt8 | G_kUInt8

fun GpuDType_code :: "GpuDType \<Rightarrow> int" where
  "GpuDType_code G_kFloat32 = 0" | "GpuDType_code G_kFloat16 = 1" | "GpuDType_code G_kInt32 = 2"
| "GpuDType_code G_kInt64 = 3" | "GpuDType_code G_kInt8 = 4" | "GpuDType_code G_kUInt8 = 5"

definition get_dtype_size :: "int \<Rightarrow> size_t" where
  "get_dtype_size d = (if d = 0 then 4 else if d = 1 then 2 else if d = 2 then 4 else if d = 3 then 8
     else if d = 4 then 1 else if d = 5 then 1 else 4)"

record GpuTensor =
  gt_data :: ptr
  gt_shape :: "index_t list"
  gt_strides :: "index_t list"
  gt_dtype :: int
  gt_owns :: bool

definition GpuTensor_default :: GpuTensor where
  "GpuTensor_default = \<lparr>gt_data = nullptr, gt_shape = [], gt_strides = [], gt_dtype = 0, gt_owns = False\<rparr>"

definition gt_size :: "GpuTensor \<Rightarrow> index_t comp" where
  "gt_size t = for_each (\<lambda>d n. s64 (n * d)) (gt_shape t) 1"

definition gt_ndim :: "GpuTensor \<Rightarrow> index_t" where "gt_ndim t = int (length (gt_shape t))"

definition gt_nbytes :: "GpuTensor \<Rightarrow> size_t comp" where
  "gt_nbytes t = rbind (gt_size t) (\<lambda>n. Inr (word_of_int n * get_dtype_size (gt_dtype t)))"

text \<open>The strides are resized to the shape and then written from the last dimension down.\<close>

definition gt_compute_strides :: "index_t list \<Rightarrow> index_t list comp" where
  "gt_compute_strides shape =
     (let n = length shape in
      if n = 0 then Inr []
      else for_each (\<lambda>i st. rbind (aget st (i + 1)) (\<lambda>s. rbind (aget shape (i + 1)) (\<lambda>d. rbind (s64 (s * d)) (aset st i))))
             (rev [0..<n - 1]) ((replicate n 0)[n - 1 := 1]))"

fun gt_contiguous_loop :: "GpuTensor \<Rightarrow> nat \<Rightarrow> index_t \<Rightarrow> bool comp" where
  "gt_contiguous_loop t 0 expected = Inr True"
| "gt_contiguous_loop t (Suc i) expected =
     rbind (aget (gt_shape t) i) (\<lambda>d. if d = 1 then gt_contiguous_loop t i expected
       else rbind (aget (gt_strides t) i) (\<lambda>s. if s \<noteq> expected then Inr False
         else rbind (s64 (expected * d)) (gt_contiguous_loop t i)))"

definition gt_is_contiguous :: "GpuTensor \<Rightarrow> bool comp" where
  "gt_is_contiguous t = gt_contiguous_loop t (length (gt_shape t)) 1"

definition gt_allocate :: "gpu_backend \<Rightarrow> GpuTensor \<Rightarrow> gpu_world \<Rightarrow> (GpuTensor \<times> gpu_world) comp" where
  "gt_allocate b t w = rbind (gt_nbytes t) (\<lambda>n.
     case backend_allocate_managed b n w of (p, w') \<Rightarrow> Inr (t\<lparr>gt_data := p\<rparr>, w'))"

definition gt_release :: "gpu_backend \<Rightarrow> GpuTensor \<Rightarrow> gpu_world \<Rightarrow> gpu_world comp" where
  "gt_release b t w = (if gt_owns t \<and> gt_data t \<noteq> nullptr then backend_deallocate_managed b (gt_data t) w else Inr w)"

definition gt_deallocate :: "gpu_backend \<Rightarrow> GpuTensor \<Rightarrow> gpu_world \<Rightarrow> (GpuTensor \<times> gpu_world) comp" where
  "gt_deallocate b t w = (if gt_owns t \<and> gt_data t \<noteq> nullptr
     then rbind (backend_deallocate_managed b (gt_data t) w) (\<lambda>w'. Inr (t\<lparr>gt_data := nullptr\<rparr>, w')) else Inr (t, w))"

section \<open>Construction, copies and moves\<close>

definition GpuTensor_new :: "gpu_backend \<Rightarrow> index_t list \<Rightarrow> int \<Rightarrow> gpu_world \<Rightarrow> (GpuTensor \<times> gpu_world) comp" where
  "GpuTensor_new b shape dtype w = rbind (gt_compute_strides shape) (\<lambda>st.
     gt_allocate b \<lparr>gt_data = nullptr, gt_shape = shape, gt_strides = st, gt_dtype = dtype, gt_owns = True\<rparr> w)"

definition GpuTensor_external :: "ptr \<Rightarrow> index_t list \<Rightarrow> index_t list \<Rightarrow> int \<Rightarrow> GpuTensor" where
  "GpuTensor_external p shape st dtype =
     \<lparr>gt_data = p, gt_shape = shape, gt_strides = st, gt_dtype = dtype, gt_owns = False\<rparr>"

definition gt_copy_bytes :: "gpu_backend \<Rightarrow> GpuTensor \<Rightarrow> GpuTensor \<times> gpu_world \<Rightarrow> (GpuTensor \<times> gpu_world) comp" where
  "gt_copy_bytes b other = (\<lambda>(t, w). rbind (gt_nbytes t) (\<lambda>n.
     rbind (backend_copy_managed b (gt_data t) (gt_data other) n w) (\<lambda>w'. Inr (t, w'))))"

definition GpuTensor_copy :: "gpu_backend \<Rightarrow> GpuTensor \<Rightarrow> gpu_world \<Rightarrow> (GpuTensor \<times> gpu_world) comp" where
  "GpuTensor_copy b other w =
     (if gt_data other \<noteq> nullptr \<and> gt_owns other
      then rbind (gt_allocate b (other\<lparr>gt_owns := True\<rparr>) w) (gt_copy_bytes b other)
      else Inr (other\<lparr>gt_owns := False\<rparr>, w))"

text \<open>\<open>self\<close>: both tensors are the same object, the test \<open>this != &other\<close> of the code.\<close>

definition GpuTensor_assign :: "bool \<Rightarrow> gpu_backend \<Rightarrow> GpuTensor \<Rightarrow> GpuTensor \<Rightarrow> gpu_world \<Rightarrow> (GpuTensor \<times> gpu_world) comp" where
  "GpuTensor_assign self b t other w =
     (if \<not> self
      then rbind (gt_release b t w) (\<lambda>w1. rbind (gt_allocate b (other\<lparr>gt_owns := True\<rparr>) w1) (gt_copy_bytes b other))
      else Inr (t, w))"

text \<open>A vector that was moved from is empty.\<close>

definition gt_moved_from :: "GpuTensor \<Rightarrow> GpuTensor" where
  "gt_moved_from t = t\<lparr>gt_data := nullptr, gt_owns := False, gt_shape := [], gt_strides := []\<rparr>"

definition GpuTensor_move :: "GpuTensor \<Rightarrow> GpuTensor \<times> GpuTensor" where
  "GpuTensor_move other = (other, gt_moved_from other)"

definition GpuTensor_move_assign :: "bool \<Rightarrow> gpu_backend \<Rightarrow> GpuTensor \<Rightarrow> GpuTensor \<Rightarrow> gpu_world \<Rightarrow> (GpuTensor \<times> GpuTensor \<times> gpu_world) comp" where
  "GpuTensor_move_assign self b t other w =
     (if \<not> self then rbind (gt_release b t w) (\<lambda>w'. Inr (other, gt_moved_from other, w')) else Inr (t, other, w))"

definition gt_view :: "GpuTensor \<Rightarrow> index_t list \<Rightarrow> GpuTensor" where
  "gt_view t shape = GpuTensor_external (gt_data t) shape [] (gt_dtype t)"

definition gt_reshape :: "GpuTensor \<Rightarrow> index_t list \<Rightarrow> GpuTensor" where
  "gt_reshape t shape = (GpuTensor_external (gt_data t) shape [] (gt_dtype t))\<lparr>gt_owns := False\<rparr>"

section \<open>Contents\<close>

definition gt_copy_from :: "gpu_backend \<Rightarrow> ptr \<Rightarrow> size_t \<Rightarrow> GpuTensor \<Rightarrow> gpu_world \<Rightarrow> gpu_world comp" where
  "gt_copy_from b host n t w = backend_copy_managed b (gt_data t) host n w"

definition gt_copy_to :: "gpu_backend \<Rightarrow> ptr \<Rightarrow> size_t \<Rightarrow> GpuTensor \<Rightarrow> gpu_world \<Rightarrow> gpu_world comp" where
  "gt_copy_to b host n t w = backend_copy_managed b host (gt_data t) n w"

text \<open>\<open>static_cast<int>\<close> of a \<open>float\<close>: truncation, undefined outside the range of \<open>int\<close>.\<close>

definition f32_to_int :: "f32 \<Rightarrow> int comp" where
  "f32_to_int v =
     (let e = nat (uint (drop_bit 23 v) mod 256); f = uint v mod 2 ^ 23 + 2 ^ 23;
          n = (if e < 127 then 0 else if e \<le> 150 then f div 2 ^ (150 - e) else f * 2 ^ (e - 150));
          x = (if bit v 31 then - n else n) in
      if - (2 ^ 31) \<le> x \<and> x < 2 ^ 31 then Inr x else Inl Signed_Overflow)"

definition gt_fill :: "gpu_backend \<Rightarrow> f32 \<Rightarrow> GpuTensor \<Rightarrow> gpu_world \<Rightarrow> gpu_world comp" where
  "gt_fill b v t w =
     (case b of
        Cuda rt \<Rightarrow> rbind (f32_to_int v) (\<lambda>x. rbind (gt_nbytes t) (\<lambda>n.
          rbind (rt_memset rt (gt_data t) x (unat n) (gw_mem w)) (\<lambda>m'. backend_synchronize b (w\<lparr>gw_mem := m'\<rparr>))))
      | No_Cuda \<Rightarrow> rbind (gt_size t) (\<lambda>n.
          rbind (mstore Host (gt_data t) (concat (replicate (nat n) (bytes_of_f32 v))) (gw_mem w)) (\<lambda>m'. Inr (w\<lparr>gw_mem := m'\<rparr>))))"

definition gt_zero :: "gpu_backend \<Rightarrow> GpuTensor \<Rightarrow> gpu_world \<Rightarrow> gpu_world comp" where
  "gt_zero b = gt_fill b 0"

section \<open>The factory\<close>

definition Factory_create :: "gpu_backend \<Rightarrow> index_t list \<Rightarrow> int \<Rightarrow> gpu_world \<Rightarrow> (GpuTensor \<times> gpu_world) comp" where
  "Factory_create b shape dtype w = GpuTensor_new b shape dtype w"

definition Factory_create_uninitialized :: "gpu_backend \<Rightarrow> index_t list \<Rightarrow> int \<Rightarrow> gpu_world \<Rightarrow> (GpuTensor \<times> gpu_world) comp" where
  "Factory_create_uninitialized b shape dtype w =
     (let t = GpuTensor_default\<lparr>gt_shape := shape, gt_dtype := dtype, gt_owns := True\<rparr> in
      rbind (gt_compute_strides shape) (\<lambda>st. gt_allocate b (t\<lparr>gt_strides := st\<rparr>) w))"

definition Factory_from_host :: "gpu_backend \<Rightarrow> ptr \<Rightarrow> index_t list \<Rightarrow> int \<Rightarrow> gpu_world \<Rightarrow> (GpuTensor \<times> gpu_world) comp" where
  "Factory_from_host b host shape dtype w =
     rbind (GpuTensor_new b shape dtype w) (\<lambda>(t, w1). rbind (gt_nbytes t) (\<lambda>n.
       rbind (gt_copy_from b host n t w1) (\<lambda>w2. Inr (t, w2))))"

definition Factory_zeros :: "gpu_backend \<Rightarrow> index_t list \<Rightarrow> int \<Rightarrow> gpu_world \<Rightarrow> (GpuTensor \<times> gpu_world) comp" where
  "Factory_zeros b shape dtype w = rbind (GpuTensor_new b shape dtype w) (\<lambda>(t, w1). rbind (gt_zero b t w1) (\<lambda>w2. Inr (t, w2)))"

definition Factory_randn :: "gpu_backend \<Rightarrow> index_t list \<Rightarrow> f32 \<Rightarrow> f32 \<Rightarrow> gpu_world \<Rightarrow> (GpuTensor \<times> gpu_world) comp" where
  "Factory_randn b shape mean std_dev w = rbind (GpuTensor_new b shape 0 w) (\<lambda>(t, w1). rbind (gt_zero b t w1) (\<lambda>w2. Inr (t, w2)))"

section \<open>Shapes that fit\<close>

lemma gt_size_fits:
  assumes "dims_fit shape"
  shows "for_each (\<lambda>d n. s64 (n * d)) shape 1 = Inr (prod_list shape)"
proof -
  have "for_each (\<lambda>d n. s64 (n * d)) shape 1 = for_each (\<lambda>d n. s64 (n * d)) (map ((!) shape) [0..<length shape]) 1"
    by (simp add: map_nth)
  also have "\<dots> = for_each (\<lambda>i n. rbind (aget shape i) (\<lambda>d. s64 (n * d))) [0..<length shape] 1"
    unfolding for_each_map by (rule for_each_cong) simp
  finally show ?thesis using prod_loop [of shape shape] assms by simp
qed

lemma gt_strides_fit:
  assumes fit: "dims_fit shape"
  shows "gt_compute_strides shape = Inr (map (\<lambda>i. prod_list (drop (Suc i) shape)) [0..<length shape])"
proof (cases "shape = []")
  case False
  let ?n = "length shape"
  let ?body = "\<lambda>i st. rbind (aget st (i + 1)) (\<lambda>s. rbind (aget shape (i + 1)) (\<lambda>d. rbind (s64 (s * d)) (aset st i)))"
  let ?P = "\<lambda>k st. length st = ?n \<and> (\<forall>i. k \<le> i \<and> i < ?n \<longrightarrow> st ! i = prod_list (drop (Suc i) shape))"
  have "\<exists>st. for_each ?body (rev [0..<?n - 1]) ((replicate ?n 0)[?n - 1 := 1]) = Inr st \<and> ?P 0 st"
  proof (rule for_each_down [where P = ?P])
    show "?P (?n - 1) ((replicate ?n 0)[?n - 1 := 1])" using False by (auto simp: nth_list_update)
    fix i st assume i: "i < ?n - 1" and P: "?P (Suc i) st"
    have step: "prod_list (drop (Suc i) shape) = prod_list (drop (Suc (Suc i)) shape) * shape ! Suc i"
      using i by (simp add: Cons_nth_drop_Suc [symmetric])
    have "0 < prod_list (drop (Suc i) shape)" "prod_list (drop (Suc i) shape) < 2 ^ 63" using dims_fit_partial(3,4) [OF fit, of "Suc i"] by blast+
    then have "?body i st = Inr (st[i := prod_list (drop (Suc i) shape)])"
      using i P step by (simp add: s64_def)
    moreover have "?P i (st[i := prod_list (drop (Suc i) shape)])" using i P by (auto simp: nth_list_update)
    ultimately show "\<exists>t. ?body i st = Inr t \<and> ?P i t" by blast
  qed
  then obtain st where st: "for_each ?body (rev [0..<?n - 1]) ((replicate ?n 0)[?n - 1 := 1]) = Inr st"
    "length st = ?n" "\<forall>i < ?n. st ! i = prod_list (drop (Suc i) shape)" by auto
  have "st = map (\<lambda>i. prod_list (drop (Suc i) shape)) [0..<?n]" by (rule nth_equalityI) (simp_all add: st(2,3))
  with st(1) False show ?thesis by (simp add: gt_compute_strides_def)
qed (simp add: gt_compute_strides_def)

lemma gt_allocate_eq:
  "gt_allocate b t w = Inr (t', w') \<longleftrightarrow> (\<exists>n p. gt_nbytes t = Inr n \<and> backend_allocate_managed b n w = (p, w') \<and> t' = t\<lparr>gt_data := p\<rparr>)"
proof (cases "gt_nbytes t")
  case (Inr n)
  then show ?thesis by (cases "backend_allocate_managed b n w") (auto simp: gt_allocate_def)
qed (simp add: gt_allocate_def)

lemma GpuTensor_new_fields:
  assumes "GpuTensor_new b shape dtype w = Inr (t, w')"
  shows "gt_shape t = shape" and "gt_compute_strides shape = Inr (gt_strides t)" and "gt_dtype t = dtype" and "gt_owns t"
proof -
  obtain st where st: "gt_compute_strides shape = Inr st"
    "gt_allocate b \<lparr>gt_data = nullptr, gt_shape = shape, gt_strides = st, gt_dtype = dtype, gt_owns = True\<rparr> w = Inr (t, w')"
    using assms unfolding GpuTensor_new_def rbind_eq_Inr by blast
  then show "gt_shape t = shape" "gt_compute_strides shape = Inr (gt_strides t)" "gt_dtype t = dtype" "gt_owns t"
    unfolding gt_allocate_eq by (auto simp del: split_paired_Ex)
qed

text \<open>The check for contiguity accepts the strides the constructor computes, and reads past the end of a view's.\<close>

lemma gt_contiguous_loop_fit:
  assumes fit: "dims_fit (gt_shape t)" and st: "gt_strides t = map (\<lambda>i. prod_list (drop (Suc i) (gt_shape t))) [0..<length (gt_shape t)]"
    and "i \<le> length (gt_shape t)"
  shows "gt_contiguous_loop t i (prod_list (drop i (gt_shape t))) = Inr True"
  using assms(3)
proof (induction i)
  case (Suc i)
  have step: "prod_list (drop i (gt_shape t)) = gt_shape t ! i * prod_list (drop (Suc i) (gt_shape t))"
    using Suc.prems by (simp add: Cons_nth_drop_Suc [symmetric])
  have "0 < prod_list (drop i (gt_shape t))" "prod_list (drop i (gt_shape t)) < 2 ^ 63"
    using dims_fit_partial(3,4) [OF fit, of i] by blast+
  with Suc step show ?case by (cases "gt_shape t ! i = 1") (simp_all add: st s64_def mult.commute)
qed simp

text \<open>
  A tensor the constructor made has row-major strides and counts as contiguous, but every view and
  reshape is made without strides: asking it whether it is contiguous reads outside the empty vector,
  unless all its dimensions are 1.
\<close>

theorem gt_contiguity:
  assumes "dims_fit shape" and "GpuTensor_new b shape dtype w = Inr (t, w')"
  shows "gt_strides t = map (\<lambda>i. prod_list (drop (Suc i) shape)) [0..<length shape] \<and> gt_is_contiguous t = Inr True \<and>
    gt_is_contiguous (gt_view t new_shape) = (if set new_shape \<subseteq> {1} then Inr True else Inl Out_Of_Bounds) \<and>
    gt_is_contiguous (gt_reshape t new_shape) = (if set new_shape \<subseteq> {1} then Inr True else Inl Out_Of_Bounds)"
proof -
  have t: "gt_shape t = shape" "gt_strides t = map (\<lambda>i. prod_list (drop (Suc i) shape)) [0..<length shape]"
    using GpuTensor_new_fields [OF assms(2)] gt_strides_fit [OF assms(1)] by simp_all
  have "gt_is_contiguous t = Inr True"
    using gt_contiguous_loop_fit [of t "length shape"] assms(1) t by (simp add: gt_is_contiguous_def)
  moreover have "gt_contiguous_loop v i 1 = (if set (take i new_shape) \<subseteq> {1} then Inr True else Inl Out_Of_Bounds)"
    if "gt_shape v = new_shape" "gt_strides v = []" "i \<le> length new_shape" for v i
    using that
  proof (induction i)
    case (Suc i)
    then show ?case by (simp add: take_Suc_conv_app_nth aget_def)
  qed simp
  ultimately show ?thesis using t
    by (simp add: gt_is_contiguous_def gt_view_def gt_reshape_def GpuTensor_external_def)
qed

lemma gt_contiguity_witness:
  "gt_is_contiguous (gt_view (GpuTensor_default\<lparr>gt_owns := True, gt_shape := [2, 3], gt_strides := [3, 1]\<rparr>) [6]) = Inl Out_Of_Bounds"
proof -
  let ?w = "\<lparr>gw_alloc = undefined, gw_mem = undefined, gw_current = 0\<rparr>"
  let ?t = "GpuTensor_default\<lparr>gt_owns := True, gt_shape := [2, 3], gt_strides := [3, 1]\<rparr>"
  have "dims_fit [2, 3]" by (simp add: dims_fit_def)
  moreover have "GpuTensor_new No_Cuda [2, 3] 0 ?w = Inr (?t, ?w)"
    by (simp add: GpuTensor_new_def gt_compute_strides_def gt_allocate_def gt_nbytes_def gt_size_def s64_def
      backend_allocate_managed_def GpuTensor_default_def Let_def numeral_eq_Suc)
  ultimately show ?thesis using gt_contiguity [of "[2, 3]" No_Cuda 0 ?w ?t ?w "[6]"] by simp
qed

section \<open>Ownership\<close>

text \<open>What a scope does with tensors; at its end they are destroyed in turn.\<close>

datatype gt_op = Gt_Make "index_t list" int | Gt_Uninitialized "index_t list" int | Gt_From ptr "index_t list" int
  | Gt_Copy nat | Gt_Move nat | Gt_Assign nat nat | Gt_Move_Assign nat nat | Gt_View nat "index_t list"

definition gt_push :: "GpuTensor list \<Rightarrow> (GpuTensor \<times> gpu_world) comp \<Rightarrow> (GpuTensor list \<times> gpu_world) comp" where
  "gt_push ts r = rbind r (\<lambda>(t, w). Inr (ts @ [t], w))"

definition gt_do :: "gpu_backend \<Rightarrow> gt_op \<Rightarrow> GpuTensor list \<times> gpu_world \<Rightarrow> (GpuTensor list \<times> gpu_world) comp" where
  "gt_do b op = (\<lambda>(ts, w). case op of
       Gt_Make shape dtype \<Rightarrow> gt_push ts (Factory_create b shape dtype w)
     | Gt_Uninitialized shape dtype \<Rightarrow> gt_push ts (Factory_create_uninitialized b shape dtype w)
     | Gt_From host shape dtype \<Rightarrow> gt_push ts (Factory_from_host b host shape dtype w)
     | Gt_Copy i \<Rightarrow> if i < length ts then gt_push ts (GpuTensor_copy b (ts ! i) w) else Inr (ts, w)
     | Gt_Move i \<Rightarrow> if i < length ts then case GpuTensor_move (ts ! i) of (t, o') \<Rightarrow> Inr (ts[i := o'] @ [t], w) else Inr (ts, w)
     | Gt_Assign i j \<Rightarrow> if i < length ts \<and> j < length ts
         then rbind (GpuTensor_assign (i = j) b (ts ! i) (ts ! j) w) (\<lambda>(t, w'). Inr (ts[i := t], w')) else Inr (ts, w)
     | Gt_Move_Assign i j \<Rightarrow> if i < length ts \<and> j < length ts
         then rbind (GpuTensor_move_assign (i = j) b (ts ! i) (ts ! j) w) (\<lambda>(t, o', w'). Inr (ts[i := t, j := o'], w')) else Inr (ts, w)
     | Gt_View i shape \<Rightarrow> if i < length ts then Inr (ts @ [gt_view (ts ! i) shape], w) else Inr (ts, w))"

definition gt_end_scope :: "gpu_backend \<Rightarrow> GpuTensor list \<Rightarrow> gpu_world \<Rightarrow> gpu_world comp" where
  "gt_end_scope b ts w = for_each (gt_release b) ts w"

definition gt_owned :: "GpuTensor \<Rightarrow> ptr multiset" where
  "gt_owned t = (if gt_owns t \<and> gt_data t \<noteq> nullptr then {#gt_data t#} else {#})"

definition gt_owners :: "GpuTensor list \<Rightarrow> ptr multiset" where
  "gt_owners ts = (\<Sum>t \<leftarrow> ts. gt_owned t)"

definition gpu_live :: "gpu_world \<Rightarrow> ptr set" where
  "gpu_live w = {p. p \<noteq> nullptr \<and> map_of (ca_maps (gw_alloc w) KManaged) p \<noteq> None}"

definition gt_world_ok :: "gpu_runtime \<Rightarrow> (ptr, nat \<times> space) umap \<Rightarrow> gpu_world \<Rightarrow> bool" where
  "gt_world_ok rt rs0 w \<longleftrightarrow> gpu_inv rs0 w \<and> runtime_ok rt (ca_device_id (gw_alloc w)) \<and>
     ca_maps (gw_alloc w) KDevice = [] \<and> ca_maps (gw_alloc w) KPinned = []"

definition gt_inv :: "gpu_runtime \<Rightarrow> (ptr, nat \<times> space) umap \<Rightarrow> GpuTensor list \<times> gpu_world \<Rightarrow> bool" where
  "gt_inv rt rs0 = (\<lambda>(ts, w). gt_world_ok rt rs0 w \<and> gt_owners ts = mset_set (gpu_live w))"

lemma finite_live [simp]: "finite (gpu_live w)"
proof -
  have "gpu_live w \<subseteq> fst ` set (ca_maps (gw_alloc w) KManaged)" by (auto simp: gpu_live_def umap_in_iff)
  then show ?thesis by (rule finite_subset) simp
qed

lemma gpu_set_device_ok: "gt_world_ok rt rs0 w \<Longrightarrow> gpu_set_device w = w"
  using gpu_set_device_id [of rs0 w] by (simp add: gt_world_ok_def gpu_inv_def)

lemma managed_allocate_ok:
  assumes ok: "gt_world_ok rt rs0 w" and run: "backend_allocate_managed (Cuda rt) n w = (p, w')"
  shows "gt_world_ok rt rs0 w'" and "gpu_live w' = (if p = nullptr then gpu_live w else insert p (gpu_live w))"
    and "p \<notin> gpu_live w"
proof -
  have a: "gpu_allocate rt KManaged n w = (p, w')" using run gpu_set_device_ok [OF ok]
    by (simp add: backend_allocate_managed_def allocate_managed_def)
  have inv: "gpu_inv rs0 w" "runtime_ok rt (ca_device_id (gw_alloc w))" using ok by (simp_all add: gt_world_ok_def)
  note A = gpu_allocate_ok [OF inv a]
  have "ca_maps (gw_alloc w') k = ca_maps (gw_alloc w) k" if "k \<noteq> KManaged" for k
    using a that by (auto simp: gpu_allocate_def split: option.splits)
  with ok A(1,2) show "gt_world_ok rt rs0 w'" by (simp add: gt_world_ok_def)
  show "gpu_live w' = (if p = nullptr then gpu_live w else insert p (gpu_live w))"
  proof (cases "p = nullptr")
    case True
    with A(4) show ?thesis by (auto simp: gpu_live_def)
  next
    case False
    with A(3) have "gw_alloc w' = gpu_record KManaged p n (gw_alloc w)" by blast
    with False show ?thesis by (auto simp: gpu_live_def update_conv' split: if_splits)
  qed
  show "p \<notin> gpu_live w"
  proof
    assume "p \<in> gpu_live w"
    then have "p \<noteq> nullptr" "map_of (ca_maps (gw_alloc w) KManaged) p \<noteq> None" unfolding gpu_live_def by blast+
    with A(3) show False by blast
  qed
qed

lemma managed_deallocate_ok:
  assumes ok: "gt_world_ok rt rs0 w" and p: "p \<in> gpu_live w"
  shows "\<exists>w'. backend_deallocate_managed (Cuda rt) p w = Inr w' \<and> gt_world_ok rt rs0 w' \<and> gpu_live w' = gpu_live w - {p}"
proof -
  have inv: "gpu_inv rs0 w" "runtime_ok rt (ca_device_id (gw_alloc w))" using ok by (simp_all add: gt_world_ok_def)
  obtain n where n: "p \<noteq> nullptr" "map_of (ca_maps (gw_alloc w) KManaged) p = Some n" using p by (auto simp: gpu_live_def)
  from gpu_deallocate_ok(2) [OF inv n] obtain w' where w': "gpu_deallocate rt KManaged p w = Inr w'" "gpu_inv rs0 w'"
    "gw_alloc w' = gpu_forget KManaged p n (gw_alloc w)" by blast
  have "gt_world_ok rt rs0 w'" using w' ok by (simp add: gt_world_ok_def)
  moreover have "gpu_live w' = gpu_live w - {p}" by (auto simp: gpu_live_def w'(3) delete_conv')
  moreover have "backend_deallocate_managed (Cuda rt) p w = Inr w'"
    using w'(1) n(1) gpu_set_device_ok [OF ok] by (simp add: backend_deallocate_managed_def deallocate_managed_def)
  ultimately show ?thesis by blast
qed

text \<open>A copy ends the process or keeps all regions.\<close>

lemma managed_copy_ok:
  assumes ok: "gt_world_ok rt rs0 w"
  shows "backend_copy_managed (Cuda rt) dst src n w = Inl Process_Exit \<or>
    (\<exists>w'. backend_copy_managed (Cuda rt) dst src n w = Inr w' \<and> gt_world_ok rt rs0 w' \<and> gpu_live w' = gpu_live w)"
proof (cases "rt_memcpy rt CopyDefault dst src (unat n) (gw_mem w)")
  case (Some m')
  have "memcpy_ok rt" using ok by (simp add: gt_world_ok_def runtime_ok_def)
  then have same: "m_regions m' = m_regions (gw_mem w)" by (rule memcpy_regions [rule_format, OF _ Some])
  let ?w' = "w\<lparr>gw_mem := m'\<rparr>"
  have "gt_world_ok rt rs0 ?w'" "gpu_live ?w' = gpu_live w"
    using ok gpu_inv_mem [OF same, of rs0] by (simp_all add: gt_world_ok_def gpu_live_def)
  then show ?thesis using Some
    by (intro disjI2 exI [of _ ?w']) (simp add: backend_copy_managed_def copy_managed_def gpu_copy_def cuda_check_def)
qed (simp add: backend_copy_managed_def copy_managed_def gpu_copy_def cuda_check_def)

text \<open>Sizes and strides fault by overflow only.\<close>

lemma size_faults: "for_each (\<lambda>d n. s64 (n * d)) ds k = Inl e \<Longrightarrow> e = Signed_Overflow"
  by (induction ds arbitrary: k) (auto simp: s64_def rbind_eq_Inl split: if_splits)

lemma nbytes_faults: "gt_nbytes t = Inl e \<Longrightarrow> e = Signed_Overflow"
  by (auto simp: gt_nbytes_def gt_size_def rbind_eq_Inl dest: size_faults)

lemma strides_loop_faults:
  assumes "length st = length shape" and "\<forall>i \<in> set is. i + 1 < length shape"
    and "for_each (\<lambda>i st. rbind (aget st (i + 1)) (\<lambda>s. rbind (aget shape (i + 1)) (\<lambda>d. rbind (s64 (s * d)) (aset st i)))) is st = Inl e"
  shows "e = Signed_Overflow"
  using assms
proof (induction "is" arbitrary: st)
  case (Cons i "is")
  then have i: "i + 1 < length st" "i + 1 < length shape" by simp_all
  show ?case
  proof (cases "s64 (st ! (i + 1) * shape ! (i + 1))")
    case (Inl e')
    with Cons.prems(3) i show ?thesis by (auto simp: s64_def split: if_splits)
  next
    case (Inr x)
    with Cons.prems i show ?thesis by (intro Cons.IH [of "st[i := x]"]) simp_all
  qed
qed simp

lemma strides_faults: "gt_compute_strides shape = Inl e \<Longrightarrow> e = Signed_Overflow"
  by (cases "shape = []")
    (auto simp: gt_compute_strides_def Let_def intro: strides_loop_faults [of "(replicate (length shape) 0)[length shape - 1 := 1]" shape "rev [0..<length shape - 1]"])

text \<open>What a function that makes a tensor does to the live allocations.\<close>

definition gt_makes :: "gpu_runtime \<Rightarrow> (ptr, nat \<times> space) umap \<Rightarrow> ptr multiset \<Rightarrow> (GpuTensor \<times> gpu_world) comp \<Rightarrow> bool" where
  "gt_makes rt rs0 M r = (case r of Inl e \<Rightarrow> e = Process_Exit \<or> e = Signed_Overflow
     | Inr (t, w) \<Rightarrow> gt_world_ok rt rs0 w \<and> mset_set (gpu_live w) = M + gt_owned t)"

lemma allocate_makes:
  assumes "gt_world_ok rt rs0 w" and "gt_owns t"
  shows "gt_makes rt rs0 (mset_set (gpu_live w)) (gt_allocate (Cuda rt) t w)"
proof (cases "gt_nbytes t")
  case (Inl e)
  then show ?thesis using nbytes_faults [OF Inl] by (simp add: gt_allocate_def gt_makes_def)
next
  case (Inr n)
  obtain p w' where a: "backend_allocate_managed (Cuda rt) n w = (p, w')" by (cases "backend_allocate_managed (Cuda rt) n w")
  with Inr have "gt_allocate (Cuda rt) t w = Inr (t\<lparr>gt_data := p\<rparr>, w')" by (simp add: gt_allocate_def)
  with managed_allocate_ok [OF assms(1) a] assms(2) show ?thesis by (simp add: gt_makes_def gt_owned_def)
qed

lemma copy_makes:
  assumes "gt_makes rt rs0 M r"
  shows "gt_makes rt rs0 M (rbind r (gt_copy_bytes (Cuda rt) other))"
proof (cases r)
  case (Inr s)
  obtain t w where s: "s = (t, w)" by (cases s)
  have w: "gt_world_ok rt rs0 w" "mset_set (gpu_live w) = M + gt_owned t" using assms by (simp_all add: Inr s gt_makes_def)
  show ?thesis
  proof (cases "gt_nbytes t")
    case (Inl e)
    then show ?thesis using nbytes_faults [OF Inl] by (simp add: Inr s gt_copy_bytes_def gt_makes_def)
  next
    case n: (Inr n)
    from managed_copy_ok [OF w(1), of "gt_data t" "gt_data other" n] show ?thesis
    proof
      assume "\<exists>w'. backend_copy_managed (Cuda rt) (gt_data t) (gt_data other) n w = Inr w' \<and> gt_world_ok rt rs0 w' \<and> gpu_live w' = gpu_live w"
      then obtain w' where "backend_copy_managed (Cuda rt) (gt_data t) (gt_data other) n w = Inr w'" "gt_world_ok rt rs0 w'"
        "gpu_live w' = gpu_live w" by blast
      with w(2) n show ?thesis by (simp add: Inr s gt_copy_bytes_def gt_makes_def)
    qed (use n in \<open>simp add: Inr s gt_copy_bytes_def gt_makes_def\<close>)
  qed
qed (use assms in \<open>simp add: gt_makes_def\<close>)

lemma new_makes:
  assumes "gt_world_ok rt rs0 w"
  shows "gt_makes rt rs0 (mset_set (gpu_live w)) (GpuTensor_new (Cuda rt) shape dtype w)"
proof (cases "gt_compute_strides shape")
  case (Inl e)
  then show ?thesis using strides_faults [OF Inl] by (simp add: GpuTensor_new_def gt_makes_def)
next
  case (Inr st)
  then show ?thesis using allocate_makes [OF assms] by (simp add: GpuTensor_new_def)
qed

lemma uninitialized_is_create: "Factory_create_uninitialized b shape dtype w = Factory_create b shape dtype w"
  by (simp add: Factory_create_uninitialized_def Factory_create_def GpuTensor_new_def GpuTensor_default_def Let_def)

lemma from_host_is_copy:
  "Factory_from_host b host shape dtype w = rbind (GpuTensor_new b shape dtype w) (gt_copy_bytes b (GpuTensor_external host [] [] 0))"
  by (simp add: Factory_from_host_def gt_copy_bytes_def gt_copy_from_def GpuTensor_external_def)

lemma gt_copy_makes:
  assumes "gt_world_ok rt rs0 w"
  shows "gt_makes rt rs0 (mset_set (gpu_live w)) (GpuTensor_copy (Cuda rt) t w)"
  using assms copy_makes [OF allocate_makes [OF assms, of "t\<lparr>gt_owns := True\<rparr>"], of t]
  by (cases "gt_data t \<noteq> nullptr \<and> gt_owns t") (auto simp: GpuTensor_copy_def gt_makes_def gt_owned_def)

lemma gt_release_ok:
  assumes "gt_world_ok rt rs0 w" and "gt_owned t \<subseteq># mset_set (gpu_live w)"
  shows "\<exists>w'. gt_release (Cuda rt) t w = Inr w' \<and> gt_world_ok rt rs0 w' \<and> mset_set (gpu_live w) = mset_set (gpu_live w') + gt_owned t"
proof (cases "gt_owns t \<and> gt_data t \<noteq> nullptr")
  case True
  then have live: "gt_data t \<in> gpu_live w" using assms(2) by (simp add: gt_owned_def)
  from managed_deallocate_ok [OF assms(1) live] obtain w' where w': "backend_deallocate_managed (Cuda rt) (gt_data t) w = Inr w'"
    "gt_world_ok rt rs0 w'" "gpu_live w' = gpu_live w - {gt_data t}" by blast
  have "mset_set (gpu_live w) = mset_set (gpu_live w') + {#gt_data t#}"
    using live unfolding w'(3) by (simp add: mset_set_Diff)
  with w'(1,2) True show ?thesis by (intro exI [of _ w']) (simp add: gt_release_def gt_owned_def)
next
  case False
  then have "gt_release (Cuda rt) t w = Inr w" "gt_owned t = {#}" by (auto simp: gt_release_def gt_owned_def)
  with assms(1) show ?thesis by (intro exI [of _ w]) simp
qed

text \<open>Each operation of a scope keeps the correspondence between owners and allocations.\<close>

definition gt_step_ok :: "gpu_runtime \<Rightarrow> (ptr, nat \<times> space) umap \<Rightarrow> (GpuTensor list \<times> gpu_world) comp \<Rightarrow> bool" where
  "gt_step_ok rt rs0 r = (case r of Inl e \<Rightarrow> e = Process_Exit \<or> e = Signed_Overflow | Inr s \<Rightarrow> gt_inv rt rs0 s)"

lemma owners_snoc: "gt_owners (ts @ [t]) = gt_owners ts + gt_owned t"
  by (simp add: gt_owners_def)

lemma owners_update:
  "i < length ts \<Longrightarrow> gt_owners (ts[i := t]) + gt_owned (ts ! i) = gt_owners ts + gt_owned t"
  unfolding gt_owners_def by (rule sum_list_map_update)

lemma owned_in_owners: "i < length ts \<Longrightarrow> gt_owned (ts ! i) \<subseteq># gt_owners ts"
proof (induction ts arbitrary: i)
  case (Cons t ts)
  then show ?case by (cases i) (auto simp: gt_owners_def subset_mset.add_increasing)
qed simp

lemma owned_unowned [simp]:
  "gt_owned (gt_moved_from t) = {#}" "gt_owned (gt_view t shape) = {#}" "gt_owned (t\<lparr>gt_owns := False\<rparr>) = {#}"
  by (simp_all add: gt_owned_def gt_moved_from_def gt_view_def GpuTensor_external_def)

lemma push_ok:
  assumes "gt_inv rt rs0 (ts, w)" and "gt_makes rt rs0 (mset_set (gpu_live w)) r"
  shows "gt_step_ok rt rs0 (gt_push ts r)"
  using assms by (cases r) (auto simp: gt_push_def gt_step_ok_def gt_makes_def gt_inv_def owners_snoc)

lemma assign_ok:
  assumes inv: "gt_inv rt rs0 (ts, w)" and i: "i < length ts"
  shows "gt_step_ok rt rs0 (rbind (GpuTensor_assign False (Cuda rt) (ts ! i) other w) (\<lambda>(t, w'). Inr (ts[i := t], w')))"
proof -
  have w: "gt_world_ok rt rs0 w" "gt_owners ts = mset_set (gpu_live w)" using inv by (simp_all add: gt_inv_def)
  from gt_release_ok [OF w(1)] owned_in_owners [OF i] w(2) obtain w1 where
    w1: "gt_release (Cuda rt) (ts ! i) w = Inr w1" "gt_world_ok rt rs0 w1" "mset_set (gpu_live w) = mset_set (gpu_live w1) + gt_owned (ts ! i)"
    by auto
  have "gt_makes rt rs0 (mset_set (gpu_live w1)) (GpuTensor_assign False (Cuda rt) (ts ! i) other w)"
    using copy_makes [OF allocate_makes [OF w1(2), of "other\<lparr>gt_owns := True\<rparr>"], of other]
    by (simp add: GpuTensor_assign_def w1(1))
  moreover have "gt_owners (ts[i := t]) = mset_set (gpu_live w1) + gt_owned t" for t
    using owners_update [OF i, of t] w(2) w1(3) by simp
  ultimately show ?thesis
    by (cases "GpuTensor_assign False (Cuda rt) (ts ! i) other w") (auto simp: gt_makes_def gt_step_ok_def gt_inv_def)
qed

lemma move_assign_ok:
  assumes inv: "gt_inv rt rs0 (ts, w)" and i: "i < length ts" and j: "j < length ts" and ij: "i \<noteq> j"
  shows "gt_step_ok rt rs0 (rbind (GpuTensor_move_assign False (Cuda rt) (ts ! i) (ts ! j) w) (\<lambda>(t, o', w'). Inr (ts[i := t, j := o'], w')))"
proof -
  have w: "gt_world_ok rt rs0 w" "gt_owners ts = mset_set (gpu_live w)" using inv by (simp_all add: gt_inv_def)
  from gt_release_ok [OF w(1)] owned_in_owners [OF i] w(2) obtain w1 where
    w1: "gt_release (Cuda rt) (ts ! i) w = Inr w1" "gt_world_ok rt rs0 w1" "mset_set (gpu_live w) = mset_set (gpu_live w1) + gt_owned (ts ! i)"
    by auto
  have "gt_owners (ts[i := ts ! j, j := gt_moved_from (ts ! j)]) = mset_set (gpu_live w1)"
    using owners_update [OF i, of "ts ! j"] owners_update [of j "ts[i := ts ! j]" "gt_moved_from (ts ! j)"] i j ij w(2) w1(3)
    by (simp add: multiset_eq_iff)
  with w1(1,2) show ?thesis by (simp add: GpuTensor_move_assign_def gt_step_ok_def gt_inv_def)
qed

lemma move_ok:
  assumes inv: "gt_inv rt rs0 (ts, w)" and i: "i < length ts"
  shows "gt_inv rt rs0 (ts[i := gt_moved_from (ts ! i)] @ [ts ! i], w)"
  using inv owners_update [OF i, of "gt_moved_from (ts ! i)"] by (simp add: gt_inv_def owners_snoc)

lemma gt_do_ok:
  assumes inv: "gt_inv rt rs0 (ts, w)"
  shows "gt_step_ok rt rs0 (gt_do (Cuda rt) op (ts, w))"
proof -
  have w: "gt_world_ok rt rs0 w" using inv by (simp add: gt_inv_def)
  have skip: "gt_step_ok rt rs0 (Inr (ts, w))" using inv by (simp add: gt_step_ok_def)
  note push = push_ok [OF inv]
  show ?thesis
  proof (cases op)
    case (Gt_Make shape dtype)
    then show ?thesis using push [OF new_makes [OF w]] by (simp add: gt_do_def Factory_create_def)
  next
    case (Gt_Uninitialized shape dtype)
    then show ?thesis using push [OF new_makes [OF w]] by (simp add: gt_do_def uninitialized_is_create Factory_create_def)
  next
    case (Gt_From host shape dtype)
    then show ?thesis using push [OF copy_makes [OF new_makes [OF w]]] by (simp add: gt_do_def from_host_is_copy)
  next
    case (Gt_Copy i)
    then show ?thesis using push [OF gt_copy_makes [OF w]] skip by (simp add: gt_do_def)
  next
    case (Gt_Move i)
    then show ?thesis using move_ok [OF inv] skip by (simp add: gt_do_def GpuTensor_move_def gt_step_ok_def)
  next
    case (Gt_Assign i j)
    then show ?thesis using assign_ok [OF inv, of i "ts ! j"] skip
      by (cases "i = j") (simp_all add: gt_do_def, simp add: GpuTensor_assign_def)
  next
    case (Gt_Move_Assign i j)
    then show ?thesis using move_assign_ok [OF inv, of i j] skip
      by (cases "i = j") (simp_all add: gt_do_def, simp add: GpuTensor_move_assign_def)
  next
    case (Gt_View i shape)
    then show ?thesis using inv skip by (simp add: gt_do_def gt_step_ok_def gt_inv_def owners_snoc)
  qed
qed

lemma gt_run_ok:
  assumes "gt_inv rt rs0 s"
  shows "gt_step_ok rt rs0 (for_each (gt_do (Cuda rt)) ops s)"
  using assms
proof (induction ops arbitrary: s)
  case Nil
  then show ?case by (simp add: gt_step_ok_def)
next
  case (Cons op ops)
  obtain ts w where s: "s = (ts, w)" by (cases s)
  from gt_do_ok [OF Cons.prems [unfolded s], of op] Cons.IH show ?case
    by (cases "gt_do (Cuda rt) op s") (simp_all add: s gt_step_ok_def)
qed

lemma end_scope_ok:
  assumes "gt_inv rt rs0 (ts, w)"
  shows "\<exists>w'. gt_end_scope (Cuda rt) ts w = Inr w' \<and> gt_inv rt rs0 ([], w')"
  using assms
proof (induction ts arbitrary: w)
  case Nil
  then show ?case by (intro exI [of _ w]) (simp add: gt_end_scope_def)
next
  case (Cons t ts)
  have w: "gt_world_ok rt rs0 w" "gt_owned t + gt_owners ts = mset_set (gpu_live w)" using Cons.prems by (simp_all add: gt_inv_def gt_owners_def)
  have "gt_owned t \<subseteq># mset_set (gpu_live w)" unfolding w(2) [symmetric] by simp
  from gt_release_ok [OF w(1) this] obtain w1 where w1: "gt_release (Cuda rt) t w = Inr w1" "gt_world_ok rt rs0 w1"
    "mset_set (gpu_live w) = mset_set (gpu_live w1) + gt_owned t" by blast
  have "gt_owners ts = mset_set (gpu_live w1)" using w(2) w1(3) by (metis add.commute add_right_imp_eq)
  with Cons.IH [of w1] w1(1,2) show ?case by (simp add: gt_end_scope_def gt_inv_def)
qed

section \<open>Properties\<close>

text \<open>
  C24: whatever tensors a scope makes, copies, moves, assigns and views, the operations end the process
  (a copy the runtime refuses) or overflow a size, or they return with each live allocation owned by
  exactly one tensor; at the end of the scope each is freed once and the memory has the regions it had
  before. No sequence frees memory that is not allocated.
\<close>

theorem gpu_tensors_free_once:
  assumes "runtime_ok rt d" and "mem_ok m"
  shows "\<exists>w. CudaAllocator_new rt d m = Inr w \<and>
    (case for_each (gt_do (Cuda rt)) ops ([], w) of
       Inl e \<Rightarrow> e \<in> {Process_Exit, Signed_Overflow}
     | Inr (ts, w1) \<Rightarrow> gt_owners ts = mset_set (gpu_live w1) \<and>
         (\<exists>w2. gt_end_scope (Cuda rt) ts w1 = Inr w2 \<and> gpu_live w2 = {} \<and> map_of (m_regions (gw_mem w2)) = map_of (m_regions m)))"
proof -
  from CudaAllocator_new_ok [OF assms] obtain w where w: "CudaAllocator_new rt d m = Inr w" "gpu_inv (m_regions m) w"
    "ca_device_id (gw_alloc w) = d" by blast
  have "ca_maps (gw_alloc w) = (\<lambda>_. [])" using w(1) by (auto simp: CudaAllocator_new_def Let_def rbind_eq_Inr)
  then have "gt_inv rt (m_regions m) ([], w)" using w(2,3) assms(1)
    by (simp add: gt_inv_def gt_world_ok_def gt_owners_def gpu_live_def)
  from gt_run_ok [OF this, of ops] show ?thesis
  proof (cases "for_each (gt_do (Cuda rt)) ops ([], w)")
    case (Inr s)
    obtain ts w1 where s: "s = (ts, w1)" by (cases s)
    have inv: "gt_inv rt (m_regions m) (ts, w1)" using \<open>gt_step_ok rt (m_regions m) _\<close> by (simp add: Inr s gt_step_ok_def)
    from end_scope_ok [OF inv] obtain w2 where w2: "gt_end_scope (Cuda rt) ts w1 = Inr w2" "gt_inv rt (m_regions m) ([], w2)" by blast
    then have reg: "gpu_regions (m_regions m) w2"
      and others: "ca_maps (gw_alloc w2) KDevice = []" "ca_maps (gw_alloc w2) KPinned = []"
      by (simp_all add: gt_inv_def gt_world_ok_def gpu_inv_def)
    have empty: "gpu_live w2 = {}" using w2(2) finite_live [of w2] mset_set_empty_iff [of "gpu_live w2"]
      by (auto simp: gt_inv_def gt_owners_def)
    have "map_of (m_regions (gw_mem w2)) q = map_of (m_regions m) q" for q
    proof (cases "q = nullptr")
      case True
      then show ?thesis using regions_null [OF assms(2)] regions_null [OF gpu_regionsD(1) [OF reg]] by simp
    next
      case False
      then have "map_of (ca_maps (gw_alloc w2) k) q = None" for k
      proof (cases k)
        case KManaged
        with False empty show ?thesis unfolding gpu_live_def by blast
      qed (use others in simp_all)
      then show ?thesis by (rule gpu_regionsD(5) [OF reg])
    qed
    then have "map_of (m_regions (gw_mem w2)) = map_of (m_regions m)" by (rule ext)
    with w(1) w2(1) inv empty show ?thesis by (auto simp: Inr s gt_inv_def)
  qed (use w(1) in \<open>auto simp: gt_step_ok_def\<close>)
qed

lemma gpu_tensors_free_once_witness:
  "\<exists>w. CudaAllocator_new bump_runtime 0 mem_empty = Inr w \<and>
    (case for_each (gt_do (Cuda bump_runtime)) [Gt_Make [2, 3] 0, Gt_Copy 0, Gt_View 0 [6], Gt_Assign 1 2, Gt_Move_Assign 0 1] ([], w) of
       Inl e \<Rightarrow> e \<in> {Process_Exit, Signed_Overflow}
     | Inr (ts, w1) \<Rightarrow> gt_owners ts = mset_set (gpu_live w1) \<and>
         (\<exists>w2. gt_end_scope (Cuda bump_runtime) ts w1 = Inr w2 \<and> gpu_live w2 = {} \<and>
            map_of (m_regions (gw_mem w2)) = map_of (m_regions mem_empty)))"
  by (rule gpu_tensors_free_once [OF bump_runtime_ok mem_empty_ok])

text \<open>An object inside one region is apart from another region.\<close>

lemma managed_apart:
  assumes "mem_ok m" and "map_of (m_regions m) p = Some (n, sp)" and "within sq q k m" and "sp \<noteq> sq"
  shows "p + n \<le> q \<or> q + k \<le> p" and "q \<noteq> nullptr" and "p \<noteq> nullptr"
proof -
  obtain a l where a: "map_of (m_regions m) a = Some (l, sq)" "a \<le> q" "q + k \<le> a + l"
    using assms(1,3) within_region [of m sq q k] by (auto simp: mem_ok_def)
  with assms(2,4) have "a \<noteq> p" by auto
  then have "p + n \<le> a \<or> a + l \<le> p" "0 < a" "0 < p" using assms(1,2) a(1) unfolding mem_ok_def by blast+
  with a(2,3) show "p + n \<le> q \<or> q + k \<le> p" "q \<noteq> nullptr" "p \<noteq> nullptr" by linarith+
qed

text \<open>
  A tensor made from bytes on the host and copied back to the host gives the same bytes, when the
  allocation succeeds.
\<close>

theorem gpu_tensor_roundtrip:
  assumes rt: "runtime_ok rt (ca_device_id (gw_alloc w))" and inv: "gpu_inv rs0 w" and fit: "dims_fit shape"
    and n: "n = word_of_int (prod_list shape) * get_dtype_size dtype" "n \<noteq> 0"
    and src: "mload Host src (unat n) (gw_mem w) = Inr bs" and dst: "within Host dst (unat n) (gw_mem w)"
    and mem: "rt_alloc rt KManaged (ca_device_id (gw_alloc w)) (unat n) (gw_mem w) \<noteq> None"
  shows "\<exists>t w1 w2. Factory_from_host (Cuda rt) src shape dtype w = Inr (t, w1) \<and> gt_nbytes t = Inr n \<and>
    gt_copy_to (Cuda rt) dst n t w1 = Inr w2 \<and> mload Host dst (unat n) (gw_mem w2) = Inr bs"
proof -
  let ?d = "ca_device_id (gw_alloc w)" and ?m = "gw_mem w"
  have N: "0 < unat n" using n(2) by (simp add: unat_gt_0)
  then have N': "unat n \<noteq> 0" by simp
  obtain p m1 where a: "rt_alloc rt KManaged ?d (unat n) ?m = Some (p, m1)" using mem by auto
  have reg: "gpu_regions rs0 w" using inv by (simp add: gpu_inv_def)
  note r = gpu_regionsD [OF reg]
  let ?w1 = "w\<lparr>gw_mem := m1, gw_alloc := gpu_record KManaged p n (gw_alloc w)\<rparr>"
  have al: "backend_allocate_managed (Cuda rt) n w = (p, ?w1)"
    using a r(2) gpu_set_device_id [OF reg] by (simp add: backend_allocate_managed_def allocate_managed_def gpu_allocate_def)
  have p: "p \<noteq> nullptr" "mem_ok m1" "m1 = ?m\<lparr>m_regions := (p, unat n, Managed) # m_regions ?m\<rparr>"
    using runtime_okD(1) [OF rt, unfolded alloc_ok_def, rule_format, OF r(1) a] unfolding if_not_P [OF N'] kind_space.simps by blast+
  obtain st where st: "gt_compute_strides shape = Inr st" using gt_strides_fit [OF fit] by blast
  let ?unalloc = "\<lparr>gt_data = nullptr, gt_shape = shape, gt_strides = st, gt_dtype = dtype, gt_owns = True\<rparr>"
  let ?t = "?unalloc\<lparr>gt_data := p\<rparr>"
  have bytes: "gt_nbytes ?unalloc = Inr n" "gt_nbytes ?t = Inr n" using gt_size_fits [OF fit] n(1) by (simp_all add: gt_nbytes_def gt_size_def)
  have new: "GpuTensor_new (Cuda rt) shape dtype w = Inr (?t, ?w1)" 
    unfolding GpuTensor_new_def st rbind.simps gt_allocate_def bytes(1) al by simp
  have in1: "map_of (m_regions m1) p = Some (unat n, Managed)" "within Managed p (unat n) m1" by (simp_all add: p(3) within_def)
  have same: "mload Host q k m1 = mload Host q k ?m" "within Host q k m1 = within Host q k ?m" for q k
    by (simp_all add: mload_def within_def p(3))
  have src1: "within Host src (unat n) m1" "mload Host src (unat n) m1 = Inr bs" using src N same by (simp_all add: mload_eq)
  have dst1: "within Host dst (unat n) m1" using dst same by simp
  note ap = managed_apart [OF p(2) in1(1) src1(1)] managed_apart [OF p(2) in1(1) dst1]
  note mc = memcpy_moves [OF runtime_okD(3) [OF rt], rule_format]
  have len: "length bs = unat n" by (rule length_mload [OF src])
  let ?m2 = "put_bytes p bs m1"
  have c1: "rt_memcpy rt CopyDefault p src (unat n) m1 = Some ?m2"
    by (rule mc [OF p(2) src1(2) in1(2)]) (use ap in auto)
  have ld: "mload Managed p (unat n) ?m2 = Inr bs" using mload_put_same [of Managed p bs m1] in1(2) len by simp
  have c2: "rt_memcpy rt CopyDefault dst p (unat n) ?m2 = Some (put_bytes dst bs ?m2)"
    by (rule mc [OF _ ld, of Host]) (use ap dst1 p(2) in auto)
  have "mload Host dst (unat n) (put_bytes dst bs ?m2) = Inr bs" using mload_put_same [of Host dst bs ?m2] dst1 len by simp
  moreover have "Factory_from_host (Cuda rt) src shape dtype w = Inr (?t, ?w1\<lparr>gw_mem := ?m2\<rparr>)"
    using new bytes(2) c1 by (simp add: Factory_from_host_def gt_copy_from_def backend_copy_managed_def copy_managed_def gpu_copy_def cuda_check_def)
  moreover have "gt_copy_to (Cuda rt) dst n ?t (?w1\<lparr>gw_mem := ?m2\<rparr>) = Inr (?w1\<lparr>gw_mem := put_bytes dst bs ?m2\<rparr>)"
    using c2 by (simp add: gt_copy_to_def backend_copy_managed_def copy_managed_def gpu_copy_def cuda_check_def)
  ultimately show ?thesis using bytes(2)
    by (intro exI [of _ ?t] exI [of _ "?w1\<lparr>gw_mem := ?m2\<rparr>"] exI [of _ "?w1\<lparr>gw_mem := put_bytes dst bs ?m2\<rparr>"]) simp
qed

definition host_mem :: mem where
  "host_mem = \<lparr>m_val = (\<lambda>a. of_nat a), m_regions = [(64, 24, Host), (128, 24, Host)]\<rparr>"

lemma host_mem_ok: "mem_ok host_mem"
  by (auto simp: mem_ok_def host_mem_def)

lemma gpu_tensor_roundtrip_witness:
  "\<exists>w t w1 w2 bs. Factory_from_host (Cuda bump_runtime) 64 [2, 3] 0 w = Inr (t, w1) \<and> gt_nbytes t = Inr 24 \<and>
    gt_copy_to (Cuda bump_runtime) 128 24 t w1 = Inr w2 \<and> mload Host 64 24 host_mem = Inr bs \<and> mload Host 128 24 (gw_mem w2) = Inr bs"
proof -
  from CudaAllocator_new_ok [OF bump_runtime_ok host_mem_ok, of 0] obtain w where
    w: "gpu_inv (m_regions host_mem) w" "ca_device_id (gw_alloc w) = 0" "gw_mem w = host_mem" by blast
  have "dims_fit [2, 3]" by (simp add: dims_fit_def)
  moreover have "(24 :: size_t) = word_of_int (prod_list [2, 3]) * get_dtype_size 0" by (simp add: get_dtype_size_def)
  moreover have "(24 :: size_t) \<noteq> 0" by simp
  moreover have src: "mload Host 64 (unat (24 :: size_t)) (gw_mem w) = Inr (map (m_val host_mem) [64..<88])"
    by (simp add: w(3) mload_def within_def host_mem_def)
  moreover have "within Host 128 (unat (24 :: size_t)) (gw_mem w)" by (simp add: w(3) within_def host_mem_def)
  moreover have "rt_alloc bump_runtime KManaged (ca_device_id (gw_alloc w)) (unat (24 :: size_t)) (gw_mem w) \<noteq> None"
    by (simp add: w(2,3) model_runtime_def new_region_def bump_memalign_def bump_new_def extents_def host_mem_def)
  ultimately have "\<exists>t w1 w2. Factory_from_host (Cuda bump_runtime) 64 [2, 3] 0 w = Inr (t, w1) \<and> gt_nbytes t = Inr 24 \<and>
    gt_copy_to (Cuda bump_runtime) 128 24 t w1 = Inr w2 \<and> mload Host 128 (unat (24 :: size_t)) (gw_mem w2) = Inr (map (m_val host_mem) [64..<88])"
    by (rule gpu_tensor_roundtrip [OF bump_runtime_ok w(1)])
  then show ?thesis using src unfolding w(3) by auto
qed

lemma fill_bytes:
  assumes rt: "runtime_ok rt (ca_device_id (gw_alloc w))" and inv: "gpu_inv rs0 w"
    and n: "gt_nbytes t = Inr n" and v: "f32_to_int v = Inr x" and live: "within Managed (gt_data t) (unat n) (gw_mem w)"
  shows "\<exists>w'. gt_fill (Cuda rt) v t w = Inr w' \<and>
    mload Managed (gt_data t) (unat n) (gw_mem w') = Inr (replicate (unat n) (word_of_int x))"
proof -
  let ?bs = "replicate (unat n) (word_of_int x) :: byte list"
  let ?m = "put_bytes (gt_data t) ?bs (gw_mem w)"
  let ?w = "w\<lparr>gw_mem := ?m\<rparr>"
  have reg: "gpu_regions rs0 w" using inv by (simp add: gpu_inv_def)
  have set: "rt_memset rt (gt_data t) x (unat n) (gw_mem w) = Inr ?m"
    using runtime_okD(4) [OF rt] gpu_regionsD(1) [OF reg] live unfolding memset_ok_def by blast
  have "gpu_set_device ?w = ?w" using gpu_regionsD(2) [OF reg] by (simp add: gpu_set_device_def)
  moreover have "rt_sync rt s" for s using rt by (simp add: runtime_ok_def)
  ultimately have "gt_fill (Cuda rt) v t w = Inr ?w"
    by (simp add: gt_fill_def v n set backend_synchronize_def gpu_synchronize_def)
  moreover have "mload Managed (gt_data t) (unat n) ?m = Inr ?bs"
    using mload_put_same [of Managed "gt_data t" ?bs "gw_mem w"] live by simp
  ultimately show ?thesis by (intro exI [of _ ?w]) simp
qed

lemma one_to_int: "f32_to_int 0x3F800000 = Inr 1" and zero_to_int: "f32_to_int 0 = Inr 0"
  by (simp_all add: f32_to_int_def Let_def)

text \<open>
  \<open>fill\<close> truncates its value to an integer and stores it in every byte of the tensor: after it, all
  bytes are the low byte of the truncated value. Zero is right; one gives floats with the bits
  \<open>0x01010101\<close>. A build without CUDA writes through the null pointer.
\<close>

theorem gpu_fill_one:
  assumes "runtime_ok rt (ca_device_id (gw_alloc w))" and "gpu_inv rs0 w" and "gt_nbytes t = Inr n" and "4 \<le> n"
    and "within Managed (gt_data t) (unat n) (gw_mem w)"
  shows "(\<exists>w' bs. gt_fill (Cuda rt) 0x3F800000 t w = Inr w' \<and>
      mload Managed (gt_data t) (unat n) (gw_mem w') = Inr bs \<and> f32_of_bytes (take 4 bs) = 0x01010101) \<and>
    (\<exists>w' bs. gt_zero (Cuda rt) t w = Inr w' \<and>
      mload Managed (gt_data t) (unat n) (gw_mem w') = Inr bs \<and> f32_of_bytes (take 4 bs) = 0)"
proof -
  have "4 \<le> unat n" using assms(4) by (simp add: word_le_nat_alt)
  then have "take 4 (replicate (unat n) b) = replicate 4 b" for b :: byte by (simp add: min_absorb1)
  then have four: "take 4 (replicate (unat n) b) = [b, b, b, b]" for b :: byte by (simp add: numeral_eq_Suc)
  have val: "f32_of_bytes [1, 1, 1, 1] = 0x01010101" "f32_of_bytes [0, 0, 0, 0] = 0" by (simp_all add: f32_of_bytes_def)
  from fill_bytes [OF assms(1-3) one_to_int assms(5)] fill_bytes [OF assms(1-3) zero_to_int assms(5)]
  show ?thesis unfolding gt_zero_def using four [of 1] four [of 0] val by auto
qed

lemma gpu_fill_one_witness:
  "\<exists>w t w' bs. gt_fill (Cuda bump_runtime) 0x3F800000 t w = Inr w' \<and>
     mload Managed (gt_data t) 24 (gw_mem w') = Inr bs \<and> f32_of_bytes (take 4 bs) = 0x01010101"
proof -
  let ?m = "\<lparr>m_val = (\<lambda>a. 0), m_regions = [(64, 24, Managed)]\<rparr>"
  let ?t = "GpuTensor_external 64 [2, 3] [] 0"
  have "mem_ok ?m" by (auto simp: mem_ok_def)
  from CudaAllocator_new_ok [OF bump_runtime_ok this, of 0] obtain w where
    w: "gpu_inv (m_regions ?m) w" "ca_device_id (gw_alloc w) = 0" "gw_mem w = ?m" by blast
  have "gt_nbytes ?t = Inr 24" "(4 :: size_t) \<le> 24" "within Managed (gt_data ?t) (unat (24 :: size_t)) (gw_mem w)"
    by (simp_all add: gt_nbytes_def gt_size_def GpuTensor_external_def get_dtype_size_def s64_def w(3) within_def)
  from gpu_fill_one [OF bump_runtime_ok w(1) this] show ?thesis by auto
qed

lemma gpu_fill_no_cuda:
  "gt_size t = Inr k \<Longrightarrow> 0 < k \<Longrightarrow> mem_ok (gw_mem w) \<Longrightarrow> gt_data t = nullptr \<Longrightarrow> gt_fill No_Cuda v t w = Inl Out_Of_Bounds"
proof -
  assume k: "gt_size t = Inr k" "0 < k" and m: "mem_ok (gw_mem w)" and null: "gt_data t = nullptr"
  have "concat (replicate (nat k) (bytes_of_f32 v)) \<noteq> []" using k(2) by (auto simp: set_replicate_conv_if)
  moreover have "\<not> within Host nullptr j (gw_mem w)" for j
    using m within_region [of "gw_mem w" Host nullptr j] unfolding mem_ok_def by fastforce
  ultimately show ?thesis by (simp add: gt_fill_def k(1) null mstore_def)
qed

text \<open>
  Assigning from a tensor that owns nothing - a default-constructed one, or one that was moved from -
  asks the runtime to copy from the null pointer, which ends the process; constructing a copy does not.
\<close>

lemma assign_default_exits:
  assumes "runtime_ok rt (ca_device_id (gw_alloc w))" and "gpu_inv rs0 w" and "\<not> gt_owns t"
  shows "GpuTensor_assign False (Cuda rt) t GpuTensor_default w = Inl Process_Exit"
    and "GpuTensor_copy (Cuda rt) GpuTensor_default w = Inr (GpuTensor_default, w)"
proof -
  have n: "gt_nbytes (GpuTensor_default\<lparr>gt_owns := True, gt_data := p\<rparr>) = Inr 4" "gt_nbytes (GpuTensor_default\<lparr>gt_owns := True\<rparr>) = Inr 4" for p
    by (simp_all add: gt_nbytes_def gt_size_def GpuTensor_default_def get_dtype_size_def)
  have null: "rt_memcpy rt CopyDefault p nullptr 4 m = None" for p m
    using memcpy_null [OF runtime_okD(3) [OF assms(1)]] by simp
  obtain p w' where a: "backend_allocate_managed (Cuda rt) 4 w = (p, w')" by (cases "backend_allocate_managed (Cuda rt) 4 w")
  have data: "gt_data GpuTensor_default = nullptr" by (simp add: GpuTensor_default_def)
  show "GpuTensor_assign False (Cuda rt) t GpuTensor_default w = Inl Process_Exit"
    using assms(3) n null a data by (simp add: GpuTensor_assign_def gt_release_def gt_allocate_def gt_copy_bytes_def
      backend_copy_managed_def copy_managed_def gpu_copy_def cuda_check_def)
  show "GpuTensor_copy (Cuda rt) GpuTensor_default w = Inr (GpuTensor_default, w)"
    by (simp add: GpuTensor_copy_def GpuTensor_default_def)
qed

end
