(* ===== verification/Cuda_Grid.thy ===== *)
theory Cuda_Grid
  imports Prelude
begin

text \<open>
  How the kernels of \<open>cuda/kernels\<close> and \<open>bridges/cuda_kernel_bridge.cu\<close> run: a launch starts a grid of
  blocks of threads; the threads interleave freely, except that \<open>__syncthreads\<close> makes the threads of a
  block wait for each other. A step is one assignment. Two steps of different threads race when one
  writes what the other touches and nothing orders them; without races every run has the same result.
\<close>

section \<open>Locations and steps\<close>

text \<open>
  A location is a cell of global memory, of the shared memory of a block, or a variable of a thread; it
  is absent outside the arrays. Values have any type \<open>'v\<close>, as the kernels are templates.
\<close>

datatype loc = Glob nat | Shar nat nat | Reg nat nat nat

type_synonym 'v kstate = "loc \<Rightarrow> 'v option"

text \<open>\<open>Assign d ls f\<close> reads \<open>ls\<close> and stores the result of \<open>f\<close> in \<open>d\<close>, if there is one.\<close>

datatype 'v kstep = Assign (k_dst: loc) (k_srcs: "loc list") (k_fun: "'v list \<Rightarrow> 'v option")

definition kstep :: "'v kstep \<Rightarrow> 'v kstate \<Rightarrow> 'v kstate comp" where
  "kstep x s = (if list_ex (\<lambda>l. s l = None) (k_srcs x) then Inl Out_Of_Bounds
     else case k_fun x (map (\<lambda>l. the (s l)) (k_srcs x)) of
       None \<Rightarrow> Inr s
     | Some v \<Rightarrow> if s (k_dst x) = None then Inl Out_Of_Bounds else Inr (s(k_dst x \<mapsto> v)))"

definition indep :: "'v kstep \<Rightarrow> 'v kstep \<Rightarrow> bool" where
  "indep x y \<longleftrightarrow> k_dst x \<noteq> k_dst y \<and> k_dst x \<notin> set (k_srcs y) \<and> k_dst y \<notin> set (k_srcs x)"

section \<open>Grids\<close>

text \<open>
  The code of a thread between two barriers is a list of steps; an interval holds one for each thread, a
  block is the list of its intervals, a grid the list of its blocks.
\<close>

type_synonym 'v interval = "'v kstep list list"
type_synonym 'v block = "'v interval list"
type_synonym 'v grid = "'v block list"

inductive grid_run :: "'v grid \<Rightarrow> 'v kstate \<Rightarrow> 'v kstate comp \<Rightarrow> bool" where
  run_end: "(\<forall>b \<in> set g. b = []) \<Longrightarrow> grid_run g s (Inr s)"
| run_barrier: "i < length g \<Longrightarrow> g ! i = iv # ivs \<Longrightarrow> (\<forall>c \<in> set iv. c = []) \<Longrightarrow> grid_run (g[i := ivs]) s r \<Longrightarrow> grid_run g s r"
| run_step: "i < length g \<Longrightarrow> g ! i = iv # ivs \<Longrightarrow> t < length iv \<Longrightarrow> iv ! t = x # xs \<Longrightarrow> kstep x s = Inr s' \<Longrightarrow>
    grid_run (g[i := iv[t := xs] # ivs]) s' r \<Longrightarrow> grid_run g s r"
| run_fault: "i < length g \<Longrightarrow> g ! i = iv # ivs \<Longrightarrow> t < length iv \<Longrightarrow> iv ! t = x # xs \<Longrightarrow> kstep x s = Inl e \<Longrightarrow> grid_run g s (Inl e)"

text \<open>One run: block after block, interval after interval, thread after thread.\<close>

definition block_steps :: "'v block \<Rightarrow> 'v kstep list" where
  "block_steps b = concat (map concat b)"

definition grid_steps :: "'v grid \<Rightarrow> 'v kstep list" where
  "grid_steps g = concat (map block_steps g)"

definition run_steps :: "'v kstep list \<Rightarrow> 'v kstate \<Rightarrow> 'v kstate comp" where
  "run_steps xs = for_each kstep xs"

definition threads_apart :: "'v interval \<Rightarrow> bool" where
  "threads_apart iv \<longleftrightarrow> (\<forall>t < length iv. \<forall>t' < length iv. t \<noteq> t' \<longrightarrow> (\<forall>x \<in> set (iv ! t). \<forall>y \<in> set (iv ! t'). indep x y))"

definition blocks_apart :: "'v grid \<Rightarrow> bool" where
  "blocks_apart g \<longleftrightarrow> (\<forall>i < length g. \<forall>j < length g. i \<noteq> j \<longrightarrow>
     (\<forall>x \<in> set (block_steps (g ! i)). \<forall>y \<in> set (block_steps (g ! j)). indep x y))"

definition race_free :: "'v grid \<Rightarrow> bool" where
  "race_free g \<longleftrightarrow> (\<forall>b \<in> set g. \<forall>iv \<in> set b. threads_apart iv) \<and> blocks_apart g"

section \<open>Steps that do not race commute\<close>

lemma kstep_dom: "kstep x s = Inr s' \<Longrightarrow> (s' l = None) = (s l = None)"
  by (auto simp: kstep_def split: if_splits option.splits)

lemma kstep_other: "kstep x s = Inr s' \<Longrightarrow> l \<noteq> k_dst x \<Longrightarrow> s' l = s l"
  by (auto simp: kstep_def split: if_splits option.splits)

lemma kstep_faults: "kstep x s = Inl e \<Longrightarrow> e = Out_Of_Bounds"
  by (auto simp: kstep_def split: if_splits option.splits)

lemma kstep_after:
  assumes "indep x y" and "kstep x s = Inr s'"
  shows "kstep y s' = (case kstep y s of Inl e \<Rightarrow> Inl e | Inr u \<Rightarrow> Inr (u(k_dst x := s' (k_dst x))))"
proof -
  have same: "s' l = s l" if "l \<in> set (k_srcs y)" for l
    using kstep_other [OF assms(2), of l] assms(1) that unfolding indep_def by blast
  have "list_ex (\<lambda>l. s' l = None) (k_srcs y) = list_ex (\<lambda>l. s l = None) (k_srcs y)"
    using same by (auto simp: list_ex_iff)
  moreover have vals: "map (\<lambda>l. the (s' l)) (k_srcs y) = map (\<lambda>l. the (s l)) (k_srcs y)" using same by simp
  moreover have "s' (k_dst y) = s (k_dst y)" using kstep_other [OF assms(2), of "k_dst y"] assms(1) unfolding indep_def by metis
  moreover have "s' = s(k_dst x := s' (k_dst x))" using kstep_other [OF assms(2)] by (auto simp: fun_eq_iff)
  moreover have "s'(k_dst y \<mapsto> v) = (s(k_dst y \<mapsto> v))(k_dst x := s' (k_dst x))" for v
    using kstep_other [OF assms(2)] assms(1) by (auto simp: fun_eq_iff indep_def)
  ultimately show ?thesis unfolding kstep_def [of y] vals by (cases "s (k_dst y)") (simp_all split: option.splits)
qed

lemma indep_sym: "indep x y \<longleftrightarrow> indep y x"
  by (auto simp: indep_def)

lemma kstep_commute:
  assumes "indep x y"
  shows "rbind (kstep x s) (kstep y) = rbind (kstep y s) (kstep x)"
proof (cases "kstep x s")
  case x: (Inl e)
  show ?thesis
  proof (cases "kstep y s")
    case (Inl e')
    with x kstep_faults [OF x] kstep_faults [OF Inl] show ?thesis by simp
  next
    case (Inr u)
    with x kstep_after [OF assms [unfolded indep_sym [of x]] Inr] show ?thesis by simp
  qed
next
  case x: (Inr s')
  show ?thesis
  proof (cases "kstep y s")
    case (Inl e)
    with x kstep_after [OF assms x] show ?thesis by simp
  next
    case y: (Inr u)
    have "kstep y s' = Inr (u(k_dst x := s' (k_dst x)))" "kstep x u = Inr (s'(k_dst y := u (k_dst y)))"
      using kstep_after [OF assms x] kstep_after [OF assms [unfolded indep_sym [of x]] y] x y by simp_all
    moreover have "u(k_dst x := s' (k_dst x)) = s'(k_dst y := u (k_dst y))"
      using kstep_other [OF x] kstep_other [OF y] assms by (auto simp: fun_eq_iff indep_def)
    ultimately show ?thesis using x y by simp
  qed
qed

lemma run_steps_simps [simp]:
  "run_steps [] = Inr" "run_steps (x # xs) = (\<lambda>s. rbind (kstep x s) (run_steps xs))"
  "run_steps (xs @ ys) = (\<lambda>s. rbind (run_steps xs s) (run_steps ys))"
  by (auto simp: run_steps_def for_each_append fun_eq_iff)

lemma run_steps_dom: "run_steps xs s = Inr s' \<Longrightarrow> (s' l = None) = (s l = None)"
proof (induction xs arbitrary: s)
  case (Cons x xs)
  then obtain u where "kstep x s = Inr u" "run_steps xs u = Inr s'" by (auto simp: rbind_eq_Inr)
  with Cons.IH kstep_dom show ?case by metis
qed simp

lemma run_steps_move:
  assumes "\<forall>y \<in> set ys. indep x y"
  shows "run_steps (ys @ x # zs) s = run_steps (x # ys @ zs) s"
  using assms
proof (induction ys arbitrary: s)
  case (Cons y ys)
  then have ih: "run_steps (ys @ x # zs) = (\<lambda>s. rbind (kstep x s) (run_steps (ys @ zs)))" by (intro ext) simp
  have "run_steps ((y # ys) @ x # zs) s = rbind (kstep y s) (run_steps (ys @ x # zs))" by simp
  also have "\<dots> = rbind (rbind (kstep y s) (kstep x)) (run_steps (ys @ zs))" unfolding ih by (simp add: rbind_assoc)
  also have "rbind (kstep y s) (kstep x) = rbind (kstep x s) (kstep y)" using Cons.prems kstep_commute [of x y s] by simp
  finally show ?case by (simp add: rbind_assoc)
qed simp

section \<open>Without races every run is the same\<close>

lemma split_at: "i < length xs \<Longrightarrow> xs = take i xs @ xs ! i # drop (Suc i) xs"
  by (rule id_take_nth_drop)

lemma concat_update:
  assumes "i < length xss" and "xss ! i = x # xs"
  shows "concat xss = concat (take i xss) @ x # xs @ concat (drop (Suc i) xss)"
    and "concat (xss[i := xs]) = concat (take i xss) @ xs @ concat (drop (Suc i) xss)"
proof -
  have "concat xss = concat (take i xss @ xss ! i # drop (Suc i) xss)" using split_at [OF assms(1)] by simp
  then show "concat xss = concat (take i xss) @ x # xs @ concat (drop (Suc i) xss)" using assms(2) by simp
  show "concat (xss[i := xs]) = concat (take i xss) @ xs @ concat (drop (Suc i) xss)"
    unfolding upd_conv_take_nth_drop [OF assms(1)] by simp
qed

lemma grid_steps_split:
  assumes "i < length g"
  shows "grid_steps g = concat (map block_steps (take i g)) @ block_steps (g ! i) @ concat (map block_steps (drop (Suc i) g))"
    and "grid_steps (g[i := b]) = concat (map block_steps (take i g)) @ block_steps b @ concat (map block_steps (drop (Suc i) g))"
proof -
  have "grid_steps g = concat (map block_steps (take i g @ g ! i # drop (Suc i) g))" using split_at [OF assms] by (simp add: grid_steps_def)
  then show "grid_steps g = concat (map block_steps (take i g)) @ block_steps (g ! i) @ concat (map block_steps (drop (Suc i) g))" by simp
  show "grid_steps (g[i := b]) = concat (map block_steps (take i g)) @ block_steps b @ concat (map block_steps (drop (Suc i) g))"
    unfolding grid_steps_def upd_conv_take_nth_drop [OF assms] by simp
qed

lemma race_free_sub:
  assumes "race_free g" and "i < length g" and "set (block_steps b) \<subseteq> set (block_steps (g ! i))"
    and "\<forall>iv \<in> set b. threads_apart iv"
  shows "race_free (g[i := b])"
proof -
  have "\<forall>b' \<in> set (g[i := b]). \<forall>iv \<in> set b'. threads_apart iv"
    using assms set_update_subset_insert [of g i b] unfolding race_free_def by blast
  moreover have "set (block_steps (g[i := b] ! j)) \<subseteq> set (block_steps (g ! j))" if "j < length g" for j
    using assms(2,3) that by (cases "i = j") auto
  then have "blocks_apart (g[i := b])" using assms(1) unfolding race_free_def blocks_apart_def by (simp) blast
  ultimately show ?thesis by (simp add: race_free_def)
qed

lemma step_first:
  assumes rf: "race_free g" and i: "i < length g" and b: "g ! i = iv # ivs" and t: "t < length iv" and c: "iv ! t = x # xs"
  shows "run_steps (grid_steps g) s = rbind (kstep x s) (run_steps (grid_steps (g[i := iv[t := xs] # ivs])))"
    and "race_free (g[i := iv[t := xs] # ivs])"
proof -
  let ?pre = "concat (map block_steps (take i g))" and ?post = "concat (map block_steps (drop (Suc i) g))"
  let ?pre' = "concat (take t iv)" and ?post' = "concat (drop (Suc t) iv)"
  have bs: "block_steps (g ! i) = ?pre' @ x # xs @ ?post' @ block_steps ivs"
    using concat_update(1) [OF t c] by (simp add: b block_steps_def)
  have bs': "block_steps (iv[t := xs] # ivs) = ?pre' @ xs @ ?post' @ block_steps ivs"
    using concat_update(2) [OF t c] by (simp add: block_steps_def)
  have xin: "x \<in> set (block_steps (g ! i))" by (simp add: bs)
  have "indep x y" if "y \<in> set ?pre" for y
  proof -
    from that obtain j where "j < i" "y \<in> set (block_steps (g ! j))" by (force simp: in_set_conv_nth)
    moreover from this have "j < length g" "i \<noteq> j" using i by simp_all
    ultimately show ?thesis using rf i xin unfolding race_free_def blocks_apart_def by blast
  qed
  moreover have "indep x y" if "y \<in> set ?pre'" for y
  proof -
    from that obtain u where u: "u < t" "y \<in> set (iv ! u)" by (force simp: in_set_conv_nth)
    have "threads_apart iv" using rf i b unfolding race_free_def by (metis list.set_intros(1) nth_mem)
    moreover have "u < length iv" "t \<noteq> u" "x \<in> set (iv ! t)" using u(1) t c by simp_all
    ultimately show ?thesis using t u(2) unfolding threads_apart_def by blast
  qed
  ultimately have "\<forall>y \<in> set (?pre @ ?pre'). indep x y" by auto
  from run_steps_move [OF this, of "xs @ ?post' @ block_steps ivs @ ?post" s]
  show "run_steps (grid_steps g) s = rbind (kstep x s) (run_steps (grid_steps (g[i := iv[t := xs] # ivs])))"
    unfolding grid_steps_split(1) [OF i] grid_steps_split(2) [OF i] bs bs' by (simp add: rbind_assoc cong: rbind_cong)
  have "threads_apart iv" and ivs: "\<forall>v \<in> set ivs. threads_apart v" using rf i b unfolding race_free_def by (metis list.set_intros nth_mem)+
  moreover have "set (iv[t := xs] ! u) \<subseteq> set (iv ! u)" if "u < length iv" for u using c t that by (cases "u = t") auto
  ultimately have "threads_apart (iv[t := xs])" unfolding threads_apart_def by simp blast
  with ivs show "race_free (g[i := iv[t := xs] # ivs])"
    by (intro race_free_sub [OF rf i]) (auto simp: bs bs')
qed

lemma barrier_first:
  assumes rf: "race_free g" and i: "i < length g" and b: "g ! i = iv # ivs" and e: "\<forall>c \<in> set iv. c = []"
  shows "grid_steps (g[i := ivs]) = grid_steps g" and "race_free (g[i := ivs])"
proof -
  have "block_steps (g ! i) = block_steps ivs" using e by (simp add: b block_steps_def)
  then show "grid_steps (g[i := ivs]) = grid_steps g" "race_free (g[i := ivs])"
    using rf i b race_free_sub [OF rf i, of ivs] unfolding grid_steps_split(1) [OF i] grid_steps_split(2) [OF i]
    by (auto simp: race_free_def) (metis list.set_intros(2) nth_mem)+
qed

lemma all_empty_steps: "\<forall>b \<in> set g. b = [] \<Longrightarrow> grid_steps g = []"
  by (auto simp: grid_steps_def block_steps_def)

text \<open>A run that ends without a fault has performed every step, and no step adds or removes a location.\<close>

lemma run_performs:
  "grid_run g s r \<Longrightarrow> r = Inr s' \<Longrightarrow> x \<in> set (grid_steps g) \<Longrightarrow> \<exists>u u'. kstep x u = Inr u' \<and> (\<forall>l. (u l = None) = (s l = None))"
proof (induction rule: grid_run.induct)
  case (run_end g s)
  then show ?case using all_empty_steps [of g] by simp
next
  case (run_barrier i g iv ivs s r)
  have "block_steps (g ! i) = block_steps ivs" using run_barrier.hyps(2,3) by (simp add: block_steps_def)
  then have "grid_steps (g[i := ivs]) = grid_steps g"
    unfolding grid_steps_split(1) [OF run_barrier.hyps(1)] grid_steps_split(2) [OF run_barrier.hyps(1)] by simp
  then show ?case using run_barrier.IH run_barrier.prems by simp
next
  case (run_step i g iv ivs t y ys s u r)
  have "x = y \<or> x \<in> set (grid_steps (g[i := iv[t := ys] # ivs]))"
    using run_step.prems(2) concat_update [OF run_step.hyps(3,4)]
    unfolding grid_steps_split(1) [OF run_step.hyps(1)] grid_steps_split(2) [OF run_step.hyps(1)]
    by (auto simp: run_step.hyps(2) block_steps_def)
  then show ?case
  proof
    assume "x \<in> set (grid_steps (g[i := iv[t := ys] # ivs]))"
    from run_step.IH [OF run_step.prems(1) this] show ?case by (simp add: kstep_dom [OF run_step.hyps(5)])
  qed (use run_step.hyps(5) in blast)
qed simp

lemma run_faults: "grid_run g s r \<Longrightarrow> r = Inl e \<Longrightarrow> e = Out_Of_Bounds"
  by (induction rule: grid_run.induct) (auto dest: kstep_faults)

lemma missing_cell:
  assumes "x \<in> set (grid_steps g)" and "\<And>u u'. (\<And>l. (u l = None) = (s l = None)) \<Longrightarrow> kstep x u = Inr u' \<Longrightarrow> False" and "grid_run g s r"
  shows "r = Inl Out_Of_Bounds"
proof (cases r)
  case (Inl e)
  then show ?thesis using run_faults [OF assms(3)] by simp
next
  case (Inr s')
  then show ?thesis using run_performs [OF assms(3) Inr assms(1)] assms(2) by blast
qed

lemma run_is_sequential: "grid_run g s r \<Longrightarrow> race_free g \<Longrightarrow> r = run_steps (grid_steps g) s"
proof (induction rule: grid_run.induct)
  case (run_end g s)
  then show ?case using all_empty_steps [of g] by simp
next
  case (run_barrier i g iv ivs s r)
  then show ?case using barrier_first [of g i iv ivs] by simp
next
  case (run_step i g iv ivs t x xs s s' r)
  then show ?case using step_first(1) [OF run_step.prems run_step.hyps(1-4), of s] step_first(2) [OF run_step.prems run_step.hyps(1-4)]
    by simp
next
  case (run_fault i g iv ivs t x xs s e)
  then show ?case using step_first(1) [OF run_fault.prems run_fault.hyps(1-4), of s] by simp
qed

text \<open>A run exists: a grid with work left has a step or a barrier to take, and both make it smaller.\<close>

definition grid_size :: "'v grid \<Rightarrow> nat" where
  "grid_size g = length (grid_steps g) + (\<Sum>b \<leftarrow> g. length b)"

lemma run_exists: "\<exists>r. grid_run g s r"
proof (induction "grid_size g" arbitrary: g s rule: less_induct)
  case less
  show ?case
  proof (cases "\<forall>b \<in> set g. b = []")
    case True
    then show ?thesis by (blast intro: run_end)
  next
    case False
    then obtain i iv ivs where i: "i < length g" "g ! i = iv # ivs"
      by (metis in_set_conv_nth neq_Nil_conv)
    have len: "(\<Sum>b \<leftarrow> g[i := b']. length b) + length (g ! i) = (\<Sum>b \<leftarrow> g. length b) + length b'" for b'
      by (rule sum_list_map_update [OF i(1)])
    show ?thesis
    proof (cases "\<forall>c \<in> set iv. c = []")
      case True
      then have "block_steps (g ! i) = block_steps ivs" by (simp add: i(2) block_steps_def)
      then have "grid_size (g[i := ivs]) < grid_size g"
        using len [of ivs] i(2) unfolding grid_size_def grid_steps_split(1) [OF i(1)] grid_steps_split(2) [OF i(1)] by simp
      with less obtain r where "grid_run (g[i := ivs]) s r" by blast
      with i True show ?thesis by (blast intro: run_barrier)
    next
      case False
      then obtain t x xs where t: "t < length iv" "iv ! t = x # xs" by (metis in_set_conv_nth neq_Nil_conv)
      show ?thesis
      proof (cases "kstep x s")
        case (Inl e)
        with i t show ?thesis by (blast intro: run_fault)
      next
        case (Inr s')
        have "length (block_steps (iv[t := xs] # ivs)) < length (block_steps (g ! i))"
          using concat_update [OF t] by (simp add: i(2) block_steps_def)
        then have "grid_size (g[i := iv[t := xs] # ivs]) < grid_size g"
          using len [of "iv[t := xs] # ivs"] i(2) unfolding grid_size_def grid_steps_split(1) [OF i(1)] grid_steps_split(2) [OF i(1)] by simp
        with less obtain r where "grid_run (g[i := iv[t := xs] # ivs]) s' r" by blast
        with i t Inr show ?thesis by (blast intro: run_step)
      qed
    qed
  qed
qed

theorem race_free_deterministic:
  "race_free g \<Longrightarrow> grid_run g s = (\<lambda>r. r = run_steps (grid_steps g) s)"
  using run_exists [of g s] run_is_sequential [of g s] by blast

section \<open>Launches\<close>

text \<open>
  A kernel is given by the code of each thread between its barriers: a list of functions of the index of
  the block and of the thread.
\<close>

definition launch_grid :: "nat \<Rightarrow> nat \<Rightarrow> (nat \<Rightarrow> nat \<Rightarrow> 'v kstep list) list \<Rightarrow> 'v grid" where
  "launch_grid blocks threads code = map (\<lambda>b. map (\<lambda>f. map (f b) [0..<threads]) code) [0..<blocks]"

lemma launch_race_free:
  assumes same: "\<And>f b t t' x y. f \<in> set code \<Longrightarrow> b < B \<Longrightarrow> t < D \<Longrightarrow> t' < D \<Longrightarrow> t \<noteq> t' \<Longrightarrow> x \<in> set (f b t) \<Longrightarrow> y \<in> set (f b t') \<Longrightarrow> indep x y"
    and other: "\<And>f f' b b' t t' x y. f \<in> set code \<Longrightarrow> f' \<in> set code \<Longrightarrow> b < B \<Longrightarrow> b' < B \<Longrightarrow> b \<noteq> b' \<Longrightarrow> t < D \<Longrightarrow> t' < D \<Longrightarrow>
      x \<in> set (f b t) \<Longrightarrow> y \<in> set (f' b' t') \<Longrightarrow> indep x y"
  shows "race_free (launch_grid B D code)"
proof -
  have mem: "\<exists>f \<in> set code. \<exists>t < D. x \<in> set (f b t)" if "x \<in> set (block_steps (launch_grid B D code ! b))" "b < B" for x b
    using that by (fastforce simp: launch_grid_def block_steps_def)
  have "blocks_apart (launch_grid B D code)"
    unfolding blocks_apart_def
  proof (intro allI impI ballI)
    fix i j x y assume "i < length (launch_grid B D code)" "j < length (launch_grid B D code)" "i \<noteq> j"
      and x: "x \<in> set (block_steps (launch_grid B D code ! i))" and y: "y \<in> set (block_steps (launch_grid B D code ! j))"
    then have "i < B" "j < B" "i \<noteq> j" by (simp_all add: launch_grid_def)
    with mem [OF x] mem [OF y] other show "indep x y" by blast
  qed
  moreover have "threads_apart (map (f b) [0..<D])" if "f \<in> set code" "b < B" for f b
    using same [OF that] by (simp add: threads_apart_def)
  ultimately show ?thesis by (auto simp: race_free_def launch_grid_def)
qed

lemma launch_steps:
  "grid_steps (launch_grid B D code) = concat (map (\<lambda>b. concat (map (\<lambda>f. concat (map (f b) [0..<D])) code)) [0..<B])"
  by (simp add: grid_steps_def block_steps_def launch_grid_def comp_def)

text \<open>Steps that neither write twice nor read what an earlier one wrote act at once.\<close>

definition result_at :: "'v option \<Rightarrow> 'v option \<Rightarrow> 'v option" where
  "result_at old v = (case v of None \<Rightarrow> old | Some x \<Rightarrow> Some x)"

lemma result_at_Some [simp]: "result_at old (Some x) = Some x"
  by (simp add: result_at_def)

lemma run_parallel:
  assumes "distinct is" and "inj_on d (set is)"
    and "\<And>i j. i \<in> set is \<Longrightarrow> j \<in> set is \<Longrightarrow> i \<noteq> j \<Longrightarrow> d i \<notin> set (ls j)"
    and "\<And>i l. i \<in> set is \<Longrightarrow> l \<in> set (ls i) \<Longrightarrow> s l \<noteq> None" and "\<And>i. i \<in> set is \<Longrightarrow> s (d i) \<noteq> None"
  shows "\<exists>s'. run_steps (map (\<lambda>i. Assign (d i) (ls i) (f i)) is) s = Inr s' \<and>
    (\<forall>i \<in> set is. s' (d i) = result_at (s (d i)) (f i (map (\<lambda>l. the (s l)) (ls i)))) \<and> (\<forall>l. l \<notin> d ` set is \<longrightarrow> s' l = s l)"
  using assms
proof (induction "is" arbitrary: s)
  case (Cons i "is")
  let ?v = "result_at (s (d i)) (f i (map (\<lambda>l. the (s l)) (ls i)))"
  let ?s = "s(d i := ?v)"
  have some: "?v \<noteq> None" using Cons.prems(5) [of i] by (simp add: result_at_def split: option.splits)
  have step: "kstep (Assign (d i) (ls i) (f i)) s = Inr ?s"
    using Cons.prems(4) [of i] Cons.prems(5) [of i] by (auto simp: kstep_def list_ex_iff result_at_def split: option.splits)
  have new: "map (\<lambda>l. the (?s l)) (ls j) = map (\<lambda>l. the (s l)) (ls j)" if "j \<in> set is" for j
    using Cons.prems(1) Cons.prems(3) [of i j] that by auto
  have apart: "d i \<noteq> d j" if "j \<in> set is" for j using Cons.prems(1,2) that by (auto simp: inj_on_def)
  have "\<exists>s'. run_steps (map (\<lambda>i. Assign (d i) (ls i) (f i)) is) ?s = Inr s' \<and>
    (\<forall>j \<in> set is. s' (d j) = result_at (?s (d j)) (f j (map (\<lambda>l. the (?s l)) (ls j)))) \<and> (\<forall>l. l \<notin> d ` set is \<longrightarrow> s' l = ?s l)"
  proof (rule Cons.IH)
    show "distinct is" "inj_on d (set is)" using Cons.prems(1,2) by simp_all
    fix j assume j: "j \<in> set is"
    show "?s (d j) \<noteq> None" using Cons.prems(5) [of j] j some by simp
    show "?s l \<noteq> None" if "l \<in> set (ls j)" for l using Cons.prems(4) [of j l] j that some by simp
    show "d j \<notin> set (ls k)" if "k \<in> set is" "j \<noteq> k" for k using Cons.prems(3) [of j k] j that by simp
  qed
  then obtain s' where s': "run_steps (map (\<lambda>i. Assign (d i) (ls i) (f i)) is) ?s = Inr s'"
    "\<And>j. j \<in> set is \<Longrightarrow> s' (d j) = result_at (?s (d j)) (f j (map (\<lambda>l. the (?s l)) (ls j)))"
    "\<And>l. l \<notin> d ` set is \<Longrightarrow> s' l = ?s l" by blast
  have vals: "s' (d j) = result_at (s (d j)) (f j (map (\<lambda>l. the (s l)) (ls j)))" if "j \<in> set is" for j
    using s'(2) [OF that] apart [OF that] unfolding new [OF that] by simp
  have "d i \<notin> d ` set is" using apart by blast
  then have "s' (d i) = ?v" using s'(3) by simp
  moreover have "run_steps (map (\<lambda>i. Assign (d i) (ls i) (f i)) (i # is)) s = Inr s'" using step s'(1) by simp
  ultimately show ?case using s'(3) vals by (intro exI [of _ s']) simp
qed simp

text \<open>Threads one after the other, with an invariant of how many are done.\<close>

lemma run_threads:
  assumes "P 0 s" and "\<And>t u. t < D \<Longrightarrow> P t u \<Longrightarrow> \<exists>u'. run_steps (c t) u = Inr u' \<and> P (Suc t) u'"
  shows "\<exists>u. run_steps (concat (map c [0..<D])) s = Inr u \<and> P D u"
  using assms(2)
proof (induction D)
  case (Suc D)
  then obtain u where "run_steps (concat (map c [0..<D])) s = Inr u" "P D u" by force
  moreover from Suc.prems [OF _ this(2)] obtain u' where "run_steps (c D) u = Inr u'" "P (Suc D) u'" by blast
  ultimately show ?case by simp
qed (use assms(1) in simp)

text \<open>What stays inside a block, but for the global cells it writes and reads.\<close>

definition stays :: "nat \<Rightarrow> nat set \<Rightarrow> nat set \<Rightarrow> 'v kstep \<Rightarrow> bool" where
  "stays b W R x \<longleftrightarrow> (case k_dst x of Glob p \<Rightarrow> p \<in> W | Shar b' i \<Rightarrow> b' = b | Reg b' t i \<Rightarrow> b' = b) \<and>
     (\<forall>l \<in> set (k_srcs x). case l of Glob p \<Rightarrow> p \<in> R | Shar b' i \<Rightarrow> b' = b | Reg b' t i \<Rightarrow> b' = b)"

lemma stays_indep:
  assumes "stays b W R x" and "stays b' W' R' y" and "b \<noteq> b'" and "W \<inter> W' = {}" and "W \<inter> R' = {}" and "W' \<inter> R = {}"
  shows "indep x y"
  using assms unfolding stays_def indep_def by (auto split: loc.splits)

section \<open>Arrays in global memory\<close>

type_synonym 'v gmem = "nat \<Rightarrow> 'v option"

definition glob :: "'v kstate \<Rightarrow> 'v gmem" where
  "glob s = (\<lambda>p. s (Glob p))"

definition holds :: "'v gmem \<Rightarrow> nat \<Rightarrow> 'v list \<Rightarrow> bool" where
  "holds m p xs \<longleftrightarrow> (\<forall>i < length xs. m (p + i) = Some (xs ! i))"

definition room :: "'v gmem \<Rightarrow> nat \<Rightarrow> nat \<Rightarrow> bool" where
  "room m p n \<longleftrightarrow> (\<forall>i < n. m (p + i) \<noteq> None)"

text \<open>An array read element by element while another is written: the same one, or apart from it.\<close>

definition apart_or_same :: "nat \<Rightarrow> nat \<Rightarrow> nat \<Rightarrow> bool" where
  "apart_or_same out a n \<longleftrightarrow> a = out \<or> a + n \<le> out \<or> out + n \<le> a"

text \<open>
  A launch gives a grid and the number of elements of shared memory of each block, if every loop of the
  kernel ends. Variables and shared memory start with arbitrary contents. \<open>stores\<close>: every run ends with
  \<open>vs\<close> in the array at \<open>out\<close> and all other global memory unchanged. \<open>faults\<close>: every run is undefined.
\<close>

type_synonym 'v launch = "('v grid \<times> nat) option"

definition starts :: "nat \<Rightarrow> 'v gmem \<Rightarrow> 'v kstate \<Rightarrow> bool" where
  "starts sh m s \<longleftrightarrow> glob s = m \<and> (\<forall>b i. (s (Shar b i) = None) = (sh \<le> i)) \<and> (\<forall>b t i. s (Reg b t i) \<noteq> None)"

definition stores :: "'v launch \<Rightarrow> 'v gmem \<Rightarrow> nat \<Rightarrow> 'v list \<Rightarrow> bool" where
  "stores L m out vs \<longleftrightarrow> (\<exists>g sh. L = Some (g, sh) \<and> (\<forall>s. starts sh m s \<longrightarrow> (\<exists>s'. (\<forall>r. grid_run g s r = (r = Inr s')) \<and>
     holds (glob s') out vs \<and> (\<forall>p. p \<notin> {out..<out + length vs} \<longrightarrow> glob s' p = m p))))"

definition faults :: "'v launch \<Rightarrow> 'v gmem \<Rightarrow> bool" where
  "faults L m \<longleftrightarrow> (\<exists>g sh. L = Some (g, sh) \<and> (\<forall>s. starts sh m s \<longrightarrow> (\<forall>r. grid_run g s r \<longrightarrow> r = Inl Out_Of_Bounds)))"

lemma storesI:
  assumes "race_free g" and "\<And>s. starts sh m s \<Longrightarrow> \<exists>s'. run_steps (grid_steps g) s = Inr s' \<and> holds (glob s') out vs \<and>
      (\<forall>p. p \<notin> {out..<out + length vs} \<longrightarrow> glob s' p = m p)"
  shows "stores (Some (g, sh)) m out vs"
proof -
  have "\<exists>s'. (\<forall>r. grid_run g s r = (r = Inr s')) \<and> holds (glob s') out vs \<and> (\<forall>p. p \<notin> {out..<out + length vs} \<longrightarrow> glob s' p = m p)"
    if st: "starts sh m s" for s
  proof -
    from assms(2) [OF st] obtain s' where s': "run_steps (grid_steps g) s = Inr s'" "holds (glob s') out vs"
      "\<forall>p. p \<notin> {out..<out + length vs} \<longrightarrow> glob s' p = m p" by blast
    then show ?thesis using race_free_deterministic [OF assms(1), of s] by (intro exI [of _ s']) simp
  qed
  then show ?thesis unfolding stores_def by blast
qed

lemma holds_value: "holds m p xs \<Longrightarrow> i < length xs \<Longrightarrow> the (m (p + i)) = xs ! i"
  by (simp add: holds_def)

lemma holds_room: "holds m p xs \<Longrightarrow> n \<le> length xs \<Longrightarrow> room m p n"
  by (simp add: holds_def room_def)

text \<open>
  The operations on the element type, uninterpreted. Each operator of the source is one operation: a compiler
  that contracts a product and a sum into one fused operation computes another value, which no statement
  here covers.
\<close>

record 'v dev_ops =
  d_zero :: 'v
  d_one :: 'v
  d_minus_inf :: 'v
  d_add :: "'v \<Rightarrow> 'v \<Rightarrow> 'v"
  d_sub :: "'v \<Rightarrow> 'v \<Rightarrow> 'v"
  d_mul :: "'v \<Rightarrow> 'v \<Rightarrow> 'v"
  d_div :: "'v \<Rightarrow> 'v \<Rightarrow> 'v"
  d_max :: "'v \<Rightarrow> 'v \<Rightarrow> 'v"
  d_exp :: "'v \<Rightarrow> 'v"
  d_log :: "'v \<Rightarrow> 'v"
  d_sqrt :: "'v \<Rightarrow> 'v"
  d_rsqrt :: "'v \<Rightarrow> 'v"
  d_of_int :: "int \<Rightarrow> 'v"
  d_tiny :: 'v
  d_is_zero :: "'v \<Rightarrow> bool"

end
