(* ===== verification/Cuda_Elementwise.thy ===== *)
theory Cuda_Elementwise
  imports Cuda_Grid
begin

text \<open>
  \<open>cuda/kernels/elementwise.cu\<close> and the elementwise kernels of \<open>bridges/cuda_kernel_bridge.cu\<close>. The
  indices are 32-bit words, as \<open>blockIdx.x * blockDim.x\<close> and \<open>blockDim.x * gridDim.x\<close> are.
\<close>

section \<open>Grid-stride loops\<close>

text \<open>\<open>for (size_t i = idx; i < n; i += stride)\<close>; no value when the loop never ends.\<close>

partial_function (option) strided :: "size_t \<Rightarrow> size_t \<Rightarrow> size_t \<Rightarrow> size_t list option" where
  "strided i n stride = (if i < n then Option.bind (strided (i + stride) n stride) (\<lambda>is. Some (i # is)) else Some [])"

definition thread_index :: "nat \<Rightarrow> nat \<Rightarrow> nat \<Rightarrow> size_t" where
  "thread_index b D t = ucast (word_of_nat b * word_of_nat D + word_of_nat t :: 32 word)"

definition grid_stride :: "nat \<Rightarrow> nat \<Rightarrow> size_t" where
  "grid_stride D G = ucast (word_of_nat D * word_of_nat G :: 32 word)"

definition grid_loop :: "nat \<Rightarrow> nat \<Rightarrow> size_t \<Rightarrow> (nat \<Rightarrow> 'v kstep) \<Rightarrow> nat \<Rightarrow> nat \<Rightarrow> 'v kstep list option" where
  "grid_loop G D n body b t = map_option (map (\<lambda>i. body (unat i))) (strided (thread_index b D t) n (grid_stride D G))"

text \<open>
  A launch of a kernel without barriers; no value when some thread never ends. \<open>launch_size\<close> is the
  number of blocks, converted to \<open>int\<close>; a number that is not positive is refused and nothing runs.
\<close>

definition launch_simple :: "nat \<Rightarrow> nat \<Rightarrow> (nat \<Rightarrow> nat \<Rightarrow> 'v kstep list option) \<Rightarrow> 'v launch" where
  "launch_simple G D k = (if list_all (\<lambda>b. list_all (\<lambda>t. k b t \<noteq> None) [0..<D]) [0..<G]
     then Some (launch_grid G D [\<lambda>b t. the (k b t)], 0) else None)"

definition launch_size :: "size_t \<Rightarrow> nat" where
  "launch_size n = nat (sint (ucast ((n + 255) div 256) :: 32 word))"

section \<open>The kernels\<close>

definition add_kernel :: "'v dev_ops \<Rightarrow> nat \<Rightarrow> nat \<Rightarrow> nat \<Rightarrow> size_t \<Rightarrow> nat \<Rightarrow> nat \<Rightarrow> nat \<Rightarrow> nat \<Rightarrow> 'v kstep list option" where
  "add_kernel ops out a b n G D =
     grid_loop G D n (\<lambda>i. Assign (Glob (out + i)) [Glob (a + i), Glob (b + i)] (\<lambda>vs. Some (d_add ops (vs ! 0) (vs ! 1))))"

definition mul_kernel :: "'v dev_ops \<Rightarrow> nat \<Rightarrow> nat \<Rightarrow> nat \<Rightarrow> size_t \<Rightarrow> nat \<Rightarrow> nat \<Rightarrow> nat \<Rightarrow> nat \<Rightarrow> 'v kstep list option" where
  "mul_kernel ops out a b n G D =
     grid_loop G D n (\<lambda>i. Assign (Glob (out + i)) [Glob (a + i), Glob (b + i)] (\<lambda>vs. Some (d_mul ops (vs ! 0) (vs ! 1))))"

definition sub_kernel :: "'v dev_ops \<Rightarrow> nat \<Rightarrow> nat \<Rightarrow> nat \<Rightarrow> size_t \<Rightarrow> nat \<Rightarrow> nat \<Rightarrow> nat \<Rightarrow> nat \<Rightarrow> 'v kstep list option" where
  "sub_kernel ops out a b n G D =
     grid_loop G D n (\<lambda>i. Assign (Glob (out + i)) [Glob (a + i), Glob (b + i)] (\<lambda>vs. Some (d_sub ops (vs ! 0) (vs ! 1))))"

definition div_kernel :: "'v dev_ops \<Rightarrow> nat \<Rightarrow> nat \<Rightarrow> nat \<Rightarrow> size_t \<Rightarrow> nat \<Rightarrow> nat \<Rightarrow> nat \<Rightarrow> nat \<Rightarrow> 'v kstep list option" where
  "div_kernel ops out a b n G D =
     grid_loop G D n (\<lambda>i. Assign (Glob (out + i)) [Glob (a + i), Glob (b + i)] (\<lambda>vs. Some (d_div ops (vs ! 0) (vs ! 1))))"

definition add_scalar_kernel :: "'v dev_ops \<Rightarrow> nat \<Rightarrow> nat \<Rightarrow> 'v \<Rightarrow> size_t \<Rightarrow> nat \<Rightarrow> nat \<Rightarrow> nat \<Rightarrow> nat \<Rightarrow> 'v kstep list option" where
  "add_scalar_kernel ops out a c n G D =
     grid_loop G D n (\<lambda>i. Assign (Glob (out + i)) [Glob (a + i)] (\<lambda>vs. Some (d_add ops (vs ! 0) c)))"

definition mul_scalar_kernel :: "'v dev_ops \<Rightarrow> nat \<Rightarrow> nat \<Rightarrow> 'v \<Rightarrow> size_t \<Rightarrow> nat \<Rightarrow> nat \<Rightarrow> nat \<Rightarrow> nat \<Rightarrow> 'v kstep list option" where
  "mul_scalar_kernel ops out a c n G D =
     grid_loop G D n (\<lambda>i. Assign (Glob (out + i)) [Glob (a + i)] (\<lambda>vs. Some (d_mul ops (vs ! 0) c)))"

definition sqrt_kernel :: "'v dev_ops \<Rightarrow> nat \<Rightarrow> nat \<Rightarrow> size_t \<Rightarrow> nat \<Rightarrow> nat \<Rightarrow> nat \<Rightarrow> nat \<Rightarrow> 'v kstep list option" where
  "sqrt_kernel ops out a n G D =
     grid_loop G D n (\<lambda>i. Assign (Glob (out + i)) [Glob (a + i)] (\<lambda>vs. Some (d_sqrt ops (vs ! 0))))"

definition rsqrt_kernel :: "'v dev_ops \<Rightarrow> nat \<Rightarrow> nat \<Rightarrow> size_t \<Rightarrow> nat \<Rightarrow> nat \<Rightarrow> nat \<Rightarrow> nat \<Rightarrow> 'v kstep list option" where
  "rsqrt_kernel ops out a n G D =
     grid_loop G D n (\<lambda>i. Assign (Glob (out + i)) [Glob (a + i)] (\<lambda>vs. Some (d_rsqrt ops (vs ! 0))))"

definition launch_add :: "'v dev_ops \<Rightarrow> nat \<Rightarrow> nat \<Rightarrow> nat \<Rightarrow> size_t \<Rightarrow> 'v launch" where
  "launch_add ops out a b n = launch_simple (launch_size n) 256 (add_kernel ops out a b n (launch_size n) 256)"

definition launch_mul :: "'v dev_ops \<Rightarrow> nat \<Rightarrow> nat \<Rightarrow> nat \<Rightarrow> size_t \<Rightarrow> 'v launch" where
  "launch_mul ops out a b n = launch_simple (launch_size n) 256 (mul_kernel ops out a b n (launch_size n) 256)"

definition launch_sub :: "'v dev_ops \<Rightarrow> nat \<Rightarrow> nat \<Rightarrow> nat \<Rightarrow> size_t \<Rightarrow> 'v launch" where
  "launch_sub ops out a b n = launch_simple (launch_size n) 256 (sub_kernel ops out a b n (launch_size n) 256)"

definition launch_div :: "'v dev_ops \<Rightarrow> nat \<Rightarrow> nat \<Rightarrow> nat \<Rightarrow> size_t \<Rightarrow> 'v launch" where
  "launch_div ops out a b n = launch_simple (launch_size n) 256 (div_kernel ops out a b n (launch_size n) 256)"

definition launch_add_scalar :: "'v dev_ops \<Rightarrow> nat \<Rightarrow> nat \<Rightarrow> 'v \<Rightarrow> size_t \<Rightarrow> 'v launch" where
  "launch_add_scalar ops out a c n = launch_simple (launch_size n) 256 (add_scalar_kernel ops out a c n (launch_size n) 256)"

definition launch_mul_scalar :: "'v dev_ops \<Rightarrow> nat \<Rightarrow> nat \<Rightarrow> 'v \<Rightarrow> size_t \<Rightarrow> 'v launch" where
  "launch_mul_scalar ops out a c n = launch_simple (launch_size n) 256 (mul_scalar_kernel ops out a c n (launch_size n) 256)"

definition launch_sqrt :: "'v dev_ops \<Rightarrow> nat \<Rightarrow> nat \<Rightarrow> size_t \<Rightarrow> 'v launch" where
  "launch_sqrt ops out a n = launch_simple (launch_size n) 256 (sqrt_kernel ops out a n (launch_size n) 256)"

definition launch_rsqrt :: "'v dev_ops \<Rightarrow> nat \<Rightarrow> nat \<Rightarrow> size_t \<Rightarrow> 'v launch" where
  "launch_rsqrt ops out a n = launch_simple (launch_size n) 256 (rsqrt_kernel ops out a n (launch_size n) 256)"

text \<open>
  The kernels of the bridge take \<open>int n\<close> and run one element per thread, \<open>idx < n\<close> permitting; \<open>div\<close>
  leaves the result alone where the divisor compares equal to zero. The number of blocks is computed in
  \<open>int\<close>, whose overflow is undefined.
\<close>

definition bridge_index :: "nat \<Rightarrow> nat \<Rightarrow> nat \<Rightarrow> int" where
  "bridge_index b D t = sint (word_of_nat b * word_of_nat D + word_of_nat t :: 32 word)"

definition bridge_loop :: "nat \<Rightarrow> int \<Rightarrow> (nat \<Rightarrow> 'v kstep) \<Rightarrow> nat \<Rightarrow> nat \<Rightarrow> 'v kstep list" where
  "bridge_loop D n body b t = (let idx = bridge_index b D t in if idx < n then [body (nat idx)] else [])"

definition bridge_blocks :: "int \<Rightarrow> nat comp" where
  "bridge_blocks n = (if n + 256 < 2 ^ 31 then Inr (nat ((n + 256 - 1) div 256)) else Inl Signed_Overflow)"

definition bridge_add_kernel :: "'v dev_ops \<Rightarrow> nat \<Rightarrow> nat \<Rightarrow> nat \<Rightarrow> int \<Rightarrow> nat \<Rightarrow> nat \<Rightarrow> nat \<Rightarrow> 'v kstep list" where
  "bridge_add_kernel ops out a b n D = bridge_loop D n
     (\<lambda>i. Assign (Glob (out + i)) [Glob (a + i), Glob (b + i)] (\<lambda>vs. Some (d_add ops (vs ! 0) (vs ! 1))))"

definition bridge_mul_kernel :: "'v dev_ops \<Rightarrow> nat \<Rightarrow> nat \<Rightarrow> nat \<Rightarrow> int \<Rightarrow> nat \<Rightarrow> nat \<Rightarrow> nat \<Rightarrow> 'v kstep list" where
  "bridge_mul_kernel ops out a b n D = bridge_loop D n
     (\<lambda>i. Assign (Glob (out + i)) [Glob (a + i), Glob (b + i)] (\<lambda>vs. Some (d_mul ops (vs ! 0) (vs ! 1))))"

definition bridge_sub_kernel :: "'v dev_ops \<Rightarrow> nat \<Rightarrow> nat \<Rightarrow> nat \<Rightarrow> int \<Rightarrow> nat \<Rightarrow> nat \<Rightarrow> nat \<Rightarrow> 'v kstep list" where
  "bridge_sub_kernel ops out a b n D = bridge_loop D n
     (\<lambda>i. Assign (Glob (out + i)) [Glob (a + i), Glob (b + i)] (\<lambda>vs. Some (d_sub ops (vs ! 0) (vs ! 1))))"

definition bridge_div_kernel :: "'v dev_ops \<Rightarrow> nat \<Rightarrow> nat \<Rightarrow> nat \<Rightarrow> int \<Rightarrow> nat \<Rightarrow> nat \<Rightarrow> nat \<Rightarrow> 'v kstep list" where
  "bridge_div_kernel ops out a b n D = bridge_loop D n
     (\<lambda>i. Assign (Glob (out + i)) [Glob (a + i), Glob (b + i)]
        (\<lambda>vs. if d_is_zero ops (vs ! 1) then None else Some (d_div ops (vs ! 0) (vs ! 1))))"

definition bridge_add :: "'v dev_ops \<Rightarrow> nat \<Rightarrow> nat \<Rightarrow> nat \<Rightarrow> int \<Rightarrow> ('v grid \<times> nat) comp" where
  "bridge_add ops out a b n = rbind (bridge_blocks n) (\<lambda>G. Inr (launch_grid G 256 [bridge_add_kernel ops out a b n 256], 0))"

definition bridge_mul :: "'v dev_ops \<Rightarrow> nat \<Rightarrow> nat \<Rightarrow> nat \<Rightarrow> int \<Rightarrow> ('v grid \<times> nat) comp" where
  "bridge_mul ops out a b n = rbind (bridge_blocks n) (\<lambda>G. Inr (launch_grid G 256 [bridge_mul_kernel ops out a b n 256], 0))"

definition bridge_sub :: "'v dev_ops \<Rightarrow> nat \<Rightarrow> nat \<Rightarrow> nat \<Rightarrow> int \<Rightarrow> ('v grid \<times> nat) comp" where
  "bridge_sub ops out a b n = rbind (bridge_blocks n) (\<lambda>G. Inr (launch_grid G 256 [bridge_sub_kernel ops out a b n 256], 0))"

definition bridge_div :: "'v dev_ops \<Rightarrow> nat \<Rightarrow> nat \<Rightarrow> nat \<Rightarrow> int \<Rightarrow> ('v grid \<times> nat) comp" where
  "bridge_div ops out a b n = rbind (bridge_blocks n) (\<lambda>G. Inr (launch_grid G 256 [bridge_div_kernel ops out a b n 256], 0))"

section \<open>One element per thread\<close>

lemma unat_widen: "k < 2 ^ 32 \<Longrightarrow> unat (ucast (word_of_nat k :: 32 word) :: size_t) = k"
  by (simp add: unsigned_ucast_eq unsigned_of_nat take_bit_nat_eq_self)

lemma thread_index_unat: "b * D + t < 2 ^ 32 \<Longrightarrow> unat (thread_index b D t) = b * D + t"
  using unat_widen [of "b * D + t"] by (simp add: thread_index_def)

lemma grid_stride_unat: "D * G < 2 ^ 32 \<Longrightarrow> unat (grid_stride D G) = D * G"
  using unat_widen [of "D * G"] by (simp add: grid_stride_def)

lemma strided_once:
  assumes "i < n" and "unat i + unat st < 2 ^ 64" and "unat n \<le> unat i + unat st"
  shows "strided i n st = Some [i]"
proof -
  have "unat (i + st) = unat i + unat st" using assms(2) by (simp add: unat_plus_simple_size)
  then have "\<not> i + st < n" using assms(3) by (simp add: word_less_nat_alt)
  with assms(1) show ?thesis by (simp add: strided.simps [of i] strided.simps [of "i + st"])
qed

lemma strided_none: "\<not> i < n \<Longrightarrow> strided i n st = Some []"
  by (simp add: strided.simps)

lemma grid_loop_once:
  assumes "b < G" and "t < D" and "D * G < 2 ^ 32" and "unat n \<le> D * G"
  shows "grid_loop G D n body b t = Some (if b * D + t < unat n then [body (b * D + t)] else [])"
proof -
  have "b * D + t < D * G" using assms(1,2) mult_le_mono1 [of "Suc b" G D] by (simp add: mult.commute)
  then have idx: "unat (thread_index b D t) = b * D + t" using assms(3) by (intro thread_index_unat) simp
  have st: "unat (grid_stride D G) = D * G" using assms(3) by (rule grid_stride_unat)
  show ?thesis
  proof (cases "b * D + t < unat n")
    case True
    then have "strided (thread_index b D t) n (grid_stride D G) = Some [thread_index b D t]"
      using idx st assms(3,4) by (intro strided_once) (simp_all add: word_less_nat_alt)
    with True idx show ?thesis by (simp add: grid_loop_def)
  next
    case False
    then have "strided (thread_index b D t) n (grid_stride D G) = Some []"
      using idx by (intro strided_none) (simp add: word_less_nat_alt)
    with False show ?thesis by (simp add: grid_loop_def)
  qed
qed

lemma sint_below: "k < 2 ^ 31 \<Longrightarrow> sint (word_of_nat k :: 32 word) = int k"
  by (simp add: signed_of_nat signed_take_bit_int_eq_self)

lemma launch_size_eq:
  assumes "unat n + 255 < 2 ^ 32"
  shows "launch_size n = (unat n + 255) div 256"
proof -
  have "unat (n + 255) = unat n + 255" using assms by (simp add: unat_plus_simple_size)
  then have u: "unat ((n + 255) div 256) = (unat n + 255) div 256" by (simp add: unat_div)
  have "(ucast ((n + 255) div 256) :: 32 word) = word_of_nat ((unat n + 255) div 256)"
    unfolding u [symmetric] by simp
  moreover have "(unat n + 255) div 256 < 2 ^ 31" using assms by (simp add: less_mult_imp_div_less)
  ultimately show ?thesis using sint_below by (simp add: launch_size_def)
qed

lemma steps_in_order:
  "concat (map (\<lambda>b. concat (map (\<lambda>t. if b * D + t < n then [h (b * D + t)] else []) [0..<D])) [0..<G]) =
    map h [0..<min n (G * D)]"
proof (induction G)
  case (Suc G)
  have "concat (map (\<lambda>t. if k + t < n then [h (k + t)] else []) [0..<D]) = map h [k..<min n (D + k)]" if "k \<le> n" for k
  proof (induction D)
    case (Suc D)
    show ?case
    proof (cases "k + D < n")
      case True
      then have "min n (D + k) = D + k" "min n (Suc D + k) = Suc (D + k)" by simp_all
      with Suc True show ?thesis by (simp add: add.commute)
    next
      case False
      then have "min n (D + k) = n" "min n (Suc D + k) = n" by simp_all
      with Suc False show ?thesis by simp
    qed
  qed (use that in simp)
  note row = this [of "G * D"]
  show ?case
  proof (cases "G * D \<le> n")
    case True
    then have "[0..<min n (Suc G * D)] = [0..<G * D] @ [G * D..<min n (D + G * D)]"
      using upt_add_eq_append [of 0 "G * D" "min n (D + G * D) - G * D"] by simp
    with Suc row [OF True] True show ?thesis by simp
  next
    case False
    then have "concat (map (\<lambda>t. if G * D + t < n then [h (G * D + t)] else []) [0..<D]) = []"
      by (auto simp: concat_eq_Nil_conv)
    moreover have "min n (G * D) = n" "min n (Suc G * D) = n" using False by simp_all
    ultimately show ?thesis using Suc by simp
  qed
qed simp

text \<open>Any kernel that stores in element \<open>i\<close> of its result a function of elements \<open>i\<close> of its arguments.\<close>

definition pointwise :: "nat \<Rightarrow> nat list \<Rightarrow> ('v list \<Rightarrow> 'v option) \<Rightarrow> nat \<Rightarrow> 'v kstep" where
  "pointwise out as f i = Assign (Glob (out + i)) (map (\<lambda>a. Glob (a + i)) as) f"

lemma pointwise_indep:
  assumes "\<forall>a \<in> set as. apart_or_same out a n" and "i < n" and "j < n" and "i \<noteq> j"
  shows "indep (pointwise out as f i) (pointwise out as f j)"
  using assms unfolding indep_def pointwise_def apart_or_same_def by fastforce

lemma pointwise_grid:
  assumes code: "\<And>b t. b < G \<Longrightarrow> t < D \<Longrightarrow> code b t = (if b * D + t < n then [pointwise out as f (b * D + t)] else [])"
    and n: "n \<le> D * G" and apart: "\<forall>a \<in> set as. apart_or_same out a n"
  shows "race_free (launch_grid G D [code])" and "grid_steps (launch_grid G D [code]) = map (pointwise out as f) [0..<n]"
proof -
  show "race_free (launch_grid G D [code])"
  proof (rule launch_race_free)
    fix h b t t' x y assume "h \<in> set [code]" "b < G" "t < D" "t' < D" "t \<noteq> t'" "x \<in> set (h b t)" "y \<in> set (h b t')"
    then have "b * D + t < n" "b * D + t' < n" "x = pointwise out as f (b * D + t)" "y = pointwise out as f (b * D + t')"
      using code by (auto split: if_splits)
    with \<open>t \<noteq> t'\<close> show "indep x y" using pointwise_indep [OF apart, of "b * D + t" "b * D + t'" f] by simp
  next
    fix h h' b b' t t' x y assume a: "h \<in> set [code]" "h' \<in> set [code]" "b < G" "b' < G" "b \<noteq> b'" "t < D" "t' < D"
      "x \<in> set (h b t)" "y \<in> set (h' b' t')"
    have "b * D + t \<noteq> b' * D + t'"
    proof
      assume "b * D + t = b' * D + t'"
      then have "(b * D + t) div D = (b' * D + t') div D" by simp
      with a show False by simp
    qed
    moreover have "b * D + t < n" "b' * D + t' < n" "x = pointwise out as f (b * D + t)" "y = pointwise out as f (b' * D + t')"
      using a code by (auto split: if_splits)
    ultimately show "indep x y" using pointwise_indep [OF apart, of "b * D + t" "b' * D + t'" f] by simp
  qed
  have "grid_steps (launch_grid G D [code]) =
    concat (map (\<lambda>b. concat (map (\<lambda>t. if b * D + t < n then [pointwise out as f (b * D + t)] else []) [0..<D])) [0..<G])"
  proof -
    have row: "map (code b) [0..<D] = map (\<lambda>t. if b * D + t < n then [pointwise out as f (b * D + t)] else []) [0..<D]"
      if "b < G" for b using code that by simp
    have "map (\<lambda>b. concat (map (code b) [0..<D])) [0..<G] =
      map (\<lambda>b. concat (map (\<lambda>t. if b * D + t < n then [pointwise out as f (b * D + t)] else []) [0..<D])) [0..<G]"
      by (rule map_cong) (simp_all only: row atLeastLessThan_iff set_upt)
    then show ?thesis by (simp only: launch_steps list.map concat.simps append_Nil2)
  qed
  then show "grid_steps (launch_grid G D [code]) = map (pointwise out as f) [0..<n]"
    unfolding steps_in_order using n by (simp add: min_absorb1 mult.commute)
qed

lemma glob_range: "(\<lambda>i. Glob (out + i)) ` {0..<n} = Glob ` {out..<out + n}"
  using image_image [of Glob "\<lambda>i. out + i" "{0..<n}"] by (simp add: image_add_atLeastLessThan add.commute)

lemma pointwise_runs:
  assumes "room (glob s) out n" and "\<forall>a \<in> set as. room (glob s) a n" and "\<forall>a \<in> set as. apart_or_same out a n"
    and vals: "\<And>i. i < n \<Longrightarrow> result_at (glob s (out + i)) (f (map (\<lambda>a. the (glob s (a + i))) as)) = Some (vs ! i)"
    and len: "length vs = n"
  shows "\<exists>s'. run_steps (map (pointwise out as f) [0..<n]) s = Inr s' \<and> holds (glob s') out vs \<and>
    (\<forall>p. p \<notin> {out..<out + length vs} \<longrightarrow> glob s' p = glob s p)"
proof -
  have "\<exists>s'. run_steps (map (\<lambda>i. Assign (Glob (out + i)) (map (\<lambda>a. Glob (a + i)) as) f) [0..<n]) s = Inr s' \<and>
    (\<forall>i \<in> set [0..<n]. s' (Glob (out + i)) = result_at (s (Glob (out + i))) (f (map (\<lambda>l. the (s l)) (map (\<lambda>a. Glob (a + i)) as)))) \<and>
    (\<forall>l. l \<notin> (\<lambda>i. Glob (out + i)) ` set [0..<n] \<longrightarrow> s' l = s l)"
  proof (rule run_parallel [where f = "\<lambda>_. f"])
    show "inj_on (\<lambda>i. Glob (out + i)) (set [0..<n])" by (simp add: inj_on_def)
    fix i j assume "i \<in> set [0..<n]" "j \<in> set [0..<n]" "i \<noteq> j"
    then show "Glob (out + i) \<notin> set (map (\<lambda>a. Glob (a + j)) as)" using assms(3) by (fastforce simp: apart_or_same_def)
  next
    fix i l assume "i \<in> set [0..<n]" "l \<in> set (map (\<lambda>a. Glob (a + i)) as)"
    then show "s l \<noteq> None" using assms(2) by (auto simp: room_def glob_def)
  next
    fix i assume "i \<in> set [0..<n]"
    then show "s (Glob (out + i)) \<noteq> None" using assms(1) by (simp add: room_def glob_def)
  qed simp
  then obtain s' where s': "run_steps (map (pointwise out as f) [0..<n]) s = Inr s'"
    "\<And>i. i < n \<Longrightarrow> s' (Glob (out + i)) = Some (vs ! i)" "\<And>l. l \<notin> (\<lambda>i. Glob (out + i)) ` {0..<n} \<Longrightarrow> s' l = s l"
    using vals by (auto simp: pointwise_def [abs_def] comp_def glob_def)
  have "glob s' p = glob s p" if "p \<notin> {out..<out + n}" for p
  proof -
    have "Glob p \<notin> Glob ` {out..<out + n}" using that by blast
    then show ?thesis using s'(3) [of "Glob p"] unfolding glob_range by (simp add: glob_def)
  qed
  with s'(1,2) len show ?thesis by (intro exI [of _ s']) (simp add: holds_def glob_def)
qed

section \<open>What the launches compute\<close>

lemma stores_pointwise:
  assumes "race_free g" and "grid_steps g = map (pointwise out as f) [0..<n]"
    and "room m out n" and "\<forall>a \<in> set as. room m a n" and "\<forall>a \<in> set as. apart_or_same out a n"
    and "\<And>i. i < n \<Longrightarrow> result_at (m (out + i)) (f (map (\<lambda>a. the (m (a + i))) as)) = Some (vs ! i)" and "length vs = n"
  shows "stores (Some (g, sh)) m out vs"
proof (rule storesI [OF assms(1)])
  fix s assume "starts sh m s"
  then have "glob s = m" by (simp add: starts_def)
  with pointwise_runs [of s out n as f vs] assms(2-7)
  show "\<exists>s'. run_steps (grid_steps g) s = Inr s' \<and> holds (glob s') out vs \<and> (\<forall>p. p \<notin> {out..<out + length vs} \<longrightarrow> glob s' p = m p)"
    by simp
qed

lemma launch_simple_loop:
  assumes n: "unat n + 255 < 2 ^ 32" and apart: "\<forall>a \<in> set as. apart_or_same out a (unat n)"
  shows "\<exists>g. launch_simple (launch_size n) 256 (grid_loop (launch_size n) 256 n (pointwise out as f)) = Some (g, 0) \<and>
    race_free g \<and> grid_steps g = map (pointwise out as f) [0..<unat n]"
proof -
  let ?G = "launch_size n"
  have G: "?G = (unat n + 255) div 256" by (rule launch_size_eq [OF n])
  have fits: "256 * ?G < 2 ^ 32" "unat n \<le> 256 * ?G" using n unfolding G by linarith+
  have loop: "grid_loop ?G 256 n (pointwise out as f) b t =
      Some (if b * 256 + t < unat n then [pointwise out as f (b * 256 + t)] else [])" if "b < ?G" "t < 256" for b t
    using grid_loop_once [OF that fits] .
  then have "launch_simple ?G 256 (grid_loop ?G 256 n (pointwise out as f)) =
      Some (launch_grid ?G 256 [\<lambda>b t. the (grid_loop ?G 256 n (pointwise out as f) b t)], 0)"
    by (simp add: launch_simple_def list_all_iff)
  moreover note pointwise_grid [of ?G 256 "\<lambda>b t. the (grid_loop ?G 256 n (pointwise out as f) b t)" "unat n" out as f, OF _ fits(2) apart]
  ultimately show ?thesis using loop by auto
qed

definition args_ok :: "'v gmem \<Rightarrow> nat \<Rightarrow> nat list \<Rightarrow> nat \<Rightarrow> bool" where
  "args_ok s out as n \<longleftrightarrow> room s out n \<and> (\<forall>a \<in> set as. room s a n \<and> apart_or_same out a n)"

lemma stores_launch:
  assumes n: "unat n + 255 < 2 ^ 32" and args: "args_ok s out as (unat n)"
    and "\<And>i. i < unat n \<Longrightarrow> result_at (s (out + i)) (f (map (\<lambda>a. the (s (a + i))) as)) = Some (vs ! i)" and "length vs = unat n"
  shows "stores (launch_simple (launch_size n) 256 (grid_loop (launch_size n) 256 n (pointwise out as f))) s out vs"
proof -
  have a: "room s out (unat n)" "\<forall>a \<in> set as. room s a (unat n)" "\<forall>a \<in> set as. apart_or_same out a (unat n)"
    using args by (auto simp: args_ok_def)
  from launch_simple_loop [OF n a(3)] obtain g where
    g: "launch_simple (launch_size n) 256 (grid_loop (launch_size n) 256 n (pointwise out as f)) = Some (g, 0)" "race_free g"
      "grid_steps g = map (pointwise out as f) [0..<unat n]" by blast
  show ?thesis unfolding g(1) by (rule stores_pointwise [OF g(2,3) a assms(3,4)])
qed

text \<open>
  C26: for fewer than \<open>2 ^ 32 - 255\<close> elements every launch stores the function of its name in each element
  of the result and changes nothing else, whatever the order in which the threads run, also in place.
\<close>

theorem cuda_elementwise:
  assumes n: "unat n + 255 < 2 ^ 32" and args: "args_ok s out [a, b] (unat n)"
    and xs: "holds s a xs" "length xs = unat n" and ys: "holds s b ys" "length ys = unat n"
  shows "stores (launch_add ops out a b n) s out (map2 (d_add ops) xs ys) \<and>
    stores (launch_sub ops out a b n) s out (map2 (d_sub ops) xs ys) \<and>
    stores (launch_mul ops out a b n) s out (map2 (d_mul ops) xs ys) \<and>
    stores (launch_div ops out a b n) s out (map2 (d_div ops) xs ys) \<and>
    stores (launch_add_scalar ops out a c n) s out (map (\<lambda>x. d_add ops x c) xs) \<and>
    stores (launch_mul_scalar ops out a c n) s out (map (\<lambda>x. d_mul ops x c) xs) \<and>
    stores (launch_sqrt ops out a n) s out (map (d_sqrt ops) xs) \<and>
    stores (launch_rsqrt ops out a n) s out (map (d_rsqrt ops) xs)"
proof -
  have two: "stores (launch_simple (launch_size n) 256 (grid_loop (launch_size n) 256 n (\<lambda>i.
      Assign (Glob (out + i)) [Glob (a + i), Glob (b + i)] (\<lambda>vs. Some (op (vs ! 0) (vs ! 1)))))) s out (map2 op xs ys)" for op
    using stores_launch [OF n args, of "\<lambda>vs. Some (op (vs ! 0) (vs ! 1))" "map2 op xs ys"] xs ys
    by (simp add: pointwise_def [abs_def] holds_value)
  have args': "args_ok s out [a] (unat n)" using args by (simp add: args_ok_def)
  have one: "stores (launch_simple (launch_size n) 256 (grid_loop (launch_size n) 256 n (\<lambda>i.
      Assign (Glob (out + i)) [Glob (a + i)] (\<lambda>vs. Some (op (vs ! 0)))))) s out (map op xs)" for op
    using stores_launch [OF n args', of "\<lambda>vs. Some (op (vs ! 0))" "map op xs"] xs
    by (simp add: pointwise_def [abs_def] holds_value)
  note kernels = launch_add_def add_kernel_def launch_sub_def sub_kernel_def launch_mul_def mul_kernel_def launch_div_def
    div_kernel_def launch_add_scalar_def add_scalar_kernel_def launch_mul_scalar_def mul_scalar_kernel_def
    launch_sqrt_def sqrt_kernel_def launch_rsqrt_def rsqrt_kernel_def
  show ?thesis unfolding kernels by (intro conjI two one)
qed

text \<open>The state of memory in a witness: two arrays, and room for the result before them.\<close>

definition two_arrays :: "'v \<Rightarrow> nat \<Rightarrow> 'v list \<Rightarrow> 'v list \<Rightarrow> 'v gmem" where
  "two_arrays z n xs ys = (\<lambda>p. if p < n then Some z else if p - n < length (xs @ ys) then Some ((xs @ ys) ! (p - n)) else None)"

definition int_ops :: "int dev_ops" where
  "int_ops = \<lparr>d_zero = 0, d_one = 1, d_minus_inf = - (2 ^ 31), d_add = (+), d_sub = (-), d_mul = (*), d_div = (div), d_max = max,
     d_exp = (\<lambda>x. x), d_log = (\<lambda>x. x), d_sqrt = (\<lambda>x. x), d_rsqrt = (\<lambda>x. x), d_of_int = (\<lambda>x. x), d_tiny = 0, d_is_zero = (\<lambda>x. x = 0)\<rparr>"

lemma cuda_elementwise_witness:
  "stores (launch_add int_ops 0 3 6 3) (two_arrays 0 3 [1, 2, 3] [10, 20, 30]) 0 [11, 22, 33]"
proof -
  let ?s = "two_arrays 0 3 [1, 2, 3] [10, 20, 30 :: int]"
  have lt: "(\<forall>i < 3. P i) = (P 0 \<and> P 1 \<and> P 2)" for P :: "nat \<Rightarrow> bool"
    by (auto simp: numeral_eq_Suc All_less_Suc)
  have "args_ok ?s 0 [3, 6] (unat (3 :: size_t))"
    by (simp add: args_ok_def room_def apart_or_same_def two_arrays_def lt)
  moreover have "holds ?s 3 [1, 2, 3]" "holds ?s 6 [10, 20, 30]" by (simp_all add: holds_def two_arrays_def lt All_less_Suc)
  ultimately show ?thesis
    using cuda_elementwise [of 3 ?s 0 3 6 "[1, 2, 3]" "[10, 20, 30]" int_ops] by (simp add: int_ops_def)
qed

text \<open>
  With \<open>2 ^ 32\<close> elements the stride, a 32-bit product, is zero: the first thread stays at its first
  element and the kernel never ends.
\<close>

lemma strided_zero:
  assumes "strided i n st = Some xs" and "st = 0"
  shows "\<not> i < n"
proof -
  have "st = 0 \<longrightarrow> \<not> i < n"
    by (rule strided.raw_induct [where P = "\<lambda>i n st xs. st = 0 \<longrightarrow> \<not> i < n", OF _ assms(1)]) (auto split: if_splits bind_splits)
  with assms(2) show ?thesis by simp
qed

lemma huge_launch_never_ends: "launch_add ops out a b (2 ^ 32) = None"
proof -
  have G: "launch_size (2 ^ 32) = 2 ^ 24" by (simp add: launch_size_def)
  have "grid_stride 256 (2 ^ 24) = 0" by (simp add: grid_stride_def)
  then have "strided (thread_index 0 256 0) (2 ^ 32) (grid_stride 256 (2 ^ 24)) = None"
    using strided_zero [of "thread_index 0 256 0" "2 ^ 32" 0] by (cases "strided (thread_index 0 256 0) (2 ^ 32) 0") (auto simp: thread_index_def)
  then have "add_kernel ops out a b (2 ^ 32) (launch_size (2 ^ 32)) 256 0 0 = None" by (simp only: add_kernel_def grid_loop_def G option.map)
  moreover have "0 < launch_size (2 ^ 32)" unfolding G by simp
  ultimately show ?thesis unfolding launch_add_def launch_simple_def list_all_iff by (auto intro!: bexI [of _ 0])
qed

section \<open>The kernels of the bridge\<close>

lemma bridge_index_eq: "b * D + t < 2 ^ 31 \<Longrightarrow> bridge_index b D t = int (b * D + t)"
  using sint_below [of "b * D + t"] by (simp add: bridge_index_def)

lemma stores_bridge:
  assumes n: "0 \<le> n" "n + 256 < 2 ^ 31" and args: "args_ok s out as (nat n)"
    and vals: "\<And>i. i < nat n \<Longrightarrow> result_at (s (out + i)) (f (map (\<lambda>a. the (s (a + i))) as)) = Some (vs ! i)"
    and len: "length vs = nat n"
  shows "\<exists>G. bridge_blocks n = Inr G \<and> stores (Some (launch_grid G 256 [bridge_loop 256 n (pointwise out as f)], 0)) s out vs"
proof -
  let ?G = "nat ((n + 256 - 1) div 256)"
  have "?G = nat (n + 255) div 256" using n(1) by (simp add: nat_div_distrib add.commute)
  moreover have "nat (n + 255) < 2 ^ 31" "nat n + 255 = nat (n + 255)" using n by simp_all
  ultimately have fits: "nat n \<le> 256 * ?G" "256 * ?G < 2 ^ 31" by linarith+
  have code: "bridge_loop 256 n (pointwise out as f) b t = (if b * 256 + t < nat n then [pointwise out as f (b * 256 + t)] else [])"
    if "b < ?G" "t < 256" for b t
  proof -
    have "b * 256 + t < 2 ^ 31" using that fits(2) by linarith
    then have "bridge_index b 256 t = int (b * 256 + t)" by (rule bridge_index_eq)
    moreover have "int (b * 256 + t) < n \<longleftrightarrow> b * 256 + t < nat n" by linarith
    ultimately show ?thesis by (simp add: bridge_loop_def Let_def del: of_nat_add)
  qed
  have a: "room s out (nat n)" "\<forall>a \<in> set as. room s a (nat n)" "\<forall>a \<in> set as. apart_or_same out a (nat n)"
    using args by (auto simp: args_ok_def)
  note g = pointwise_grid [where code = "bridge_loop 256 n (pointwise out as f)", OF code fits(1) a(3)]
  show ?thesis using stores_pointwise [OF g a vals len] n by (simp add: bridge_blocks_def)
qed

lemma bridge_elementwise:
  assumes n: "0 \<le> n" "n + 256 < 2 ^ 31" and args: "args_ok s out [a, b] (nat n)"
    and xs: "holds s a xs" "length xs = nat n" and ys: "holds s b ys" "length ys = nat n"
  shows "\<exists>g. bridge_add ops out a b n = Inr g \<and> stores (Some g) s out (map2 (d_add ops) xs ys)"
    and "\<exists>g. bridge_sub ops out a b n = Inr g \<and> stores (Some g) s out (map2 (d_sub ops) xs ys)"
    and "\<exists>g. bridge_mul ops out a b n = Inr g \<and> stores (Some g) s out (map2 (d_mul ops) xs ys)"
    and "holds s out zs \<Longrightarrow> length zs = nat n \<Longrightarrow> \<exists>g. bridge_div ops out a b n = Inr g \<and>
      stores (Some g) s out (map (\<lambda>i. if d_is_zero ops (ys ! i) then zs ! i else d_div ops (xs ! i) (ys ! i)) [0..<nat n])"
proof -
  have two: "\<exists>G. bridge_blocks n = Inr G \<and> stores (Some (launch_grid G 256 [bridge_loop 256 n (\<lambda>i.
      Assign (Glob (out + i)) [Glob (a + i), Glob (b + i)] (\<lambda>vs. Some (op (vs ! 0) (vs ! 1))))], 0)) s out (map2 op xs ys)" for op
    using stores_bridge [OF n args, of "\<lambda>vs. Some (op (vs ! 0) (vs ! 1))" "map2 op xs ys"] xs ys
    by (simp add: pointwise_def [abs_def] holds_value)
  from two [of "d_add ops"] two [of "d_sub ops"] two [of "d_mul ops"]
  show "\<exists>g. bridge_add ops out a b n = Inr g \<and> stores (Some g) s out (map2 (d_add ops) xs ys)"
    "\<exists>g. bridge_sub ops out a b n = Inr g \<and> stores (Some g) s out (map2 (d_sub ops) xs ys)"
    "\<exists>g. bridge_mul ops out a b n = Inr g \<and> stores (Some g) s out (map2 (d_mul ops) xs ys)"
    by (auto simp: bridge_add_def bridge_sub_def bridge_mul_def bridge_add_kernel_def bridge_sub_kernel_def bridge_mul_kernel_def)
  assume zs: "holds s out zs" "length zs = nat n"
  let ?vs = "map (\<lambda>i. if d_is_zero ops (ys ! i) then zs ! i else d_div ops (xs ! i) (ys ! i)) [0..<nat n]"
  have "\<exists>G. bridge_blocks n = Inr G \<and> stores (Some (launch_grid G 256 [bridge_loop 256 n (pointwise out [a, b]
      (\<lambda>vs. if d_is_zero ops (vs ! 1) then None else Some (d_div ops (vs ! 0) (vs ! 1))))], 0)) s out ?vs"
    by (rule stores_bridge [OF n args]) (use xs ys zs in \<open>simp_all add: holds_value holds_def [of s out] result_at_def\<close>)
  then show "\<exists>g. bridge_div ops out a b n = Inr g \<and> stores (Some g) s out ?vs"
    by (auto simp: bridge_div_def bridge_div_kernel_def pointwise_def [abs_def])
qed

end
