(* ===== verification/Cuda_Reduction.thy ===== *)
theory Cuda_Reduction
  imports Cuda_Elementwise
begin

text \<open>
  \<open>cuda/kernels/reduction.cu\<close> and the reductions of \<open>bridges/cuda_kernel_bridge.cu\<close>: the loops in which
  each thread collects its elements, the exchanges inside a warp, the halving in shared memory.

  A shuffle \<open>__shfl_down_sync\<close> with a full mask makes the threads of a warp meet: each deposits its value
  and takes the one of the thread \<open>offset\<close> above, or its own when there is none in the warp. It is two
  intervals here; that the other warps of the block meet too has no effect, as no warp touches the
  variables of another. Blocks have a multiple of 32 threads.
\<close>

section \<open>Collecting\<close>

text \<open>\<open>for (offset = s; offset > 0; offset >>= 1)\<close>\<close>

fun halves :: "nat \<Rightarrow> nat list" where
  "halves s = (if s = 0 then [] else s # halves (s div 2))"

declare halves.simps [simp del]

definition set_reg :: "nat \<Rightarrow> nat \<Rightarrow> nat \<Rightarrow> 'v \<Rightarrow> 'v kstep" where
  "set_reg b t r v = Assign (Reg b t r) [] (\<lambda>_. Some v)"

definition move :: "loc \<Rightarrow> loc \<Rightarrow> 'v kstep" where
  "move d l = Assign d [l] (\<lambda>vs. Some (vs ! 0))"

definition combine :: "('v \<Rightarrow> 'v \<Rightarrow> 'v) \<Rightarrow> loc \<Rightarrow> loc \<Rightarrow> 'v kstep" where
  "combine op d l = Assign d [d, l] (\<lambda>vs. Some (op (vs ! 0) (vs ! 1)))"

definition collect :: "('v \<Rightarrow> 'v \<Rightarrow> 'v) \<Rightarrow> 'v \<Rightarrow> nat \<Rightarrow> nat \<Rightarrow> nat \<Rightarrow> nat \<Rightarrow> nat list \<Rightarrow> 'v kstep list" where
  "collect op z r p b t is = set_reg b t r z # map (\<lambda>i. combine op (Reg b t r) (Glob (p + i))) is"

text \<open>The elements a thread of \<open>sum_kernel\<close> and \<open>max_kernel\<close> visits.\<close>

definition pair_indices :: "nat \<Rightarrow> nat \<Rightarrow> size_t \<Rightarrow> nat \<Rightarrow> nat \<Rightarrow> nat list option" where
  "pair_indices G D n b t =
     map_option (\<lambda>is. concat (map (\<lambda>i. unat i # (if i + word_of_nat D < n then [unat (i + word_of_nat D)] else [])) is))
       (strided (ucast (word_of_nat b * word_of_nat D * 2 + word_of_nat t :: 32 word)) n
          (ucast (word_of_nat D * 2 * word_of_nat G :: 32 word)))"

section \<open>Reducing a block\<close>

type_synonym 'v code = "(nat \<Rightarrow> nat \<Rightarrow> 'v kstep list) list"

text \<open>\<open>warp_reduce_sum\<close> and \<open>warp_reduce_max\<close> of a variable \<open>r\<close>; \<open>q\<close> is the value a shuffle returns.\<close>

definition lane_down :: "nat \<Rightarrow> nat \<Rightarrow> nat" where
  "lane_down off t = (if t mod 32 + off < 32 then t + off else t)"

definition warp_reduce :: "('v \<Rightarrow> 'v \<Rightarrow> 'v) \<Rightarrow> nat \<Rightarrow> nat \<Rightarrow> 'v code" where
  "warp_reduce op r q = concat (map (\<lambda>off.
     [\<lambda>b t. [move (Reg b t q) (Reg b (lane_down off t) r)], \<lambda>b t. [combine op (Reg b t r) (Reg b t q)]]) (halves (32 div 2)))"

definition block_reduce_sum :: "('v \<Rightarrow> 'v \<Rightarrow> 'v) \<Rightarrow> nat \<Rightarrow> nat \<Rightarrow> 'v code" where
  "block_reduce_sum op D r =
     [\<lambda>b t. [move (Shar b t) (Reg b t r)]] @
     map (\<lambda>s b t. if t < s then [combine op (Shar b t) (Shar b (t + s))] else []) (halves (D div 2))"

text \<open>
  The first thread of each warp stores its variable \<open>r\<close> in a cell from \<open>base\<close> on; the first thread of the
  block combines these cells and stores the result in \<open>last\<close>.
\<close>

definition warp_store :: "nat \<Rightarrow> nat \<Rightarrow> nat \<Rightarrow> nat \<Rightarrow> 'v kstep list" where
  "warp_store r base b t = (if t mod 32 = 0 then [move (Shar b (base + t div 32)) (Reg b t r)] else [])"

definition fold_shared :: "('v \<Rightarrow> 'v \<Rightarrow> 'v) \<Rightarrow> nat \<Rightarrow> nat \<Rightarrow> nat \<Rightarrow> loc \<Rightarrow> nat \<Rightarrow> nat \<Rightarrow> 'v kstep list" where
  "fold_shared op r base W dst b t =
     (if t = 0 then move (Reg b t r) (Shar b base) # map (\<lambda>i. combine op (Reg b t r) (Shar b (base + i))) [1..<W] @ [move dst (Reg b t r)]
      else [])"

section \<open>The kernels\<close>

definition sum_kernel :: "'v dev_ops \<Rightarrow> nat \<Rightarrow> nat \<Rightarrow> nat \<Rightarrow> (nat \<Rightarrow> nat \<Rightarrow> nat list) \<Rightarrow> 'v code" where
  "sum_kernel ops inp out D idx =
     [\<lambda>b t. collect (d_add ops) (d_zero ops) 0 inp b t (idx b t)] @ block_reduce_sum (d_add ops) D 0 @
     [\<lambda>b t. move (Reg b t 0) (Shar b 0) # (if t = 0 then [move (Glob (out + b)) (Reg b t 0)] else [])]"

definition max_kernel :: "'v dev_ops \<Rightarrow> nat \<Rightarrow> nat \<Rightarrow> nat \<Rightarrow> (nat \<Rightarrow> nat \<Rightarrow> nat list) \<Rightarrow> 'v code" where
  "max_kernel ops inp out D idx =
     [\<lambda>b t. collect (d_max ops) (d_minus_inf ops) 0 inp b t (idx b t)] @ warp_reduce (d_max ops) 0 1 @
     [warp_store 0 0, \<lambda>b. fold_shared (d_max ops) 0 0 (D div 32) (Glob (out + b)) b]"

text \<open>
  The launches; \<open>with_indices\<close> gives no value when the loop of some thread never ends. The number of
  results is the number of blocks.
\<close>

definition with_indices :: "nat \<Rightarrow> nat \<Rightarrow> size_t \<Rightarrow> nat \<Rightarrow> ((nat \<Rightarrow> nat \<Rightarrow> nat list) \<Rightarrow> 'v code) \<Rightarrow> 'v launch" where
  "with_indices G D n sh code =
     (if list_all (\<lambda>b. list_all (\<lambda>t. pair_indices G D n b t \<noteq> None) [0..<D]) [0..<G]
      then Some (launch_grid G D (code (\<lambda>b t. the (pair_indices G D n b t))), sh) else None)"

definition reduce_blocks :: "size_t \<Rightarrow> nat" where
  "reduce_blocks n = unat (min ((n + 511) div 512) 256)"

definition launch_sum :: "'v dev_ops \<Rightarrow> nat \<Rightarrow> nat \<Rightarrow> size_t \<Rightarrow> 'v launch" where
  "launch_sum ops inp out n = with_indices (reduce_blocks n) 256 n 256 (sum_kernel ops inp out 256)"

definition launch_max :: "'v dev_ops \<Rightarrow> nat \<Rightarrow> nat \<Rightarrow> size_t \<Rightarrow> 'v launch" where
  "launch_max ops inp out n = with_indices (reduce_blocks n) 256 n (256 div 32) (max_kernel ops inp out 256)"

text \<open>
  The bridge: one block of 256 threads, each with at most one element; a thread adds the value \<open>s\<close> above
  when that element exists. \<open>reduce_max\<close> is a loop on the host.
\<close>

definition reduce_sum_kernel :: "'v dev_ops \<Rightarrow> nat \<Rightarrow> nat \<Rightarrow> nat \<Rightarrow> int \<Rightarrow> 'v code" where
  "reduce_sum_kernel ops out inp D n =
     [\<lambda>b t. set_reg b t 0 (d_zero ops) #
        (if bridge_index b D t < n then [move (Reg b t 0) (Glob (inp + nat (bridge_index b D t)))] else []) @
        [move (Shar b t) (Reg b t 0)]] @
     map (\<lambda>s b t. if t < s \<and> uint (word_of_int (bridge_index b D t) + word_of_nat s :: 32 word) < uint (word_of_int n :: 32 word)
        then [combine (d_add ops) (Shar b t) (Shar b (t + s))] else []) (halves (D div 2)) @
     [\<lambda>b t. if t = 0 then [move (Glob (out + b)) (Shar b 0)] else []]"

definition bridge_reduce_sum :: "'v dev_ops \<Rightarrow> nat \<Rightarrow> nat \<Rightarrow> int \<Rightarrow> 'v launch" where
  "bridge_reduce_sum ops out inp n = Some (launch_grid 1 256 (reduce_sum_kernel ops out inp 256 n), 256)"

definition bridge_reduce_max :: "'v dev_ops \<Rightarrow> nat \<Rightarrow> nat \<Rightarrow> int \<Rightarrow> 'v gmem \<Rightarrow> 'v gmem comp" where
  "bridge_reduce_max ops out inp n m =
     rbind (for_each (\<lambda>i r. case m (inp + i) of None \<Rightarrow> Inl Out_Of_Bounds | Some x \<Rightarrow> Inr (d_max ops r x)) [0..<nat n] (d_minus_inf ops)) (\<lambda>r.
       if m out = None then Inl Out_Of_Bounds else Inr (m(out \<mapsto> r)))"

section \<open>Running the intervals of a block\<close>

definition run_code :: "'v code \<Rightarrow> nat \<Rightarrow> nat \<Rightarrow> 'v kstate \<Rightarrow> 'v kstate comp" where
  "run_code code D b = run_steps (concat (map (\<lambda>f. concat (map (f b) [0..<D])) code))"

lemma run_code_simps:
  "run_code [] D b = Inr" "run_code (f # code) D b = (\<lambda>s. rbind (run_steps (concat (map (f b) [0..<D])) s) (run_code code D b))"
  "run_code (code @ code') D b = (\<lambda>s. rbind (run_code code D b s) (run_code code' D b))"
  by (simp_all add: run_code_def)

lemma kstep_simps [simp]:
  "kstep (set_reg b t r v) s = (if s (Reg b t r) = None then Inl Out_Of_Bounds else Inr (s(Reg b t r \<mapsto> v)))"
  "s l = Some v \<Longrightarrow> s d \<noteq> None \<Longrightarrow> kstep (move d l) s = Inr (s(d \<mapsto> v))"
  "s d = Some u \<Longrightarrow> s l = Some v \<Longrightarrow> kstep (combine op d l) s = Inr (s(d \<mapsto> op u v))"
  by (simp_all add: kstep_def set_reg_def move_def combine_def)

lemma step_parts [simp]:
  "k_dst (set_reg b t r v) = Reg b t r" "k_srcs (set_reg b t r v) = []" "k_dst (move d l) = d" "k_srcs (move d l) = [l]"
  "k_dst (combine op d l) = d" "k_srcs (combine op d l) = [d, l]"
  by (simp_all add: set_reg_def move_def combine_def)

text \<open>Threads that change one cell each, with a value that does not depend on the others.\<close>

lemma run_each:
  assumes "inj_on d {..<D}"
    and "\<And>t u. t < D \<Longrightarrow> (\<And>l. l \<notin> d ` {..<D} \<Longrightarrow> u l = s l) \<Longrightarrow> u (d t) = s (d t) \<Longrightarrow> run_steps (c t) u = Inr (u(d t := v t))"
  shows "\<exists>s'. run_steps (concat (map c [0..<D])) s = Inr s' \<and> (\<forall>t < D. s' (d t) = v t) \<and> (\<forall>l. l \<notin> d ` {..<D} \<longrightarrow> s' l = s l)"
proof -
  let ?P = "\<lambda>k u. (\<forall>t < k. u (d t) = v t) \<and> (\<forall>t. k \<le> t \<and> t < D \<longrightarrow> u (d t) = s (d t)) \<and> (\<forall>l. l \<notin> d ` {..<D} \<longrightarrow> u l = s l)"
  have "\<exists>u. run_steps (concat (map c [0..<D])) s = Inr u \<and> ?P D u"
  proof (rule run_threads [where P = ?P])
    fix t u assume t: "t < D" and P: "?P t u"
    have "run_steps (c t) u = Inr (u(d t := v t))" using assms(2) [OF t] P t by blast
    moreover have "d k = d t \<longleftrightarrow> k = t" if "k < D" for k using assms(1) t that by (auto simp: inj_on_def)
    then have "?P (Suc t) (u(d t := v t))" using P t by (auto simp: less_Suc_eq)
    ultimately show "\<exists>u'. run_steps (c t) u = Inr u' \<and> ?P (Suc t) u'" by blast
  qed simp
  then show ?thesis by blast
qed

text \<open>One step per thread, for the threads with \<open>P\<close>; nobody reads what another writes.\<close>

lemma run_phase:
  assumes "inj_on d {t. t < D \<and> P t}" and "\<And>t t'. t < D \<Longrightarrow> t' < D \<Longrightarrow> P t \<Longrightarrow> P t' \<Longrightarrow> t \<noteq> t' \<Longrightarrow> d t \<notin> set (ls t')"
    and "\<And>t l. t < D \<Longrightarrow> P t \<Longrightarrow> l \<in> set (ls t) \<Longrightarrow> s l \<noteq> None" and "\<And>t. t < D \<Longrightarrow> P t \<Longrightarrow> s (d t) \<noteq> None"
  shows "\<exists>s'. run_steps (concat (map (\<lambda>t. if P t then [Assign (d t) (ls t) (f t)] else []) [0..<D])) s = Inr s' \<and>
    (\<forall>t < D. P t \<longrightarrow> s' (d t) = result_at (s (d t)) (f t (map (\<lambda>l. the (s l)) (ls t)))) \<and>
    (\<forall>l. l \<notin> d ` {t. t < D \<and> P t} \<longrightarrow> s' l = s l)"
proof -
  let ?is = "filter P [0..<D]"
  have set: "set ?is = {t. t < D \<and> P t}" by auto
  have "concat (map (\<lambda>t. if P t then [Assign (d t) (ls t) (f t)] else []) ts) = map (\<lambda>t. Assign (d t) (ls t) (f t)) (filter P ts)" for ts
    by (induction ts) auto
  moreover have "\<exists>s'. run_steps (map (\<lambda>t. Assign (d t) (ls t) (f t)) ?is) s = Inr s' \<and>
    (\<forall>t \<in> set ?is. s' (d t) = result_at (s (d t)) (f t (map (\<lambda>l. the (s l)) (ls t)))) \<and> (\<forall>l. l \<notin> d ` set ?is \<longrightarrow> s' l = s l)"
    by (rule run_parallel) (use assms in \<open>auto simp: set\<close>)
  ultimately show ?thesis unfolding set by auto
qed

text \<open>What a thread collects.\<close>

definition collected :: "('v \<Rightarrow> 'v \<Rightarrow> 'v) \<Rightarrow> 'v \<Rightarrow> 'v list \<Rightarrow> nat list \<Rightarrow> 'v" where
  "collected op z xs is = foldl op z (map (\<lambda>i. xs ! i) is)"

lemma run_collect:
  assumes "s (Reg b t r) \<noteq> None" and "\<forall>i \<in> set is. s (Glob (p + i)) = Some (xs ! i)"
  shows "run_steps (collect op z r p b t is) s = Inr (s(Reg b t r \<mapsto> collected op z xs is))"
proof -
  have "run_steps (map (\<lambda>i. combine op (Reg b t r) (Glob (p + i))) is) (s(Reg b t r \<mapsto> v)) =
      Inr (s(Reg b t r \<mapsto> foldl op v (map (\<lambda>i. xs ! i) is)))" for v
    using assms(2) by (induction "is" arbitrary: v) simp_all
  with assms(1) show ?thesis by (simp add: collect_def collected_def)
qed

lemma collect_phase:
  assumes "\<And>t. t < D \<Longrightarrow> s (Reg b t r) \<noteq> None" and "\<And>t i. t < D \<Longrightarrow> i \<in> set (idx b t) \<Longrightarrow> s (Glob (p + i)) = Some (xs ! i)"
  shows "\<exists>s'. run_steps (concat (map (\<lambda>t. collect op z r p b t (idx b t)) [0..<D])) s = Inr s' \<and>
    (\<forall>t < D. s' (Reg b t r) = Some (collected op z xs (idx b t))) \<and> (\<forall>l. l \<notin> (\<lambda>t. Reg b t r) ` {..<D} \<longrightarrow> s' l = s l)"
proof (rule run_each)
  show "inj_on (\<lambda>t. Reg b t r) {..<D}" by (simp add: inj_on_def)
  fix t u assume t: "t < D" and u: "\<And>l. l \<notin> (\<lambda>t. Reg b t r) ` {..<D} \<Longrightarrow> u l = s l" "u (Reg b t r) = s (Reg b t r)"
  then show "run_steps (collect op z r p b t (idx b t)) u = Inr (u(Reg b t r := Some (collected op z xs (idx b t))))"
    using assms by (intro run_collect) (auto simp: image_iff)
qed

section \<open>The halving tree\<close>

definition tree_step :: "('v \<Rightarrow> 'v \<Rightarrow> 'v) \<Rightarrow> nat \<Rightarrow> (nat \<Rightarrow> 'v) \<Rightarrow> nat \<Rightarrow> 'v" where
  "tree_step op s g t = (if t < s then op (g t) (g (t + s)) else g t)"

definition tree :: "('v \<Rightarrow> 'v \<Rightarrow> 'v) \<Rightarrow> nat list \<Rightarrow> (nat \<Rightarrow> 'v) \<Rightarrow> nat \<Rightarrow> 'v" where
  "tree op hs g = fold (tree_step op) hs g"

lemma tree_simps [simp]: "tree op [] g = g" "tree op (s # hs) g = tree op hs (tree_step op s g)"
  by (simp_all add: tree_def)

definition keeps :: "loc set \<Rightarrow> 'v kstate \<Rightarrow> 'v kstate \<Rightarrow> bool" where
  "keeps L s s' \<longleftrightarrow> (\<forall>l. l \<notin> L \<longrightarrow> s' l = s l)"

lemma keeps_trans: "keeps L s s' \<Longrightarrow> keeps L s' s'' \<Longrightarrow> keeps L s s''"
  by (simp add: keeps_def)

lemma keeps_mono: "keeps L s s' \<Longrightarrow> L \<subseteq> L' \<Longrightarrow> keeps L' s s'"
  by (auto simp: keeps_def)

lemma keepsD: "keeps L s s' \<Longrightarrow> l \<notin> L \<Longrightarrow> s' l = s l"
  by (simp add: keeps_def)

definition shared_cells :: "nat \<Rightarrow> loc set" where "shared_cells b = range (Shar b)"
definition regs :: "nat \<Rightarrow> nat \<Rightarrow> loc set" where "regs b r = range (\<lambda>t. Reg b t r)"

lemma cells_iff [simp]:
  "Shar b' i \<in> shared_cells b \<longleftrightarrow> b' = b" "Glob p \<notin> shared_cells b" "Reg b' t r \<notin> shared_cells b"
  "Reg b' t r' \<in> regs b r \<longleftrightarrow> b' = b \<and> r' = r" "Glob p \<notin> regs b r" "Shar b' i \<notin> regs b r"
  by (auto simp: shared_cells_def regs_def)

lemma cells_image [simp]:
  "Shar b i \<notin> (\<lambda>t. Reg b' t r) ` A" "Glob p \<notin> (\<lambda>t. Reg b' t r) ` A" "Glob p \<notin> Shar b ` A" "Reg b' t r \<notin> Shar b ` A"
  "Reg b t r \<in> (\<lambda>t. Reg b' t r') ` A \<longleftrightarrow> b = b' \<and> r = r' \<and> t \<in> A"
  by auto

text \<open>The threads of a step are those with \<open>C\<close>; they lie in the lower half.\<close>

definition some_step :: "(nat \<Rightarrow> nat \<Rightarrow> bool) \<Rightarrow> ('v \<Rightarrow> 'v \<Rightarrow> 'v) \<Rightarrow> nat \<Rightarrow> (nat \<Rightarrow> 'v) \<Rightarrow> nat \<Rightarrow> 'v" where
  "some_step C op h g t = (if C h t then op (g t) (g (t + h)) else g t)"

lemma tree_some: "tree op hs g = fold (some_step (\<lambda>h t. t < h) op) hs g"
  by (simp add: tree_def some_step_def [abs_def] tree_step_def [abs_def])

lemma some_phases:
  assumes "\<And>t. t < D \<Longrightarrow> s (Shar b t) = Some (g t)" and "\<And>h. h \<in> set hs \<Longrightarrow> 2 * h \<le> D" and C: "\<And>h t. C h t \<Longrightarrow> t < h"
  shows "\<exists>s'. run_code (map (\<lambda>h b t. if C h t then [combine op (Shar b t) (Shar b (t + h))] else []) hs) D b s = Inr s' \<and>
    (\<forall>t < D. s' (Shar b t) = Some (fold (some_step C op) hs g t)) \<and> keeps (shared_cells b) s s'"
  using assms(1,2)
proof (induction hs arbitrary: s g)
  case (Cons h hs)
  have h: "2 * h \<le> D" using Cons.prems(2) by simp
  then have lt: "t < D" "t + h < D" if "C h t" for t using C [OF that] by simp_all
  have "\<exists>s'. run_steps (concat (map (\<lambda>t. if C h t then [Assign (Shar b t) [Shar b t, Shar b (t + h)] (\<lambda>vs. Some (op (vs ! 0) (vs ! 1)))] else []) [0..<D])) s = Inr s' \<and>
    (\<forall>t < D. C h t \<longrightarrow> s' (Shar b t) = result_at (s (Shar b t)) (Some (op (map (\<lambda>l. the (s l)) [Shar b t, Shar b (t + h)] ! 0) (map (\<lambda>l. the (s l)) [Shar b t, Shar b (t + h)] ! 1)))) \<and>
    (\<forall>l. l \<notin> Shar b ` {t. t < D \<and> C h t} \<longrightarrow> s' l = s l)"
    by (rule run_phase [where f = "\<lambda>t vs. Some (op (vs ! 0) (vs ! 1))"]) (use Cons.prems(1) lt in \<open>auto simp: inj_on_def dest: C\<close>)
  then obtain s1 where s1: "run_steps (concat (map (\<lambda>t. if C h t then [combine op (Shar b t) (Shar b (t + h))] else []) [0..<D])) s = Inr s1"
    "\<forall>t < D. C h t \<longrightarrow> s1 (Shar b t) = result_at (s (Shar b t)) (Some (op (map (\<lambda>l. the (s l)) [Shar b t, Shar b (t + h)] ! 0) (map (\<lambda>l. the (s l)) [Shar b t, Shar b (t + h)] ! 1)))"
    "\<forall>l. l \<notin> Shar b ` {t. t < D \<and> C h t} \<longrightarrow> s1 l = s l"
    unfolding combine_def by blast
  have new: "s1 (Shar b t) = Some (op (g t) (g (t + h)))" if "C h t" for t
    using s1(2) lt [OF that] that Cons.prems(1) by simp
  have "s1 (Shar b t) = Some (some_step C op h g t)" if "t < D" for t
    using new [of t] s1(3) [rule_format, of "Shar b t"] that Cons.prems(1) [OF that] by (cases "C h t") (auto simp: some_step_def)
  from Cons.IH [of s1, OF this] Cons.prems(2) obtain s' where
    s': "run_code (map (\<lambda>h b t. if C h t then [combine op (Shar b t) (Shar b (t + h))] else []) hs) D b s1 = Inr s'"
      "\<forall>t < D. s' (Shar b t) = Some (fold (some_step C op) hs (some_step C op h g) t)" "keeps (shared_cells b) s1 s'" by auto
  have "keeps (shared_cells b) s s1" using s1(3) by (auto simp: keeps_def shared_cells_def)
  with s' s1(1) show ?case by (intro exI [of _ s']) (auto simp: run_code_simps intro: keeps_trans)
qed (simp add: run_code_simps keeps_def)

text \<open>The exchange of a warp.\<close>

definition warp_step :: "('v \<Rightarrow> 'v \<Rightarrow> 'v) \<Rightarrow> nat \<Rightarrow> (nat \<Rightarrow> 'v) \<Rightarrow> nat \<Rightarrow> 'v" where
  "warp_step op off g t = op (g t) (g (lane_down off t))"

lemma lane_down_less: "32 dvd D \<Longrightarrow> t < D \<Longrightarrow> lane_down off t < D"
proof -
  assume "32 dvd D" and t: "t < D"
  then obtain W where D: "D = 32 * W" by blast
  have "t + off < D" if "t mod 32 + off < 32"
  proof -
    have "t div 32 < W" using t D by (simp add: less_mult_imp_div_less mult.commute)
    then have "32 * (t div 32) + 32 \<le> D" using D by simp
    moreover have "t = 32 * (t div 32) + t mod 32" by simp
    ultimately show ?thesis using that by linarith
  qed
  with t show ?thesis by (simp add: lane_down_def)
qed

lemma warp_phases:
  assumes D: "32 dvd D" and qr: "q \<noteq> r" and "\<And>t. t < D \<Longrightarrow> s (Reg b t r) = Some (g t)" and "\<And>t. t < D \<Longrightarrow> s (Reg b t q) \<noteq> None"
  shows "\<exists>s'. run_code (concat (map (\<lambda>off. [\<lambda>b t. [move (Reg b t q) (Reg b (lane_down off t) r)], \<lambda>b t. [combine op (Reg b t r) (Reg b t q)]]) hs)) D b s = Inr s' \<and>
    (\<forall>t < D. s' (Reg b t r) = Some (fold (warp_step op) hs g t)) \<and> keeps (regs b r \<union> regs b q) s s'"
  using assms(3,4)
proof (induction hs arbitrary: s g)
  case (Cons off hs)
  have "\<exists>s'. run_steps (concat (map (\<lambda>t. if True then [Assign (Reg b t q) [Reg b (lane_down off t) r] (\<lambda>vs. Some (vs ! 0))] else []) [0..<D])) s = Inr s' \<and>
    (\<forall>t < D. True \<longrightarrow> s' (Reg b t q) = result_at (s (Reg b t q)) (Some (map (\<lambda>l. the (s l)) [Reg b (lane_down off t) r] ! 0))) \<and>
    (\<forall>l. l \<notin> (\<lambda>t. Reg b t q) ` {t. t < D \<and> True} \<longrightarrow> s' l = s l)"
    by (rule run_phase [where f = "\<lambda>t vs. Some (vs ! 0)"]) (use Cons.prems lane_down_less [OF D] qr in \<open>auto simp: inj_on_def\<close>)
  then obtain s1 where s1: "run_steps (concat (map (\<lambda>t. [move (Reg b t q) (Reg b (lane_down off t) r)]) [0..<D])) s = Inr s1"
    "\<And>t. t < D \<Longrightarrow> s1 (Reg b t q) = Some (g (lane_down off t))" "\<And>l. l \<notin> (\<lambda>t. Reg b t q) ` {..<D} \<Longrightarrow> s1 l = s l"
    using Cons.prems(1) lane_down_less [OF D] by (auto simp: move_def lessThan_def)
  have r1: "s1 (Reg b t r) = Some (g t)" if "t < D" for t using s1(3) [of "Reg b t r"] Cons.prems(1) that qr by auto
  have "\<exists>s'. run_steps (concat (map (\<lambda>t. if True then [Assign (Reg b t r) [Reg b t r, Reg b t q] (\<lambda>vs. Some (op (vs ! 0) (vs ! 1)))] else []) [0..<D])) s1 = Inr s' \<and>
    (\<forall>t < D. True \<longrightarrow> s' (Reg b t r) = result_at (s1 (Reg b t r)) (Some (op (map (\<lambda>l. the (s1 l)) [Reg b t r, Reg b t q] ! 0) (map (\<lambda>l. the (s1 l)) [Reg b t r, Reg b t q] ! 1)))) \<and>
    (\<forall>l. l \<notin> (\<lambda>t. Reg b t r) ` {t. t < D \<and> True} \<longrightarrow> s' l = s1 l)"
    by (rule run_phase [where f = "\<lambda>t vs. Some (op (vs ! 0) (vs ! 1))"]) (use s1(2) r1 qr in \<open>auto simp: inj_on_def\<close>)
  then obtain s2 where s2: "run_steps (concat (map (\<lambda>t. [combine op (Reg b t r) (Reg b t q)]) [0..<D])) s1 = Inr s2"
    "\<And>t. t < D \<Longrightarrow> s2 (Reg b t r) = Some (warp_step op off g t)" "\<And>l. l \<notin> (\<lambda>t. Reg b t r) ` {..<D} \<Longrightarrow> s2 l = s1 l"
    using s1(2) r1 by (auto simp: combine_def lessThan_def warp_step_def)
  have "s2 (Reg b t q) \<noteq> None" if "t < D" for t using s2(3) [of "Reg b t q"] s1(2) that qr by auto
  from Cons.IH [of s2, OF s2(2) this] obtain s' where
    s': "run_code (concat (map (\<lambda>off. [\<lambda>b t. [move (Reg b t q) (Reg b (lane_down off t) r)], \<lambda>b t. [combine op (Reg b t r) (Reg b t q)]]) hs)) D b s2 = Inr s'"
      "\<forall>t < D. s' (Reg b t r) = Some (fold (warp_step op) hs (warp_step op off g) t)" "keeps (regs b r \<union> regs b q) s2 s'" by blast
  have "keeps (regs b r \<union> regs b q) s s2" using s1(3) s2(3) by (auto simp: keeps_def regs_def image_iff)
  with s' s1(1) s2(1) show ?case by (intro exI [of _ s']) (auto simp: run_code_simps intro: keeps_trans)
qed (simp add: run_code_simps keeps_def)

section \<open>Blocks one after the other\<close>

text \<open>What a block owns: its shared memory, the variables of its threads and its cells of the result.\<close>

definition own :: "nat \<Rightarrow> nat set \<Rightarrow> loc set" where
  "own b W = {l. case l of Glob p \<Rightarrow> p \<in> W | Shar b' i \<Rightarrow> b' = b | Reg b' t i \<Rightarrow> b' = b}"

lemma own_iff [simp]:
  "Glob p \<in> own b W \<longleftrightarrow> p \<in> W" "Shar b' i \<in> own b W \<longleftrightarrow> b' = b" "Reg b' t i \<in> own b W \<longleftrightarrow> b' = b"
  by (simp_all add: own_def)

lemma run_blocks:
  assumes apart: "\<And>b b'. b < G \<Longrightarrow> b' < G \<Longrightarrow> b \<noteq> b' \<Longrightarrow> W b \<inter> W b' = {}"
    and block: "\<And>b u. b < G \<Longrightarrow> (\<And>l. (\<And>b'. b' < b \<Longrightarrow> l \<notin> own b' (W b')) \<Longrightarrow> u l = s l) \<Longrightarrow>
      \<exists>u'. run_code code D b u = Inr u' \<and> (\<forall>p \<in> W b. u' (Glob p) = Some (v p)) \<and> keeps (own b (W b)) u u'"
  shows "\<exists>s'. run_steps (grid_steps (launch_grid G D code)) s = Inr s' \<and> (\<forall>b < G. \<forall>p \<in> W b. glob s' p = Some (v p)) \<and>
    (\<forall>p. (\<forall>b < G. p \<notin> W b) \<longrightarrow> glob s' p = glob s p)"
proof -
  let ?P = "\<lambda>b u. b \<le> G \<and> (\<forall>b' < b. \<forall>p \<in> W b'. u (Glob p) = Some (v p)) \<and> (\<forall>l. (\<forall>b' < b. l \<notin> own b' (W b')) \<longrightarrow> u l = s l)"
  have "\<exists>u. run_steps (concat (map (\<lambda>b. concat (map (\<lambda>f. concat (map (f b) [0..<D])) code)) [0..<G])) s = Inr u \<and> ?P G u"
  proof (rule run_threads [where P = ?P])
    fix b u assume b: "b < G" and P: "?P b u"
    then obtain u' where u': "run_code code D b u = Inr u'" "\<forall>p \<in> W b. u' (Glob p) = Some (v p)" "keeps (own b (W b)) u u'"
      using block [OF b, of u] by blast
    have "u' (Glob p) = Some (v p)" if "b' < b" "p \<in> W b'" for b' p
    proof -
      have "p \<notin> W b" using apart [of b b'] b that by auto
      then show ?thesis using keepsD [OF u'(3), of "Glob p"] P that by simp
    qed
    moreover have "u' l = s l" if "\<forall>b' < Suc b. l \<notin> own b' (W b')" for l
      using that keepsD [OF u'(3), of l] P by simp
    ultimately have "?P (Suc b) u'" using b u'(2) by (auto simp: less_Suc_eq)
    with u'(1) show "\<exists>u'. run_steps (concat (map (\<lambda>f. concat (map (f b) [0..<D])) code)) u = Inr u' \<and> ?P (Suc b) u'"
      unfolding run_code_def by blast
  qed simp
  then show ?thesis unfolding launch_steps by (auto simp: glob_def)
qed

text \<open>The cells of a launch, as a block finds them.\<close>

lemma starts_cells:
  assumes "starts sh m s" and "\<And>l. (\<And>b'. b' < b \<Longrightarrow> l \<notin> own b' (W b')) \<Longrightarrow> u l = s l"
  shows "u (Reg b t r) \<noteq> None" and "i < sh \<Longrightarrow> u (Shar b i) \<noteq> None" and "(\<And>b'. b' < b \<Longrightarrow> p \<notin> W b') \<Longrightarrow> u (Glob p) = m p"
  using assms by (auto simp: starts_def glob_def not_le)

lemma row_of: "i < G * C \<Longrightarrow> 0 < C \<and> i div C < G \<and> i = i div C * C + i mod C" for i G C :: nat
  by (cases "C = 0") (simp_all add: less_mult_imp_div_less)

text \<open>A launch in which block \<open>b\<close> stores \<open>C\<close> consecutive results.\<close>

definition row_cells :: "nat \<Rightarrow> nat \<Rightarrow> nat \<Rightarrow> nat set" where
  "row_cells out C b = {out + b * C..<out + Suc b * C}"

lemma row_cells_apart:
  assumes "b \<noteq> b'"
  shows "row_cells out C b \<inter> row_cells out C b' = {}"
proof -
  have "Suc b * C \<le> b' * C \<or> Suc b' * C \<le> b * C" using assms by (metis Suc_leI linorder_neqE_nat mult_le_mono1)
  then show ?thesis unfolding row_cells_def by auto
qed

lemma row_cells_sub: "b < G \<Longrightarrow> row_cells out C b \<subseteq> {out..<out + G * C}"
proof -
  assume "b < G"
  then have "Suc b * C \<le> G * C" by (intro mult_le_mono1) simp
  then show ?thesis by (auto simp: row_cells_def)
qed

lemma blocks_store:
  assumes rf: "race_free (launch_grid G D code)" and room: "room m out (G * C)"
    and block: "\<And>b u. b < G \<Longrightarrow> (\<And>t r. u (Reg b t r) \<noteq> None) \<Longrightarrow> (\<And>i. i < sh \<Longrightarrow> u (Shar b i) \<noteq> None) \<Longrightarrow>
      (\<And>p. (\<And>b'. b' < b \<Longrightarrow> p \<notin> row_cells out C b') \<Longrightarrow> u (Glob p) = m p) \<Longrightarrow>
      \<exists>u'. run_code code D b u = Inr u' \<and> (\<forall>i < C. u' (Glob (out + b * C + i)) = Some (v (b * C + i))) \<and> keeps (own b (row_cells out C b)) u u'"
  shows "stores (Some (launch_grid G D code, sh)) m out (map v [0..<G * C])"
proof (rule storesI [OF rf])
  fix s assume start: "starts sh m s"
  have "\<exists>s'. run_steps (grid_steps (launch_grid G D code)) s = Inr s' \<and>
    (\<forall>b < G. \<forall>p \<in> row_cells out C b. glob s' p = Some (v (p - out))) \<and> (\<forall>p. (\<forall>b < G. p \<notin> row_cells out C b) \<longrightarrow> glob s' p = glob s p)"
  proof (rule run_blocks)
    fix b u assume b: "b < G" and u: "\<And>l. (\<And>b'. b' < b \<Longrightarrow> l \<notin> own b' (row_cells out C b')) \<Longrightarrow> u l = s l"
    note cells = starts_cells [OF start, of b "row_cells out C" u, OF u]
    from block [OF b, of u] cells obtain u' where u': "run_code code D b u = Inr u'"
      "\<forall>i < C. u' (Glob (out + b * C + i)) = Some (v (b * C + i))" "keeps (own b (row_cells out C b)) u u'" by blast
    have "u' (Glob p) = Some (v (p - out))" if "p \<in> row_cells out C b" for p
    proof -
      have p: "p = out + b * C + (p - out - b * C)" "p - out - b * C < C" using that by (auto simp: row_cells_def)
      have "u' (Glob (out + b * C + (p - out - b * C))) = Some (v (b * C + (p - out - b * C)))" using u'(2) p(2) by blast
      moreover have "b * C + (p - out - b * C) = p - out" using p(1) by linarith
      ultimately show ?thesis using p(1) by simp
    qed
    with u'(1,3) show "\<exists>u'. run_code code D b u = Inr u' \<and> (\<forall>p \<in> row_cells out C b. u' (Glob p) = Some (v (p - out))) \<and>
      keeps (own b (row_cells out C b)) u u'" by blast
  qed (rule row_cells_apart)
  then obtain s' where s': "run_steps (grid_steps (launch_grid G D code)) s = Inr s'"
    "\<And>b p. b < G \<Longrightarrow> p \<in> row_cells out C b \<Longrightarrow> glob s' p = Some (v (p - out))"
    "\<And>p. (\<And>b. b < G \<Longrightarrow> p \<notin> row_cells out C b) \<Longrightarrow> glob s' p = glob s p" by blast
  have "glob s' (out + i) = Some (v i)" if "i < G * C" for i
  proof -
    have r: "0 < C" "i div C < G" "i = i div C * C + i mod C" using row_of [OF that] by blast+
    have "i div C * C \<le> i" "i < i div C * C + C" using r(3) mod_less_divisor [OF r(1), of i] by linarith+
    then have "out + i \<in> row_cells out C (i div C)" unfolding row_cells_def by simp
    from s'(2) [OF r(2) this] show ?thesis by simp
  qed
  then have "holds (glob s') out (map v [0..<G * C])" by (simp add: holds_def)
  moreover have "glob s' p = m p" if "p \<notin> {out..<out + G * C}" for p
  proof -
    have "p \<notin> row_cells out C b" if "b < G" for b using row_cells_sub [OF that, of out C] \<open>p \<notin> _\<close> by blast
    from s'(3) [OF this] show ?thesis using start by (simp add: starts_def)
  qed
  ultimately show "\<exists>s'. run_steps (grid_steps (launch_grid G D code)) s = Inr s' \<and> holds (glob s') out (map v [0..<G * C]) \<and>
    (\<forall>p. p \<notin> {out..<out + length (map v [0..<G * C])} \<longrightarrow> glob s' p = m p)" using s'(1) by simp
qed

section \<open>The sum\<close>

definition block_sum :: "'v dev_ops \<Rightarrow> nat \<Rightarrow> 'v list \<Rightarrow> (nat \<Rightarrow> nat list) \<Rightarrow> 'v" where
  "block_sum ops D xs idx = tree (d_add ops) (halves (D div 2)) (\<lambda>t. collected (d_add ops) (d_zero ops) xs (idx t)) 0"

lemma halves_le: "h \<in> set (halves s) \<Longrightarrow> h \<le> s"
  by (induction s rule: halves.induct) (subst (asm) (2) halves.simps, auto split: if_splits intro: order_trans)

lemma block_reduce_phases:
  assumes "\<And>t. t < D \<Longrightarrow> s (Reg b t r) = Some (g t)" and "\<And>t. t < D \<Longrightarrow> s (Shar b t) \<noteq> None"
  shows "\<exists>s'. run_code (block_reduce_sum op D r) D b s = Inr s' \<and> (\<forall>t < D. s' (Shar b t) = Some (tree op (halves (D div 2)) g t)) \<and>
    keeps (shared_cells b) s s'"
proof -
  have "\<exists>s1. run_steps (concat (map (\<lambda>t. [move (Shar b t) (Reg b t r)]) [0..<D])) s = Inr s1 \<and>
    (\<forall>t < D. s1 (Shar b t) = Some (g t)) \<and> (\<forall>l. l \<notin> Shar b ` {..<D} \<longrightarrow> s1 l = s l)"
  proof (rule run_each)
    fix t u assume "t < D" "\<And>l. l \<notin> Shar b ` {..<D} \<Longrightarrow> u l = s l" "u (Shar b t) = s (Shar b t)"
    then show "run_steps [move (Shar b t) (Reg b t r)] u = Inr (u(Shar b t := Some (g t)))" using assms by (auto simp: image_iff)
  qed (simp add: inj_on_def)
  then obtain s1 where s1: "run_steps (concat (map (\<lambda>t. [move (Shar b t) (Reg b t r)]) [0..<D])) s = Inr s1"
    "\<And>t. t < D \<Longrightarrow> s1 (Shar b t) = Some (g t)" "keeps (shared_cells b) s s1"
    by (auto simp: keeps_def shared_cells_def image_iff)
  have "2 * h \<le> D" if "h \<in> set (halves (D div 2))" for h using halves_le [OF that] by simp
  from some_phases [of D s1 b g "halves (D div 2)" "\<lambda>h t. t < h" op, OF s1(2) this] obtain s' where
    "run_code (map (\<lambda>h b t. if t < h then [combine op (Shar b t) (Shar b (t + h))] else []) (halves (D div 2))) D b s1 = Inr s'"
    "\<forall>t < D. s' (Shar b t) = Some (tree op (halves (D div 2)) g t)" "keeps (shared_cells b) s1 s'" unfolding tree_some by blast
  with s1(1,3) show ?thesis by (intro exI [of _ s']) (auto simp: block_reduce_sum_def run_code_simps intro: keeps_trans)
qed

lemma run_split_first: "0 < D \<Longrightarrow> run_steps (concat (map c [0..<D])) s = rbind (run_steps (c 0) s) (run_steps (concat (map c [1..<D])))"
  by (simp add: upt_rec [of 0])

lemma sum_block:
  assumes D: "0 < D" and reg: "\<And>t. s (Reg b t 0) \<noteq> None" and shar: "\<And>t. t < D \<Longrightarrow> s (Shar b t) \<noteq> None"
    and inp: "\<And>t i. t < D \<Longrightarrow> i \<in> set (idx b t) \<Longrightarrow> s (Glob (inp + i)) = Some (xs ! i)" and out: "s (Glob (out + b)) \<noteq> None"
  shows "\<exists>s'. run_code (sum_kernel ops inp out D idx) D b s = Inr s' \<and> s' (Glob (out + b)) = Some (block_sum ops D xs (idx b)) \<and>
    keeps (own b {out + b}) s s'"
proof -
  have "\<exists>s1. run_steps (concat (map (\<lambda>t. collect (d_add ops) (d_zero ops) 0 inp b t (idx b t)) [0..<D])) s = Inr s1 \<and>
      (\<forall>t < D. s1 (Reg b t 0) = Some (collected (d_add ops) (d_zero ops) xs (idx b t))) \<and> (\<forall>l. l \<notin> (\<lambda>t. Reg b t 0) ` {..<D} \<longrightarrow> s1 l = s l)"
    by (rule collect_phase) (use reg inp in auto)
  then obtain s1 where
    s1: "run_steps (concat (map (\<lambda>t. collect (d_add ops) (d_zero ops) 0 inp b t (idx b t)) [0..<D])) s = Inr s1"
      "\<And>t. t < D \<Longrightarrow> s1 (Reg b t 0) = Some (collected (d_add ops) (d_zero ops) xs (idx b t))"
      "\<And>l. l \<notin> (\<lambda>t. Reg b t 0) ` {..<D} \<Longrightarrow> s1 l = s l" by blast
  have "s1 (Shar b t) \<noteq> None" if "t < D" for t using shar [OF that] s1(3) [of "Shar b t"] by auto
  from block_reduce_phases [of D s1 b 0, OF s1(2) this] obtain s2 where
    s2: "run_code (block_reduce_sum (d_add ops) D 0) D b s1 = Inr s2" "s2 (Shar b 0) = Some (block_sum ops D xs (idx b))"
      "keeps (shared_cells b) s1 s2" using D unfolding block_sum_def by blast
  let ?v = "block_sum ops D xs (idx b)"
  let ?last = "\<lambda>t. move (Reg b t 0) (Shar b 0) # (if t = 0 then [move (Glob (out + b)) (Reg b t 0)] else [])"
  have reg2: "s2 (Reg b t 0) \<noteq> None" for t
    using keepsD [OF s2(3), of "Reg b t 0"] s1(2) [of t] s1(3) [of "Reg b t 0"] reg [of t] by (cases "t < D") auto
  have out2: "s2 (Glob (out + b)) \<noteq> None" using keepsD [OF s2(3), of "Glob (out + b)"] s1(3) [of "Glob (out + b)"] out by auto
  let ?s3 = "s2(Reg b 0 0 \<mapsto> ?v, Glob (out + b) \<mapsto> ?v)"
  have first: "run_steps (?last 0) s2 = Inr ?s3" using s2(2) reg2 out2 by simp
  have "\<exists>s'. run_steps (concat (map (\<lambda>t. [move (Reg b t 0) (Shar b 0)]) [1..<D])) u = Inr s' \<and> keeps (regs b 0) u s'"
    if "u (Shar b 0) = Some ?v" "\<And>t. u (Reg b t 0) \<noteq> None" for u
  proof -
    have "\<exists>s'. run_steps (concat (map (\<lambda>t. [move (Reg b t 0) (Shar b 0)]) ts)) u = Inr s' \<and> keeps (regs b 0) u s'" for ts
      using that
    proof (induction ts arbitrary: u)
      case (Cons t ts)
      let ?u = "u(Reg b t 0 \<mapsto> ?v)"
      have "\<exists>s'. run_steps (concat (map (\<lambda>t. [move (Reg b t 0) (Shar b 0)]) ts)) ?u = Inr s' \<and> keeps (regs b 0) ?u s'"
        by (rule Cons.IH) (use Cons.prems in auto)
      then obtain s' where "run_steps (concat (map (\<lambda>t. [move (Reg b t 0) (Shar b 0)]) ts)) ?u = Inr s'" "keeps (regs b 0) ?u s'" by blast
      with Cons.prems show ?case by (intro exI [of _ s']) (auto simp: keeps_def)
    qed (simp add: keeps_def)
    then show ?thesis .
  qed
  moreover have "?s3 (Shar b 0) = Some ?v" "?s3 (Reg b t 0) \<noteq> None" for t using s2(2) reg2 [of t] by simp_all
  ultimately obtain s' where
    s': "run_steps (concat (map (\<lambda>t. [move (Reg b t 0) (Shar b 0)]) [1..<D])) ?s3 = Inr s'" "keeps (regs b 0) ?s3 s'" by blast
  have rest: "concat (map ?last [1..<D]) = concat (map (\<lambda>t. [move (Reg b t 0) (Shar b 0)]) [1..<D])"
    by (intro arg_cong [of _ _ concat] map_cong) simp_all
  have last: "run_steps (concat (map ?last [0..<D])) s2 = Inr s'"
    unfolding run_split_first [OF D] first rbind.simps rest by (rule s'(1))
  have "keeps (own b {out + b}) s s'"
    unfolding keeps_def
  proof (intro allI impI)
    fix l assume l: "l \<notin> own b {out + b}"
    then have "l \<notin> regs b 0" "l \<notin> shared_cells b" "l \<notin> (\<lambda>t. Reg b t 0) ` {..<D}" "l \<noteq> Reg b 0 0" "l \<noteq> Glob (out + b)"
      by (auto simp: regs_def shared_cells_def)
    then show "s' l = s l" using keepsD [OF s'(2), of l] keepsD [OF s2(3), of l] s1(3) [of l] by simp
  qed
  moreover have "s' (Glob (out + b)) = Some ?v" using keepsD [OF s'(2), of "Glob (out + b)"] by simp
  ultimately show ?thesis using s1(1) s2(1) last
    by (intro exI [of _ s']) (simp add: sum_kernel_def run_code_simps)
qed

section \<open>No races\<close>

lemma collect_steps: "x \<in> set (collect op z r p b t is) \<Longrightarrow> k_dst x = Reg b t r \<and> set (k_srcs x) \<subseteq> insert (Reg b t r) ((\<lambda>i. Glob (p + i)) ` set is)"
  by (auto simp: collect_def)

definition reads_in :: "nat \<Rightarrow> nat \<Rightarrow> (nat \<Rightarrow> nat \<Rightarrow> nat list) \<Rightarrow> nat \<Rightarrow> nat \<Rightarrow> bool" where
  "reads_in G D idx inp n \<longleftrightarrow> (\<forall>b < G. \<forall>t < D. set (idx b t) \<subseteq> {..<n})"

text \<open>A kernel whose threads race neither inside a block nor with the results of other blocks.\<close>

lemma kernel_race_free:
  assumes "\<And>f b t t' x y. f \<in> set code \<Longrightarrow> b < G \<Longrightarrow> t < D \<Longrightarrow> t' < D \<Longrightarrow> t \<noteq> t' \<Longrightarrow> x \<in> set (f b t) \<Longrightarrow> y \<in> set (f b t') \<Longrightarrow> indep x y"
    and "\<And>f b t x. f \<in> set code \<Longrightarrow> b < G \<Longrightarrow> t < D \<Longrightarrow> x \<in> set (f b t) \<Longrightarrow> stays b (W b) (R b) x"
    and "\<And>b b'. b < G \<Longrightarrow> b' < G \<Longrightarrow> b \<noteq> b' \<Longrightarrow> W b \<inter> W b' = {} \<and> W b \<inter> R b' = {}"
  shows "race_free (launch_grid G D code)"
proof (rule launch_race_free)
  fix f f' b b' t t' x y
  assume "f \<in> set code" "f' \<in> set code" "b < G" "b' < G" "b \<noteq> b'" "t < D" "t' < D" "x \<in> set (f b t)" "y \<in> set (f' b' t')"
  with assms(2) assms(3) [of b b'] assms(3) [of b' b] show "indep x y" by (intro stays_indep [of b "W b" "R b" x b' "W b'" "R b'"]) auto
qed (use assms(1) in blast)

lemma sum_kernel_race_free:
  assumes idx: "reads_in G D idx inp n" and apart: "out + G \<le> inp \<or> inp + n \<le> out"
  shows "race_free (launch_grid G D (sum_kernel ops inp out D idx))"
proof (rule kernel_race_free [where W = "\<lambda>b. {out + b}" and R = "\<lambda>b. {inp..<inp + n}"])
  fix f b t t' x y
  assume f: "f \<in> set (sum_kernel ops inp out D idx)" and b: "b < G" "t < D" "t' < D" "t \<noteq> t'" and x: "x \<in> set (f b t)" and y: "y \<in> set (f b t')"
  from f consider "f = (\<lambda>b t. collect (d_add ops) (d_zero ops) 0 inp b t (idx b t))" | "f = (\<lambda>b t. [move (Shar b t) (Reg b t 0)])"
    | h where "f = (\<lambda>b t. if t < h then [combine (d_add ops) (Shar b t) (Shar b (t + h))] else [])"
    | "f = (\<lambda>b t. move (Reg b t 0) (Shar b 0) # (if t = 0 then [move (Glob (out + b)) (Reg b t 0)] else []))"
    unfolding sum_kernel_def block_reduce_sum_def by auto
  then show "indep x y"
  proof cases
    case 1
    then have "k_dst x = Reg b t 0" "set (k_srcs x) \<subseteq> insert (Reg b t 0) (range Glob)" "k_dst y = Reg b t' 0"
      "set (k_srcs y) \<subseteq> insert (Reg b t' 0) (range Glob)" using x y collect_steps by fastforce+
    with b(4) show ?thesis unfolding indep_def by auto
  qed (use x y b(4) in \<open>auto simp: indep_def split: if_splits\<close>)
next
  fix f b t x assume f: "f \<in> set (sum_kernel ops inp out D idx)" and b: "b < G" "t < D" and x: "x \<in> set (f b t)"
  from f consider "f = (\<lambda>b t. collect (d_add ops) (d_zero ops) 0 inp b t (idx b t))" | "f = (\<lambda>b t. [move (Shar b t) (Reg b t 0)])"
    | h where "f = (\<lambda>b t. if t < h then [combine (d_add ops) (Shar b t) (Shar b (t + h))] else [])"
    | "f = (\<lambda>b t. move (Reg b t 0) (Shar b 0) # (if t = 0 then [move (Glob (out + b)) (Reg b t 0)] else []))"
    unfolding sum_kernel_def block_reduce_sum_def by auto
  then show "stays b {out + b} {inp..<inp + n} x"
  proof cases
    case 1
    then have "k_dst x = Reg b t 0" "set (k_srcs x) \<subseteq> insert (Reg b t 0) ((\<lambda>i. Glob (inp + i)) ` set (idx b t))" using x collect_steps by fastforce+
    moreover have "set (idx b t) \<subseteq> {..<n}" using idx b by (simp add: reads_in_def)
    ultimately show ?thesis unfolding stays_def by fastforce
  qed (use x in \<open>auto simp: stays_def split: if_splits\<close>)
qed (use apart in auto)

section \<open>The elements of a thread\<close>

lemma strided_list:
  assumes "0 < st" and "unat n + unat st < 2 ^ 64"
  shows "\<exists>is. strided i n st = Some is \<and> distinct is \<and> sorted_wrt (\<lambda>x y. unat x + unat st \<le> unat y) is \<and> unat ` set is = {k. unat i \<le> k \<and> k < unat n \<and> unat st dvd (k - unat i)}"
proof (induction "unat n - unat i" arbitrary: i rule: less_induct)
  case less
  show ?case
  proof (cases "i < n")
    case False
    then have "{k. unat i \<le> k \<and> k < unat n \<and> unat st dvd (k - unat i)} = {}" by (auto simp: word_less_nat_alt)
    with False show ?thesis by (simp add: strided_none)
  next
    case True
    then have i: "unat i < unat n" by (simp add: word_less_nat_alt)
    have st: "0 < unat st" using assms(1) by (simp add: word_less_nat_alt)
    have next_i: "unat (i + st) = unat i + unat st" using i assms(2) by (simp add: unat_plus_simple_size)
    moreover have "unat n - (unat i + unat st) < unat n - unat i" using i st by simp
    ultimately obtain js where js: "strided (i + st) n st = Some js" "distinct js"
      and gaps: "sorted_wrt (\<lambda>x y. unat x + unat st \<le> unat y) js" and js3:
      "unat ` set js = {k. unat i + unat st \<le> k \<and> k < unat n \<and> unat st dvd (k - (unat i + unat st))}"
      using less [of "i + st"] i st by auto
    have "unat i \<notin> unat ` set js" unfolding js3 using st by simp
    then have "distinct (i # js)" using js(2) by auto
    moreover have "unat ` set (i # js) = {k. unat i \<le> k \<and> k < unat n \<and> unat st dvd (k - unat i)}"
    proof -
      have fwd: "k = unat i \<or> unat i + unat st \<le> k \<and> unat st dvd (k - (unat i + unat st))" if "unat i \<le> k" "unat st dvd (k - unat i)" for k
      proof (cases "k = unat i")
        case False
        with that have "unat st \<le> k - unat i" by (intro dvd_imp_le) simp_all
        with that have "unat i + unat st \<le> k" by simp
        moreover have "k - (unat i + unat st) = k - unat i - unat st" by simp
        ultimately show ?thesis using dvd_diff_nat [OF that(2) dvd_refl] by simp
      qed simp
      have bwd: "unat st dvd (k - unat i)" if "unat i + unat st \<le> k" "unat st dvd (k - (unat i + unat st))" for k
      proof -
        have "k - unat i = (k - (unat i + unat st)) + unat st" using that(1) by simp
        with that(2) show ?thesis by simp
      qed
      show ?thesis
      proof (rule set_eqI)
        fix k
        have "k \<in> unat ` set (i # js) \<longleftrightarrow> k = unat i \<or> unat i + unat st \<le> k \<and> k < unat n \<and> unat st dvd (k - (unat i + unat st))"
          by (simp add: js3)
        also have "\<dots> \<longleftrightarrow> unat i \<le> k \<and> k < unat n \<and> unat st dvd (k - unat i)" using fwd [of k] bwd [of k] i by auto
        finally show "k \<in> unat ` set (i # js) \<longleftrightarrow> k \<in> {k. unat i \<le> k \<and> k < unat n \<and> unat st dvd (k - unat i)}" by simp
      qed
    qed
    moreover have "sorted_wrt (\<lambda>x y. unat x + unat st \<le> unat y) (i # js)"
    proof -
      have "unat i + unat st \<le> unat y" if "y \<in> set js" for y using that js3 by blast
      with gaps show ?thesis by simp
    qed
    ultimately show ?thesis using js(1) True by (simp add: strided.simps [of i])
  qed
qed

text \<open>A thread goes up: each pair lies above the one before.\<close>

lemma pairs_ascend:
  fixes ks :: "nat list"
  assumes "sorted_wrt (\<lambda>x y. x + S \<le> y) ks" and "0 < D" and "D < S"
  shows "sorted_wrt (<) (concat (map (\<lambda>k. k # (if P k then [k + D] else [])) ks))"
  using assms(1)
proof (induction ks)
  case (Cons k ks)
  let ?rest = "concat (map (\<lambda>k. k # (if P k then [k + D] else [])) ks)"
  have above: "k < j \<and> k + D < j" if "j \<in> set ?rest" for j
  proof -
    from that obtain i where i: "i \<in> set ks" "i \<le> j" by (auto split: if_splits)
    with Cons.prems have "k + S \<le> i" by simp
    with i(2) assms(3) show ?thesis by linarith
  qed
  moreover have "sorted_wrt (<) ?rest" using Cons by simp
  ultimately have "sorted_wrt (<) (k # ?rest)" "sorted_wrt (<) (k # (k + D) # ?rest)" using assms(2) by simp_all
  then show ?case by simp
qed simp

text \<open>
  The elements of a thread, in the order in which it visits them: upwards, those whose position in the
  round of the grid falls to its block and whose position in the block falls to it.
\<close>

definition thread_elements :: "nat \<Rightarrow> nat \<Rightarrow> nat \<Rightarrow> nat \<Rightarrow> nat \<Rightarrow> nat list" where
  "thread_elements D G n b t = filter (\<lambda>k. k mod (2 * D * G) div (2 * D) = b \<and> k mod D = t) [0..<n]"

lemma thread_elements_set [simp]:
  "distinct (thread_elements D G n b t)"
  "set (thread_elements D G n b t) = {k. k < n \<and> k mod (2 * D * G) div (2 * D) = b \<and> k mod D = t}"
  by (auto simp: thread_elements_def)

lemma ascending_eq: "sorted_wrt (<) is \<Longrightarrow> set is = set (thread_elements D G n b t) \<Longrightarrow> is = thread_elements D G n b t"
proof -
  assume a: "sorted_wrt (<) is" and eq: "set is = set (thread_elements D G n b t)"
  have "sorted_wrt (<) (thread_elements D G n b t)" by (simp add: thread_elements_def sorted_wrt_filter)
  with a eq show ?thesis by (intro sorted_distinct_set_unique) (simp_all add: strict_sorted_iff)
qed

lemma dvd_diff_mod: "i \<le> k \<Longrightarrow> i < st \<Longrightarrow> (st :: nat) dvd (k - i) \<longleftrightarrow> k mod st = i"
  by (metis mod_eq_dvd_iff_nat mod_less)

lemma pair_indices_ok:
  assumes D: "0 < D" and b: "b < G" and t: "t < D" and fits: "2 * D * G < 2 ^ 32" and n: "unat n + 2 * D * G < 2 ^ 64"
  shows "pair_indices G D n b t = Some (thread_elements D G (unat n) b t)"
proof -
  let ?S = "2 * D * G" and ?i = "b * D * 2 + t"
  let ?st = "ucast (word_of_nat D * 2 * word_of_nat G :: 32 word) :: size_t"
  let ?start = "ucast (word_of_nat b * word_of_nat D * 2 + word_of_nat t :: 32 word) :: size_t"
  have "Suc b * (D * 2) \<le> G * (D * 2)" using b by (intro mult_le_mono1) simp
  then have i: "?i + D < ?S" using t by (simp add: algebra_simps)
  have st: "unat ?st = ?S" using unat_widen [of "D * 2 * G"] fits by (simp add: mult.commute)
  have start: "unat ?start = ?i" using unat_widen [of ?i] i fits by simp
  have "0 < ?st" using st D b by (simp add: word_less_nat_alt)
  from strided_list [OF this, of n ?start] n obtain xs where
    xs: "strided ?start n ?st = Some xs" "sorted_wrt (\<lambda>x y. unat x + ?S \<le> unat y) xs" "unat ` set xs = {k. ?i \<le> k \<and> k < unat n \<and> ?S dvd (k - ?i)}"
    unfolding st start by auto
  let ?pair = "\<lambda>x :: size_t. unat x # (if x + word_of_nat D < n then [unat (x + word_of_nat D)] else [])"
  have ks: "unat ` set xs = {k. k < unat n \<and> k mod ?S = ?i}"
    unfolding xs(3) using dvd_diff_mod [of ?i _ ?S] i mod_less_eq_dividend [of _ ?S] by (auto dest: sym)
  have "D * 1 \<le> D * G" using b by (intro mult_le_mono2) simp
  then have DS: "D \<le> ?S" by simp
  from this fits have "D < 2 ^ 32" by (rule le_less_trans)
  then have D64: "unat (word_of_nat D :: size_t) = D" by (intro unat_of_nat_size) simp
  let ?pr = "\<lambda>k. k # (if k + D < unat n then [k + D] else [])"
  have pair: "?pair x = ?pr (unat x)" if "x \<in> set xs" for x
  proof -
    have "unat x < unat n" using ks that by blast
    then have "unat x + D \<le> unat n + ?S" using DS by (intro add_mono) simp_all
    from this n have "unat x + D < 2 ^ 64" by (rule le_less_trans)
    then have "unat (x + word_of_nat D) = unat x + D" using D64 by (simp add: unat_plus_simple_size)
    then show ?thesis by (simp add: word_less_nat_alt)
  qed
  let ?ks = "map unat xs"
  have run: "pair_indices G D n b t = Some (concat (map ?pr ?ks))"
    using xs(1) pair by (simp add: pair_indices_def comp_def cong: map_cong)
  have set_ks: "set ?ks = {k. k < unat n \<and> k mod ?S = ?i}" using ks by simp
  have up: "(k + D) mod ?S = ?i + D" if "k mod ?S = ?i" for k
    using that i by (metis mod_add_left_eq mod_less)
  have "D < ?S" using i t by linarith
  moreover have "sorted_wrt (\<lambda>x y. x + ?S \<le> y) ?ks" using xs(2) by (simp add: sorted_wrt_map)
  ultimately have "sorted_wrt (<) (concat (map ?pr ?ks))" using D by (intro pairs_ascend)
  moreover have "set (concat (map ?pr ?ks)) = {k. k < unat n \<and> k mod ?S div (2 * D) = b \<and> k mod D = t}"
  proof (rule set_eqI)
    fix k
    have mod_D: "k mod D = k mod ?S mod D" for k by (rule mod_mod_cancel [symmetric]) simp
    have at_i: "k mod ?S div (2 * D) = b \<and> k mod D = t" if "k mod ?S = ?i \<or> k mod ?S = ?i + D" for k
    proof -
      have "?i div (2 * D) = b" "(?i + D) div (2 * D) = b" "?i mod D = t" "(?i + D) mod D = t"
        using t D by (auto intro!: div_nat_eqI simp: algebra_simps)
      with that show ?thesis unfolding mod_D [of k] by auto
    qed
    have "k \<in> set (concat (map ?pr ?ks)) \<longleftrightarrow> (\<exists>j \<in> set ?ks. k \<in> set (?pr j))" by simp
    also have "\<dots> \<longleftrightarrow> k < unat n \<and> (k mod ?S = ?i \<or> (\<exists>j. j mod ?S = ?i \<and> k = j + D))" unfolding set_ks
    proof (intro iffI)
      assume "k < unat n \<and> (k mod ?S = ?i \<or> (\<exists>j. j mod ?S = ?i \<and> k = j + D))"
      then obtain j where "j mod ?S = ?i" "k < unat n" "j = k \<or> k = j + D" by blast
      then show "\<exists>j \<in> {k. k < unat n \<and> k mod ?S = ?i}. k \<in> set (?pr j)" by (intro bexI [of _ j]) auto
    qed (auto split: if_splits)
    also have "\<dots> \<longleftrightarrow> k < unat n \<and> (k mod ?S = ?i \<or> k mod ?S = ?i + D)"
    proof -
      have "(\<exists>j. j mod ?S = ?i \<and> k = j + D) \<longleftrightarrow> k mod ?S = ?i + D"
      proof
        assume r: "k mod ?S = ?i + D"
        then have k: "?i + D \<le> k" using mod_less_eq_dividend [of k ?S] by simp
        have "(k - D) mod ?S = ?i"
        proof -
          have "?S dvd (k - (?i + D))" using r dvd_diff_mod [OF k i] by simp
          moreover have "k - (?i + D) = (k - D) - ?i" by simp
          ultimately show ?thesis using dvd_diff_mod [of ?i "k - D" ?S] k i by simp
        qed
        with k show "\<exists>j. j mod ?S = ?i \<and> k = j + D" by (intro exI [of _ "k - D"]) simp
      qed (use up in blast)
      then show ?thesis by blast
    qed
    also have "\<dots> \<longleftrightarrow> k < unat n \<and> k mod ?S div (2 * D) = b \<and> k mod D = t"
    proof -
      have "k mod ?S = ?i \<or> k mod ?S = ?i + D" if "k mod ?S div (2 * D) = b" "k mod D = t"
      proof -
        let ?r = "k mod ?S" let ?u = "?r mod (2 * D)"
        have r: "?r = 2 * D * b + ?u" using that(1) by (metis mult_div_mod_eq)
        have "?u mod D = t" using that(2) mod_D [of k] mod_mod_cancel [of D "2 * D" ?r] by simp
        moreover have "?u < 2 * D" using D by simp
        ultimately have "?u = t \<or> ?u = t + D" by (metis add.commute le_add_diff_inverse mod_less mod_if le_mod_geq mult_2 nat_add_left_cancel_less not_less)
        with r show ?thesis by (auto simp: algebra_simps)
      qed
      with at_i show ?thesis by blast
    qed
    finally show "k \<in> set (concat (map ?pr ?ks)) \<longleftrightarrow> k \<in> {k. k < unat n \<and> k mod ?S div (2 * D) = b \<and> k mod D = t}" by simp
  qed
  ultimately have "concat (map ?pr ?ks) = thread_elements D G (unat n) b t" by (intro ascending_eq) simp_all
  with run show ?thesis by simp
qed

section \<open>With an associative and commutative operation\<close>

text \<open>
  Then the order does not matter. The locale has an operation and its unit, \<open>F\<close> is the combination over
  a finite set.
\<close>

locale reduction = comm_monoid_set op z for op :: "'v \<Rightarrow> 'v \<Rightarrow> 'v" and z :: 'v
begin

lemma collected_total: "distinct is \<Longrightarrow> collected op z xs is = F (\<lambda>i. xs ! i) (set is)"
proof -
  assume "distinct is"
  then have "foldl op a (map (\<lambda>i. xs ! i) is) = op a (F (\<lambda>i. xs ! i) (set is))" for a
    by (induction "is" arbitrary: a) (simp_all add: assoc)
  then show ?thesis by (simp add: collected_def)
qed

lemma tree_total: "tree op (halves (2 ^ k div 2)) g 0 = F g {..<2 ^ k}"
proof (induction k arbitrary: g)
  case 0
  have "{..<1} = {0 :: nat}" by auto
  then show ?case by (simp add: halves.simps)
next
  case (Suc k)
  let ?h = "2 ^ k :: nat"
  have "(\<lambda>t. t + ?h) ` {..<?h} = {?h..<2 ^ Suc k}" using image_add_atLeastLessThan [of ?h 0 ?h] by (simp add: lessThan_atLeast0 add.commute mult_2)
  then have "F g {?h..<2 ^ Suc k} = F (\<lambda>t. g (t + ?h)) {..<?h}"
    using reindex [of "\<lambda>t. t + ?h" "{..<?h}" g] by (simp add: inj_on_def comp_def)
  moreover have "F g {..<2 ^ Suc k} = op (F g {..<?h}) (F g {?h..<2 ^ Suc k})"
  proof -
    have "{..<2 ^ Suc k} = {..<?h} \<union> {?h..<2 ^ Suc k}" by auto
    moreover have "F g ({..<?h} \<union> {?h..<2 ^ Suc k}) = op (F g {..<?h}) (F g {?h..<2 ^ Suc k})" by (intro union_disjoint) auto
    ultimately show ?thesis by simp
  qed
  moreover have "F (tree_step op ?h g) {..<?h} = F (\<lambda>t. op (g t) (g (t + ?h))) {..<?h}"
    by (intro cong) (simp_all add: tree_step_def)
  moreover have "halves (2 ^ Suc k div 2) = ?h # halves (?h div 2)" by (subst halves.simps) simp
  ultimately show ?case using Suc.IH [of "tree_step op ?h g"] by (simp add: distrib)
qed

text \<open>Each element is visited by one thread of one block.\<close>

lemma thread_total:
  fixes D n :: nat
  assumes "0 < D"
  shows "F (\<lambda>t. F f {k. k < n \<and> P k \<and> k mod D = t}) {..<D} = F f {k. k < n \<and> P k}"
  using group [of "{k. k < n \<and> P k}" "{..<D}" "\<lambda>k. k mod D" f] assms by (simp add: conj_assoc image_subset_iff)

lemma block_total:
  fixes S D B n :: nat
  assumes "0 < S" and "S = 2 * D * B"
  shows "F (\<lambda>b. F f {k. k < n \<and> k mod S div (2 * D) = b}) {..<B} = F f {..<n}"
proof -
  have "k mod S div (2 * D) < B" for k
  proof -
    have "k mod S < 2 * D * B" using assms by simp
    then show ?thesis by (simp add: less_mult_imp_div_less mult.commute)
  qed
  then show ?thesis using group [of "{..<n}" "{..<B}" "\<lambda>k. k mod S div (2 * D)" f] by (simp add: image_subset_iff)
qed

end

lemma with_indices_ok:
  assumes "0 < D" and "2 * D * G < 2 ^ 32" and "unat n + 2 * D * G < 2 ^ 64"
  shows "\<exists>idx. with_indices G D n sh code = Some (launch_grid G D (code idx), sh) \<and>
    (\<forall>b < G. \<forall>t < D. idx b t = thread_elements D G (unat n) b t)"
proof -
  have ok: "pair_indices G D n b t = Some (thread_elements D G (unat n) b t)" if "b < G" "t < D" for b t
    by (rule pair_indices_ok [OF assms(1) that assms(2,3)])
  then have "with_indices G D n sh code = Some (launch_grid G D (code (\<lambda>b t. the (pair_indices G D n b t))), sh)"
    by (simp add: with_indices_def list_all_iff)
  with ok show ?thesis by (intro exI [of _ "\<lambda>b t. the (pair_indices G D n b t)"]) simp
qed

lemma reduce_blocks_le: "reduce_blocks n \<le> 256"
  by (simp add: reduce_blocks_def unat_arith_simps min_def)

lemma no_blocks: "unat n + 511 < 2 ^ 64 \<Longrightarrow> reduce_blocks n = 0 \<Longrightarrow> unat n = 0"
proof (rule ccontr)
  assume n: "unat n + 511 < 2 ^ 64" and none: "reduce_blocks n = 0" and some: "unat n \<noteq> 0"
  have "unat (n + 511) = unat n + 511" using n by (simp add: unat_plus_simple_size)
  then have "unat ((n + 511) div 512) = (unat n + 511) div 512" by (simp add: unat_div)
  moreover have "(unat n + 511) div 512 \<noteq> 0" using some by linarith
  moreover have "(n + 511) div 512 = 0" using none by (simp add: reduce_blocks_def min_def unat_eq_0 split: if_splits)
  ultimately show False by simp
qed

lemma reduce_blocks_eq: "unat n + 511 < 2 ^ 64 \<Longrightarrow> reduce_blocks n = min ((unat n + 511) div 512) 256"
proof -
  assume n: "unat n + 511 < 2 ^ 64"
  have "unat (n + 511) = unat n + 511" using n by (simp add: unat_plus_simple_size)
  then have "unat ((n + 511) div 512) = (unat n + 511) div 512" by (simp add: unat_div)
  then show ?thesis by (simp add: reduce_blocks_def min_def word_le_nat_alt)
qed

definition dealt :: "size_t \<Rightarrow> (nat \<Rightarrow> nat \<Rightarrow> nat list) \<Rightarrow> bool" where
  "dealt n idx \<longleftrightarrow> (\<forall>b < reduce_blocks n. \<forall>t < 256. idx b t = thread_elements 256 (reduce_blocks n) (unat n) b t)"

lemma dealt_sub: "dealt n idx \<Longrightarrow> b < reduce_blocks n \<Longrightarrow> t < 256 \<Longrightarrow> set (idx b t) \<subseteq> {..<unat n}"
  by (auto simp: dealt_def)

context reduction
begin

lemma dealt_total:
  assumes n: "unat n + 511 < 2 ^ 64" and idx: "dealt n idx"
  shows "F (\<lambda>b. map (\<lambda>b. F (\<lambda>t. collected op z xs (idx b t)) {..<256}) [0..<reduce_blocks n] ! b) {..<reduce_blocks n} = F (\<lambda>i. xs ! i) {..<unat n}"
proof (cases "reduce_blocks n = 0")
  case True
  then show ?thesis using no_blocks [OF n] by simp
next
  case False
  let ?S = "2 * 256 * reduce_blocks n"
  have "F (\<lambda>t. collected op z xs (idx b t)) {..<256} = F (\<lambda>i. xs ! i) {k. k < unat n \<and> k mod ?S div (2 * 256) = b}"
    if b: "b < reduce_blocks n" for b
  proof -
    have "F (\<lambda>t. collected op z xs (idx b t)) {..<256} =
        F (\<lambda>t. F (\<lambda>i. xs ! i) {k. k < unat n \<and> k mod ?S div (2 * 256) = b \<and> k mod 256 = t}) {..<256}"
      using idx b unfolding dealt_def by (intro cong) (simp_all add: collected_total)
    then show ?thesis using thread_total [of 256 "\<lambda>i. xs ! i" "unat n" "\<lambda>k. k mod ?S div (2 * 256) = b"] by simp
  qed
  then have "F (\<lambda>b. map (\<lambda>b. F (\<lambda>t. collected op z xs (idx b t)) {..<256}) [0..<reduce_blocks n] ! b) {..<reduce_blocks n} =
      F (\<lambda>b. F (\<lambda>i. xs ! i) {k. k < unat n \<and> k mod ?S div (2 * 256) = b}) {..<reduce_blocks n}" by (intro cong [OF refl]) simp
  also have "\<dots> = F (\<lambda>i. xs ! i) {..<unat n}" by (rule block_total) (use False in simp_all)
  finally show ?thesis .
qed

end

text \<open>A kernel that stores one value per block.\<close>

lemma launch_reduction:
  assumes n: "unat n + 2 ^ 17 < 2 ^ 64" and xs: "holds m inp xs" "length xs = unat n" and room: "room m out (reduce_blocks n)"
    and apart: "out + reduce_blocks n \<le> inp \<or> inp + unat n \<le> out"
    and rf: "\<And>idx. reads_in (reduce_blocks n) 256 idx inp (unat n) \<Longrightarrow> race_free (launch_grid (reduce_blocks n) 256 (code idx))"
    and block: "\<And>b u idx. (\<And>t r. u (Reg b t r) \<noteq> None) \<Longrightarrow> (\<And>i. i < sh \<Longrightarrow> u (Shar b i) \<noteq> None) \<Longrightarrow>
      (\<And>t i. t < 256 \<Longrightarrow> i \<in> set (idx b t) \<Longrightarrow> u (Glob (inp + i)) = Some (xs ! i)) \<Longrightarrow> u (Glob (out + b)) \<noteq> None \<Longrightarrow>
      \<exists>u'. run_code (code idx) 256 b u = Inr u' \<and> u' (Glob (out + b)) = Some (v (idx b)) \<and> keeps (own b {out + b}) u u'"
  shows "\<exists>idx. dealt n idx \<and> stores (with_indices (reduce_blocks n) 256 n sh code) m out (map (\<lambda>b. v (idx b)) [0..<reduce_blocks n])"
proof -
  let ?G = "reduce_blocks n"
  have fits: "2 * 256 * ?G < 2 ^ 32" "unat n + 2 * 256 * ?G < 2 ^ 64" using reduce_blocks_le [of n] n by simp_all
  from with_indices_ok [of 256, OF zero_less_numeral fits, of sh code] obtain idx where
    L: "with_indices ?G 256 n sh code = Some (launch_grid ?G 256 (code idx), sh)" and idx: "dealt n idx"
    unfolding dealt_def by blast
  note sub = dealt_sub [OF idx]
  have "race_free (launch_grid ?G 256 (code idx))" using sub by (intro rf) (simp add: reads_in_def)
  then have st: "stores (with_indices ?G 256 n sh code) m out (map (\<lambda>b. v (idx b)) [0..<?G * 1])"
    unfolding L
  proof (rule blocks_store)
    fix b u assume b: "b < ?G" and reg: "\<And>t r. u (Reg b t r) \<noteq> None" and shar: "\<And>i. i < sh \<Longrightarrow> u (Shar b i) \<noteq> None"
      and mem: "\<And>p. (\<And>b'. b' < b \<Longrightarrow> p \<notin> row_cells out 1 b') \<Longrightarrow> u (Glob p) = m p"
    have inp: "u (Glob (inp + i)) = Some (xs ! i)" if "t < 256" "i \<in> set (idx b t)" for t i
    proof -
      have "i < unat n" using sub [OF b that(1)] that(2) by auto
      then show ?thesis using mem [of "inp + i"] apart b xs by (auto simp: holds_def row_cells_def)
    qed
    have "u (Glob (out + b)) \<noteq> None" using mem [of "out + b"] room b by (simp add: room_def row_cells_def)
    from block [of u b idx, OF reg shar inp this]
    show "\<exists>u'. run_code (code idx) 256 b u = Inr u' \<and> (\<forall>i < 1. u' (Glob (out + b * 1 + i)) = Some (v (idx (b * 1 + i)))) \<and>
      keeps (own b (row_cells out 1 b)) u u'" by (simp add: row_cells_def atLeastLessThanSuc)
  qed (use room in simp)
  with idx show ?thesis by (intro exI [of _ idx]) simp
qed

lemma block_sum_total:
  "comm_monoid_set (d_add ops) (d_zero ops) \<Longrightarrow>
   block_sum ops 256 xs is = comm_monoid_set.F (d_add ops) (d_zero ops) (\<lambda>t. collected (d_add ops) (d_zero ops) xs (is t)) {..<256}"
  using reduction.tree_total [OF reduction.intro, of "d_add ops" "d_zero ops" 8] by (simp add: block_sum_def)

section \<open>The values the launch stores\<close>

text \<open>
  What the halving computes, for any operation: the value of the balanced tree over the threads in which
  thread \<open>t\<close> meets the threads half of the block, a quarter, ... above it, in this order.
\<close>

fun balanced :: "('v \<Rightarrow> 'v \<Rightarrow> 'v) \<Rightarrow> nat \<Rightarrow> (nat \<Rightarrow> 'v) \<Rightarrow> 'v" where
  "balanced op 0 g = g 0"
| "balanced op (Suc k) g = balanced op k (\<lambda>t. op (g t) (g (t + 2 ^ k)))"

lemma balanced_cong: "(\<And>t. t < 2 ^ k \<Longrightarrow> g t = h t) \<Longrightarrow> balanced op k g = balanced op k h"
proof (induction k arbitrary: g h)
  case (Suc k)
  have "op (g t) (g (t + 2 ^ k)) = op (h t) (h (t + 2 ^ k))" if "t < 2 ^ k" for t
    using Suc.prems [of t] Suc.prems [of "t + 2 ^ k"] that by simp
  from Suc.IH [OF this] show ?case by simp
qed simp

lemma tree_balanced: "tree op (halves (2 ^ k div 2)) g 0 = balanced op k g"
proof (induction k arbitrary: g)
  case 0
  then show ?case by (simp add: halves.simps)
next
  case (Suc k)
  have "halves (2 ^ Suc k div 2) = 2 ^ k # halves (2 ^ k div 2)" by (subst halves.simps) simp
  then have "tree op (halves (2 ^ Suc k div 2)) g 0 = balanced op k (tree_step op (2 ^ k) g)" using Suc by simp
  also have "\<dots> = balanced op k (\<lambda>t. op (g t) (g (t + 2 ^ k)))" by (rule balanced_cong) (simp add: tree_step_def)
  finally show ?case by simp
qed

text \<open>The partial sum of a block of 256 threads: each adds its elements from 0 upwards.\<close>

definition partial_sum :: "'v dev_ops \<Rightarrow> nat \<Rightarrow> 'v list \<Rightarrow> nat \<Rightarrow> 'v" where
  "partial_sum ops G xs b = balanced (d_add ops) 8
     (\<lambda>t. foldl (d_add ops) (d_zero ops) (map ((!) xs) (thread_elements 256 G (length xs) b t)))"

lemma block_sum_partial:
  assumes "dealt n idx" and "length xs = unat n" and "b < reduce_blocks n"
  shows "block_sum ops 256 xs (idx b) = partial_sum ops (reduce_blocks n) xs b"
proof -
  have "block_sum ops 256 xs (idx b) = balanced (d_add ops) 8 (\<lambda>t. collected (d_add ops) (d_zero ops) xs (idx b t))"
    using tree_balanced [of "d_add ops" 8] by (simp add: block_sum_def)
  also have "\<dots> = partial_sum ops (reduce_blocks n) xs b" unfolding partial_sum_def
    by (rule balanced_cong) (use assms in \<open>simp add: dealt_def collected_def\<close>)
  finally show ?thesis .
qed

lemma launch_sum_stores:
  assumes "unat n + 2 ^ 17 < 2 ^ 64" and "holds m inp xs" and "length xs = unat n" and "room m out (reduce_blocks n)"
    and apart: "out + reduce_blocks n \<le> inp \<or> inp + unat n \<le> out"
  shows "stores (launch_sum ops inp out n) m out (map (partial_sum ops (reduce_blocks n) xs) [0..<reduce_blocks n])"
proof -
  have "\<exists>idx. dealt n idx \<and> stores (launch_sum ops inp out n) m out (map (\<lambda>b. block_sum ops 256 xs (idx b)) [0..<reduce_blocks n])"
    unfolding launch_sum_def
  proof (rule launch_reduction [OF assms])
    fix b u and idx :: "nat \<Rightarrow> nat \<Rightarrow> nat list" assume "\<And>t r. u (Reg b t r) \<noteq> None" "\<And>i. i < 256 \<Longrightarrow> u (Shar b i) \<noteq> None"
      "\<And>t i. t < 256 \<Longrightarrow> i \<in> set (idx b t) \<Longrightarrow> u (Glob (inp + i)) = Some (xs ! i)" "u (Glob (out + b)) \<noteq> None"
    from sum_block [of 256 u b idx inp xs out ops, OF _ this]
    show "\<exists>u'. run_code (sum_kernel ops inp out 256 idx) 256 b u = Inr u' \<and> u' (Glob (out + b)) = Some (block_sum ops 256 xs (idx b)) \<and>
      keeps (own b {out + b}) u u'" by simp
  qed (rule sum_kernel_race_free [OF _ apart])
  then obtain idx where idx: "dealt n idx" and
    st: "stores (launch_sum ops inp out n) m out (map (\<lambda>b. block_sum ops 256 xs (idx b)) [0..<reduce_blocks n])" by blast
  note part = block_sum_partial [OF idx assms(3), of _ ops]
  have "map (\<lambda>b. block_sum ops 256 xs (idx b)) [0..<reduce_blocks n] = map (partial_sum ops (reduce_blocks n) xs) [0..<reduce_blocks n]"
    using part by simp
  with st show ?thesis by simp
qed

text \<open>If the addition is associative and commutative, the partial sums add up to the sum of all elements.\<close>

lemma partial_sums_total:
  assumes monoid: "comm_monoid_set (d_add ops) (d_zero ops)" and n: "unat n + 511 < 2 ^ 64" "length xs = unat n"
  shows "comm_monoid_set.F (d_add ops) (d_zero ops) (partial_sum ops (reduce_blocks n) xs) {..<reduce_blocks n} =
    comm_monoid_set.F (d_add ops) (d_zero ops) (\<lambda>i. xs ! i) {..<length xs}"
proof -
  let ?F = "comm_monoid_set.F (d_add ops) (d_zero ops)" and ?idx = "thread_elements 256 (reduce_blocks n) (unat n)"
  have red: "reduction (d_add ops) (d_zero ops)" using monoid by (rule reduction.intro)
  have idx: "dealt n ?idx" by (simp add: dealt_def)
  have "partial_sum ops (reduce_blocks n) xs b = ?F (\<lambda>t. collected (d_add ops) (d_zero ops) xs (?idx b t)) {..<256}"
    if "b < reduce_blocks n" for b
    using block_sum_partial [OF idx n(2) that, of ops] block_sum_total [OF monoid, of xs "?idx b"] by simp
  then have "?F (partial_sum ops (reduce_blocks n) xs) {..<reduce_blocks n} =
      ?F (\<lambda>b. map (\<lambda>b. ?F (\<lambda>t. collected (d_add ops) (d_zero ops) xs (?idx b t)) {..<256}) [0..<reduce_blocks n] ! b) {..<reduce_blocks n}"
    by (intro comm_monoid_set.cong [OF monoid]) simp_all
  also have "\<dots> = ?F (\<lambda>i. xs ! i) {..<unat n}" by (rule reduction.dealt_total [OF red n(1) idx])
  finally show ?thesis by (simp add: n(2))
qed

text \<open>
  C28: \<open>launch_sum\<close> stores one partial sum for each of its \<open>min ((n + 511) div 512) 256\<close> blocks, exactly
  the value of this order of additions, whatever the addition of the element type is (that of floats is not
  associative) and in whatever order the threads run: each thread adds its elements upwards from 0, and the
  256 results meet in the balanced tree. The shared memory the launch asks for is enough, and nothing else of
  the memory changes. The launch does not add up the partial sums.
\<close>

theorem cuda_sum:
  assumes "unat n + 2 ^ 17 < 2 ^ 64" and "holds m inp xs" and "length xs = unat n"
  defines "G \<equiv> min ((unat n + 511) div 512) 256"
  assumes "room m out G" and "out + G \<le> inp \<or> inp + unat n \<le> out"
  shows "stores (launch_sum ops inp out n) m out
    (map (\<lambda>b. balanced (d_add ops) 8 (\<lambda>t. foldl (d_add ops) (d_zero ops)
       (map ((!) xs) (filter (\<lambda>k. k mod (512 * G) div 512 = b \<and> k mod 256 = t) [0..<unat n])))) [0..<G])"
proof -
  have G: "reduce_blocks n = G" using reduce_blocks_eq [of n] assms(1) by (simp add: G_def)
  from launch_sum_stores(1) [OF assms(1-3), of out ops] assms(3,5,6) show ?thesis
    unfolding G partial_sum_def thread_elements_def by simp
qed

text \<open>With exact integers.\<close>

interpretation int_sum: reduction "d_add int_ops" "d_zero int_ops"
  by unfold_locales (simp_all add: int_ops_def)

lemma int_sum_total: "comm_monoid_set.F (d_add int_ops) (d_zero int_ops) = sum"
  by (simp add: int_ops_def sum_def)

lemma int_balanced: "balanced (d_add int_ops) 8 g = sum g {..<256}"
  using tree_balanced [of "d_add int_ops" 8 g] int_sum.tree_total [of 8 g] by (simp add: int_sum_total)

lemma cuda_sum_witness: "stores (launch_sum int_ops 1 0 3) (two_arrays 0 1 [1, 2, 3] []) 0 [6]"
proof -
  let ?m = "two_arrays 0 1 [1, 2, 3 :: int] []" and ?xs = "[1, 2, 3 :: int]"
  let ?g = "\<lambda>t. foldl (d_add int_ops) (d_zero int_ops) (map ((!) ?xs) (filter (\<lambda>k. k mod (512 * 1) div 512 = 0 \<and> k mod 256 = t) [0..<3]))"
  have "holds ?m 1 ?xs" "room ?m 0 1" by (simp_all add: holds_def room_def two_arrays_def All_less_Suc)
  then have st: "stores (launch_sum int_ops 1 0 3) ?m 0 [balanced (d_add int_ops) 8 ?g]"
    using cuda_sum [of 3 ?m 1 ?xs 0 int_ops] by simp
  have g: "?g t = (if t < 3 then ?xs ! t else 0)" for t by (auto simp: upt_rec int_ops_def)
  have "sum ?g {..<256} = sum (\<lambda>t. if t < 3 then ?xs ! t else 0) {..<256}" by (simp only: g)
  also have "\<dots> = sum ((!) ?xs) {..<3}" by (rule sum.mono_neutral_cong_right) (auto split: if_splits)
  finally have "sum ?g {..<256} = sum ((!) ?xs) {..<3}" .
  moreover have "{..<3} = {0, 1, 2 :: nat}" by auto
  then have "sum ((!) ?xs) {..<3} = 6" by simp
  ultimately have "balanced (d_add int_ops) 8 ?g = 6" unfolding int_balanced by (simp only:)
  with st show ?thesis by simp
qed

section \<open>The sum of the bridge\<close>

text \<open>Adding only the elements that exist is adding zero for the others.\<close>

lemma some_is_tree:
  assumes z: "\<And>x. op x z = x" and "\<And>h t. h \<in> set hs \<Longrightarrow> C h t = (t < h \<and> t + h < n)" and "\<And>t. n \<le> t \<Longrightarrow> g t = z"
  shows "fold (some_step C op) hs g = tree op hs g"
  using assms(2,3)
proof (induction hs arbitrary: g)
  case (Cons h hs)
  have step: "some_step C op h g = tree_step op h g"
  proof
    fix t show "some_step C op h g t = tree_step op h g t"
      using Cons.prems(1) [of h t] Cons.prems(2) [of "t + h"] z [of "g t"] by (auto simp: some_step_def tree_step_def not_less)
  qed
  have "tree_step op h g t = z" if "n \<le> t" for t
    using Cons.prems(2) [of t] Cons.prems(2) [of "t + h"] that z [of z] by (simp add: tree_step_def)
  with Cons step show ?case by simp
qed simp

definition first_element :: "'v \<Rightarrow> 'v list \<Rightarrow> nat \<Rightarrow> 'v" where
  "first_element z xs t = (if t < length xs then xs ! t else z)"

abbreviation more_elements :: "nat \<Rightarrow> int \<Rightarrow> nat \<Rightarrow> nat \<Rightarrow> bool" where
  "more_elements b n s t \<equiv> t < s \<and> uint (word_of_int (bridge_index b 256 t) + word_of_nat s :: 32 word) < uint (word_of_int n :: 32 word)"

lemma more_elements_iff:
  assumes "0 \<le> n" "n < 2 ^ 31" "h \<in> set (halves (256 div 2))"
  shows "more_elements 0 n h t \<longleftrightarrow> t < h \<and> t + h < nat n"
proof (cases "t < h")
  case True
  have "h \<le> 128" using halves_le [OF assms(3)] by simp
  with True have "uint (word_of_int (bridge_index 0 256 t) + word_of_nat h :: 32 word) = int (t + h)"
    using bridge_index_eq [of 0 256 t] uint_word_of_int_eq [of "int (t + h)", where 'a = 32] by (simp add: take_bit_int_eq_self)
  moreover have "uint (word_of_int n :: 32 word) = n" using assms(1,2) by (simp add: uint_word_of_int_eq take_bit_int_eq_self)
  ultimately show ?thesis using assms(1) by (simp add: zless_nat_eq_int_zless)
qed simp

lemma bridge_sum_block:
  assumes n: "0 \<le> n" "n < 2 ^ 31" "nat n = length xs" and reg: "\<And>t. s (Reg 0 t 0) \<noteq> None" and shar: "\<And>t. t < 256 \<Longrightarrow> s (Shar 0 t) \<noteq> None"
    and inp: "\<And>i. i < length xs \<Longrightarrow> s (Glob (inp + i)) = Some (xs ! i)" and out: "s (Glob out) \<noteq> None"
    and z: "\<And>x. d_add ops x (d_zero ops) = x"
  shows "\<exists>s'. run_code (reduce_sum_kernel ops out inp 256 n) 256 0 s = Inr s' \<and>
    s' (Glob out) = Some (tree (d_add ops) (halves (256 div 2)) (first_element (d_zero ops) xs) 0) \<and> keeps (own 0 {out}) s s'"
proof -
  let ?g = "first_element (d_zero ops) xs"
  let ?load = "\<lambda>b t. set_reg b t 0 (d_zero ops) # (if bridge_index b 256 t < n then [move (Reg b t 0) (Glob (inp + nat (bridge_index b 256 t)))] else []) @
     [move (Shar b t) (Reg b t 0)]"
  have load: "run_steps (?load 0 t) u = Inr (u(Reg 0 t 0 \<mapsto> ?g t, Shar 0 t \<mapsto> ?g t))"
    if "t < 256" "u (Reg 0 t 0) \<noteq> None" "u (Shar 0 t) \<noteq> None" "t < length xs \<longrightarrow> u (Glob (inp + t)) = Some (xs ! t)" for t and u :: "'a kstate"
  proof -
    have "bridge_index 0 256 t = int t" using bridge_index_eq [of 0 256 t] that(1) by simp
    moreover have "int t < n \<longleftrightarrow> t < length xs" using n by linarith
    ultimately show ?thesis using that by (auto simp: first_element_def fun_upd_twist)
  qed
  let ?P = "\<lambda>k u. (\<forall>t < k. u (Shar 0 t) = Some (?g t)) \<and> (\<forall>t. k \<le> t \<and> t < 256 \<longrightarrow> u (Shar 0 t) \<noteq> None) \<and>
    (\<forall>t. u (Reg 0 t 0) \<noteq> None) \<and> keeps (own 0 {}) s u"
  have "\<exists>u. run_steps (concat (map (?load 0) [0..<256])) s = Inr u \<and> ?P 256 u"
  proof (rule run_threads [where P = ?P])
    fix t u assume t: "t < 256" and P: "?P t u"
    have "u (Glob p) = s (Glob p)" for p using P by (simp add: keeps_def)
    then have "run_steps (?load 0 t) u = Inr (u(Reg 0 t 0 \<mapsto> ?g t, Shar 0 t \<mapsto> ?g t))" using P t inp by (intro load) auto
    moreover have "?P (Suc t) (u(Reg 0 t 0 \<mapsto> ?g t, Shar 0 t \<mapsto> ?g t))" using P by (auto simp: less_Suc_eq keeps_def)
    ultimately show "\<exists>u'. run_steps (?load 0 t) u = Inr u' \<and> ?P (Suc t) u'" by blast
  qed (use reg shar in \<open>simp add: keeps_def\<close>)
  then obtain s1 where s1: "run_steps (concat (map (?load 0) [0..<256])) s = Inr s1" "\<And>t. t < 256 \<Longrightarrow> s1 (Shar 0 t) = Some (?g t)"
    "\<And>t. s1 (Reg 0 t 0) \<noteq> None" "keeps (own 0 {}) s s1" by blast
  have h2: "2 * h \<le> 256" if "h \<in> set (halves (256 div 2))" for h using halves_le [OF that] by simp
  from some_phases [of 256 s1 0 ?g "halves (256 div 2)" "more_elements 0 n" "d_add ops", OF s1(2) h2] obtain s2 where
    s2: "run_code (map (\<lambda>h b t. if more_elements 0 n h t then [combine (d_add ops) (Shar b t) (Shar b (t + h))] else []) (halves (256 div 2))) 256 0 s1 = Inr s2"
      "\<forall>t < 256. s2 (Shar 0 t) = Some (fold (some_step (more_elements 0 n) (d_add ops)) (halves (256 div 2)) ?g t)" "keeps (shared_cells 0) s1 s2"
    by blast
  let ?v = "tree (d_add ops) (halves (256 div 2)) ?g 0"
  have "fold (some_step (more_elements 0 n) (d_add ops)) (halves (256 div 2)) ?g = tree (d_add ops) (halves (256 div 2)) ?g"
    by (rule some_is_tree [where z = "d_zero ops" and n = "nat n"]) (use z more_elements_iff [OF n(1,2)] n(3) in \<open>simp_all add: first_element_def\<close>)
  then have v: "s2 (Shar 0 0) = Some ?v" using s2(2) by simp
  let ?last = "\<lambda>b t. if t = 0 then [move (Glob (out + b)) (Shar b 0)] else []"
  have "s2 (Glob out) = s (Glob out)" using keepsD [OF s2(3)] keepsD [OF s1(4)] by simp
  then have first: "run_steps (?last 0 0) s2 = Inr (s2(Glob out \<mapsto> ?v))" using v out by simp
  have rest: "concat (map (?last 0) [1..<256]) = []" by simp
  have last: "run_steps (concat (map (?last 0) [0..<256])) s2 = Inr (s2(Glob out \<mapsto> ?v))"
    unfolding run_split_first [OF zero_less_numeral, of "?last 0"] first rbind.simps rest run_steps_simps ..
  have at0: "run_code (map (\<lambda>h b t. if more_elements b n h t then [combine (d_add ops) (Shar b t) (Shar b (t + h))] else []) hs) 256 0 =
    run_code (map (\<lambda>h b t. if more_elements 0 n h t then [combine (d_add ops) (Shar b t) (Shar b (t + h))] else []) hs) 256 0" for hs
    by (simp add: run_code_def comp_def)
  have "keeps (own 0 {out}) s (s2(Glob out \<mapsto> ?v))"
    unfolding keeps_def
  proof (intro allI impI)
    fix l assume l: "l \<notin> own 0 {out}"
    then have "l \<notin> shared_cells 0" "l \<notin> own 0 {}" "l \<noteq> Glob out" by (auto simp: own_def shared_cells_def split: loc.splits)
    then show "(s2(Glob out \<mapsto> ?v)) l = s l" using keepsD [OF s2(3)] keepsD [OF s1(4)] by simp
  qed
  then show ?thesis using s1(1) s2(1) last unfolding reduce_sum_kernel_def
    by (intro exI [of _ "s2(Glob out \<mapsto> ?v)"]) (simp add: run_code_simps at0)
qed

lemma bridge_sum_race_free:
  assumes "out \<notin> {inp..<inp + nat n}"
  shows "race_free (launch_grid 1 256 (reduce_sum_kernel ops out inp 256 n))"
proof -
  let ?load = "\<lambda>b t. set_reg b t 0 (d_zero ops) # (if bridge_index b 256 t < n then [move (Reg b t 0) (Glob (inp + nat (bridge_index b 256 t)))] else []) @
     [move (Shar b t) (Reg b t 0)]"
  have code: "f = ?load \<or> (\<exists>s. f = (\<lambda>b t. if more_elements b n s t then [combine (d_add ops) (Shar b t) (Shar b (t + s))] else [])) \<or>
      f = (\<lambda>b t. if t = 0 then [move (Glob (out + b)) (Shar b 0)] else [])" if "f \<in> set (reduce_sum_kernel ops out inp 256 n)" for f
    using that unfolding reduce_sum_kernel_def by auto
  have load: "k_dst x \<in> {Reg b t 0, Shar b t} \<and> set (k_srcs x) \<subseteq> insert (Reg b t 0) (Glob ` {inp..<inp + nat n})"
    if "x \<in> set (?load b t)" "b < 1" "t < 256" for b t x
    using that bridge_index_eq [of b 256 t] by (auto simp: zless_nat_eq_int_zless split: if_splits)
  show ?thesis
  proof (rule kernel_race_free [where W = "\<lambda>b. {out + b}" and R = "\<lambda>b. {inp..<inp + nat n}"])
    fix f b t t' x y
    assume f: "f \<in> set (reduce_sum_kernel ops out inp 256 n)" and b: "b < 1" "t < 256" "t' < 256" "t \<noteq> t'" and x: "x \<in> set (f b t)" and y: "y \<in> set (f b t')"
    from code [OF f] consider "f = ?load" | s where "f = (\<lambda>b t. if more_elements b n s t then [combine (d_add ops) (Shar b t) (Shar b (t + s))] else [])"
      | "f = (\<lambda>b t. if t = 0 then [move (Glob (out + b)) (Shar b 0)] else [])" by blast
    then show "indep x y"
    proof cases
      case 1
      have "k_dst x \<in> {Reg b t 0, Shar b t}" "set (k_srcs x) \<subseteq> insert (Reg b t 0) (Glob ` {inp..<inp + nat n})"
        "k_dst y \<in> {Reg b t' 0, Shar b t'}" "set (k_srcs y) \<subseteq> insert (Reg b t' 0) (Glob ` {inp..<inp + nat n})"
        using load [of x b t] load [of y b t'] x y b unfolding 1 by blast+
      with b(4) show ?thesis unfolding indep_def by auto
    qed (use x y b(4) in \<open>auto simp: indep_def split: if_splits\<close>)
  next
    fix f b t x assume f: "f \<in> set (reduce_sum_kernel ops out inp 256 n)" and b: "b < 1" "t < 256" and x: "x \<in> set (f b t)"
    from code [OF f] consider "f = ?load" | s where "f = (\<lambda>b t. if more_elements b n s t then [combine (d_add ops) (Shar b t) (Shar b (t + s))] else [])"
      | "f = (\<lambda>b t. if t = 0 then [move (Glob (out + b)) (Shar b 0)] else [])" by blast
    then show "stays b {out + b} {inp..<inp + nat n} x"
    proof cases
      case 1
      have "k_dst x \<in> {Reg b t 0, Shar b t}" "set (k_srcs x) \<subseteq> insert (Reg b t 0) (Glob ` {inp..<inp + nat n})"
        using load [of x b t] x b unfolding 1 by blast+
      then show ?thesis unfolding stays_def by fastforce
    qed (use x in \<open>auto simp: stays_def split: if_splits\<close>)
  qed simp
qed

context reduction
begin

lemma first_total: "F (first_element z xs) {..<D} = F (\<lambda>i. xs ! i) {..<min (length xs) D}"
  by (rule mono_neutral_cong_right) (auto simp: first_element_def)

end

text \<open>
  \<open>reduce_sum\<close> of the bridge runs one block of 256 threads, one element each: it stores the sum of the
  first 256 elements, and leaves out the others.
\<close>

theorem bridge_sum:
  assumes n: "0 \<le> n" "n < 2 ^ 31" "nat n = length xs" and xs: "holds m inp xs" and out: "m out \<noteq> None" "out \<notin> {inp..<inp + length xs}"
    and monoid: "comm_monoid_set (d_add ops) (d_zero ops)"
  shows "stores (bridge_reduce_sum ops out inp n) m out
    [comm_monoid_set.F (d_add ops) (d_zero ops) (\<lambda>i. xs ! i) {..<min (length xs) 256}]"
proof -
  have red: "reduction (d_add ops) (d_zero ops)" using monoid by (rule reduction.intro)
  have z: "d_add ops x (d_zero ops) = x" for x
    using monoid unfolding comm_monoid_set_def comm_monoid_def comm_monoid_axioms_def by blast
  let ?v = "tree (d_add ops) (halves (256 div 2)) (first_element (d_zero ops) xs) 0"
  have "race_free (launch_grid 1 256 (reduce_sum_kernel ops out inp 256 n))" using out(2) n(3) by (intro bridge_sum_race_free) simp
  then have "stores (Some (launch_grid 1 256 (reduce_sum_kernel ops out inp 256 n), 256)) m out (map (\<lambda>_. ?v) [0..<1 * 1])"
  proof (rule blocks_store)
    fix b u assume b: "b < (1 :: nat)" and reg: "\<And>t r. u (Reg b t r) \<noteq> None" and shar: "\<And>i. i < 256 \<Longrightarrow> u (Shar b i) \<noteq> None"
      and mem: "\<And>p. (\<And>b'. b' < b \<Longrightarrow> p \<notin> row_cells out 1 b') \<Longrightarrow> u (Glob p) = m p"
    have g: "u (Glob p) = m p" for p using mem [of p] b by simp
    have "\<exists>u'. run_code (reduce_sum_kernel ops out inp 256 n) 256 0 u = Inr u' \<and> u' (Glob out) = Some ?v \<and> keeps (own 0 {out}) u u'"
      by (rule bridge_sum_block [OF n]) (use reg shar g xs out(1) z b in \<open>auto simp: holds_def\<close>)
    then show "\<exists>u'. run_code (reduce_sum_kernel ops out inp 256 n) 256 b u = Inr u' \<and> (\<forall>i < 1. u' (Glob (out + b * 1 + i)) = Some ?v) \<and>
      keeps (own b (row_cells out 1 b)) u u'" using b by (simp add: row_cells_def atLeastLessThanSuc)
  qed (use out(1) in \<open>simp add: room_def\<close>)
  moreover have "?v = comm_monoid_set.F (d_add ops) (d_zero ops) (\<lambda>i. xs ! i) {..<min (length xs) 256}"
    using reduction.tree_total [OF red, of 8] reduction.first_total [OF red, of xs 256] by simp
  ultimately show ?thesis by (simp add: bridge_reduce_sum_def)
qed

text \<open>Of 300 ones the sum is 256.\<close>

lemma bridge_sum_witness: "stores (bridge_reduce_sum int_ops 0 1 300) (two_arrays 0 1 (replicate 300 1) []) 0 [256]"
proof -
  let ?xs = "replicate 300 (1 :: int)"
  have "holds (two_arrays 0 1 ?xs []) 1 ?xs" by (simp add: holds_def two_arrays_def)
  then have "stores (bridge_reduce_sum int_ops 0 1 300) (two_arrays 0 1 ?xs []) 0
    [comm_monoid_set.F (d_add int_ops) (d_zero int_ops) (\<lambda>i. ?xs ! i) {..<min (length ?xs) 256}]"
    using int_sum.comm_monoid_set_axioms by (intro bridge_sum) (simp_all add: two_arrays_def)
  then show ?thesis by (simp add: int_sum_total)
qed

end
