(* ===== verification/Cuda_Warp.thy ===== *)
theory Cuda_Warp
  imports Cuda_Reduction
begin

text \<open>
  Reductions by warps: \<open>max_kernel\<close> of \<open>cuda/kernels/reduction.cu\<close>, and what the kernels on rows share
  with it; the one-block sum of \<open>bridges/cuda_kernel_bridge.cu\<close>.
\<close>

section \<open>From warps to the block\<close>

lemma warp_store_phase:
  assumes D: "D = 32 * W" and "\<And>t. t < D \<Longrightarrow> s (Reg b t r) = Some (g t)" and "\<And>w. w < W \<Longrightarrow> s (Shar b (base + w)) \<noteq> None"
  shows "\<exists>s'. run_steps (concat (map (warp_store r base b) [0..<D])) s = Inr s' \<and>
    (\<forall>w < W. s' (Shar b (base + w)) = Some (g (32 * w))) \<and> keeps (shared_cells b) s s' \<and>
    (\<forall>i. i < base \<or> base + W \<le> i \<longrightarrow> s' (Shar b i) = s (Shar b i))"
proof -
  let ?P = "\<lambda>t :: nat. t mod 32 = 0" and ?d = "\<lambda>t. Shar b (base + t div 32)"
  have w: "t div 32 < W" if "t < D" for t using that D by (simp add: less_mult_imp_div_less mult.commute)
  have "\<exists>s'. run_steps (concat (map (\<lambda>t. if ?P t then [Assign (?d t) [Reg b t r] (\<lambda>vs. Some (vs ! 0))] else []) [0..<D])) s = Inr s' \<and>
    (\<forall>t < D. ?P t \<longrightarrow> s' (?d t) = result_at (s (?d t)) (Some (map (\<lambda>l. the (s l)) [Reg b t r] ! 0))) \<and>
    (\<forall>l. l \<notin> ?d ` {t. t < D \<and> ?P t} \<longrightarrow> s' l = s l)"
  proof (rule run_phase [where f = "\<lambda>t vs. Some (vs ! 0)"])
    show "inj_on ?d {t. t < D \<and> ?P t}" by (auto simp: inj_on_def)
    show "s (?d t) \<noteq> None" if "t < D" for t using assms(3) [OF w [OF that]] .
  qed (use assms(2) in auto)
  then obtain s' where s': "run_steps (concat (map (warp_store r base b) [0..<D])) s = Inr s'"
    "\<forall>t < D. ?P t \<longrightarrow> s' (?d t) = result_at (s (?d t)) (Some (map (\<lambda>l. the (s l)) [Reg b t r] ! 0))"
    "\<forall>l. l \<notin> ?d ` {t. t < D \<and> ?P t} \<longrightarrow> s' l = s l"
    unfolding warp_store_def [abs_def] move_def by blast
  have "s' (Shar b (base + v)) = Some (g (32 * v))" if "v < W" for v
    using s'(2) [rule_format, of "32 * v"] assms(2) [of "32 * v"] that D by simp
  moreover have "keeps (shared_cells b) s s'" using s'(3) by (auto simp: keeps_def shared_cells_def)
  moreover have "s' (Shar b i) = s (Shar b i)" if "i < base \<or> base + W \<le> i" for i
    using s'(3) [rule_format, of "Shar b i"] that w by fastforce
  ultimately show ?thesis using s'(1) by blast
qed

lemma fold_shared_phase:
  assumes D: "0 < D" "0 < W" and h: "\<And>w. w < W \<Longrightarrow> s (Shar b (base + w)) = Some (h w)" and "s (Reg b 0 r) \<noteq> None"
    and "s dst \<noteq> None" and "\<And>t. dst \<noteq> Reg b t r"
  shows "run_steps (concat (map (fold_shared op r base W dst b) [0..<D])) s =
    Inr (s(Reg b 0 r \<mapsto> foldl op (h 0) (map h [1..<W]), dst \<mapsto> foldl op (h 0) (map h [1..<W])))"
proof -
  have steps: "run_steps (map (\<lambda>i. combine op (Reg b 0 r) (Shar b (base + i))) is) (s(Reg b 0 r \<mapsto> v)) = Inr (s(Reg b 0 r \<mapsto> foldl op v (map h is)))"
    if "set is \<subseteq> {..<W}" for v "is"
    using that h by (induction "is" arbitrary: v) simp_all
  have "run_steps (fold_shared op r base W dst b 0) s =
      Inr (s(Reg b 0 r \<mapsto> foldl op (h 0) (map h [1..<W]), dst \<mapsto> foldl op (h 0) (map h [1..<W])))"
  proof -
    have "set [1..<W] \<subseteq> {..<W}" by auto
    from steps [OF this, of "h 0"] h [of 0] assms show ?thesis by (auto simp: fold_shared_def)
  qed
  moreover have "concat (map (fold_shared op r base W dst b) [1..<D]) = []" by (simp add: fold_shared_def)
  ultimately show ?thesis unfolding run_split_first [OF D(1)] by (simp only: rbind.simps run_steps_simps)
qed

definition warp_fold :: "('v \<Rightarrow> 'v \<Rightarrow> 'v) \<Rightarrow> nat \<Rightarrow> (nat \<Rightarrow> 'v) \<Rightarrow> 'v" where
  "warp_fold op W g = (let h = (\<lambda>w. fold (warp_step op) (halves 16) g (32 * w)) in foldl op (h 0) (map h [1..<W]))"

text \<open>Inside a warp the exchange is the halving tree, as far as its lower threads are concerned.\<close>

lemma warp_tree_step:
  assumes "2 * h \<le> 32" and "l < h" and "\<And>l. l < 2 * h \<Longrightarrow> g (32 * w + l) = f l"
  shows "warp_step op h g (32 * w + l) = tree_step op h f l"
proof -
  have "(32 * w + l) mod 32 = l" using assms(1,2) by simp
  then have "lane_down h (32 * w + l) = 32 * w + (l + h)" using assms(1,2) by (simp add: lane_down_def)
  then show ?thesis using assms(2) assms(3) [of l] assms(3) [of "l + h"] by (simp add: warp_step_def tree_step_def)
qed

lemma warp_is_tree:
  assumes "2 * h \<le> 32" and "\<And>l. l < 2 * h \<or> l = 0 \<Longrightarrow> g (32 * w + l) = f l"
  shows "fold (warp_step op) (halves h) g (32 * w) = tree op (halves h) f 0"
  using assms
proof (induction h arbitrary: g f rule: halves.induct)
  case (1 h)
  show ?case
  proof (cases "h = 0")
    case True
    then show ?thesis using 1(3) [of 0] by (simp add: halves.simps)
  next
    case False
    have "fold (warp_step op) (halves (h div 2)) (warp_step op h g) (32 * w) = tree op (halves (h div 2)) (tree_step op h f) 0"
    proof (rule "1.IH" [OF False])
      fix l assume "l < 2 * (h div 2) \<or> l = 0"
      then have "l < h" using False by auto
      then show "warp_step op h g (32 * w + l) = tree_step op h f l"
        using 1(2,3) by (intro warp_tree_step) auto
    qed (use 1(2) in simp)
    then show ?thesis using False by (simp add: halves.simps [of h])
  qed
qed

context reduction
begin

lemma warp_total: "fold (warp_step op) (halves 16) g (32 * w) = F g {32 * w..<32 * Suc w}"
proof -
  have "fold (warp_step op) (halves 16) g (32 * w) = tree op (halves (2 ^ 5 div 2)) (\<lambda>l. g (32 * w + l)) 0"
    using warp_is_tree [of 16 g w "\<lambda>l. g (32 * w + l)" op] by simp
  also have "\<dots> = F (\<lambda>l. g (32 * w + l)) {..<32}" using tree_total [of 5] by simp
  also have "\<dots> = F g ((\<lambda>l. 32 * w + l) ` {..<32})" using reindex [of "\<lambda>l. 32 * w + l" "{..<32}" g] by (simp add: inj_on_def comp_def)
  also have "(\<lambda>l. 32 * w + l) ` {..<32} = {32 * w..<32 * Suc w}"
    using image_add_atLeastLessThan [of "32 * w" 0 32] by (simp add: lessThan_atLeast0 add.commute)
  finally show ?thesis .
qed

lemma warp_fold_total: "0 < W \<Longrightarrow> warp_fold op W g = F g {..<32 * W}"
proof -
  assume "0 < W"
  let ?h = "\<lambda>w. fold (warp_step op) (halves 16) g (32 * w)"
  have "foldl op (?h 0) (map ?h [1..<Suc k]) = F g {..<32 * Suc k}" for k
  proof (induction k)
    case 0
    then show ?case using warp_total [of g 0] by (simp add: lessThan_atLeast0)
  next
    case (Suc k)
    have "{..<32 * Suc (Suc k)} = {..<32 * Suc k} \<union> {32 * Suc k..<32 * Suc (Suc k)}" by auto
    moreover have "F g ({..<32 * Suc k} \<union> {32 * Suc k..<32 * Suc (Suc k)}) = op (F g {..<32 * Suc k}) (F g {32 * Suc k..<32 * Suc (Suc k)})"
      by (intro union_disjoint) auto
    ultimately show ?case using Suc warp_total [of g "Suc k"] by simp
  qed
  from this [of "W - 1"] \<open>0 < W\<close> show ?thesis by (simp add: warp_fold_def Let_def)
qed

end

section \<open>The maximum\<close>

definition block_max :: "'v dev_ops \<Rightarrow> nat \<Rightarrow> 'v list \<Rightarrow> (nat \<Rightarrow> nat list) \<Rightarrow> 'v" where
  "block_max ops W xs idx = warp_fold (d_max ops) W (\<lambda>t. collected (d_max ops) (d_minus_inf ops) xs (idx t))"

text \<open>Collecting, reducing the warps and storing their results, which several kernels do.\<close>

definition warp_totals :: "('v \<Rightarrow> 'v \<Rightarrow> 'v) \<Rightarrow> nat \<Rightarrow> nat \<Rightarrow> nat \<Rightarrow> 'v code" where
  "warp_totals op r q base = warp_reduce op r q @ [warp_store r base]"

lemma warp_totals_phase:
  assumes D: "D = 32 * W" "q \<noteq> r" and "\<And>t. t < D \<Longrightarrow> s (Reg b t r) = Some (g t)" and "\<And>t. t < D \<Longrightarrow> s (Reg b t q) \<noteq> None"
    and "\<And>w. w < W \<Longrightarrow> s (Shar b (base + w)) \<noteq> None"
  shows "\<exists>s'. run_code (warp_totals op r q base) D b s = Inr s' \<and>
    (\<forall>w < W. s' (Shar b (base + w)) = Some (fold (warp_step op) (halves 16) g (32 * w))) \<and>
    keeps (shared_cells b \<union> regs b r \<union> regs b q) s s' \<and> (\<forall>i. i < base \<or> base + W \<le> i \<longrightarrow> s' (Shar b i) = s (Shar b i))"
proof -
  have "32 dvd D" using D(1) by simp
  from warp_phases [OF this D(2) assms(3,4), of op "halves 16"] obtain s1 where
    s1: "run_code (warp_reduce op r q) D b s = Inr s1" "\<And>t. t < D \<Longrightarrow> s1 (Reg b t r) = Some (fold (warp_step op) (halves 16) g t)"
      "keeps (regs b r \<union> regs b q) s s1" unfolding warp_reduce_def by auto
  have "s1 (Shar b (base + w)) \<noteq> None" if "w < W" for w using keepsD [OF s1(3), of "Shar b (base + w)"] assms(5) [OF that] by simp
  from warp_store_phase [OF D(1) s1(2) this] obtain s2 where
    s2: "run_steps (concat (map (warp_store r base b) [0..<D])) s1 = Inr s2"
      "\<forall>w < W. s2 (Shar b (base + w)) = Some (fold (warp_step op) (halves 16) g (32 * w))" "keeps (shared_cells b) s1 s2"
      "\<forall>i. i < base \<or> base + W \<le> i \<longrightarrow> s2 (Shar b i) = s1 (Shar b i)" by blast
  have "keeps (shared_cells b \<union> regs b r \<union> regs b q) s s2"
    by (rule keeps_trans) (use s1(3) s2(3) in \<open>auto intro: keeps_mono\<close>)
  moreover have "s2 (Shar b i) = s (Shar b i)" if "i < base \<or> base + W \<le> i" for i
    using s2(4) [rule_format, OF that] keepsD [OF s1(3), of "Shar b i"] by simp
  ultimately show ?thesis using s1(1) s2(1,2) by (intro exI [of _ s2]) (simp add: warp_totals_def run_code_simps)
qed

lemma max_block:
  assumes D: "D = 32 * W" "0 < W" and reg: "\<And>t r. s (Reg b t r) \<noteq> None" and shar: "\<And>w. w < W \<Longrightarrow> s (Shar b w) \<noteq> None"
    and inp: "\<And>t i. t < D \<Longrightarrow> i \<in> set (idx b t) \<Longrightarrow> s (Glob (inp + i)) = Some (xs ! i)" and out: "s (Glob (out + b)) \<noteq> None"
  shows "\<exists>s'. run_code (max_kernel ops inp out D idx) D b s = Inr s' \<and> s' (Glob (out + b)) = Some (block_max ops W xs (idx b)) \<and>
    keeps (own b {out + b}) s s'"
proof -
  let ?g = "\<lambda>t. collected (d_max ops) (d_minus_inf ops) xs (idx b t)"
  have "\<exists>s1. run_steps (concat (map (\<lambda>t. collect (d_max ops) (d_minus_inf ops) 0 inp b t (idx b t)) [0..<D])) s = Inr s1 \<and>
      (\<forall>t < D. s1 (Reg b t 0) = Some (?g t)) \<and> (\<forall>l. l \<notin> (\<lambda>t. Reg b t 0) ` {..<D} \<longrightarrow> s1 l = s l)"
    by (rule collect_phase) (use reg inp in auto)
  then obtain s1 where s1: "run_steps (concat (map (\<lambda>t. collect (d_max ops) (d_minus_inf ops) 0 inp b t (idx b t)) [0..<D])) s = Inr s1"
    "\<And>t. t < D \<Longrightarrow> s1 (Reg b t 0) = Some (?g t)" "\<And>l. l \<notin> (\<lambda>t. Reg b t 0) ` {..<D} \<Longrightarrow> s1 l = s l" by blast
  have present: "s1 (Reg b t 1) \<noteq> None" "w < W \<Longrightarrow> s1 (Shar b (0 + w)) \<noteq> None" for t w
    using s1(3) [of "Reg b t 1"] s1(3) [of "Shar b w"] reg shar [of w] by auto
  have "1 \<noteq> (0 :: nat)" by simp
  from warp_totals_phase [OF D(1) this s1(2) present, of "d_max ops"] obtain s2 where
    s2: "run_code (warp_totals (d_max ops) 0 1 0) D b s1 = Inr s2"
      "\<And>w. w < W \<Longrightarrow> s2 (Shar b (0 + w)) = Some (fold (warp_step (d_max ops)) (halves 16) ?g (32 * w))"
      "keeps (shared_cells b \<union> regs b 0 \<union> regs b 1) s1 s2" by blast
  have reg2: "s2 (Reg b 0 0) \<noteq> None"
  proof -
    have "run_code (warp_totals (d_max ops) 0 1 0) D b s1 = Inr s2" by (rule s2(1))
    then have "(s2 (Reg b 0 0) = None) = (s1 (Reg b 0 0) = None)" unfolding run_code_def by (rule run_steps_dom)
    then show ?thesis using s1(2) [of 0] D by simp
  qed
  have out2: "s2 (Glob (out + b)) \<noteq> None" using keepsD [OF s2(3), of "Glob (out + b)"] s1(3) [of "Glob (out + b)"] out by auto
  have "0 < D" using D by simp
  from fold_shared_phase [OF this D(2) s2(2) reg2 out2, of "d_max ops"]
  have fin: "run_steps (concat (map (fold_shared (d_max ops) 0 0 W (Glob (out + b)) b) [0..<D])) s2 =
      Inr (s2(Reg b 0 0 \<mapsto> block_max ops W xs (idx b), Glob (out + b) \<mapsto> block_max ops W xs (idx b)))"
    by (simp add: block_max_def warp_fold_def Let_def)
  let ?s' = "s2(Reg b 0 0 \<mapsto> block_max ops W xs (idx b), Glob (out + b) \<mapsto> block_max ops W xs (idx b))"
  have "keeps (own b {out + b}) s ?s'"
    unfolding keeps_def
  proof (intro allI impI)
    fix l assume l: "l \<notin> own b {out + b}"
    then have "l \<notin> shared_cells b \<union> regs b 0 \<union> regs b 1" "l \<notin> (\<lambda>t. Reg b t 0) ` {..<D}" "l \<noteq> Reg b 0 0" "l \<noteq> Glob (out + b)"
      by (auto simp: regs_def shared_cells_def)
    then show "?s' l = s l" using keepsD [OF s2(3), of l] s1(3) [of l] by simp
  qed
  moreover have "D div 32 = W" using D(1) by simp
  moreover have "max_kernel ops inp out D idx = [\<lambda>b t. collect (d_max ops) (d_minus_inf ops) 0 inp b t (idx b t)] @ warp_totals (d_max ops) 0 1 0 @
      [\<lambda>b. fold_shared (d_max ops) 0 0 (D div 32) (Glob (out + b)) b]" by (simp add: max_kernel_def warp_totals_def)
  ultimately show ?thesis using s1(1) s2(1) fin by (intro exI [of _ ?s']) (simp add: run_code_simps)
qed

lemma max_kernel_code:
  "f \<in> set (max_kernel ops inp out D idx) \<Longrightarrow> f = (\<lambda>b t. collect (d_max ops) (d_minus_inf ops) 0 inp b t (idx b t)) \<or>
    (\<exists>off. f = (\<lambda>b t. [move (Reg b t 1) (Reg b (lane_down off t) 0)])) \<or> f = (\<lambda>b t. [combine (d_max ops) (Reg b t 0) (Reg b t 1)]) \<or>
    f = warp_store 0 0 \<or> f = (\<lambda>b. fold_shared (d_max ops) 0 0 (D div 32) (Glob (out + b)) b)"
  unfolding max_kernel_def warp_reduce_def by auto

lemma fold_shared_steps:
  "x \<in> set (fold_shared op r base W dst b t) \<Longrightarrow>
   t = 0 \<and> k_dst x \<in> {Reg b t r, dst} \<and> set (k_srcs x) \<subseteq> insert (Reg b t r) (range (Shar b))"
  by (auto simp: fold_shared_def split: if_splits)

lemma max_kernel_race_free:
  assumes idx: "reads_in G D idx inp n" and apart: "out + G \<le> inp \<or> inp + n \<le> out"
  shows "race_free (launch_grid G D (max_kernel ops inp out D idx))"
proof (rule kernel_race_free [where W = "\<lambda>b. {out + b}" and R = "\<lambda>b. {inp..<inp + n}"])
  fix f b t t' x y
  assume f: "f \<in> set (max_kernel ops inp out D idx)" and t: "t \<noteq> t'" and x: "x \<in> set (f b t)" and y: "y \<in> set (f b t')"
  from max_kernel_code [OF f] consider "f = (\<lambda>b t. collect (d_max ops) (d_minus_inf ops) 0 inp b t (idx b t))"
    | off where "f = (\<lambda>b t. [move (Reg b t 1) (Reg b (lane_down off t) 0)])" | "f = (\<lambda>b t. [combine (d_max ops) (Reg b t 0) (Reg b t 1)])"
    | "f = warp_store 0 0" | "f = (\<lambda>b. fold_shared (d_max ops) 0 0 (D div 32) (Glob (out + b)) b)" by blast
  then show "indep x y"
  proof cases
    case 1
    then have "k_dst x = Reg b t 0" "set (k_srcs x) \<subseteq> insert (Reg b t 0) (range Glob)" "k_dst y = Reg b t' 0"
      "set (k_srcs y) \<subseteq> insert (Reg b t' 0) (range Glob)" using x y collect_steps by fastforce+
    with t show ?thesis unfolding indep_def by auto
  next
    case 4
    have "t div 32 \<noteq> t' div 32" if "t mod 32 = 0" "t' mod 32 = 0" using t that by auto
    then show ?thesis using x y 4 by (auto simp: warp_store_def indep_def split: if_splits)
  next
    case 5
    then have "t = 0" "t' = 0" using x y by (auto dest: fold_shared_steps)
    with t show ?thesis by simp
  qed (use x y t in \<open>auto simp: indep_def split: if_splits\<close>)
next
  fix f b t x assume f: "f \<in> set (max_kernel ops inp out D idx)" and b: "b < G" "t < D" and x: "x \<in> set (f b t)"
  from max_kernel_code [OF f] consider "f = (\<lambda>b t. collect (d_max ops) (d_minus_inf ops) 0 inp b t (idx b t))"
    | off where "f = (\<lambda>b t. [move (Reg b t 1) (Reg b (lane_down off t) 0)])" | "f = (\<lambda>b t. [combine (d_max ops) (Reg b t 0) (Reg b t 1)])"
    | "f = warp_store 0 0" | "f = (\<lambda>b. fold_shared (d_max ops) 0 0 (D div 32) (Glob (out + b)) b)" by blast
  then show "stays b {out + b} {inp..<inp + n} x"
  proof cases
    case 1
    then have "k_dst x = Reg b t 0" "set (k_srcs x) \<subseteq> insert (Reg b t 0) ((\<lambda>i. Glob (inp + i)) ` set (idx b t))" using x collect_steps by fastforce+
    moreover have "set (idx b t) \<subseteq> {..<n}" using idx b by (simp add: reads_in_def)
    ultimately show ?thesis unfolding stays_def by fastforce
  next
    case 5
    then have "k_dst x \<in> {Reg b t 0, Glob (out + b)}" "set (k_srcs x) \<subseteq> insert (Reg b t 0) (range (Shar b))"
      using x by (auto dest!: fold_shared_steps)
    then show ?thesis unfolding stays_def by fastforce
  qed (use x in \<open>auto simp: stays_def warp_store_def split: if_splits\<close>)
qed (use apart in auto)

lemma block_max_total:
  assumes "comm_monoid_set (d_max ops) (d_minus_inf ops)"
  shows "block_max ops 8 xs is =
    comm_monoid_set.F (d_max ops) (d_minus_inf ops) (\<lambda>t. collected (d_max ops) (d_minus_inf ops) xs (is t)) {..<256}"
  using reduction.warp_fold_total [OF reduction.intro [OF assms], of 8] by (simp add: block_max_def)

text \<open>
  \<open>launch_max\<close> stores one partial maximum per block, whatever the order of the threads, with the
  exchanges inside the warps and eight cells of shared memory; if the maximum has the first value as its
  unit, as that of the floats without NaN has, the maximum of the results is that of all elements.
\<close>

theorem cuda_max:
  assumes "unat n + 2 ^ 17 < 2 ^ 64" and "holds m inp xs" and "length xs = unat n" and "room m out (reduce_blocks n)"
    and apart: "out + reduce_blocks n \<le> inp \<or> inp + unat n \<le> out"
  shows "\<exists>vs. length vs = reduce_blocks n \<and> stores (launch_max ops inp out n) m out vs \<and>
    (comm_monoid_set (d_max ops) (d_minus_inf ops) \<longrightarrow> comm_monoid_set.F (d_max ops) (d_minus_inf ops) (\<lambda>b. vs ! b) {..<length vs} =
       comm_monoid_set.F (d_max ops) (d_minus_inf ops) (\<lambda>i. xs ! i) {..<length xs})"
proof -
  have "\<exists>idx. dealt n idx \<and> stores (launch_max ops inp out n) m out (map (\<lambda>b. block_max ops 8 xs (idx b)) [0..<reduce_blocks n])"
    unfolding launch_max_def
  proof (rule launch_reduction [OF assms])
    fix b u and idx :: "nat \<Rightarrow> nat \<Rightarrow> nat list" assume reg: "\<And>t r. u (Reg b t r) \<noteq> None"
      and shar: "\<And>i. i < 256 div 32 \<Longrightarrow> u (Shar b i) \<noteq> None"
      and inp: "\<And>t i. t < 256 \<Longrightarrow> i \<in> set (idx b t) \<Longrightarrow> u (Glob (inp + i)) = Some (xs ! i)" and out: "u (Glob (out + b)) \<noteq> None"
    have "u (Shar b w) \<noteq> None" if "w < 8" for w using shar [of w] that by simp
    from max_block [of 256 8 u b idx inp xs out ops, OF _ _ reg this inp out]
    show "\<exists>u'. run_code (max_kernel ops inp out 256 idx) 256 b u = Inr u' \<and> u' (Glob (out + b)) = Some (block_max ops 8 xs (idx b)) \<and>
      keeps (own b {out + b}) u u'" by simp
  qed (rule max_kernel_race_free [OF _ apart])
  then obtain idx where "dealt n idx" "stores (launch_max ops inp out n) m out (map (\<lambda>b. block_max ops 8 xs (idx b)) [0..<reduce_blocks n])"
    by blast
  then show ?thesis using reduction.dealt_total [OF reduction.intro, of "d_max ops" "d_minus_inf ops" n idx xs] assms(1,3)
    by (intro exI [of _ "map (\<lambda>b. block_max ops 8 xs (idx b)) [0..<reduce_blocks n]"]) (simp add: block_max_total)
qed

text \<open>Natural numbers have a least one, so the hypothesis on the maximum can hold.\<close>

definition nat_ops :: "nat dev_ops" where
  "nat_ops = \<lparr>d_zero = 0, d_one = 1, d_minus_inf = 0, d_add = (+), d_sub = (-), d_mul = (*), d_div = (div), d_max = max,
     d_exp = (\<lambda>x. x), d_log = (\<lambda>x. x), d_sqrt = (\<lambda>x. x), d_rsqrt = (\<lambda>x. x), d_of_int = nat, d_tiny = 0, d_is_zero = (\<lambda>x. x = 0)\<rparr>"

interpretation nat_max: reduction "d_max nat_ops" "d_minus_inf nat_ops"
  by unfold_locales (simp_all add: nat_ops_def ac_simps)

lemma cuda_max_witness: "stores (launch_max nat_ops 1 0 3) (two_arrays 0 1 [1, 3, 2] []) 0 [3]"
proof -
  let ?m = "two_arrays 0 1 [1, 3, 2 :: nat] []"
  have G: "reduce_blocks 3 = 1" by (simp add: reduce_blocks_def)
  have "holds ?m 1 [1, 3, 2]" "room ?m 0 (reduce_blocks 3)"
    by (simp_all add: holds_def room_def two_arrays_def G All_less_Suc)
  then have "\<exists>vs. length vs = reduce_blocks 3 \<and> stores (launch_max nat_ops 1 0 3) ?m 0 vs \<and>
    (comm_monoid_set (d_max nat_ops) (d_minus_inf nat_ops) \<longrightarrow>
      comm_monoid_set.F (d_max nat_ops) (d_minus_inf nat_ops) (\<lambda>b. vs ! b) {..<length vs} =
      comm_monoid_set.F (d_max nat_ops) (d_minus_inf nat_ops) (\<lambda>i. [1, 3, 2] ! i) {..<length [1, 3, 2 :: nat]})"
    by (intro cuda_max) (simp_all add: G)
  then obtain vs where vs: "length vs = 1" "stores (launch_max nat_ops 1 0 3) ?m 0 vs"
    "nat_max.F (\<lambda>b. vs ! b) {..<length vs} = nat_max.F (\<lambda>i. [1, 3, 2] ! i) {..<length [1, 3, 2 :: nat]}"
    using nat_max.comm_monoid_set_axioms unfolding G by blast
  have "{..<length [1, 3, 2 :: nat]} = {0, 1, 2}" "{..<length vs} = {0}" using vs(1) by auto
  with vs(1,3) have "vs = [3]" by (cases vs) (auto simp: nat_ops_def)
  with vs(2) show ?thesis by simp
qed

text \<open>The maximum of the bridge is a loop on the host.\<close>

lemma bridge_max:
  assumes "holds m inp xs" and "nat n = length xs" and "m out \<noteq> None"
  shows "bridge_reduce_max ops out inp n m = Inr (m(out \<mapsto> foldl (d_max ops) (d_minus_inf ops) xs))"
proof -
  have "for_each (\<lambda>i r. case m (inp + i) of None \<Rightarrow> Inl Out_Of_Bounds | Some x \<Rightarrow> Inr (d_max ops r x)) [0..<k] (d_minus_inf ops) =
      Inr (foldl (d_max ops) (d_minus_inf ops) (take k xs))" if "k \<le> length xs" for k
    using that assms(1) by (induction k) (simp_all add: for_each_append holds_def take_Suc_conv_app_nth)
  from this [of "length xs"] show ?thesis using assms(2,3) by (simp add: bridge_reduce_max_def)
qed

end
