(* ===== verification/Cuda_Rows.thy ===== *)
theory Cuda_Rows
  imports Cuda_Warp
begin

text \<open>
  The kernels of \<open>cuda/kernels/layernorm.cu\<close> and \<open>cuda/kernels/softmax.cu\<close>, one block for each row, and
  their wrappers in \<open>bridges/cuda_kernel_bridge.cu\<close>. A launch has no value here when a loop over the columns
  does not end or when an index leaves \<open>int\<close>; \<open>columns_ok\<close> gives the sizes for which neither happens.
\<close>

section \<open>The columns of a thread\<close>

text \<open>\<open>for (int i = tid; i < cols; i += blockDim.x)\<close>: the sum is unsigned and converted back.\<close>

partial_function (option) int_strided :: "int \<Rightarrow> int \<Rightarrow> int \<Rightarrow> int list option" where
  "int_strided i n st = (if i < n then Option.bind (int_strided (sint (word_of_int (i + st) :: 32 word)) n st) (\<lambda>is. Some (i # is)) else Some [])"

definition columns :: "nat \<Rightarrow> int \<Rightarrow> nat \<Rightarrow> nat list option" where
  "columns D cols t = map_option (map nat) (int_strided (int t) cols (int D))"

definition with_columns :: "nat \<Rightarrow> int \<Rightarrow> int \<Rightarrow> nat \<Rightarrow> ((nat \<Rightarrow> nat list) \<Rightarrow> 'v code) \<Rightarrow> 'v launch" where
  "with_columns D rows cols sh code =
     (if list_all (\<lambda>t. columns D cols t \<noteq> None) [0..<D] \<and> rows * cols \<le> 2 ^ 31
      then Some (launch_grid (nat rows) D (code (\<lambda>t. the (columns D cols t))), sh) else None)"

section \<open>The kernels on rows\<close>

text \<open>An optional array: \<open>weight ? weight[i] : 1\<close>.\<close>

definition cell_of :: "nat option \<Rightarrow> nat \<Rightarrow> loc list" where
  "cell_of p i = (case p of None \<Rightarrow> [] | Some a \<Rightarrow> [Glob (a + i)])"

definition value_of :: "nat option \<Rightarrow> 'v \<Rightarrow> 'v list \<Rightarrow> 'v" where
  "value_of p dflt vs = (case p of None \<Rightarrow> dflt | Some _ \<Rightarrow> hd vs)"

definition add_square :: "'v dev_ops \<Rightarrow> 'v \<Rightarrow> 'v \<Rightarrow> 'v" where
  "add_square ops a x = d_add ops a (d_mul ops x x)"

text \<open>Variables: 0 the sum of squares, 1 a shuffled value, 2 the factor of the row.\<close>

definition rms_factor :: "'v dev_ops \<Rightarrow> int \<Rightarrow> 'v \<Rightarrow> 'v \<Rightarrow> 'v" where
  "rms_factor ops cols eps q = d_rsqrt ops (d_add ops (d_div ops q (d_of_int ops cols)) eps)"

definition rms_norm_kernel :: "'v dev_ops \<Rightarrow> nat \<Rightarrow> nat \<Rightarrow> nat option \<Rightarrow> int \<Rightarrow> 'v \<Rightarrow> nat \<Rightarrow> (nat \<Rightarrow> nat list) \<Rightarrow> 'v code" where
  "rms_norm_kernel ops out inp weight cols eps D cs =
     [\<lambda>b t. collect (add_square ops) (d_zero ops) 0 (inp + b * nat cols) b t (cs t)] @ warp_reduce (d_add ops) 0 1 @
     [warp_store 0 0,
      \<lambda>b t. if t = 0 then set_reg b t 2 (d_zero ops) # map (\<lambda>i. combine (d_add ops) (Reg b t 2) (Shar b i)) [0..<(D + 31) div 32] @
          [Assign (Reg b t 2) [Reg b t 2] (\<lambda>vs. Some (rms_factor ops cols eps (vs ! 0))), move (Shar b 0) (Reg b t 2)] else [],
      \<lambda>b t. move (Reg b t 2) (Shar b 0) #
        map (\<lambda>i. Assign (Glob (out + b * nat cols + i)) (Glob (inp + b * nat cols + i) # Reg b t 2 # cell_of weight i)
          (\<lambda>vs. Some (d_mul ops (d_mul ops (vs ! 0) (vs ! 1)) (value_of weight (d_one ops) (drop 2 vs))))) (cs t)]"

definition launch_rms_norm :: "'v dev_ops \<Rightarrow> nat \<Rightarrow> nat \<Rightarrow> nat option \<Rightarrow> int \<Rightarrow> int \<Rightarrow> 'v \<Rightarrow> 'v launch" where
  "launch_rms_norm ops out inp weight rows cols eps =
     with_columns 256 rows cols ((256 + 32 - 1) div 32) (rms_norm_kernel ops out inp weight cols eps 256)"

text \<open>Variables: 0 and 1 the sums of the elements and of their squares, 2 the mean, 3 the inverse deviation.\<close>

definition layer_norm_kernel ::
  "'v dev_ops \<Rightarrow> nat \<Rightarrow> nat \<Rightarrow> nat option \<Rightarrow> nat option \<Rightarrow> int \<Rightarrow> 'v \<Rightarrow> nat \<Rightarrow> (nat \<Rightarrow> nat list) \<Rightarrow> 'v code" where
  "layer_norm_kernel ops out inp weight bias cols eps D cs =
     [\<lambda>b t. [set_reg b t 0 (d_zero ops), set_reg b t 1 (d_zero ops)] @
        concat (map (\<lambda>i. [combine (d_add ops) (Reg b t 0) (Glob (inp + b * nat cols + i)),
          combine (add_square ops) (Reg b t 1) (Glob (inp + b * nat cols + i))]) (cs t)) @
        [move (Shar b t) (Reg b t 0), move (Shar b (D + t)) (Reg b t 1)],
      \<lambda>b t. if t = 0 then [set_reg b t 2 (d_zero ops), set_reg b t 3 (d_zero ops)] @
          concat (map (\<lambda>i. [combine (d_add ops) (Reg b t 2) (Shar b i), combine (d_add ops) (Reg b t 3) (Shar b (D + i))]) [0..<D]) @
          [Assign (Reg b t 2) [Reg b t 2] (\<lambda>vs. Some (d_div ops (vs ! 0) (d_of_int ops cols))),
           Assign (Reg b t 3) [Reg b t 3, Reg b t 2] (\<lambda>vs. Some (d_sub ops (d_div ops (vs ! 0) (d_of_int ops cols)) (d_mul ops (vs ! 1) (vs ! 1)))),
           move (Shar b 0) (Reg b t 2), Assign (Shar b D) [Reg b t 3] (\<lambda>vs. Some (d_rsqrt ops (d_add ops (vs ! 0) eps)))] else [],
      \<lambda>b t. [move (Reg b t 2) (Shar b 0), move (Reg b t 3) (Shar b D)] @
        map (\<lambda>i. Assign (Glob (out + b * nat cols + i)) ([Glob (inp + b * nat cols + i), Reg b t 2, Reg b t 3] @ cell_of weight i @ cell_of bias i)
          (\<lambda>vs. Some (d_add ops (d_mul ops (d_mul ops (d_sub ops (vs ! 0) (vs ! 1)) (vs ! 2)) (value_of weight (d_one ops) (drop 3 vs)))
             (value_of bias (d_zero ops) (drop (3 + length (cell_of weight i)) vs))))) (cs t)]"

definition launch_layer_norm :: "'v dev_ops \<Rightarrow> nat \<Rightarrow> nat \<Rightarrow> nat option \<Rightarrow> nat option \<Rightarrow> int \<Rightarrow> int \<Rightarrow> 'v \<Rightarrow> 'v launch" where
  "launch_layer_norm ops out inp weight bias rows cols eps =
     with_columns 256 rows cols (2 * 256) (layer_norm_kernel ops out inp weight bias cols eps 256)"

text \<open>
  Softmax: 0 the maximum, 1 a shuffled value, 2 the sum, 3 an element's exponential or the last factor. The
  cells of \<open>shared_sum\<close> follow the \<open>blockDim.x / 32\<close> cells of \<open>shared_max\<close>; \<open>row_max\<close> and \<open>row_sum\<close> are the
  two block-wide reductions, which both kernels do in the same way.
\<close>

definition row_reduction :: "('v \<Rightarrow> 'v \<Rightarrow> 'v) \<Rightarrow> nat \<Rightarrow> nat \<Rightarrow> nat \<Rightarrow> 'v code" where
  "row_reduction op r base D = warp_reduce op r 1 @
     [warp_store r base, \<lambda>b. fold_shared op r base ((D + 31) div 32) (Shar b base) b]"

definition softmax_kernel :: "'v dev_ops \<Rightarrow> nat \<Rightarrow> nat \<Rightarrow> int \<Rightarrow> nat \<Rightarrow> (nat \<Rightarrow> nat list) \<Rightarrow> 'v code" where
  "softmax_kernel ops inp out cols D cs =
     [\<lambda>b t. collect (d_max ops) (d_minus_inf ops) 0 (inp + b * nat cols) b t (cs t)] @ row_reduction (d_max ops) 0 0 D @
     [\<lambda>b t. [move (Reg b t 0) (Shar b 0), set_reg b t 2 (d_zero ops)] @
        concat (map (\<lambda>i. [Assign (Reg b t 3) [Glob (inp + b * nat cols + i), Reg b t 0] (\<lambda>vs. Some (d_exp ops (d_sub ops (vs ! 0) (vs ! 1)))),
          move (Glob (out + b * nat cols + i)) (Reg b t 3), combine (d_add ops) (Reg b t 2) (Reg b t 3)]) (cs t))] @
     row_reduction (d_add ops) 2 (D div 32) D @
     [\<lambda>b t. [move (Reg b t 2) (Shar b (D div 32)),
          Assign (Reg b t 3) [Reg b t 2] (\<lambda>vs. Some (d_div ops (d_one ops) (d_add ops (vs ! 0) (d_tiny ops))))] @
        map (\<lambda>i. combine (d_mul ops) (Glob (out + b * nat cols + i)) (Reg b t 3)) (cs t)]"

definition log_softmax_kernel :: "'v dev_ops \<Rightarrow> nat \<Rightarrow> nat \<Rightarrow> int \<Rightarrow> nat \<Rightarrow> (nat \<Rightarrow> nat list) \<Rightarrow> 'v code" where
  "log_softmax_kernel ops inp out cols D cs =
     [\<lambda>b t. collect (d_max ops) (d_minus_inf ops) 0 (inp + b * nat cols) b t (cs t)] @ row_reduction (d_max ops) 0 0 D @
     [\<lambda>b t. [move (Reg b t 0) (Shar b 0), set_reg b t 2 (d_zero ops)] @
        map (\<lambda>i. Assign (Reg b t 2) [Reg b t 2, Glob (inp + b * nat cols + i), Reg b t 0]
          (\<lambda>vs. Some (d_add ops (vs ! 0) (d_exp ops (d_sub ops (vs ! 1) (vs ! 2)))))) (cs t)] @
     row_reduction (d_add ops) 2 (D div 32) D @
     [\<lambda>b t. [move (Reg b t 2) (Shar b (D div 32)),
          Assign (Reg b t 3) [Reg b t 2, Reg b t 0] (\<lambda>vs. Some (d_add ops (d_log ops (d_add ops (vs ! 0) (d_tiny ops))) (vs ! 1)))] @
        map (\<lambda>i. Assign (Glob (out + b * nat cols + i)) [Glob (inp + b * nat cols + i), Reg b t 3] (\<lambda>vs. Some (d_sub ops (vs ! 0) (vs ! 1)))) (cs t)]"

definition launch_softmax :: "'v dev_ops \<Rightarrow> nat \<Rightarrow> nat \<Rightarrow> int \<Rightarrow> int \<Rightarrow> 'v launch" where
  "launch_softmax ops inp out rows cols = with_columns 256 rows cols (256 div 32 + 1) (softmax_kernel ops inp out cols 256)"

definition launch_softmax_stable :: "'v dev_ops \<Rightarrow> nat \<Rightarrow> nat \<Rightarrow> int \<Rightarrow> int \<Rightarrow> 'v launch" where
  "launch_softmax_stable ops inp out rows cols = launch_softmax ops inp out rows cols"

definition launch_log_softmax :: "'v dev_ops \<Rightarrow> nat \<Rightarrow> nat \<Rightarrow> int \<Rightarrow> int \<Rightarrow> 'v launch" where
  "launch_log_softmax ops inp out rows cols = with_columns 256 rows cols (256 div 32 + 1) (log_softmax_kernel ops inp out cols 256)"

text \<open>The wrappers; the scale of \<open>softmax_stable\<close> is not used.\<close>

definition bridge_rms_norm :: "'v dev_ops \<Rightarrow> nat \<Rightarrow> nat \<Rightarrow> nat option \<Rightarrow> int \<Rightarrow> int \<Rightarrow> 'v \<Rightarrow> 'v launch" where
  "bridge_rms_norm ops out inp weight rows cols eps = launch_rms_norm ops out inp weight rows cols eps"

definition bridge_layer_norm :: "'v dev_ops \<Rightarrow> nat \<Rightarrow> nat \<Rightarrow> nat option \<Rightarrow> nat option \<Rightarrow> int \<Rightarrow> int \<Rightarrow> 'v \<Rightarrow> 'v launch" where
  "bridge_layer_norm ops out inp weight bias rows cols eps = launch_layer_norm ops out inp weight bias rows cols eps"

definition bridge_softmax :: "'v dev_ops \<Rightarrow> nat \<Rightarrow> nat \<Rightarrow> int \<Rightarrow> int \<Rightarrow> 'v launch" where
  "bridge_softmax ops out x rows cols = launch_softmax ops x out rows cols"

definition bridge_softmax_stable :: "'v dev_ops \<Rightarrow> nat \<Rightarrow> nat \<Rightarrow> int \<Rightarrow> int \<Rightarrow> 'v \<Rightarrow> 'v launch" where
  "bridge_softmax_stable ops out x rows cols scale = launch_softmax_stable ops x out rows cols"

section \<open>Softmax asks for too little shared memory\<close>

text \<open>The loop of a thread ends when the last index it computes fits.\<close>

lemma sint_word: "- (2 ^ 31) \<le> i \<Longrightarrow> i < 2 ^ 31 \<Longrightarrow> sint (word_of_int i :: 32 word) = i"
  by (simp add: signed_of_int signed_take_bit_int_eq_self)

lemma int_strided_ends:
  assumes "0 < D" and "n + D \<le> 2 ^ 31" and "0 \<le> i" and "i < 2 ^ 31"
  shows "\<exists>is. int_strided i n D = Some is \<and> sorted_wrt (<) is \<and> set is = {k. i \<le> k \<and> k < n \<and> D dvd (k - i)}"
  using assms(3,4)
proof (induction "nat (n - i)" arbitrary: i rule: less_induct)
  case less
  show ?case
  proof (cases "i < n")
    case False
    then show ?thesis by (auto simp: int_strided.simps [of i])
  next
    case True
    have "i + D < 2 ^ 31" using True assms(2) by simp
    then have next_i: "sint (word_of_int (i + D) :: 32 word) = i + D" using less.prems assms(1) by (intro sint_word) simp_all
    have "nat (n - (i + D)) < nat (n - i)" using True assms(1) by simp
    then obtain js where js: "int_strided (i + D) n D = Some js" "sorted_wrt (<) js" "set js = {k. i + D \<le> k \<and> k < n \<and> D dvd (k - (i + D))}"
      using less.hyps [of "i + D"] less.prems assms(1) \<open>i + D < 2 ^ 31\<close> by auto
    have "{k. i \<le> k \<and> k < n \<and> D dvd (k - i)} = insert i (set js)"
    proof (rule set_eqI)
      fix k
      have "D dvd (k - (i + D)) \<longleftrightarrow> D dvd (k - i)" using dvd_diff_commute [of D k "i + D"] by (metis diff_diff_eq dvd_diff_right_iff dvd_refl dvd_diff_commute)
      moreover have "D \<le> k - i" if "D dvd (k - i)" "i < k" using zdvd_imp_le [OF that(1)] that(2) by simp
      ultimately show "k \<in> {k. i \<le> k \<and> k < n \<and> D dvd (k - i)} \<longleftrightarrow> k \<in> insert i (set js)"
        using True assms(1) unfolding js(3) by (cases "k = i") auto
    qed
    moreover have "sorted_wrt (<) (i # js)" using assms(1) js(2) unfolding sorted_wrt.simps js(3) by auto
    ultimately show ?thesis using js(1,2) True next_i by (simp add: int_strided.simps [of i])
  qed
qed

definition columns_ok :: "nat \<Rightarrow> int \<Rightarrow> int \<Rightarrow> bool" where
  "columns_ok D rows cols \<longleftrightarrow> 0 \<le> rows \<and> 0 \<le> cols \<and> cols + int D \<le> 2 ^ 31 \<and> rows * cols \<le> 2 ^ 31"

text \<open>The columns of thread \<open>t\<close>, in the order in which it visits them.\<close>

definition thread_columns :: "nat \<Rightarrow> nat \<Rightarrow> nat \<Rightarrow> nat list" where
  "thread_columns D C t = filter (\<lambda>k. k mod D = t) [0..<C]"

definition split_columns :: "nat \<Rightarrow> nat \<Rightarrow> (nat \<Rightarrow> nat list) \<Rightarrow> bool" where
  "split_columns D C cs \<longleftrightarrow> (\<forall>t < D. cs t = thread_columns D C t)"

lemma thread_columns_set [simp]: "distinct (thread_columns D C t)" "set (thread_columns D C t) = {k. k < C \<and> k mod D = t}"
  by (auto simp: thread_columns_def)

lemma ascending_columns: "sorted_wrt (<) is \<Longrightarrow> set is = set (thread_columns D C t) \<Longrightarrow> is = thread_columns D C t"
proof -
  assume a: "sorted_wrt (<) is" and eq: "set is = set (thread_columns D C t)"
  have "sorted_wrt (<) (thread_columns D C t)" by (simp add: thread_columns_def sorted_wrt_filter)
  with a eq show ?thesis by (intro sorted_distinct_set_unique) (simp_all add: strict_sorted_iff)
qed

lemma with_columns_ok:
  assumes "columns_ok D rows cols"
  shows "\<exists>cs. with_columns D rows cols sh code = Some (launch_grid (nat rows) D (code cs), sh) \<and> split_columns D (nat cols) cs"
proof -
  have cols: "columns D cols t = Some (thread_columns D (nat cols) t)" if t: "t < D" for t
  proof -
    have "0 < int D" "cols + int D \<le> 2 ^ 31" "int t < 2 ^ 31" using assms t by (simp_all add: columns_ok_def)
    from int_strided_ends [OF this(1,2) _ this(3)] obtain js where
      js: "int_strided (int t) cols (int D) = Some js" "sorted_wrt (<) js" "set js = {k. int t \<le> k \<and> k < cols \<and> int D dvd (k - int t)}" by auto
    have dv: "int D dvd (int k - int t) \<longleftrightarrow> D dvd (k - t)" if "t \<le> k" for k
      using that by (metis of_nat_diff of_nat_dvd_iff)
    have "nat ` set js = {k. k < nat cols \<and> k mod D = t}"
    proof (rule set_eqI)
      fix k
      have pos: "0 \<le> j" if "j \<in> set js" for j using that unfolding js(3) by simp
      have "k \<in> nat ` set js \<longleftrightarrow> int k \<in> set js"
      proof
        assume "k \<in> nat ` set js"
        then obtain j where "j \<in> set js" "k = nat j" by blast
        with pos [of j] show "int k \<in> set js" by simp
      next
        assume "int k \<in> set js"
        then show "k \<in> nat ` set js" by (intro image_eqI [of _ _ "int k"]) simp
      qed
      also have "\<dots> \<longleftrightarrow> t \<le> k \<and> k < nat cols \<and> D dvd (k - t)" using dv [of k] unfolding js(3) by (auto simp: zless_nat_eq_int_zless)
      also have "\<dots> \<longleftrightarrow> k \<in> {k. k < nat cols \<and> k mod D = t}" using dvd_diff_mod [of t k D] t mod_less_eq_dividend [of k D] by auto
      finally show "k \<in> nat ` set js \<longleftrightarrow> k \<in> {k. k < nat cols \<and> k mod D = t}" .
    qed
    moreover have "sorted_wrt (<) (map nat js)"
      unfolding sorted_wrt_map by (rule sorted_wrt_mono_rel [OF _ js(2)]) (auto simp: js(3))
    ultimately have "map nat js = thread_columns D (nat cols) t" by (intro ascending_columns) simp_all
    then show ?thesis using js(1) by (simp add: columns_def)
  qed
  then show ?thesis using assms
    by (intro exI [of _ "\<lambda>t. the (columns D cols t)"]) (simp add: with_columns_def split_columns_def columns_ok_def list_all_iff)
qed

text \<open>A step that uses a cell of shared memory that is not there.\<close>

lemma launch_step_in:
  "f \<in> set code \<Longrightarrow> b < G \<Longrightarrow> t < D \<Longrightarrow> x \<in> set (f b t) \<Longrightarrow> x \<in> set (grid_steps (launch_grid G D code))"
  unfolding launch_steps by (simp, rule bexI [of _ b], rule bexI [of _ f], rule bexI [of _ t]) simp_all

lemma small_store_faults:
  assumes f: "warp_store r (D div 32) \<in> set (code cs)" and "0 < G" and "32 < D" and "sh \<le> D div 32 + 1"
  shows "faults (Some (launch_grid G D (code cs), sh)) m"
proof -
  have "r' = Inl Out_Of_Bounds" if "starts sh m s" "grid_run (launch_grid G D (code cs)) s r'" for s r'
  proof (rule missing_cell [OF _ _ that(2)])
    show "move (Shar 0 (D div 32 + 1)) (Reg 0 32 r) \<in> set (grid_steps (launch_grid G D (code cs)))"
      by (rule launch_step_in [OF f \<open>0 < G\<close> \<open>32 < D\<close>]) (simp add: warp_store_def)
    fix u u' assume "\<And>l. (u l = None) = (s l = None)" "kstep (move (Shar 0 (D div 32 + 1)) (Reg 0 32 r)) u = Inr u'"
    moreover have "s (Shar 0 (D div 32 + 1)) = None" using that(1) assms(4) by (simp add: starts_def)
    ultimately show False by (cases "u (Reg 0 32 r)") (auto simp: kstep_def move_def split: if_splits)
  qed
  then show ?thesis unfolding faults_def by blast
qed

text \<open>
  C34: the launches of softmax and of log-softmax give a block one cell of shared memory for the sums of the
  warps, which need eight: with at least one row, every run writes outside.
\<close>

theorem softmax_faults:
  assumes "0 < rows" and ok: "columns_ok 256 rows cols"
  shows "faults (launch_softmax ops inp out rows cols) m \<and> faults (launch_log_softmax ops inp out rows cols) m"
proof (intro conjI)
  from with_columns_ok [OF ok, of "256 div 32 + 1" "softmax_kernel ops inp out cols 256"] obtain cs where
    L: "launch_softmax ops inp out rows cols = Some (launch_grid (nat rows) 256 (softmax_kernel ops inp out cols 256 cs), 256 div 32 + 1)"
    unfolding launch_softmax_def by blast
  show "faults (launch_softmax ops inp out rows cols) m"
    unfolding L by (rule small_store_faults [of 2]) (use assms(1) in \<open>simp_all add: softmax_kernel_def row_reduction_def\<close>)
  from with_columns_ok [OF ok, of "256 div 32 + 1" "log_softmax_kernel ops inp out cols 256"] obtain cs where
    L: "launch_log_softmax ops inp out rows cols = Some (launch_grid (nat rows) 256 (log_softmax_kernel ops inp out cols 256 cs), 256 div 32 + 1)"
    unfolding launch_log_softmax_def by blast
  show "faults (launch_log_softmax ops inp out rows cols) m"
    unfolding L by (rule small_store_faults [of 2]) (use assms(1) in \<open>simp_all add: log_softmax_kernel_def row_reduction_def\<close>)
qed

lemma softmax_faults_witness: "faults (launch_softmax int_ops 0 4 2 2) (two_arrays 0 4 [1, 2, 3, 4] [])"
  using softmax_faults [of 2 2 int_ops 0 4 "two_arrays 0 4 [1, 2, 3, 4] []"] by (simp add: columns_ok_def)

end
