(* ===== verification/Cuda_Norm.thy ===== *)
theory Cuda_Norm
  imports Cuda_Rows
begin

text \<open>
  The normalisations of \<open>cuda/kernels/layernorm.cu\<close> row by row: what a block does to its row, that the
  blocks and the threads do not race, and the values the launches store.
\<close>

section \<open>A row written by the threads of a block\<close>

definition thread_cells :: "nat \<Rightarrow> nat set \<Rightarrow> loc set" where
  "thread_cells b W = {l. case l of Glob p \<Rightarrow> p \<in> W | Shar b' i \<Rightarrow> False | Reg b' t r \<Rightarrow> b' = b}"

lemma thread_cells_iff [simp]:
  "Glob p \<in> thread_cells b W \<longleftrightarrow> p \<in> W" "Shar b' i \<notin> thread_cells b W" "Reg b' t r \<in> thread_cells b W \<longleftrightarrow> b' = b"
  by (simp_all add: thread_cells_def)

lemma in_row: "out + b * C + i \<in> row_cells out C b \<longleftrightarrow> i < C" "i < C \<Longrightarrow> out + (b * C + i) \<in> row_cells out C b"
  by (auto simp: row_cells_def)

lemma row_phase:
  assumes D: "0 < D" and cs: "split_columns D C cs"
    and thr: "\<And>t u. t < D \<Longrightarrow> keeps (thread_cells b (row_cells out C b)) s u \<Longrightarrow> (\<And>l. (u l = None) = (s l = None)) \<Longrightarrow>
      (\<And>i. i \<in> set (cs t) \<Longrightarrow> u (Glob (out + b * C + i)) = s (Glob (out + b * C + i))) \<Longrightarrow>
      \<exists>u'. run_steps (c t) u = Inr u' \<and> (\<forall>i \<in> set (cs t). u' (Glob (out + b * C + i)) = Some (v i)) \<and>
        keeps (range (Reg b t) \<union> (\<lambda>i. Glob (out + b * C + i)) ` set (cs t)) u u'"
  shows "\<exists>s'. run_steps (concat (map c [0..<D])) s = Inr s' \<and> (\<forall>i < C. s' (Glob (out + b * C + i)) = Some (v i)) \<and>
    keeps (thread_cells b (row_cells out C b)) s s'"
proof -
  let ?K = "thread_cells b (row_cells out C b)"
  let ?P = "\<lambda>k u. (\<forall>i < C. i mod D < k \<longrightarrow> u (Glob (out + b * C + i)) = Some (v i)) \<and>
    (\<forall>i < C. k \<le> i mod D \<longrightarrow> u (Glob (out + b * C + i)) = s (Glob (out + b * C + i))) \<and> keeps ?K s u \<and>
    (\<forall>l. (u l = None) = (s l = None))"
  have "\<exists>u. run_steps (concat (map c [0..<D])) s = Inr u \<and> ?P D u"
  proof (rule run_threads [where P = ?P])
    fix t u assume t: "t < D" and P: "?P t u"
    have set: "set (cs t) = {k. k < C \<and> k mod D = t}" using cs t by (simp add: split_columns_def)
    have "keeps ?K s u" "\<And>l. (u l = None) = (s l = None)" using P by blast+
    moreover have "u (Glob (out + b * C + i)) = s (Glob (out + b * C + i))" if "i \<in> set (cs t)" for i using P that unfolding set by simp
    ultimately obtain u' where u': "run_steps (c t) u = Inr u'" "\<forall>i \<in> set (cs t). u' (Glob (out + b * C + i)) = Some (v i)"
      "keeps (range (Reg b t) \<union> (\<lambda>i. Glob (out + b * C + i)) ` set (cs t)) u u'" using thr [OF t, of u] by blast
    have other: "u' (Glob (out + b * C + i)) = u (Glob (out + b * C + i))" if "i \<notin> set (cs t)" for i
    proof -
      have "Glob (out + b * C + i) \<notin> range (Reg b t) \<union> (\<lambda>i. Glob (out + b * C + i)) ` set (cs t)" using that by auto
      then show ?thesis by (rule keepsD [OF u'(3)])
    qed
    have "\<forall>i < C. i mod D < Suc t \<longrightarrow> u' (Glob (out + b * C + i)) = Some (v i)"
    proof (intro allI impI)
      fix i assume "i < C" "i mod D < Suc t"
      then show "u' (Glob (out + b * C + i)) = Some (v i)" using u'(2) other [of i] P unfolding set by (cases "i mod D = t") simp_all
    qed
    moreover have "\<forall>i < C. Suc t \<le> i mod D \<longrightarrow> u' (Glob (out + b * C + i)) = s (Glob (out + b * C + i))"
      using other P unfolding set by simp
    moreover have "range (Reg b t) \<union> (\<lambda>i. Glob (out + b * C + i)) ` set (cs t) \<subseteq> ?K" unfolding set by (auto simp: in_row)
    then have "keeps ?K s u'" using keeps_trans [of ?K s u u'] keeps_mono [OF u'(3)] P by blast
    moreover have "\<forall>l. (u' l = None) = (s l = None)" using run_steps_dom [OF u'(1)] P by simp
    ultimately show "\<exists>u'. run_steps (c t) u = Inr u' \<and> ?P (Suc t) u'" using u'(1) by blast
  qed (simp add: keeps_def)
  then show ?thesis using D by simp blast
qed

text \<open>What one thread does: it reads shared values into its variables and stores its elements.\<close>

lemma row_thread:
  assumes loads: "run_steps ls u = Inr u1" "keeps (range (Reg b t)) u u1" and dist: "distinct is"
    and apart: "\<And>i j. i \<in> set is \<Longrightarrow> j \<in> set is \<Longrightarrow> i \<noteq> j \<Longrightarrow> Glob (p + i) \<notin> set (srcs j)"
    and vals: "\<And>i. i \<in> set is \<Longrightarrow> (\<forall>l \<in> set (srcs i). u1 l \<noteq> None) \<and> f i (map (\<lambda>l. the (u1 l)) (srcs i)) = Some (v i)"
    and room: "\<And>i. i \<in> set is \<Longrightarrow> u (Glob (p + i)) \<noteq> None"
  shows "\<exists>u'. run_steps (ls @ map (\<lambda>i. Assign (Glob (p + i)) (srcs i) (f i)) is) u = Inr u' \<and> (\<forall>i \<in> set is. u' (Glob (p + i)) = Some (v i)) \<and>
    keeps (range (Reg b t) \<union> (\<lambda>i. Glob (p + i)) ` set is) u u'"
proof -
  have g: "u1 (Glob q) = u (Glob q)" for q by (rule keepsD [OF loads(2)]) auto
  have "\<exists>u'. run_steps (map (\<lambda>i. Assign (Glob (p + i)) (srcs i) (f i)) is) u1 = Inr u' \<and>
    (\<forall>i \<in> set is. u' (Glob (p + i)) = result_at (u1 (Glob (p + i))) (f i (map (\<lambda>l. the (u1 l)) (srcs i)))) \<and>
    (\<forall>l. l \<notin> (\<lambda>i. Glob (p + i)) ` set is \<longrightarrow> u' l = u1 l)"
  proof (rule run_parallel [OF dist])
    show "inj_on (\<lambda>i. Glob (p + i)) (set is)" by (simp add: inj_on_def)
    show "u1 (Glob (p + i)) \<noteq> None" if "i \<in> set is" for i using room [OF that] g by simp
  qed (use apart vals in blast)+
  then obtain u' where u': "run_steps (map (\<lambda>i. Assign (Glob (p + i)) (srcs i) (f i)) is) u1 = Inr u'"
    "\<forall>i \<in> set is. u' (Glob (p + i)) = result_at (u1 (Glob (p + i))) (f i (map (\<lambda>l. the (u1 l)) (srcs i)))"
    "\<forall>l. l \<notin> (\<lambda>i. Glob (p + i)) ` set is \<longrightarrow> u' l = u1 l" by blast
  have "keeps (range (Reg b t) \<union> (\<lambda>i. Glob (p + i)) ` set is) u u'"
    using u'(3) loads(2) unfolding keeps_def by simp
  with u'(1,2) vals loads(1) show ?thesis by (intro exI [of _ u']) simp
qed

lemma run_fold:
  assumes "s d = Some v" and "\<And>i. i \<in> set is \<Longrightarrow> s (src i) = Some (h i)" and "\<And>i. src i \<noteq> d"
  shows "run_steps (map (\<lambda>i. combine op d (src i)) is) s = Inr (s(d \<mapsto> foldl op v (map h is)))"
  using assms(1,2)
proof (induction "is" arbitrary: s v)
  case (Cons i "is")
  have "run_steps (map (\<lambda>i. combine op d (src i)) is) (s(d \<mapsto> op v (h i))) = Inr (s(d \<mapsto> op v (h i), d \<mapsto> foldl op (op v (h i)) (map h is)))"
    by (rule Cons.IH) (use Cons.prems assms(3) in auto)
  then have "run_steps (map (\<lambda>i. combine op d (src i)) is) (s(d \<mapsto> op v (h i))) = Inr (s(d \<mapsto> foldl op (op v (h i)) (map h is)))"
    by (simp only: fun_upd_upd)
  with Cons.prems show ?case by (simp del: fun_upd_apply)
qed (auto simp: fun_upd_idem)

section \<open>Optional arrays and rows\<close>

definition weight_at :: "nat option \<Rightarrow> 'v \<Rightarrow> 'v list \<Rightarrow> nat \<Rightarrow> 'v" where
  "weight_at p dflt ws i = (case p of None \<Rightarrow> dflt | Some _ \<Rightarrow> ws ! i)"

definition array_ok :: "'v gmem \<Rightarrow> nat \<Rightarrow> nat \<Rightarrow> nat \<Rightarrow> nat option \<Rightarrow> 'v list \<Rightarrow> bool" where
  "array_ok m out n C p ws \<longleftrightarrow> (case p of None \<Rightarrow> True | Some a \<Rightarrow> holds m a ws \<and> length ws = C \<and> (a + C \<le> out \<or> out + n \<le> a))"

definition array_cells :: "nat option \<Rightarrow> nat \<Rightarrow> nat set" where
  "array_cells p C = (case p of None \<Rightarrow> {} | Some a \<Rightarrow> {a..<a + C})"

lemma cell_of_cells: "l \<in> set (cell_of p i) \<Longrightarrow> i < C \<Longrightarrow> l \<in> Glob ` array_cells p C"
  by (auto simp: cell_of_def array_cells_def split: option.splits)

lemma cell_of_value:
  assumes "\<And>q. q \<in> array_cells p C \<Longrightarrow> u (Glob q) = m q" and "array_ok m out n C p ws" and "i < C"
  shows "map (\<lambda>l. the (u l)) (cell_of p i) = (case p of None \<Rightarrow> [] | Some _ \<Rightarrow> [ws ! i])" and "\<forall>l \<in> set (cell_of p i). u l \<noteq> None"
  using assms by (auto simp: cell_of_def array_cells_def array_ok_def holds_def split: option.splits)

lemma array_apart: "array_ok m out (G * C) C p ws \<Longrightarrow> b < G \<Longrightarrow> row_cells out C b \<inter> array_cells p C = {}"
  using row_cells_sub [of b G out C] by (fastforce simp: array_ok_def array_cells_def split: option.splits)

lemma rows_apart:
  assumes "apart_or_same out inp (G * C)" and "b < G" "b' < G" "b \<noteq> b'"
  shows "row_cells out C b \<inter> row_cells inp C b' = {}"
  using assms row_cells_sub [of b G out C] row_cells_sub [of b' G inp C] row_cells_apart [of b b' out C]
  unfolding apart_or_same_def by fastforce

lemma row_elements_apart:
  assumes "apart_or_same out inp (G * C)" and "b < G" and "i < C" "j < C" and "i \<noteq> j"
  shows "out + b * C + i \<noteq> inp + b * C + j"
proof -
  have "Suc b * C \<le> G * C" using assms(2) by (intro mult_le_mono1) simp
  then have "b * C + C \<le> G * C" by simp
  with assms show ?thesis unfolding apart_or_same_def by linarith
qed

section \<open>The last interval of a normalisation\<close>

definition opt_value :: "nat option \<Rightarrow> 'v list \<Rightarrow> nat \<Rightarrow> 'v list" where
  "opt_value p ws i = (case p of None \<Rightarrow> [] | Some _ \<Rightarrow> [ws ! i])"

text \<open>What a block finds when it starts: its row, room for the result, the optional arrays.\<close>

definition row_ready :: "'v kstate \<Rightarrow> nat \<Rightarrow> nat \<Rightarrow> nat \<Rightarrow> nat \<Rightarrow> 'v list \<Rightarrow> (nat option \<times> 'v list) list \<Rightarrow> bool" where
  "row_ready s b C out inp ys ps \<longleftrightarrow> (\<forall>i < C. s (Glob (inp + b * C + i)) = Some (ys ! i)) \<and> (\<forall>i < C. s (Glob (out + b * C + i)) \<noteq> None) \<and>
     (\<forall>(p, ws) \<in> set ps. array_ok (glob s) (out + b * C) C C p ws) \<and>
     (\<forall>i < C. \<forall>j < C. i \<noteq> j \<longrightarrow> out + b * C + i \<noteq> inp + b * C + j) \<and> (inp = out \<or> row_cells out C b \<inter> row_cells inp C b = {})"

lemma row_ready_array: "row_ready s b C out inp ys ps \<Longrightarrow> (p, ws) \<in> set ps \<Longrightarrow> array_ok (glob s) (out + b * C) C C p ws"
  by (auto simp: row_ready_def)

lemma array_ok_cells:
  assumes "array_ok m (out + b * C) C C p ws"
  shows "row_cells out C b \<inter> array_cells p C = {}"
  using assms by (fastforce simp: array_ok_def array_cells_def row_cells_def split: option.splits)

lemma cell_not_in_row: "array_ok m (out + b * C) C C p ws \<Longrightarrow> i < C \<Longrightarrow> j < C \<Longrightarrow> Glob (out + b * C + i) \<notin> set (cell_of p j)"
proof
  assume a: "array_ok m (out + b * C) C C p ws" "i < C" "j < C" "Glob (out + b * C + i) \<in> set (cell_of p j)"
  then have "Glob (out + b * C + i) \<in> Glob ` array_cells p C" by (intro cell_of_cells)
  then have "out + b * C + i \<in> array_cells p C" by auto
  moreover have "out + b * C + i \<in> row_cells out C b" using a(2) by (simp add: in_row)
  ultimately show False using array_ok_cells [OF a(1)] by blast
qed

lemma cell_opt_value:
  assumes "array_ok (glob s) (out + b * C) C C p ws" and "keeps (thread_cells b (row_cells out C b)) s u" and "i < C"
  shows "map (\<lambda>l. the (u l)) (cell_of p i) = opt_value p ws i" and "\<forall>l \<in> set (cell_of p i). u l \<noteq> None"
proof -
  have "u (Glob q) = glob s q" if "q \<in> array_cells p C" for q
  proof -
    have "Glob q \<notin> thread_cells b (row_cells out C b)" using array_ok_cells [OF assms(1)] that by auto
    then show ?thesis using keepsD [OF assms(2)] by (simp add: glob_def)
  qed
  from cell_of_value [OF this assms(1,3)] show "map (\<lambda>l. the (u l)) (cell_of p i) = opt_value p ws i" "\<forall>l \<in> set (cell_of p i). u l \<noteq> None"
    by (simp_all add: opt_value_def)
qed

lemma row_output:
  assumes D: "0 < D" and cs: "split_columns D C cs" and ready: "row_ready s b C out inp ys [(weight, ws), (bias, bs)]"
    and loads: "\<And>t u. t < D \<Longrightarrow> (\<And>l. (u l = None) = (s l = None)) \<Longrightarrow> (\<And>i. u (Shar b i) = s (Shar b i)) \<Longrightarrow>
      \<exists>u1. run_steps (ls t) u = Inr u1 \<and> keeps (range (Reg b t)) u u1 \<and> map (\<lambda>r. u1 (Reg b t r)) rs = map Some rv"
    and f: "\<And>i. i < C \<Longrightarrow> f i (ys ! i # rv @ opt_value weight ws i @ opt_value bias bs i) = Some (v i)"
  shows "\<exists>s'. run_steps (concat (map (\<lambda>t. ls t @ map (\<lambda>i. Assign (Glob (out + b * C + i))
      (Glob (inp + b * C + i) # map (Reg b t) rs @ cell_of weight i @ cell_of bias i) (f i)) (cs t)) [0..<D])) s = Inr s' \<and>
    (\<forall>i < C. s' (Glob (out + b * C + i)) = Some (v i)) \<and> keeps (thread_cells b (row_cells out C b)) s s'"
proof (rule row_phase [OF D cs])
  note array = row_ready_array [OF ready, of weight ws, simplified] row_ready_array [OF ready, of bias bs, simplified]
  fix t u assume t: "t < D" and keep: "keeps (thread_cells b (row_cells out C b)) s u"
    and dom: "\<And>l. (u l = None) = (s l = None)" and mine: "\<And>i. i \<in> set (cs t) \<Longrightarrow> u (Glob (out + b * C + i)) = s (Glob (out + b * C + i))"
  have set: "set (cs t) = {k. k < C \<and> k mod D = t}" and dist: "distinct (cs t)" using cs t by (simp_all add: split_columns_def)
  have "u (Shar b i) = s (Shar b i)" for i using keepsD [OF keep, of "Shar b i"] by simp
  from loads [OF t dom this] obtain u1 where u1: "run_steps (ls t) u = Inr u1" "keeps (range (Reg b t)) u u1" "map (\<lambda>r. u1 (Reg b t r)) rs = map Some rv" by blast
  have "keeps (thread_cells b (row_cells out C b)) u u1" using u1(2) by (rule keeps_mono) (auto simp: thread_cells_def)
  then have keep1: "keeps (thread_cells b (row_cells out C b)) s u1" by (rule keeps_trans [OF keep])
  have glob1: "u1 (Glob q) = u (Glob q)" for q by (rule keepsD [OF u1(2)]) auto
  have regs1: "map (\<lambda>l. the (u1 l)) (map (Reg b t) rs) = rv" "\<forall>r \<in> set rs. u1 (Reg b t r) \<noteq> None"
  proof -
    have "map (the \<circ> Some) rv = rv" by simp
    moreover have "map the (map (\<lambda>r. u1 (Reg b t r)) rs) = map the (map Some rv)" by (simp only: u1(3))
    ultimately show "map (\<lambda>l. the (u1 l)) (map (Reg b t) rs) = rv" by (simp add: comp_def)
    have "u1 (Reg b t r) \<in> set (map Some rv)" if "r \<in> set rs" for r using that unfolding u1(3) [symmetric] by simp
    then show "\<forall>r \<in> set rs. u1 (Reg b t r) \<noteq> None" by auto
  qed
  show "\<exists>u'. run_steps (ls t @ map (\<lambda>i. Assign (Glob (out + b * C + i)) (Glob (inp + b * C + i) # map (Reg b t) rs @ cell_of weight i @ cell_of bias i) (f i)) (cs t)) u = Inr u' \<and>
    (\<forall>i \<in> set (cs t). u' (Glob (out + b * C + i)) = Some (v i)) \<and> keeps (range (Reg b t) \<union> (\<lambda>i. Glob (out + b * C + i)) ` set (cs t)) u u'"
  proof (rule row_thread [OF u1(1,2) dist])
    fix i assume i: "i \<in> set (cs t)"
    then have iC: "i < C" unfolding set by simp
    show "u (Glob (out + b * C + i)) \<noteq> None" using mine [OF i] ready iC by (simp add: row_ready_def)
    show "Glob (out + b * C + i) \<notin> set (Glob (inp + b * C + j) # map (Reg b t) rs @ cell_of weight j @ cell_of bias j)"
      if j: "j \<in> set (cs t)" "i \<noteq> j" for j
    proof -
      have "j < C" using j(1) unfolding set by simp
      moreover have "out + b * C + i \<noteq> inp + b * C + j" using ready iC \<open>j < C\<close> j(2) unfolding row_ready_def by blast
      ultimately show ?thesis using cell_not_in_row [OF array(1) iC] cell_not_in_row [OF array(2) iC] by auto
    qed
    have "u (Glob (inp + b * C + i)) = Some (ys ! i)"
    proof (cases "inp = out")
      case True
      then show ?thesis using mine [OF i] ready iC by (simp add: row_ready_def)
    next
      case False
      then have "inp + b * C + i \<notin> row_cells out C b" using ready iC in_row(1) [of inp b C i] unfolding row_ready_def by blast
      then have "Glob (inp + b * C + i) \<notin> thread_cells b (row_cells out C b)" by simp
      then show ?thesis using keepsD [OF keep] ready iC by (simp add: row_ready_def)
    qed
    then have "u1 (Glob (inp + b * C + i)) = Some (ys ! i)" by (simp add: glob1)
    then show "(\<forall>l \<in> set (Glob (inp + b * C + i) # map (Reg b t) rs @ cell_of weight i @ cell_of bias i). u1 l \<noteq> None) \<and>
      f i (map (\<lambda>l. the (u1 l)) (Glob (inp + b * C + i) # map (Reg b t) rs @ cell_of weight i @ cell_of bias i)) = Some (v i)"
      using cell_opt_value [OF array(1) keep1 iC] cell_opt_value [OF array(2) keep1 iC] regs1 f [OF iC]
      unfolding list.map map_append by auto
  qed
qed

section \<open>RMS normalisation\<close>

definition rms_partial :: "'v dev_ops \<Rightarrow> nat \<Rightarrow> 'v list \<Rightarrow> (nat \<Rightarrow> nat list) \<Rightarrow> 'v" where
  "rms_partial ops W ys cs = foldl (d_add ops) (d_zero ops)
     (map (\<lambda>w. fold (warp_step (d_add ops)) (halves 16) (\<lambda>t. collected (add_square ops) (d_zero ops) ys (cs t)) (32 * w)) [0..<W])"

lemma rms_block:
  assumes D: "D = 32 * W" "0 < W" and cs: "split_columns D C cs" and C: "C = nat cols"
    and reg: "\<And>t r. s (Reg b t r) \<noteq> None" and shar: "\<And>w. w < W \<Longrightarrow> s (Shar b w) \<noteq> None"
    and ready: "row_ready s b C out inp ys [(weight, ws), (None, [])]"
  shows "\<exists>s'. run_code (rms_norm_kernel ops out inp weight cols eps D cs) D b s = Inr s' \<and>
    (\<forall>i < C. s' (Glob (out + b * C + i)) = Some (d_mul ops (d_mul ops (ys ! i) (rms_factor ops cols eps (rms_partial ops W ys cs)))
      (weight_at weight (d_one ops) ws i))) \<and> keeps (own b (row_cells out C b)) s s'"
proof -
  have D0: "0 < D" using D by simp
  let ?g = "\<lambda>t. collected (add_square ops) (d_zero ops) ys (cs t)"
  let ?f1 = "\<lambda>b t. collect (add_square ops) (d_zero ops) 0 (inp + b * C) b t (cs t)"
  have "\<exists>s1. run_steps (concat (map (?f1 b) [0..<D])) s = Inr s1 \<and>
      (\<forall>t < D. s1 (Reg b t 0) = Some (?g t)) \<and> (\<forall>l. l \<notin> (\<lambda>t. Reg b t 0) ` {..<D} \<longrightarrow> s1 l = s l)"
    by (rule collect_phase [where idx = "\<lambda>_. cs"]) (use reg ready cs in \<open>auto simp: row_ready_def split_columns_def\<close>)
  then obtain s1 where s1: "run_steps (concat (map (?f1 b) [0..<D])) s = Inr s1"
    "\<And>t. t < D \<Longrightarrow> s1 (Reg b t 0) = Some (?g t)" "\<And>l. l \<notin> (\<lambda>t. Reg b t 0) ` {..<D} \<Longrightarrow> s1 l = s l" by blast
  have present: "s1 (Reg b t 1) \<noteq> None" "w < W \<Longrightarrow> s1 (Shar b (0 + w)) \<noteq> None" for t w
    using s1(3) [of "Reg b t 1"] s1(3) [of "Shar b w"] reg shar [of w] by auto
  let ?h = "\<lambda>w. fold (warp_step (d_add ops)) (halves 16) ?g (32 * w)"
  have "1 \<noteq> (0 :: nat)" by simp
  from warp_totals_phase [OF D(1) this s1(2) present, of "d_add ops"] obtain s2 where
    s2: "run_code (warp_totals (d_add ops) 0 1 0) D b s1 = Inr s2" "\<And>w. w < W \<Longrightarrow> s2 (Shar b (0 + w)) = Some (?h w)"
      "keeps (shared_cells b \<union> regs b 0 \<union> regs b 1) s1 s2" by blast
  let ?r = "rms_factor ops cols eps (rms_partial ops W ys cs)"
  let ?f3 = "\<lambda>b t. if t = 0 then set_reg b t 2 (d_zero ops) # map (\<lambda>i. combine (d_add ops) (Reg b t 2) (Shar b i)) [0..<(D + 31) div 32] @
          [Assign (Reg b t 2) [Reg b t 2] (\<lambda>vs. Some (rms_factor ops cols eps (vs ! 0))), move (Shar b 0) (Reg b t 2)] else []"
  let ?s3 = "s2(Reg b 0 2 \<mapsto> ?r, Shar b 0 \<mapsto> ?r)"
  have k2: "s2 (Reg b t 2) = s (Reg b t 2)" "s2 (Glob q) = s (Glob q)" for t q
    using keepsD [OF s2(3), of "Reg b t 2"] keepsD [OF s2(3), of "Glob q"] s1(3) [of "Reg b t 2"] s1(3) [of "Glob q"] by auto
  have W: "(D + 31) div 32 = W" using D(1) by simp
  have "run_steps (map (\<lambda>i. combine (d_add ops) (Reg b 0 2) (Shar b i)) [0..<W]) (s2(Reg b 0 2 \<mapsto> d_zero ops)) =
      Inr (s2(Reg b 0 2 \<mapsto> d_zero ops, Reg b 0 2 \<mapsto> foldl (d_add ops) (d_zero ops) (map ?h [0..<W])))"
    by (rule run_fold) (use s2(2) in auto)
  then have fold: "run_steps (map (\<lambda>i. combine (d_add ops) (Reg b 0 2) (Shar b i)) [0..<W]) (s2(Reg b 0 2 \<mapsto> d_zero ops)) =
      Inr (s2(Reg b 0 2 \<mapsto> rms_partial ops W ys cs))" by (simp only: fun_upd_upd rms_partial_def)
  have "run_steps (?f3 b 0) s2 = Inr ?s3"
    using k2(1) [of 0] reg fold s2(2) [of 0] D(2) unfolding W by (simp add: kstep_def [of "Assign _ _ _"] fun_upd_twist)
  moreover have "concat (map (?f3 b) [1..<D]) = []" by simp
  ultimately have s3: "run_steps (concat (map (?f3 b) [0..<D])) s2 = Inr ?s3" unfolding run_split_first [OF D0] by (simp only: rbind.simps run_steps_simps)
  let ?fn = "\<lambda>i :: nat. \<lambda>vs. Some (d_mul ops (d_mul ops (vs ! 0) (vs ! 1)) (value_of weight (d_one ops) (drop 2 vs)))"
  let ?f4 = "\<lambda>b t. [move (Reg b t 2) (Shar b 0)] @ map (\<lambda>i. Assign (Glob (out + b * C + i))
      (Glob (inp + b * C + i) # map (Reg b t) [2] @ cell_of weight i @ cell_of None i) (?fn i)) (cs t)"
  let ?v = "\<lambda>i. d_mul ops (d_mul ops (ys ! i) ?r) (weight_at weight (d_one ops) ws i)"
  have "\<exists>s4. run_steps (concat (map (?f4 b) [0..<D])) ?s3 = Inr s4 \<and> (\<forall>i < C. s4 (Glob (out + b * C + i)) = Some (?v i)) \<and>
    keeps (thread_cells b (row_cells out C b)) ?s3 s4"
  proof (rule row_output [OF D0 cs])
    show "row_ready ?s3 b C out inp ys [(weight, ws), (None, [])]" using ready k2(2) by (simp add: row_ready_def glob_def)
    show "\<exists>u1. run_steps [move (Reg b t 2) (Shar b 0)] u = Inr u1 \<and> keeps (range (Reg b t)) u u1 \<and> map (\<lambda>r. u1 (Reg b t r)) [2] = map Some [?r]"
      if "\<And>l. (u l = None) = (?s3 l = None)" "\<And>i. u (Shar b i) = ?s3 (Shar b i)" for t u
      using that(1) [of "Reg b t 2"] that(2) [of 0] k2(1) reg by (intro exI [of _ "u(Reg b t 2 \<mapsto> ?r)"]) (simp add: keeps_def)
  qed (simp add: opt_value_def value_of_def weight_at_def split: option.splits)
  then obtain s4 where s4: "run_steps (concat (map (?f4 b) [0..<D])) ?s3 = Inr s4" "\<forall>i < C. s4 (Glob (out + b * C + i)) = Some (?v i)"
    "keeps (thread_cells b (row_cells out C b)) ?s3 s4" by blast
  have "keeps (own b (row_cells out C b)) s s4"
    unfolding keeps_def
  proof (intro allI impI)
    fix l assume l: "l \<notin> own b (row_cells out C b)"
    then have "l \<notin> thread_cells b (row_cells out C b)" "l \<noteq> Reg b 0 2" "l \<noteq> Shar b 0" "l \<notin> shared_cells b \<union> regs b 0 \<union> regs b 1" "l \<notin> (\<lambda>t. Reg b t 0) ` {..<D}"
      by (auto simp: own_def thread_cells_def shared_cells_def regs_def split: loc.splits)
    then show "s4 l = s l" using keepsD [OF s4(3), of l] keepsD [OF s2(3), of l] s1(3) [of l] by simp
  qed
  moreover have "rms_norm_kernel ops out inp weight cols eps D cs = [?f1] @ warp_totals (d_add ops) 0 1 0 @ [?f3, ?f4]"
    by (simp add: rms_norm_kernel_def warp_totals_def C cell_of_def [of None])
  ultimately show ?thesis using s1(1) s2(1) s3 s4(1,2) by (intro exI [of _ s4]) (simp only: run_code_simps rbind.simps run_steps_simps)
qed

section \<open>Layer normalisation\<close>

text \<open>Two sums collected in one loop.\<close>

lemma run_fold2:
  assumes "s d = Some v" "s e = Some w" "d \<noteq> e" and "\<And>i. i \<in> set is \<Longrightarrow> s (src i) = Some (h i) \<and> s (src' i) = Some (h' i)"
    and "\<And>i. src i \<notin> {d, e} \<and> src' i \<notin> {d, e}"
  shows "run_steps (concat (map (\<lambda>i. [combine op d (src i), combine op' e (src' i)]) is)) s =
    Inr (s(d \<mapsto> foldl op v (map h is), e \<mapsto> foldl op' w (map h' is)))"
  using assms(1,2,4)
proof (induction "is" arbitrary: s v w)
  case (Cons i "is")
  let ?s = "s(d \<mapsto> op v (h i), e \<mapsto> op' w (h' i))"
  have "run_steps (concat (map (\<lambda>i. [combine op d (src i), combine op' e (src' i)]) is)) ?s =
      Inr (?s(d \<mapsto> foldl op (op v (h i)) (map h is), e \<mapsto> foldl op' (op' w (h' i)) (map h' is)))"
    by (rule Cons.IH) (use Cons.prems assms(3,5) in auto)
  moreover have "?s(d \<mapsto> x, e \<mapsto> y) = s(d \<mapsto> x, e \<mapsto> y)" for x y using assms(3) by (auto simp: fun_eq_iff)
  moreover have "kstep (combine op d (src i)) s = Inr (s(d \<mapsto> op v (h i)))" using Cons.prems by simp
  moreover have "kstep (combine op' e (src' i)) (s(d \<mapsto> op v (h i))) = Inr ?s" using Cons.prems assms(3) assms(5) [of i] by simp
  ultimately show ?case by (simp del: fun_upd_apply)
qed (auto simp: fun_upd_idem)

definition layer_mean :: "'v dev_ops \<Rightarrow> int \<Rightarrow> 'v \<Rightarrow> 'v" where
  "layer_mean ops cols q = d_div ops q (d_of_int ops cols)"

definition layer_scale :: "'v dev_ops \<Rightarrow> int \<Rightarrow> 'v \<Rightarrow> 'v \<Rightarrow> 'v \<Rightarrow> 'v" where
  "layer_scale ops cols eps mean q = d_rsqrt ops (d_add ops (d_sub ops (d_div ops q (d_of_int ops cols)) (d_mul ops mean mean)) eps)"

definition layer_total :: "'v dev_ops \<Rightarrow> nat \<Rightarrow> ('v \<Rightarrow> 'v \<Rightarrow> 'v) \<Rightarrow> 'v list \<Rightarrow> (nat \<Rightarrow> nat list) \<Rightarrow> 'v" where
  "layer_total ops D op ys cs = foldl (d_add ops) (d_zero ops) (map (\<lambda>t. collected op (d_zero ops) ys (cs t)) [0..<D])"

lemma layer_collect:
  assumes cs: "split_columns D C cs" and reg: "\<And>t r. s (Reg b t r) \<noteq> None" and shar: "\<And>i. i < 2 * D \<Longrightarrow> s (Shar b i) \<noteq> None"
    and ready: "row_ready s b C out inp ys ps"
  shows "\<exists>s'. run_steps (concat (map (\<lambda>t. [set_reg b t 0 (d_zero ops), set_reg b t 1 (d_zero ops)] @
        concat (map (\<lambda>i. [combine (d_add ops) (Reg b t 0) (Glob (inp + b * C + i)), combine (add_square ops) (Reg b t 1) (Glob (inp + b * C + i))]) (cs t)) @
        [move (Shar b t) (Reg b t 0), move (Shar b (D + t)) (Reg b t 1)]) [0..<D])) s = Inr s' \<and>
    (\<forall>t < D. s' (Shar b t) = Some (collected (d_add ops) (d_zero ops) ys (cs t)) \<and> s' (Shar b (D + t)) = Some (collected (add_square ops) (d_zero ops) ys (cs t))) \<and>
    keeps (own b {}) s s'"
proof -
  let ?g = "\<lambda>t. collected (d_add ops) (d_zero ops) ys (cs t)" and ?q = "\<lambda>t. collected (add_square ops) (d_zero ops) ys (cs t)"
  let ?c = "\<lambda>t. [set_reg b t 0 (d_zero ops), set_reg b t 1 (d_zero ops)] @
        concat (map (\<lambda>i. [combine (d_add ops) (Reg b t 0) (Glob (inp + b * C + i)), combine (add_square ops) (Reg b t 1) (Glob (inp + b * C + i))]) (cs t)) @
        [move (Shar b t) (Reg b t 0), move (Shar b (D + t)) (Reg b t 1)]"
  let ?P = "\<lambda>k u. (\<forall>t < k. u (Shar b t) = Some (?g t) \<and> u (Shar b (D + t)) = Some (?q t)) \<and> (\<forall>l. (u l = None) = (s l = None)) \<and> keeps (own b {}) s u"
  have "\<exists>u. run_steps (concat (map ?c [0..<D])) s = Inr u \<and> ?P D u"
  proof (rule run_threads [where P = ?P])
    fix t u assume t: "t < D" and P: "?P t u"
    have set: "set (cs t) = {k. k < C \<and> k mod D = t}" using cs t by (simp add: split_columns_def)
    have dom: "u (Reg b t r) \<noteq> None" "u (Shar b t) \<noteq> None" "u (Shar b (D + t)) \<noteq> None" for r using P reg shar t by simp_all
    have "u (Glob (inp + b * C + i)) = Some (ys ! i)" if "i \<in> set (cs t)" for i
      using ready that P unfolding set by (simp add: row_ready_def keeps_def)
    then have "run_steps (concat (map (\<lambda>i. [combine (d_add ops) (Reg b t 0) (Glob (inp + b * C + i)), combine (add_square ops) (Reg b t 1) (Glob (inp + b * C + i))]) (cs t)))
        (u(Reg b t 0 \<mapsto> d_zero ops, Reg b t 1 \<mapsto> d_zero ops)) =
      Inr (u(Reg b t 0 \<mapsto> d_zero ops, Reg b t 1 \<mapsto> d_zero ops, Reg b t 0 \<mapsto> foldl (d_add ops) (d_zero ops) (map ((!) ys) (cs t)),
        Reg b t 1 \<mapsto> foldl (add_square ops) (d_zero ops) (map ((!) ys) (cs t))))"
      by (intro run_fold2) auto
    moreover have "u(Reg b t 0 \<mapsto> x, Reg b t 1 \<mapsto> y, Reg b t 0 \<mapsto> x', Reg b t 1 \<mapsto> y') = u(Reg b t 0 \<mapsto> x', Reg b t 1 \<mapsto> y')" for x y x' y'
      by (auto simp: fun_eq_iff)
    ultimately have "run_steps (?c t) u = Inr (u(Reg b t 0 \<mapsto> ?g t, Reg b t 1 \<mapsto> ?q t, Shar b t \<mapsto> ?g t, Shar b (D + t) \<mapsto> ?q t))"
      using dom by (simp add: collected_def)
    then have run: "run_steps (?c t) u = Inr (u(Reg b t 0 \<mapsto> ?g t, Reg b t 1 \<mapsto> ?q t, Shar b t \<mapsto> ?g t, Shar b (D + t) \<mapsto> ?q t))" .
    moreover have "?P (Suc t) (u(Reg b t 0 \<mapsto> ?g t, Reg b t 1 \<mapsto> ?q t, Shar b t \<mapsto> ?g t, Shar b (D + t) \<mapsto> ?q t))"
      using P t run_steps_dom [OF run] by (auto simp: less_Suc_eq keeps_def)
    ultimately show "\<exists>u'. run_steps (?c t) u = Inr u' \<and> ?P (Suc t) u'" by blast
  qed (simp add: keeps_def)
  then show ?thesis by blast
qed

lemma layer_block:
  assumes D0: "0 < D" and cs: "split_columns D C cs" and C: "C = nat cols"
    and reg: "\<And>t r. s (Reg b t r) \<noteq> None" and shar: "\<And>i. i < 2 * D \<Longrightarrow> s (Shar b i) \<noteq> None"
    and ready: "row_ready s b C out inp ys [(weight, ws), (bias, bs)]"
    and mean: "mean = layer_mean ops cols (layer_total ops D (d_add ops) ys cs)"
    and inv: "sc = layer_scale ops cols eps mean (layer_total ops D (add_square ops) ys cs)"
  shows "\<exists>s'. run_code (layer_norm_kernel ops out inp weight bias cols eps D cs) D b s = Inr s' \<and>
    (\<forall>i < C. s' (Glob (out + b * C + i)) = Some (d_add ops (d_mul ops (d_mul ops (d_sub ops (ys ! i) mean) sc)
      (weight_at weight (d_one ops) ws i)) (weight_at bias (d_zero ops) bs i))) \<and> keeps (own b (row_cells out C b)) s s'"
proof -
  let ?f1 = "\<lambda>b t. [set_reg b t 0 (d_zero ops), set_reg b t 1 (d_zero ops)] @
        concat (map (\<lambda>i. [combine (d_add ops) (Reg b t 0) (Glob (inp + b * C + i)), combine (add_square ops) (Reg b t 1) (Glob (inp + b * C + i))]) (cs t)) @
        [move (Shar b t) (Reg b t 0), move (Shar b (D + t)) (Reg b t 1)]"
  from layer_collect [OF cs reg shar ready, of ops] obtain s1 where s1: "run_steps (concat (map (?f1 b) [0..<D])) s = Inr s1"
    "\<And>t. t < D \<Longrightarrow> s1 (Shar b t) = Some (collected (d_add ops) (d_zero ops) ys (cs t)) \<and> s1 (Shar b (D + t)) = Some (collected (add_square ops) (d_zero ops) ys (cs t))"
    "keeps (own b {}) s s1" by blast
  have dom1: "(s1 l = None) = (s l = None)" for l by (rule run_steps_dom [OF s1(1)])
  let ?q = "layer_total ops D (add_square ops) ys cs"
  let ?f2 = "\<lambda>b t. if t = 0 then [set_reg b t 2 (d_zero ops), set_reg b t 3 (d_zero ops)] @
          concat (map (\<lambda>i. [combine (d_add ops) (Reg b t 2) (Shar b i), combine (d_add ops) (Reg b t 3) (Shar b (D + i))]) [0..<D]) @
          [Assign (Reg b t 2) [Reg b t 2] (\<lambda>vs. Some (d_div ops (vs ! 0) (d_of_int ops cols))),
           Assign (Reg b t 3) [Reg b t 3, Reg b t 2] (\<lambda>vs. Some (d_sub ops (d_div ops (vs ! 0) (d_of_int ops cols)) (d_mul ops (vs ! 1) (vs ! 1)))),
           move (Shar b 0) (Reg b t 2), Assign (Shar b D) [Reg b t 3] (\<lambda>vs. Some (d_rsqrt ops (d_add ops (vs ! 0) eps)))] else []"
  let ?var = "d_sub ops (d_div ops ?q (d_of_int ops cols)) (d_mul ops mean mean)"
  let ?s2 = "s1(Reg b 0 2 \<mapsto> mean, Reg b 0 3 \<mapsto> ?var, Shar b 0 \<mapsto> mean, Shar b D \<mapsto> sc)"
  have reg1: "s1 (Reg b t r) \<noteq> None" and shar1: "s1 (Shar b 0) \<noteq> None" "s1 (Shar b D) \<noteq> None" for t r
    using dom1 reg shar [of 0] shar [of D] D0 by simp_all
  have "run_steps (concat (map (\<lambda>i. [combine (d_add ops) (Reg b 0 2) (Shar b i), combine (d_add ops) (Reg b 0 3) (Shar b (D + i))]) [0..<D]))
      (s1(Reg b 0 2 \<mapsto> d_zero ops, Reg b 0 3 \<mapsto> d_zero ops)) =
    Inr (s1(Reg b 0 2 \<mapsto> d_zero ops, Reg b 0 3 \<mapsto> d_zero ops, Reg b 0 2 \<mapsto> layer_total ops D (d_add ops) ys cs, Reg b 0 3 \<mapsto> ?q))"
    unfolding layer_total_def by (rule run_fold2) (use s1(2) in auto)
  moreover have "s1(Reg b 0 2 \<mapsto> x, Reg b 0 3 \<mapsto> y, Reg b 0 2 \<mapsto> x', Reg b 0 3 \<mapsto> y') = s1(Reg b 0 2 \<mapsto> x', Reg b 0 3 \<mapsto> y')" for x y x' y'
    by (auto simp: fun_eq_iff)
  ultimately have fold: "run_steps (concat (map (\<lambda>i. [combine (d_add ops) (Reg b 0 2) (Shar b i), combine (d_add ops) (Reg b 0 3) (Shar b (D + i))]) [0..<D]))
      (s1(Reg b 0 2 \<mapsto> d_zero ops, Reg b 0 3 \<mapsto> d_zero ops)) =
    Inr (s1(Reg b 0 2 \<mapsto> layer_total ops D (d_add ops) ys cs, Reg b 0 3 \<mapsto> ?q))" by simp
  have "run_steps (?f2 b 0) s1 = Inr ?s2"
    using reg1 shar1 fold D0
    by (simp add: kstep_def [of "Assign _ _ _"] mean inv layer_mean_def layer_scale_def)
  moreover have "concat (map (?f2 b) [1..<D]) = []" by simp
  ultimately have s2: "run_steps (concat (map (?f2 b) [0..<D])) s1 = Inr ?s2" unfolding run_split_first [OF D0] by (simp only: rbind.simps run_steps_simps)
  let ?fn = "\<lambda>i vs. Some (d_add ops (d_mul ops (d_mul ops (d_sub ops (vs ! 0) (vs ! 1)) (vs ! 2)) (value_of weight (d_one ops) (drop 3 vs)))
             (value_of bias (d_zero ops) (drop (3 + length (cell_of weight i)) vs)))"
  let ?f3 = "\<lambda>b t. [move (Reg b t 2) (Shar b 0), move (Reg b t 3) (Shar b D)] @ map (\<lambda>i. Assign (Glob (out + b * C + i))
      (Glob (inp + b * C + i) # map (Reg b t) [2, 3] @ cell_of weight i @ cell_of bias i) (?fn i)) (cs t)"
  let ?v = "\<lambda>i. d_add ops (d_mul ops (d_mul ops (d_sub ops (ys ! i) mean) sc) (weight_at weight (d_one ops) ws i)) (weight_at bias (d_zero ops) bs i)"
  have glob1: "s1 (Glob q) = s (Glob q)" for q using keepsD [OF s1(3), of "Glob q"] by simp
  have "\<exists>s3. run_steps (concat (map (?f3 b) [0..<D])) ?s2 = Inr s3 \<and> (\<forall>i < C. s3 (Glob (out + b * C + i)) = Some (?v i)) \<and>
    keeps (thread_cells b (row_cells out C b)) ?s2 s3"
  proof (rule row_output [OF D0 cs])
    show "row_ready ?s2 b C out inp ys [(weight, ws), (bias, bs)]" using ready glob1 by (simp add: row_ready_def glob_def)
    show "\<exists>u1. run_steps [move (Reg b t 2) (Shar b 0), move (Reg b t 3) (Shar b D)] u = Inr u1 \<and> keeps (range (Reg b t)) u u1 \<and>
        map (\<lambda>r. u1 (Reg b t r)) [2, 3] = map Some [mean, sc]"
      if "\<And>l. (u l = None) = (?s2 l = None)" "\<And>i. u (Shar b i) = ?s2 (Shar b i)" for t u
      using that(1) [of "Reg b t 2"] that(1) [of "Reg b t 3"] that(2) [of 0] that(2) [of D] reg1 D0
      by (intro exI [of _ "u(Reg b t 2 \<mapsto> mean, Reg b t 3 \<mapsto> sc)"]) (simp add: keeps_def)
  qed (simp add: opt_value_def value_of_def weight_at_def cell_of_def split: option.splits)
  then obtain s3 where s3: "run_steps (concat (map (?f3 b) [0..<D])) ?s2 = Inr s3" "\<forall>i < C. s3 (Glob (out + b * C + i)) = Some (?v i)"
    "keeps (thread_cells b (row_cells out C b)) ?s2 s3" by blast
  have "keeps (own b (row_cells out C b)) s s3"
    unfolding keeps_def
  proof (intro allI impI)
    fix l assume l: "l \<notin> own b (row_cells out C b)"
    then have "l \<notin> thread_cells b (row_cells out C b)" "l \<notin> {Reg b 0 2, Reg b 0 3, Shar b 0, Shar b D}" "l \<notin> own b {}"
      by (auto simp: own_def thread_cells_def split: loc.splits)
    then show "s3 l = s l" using keepsD [OF s3(3), of l] keepsD [OF s1(3), of l] by simp
  qed
  moreover have "layer_norm_kernel ops out inp weight bias cols eps D cs = [?f1, ?f2, ?f3]"
    by (simp add: layer_norm_kernel_def C)
  ultimately show ?thesis using s1(1) s2 s3(1,2) by (intro exI [of _ s3]) (simp only: run_code_simps rbind.simps)
qed

section \<open>No races between rows, nor inside one\<close>

text \<open>A step of thread \<open>t\<close> of block \<open>b\<close>: which shared and global cells it writes and reads.\<close>

definition touch :: "nat \<Rightarrow> nat \<Rightarrow> nat set \<Rightarrow> nat set \<Rightarrow> loc set" where
  "touch b t S P = range (Reg b t) \<union> Shar b ` S \<union> Glob ` P"

definition row_step :: "nat \<Rightarrow> nat \<Rightarrow> nat set \<Rightarrow> nat set \<Rightarrow> nat set \<Rightarrow> nat set \<Rightarrow> 'v kstep \<Rightarrow> bool" where
  "row_step b t Sw Sr Gw Gr x \<longleftrightarrow> k_dst x \<in> touch b t Sw Gw \<and> set (k_srcs x) \<subseteq> touch b t Sr Gr"

lemma touch_apart: "t \<noteq> t' \<Longrightarrow> S \<inter> S' = {} \<Longrightarrow> P \<inter> P' = {} \<Longrightarrow> touch b t S P \<inter> touch b t' S' P' = {}"
  by (auto simp: touch_def)

lemma touch_mono: "S \<subseteq> S' \<Longrightarrow> P \<subseteq> P' \<Longrightarrow> touch b t S P \<subseteq> touch b t S' P'"
  by (auto simp: touch_def)

lemma row_step_indep:
  assumes "row_step b t Sw Sr Gw Gr x" and "row_step b t' Sw' Sr' Gw' Gr' y" and "t \<noteq> t'"
    and "Sw \<inter> Sw' = {}" "Sw \<inter> Sr' = {}" "Sw' \<inter> Sr = {}" and "Gw \<inter> Gw' = {}" "Gw \<inter> Gr' = {}" "Gw' \<inter> Gr = {}"
  shows "indep x y"
proof -
  have x: "k_dst x \<in> touch b t Sw Gw" "set (k_srcs x) \<subseteq> touch b t Sr Gr"
    and y: "k_dst y \<in> touch b t' Sw' Gw'" "set (k_srcs y) \<subseteq> touch b t' Sr' Gr'" using assms(1,2) by (simp_all only: row_step_def)
  have "k_dst x \<noteq> k_dst y" using touch_apart [where b = b, OF assms(3,4,7)] x(1) y(1) by (metis disjoint_iff)
  moreover have "k_dst x \<notin> set (k_srcs y)" using touch_apart [where b = b, OF assms(3,5,8)] x(1) y(2) by (metis disjoint_iff subsetD)
  moreover have "k_dst y \<notin> set (k_srcs x)" using touch_apart [where b = b, OF assms(3) [symmetric] assms(6,9)] x(2) y(1) by (metis disjoint_iff subsetD)
  ultimately show ?thesis by (simp add: indep_def)
qed

lemma row_step_stays:
  assumes "row_step b t Sw Sr Gw Gr x" and "Gw \<subseteq> W" "Gr \<subseteq> R"
  shows "stays b W R x"
proof -
  have "case l of Glob p \<Rightarrow> p \<in> Q | Shar b' i \<Rightarrow> b' = b | Reg b' t i \<Rightarrow> b' = b" if "l \<in> touch b t S P" "P \<subseteq> Q" for l S P Q
    using that by (auto simp: touch_def)
  with assms show ?thesis unfolding row_step_def stays_def by blast
qed

lemma stays_mono: "stays b W R x \<Longrightarrow> W \<subseteq> W' \<Longrightarrow> R \<subseteq> R' \<Longrightarrow> stays b W' R' x"
proof -
  assume x: "stays b W R x" and sub: "W \<subseteq> W'" "R \<subseteq> R'"
  have "case l of Glob p \<Rightarrow> p \<in> P' | Shar b' i \<Rightarrow> b' = b | Reg b' t i \<Rightarrow> b' = b"
    if "case l of Glob p \<Rightarrow> p \<in> P | Shar b' i \<Rightarrow> b' = b | Reg b' t i \<Rightarrow> b' = b" "P \<subseteq> P'" for l P P'
    using that by (cases l) auto
  with x sub show ?thesis unfolding stays_def by blast
qed

definition rows_ok :: "'v gmem \<Rightarrow> nat \<Rightarrow> nat \<Rightarrow> nat \<Rightarrow> nat \<Rightarrow> 'v list \<Rightarrow> (nat option \<times> 'v list) list \<Rightarrow> bool" where
  "rows_ok m out inp G C xs ps \<longleftrightarrow> holds m inp xs \<and> length xs = G * C \<and> room m out (G * C) \<and> apart_or_same out inp (G * C) \<and>
     (\<forall>(p, ws) \<in> set ps. array_ok m out (G * C) C p ws)"

definition row_reads :: "nat \<Rightarrow> nat \<Rightarrow> (nat option \<times> 'v list) list \<Rightarrow> nat \<Rightarrow> nat set" where
  "row_reads inp C ps b = row_cells inp C b \<union> \<Union> ((\<lambda>(p, ws). array_cells p C) ` set ps)"

lemma rows_apart_reads:
  assumes "rows_ok m out inp G C xs ps" and "b < G" "b' < G" "b \<noteq> b'"
  shows "row_cells out C b \<inter> row_cells out C b' = {} \<and> row_cells out C b \<inter> row_reads inp C ps b' = {}"
proof -
  have "row_cells out C b \<inter> array_cells p C = {}" if "(p, ws) \<in> set ps" for p ws
    using array_apart [of m out G C p ws b] assms(1,2) that unfolding rows_ok_def by blast
  moreover have "row_cells out C b \<inter> row_cells inp C b' = {}" using rows_apart [OF _ assms(2-4)] assms(1) unfolding rows_ok_def by blast
  ultimately show ?thesis using row_cells_apart [OF assms(4), of out C] unfolding row_reads_def by blast
qed

text \<open>A kernel whose last interval writes the row, and whose other intervals write only variables and shared memory.\<close>

definition thread_row :: "nat \<Rightarrow> nat \<Rightarrow> nat \<Rightarrow> (nat \<Rightarrow> nat list) \<Rightarrow> nat \<Rightarrow> nat set" where
  "thread_row p C b cs t = (\<lambda>i. p + b * C + i) ` set (cs t)"

lemma thread_row_sub: "split_columns D C cs \<Longrightarrow> t < D \<Longrightarrow> thread_row p C b cs t \<subseteq> row_cells p C b"
  by (auto simp: thread_row_def row_cells_def split_columns_def)

lemma thread_row_apart: "split_columns D C cs \<Longrightarrow> t < D \<Longrightarrow> t' < D \<Longrightarrow> t \<noteq> t' \<Longrightarrow> thread_row p C b cs t \<inter> thread_row p C b cs t' = {}"
  by (auto simp: thread_row_def split_columns_def)

lemma thread_reads_apart:
  assumes "rows_ok m out inp G C xs ps" "split_columns D C cs" "b < G" "t < D" "t' < D" "t \<noteq> t'"
  shows "thread_row out C b cs t \<inter> (thread_row inp C b cs t' \<union> \<Union> ((\<lambda>(p, ws). array_cells p C) ` set ps)) = {}"
proof -
  have "thread_row out C b cs t \<inter> thread_row inp C b cs t' = {}"
  proof -
    have "out + b * C + i \<noteq> inp + b * C + j" if "i \<in> set (cs t)" "j \<in> set (cs t')" for i j
      using row_elements_apart [of out inp G C b i j] assms that by (auto simp: rows_ok_def split_columns_def)
    then show ?thesis unfolding thread_row_def by blast
  qed
  moreover have "row_cells out C b \<inter> array_cells p C = {}" if "(p, ws) \<in> set ps" for p ws
    using array_apart [of m out G C p ws b] assms(1,3) that unfolding rows_ok_def by blast
  ultimately show ?thesis using thread_row_sub [OF assms(2,4), of out b] by blast
qed

lemma output_steps:
  assumes "x \<in> set (ls @ map (\<lambda>i. Assign (Glob (out + b * C + i)) (Glob (inp + b * C + i) # map (Reg b t) rs @ cell_of p i @ cell_of p' i) (f i)) (cs t))"
    and "\<And>x. x \<in> set ls \<Longrightarrow> row_step b t {} UNIV {} {} x" and cs: "split_columns D C cs" "t < D"
  shows "row_step b t {} UNIV (thread_row out C b cs t)
    (thread_row inp C b cs t \<union> \<Union> ((\<lambda>(p, ws). array_cells p C) ` set [(p, ws), (p', ws')])) x"
proof -
  from assms(1) consider "x \<in> set ls" | i where "i \<in> set (cs t)"
    "x = Assign (Glob (out + b * C + i)) (Glob (inp + b * C + i) # map (Reg b t) rs @ cell_of p i @ cell_of p' i) (f i)" by auto
  then show ?thesis
  proof cases
    case 1
    from assms(2) [OF this] show ?thesis using touch_mono [of "{}" "{}" "{}"] touch_mono [of UNIV UNIV "{}"] unfolding row_step_def by blast
  next
    case 2
    have "i < C" using cs 2(1) by (auto simp: split_columns_def)
    then have "set (cell_of p i) \<subseteq> Glob ` array_cells p C" "set (cell_of p' i) \<subseteq> Glob ` array_cells p' C" using cell_of_cells by blast+
    moreover have "Glob ` array_cells p C \<subseteq> touch b t UNIV (thread_row inp C b cs t \<union> \<Union> ((\<lambda>(p, ws). array_cells p C) ` set [(p, ws), (p', ws')]))"
      "Glob ` array_cells p' C \<subseteq> touch b t UNIV (thread_row inp C b cs t \<union> \<Union> ((\<lambda>(p, ws). array_cells p C) ` set [(p, ws), (p', ws')]))"
      by (auto simp: touch_def)
    moreover have "Glob (inp + b * C + i) \<in> touch b t UNIV (thread_row inp C b cs t \<union> A)" "Glob (out + b * C + i) \<in> touch b t {} (thread_row out C b cs t)" for A
      using 2(1) by (auto simp: touch_def thread_row_def)
    moreover have "set (map (Reg b t) rs) \<subseteq> touch b t S P" for S P by (auto simp: touch_def)
    ultimately show ?thesis unfolding 2(2) row_step_def by simp blast
  qed
qed

definition interval_ok :: "nat \<Rightarrow> nat \<Rightarrow> nat \<Rightarrow> nat \<Rightarrow> (nat \<Rightarrow> nat \<Rightarrow> 'v kstep list) \<Rightarrow> bool" where
  "interval_ok inp C G D f \<longleftrightarrow> (\<forall>b < G. \<forall>t < D. \<forall>t' < D. t \<noteq> t' \<longrightarrow> (\<forall>x \<in> set (f b t). \<forall>y \<in> set (f b t'). indep x y)) \<and>
     (\<forall>b < G. \<forall>t < D. \<forall>x \<in> set (f b t). stays b {} (row_cells inp C b) x)"

lemma interval_okI:
  assumes "\<And>b t x. b < G \<Longrightarrow> t < D \<Longrightarrow> x \<in> set (f b t) \<Longrightarrow> row_step b t (S t) {} {} (row_cells inp C b) x"
    and "\<And>t t'. t < D \<Longrightarrow> t' < D \<Longrightarrow> t \<noteq> t' \<Longrightarrow> S t \<inter> S t' = {}"
  shows "interval_ok inp C G D f"
  unfolding interval_ok_def
proof (intro conjI allI impI ballI)
  fix b t t' x y assume "b < G" "t < D" "t' < D" "t \<noteq> t'" "x \<in> set (f b t)" "y \<in> set (f b t')"
  with assms(2) [of t t'] show "indep x y"
    by (intro row_step_indep [OF assms(1) [of b t x] assms(1) [of b t' y]]) auto
next
  fix b t x assume "b < G" "t < D" "x \<in> set (f b t)"
  then show "stays b {} (row_cells inp C b) x" using row_step_stays [OF assms(1)] by blast
qed

lemma one_thread_ok:
  assumes "\<And>b t x. x \<in> set (f b t) \<Longrightarrow> t = 0 \<and> row_step b 0 UNIV UNIV {} {} x"
  shows "interval_ok inp C G D f"
  unfolding interval_ok_def
proof (intro conjI allI impI ballI)
  fix b t t' x y assume "t \<noteq> t'" "x \<in> set (f b t)" "y \<in> set (f b t')"
  then show "indep x y" using assms by metis
next
  fix b t x assume "x \<in> set (f b t)"
  then have "row_step b 0 UNIV UNIV {} {} x" using assms by blast
  then show "stays b {} (row_cells inp C b) x" by (rule row_step_stays) simp_all
qed

lemma collect_ok:
  assumes "split_columns D C cs"
  shows "interval_ok inp C G D (\<lambda>b t. collect op z r (inp + b * C) b t (cs t))"
proof (rule interval_okI [where S = "\<lambda>_. {}"])
  fix b t x assume t: "t < D" and x: "x \<in> set (collect op z r (inp + b * C) b t (cs t))"
  have "k_dst x = Reg b t r" "set (k_srcs x) \<subseteq> insert (Reg b t r) ((\<lambda>i. Glob (inp + b * C + i)) ` set (cs t))"
    using collect_steps [OF x] by simp_all
  moreover have "(\<lambda>i. Glob (inp + b * C + i)) ` set (cs t) \<subseteq> Glob ` row_cells inp C b"
    using assms t by (auto simp: split_columns_def row_cells_def)
  ultimately have "set (k_srcs x) \<subseteq> insert (Reg b t r) (Glob ` row_cells inp C b)" "k_dst x = Reg b t r" by blast+
  then show "row_step b t {} {} {} (row_cells inp C b) x" unfolding row_step_def touch_def by auto
qed simp

lemma warp_totals_ok: "f \<in> set (warp_totals op r q base) \<Longrightarrow> q \<noteq> r \<Longrightarrow> interval_ok inp C G D f"
proof -
  assume f: "f \<in> set (warp_totals op r q base)" and qr: "q \<noteq> r"
  from f consider off where "f = (\<lambda>b t. [move (Reg b t q) (Reg b (lane_down off t) r)])" | "f = (\<lambda>b t. [combine op (Reg b t r) (Reg b t q)])"
    | "f = warp_store r base" unfolding warp_totals_def warp_reduce_def by auto
  then show ?thesis
  proof cases
    case 1
    then show ?thesis using qr by (auto simp: interval_ok_def indep_def stays_def)
  next
    case 2
    then show ?thesis by (intro interval_okI [where S = "\<lambda>_. {}"]) (auto simp: row_step_def touch_def)
  next
    case 3
    show ?thesis unfolding 3
    proof (rule interval_okI [where S = "\<lambda>t. if t mod 32 = 0 then {base + t div 32} else {}"])
      fix t t' :: nat assume "t \<noteq> t'"
      then have "t div 32 \<noteq> t' div 32" if "t mod 32 = 0" "t' mod 32 = 0" using that by auto
      then show "(if t mod 32 = 0 then {base + t div 32} else {}) \<inter> (if t' mod 32 = 0 then {base + t' div 32} else {}) = {}" by auto
    qed (auto simp: warp_store_def row_step_def touch_def split: if_splits)
  qed
qed

lemma row_kernel_race_free:
  assumes ok: "rows_ok m out inp G C xs ps" and cs: "split_columns D C cs"
    and code: "\<And>f. f \<in> set code \<Longrightarrow> interval_ok inp C G D f"
    and last: "\<And>b t x. b < G \<Longrightarrow> t < D \<Longrightarrow> x \<in> set (g b t) \<Longrightarrow> row_step b t {} UNIV (thread_row out C b cs t)
      (thread_row inp C b cs t \<union> \<Union> ((\<lambda>(p, ws). array_cells p C) ` set ps)) x"
  shows "race_free (launch_grid G D (code @ [g]))"
proof (rule kernel_race_free [where W = "row_cells out C" and R = "row_reads inp C ps"])
  fix f b t t' x y assume f: "f \<in> set (code @ [g])" and b: "b < G" "t < D" "t' < D" "t \<noteq> t'" and x: "x \<in> set (f b t)" and y: "y \<in> set (f b t')"
  show "indep x y"
  proof (cases "f \<in> set code")
    case True
    from code [OF this] b x y show ?thesis unfolding interval_ok_def by blast
  next
    case False
    then have "f = g" using f by simp
    with x y show ?thesis using thread_row_apart [OF cs b(2-4)] thread_reads_apart [OF ok cs b(1-4)] thread_reads_apart [OF ok cs b(1,3,2) b(4) [symmetric]]
      by (intro row_step_indep [OF last [OF b(1,2)] last [OF b(1,3)] b(4)]) auto
  qed
next
  fix f b t x assume f: "f \<in> set (code @ [g])" and b: "b < G" "t < D" and x: "x \<in> set (f b t)"
  show "stays b (row_cells out C b) (row_reads inp C ps b) x"
  proof (cases "f \<in> set code")
    case True
    then have "stays b {} (row_cells inp C b) x" using code b x unfolding interval_ok_def by blast
    then show ?thesis by (rule stays_mono) (auto simp: row_reads_def)
  next
    case False
    then have "f = g" using f by simp
    with x have "x \<in> set (g b t)" by simp
    from row_step_stays [OF last [OF b this]] show ?thesis using thread_row_sub [OF cs b(2)] unfolding row_reads_def by (metis Un_mono order_refl)
  qed
qed (rule rows_apart_reads [OF ok])

text \<open>What a block finds at its start.\<close>

lemma rows_ready:
  assumes ok: "rows_ok m out inp G C xs ps" and b: "b < G"
    and mem: "\<And>p. (\<And>b'. b' < b \<Longrightarrow> p \<notin> row_cells out C b') \<Longrightarrow> u (Glob p) = m p"
  shows "row_ready u b C out inp (drop (b * C) xs) ps"
proof -
  have row: "b * C + i < G * C" if "i < C" for i
  proof -
    have "Suc b * C \<le> G * C" using b by (intro mult_le_mono1) simp
    with that show ?thesis by simp
  qed
  have in_out: "p \<in> {out..<out + G * C}" if "p \<in> row_cells out C b'" "b' < G" for p b' using row_cells_sub [OF that(2), of out C] that(1) by blast
  have far: "u (Glob p) = m p" if "p \<notin> {out..<out + G * C}" for p using in_out b that by (intro mem) fastforce
  have own_row: "u (Glob p) = m p" if "p \<in> row_cells out C b" for p
  proof (rule mem)
    fix b' assume "b' < b"
    then show "p \<notin> row_cells out C b'" using row_cells_apart [of b b' out C] that by auto
  qed
  have "u (Glob (inp + b * C + i)) = Some (drop (b * C) xs ! i)" if i: "i < C" for i
  proof -
    have "m (inp + (b * C + i)) = Some (xs ! (b * C + i))" using ok row [OF i] by (simp add: rows_ok_def holds_def)
    moreover have "u (Glob (inp + b * C + i)) = m (inp + b * C + i)"
    proof (cases "inp = out")
      case True
      then show ?thesis using i by (intro own_row) (simp add: in_row)
    next
      case False
      then show ?thesis using ok row [OF i] by (intro far) (auto simp: rows_ok_def apart_or_same_def)
    qed
    moreover have "b * C \<le> length xs" using ok b by (simp add: rows_ok_def)
    then have "drop (b * C) xs ! i = xs ! (b * C + i)" by simp
    ultimately show ?thesis by (simp add: add.assoc)
  qed
  moreover have "u (Glob (out + b * C + i)) \<noteq> None" if i: "i < C" for i
  proof -
    have "u (Glob (out + b * C + i)) = m (out + b * C + i)" using i by (intro own_row) (simp add: in_row)
    moreover have "m (out + (b * C + i)) \<noteq> None" using ok row [OF i] by (simp add: rows_ok_def room_def)
    ultimately show ?thesis by (simp add: add.assoc)
  qed
  moreover have "array_ok (glob u) (out + b * C) C C p ws" if "(p, ws) \<in> set ps" for p ws
  proof (cases p)
    case (Some a)
    have a: "holds m a ws" "length ws = C" "a + C \<le> out \<or> out + G * C \<le> a" using ok that Some unfolding rows_ok_def array_ok_def by fastforce+
    have "u (Glob (a + i)) = m (a + i)" if "i < C" for i using a(3) that by (intro far) auto
    moreover have "b * C + C \<le> G * C"
    proof -
      have "Suc b * C \<le> G * C" using b by (intro mult_le_mono1) simp
      then show ?thesis by simp
    qed
    ultimately show ?thesis using a Some by (auto simp: array_ok_def holds_def glob_def)
  qed (simp add: array_ok_def)
  moreover have "out + b * C + i \<noteq> inp + b * C + j" if "i < C" "j < C" "i \<noteq> j" for i j
    using row_elements_apart [of out inp G C b i j] ok b that by (simp add: rows_ok_def)
  moreover have "inp = out \<or> row_cells out C b \<inter> row_cells inp C b = {}"
    using ok row_cells_sub [OF b, of out C] row_cells_sub [OF b, of inp C] unfolding rows_ok_def apart_or_same_def by fastforce
  ultimately show ?thesis unfolding row_ready_def by auto
qed

section \<open>The launches\<close>

lemma rms_race_free:
  assumes ok: "rows_ok m out inp G C xs [(weight, ws), (None, [])]" and cs: "split_columns D C cs" and C: "C = nat cols"
  shows "race_free (launch_grid G D (rms_norm_kernel ops out inp weight cols eps D cs))"
proof -
  let ?f1 = "\<lambda>b t. collect (add_square ops) (d_zero ops) 0 (inp + b * C) b t (cs t)"
  let ?f3 = "\<lambda>b t. if t = 0 then set_reg b t 2 (d_zero ops) # map (\<lambda>i. combine (d_add ops) (Reg b t 2) (Shar b i)) [0..<(D + 31) div 32] @
          [Assign (Reg b t 2) [Reg b t 2] (\<lambda>vs. Some (rms_factor ops cols eps (vs ! 0))), move (Shar b 0) (Reg b t 2)] else []"
  let ?fn = "\<lambda>i :: nat. \<lambda>vs. Some (d_mul ops (d_mul ops (vs ! 0) (vs ! 1)) (value_of weight (d_one ops) (drop 2 vs)))"
  let ?f4 = "\<lambda>b t. [move (Reg b t 2) (Shar b 0)] @ map (\<lambda>i. Assign (Glob (out + b * C + i))
      (Glob (inp + b * C + i) # map (Reg b t) [2] @ cell_of weight i @ cell_of None i) (?fn i)) (cs t)"
  have "race_free (launch_grid G D ((?f1 # warp_totals (d_add ops) 0 1 0 @ [?f3]) @ [?f4]))"
  proof (rule row_kernel_race_free [OF ok cs])
    fix f assume "f \<in> set (?f1 # warp_totals (d_add ops) 0 1 0 @ [?f3])"
    then consider "f = ?f1" | "f \<in> set (warp_totals (d_add ops) 0 1 0)" | "f = ?f3" by auto
    then show "interval_ok inp C G D f"
    proof cases
      case 1
      show ?thesis unfolding 1 by (rule collect_ok [OF cs])
    next
      case 2
      then show ?thesis by (rule warp_totals_ok) simp
    next
      case 3
      show ?thesis unfolding 3 by (rule one_thread_ok) (auto simp: row_step_def touch_def split: if_splits)
    qed
  next
    fix b t x assume t: "t < D" and x: "x \<in> set (?f4 b t)"
    show "row_step b t {} UNIV (thread_row out C b cs t)
      (thread_row inp C b cs t \<union> \<Union> ((\<lambda>(p, ws). array_cells p C) ` set [(weight, ws), (None, [])])) x"
      by (rule output_steps [OF x _ cs t]) (auto simp: row_step_def touch_def)
  qed
  moreover have "rms_norm_kernel ops out inp weight cols eps D cs = (?f1 # warp_totals (d_add ops) 0 1 0 @ [?f3]) @ [?f4]"
    by (simp add: rms_norm_kernel_def warp_totals_def C cell_of_def [of None])
  ultimately show ?thesis by simp
qed

lemma layer_race_free:
  assumes ok: "rows_ok m out inp G C xs [(weight, ws), (bias, bs)]" and cs: "split_columns D C cs" and C: "C = nat cols"
  shows "race_free (launch_grid G D (layer_norm_kernel ops out inp weight bias cols eps D cs))"
proof -
  let ?f1 = "\<lambda>b t. [set_reg b t 0 (d_zero ops), set_reg b t 1 (d_zero ops)] @
        concat (map (\<lambda>i. [combine (d_add ops) (Reg b t 0) (Glob (inp + b * C + i)), combine (add_square ops) (Reg b t 1) (Glob (inp + b * C + i))]) (cs t)) @
        [move (Shar b t) (Reg b t 0), move (Shar b (D + t)) (Reg b t 1)]"
  let ?f2 = "\<lambda>b t. if t = 0 then [set_reg b t 2 (d_zero ops), set_reg b t 3 (d_zero ops)] @
          concat (map (\<lambda>i. [combine (d_add ops) (Reg b t 2) (Shar b i), combine (d_add ops) (Reg b t 3) (Shar b (D + i))]) [0..<D]) @
          [Assign (Reg b t 2) [Reg b t 2] (\<lambda>vs. Some (d_div ops (vs ! 0) (d_of_int ops cols))),
           Assign (Reg b t 3) [Reg b t 3, Reg b t 2] (\<lambda>vs. Some (d_sub ops (d_div ops (vs ! 0) (d_of_int ops cols)) (d_mul ops (vs ! 1) (vs ! 1)))),
           move (Shar b 0) (Reg b t 2), Assign (Shar b D) [Reg b t 3] (\<lambda>vs. Some (d_rsqrt ops (d_add ops (vs ! 0) eps)))] else []"
  let ?fn = "\<lambda>i vs. Some (d_add ops (d_mul ops (d_mul ops (d_sub ops (vs ! 0) (vs ! 1)) (vs ! 2)) (value_of weight (d_one ops) (drop 3 vs)))
             (value_of bias (d_zero ops) (drop (3 + length (cell_of weight i)) vs)))"
  let ?f3 = "\<lambda>b t. [move (Reg b t 2) (Shar b 0), move (Reg b t 3) (Shar b D)] @ map (\<lambda>i. Assign (Glob (out + b * C + i))
      (Glob (inp + b * C + i) # map (Reg b t) [2, 3] @ cell_of weight i @ cell_of bias i) (?fn i)) (cs t)"
  have "race_free (launch_grid G D ([?f1, ?f2] @ [?f3]))"
  proof (rule row_kernel_race_free [OF ok cs])
    fix f assume "f \<in> set [?f1, ?f2]"
    then consider "f = ?f1" | "f = ?f2" by auto
    then show "interval_ok inp C G D f"
    proof cases
      case 1
      show ?thesis unfolding 1
      proof (rule interval_okI [where S = "\<lambda>t. {t, D + t}"])
        fix b t x assume t: "t < D" and x: "x \<in> set (?f1 b t)"
        have "inp + b * C + i \<in> row_cells inp C b" if "i \<in> set (cs t)" for i using cs t that by (auto simp: split_columns_def in_row)
        with x show "row_step b t {t, D + t} {} {} (row_cells inp C b) x" by (auto simp: row_step_def touch_def)
      qed auto
    next
      case 2
      show ?thesis unfolding 2 by (rule one_thread_ok) (auto simp: row_step_def touch_def split: if_splits)
    qed
  next
    fix b t x assume t: "t < D" and x: "x \<in> set (?f3 b t)"
    show "row_step b t {} UNIV (thread_row out C b cs t)
      (thread_row inp C b cs t \<union> \<Union> ((\<lambda>(p, ws). array_cells p C) ` set [(weight, ws), (bias, bs)])) x"
      by (rule output_steps [OF x _ cs t]) (auto simp: row_step_def touch_def)
  qed
  moreover have "layer_norm_kernel ops out inp weight bias cols eps D cs = [?f1, ?f2] @ [?f3]"
    by (simp add: layer_norm_kernel_def C)
  ultimately show ?thesis by simp
qed

text \<open>Sums over a row, when the addition is associative and commutative.\<close>

context reduction
begin

lemma collected_image: "distinct is \<Longrightarrow> collected (\<lambda>a x. op a (f x)) z ys is = F (\<lambda>i. f (ys ! i)) (set is)"
proof -
  assume "distinct is"
  then have "foldl (\<lambda>a x. op a (f x)) a (map (\<lambda>i. ys ! i) is) = op a (F (\<lambda>i. f (ys ! i)) (set is))" for a
    by (induction "is" arbitrary: a) (simp_all add: assoc)
  then show ?thesis by (simp add: collected_def)
qed

lemma foldl_total: "foldl op z (map g [0..<n]) = F g {..<n}"
  by (induction n) (simp_all add: lessThan_Suc commute)

lemma warps_total: "foldl op z (map (\<lambda>w. fold (warp_step op) (halves 16) g (32 * w)) [0..<W]) = F g {..<32 * W}"
proof -
  have "foldl op z (map (\<lambda>w. fold (warp_step op) (halves 16) g (32 * w)) [0..<W]) = F (\<lambda>w. F g {32 * w..<32 * Suc w}) {..<W}"
    unfolding foldl_total by (simp only: warp_total)
  also have "\<dots> = F g {..<32 * W}"
  proof (induction W)
    case (Suc W)
    have "{..<32 * Suc W} = {..<32 * W} \<union> {32 * W..<32 * Suc W}" by auto
    moreover have "F g ({..<32 * W} \<union> {32 * W..<32 * Suc W}) = op (F g {..<32 * W}) (F g {32 * W..<32 * Suc W})" by (intro union_disjoint) auto
    ultimately show ?case using Suc by (simp add: lessThan_Suc commute)
  qed simp
  finally show ?thesis .
qed

lemma row_total:
  assumes "0 < D" and cs: "split_columns D C cs"
  shows "F (\<lambda>t. collected (\<lambda>a x. op a (f x)) z ys (cs t)) {..<D} = F (\<lambda>i. f (ys ! i)) {..<C}"
proof -
  have "F (\<lambda>t. collected (\<lambda>a x. op a (f x)) z ys (cs t)) {..<D} = F (\<lambda>t. F (\<lambda>i. f (ys ! i)) {k. k < C \<and> True \<and> k mod D = t}) {..<D}"
    using cs by (intro cong) (simp_all add: split_columns_def collected_image)
  also have "\<dots> = F (\<lambda>i. f (ys ! i)) {k. k < C \<and> True}" by (rule thread_total [OF assms(1)])
  finally show ?thesis by (simp add: lessThan_def)
qed

end

definition square_sum :: "'v dev_ops \<Rightarrow> 'v list \<Rightarrow> nat \<Rightarrow> 'v" where
  "square_sum ops ys C = comm_monoid_set.F (d_add ops) (d_zero ops) (\<lambda>i. d_mul ops (ys ! i) (ys ! i)) {..<C}"

definition plain_sum :: "'v dev_ops \<Rightarrow> 'v list \<Rightarrow> nat \<Rightarrow> 'v" where
  "plain_sum ops ys C = comm_monoid_set.F (d_add ops) (d_zero ops) (\<lambda>i. ys ! i) {..<C}"

lemma add_square_eq: "add_square ops = (\<lambda>a x. d_add ops a (d_mul ops x x))"
  by (simp add: add_square_def fun_eq_iff)

lemma rms_partial_total:
  assumes m: "comm_monoid_set (d_add ops) (d_zero ops)" and cs: "split_columns (32 * W) C cs" "0 < W"
  shows "rms_partial ops W ys cs = square_sum ops ys C"
  using reduction.warps_total [OF reduction.intro [OF m]] reduction.row_total [OF reduction.intro [OF m] _ cs(1)] cs(2)
  by (simp add: rms_partial_def square_sum_def add_square_eq)

lemma layer_total_total:
  assumes m: "comm_monoid_set (d_add ops) (d_zero ops)" and cs: "split_columns D C cs" "0 < D"
  shows "layer_total ops D (d_add ops) ys cs = plain_sum ops ys C" and "layer_total ops D (add_square ops) ys cs = square_sum ops ys C"
  using reduction.foldl_total [OF reduction.intro [OF m]] reduction.row_total [OF reduction.intro [OF m] cs(2,1), of "\<lambda>x. x"]
    reduction.row_total [OF reduction.intro [OF m] cs(2,1)]
  by (simp_all add: layer_total_def plain_sum_def square_sum_def add_square_eq)

text \<open>Row \<open>b\<close> of an array with \<open>C\<close> columns.\<close>

definition row_at :: "'v list \<Rightarrow> nat \<Rightarrow> nat \<Rightarrow> 'v list" where
  "row_at xs C b = drop (b * C) xs"

lemma stores_rows:
  assumes ok: "rows_ok m out inp G C xs ps" and rf: "race_free (launch_grid G D code)"
    and block: "\<And>b u. b < G \<Longrightarrow> (\<And>t r. u (Reg b t r) \<noteq> None) \<Longrightarrow> (\<And>i. i < sh \<Longrightarrow> u (Shar b i) \<noteq> None) \<Longrightarrow>
      row_ready u b C out inp (row_at xs C b) ps \<Longrightarrow>
      \<exists>u'. run_code code D b u = Inr u' \<and> (\<forall>i < C. u' (Glob (out + b * C + i)) = Some (f b i (row_at xs C b ! i))) \<and> keeps (own b (row_cells out C b)) u u'"
  shows "stores (Some (launch_grid G D code, sh)) m out (map (\<lambda>k. f (k div C) (k mod C) (xs ! k)) [0..<G * C])"
proof (rule blocks_store [OF rf])
  fix b u assume b: "b < G" and reg: "\<And>t r. u (Reg b t r) \<noteq> None" and shar: "\<And>i. i < sh \<Longrightarrow> u (Shar b i) \<noteq> None"
    and mem: "\<And>p. (\<And>b'. b' < b \<Longrightarrow> p \<notin> row_cells out C b') \<Longrightarrow> u (Glob p) = m p"
  have "row_ready u b C out inp (row_at xs C b) ps" unfolding row_at_def by (rule rows_ready [OF ok b mem])
  from block [OF b reg shar this] obtain u' where u': "run_code code D b u = Inr u'"
    "\<forall>i < C. u' (Glob (out + b * C + i)) = Some (f b i (row_at xs C b ! i))" "keeps (own b (row_cells out C b)) u u'" by blast
  have "row_at xs C b ! i = xs ! (b * C + i)" for i using ok b by (simp add: row_at_def rows_ok_def)
  with u' show "\<exists>u'. run_code code D b u = Inr u' \<and>
    (\<forall>i < C. u' (Glob (out + b * C + i)) = Some (f ((b * C + i) div C) ((b * C + i) mod C) (xs ! (b * C + i)))) \<and> keeps (own b (row_cells out C b)) u u'"
    by (intro exI [of _ u']) simp
qed (use ok in \<open>simp add: rows_ok_def\<close>)

text \<open>
  The sum of squares of a row, in the order in which the block adds it up, for any operations: each of the
  256 threads adds the squares of its columns upwards from 0, the 32 results of a warp meet in the balanced
  tree, and the first thread adds the 8 results of the warps from 0.
\<close>

definition block_square_sum :: "'v dev_ops \<Rightarrow> nat \<Rightarrow> 'v list \<Rightarrow> 'v" where
  "block_square_sum ops C ys = foldl (d_add ops) (d_zero ops) (map (\<lambda>w. balanced (d_add ops) 5
     (\<lambda>l. foldl (\<lambda>a x. d_add ops a (d_mul ops x x)) (d_zero ops)
       (map ((!) ys) (filter (\<lambda>k. k mod 256 = 32 * w + l) [0..<C])))) [0..<8])"

lemma warp_balanced: "fold (warp_step op) (halves 16) g (32 * w) = balanced op 5 (\<lambda>l. g (32 * w + l))"
proof -
  have "fold (warp_step op) (halves 16) g (32 * w) = tree op (halves (2 ^ 5 div 2)) (\<lambda>l. g (32 * w + l)) 0"
    using warp_is_tree [of 16 g w "\<lambda>l. g (32 * w + l)" op] by simp
  then show ?thesis by (simp only: tree_balanced)
qed

lemma rms_partial_exact:
  assumes "split_columns 256 C cs"
  shows "rms_partial ops 8 ys cs = block_square_sum ops C ys"
proof -
  have "balanced (d_add ops) 5 (\<lambda>l. collected (add_square ops) (d_zero ops) ys (cs (32 * w + l))) =
      balanced (d_add ops) 5 (\<lambda>l. foldl (\<lambda>a x. d_add ops a (d_mul ops x x)) (d_zero ops)
        (map ((!) ys) (filter (\<lambda>k. k mod 256 = 32 * w + l) [0..<C])))" if "w < 8" for w
  proof (rule balanced_cong)
    fix l assume "l < (2 :: nat) ^ 5"
    then have "32 * w + l < 256" using that by simp
    then show "collected (add_square ops) (d_zero ops) ys (cs (32 * w + l)) = foldl (\<lambda>a x. d_add ops a (d_mul ops x x)) (d_zero ops)
        (map ((!) ys) (filter (\<lambda>k. k mod 256 = 32 * w + l) [0..<C]))"
      using assms by (simp add: split_columns_def thread_columns_def collected_def add_square_eq)
  qed
  then show ?thesis unfolding rms_partial_def block_square_sum_def warp_balanced
    by (intro arg_cong [of _ _ "foldl (d_add ops) (d_zero ops)"] map_cong) auto
qed

text \<open>If the addition is associative and commutative, it is the sum of the squares in any order.\<close>

lemma block_square_sum_total:
  assumes "comm_monoid_set (d_add ops) (d_zero ops)"
  shows "block_square_sum ops C ys = square_sum ops ys C"
proof -
  have "split_columns 256 C (thread_columns 256 C)" by (simp add: split_columns_def)
  with rms_partial_exact [OF this, of ops ys] rms_partial_total [OF assms, of 8 C "thread_columns 256 C" ys] show ?thesis by simp
qed

text \<open>
  C31: \<open>launch_rms_norm\<close> stores each element times the factor of its row times its weight, in whatever order
  the threads run, also when the result replaces the input. The factor is \<open>rsqrt\<close> of the sum of squares of the
  row divided by the number of columns plus \<open>eps\<close>, the sum being exactly the value of the order of additions of
  \<open>block_square_sum\<close>, whatever the arithmetic of the element type is (that of floats is not associative).
\<close>

theorem rms_norm_rows:
  fixes ops :: "'v dev_ops" and eps :: 'v
  assumes sizes: "columns_ok 256 rows cols" and ok: "rows_ok m out inp (nat rows) (nat cols) xs [(weight, ws)]"
  defines "r \<equiv> \<lambda>b. d_rsqrt ops (d_add ops (d_div ops (block_square_sum ops (nat cols) (drop (b * nat cols) xs)) (d_of_int ops cols)) eps)"
  shows "stores (launch_rms_norm ops out inp weight rows cols eps) m out
    (map (\<lambda>k. d_mul ops (d_mul ops (xs ! k) (r (k div nat cols))) (weight_at weight (d_one ops) ws (k mod nat cols))) [0..<nat rows * nat cols])"
proof -
  let ?C = "nat cols"
  from with_columns_ok [OF sizes, of "(256 + 32 - 1) div 32" "rms_norm_kernel ops out inp weight cols eps 256"] obtain cs where
    L: "launch_rms_norm ops out inp weight rows cols eps = Some (launch_grid (nat rows) 256 (rms_norm_kernel ops out inp weight cols eps 256 cs), (256 + 32 - 1) div 32)"
    and cs: "split_columns 256 ?C cs" unfolding launch_rms_norm_def by blast
  have ok': "rows_ok m out inp (nat rows) ?C xs [(weight, ws), (None, [])]" using ok by (simp add: rows_ok_def array_ok_def)
  have r: "rms_factor ops cols eps (rms_partial ops 8 (row_at xs ?C b) cs) = r b" for b
    by (simp add: r_def rms_factor_def rms_partial_exact [OF cs] row_at_def)
  show ?thesis unfolding L
  proof (rule stores_rows [OF ok' rms_race_free [OF ok' cs refl], where f = "\<lambda>b i x. d_mul ops (d_mul ops x (r b)) (weight_at weight (d_one ops) ws i)"])
    fix b u assume reg: "\<And>t r. u (Reg b t r) \<noteq> None" and shar: "\<And>i. i < (256 + 32 - 1) div 32 \<Longrightarrow> u (Shar b i) \<noteq> None"
      and ready: "row_ready u b ?C out inp (row_at xs ?C b) [(weight, ws), (None, [])]"
    show "\<exists>u'. run_code (rms_norm_kernel ops out inp weight cols eps 256 cs) 256 b u = Inr u' \<and>
      (\<forall>i < ?C. u' (Glob (out + b * ?C + i)) = Some (d_mul ops (d_mul ops (row_at xs ?C b ! i) (r b)) (weight_at weight (d_one ops) ws i))) \<and>
      keeps (own b (row_cells out ?C b)) u u'"
      unfolding r [symmetric] by (rule rms_block [OF _ _ cs refl reg _ ready]) (use shar in simp_all)
  qed
qed

text \<open>
  \<open>launch_layer_norm\<close> subtracts the mean of the row and multiplies by its inverse deviation, then
  applies weight and bias; the variance is the mean of the squares less the square of the mean.
\<close>

theorem layer_norm_rows:
  assumes sizes: "columns_ok 256 rows cols" and ok: "rows_ok m out inp (nat rows) (nat cols) xs [(weight, ws), (bias, bs)]"
  shows "\<exists>mu sc. stores (launch_layer_norm ops out inp weight bias rows cols eps) m out
      (map (\<lambda>k. d_add ops (d_mul ops (d_mul ops (d_sub ops (xs ! k) (mu (k div nat cols))) (sc (k div nat cols)))
        (weight_at weight (d_one ops) ws (k mod nat cols))) (weight_at bias (d_zero ops) bs (k mod nat cols))) [0..<nat rows * nat cols]) \<and>
    (comm_monoid_set (d_add ops) (d_zero ops) \<longrightarrow>
      (\<forall>b < nat rows. mu b = layer_mean ops cols (plain_sum ops (row_at xs (nat cols) b) (nat cols)) \<and>
        sc b = layer_scale ops cols eps (mu b) (square_sum ops (row_at xs (nat cols) b) (nat cols))))"
proof -
  let ?C = "nat cols"
  from with_columns_ok [OF sizes, of "2 * 256" "layer_norm_kernel ops out inp weight bias cols eps 256"] obtain cs where
    L: "launch_layer_norm ops out inp weight bias rows cols eps = Some (launch_grid (nat rows) 256 (layer_norm_kernel ops out inp weight bias cols eps 256 cs), 2 * 256)"
    and cs: "split_columns 256 ?C cs" unfolding launch_layer_norm_def by blast
  let ?mu = "\<lambda>b. layer_mean ops cols (layer_total ops 256 (d_add ops) (row_at xs ?C b) cs)"
  let ?sc = "\<lambda>b. layer_scale ops cols eps (?mu b) (layer_total ops 256 (add_square ops) (row_at xs ?C b) cs)"
  have "stores (launch_layer_norm ops out inp weight bias rows cols eps) m out
      (map (\<lambda>k. d_add ops (d_mul ops (d_mul ops (d_sub ops (xs ! k) (?mu (k div ?C))) (?sc (k div ?C)))
        (weight_at weight (d_one ops) ws (k mod ?C))) (weight_at bias (d_zero ops) bs (k mod ?C))) [0..<nat rows * ?C])"
    unfolding L
  proof (rule stores_rows [OF ok layer_race_free [OF ok cs refl], where f = "\<lambda>b i x. d_add ops (d_mul ops (d_mul ops (d_sub ops x (?mu b)) (?sc b))
        (weight_at weight (d_one ops) ws i)) (weight_at bias (d_zero ops) bs i)"])
    fix b u assume reg: "\<And>t r. u (Reg b t r) \<noteq> None" and shar: "\<And>i. i < 2 * 256 \<Longrightarrow> u (Shar b i) \<noteq> None"
      and ready: "row_ready u b ?C out inp (row_at xs ?C b) [(weight, ws), (bias, bs)]"
    show "\<exists>u'. run_code (layer_norm_kernel ops out inp weight bias cols eps 256 cs) 256 b u = Inr u' \<and>
      (\<forall>i < ?C. u' (Glob (out + b * ?C + i)) = Some (d_add ops (d_mul ops (d_mul ops (d_sub ops (row_at xs ?C b ! i) (?mu b)) (?sc b))
        (weight_at weight (d_one ops) ws i)) (weight_at bias (d_zero ops) bs i))) \<and> keeps (own b (row_cells out ?C b)) u u'"
      by (rule layer_block [OF _ cs refl reg shar ready refl refl]) simp_all
  qed
  moreover have "?mu b = layer_mean ops cols (plain_sum ops (row_at xs ?C b) ?C) \<and> ?sc b = layer_scale ops cols eps (?mu b) (square_sum ops (row_at xs ?C b) ?C)"
    if "comm_monoid_set (d_add ops) (d_zero ops)" for b
    using layer_total_total [OF that cs] by simp
  ultimately show ?thesis by - (rule exI [of _ ?mu], rule exI [of _ ?sc], intro conjI impI allI; blast)
qed

text \<open>One row \<open>[3, 4]\<close>, in place.\<close>

lemma rms_norm_rows_witness: "stores (launch_rms_norm int_ops 0 0 None 1 2 1) (two_arrays 0 0 [3, 5] []) 0 [54, 90]"
proof -
  let ?m = "two_arrays 0 0 [3, 5 :: int] []"
  have ok: "rows_ok ?m 0 0 (nat 1) (nat 2) [3, 5] [(None, [])]"
    by (simp add: rows_ok_def array_ok_def holds_def room_def two_arrays_def apart_or_same_def All_less_Suc)
  have "columns_ok 256 1 2" by (simp add: columns_ok_def)
  note st = rms_norm_rows [OF this ok, of int_ops 1]
  have "{..<2} = {0, 1 :: nat}" by auto
  then have sq: "block_square_sum int_ops 2 [3, 5] = 34"
    using block_square_sum_total [OF int_sum.comm_monoid_set_axioms, of 2 "[3, 5]"]
    by (simp add: square_sum_def int_sum_total) (simp add: int_ops_def)
  have r: "d_rsqrt int_ops (d_add int_ops (d_div int_ops 34 (d_of_int int_ops 2)) 1) = 18" by (simp add: int_ops_def)
  have "map (\<lambda>k. d_mul int_ops (d_mul int_ops ([3, 5] ! k) (d_rsqrt int_ops (d_add int_ops (d_div int_ops
      (block_square_sum int_ops (nat 2) (drop (k div nat 2 * nat 2) [3, 5])) (d_of_int int_ops 2)) 1)))
      (weight_at None (d_one int_ops) [] (k mod nat 2))) [0..<nat 1 * nat 2] = [54, 90]"
    by (simp add: upt_rec sq r weight_at_def) (simp add: int_ops_def)
  with st show ?thesis by (simp only:)
qed

lemma layer_norm_rows_witness: "\<exists>mu sc. stores (launch_layer_norm int_ops 0 0 None None 1 2 0) (two_arrays 0 0 [3, 4] []) 0 [(3 - mu) * sc, (4 - mu) * sc]"
proof -
  let ?m = "two_arrays 0 0 [3, 4 :: int] []"
  have ok: "rows_ok ?m 0 0 (nat 1) (nat 2) [3, 4] [(None, []), (None, [])]"
    by (simp add: rows_ok_def array_ok_def holds_def room_def two_arrays_def apart_or_same_def All_less_Suc)
  have "columns_ok 256 1 2" by (simp add: columns_ok_def)
  from layer_norm_rows [OF this ok, of int_ops 0] obtain mu sc where
    "stores (launch_layer_norm int_ops 0 0 None None 1 2 0) ?m 0
      (map (\<lambda>k. d_add int_ops (d_mul int_ops (d_mul int_ops (d_sub int_ops ([3, 4] ! k) (mu (k div nat 2))) (sc (k div nat 2)))
        (weight_at None (d_one int_ops) [] (k mod nat 2))) (weight_at None (d_zero int_ops) [] (k mod nat 2))) [0..<nat 1 * nat 2])" by blast
  then show ?thesis by - (rule exI [of _ "mu 0"], rule exI [of _ "sc 0"], simp add: int_ops_def weight_at_def upt_rec)
qed

end
