(* ===== verification/Gpu_Scheduler.thy ===== *)
theory Gpu_Scheduler
  imports Gpu_Tensor
begin

text \<open>
  \<open>gpu/gpu_scheduler.cpp\<close>: the tasks - copies, kernels, matrix products - and \<open>GpuScheduler\<close>, whose one
  worker thread takes tasks from a queue and runs them while the calling thread submits tasks, handles
  streams and shuts the scheduler down. The flag \<open>running_\<close> is a plain \<open>bool\<close> that both threads use.
\<close>

section \<open>Tasks\<close>

datatype copy_direction = HostToDevice | DeviceToHost | DeviceToDevice | HostToHost

type_synonym kernel_fn = "ptr \<Rightarrow> mem \<Rightarrow> mem comp"

definition MemcpyTask_execute :: "gpu_runtime \<Rightarrow> ptr \<Rightarrow> ptr \<Rightarrow> size_t \<Rightarrow> copy_direction \<Rightarrow> mem \<Rightarrow> mem comp" where
  "MemcpyTask_execute rt dst src bytes kind m =
     (case kind of
        HostToDevice \<Rightarrow> cuda_check (rt_memcpy rt CopyH2D dst src (unat bytes) m)
      | DeviceToHost \<Rightarrow> cuda_check (rt_memcpy rt CopyD2H dst src (unat bytes) m)
      | DeviceToDevice \<Rightarrow> cuda_check (rt_memcpy rt CopyD2D dst src (unat bytes) m)
      | HostToHost \<Rightarrow> memcpy dst src bytes m)"

definition KernelTask_execute :: "kernel_fn option \<Rightarrow> ptr \<Rightarrow> mem \<Rightarrow> mem comp" where
  "KernelTask_execute fn stream m = (case fn of None \<Rightarrow> Inr m | Some f \<Rightarrow> f stream m)"

text \<open>
  \<open>GemmTask\<close>: the arguments of \<open>cublasSgemm\<close> in their order, \<open>True\<close> for \<open>CUBLAS_OP_T\<close>. The call is a
  parameter; it has no result when its status is an error. \<open>static_cast<int>\<close> keeps 32 bits.
\<close>

record gemm_args =
  ga_trans1 :: bool
  ga_trans2 :: bool
  ga_m :: int
  ga_n :: int
  ga_k :: int
  ga_a :: ptr
  ga_lda :: int
  ga_b :: ptr
  ga_ldb :: int
  ga_c :: ptr
  ga_ldc :: int

definition to_int :: "index_t \<Rightarrow> int" where
  "to_int i = sint (word_of_int i :: 32 word)"

definition GemmTask_args :: "GpuTensor \<Rightarrow> GpuTensor \<Rightarrow> GpuTensor \<Rightarrow> bool \<Rightarrow> bool \<Rightarrow> gemm_args comp" where
  "GemmTask_args A B C trans_a trans_b =
     rbind (aget (gt_shape C) 0) (\<lambda>c0. rbind (aget (gt_shape C) 1) (\<lambda>c1. rbind (aget (gt_shape A) (if trans_a then 0 else 1)) (\<lambda>a.
       let m = to_int c0; n = to_int c1; k = to_int a in
       Inr \<lparr>ga_trans1 = trans_b, ga_trans2 = trans_a, ga_m = n, ga_n = m, ga_k = k, ga_a = gt_data B, ga_lda = (if trans_b then n else k),
            ga_b = gt_data A, ga_ldb = (if trans_a then k else m), ga_c = gt_data C, ga_ldc = m\<rparr>)))"

definition GemmTask_execute ::
  "('f \<Rightarrow> 'f \<Rightarrow> gemm_args \<Rightarrow> mem \<Rightarrow> mem option) \<Rightarrow> GpuTensor \<Rightarrow> GpuTensor \<Rightarrow> GpuTensor \<Rightarrow> 'f \<Rightarrow> 'f \<Rightarrow> bool \<Rightarrow> bool \<Rightarrow> mem \<Rightarrow> mem comp" where
  "GemmTask_execute sgemm A B C alpha beta trans_a trans_b m =
     rbind (GemmTask_args A B C trans_a trans_b) (\<lambda>args. cuda_check (sgemm alpha beta args m))"

section \<open>Which products the arguments name\<close>

text \<open>
  What the documentation says of the arguments: matrices are stored by columns, \<open>ld\<close> is the distance
  between columns and not less than the number of rows, which is \<open>m\<close> or \<open>k\<close> for the first operand as it
  is transposed or not, \<open>k\<close> or \<open>n\<close> for the second, \<open>m\<close> for the result. Other arguments are refused.
\<close>

definition gemm_valid :: "gemm_args \<Rightarrow> bool" where
  "gemm_valid g \<longleftrightarrow> 0 \<le> ga_m g \<and> 0 \<le> ga_n g \<and> 0 \<le> ga_k g \<and> max 1 (if ga_trans1 g then ga_k g else ga_m g) \<le> ga_lda g \<and>
     max 1 (if ga_trans2 g then ga_n g else ga_k g) \<le> ga_ldb g \<and> max 1 (ga_m g) \<le> ga_ldc g"

definition gemm_first :: "gemm_args \<Rightarrow> int \<Rightarrow> int \<Rightarrow> int" where
  "gemm_first g i l = (if ga_trans1 g then l + i * ga_lda g else i + l * ga_lda g)"

definition gemm_second :: "gemm_args \<Rightarrow> int \<Rightarrow> int \<Rightarrow> int" where
  "gemm_second g l j = (if ga_trans2 g then j + l * ga_ldb g else l + j * ga_ldb g)"

definition gemm_out :: "gemm_args \<Rightarrow> int \<Rightarrow> int \<Rightarrow> int" where
  "gemm_out g i j = i + j * ga_ldc g"

text \<open>
  The tensors are stored by rows: entry \<open>(r, l)\<close> of \<open>A\<close>, transposed if asked, entry \<open>(l, c)\<close> of \<open>B\<close>, entry
  \<open>(r, c)\<close> of \<open>C\<close>. The call multiplies \<open>B\<close> by \<open>A\<close>, so that its result read by rows is the product \<open>A B\<close>.
\<close>

definition product_addressed :: "gemm_args \<Rightarrow> int \<Rightarrow> int \<Rightarrow> int \<Rightarrow> bool \<Rightarrow> bool \<Rightarrow> bool" where
  "product_addressed g m n k trans_a trans_b \<longleftrightarrow>
     (\<forall>r l. 0 \<le> r \<and> r < m \<and> 0 \<le> l \<and> l < k \<longrightarrow> gemm_second g l r = (if trans_a then l * m + r else r * k + l)) \<and>
     (\<forall>l c. 0 \<le> l \<and> l < k \<and> 0 \<le> c \<and> c < n \<longrightarrow> gemm_first g c l = (if trans_b then c * k + l else l * n + c)) \<and>
     (\<forall>r c. 0 \<le> r \<and> r < m \<and> 0 \<le> c \<and> c < n \<longrightarrow> gemm_out g c r = r * n + c)"

text \<open>Tensors of two dimensions with the shapes of a product.\<close>

definition gemm_shapes :: "GpuTensor \<Rightarrow> GpuTensor \<Rightarrow> GpuTensor \<Rightarrow> bool \<Rightarrow> bool \<Rightarrow> int \<Rightarrow> int \<Rightarrow> int \<Rightarrow> bool" where
  "gemm_shapes A B C trans_a trans_b m n k \<longleftrightarrow> gt_shape A = (if trans_a then [k, m] else [m, k]) \<and>
     gt_shape B = (if trans_b then [n, k] else [k, n]) \<and> gt_shape C = [m, n] \<and>
     (\<forall>d \<in> {m, n, k}. 2 \<le> d \<and> d < 2 ^ 31)"

lemma to_int_small: "0 \<le> i \<Longrightarrow> i < 2 ^ 31 \<Longrightarrow> to_int i = i"
  by (simp add: to_int_def signed_of_int signed_take_bit_int_eq_self)

lemma gemm_args_shapes:
  assumes "gemm_shapes A B C trans_a trans_b m n k"
  shows "GemmTask_args A B C trans_a trans_b =
    Inr \<lparr>ga_trans1 = trans_b, ga_trans2 = trans_a, ga_m = n, ga_n = m, ga_k = k, ga_a = gt_data B, ga_lda = (if trans_b then n else k),
      ga_b = gt_data A, ga_ldb = (if trans_a then k else m), ga_c = gt_data C, ga_ldc = m\<rparr>"
  using assms by (auto simp: GemmTask_args_def gemm_shapes_def aget_def to_int_small Let_def)

text \<open>
  C37: the leading dimensions \<open>GemmTask\<close> passes are those of the product of its tensors only if the three
  dimensions are equal; if the result has more columns than rows, the call is refused and the process
  ends.
\<close>

theorem gemm_square_only:
  assumes shapes: "gemm_shapes A B C trans_a trans_b m n k"
  shows "\<exists>g. GemmTask_args A B C trans_a trans_b = Inr g \<and>
    (gemm_valid g \<and> product_addressed g m n k trans_a trans_b \<longleftrightarrow> m = n \<and> n = k) \<and>
    (m < n \<longrightarrow> (\<forall>sgemm alpha beta mm. (\<forall>g'. \<not> gemm_valid g' \<longrightarrow> sgemm alpha beta g' mm = None) \<longrightarrow>
       GemmTask_execute sgemm A B C alpha beta trans_a trans_b mm = Inl Process_Exit))"
proof -
  let ?g = "\<lparr>ga_trans1 = trans_b, ga_trans2 = trans_a, ga_m = n, ga_n = m, ga_k = k, ga_a = gt_data B, ga_lda = (if trans_b then n else k),
      ga_b = gt_data A, ga_ldb = (if trans_a then k else m), ga_c = gt_data C, ga_ldc = m\<rparr>"
  have pos: "2 \<le> m" "2 \<le> n" "2 \<le> k" using shapes by (simp_all add: gemm_shapes_def)
  have "m = n \<and> n = k" if "product_addressed ?g m n k trans_a trans_b"
  proof -
    have out: "gemm_out ?g 0 1 = 1 * n + 0" and first: "gemm_first ?g c l = (if trans_b then c * k + l else l * n + c)"
      if "0 \<le> c" "c < n" "0 \<le> l" "l < k" for c l
      using \<open>product_addressed ?g m n k trans_a trans_b\<close> pos that unfolding product_addressed_def by (elim conjE, simp)+
    have "m = n" using out [of 0 0] pos by (simp add: gemm_out_def)
    moreover have "n = k" using first [of 1 0] first [of 0 1] pos by (cases trans_b) (simp_all add: gemm_first_def)
    ultimately show ?thesis by simp
  qed
  moreover have "gemm_valid ?g \<and> product_addressed ?g m n k trans_a trans_b" if "m = n \<and> n = k"
    using that pos by (simp add: gemm_valid_def product_addressed_def gemm_first_def gemm_second_def gemm_out_def algebra_simps)
  moreover have "\<not> gemm_valid ?g" if "m < n" using that by (simp add: gemm_valid_def)
  ultimately show ?thesis using gemm_args_shapes [OF shapes] by (intro exI [of _ ?g]) (auto simp: GemmTask_execute_def cuda_check_def)
qed

lemma gemm_square_only_witness:
  "\<exists>g. GemmTask_args (GpuTensor_default\<lparr>gt_shape := [2, 2]\<rparr>) (GpuTensor_default\<lparr>gt_shape := [2, 3]\<rparr>) (GpuTensor_default\<lparr>gt_shape := [2, 3]\<rparr>) False False = Inr g \<and>
    \<not> (gemm_valid g \<and> product_addressed g 2 3 2 False False)"
  using gemm_square_only [of "GpuTensor_default\<lparr>gt_shape := [2, 2]\<rparr>" "GpuTensor_default\<lparr>gt_shape := [2, 3]\<rparr>"
      "GpuTensor_default\<lparr>gt_shape := [2, 3]\<rparr>" False False 2 3 2]
  by (auto simp: gemm_shapes_def)

section \<open>The scheduler\<close>

text \<open>
  A queued task is a number with the stream \<open>submit\<close> gave it. The worker is between two accesses to what
  the threads share; the client is in the middle of \<open>shutdown\<close> or idle. \<open>sc_live\<close> are the streams that
  exist, \<open>sc_submitted\<close> and \<open>sc_ran\<close> the history.
\<close>

type_synonym queued = "nat \<times> ptr"

datatype gworker = G_None | G_Check | G_Take | G_Run queued | G_Sleep | G_Ended
datatype gclient = G_Idle | G_Sync | G_Streams | G_Join

record GpuScheduler =
  sc_device_id :: int
  sc_info :: GpuDeviceInfo
  sc_stream :: ptr
  sc_queue :: "queued list"
  sc_streams :: "ptr list"
  sc_running :: bool
  sc_initialized :: bool
  sc_worker :: gworker
  sc_client :: gclient
  sc_live :: "ptr list"
  sc_submitted :: "queued list"
  sc_ran :: "queued list"

definition GpuScheduler_new :: GpuScheduler where
  "GpuScheduler_new = \<lparr>sc_device_id = 0, sc_info = GpuDeviceInfo_default, sc_stream = nullptr, sc_queue = [], sc_streams = [], sc_running = False,
     sc_initialized = False, sc_worker = G_None, sc_client = G_Idle, sc_live = [], sc_submitted = [], sc_ran = []\<rparr>"

text \<open>
  What the runtime answers is an argument: the properties of a device, a stream. A second \<open>initialize\<close>
  assigns to a \<open>std::thread\<close> that is still joinable, which ends the process.
\<close>

definition sched_initialize :: "(int \<Rightarrow> GpuDeviceInfo option) \<Rightarrow> ptr option \<Rightarrow> int \<Rightarrow> GpuScheduler \<Rightarrow> GpuScheduler comp" where
  "sched_initialize props st device_id s =
     rbind (cuda_check (props device_id)) (\<lambda>prop. rbind (cuda_check st) (\<lambda>stream.
       if sc_worker s \<noteq> G_None then Inl Process_Exit
       else Inr (s\<lparr>sc_device_id := device_id,
         sc_info := (sc_info s)\<lparr>gi_device_id := device_id, gi_name := take 255 (gi_name prop), gi_total_global_mem := gi_total_global_mem prop,
           gi_compute_version_major := gi_compute_version_major prop, gi_compute_version_minor := gi_compute_version_minor prop\<rparr>,
         sc_stream := stream, sc_live := stream # sc_live s, sc_initialized := True, sc_running := True, sc_worker := G_Check\<rparr>)))"

definition sched_submit :: "nat option \<Rightarrow> GpuScheduler \<Rightarrow> GpuScheduler comp" where
  "sched_submit task s = (case task of None \<Rightarrow> Inl Null_Deref
     | Some t \<Rightarrow> Inr (s\<lparr>sc_queue := sc_queue s @ [(t, sc_stream s)], sc_submitted := sc_submitted s @ [(t, sc_stream s)]\<rparr>))"

text \<open>The runtime refuses to wait for a stream that does not exist.\<close>

definition sched_synchronize :: "GpuScheduler \<Rightarrow> GpuScheduler comp" where
  "sched_synchronize s = (if sc_stream s \<noteq> nullptr \<and> sc_stream s \<notin> set (sc_live s) then Inl Process_Exit else Inr s)"

definition sched_create_stream :: "ptr option \<Rightarrow> GpuScheduler \<Rightarrow> (ptr \<times> GpuScheduler) comp" where
  "sched_create_stream st s = rbind (cuda_check st) (\<lambda>p. Inr (p, s\<lparr>sc_streams := sc_streams s @ [p], sc_live := p # sc_live s\<rparr>))"

definition sched_destroy_stream :: "ptr \<Rightarrow> GpuScheduler \<Rightarrow> GpuScheduler" where
  "sched_destroy_stream st s =
     (if st \<noteq> nullptr then s\<lparr>sc_live := removeAll st (sc_live s), sc_streams := remove1 st (sc_streams s)\<rparr> else s)"

definition sched_set_stream :: "ptr \<Rightarrow> GpuScheduler \<Rightarrow> GpuScheduler" where
  "sched_set_stream st s = s\<lparr>sc_stream := st\<rparr>"

definition sched_memcpy_h2d :: "gpu_runtime \<Rightarrow> ptr \<Rightarrow> ptr \<Rightarrow> size_t \<Rightarrow> mem \<Rightarrow> mem comp" where
  "sched_memcpy_h2d rt dst src bytes m = cuda_check (rt_memcpy rt CopyH2D dst src (unat bytes) m)"

definition sched_memcpy_d2h :: "gpu_runtime \<Rightarrow> ptr \<Rightarrow> ptr \<Rightarrow> size_t \<Rightarrow> mem \<Rightarrow> mem comp" where
  "sched_memcpy_d2h rt dst src bytes m = cuda_check (rt_memcpy rt CopyD2H dst src (unat bytes) m)"

definition sched_memcpy_d2d :: "gpu_runtime \<Rightarrow> ptr \<Rightarrow> ptr \<Rightarrow> size_t \<Rightarrow> mem \<Rightarrow> mem comp" where
  "sched_memcpy_d2d rt dst src bytes m = cuda_check (rt_memcpy rt CopyD2D dst src (unat bytes) m)"

text \<open>\<open>shutdown\<close>, and what it does step by step after it has cleared the flag; the last step waits for the worker.\<close>

definition sched_shutdown :: "GpuScheduler \<Rightarrow> GpuScheduler" where
  "sched_shutdown s = (if sc_running s then s\<lparr>sc_running := False, sc_client := G_Sync\<rparr> else s)"

definition sched_client :: "GpuScheduler \<Rightarrow> GpuScheduler comp option" where
  "sched_client s = (case sc_client s of
       G_Idle \<Rightarrow> None
     | G_Sync \<Rightarrow> Some (rbind (sched_synchronize s) (\<lambda>s. Inr (s\<lparr>sc_client := G_Streams\<rparr>)))
     | G_Streams \<Rightarrow> Some (Inr (s\<lparr>sc_live := filter (\<lambda>p. p \<notin> set (sc_streams s)) (sc_live s), sc_streams := [], sc_client := G_Join\<rparr>))
     | G_Join \<Rightarrow> if sc_worker s = G_Ended \<or> sc_worker s = G_None
         then Some (Inr (s\<lparr>sc_worker := G_None, sc_initialized := False, sc_client := G_Idle\<rparr>)) else None)"

text \<open>The loop of the worker and \<open>process_queue\<close>; the task runs between two steps.\<close>

definition sched_worker :: "GpuScheduler \<Rightarrow> GpuScheduler option" where
  "sched_worker s = (case sc_worker s of
       G_None \<Rightarrow> None
     | G_Check \<Rightarrow> Some (s\<lparr>sc_worker := (if sc_running s then G_Take else G_Ended)\<rparr>)
     | G_Take \<Rightarrow> (case sc_queue s of [] \<Rightarrow> Some (s\<lparr>sc_worker := G_Sleep\<rparr>) | t # ts \<Rightarrow> Some (s\<lparr>sc_queue := ts, sc_worker := G_Run t\<rparr>))
     | G_Run t \<Rightarrow> Some (s\<lparr>sc_ran := sc_ran s @ [t], sc_worker := G_Sleep\<rparr>)
     | G_Sleep \<Rightarrow> Some (s\<lparr>sc_worker := G_Check\<rparr>)
     | G_Ended \<Rightarrow> None)"

datatype sched_op =
    Op_Initialize "int \<Rightarrow> GpuDeviceInfo option" "ptr option" int
  | Op_Submit "nat option"
  | Op_Synchronize
  | Op_Create "ptr option"
  | Op_Destroy ptr
  | Op_Set ptr
  | Op_Shutdown

fun sched_call :: "sched_op \<Rightarrow> GpuScheduler \<Rightarrow> GpuScheduler comp" where
  "sched_call (Op_Initialize props st d) s = sched_initialize props st d s"
| "sched_call (Op_Submit t) s = sched_submit t s"
| "sched_call Op_Synchronize s = sched_synchronize s"
| "sched_call (Op_Create st) s = rbind (sched_create_stream st s) (\<lambda>(p, s'). Inr s')"
| "sched_call (Op_Destroy p) s = Inr (sched_destroy_stream p s)"
| "sched_call (Op_Set p) s = Inr (sched_set_stream p s)"
| "sched_call Op_Shutdown s = Inr (sched_shutdown s)"

inductive sched_step :: "GpuScheduler \<Rightarrow> GpuScheduler comp \<Rightarrow> bool" where
  sched_works: "sched_worker s = Some s' \<Longrightarrow> sched_step s (Inr s')"
| sched_goes_on: "sched_client s = Some r \<Longrightarrow> sched_step s r"
| sched_called: "sc_client s = G_Idle \<Longrightarrow> sched_step s (sched_call op s)"

inductive sched_reach :: "GpuScheduler \<Rightarrow> bool" where
  sched_start: "sched_reach GpuScheduler_new"
| sched_next: "sched_reach s \<Longrightarrow> sched_step s (Inr s') \<Longrightarrow> sched_reach s'"

text \<open>A build without CUDA.\<close>

definition nocuda_initialize :: "GpuScheduler \<Rightarrow> GpuScheduler" where "nocuda_initialize s = s\<lparr>sc_initialized := True\<rparr>"
definition nocuda_shutdown :: "GpuScheduler \<Rightarrow> GpuScheduler" where "nocuda_shutdown s = s\<lparr>sc_initialized := False\<rparr>"
definition nocuda_submit :: "nat option \<Rightarrow> GpuScheduler \<Rightarrow> GpuScheduler" where "nocuda_submit task s = s"
definition nocuda_create_stream :: "GpuScheduler \<Rightarrow> ptr \<times> GpuScheduler" where "nocuda_create_stream s = (nullptr, s)"

section \<open>Tasks run in order\<close>

definition taken :: "GpuScheduler \<Rightarrow> queued list" where
  "taken s = (case sc_worker s of G_Run t \<Rightarrow> [t] | _ \<Rightarrow> [])"

definition queue_inv :: "GpuScheduler \<Rightarrow> bool" where
  "queue_inv s \<longleftrightarrow> sc_submitted s = sc_ran s @ taken s @ sc_queue s"

definition thread_inv :: "GpuScheduler \<Rightarrow> bool" where
  "thread_inv s \<longleftrightarrow> (sc_running s \<longrightarrow> sc_client s = G_Idle) \<and> (sc_worker s = G_None \<longleftrightarrow> \<not> sc_running s \<and> sc_client s = G_Idle) \<and>
     (sc_worker s = G_Ended \<longrightarrow> sc_client s \<noteq> G_Idle) \<and> (sc_initialized s \<longleftrightarrow> sc_running s \<or> sc_client s \<noteq> G_Idle)"

lemma sched_worker_inv:
  assumes "sched_worker s = Some s'" and "queue_inv s \<and> thread_inv s"
  shows "queue_inv s' \<and> thread_inv s'"
proof (cases "sc_worker s")
  case G_Take
  then show ?thesis using assms by (cases "sc_queue s") (auto simp: sched_worker_def queue_inv_def taken_def thread_inv_def)
qed (use assms in \<open>auto simp: sched_worker_def queue_inv_def taken_def thread_inv_def\<close>)

lemma sched_client_inv:
  assumes "sched_client s = Some (Inr s')" and "queue_inv s \<and> thread_inv s"
  shows "queue_inv s' \<and> thread_inv s'"
proof (cases "sc_client s")
  case G_Sync
  then have "s' = s\<lparr>sc_client := G_Streams\<rparr>" using assms(1) by (simp add: sched_client_def sched_synchronize_def split: if_splits)
  then show ?thesis using assms(2) G_Sync by (simp add: queue_inv_def taken_def thread_inv_def)
next
  case G_Streams
  then have "s' = s\<lparr>sc_live := filter (\<lambda>p. p \<notin> set (sc_streams s)) (sc_live s), sc_streams := [], sc_client := G_Join\<rparr>"
    using assms(1) by (simp add: sched_client_def)
  then show ?thesis using assms(2) G_Streams by (simp add: queue_inv_def taken_def thread_inv_def)
next
  case G_Join
  then have "s' = s\<lparr>sc_worker := G_None, sc_initialized := False, sc_client := G_Idle\<rparr>" "sc_worker s = G_Ended \<or> sc_worker s = G_None"
    using assms(1) by (simp_all add: sched_client_def split: if_splits)
  then show ?thesis using assms(2) G_Join by (auto simp: queue_inv_def taken_def thread_inv_def)
qed (use assms in \<open>simp add: sched_client_def\<close>)

lemma sched_call_inv:
  assumes "sched_call op s = Inr s'" and "sc_client s = G_Idle" and "queue_inv s \<and> thread_inv s"
  shows "queue_inv s' \<and> thread_inv s'"
proof (cases op)
  case (Op_Initialize props st d)
  then show ?thesis using assms
    by (cases "props d"; cases st) (auto simp: sched_initialize_def cuda_check_def queue_inv_def taken_def thread_inv_def split: if_splits)
next
  case (Op_Submit t)
  then show ?thesis using assms by (cases t) (auto simp: sched_submit_def queue_inv_def taken_def thread_inv_def)
next
  case Op_Synchronize
  then show ?thesis using assms by (simp add: sched_synchronize_def split: if_splits)
next
  case (Op_Create st)
  then show ?thesis using assms by (cases st) (auto simp: sched_create_stream_def cuda_check_def queue_inv_def taken_def thread_inv_def)
next
  case (Op_Destroy p)
  then have "s' = s \<or> s' = s\<lparr>sc_live := removeAll p (sc_live s), sc_streams := remove1 p (sc_streams s)\<rparr>"
    using assms(1) by (simp add: sched_destroy_stream_def split: if_splits)
  then show ?thesis using assms(3) by (elim disjE) (simp_all add: queue_inv_def taken_def thread_inv_def)
next
  case (Op_Set p)
  then have "s' = s\<lparr>sc_stream := p\<rparr>" using assms(1) by (simp add: sched_set_stream_def)
  then show ?thesis using assms(3) by (simp add: queue_inv_def taken_def thread_inv_def)
next
  case Op_Shutdown
  then have "s' = (if sc_running s then s\<lparr>sc_running := False, sc_client := G_Sync\<rparr> else s)" using assms(1) by (simp add: sched_shutdown_def)
  then show ?thesis using assms(2,3) by (cases "sc_running s") (simp_all add: queue_inv_def taken_def thread_inv_def)
qed

lemma gpu_thread_inv: "sched_reach s \<Longrightarrow> queue_inv s \<and> thread_inv s"
proof (induction rule: sched_reach.induct)
  case sched_start
  then show ?case by (simp add: GpuScheduler_new_def queue_inv_def taken_def thread_inv_def)
next
  case (sched_next s s')
  from sched_next.hyps(2) show ?case
  proof (cases rule: sched_step.cases)
    case sched_works
    then show ?thesis using sched_next.IH sched_worker_inv [of s s'] by simp
  next
    case sched_goes_on
    then show ?thesis using sched_next.IH sched_client_inv [of s s'] by simp
  next
    case (sched_called op)
    then show ?thesis using sched_next.IH sched_call_inv [of op s s'] by simp
  qed
qed

text \<open>
  C36: in every state the worker and the caller reach, the tasks accepted are those that ran, the one that
  runs and those that wait, in the order of their submission; \<open>shutdown\<close> returns only after it has joined
  the worker, and there is a worker whenever the scheduler runs.
\<close>

theorem gpu_tasks_in_order:
  assumes "sched_reach s"
  shows "sc_submitted s = sc_ran s @ taken s @ sc_queue s \<and> (sc_worker s = G_None \<longleftrightarrow> \<not> sc_running s \<and> sc_client s = G_Idle)"
  using gpu_thread_inv [OF assms] by (simp add: queue_inv_def thread_inv_def)

text \<open>Runs of the scheduler, for examples: a step of the worker, of \<open>shutdown\<close>, or a call.\<close>

datatype sched_move = Worker_Step | Shutdown_Step | Call sched_op

fun sched_do :: "sched_move \<Rightarrow> GpuScheduler \<Rightarrow> GpuScheduler option" where
  "sched_do Worker_Step s = sched_worker s"
| "sched_do Shutdown_Step s = (case sched_client s of Some (Inr s') \<Rightarrow> Some s' | _ \<Rightarrow> None)"
| "sched_do (Call op) s = (if sc_client s = G_Idle then (case sched_call op s of Inr s' \<Rightarrow> Some s' | Inl _ \<Rightarrow> None) else None)"

fun sched_run :: "sched_move list \<Rightarrow> GpuScheduler \<Rightarrow> GpuScheduler option" where
  "sched_run [] s = Some s"
| "sched_run (x # xs) s = Option.bind (sched_do x s) (sched_run xs)"

lemma sched_run_reach: "sched_run xs s = Some s' \<Longrightarrow> sched_reach s \<Longrightarrow> sched_reach s'"
proof (induction xs arbitrary: s)
  case (Cons x xs)
  then obtain s1 where s1: "sched_do x s = Some s1" "sched_run xs s1 = Some s'" by (cases "sched_do x s") auto
  have "sched_step s (Inr s1)"
  proof (cases x)
    case (Call op)
    then show ?thesis using s1(1) sched_called [of s op] by (auto split: if_splits sum.splits)
  qed (use s1(1) in \<open>auto intro: sched_works sched_goes_on split: option.splits sum.splits\<close>)
  with Cons s1(2) show ?case by (blast intro: sched_next)
qed simp

definition some_device :: "int \<Rightarrow> GpuDeviceInfo option" where "some_device d = Some GpuDeviceInfo_default"

lemma sched_run_reaches: "sched_run xs GpuScheduler_new = Some s \<Longrightarrow> sched_reach s"
  by (rule sched_run_reach [OF _ sched_start])

lemma gpu_tasks_in_order_witness:
  "\<exists>s. sched_run [Call (Op_Initialize some_device (Some 8) 0), Call (Op_Submit (Some 1)), Call (Op_Submit (Some 2)), Worker_Step, Worker_Step] GpuScheduler_new = Some s \<and>
     sc_submitted s = sc_ran s @ taken s @ sc_queue s \<and> taken s = [(1, 8)] \<and> sc_queue s = [(2, 8)]"
proof -
  let ?xs = "[Call (Op_Initialize some_device (Some 8) 0), Call (Op_Submit (Some 1)), Call (Op_Submit (Some 2)), Worker_Step, Worker_Step]"
  have "sched_run ?xs GpuScheduler_new \<noteq> None"
    by (simp add: GpuScheduler_new_def sched_initialize_def sched_submit_def cuda_check_def some_device_def sched_worker_def)
  then obtain s where s: "sched_run ?xs GpuScheduler_new = Some s" by blast
  then have "taken s = [(1, 8)]" "sc_queue s = [(2, 8)]"
    by (auto simp: GpuScheduler_new_def sched_initialize_def sched_submit_def cuda_check_def some_device_def sched_worker_def taken_def)
  with s gpu_tasks_in_order [OF sched_run_reaches [OF s]] show ?thesis by blast
qed

section \<open>What shutdown leaves behind\<close>

text \<open>Once the flag is cleared, each step of the worker brings it closer to its end, whatever is queued.\<close>

definition worker_rank :: "gworker \<Rightarrow> nat" where
  "worker_rank w = (case w of G_Take \<Rightarrow> 4 | G_Run _ \<Rightarrow> 3 | G_Sleep \<Rightarrow> 2 | G_Check \<Rightarrow> 1 | _ \<Rightarrow> 0)"

text \<open>
  \<open>shutdown\<close> returns: the thread it waits for is never stuck before its end, every step brings it
  closer, and when it has ended the wait is over.
\<close>

theorem gpu_shutdown_returns:
  assumes "sched_reach s" and "sc_client s = G_Join"
  shows "(case sched_worker s of None \<Rightarrow> \<exists>s'. sched_client s = Some (Inr s') \<and> sc_client s' = G_Idle \<and> sc_worker s' = G_None
    | Some s' \<Rightarrow> worker_rank (sc_worker s') < worker_rank (sc_worker s) \<and> sc_client s' = G_Join \<and> \<not> sc_running s')"
proof -
  have "\<not> sc_running s" using gpu_thread_inv [OF assms(1)] assms(2) by (auto simp: thread_inv_def)
  with assms(2) show ?thesis
    by (cases "sc_worker s"; cases "sc_queue s") (simp_all add: sched_worker_def sched_client_def worker_rank_def)
qed

text \<open>Tasks that wait when the scheduler shuts down are never run, though they were accepted.\<close>

lemma shutdown_leaves_tasks:
  "\<exists>s. sched_reach s \<and> sc_client s = G_Idle \<and> \<not> sc_initialized s \<and> sc_worker s = G_None \<and> sc_queue s = [(1, 8)] \<and> sc_ran s = []"
proof -
  let ?xs = "[Call (Op_Initialize some_device (Some 8) 0), Call (Op_Submit (Some 1)), Call Op_Shutdown, Worker_Step, Shutdown_Step, Shutdown_Step, Shutdown_Step]"
  have "sched_run ?xs GpuScheduler_new \<noteq> None"
    by (simp add: GpuScheduler_new_def sched_initialize_def sched_submit_def sched_shutdown_def cuda_check_def some_device_def sched_worker_def
        sched_client_def sched_synchronize_def)
  then obtain s where s: "sched_run ?xs GpuScheduler_new = Some s" by blast
  then have "sc_client s = G_Idle \<and> \<not> sc_initialized s \<and> sc_worker s = G_None \<and> sc_queue s = [(1, 8)] \<and> sc_ran s = []"
    by (auto simp: GpuScheduler_new_def sched_initialize_def sched_submit_def sched_shutdown_def cuda_check_def some_device_def sched_worker_def
        sched_client_def sched_synchronize_def)
  with sched_run_reaches [OF s] show ?thesis by blast
qed

lemma gpu_shutdown_returns_witness:
  "\<exists>s. sched_run [Call (Op_Initialize some_device (Some 8) 0), Call Op_Shutdown, Shutdown_Step, Shutdown_Step] GpuScheduler_new = Some s \<and>
     (\<exists>s'. sched_worker s = Some s' \<and> worker_rank (sc_worker s') < worker_rank (sc_worker s))"
proof -
  let ?xs = "[Call (Op_Initialize some_device (Some 8) 0), Call Op_Shutdown, Shutdown_Step, Shutdown_Step]"
  have "sched_run ?xs GpuScheduler_new \<noteq> None"
    by (simp add: GpuScheduler_new_def sched_initialize_def sched_shutdown_def cuda_check_def some_device_def sched_client_def sched_synchronize_def)
  then obtain s where s: "sched_run ?xs GpuScheduler_new = Some s" by blast
  then have w: "sc_client s = G_Join" "sc_worker s = G_Check"
    by (auto simp: GpuScheduler_new_def sched_initialize_def sched_shutdown_def cuda_check_def some_device_def sched_client_def sched_synchronize_def)
  from gpu_shutdown_returns [OF sched_run_reaches [OF s] w(1)] w(2) s show ?thesis
    by (cases "sched_worker s") (auto simp: sched_worker_def)
qed

text \<open>
  \<open>shutdown\<close> destroys the streams before it joins the worker: a task may run on a stream that is gone. The
  stream \<open>initialize\<close> made is not destroyed. And while the worker reads the flag the caller may write it.
\<close>

lemma task_on_destroyed_stream: "\<exists>s t st. sched_reach s \<and> sc_worker s = G_Run (t, st) \<and> st \<noteq> nullptr \<and> st \<notin> set (sc_live s)"
proof -
  let ?xs = "[Call (Op_Initialize some_device (Some 8) 0), Call (Op_Create (Some 16)), Call (Op_Set 16), Call (Op_Submit (Some 1)),
    Worker_Step, Worker_Step, Call Op_Shutdown, Shutdown_Step, Shutdown_Step]"
  have "sched_run ?xs GpuScheduler_new \<noteq> None"
    by (simp add: GpuScheduler_new_def sched_initialize_def sched_submit_def sched_shutdown_def cuda_check_def some_device_def sched_worker_def
        sched_client_def sched_synchronize_def sched_create_stream_def sched_set_stream_def)
  then obtain s where s: "sched_run ?xs GpuScheduler_new = Some s" by blast
  then have "sc_worker s = G_Run (1, 16)" "sc_live s = [8]"
    by (auto simp: GpuScheduler_new_def sched_initialize_def sched_submit_def sched_shutdown_def cuda_check_def some_device_def sched_worker_def
        sched_client_def sched_synchronize_def sched_create_stream_def sched_set_stream_def)
  with sched_run_reaches [OF s] show ?thesis by (intro exI [of _ s] exI [of _ "1 :: nat"] exI [of _ "16 :: nat"]) simp
qed

lemma shutdown_leaks_stream: "\<exists>s. sched_reach s \<and> sc_client s = G_Idle \<and> sc_worker s = G_None \<and> sc_streams s = [] \<and> sc_live s = [8]"
proof -
  let ?xs = "[Call (Op_Initialize some_device (Some 8) 0), Call Op_Shutdown, Worker_Step, Shutdown_Step, Shutdown_Step, Shutdown_Step]"
  have "sched_run ?xs GpuScheduler_new \<noteq> None"
    by (simp add: GpuScheduler_new_def sched_initialize_def sched_shutdown_def cuda_check_def some_device_def sched_worker_def
        sched_client_def sched_synchronize_def)
  then obtain s where s: "sched_run ?xs GpuScheduler_new = Some s" by blast
  then have "sc_client s = G_Idle \<and> sc_worker s = G_None \<and> sc_streams s = [] \<and> sc_live s = [8]"
    by (auto simp: GpuScheduler_new_def sched_initialize_def sched_shutdown_def cuda_check_def some_device_def sched_worker_def
        sched_client_def sched_synchronize_def)
  with sched_run_reaches [OF s] show ?thesis by blast
qed

lemma running_flag_races: "\<exists>s. sched_reach s \<and> sc_worker s = G_Check \<and> sc_client s = G_Idle \<and> sc_running (sched_shutdown s) \<noteq> sc_running s"
proof -
  let ?xs = "[Call (Op_Initialize some_device (Some 8) 0)]"
  have "sched_run ?xs GpuScheduler_new \<noteq> None"
    by (simp add: GpuScheduler_new_def sched_initialize_def cuda_check_def some_device_def)
  then obtain s where s: "sched_run ?xs GpuScheduler_new = Some s" by blast
  then have "sc_worker s = G_Check \<and> sc_client s = G_Idle \<and> sc_running (sched_shutdown s) \<noteq> sc_running s"
    by (auto simp: GpuScheduler_new_def sched_initialize_def cuda_check_def some_device_def sched_shutdown_def)
  with sched_run_reaches [OF s] show ?thesis by blast
qed

lemma initialize_twice_ends_process:
  "sched_reach s \<Longrightarrow> sc_running s \<Longrightarrow> sched_initialize props st d s = Inl Process_Exit"
  using gpu_thread_inv [of s] by (auto simp: thread_inv_def sched_initialize_def cuda_check_def split: option.splits)

text \<open>Without CUDA a scheduler accepts every task and runs none.\<close>

lemma nocuda_runs_nothing: "sc_queue (nocuda_submit t (nocuda_initialize s)) = sc_queue s \<and> sc_worker (nocuda_submit t (nocuda_initialize s)) = sc_worker s"
  by (simp add: nocuda_submit_def nocuda_initialize_def)

end
