(* ===== verification/Owned.thy ===== *)
theory Owned
  imports Prelude "HOL-Library.Multiset"
begin

text \<open>
  What the variables of a program hold, as a multiset: each object of a class that owns resources holds some,
  and a variable that is assigned, moved from or ended changes the whole by what it held before and after.
  Shared by the segments of \<open>Shared_Memory\<close> and the blocks of \<open>Memory_Block\<close>.
\<close>

definition held :: "('g \<Rightarrow> 'a multiset) \<Rightarrow> ('v, 'g) umap \<Rightarrow> 'a multiset" where
  "held f vs = (\<Sum>(v, g) \<leftarrow> vs. f g)"

lemma umap_split:
  assumes "umap_ok m" and "map_of m k = Some x"
  shows "\<exists>xs ys. m = xs @ (k, x) # ys \<and> AList.delete k m = xs @ ys \<and> (\<forall>y. AList.update k y m = xs @ (k, y) # ys)"
  using assms
proof (induction m)
  case (Cons a m)
  show ?case
  proof (cases "fst a = k")
    case True
    then have "k \<notin> fst ` set m" "a = (k, x)" using Cons.prems by (cases a, auto)+
    then show ?thesis by - (rule exI [of _ "[]"], rule exI [of _ m], simp add: delete_idem)
  next
    case False
    then obtain xs ys where m: "m = xs @ (k, x) # ys" and d: "AList.delete k m = xs @ ys" and u: "\<forall>y. AList.update k y m = xs @ (k, y) # ys"
      using Cons by (cases a) auto
    have "a # m = (a # xs) @ (k, x) # ys" using m by simp
    moreover have "AList.delete k (a # m) = (a # xs) @ ys" using False d by (cases a) simp
    moreover have "\<forall>y. AList.update k y (a # m) = (a # xs) @ (k, y) # ys" using False u by (cases a) simp
    ultimately show ?thesis by blast
  qed
qed simp

lemma held_simps [simp]: "held f [] = {#}" "held f ((v, g) # vs) = f g + held f vs"
  by (simp_all add: held_def)

lemma held_append: "held f (xs @ ys) = held f xs + held f ys"
  by (simp add: held_def)

lemma held_update: "umap_ok vs \<Longrightarrow> map_of vs v = Some g \<Longrightarrow> held f (AList.update v g' vs) + f g = held f vs + f g'"
  using umap_split [of vs v g] by (auto simp: held_append)

lemma held_delete: "umap_ok vs \<Longrightarrow> map_of vs v = Some g \<Longrightarrow> held f (AList.delete v vs) + f g = held f vs"
  using umap_split [of vs v g] by (auto simp: held_append)

lemma held_member: "umap_ok vs \<Longrightarrow> map_of vs v = Some g \<Longrightarrow> f g \<subseteq># held f vs"
  using held_delete [of vs v g f] by (metis mset_subset_eq_add_right)

lemma delete_mset: "umap_ok m \<Longrightarrow> map_of m k = Some x \<Longrightarrow> mset (map f m) = add_mset (f (k, x)) (mset (map f (AList.delete k m)))"
  using umap_split [of m k x] by auto

lemma exchanged: "X + g = Y + h \<Longrightarrow> h + Y = R \<Longrightarrow> R = g + Z \<Longrightarrow> X = (Z :: 'a multiset)"
  by (metis add.commute add_right_cancel)

end
