(* ===== verification/Shared_Memory.thy ===== *)
theory Shared_Memory
  imports Owned
begin

text \<open>
  \<open>bridges/ipc_bridge.cpp\<close>: \<open>SharedMemorySegment\<close>, which owns a descriptor and a mapping of a POSIX shared
  memory object, and the spin lock of \<open>bridges/ipc_bridge.hpp\<close>. The system calls act on a table of names,
  descriptors and mappings as POSIX has it; which of them fail, and which descriptor or address they give,
  is a parameter.
\<close>

section \<open>The system calls\<close>

record shm_world =
  sw_names :: "(string, nat) umap"
  sw_sizes :: "nat \<Rightarrow> nat"
  sw_next :: nat
  sw_fds :: "(int, nat) umap"
  sw_maps :: "(ptr, nat \<times> nat) umap"

record shm_env =
  ev_open :: "string \<Rightarrow> bool \<Rightarrow> shm_world \<Rightarrow> int option"
  ev_truncate :: "int \<Rightarrow> nat \<Rightarrow> shm_world \<Rightarrow> bool"
  ev_stat :: "int \<Rightarrow> shm_world \<Rightarrow> bool"
  ev_mmap :: "int \<Rightarrow> nat \<Rightarrow> shm_world \<Rightarrow> ptr option"

definition env_ok :: "shm_env \<Rightarrow> bool" where
  "env_ok e \<longleftrightarrow> (\<forall>name c w fd. ev_open e name c w = Some fd \<longrightarrow> 0 \<le> fd \<and> map_of (sw_fds w) fd = None) \<and>
     (\<forall>fd n w p. ev_mmap e fd n w = Some p \<longrightarrow> p \<noteq> nullptr \<and> map_of (sw_maps w) p = None)"

definition shm_open :: "shm_env \<Rightarrow> string \<Rightarrow> bool \<Rightarrow> shm_world \<Rightarrow> int \<times> shm_world" where
  "shm_open e name creat w =
     (case ev_open e name creat w of
        None \<Rightarrow> (-1, w)
      | Some fd \<Rightarrow> (case map_of (sw_names w) name of
          Some ob \<Rightarrow> (fd, w\<lparr>sw_fds := (fd, ob) # sw_fds w\<rparr>)
        | None \<Rightarrow> if creat
            then (fd, w\<lparr>sw_names := (name, sw_next w) # sw_names w, sw_sizes := (sw_sizes w)(sw_next w := 0),
              sw_next := Suc (sw_next w), sw_fds := (fd, sw_next w) # sw_fds w\<rparr>)
            else (-1, w)))"

text \<open>\<open>ftruncate\<close> takes a signed size.\<close>

definition ftruncate :: "shm_env \<Rightarrow> int \<Rightarrow> size_t \<Rightarrow> shm_world \<Rightarrow> shm_world option" where
  "ftruncate e fd n w = (case map_of (sw_fds w) fd of None \<Rightarrow> None
     | Some ob \<Rightarrow> if 0 \<le> sint n \<and> ev_truncate e fd (unat n) w then Some (w\<lparr>sw_sizes := (sw_sizes w)(ob := unat n)\<rparr>) else None)"

definition fstat_size :: "shm_env \<Rightarrow> int \<Rightarrow> shm_world \<Rightarrow> size_t option" where
  "fstat_size e fd w = (case map_of (sw_fds w) fd of None \<Rightarrow> None
     | Some ob \<Rightarrow> if ev_stat e fd w then Some (word_of_nat (sw_sizes w ob)) else None)"

definition mmap :: "shm_env \<Rightarrow> size_t \<Rightarrow> int \<Rightarrow> shm_world \<Rightarrow> (ptr \<times> shm_world) option" where
  "mmap e n fd w = (case map_of (sw_fds w) fd of None \<Rightarrow> None
     | Some ob \<Rightarrow> if n = 0 then None else (case ev_mmap e fd (unat n) w of None \<Rightarrow> None
       | Some p \<Rightarrow> Some (p, w\<lparr>sw_maps := (p, unat n, ob) # sw_maps w\<rparr>)))"

text \<open>Ending a mapping or a descriptor that is not there is a fault: another owner may have it by then.\<close>

definition munmap :: "ptr \<Rightarrow> size_t \<Rightarrow> shm_world \<Rightarrow> shm_world comp" where
  "munmap p n w = (case map_of (sw_maps w) p of None \<Rightarrow> Inl Invalid_Free
     | Some (k, ob) \<Rightarrow> if k = unat n then Inr (w\<lparr>sw_maps := AList.delete p (sw_maps w)\<rparr>) else Inl Invalid_Free)"

definition close_fd :: "int \<Rightarrow> shm_world \<Rightarrow> shm_world comp" where
  "close_fd fd w = (if map_of (sw_fds w) fd = None then Inl Invalid_Free else Inr (w\<lparr>sw_fds := AList.delete fd (sw_fds w)\<rparr>))"

definition shm_unlink :: "string \<Rightarrow> shm_world \<Rightarrow> shm_world" where
  "shm_unlink name w = w\<lparr>sw_names := AList.delete name (sw_names w)\<rparr>"

section \<open>Segments\<close>

datatype ShmState = Created | Opened | Invalid

record SharedMemorySegment =
  sg_name :: string
  sg_fd :: int
  sg_addr :: ptr
  sg_bytes :: size_t
  sg_creator :: bool
  sg_state :: ShmState

definition Segment_default :: SharedMemorySegment where
  "Segment_default = \<lparr>sg_name = [], sg_fd = -1, sg_addr = nullptr, sg_bytes = 0, sg_creator = False, sg_state = Invalid\<rparr>"

definition Segment_IsValid :: "SharedMemorySegment \<Rightarrow> bool" where "Segment_IsValid g = (sg_addr g \<noteq> nullptr)"
definition Segment_BasePtr :: "SharedMemorySegment \<Rightarrow> ptr" where "Segment_BasePtr g = sg_addr g"
definition Segment_Size :: "SharedMemorySegment \<Rightarrow> size_t" where "Segment_Size g = sg_bytes g"

definition Segment_Create :: "shm_env \<Rightarrow> string \<Rightarrow> size_t \<Rightarrow> shm_world \<Rightarrow> (SharedMemorySegment \<times> shm_world) comp" where
  "Segment_Create e name n w =
     (case shm_open e name True w of (fd, w1) \<Rightarrow>
        if fd = -1 then Inr (Segment_default, w1)
        else (case ftruncate e fd n w1 of
          None \<Rightarrow> rbind (close_fd fd w1) (\<lambda>w2. Inr (Segment_default, w2))
        | Some w2 \<Rightarrow> (case mmap e n fd w2 of
            None \<Rightarrow> rbind (close_fd fd w2) (\<lambda>w3. Inr (Segment_default, w3))
          | Some (p, w3) \<Rightarrow> Inr (\<lparr>sg_name = name, sg_fd = fd, sg_addr = p, sg_bytes = n, sg_creator = True, sg_state = Created\<rparr>, w3))))"

text \<open>When the mapping fails, the size that was read stays in the segment.\<close>

definition Segment_Open :: "shm_env \<Rightarrow> string \<Rightarrow> shm_world \<Rightarrow> (SharedMemorySegment \<times> shm_world) comp" where
  "Segment_Open e name w =
     (case shm_open e name False w of (fd, w1) \<Rightarrow>
        if fd = -1 then Inr (Segment_default, w1)
        else (case fstat_size e fd w1 of
          None \<Rightarrow> rbind (close_fd fd w1) (\<lambda>w2. Inr (Segment_default, w2))
        | Some n \<Rightarrow> (case mmap e n fd w1 of
            None \<Rightarrow> rbind (close_fd fd w1) (\<lambda>w2. Inr (Segment_default\<lparr>sg_bytes := n\<rparr>, w2))
          | Some (p, w2) \<Rightarrow> Inr (\<lparr>sg_name = name, sg_fd = fd, sg_addr = p, sg_bytes = n, sg_creator = False, sg_state = Opened\<rparr>, w2))))"

text \<open>\<open>Destroy\<close> leaves the name and the mark of the creator as they are.\<close>

definition Segment_Destroy :: "SharedMemorySegment \<Rightarrow> shm_world \<Rightarrow> (SharedMemorySegment \<times> shm_world) comp" where
  "Segment_Destroy g w =
     rbind (if sg_addr g \<noteq> nullptr then rbind (munmap (sg_addr g) (sg_bytes g) w) (\<lambda>w'. Inr (g\<lparr>sg_addr := nullptr\<rparr>, w')) else Inr (g, w)) (\<lambda>(g1, w1).
     rbind (if sg_fd g1 \<noteq> -1 then rbind (close_fd (sg_fd g1) w1) (\<lambda>w'. Inr (g1\<lparr>sg_fd := -1\<rparr>, w')) else Inr (g1, w1)) (\<lambda>(g2, w2).
     Inr (g2\<lparr>sg_state := Invalid\<rparr>, if sg_creator g2 then shm_unlink (sg_name g2) w2 else w2)))"

text \<open>The destructor.\<close>

definition Segment_destruct :: "SharedMemorySegment \<Rightarrow> shm_world \<Rightarrow> shm_world comp" where
  "Segment_destruct g w = rbind (Segment_Destroy g w) (\<lambda>(_, w'). Inr w')"

text \<open>
  A string that was moved from has some value; \<open>left\<close> says which. The mark of the creator stays in the
  segment that was moved from.
\<close>

definition Segment_moved_from :: "(string \<Rightarrow> string) \<Rightarrow> SharedMemorySegment \<Rightarrow> SharedMemorySegment" where
  "Segment_moved_from left g = g\<lparr>sg_name := left (sg_name g), sg_fd := -1, sg_addr := nullptr, sg_state := Invalid\<rparr>"

definition Segment_move :: "(string \<Rightarrow> string) \<Rightarrow> SharedMemorySegment \<Rightarrow> SharedMemorySegment \<times> SharedMemorySegment" where
  "Segment_move left other = (other, Segment_moved_from left other)"

text \<open>\<open>self\<close>: both segments are the same object, the test \<open>this != &other\<close> of the code.\<close>

definition Segment_move_assign ::
  "bool \<Rightarrow> (string \<Rightarrow> string) \<Rightarrow> SharedMemorySegment \<Rightarrow> SharedMemorySegment \<Rightarrow> shm_world \<Rightarrow> (SharedMemorySegment \<times> SharedMemorySegment \<times> shm_world) comp" where
  "Segment_move_assign self left g other w =
     (if \<not> self
      then rbind (Segment_Destroy g w) (\<lambda>(_, w'). Inr (other, Segment_moved_from left other, w'))
      else Inr (g, other, w))"

text \<open>\<open>CreateSharedMemory\<close> and \<open>OpenSharedMemory\<close> move a valid segment to the heap; the temporary is destroyed at the end.\<close>

definition boxed :: "(string \<Rightarrow> string) \<Rightarrow> SharedMemorySegment \<times> shm_world \<Rightarrow> (SharedMemorySegment option \<times> shm_world) comp" where
  "boxed left gw = (case gw of (g, w) \<Rightarrow>
     if Segment_IsValid g
     then (case Segment_move left g of (box, g') \<Rightarrow> rbind (Segment_destruct g' w) (\<lambda>w'. Inr (Some box, w')))
     else rbind (Segment_destruct g w) (\<lambda>w'. Inr (None, w')))"

definition CreateSharedMemory :: "shm_env \<Rightarrow> (string \<Rightarrow> string) \<Rightarrow> string \<Rightarrow> size_t \<Rightarrow> shm_world \<Rightarrow> (SharedMemorySegment option \<times> shm_world) comp" where
  "CreateSharedMemory e left name n w = rbind (Segment_Create e name n w) (boxed left)"

definition OpenSharedMemory :: "shm_env \<Rightarrow> (string \<Rightarrow> string) \<Rightarrow> string \<Rightarrow> shm_world \<Rightarrow> (SharedMemorySegment option \<times> shm_world) comp" where
  "OpenSharedMemory e left name w = rbind (Segment_Open e name w) (boxed left)"

section \<open>A program over segments\<close>

text \<open>Variables are numbers; \<open>End\<close> is the end of a lifetime, which runs the destructor.\<close>

type_synonym seg_vars = "(nat, SharedMemorySegment) umap"

datatype seg_op =
    Do_Create nat string size_t
  | Do_Open nat string
  | Do_Move nat nat
  | Do_Assign nat nat
  | Do_Destroy nat
  | End nat

text \<open>A variable is declared once; operations on variables that are not there do nothing.\<close>

fun seg_do :: "shm_env \<Rightarrow> (string \<Rightarrow> string) \<Rightarrow> seg_op \<Rightarrow> seg_vars \<times> shm_world \<Rightarrow> (seg_vars \<times> shm_world) comp" where
  "seg_do e left (Do_Create v name n) (vs, w) =
     (if map_of vs v = None then rbind (Segment_Create e name n w) (\<lambda>(g, w'). Inr ((v, g) # vs, w')) else Inr (vs, w))"
| "seg_do e left (Do_Open v name) (vs, w) =
     (if map_of vs v = None then rbind (Segment_Open e name w) (\<lambda>(g, w'). Inr ((v, g) # vs, w')) else Inr (vs, w))"
| "seg_do e left (Do_Move v u) (vs, w) =
     (case map_of vs u of Some h \<Rightarrow> if map_of vs v = None
        then (case Segment_move left h of (g, h') \<Rightarrow> Inr ((v, g) # AList.update u h' vs, w)) else Inr (vs, w) | None \<Rightarrow> Inr (vs, w))"
| "seg_do e left (Do_Assign v u) (vs, w) =
     (case (map_of vs v, map_of vs u) of
        (Some g, Some h) \<Rightarrow> rbind (Segment_move_assign (v = u) left g h w) (\<lambda>(g', h', w').
          Inr (AList.update v g' (AList.update u h' vs), w'))
      | _ \<Rightarrow> Inr (vs, w))"
| "seg_do e left (Do_Destroy v) (vs, w) =
     (case map_of vs v of Some g \<Rightarrow> rbind (Segment_Destroy g w) (\<lambda>(g', w'). Inr (AList.update v g' vs, w')) | None \<Rightarrow> Inr (vs, w))"
| "seg_do e left (End v) (vs, w) =
     (case map_of vs v of Some g \<Rightarrow> rbind (Segment_destruct g w) (\<lambda>w'. Inr (AList.delete v vs, w')) | None \<Rightarrow> Inr (vs, w))"

definition seg_run :: "shm_env \<Rightarrow> (string \<Rightarrow> string) \<Rightarrow> seg_op list \<Rightarrow> seg_vars \<times> shm_world \<Rightarrow> (seg_vars \<times> shm_world) comp" where
  "seg_run e left ops = for_each (seg_do e left) ops"

definition shm_empty :: shm_world where
  "shm_empty = \<lparr>sw_names = [], sw_sizes = (\<lambda>_. 0), sw_next = 0, sw_fds = [], sw_maps = []\<rparr>"

section \<open>Descriptors and mappings have one owner\<close>

definition fd_of :: "SharedMemorySegment \<Rightarrow> int multiset" where
  "fd_of g = (if sg_fd g = -1 then {#} else {#sg_fd g#})"

definition mapping_of :: "SharedMemorySegment \<Rightarrow> (ptr \<times> nat) multiset" where
  "mapping_of g = (if sg_addr g = nullptr then {#} else {#(sg_addr g, unat (sg_bytes g))#})"

abbreviation all_fds :: "shm_world \<Rightarrow> int multiset" where "all_fds w \<equiv> mset (map fst (sw_fds w))"
abbreviation all_maps :: "shm_world \<Rightarrow> (ptr \<times> nat) multiset" where "all_maps w \<equiv> mset (map (\<lambda>(p, n, ob). (p, n)) (sw_maps w))"

definition tables_ok :: "shm_world \<Rightarrow> bool" where
  "tables_ok w \<longleftrightarrow> umap_ok (sw_fds w) \<and> umap_ok (sw_maps w)"

definition seg_inv :: "seg_vars \<times> shm_world \<Rightarrow> bool" where
  "seg_inv x \<longleftrightarrow> (case x of (vs, w) \<Rightarrow> umap_ok vs \<and> tables_ok w \<and> held fd_of vs = all_fds w \<and> held mapping_of vs = all_maps w)"

lemma close_ok:
  assumes "tables_ok w" and "fd \<in># all_fds w"
  shows "\<exists>w'. close_fd fd w = Inr w' \<and> tables_ok w' \<and> all_fds w = add_mset fd (all_fds w') \<and> all_maps w' = all_maps w \<and> sw_names w' = sw_names w"
proof -
  obtain ob where "map_of (sw_fds w) fd = Some ob" using assms(2) by (cases "map_of (sw_fds w) fd") (auto simp: map_of_eq_None_iff)
  with assms(1) delete_mset [of "sw_fds w" fd ob fst] show ?thesis by (simp add: close_fd_def tables_ok_def umap_ok_delete)
qed

lemma munmap_ok:
  assumes "tables_ok w" and "(p, unat n) \<in># all_maps w"
  shows "\<exists>w'. munmap p n w = Inr w' \<and> tables_ok w' \<and> all_maps w = add_mset (p, unat n) (all_maps w') \<and> all_fds w' = all_fds w \<and> sw_names w' = sw_names w"
proof -
  obtain ob where "(p, unat n, ob) \<in> set (sw_maps w)" using assms(2) by auto
  then have "map_of (sw_maps w) p = Some (unat n, ob)" using assms(1) by (simp add: tables_ok_def)
  with assms(1) delete_mset [of "sw_maps w" p "(unat n, ob)" "\<lambda>(p, n, ob). (p, n)"] show ?thesis
    by (simp add: munmap_def tables_ok_def umap_ok_delete)
qed

definition ended :: "SharedMemorySegment \<Rightarrow> SharedMemorySegment" where
  "ended g = g\<lparr>sg_addr := nullptr, sg_fd := -1, sg_state := Invalid\<rparr>"

lemma ended_holds [simp]: "fd_of (ended g) = {#}" "mapping_of (ended g) = {#}" "fd_of (Segment_moved_from left g) = {#}"
  "mapping_of (Segment_moved_from left g) = {#}" "fd_of Segment_default = {#}" "mapping_of Segment_default = {#}"
  by (simp_all add: ended_def Segment_moved_from_def Segment_default_def fd_of_def mapping_of_def)

lemma Segment_Destroy_ok:
  assumes t: "tables_ok w" and "fd_of g \<subseteq># all_fds w" and "mapping_of g \<subseteq># all_maps w"
  shows "\<exists>w'. Segment_Destroy g w = Inr (ended g, w') \<and> tables_ok w' \<and> all_fds w = fd_of g + all_fds w' \<and> all_maps w = mapping_of g + all_maps w' \<and>
    sw_names w' = (if sg_creator g then AList.delete (sg_name g) (sw_names w) else sw_names w)"
proof -
  have "\<exists>w1. (if sg_addr g \<noteq> nullptr then rbind (munmap (sg_addr g) (sg_bytes g) w) (\<lambda>w'. Inr (g\<lparr>sg_addr := nullptr\<rparr>, w')) else Inr (g, w)) =
      Inr (g\<lparr>sg_addr := nullptr\<rparr>, w1) \<and> tables_ok w1 \<and> all_maps w = mapping_of g + all_maps w1 \<and> all_fds w1 = all_fds w \<and> sw_names w1 = sw_names w"
  proof (cases "sg_addr g = nullptr")
    case True
    then show ?thesis using t by (intro exI [of _ w]) (simp add: mapping_of_def)
  next
    case False
    then have "(sg_addr g, unat (sg_bytes g)) \<in># all_maps w" using assms(3) by (simp add: mapping_of_def)
    from munmap_ok [OF t this] False show ?thesis by (auto simp: mapping_of_def)
  qed
  then obtain w1 where w1: "(if sg_addr g \<noteq> nullptr then rbind (munmap (sg_addr g) (sg_bytes g) w) (\<lambda>w'. Inr (g\<lparr>sg_addr := nullptr\<rparr>, w')) else Inr (g, w)) =
      Inr (g\<lparr>sg_addr := nullptr\<rparr>, w1)" "tables_ok w1" "all_maps w = mapping_of g + all_maps w1" "all_fds w1 = all_fds w" "sw_names w1 = sw_names w" by blast
  let ?g1 = "g\<lparr>sg_addr := nullptr\<rparr>"
  have "\<exists>w2. (if sg_fd ?g1 \<noteq> -1 then rbind (close_fd (sg_fd ?g1) w1) (\<lambda>w'. Inr (?g1\<lparr>sg_fd := -1\<rparr>, w')) else Inr (?g1, w1)) =
      Inr (?g1\<lparr>sg_fd := -1\<rparr>, w2) \<and> tables_ok w2 \<and> all_fds w1 = fd_of g + all_fds w2 \<and> all_maps w2 = all_maps w1 \<and> sw_names w2 = sw_names w1"
  proof (cases "sg_fd g = -1")
    case True
    then show ?thesis using w1(2) by (intro exI [of _ w1]) (simp add: fd_of_def)
  next
    case False
    then have "sg_fd g \<in># all_fds w1" using assms(2) w1(4) by (simp add: fd_of_def)
    from close_ok [OF w1(2) this] False show ?thesis by (auto simp: fd_of_def)
  qed
  then obtain w2 where w2: "(if sg_fd ?g1 \<noteq> -1 then rbind (close_fd (sg_fd ?g1) w1) (\<lambda>w'. Inr (?g1\<lparr>sg_fd := -1\<rparr>, w')) else Inr (?g1, w1)) =
      Inr (?g1\<lparr>sg_fd := -1\<rparr>, w2)" "tables_ok w2" "all_fds w1 = fd_of g + all_fds w2" "all_maps w2 = all_maps w1" "sw_names w2 = sw_names w1" by blast
  have "Segment_Destroy g w = Inr (ended g, if sg_creator g then shm_unlink (sg_name g) w2 else w2)"
    unfolding Segment_Destroy_def w1(1) rbind.simps prod.case w2(1) by (simp add: ended_def)
  with w1 w2 show ?thesis by (intro exI [of _ "if sg_creator g then shm_unlink (sg_name g) w2 else w2"]) (simp add: shm_unlink_def tables_ok_def)
qed

lemma shm_open_ok:
  assumes "env_ok e" and "tables_ok w"
  shows "shm_open e name c w = (-1, w) \<or> (\<exists>fd w1. shm_open e name c w = (fd, w1) \<and> fd \<noteq> -1 \<and> tables_ok w1 \<and>
    all_fds w1 = add_mset fd (all_fds w) \<and> all_maps w1 = all_maps w)"
proof (cases "ev_open e name c w")
  case (Some fd)
  then have fresh: "0 \<le> fd" "fd \<notin> fst ` set (sw_fds w)" using assms(1) by (simp_all add: env_ok_def map_of_eq_None_iff)
  show ?thesis
  proof (cases "map_of (sw_names w) name")
    case None
    with Some fresh assms(2) show ?thesis by (cases c) (simp_all add: shm_open_def tables_ok_def)
  next
    case (Some ob)
    with \<open>ev_open e name c w = Some fd\<close> fresh assms(2) show ?thesis by (simp add: shm_open_def tables_ok_def)
  qed
qed (simp add: shm_open_def)

lemma ftruncate_tables: "ftruncate e fd n w = Some w' \<Longrightarrow> sw_fds w' = sw_fds w \<and> sw_maps w' = sw_maps w \<and> sw_names w' = sw_names w"
  by (auto simp: ftruncate_def split: option.splits if_splits)

lemma mmap_ok:
  assumes "env_ok e" and "tables_ok w" and "mmap e n fd w = Some (p, w')"
  shows "p \<noteq> nullptr \<and> tables_ok w' \<and> all_fds w' = all_fds w \<and> all_maps w' = add_mset (p, unat n) (all_maps w)"
proof -
  obtain ob where "n \<noteq> 0" "ev_mmap e fd (unat n) w = Some p" "w' = w\<lparr>sw_maps := (p, unat n, ob) # sw_maps w\<rparr>"
    using assms(3) by (auto simp: mmap_def split: option.splits if_splits)
  moreover from this have "p \<noteq> nullptr" "p \<notin> fst ` set (sw_maps w)" using assms(1) by (simp_all add: env_ok_def map_of_eq_None_iff)
  ultimately show ?thesis using assms(2) by (simp add: tables_ok_def)
qed

text \<open>What a call that makes a segment adds to the tables is what the segment holds.\<close>

definition adds :: "shm_world \<Rightarrow> (SharedMemorySegment \<times> shm_world) comp \<Rightarrow> bool" where
  "adds w r \<longleftrightarrow> (\<exists>g w'. r = Inr (g, w') \<and> tables_ok w' \<and> all_fds w' = fd_of g + all_fds w \<and> all_maps w' = mapping_of g + all_maps w)"

lemma closed_adds:
  assumes "tables_ok w1" and "all_fds w1 = add_mset fd (all_fds w)" and "all_maps w1 = all_maps w"
    and "fd_of g = {#}" and "mapping_of g = {#}"
  shows "adds w (rbind (close_fd fd w1) (\<lambda>w2. Inr (g, w2)))"
proof -
  have "fd \<in># all_fds w1" unfolding assms(2) by simp
  from close_ok [OF assms(1) this] obtain w2 where w2: "close_fd fd w1 = Inr w2" "tables_ok w2" "all_fds w1 = add_mset fd (all_fds w2)" "all_maps w2 = all_maps w1"
    by blast
  have "all_fds w2 = all_fds w" using w2(3) assms(2) by simp
  with w2 assms(3-5) show ?thesis by (simp add: adds_def)
qed

lemma default_holds [simp]: "fd_of (Segment_default\<lparr>sg_bytes := n\<rparr>) = {#}" "mapping_of (Segment_default\<lparr>sg_bytes := n\<rparr>) = {#}"
  by (simp_all add: Segment_default_def fd_of_def mapping_of_def)

lemma Segment_Create_adds:
  assumes e: "env_ok e" and t: "tables_ok w"
  shows "adds w (Segment_Create e name n w)"
  using shm_open_ok [OF e t, of name True]
proof (elim disjE exE conjE)
  assume "shm_open e name True w = (-1, w)"
  with t show ?thesis by (simp add: Segment_Create_def adds_def)
next
  fix fd w1
  assume o: "shm_open e name True w = (fd, w1)" "fd \<noteq> -1" and w1: "tables_ok w1" "all_fds w1 = add_mset fd (all_fds w)" "all_maps w1 = all_maps w"
  show ?thesis
  proof (cases "ftruncate e fd n w1")
    case None
    with o closed_adds [OF w1, of Segment_default] show ?thesis by (simp add: Segment_Create_def)
  next
    case (Some w2)
    with ftruncate_tables [OF Some] w1 have w2: "tables_ok w2" "all_fds w2 = add_mset fd (all_fds w)" "all_maps w2 = all_maps w"
      by (simp_all add: tables_ok_def)
    show ?thesis
    proof (cases "mmap e n fd w2")
      case None
      with Some o closed_adds [OF w2, of Segment_default] show ?thesis by (simp add: Segment_Create_def)
    next
      case (Some x)
      obtain p w3 where x: "x = (p, w3)" by (cases x)
      from mmap_ok [OF e w2(1) Some [unfolded x]] Some x \<open>ftruncate e fd n w1 = Some w2\<close> o w2 show ?thesis
        by (simp add: Segment_Create_def adds_def fd_of_def mapping_of_def)
    qed
  qed
qed

lemma Segment_Open_adds:
  assumes e: "env_ok e" and t: "tables_ok w"
  shows "adds w (Segment_Open e name w)"
  using shm_open_ok [OF e t, of name False]
proof (elim disjE exE conjE)
  assume "shm_open e name False w = (-1, w)"
  with t show ?thesis by (simp add: Segment_Open_def adds_def)
next
  fix fd w1
  assume o: "shm_open e name False w = (fd, w1)" "fd \<noteq> -1" and w1: "tables_ok w1" "all_fds w1 = add_mset fd (all_fds w)" "all_maps w1 = all_maps w"
  show ?thesis
  proof (cases "fstat_size e fd w1")
    case None
    with o closed_adds [OF w1, of Segment_default] show ?thesis by (simp add: Segment_Open_def)
  next
    case (Some n)
    show ?thesis
    proof (cases "mmap e n fd w1")
      case None
      with Some o closed_adds [OF w1, of "Segment_default\<lparr>sg_bytes := n\<rparr>"] show ?thesis by (simp add: Segment_Open_def)
    next
      case (Some x)
      obtain p w2 where x: "x = (p, w2)" by (cases x)
      from mmap_ok [OF e w1(1) Some [unfolded x]] Some x \<open>fstat_size e fd w1 = Some n\<close> o w1 show ?thesis
        by (simp add: Segment_Open_def adds_def fd_of_def mapping_of_def)
    qed
  qed
qed

section \<open>What the operations keep\<close>

lemma held_move:
  "umap_ok vs \<Longrightarrow> map_of vs u = Some h \<Longrightarrow> f (Segment_moved_from left h) = {#} \<Longrightarrow>
    f h + held f (AList.update u (Segment_moved_from left h) vs) = held f vs"
  using held_update [of vs u h f "Segment_moved_from left h"] by (simp add: add.commute)

lemma destroy_variable:
  assumes "seg_inv (vs, w)" and "map_of vs v = Some g"
  shows "\<exists>w'. Segment_Destroy g w = Inr (ended g, w') \<and> tables_ok w' \<and> all_fds w = fd_of g + all_fds w' \<and> all_maps w = mapping_of g + all_maps w'"
proof -
  have "umap_ok vs" "tables_ok w" "held fd_of vs = all_fds w" "held mapping_of vs = all_maps w" using assms(1) by (simp_all add: seg_inv_def)
  moreover from this have "fd_of g \<subseteq># all_fds w" "mapping_of g \<subseteq># all_maps w"
    using held_member [OF _ assms(2), of fd_of] held_member [OF _ assms(2), of mapping_of] by simp_all
  ultimately show ?thesis using Segment_Destroy_ok [of w g] by blast
qed

lemma seg_do_inv:
  assumes e: "env_ok e" and i: "seg_inv (vs, w)"
  shows "\<exists>x. seg_do e left op (vs, w) = Inr x \<and> seg_inv x"
proof (cases op)
  case (Do_Create v name n)
  show ?thesis
  proof (cases "map_of vs v")
    case None
    from Segment_Create_adds [OF e, of w name n] i
    obtain g w' where "Segment_Create e name n w = Inr (g, w')" "tables_ok w'" "all_fds w' = fd_of g + all_fds w" "all_maps w' = mapping_of g + all_maps w"
      unfolding seg_inv_def adds_def by auto
    with None i Do_Create show ?thesis by (simp add: seg_inv_def map_of_eq_None_iff)
  qed (use i Do_Create in simp)
next
  case (Do_Open v name)
  show ?thesis
  proof (cases "map_of vs v")
    case None
    from Segment_Open_adds [OF e, of w name] i
    obtain g w' where "Segment_Open e name w = Inr (g, w')" "tables_ok w'" "all_fds w' = fd_of g + all_fds w" "all_maps w' = mapping_of g + all_maps w"
      unfolding seg_inv_def adds_def by auto
    with None i Do_Open show ?thesis by (simp add: seg_inv_def map_of_eq_None_iff)
  qed (use i Do_Open in simp)
next
  case (Do_Move v u)
  show ?thesis
  proof (cases "map_of vs u")
    case (Some h)
    show ?thesis
    proof (cases "map_of vs v")
      case None
      let ?vs = "(v, h) # AList.update u (Segment_moved_from left h) vs"
      have u: "umap_ok vs" using i by (simp add: seg_inv_def)
      have "v \<notin> fst ` set (AList.update u (Segment_moved_from left h) vs)"
        using None Some by (simp flip: map_of_eq_None_iff add: update_conv') (metis option.distinct(1))
      with held_move [OF u Some, of fd_of left] held_move [OF u Some, of mapping_of left] None Some Do_Move i u show ?thesis
        by (simp add: seg_inv_def Segment_move_def umap_ok_update)
    qed (use i Do_Move Some in simp)
  qed (use i Do_Move in simp)
next
  case (Do_Destroy v)
  show ?thesis
  proof (cases "map_of vs v")
    case (Some g)
    from destroy_variable [OF i Some] obtain w' where
      w': "Segment_Destroy g w = Inr (ended g, w')" "tables_ok w'" "all_fds w = fd_of g + all_fds w'" "all_maps w = mapping_of g + all_maps w'" by blast
    have u: "umap_ok vs" using i by (simp add: seg_inv_def)
    from held_update [OF u Some, of fd_of "ended g"] held_update [OF u Some, of mapping_of "ended g"] w' i Do_Destroy Some u
    show ?thesis by (simp add: seg_inv_def umap_ok_update)
  qed (use i Do_Destroy in simp)
next
  case (End v)
  show ?thesis
  proof (cases "map_of vs v")
    case (Some g)
    from destroy_variable [OF i Some] obtain w' where
      w': "Segment_Destroy g w = Inr (ended g, w')" "tables_ok w'" "all_fds w = fd_of g + all_fds w'" "all_maps w = mapping_of g + all_maps w'" by blast
    have u: "umap_ok vs" using i by (simp add: seg_inv_def)
    from held_delete [OF u Some, of fd_of] held_delete [OF u Some, of mapping_of] w' i End Some u
    show ?thesis by (simp add: seg_inv_def umap_ok_delete Segment_destruct_def)
  qed (use i End in simp)
next
  case (Do_Assign v u)
  show ?thesis
  proof (cases "map_of vs v = None \<or> map_of vs u = None \<or> v = u")
    case True
    then show ?thesis using i Do_Assign
      by (cases "map_of vs v"; cases "map_of vs u") (auto simp: Segment_move_assign_def update_same)
  next
    case False
    then obtain g h where gh: "map_of vs v = Some g" "map_of vs u = Some h" "v \<noteq> u" by auto
    let ?m = "Segment_moved_from left h"
    have u: "umap_ok vs" using i by (simp add: seg_inv_def)
    have v: "map_of (AList.update u ?m vs) v = Some g" using gh by (simp add: update_conv')
    from destroy_variable [OF i gh(1)] obtain w' where
      w': "Segment_Destroy g w = Inr (ended g, w')" "tables_ok w'" "all_fds w = fd_of g + all_fds w'" "all_maps w = mapping_of g + all_maps w'" by blast
    have "held fd_of (AList.update v h (AList.update u ?m vs)) = all_fds w'"
      by (rule exchanged [OF held_update [OF umap_ok_update [OF u] v] held_move [OF u gh(2)]]) (use w' i in \<open>simp_all add: seg_inv_def\<close>)
    moreover have "held mapping_of (AList.update v h (AList.update u ?m vs)) = all_maps w'"
      by (rule exchanged [OF held_update [OF umap_ok_update [OF u] v] held_move [OF u gh(2)]]) (use w' i in \<open>simp_all add: seg_inv_def\<close>)
    ultimately show ?thesis using w' i Do_Assign gh u
      by (simp add: seg_inv_def umap_ok_update Segment_move_assign_def)
  qed
qed

lemma seg_run_inv: "env_ok e \<Longrightarrow> seg_inv x \<Longrightarrow> \<exists>y. seg_run e left ops x = Inr y \<and> seg_inv y"
proof (induction ops arbitrary: x)
  case (Cons op ops)
  obtain vs w where x: "x = (vs, w)" by (cases x)
  from seg_do_inv [OF Cons.prems(1) Cons.prems(2) [unfolded x], of left op] obtain y
    where "seg_do e left op (vs, w) = Inr y" "seg_inv y" by blast
  with Cons.IH [OF Cons.prems(1) this(2)] x show ?case by (simp add: seg_run_def)
qed (simp add: seg_run_def)

text \<open>An operating system that never refuses and gives the next free numbers.\<close>

definition free_env :: shm_env where
  "free_env = \<lparr>ev_open = (\<lambda>_ _ w. Some (foldr max (map fst (sw_fds w)) 2 + 1)), ev_truncate = (\<lambda>_ _ _. True), ev_stat = (\<lambda>_ _. True),
     ev_mmap = (\<lambda>_ _ w. Some (foldr max (map fst (sw_maps w)) 0 + 4096))\<rparr>"

lemma foldr_max_bound: "(x, y) \<in> set m \<Longrightarrow> x \<le> foldr max (map fst m) (b :: 'a :: linorder)"
  by (induction m) (auto simp: le_max_iff_disj)

lemma foldr_max_base: "b \<le> foldr max (map fst m) (b :: 'a :: linorder)"
  by (induction m) (auto simp: le_max_iff_disj)

lemma free_env_ok: "env_ok free_env"
proof -
  have "map_of m (foldr max (map fst m) 2 + 1) = None" for m :: "(int, nat) umap"
    using foldr_max_bound [of _ _ m 2] by (fastforce simp: map_of_eq_None_iff)
  moreover have "map_of m (foldr max (map fst m) 0 + 4096) = None" for m :: "(ptr, nat \<times> nat) umap"
    using foldr_max_bound [of _ _ m 0] by (fastforce simp: map_of_eq_None_iff)
  moreover have "0 \<le> foldr max (map fst m) 2 + (1 :: int)" for m :: "(int, nat) umap"
    using foldr_max_base [of 2 m] by linarith
  ultimately show ?thesis by (simp add: env_ok_def free_env_def)
qed

text \<open>
  C27: No sequence of creations, openings, moves, assignments, \<open>Destroy\<close> calls and ends of lifetimes makes a
  segment unmap or close something that is not its own, whichever system calls fail: at every moment the
  descriptors and mappings of the process are exactly those its segments hold, each held once, so that when
  the last segment has ended no descriptor and no mapping is left.
\<close>

theorem segments_released:
  assumes "env_ok e"
  shows "\<exists>vs w. seg_run e left ops ([], shm_empty) = Inr (vs, w) \<and> held fd_of vs = all_fds w \<and> held mapping_of vs = all_maps w \<and>
    (vs = [] \<longrightarrow> sw_fds w = [] \<and> sw_maps w = [])"
proof -
  have "seg_inv ([], shm_empty)" by (simp add: seg_inv_def shm_empty_def tables_ok_def)
  from seg_run_inv [OF assms this, of left ops] obtain vs w where r: "seg_run e left ops ([], shm_empty) = Inr (vs, w)" "seg_inv (vs, w)" by auto
  then have "held fd_of vs = all_fds w" "held mapping_of vs = all_maps w" by (simp_all add: seg_inv_def)
  moreover from this have "vs = [] \<longrightarrow> sw_fds w = [] \<and> sw_maps w = []" by auto
  ultimately show ?thesis using r(1) by blast
qed

definition segment_ops :: "seg_op list" where
  "segment_ops = [Do_Create 0 ''/a'' 64, Do_Open 1 ''/a'', Do_Move 2 1, Do_Create 3 ''/b'' 0, Do_Assign 0 2, End 3, End 2, End 1, End 0]"

lemmas segment_calls = seg_run_def Segment_Create_def Segment_Open_def Segment_Destroy_def Segment_destruct_def Segment_move_assign_def
  Segment_moved_from_def Segment_move_def Segment_default_def shm_open_def ftruncate_def fstat_size_def mmap_def munmap_def close_fd_def
  shm_unlink_def shm_empty_def

theorem segments_released_witness:
  "\<exists>w. seg_run free_env (\<lambda>_. []) segment_ops ([], shm_empty) = Inr ([], w) \<and> sw_fds w = [] \<and> sw_maps w = []"
proof -
  obtain vs w where r: "seg_run free_env (\<lambda>_. []) segment_ops ([], shm_empty) = Inr (vs, w)" "vs = [] \<longrightarrow> sw_fds w = [] \<and> sw_maps w = []"
    using segments_released [OF free_env_ok, of "\<lambda>_. []" segment_ops] by blast
  moreover have "vs = []" using r(1) by (simp add: segment_calls segment_ops_def free_env_def)
  ultimately show ?thesis by blast
qed

text \<open>How a valid segment came about.\<close>

lemma close_fd_Inr: "close_fd fd w = Inr w' \<Longrightarrow> w' = w\<lparr>sw_fds := AList.delete fd (sw_fds w)\<rparr>"
  by (auto simp: close_fd_def split: if_splits)

lemma opened_object:
  assumes "shm_open e name c w = (fd, w1)" and "fd \<noteq> -1"
  shows "\<exists>ob. map_of (sw_names w1) name = Some ob \<and> map_of (sw_fds w1) fd = Some ob \<and> sw_maps w1 = sw_maps w \<and>
    (\<forall>ob'. map_of (sw_names w) name = Some ob' \<longrightarrow> ob' = ob \<and> sw_names w1 = sw_names w \<and> sw_sizes w1 = sw_sizes w)"
  using assms by (auto simp: shm_open_def split: option.splits if_splits)

lemma mapped_object:
  assumes "mmap e n fd w = Some (p, w')" and "map_of (sw_fds w) fd = Some ob"
  shows "w' = w\<lparr>sw_maps := (p, unat n, ob) # sw_maps w\<rparr> \<and> ev_mmap e fd (unat n) w = Some p"
  using assms by (auto simp: mmap_def split: if_splits option.splits)

lemma Segment_Create_valid:
  assumes "Segment_Create e name n w = Inr (g, w1)" and "Segment_IsValid g"
  shows "\<exists>ob. sg_bytes g = n \<and> map_of (sw_names w1) name = Some ob \<and> sw_sizes w1 ob = unat n \<and> map_of (sw_maps w1) (sg_addr g) = Some (unat n, ob)"
proof -
  obtain fd w0 where o: "shm_open e name True w = (fd, w0)" by (cases "shm_open e name True w")
  from assms obtain w2 p w3 where t: "fd \<noteq> -1" "ftruncate e fd n w0 = Some w2" "mmap e n fd w2 = Some (p, w3)"
    and g: "g = \<lparr>sg_name = name, sg_fd = fd, sg_addr = p, sg_bytes = n, sg_creator = True, sg_state = Created\<rparr>" "w1 = w3"
    by (auto simp: Segment_Create_def o Segment_IsValid_def Segment_default_def rbind_eq_Inr split: if_splits option.splits prod.splits)
  from opened_object [OF o t(1)] obtain ob where ob: "map_of (sw_names w0) name = Some ob" "map_of (sw_fds w0) fd = Some ob" by auto
  then have w2: "w2 = w0\<lparr>sw_sizes := (sw_sizes w0)(ob := unat n)\<rparr>" using t(2) by (auto simp: ftruncate_def split: if_splits)
  with mapped_object [OF t(3), of ob] ob g show ?thesis by auto
qed

lemma Segment_Open_valid:
  assumes "Segment_Open e name w = Inr (h, w1)" and "Segment_IsValid h" and "map_of (sw_names w) name = Some ob"
  shows "sg_bytes h = word_of_nat (sw_sizes w ob) \<and> (\<exists>w0. ev_mmap e (sg_fd h) (unat (sg_bytes h)) w0 = Some (sg_addr h) \<and> sw_maps w0 = sw_maps w) \<and>
    sw_maps w1 = (sg_addr h, unat (sg_bytes h), ob) # sw_maps w"
proof -
  obtain fd w0 where o: "shm_open e name False w = (fd, w0)" by (cases "shm_open e name False w")
  from assms(1,2) obtain n p w3 where t: "fd \<noteq> -1" "fstat_size e fd w0 = Some n" "mmap e n fd w0 = Some (p, w3)"
    and h: "h = \<lparr>sg_name = name, sg_fd = fd, sg_addr = p, sg_bytes = n, sg_creator = False, sg_state = Opened\<rparr>" "w1 = w3"
    by (auto simp: Segment_Open_def o Segment_IsValid_def Segment_default_def rbind_eq_Inr split: if_splits option.splits prod.splits)
  from opened_object [OF o t(1)] assms(3) have ob: "map_of (sw_fds w0) fd = Some ob" "sw_sizes w0 = sw_sizes w" "sw_maps w0 = sw_maps w" by auto
  then have "n = word_of_nat (sw_sizes w ob)" using t(2) by (auto simp: fstat_size_def split: if_splits)
  with mapped_object [OF t(3) ob(1)] ob(3) h show ?thesis by auto
qed

text \<open>
  A segment opened by name after a creation maps the object the creator mapped, with the creator's size.
\<close>

theorem opened_segment_is_shared:
  assumes e: "env_ok e" and c: "Segment_Create e name n w = Inr (g, w1)" and g: "Segment_IsValid g"
    and op: "Segment_Open e name w1 = Inr (h, w2)" and h: "Segment_IsValid h"
  shows "Segment_Size h = n \<and> (\<exists>ob. map_of (sw_maps w2) (Segment_BasePtr g) = Some (unat n, ob) \<and>
    map_of (sw_maps w2) (Segment_BasePtr h) = Some (unat n, ob)) \<and> Segment_BasePtr g \<noteq> Segment_BasePtr h"
proof -
  from Segment_Create_valid [OF c g] obtain ob where ob: "sg_bytes g = n" "map_of (sw_names w1) name = Some ob" "sw_sizes w1 ob = unat n"
    "map_of (sw_maps w1) (sg_addr g) = Some (unat n, ob)" by blast
  from Segment_Open_valid [OF op h ob(2)] ob(3) obtain w0 where w0: "sg_bytes h = n" "ev_mmap e (sg_fd h) (unat n) w0 = Some (sg_addr h)" "sw_maps w0 = sw_maps w1"
    and m: "sw_maps w2 = (sg_addr h, unat n, ob) # sw_maps w1" by auto
  have "map_of (sw_maps w0) (sg_addr h) = None" using e w0(2) unfolding env_ok_def by blast
  with ob(4) w0(3) have "sg_addr g \<noteq> sg_addr h" by auto
  with m ob w0(1) show ?thesis by (simp add: Segment_Size_def Segment_BasePtr_def)
qed

theorem opened_segment_is_shared_witness:
  "\<exists>g h w1 w2. Segment_Create free_env ''/a'' 64 shm_empty = Inr (g, w1) \<and> Segment_Open free_env ''/a'' w1 = Inr (h, w2) \<and>
    Segment_Size h = 64 \<and> (\<exists>ob. map_of (sw_maps w2) (Segment_BasePtr g) = Some (unat (64 :: size_t), ob) \<and>
      map_of (sw_maps w2) (Segment_BasePtr h) = Some (unat (64 :: size_t), ob)) \<and> Segment_BasePtr g \<noteq> Segment_BasePtr h"
proof -
  note calls = Segment_Create_def Segment_Open_def shm_open_def ftruncate_def fstat_size_def mmap_def free_env_def shm_empty_def Segment_IsValid_def
  have "\<exists>g w1. Segment_Create free_env ''/a'' 64 shm_empty = Inr (g, w1) \<and> Segment_IsValid g \<and>
      (\<exists>h w2. Segment_Open free_env ''/a'' w1 = Inr (h, w2) \<and> Segment_IsValid h)"
    by (simp add: calls)
  then obtain g w1 h w2 where r: "Segment_Create free_env ''/a'' 64 shm_empty = Inr (g, w1)" "Segment_IsValid g"
    "Segment_Open free_env ''/a'' w1 = Inr (h, w2)" "Segment_IsValid h" by blast
  from opened_segment_is_shared [OF free_env_ok r] r show ?thesis by blast
qed

section \<open>Names\<close>

text \<open>The names of the world after a run.\<close>

definition names_after :: "shm_env \<Rightarrow> (string \<Rightarrow> string) \<Rightarrow> seg_op list \<Rightarrow> string list" where
  "names_after e left ops = (case seg_run e left ops ([], shm_empty) of Inr (_, w) \<Rightarrow> map fst (sw_names w) | Inl _ \<Rightarrow> [])"

text \<open>
  After \<open>Destroy\<close> the mark of the creator and the name are still there: the destructor unlinks a second time,
  and the name may by then be that of a new segment.
\<close>

lemma destructor_unlinks_again:
  "names_after free_env left [Do_Create 0 ''/a'' 64, Do_Destroy 0, Do_Create 1 ''/a'' 64] = [''/a'']"
  "names_after free_env left [Do_Create 0 ''/a'' 64, Do_Destroy 0, Do_Create 1 ''/a'' 64, End 0] = []"
  by (simp_all add: names_after_def segment_calls free_env_def)

text \<open>Creating a name again takes the existing object and cuts it to the new size; the earlier owner's end unlinks it.\<close>

lemma create_takes_existing:
  "\<exists>g w1 h w2. Segment_Create free_env ''/a'' 64 shm_empty = Inr (g, w1) \<and> Segment_Create free_env ''/a'' 8 w1 = Inr (h, w2) \<and>
    sg_state h = Created \<and> Segment_Size g = 64 \<and> sw_sizes w2 0 = 8 \<and> sw_next w2 = 1"
  by (simp add: segment_calls free_env_def Segment_Size_def)

lemma assignment_unlinks_new_owner:
  "names_after free_env left [Do_Create 0 ''/a'' 64, Do_Create 1 ''/a'' 64, Do_Assign 0 1] = []"
  by (simp add: names_after_def segment_calls free_env_def)

text \<open>A segment that was moved from still unlinks, under the name that is left in it.\<close>

lemma moved_from_unlinks:
  "names_after free_env (\<lambda>s. s) [Do_Create 0 ''/a'' 64, Do_Move 1 0, End 0] = []"
  "names_after free_env (\<lambda>_. []) [Do_Create 0 ''/a'' 64, Do_Move 1 0, End 0] = [''/a'']"
  by (simp_all add: names_after_def segment_calls free_env_def)

text \<open>A creation that fails after \<open>shm_open\<close> leaves the name it made.\<close>

lemma failed_creation_leaves_name:
  "names_after (free_env\<lparr>ev_truncate := (\<lambda>_ _ _. False)\<rparr>) left [Do_Create 0 ''/a'' 64, End 0] = [''/a'']"
  "names_after free_env left [Do_Create 0 ''/a'' 0, End 0] = [''/a'']"
  by (simp_all add: names_after_def segment_calls free_env_def)

section \<open>The spin lock\<close>

text \<open>\<open>test_and_set\<close> on the flag; a round of \<open>Lock\<close> returns when the flag was clear.\<close>

definition test_and_set :: "bool \<Rightarrow> bool \<times> bool" where "test_and_set flag = (flag, True)"

definition SpinLock_Lock_round :: "bool \<Rightarrow> bool \<times> bool" where
  "SpinLock_Lock_round flag = (case test_and_set flag of (was, flag') \<Rightarrow> (\<not> was, flag'))"

definition SpinLock_TryLock :: "bool \<Rightarrow> bool \<times> bool" where
  "SpinLock_TryLock flag = (case test_and_set flag of (was, flag') \<Rightarrow> (\<not> was, flag'))"

definition SpinLock_Unlock :: "bool \<Rightarrow> bool" where "SpinLock_Unlock flag = False"

text \<open>Threads outside, in the loop of \<open>Lock\<close>, or holding the lock; only a holder unlocks.\<close>

datatype spin_pc = Outside | Spinning | Holding

inductive spin_step :: "bool \<times> spin_pc list \<Rightarrow> bool \<times> spin_pc list \<Rightarrow> bool" where
  spin_call: "i < length ps \<Longrightarrow> ps ! i = Outside \<Longrightarrow> spin_step (flag, ps) (flag, ps[i := Spinning])"
| spin_round: "i < length ps \<Longrightarrow> ps ! i = Spinning \<Longrightarrow> SpinLock_Lock_round flag = (got, flag') \<Longrightarrow>
    spin_step (flag, ps) (flag', ps[i := if got then Holding else Spinning])"
| spin_try: "i < length ps \<Longrightarrow> ps ! i = Outside \<Longrightarrow> SpinLock_TryLock flag = (got, flag') \<Longrightarrow>
    spin_step (flag, ps) (flag', ps[i := if got then Holding else Outside])"
| spin_unlock: "i < length ps \<Longrightarrow> ps ! i = Holding \<Longrightarrow> spin_step (flag, ps) (SpinLock_Unlock flag, ps[i := Outside])"

definition holders :: "spin_pc list \<Rightarrow> nat" where
  "holders ps = (\<Sum>p\<leftarrow>ps. of_bool (p = Holding))"

lemma holders_update: "i < length ps \<Longrightarrow> holders (ps[i := p]) + of_bool (ps ! i = Holding) = holders ps + of_bool (p = Holding)"
  unfolding holders_def by (rule sum_list_map_update)

lemma spin_step_holders:
  assumes "spin_step s t" and "holders (snd s) = of_bool (fst s)"
  shows "holders (snd t) = of_bool (fst t) \<and> length (snd t) = length (snd s)"
  using assms
proof (cases rule: spin_step.cases)
  case (spin_call i ps flag)
  then show ?thesis using assms(2) holders_update [of i ps Spinning] by simp
next
  case (spin_round i ps flag got flag')
  then show ?thesis using assms(2) holders_update [of i ps "if got then Holding else Spinning"]
    by (cases flag) (simp_all add: SpinLock_Lock_round_def test_and_set_def)
next
  case (spin_try i ps flag got flag')
  then show ?thesis using assms(2) holders_update [of i ps "if got then Holding else Outside"]
    by (cases flag) (simp_all add: SpinLock_TryLock_def test_and_set_def)
next
  case (spin_unlock i ps flag)
  then show ?thesis using assms(2) holders_update [of i ps Outside] by (cases flag) (simp_all add: SpinLock_Unlock_def)
qed

text \<open>
  C33: However the threads' rounds of \<open>Lock\<close>, \<open>TryLock\<close> and \<open>Unlock\<close> interleave, at most one thread holds the
  spin lock, and the flag is set exactly while one does; so a spinning thread gets the lock in its next
  round after the holder has left.
\<close>

theorem spin_lock_excludes:
  assumes "spin_step\<^sup>*\<^sup>* (False, replicate k Outside) (flag, ps)"
  shows "holders ps = of_bool flag \<and> length ps = k \<and>
    (holders ps = 0 \<longrightarrow> (\<forall>i < k. ps ! i = Spinning \<longrightarrow> spin_step (flag, ps) (True, ps[i := Holding])))"
proof -
  have "holders (snd t) = of_bool (fst t) \<and> length (snd t) = k" if "spin_step\<^sup>*\<^sup>* (False, replicate k Outside) t" for t
    using that
  proof (induction rule: rtranclp_induct)
    case base
    then show ?case by (simp add: holders_def)
  next
    case (step s t)
    then show ?case using spin_step_holders by metis
  qed
  from this [OF assms] have "holders ps = of_bool flag" "length ps = k" by simp_all
  moreover have "spin_step (False, ps) (True, ps[i := Holding])" if "i < length ps" "ps ! i = Spinning" for i
    using spin_round [OF that, of False True True] by (simp add: SpinLock_Lock_round_def test_and_set_def)
  ultimately show ?thesis by (cases flag) simp_all
qed

theorem spin_lock_excludes_witness:
  "spin_step\<^sup>*\<^sup>* (False, replicate 2 Outside) (True, [Holding, Spinning]) \<and> holders [Holding, Spinning] = of_bool True"
proof -
  have "spin_step (False, [Outside, Outside]) (True, [Holding, Outside])"
    using spin_try [of 0 "[Outside, Outside]" False True True] by (simp add: SpinLock_TryLock_def test_and_set_def)
  moreover have "spin_step (True, [Holding, Outside]) (True, [Holding, Spinning])"
    using spin_call [of 1 "[Holding, Outside]" True] by simp
  moreover have "replicate 2 Outside = [Outside, Outside]" by (simp add: numeral_2_eq_2)
  ultimately have r: "spin_step\<^sup>*\<^sup>* (False, replicate 2 Outside) (True, [Holding, Spinning])"
    by (metis converse_rtranclp_into_rtranclp rtranclp.rtrancl_refl)
  from spin_lock_excludes [OF this] this show ?thesis by blast
qed

end
