(* ===== verification/Memory_Block.thy ===== *)
theory Memory_Block
  imports Owned
begin

text \<open>
  \<open>core/memory_resource.hpp\<close>: \<open>MemoryBlock\<close>, which owns one region of \<open>operator new\<close>. The heap is the list of the
  regions that are live; what \<open>operator new\<close> returns is a parameter, \<open>None\<close> where it throws.
\<close>

section \<open>The class\<close>

record MemoryBlock =
  mb_data :: ptr
  mb_size :: size_t

type_synonym new_fn = "size_t \<Rightarrow> ptr list \<Rightarrow> ptr option"

definition new_ok :: "new_fn \<Rightarrow> bool" where
  "new_ok new \<longleftrightarrow> (\<forall>n live p. new n live = Some p \<longrightarrow> p \<noteq> nullptr \<and> p \<notin> set live)"

definition operator_delete :: "ptr \<Rightarrow> ptr list \<Rightarrow> ptr list comp" where
  "operator_delete p live = (if p \<in> set live then Inr (remove1 p live) else Inl Invalid_Free)"

definition MemoryBlock_default :: MemoryBlock where
  "MemoryBlock_default = \<lparr>mb_data = nullptr, mb_size = 0\<rparr>"

definition MemoryBlock_new :: "new_fn \<Rightarrow> size_t \<Rightarrow> ptr list \<Rightarrow> (MemoryBlock \<times> ptr list) comp" where
  "MemoryBlock_new new n live = (case new n live of None \<Rightarrow> Inl Bad_Alloc
     | Some p \<Rightarrow> Inr (\<lparr>mb_data = p, mb_size = n\<rparr>, p # live))"

definition MemoryBlock_valid :: "MemoryBlock \<Rightarrow> bool" where
  "MemoryBlock_valid b = (mb_data b \<noteq> nullptr)"

definition MemoryBlock_reset :: "MemoryBlock \<Rightarrow> ptr list \<Rightarrow> (MemoryBlock \<times> ptr list) comp" where
  "MemoryBlock_reset b live = (if mb_data b \<noteq> nullptr
     then rbind (operator_delete (mb_data b) live) (\<lambda>live'. Inr (b\<lparr>mb_data := nullptr, mb_size := 0\<rparr>, live')) else Inr (b, live))"

definition MemoryBlock_destruct :: "MemoryBlock \<Rightarrow> ptr list \<Rightarrow> ptr list comp" where
  "MemoryBlock_destruct b live = rbind (MemoryBlock_reset b live) (\<lambda>(_, live'). Inr live')"

definition block_moved_from :: "MemoryBlock \<Rightarrow> MemoryBlock" where
  "block_moved_from b = b\<lparr>mb_data := nullptr, mb_size := 0\<rparr>"

definition MemoryBlock_move :: "MemoryBlock \<Rightarrow> MemoryBlock \<times> MemoryBlock" where
  "MemoryBlock_move other = (\<lparr>mb_data = mb_data other, mb_size = mb_size other\<rparr>, block_moved_from other)"

text \<open>Move assignment; \<open>self\<close>: both blocks are the same object, the test \<open>this != &other\<close> of the code.\<close>

definition MemoryBlock_move_assign :: "bool \<Rightarrow> MemoryBlock \<Rightarrow> MemoryBlock \<Rightarrow> ptr list \<Rightarrow> (MemoryBlock \<times> MemoryBlock \<times> ptr list) comp" where
  "MemoryBlock_move_assign self b other live =
     (if \<not> self
      then rbind (MemoryBlock_reset b live) (\<lambda>(b', live').
             Inr (b'\<lparr>mb_data := mb_data other, mb_size := mb_size other\<rparr>, block_moved_from other, live'))
      else Inr (b, other, live))"

section \<open>Programs over blocks\<close>

type_synonym block_vars = "(nat, MemoryBlock) umap"

datatype block_op = New_Block nat size_t | Empty_Block nat | Move_Block nat nat | Assign_Block nat nat | Reset_Block nat | End_Block nat

text \<open>A variable is declared once; operations on variables that are not there do nothing.\<close>

fun block_do :: "new_fn \<Rightarrow> block_op \<Rightarrow> block_vars \<times> ptr list \<Rightarrow> (block_vars \<times> ptr list) comp" where
  "block_do new (New_Block v n) (vs, live) =
     (if map_of vs v = None then rbind (MemoryBlock_new new n live) (\<lambda>(b, live'). Inr ((v, b) # vs, live')) else Inr (vs, live))"
| "block_do new (Empty_Block v) (vs, live) = (if map_of vs v = None then Inr ((v, MemoryBlock_default) # vs, live) else Inr (vs, live))"
| "block_do new (Move_Block v u) (vs, live) =
     (case map_of vs u of Some h \<Rightarrow> if map_of vs v = None
        then (case MemoryBlock_move h of (b, h') \<Rightarrow> Inr ((v, b) # AList.update u h' vs, live)) else Inr (vs, live) | None \<Rightarrow> Inr (vs, live))"
| "block_do new (Assign_Block v u) (vs, live) =
     (case map_of vs v of None \<Rightarrow> Inr (vs, live)
      | Some b \<Rightarrow> (case map_of vs u of None \<Rightarrow> Inr (vs, live)
        | Some h \<Rightarrow> rbind (MemoryBlock_move_assign (v = u) b h live) (\<lambda>(b', h', live').
            Inr (AList.update v b' (AList.update u h' vs), live'))))"
| "block_do new (Reset_Block v) (vs, live) =
     (case map_of vs v of Some b \<Rightarrow> rbind (MemoryBlock_reset b live) (\<lambda>(b', live'). Inr (AList.update v b' vs, live')) | None \<Rightarrow> Inr (vs, live))"
| "block_do new (End_Block v) (vs, live) =
     (case map_of vs v of Some b \<Rightarrow> rbind (MemoryBlock_destruct b live) (\<lambda>live'. Inr (AList.delete v vs, live')) | None \<Rightarrow> Inr (vs, live))"

definition region_of :: "MemoryBlock \<Rightarrow> ptr multiset" where
  "region_of b = (if mb_data b = nullptr then {#} else {#mb_data b#})"

definition block_inv :: "block_vars \<times> ptr list \<Rightarrow> bool" where
  "block_inv x \<longleftrightarrow> umap_ok (fst x) \<and> held region_of (fst x) = mset (snd x)"

lemma region_of_simps [simp]: "region_of (b\<lparr>mb_data := nullptr, mb_size := 0\<rparr>) = {#}" "region_of (block_moved_from b) = {#}"
  "region_of MemoryBlock_default = {#}" "region_of \<lparr>mb_data = mb_data b, mb_size = n\<rparr> = region_of b"
  "region_of (c\<lparr>mb_data := mb_data b, mb_size := n\<rparr>) = region_of b"
  by (simp_all add: region_of_def block_moved_from_def MemoryBlock_default_def)

lemma reset_ok:
  assumes "region_of b \<subseteq># mset live"
  shows "\<exists>b' live'. MemoryBlock_reset b live = Inr (b', live') \<and> region_of b' = {#} \<and> mset live = region_of b + mset live'"
proof (cases "mb_data b = nullptr")
  case True
  then show ?thesis by (simp add: MemoryBlock_reset_def region_of_def)
next
  case False
  with assms have "mb_data b \<in> set live" by (simp add: region_of_def)
  with False show ?thesis by (simp add: MemoryBlock_reset_def operator_delete_def region_of_def)
qed

lemma block_do_inv:
  assumes n: "new_ok new" and i: "block_inv (vs, live)"
  shows "case block_do new op (vs, live) of Inr x \<Rightarrow> block_inv x | Inl e \<Rightarrow> e = Bad_Alloc"
proof -
  have u: "umap_ok vs" and h: "held region_of vs = mset live" using i by (simp_all add: block_inv_def)
  have sub: "region_of b \<subseteq># mset live" if "map_of vs v = Some b" for v b using held_member [OF u that] h by metis
  show ?thesis
  proof (cases op)
    case (New_Block v k)
    then show ?thesis using i n
      by (cases "map_of vs v"; cases "new k live") (auto simp: MemoryBlock_new_def block_inv_def map_of_eq_None_iff region_of_def new_ok_def)
  next
    case (Empty_Block v)
    then show ?thesis using i by (cases "map_of vs v") (auto simp: block_inv_def map_of_eq_None_iff)
  next
    case (Move_Block v w)
    show ?thesis
    proof (cases "map_of vs w = None \<or> map_of vs v \<noteq> None")
      case True
      then show ?thesis using i Move_Block by (cases "map_of vs w") auto
    next
      case False
      then obtain b where b: "map_of vs w = Some b" "map_of vs v = None" by auto
      have "map_of (AList.update w (block_moved_from b) vs) v = None" using b by (auto simp: update_conv')
      moreover have "held region_of (AList.update w (block_moved_from b) vs) + region_of b = mset live"
        using held_update [OF u b(1), of region_of "block_moved_from b"] h by simp
      ultimately show ?thesis using b Move_Block u
        by (simp add: MemoryBlock_move_def block_inv_def umap_ok_update map_of_eq_None_iff add.commute)
    qed
  next
    case (Assign_Block v w)
    show ?thesis
    proof (cases "map_of vs v = None \<or> map_of vs w = None \<or> v = w")
      case True
      then show ?thesis using i Assign_Block
        by (cases "map_of vs v"; cases "map_of vs w") (auto simp: MemoryBlock_move_assign_def update_same)
    next
      case False
      then obtain b c where b: "map_of vs v = Some b" "map_of vs w = Some c" "v \<noteq> w" by auto
      from reset_ok [OF sub [OF b(1)]] obtain b' live' where
        r: "MemoryBlock_reset b live = Inr (b', live')" "region_of b' = {#}" "mset live = region_of b + mset live'" by blast
      let ?b = "b'\<lparr>mb_data := mb_data c, mb_size := mb_size c\<rparr>" and ?m = "block_moved_from c"
      have v: "map_of (AList.update w ?m vs) v = Some b" using b by (simp add: update_conv')
      have "held region_of (AList.update w ?m vs) + region_of c = mset live" using held_update [OF u b(2), of region_of ?m] h by simp
      then have "region_of c + held region_of (AList.update w ?m vs) = mset live" by (simp add: add.commute)
      moreover have "held region_of (AList.update v ?b (AList.update w ?m vs)) + region_of b = held region_of (AList.update w ?m vs) + region_of c"
        using held_update [OF umap_ok_update [OF u] v, of region_of ?b] by simp
      ultimately have "held region_of (AList.update v ?b (AList.update w ?m vs)) = mset live'" using r(3) exchanged by metis
      then show ?thesis using b r(1) Assign_Block u by (simp add: MemoryBlock_move_assign_def block_inv_def umap_ok_update)
    qed
  next
    case (Reset_Block v)
    show ?thesis
    proof (cases "map_of vs v")
      case (Some b)
      from reset_ok [OF sub [OF Some]] obtain b' live' where
        r: "MemoryBlock_reset b live = Inr (b', live')" "region_of b' = {#}" "mset live = region_of b + mset live'" by blast
      with held_update [OF u Some, of region_of b'] h Some Reset_Block u show ?thesis by (simp add: block_inv_def umap_ok_update)
    qed (use i Reset_Block in simp)
  next
    case (End_Block v)
    show ?thesis
    proof (cases "map_of vs v")
      case (Some b)
      from reset_ok [OF sub [OF Some]] obtain b' live' where
        r: "MemoryBlock_reset b live = Inr (b', live')" "mset live = region_of b + mset live'" by blast
      with held_delete [OF u Some, of region_of] h Some End_Block u show ?thesis
        by (simp add: block_inv_def umap_ok_delete MemoryBlock_destruct_def)
    qed (use i End_Block in simp)
  qed
qed

text \<open>
  Whatever blocks a program makes, moves, assigns, resets and ends, no region is freed twice: the only way it
  stops is that \<open>operator new\<close> throws, the live regions are those the blocks hold, each held once, and when the
  last block has ended none is left.
\<close>

theorem memory_blocks_free_once:
  assumes "new_ok new"
  shows "case for_each (block_do new) ops ([], []) of
      Inr (vs, live) \<Rightarrow> held region_of vs = mset live \<and> (vs = [] \<longrightarrow> live = [])
    | Inl e \<Rightarrow> e = Bad_Alloc"
proof -
  have "case for_each (block_do new) ops x of Inr y \<Rightarrow> block_inv y | Inl e \<Rightarrow> e = Bad_Alloc" if "block_inv x" for x
    using that
  proof (induction ops arbitrary: x)
    case (Cons op ops)
    then have "case block_do new op x of Inr y \<Rightarrow> block_inv y | Inl e \<Rightarrow> e = Bad_Alloc"
      using block_do_inv [OF assms, of "fst x" "snd x" op] by simp
    then show ?case using Cons.IH by (cases "block_do new op x") simp_all
  qed simp
  from this [of "([], [])"] show ?thesis by (auto simp: block_inv_def split: sum.splits prod.splits)
qed

end
