(* ===== verification/Benchmark.thy ===== *)
theory Benchmark
  imports Prelude "HOL-Library.Multiset"
begin

text \<open>
  \<open>benchmark/benchmark_case.hpp\<close>, \<open>benchmark_runner.hpp\<close> and \<open>benchmark_runner.cpp\<close>: benchmark cases and their
  measurement, the registry, the runner with its filter and its reports, and the statistics. A \<open>double\<close> is its
  bit pattern and its arithmetic, the formatting of numbers, the clock and the callbacks are parameters.
\<close>

section \<open>Doubles, the clock and the callbacks\<close>

type_synonym f64 = "64 word"

record double_ops =
  d_add :: "f64 \<Rightarrow> f64 \<Rightarrow> f64"
  d_sub :: "f64 \<Rightarrow> f64 \<Rightarrow> f64"
  d_mul :: "f64 \<Rightarrow> f64 \<Rightarrow> f64"
  d_div :: "f64 \<Rightarrow> f64 \<Rightarrow> f64"
  d_sqrt :: "f64 \<Rightarrow> f64"
  d_lt :: "f64 \<Rightarrow> f64 \<Rightarrow> bool"
  d_of :: "int \<Rightarrow> f64"
  d_to_size :: "f64 \<Rightarrow> size_t option"

text \<open>
  A reading of the clock, in nanoseconds, and the callbacks act on a state \<open>'w\<close> of the process. A callback may
  be empty. It returns, and acts on that state only: one that throws, or that changes the case it belongs to, as the
  code lets it, is outside the model.
\<close>

record 'w callbacks =
  cb_setup :: "('w \<Rightarrow> 'w) option"
  cb_run :: "(int \<Rightarrow> 'w \<Rightarrow> 'w) option"
  cb_teardown :: "('w \<Rightarrow> 'w) option"

type_synonym 'w clock = "'w \<Rightarrow> int \<times> 'w"

definition call_opt :: "('w \<Rightarrow> 'w) option \<Rightarrow> 'w \<Rightarrow> 'w" where
  "call_opt f w = (case f of None \<Rightarrow> w | Some g \<Rightarrow> g w)"

section \<open>Statistics\<close>

definition dzero :: "double_ops \<Rightarrow> f64" where "dzero d = d_of d 0"

definition mean :: "double_ops \<Rightarrow> f64 list \<Rightarrow> f64" where
  "mean d values = (if values = [] then dzero d
     else d_div d (foldl (d_add d) (dzero d) values) (d_of d (int (length values))))"

definition stddev :: "double_ops \<Rightarrow> f64 list \<Rightarrow> f64" where
  "stddev d values = (if length values < 2 then dzero d
     else let m = mean d values;
              sum_sq = foldl (\<lambda>s v. let diff = d_sub d v m in d_add d s (d_mul d diff diff)) (dzero d) values
          in d_sqrt d (d_div d sum_sq (d_of d (int (length values - 1)))))"

text \<open>\<open>std::sort\<close> as an insertion sort by \<open><\<close>.\<close>

fun d_insert :: "double_ops \<Rightarrow> f64 \<Rightarrow> f64 list \<Rightarrow> f64 list" where
  "d_insert d x [] = [x]"
| "d_insert d x (y # ys) = (if d_lt d y x then y # d_insert d x ys else x # y # ys)"

definition d_sort :: "double_ops \<Rightarrow> f64 list \<Rightarrow> f64 list" where
  "d_sort d xs = foldr (d_insert d) xs []"

text \<open>The conversion of a negative or too large \<open>double\<close> to \<open>size_t\<close> is undefined.\<close>

definition percentile :: "double_ops \<Rightarrow> f64 list \<Rightarrow> f64 \<Rightarrow> f64 comp" where
  "percentile d values p = (if values = [] then Inr (dzero d)
     else let s = d_sort d values
          in (case d_to_size d (d_mul d p (d_of d (int (length s)))) of
                None \<Rightarrow> Inl Out_Of_Bounds
              | Some idx \<Rightarrow> (let i = (if length s \<le> unat idx then length s - 1 else unat idx) in aget s i)))"

definition estimate_bandwidth_gbps :: "double_ops \<Rightarrow> size_t \<Rightarrow> f64 \<Rightarrow> f64" where
  "estimate_bandwidth_gbps d bytes time_ms = d_div d (d_div d (d_of d (uint bytes)) (d_of d 1000000000)) (d_div d time_ms (d_of d 1000))"

definition calculate_throughput :: "double_ops \<Rightarrow> size_t \<Rightarrow> f64 \<Rightarrow> string \<Rightarrow> f64" where
  "calculate_throughput d items time_ms unit = d_div d (d_of d (uint items)) (d_div d time_ms (d_of d 1000))"

text \<open>\<open>*std::min_element\<close> and \<open>*std::max_element\<close> give the first of the least and of the greatest elements.\<close>

definition min_element :: "double_ops \<Rightarrow> f64 list \<Rightarrow> f64" where
  "min_element d xs = foldl (\<lambda>m x. if d_lt d x m then x else m) (xs ! 0) (drop 1 xs)"

definition max_element :: "double_ops \<Rightarrow> f64 list \<Rightarrow> f64" where
  "max_element d xs = foldl (\<lambda>m x. if d_lt d m x then x else m) (xs ! 0) (drop 1 xs)"

section \<open>Cases\<close>

record Result =
  r_name :: string
  r_unit :: string
  r_num_items :: size_t
  r_cpu_time_ns :: f64
  r_real_time_ns :: f64
  r_iterations :: size_t
  r_items_per_second :: f64
  r_bytes_per_second :: f64
  r_mean :: f64
  r_stddev :: f64
  r_min :: f64
  r_max :: f64
  r_samples :: "f64 list"

definition Result_default :: "double_ops \<Rightarrow> Result" where
  "Result_default d = \<lparr>r_name = [], r_unit = [], r_num_items = 0, r_cpu_time_ns = dzero d, r_real_time_ns = dzero d, r_iterations = 0,
     r_items_per_second = dzero d, r_bytes_per_second = dzero d, r_mean = dzero d, r_stddev = dzero d, r_min = dzero d,
     r_max = dzero d, r_samples = []\<rparr>"

record 'w BenchmarkCase =
  bc_name :: string
  bc_unit :: string
  bc_range :: "size_t list"
  bc_min_iters :: size_t
  bc_max_iters :: size_t
  bc_min_time_ms :: size_t
  bc_timeout_ms :: size_t
  bc_callbacks :: "'w callbacks"
  bc_results :: "Result list"

definition BenchmarkCase_new :: "string \<Rightarrow> 'w BenchmarkCase" where
  "BenchmarkCase_new name = \<lparr>bc_name = name, bc_unit = ''items'', bc_range = [], bc_min_iters = 3, bc_max_iters = 10000,
     bc_min_time_ms = 100, bc_timeout_ms = 60000, bc_callbacks = \<lparr>cb_setup = None, cb_run = None, cb_teardown = None\<rparr>, bc_results = []\<rparr>"

definition set_name :: "string \<Rightarrow> 'w BenchmarkCase \<Rightarrow> 'w BenchmarkCase" where "set_name n c = c\<lparr>bc_name := n\<rparr>"
definition set_unit :: "string \<Rightarrow> 'w BenchmarkCase \<Rightarrow> 'w BenchmarkCase" where "set_unit u c = c\<lparr>bc_unit := u\<rparr>"
definition set_iterations :: "size_t \<Rightarrow> size_t \<Rightarrow> 'w BenchmarkCase \<Rightarrow> 'w BenchmarkCase" where
  "set_iterations lo hi c = c\<lparr>bc_min_iters := lo, bc_max_iters := hi\<rparr>"
definition set_min_time_ms :: "size_t \<Rightarrow> 'w BenchmarkCase \<Rightarrow> 'w BenchmarkCase" where "set_min_time_ms t c = c\<lparr>bc_min_time_ms := t\<rparr>"
definition set_timeout_ms :: "size_t \<Rightarrow> 'w BenchmarkCase \<Rightarrow> 'w BenchmarkCase" where "set_timeout_ms t c = c\<lparr>bc_timeout_ms := t\<rparr>"
definition set_setup :: "('w \<Rightarrow> 'w) option \<Rightarrow> 'w BenchmarkCase \<Rightarrow> 'w BenchmarkCase" where
  "set_setup f c = c\<lparr>bc_callbacks := (bc_callbacks c)\<lparr>cb_setup := f\<rparr>\<rparr>"
definition set_run :: "(int \<Rightarrow> 'w \<Rightarrow> 'w) option \<Rightarrow> 'w BenchmarkCase \<Rightarrow> 'w BenchmarkCase" where
  "set_run f c = c\<lparr>bc_callbacks := (bc_callbacks c)\<lparr>cb_run := f\<rparr>\<rparr>"
definition set_teardown :: "('w \<Rightarrow> 'w) option \<Rightarrow> 'w BenchmarkCase \<Rightarrow> 'w BenchmarkCase" where
  "set_teardown f c = c\<lparr>bc_callbacks := (bc_callbacks c)\<lparr>cb_teardown := f\<rparr>\<rparr>"

text \<open>The loop of \<open>set_range\<close>; \<open>i += step\<close> wraps around.\<close>

partial_function (option) range_loop :: "size_t \<Rightarrow> size_t \<Rightarrow> size_t \<Rightarrow> size_t list \<Rightarrow> size_t list option" where
  "range_loop i stop step acc = (if i \<le> stop then range_loop (i + step) stop step (acc @ [i]) else Some acc)"

definition set_range :: "size_t \<Rightarrow> size_t \<Rightarrow> size_t \<Rightarrow> 'w BenchmarkCase \<Rightarrow> 'w BenchmarkCase option" where
  "set_range start stop step c = map_option (\<lambda>r. c\<lparr>bc_range := r\<rparr>) (range_loop start stop step (bc_range c))"

section \<open>Measuring\<close>

definition run_cb :: "'w BenchmarkCase \<Rightarrow> 'w \<Rightarrow> 'w" where
  "run_cb c w = (case cb_run (bc_callbacks c) of None \<Rightarrow> w | Some f \<Rightarrow> f 1 w)"

text \<open>The first loop: \<open>n\<close> calls between two readings.\<close>

definition timing_loop :: "'w clock \<Rightarrow> 'w BenchmarkCase \<Rightarrow> nat \<Rightarrow> 'w \<Rightarrow> int \<times> 'w" where
  "timing_loop now c n w = (case now w of (t0, w1) \<Rightarrow> case now ((run_cb c ^^ n) w1) of (t1, w2) \<Rightarrow> (t1 - t0, w2))"

text \<open>The doubling wraps around.\<close>

definition adjust :: "double_ops \<Rightarrow> 'w BenchmarkCase \<Rightarrow> int \<Rightarrow> size_t" where
  "adjust d c elapsed =
     (let iters = bc_min_iters c; target_time = d_mul d (d_of d (uint (bc_min_time_ms c))) (d_of d 1000000)
      in if d_lt d (d_of d elapsed) target_time \<and> iters < bc_max_iters c then min (iters * 2) (bc_max_iters c) else iters)"

primrec samples_loop :: "double_ops \<Rightarrow> 'w clock \<Rightarrow> 'w BenchmarkCase \<Rightarrow> nat \<Rightarrow> 'w \<Rightarrow> f64 list \<times> 'w" where
  "samples_loop d now c 0 w = ([], w)"
| "samples_loop d now c (Suc n) w = (case timing_loop now c 1 w of (t, w1) \<Rightarrow>
     case samples_loop d now c n w1 of (ts, w2) \<Rightarrow> (d_of d t # ts, w2))"

definition run_once :: "double_ops \<Rightarrow> 'w clock \<Rightarrow> 'w BenchmarkCase \<Rightarrow> Result \<Rightarrow> 'w \<Rightarrow> Result \<times> 'w" where
  "run_once d now c res w =
     (let w1 = run_cb c (call_opt (cb_setup (bc_callbacks c)) w)
      in case timing_loop now c (unat (bc_min_iters c)) w1 of (elapsed, w2) \<Rightarrow>
         let iters = adjust d c elapsed
         in case samples_loop d now c (unat iters) w2 of (ts, w3) \<Rightarrow>
            let m = (if ts = [] then dzero d else mean d ts)
            in (res\<lparr>r_iterations := iters, r_cpu_time_ns := m, r_real_time_ns := m, r_mean := m,
                  r_min := (if ts = [] then dzero d else min_element d ts),
                  r_max := (if ts = [] then dzero d else max_element d ts),
                  r_stddev := stddev d ts,
                  r_items_per_second := d_div d (d_of d (uint (r_num_items res))) (d_div d m (d_of d 1000000000)),
                  r_samples := ts\<rparr>, call_opt (cb_teardown (bc_callbacks c)) w3))"

definition result_for :: "double_ops \<Rightarrow> 'w BenchmarkCase \<Rightarrow> size_t \<Rightarrow> Result" where
  "result_for d c n = (Result_default d)\<lparr>r_name := bc_name c, r_unit := bc_unit c, r_num_items := n\<rparr>"

primrec run_range :: "double_ops \<Rightarrow> 'w clock \<Rightarrow> 'w BenchmarkCase \<Rightarrow> size_t list \<Rightarrow> 'w \<Rightarrow> Result list \<times> 'w" where
  "run_range d now c [] w = ([], w)"
| "run_range d now c (n # ns) w = (case run_once d now c (result_for d c n) w of (r, w1) \<Rightarrow>
     case run_range d now c ns w1 of (rs, w2) \<Rightarrow> (r # rs, w2))"

text \<open>\<open>BenchmarkCase::run\<close>.\<close>

definition case_run :: "double_ops \<Rightarrow> 'w clock \<Rightarrow> 'w BenchmarkCase \<Rightarrow> 'w \<Rightarrow> 'w BenchmarkCase \<times> 'w" where
  "case_run d now c w =
     (case run_range d now c (if bc_range c = [] then [1] else bc_range c) w of (rs, w') \<Rightarrow> (c\<lparr>bc_results := rs\<rparr>, w'))"

section \<open>The range of a case\<close>

lemma range_loop_stuck:
  assumes "range_loop i stop step acc = Some r"
  shows "\<not> (i \<le> stop \<and> step = 0) \<and> stop \<noteq> -1"
  by (rule range_loop.raw_induct [OF _ assms, where P = "\<lambda>i stop step acc r. \<not> (i \<le> stop \<and> step = 0) \<and> stop \<noteq> -1"])
    (fastforce split: if_splits)

definition progression :: "size_t \<Rightarrow> size_t \<Rightarrow> size_t \<Rightarrow> size_t list" where
  "progression start stop step =
     map (\<lambda>k. start + of_nat k * step) [0..<if start \<le> stop then (unat stop - unat start) div unat step + 1 else 0]"

lemma progression_step:
  assumes "start \<le> stop" and "step \<noteq> 0" and "unat stop + unat step < 2 ^ 64"
  shows "progression start stop step = start # progression (start + step) stop step"
proof -
  let ?s = "unat start" and ?e = "unat stop" and ?d = "unat step"
  have se: "?s \<le> ?e" and d: "0 < ?d" using assms(1,2) by (simp_all add: word_le_nat_alt unat_gt_0)
  have u: "unat (start + step) = ?s + ?d" using se assms(3) by (simp add: unat_word_ariths)
  have n: "(if start \<le> stop then (?e - ?s) div ?d + 1 else 0) = Suc (if start + step \<le> stop then (?e - unat (start + step)) div ?d + 1 else 0)"
  proof (cases "?s + ?d \<le> ?e")
    case True
    then have "(?e - ?s) div ?d = (?e - (?s + ?d)) div ?d + 1" using d le_div_geq [of ?d "?e - ?s"] by (simp add: diff_diff_left)
    with True assms(1) u show ?thesis by (simp add: word_le_nat_alt)
  next
    case False
    then show ?thesis using assms(1) u by (simp add: word_le_nat_alt)
  qed
  show ?thesis unfolding progression_def n upt_conv_Cons [OF zero_less_Suc] list.map
    by (simp add: map_Suc_upt [symmetric] algebra_simps del: upt_Suc map_Suc_upt) 
qed

text \<open>
  C29: When the end of the range plus the step fits in \<open>size_t\<close>, \<open>set_range\<close> returns unless the step is zero and
  the range is not empty, and appends the arithmetic progression from the start up to the end, the end
  included; with a zero step it does not return.
\<close>

theorem set_range_returns:
  assumes "unat stop + unat step < 2 ^ 64"
  shows "set_range start stop step c = (if start \<le> stop \<and> step = 0 then None
    else Some (c\<lparr>bc_range := bc_range c @ progression start stop step\<rparr>))"
proof -
  have "range_loop start stop step acc = Some (acc @ progression start stop step)" if "\<not> (start \<le> stop \<and> step = 0)" for acc
    using that
  proof (induction "unat stop + 1 - unat start" arbitrary: start acc rule: less_induct)
    case less
    show ?case
    proof (cases "start \<le> stop")
      case True
      with less.prems have z: "step \<noteq> 0" by simp
      then have "unat start < unat (start + step)" using True assms by (simp add: unat_word_ariths word_le_nat_alt unat_gt_0)
      then have "range_loop (start + step) stop step (acc @ [start]) = Some ((acc @ [start]) @ progression (start + step) stop step)"
        using True z by (intro less.hyps) (simp_all add: word_le_nat_alt)
      with True progression_step [OF True z assms] show ?thesis by (simp add: range_loop.simps)
    next
      case False
      then show ?thesis by (simp add: range_loop.simps progression_def)
    qed
  qed
  moreover have "range_loop start stop step (bc_range c) = None" if "start \<le> stop \<and> step = 0"
    using that range_loop_stuck by (metis option.exhaust)
  ultimately show ?thesis by (simp add: set_range_def)
qed

theorem set_range_returns_witness:
  "set_range 2 9 3 (BenchmarkCase_new ''copy'' :: nat BenchmarkCase) = Some ((BenchmarkCase_new ''copy'')\<lparr>bc_range := [2, 5, 8]\<rparr>) \<and>
   set_range 2 9 0 (BenchmarkCase_new ''copy'' :: nat BenchmarkCase) = None"
  using set_range_returns [of 9 3 2 "BenchmarkCase_new ''copy'' :: nat BenchmarkCase"]
    set_range_returns [of 9 0 2 "BenchmarkCase_new ''copy'' :: nat BenchmarkCase"]
  by (simp add: progression_def upt_rec BenchmarkCase_new_def)

text \<open>A range that ends at the greatest \<open>size_t\<close> is never left, whatever the step.\<close>

lemma range_to_the_top_never_ends: "set_range start (-1) step c = None"
  using range_loop_stuck [of start "-1" step "bc_range c"] by (cases "range_loop start (-1) step (bc_range c)") (simp_all add: set_range_def)

section \<open>Percentiles\<close>

text \<open>The order \<open>std::sort\<close> asks for: no value is a NaN.\<close>

definition weakly_ordered :: "double_ops \<Rightarrow> f64 list \<Rightarrow> bool" where
  "weakly_ordered d xs \<longleftrightarrow> (\<forall>a \<in> set xs. \<forall>b \<in> set xs. (d_lt d a b \<longrightarrow> \<not> d_lt d b a) \<and> (\<forall>c \<in> set xs. d_lt d a c \<longrightarrow> d_lt d a b \<or> d_lt d b c))"

abbreviation d_sorted :: "double_ops \<Rightarrow> f64 list \<Rightarrow> bool" where
  "d_sorted d \<equiv> sorted_wrt (\<lambda>a b. \<not> d_lt d b a)"

lemma mset_d_insert [simp]: "mset (d_insert d x xs) = add_mset x (mset xs)"
  by (induction xs) auto

lemma set_d_insert [simp]: "set (d_insert d x xs) = insert x (set xs)"
  by (metis mset_d_insert set_mset_add_mset_insert set_mset_mset)

lemma mset_d_sort [simp]: "mset (d_sort d xs) = mset xs"
  by (induction xs) (simp_all add: d_sort_def)

lemma d_insert_sorted: "weakly_ordered d (x # xs) \<Longrightarrow> d_sorted d xs \<Longrightarrow> d_sorted d (d_insert d x xs)"
proof (induction xs)
  case (Cons y ys)
  have w: "weakly_ordered d (x # ys)" using Cons.prems(1) by (auto simp: weakly_ordered_def)
  show ?case
  proof (cases "d_lt d y x")
    case True
    have "\<not> d_lt d x y" using Cons.prems(1) True unfolding weakly_ordered_def by (meson list.set_intros)
    with True Cons.IH [OF w] Cons.prems(2) show ?thesis by simp
  next
    case False
    have "\<not> d_lt d z x" if z: "z \<in> set ys" for z
    proof
      assume "d_lt d z x"
      moreover have "d_lt d z x \<longrightarrow> d_lt d z y \<or> d_lt d y x" using Cons.prems(1) z unfolding weakly_ordered_def by simp
      ultimately show False using False Cons.prems(2) z by simp
    qed
    with False Cons.prems(2) show ?thesis by simp
  qed
qed simp

lemma d_sort_sorted: "weakly_ordered d xs \<Longrightarrow> d_sorted d (d_sort d xs)"
proof (induction xs)
  case (Cons x xs)
  have "set (d_sort d xs) = set xs" by (metis mset_d_sort set_mset_mset)
  then have "weakly_ordered d (x # d_sort d xs)" using Cons.prems by (simp add: weakly_ordered_def)
  moreover have "weakly_ordered d xs" using Cons.prems by (auto simp: weakly_ordered_def)
  ultimately show ?case using Cons.IH d_insert_sorted by (simp add: d_sort_def)
qed (simp add: d_sort_def)

lemma length_filter_mset: "mset xs = mset ys \<Longrightarrow> length (filter Q xs) = length (filter Q ys)"
  by (metis mset_filter size_mset)

lemma rank_of_nth:
  assumes "d_sorted d s" and "i < length s" and "\<not> d_lt d (s ! i) (s ! i)"
  shows "i < length (filter (\<lambda>x. \<not> d_lt d (s ! i) x) s)" and "length s - i \<le> length (filter (\<lambda>x. \<not> d_lt d x (s ! i)) s)"
proof -
  let ?P = "\<lambda>x. \<not> d_lt d (s ! i) x" and ?Q = "\<lambda>x. \<not> d_lt d x (s ! i)"
  have "?P (s ! j)" if "j \<le> i" for j
    using that assms sorted_wrt_nth_less [OF assms(1), of j i] by (cases "j = i") simp_all
  then have "filter ?P (take (Suc i) s) = take (Suc i) s" using assms(2) by (intro filter_True) (auto simp: in_set_conv_nth)
  moreover have "length (filter ?P s) = length (filter ?P (take (Suc i) s)) + length (filter ?P (drop (Suc i) s))"
    by (metis append_take_drop_id filter_append length_append)
  ultimately show "i < length (filter ?P s)" using assms(2) by simp
  have "?Q (s ! j)" if "i \<le> j" "j < length s" for j
    using that assms sorted_wrt_nth_less [OF assms(1), of i j] by (cases "j = i") simp_all
  then have "filter ?Q (drop i s) = drop i s" by (intro filter_True) (auto simp: in_set_conv_nth)
  moreover have "length (filter ?Q s) = length (filter ?Q (take i s)) + length (filter ?Q (drop i s))"
    by (metis append_take_drop_id filter_append length_append)
  ultimately show "length s - i \<le> length (filter ?Q s)" by simp
qed

text \<open>
  C30: For samples without a NaN and an index \<open>p * n\<close> that fits, \<open>percentile\<close> returns one of the samples, the one
  of rank \<open>min (p * n) (n - 1)\<close>: more than that many samples are not greater than it and all but that many are
  not less.
\<close>

theorem percentile_rank:
  assumes w: "weakly_ordered d values" and ne: "values \<noteq> []"
    and idx: "d_to_size d (d_mul d p (d_of d (int (length values)))) = Some idx" and i: "i = min (unat idx) (length values - 1)"
  shows "\<exists>v. percentile d values p = Inr v \<and> v \<in> set values \<and>
    i < length (filter (\<lambda>x. \<not> d_lt d v x) values) \<and> length values - i \<le> length (filter (\<lambda>x. \<not> d_lt d x v) values)"
proof -
  let ?s = "d_sort d values"
  have ms: "mset ?s = mset values" by simp
  then have len: "length ?s = length values" and set: "set ?s = set values" by (metis size_mset) (metis ms set_mset_mset)
  have il: "i < length ?s" using ne len i by (cases "values") auto
  have "percentile d values p = Inr (?s ! i)"
  proof -
    have "0 < length values" using ne by simp
    then have "(if length values \<le> unat idx then length values - 1 else unat idx) = i" unfolding i min_def by auto
    with ne idx il show ?thesis by (auto simp add: percentile_def len Let_def)
  qed
  moreover have m: "?s ! i \<in> set values" using il set nth_mem by blast
  moreover have "\<not> d_lt d (?s ! i) (?s ! i)" using w m unfolding weakly_ordered_def by blast
  note rank_of_nth [OF d_sort_sorted [OF w] il this]
  ultimately show ?thesis
    using length_filter_mset [OF ms] len by metis
qed

text \<open>Doubles that hold integers.\<close>

definition int_doubles :: double_ops where
  "int_doubles = \<lparr>d_add = (+), d_sub = (-), d_mul = (*), d_div = (\<lambda>a b. word_of_int (if b = 0 then 0 else sint a div sint b)), d_sqrt = (\<lambda>a. a),
     d_lt = (\<lambda>a b. sint a < sint b), d_of = word_of_int, d_to_size = (\<lambda>a. if 0 \<le> sint a then Some a else None)\<rparr>"

theorem percentile_rank_witness:
  "\<exists>v. percentile int_doubles [30, 10, 20] 1 = Inr v \<and> v \<in> set [30, 10, 20] \<and>
    2 < length (filter (\<lambda>x. \<not> d_lt int_doubles v x) [30, 10, 20]) \<and> length [30, 10, 20 :: f64] - 2 \<le> length (filter (\<lambda>x. \<not> d_lt int_doubles x v) [30, 10, 20])"
  by (rule percentile_rank [where idx = 3]) (simp_all add: weakly_ordered_def int_doubles_def)

section \<open>How often a case runs\<close>

text \<open>A count \<open>k\<close> of the calls of the run callback in the state of the process.\<close>

definition counts_calls :: "('w \<Rightarrow> nat) \<Rightarrow> 'w clock \<Rightarrow> 'w callbacks \<Rightarrow> bool" where
  "counts_calls k now cb \<longleftrightarrow> (\<forall>w. k (snd (now w)) = k w) \<and> (\<forall>w. k (call_opt (cb_setup cb) w) = k w) \<and>
     (\<forall>w. k (call_opt (cb_teardown cb) w) = k w) \<and> (\<exists>f. cb_run cb = Some f \<and> (\<forall>w. k (f 1 w) = Suc (k w)))"

lemma count_run: "counts_calls k now (bc_callbacks c) \<Longrightarrow> k ((run_cb c ^^ n) w) = k w + n"
  by (induction n) (auto simp: counts_calls_def run_cb_def)

lemma count_timing:
  assumes "counts_calls k now (bc_callbacks c)"
  shows "k (snd (timing_loop now c n w)) = k w + n"
proof -
  obtain t0 w1 where w1: "now w = (t0, w1)" by (cases "now w")
  obtain t1 w2 where w2: "now ((run_cb c ^^ n) w1) = (t1, w2)" by (cases "now ((run_cb c ^^ n) w1)")
  have clock: "k (snd (now v)) = k v" for v using assms by (simp add: counts_calls_def)
  from clock [of w] w1 clock [of "(run_cb c ^^ n) w1"] w2 count_run [OF assms, of n w1] show ?thesis by (simp add: timing_loop_def)
qed

lemma count_samples:
  "counts_calls k now (bc_callbacks c) \<Longrightarrow> samples_loop d now c n w = (ts, w') \<Longrightarrow> k w' = k w + n \<and> length ts = n"
proof (induction n arbitrary: w ts)
  case (Suc n)
  from Suc.prems(2) show ?case using count_timing [OF Suc.prems(1), of 1 w] Suc.IH [OF Suc.prems(1)]
    by (fastforce split: prod.splits)
qed simp

text \<open>
  A measurement calls the run callback once to warm up, \<open>min_iters\<close> times in the first loop and
  \<open>iterations\<close> times in the final one, keeping one sample for each of these; \<open>iterations\<close> is \<open>min_iters\<close>, or,
  when that is less than \<open>max_iters\<close>, the lesser of \<open>max_iters\<close> and the double of \<open>min_iters\<close>.
\<close>

theorem run_once_calls:
  assumes k: "counts_calls k now (bc_callbacks c)" and r: "run_once d now c res w = (res', w')"
  shows "k w' = k w + 1 + unat (bc_min_iters c) + unat (r_iterations res') \<and> length (r_samples res') = unat (r_iterations res') \<and>
    r_name res' = r_name res \<and> r_num_items res' = r_num_items res \<and>
    (r_iterations res' = bc_min_iters c \<or> bc_min_iters c < bc_max_iters c \<and> r_iterations res' = min (bc_min_iters c * 2) (bc_max_iters c))"
proof -
  let ?w1 = "run_cb c (call_opt (cb_setup (bc_callbacks c)) w)"
  obtain el w2 where w2: "timing_loop now c (unat (bc_min_iters c)) ?w1 = (el, w2)" by (cases "timing_loop now c (unat (bc_min_iters c)) ?w1")
  obtain ts w3 where w3: "samples_loop d now c (unat (adjust d c el)) w2 = (ts, w3)" by (cases "samples_loop d now c (unat (adjust d c el)) w2")
  have "k ?w1 = k w + 1" using k count_run [OF k, of 1] by (simp add: counts_calls_def)
  then have "k w2 = k w + 1 + unat (bc_min_iters c)" using count_timing [OF k, of "unat (bc_min_iters c)" ?w1] w2 by simp
  moreover have "k w3 = k w2 + unat (adjust d c el)" "length ts = unat (adjust d c el)" using count_samples [OF k w3] by simp_all
  moreover have "w' = call_opt (cb_teardown (bc_callbacks c)) w3" "r_iterations res' = adjust d c el" "r_samples res' = ts"
    "r_name res' = r_name res" "r_num_items res' = r_num_items res"
    using r w2 w3 by (auto simp: run_once_def Let_def)
  moreover have "k (call_opt (cb_teardown (bc_callbacks c)) w3) = k w3" using k by (simp add: counts_calls_def)
  ultimately show ?thesis by (simp add: adjust_def Let_def)
qed

text \<open>A process whose state is the number of calls and the time; a call takes five nanoseconds.\<close>

definition tick_clock :: "(nat \<times> int) clock" where "tick_clock w = (snd w, (fst w, snd w + 1))"

definition tick_case :: "(nat \<times> int) BenchmarkCase" where
  "tick_case = set_run (Some (\<lambda>i w. (Suc (fst w), snd w + 5))) (BenchmarkCase_new ''tick'')"

theorem run_once_calls_witness:
  "\<exists>res' w'. run_once int_doubles tick_clock tick_case (result_for int_doubles tick_case 1) (0, 0) = (res', w') \<and>
    fst w' = 4 + unat (r_iterations res') \<and> (r_iterations res' = 3 \<or> r_iterations res' = 6)"
proof -
  obtain res' w' where r: "run_once int_doubles tick_clock tick_case (result_for int_doubles tick_case 1) (0, 0) = (res', w')"
    by (cases "run_once int_doubles tick_clock tick_case (result_for int_doubles tick_case 1) (0, 0)")
  have "counts_calls fst tick_clock (bc_callbacks tick_case)"
    by (simp add: counts_calls_def tick_clock_def tick_case_def set_run_def BenchmarkCase_new_def call_opt_def)
  from run_once_calls [OF this r] r show ?thesis by (auto simp: tick_case_def set_run_def BenchmarkCase_new_def)
qed

text \<open>
  With \<open>min_iters = 0\<close> nothing is measured, whatever \<open>max_iters\<close> is, as twice zero is zero, and the rate is a
  division by \<open>0 / 1e9\<close>. Twice \<open>2^63\<close> is zero as well.
\<close>

lemma no_minimum_no_measurement:
  assumes "bc_min_iters c = 0"
  shows "r_samples (fst (run_once d now c res w)) = [] \<and> r_items_per_second (fst (run_once d now c res w)) =
    d_div d (d_of d (uint (r_num_items res))) (d_div d (dzero d) (d_of d 1000000000))"
proof -
  obtain el w2 where w2: "timing_loop now c 0 (run_cb c (call_opt (cb_setup (bc_callbacks c)) w)) = (el, w2)" by fastforce
  have "adjust d c el = 0" using assms by (simp add: adjust_def Let_def)
  with w2 assms show ?thesis by (simp add: run_once_def Let_def)
qed

lemma doubling_wraps:
  assumes "bc_min_iters c = 2 ^ 63" and "bc_max_iters c = -1" and "d_lt d (d_of d el) (d_mul d (d_of d (uint (bc_min_time_ms c))) (d_of d 1000000))"
  shows "adjust d c el = 0"
  using assms by (simp add: adjust_def Let_def)

text \<open>The run of a case gives one result for each entry of its range, in its order, or one for a single item.\<close>

abbreviation planned :: "'w BenchmarkCase \<Rightarrow> size_t list" where
  "planned c \<equiv> (if bc_range c = [] then [1] else bc_range c)"

lemma run_once_keeps: "run_once d now c res w = (res', w') \<Longrightarrow> r_name res' = r_name res \<and> r_num_items res' = r_num_items res"
  by (auto simp: run_once_def Let_def split: prod.splits)

lemma run_range_results:
  "run_range d now c ns w = (rs, w') \<Longrightarrow> map (\<lambda>r. (r_name r, r_num_items r)) rs = map (Pair (bc_name c)) ns"
proof (induction ns arbitrary: w rs w')
  case (Cons n ns)
  obtain r w1 where r: "run_once d now c (result_for d c n) w = (r, w1)" by fastforce
  obtain rs' w2 where rs: "run_range d now c ns w1 = (rs', w2)" by fastforce
  from Cons.prems r rs have "rs = r # rs'" by simp
  with Cons.IH [OF rs] run_once_keeps [OF r] show ?case by (simp add: result_for_def)
qed simp

lemma case_run_results:
  "case_run d now c w = (c', w') \<Longrightarrow> map (\<lambda>r. (r_name r, r_num_items r)) (bc_results c') = map (Pair (bc_name c)) (planned c) \<and>
    bc_name c' = bc_name c \<and> bc_range c' = bc_range c"
  using run_range_results [of d now c "planned c" w] by (auto simp: case_run_def split: prod.splits)

end
