(* ===== verification/Benchmark_Report.thy ===== *)
theory Benchmark_Report
  imports Benchmark
begin

text \<open>
  The registry of \<open>benchmark_case.hpp\<close> and the runner of \<open>benchmark_runner.cpp\<close>: shared cases, the filter, the
  run, and the reports it writes. Cases are shared by pointer, so they live in a heap; what a file or the
  console receives is a text, and the formatting flags of a stream stay set until they are set again.
\<close>

section \<open>Cases on the heap and the registry\<close>

type_synonym 'w case_heap = "ptr \<Rightarrow> 'w BenchmarkCase option"

type_synonym BenchmarkRegistry = "(string, ptr) umap"

definition register_case :: "'w case_heap \<Rightarrow> ptr \<Rightarrow> BenchmarkRegistry \<Rightarrow> BenchmarkRegistry comp" where
  "register_case h p reg = rbind (deref (h p)) (\<lambda>c. Inr (AList.update (bc_name c) p reg))"

definition unregister :: "string \<Rightarrow> BenchmarkRegistry \<Rightarrow> BenchmarkRegistry" where
  "unregister name reg = AList.delete name reg"

definition list_cases :: "BenchmarkRegistry \<Rightarrow> string list" where "list_cases reg = map fst reg"

definition registry_clear :: "BenchmarkRegistry \<Rightarrow> BenchmarkRegistry" where "registry_clear reg = []"

text \<open>\<open>register_and_get\<close> puts a new case, made by the constructor at \<open>p\<close>, under the name.\<close>

definition register_and_get ::
  "'w BenchmarkCase \<Rightarrow> ptr \<Rightarrow> string \<Rightarrow> 'w case_heap \<Rightarrow> BenchmarkRegistry \<Rightarrow> ptr \<times> 'w case_heap \<times> BenchmarkRegistry" where
  "register_and_get made p name h reg = (p, h(p \<mapsto> set_name name made), AList.update name p reg)"

section \<open>Streams\<close>

datatype float_mode = General_Format | Fixed_Format | Scientific_Format

record ostream =
  os_mode :: float_mode
  os_prec :: nat
  os_text :: string

definition ostream_new :: ostream where
  "ostream_new = \<lparr>os_mode = General_Format, os_prec = 6, os_text = []\<rparr>"

type_synonym show_double = "float_mode \<Rightarrow> nat \<Rightarrow> f64 \<Rightarrow> string"

datatype out_item = Str string | Num f64 | Set_Mode float_mode | Set_Precision nat

fun put :: "show_double \<Rightarrow> out_item \<Rightarrow> ostream \<Rightarrow> ostream" where
  "put sh (Str s) os = os\<lparr>os_text := os_text os @ s\<rparr>"
| "put sh (Num x) os = os\<lparr>os_text := os_text os @ sh (os_mode os) (os_prec os) x\<rparr>"
| "put sh (Set_Mode m) os = os\<lparr>os_mode := m\<rparr>"
| "put sh (Set_Precision n) os = os\<lparr>os_prec := n\<rparr>"

definition emit :: "show_double \<Rightarrow> out_item list \<Rightarrow> ostream \<Rightarrow> ostream" where
  "emit sh = fold (put sh)"

abbreviation newline :: char where "newline \<equiv> CHR 0x0A"
abbreviation quote :: char where "quote \<equiv> CHR 0x22"

section \<open>The runner\<close>

record BenchmarkReport =
  br_timestamp :: string
  br_hostname :: string
  br_cpu_info :: string
  br_gpu_info :: string
  br_compiler_version :: string
  br_build_type :: string
  br_cases :: "Result list"

record BenchmarkRunner =
  rn_filter :: string
  rn_output_format :: string
  rn_output_file :: string
  rn_min_time_ms :: size_t
  rn_cases :: "ptr list"
  rn_report :: BenchmarkReport

definition BenchmarkRunner_new :: BenchmarkRunner where
  "BenchmarkRunner_new = \<lparr>rn_filter = [], rn_output_format = ''console'', rn_output_file = [], rn_min_time_ms = 100, rn_cases = [],
     rn_report = \<lparr>br_timestamp = [], br_hostname = [], br_cpu_info = [], br_gpu_info = [], br_compiler_version = [], br_build_type = [], br_cases = []\<rparr>\<rparr>"

definition set_filter :: "string \<Rightarrow> BenchmarkRunner \<Rightarrow> BenchmarkRunner" where "set_filter s rn = rn\<lparr>rn_filter := s\<rparr>"
definition set_output_format :: "string \<Rightarrow> BenchmarkRunner \<Rightarrow> BenchmarkRunner" where "set_output_format s rn = rn\<lparr>rn_output_format := s\<rparr>"
definition set_output_file :: "string \<Rightarrow> BenchmarkRunner \<Rightarrow> BenchmarkRunner" where "set_output_file s rn = rn\<lparr>rn_output_file := s\<rparr>"
definition runner_set_min_time_ms :: "size_t \<Rightarrow> BenchmarkRunner \<Rightarrow> BenchmarkRunner" where "runner_set_min_time_ms t rn = rn\<lparr>rn_min_time_ms := t\<rparr>"
definition add_case :: "ptr \<Rightarrow> BenchmarkRunner \<Rightarrow> BenchmarkRunner" where "add_case p rn = rn\<lparr>rn_cases := rn_cases rn @ [p]\<rparr>"

text \<open>\<open>name.find(filter) != npos\<close>.\<close>

fun starts_with :: "string \<Rightarrow> string \<Rightarrow> bool" where
  "starts_with [] s = True"
| "starts_with (c # cs) [] = False"
| "starts_with (c # cs) (x # xs) = (c = x \<and> starts_with cs xs)"

fun str_contains :: "string \<Rightarrow> string \<Rightarrow> bool" where
  "str_contains [] pat = (pat = [])"
| "str_contains (x # xs) pat = (starts_with pat (x # xs) \<or> str_contains xs pat)"

fun filter_loop :: "'w case_heap \<Rightarrow> string \<Rightarrow> ptr list \<Rightarrow> ptr list comp" where
  "filter_loop h pat [] = Inr []"
| "filter_loop h pat (p # ps) = rbind (deref (h p)) (\<lambda>c. rbind (filter_loop h pat ps) (\<lambda>qs.
     Inr (if str_contains (bc_name c) pat then p # qs else qs)))"

definition filter_cases :: "'w case_heap \<Rightarrow> BenchmarkRunner \<Rightarrow> BenchmarkRunner comp" where
  "filter_cases h rn = (if rn_filter rn = [] then Inr rn
     else rbind (filter_loop h (rn_filter rn) (rn_cases rn)) (\<lambda>ps. Inr (rn\<lparr>rn_cases := ps\<rparr>)))"

text \<open>What the operating system says: the text of \<open>std::ctime\<close>, and the name of the host when it has one.\<close>

record system_info =
  si_ctime :: string
  si_hostname :: "string option"
  si_debug :: bool

definition collect_system_info :: "system_info \<Rightarrow> BenchmarkRunner \<Rightarrow> BenchmarkRunner" where
  "collect_system_info si rn = rn\<lparr>rn_report := (rn_report rn)\<lparr>br_timestamp := si_ctime si,
     br_hostname := (case si_hostname si of Some h \<Rightarrow> h | None \<Rightarrow> br_hostname (rn_report rn)),
     br_build_type := (if si_debug si then ''Debug'' else ''Release'')\<rparr>\<rparr>"

definition nl :: "out_item" where "nl = Str [newline]"

definition print_results :: "double_ops \<Rightarrow> show_double \<Rightarrow> BenchmarkRunner \<Rightarrow> ostream \<Rightarrow> ostream" where
  "print_results d sh rn os =
     (let report = rn_report rn;
          head = [nl, Str ''========== Benchmark Results =========='', nl, Str ''Host: '', Str (br_hostname report),
                  Str ''Build: '', Str (br_build_type report), nl, Str ''========================================'', nl, nl];
          row = (\<lambda>r. [Str (r_name r), nl,
                  Str ''  Mean:   '', Set_Mode Fixed_Format, Set_Precision 3, Num (d_div d (r_mean r) (d_of d 1000)), Str '' us'', nl,
                  Str ''  StdDev: '', Num (d_div d (r_stddev r) (d_of d 1000)), Str '' us'', nl,
                  Str ''  Min:    '', Num (d_div d (r_min r) (d_of d 1000)), Str '' us'', nl,
                  Str ''  Max:    '', Num (d_div d (r_max r) (d_of d 1000)), Str '' us'', nl,
                  Str ''  Items/s: '', Set_Mode Scientific_Format, Num (r_items_per_second r), nl, nl])
      in emit sh (head @ concat (map row (br_cases report))) os)"

text \<open>The texts of the files.\<close>

definition json_field :: "string \<Rightarrow> string \<Rightarrow> out_item list" where
  "json_field key val = [Str ([quote] @ key @ [quote] @ '': '' @ [quote]), Str val, Str ([quote] @ '',''), nl]"

definition json_number :: "string \<Rightarrow> f64 \<Rightarrow> string \<Rightarrow> out_item list" where
  "json_number key x sep = [Str (''      '' @ [quote] @ key @ [quote] @ '': ''), Num x, Str sep, nl]"

definition json_result :: "Result \<Rightarrow> bool \<Rightarrow> out_item list" where
  "json_result r comma = [Str ''    {'', nl] @ [Str ''      ''] @ json_field ''name'' (r_name r) @
     json_number ''mean_ns'' (r_mean r) '','' @ json_number ''stddev_ns'' (r_stddev r) '','' @ json_number ''min_ns'' (r_min r) '','' @
     json_number ''max_ns'' (r_max r) '','' @ json_number ''items_per_second'' (r_items_per_second r) [] @
     [Str ''    }'', Str (if comma then '','' else []), nl]"

definition export_json :: "show_double \<Rightarrow> BenchmarkRunner \<Rightarrow> string" where
  "export_json sh rn = (let report = rn_report rn; n = length (br_cases report) in os_text (emit sh
     ([Str ''{'', nl, Str ''  ''] @ json_field ''timestamp'' (br_timestamp report) @ [Str ''  ''] @ json_field ''hostname'' (br_hostname report) @
      [Str ''  ''] @ json_field ''build_type'' (br_build_type report) @ [Str (''  '' @ [quote] @ ''results'' @ [quote] @ '': [''), nl] @
      concat (map (\<lambda>i. json_result (br_cases report ! i) (i + 1 < n)) [0..<n]) @ [Str ''  ]'', nl, Str ''}'', nl]) ostream_new))"

definition csv_row :: "double_ops \<Rightarrow> Result \<Rightarrow> out_item list" where
  "csv_row d r = [Str (r_name r), Str '','', Num (d_div d (r_mean r) (d_of d 1000)), Str '','', Num (d_div d (r_stddev r) (d_of d 1000)), Str '','',
     Num (d_div d (r_min r) (d_of d 1000)), Str '','', Num (d_div d (r_max r) (d_of d 1000)), Str '','', Num (r_items_per_second r), nl]"

definition export_csv :: "double_ops \<Rightarrow> show_double \<Rightarrow> BenchmarkRunner \<Rightarrow> string" where
  "export_csv d sh rn = os_text (emit sh
     ([Str ''name,mean_us,stddev_us,min_us,max_us,items_per_second'', nl] @ concat (map (csv_row d) (br_cases (rn_report rn)))) ostream_new)"

definition markdown_row :: "double_ops \<Rightarrow> Result \<Rightarrow> out_item list" where
  "markdown_row d r = [Str ''| '', Str (r_name r), Str '' | '', Num (d_div d (r_mean r) (d_of d 1000)), Str '' | '',
     Num (d_div d (r_stddev r) (d_of d 1000)), Str '' | '', Num (d_div d (r_min r) (d_of d 1000)), Str '' | '',
     Num (d_div d (r_max r) (d_of d 1000)), Str '' | '', Set_Mode Scientific_Format, Num (r_items_per_second r), Str '' |'', nl]"

definition export_markdown :: "double_ops \<Rightarrow> show_double \<Rightarrow> BenchmarkRunner \<Rightarrow> string" where
  "export_markdown d sh rn = (let report = rn_report rn in os_text (emit sh
     ([Str ''# Benchmark Results'', nl, nl, Str ''**Host:** '', Str (br_hostname report), nl, Str ''**Build:** '', Str (br_build_type report), nl, nl,
       Str ''| Benchmark | Mean (us) | StdDev (us) | Min (us) | Max (us) | Items/s |'', nl,
       Str ''|-----------|-----------|-------------|----------|----------|---------|'', nl] @
      concat (map (markdown_row d) (br_cases report))) ostream_new))"

text \<open>\<open>BenchmarkRunner::run\<close>: the cases in order, then one report to the console or to a file.\<close>

datatype report_to = Console ostream | File string string | No_Report

definition run_case ::
  "double_ops \<Rightarrow> 'w clock \<Rightarrow> ptr \<Rightarrow> 'w case_heap \<times> 'w \<times> Result list \<Rightarrow> ('w case_heap \<times> 'w \<times> Result list) comp" where
  "run_case d now p st = (case st of (h, w, rs) \<Rightarrow>
     rbind (deref (h p)) (\<lambda>c. case case_run d now c w of (c', w') \<Rightarrow> Inr (h(p \<mapsto> c'), w', rs @ bc_results c')))"

definition write_report :: "double_ops \<Rightarrow> show_double \<Rightarrow> BenchmarkRunner \<Rightarrow> ostream \<Rightarrow> report_to" where
  "write_report d sh rn cout =
     (let fmt = rn_output_format rn; path = (\<lambda>def. if rn_output_file rn = [] then def else rn_output_file rn) in
      if fmt = ''console'' \<or> fmt = [] then Console (print_results d sh rn cout)
      else if fmt = ''json'' then File (path ''benchmark_results.json'') (export_json sh rn)
      else if fmt = ''csv'' then File (path ''benchmark_results.csv'') (export_csv d sh rn)
      else if fmt = ''markdown'' then File (path ''benchmark_results.md'') (export_markdown d sh rn)
      else No_Report)"

definition runner_run ::
  "double_ops \<Rightarrow> show_double \<Rightarrow> 'w clock \<Rightarrow> system_info \<Rightarrow> ostream \<Rightarrow> BenchmarkRunner \<Rightarrow> 'w case_heap \<Rightarrow> 'w \<Rightarrow>
    (BenchmarkRunner \<times> 'w case_heap \<times> 'w \<times> report_to) comp" where
  "runner_run d sh now si cout rn h w =
     rbind (filter_cases h (collect_system_info si rn)) (\<lambda>rn1.
     rbind (for_each (run_case d now) (rn_cases rn1) (h, w, br_cases (rn_report rn1))) (\<lambda>(h', w', rs).
     let rn2 = rn1\<lparr>rn_report := (rn_report rn1)\<lparr>br_cases := rs\<rparr>\<rparr> in Inr (rn2, h', w', write_report d sh rn2 cout)))"

section \<open>Timers\<close>

record Timer =
  tm_start :: int

definition Timer_new :: "'w clock \<Rightarrow> 'w \<Rightarrow> Timer \<times> 'w" where
  "Timer_new now w = (case now w of (t, w') \<Rightarrow> (\<lparr>tm_start = t\<rparr>, w'))"
definition Timer_reset :: "'w clock \<Rightarrow> Timer \<Rightarrow> 'w \<Rightarrow> Timer \<times> 'w" where
  "Timer_reset now tm w = (case now w of (t, w') \<Rightarrow> (tm\<lparr>tm_start := t\<rparr>, w'))"
definition elapsed_ns :: "double_ops \<Rightarrow> 'w clock \<Rightarrow> Timer \<Rightarrow> 'w \<Rightarrow> f64 \<times> 'w" where
  "elapsed_ns d now tm w = (case now w of (t, w') \<Rightarrow> (d_of d (t - tm_start tm), w'))"
definition elapsed_us :: "double_ops \<Rightarrow> 'w clock \<Rightarrow> Timer \<Rightarrow> 'w \<Rightarrow> f64 \<times> 'w" where
  "elapsed_us d now tm w = (case elapsed_ns d now tm w of (x, w') \<Rightarrow> (d_div d x (d_of d 1000), w'))"
definition elapsed_ms :: "double_ops \<Rightarrow> 'w clock \<Rightarrow> Timer \<Rightarrow> 'w \<Rightarrow> f64 \<times> 'w" where
  "elapsed_ms d now tm w = (case elapsed_ns d now tm w of (x, w') \<Rightarrow> (d_div d x (d_of d 1000000), w'))"
definition elapsed_s :: "double_ops \<Rightarrow> 'w clock \<Rightarrow> Timer \<Rightarrow> 'w \<Rightarrow> f64 \<times> 'w" where
  "elapsed_s d now tm w = (case elapsed_ns d now tm w of (x, w') \<Rightarrow> (d_div d x (d_of d 1000000000), w'))"

section \<open>What the runner reports\<close>

lemma starts_with_iff: "starts_with pat s \<longleftrightarrow> (\<exists>post. s = pat @ post)"
  by (induction pat s rule: starts_with.induct) auto

lemma str_contains_iff: "str_contains s pat \<longleftrightarrow> (\<exists>pre post. s = pre @ pat @ post)"
proof (induction s)
  case (Cons x xs)
  have "(\<exists>pre post. x # xs = pre @ pat @ post) \<longleftrightarrow> (\<exists>post. x # xs = pat @ post) \<or> (\<exists>pre post. xs = pre @ pat @ post)"
    by (metis (no_types) append_Cons append_Nil list.exhaust list.inject)
  then show ?case unfolding str_contains.simps starts_with_iff Cons.IH by blast
qed simp

definition known :: "'w case_heap \<Rightarrow> ptr list \<Rightarrow> bool" where
  "known h ps \<longleftrightarrow> (\<forall>p \<in> set ps. h p \<noteq> None)"

definition selected :: "'w case_heap \<Rightarrow> BenchmarkRunner \<Rightarrow> ptr list" where
  "selected h rn = (if rn_filter rn = [] then rn_cases rn else filter (\<lambda>p. str_contains (bc_name (the (h p))) (rn_filter rn)) (rn_cases rn))"

lemma filter_loop_ok: "known h ps \<Longrightarrow> filter_loop h pat ps = Inr (filter (\<lambda>p. str_contains (bc_name (the (h p))) pat) ps)"
  by (induction ps) (auto simp: known_def)

lemma filter_cases_ok: "known h (rn_cases rn) \<Longrightarrow> filter_cases h rn = Inr (rn\<lparr>rn_cases := selected h rn\<rparr>)"
  by (simp add: filter_cases_def filter_loop_ok selected_def)

text \<open>The plan of a case and of a list of cases: its name with each entry of its range.\<close>

definition plan_of :: "'w BenchmarkCase option \<Rightarrow> (string \<times> size_t) list" where
  "plan_of x = (case x of None \<Rightarrow> [] | Some c \<Rightarrow> map (Pair (bc_name c)) (planned c))"

abbreviation what :: "Result \<Rightarrow> string \<times> size_t" where "what r \<equiv> (r_name r, r_num_items r)"

lemma run_cases_ok:
  assumes "known h ps"
  shows "\<exists>h' w' new. for_each (run_case d now) ps (h, w, rs) = Inr (h', w', rs @ new) \<and>
    map what new = concat (map (\<lambda>p. plan_of (h p)) ps) \<and> (\<forall>p. plan_of (h' p) = plan_of (h p))"
  using assms
proof (induction ps arbitrary: h w rs)
  case (Cons p ps)
  then obtain c where c: "h p = Some c" by (auto simp: known_def)
  obtain c' w1 where r: "case_run d now c w = (c', w1)" by fastforce
  note res = case_run_results [OF r]
  have same: "plan_of ((h(p \<mapsto> c')) q) = plan_of (h q)" for q using res c by (simp add: plan_of_def)
  have "known (h(p \<mapsto> c')) ps" using Cons.prems by (simp add: known_def)
  from Cons.IH [OF this, of w1 "rs @ bc_results c'"] obtain h' w' new where
    n: "for_each (run_case d now) ps (h(p \<mapsto> c'), w1, rs @ bc_results c') = Inr (h', w', (rs @ bc_results c') @ new)"
      "map what new = concat (map (\<lambda>q. plan_of ((h(p \<mapsto> c')) q)) ps)" "\<forall>q. plan_of (h' q) = plan_of ((h(p \<mapsto> c')) q)" by blast
  have "for_each (run_case d now) (p # ps) (h, w, rs) = Inr (h', w', rs @ (bc_results c' @ new))"
    using n(1) c r by (simp add: run_case_def)
  moreover have "map what (bc_results c' @ new) = concat (map (\<lambda>p. plan_of (h p)) (p # ps))"
    unfolding map_append n(2) same using res c by (simp add: plan_of_def)
  moreover have "\<forall>q. plan_of (h' q) = plan_of (h q)" using n(3) same by metis
  ultimately show ?case by blast
qed auto

text \<open>A run executes the cases the filter selects, whatever the names are.\<close>

lemma runner_runs_selected:
  assumes "known h (rn_cases rn)"
  shows "\<exists>rn' h' w' out new. runner_run d sh now si cout rn h w = Inr (rn', h', w', out) \<and>
    br_cases (rn_report rn') = br_cases (rn_report rn) @ new \<and>
    map what new = concat (map (\<lambda>p. plan_of (h p)) (selected h rn)) \<and>
    rn_cases rn' = selected h rn \<and> (\<forall>p. plan_of (h' p) = plan_of (h p))"
proof -
  let ?rn = "collect_system_info si rn"
  have k: "known h (rn_cases ?rn)" and sel: "selected h ?rn = selected h rn" and rs: "br_cases (rn_report ?rn) = br_cases (rn_report rn)"
    using assms by (simp_all add: collect_system_info_def selected_def)
  have "known h (selected h rn)" using assms by (auto simp: known_def selected_def)
  from run_cases_ok [OF this, of d now w "br_cases (rn_report rn)"] obtain h' w' new where
    run: "for_each (run_case d now) (selected h rn) (h, w, br_cases (rn_report rn)) = Inr (h', w', br_cases (rn_report rn) @ new)"
    and new: "map what new = concat (map (\<lambda>p. plan_of (h p)) (selected h rn))" and same: "\<forall>p. plan_of (h' p) = plan_of (h p)" by blast
  have "\<exists>rn' out. runner_run d sh now si cout rn h w = Inr (rn', h', w', out) \<and> br_cases (rn_report rn') = br_cases (rn_report rn) @ new \<and> rn_cases rn' = selected h rn"
    unfolding runner_run_def filter_cases_ok [OF k] sel by (simp add: rs run Let_def)
  then show ?thesis using new same by blast
qed

text \<open>
  The comment at the filter calls it a prefix match, and the code searches for the filter anywhere in the name.
  The two readings select the same cases when no name holds the filter only further on.
\<close>

definition readings_agree :: "'w case_heap \<Rightarrow> BenchmarkRunner \<Rightarrow> bool" where
  "readings_agree h rn \<longleftrightarrow> (\<forall>p \<in> set (rn_cases rn).
     str_contains (bc_name (the (h p))) (rn_filter rn) \<longrightarrow> starts_with (rn_filter rn) (bc_name (the (h p))))"

definition prefix_selected :: "'w case_heap \<Rightarrow> BenchmarkRunner \<Rightarrow> ptr list" where
  "prefix_selected h rn = filter (\<lambda>p. \<exists>post. bc_name (the (h p)) = rn_filter rn @ post) (rn_cases rn)"

lemma starts_contains: "starts_with pat s \<Longrightarrow> str_contains s pat"
  unfolding starts_with_iff str_contains_iff by (metis append_Nil)

lemma selected_prefix:
  assumes "readings_agree h rn"
  shows "selected h rn = prefix_selected h rn"
proof (cases "rn_filter rn = []")
  case False
  have "str_contains (bc_name (the (h p))) (rn_filter rn) \<longleftrightarrow> (\<exists>post. bc_name (the (h p)) = rn_filter rn @ post)" if "p \<in> set (rn_cases rn)" for p
    using assms that starts_contains unfolding readings_agree_def starts_with_iff by blast
  with False show ?thesis unfolding selected_def prefix_selected_def by (simp cong: filter_cong)
qed (simp add: selected_def prefix_selected_def)

text \<open>
  C32: When its cases are all there and the two readings of the filter agree on them, the runner runs exactly
  those whose name begins with the filter (all of them when it is empty), in the order they were added, and
  appends to its report one result for each entry of each case's range, or one for a single item when the range
  is empty, in the order of the cases and of their ranges; it changes the name and the range of no case.
\<close>

theorem runner_reports:
  assumes "known h (rn_cases rn)" and "readings_agree h rn"
  shows "\<exists>rn' h' w' out new. runner_run d sh now si cout rn h w = Inr (rn', h', w', out) \<and>
    br_cases (rn_report rn') = br_cases (rn_report rn) @ new \<and>
    map what new = concat (map (\<lambda>p. plan_of (h p)) (prefix_selected h rn)) \<and>
    rn_cases rn' = prefix_selected h rn \<and> (\<forall>p. plan_of (h' p) = plan_of (h p))"
  using runner_runs_selected [OF assms(1), of d sh now si cout w] unfolding selected_prefix [OF assms(2)] by blast

definition two_cases :: "(nat \<times> int) case_heap" where
  "two_cases = [8 \<mapsto> tick_case, 16 \<mapsto> set_name ''tock'' tick_case\<lparr>bc_range := [2, 4]\<rparr>]"

definition two_case_runner :: "string \<Rightarrow> BenchmarkRunner" where
  "two_case_runner pat = set_filter pat (add_case 16 (add_case 8 BenchmarkRunner_new))"

lemmas two_case_defs = two_cases_def two_case_runner_def set_filter_def add_case_def BenchmarkRunner_new_def
  tick_case_def set_run_def set_name_def BenchmarkCase_new_def

lemma two_cases_known: "known two_cases (rn_cases (two_case_runner pat))"
  by (simp add: known_def two_case_defs)

theorem runner_reports_witness:
  "\<exists>rn' h' w' out new. runner_run int_doubles (\<lambda>_ _ _. ''0'') tick_clock \<lparr>si_ctime = [], si_hostname = None, si_debug = False\<rparr> ostream_new
      (two_case_runner ''to'') two_cases (0, 0) = Inr (rn', h', w', out) \<and>
    br_cases (rn_report rn') = new \<and> map what new = [(''tock'', 2), (''tock'', 4)]"
proof -
  have "readings_agree two_cases (two_case_runner ''to'')" by (simp add: readings_agree_def two_case_defs)
  from runner_reports [OF two_cases_known this, of int_doubles "\<lambda>_ _ _. ''0''" tick_clock "\<lparr>si_ctime = [], si_hostname = None, si_debug = False\<rparr>" ostream_new "(0, 0)"]
  show ?thesis by (auto simp: two_case_defs prefix_selected_def plan_of_def)
qed

text \<open>Where they differ: a filter in the middle of a name selects the case.\<close>

lemma filter_is_no_prefix:
  "\<not> readings_agree two_cases (two_case_runner ''oc'')"
  "selected two_cases (two_case_runner ''oc'') = [16]"
  "prefix_selected two_cases (two_case_runner ''oc'') = []"
  by (simp_all add: readings_agree_def selected_def prefix_selected_def two_case_defs)

section \<open>Reading the comma-separated report back\<close>

fun split_on :: "char \<Rightarrow> string \<Rightarrow> string list" where
  "split_on c [] = [[]]"
| "split_on c (x # xs) = (if x = c then [] # split_on c xs
     else (case split_on c xs of p # ps \<Rightarrow> (x # p) # ps | [] \<Rightarrow> [[x]]))"

fun joined :: "string list \<Rightarrow> string" where
  "joined [] = []"
| "joined [f] = f"
| "joined (f # g # fs) = f @ '','' @ joined (g # fs)"

definition csv_read :: "string \<Rightarrow> string list list" where
  "csv_read s = map (split_on (CHR '','')) (butlast (split_on newline s))"

definition csv_fields :: "double_ops \<Rightarrow> show_double \<Rightarrow> Result \<Rightarrow> string list" where
  "csv_fields d sh r = r_name r # map (\<lambda>x. sh General_Format 6 x)
     [d_div d (r_mean r) (d_of d 1000), d_div d (r_stddev r) (d_of d 1000), d_div d (r_min r) (d_of d 1000),
      d_div d (r_max r) (d_of d 1000), r_items_per_second r]"

definition csv_plain :: "string \<Rightarrow> bool" where
  "csv_plain s \<longleftrightarrow> CHR '','' \<notin> set s \<and> newline \<notin> set s"

lemma split_on_nonempty: "split_on c s \<noteq> []"
  by (cases s) (auto split: list.splits)

lemma split_on_piece: "c \<notin> set s \<Longrightarrow> split_on c (s @ c # t) = s # split_on c t"
  by (induction s) auto

lemma split_on_last: "c \<notin> set s \<Longrightarrow> split_on c s = [s]"
  by (induction s) auto

lemma split_joined: "fs \<noteq> [] \<Longrightarrow> \<forall>f \<in> set fs. CHR '','' \<notin> set f \<Longrightarrow> split_on (CHR '','') (joined fs) = fs"
  by (induction fs rule: joined.induct) (simp_all add: split_on_last split_on_piece)

lemma newline_joined: "\<forall>f \<in> set fs. newline \<notin> set f \<Longrightarrow> newline \<notin> set (joined fs)"
  by (induction fs rule: joined.induct) auto

lemma csv_lines: "\<forall>l \<in> set ls. newline \<notin> set l \<Longrightarrow> split_on newline (concat (map (\<lambda>l. l @ [newline]) ls)) = ls @ [[]]"
  by (induction ls) (simp_all add: split_on_piece)

lemma emit_append: "emit sh (xs @ ys) os = emit sh ys (emit sh xs os)"
  by (simp add: emit_def)

lemma emit_csv_row: "os_mode os = General_Format \<Longrightarrow> os_prec os = 6 \<Longrightarrow>
    emit sh (csv_row d r) os = os\<lparr>os_text := os_text os @ joined (csv_fields d sh r) @ [newline]\<rparr>"
  by (simp add: emit_def csv_row_def csv_fields_def nl_def)

lemma emit_csv_rows: "os_mode os = General_Format \<Longrightarrow> os_prec os = 6 \<Longrightarrow>
    os_text (emit sh (concat (map (csv_row d) rs)) os) = os_text os @ concat (map (\<lambda>r. joined (csv_fields d sh r) @ [newline]) rs)"
proof (induction rs arbitrary: os)
  case (Cons r rs)
  from Cons.IH [of "os\<lparr>os_text := os_text os @ joined (csv_fields d sh r) @ [newline]\<rparr>"] Cons.prems
  show ?case by (simp add: emit_append emit_csv_row)
qed (simp add: emit_def)

abbreviation csv_header :: "string list" where
  "csv_header \<equiv> [''name'', ''mean_us'', ''stddev_us'', ''min_us'', ''max_us'', ''items_per_second'']"

lemma export_csv_text: "export_csv d sh rn = concat (map (\<lambda>l. l @ [newline]) (joined csv_header # map (\<lambda>r. joined (csv_fields d sh r)) (br_cases (rn_report rn))))"
  using emit_csv_rows [of "ostream_new\<lparr>os_text := joined csv_header @ [newline]\<rparr>" sh d "br_cases (rn_report rn)"]
  unfolding export_csv_def emit_append by (simp add: emit_def nl_def ostream_new_def comp_def)

text \<open>
  C35: When neither the names nor the printed numbers hold a comma or a line break, the comma-separated report
  reads back, line by line and field by field, as its header and, for each result in order, its name, its mean,
  deviation, least and greatest time in microseconds, and its rate.
\<close>

theorem csv_reads_back:
  assumes "\<forall>r \<in> set (br_cases (rn_report rn)). \<forall>f \<in> set (csv_fields d sh r). csv_plain f"
  shows "csv_read (export_csv d sh rn) = csv_header # map (csv_fields d sh) (br_cases (rn_report rn))"
proof -
  let ?ls = "joined csv_header # map (\<lambda>r. joined (csv_fields d sh r)) (br_cases (rn_report rn))"
  have plain: "\<forall>f \<in> set (csv_fields d sh r). CHR '','' \<notin> set f" "\<forall>f \<in> set (csv_fields d sh r). newline \<notin> set f"
    if "r \<in> set (br_cases (rn_report rn))" for r using assms that unfolding csv_plain_def by blast+
  have "\<forall>l \<in> set ?ls. newline \<notin> set l" using newline_joined [OF plain(2)] by auto
  then have "split_on newline (export_csv d sh rn) = ?ls @ [[]]" unfolding export_csv_text by (rule csv_lines)
  moreover have "split_on (CHR '','') (joined (csv_fields d sh r)) = csv_fields d sh r" if "r \<in> set (br_cases (rn_report rn))" for r
    by (rule split_joined) (use plain(1) [OF that] in \<open>simp_all add: csv_fields_def\<close>)
  moreover have "split_on (CHR '','') (joined csv_header) = csv_header" by (rule split_joined) simp_all
  ultimately show ?thesis unfolding csv_read_def by (simp add: butlast_append del: joined.simps)
qed

definition report_of :: "Result list \<Rightarrow> BenchmarkRunner" where
  "report_of rs = BenchmarkRunner_new\<lparr>rn_report := (rn_report BenchmarkRunner_new)\<lparr>br_cases := rs\<rparr>\<rparr>"

theorem csv_reads_back_witness:
  "csv_read (export_csv int_doubles (\<lambda>_ _ x. if x = 0 then ''0'' else ''1'') (report_of [result_for int_doubles tick_case 1])) =
    [csv_header, [''tick'', ''0'', ''0'', ''0'', ''0'', ''0'']]"
proof -
  let ?sh = "\<lambda>_ _ x. if x = 0 then ''0'' else ''1''" and ?rn = "report_of [result_for int_doubles tick_case 1]"
  have f: "csv_fields int_doubles ?sh (result_for int_doubles tick_case 1) = [''tick'', ''0'', ''0'', ''0'', ''0'', ''0'']"
    by (simp add: csv_fields_def result_for_def Result_default_def dzero_def int_doubles_def tick_case_def set_run_def BenchmarkCase_new_def)
  have c: "br_cases (rn_report ?rn) = [result_for int_doubles tick_case 1]" by (simp add: report_of_def)
  have "\<forall>r \<in> set (br_cases (rn_report ?rn)). \<forall>f \<in> set (csv_fields int_doubles ?sh r). csv_plain f"
    unfolding c by (simp add: f csv_plain_def)
  from csv_reads_back [OF this] show ?thesis by (simp add: c f)
qed

section \<open>Reports that do not read back\<close>

text \<open>A name with a comma makes a row of seven fields.\<close>

lemma comma_in_name:
  "csv_read (export_csv d (\<lambda>_ _ _. ''0'') (report_of [(Result_default d)\<lparr>r_name := ''a,b''\<rparr>])) =
    [csv_header, [''a'', ''b'', ''0'', ''0'', ''0'', ''0'', ''0'']]"
  unfolding export_csv_text by (simp add: report_of_def csv_fields_def csv_read_def)

lemma emit_extends: "\<exists>post. os_text (emit sh xs os) = os_text os @ post"
proof (induction xs arbitrary: os)
  case (Cons x xs)
  have "\<exists>post. os_text (put sh x os) = os_text os @ post" by (cases x) auto
  moreover from Cons.IH [of "put sh x os"] obtain post where "os_text (emit sh xs (put sh x os)) = os_text (put sh x os) @ post" by blast
  ultimately show ?case by (auto simp: emit_def)
qed (simp add: emit_def)

text \<open>\<open>std::ctime\<close> ends its text with a line break, which goes into the JSON string as it is.\<close>

lemma timestamp_breaks_line:
  assumes "br_timestamp (rn_report rn) = s @ [newline]"
  shows "\<exists>post. export_json sh rn = ''{'' @ [newline] @ ''  '' @ [quote] @ ''timestamp'' @ [quote] @ '': '' @ [quote] @ s @ [newline, quote] @ post"
proof -
  let ?head = "[Str ''{'', nl, Str ''  ''] @ json_field ''timestamp'' (br_timestamp (rn_report rn))"
  obtain rest where "export_json sh rn = os_text (emit sh rest (emit sh ?head ostream_new))"
    unfolding export_json_def Let_def emit_append [symmetric] by (metis append.assoc)
  moreover obtain post where "os_text (emit sh rest (emit sh ?head ostream_new)) = os_text (emit sh ?head ostream_new) @ post"
    using emit_extends by blast
  ultimately show ?thesis using assms by (simp add: emit_def json_field_def nl_def ostream_new_def)
qed

text \<open>The scientific format of the last column stays set: from the second row on it is the format of every column.\<close>

lemma markdown_changes_format:
  "os_text (emit sh (concat (map (markdown_row d) [r1, r2])) ostream_new) =
     ''| '' @ r_name r1 @ '' | '' @ sh General_Format 6 (d_div d (r_mean r1) (d_of d 1000)) @ '' | '' @
     sh General_Format 6 (d_div d (r_stddev r1) (d_of d 1000)) @ '' | '' @ sh General_Format 6 (d_div d (r_min r1) (d_of d 1000)) @ '' | '' @
     sh General_Format 6 (d_div d (r_max r1) (d_of d 1000)) @ '' | '' @ sh Scientific_Format 6 (r_items_per_second r1) @ '' |'' @ [newline] @
     ''| '' @ r_name r2 @ '' | '' @ sh Scientific_Format 6 (d_div d (r_mean r2) (d_of d 1000)) @ '' | '' @
     sh Scientific_Format 6 (d_div d (r_stddev r2) (d_of d 1000)) @ '' | '' @ sh Scientific_Format 6 (d_div d (r_min r2) (d_of d 1000)) @ '' | '' @
     sh Scientific_Format 6 (d_div d (r_max r2) (d_of d 1000)) @ '' | '' @ sh Scientific_Format 6 (r_items_per_second r2) @ '' |'' @ [newline]"
  by (simp add: emit_def markdown_row_def nl_def ostream_new_def)

text \<open>The least time set on the runner changes nothing but its own field.\<close>

lemma runner_min_time_unused:
  "runner_run d sh now si cout (runner_set_min_time_ms t rn) h w =
    rbind (runner_run d sh now si cout rn h w) (\<lambda>(rn', h', w', out). Inr (runner_set_min_time_ms t rn', h', w', out))"
proof -
  have f: "filter_cases h (collect_system_info si (runner_set_min_time_ms t rn)) =
      rbind (filter_cases h (collect_system_info si rn)) (\<lambda>rn1. Inr (runner_set_min_time_ms t rn1))"
    by (cases rn; cases "si_hostname si") (simp_all add: filter_cases_def collect_system_info_def runner_set_min_time_ms_def rbind_assoc)
  have w: "write_report d sh (runner_set_min_time_ms t rn1) cout = write_report d sh rn1 cout" for rn1
  proof -
    let ?rn = "runner_set_min_time_ms t rn1"
    have o: "rn_output_format ?rn = rn_output_format rn1" "rn_output_file ?rn = rn_output_file rn1" "rn_report ?rn = rn_report rn1"
      by (simp_all add: runner_set_min_time_ms_def)
    show ?thesis unfolding write_report_def print_results_def export_json_def export_csv_def export_markdown_def o ..
  qed
  have c: "(runner_set_min_time_ms t rn1)\<lparr>rn_report := x\<rparr> = runner_set_min_time_ms t (rn1\<lparr>rn_report := x\<rparr>)" for rn1 x
    by (cases rn1) (simp add: runner_set_min_time_ms_def)
  have p: "rn_report (runner_set_min_time_ms t rn1) = rn_report rn1" "rn_cases (runner_set_min_time_ms t rn1) = rn_cases rn1" for rn1
    by (simp_all add: runner_set_min_time_ms_def)
  show ?thesis unfolding runner_run_def f rbind_assoc rbind.simps p c Let_def w
    by (rule rbind_cong [OF refl], rule rbind_cong [OF refl]) (simp split: prod.splits)
qed

end
