(* ===== verification/Support.thy ===== *)
theory Support
  imports Benchmark Devices
begin

text \<open>
  Small parts that other code leans on: the performance counter of \<open>core/timer.hpp\<close>, the logger of
  \<open>core/logger.hpp\<close>, the configuration of \<open>core/config.hpp\<close>, the signatures of \<open>kernel/kernel_registry.hpp\<close>, and
  what the devices of \<open>device/device.cpp\<close> and \<open>device/cuda_device.cpp\<close> answer about themselves.
\<close>

section \<open>The performance counter\<close>

record PerfCounter =
  pc_count :: size_t
  pc_total_ns :: "64 word"
  pc_min_ns :: "64 word"
  pc_max_ns :: "64 word"

definition PerfCounter_reset :: PerfCounter where
  "PerfCounter_reset = \<lparr>pc_count = 0, pc_total_ns = 0, pc_min_ns = -1, pc_max_ns = 0\<rparr>"

definition perf_record :: "64 word \<Rightarrow> PerfCounter \<Rightarrow> PerfCounter" where
  "perf_record ns c = \<lparr>pc_count = pc_count c + 1, pc_total_ns = pc_total_ns c + ns, pc_min_ns = min (pc_min_ns c) ns, pc_max_ns = max (pc_max_ns c) ns\<rparr>"

text \<open>From a timer, whose reading may be outside the integer type.\<close>

definition perf_record_timer :: "double_ops \<Rightarrow> f64 \<Rightarrow> PerfCounter \<Rightarrow> PerfCounter comp" where
  "perf_record_timer d elapsed c = (case d_to_size d elapsed of None \<Rightarrow> Inl Out_Of_Bounds | Some ns \<Rightarrow> Inr (perf_record ns c))"

definition mean_ns :: "double_ops \<Rightarrow> PerfCounter \<Rightarrow> f64" where
  "mean_ns d c = (if pc_count c \<noteq> 0 then d_div d (d_of d (uint (pc_total_ns c))) (d_of d (uint (pc_count c))) else dzero d)"

definition mean_ms :: "double_ops \<Rightarrow> PerfCounter \<Rightarrow> f64" where
  "mean_ms d c = d_div d (mean_ns d c) (d_of d 1000000)"

definition perf_throughput :: "double_ops \<Rightarrow> size_t \<Rightarrow> PerfCounter \<Rightarrow> f64" where
  "perf_throughput d items c = (let mean_s = d_div d (mean_ns d c) (d_of d 1000000000) in
     if pc_count c \<noteq> 0 then d_div d (d_of d (uint items)) mean_s else dzero d)"

text \<open>
  After any recordings the counter holds their number and sum, both modulo \<open>2 ^ 64\<close>, and their least and
  greatest value; with none the least is the greatest 64-bit number and the greatest zero.
\<close>

theorem perf_counter_statistics:
  "fold perf_record ts PerfCounter_reset = \<lparr>pc_count = word_of_nat (length ts), pc_total_ns = sum_list ts,
     pc_min_ns = Min (insert (-1) (set ts)), pc_max_ns = Max (insert 0 (set ts))\<rparr>"
proof (induction ts rule: rev_induct)
  case (snoc t ts)
  have "Min (insert (-1) (insert t (set ts))) = min (Min (insert (-1) (set ts))) t"
    by (simp add: insert_commute [of "-1" t] min.commute del: Min_insert) (simp add: min.commute)
  moreover have "Max (insert 0 (insert t (set ts))) = max (Max (insert 0 (set ts))) t"
    by (simp add: insert_commute [of 0 t] max.commute del: Max_insert) (simp add: max.commute)
  ultimately show ?case using snoc by (simp add: perf_record_def)
qed (simp add: PerfCounter_reset_def)

text \<open>The sum wraps around, and with it the mean.\<close>

lemma perf_total_wraps: "pc_total_ns (fold perf_record [2 ^ 63, 2 ^ 63] PerfCounter_reset) = 0"
  by (simp add: perf_record_def PerfCounter_reset_def)

section \<open>The logger\<close>

datatype LogLevel = DEBUG | INFO | WARNING | ERROR | FATAL

fun log_rank :: "LogLevel \<Rightarrow> nat" where
  "log_rank DEBUG = 0" | "log_rank INFO = 1" | "log_rank WARNING = 2" | "log_rank ERROR = 3" | "log_rank FATAL = 4"

fun log_prefix :: "LogLevel \<Rightarrow> string" where
  "log_prefix DEBUG = ''[DEBUG]''" | "log_prefix INFO = ''[INFO]''" | "log_prefix WARNING = ''[WARNING]''"
| "log_prefix ERROR = ''[ERROR]''" | "log_prefix FATAL = ''[FATAL]''"

record Logger =
  lg_level :: LogLevel
  lg_out :: string

definition Logger_new :: Logger where "Logger_new = \<lparr>lg_level = INFO, lg_out = []\<rparr>"
definition set_level :: "LogLevel \<Rightarrow> Logger \<Rightarrow> Logger" where "set_level l lg = lg\<lparr>lg_level := l\<rparr>"

definition log_message :: "LogLevel \<Rightarrow> string \<Rightarrow> Logger \<Rightarrow> Logger" where
  "log_message l msg lg = (if log_rank l < log_rank (lg_level lg) then lg
     else lg\<lparr>lg_out := lg_out lg @ log_prefix l @ '' '' @ msg @ [CHR 0x0A]\<rparr>)"

lemma log_filters:
  "lg_out (fold (\<lambda>(l, msg). log_message l msg) ms lg) =
    lg_out lg @ concat (map (\<lambda>(l, msg). log_prefix l @ '' '' @ msg @ [CHR 0x0A]) (filter (\<lambda>(l, msg). log_rank (lg_level lg) \<le> log_rank l) ms))"
proof (induction ms arbitrary: lg)
  case (Cons m ms)
  then show ?case by (cases m) (simp add: log_message_def)
qed simp

section \<open>The configuration\<close>

record CoreConfig =
  use_sse :: bool
  use_avx :: bool
  use_avx512 :: bool
  use_openmp :: bool
  num_threads :: size_t
  enable_profiling :: bool
  alignment :: size_t

record MemoryConfig =
  host_page_size :: size_t
  device_page_size :: size_t
  use_cuda_managed_memory :: bool
  memory_pool_size :: size_t

record DeviceConfig =
  cuda_device_id :: int
  cuda_allow_tf32 :: bool
  cuda_use_cublas :: bool
  cuda_stream_priority_min :: int
  cuda_stream_priority_max :: int

record SchedulerConfig =
  max_concurrent_tasks :: size_t
  task_queue_size :: size_t
  enable_work_stealing :: bool
  enable_task_fusion :: bool

record Config =
  cfg_name :: string
  cfg_version :: string
  cfg_core :: CoreConfig
  cfg_memory :: MemoryConfig
  cfg_device :: DeviceConfig
  cfg_scheduler :: SchedulerConfig

definition CoreConfig_default :: CoreConfig where
  "CoreConfig_default = \<lparr>use_sse = True, use_avx = True, use_avx512 = False, use_openmp = True, num_threads = 0,
     enable_profiling = False, alignment = kDefaultAlignment\<rparr>"

definition MemoryConfig_default :: MemoryConfig where
  "MemoryConfig_default = \<lparr>host_page_size = 4096, device_page_size = 4096, use_cuda_managed_memory = False, memory_pool_size = 0\<rparr>"

definition DeviceConfig_default :: DeviceConfig where
  "DeviceConfig_default = \<lparr>cuda_device_id = 0, cuda_allow_tf32 = True, cuda_use_cublas = True, cuda_stream_priority_min = 0, cuda_stream_priority_max = 0\<rparr>"

definition SchedulerConfig_default :: SchedulerConfig where
  "SchedulerConfig_default = \<lparr>max_concurrent_tasks = 16, task_queue_size = 1024, enable_work_stealing = True, enable_task_fusion = False\<rparr>"

definition Config_default :: Config where
  "Config_default = \<lparr>cfg_name = ''SciComputeInfra'', cfg_version = ''0.1.0'', cfg_core = CoreConfig_default, cfg_memory = MemoryConfig_default,
     cfg_device = DeviceConfig_default, cfg_scheduler = SchedulerConfig_default\<rparr>"

definition set_config :: "Config \<Rightarrow> Config \<Rightarrow> Config" where "set_config config old = config"

section \<open>Signatures of kernels\<close>

definition MakeKernelSignature :: "string \<Rightarrow> string \<Rightarrow> string" where
  "MakeKernelSignature op dtype = op @ ''_'' @ dtype"

definition MakeKernelSignature_DType :: "string \<Rightarrow> DType \<Rightarrow> string" where
  "MakeKernelSignature_DType op dtype = MakeKernelSignature op (kDTypeName dtype)"

definition kernel_names :: "string list" where
  "kernel_names = [''add'', ''mul'', ''sub'', ''div'', ''sum'', ''max'', ''min'', ''mean'', ''softmax'', ''log_softmax'',
     ''layer_norm'', ''rms_norm'', ''topk'', ''argmax'', ''sampling'']"

lemma kDTypeName_plain: "CHR ''_'' \<notin> set (kDTypeName d)"
  by (cases d) simp_all

text \<open>A signature made from an element type determines the operation and the type.\<close>

theorem kernel_signature_determines:
  "MakeKernelSignature_DType op d = MakeKernelSignature_DType op' d' \<longleftrightarrow> op = op' \<and> d = d'"
proof
  assume e: "MakeKernelSignature_DType op d = MakeKernelSignature_DType op' d'"
  have t: "takeWhile (\<lambda>c. c \<noteq> CHR ''_'') (rev (MakeKernelSignature_DType o1 x)) = rev (kDTypeName x)" for o1 x
    using kDTypeName_plain [of x] by (simp add: MakeKernelSignature_DType_def MakeKernelSignature_def takeWhile_append)
  from t [of op d] t [of op' d'] e have "kDTypeName d = kDTypeName d'" by (metis rev_rev_ident)
  then have "d = d'" using kDTypeName_inj by blast
  with e show "op = op' \<and> d = d'" by (simp add: MakeKernelSignature_DType_def MakeKernelSignature_def)
qed simp

text \<open>One made from two strings does not.\<close>

lemma kernel_signature_ambiguous: "MakeKernelSignature ''log_softmax'' ''f'' = MakeKernelSignature ''log'' ''softmax_f''"
  by (simp add: MakeKernelSignature_def)

section \<open>What the devices say of themselves\<close>

text \<open>\<open>std::to_string\<close>.\<close>

fun nat_string :: "nat \<Rightarrow> string" where
  "nat_string n = (if n < 10 then [char_of (48 + n)] else nat_string (n div 10) @ [char_of (48 + n mod 10)])"

declare nat_string.simps [simp del]

definition int_string :: "int \<Rightarrow> string" where
  "int_string i = (if i < 0 then ''-'' @ nat_string (nat (- i)) else nat_string (nat i))"

text \<open>
  What the runtime answers: the name and the memory of a device, the free memory of the current device, and
  whether a device has managed memory.
\<close>

record cuda_answers =
  ca_props :: "int \<Rightarrow> (string \<times> size_t) option"
  ca_mem_info :: "(size_t \<times> size_t) option"
  ca_managed :: "int \<Rightarrow> int option"

definition CudaDevice_available :: "cuda_api \<Rightarrow> int \<Rightarrow> bool" where
  "CudaDevice_available api i = cuda_available api i"

definition CudaDevice_name :: "cuda_api \<Rightarrow> cuda_answers \<Rightarrow> int \<Rightarrow> string" where
  "CudaDevice_name api q i = (let plain = ''CUDA:'' @ int_string i in
     if CudaDevice_available api i then (case ca_props q i of Some (name, _) \<Rightarrow> ''CUDA:'' @ int_string i @ '':'' @ name | None \<Rightarrow> plain) else plain)"

definition CudaDevice_total_memory :: "cuda_api \<Rightarrow> cuda_answers \<Rightarrow> int \<Rightarrow> size_t" where
  "CudaDevice_total_memory api q i =
     (if CudaDevice_available api i then (case ca_props q i of Some (_, bytes) \<Rightarrow> bytes | None \<Rightarrow> 0) else 0)"

definition CudaDevice_free_memory :: "cuda_api \<Rightarrow> cuda_answers \<Rightarrow> int \<Rightarrow> size_t" where
  "CudaDevice_free_memory api q i =
     (if CudaDevice_available api i then (case ca_mem_info q of Some (avail, _) \<Rightarrow> avail | None \<Rightarrow> 0) else 0)"

definition CudaDevice_supports_unified_memory :: "cuda_api \<Rightarrow> cuda_answers \<Rightarrow> int \<Rightarrow> bool" where
  "CudaDevice_supports_unified_memory api q i =
     (CudaDevice_available api i \<and> (case ca_managed q i of Some managed \<Rightarrow> managed \<noteq> 0 | None \<Rightarrow> False))"

definition CudaDevice_synchronize :: "cuda_api \<Rightarrow> ('w \<Rightarrow> 'w) \<Rightarrow> int \<Rightarrow> 'w \<Rightarrow> 'w" where
  "CudaDevice_synchronize api sync i w = (if CudaDevice_available api i then sync w else w)"

record sysinfo =
  sy_totalram :: size_t
  sy_freeram :: size_t
  sy_mem_unit :: size_t

definition CPUDevice_total_memory :: "sysinfo option \<Rightarrow> size_t" where
  "CPUDevice_total_memory info = (case info of Some i \<Rightarrow> sy_totalram i | None \<Rightarrow> 0)"

definition CPUDevice_free_memory :: "sysinfo option \<Rightarrow> size_t" where
  "CPUDevice_free_memory info = (case info of Some i \<Rightarrow> sy_freeram i | None \<Rightarrow> 0)"

text \<open>
  \<open>sysinfo\<close> counts in units of \<open>mem_unit\<close> bytes, which the code does not read; and the free memory is that of
  the current device, whichever device is asked.
\<close>

lemma cpu_memory_in_units:
  "CPUDevice_total_memory (Some (i\<lparr>sy_mem_unit := u\<rparr>)) = CPUDevice_total_memory (Some i)"
  by (simp add: CPUDevice_total_memory_def)

lemma free_memory_of_current_device:
  "CudaDevice_available api i \<Longrightarrow> CudaDevice_available api j \<Longrightarrow> CudaDevice_free_memory api q i = CudaDevice_free_memory api q j"
  by (simp add: CudaDevice_free_memory_def)

section \<open>Helpers of the CUDA bridge\<close>

text \<open>
  \<open>check_cuda_error\<close> with the text of the error, if there is one, and what is written to the error output; a stream
  the runtime made, or the null pointer; waiting for a stream, which the null pointer does not.
\<close>

definition check_cuda_error :: "string option \<Rightarrow> string \<Rightarrow> int \<Rightarrow> bool \<times> string" where
  "check_cuda_error err file line = (case err of
       Some msg \<Rightarrow> (False, ''CUDA error at '' @ file @ '':'' @ int_string line @ '': '' @ msg @ [CHR 0x0A])
     | None \<Rightarrow> (True, []))"

definition get_cuda_stream :: "ptr option \<Rightarrow> ptr" where
  "get_cuda_stream made = (case made of None \<Rightarrow> nullptr | Some stream \<Rightarrow> stream)"

definition cuda_stream_synchronize :: "(ptr \<Rightarrow> 'w \<Rightarrow> 'w) \<Rightarrow> ptr \<Rightarrow> 'w \<Rightarrow> 'w" where
  "cuda_stream_synchronize sync stream w = (if stream \<noteq> nullptr then sync stream w else w)"

text \<open>The runtime reads the null pointer as its default stream; the bridge does not wait for it.\<close>

lemma default_stream_not_awaited: "cuda_stream_synchronize sync nullptr w = w"
  by (simp add: cuda_stream_synchronize_def)

end
