(* ===== verification/Cuda_Allocator.thy ===== *)
theory Cuda_Allocator
  imports Gpu_Memory Devices
begin

text \<open>
  \<open>device/cuda_allocator.hpp\<close>: \<open>CudaDeviceAllocator\<close>, the \<open>Allocator\<close> of GPU memory, which asks whether the device is
  there and passes every call on to the one instance of \<open>CudaAllocator\<close>.
\<close>

section \<open>The allocator\<close>

text \<open>The instance of \<open>CudaAllocator\<close> may not exist yet; its first use constructs it.\<close>

datatype gpu_instance = Not_Made mem | Made gpu_world

definition gpu_use :: "gpu_runtime \<Rightarrow> int \<Rightarrow> gpu_instance \<Rightarrow> gpu_world comp" where
  "gpu_use rt device_id s = (case s of
       Not_Made m \<Rightarrow> CudaAllocator_Instance rt device_id None m
     | Made w \<Rightarrow> CudaAllocator_Instance rt device_id (Some w) (gw_mem w))"

text \<open>\<open>CudaDeviceAllocator::Instance\<close> keeps the device of its first call, too.\<close>

definition CudaDeviceAllocator_Instance :: "int \<Rightarrow> int option \<Rightarrow> int" where
  "CudaDeviceAllocator_Instance device_id kept = (case kept of None \<Rightarrow> device_id | Some i \<Rightarrow> i)"

definition cda_available :: "cuda_api \<Rightarrow> int \<Rightarrow> bool" where
  "cda_available api device_id = cuda_available api device_id"

definition cda_allocate :: "cuda_api \<Rightarrow> gpu_runtime \<Rightarrow> int \<Rightarrow> size_t \<Rightarrow> gpu_instance \<Rightarrow> (ptr \<times> gpu_instance) comp" where
  "cda_allocate api rt i bytes s = (if \<not> cda_available api i then Inr (nullptr, s)
     else rbind (gpu_use rt i s) (\<lambda>w. case allocate_device rt bytes w of (p, w') \<Rightarrow> Inr (p, Made w')))"

definition cda_deallocate :: "cuda_api \<Rightarrow> gpu_runtime \<Rightarrow> int \<Rightarrow> ptr \<Rightarrow> gpu_instance \<Rightarrow> gpu_instance comp" where
  "cda_deallocate api rt i p s = (if p = nullptr \<or> \<not> cda_available api i then Inr s
     else rbind (gpu_use rt i s) (\<lambda>w. rbind (deallocate_device rt p w) (\<lambda>w'. Inr (Made w'))))"

definition cda_allocated_bytes :: "cuda_api \<Rightarrow> gpu_runtime \<Rightarrow> int \<Rightarrow> gpu_instance \<Rightarrow> (size_t \<times> gpu_instance) comp" where
  "cda_allocated_bytes api rt i s = (if \<not> cda_available api i then Inr (0, s)
     else rbind (gpu_use rt i s) (\<lambda>w. Inr (current_bytes (ca_stats (gw_alloc w)), Made w)))"

definition cda_total_bytes :: "cuda_api \<Rightarrow> gpu_runtime \<Rightarrow> int \<Rightarrow> gpu_instance \<Rightarrow> (size_t \<times> gpu_instance) comp" where
  "cda_total_bytes api rt i s = (if \<not> cda_available api i then Inr (0, s)
     else rbind (gpu_use rt i s) (\<lambda>w. Inr (total_bytes (ca_stats (gw_alloc w)), Made w)))"

definition cda_clear :: "gpu_instance \<Rightarrow> gpu_instance" where "cda_clear s = s"

definition cda_stats :: "cuda_api \<Rightarrow> gpu_runtime \<Rightarrow> int \<Rightarrow> gpu_instance \<Rightarrow> (alloc_stats \<times> gpu_instance) comp" where
  "cda_stats api rt i s = (if \<not> cda_available api i then Inr (stats_zero, s)
     else rbind (gpu_use rt i s) (\<lambda>w. let t = ca_stats (gw_alloc w) in
       Inr (\<lparr>num_allocations = num_allocations t, num_deallocations = num_deallocations t, current_bytes = current_bytes t,
             peak_bytes = peak_bytes t, total_bytes = total_bytes t\<rparr>, Made w)))"

section \<open>What it promises\<close>

text \<open>
  On a device that is there, an allocation gives the null pointer and changes no region, or a new region of the
  GPU; freeing it leaves the regions and the count of live bytes as they were before.
\<close>

theorem cuda_device_allocator_returns:
  assumes rt: "runtime_ok rt (ca_device_id (gw_alloc w))" and inv: "gpu_inv rs0 w" and there: "cda_available api i"
  shows "\<exists>p w'. cda_allocate api rt i bytes (Made w) = Inr (p, Made w') \<and> gpu_inv rs0 w' \<and>
    (if p = nullptr then m_regions (gw_mem w') = m_regions (gw_mem w)
     else map_of (m_regions (gw_mem w)) p = None \<and>
       map_of (m_regions (gw_mem w')) p = Some (unat bytes, Gpu (ca_device_id (gw_alloc w))) \<and>
       (\<exists>w''. cda_deallocate api rt i p (Made w') = Inr (Made w'') \<and> gpu_inv rs0 w'' \<and>
         map_of (m_regions (gw_mem w'')) = map_of (m_regions (gw_mem w)) \<and>
         current_bytes (ca_stats (gw_alloc w'')) = current_bytes (ca_stats (gw_alloc w))))"
proof -
  have reg: "gpu_regions rs0 w" using inv by (simp add: gpu_inv_def)
  obtain p w' where al: "gpu_allocate rt KDevice bytes w = (p, w')" by (cases "gpu_allocate rt KDevice bytes w")
  note ok = gpu_allocate_ok [OF inv rt al]
  have a: "cda_allocate api rt i bytes (Made w) = Inr (p, Made w')"
    using there al reg by (simp add: cda_allocate_def gpu_use_def CudaAllocator_Instance_def allocate_device_def)
  show ?thesis
  proof (cases "p = nullptr")
    case True
    with a ok(1) ok(4) [OF True] show ?thesis by - (rule exI [of _ p], rule exI [of _ w'], simp)
  next
    case False
    note new = ok(3) [OF False]
    have reg': "gpu_regions rs0 w'" using ok(1) by (simp add: gpu_inv_def)
    have rt': "runtime_ok rt (ca_device_id (gw_alloc w'))" using rt ok(2) by simp
    have m: "map_of (ca_maps (gw_alloc w') KDevice) p = Some bytes" using new by (simp add: update_conv')
    from gpu_deallocate_ok(2) [OF ok(1) rt' False m] obtain w'' where
      d: "gpu_deallocate rt KDevice p w' = Inr w''" "gpu_inv rs0 w''" "gw_alloc w'' = gpu_forget KDevice p bytes (gw_alloc w')"
        "gw_mem w'' = (gw_mem w')\<lparr>m_regions := AList.delete p (m_regions (gw_mem w'))\<rparr>" by blast
    have "cda_deallocate api rt i p (Made w') = Inr (Made w'')"
      using False there d(1) reg' by (simp add: cda_deallocate_def gpu_use_def CudaAllocator_Instance_def deallocate_device_def)
    moreover have "map_of (m_regions (gw_mem w'')) = map_of (m_regions (gw_mem w))"
      using d(4) new by (auto simp: delete_conv' fun_eq_iff)
    moreover have "current_bytes (ca_stats (gw_alloc w'')) = current_bytes (ca_stats (gw_alloc w))" using d(3) new by simp
    moreover have "map_of (m_regions (gw_mem w')) p = Some (unat bytes, Gpu (ca_device_id (gw_alloc w)))" using new by simp
    moreover have "map_of (m_regions (gw_mem w)) p = None" using new by simp
    ultimately show ?thesis using a ok(1) False d(2)
      by - (rule exI [of _ p], rule exI [of _ w'], simp only: if_False simp_thms, rule exI [of _ w''], simp only: simp_thms)
  qed
qed

text \<open>
  The instance is that of the first device asked for: an allocator of another device passes its calls to the
  same instance, and gives memory of the first device.
\<close>

lemma second_device_gets_first:
  assumes "cda_available api j"
  shows "cda_allocate api rt j bytes (Made w) = (case allocate_device rt bytes w of (p, w') \<Rightarrow> Inr (p, Made w'))"
  using assms by (simp add: cda_allocate_def gpu_use_def CudaAllocator_Instance_def)

text \<open>A device that is not there any more frees nothing: the region stays.\<close>

lemma unavailable_keeps: "\<not> cda_available api i \<Longrightarrow> cda_deallocate api rt i p s = Inr s"
  by (simp add: cda_deallocate_def)

end
